(* ===== verification/Prelude.thy ===== *)
theory Prelude
  imports Main "HOL-Library.Word" "HOL-Library.AList"
begin

text \<open>
  Shared vocabulary of the development: the C++ base types the sources use (bytes, 32-bit
  integers in a byte array, \<open>std::string\<close>), the error values that stand for exceptions and
  undefined behaviour, and the generic lemmas the component theories share.
\<close>

section \<open>Collections of facts\<close>

named_theorems res_simps \<open>unfolding of results and their sequencing\<close>
named_theorems byte_simps \<open>lengths and round trips of byte encodings\<close>

section \<open>Results: values or errors\<close>

text \<open>
  Every operation that can throw, or whose C++ code would run into undefined behaviour,
  returns an \<open>error + 'a\<close>. \<open>RuntimeError\<close> carries the message of a thrown
  \<open>std::runtime_error\<close>; \<open>InvalidArgument\<close> and \<open>OutOfRange\<close> are the exceptions of
  \<open>std::stoi\<close>; \<open>BufferOverflow\<close> is a copy past the end of an array; \<open>BadIndex\<close> an access
  past the end of a vector; \<open>NullDeref\<close> a dereferenced null pointer; \<open>DivByZero\<close> an integer
  remainder by zero; \<open>OutOfFuel\<close> marks a recursion whose depth bound was too small.
\<close>

datatype error =
    RuntimeError string
  | InvalidArgument
  | OutOfRange
  | BufferOverflow
  | BadIndex
  | NullDeref
  | DivByZero
  | AssertFailed
  | OutOfFuel

type_synonym 'a res = "error + 'a"

fun ebind :: "'e + 'a \<Rightarrow> ('a \<Rightarrow> 'e + 'b) \<Rightarrow> 'e + 'b" where
  "ebind (Inl e) f = Inl e"
| "ebind (Inr x) f = f x"

lemma ebind_cong [fundef_cong]:
  "m = m' \<Longrightarrow> (\<And>x. m' = Inr x \<Longrightarrow> f x = f' x) \<Longrightarrow> ebind m f = ebind m' f'"
  by (cases m') auto

lemma ebind_Inr_conv [res_simps]: "ebind m f = Inr y \<longleftrightarrow> (\<exists>x. m = Inr x \<and> f x = Inr y)"
  by (cases m) auto

lemma ebind_assoc: "ebind (ebind m f) g = ebind m (\<lambda>x. ebind (f x) g)"
  by (cases m) auto

section \<open>Bytes\<close>

type_synonym byte = "8 word"
type_synonym bytes = "byte list"

definition byte_of_char :: "char \<Rightarrow> byte" where
  "byte_of_char c = of_nat (of_char c)"

definition char_of_byte :: "byte \<Rightarrow> char" where
  "char_of_byte b = char_of (unat b)"

definition string_bytes :: "string \<Rightarrow> bytes" where
  "string_bytes s = map byte_of_char s"

definition bytes_string :: "bytes \<Rightarrow> string" where
  "bytes_string bs = map char_of_byte bs"

text \<open>\<open>std::string(p)\<close> and \<open>s.c_str()\<close> stop at the first NUL.\<close>

definition NUL :: char where
  "NUL = char_of (0::nat)"

definition c_str :: "string \<Rightarrow> string" where
  "c_str s = takeWhile (\<lambda>c. c \<noteq> NUL) s"

text \<open>
  \<open>std::copy(src.begin(), src.end(), dst.begin() + off)\<close>: writing past the end of the
  destination array is undefined behaviour and reported as an error.
\<close>

definition copy_at :: "nat \<Rightarrow> 'a list \<Rightarrow> 'a list \<Rightarrow> 'a list res" where
  "copy_at off src dst =
     (if off + length src \<le> length dst
      then Inr (take off dst @ src @ drop (off + length src) dst)
      else Inl BufferOverflow)"

text \<open>The four bytes of an \<open>int\<close> in memory (little endian) and the value read back from them.\<close>

definition le32 :: "int \<Rightarrow> bytes" where
  "le32 v = map (\<lambda>i. word_of_int (drop_bit (8 * i) v)) [0..<4]"

definition rd32 :: "bytes \<Rightarrow> int" where
  "rd32 bs = signed_take_bit 31
     (uint (bs ! 0) + uint (bs ! 1) * 2 ^ 8 + uint (bs ! 2) * 2 ^ 16 + uint (bs ! 3) * 2 ^ 24)"

definition int32 :: "int \<Rightarrow> bool" where
  "int32 v \<longleftrightarrow> - (2 ^ 31) \<le> v \<and> v < 2 ^ 31"

text \<open>\<open>*(int*)(&a[off])\<close> as a value and as an assignment target.\<close>

definition get_int :: "nat \<Rightarrow> bytes \<Rightarrow> int" where
  "get_int off bs = rd32 (take 4 (drop off bs))"

definition put_int :: "nat \<Rightarrow> int \<Rightarrow> bytes \<Rightarrow> bytes" where
  "put_int off v bs = take off bs @ le32 v @ drop (off + 4) bs"

lemma unat_byte_less: "unat (x::byte) < 256"
  using unsigned_less [of x] by simp

lemma length_le32 [simp]: "length (le32 v) = 4"
  by (simp add: le32_def)

lemma byte_sum_take_bit:
  "take_bit 8 v + take_bit 8 (drop_bit 8 v) * 2 ^ 8 + take_bit 8 (drop_bit 16 v) * 2 ^ 16 +
     take_bit 8 (drop_bit 24 v) * 2 ^ 24 = take_bit 32 (v::int)"
proof -
  have *: "take_bit n w + take_bit m (drop_bit n w) * 2 ^ n = take_bit (n + m) w" for n m and w :: int
    by (simp add: take_bit_eq_mod drop_bit_eq_div power_add zmod_zmult2_eq)
  have "take_bit 8 v + take_bit 8 (drop_bit 8 v) * 2 ^ 8 = take_bit 16 v"
    using * [of 8 v 8] by simp
  moreover have "take_bit 16 v + take_bit 8 (drop_bit 16 v) * 2 ^ 16 = take_bit 24 v"
    using * [of 16 v 8] by simp
  moreover have "take_bit 24 v + take_bit 8 (drop_bit 24 v) * 2 ^ 24 = take_bit 32 v"
    using * [of 24 v 8] by simp
  ultimately show ?thesis by simp
qed

lemma le32_nths:
  "le32 v = [word_of_int v, word_of_int (drop_bit 8 v), word_of_int (drop_bit 16 v),
             word_of_int (drop_bit 24 v)]"
  by (simp add: le32_def upt_rec)

lemma rd32_le32_mod: "rd32 (le32 v) = signed_take_bit 31 v"
proof -
  have "rd32 (le32 v) = signed_take_bit 31 (take_bit 32 v)"
    unfolding rd32_def le32_nths
    by (simp only: nth_Cons_0 nth_Cons_Suc numeral_2_eq_2 numeral_3_eq_3 One_nat_def
        uint_word_of_int_eq byte_sum_take_bit [symmetric]) simp
  then show ?thesis
    by (simp add: signed_take_bit_take_bit)
qed

lemma int32_signed_take_bit: "int32 v \<Longrightarrow> signed_take_bit 31 v = v"
  by (auto simp: int32_def intro!: signed_take_bit_int_eq_self)

lemma rd32_le32 [byte_simps]: "int32 v \<Longrightarrow> rd32 (le32 v) = v"
  by (simp add: rd32_le32_mod int32_signed_take_bit)

lemma length_put_int [simp]: "off + 4 \<le> length bs \<Longrightarrow> length (put_int off v bs) = length bs"
  by (simp add: put_int_def)

lemma get_put_int [byte_simps]:
  "off + 4 \<le> length bs \<Longrightarrow> int32 v \<Longrightarrow> get_int off (put_int off v bs) = v"
  by (simp add: get_int_def put_int_def rd32_le32)

lemma nth_put_int_other:
  "off + 4 \<le> length bs \<Longrightarrow> i < off \<or> off + 4 \<le> i \<Longrightarrow> i < length bs \<Longrightarrow>
     put_int off v bs ! i = bs ! i"
  by (auto simp: put_int_def nth_append)

lemma take_put_int [simp]: "off \<le> length bs \<Longrightarrow> take off (put_int off v bs) = take off bs"
  by (simp add: put_int_def)

lemma le32_inj: "int32 v \<Longrightarrow> int32 w \<Longrightarrow> le32 v = le32 w \<longleftrightarrow> v = w"
  by (metis rd32_le32)

lemma le32_int_range: "int32 (rd32 bs)"
  using signed_take_bit_int_less_exp [of 31] signed_take_bit_int_greater_eq_minus_exp [of 31]
  by (simp add: rd32_def int32_def)

lemma byte_char [simp]: "char_of_byte (byte_of_char c) = c"
proof -
  have "(of_char c :: nat) < 256" by (rule nat_of_char_less_256)
  then have "unat (of_nat (of_char c) :: byte) = of_char c"
    by (simp add: unat_of_nat)
  then show ?thesis by (simp add: char_of_byte_def byte_of_char_def)
qed

lemma char_byte [simp]: "byte_of_char (char_of_byte b) = b"
proof -
  have "unat b < 256" using unsigned_less [of b] by simp
  then show ?thesis by (simp add: char_of_byte_def byte_of_char_def)
qed

lemma string_bytes_inverse [simp]: "bytes_string (string_bytes s) = s"
  by (simp add: string_bytes_def bytes_string_def comp_def)

lemma bytes_string_inverse [simp]: "string_bytes (bytes_string bs) = bs"
  by (simp add: string_bytes_def bytes_string_def comp_def)

lemma length_string_bytes [simp]: "length (string_bytes s) = length s"
  by (simp add: string_bytes_def)

lemma length_bytes_string [simp]: "length (bytes_string s) = length s"
  by (simp add: bytes_string_def)

lemma string_bytes_append [simp]: "string_bytes (s @ t) = string_bytes s @ string_bytes t"
  by (simp add: string_bytes_def)

lemma bytes_string_append [simp]: "bytes_string (s @ t) = bytes_string s @ bytes_string t"
  by (simp add: bytes_string_def)

lemma bytes_string_Cons [simp]: "bytes_string (b # bs) = char_of_byte b # bytes_string bs"
  by (simp add: bytes_string_def)

lemma byte_of_char_NUL [simp]: "byte_of_char c = 0 \<longleftrightarrow> c = NUL"
proof
  assume "byte_of_char c = 0"
  then have "char_of_byte 0 = c" using byte_char [of c] by simp
  then show "c = NUL" by (simp add: char_of_byte_def NUL_def)
next
  assume "c = NUL"
  then show "byte_of_char c = 0" by (simp add: byte_of_char_def NUL_def)
qed

lemma char_of_byte_NUL [simp]: "char_of_byte b = NUL \<longleftrightarrow> b = 0"
  by (metis byte_of_char_NUL char_byte)

lemma NUL_char: "NUL = CHR 0x00"
  by code_simp

lemma c_str_id: "NUL \<notin> set s \<Longrightarrow> c_str s = s"
  by (simp add: c_str_def takeWhile_eq_all_conv) metis

lemma c_str_pad: "NUL \<notin> set s \<Longrightarrow> c_str (s @ replicate n NUL) = s"
  unfolding c_str_def by (induction s) (cases n, auto)

lemma bytes_string_replicate_0 [simp]: "bytes_string (replicate n 0) = replicate n NUL"
  by (simp add: bytes_string_def)

lemma copy_at_0: "length src \<le> length dst \<Longrightarrow> copy_at 0 src dst = Inr (src @ drop (length src) dst)"
  by (simp add: copy_at_def)

lemma copy_at_length: "copy_at off src dst = Inr d \<Longrightarrow> length d = length dst"
  by (auto simp: copy_at_def split: if_splits)

section \<open>Association lists as hash maps\<close>

lemma map_of_update_apply: "map_of (AList.update k v al) k' = (if k = k' then Some v else map_of al k')"
  by (simp add: update_conv')

lemma map_of_delete_apply: "map_of (AList.delete k al) k' = (if k = k' then None else map_of al k')"
  by (simp add: delete_conv')

end
