(* ===== verification/Aes.thy ===== *)
theory Aes
  imports Prelude
begin

text \<open>
  The block encryption wrapper \<open>AES\<close> (\<open>AES.hpp\<close>, \<open>AES.cpp\<close>) and the untrusted storage
  \<open>RAMStore\<close>. The OpenSSL calls inside \<open>EncryptBytes\<close> and \<open>DecryptBytes\<close> are the parameters
  \<open>enc\<close> and \<open>dec\<close> (key, IV, input); what the wrapper relies on is \<open>cipher_ok\<close>: CBC mode
  with PKCS\#7 padding extends a plaintext to the next multiple of 16 bytes, always adding
  at least one byte, and decryption under the same key and IV undoes encryption.
\<close>

type_synonym cipher = "bytes \<Rightarrow> bytes \<Rightarrow> bytes \<Rightarrow> bytes"

definition IV :: nat where "IV = 16"

definition GetCiphertextLength :: "nat \<Rightarrow> nat" where
  "GetCiphertextLength plen = (plen div 16 + 1) * 16"

definition cipher_ok :: "cipher \<Rightarrow> cipher \<Rightarrow> bool" where
  "cipher_ok enc dec \<longleftrightarrow>
     (\<forall>k iv p. length iv = 16 \<longrightarrow>
        length (enc k iv p) = (length p div 16 + 1) * 16 \<and> dec k iv (enc k iv p) = p)"

text \<open>
  \<open>EncryptBytes\<close> hands the first \<open>plen\<close> bytes of the plaintext to the library, which writes
  the ciphertext over the start of the caller's buffer and reports its length. A read past
  the end of the plaintext or a write past the end of the buffer is undefined behaviour.
\<close>

definition EncryptBytes :: "cipher \<Rightarrow> bytes \<Rightarrow> bytes \<Rightarrow> bytes \<Rightarrow> nat \<Rightarrow> bytes \<Rightarrow> (nat \<times> bytes) res" where
  "EncryptBytes enc key iv plaintext plen buf =
     (if length plaintext < plen then Inl BadIndex
      else let ct = enc key iv (take plen plaintext)
           in ebind (copy_at 0 ct buf) (\<lambda>buf'. Inr (length ct, buf')))"

definition DecryptBytes :: "cipher \<Rightarrow> bytes \<Rightarrow> bytes \<Rightarrow> bytes \<Rightarrow> nat \<Rightarrow> bytes \<Rightarrow> (nat \<times> bytes) res" where
  "DecryptBytes dec key iv ciphertext clen buf =
     (if length ciphertext < clen then Inl BadIndex
      else let pt = dec key iv (take clen ciphertext)
           in ebind (copy_at 0 pt buf) (\<lambda>buf'. Inr (length pt, buf')))"

definition EncryptBlock :: "cipher \<Rightarrow> bytes \<Rightarrow> bytes \<Rightarrow> bytes \<Rightarrow> nat \<Rightarrow> nat \<Rightarrow> bytes res" where
  "EncryptBlock enc key iv plaintext clen_size plaintext_size =
     ebind (EncryptBytes enc key iv plaintext plaintext_size (replicate clen_size 0))
       (\<lambda>(_, ciphertext). Inr ciphertext)"

text \<open>\<open>plaintext.resize(plen)\<close> trims the buffer (or extends it with zeros).\<close>

definition DecryptBlock :: "cipher \<Rightarrow> bytes \<Rightarrow> bytes \<Rightarrow> bytes \<Rightarrow> nat \<Rightarrow> bytes res" where
  "DecryptBlock dec key iv ciphertext clen_size =
     ebind (DecryptBytes dec key iv ciphertext clen_size (replicate clen_size 0))
       (\<lambda>(plen, plaintext). Inr (take plen plaintext @ replicate (plen - length plaintext) 0))"

text \<open>\<open>iv\<close> is what \<open>GenerateIV\<close> drew; it is appended to the ciphertext.\<close>

definition Encrypt :: "cipher \<Rightarrow> bytes \<Rightarrow> bytes \<Rightarrow> bytes \<Rightarrow> nat \<Rightarrow> nat \<Rightarrow> bytes res" where
  "Encrypt enc iv key plaintext clen_size plaintext_size =
     ebind (EncryptBlock enc key iv plaintext clen_size plaintext_size)
       (\<lambda>ciphertext. Inr (ciphertext @ iv))"

definition Decrypt :: "cipher \<Rightarrow> bytes \<Rightarrow> bytes \<Rightarrow> nat \<Rightarrow> bytes res" where
  "Decrypt dec key ciphertext clen_size =
     (if length ciphertext < IV then Inl BadIndex
      else DecryptBlock dec key (drop (length ciphertext - IV) ciphertext) ciphertext clen_size)"

section \<open>Decryption undoes encryption\<close>

lemma Encrypt_eq:
  assumes "cipher_ok enc dec" "length iv = 16" "length b = plen"
  shows "Encrypt enc iv key b (GetCiphertextLength plen) plen = Inr (enc key iv b @ iv)"
proof -
  have "length (enc key iv b) = GetCiphertextLength plen"
    using assms by (simp add: cipher_ok_def GetCiphertextLength_def)
  then show ?thesis
    using assms by (simp add: Encrypt_def EncryptBlock_def EncryptBytes_def copy_at_0 Let_def)
qed

lemma GetCiphertextLength_greater: "plen < GetCiphertextLength plen"
  by (simp add: GetCiphertextLength_def)

lemma Decrypt_Encrypt:
  assumes "cipher_ok enc dec" "length iv = 16" "length b = plen"
  shows "ebind (Encrypt enc iv key b (GetCiphertextLength plen) plen)
           (\<lambda>c. Decrypt dec key c (GetCiphertextLength plen)) = Inr b"
proof -
  have len: "length (enc key iv b) = GetCiphertextLength plen"
    using assms by (simp add: cipher_ok_def GetCiphertextLength_def)
  have dec: "dec key iv (enc key iv b) = b" using assms by (simp add: cipher_ok_def)
  have "plen < GetCiphertextLength plen" by (rule GetCiphertextLength_greater)
  then show ?thesis
    using assms(2,3) len dec
    by (simp add: Encrypt_eq [OF assms] Decrypt_def IV_def DecryptBlock_def DecryptBytes_def
        copy_at_0 Let_def)
qed

text \<open>A concrete cipher that satisfies the contract: padding alone.\<close>

definition pad_enc :: cipher where
  "pad_enc k iv p = (let m = 16 - length p mod 16 in p @ replicate m (of_nat m))"

definition pad_dec :: cipher where
  "pad_dec k iv c = take (length c - unat (last c)) c"

lemma cipher_ok_pad: "cipher_ok pad_enc pad_dec"
proof -
  have "length (pad_enc k iv p) = (length p div 16 + 1) * 16" for k iv p
    by (simp add: pad_enc_def Let_def) presburger
  moreover have "pad_dec k iv (pad_enc k iv p) = p" for k iv p
  proof -
    let ?m = "16 - length p mod 16"
    have small: "unat (of_nat m :: byte) = m" if "m \<le> 16" for m
      using that by (simp add: unat_of_nat)
    have "0 < ?m" "unat (of_nat ?m :: byte) = ?m" by (simp, rule small) simp
    then show ?thesis by (simp add: pad_dec_def pad_enc_def Let_def del: of_nat_diff)
  qed
  ultimately show ?thesis by (simp add: cipher_ok_def)
qed

section \<open>The untrusted store\<close>

text \<open>
  \<open>rs_empty\<close> is the counter \<open>emptyNodes\<close> that only Horus' copy of the class has: it starts at
  the number of blocks and is decremented for every block written.
\<close>

record ramstore =
  rs_store :: "bytes list"
  rs_size :: nat
  rs_empty :: nat

definition RAMStore_new :: "nat \<Rightarrow> nat \<Rightarrow> ramstore" where
  "RAMStore_new count sz = \<lparr>rs_store = replicate count [], rs_size = sz, rs_empty = count\<rparr>"

definition RAMStore_Read :: "ramstore \<Rightarrow> int \<Rightarrow> bytes res" where
  "RAMStore_Read s pos =
     (if 0 \<le> pos \<and> nat pos < length (rs_store s) then Inr (rs_store s ! nat pos) else Inl BadIndex)"

definition RAMStore_Write :: "ramstore \<Rightarrow> int \<Rightarrow> bytes \<Rightarrow> ramstore res" where
  "RAMStore_Write s pos b =
     (if 0 \<le> pos \<and> nat pos < length (rs_store s)
      then Inr (s\<lparr>rs_store := (rs_store s)[nat pos := b]\<rparr>) else Inl BadIndex)"

definition ReduceEmptyNumbers :: "ramstore \<Rightarrow> ramstore" where
  "ReduceEmptyNumbers s = s\<lparr>rs_empty := rs_empty s - 1\<rparr>"

definition GetEmptySize :: "ramstore \<Rightarrow> nat" where
  "GetEmptySize s = rs_empty s"

definition GetBlockCount :: "ramstore \<Rightarrow> nat" where
  "GetBlockCount s = length (rs_store s)"

definition GetBlockSize :: "ramstore \<Rightarrow> nat" where
  "GetBlockSize s = rs_size s"

lemma RAMStore_Read_Write:
  "RAMStore_Write s pos b = Inr s' \<Longrightarrow>
     RAMStore_Read s' pos' = (if pos' = pos then Inr b else RAMStore_Read s pos')"
  by (auto simp: RAMStore_Write_def RAMStore_Read_def split: if_splits)

section \<open>Properties\<close>

text \<open>
  (C24) Decrypting what \<open>Encrypt\<close> returns gives the plaintext back, for every plaintext
  length, every key and every initialisation vector, and no buffer of the two routines
  overflows.
\<close>

theorem aes_roundtrip:
  assumes "cipher_ok enc dec" "length iv = 16" "length b = plen"
  shows "ebind (Encrypt enc iv key b (GetCiphertextLength plen) plen)
           (\<lambda>c. Decrypt dec key c (GetCiphertextLength plen)) = Inr b"
  using assms by (rule Decrypt_Encrypt)

theorem aes_roundtrip_witness:
  "ebind (Encrypt pad_enc (replicate 16 7) [1] [1, 2, 3] (GetCiphertextLength 3) 3)
     (\<lambda>c. Decrypt pad_dec [1] c (GetCiphertextLength 3)) = Inr [1, 2, 3]"
  using aes_roundtrip [OF cipher_ok_pad, of "replicate 16 7" "[1, 2, 3]" 3 "[1]"] by simp

end
