(* ===== verification/Cpp_Strings.thy ===== *)
theory Cpp_Strings
  imports Prelude
begin

text \<open>
  The conversions between integers and text the sources use (\<open>std::to_string\<close>,
  \<open>std::stoi\<close>) and \<open>Utilities::splitData\<close>, with which the counter strings
  \<open>"7-2"\<close> kept in the oblivious maps are taken apart.
\<close>

section \<open>Decimal text\<close>

definition digit_char :: "nat \<Rightarrow> char" where
  "digit_char d = char_of (48 + d)"

definition digit_val :: "char \<Rightarrow> nat" where
  "digit_val c = of_char c - 48"

definition is_digit :: "char \<Rightarrow> bool" where
  "is_digit c \<longleftrightarrow> 48 \<le> (of_char c :: nat) \<and> (of_char c :: nat) \<le> 57"

definition is_space :: "char \<Rightarrow> bool" where
  "is_space c \<longleftrightarrow> (of_char c :: nat) = 32 \<or> (9 \<le> (of_char c :: nat) \<and> (of_char c :: nat) \<le> 13)"

fun show_nat :: "nat \<Rightarrow> string" where
  "show_nat n = (if n < 10 then [digit_char n] else show_nat (n div 10) @ [digit_char (n mod 10)])"

declare show_nat.simps [simp del]

definition to_string :: "int \<Rightarrow> string" where
  "to_string v = (if v < 0 then CHR ''-'' # show_nat (nat (- v)) else show_nat (nat v))"

definition digits_val :: "string \<Rightarrow> nat" where
  "digits_val s = foldl (\<lambda>a c. 10 * a + digit_val c) 0 s"

text \<open>
  \<open>std::stoi\<close>: leading white space, an optional sign, then the longest run of digits;
  what follows is ignored. No digit raises \<open>invalid_argument\<close>, a value outside the range of
  \<open>int\<close> raises \<open>out_of_range\<close>.
\<close>

definition stoi :: "string \<Rightarrow> int res" where
  "stoi s =
     (let t = dropWhile is_space s;
          neg = (t \<noteq> [] \<and> hd t = CHR ''-'');
          u = (if t \<noteq> [] \<and> (hd t = CHR ''-'' \<or> hd t = CHR ''+'') then tl t else t);
          ds = takeWhile is_digit u
      in if ds = [] then Inl InvalidArgument
         else let v = (if neg then - int (digits_val ds) else int (digits_val ds))
              in if int32 v then Inr v else Inl OutOfRange)"

lemma of_char_digit_char [simp]: "d < 10 \<Longrightarrow> (of_char (digit_char d) :: nat) = 48 + d"
  by (simp add: digit_char_def)

lemma digit_char_facts [simp]:
  "d < 10 \<Longrightarrow> is_digit (digit_char d)"
  "d < 10 \<Longrightarrow> digit_val (digit_char d) = d"
  "d < 10 \<Longrightarrow> \<not> is_space (digit_char d)"
  by (auto simp: is_digit_def digit_val_def is_space_def)

lemma show_nat_digits: "\<forall>c\<in>set (show_nat n). is_digit c"
  by (induction n rule: show_nat.induct) (subst show_nat.simps, auto)

lemma show_nat_nonempty [simp]: "show_nat n \<noteq> []"
  by (subst show_nat.simps) simp

lemma digits_val_show_nat: "digits_val (show_nat n) = n"
proof (induction n rule: show_nat.induct)
  case (1 n)
  show ?case
  proof (cases "n < 10")
    case True
    then show ?thesis by (subst show_nat.simps) (simp add: digits_val_def)
  next
    case False
    then have "digits_val (show_nat (n div 10)) = n div 10" by (rule "1.IH")
    with False show ?thesis
      by (subst show_nat.simps) (simp add: digits_val_def)
  qed
qed

definition starts_digit :: "string \<Rightarrow> bool" where
  "starts_digit s \<longleftrightarrow> s \<noteq> [] \<and> is_digit (hd s)"

lemma takeWhile_digits_append:
  "\<forall>c\<in>set s. is_digit c \<Longrightarrow> \<not> starts_digit r \<Longrightarrow> takeWhile is_digit (s @ r) = s"
  by (induction s) (cases r, auto simp: starts_digit_def)

lemma digit_not_sign: "is_digit c \<Longrightarrow> c \<noteq> CHR ''-'' \<and> c \<noteq> CHR ''+'' \<and> \<not> is_space c \<and> c \<noteq> NUL"
  by (auto simp: is_digit_def is_space_def NUL_def)

lemma stoi_digits:
  assumes "\<forall>c\<in>set s. is_digit c" "s \<noteq> []" "\<not> starts_digit r" "digits_val s < 2 ^ 31"
  shows "stoi (s @ r) = Inr (int (digits_val s))"
proof -
  obtain c cs where s: "s = c # cs" using assms(2) by (cases s) auto
  have tw: "takeWhile is_digit (s @ r) = s" using assms by (intro takeWhile_digits_append) auto
  have "int32 (int (digits_val s))" using assms(4) by (simp add: int32_def)
  moreover have c: "\<not> is_space c" "c \<noteq> CHR ''-''" "c \<noteq> CHR ''+''"
    using assms(1) s digit_not_sign by auto
  moreover have "dropWhile is_space (s @ r) = s @ r" using s c by simp
  ultimately show ?thesis using tw by (simp add: stoi_def s Let_def)
qed

lemma stoi_neg_digits:
  assumes "\<forall>c\<in>set s. is_digit c" "s \<noteq> []" "\<not> starts_digit r" "digits_val s \<le> 2 ^ 31"
  shows "stoi (CHR ''-'' # s @ r) = Inr (- int (digits_val s))"
proof -
  have tw: "takeWhile is_digit (s @ r) = s" using assms by (intro takeWhile_digits_append) auto
  have "int32 (- int (digits_val s))" using assms(4) by (simp add: int32_def)
  moreover have "dropWhile is_space (CHR ''-'' # s @ r) = CHR ''-'' # s @ r" by (simp add: is_space_def)
  ultimately show ?thesis using tw assms(2) by (simp add: stoi_def Let_def)
qed

lemma stoi_to_string_append:
  assumes "int32 v" "\<not> starts_digit r"
  shows "stoi (to_string v @ r) = Inr v"
proof (cases "v < 0")
  case True
  have "nat (- v) \<le> 2 ^ 31" using assms(1) by (simp add: int32_def nat_le_iff)
  then have "stoi (CHR ''-'' # show_nat (nat (- v)) @ r) = Inr (- int (digits_val (show_nat (nat (- v)))))"
    using assms(2) show_nat_digits by (intro stoi_neg_digits) (auto simp: digits_val_show_nat)
  with True show ?thesis by (simp add: to_string_def digits_val_show_nat)
next
  case False
  have "nat v < 2 ^ 31" using assms(1) False by (simp add: int32_def nat_less_iff)
  then have "stoi (show_nat (nat v) @ r) = Inr (int (digits_val (show_nat (nat v))))"
    using assms(2) show_nat_digits by (intro stoi_digits) (auto simp: digits_val_show_nat)
  with False show ?thesis by (simp add: to_string_def digits_val_show_nat)
qed

lemma stoi_to_string [simp]: "int32 v \<Longrightarrow> stoi (to_string v) = Inr v"
  using stoi_to_string_append [of v "[]"] by (simp add: starts_digit_def)

lemma starts_digit_simps [simp]:
  "\<not> starts_digit []" "starts_digit (c # s) \<longleftrightarrow> is_digit c"
  by (simp_all add: starts_digit_def)

section \<open>Splitting at a delimiter\<close>

text \<open>\<open>str.find(delim, prev)\<close>: the first index from \<open>prev\<close> on at which \<open>delim\<close> occurs.\<close>

definition find_from :: "string \<Rightarrow> string \<Rightarrow> nat \<Rightarrow> nat option" where
  "find_from str delim prev =
     find (\<lambda>i. take (length delim) (drop i str) = delim) [prev..<Suc (length str)]"

text \<open>
  The do-while loop of \<open>splitData\<close>. With an empty delimiter \<open>prev\<close> does not advance, so the
  loop is a partial function: \<open>None\<close> is a run that does not end.
\<close>

partial_function (option) splitData_loop ::
  "string \<Rightarrow> string \<Rightarrow> nat \<Rightarrow> string list \<Rightarrow> string list option" where
  "splitData_loop str delim prev tokens =
     (let pos = (case find_from str delim prev of None \<Rightarrow> length str | Some p \<Rightarrow> p);
          token = take (pos - prev) (drop prev str);
          tokens' = (if token \<noteq> [] then tokens @ [token] else tokens);
          prev' = pos + length delim
      in if pos < length str \<and> prev' < length str
         then splitData_loop str delim prev' tokens'
         else Some tokens')"

declare splitData_loop.simps [code]

definition splitData :: "string \<Rightarrow> string \<Rightarrow> string list option" where
  "splitData str delim = splitData_loop str delim 0 []"

text \<open>The pieces between the delimiters, empty ones included.\<close>

fun split_on :: "char \<Rightarrow> string \<Rightarrow> string list" where
  "split_on c [] = [[]]"
| "split_on c (x # xs) =
     (if x = c then [] # split_on c xs
      else (case split_on c xs of [] \<Rightarrow> [[x]] | t # ts \<Rightarrow> (x # t) # ts))"

lemma split_on_nonempty [simp]: "split_on c s \<noteq> []"
  by (induction s) (auto split: list.splits)

lemma split_on_no_delim: "c \<notin> set a \<Longrightarrow> split_on c a = [a]"
  by (induction a) auto

lemma split_on_delim: "c \<notin> set a \<Longrightarrow> split_on c (a @ c # b) = a # split_on c b"
  by (induction a) auto

lemma find_append_skip: "\<forall>x\<in>set xs. \<not> P x \<Longrightarrow> find P (xs @ ys) = find P ys"
  by (induction xs) auto

lemma find_from_hit:
  assumes "drop prev str = a @ c # b" "c \<notin> set a"
  shows "find_from str [c] prev = Some (prev + length a)"
proof -
  let ?i = "prev + length a"
  let ?P = "\<lambda>i. take (length [c]) (drop i str) = [c]"
  have len: "?i < length str"
    using arg_cong [OF assms(1), of length] by simp
  have no: "\<not> ?P j" if "j \<in> set [prev..<?i]" for j
  proof -
    from that obtain k where k: "j = prev + k" "k < length a"
      by (auto simp: le_iff_add)
    then have "drop j str = drop k (a @ c # b)" using assms(1) by (metis drop_drop add.commute)
    moreover have "drop k (a @ c # b) = a ! k # drop (Suc k) (a @ c # b)"
      using k by (simp add: Cons_nth_drop_Suc [symmetric])
    moreover have "a ! k \<noteq> c" using assms(2) k by (metis nth_mem)
    ultimately show ?thesis by simp
  qed
  have yes: "?P ?i"
    using assms(1) by (metis add.commute append_eq_conv_conj drop_drop length_Cons list.size(3)
        One_nat_def take_Suc_Cons take0)
  have split: "[prev..<Suc (length str)] = [prev..<?i] @ ?i # [Suc ?i..<Suc (length str)]"
    using len upt_add_eq_append [of prev ?i "Suc (length str) - ?i"] upt_conv_Cons [of ?i "Suc (length str)"]
    by simp
  show ?thesis
    unfolding find_from_def split
    using no yes by (subst find_append_skip) auto
qed

lemma find_from_miss:
  assumes "c \<notin> set (drop prev str)"
  shows "find_from str [c] prev = None"
proof -
  have "take (length [c]) (drop j str) \<noteq> [c]" if "prev \<le> j" for j
  proof
    assume "take (length [c]) (drop j str) = [c]"
    then have "c \<in> set (drop j str)" by (metis in_set_takeD list.set_intros(1))
    with that have "c \<in> set (drop prev str)" by (meson set_drop_subset_set_drop subsetD)
    with assms show False by contradiction
  qed
  then show ?thesis by (auto simp: find_from_def find_None_iff)
qed

lemma splitData_loop_eq:
  assumes "prev \<le> length str"
  shows "splitData_loop str [c] prev toks =
           Some (toks @ filter (\<lambda>t. t \<noteq> []) (split_on c (drop prev str)))"
  using assms
proof (induction "length str - prev" arbitrary: prev toks rule: less_induct)
  case less
  show ?case
  proof (cases "c \<in> set (drop prev str)")
    case False
    then show ?thesis
      using find_from_miss [OF False] split_on_no_delim [OF False]
      by (subst splitData_loop.simps) (auto simp: Let_def)
  next
    case True
    then obtain a b where ab: "drop prev str = a @ c # b" "c \<notin> set a"
      using split_list_first by metis
    have f: "find_from str [c] prev = Some (prev + length a)" using find_from_hit [OF ab] .
    have len: "length str = prev + length a + 1 + length b"
      using arg_cong [OF ab(1), of length] less.prems by simp
    have dr: "drop (prev + length a + 1) str = b"
      using ab(1) by (metis (no_types) add.commute add.assoc append_eq_conv_conj drop_drop
          drop_Suc_Cons drop0 One_nat_def plus_1_eq_Suc)
    let ?toks = "if a \<noteq> [] then toks @ [a] else toks"
    show ?thesis
    proof (cases "b = []")
      case True
      then show ?thesis
        using f len ab by (subst splitData_loop.simps) (auto simp: Let_def split_on_delim)
    next
      case False
      then have "splitData_loop str [c] (prev + length a + 1) ?toks =
                   Some (?toks @ filter (\<lambda>t. t \<noteq> []) (split_on c b))"
        using less.hyps [of "prev + length a + 1" ?toks] len dr by simp
      with False show ?thesis
        using f len ab by (subst splitData_loop.simps) (auto simp: Let_def split_on_delim)
    qed
  qed
qed

lemma splitData_single: "splitData str [c] = Some (filter (\<lambda>t. t \<noteq> []) (split_on c str))"
  using splitData_loop_eq [of 0 str c "[]"] by (simp add: splitData_def)

section \<open>Properties\<close>


end
