(* ===== verification/Utilities.thy ===== *)
theory Utilities
  imports Aes Cpp_Strings
begin

unbundle bit_operations_syntax

text \<open>
  The static helpers of \<open>utils/Utilities.cpp\<close> and \<open>utils/utils.cpp\<close>, \<open>utils.hpp\<close> that the
  schemes build on: base64, byte-wise exclusive or, hexadecimal output, and the
  fixed-width encryption \<open>encode\<close>/\<open>decode\<close> of 15 bytes into one AES-CBC block. The
  cipher behind \<open>EVP_aes_128_cbc\<close> is the parameter of \<open>Aes\<close>; stack bytes the code
  reads without having written them are parameters too.
\<close>

section \<open>Base64\<close>

definition base64_chars :: string where
  "base64_chars =
     ''ABCDEFGHIJKLMNOPQRSTUVWXYZ'' @ ''abcdefghijklmnopqrstuvwxyz'' @ ''0123456789+/''"

definition is_alnum :: "char \<Rightarrow> bool" where
  "is_alnum c \<longleftrightarrow> (let n = of_char c :: nat in
     (48 \<le> n \<and> n \<le> 57) \<or> (65 \<le> n \<and> n \<le> 90) \<or> (97 \<le> n \<and> n \<le> 122))"

definition is_base64 :: "char \<Rightarrow> bool" where
  "is_base64 c \<longleftrightarrow> is_alnum c \<or> c = CHR ''+'' \<or> c = CHR ''/''"

text \<open>The four 6-bit groups of three bytes, and the three bytes of four groups.\<close>

definition char_array_4 :: "byte \<Rightarrow> byte \<Rightarrow> byte \<Rightarrow> bytes" where
  "char_array_4 a b c =
     [drop_bit 2 (a AND 0xFC), push_bit 4 (a AND 3) + drop_bit 4 (b AND 0xF0),
      push_bit 2 (b AND 0xF) + drop_bit 6 (c AND 0xC0), c AND 0x3F]"

definition char_array_3 :: "byte \<Rightarrow> byte \<Rightarrow> byte \<Rightarrow> byte \<Rightarrow> bytes" where
  "char_array_3 p q r s =
     [push_bit 2 p + drop_bit 4 (q AND 0x30), push_bit 4 (q AND 0xF) + drop_bit 2 (r AND 0x3C),
      push_bit 6 (r AND 3) + s]"

definition b64_char :: "byte \<Rightarrow> char" where
  "b64_char v = base64_chars ! unat v"

text \<open>\<open>arr\<close> is the filled part of the source's \<open>char_array_3\<close>.\<close>

fun base64_encode_loop :: "bytes \<Rightarrow> string \<Rightarrow> bytes \<Rightarrow> bytes \<times> string" where
  "base64_encode_loop arr ret [] = (arr, ret)"
| "base64_encode_loop arr ret (x # xs) =
     (case arr @ [x] of
        [a, b, c] \<Rightarrow> base64_encode_loop [] (ret @ map b64_char (char_array_4 a b c)) xs
      | arr' \<Rightarrow> base64_encode_loop arr' ret xs)"

text \<open>The block \<open>if (i)\<close> after the loop: one or two bytes are left over.\<close>

definition base64_encode_rest :: "bytes \<Rightarrow> string" where
  "base64_encode_rest arr =
     (let i = length arr in
      if i = 0 then []
      else let padded = arr @ replicate (3 - i) 0;
               quad = char_array_4 (padded ! 0) (padded ! 1) (padded ! 2)
           in map b64_char (take (i + 1) quad) @ replicate (3 - i) (CHR ''=''))"

definition base64_encode :: "bytes \<Rightarrow> string" where
  "base64_encode bs =
     (case base64_encode_loop [] [] bs of (arr, ret) \<Rightarrow> ret @ base64_encode_rest arr)"

text \<open>
  \<open>base64_chars.find\<close> cast to \<open>unsigned char\<close>: \<open>npos\<close> becomes 255.
\<close>

definition b64_find :: "char \<Rightarrow> byte" where
  "b64_find c =
     (case find (\<lambda>i. base64_chars ! i = c) [0..<length base64_chars] of
        Some i \<Rightarrow> of_nat i | None \<Rightarrow> 255)"

fun base64_decode_loop :: "string \<Rightarrow> bytes \<Rightarrow> string \<Rightarrow> string \<times> bytes" where
  "base64_decode_loop arr ret [] = (arr, ret)"
| "base64_decode_loop arr ret (x # xs) =
     (if x \<noteq> CHR ''='' \<and> is_base64 x then
        (case arr @ [x] of
           [p, q, r, s] \<Rightarrow>
             base64_decode_loop [] (ret @ char_array_3 (b64_find p) (b64_find q) (b64_find r) (b64_find s)) xs
         | arr' \<Rightarrow> base64_decode_loop arr' ret xs)
      else (arr, ret))"

definition base64_decode_rest :: "string \<Rightarrow> bytes" where
  "base64_decode_rest arr =
     (let i = length arr in
      if i = 0 then []
      else let quad = map b64_find (arr @ replicate (4 - i) NUL)
           in take (i - 1) (char_array_3 (quad ! 0) (quad ! 1) (quad ! 2) (quad ! 3)))"

definition base64_decode :: "string \<Rightarrow> bytes" where
  "base64_decode str =
     (case base64_decode_loop [] [] str of (arr, ret) \<Rightarrow> ret @ base64_decode_rest arr)"

section \<open>Exclusive or\<close>

text \<open>
  \<open>Utilities::XOR\<close> keeps the lengths in \<open>unsigned short\<close> variables and pads the shorter
  string with blanks; positions from the truncated length on are copied from \<open>value\<close>.
\<close>

definition pad_blank :: "nat \<Rightarrow> string \<Rightarrow> string" where
  "pad_blank n s = s @ replicate n (CHR '' '')"

definition char_xor :: "char \<Rightarrow> char \<Rightarrow> char" where
  "char_xor a b = char_of_byte (byte_of_char a XOR byte_of_char b)"

fun xor_loop :: "string \<Rightarrow> string \<Rightarrow> nat \<Rightarrow> nat \<Rightarrow> nat \<Rightarrow> nat \<Rightarrow> string \<Rightarrow> string" where
  "xor_loop val key klen 0 v k retval = retval"
| "xor_loop val key klen (Suc n) v k retval =
     xor_loop val key klen n (v + 1) (if k + 1 < klen then k + 1 else 0)
       (retval[v := char_xor (val ! v) (key ! k)])"

definition XOR_str :: "string \<Rightarrow> string \<Rightarrow> string" where
  "XOR_str val key =
     (let klen = length key mod 65536; vlen = length val mod 65536;
          key' = (if klen < vlen then pad_blank (vlen - klen) key else key);
          val' = (if klen < vlen then val else pad_blank (klen - vlen) val)
      in xor_loop val' key' vlen vlen 0 0 val)"

text \<open>The two \<open>xor_mask\<close> templates of \<open>utils.hpp\<close>.\<close>

definition xor_mask64 :: "64 word \<Rightarrow> bytes \<Rightarrow> 64 word" where
  "xor_mask64 x msk =
     x XOR push_bit 56 (ucast (msk ! 0)) XOR push_bit 48 (ucast (msk ! 1))
       XOR push_bit 40 (ucast (msk ! 2)) XOR push_bit 32 (ucast (msk ! 3))
       XOR push_bit 24 (ucast (msk ! 4)) XOR push_bit 16 (ucast (msk ! 5))
       XOR push_bit 8 (ucast (msk ! 6)) XOR ucast (msk ! 7)"

definition xor_mask :: "bytes \<Rightarrow> bytes \<Rightarrow> bytes" where
  "xor_mask x msk = map2 (XOR) x msk"

section \<open>Hexadecimal output\<close>

definition hex_digit :: "nat \<Rightarrow> char" where
  "hex_digit d = ''0123456789abcdef'' ! d"

definition hex_byte :: "byte \<Rightarrow> string" where
  "hex_byte b = [hex_digit (unat b div 16), hex_digit (unat b mod 16)]"

definition hex_string :: "bytes \<Rightarrow> string" where
  "hex_string bs = concat (map hex_byte bs)"

section \<open>One-block encryption\<close>

definition AES_KEY_SIZE :: nat where "AES_KEY_SIZE = 16"

text \<open>The static \<open>Utilities::key\<close> and \<open>Utilities::iv\<close>: zero-initialised.\<close>

definition util_key :: bytes where "util_key = replicate 16 0"
definition util_iv :: bytes where "util_iv = replicate 16 0"

text \<open>
  \<open>Utilities::encrypt\<close> into an array of \<open>cap\<close> bytes: the whole padded ciphertext is
  written. \<open>Utilities::decrypt\<close> overwrites the front of the plaintext array.
\<close>

definition util_encrypt :: "cipher \<Rightarrow> bytes \<Rightarrow> nat \<Rightarrow> bytes \<Rightarrow> bytes \<Rightarrow> bytes \<Rightarrow> bytes res" where
  "util_encrypt enc plaintext plaintext_len key iv out =
     (if length plaintext < plaintext_len then Inl BadIndex
      else copy_at 0 (enc key iv (take plaintext_len plaintext)) out)"

definition util_decrypt :: "cipher \<Rightarrow> bytes \<Rightarrow> bytes \<Rightarrow> bytes \<Rightarrow> bytes \<Rightarrow> bytes res" where
  "util_decrypt dec ciphertext key iv out = copy_at 0 (dec key iv ciphertext) out"

definition the_key :: "bytes option \<Rightarrow> bytes" where
  "the_key curkey = (case curkey of None \<Rightarrow> util_key | Some k \<Rightarrow> k)"

text \<open>
  \<open>encode(keyword)\<close>: the array is zeroed only up to index 11, the plaintext length is
  \<open>strlen\<close> of the array; \<open>g\<close> is the array before.
\<close>

definition encode0 :: "cipher \<Rightarrow> bytes \<Rightarrow> bytes \<Rightarrow> string \<Rightarrow> bytes res" where
  "encode0 enc g out keyword =
     ebind (copy_at 0 (string_bytes keyword) g)
       (\<lambda>p0. let p = map (\<lambda>i. if length keyword \<le> i \<and> i < 12 then 0 else p0 ! i) [0..<length p0];
                 len = length (takeWhile (\<lambda>b. b \<noteq> 0) p)
             in if len = length p then Inl BufferOverflow
                else util_encrypt enc p len util_key util_iv out)"

definition encode_bytes :: "cipher \<Rightarrow> bytes option \<Rightarrow> bytes \<Rightarrow> bytes res" where
  "encode_bytes enc curkey plaintext =
     util_encrypt enc plaintext 15 (the_key curkey) util_iv (replicate 16 0)"

definition encode :: "cipher \<Rightarrow> bytes option \<Rightarrow> string \<Rightarrow> bytes res" where
  "encode enc curkey keyword =
     ebind (copy_at 0 (string_bytes keyword) (replicate 16 0))
       (\<lambda>plaintext. util_encrypt enc plaintext 15 (the_key curkey) util_iv (replicate 16 0))"

text \<open>
  \<open>decode\<close> into an array: the decryption has 15 bytes, so byte 15 of the result is the
  byte of the uninitialised stack array \<open>g\<close>.
\<close>

definition decode_bytes :: "cipher \<Rightarrow> bytes \<Rightarrow> bytes option \<Rightarrow> bytes \<Rightarrow> bytes res" where
  "decode_bytes dec g curkey ciphertext =
     ebind (util_decrypt dec (take 16 ciphertext) (the_key curkey) util_iv g)
       (\<lambda>plain. Inr (take 16 plain))"

definition decode :: "cipher \<Rightarrow> bytes \<Rightarrow> bytes option \<Rightarrow> bytes \<Rightarrow> string res" where
  "decode dec g curkey ciphertext =
     ebind (util_decrypt dec (take 16 ciphertext) (the_key curkey) util_iv g)
       (\<lambda>plain. Inr (bytes_string (takeWhile (\<lambda>b. b \<noteq> 0) (take 16 plain))))"

definition convertToArray :: "string \<Rightarrow> bytes res" where
  "convertToArray addr =
     (if length addr < 15 then Inl BadIndex
      else Inr (string_bytes (take 16 (addr @ [NUL]))))"

text \<open>The keyword in a zeroed 16-byte array.\<close>

definition pad16 :: "string \<Rightarrow> bytes" where
  "pad16 kw = string_bytes kw @ replicate (16 - length kw) 0"

section \<open>Base64 round trip\<close>

lemma byte_eqI:
  assumes "bit a 0 = bit b 0" "bit a 1 = bit b 1" "bit a 2 = bit b 2" "bit a 3 = bit b 3"
    "bit a 4 = bit b 4" "bit a 5 = bit b 5" "bit a 6 = bit b 6" "bit a 7 = bit b 7"
  shows "a = (b :: byte)"
proof (rule bit_word_eqI)
  fix n :: nat assume "n < LENGTH(8)"
  then have "n \<in> {0, 1, 2, 3, 4, 5, 6, 7}" by auto
  then show "bit a n = bit b n" using assms by auto
qed

lemma plus_byte: "x AND y = 0 \<Longrightarrow> x OR y = z \<Longrightarrow> x + y = (z :: byte)"
  by (simp add: disjunctive_add_eq_or)

lemma char_array_4_eq:
  "char_array_4 a b c =
     [drop_bit 2 (a AND 0xFC), push_bit 4 (a AND 3) OR drop_bit 4 (b AND 0xF0),
      push_bit 2 (b AND 0xF) OR drop_bit 6 (c AND 0xC0), c AND 0x3F]"
  unfolding char_array_4_def by (simp, intro conjI; rule plus_byte; (rule byte_eqI)?; simp add: bit_simps)

lemma char_array_3_4:
  "char_array_4 a b c = [p, q, r, s] \<Longrightarrow> char_array_3 p q r' s' ! 0 = a"
  "char_array_4 a b c = [p, q, r, s] \<Longrightarrow> char_array_3 p' q r s' ! 1 = b"
  "char_array_4 a b c = [p, q, r, s] \<Longrightarrow> char_array_3 p' q' r s ! 2 = c"
  unfolding char_array_3_def char_array_4_eq
  by (simp, clarify, rule plus_byte; rule byte_eqI; simp add: bit_simps)+

lemma byte_less_64:
  assumes "\<not> bit x 6" "\<not> bit x 7"
  shows "(x :: byte) < 64"
proof -
  have "take_bit 6 x = x" by (rule byte_eqI) (use assms in \<open>simp_all add: bit_simps\<close>)
  then have "unat x = take_bit 6 (unat x)" by (metis unsigned_take_bit_eq)
  also have "\<dots> < 2 ^ 6" by (rule take_bit_nat_less_exp)
  finally show ?thesis by (simp add: word_less_nat_alt)
qed

lemma char_array_4_less: "x \<in> set (char_array_4 a b c) \<Longrightarrow> x < 64"
  by (auto simp: char_array_4_eq intro!: byte_less_64 simp: bit_simps)

lemma b64_find_all:
  "\<forall>v\<in>set (map of_nat [0..<64]). b64_find (b64_char v) = v \<and> is_base64 (b64_char v) \<and> b64_char v \<noteq> CHR ''=''"
  by code_simp

lemma b64_find:
  assumes "v < 64"
  shows "b64_find (b64_char v) = v" "is_base64 (b64_char v)" "b64_char v \<noteq> CHR ''=''"
proof -
  have "unat v < 64" using assms by (simp add: word_less_nat_alt)
  then have "of_nat (unat v) \<in> set (map of_nat [0..<64] :: bytes)" by (metis atLeast0LessThan atLeast_upt image_eqI lessThan_iff list.set_map)
  then have "v \<in> set (map of_nat [0..<64])" by simp
  then show "b64_find (b64_char v) = v" "is_base64 (b64_char v)" "b64_char v \<noteq> CHR ''=''"
    using b64_find_all by blast+
qed
text \<open>Three bytes at a time.\<close>

fun b64 :: "bytes \<Rightarrow> string" where
  "b64 [] = []"
| "b64 [a] = map b64_char (take 2 (char_array_4 a 0 0)) @ ''==''"
| "b64 [a, b] = map b64_char (take 3 (char_array_4 a b 0)) @ ''=''"
| "b64 (a # b # c # bs) = map b64_char (char_array_4 a b c) @ b64 bs"

lemma base64_encode_loop_b64:
  "(case base64_encode_loop [] ret bs of (arr, r) \<Rightarrow> r @ base64_encode_rest arr) = ret @ b64 bs"
  by (induction bs arbitrary: ret rule: b64.induct) (simp_all add: base64_encode_rest_def Let_def numeral_eq_Suc)

lemma base64_decode_loop_4:
  assumes "x < 64" "y < 64" "z < 64" "w < 64"
  shows "base64_decode_loop [] ret (b64_char x # b64_char y # b64_char z # b64_char w # str) =
         base64_decode_loop [] (ret @ char_array_3 x y z w) str"
  using assms by (simp add: b64_find)

lemma char_array_4_obtain:
  obtains p q r s where "char_array_4 a b c = [p, q, r, s]" "p < 64" "q < 64" "r < 64" "s < 64"
proof -
  obtain p q r s where e: "char_array_4 a b c = [p, q, r, s]" by (simp add: char_array_4_def)
  then show ?thesis using char_array_4_less [of _ a b c] that by simp
qed

lemma char_array_3_list: "char_array_3 p q r s = [char_array_3 p q r s ! 0, char_array_3 p q r s ! 1, char_array_3 p q r s ! 2]"
  by (simp add: char_array_3_def)

lemma take_char_array_3:
  "take (Suc 0) (char_array_3 p q r s) = [char_array_3 p q r s ! 0]"
  "take (Suc (Suc 0)) (char_array_3 p q r s) = [char_array_3 p q r s ! 0, char_array_3 p q r s ! Suc 0]"
  by (simp_all add: char_array_3_def)

lemma base64_decode_loop_b64:
  "(case base64_decode_loop [] ret (b64 bs) of (arr, r) \<Rightarrow> r @ base64_decode_rest arr) = ret @ bs"
proof (induction bs arbitrary: ret rule: b64.induct)
  case (2 a)
  obtain p q r s where e: "char_array_4 a 0 0 = [p, q, r, s]" "p < 64" "q < 64" "r < 64" "s < 64"
    by (rule char_array_4_obtain)
  then show ?case
    using char_array_3_4(1) [OF e(1)]
    by (simp add: b64_find base64_decode_rest_def take_char_array_3 Let_def numeral_eq_Suc)
next
  case (3 a b)
  obtain p q r s where e: "char_array_4 a b 0 = [p, q, r, s]" "p < 64" "q < 64" "r < 64" "s < 64"
    by (rule char_array_4_obtain)
  then show ?case
    using char_array_3_4(1,2) [OF e(1)] 
    by (simp add: b64_find base64_decode_rest_def take_char_array_3 Let_def numeral_eq_Suc)
next
  case (4 a b c bs)
  obtain p q r s where e: "char_array_4 a b c = [p, q, r, s]" "p < 64" "q < 64" "r < 64" "s < 64"
    by (rule char_array_4_obtain)
  have "char_array_3 p q r s = [a, b, c]"
    using char_array_3_4 [OF e(1)] char_array_3_list [of p q r s] by simp
  then show ?case using 4 e base64_decode_loop_4 [OF e(2-)] by simp
qed (simp add: base64_decode_rest_def)


lemma base64_decode_encode: "base64_decode (base64_encode bs) = bs"
  using base64_decode_loop_b64 [of "[]" bs] base64_encode_loop_b64 [of "[]" bs]
  by (simp add: base64_decode_def base64_encode_def)

section \<open>Exclusive or is an involution\<close>

lemma char_xor_involution [simp]: "char_xor (char_xor a b) b = a"
  by (simp add: char_xor_def xor.assoc)

lemma xor_loop_eq:
  "v + n \<le> length ret \<Longrightarrow> xor_loop val key (v + n) n v v ret =
     map (\<lambda>i. if v \<le> i \<and> i < v + n then char_xor (val ! i) (key ! i) else ret ! i) [0..<length ret]"
proof (induction n arbitrary: v ret)
  case 0
  then show ?case by (intro nth_equalityI) auto
next
  case (Suc n)
  let ?ret = "ret[v := char_xor (val ! v) (key ! v)]"
  show ?case
  proof (cases n)
    case 0
    with Suc.prems show ?thesis by (auto intro!: nth_equalityI simp: nth_list_update)
  next
    case (Suc m)
    then have "xor_loop val key (v + Suc n) (Suc n) v v ret = xor_loop val key (Suc v + n) n (Suc v) (Suc v) ?ret"
      by simp
    also have "\<dots> = map (\<lambda>i. if Suc v \<le> i \<and> i < Suc v + n then char_xor (val ! i) (key ! i) else ?ret ! i) [0..<length ?ret]"
      by (rule Suc.IH) (use Suc.prems in simp)
    finally show ?thesis using Suc.prems by (auto intro!: nth_equalityI simp: nth_list_update)
  qed
qed

lemma XOR_str_eq:
  assumes "length val < 65536" "length key < 65536"
  shows "XOR_str val key =
     map (\<lambda>i. char_xor (val ! i) ((key @ replicate (length val - length key) (CHR '' '')) ! i)) [0..<length val]"
  using assms xor_loop_eq [of 0 "length val" val]
  by (auto simp: XOR_str_def Let_def pad_blank_def nth_append)

section \<open>Hexadecimal output is injective\<close>

lemma hex_digit_all: "\<forall>i\<in>set [0..<16]. \<forall>j\<in>set [0..<16]. hex_digit i = hex_digit j \<longrightarrow> i = j"
  by code_simp

lemma hex_byte_inj: "hex_byte a = hex_byte b \<Longrightarrow> a = b"
proof -
  assume e: "hex_byte a = hex_byte b"
  have "unat a div 16 < 16" "unat b div 16 < 16"
    using unat_byte_less [of a] unat_byte_less [of b] by simp_all
  then have "unat a div 16 = unat b div 16" "unat a mod 16 = unat b mod 16"
    using e hex_digit_all by (auto simp: hex_byte_def)
  then have "unat a = unat b" by (metis div_mult_mod_eq)
  then show "a = b" by (rule unsigned_word_eqI)
qed

lemma hex_string_inj: "hex_string xs = hex_string ys \<Longrightarrow> xs = ys"
proof (induction xs arbitrary: ys)
  case Nil
  then show ?case by (cases ys) (auto simp: hex_string_def hex_byte_def)
next
  case (Cons x xs)
  then obtain y ys' where ys: "ys = y # ys'" by (cases ys) (auto simp: hex_string_def hex_byte_def)
  with Cons.prems have "hex_byte x = hex_byte y" "hex_string xs = hex_string ys'"
    by (simp_all add: hex_string_def hex_byte_def)
  with Cons.IH ys hex_byte_inj show ?case by blast
qed

section \<open>Decoding undoes encoding\<close>

lemma encode_bytes_eq:
  assumes "cipher_ok enc dec" "15 \<le> length p"
  shows "encode_bytes enc k p = Inr (enc (the_key k) util_iv (take 15 p))"
    "length (enc (the_key k) util_iv (take 15 p)) = 16"
proof -
  show len: "length (enc (the_key k) util_iv (take 15 p)) = 16"
    using assms by (simp add: cipher_ok_def util_iv_def)
  then show "encode_bytes enc k p = Inr (enc (the_key k) util_iv (take 15 p))"
    using assms by (simp add: encode_bytes_def util_encrypt_def copy_at_0)
qed

lemma encode_pad:
  "length kw \<le> 16 \<Longrightarrow> encode enc k kw = encode_bytes enc k (pad16 kw)"
  by (simp add: encode_def encode_bytes_def copy_at_0 pad16_def)

lemma length_pad16 [simp]: "length kw \<le> 16 \<Longrightarrow> length (pad16 kw) = 16"
  by (simp add: pad16_def)

lemma decode_bytes_encode:
  assumes "cipher_ok enc dec" "length p = 16" "length g = 16"
  shows "ebind (encode_bytes enc k p) (decode_bytes dec g k) = Inr (take 15 p @ [g ! 15])"
proof -
  have "dec (the_key k) util_iv (enc (the_key k) util_iv (take 15 p)) = take 15 p"
    using assms(1) by (simp add: cipher_ok_def util_iv_def)
  moreover have "drop 15 g = [g ! 15]"
    using assms(3) by (simp add: Cons_nth_drop_Suc [symmetric])
  ultimately show ?thesis
    using assms encode_bytes_eq [OF assms(1), of p k]
    by (simp add: decode_bytes_def util_decrypt_def copy_at_0)
qed

lemma decode_encode:
  assumes "cipher_ok enc dec" "length kw \<le> 14" "NUL \<notin> set kw" "length g = 16"
  shows "ebind (encode enc k kw) (decode dec g k) = Inr kw"
proof -
  let ?c = "enc (the_key k) util_iv (take 15 (pad16 kw))"
  have e: "encode enc k kw = Inr ?c" "length ?c = 16"
    using assms encode_bytes_eq [OF assms(1), of "pad16 kw" k] encode_pad [of kw enc k] by simp_all
  have "decode_bytes dec g k ?c = Inr (take 15 (pad16 kw) @ [g ! 15])"
    using decode_bytes_encode [OF assms(1), of "pad16 kw" g k] encode_bytes_eq [OF assms(1), of "pad16 kw" k] assms by simp
  then have "decode dec g k ?c = Inr (bytes_string (takeWhile (\<lambda>b. b \<noteq> 0) (take 15 (pad16 kw) @ [g ! 15])))"
    by (auto simp: decode_def decode_bytes_def res_simps split: sum.splits)
  moreover have "takeWhile (\<lambda>b. b \<noteq> 0) (take 15 (pad16 kw) @ [g ! 15]) = string_bytes kw"
  proof -
    have "\<forall>b\<in>set (string_bytes kw). b \<noteq> 0" using assms(3) by (auto simp: string_bytes_def)
    moreover have "take 15 (pad16 kw) @ [g ! 15] = string_bytes kw @ 0 # replicate (14 - length kw) 0 @ [g ! 15]"
      using assms(2) by (simp add: pad16_def Suc_diff_le flip: replicate_Suc)
    ultimately show ?thesis by (simp add: takeWhile_append2)
  qed
  ultimately show ?thesis using e by simp
qed

section \<open>Properties\<close>

text \<open>(C27) Decoding the base64 text of any byte string gives the byte string back.\<close>

theorem base64_roundtrip: "base64_decode (base64_encode bs) = bs"
  by (rule base64_decode_encode)



text \<open>
  (C26) \<open>decode\<close> with the same key undoes \<open>encode\<close> for keywords of at most 14 characters
  without NUL, whatever the uninitialised stack array holds.
\<close>

theorem keyword_roundtrip:
  assumes "cipher_ok enc dec" "length kw \<le> 14" "NUL \<notin> set kw" "length g = 16"
  shows "ebind (encode enc k kw) (decode dec g k) = Inr kw"
  using assms by (rule decode_encode)

theorem keyword_roundtrip_witness:
  "ebind (encode pad_enc None ''keyword'') (decode pad_dec (replicate 16 9) None) = Inr ''keyword''"
  using keyword_roundtrip [OF cipher_ok_pad, of "''keyword''" "replicate 16 9" None]
  by (simp add: NUL_char)

end
