(* ===== verification/Static_Bas.thy ===== *)
theory Static_Bas
  imports Utilities "HOL-Library.Multiset"
begin

text \<open>
  The encrypted dictionaries of the two static schemes: \<open>AmortizedBASServer\<close>,
  \<open>AmortizedBASClient\<close> and their de-amortized variants. A level of the server is an
  \<open>unordered_map\<close> from 16-byte labels to 16-byte ciphertexts; the label of the \<open>c\<close>-th value
  of a keyword is \<open>Prg::derive\<close> of the keyword's token with \<open>c\<close> in its last four bytes.

  \<open>Prg::derive\<close>, the block cipher, the contents of uninitialised memory and the iteration
  order of the hash maps are the parameters collected in \<open>senv\<close>. The communication counters
  of the classes are statistics that no operation reads and are left out.
\<close>

section \<open>Parameters\<close>

record senv =
  s_enc :: cipher
  s_dec :: cipher
  s_prg :: "bytes \<Rightarrow> bytes"
  s_stack :: bytes
  s_newkey :: "nat \<Rightarrow> bytes"
  s_iter :: "(bytes \<times> bytes) list \<Rightarrow> (bytes \<times> bytes) list"
  s_iterw :: "(string \<times> bytes list) list \<Rightarrow> (string \<times> bytes list) list"

section \<open>Hash maps\<close>

text \<open>\<open>m.insert(begin, end)\<close> keeps the entries that are already there.\<close>

definition um_insert :: "'k \<times> 'v \<Rightarrow> ('k \<times> 'v) list \<Rightarrow> ('k \<times> 'v) list" where
  "um_insert p m = (if map_of m (fst p) = None then m @ [p] else m)"

definition um_insert_range :: "('k \<times> 'v) list \<Rightarrow> ('k \<times> 'v) list \<Rightarrow> ('k \<times> 'v) list" where
  "um_insert_range ps m = fold um_insert ps m"

section \<open>Labels\<close>

text \<open>
  \<open>getAESRandomValue(keyword, cnt, result)\<close> overwrites the last four bytes of its first
  argument; the pair returned is the argument array afterwards and the result.
\<close>

definition getAESRandomValue :: "senv \<Rightarrow> bytes \<Rightarrow> int \<Rightarrow> bytes \<times> bytes" where
  "getAESRandomValue S keyword cnt =
     (let keyword' = put_int (AES_KEY_SIZE - 4) cnt keyword in (keyword', s_prg S keyword'))"

text \<open>\<open>string((char*) item.data())\<close>\<close>

definition array_str :: "bytes \<Rightarrow> string res" where
  "array_str a = (if 0 \<in> set a then Inr (c_str (bytes_string a)) else Inl BadIndex)"

fun map_res :: "('a \<Rightarrow> 'b res) \<Rightarrow> 'a list \<Rightarrow> 'b list res" where
  "map_res f [] = Inr []"
| "map_res f (x # xs) = ebind (f x) (\<lambda>y. ebind (map_res f xs) (\<lambda>ys. Inr (y # ys)))"

section \<open>The amortized server\<close>

type_synonym dict = "(bytes \<times> bytes) list"

definition AmortizedBASServer_new :: "nat \<Rightarrow> dict list" where
  "AmortizedBASServer_new dataIndex = replicate dataIndex []"

definition bas_storeCiphers :: "nat \<Rightarrow> dict \<Rightarrow> dict list \<Rightarrow> dict list res" where
  "bas_storeCiphers dataIndex ciphers srv =
     (if dataIndex < length srv
      then Inr (srv[dataIndex := um_insert_range ciphers (srv ! dataIndex)]) else Inl BadIndex)"

text \<open>
  The \<open>do ... while (exist)\<close> loop asks for labels 0, 1, ... (1, 2, ... in the de-amortized
  server) until one is missing; \<open>None\<close> is a loop that never ends.
\<close>

partial_function (option) bas_search_loop :: "senv \<Rightarrow> dict \<Rightarrow> bytes \<Rightarrow> int \<Rightarrow> bytes list \<Rightarrow> bytes list option" where
  "bas_search_loop S d token cnt results =
     (let mapKey = snd (getAESRandomValue S token cnt) in
      case map_of d mapKey of
        None \<Rightarrow> Some results
      | Some v \<Rightarrow> bas_search_loop S d token (cnt + 1) (results @ [v]))"

declare bas_search_loop.simps [code]

definition loop_res :: "'a option \<Rightarrow> 'a res" where
  "loop_res r = (case r of None \<Rightarrow> Inl OutOfFuel | Some x \<Rightarrow> Inr x)"

definition bas_search :: "senv \<Rightarrow> nat \<Rightarrow> bytes \<Rightarrow> dict list \<Rightarrow> bytes list res" where
  "bas_search S dataIndex token srv =
     (if dataIndex < length srv then loop_res (bas_search_loop S (srv ! dataIndex) token 0 [])
      else Inl BadIndex)"

definition bas_getAllData :: "senv \<Rightarrow> nat \<Rightarrow> dict list \<Rightarrow> bytes list res" where
  "bas_getAllData S dataIndex srv =
     (if dataIndex < length srv then Inr (map snd (s_iter S (srv ! dataIndex))) else Inl BadIndex)"

definition bas_clear :: "nat \<Rightarrow> dict list \<Rightarrow> dict list res" where
  "bas_clear index srv = (if index < length srv then Inr (srv[index := []]) else Inl BadIndex)"

section \<open>The amortized client\<close>

record bas_client =
  c_server :: "dict list"
  c_exist :: "bool list"

definition AmortizedBASClient_new :: "nat \<Rightarrow> bas_client" where
  "AmortizedBASClient_new n =
     \<lparr>c_server = AmortizedBASServer_new n, c_exist = replicate n False\<rparr>"

text \<open>The inner loop of \<open>setup\<close>: label and encrypt the values of one keyword.\<close>

fun label_values :: "senv \<Rightarrow> bytes option \<Rightarrow> bytes \<Rightarrow> int \<Rightarrow> bytes list \<Rightarrow> dict \<Rightarrow> dict res" where
  "label_values S key K1 i [] ciphers = Inr ciphers"
| "label_values S key K1 i (v # vs) ciphers =
     (let (K1', mapKey) = getAESRandomValue S K1 i in
      ebind (encode_bytes (s_enc S) key v)
        (\<lambda>mapValue. label_values S key K1' (i + 1) vs (AList.update mapKey mapValue ciphers)))"

fun label_pairs :: "senv \<Rightarrow> bytes option \<Rightarrow> (string \<times> bytes list) list \<Rightarrow> dict \<Rightarrow> dict res" where
  "label_pairs S key [] ciphers = Inr ciphers"
| "label_pairs S key ((kw, vs) # ps) ciphers =
     ebind (encode (s_enc S) key (kw @ ''-1''))
       (\<lambda>K1. ebind (label_values S key K1 0 vs ciphers) (label_pairs S key ps))"

definition bas_setup :: "senv \<Rightarrow> nat \<Rightarrow> (string \<times> bytes list) list \<Rightarrow> bytes option \<Rightarrow> bas_client
    \<Rightarrow> bas_client res" where
  "bas_setup S index pairs key c =
     (if length (c_exist c) \<le> index then Inl BadIndex
      else ebind (label_pairs S key (s_iterw S pairs) [])
        (\<lambda>ciphers. ebind (bas_storeCiphers index ciphers (c_server c))
          (\<lambda>srv. Inr (c\<lparr>c_server := srv, c_exist := (c_exist c)[index := True]\<rparr>))))"

definition bas_client_search :: "senv \<Rightarrow> nat \<Rightarrow> string \<Rightarrow> bytes option \<Rightarrow> bas_client \<Rightarrow> bytes list res" where
  "bas_client_search S index keyword key c =
     ebind (encode (s_enc S) key (keyword @ ''-1''))
       (\<lambda>token. ebind (bas_search S index token (c_server c))
         (map_res (decode_bytes (s_dec S) (s_stack S) key)))"

definition bas_client_getAllData :: "senv \<Rightarrow> nat \<Rightarrow> bytes option \<Rightarrow> bas_client \<Rightarrow> bytes list res" where
  "bas_client_getAllData S index key c =
     ebind (bas_getAllData S index (c_server c)) (map_res (decode_bytes (s_dec S) (s_stack S) key))"

definition bas_destry :: "nat \<Rightarrow> bas_client \<Rightarrow> bas_client res" where
  "bas_destry index c =
     ebind (bas_clear index (c_server c))
       (\<lambda>srv. if index < length (c_exist c)
               then Inr (c\<lparr>c_server := srv, c_exist := (c_exist c)[index := False]\<rparr>) else Inl BadIndex)"

section \<open>Contract of the parameters\<close>

text \<open>
  What the dictionaries rely on: decryption inverts encryption, iteration visits every entry
  of a hash map once, labels of different seeds differ, and the tokens of different short
  keywords differ in the 12 bytes that the counter does not overwrite.
\<close>

definition token :: "senv \<Rightarrow> bytes option \<Rightarrow> string \<Rightarrow> bytes" where
  "token S key kw = s_enc S (the_key key) util_iv (take 15 (pad16 (kw @ ''-1'')))"

definition kw_ok :: "string \<Rightarrow> bool" where
  "kw_ok kw \<longleftrightarrow> length kw \<le> 10 \<and> NUL \<notin> set kw"

definition senv_ok :: "senv \<Rightarrow> bool" where
  "senv_ok S \<longleftrightarrow>
     cipher_ok (s_enc S) (s_dec S) \<and> length (s_stack S) = 16 \<and>
     (\<forall>d. mset (s_iter S d) = mset d) \<and> (\<forall>d. mset (s_iterw S d) = mset d) \<and>
     inj_on (s_prg S) {b. length b = 16} \<and>
     (\<forall>key. inj_on (\<lambda>kw. take 12 (token S key kw)) (Collect kw_ok))"

definition label :: "senv \<Rightarrow> bytes option \<Rightarrow> string \<Rightarrow> int \<Rightarrow> bytes" where
  "label S key kw j = s_prg S (put_int 12 j (token S key kw))"

definition sealed :: "senv \<Rightarrow> bytes option \<Rightarrow> bytes \<Rightarrow> bytes" where
  "sealed S key v = s_enc S (the_key key) util_iv (take 15 v)"

definition opened :: "senv \<Rightarrow> bytes \<Rightarrow> bytes" where
  "opened S v = take 15 v @ [s_stack S ! 15]"

lemma length_token:
  assumes "senv_ok S" "length kw \<le> 14"
  shows "length (token S key kw) = 16" "encode (s_enc S) key (kw @ ''-1'') = Inr (token S key kw)"
proof -
  have c: "cipher_ok (s_enc S) (s_dec S)" using assms by (simp add: senv_ok_def)
  show "length (token S key kw) = 16"
    using encode_bytes_eq(2) [OF c, of "pad16 (kw @ ''-1'')" key] assms by (simp add: token_def)
  show "encode (s_enc S) key (kw @ ''-1'') = Inr (token S key kw)"
    using encode_bytes_eq(1) [OF c, of "pad16 (kw @ ''-1'')" key] assms by (simp add: token_def encode_pad)
qed

lemma encode_sealed: "senv_ok S \<Longrightarrow> 15 \<le> length v \<Longrightarrow> encode_bytes (s_enc S) key v = Inr (sealed S key v)"
  using encode_bytes_eq(1) [of "s_enc S" "s_dec S" v key] by (simp add: senv_ok_def sealed_def)

lemma decode_sealed:
  assumes "senv_ok S" "length v = 16"
  shows "decode_bytes (s_dec S) (s_stack S) key (sealed S key v) = Inr (opened S v)"
  using decode_bytes_encode [of "s_enc S" "s_dec S" v "s_stack S" key] encode_sealed [OF assms(1), of v key] assms
  by (simp add: senv_ok_def opened_def)

lemma kw_ok_length: "kw_ok kw \<Longrightarrow> length kw \<le> 14"
  by (simp add: kw_ok_def)

lemma put_int_inj:
  assumes "put_int 12 j a = put_int 12 j' b" "length a = 16" "length b = 16" "int32 j" "int32 j'"
  shows "take 12 a = take 12 b \<and> j = j'"
  using assms by (simp add: put_int_def le32_inj)

lemma label_inj:
  assumes "senv_ok S" "kw_ok kw" "kw_ok kw'" "int32 j" "int32 j'"
  shows "label S key kw j = label S key kw' j' \<longleftrightarrow> kw = kw' \<and> j = j'"
proof
  assume e: "label S key kw j = label S key kw' j'"
  note len = length_token(1) [OF assms(1) kw_ok_length, OF assms(2), of key]
    length_token(1) [OF assms(1) kw_ok_length, OF assms(3), of key]
  have "put_int 12 j (token S key kw) = put_int 12 j' (token S key kw')"
    using e assms(1) len unfolding label_def senv_ok_def by (elim conjE inj_onD) simp_all
  then have "take 12 (token S key kw) = take 12 (token S key kw') \<and> j = j'"
    using put_int_inj len assms by blast
  then show "kw = kw' \<and> j = j'" using assms(1-3) by (auto simp: senv_ok_def inj_on_def)
qed simp

section \<open>What a dictionary holds\<close>

text \<open>\<open>dict_of\<close> is the dictionary that \<open>setup\<close> builds from a multimap.\<close>

definition labelled :: "senv \<Rightarrow> bytes option \<Rightarrow> string \<Rightarrow> nat \<Rightarrow> bytes list \<Rightarrow> dict" where
  "labelled S key kw i vs = map (\<lambda>(j, v). (label S key kw (int j), sealed S key v)) (enumerate i vs)"

definition dict_of :: "senv \<Rightarrow> bytes option \<Rightarrow> (string \<times> bytes list) list \<Rightarrow> dict" where
  "dict_of S key ps = concat (map (\<lambda>(kw, vs). labelled S key kw 0 vs) ps)"

text \<open>Multimaps from short keywords to 16-byte records.\<close>

definition multi_ok :: "(string \<times> bytes list) list \<Rightarrow> bool" where
  "multi_ok ps \<longleftrightarrow>
     distinct (map fst ps) \<and>
     (\<forall>(kw, vs)\<in>set ps. kw_ok kw \<and> length vs < 2 ^ 31 \<and> (\<forall>v\<in>set vs. length v = 16))"

definition vals :: "(string \<times> bytes list) list \<Rightarrow> string \<Rightarrow> bytes list" where
  "vals ps kw = (case map_of ps kw of None \<Rightarrow> [] | Some vs \<Rightarrow> vs)"

lemma multi_ok_Cons:
  "multi_ok ((kw, vs) # ps) \<longleftrightarrow>
     kw_ok kw \<and> length vs < 2 ^ 31 \<and> (\<forall>v\<in>set vs. length v = 16) \<and> kw \<notin> fst ` set ps \<and> multi_ok ps"
  by (auto simp: multi_ok_def)

lemma multi_ok_perm:
  assumes "multi_ok ps" "mset qs = mset ps"
  shows "multi_ok qs"
proof -
  have "mset (map fst qs) = mset (map fst ps)" using assms(2) by simp
  then have "distinct (map fst qs) = distinct (map fst ps)" by (rule mset_eq_imp_distinct_iff)
  moreover have "set qs = set ps" using assms(2) by (rule mset_eq_setD)
  ultimately show ?thesis using assms(1) by (simp add: multi_ok_def)
qed

lemma vals_perm:
  assumes "multi_ok ps" "mset qs = mset ps"
  shows "vals qs = vals ps"
proof -
  have "distinct (map fst qs)" "distinct (map fst ps)"
    using assms(1) multi_ok_perm [OF assms] by (simp_all add: multi_ok_def)
  moreover have "set qs = set ps" using assms(2) by (rule mset_eq_setD)
  ultimately have "map_of qs = map_of ps" by (simp add: map_of_inject_set)
  then show ?thesis by (simp add: vals_def fun_eq_iff)
qed

lemma update_fresh: "k \<notin> fst ` set al \<Longrightarrow> AList.update k v al = al @ [(k, v)]"
  by (induction al) auto

lemma put_int_again:
  assumes "take 12 K = take 12 (token S key kw)" "length K = 16" "length (token S key kw) = 16"
  shows "put_int 12 j K = put_int 12 j (token S key kw)"
  using assms by (simp add: put_int_def)

lemma int32_of_nat: "n < 2 ^ 31 \<Longrightarrow> int32 (int n)"
  by (simp add: int32_def)

lemma label_values_eq:
  assumes S: "senv_ok S" and kw: "kw_ok kw"
  shows "take 12 K = take 12 (token S key kw) \<Longrightarrow> length K = 16 \<Longrightarrow> i + length vs \<le> 2 ^ 31 \<Longrightarrow>
    \<forall>v\<in>set vs. length v = 16 \<Longrightarrow> \<forall>j\<in>{i..<i + length vs}. label S key kw (int j) \<notin> fst ` set d \<Longrightarrow>
    label_values S key K (int i) vs d = Inr (d @ labelled S key kw i vs)"
proof (induction vs arbitrary: K i d)
  case Nil
  then show ?case by (simp add: labelled_def)
next
  case (Cons v vs)
  have tok: "length (token S key kw) = 16" using length_token(1) [OF S kw_ok_length [OF kw]] .
  have put: "put_int 12 (int i) K = put_int 12 (int i) (token S key kw)"
    using put_int_again Cons.prems(1,2) tok by blast
  let ?K = "put_int 12 (int i) (token S key kw)"
  let ?d = "d @ [(label S key kw (int i), sealed S key v)]"
  have fresh: "label S key kw (int j) \<noteq> label S key kw (int i)" if "j \<in> {Suc i..<Suc i + length vs}" for j
    using that Cons.prems(3) label_inj [OF S kw kw] by (simp add: int32_of_nat)
  have "label_values S key ?K (int (Suc i)) vs ?d = Inr (?d @ labelled S key kw (Suc i) vs)"
    by (rule Cons.IH) (use Cons.prems tok fresh in \<open>auto\<close>)
  then show ?case
    using Cons.prems put encode_sealed [OF S, of v key] update_fresh [of "label S key kw (int i)" d]
    by (simp add: getAESRandomValue_def AES_KEY_SIZE_def label_def labelled_def add.commute Let_def)
qed

lemma labelled_simps [simp]:
  "labelled S key kw i [] = []"
  "labelled S key kw i (v # vs) = (label S key kw (int i), sealed S key v) # labelled S key kw (Suc i) vs"
  by (simp_all add: labelled_def)

lemma map_fst_labelled:
  "map fst (labelled S key kw i vs) = map (\<lambda>j. label S key kw (int j)) [i..<i + length vs]"
  by (induction vs arbitrary: i) (simp_all add: upt_conv_Cons del: upt_Suc)

lemma map_snd_labelled: "map snd (labelled S key kw i vs) = map (sealed S key) vs"
  by (induction vs arbitrary: i) simp_all

lemma fst_labelled:
  "x \<in> fst ` set (labelled S key kw i vs) \<longleftrightarrow> (\<exists>j\<in>{i..<i + length vs}. x = label S key kw (int j))"
proof -
  have "fst ` set (labelled S key kw i vs) = set (map fst (labelled S key kw i vs))" by simp
  then show ?thesis by (auto simp only: map_fst_labelled set_map set_upt)
qed

lemma fst_dict_of:
  assumes "senv_ok S" "multi_ok ps" "kw_ok kw" "int32 j"
  shows "label S key kw j \<in> fst ` set (dict_of S key ps) \<longleftrightarrow> 0 \<le> j \<and> nat j < length (vals ps kw)"
  using assms(2)
proof (induction ps)
  case Nil
  then show ?case by (simp add: dict_of_def vals_def)
next
  case (Cons p ps)
  obtain kw' vs where p: "p = (kw', vs)" by (cases p)
  then have ok: "kw_ok kw'" "length vs < 2 ^ 31" "kw' \<notin> fst ` set ps" "multi_ok ps"
    using Cons.prems by (auto simp: multi_ok_Cons)
  have "label S key kw j = label S key kw' (int i) \<longleftrightarrow> kw = kw' \<and> j = int i" if "i < length vs" for i
    using label_inj [OF assms(1,3) ok(1) assms(4)] that ok(2) by (simp add: int32_of_nat)
  then have "label S key kw j \<in> fst ` set (labelled S key kw' 0 vs) \<longleftrightarrow> kw = kw' \<and> (\<exists>i<length vs. j = int i)"
    by (auto simp: fst_labelled)
  also have "(\<exists>i<length vs. j = int i) \<longleftrightarrow> 0 \<le> j \<and> nat j < length vs"
    by (auto intro: exI [of _ "nat j"])
  finally have "label S key kw j \<in> fst ` set (labelled S key kw' 0 vs) \<longleftrightarrow> kw = kw' \<and> 0 \<le> j \<and> nat j < length vs" .
  moreover have "vals ps kw' = []"
    using ok(3) by (auto simp: vals_def map_of_eq_None_iff split: option.splits) (metis map_of_SomeD fst_conv image_eqI)
  ultimately show ?case
    using Cons.IH [OF ok(4)] by (auto simp: p dict_of_def vals_def image_Un)
qed

lemma label_pairs_eq:
  assumes S: "senv_ok S"
  shows "multi_ok (qs @ ps) \<Longrightarrow> label_pairs S key ps (dict_of S key qs) = Inr (dict_of S key (qs @ ps))"
proof (induction ps arbitrary: qs)
  case Nil
  then show ?case by simp
next
  case (Cons p ps)
  obtain kw vs where p: "p = (kw, vs)" by (cases p)
  have ok: "kw_ok kw" "length vs < 2 ^ 31" "\<forall>v\<in>set vs. length v = 16" "kw \<notin> fst ` set qs" "multi_ok qs"
    using Cons.prems by (auto simp: p multi_ok_def)
  have "vals qs kw = []" using ok(4) by (auto simp: vals_def split: option.splits) (metis map_of_SomeD fst_conv image_eqI)
  then have "label_values S key (token S key kw) 0 vs (dict_of S key qs) =
      Inr (dict_of S key qs @ labelled S key kw 0 vs)"
    using label_values_eq [OF S ok(1), of "token S key kw" key 0 vs "dict_of S key qs"] ok
      length_token(1) [OF S kw_ok_length [OF ok(1)]] fst_dict_of [OF S ok(5,1)]
    by (simp add: int32_of_nat)
  moreover have "dict_of S key qs @ labelled S key kw 0 vs = dict_of S key (qs @ [p])"
    by (simp add: dict_of_def p)
  ultimately show ?case
    using Cons.IH [of "qs @ [p]"] Cons.prems length_token(2) [OF S kw_ok_length [OF ok(1)], of key] by (simp add: p)
qed

section \<open>Searching and reading a dictionary\<close>

lemma distinct_dict_of: "senv_ok S \<Longrightarrow> multi_ok ps \<Longrightarrow> distinct (map fst (dict_of S key ps))"
proof (induction ps)
  case Nil
  then show ?case by (simp add: dict_of_def)
next
  case (Cons p ps)
  obtain kw vs where p: "p = (kw, vs)" by (cases p)
  then have ok: "kw_ok kw" "length vs < 2 ^ 31" "kw \<notin> fst ` set ps" "multi_ok ps"
    using Cons.prems by (auto simp: multi_ok_Cons)
  have "distinct (map fst (labelled S key kw 0 vs))"
    using label_inj [OF Cons.prems(1) ok(1,1)] ok(2)
    by (auto simp: map_fst_labelled distinct_map inj_on_def int32_of_nat)
  moreover have "vals ps kw = []"
    using ok(3) by (auto simp: vals_def split: option.splits) (metis map_of_SomeD fst_conv image_eqI)
  then have "label S key kw (int j) \<notin> fst ` set (dict_of S key ps)" if "j < length vs" for j
    using fst_dict_of [OF Cons.prems(1) ok(4,1), of "int j" key] that ok(2) by (simp add: int32_of_nat)
  then have "fst ` set (labelled S key kw 0 vs) \<inter> fst ` set (dict_of S key ps) = {}"
    unfolding disjoint_iff fst_labelled by (metis atLeastLessThan_iff add_0)
  ultimately show ?case
    using Cons.IH [OF Cons.prems(1) ok(4)] by (simp add: p dict_of_def)
qed

lemma in_dict_of:
  "map_of ps kw = Some vs \<Longrightarrow> j < length vs \<Longrightarrow>
     (label S key kw (int j), sealed S key (vs ! j)) \<in> set (dict_of S key ps)"
  by (force simp: dict_of_def labelled_def in_set_enumerate_eq dest!: map_of_SomeD)

lemma lookup_dict_of:
  assumes "senv_ok S" "multi_ok ps" "kw_ok kw" "j \<le> length (vals ps kw)"
  shows "map_of (dict_of S key ps) (label S key kw (int j)) =
         (if j < length (vals ps kw) then Some (sealed S key (vals ps kw ! j)) else None)"
proof -
  have "length (vals ps kw) < 2 ^ 31"
    using assms(2) by (auto simp: vals_def multi_ok_def dest!: map_of_SomeD split: option.splits)
  then have "label S key kw (int j) \<in> fst ` set (dict_of S key ps) \<longleftrightarrow> j < length (vals ps kw)"
    using fst_dict_of [OF assms(1-3), of "int j"] assms(4) by (simp add: int32_of_nat)
  moreover have "map_of (dict_of S key ps) (label S key kw (int j)) = Some (sealed S key (vals ps kw ! j))"
    if "j < length (vals ps kw)"
    using that in_dict_of [of ps kw _ j S key] distinct_dict_of [OF assms(1,2), of key]
    by (auto simp: vals_def split: option.splits)
  ultimately show ?thesis by (auto simp: map_of_eq_None_iff)
qed

lemma bas_search_loop_eq:
  assumes "senv_ok S" "multi_ok ps" "kw_ok kw" "j \<le> length (vals ps kw)"
  shows "bas_search_loop S (dict_of S key ps) (token S key kw) (int j) acc =
         Some (acc @ map (sealed S key) (drop j (vals ps kw)))"
  using assms(4)
proof (induction "length (vals ps kw) - j" arbitrary: j acc)
  case 0
  then show ?case
    using lookup_dict_of [OF assms(1-3) 0(2), of key]
    by (subst bas_search_loop.simps) (simp add: getAESRandomValue_def AES_KEY_SIZE_def label_def Let_def)
next
  case (Suc n)
  then have j: "j < length (vals ps kw)" by simp
  have "bas_search_loop S (dict_of S key ps) (token S key kw) (int (Suc j)) (acc @ [sealed S key (vals ps kw ! j)]) =
      Some ((acc @ [sealed S key (vals ps kw ! j)]) @ map (sealed S key) (drop (Suc j) (vals ps kw)))"
    by (rule Suc.hyps(1)) (use Suc j in auto)
  then show ?case
    using lookup_dict_of [OF assms(1-3) Suc.prems, of key] j
    by (subst bas_search_loop.simps)
      (simp add: getAESRandomValue_def AES_KEY_SIZE_def label_def Let_def add.commute
        Cons_nth_drop_Suc [symmetric])
qed

lemma map_res_decode:
  assumes "senv_ok S" "\<forall>v\<in>set vs. length v = 16"
  shows "map_res (decode_bytes (s_dec S) (s_stack S) key) (map (sealed S key) vs) = Inr (map (opened S) vs)"
  using assms(2) by (induction vs) (simp_all add: decode_sealed [OF assms(1)])

lemma vals_ok: "multi_ok ps \<Longrightarrow> v \<in> set (vals ps kw) \<Longrightarrow> length v = 16"
  by (auto simp: vals_def multi_ok_def dest!: map_of_SomeD split: option.splits)

lemma um_insert_range_fresh:
  "distinct (map fst ps) \<Longrightarrow> fst ` set ps \<inter> fst ` set m = {} \<Longrightarrow> um_insert_range ps m = m @ ps"
proof (induction ps arbitrary: m)
  case (Cons p ps)
  then have "um_insert p m = m @ [p]" by (auto simp: um_insert_def map_of_eq_None_iff)
  then show ?case using Cons.IH [of "m @ [p]"] Cons.prems by (auto simp: um_insert_range_def)
qed (simp add: um_insert_range_def)

lemma mset_dict_of: "mset (map snd (dict_of S key ps)) = image_mset (sealed S key) (mset (concat (map snd ps)))"
proof (induction ps)
  case (Cons p ps)
  obtain kw vs where p: "p = (kw, vs)" by (cases p)
  show ?case using Cons by (simp add: p dict_of_def map_snd_labelled)
qed (simp add: dict_of_def)

lemma mset_map_ex: "mset cs = image_mset f (mset vs) \<Longrightarrow> \<exists>ws. cs = map f ws \<and> mset ws = mset vs"
proof (induction cs arbitrary: vs)
  case (Cons c cs)
  then have "c \<in># image_mset f (mset vs)" by (metis list.set_intros(1) set_mset_mset)
  then obtain v where v: "v \<in> set vs" "c = f v" by auto
  then have "mset vs = mset (v # remove1 v vs)" by simp
  then obtain us where us: "mset vs = add_mset v (mset us)" by (metis mset.simps(2))
  then have "mset cs = image_mset f (mset us)" using Cons.prems v(2) by simp
  then obtain ws where "cs = map f ws" "mset ws = mset us" using Cons.IH by blast
  then show ?case using v(2) us by (intro exI [of _ "v # ws"]) simp
qed simp

text \<open>
  The contract of a dictionary level: \<open>setup\<close> on an empty level stores \<open>dict_of\<close>, a search
  returns the values of the keyword in order, \<open>getAllData\<close> every value once.
\<close>

lemma bas_setup_eq:
  assumes "senv_ok S" "multi_ok ps" "i < length (c_exist c)" "i < length (c_server c)" "c_server c ! i = []"
  obtains qs where "bas_setup S i ps key c =
       Inr (c\<lparr>c_server := (c_server c)[i := dict_of S key qs], c_exist := (c_exist c)[i := True]\<rparr>)"
    "multi_ok qs" "mset qs = mset ps"
proof -
  let ?qs = "s_iterw S ps"
  have m: "mset ?qs = mset ps" using assms(1) by (simp add: senv_ok_def)
  then have ok: "multi_ok ?qs" using multi_ok_perm [OF assms(2)] by simp
  have "label_pairs S key ?qs [] = Inr (dict_of S key ?qs)"
    using label_pairs_eq [OF assms(1), of "[]" ?qs key] ok by (simp add: dict_of_def)
  moreover have "um_insert_range (dict_of S key ?qs) [] = dict_of S key ?qs"
    using um_insert_range_fresh [OF distinct_dict_of [OF assms(1) ok]] by simp
  ultimately show ?thesis using that [of ?qs] assms ok m by (simp add: bas_setup_def bas_storeCiphers_def)
qed

lemma bas_client_search_eq:
  assumes "senv_ok S" "multi_ok ps" "kw_ok kw" "i < length (c_server c)" "c_server c ! i = dict_of S key ps"
  shows "bas_client_search S i kw key c = Inr (map (opened S) (vals ps kw))"
  using assms bas_search_loop_eq [OF assms(1-3), of 0 key "[]"] map_res_decode [OF assms(1)] vals_ok [OF assms(2)]
  by (simp add: bas_client_search_def length_token(2) [OF assms(1) kw_ok_length] bas_search_def loop_res_def)

lemma bas_client_getAllData_eq:
  assumes "senv_ok S" "multi_ok ps" "i < length (c_server c)" "c_server c ! i = dict_of S key ps"
  obtains vs where "bas_client_getAllData S i key c = Inr (map (opened S) vs)" "mset vs = mset (concat (map snd ps))"
proof -
  have "mset (map snd (s_iter S (dict_of S key ps))) = mset (map snd (dict_of S key ps))"
    using assms(1) by (simp add: senv_ok_def)
  then have "mset (map snd (s_iter S (dict_of S key ps))) = image_mset (sealed S key) (mset (concat (map snd ps)))"
    by (simp only: mset_dict_of)
  then obtain vs where vs: "map snd (s_iter S (dict_of S key ps)) = map (sealed S key) vs"
    "mset vs = mset (concat (map snd ps))" using mset_map_ex by blast
  have "set vs = set (concat (map snd ps))" using vs(2) by (rule mset_eq_setD)
  then have "\<forall>v\<in>set vs. length v = 16" using assms(2) by (fastforce simp: multi_ok_def)
  then show ?thesis
    using that [OF _ vs(2)] assms vs(1) map_res_decode [OF assms(1)]
    by (simp add: bas_client_getAllData_def bas_getAllData_def)
qed

text \<open>Parameters that satisfy the contract: padding as cipher, the seed itself as label.\<close>

definition toy_senv :: senv where
  "toy_senv = \<lparr>s_enc = pad_enc, s_dec = pad_dec, s_prg = rev, s_stack = replicate 16 3,
     s_newkey = (\<lambda>n. replicate 16 (of_nat n)), s_iter = rev, s_iterw = rev\<rparr>"

lemma token_toy:
  assumes "kw_ok kw"
  shows "take 12 (token toy_senv key kw) = string_bytes (kw @ ''-1'') @ replicate (10 - length kw) 0"
proof -
  have len: "length kw \<le> 10" using assms by (simp add: kw_ok_def)
  then have "15 - length kw = Suc (Suc (13 - length kw))" "12 - length kw = Suc (Suc (10 - length kw))" by arith+
  with len show ?thesis by (simp add: token_def toy_senv_def pad_enc_def pad16_def Let_def)
qed

lemma senv_ok_toy: "senv_ok toy_senv"
proof -
  have "kw = kw'" if k: "kw_ok kw" "kw_ok kw'"
    and e: "take 12 (token toy_senv key kw) = take 12 (token toy_senv key kw')" for key kw kw'
  proof -
    have nz: "\<forall>b\<in>set (string_bytes (w @ ''-1'')). b \<noteq> 0" if "kw_ok w" for w
      using that by (auto simp: kw_ok_def string_bytes_def NUL_char)
    have t: "takeWhile (\<lambda>b. b \<noteq> 0) (string_bytes (w @ ''-1'') @ replicate n 0) = string_bytes (w @ ''-1'')"
      if "kw_ok w" for w n
      using nz [OF that] by (simp add: takeWhile_append2 del: string_bytes_append)
    have "string_bytes (kw @ ''-1'') = string_bytes (kw' @ ''-1'')"
      using e t [OF k(1)] t [OF k(2)] token_toy [OF k(1)] token_toy [OF k(2)] by metis
    then show ?thesis by (metis append_same_eq string_bytes_inverse)
  qed
  then have "inj_on (\<lambda>kw. take 12 (token toy_senv key kw)) (Collect kw_ok)" for key
    by (auto intro: inj_onI)
  moreover have "cipher_ok (s_enc toy_senv) (s_dec toy_senv)" using cipher_ok_pad by (simp add: toy_senv_def)
  ultimately show ?thesis by (simp add: senv_ok_def) (simp add: toy_senv_def inj_on_def)
qed

end
