(* ===== verification/Block_Id.thy ===== *)
theory Block_Id
  imports Prelude "HOL-Library.List_Lexorder"
begin

text \<open>
  The block identifier \<open>Bid\<close> (\<open>Bid.h\<close>, \<open>Bid.cpp\<close>, the same text in every scheme): a fixed
  array of \<open>ID_SIZE\<close> bytes with constructors from integers and strings, a big-endian
  increment, and comparisons with other identifiers and with integers. \<open>ID_SIZE\<close> is 16 for
  the static schemes, Mitra and QOS and 24 for Horus, so the operations that depend on it
  take it as the argument \<open>n\<close>.
\<close>

section \<open>The class\<close>

datatype bid = Bid (bid_id: bytes)

definition bid_wf :: "nat \<Rightarrow> bid \<Rightarrow> bool" where
  "bid_wf n b \<longleftrightarrow> length (bid_id b) = n"

definition Bid_default :: "nat \<Rightarrow> bid" where
  "Bid_default n = Bid (replicate n 0)"

definition Bid_string :: "nat \<Rightarrow> string \<Rightarrow> bid res" where
  "Bid_string n s = ebind (copy_at 0 (string_bytes s) (replicate n 0)) (\<lambda>d. Inr (Bid d))"

text \<open>\<open>for (i = 0; i < 4; i++) id[3 - i] = (byte_t)(value >> (i * 8))\<close> over a zeroed array.\<close>

fun int_to_id :: "nat \<Rightarrow> int \<Rightarrow> bytes \<Rightarrow> bytes" where
  "int_to_id 0 v d = d"
| "int_to_id (Suc k) v d =
     (let i = 4 - Suc k in int_to_id k v (d[3 - i := word_of_int (drop_bit (i * 8) v)]))"

definition Bid_int :: "nat \<Rightarrow> int \<Rightarrow> bid" where
  "Bid_int n v = Bid (int_to_id 4 v (replicate n 0))"

definition Bid_array :: "bytes \<Rightarrow> bid" where
  "Bid_array a = Bid a"

definition assign_int :: "bid \<Rightarrow> int \<Rightarrow> bid" where
  "assign_int b v = Bid (int_to_id 4 v (replicate (length (bid_id b)) 0))"

definition setValue :: "bid \<Rightarrow> int \<Rightarrow> bid" where
  "setValue b v = Bid (int_to_id 4 v (replicate (length (bid_id b)) 0))"

text \<open>
  \<open>operator++\<close>: increment the last byte and carry towards the first one while the byte just
  incremented has become zero.
\<close>

fun carry :: "nat \<Rightarrow> bytes \<Rightarrow> bytes" where
  "carry 0 d = d"
| "carry (Suc i) d = (if d ! Suc i = 0 then carry i (d[i := d ! i + 1]) else d)"

definition bid_inc :: "bid \<Rightarrow> bid" where
  "bid_inc b = (let d = bid_id b; l = length d - 1 in Bid (carry l (d[l := d ! l + 1])))"

section \<open>Comparisons\<close>

text \<open>Comparison with an \<open>int\<close> looks at the first four bytes only and does not mask the shifted value.\<close>

definition bid_ne_int :: "bid \<Rightarrow> int \<Rightarrow> bool" where
  "bid_ne_int b v \<longleftrightarrow> (\<exists>i\<in>set [0..<4]. uint (bid_id b ! (3 - i)) \<noteq> drop_bit (i * 8) v)"

definition bid_eq_int :: "bid \<Rightarrow> int \<Rightarrow> bool" where
  "bid_eq_int b v \<longleftrightarrow> (\<forall>i\<in>set [0..<4]. uint (bid_id b ! (3 - i)) = drop_bit (i * 8) v)"

fun ne_loop :: "bytes \<Rightarrow> bytes \<Rightarrow> bool" where
  "ne_loop (x # xs) (y # ys) = (if x \<noteq> y then True else ne_loop xs ys)"
| "ne_loop _ _ = False"

fun eq_loop :: "bytes \<Rightarrow> bytes \<Rightarrow> bool" where
  "eq_loop (x # xs) (y # ys) = (if x \<noteq> y then False else eq_loop xs ys)"
| "eq_loop _ _ = True"

text \<open>
  The four order operators run the same loop: the first differing byte decides, and \<open>r\<close> is
  what the operator returns when there is none.
\<close>

fun lt_loop :: "bool \<Rightarrow> bytes \<Rightarrow> bytes \<Rightarrow> bool" where
  "lt_loop r (x # xs) (y # ys) = (if x < y then True else if x > y then False else lt_loop r xs ys)"
| "lt_loop r _ _ = r"

fun gt_loop :: "bool \<Rightarrow> bytes \<Rightarrow> bytes \<Rightarrow> bool" where
  "gt_loop r (x # xs) (y # ys) = (if x > y then True else if x < y then False else gt_loop r xs ys)"
| "gt_loop r _ _ = r"

definition bid_ne :: "bid \<Rightarrow> bid \<Rightarrow> bool" where
  "bid_ne a b = ne_loop (bid_id a) (bid_id b)"

definition bid_eq :: "bid \<Rightarrow> bid \<Rightarrow> bool" where
  "bid_eq a b = eq_loop (bid_id a) (bid_id b)"

definition bid_lt :: "bid \<Rightarrow> bid \<Rightarrow> bool" where
  "bid_lt a b = lt_loop False (bid_id a) (bid_id b)"

definition bid_le :: "bid \<Rightarrow> bid \<Rightarrow> bool" where
  "bid_le a b = lt_loop True (bid_id a) (bid_id b)"

definition bid_gt :: "bid \<Rightarrow> bid \<Rightarrow> bool" where
  "bid_gt a b = gt_loop False (bid_id a) (bid_id b)"

definition bid_ge :: "bid \<Rightarrow> bid \<Rightarrow> bool" where
  "bid_ge a b = gt_loop True (bid_id a) (bid_id b)"

text \<open>\<open>getValue\<close> adds up the first four bytes; the sum is an \<open>int\<close>.\<close>

definition getValue :: "bid \<Rightarrow> int" where
  "getValue b = rd32 (rev (take 4 (bid_id b)))"

definition bid_lt_int :: "bid \<Rightarrow> int \<Rightarrow> bool" where
  "bid_lt_int b v \<longleftrightarrow> getValue b < v"

definition bid_ge_int :: "bid \<Rightarrow> int \<Rightarrow> bool" where
  "bid_ge_int b v \<longleftrightarrow> v \<le> getValue b"

text \<open>\<open>*(int*)(&id.id.data()[ID_SIZE - 4])\<close>: the counter the static schemes keep in the last four bytes.\<close>

definition bid_tail_int :: "bid \<Rightarrow> int" where
  "bid_tail_int b = get_int (length (bid_id b) - 4) (bid_id b)"

section \<open>Identifiers are linearly ordered\<close>

instantiation bid :: linorder
begin

definition less_eq_bid :: "bid \<Rightarrow> bid \<Rightarrow> bool" where
  "a \<le> b \<longleftrightarrow> bid_id a \<le> bid_id b"

definition less_bid :: "bid \<Rightarrow> bid \<Rightarrow> bool" where
  "a < b \<longleftrightarrow> bid_id a < bid_id b"

instance
  by standard (auto simp: less_eq_bid_def less_bid_def bid.expand)

end

lemma lt_loop_iff: "length xs = length ys \<Longrightarrow> lt_loop r xs ys \<longleftrightarrow> xs < ys \<or> (r \<and> xs = ys)"
  by (induction r xs ys rule: lt_loop.induct) auto

lemma gt_loop_iff: "length xs = length ys \<Longrightarrow> gt_loop r xs ys \<longleftrightarrow> ys < xs \<or> (r \<and> xs = ys)"
  by (induction r xs ys rule: gt_loop.induct) auto

lemma eq_loop_iff: "length xs = length ys \<Longrightarrow> eq_loop xs ys \<longleftrightarrow> xs = ys"
  by (induction xs ys rule: eq_loop.induct) auto

lemma ne_loop_iff: "length xs = length ys \<Longrightarrow> ne_loop xs ys \<longleftrightarrow> xs \<noteq> ys"
  by (induction xs ys rule: ne_loop.induct) auto

lemma bid_cmp_iff:
  assumes "bid_wf n a" "bid_wf n b"
  shows "bid_lt a b \<longleftrightarrow> a < b" "bid_le a b \<longleftrightarrow> a \<le> b"
    "bid_gt a b \<longleftrightarrow> b < a" "bid_ge a b \<longleftrightarrow> b \<le> a"
    "bid_eq a b \<longleftrightarrow> a = b" "bid_ne a b \<longleftrightarrow> a \<noteq> b"
  using assms
  by (auto simp: bid_wf_def bid_lt_def bid_le_def bid_gt_def bid_ge_def bid_eq_def bid_ne_def
      lt_loop_iff gt_loop_iff eq_loop_iff ne_loop_iff less_bid_def less_eq_bid_def bid.expand)

section \<open>The big-endian value\<close>

fun be_nat :: "bytes \<Rightarrow> nat" where
  "be_nat [] = 0"
| "be_nat (x # xs) = unat x * 256 ^ length xs + be_nat xs"

lemma be_nat_less: "be_nat xs < 256 ^ length xs"
proof (induction xs)
  case Nil
  then show ?case by simp
next
  case (Cons x xs)
  have "unat x * 256 ^ length xs + 256 ^ length xs \<le> 256 * 256 ^ length xs"
    using unat_byte_less [of x] by (metis Suc_leI mult_le_mono1 mult_Suc add.commute)
  with Cons show ?case by (simp only: be_nat.simps length_Cons power_Suc)
qed

lemma be_nat_less_iff: "length xs = length ys \<Longrightarrow> be_nat xs < be_nat ys \<longleftrightarrow> xs < ys"
proof (induction xs ys rule: list_induct2)
  case Nil
  then show ?case by simp
next
  case (Cons x xs y ys)
  have b: "be_nat xs < 256 ^ length ys" "be_nat ys < 256 ^ length ys"
    using be_nat_less [of xs] be_nat_less [of ys] Cons.hyps by simp_all
  have step: "a * 256 ^ length ys + be_nat xs < c * 256 ^ length ys + be_nat ys" if "a < c" for a c :: nat
  proof -
    have "a * 256 ^ length ys + 256 ^ length ys \<le> c * 256 ^ length ys"
      using that by (metis Suc_leI mult_Suc mult_le_mono1 add.commute)
    with b show ?thesis by linarith
  qed
  have step': "c * 256 ^ length ys + be_nat ys < a * 256 ^ length ys + be_nat xs" if "c < a" for a c :: nat
  proof -
    have "c * 256 ^ length ys + 256 ^ length ys \<le> a * 256 ^ length ys"
      using that by (metis Suc_leI mult_Suc mult_le_mono1 add.commute)
    with b show ?thesis by linarith
  qed
  show ?case
  proof (cases x y rule: linorder_cases)
    case less
    then have "unat x < unat y" by (simp add: word_less_nat_alt)
    with step less Cons.hyps show ?thesis by simp
  next
    case equal
    with Cons show ?thesis by simp
  next
    case greater
    then have "unat y < unat x" by (simp add: word_less_nat_alt)
    with step' greater Cons.hyps show ?thesis by (auto dest: less_asym)
  qed
qed

text \<open>One byte further left has 256 times the weight: setting byte \<open>i\<close> changes the value accordingly.\<close>

lemma be_nat_append: "be_nat (xs @ ys) = be_nat xs * 256 ^ length ys + be_nat ys"
  by (induction xs) (auto simp: power_add algebra_simps)

lemma carry_append: "i < length d \<Longrightarrow> carry i (d @ e) = carry i d @ e"
  by (induction i arbitrary: d) (auto simp: nth_append list_update_append)

lemma byte_inc_cases:
  obtains "(x::byte) + 1 = 0" "unat x = 255" | "x + 1 \<noteq> 0" "unat (x + 1) = unat x + 1"
proof (cases "x + 1 = 0")
  case True
  then have "x = - 1" by (simp add: eq_neg_iff_add_eq_0)
  then have "unat x = 255" by (simp add: unsigned_minus_1_eq_mask mask_eq_exp_minus_1)
  with True that(1) show ?thesis by blast
next
  case False
  then have "unat (x + 1) = unat x + 1" by (metis add.commute unatSuc Suc_eq_plus1)
  with False that(2) show ?thesis by blast
qed

lemma carry_value:
  "be_nat (carry (length xs) (xs @ [x + 1])) = (be_nat (xs @ [x]) + 1) mod 256 ^ Suc (length xs)"
proof (induction xs arbitrary: x rule: rev_induct)
  case Nil
  show ?case by (cases x rule: byte_inc_cases) (use unat_byte_less [of "x + 1"] in auto)
next
  case (snoc y ys)
  let ?v = "be_nat (ys @ [y])"
  have val: "be_nat ((ys @ [y]) @ [x]) = ?v * 256 + unat x" by (simp add: be_nat_append)
  show ?case
  proof (cases x rule: byte_inc_cases)
    case 1
    have "carry (length (ys @ [y])) ((ys @ [y]) @ [x + 1]) = carry (length ys) ((ys @ [y + 1]) @ [0])"
      using 1 by (simp add: nth_append list_update_append)
    also have "\<dots> = carry (length ys) (ys @ [y + 1]) @ [0]"
      by (rule carry_append) simp
    finally have "be_nat (carry (length (ys @ [y])) ((ys @ [y]) @ [x + 1])) =
        (?v + 1) mod 256 ^ Suc (length ys) * 256"
      by (simp add: be_nat_append snoc.IH del: power_Suc)
    also have "\<dots> = ((?v + 1) * 256) mod (256 ^ Suc (length ys) * 256)"
      by (rule mult_mod_left)
    finally show ?thesis using 1 val by (simp add: mult.commute)
  next
    case 2
    then have "be_nat (carry (length (ys @ [y])) ((ys @ [y]) @ [x + 1])) = ?v * 256 + unat x + 1"
      by (simp add: nth_append be_nat_append)
    moreover have "\<dots> < 256 ^ Suc (length (ys @ [y]))"
      using be_nat_less [of "(ys @ [y]) @ [x + 1]"] 2
      by (simp add: be_nat_append)
    ultimately show ?thesis using val by (simp del: power_Suc append_assoc)
  qed
qed

lemma bid_inc_value:
  assumes "bid_wf n b" "0 < n"
  shows "be_nat (bid_id (bid_inc b)) = (be_nat (bid_id b) + 1) mod 256 ^ n"
proof -
  obtain xs x where d: "bid_id b = xs @ [x]"
    using assms by (cases "bid_id b" rule: rev_exhaust) (auto simp: bid_wf_def)
  then have "n = Suc (length xs)" using assms by (simp add: bid_wf_def)
  with d show ?thesis
    using carry_value [of xs x] by (simp add: bid_inc_def nth_append list_update_append)
qed

lemma length_carry [simp]: "length (carry i d) = length d"
  by (induction i arbitrary: d) auto

lemma bid_inc_wf: "bid_wf n b \<Longrightarrow> bid_wf n (bid_inc b)"
  by (simp add: bid_wf_def bid_inc_def Let_def)

section \<open>Integers in identifiers\<close>

lemma int_to_id_eq:
  assumes "4 \<le> n"
  shows "int_to_id 4 v (replicate n 0) = rev (le32 v) @ replicate (n - 4) 0"
proof -
  obtain m where n: "n = Suc (Suc (Suc (Suc m)))"
    using assms by (metis Suc_le_D eval_nat_numeral(2) numeral_3_eq_3 Suc_le_mono numeral_2_eq_2 numeral_eq_Suc pred_numeral_simps(2) semiring_norm(26,27))
  show ?thesis
    by (simp add: n eval_nat_numeral Let_def le32_nths)
qed

lemma Bid_int_id: "4 \<le> n \<Longrightarrow> bid_id (Bid_int n v) = rev (le32 v) @ replicate (n - 4) 0"
  by (simp add: Bid_int_def int_to_id_eq)

lemma Bid_int_wf: "4 \<le> n \<Longrightarrow> bid_wf n (Bid_int n v)"
  by (simp add: bid_wf_def Bid_int_id)

lemma getValue_Bid_int: "4 \<le> n \<Longrightarrow> int32 v \<Longrightarrow> getValue (Bid_int n v) = v"
  by (simp add: getValue_def Bid_int_id rd32_le32)

lemma getValue_setValue: "4 \<le> length (bid_id b) \<Longrightarrow> int32 v \<Longrightarrow> getValue (setValue b v) = v"
  by (simp add: getValue_def setValue_def int_to_id_eq rd32_le32)

lemma bid_eq_int_nths:
  "bid_eq_int b v \<longleftrightarrow>
     uint (bid_id b ! 3) = v \<and> uint (bid_id b ! 2) = drop_bit 8 v \<and>
     uint (bid_id b ! 1) = drop_bit 16 v \<and> uint (bid_id b ! 0) = drop_bit 24 v"
  by (auto simp: bid_eq_int_def upt_rec)

lemma bid_ne_int_iff: "bid_ne_int b v \<longleftrightarrow> \<not> bid_eq_int b v"
  by (auto simp: bid_ne_int_def bid_eq_int_def)

lemma bid_eq_int_0_iff:
  "bid_eq_int b 0 \<longleftrightarrow> bid_id b ! 0 = 0 \<and> bid_id b ! 1 = 0 \<and> bid_id b ! 2 = 0 \<and> bid_id b ! 3 = 0"
  by (auto simp: bid_eq_int_nths uint_0_iff)

lemma bid_eq_int_self:
  assumes "4 \<le> n" "int32 v"
  shows "bid_eq_int (Bid_int n v) v \<longleftrightarrow> 0 \<le> v \<and> v < 256"
proof -
  have nths: "bid_id (Bid_int n v) ! 3 = word_of_int v"
    "bid_id (Bid_int n v) ! 2 = word_of_int (drop_bit 8 v)"
    "bid_id (Bid_int n v) ! 1 = word_of_int (drop_bit 16 v)"
    "bid_id (Bid_int n v) ! 0 = word_of_int (drop_bit 24 v)"
    using assms(1) by (simp_all add: Bid_int_id le32_nths nth_append eval_nat_numeral)
  then have nths': "bid_id (Bid_int n v) ! Suc 0 = word_of_int (drop_bit 16 v)" by simp
  show ?thesis
  proof
    assume "bid_eq_int (Bid_int n v) v"
    then have "uint (word_of_int v :: byte) = v" by (simp add: bid_eq_int_nths nths)
    then have "take_bit 8 v = v" by (simp add: uint_word_of_int_eq)
    then show "0 \<le> v \<and> v < 256" by (simp add: take_bit_int_eq_self_iff)
  next
    assume v: "0 \<le> v \<and> v < 256"
    then have "drop_bit k v = 0" if "8 \<le> k" for k
    proof -
      have "v < 2 ^ k" using v power_increasing [OF that, of "2::int"] by simp
      with v show ?thesis by (simp add: drop_bit_eq_div)
    qed
    with v show "bid_eq_int (Bid_int n v) v"
      by (simp add: bid_eq_int_nths nths nths' uint_word_of_int_eq take_bit_int_eq_self)
  qed
qed

section \<open>Properties\<close>

text \<open>
  (C22) On identifiers of one width the six comparison operators of \<open>Bid\<close> agree with the
  comparison of the big-endian numbers their bytes spell, so \<open>std::map<Bid, ...>\<close> sees a
  strict total order.
\<close>

theorem bid_operators_numeric:
  assumes "bid_wf n a" "bid_wf n b"
  shows "(bid_lt a b \<longleftrightarrow> be_nat (bid_id a) < be_nat (bid_id b)) \<and>
         (bid_gt a b \<longleftrightarrow> be_nat (bid_id b) < be_nat (bid_id a)) \<and>
         (bid_le a b \<longleftrightarrow> \<not> bid_gt a b) \<and> (bid_ge a b \<longleftrightarrow> \<not> bid_lt a b) \<and>
         (bid_eq a b \<longleftrightarrow> a = b) \<and> (bid_ne a b \<longleftrightarrow> \<not> bid_eq a b)"
proof -
  have "be_nat (bid_id a) < be_nat (bid_id b) \<longleftrightarrow> a < b" "be_nat (bid_id b) < be_nat (bid_id a) \<longleftrightarrow> b < a"
    using assms by (simp_all add: be_nat_less_iff bid_wf_def less_bid_def)
  then show ?thesis by (simp add: bid_cmp_iff [OF assms] not_less)
qed

theorem bid_operators_numeric_witness:
  "bid_lt (Bid [1, 255]) (Bid [2, 0]) \<and> \<not> bid_ge (Bid [1, 255]) (Bid [2, 0])"
  using bid_operators_numeric [of 2 "Bid [1, 255]" "Bid [2, 0]"] by (simp add: bid_wf_def)

text \<open>
  (C23) Prefix increment adds one to the big-endian number of the identifier, carrying
  through every byte and wrapping to zero only at the all-ones identifier.
\<close>

theorem bid_increment_numeric:
  assumes "bid_wf n b" "0 < n"
  shows "be_nat (bid_id (bid_inc b)) = (be_nat (bid_id b) + 1) mod 256 ^ n \<and> bid_wf n (bid_inc b)"
  using bid_inc_value [OF assms] bid_inc_wf [OF assms(1)] by simp

theorem bid_increment_numeric_witness:
  "be_nat (bid_id (bid_inc (Bid [0, 255]))) = 256 \<and> be_nat (bid_id (bid_inc (Bid [255, 255]))) = 0"
  using bid_increment_numeric [of 2 "Bid [0, 255]"] bid_increment_numeric [of 2 "Bid [255, 255]"]
  by (simp add: bid_wf_def)

text \<open>
  (C32) \<open>Bid(v)\<close> and \<open>setValue(v)\<close> store an \<open>int\<close> that \<open>getValue\<close> reads back.
\<close>

theorem bid_int_roundtrip:
  assumes "4 \<le> n" "int32 v" "bid_wf n b"
  shows "getValue (Bid_int n v) = v \<and> getValue (setValue b v) = v"
  using assms getValue_Bid_int getValue_setValue by (simp add: bid_wf_def)

theorem bid_int_roundtrip_witness: "getValue (Bid_int 16 (-2)) = -2"
  using bid_int_roundtrip [of 16 "-2" "Bid_default 16"]
  by (simp add: int32_def bid_wf_def Bid_default_def)

text \<open>
  (C40) \<open>operator==(int)\<close> compares each byte with the unmasked shifted value, so an
  identifier made from \<open>v\<close> compares equal to \<open>v\<close> exactly when \<open>0 \<le> v < 256\<close>.
\<close>

theorem bid_int_equality_range:
  assumes "4 \<le> n" "int32 v"
  shows "bid_eq_int (Bid_int n v) v \<longleftrightarrow> 0 \<le> v \<and> v < 256"
  using bid_eq_int_self [OF assms] .

theorem bid_int_equality_range_witness:
  "bid_eq_int (Bid_int 16 200) 200 \<and> \<not> bid_eq_int (Bid_int 16 300) 300"
  using bid_int_equality_range [of 16 200] bid_int_equality_range [of 16 300] by (simp add: int32_def)

end
