(* ===== verification/Oram.thy ===== *)
theory Oram
  imports Aes Block_Id "HOL-Library.Signed_Division"
begin

text \<open>
  The non-recursive Path ORAM \<open>ORAM\<close> (\<open>ORAM.hpp\<close>, \<open>ORAM.cpp\<close>) that stores the nodes of an
  AVL tree. A binary tree of buckets with \<open>Z\<close> blocks each is kept encrypted in the store; a
  block with position \<open>p\<close> lies in a bucket on the path from the root to leaf \<open>p\<close> or in the
  client's cache. One operation is bracketed by \<open>start\<close> and \<open>finilize\<close>; in between nodes
  are fetched into the cache and changed there through pointers.

  A \<open>Node*\<close> handed out by the ORAM is the pointer the cache holds under the node's key, so
  a pointer is modelled by that key and a write through it by an update of the cache entry;
  a null entry of the cache (\<open>cache[k]\<close> creates one) is \<open>None\<close>.

  The four schemes carry a copy of the class each. \<open>scheme\<close> tells them apart where the
  copies differ: only the static schemes skip blocks whose counter is not above
  \<open>dummyValue\<close>; only Horus has 24-byte identifiers, counts the free blocks of the store and
  bounds the position update of \<open>finilize\<close> by the depth instead of the height.
\<close>

section \<open>Types\<close>

datatype scheme = Static | Mitra | Qos | Horus

definition ID_SIZE :: "scheme \<Rightarrow> nat" where
  "ID_SIZE s = (if s = Horus then 24 else 16)"

definition Z :: nat where "Z = 4"

record node =
  nkey :: bid
  nvalue :: bytes
  npos :: int
  nleftID :: bid
  nleftPos :: int
  nrightID :: bid
  nrightPos :: int
  nevictionNode :: int
  nheight :: int

record blk =
  b_id :: bid
  b_data :: bytes

type_synonym bucket = "blk list"

text \<open>
  What the code takes from its environment: OpenSSL, the random number generators, the order
  in which a hash map is iterated, what \<open>std::sort\<close> does with equal keys, and the bytes of
  an object that no member occupies (virtual table pointer, padding, uninitialised members).
\<close>

record env =
  e_scheme :: scheme
  e_enc :: cipher
  e_dec :: cipher
  e_iv :: "nat \<Rightarrow> bytes"
  e_rand :: "nat \<Rightarrow> nat"
  e_order :: "bid list \<Rightarrow> bid list"
  e_sort :: "node list \<Rightarrow> node list"
  e_vptr :: bytes
  e_pad :: bytes
  e_uninit :: int

record oram =
  o_depth :: nat
  o_bucketCount :: nat
  o_blockSize :: nat
  o_clen_size :: nat
  o_plaintext_size :: nat
  o_maxOfRandom :: nat
  o_maxHeightOfAVLTree :: nat
  o_key :: bytes
  o_store :: ramstore
  o_cache :: "(bid \<times> node option) list"
  o_leafList :: "int list"
  o_readviewmap :: "int list"
  o_writeviewmap :: "int list"
  o_modified :: "bid list"
  o_readCnt :: nat
  o_batchWrite :: bool
  o_totalRead :: nat
  o_totalWrite :: nat
  o_dummyValue :: int
  o_rng :: nat
  o_ivs :: nat

section \<open>Object representation of nodes\<close>

definition sizeof_Bid :: "scheme \<Rightarrow> nat" where
  "sizeof_Bid s = 8 + ID_SIZE s"

definition sizeof_Node :: "scheme \<Rightarrow> nat" where
  "sizeof_Node s = 3 * sizeof_Bid s + 48"

text \<open>
  \<open>to_bytes(*node)\<close>: the members in order, each identifier preceded by its virtual table
  pointer, with four bytes of padding after \<open>pos\<close>, \<open>leftPos\<close> and \<open>height\<close>.
\<close>

definition convertNodeToBlock :: "env \<Rightarrow> node \<Rightarrow> bytes" where
  "convertNodeToBlock E n =
     e_vptr E @ bid_id (nkey n) @ nvalue n @ le32 (npos n) @ e_pad E @
     e_vptr E @ bid_id (nleftID n) @ le32 (nleftPos n) @ e_pad E @
     e_vptr E @ bid_id (nrightID n) @ le32 (nrightPos n) @ le32 (nevictionNode n) @
     le32 (nheight n) @ e_pad E"

definition slice :: "nat \<Rightarrow> nat \<Rightarrow> bytes \<Rightarrow> bytes" where
  "slice off len b = take len (drop off b)"

definition convertBlockToNode :: "env \<Rightarrow> bytes \<Rightarrow> node res" where
  "convertBlockToNode E b =
     (let n = ID_SIZE (e_scheme E); m = sizeof_Bid (e_scheme E)
      in if length b < sizeof_Node (e_scheme E) then Inl BadIndex
         else Inr \<lparr>nkey = Bid (slice 8 n b), nvalue = slice m 16 b, npos = get_int (m + 16) b,
                   nleftID = Bid (slice (m + 32) n b), nleftPos = get_int (2 * m + 24) b,
                   nrightID = Bid (slice (2 * m + 40) n b), nrightPos = get_int (3 * m + 32) b,
                   nevictionNode = get_int (3 * m + 36) b, nheight = get_int (3 * m + 40) b\<rparr>)"

section \<open>Path geometry\<close>

fun ilog2 :: "nat \<Rightarrow> nat" where
  "ilog2 n = (if n \<le> 1 then 0 else Suc (ilog2 (n div 2)))"

declare ilog2.simps [simp del]

fun up_path :: "nat \<Rightarrow> int \<Rightarrow> int" where
  "up_path 0 leaf = leaf"
| "up_path (Suc k) leaf = up_path k ((leaf + 1) sdiv 2 - 1)"

text \<open>
  \<open>GetNodeOnPath\<close>: the loop runs for \<open>d = depth - 1, \<dots>, curDepth\<close>; \<open>sdiv\<close> is the division of
  C++, which truncates.
\<close>

definition GetNodeOnPath :: "oram \<Rightarrow> int \<Rightarrow> nat \<Rightarrow> int" where
  "GetNodeOnPath st leaf curDepth =
     up_path (o_depth st - curDepth) (leaf + int (o_bucketCount st div 2))"

section \<open>Buckets\<close>

definition SerialiseBucket :: "oram \<Rightarrow> bucket \<Rightarrow> bytes res" where
  "SerialiseBucket st bkt =
     (let buffer = concat (map b_data bkt)
      in if length buffer = Z * o_blockSize st then Inr buffer else Inl AssertFailed)"

fun deserialise_loop :: "env \<Rightarrow> nat \<Rightarrow> nat \<Rightarrow> bytes \<Rightarrow> bucket res" where
  "deserialise_loop E sz 0 buffer = Inr []"
| "deserialise_loop E sz (Suc z) buffer =
     (let data = take sz buffer
      in ebind (convertBlockToNode E data) (\<lambda>n.
         ebind (deserialise_loop E sz z (drop sz buffer)) (\<lambda>rest.
         Inr (\<lparr>b_id = nkey n, b_data = data\<rparr> # rest))))"

definition DeserialiseBucket :: "env \<Rightarrow> oram \<Rightarrow> bytes \<Rightarrow> bucket res" where
  "DeserialiseBucket E st buffer =
     (if length buffer = Z * o_blockSize st then deserialise_loop E (o_blockSize st) Z buffer
      else Inl AssertFailed)"

definition ReadBucket :: "env \<Rightarrow> oram \<Rightarrow> int \<Rightarrow> (bucket \<times> oram) res" where
  "ReadBucket E st index =
     (let st = st\<lparr>o_totalRead := o_totalRead st + 1\<rparr>
      in ebind (RAMStore_Read (o_store st) index) (\<lambda>ciphertext.
         ebind (Decrypt (e_dec E) (o_key st) ciphertext (o_clen_size st)) (\<lambda>buffer.
         ebind (DeserialiseBucket E st buffer) (\<lambda>bkt. Inr (bkt, st)))))"

definition WriteBucket :: "env \<Rightarrow> oram \<Rightarrow> int \<Rightarrow> bucket \<Rightarrow> oram res" where
  "WriteBucket E st index bkt =
     (let iv = e_iv E (o_ivs st);
          st = st\<lparr>o_totalWrite := o_totalWrite st + 1, o_ivs := o_ivs st + 1\<rparr>
      in ebind (SerialiseBucket st bkt) (\<lambda>b.
         ebind (Encrypt (e_enc E) iv (o_key st) b (o_clen_size st) (o_plaintext_size st)) (\<lambda>ciphertext.
         ebind (RAMStore_Write (o_store st) index ciphertext) (\<lambda>s.
         Inr (st\<lparr>o_store := s\<rparr>)))))"

text \<open>A block that holds no node: identifier 0 and zero bytes.\<close>

definition dummy_blk :: "env \<Rightarrow> oram \<Rightarrow> blk" where
  "dummy_blk E st = \<lparr>b_id = Bid_int (ID_SIZE (e_scheme E)) 0, b_data = replicate (o_blockSize st) 0\<rparr>"

fun write_empty_buckets :: "env \<Rightarrow> nat list \<Rightarrow> oram \<Rightarrow> oram res" where
  "write_empty_buckets E [] st = Inr st"
| "write_empty_buckets E (i # is) st =
     ebind (WriteBucket E st (int i) (replicate Z (dummy_blk E st))) (write_empty_buckets E is)"

text \<open>
  The constructor. \<open>log2(0)\<close> is minus infinity, whose conversion to \<open>int\<close> is undefined, so a
  capacity below \<open>Z\<close> is an error.
\<close>

definition ORAM_new :: "env \<Rightarrow> nat \<Rightarrow> bytes \<Rightarrow> oram res" where
  "ORAM_new E maxSize key =
     (if maxSize div Z = 0 then Inl OutOfRange
      else
        let depth = ilog2 (maxSize div Z);
            bucketCount = 2 ^ (depth + 1) - 1;
            blockSize = sizeof_Node (e_scheme E);
            blockCount = Z * (2 ^ (depth + 1) - 1);
            clen = GetCiphertextLength (Z * blockSize);
            st = \<lparr>o_depth = depth, o_bucketCount = bucketCount, o_blockSize = blockSize,
                  o_clen_size = clen, o_plaintext_size = blockSize * Z,
                  o_maxOfRandom = (2 ^ (ilog2 (maxSize div Z) + 1) - 1) div 2,
                  o_maxHeightOfAVLTree = ilog2 blockCount + 1,
                  o_key = key, o_store = RAMStore_new blockCount (IV + clen),
                  o_cache = [], o_leafList = [], o_readviewmap = [], o_writeviewmap = [],
                  o_modified = [], o_readCnt = 0, o_batchWrite = False, o_totalRead = 0,
                  o_totalWrite = 0, o_dummyValue = 0, o_rng = 0, o_ivs = 0\<rparr>
        in write_empty_buckets E [0..<bucketCount] st)"

text \<open>\<open>dis(mt)\<close> is uniform on \<open>0 .. maxOfRandom\<close>: any value of that range may come out.\<close>

definition ORAM_RandomPath :: "env \<Rightarrow> oram \<Rightarrow> int \<times> oram" where
  "ORAM_RandomPath E st =
     (int (e_rand E (o_rng st) mod (o_maxOfRandom st + 1)), st\<lparr>o_rng := o_rng st + 1\<rparr>)"

section \<open>Reading a path into the cache\<close>

definition cache_count :: "oram \<Rightarrow> bid \<Rightarrow> bool" where
  "cache_count st bid \<longleftrightarrow> map_of (o_cache st) bid \<noteq> None"

definition cache_put :: "bid \<Rightarrow> node option \<Rightarrow> oram \<Rightarrow> oram" where
  "cache_put bid n st = st\<lparr>o_cache := AList.update bid n (o_cache st)\<rparr>"

definition cache_erase :: "bid \<Rightarrow> oram \<Rightarrow> oram" where
  "cache_erase bid st = st\<lparr>o_cache := AList.delete bid (o_cache st)\<rparr>"

text \<open>The node a non-null cache entry points to.\<close>

definition cached :: "oram \<Rightarrow> bid \<Rightarrow> node option" where
  "cached st bid = (case map_of (o_cache st) bid of Some (Some n) \<Rightarrow> Some n | _ \<Rightarrow> None)"

text \<open>A write through a \<open>Node*\<close> of the cache.\<close>

definition cache_modify :: "bid \<Rightarrow> (node \<Rightarrow> node) \<Rightarrow> oram \<Rightarrow> oram" where
  "cache_modify bid f st = (case cached st bid of None \<Rightarrow> st | Some n \<Rightarrow> cache_put bid (Some (f n)) st)"

text \<open>The test that a block read from a bucket holds a node.\<close>

definition not_dummy :: "env \<Rightarrow> oram \<Rightarrow> bid \<Rightarrow> bool" where
  "not_dummy E st bid \<longleftrightarrow>
     bid_ne_int bid 0 \<and> (e_scheme E = Static \<longrightarrow> bid_tail_int bid > o_dummyValue st)"

fun fetch_blocks :: "env \<Rightarrow> bucket \<Rightarrow> oram \<Rightarrow> oram res" where
  "fetch_blocks E [] st = Inr st"
| "fetch_blocks E (b # bs) st =
     (if not_dummy E st (b_id b)
      then ebind (convertBlockToNode E (b_data b)) (\<lambda>n.
             fetch_blocks E bs (if cache_count st (b_id b) then st else cache_put (b_id b) (Some n) st))
      else fetch_blocks E bs st)"

fun fetch_levels :: "env \<Rightarrow> int \<Rightarrow> nat list \<Rightarrow> oram \<Rightarrow> oram res" where
  "fetch_levels E leaf [] st = Inr st"
| "fetch_levels E leaf (d # ds) st =
     (let nd = GetNodeOnPath st leaf d
      in if nd \<in> set (o_readviewmap st) then fetch_levels E leaf ds st
         else ebind (ReadBucket E (st\<lparr>o_readviewmap := o_readviewmap st @ [nd]\<rparr>) nd) (\<lambda>(bkt, st).
              ebind (fetch_blocks E bkt st) (fetch_levels E leaf ds)))"

definition FetchPath :: "env \<Rightarrow> oram \<Rightarrow> int \<Rightarrow> oram res" where
  "FetchPath E st leaf =
     fetch_levels E leaf [0..<Suc (o_depth st)] (st\<lparr>o_readCnt := o_readCnt st + 1\<rparr>)"

section \<open>Writing a path back\<close>

definition fits_at :: "oram \<Rightarrow> int \<Rightarrow> nat \<Rightarrow> bid \<Rightarrow> bool" where
  "fits_at st nd curDepth bid =
     (case cached st bid of None \<Rightarrow> False | Some n \<Rightarrow> GetNodeOnPath st (npos n) curDepth = nd)"

definition GetIntersectingBlocks :: "env \<Rightarrow> oram \<Rightarrow> int \<Rightarrow> nat \<Rightarrow> bid list" where
  "GetIntersectingBlocks E st x curDepth =
     take Z (filter (fits_at st (GetNodeOnPath st x curDepth) curDepth)
                    (e_order E (map fst (o_cache st))))"

fun evict_blocks :: "env \<Rightarrow> bid list \<Rightarrow> oram \<Rightarrow> bucket \<times> oram" where
  "evict_blocks E [] st = ([], st)"
| "evict_blocks E (bid # bids) st =
     (case cached st bid of
        None \<Rightarrow> evict_blocks E bids st
      | Some n \<Rightarrow>
          let (bkt, st') = evict_blocks E bids (cache_erase bid st)
          in (\<lparr>b_id = bid, b_data = convertNodeToBlock E n\<rparr> # bkt, st'))"

definition WritePath :: "env \<Rightarrow> int \<Rightarrow> nat \<Rightarrow> oram \<Rightarrow> oram res" where
  "WritePath E leaf d st =
     (let nd = GetNodeOnPath st leaf d
      in if nd \<in> set (o_writeviewmap st) then Inr st
         else let (bkt, st) = evict_blocks E (GetIntersectingBlocks E st leaf d) st;
                  bkt = bkt @ replicate (Z - length bkt) (dummy_blk E st)
              in WriteBucket E (st\<lparr>o_writeviewmap := o_writeviewmap st @ [nd]\<rparr>) nd bkt)"

section \<open>Accessing nodes\<close>

definition ReadData :: "oram \<Rightarrow> bid \<Rightarrow> node option" where
  "ReadData st bid = cached st bid"

definition WriteData :: "env \<Rightarrow> bid \<Rightarrow> node \<Rightarrow> oram \<Rightarrow> oram res" where
  "WriteData E bid n st =
     (if e_scheme E = Horus
      then if GetEmptySize (o_store st) > 0
           then Inr ((cache_put bid (Some n) st)\<lparr>o_store := ReduceEmptyNumbers (o_store st)\<rparr>)
           else Inl (RuntimeError ''There is no more space in ORAM'')
      else Inr (cache_put bid (Some n) st))"

definition add_leaf :: "int \<Rightarrow> oram \<Rightarrow> oram" where
  "add_leaf leaf st =
     (if leaf \<in> set (o_leafList st) then st else st\<lparr>o_leafList := o_leafList st @ [leaf]\<rparr>)"

text \<open>The reading \<open>Access\<close>: fetch the path, relabel the node, remember the leaf.\<close>

definition Access_read :: "env \<Rightarrow> bid \<Rightarrow> int \<Rightarrow> int \<Rightarrow> oram \<Rightarrow> (node option \<times> oram) res" where
  "Access_read E bid lastLeaf newLeaf st =
     ebind (FetchPath E st lastLeaf) (\<lambda>st.
       case ReadData st bid of
         None \<Rightarrow> Inr (None, st)
       | Some n \<Rightarrow>
           let n' = n\<lparr>npos := newLeaf\<rparr>
           in Inr (Some n', add_leaf lastLeaf (cache_put bid (Some n') (cache_erase bid st))))"

text \<open>The writing \<open>Access\<close>: the path is fetched first unless a batch is being written.\<close>

definition Access_write :: "env \<Rightarrow> bid \<Rightarrow> node \<Rightarrow> oram \<Rightarrow> oram res" where
  "Access_write E bid n st =
     ebind (if o_batchWrite st then Inr st else FetchPath E st (npos n)) (\<lambda>st.
     ebind (WriteData E bid n st) (\<lambda>st. Inr (add_leaf (npos n) st)))"

definition mark_modified :: "bid \<Rightarrow> oram \<Rightarrow> oram" where
  "mark_modified bid st = st\<lparr>o_modified := List.insert bid (o_modified st)\<rparr>"

definition ReadNodeFromCache :: "oram \<Rightarrow> bid \<Rightarrow> node option res" where
  "ReadNodeFromCache st bid =
     (if bid_eq_int bid 0 then Inl (RuntimeError ''Node id is not set'')
      else if \<not> cache_count st bid then Inl (RuntimeError ''Node not found in the cache'')
      else Inr (cached st bid))"

text \<open>
  In the branch where the node is already cached and its leaf already fetched, a null entry
  is dereferenced.
\<close>

definition ReadNode :: "env \<Rightarrow> bid \<Rightarrow> int \<Rightarrow> int \<Rightarrow> oram \<Rightarrow> (node option \<times> oram) res" where
  "ReadNode E bid lastLeaf newLeaf st =
     (if bid_eq_int bid 0 then Inr (None, st)
      else if \<not> cache_count st bid \<or> lastLeaf \<notin> set (o_leafList st)
      then ebind (Access_read E bid lastLeaf newLeaf st) (\<lambda>(n, st).
             Inr (n, if n \<noteq> None then mark_modified bid st else st))
      else
        (case cached st bid of
           None \<Rightarrow> Inl NullDeref
         | Some n \<Rightarrow>
             let n' = n\<lparr>npos := newLeaf\<rparr>
             in Inr (Some n', cache_put bid (Some n') (mark_modified bid st))))"

definition WriteNode :: "env \<Rightarrow> bid \<Rightarrow> node \<Rightarrow> oram \<Rightarrow> (int \<times> oram) res" where
  "WriteNode E bid n st =
     (if bid_eq_int bid 0 then Inl (RuntimeError ''Node id is not set'')
      else if \<not> cache_count st bid
      then ebind (Access_write E bid n (mark_modified bid st)) (\<lambda>st. Inr (npos n, st))
      else Inr (npos n, mark_modified bid st))"

section \<open>Operation brackets\<close>

definition ORAM_start :: "bool \<Rightarrow> oram \<Rightarrow> oram" where
  "ORAM_start isBatchWrite st =
     st\<lparr>o_batchWrite := isBatchWrite, o_writeviewmap := [], o_readviewmap := [], o_readCnt := 0\<rparr>"

text \<open>
  The padding reads: the counter runs from \<open>readCnt\<close> up to \<open>1.45 depth\<close> for a lookup and
  \<open>4.35 depth\<close> for an update.
\<close>

fun fake_reads :: "env \<Rightarrow> nat \<Rightarrow> oram \<Rightarrow> oram res" where
  "fake_reads E 0 st = Inr st"
| "fake_reads E (Suc k) st =
     (let (rnd, st) = ORAM_RandomPath E st
      in ebind (FetchPath E (add_leaf rnd st) rnd) (fake_reads E k))"

definition pad_bound :: "bool \<Rightarrow> nat \<Rightarrow> nat" where
  "pad_bound isFind depth = (if isFind then (145 * depth + 99) div 100 else (435 * depth + 99) div 100)"

text \<open>The body of the position update for one cache entry.\<close>

definition refresh_child :: "oram \<Rightarrow> bid \<Rightarrow> int \<Rightarrow> int res" where
  "refresh_child st child oldPos =
     (if bid_ne_int child 0 \<and> cache_count st child
      then (case cached st child of None \<Rightarrow> Inl NullDeref | Some c \<Rightarrow> Inr (npos c))
      else Inr oldPos)"

definition refresh_node :: "env \<Rightarrow> nat \<Rightarrow> bid \<Rightarrow> oram \<Rightarrow> oram res" where
  "refresh_node E i bid st =
     (case cached st bid of
        None \<Rightarrow> Inr st
      | Some n \<Rightarrow>
          if nheight n = int i
          then
            let (p, st) = (if nkey n \<in> set (o_modified st) then ORAM_RandomPath E st else (npos n, st));
                st = cache_put bid (Some (n\<lparr>npos := p\<rparr>)) st
            in ebind (refresh_child st (nleftID n) (nleftPos n)) (\<lambda>lp.
               let st = cache_put bid (Some (n\<lparr>npos := p, nleftPos := lp\<rparr>)) st
               in ebind (refresh_child st (nrightID n) (nrightPos n)) (\<lambda>rp.
                  Inr (cache_put bid (Some (n\<lparr>npos := p, nleftPos := lp, nrightPos := rp\<rparr>)) st)))
          else Inr st)"

fun refresh_nodes :: "env \<Rightarrow> nat \<Rightarrow> bid list \<Rightarrow> oram \<Rightarrow> oram res" where
  "refresh_nodes E i [] st = Inr st"
| "refresh_nodes E i (b # bs) st = ebind (refresh_node E i b st) (refresh_nodes E i bs)"

fun refresh_levels :: "env \<Rightarrow> nat list \<Rightarrow> oram \<Rightarrow> oram res" where
  "refresh_levels E [] st = Inr st"
| "refresh_levels E (i # is) st =
     ebind (refresh_nodes E i (e_order E (map fst (o_cache st))) st) (refresh_levels E is)"

definition refresh_range :: "env \<Rightarrow> oram \<Rightarrow> nat list" where
  "refresh_range E st =
     (if e_scheme E = Horus then [0..<o_depth st + 3] else [1..<o_maxHeightOfAVLTree st + 1])"

fun write_leaves :: "env \<Rightarrow> nat \<Rightarrow> int list \<Rightarrow> oram \<Rightarrow> oram res" where
  "write_leaves E d [] st = Inr st"
| "write_leaves E d (leaf # leaves) st = ebind (WritePath E leaf d st) (write_leaves E d leaves)"

fun write_levels :: "env \<Rightarrow> nat list \<Rightarrow> oram \<Rightarrow> oram res" where
  "write_levels E [] st = Inr st"
| "write_levels E (d # ds) st = ebind (write_leaves E d (o_leafList st) st) (write_levels E ds)"

text \<open>\<open>cache[rootKey]\<close> inserts a null entry when the root is not cached.\<close>

definition finilize :: "env \<Rightarrow> bool \<Rightarrow> bid \<Rightarrow> int \<Rightarrow> oram \<Rightarrow> (int \<times> oram) res" where
  "finilize E isFind rootKey rootPos st =
     ebind (if o_batchWrite st then Inr st
            else fake_reads E (pad_bound isFind (o_depth st) - o_readCnt st) st) (\<lambda>st.
     ebind (refresh_levels E (refresh_range E st) st) (\<lambda>st.
       let st = (if cache_count st rootKey then st else cache_put rootKey None st);
           rootPos' = (case cached st rootKey of Some n \<Rightarrow> npos n | None \<Rightarrow> rootPos)
       in ebind (write_levels E (rev [0..<Suc (o_depth st)]) st) (\<lambda>st.
          Inr (rootPos', st\<lparr>o_leafList := [], o_modified := []\<rparr>))))"

section \<open>Bulk loading\<close>

text \<open>
  \<open>setupInsert\<close> packs the nodes, sorted by position, into buckets from the leaf of their path
  upwards. \<open>buckets\<close> and \<open>bucketsCnt\<close> together are the list of nodes put into a bucket so far.
  A level takes as many of the next nodes with the current position as the bucket has room
  for; the level loop stops when there is no further node with that position.
\<close>

type_synonym packed = "(int \<times> node list) list"

definition pack_bucket :: "int \<Rightarrow> int \<Rightarrow> node list \<Rightarrow> packed \<Rightarrow> node list \<times> packed \<times> bool" where
  "pack_bucket curPos idx rest bks =
     (let same = takeWhile (\<lambda>n. npos n = curPos) rest
      in case map_of bks idx of
           None \<Rightarrow> (drop (length (take Z same)) rest, AList.update idx (take Z same) bks, False)
         | Some b \<Rightarrow>
             if length b < Z
             then let k = take (Z - length b) same
                  in (drop (length k) rest, AList.update idx (b @ k) bks, False)
             else (rest, bks, True))"

fun pack_levels :: "oram \<Rightarrow> int \<Rightarrow> nat list \<Rightarrow> node list \<Rightarrow> packed \<Rightarrow> bool \<Rightarrow> node list \<times> packed \<times> bool" where
  "pack_levels st curPos [] rest bks cannot = (rest, bks, cannot)"
| "pack_levels st curPos (d # ds) rest bks cannot =
     (if rest \<noteq> [] \<and> npos (hd rest) = curPos
      then let (rest', bks', full) = pack_bucket curPos (GetNodeOnPath st curPos d) rest bks
           in pack_levels st curPos ds rest' bks' (cannot \<or> full)
      else (rest, bks, cannot))"

lemma pack_bucket_progress:
  assumes "pack_bucket curPos idx rest bks = (rest', bks', full)" "rest \<noteq> []" "npos (hd rest) = curPos"
  shows "length rest' < length rest \<or> (full \<and> rest' = rest)"
  using assms by (cases rest) (auto simp: pack_bucket_def Let_def Z_def split: option.splits if_splits)

lemma pack_bucket_length: "pack_bucket curPos idx rest bks = (rest', bks', full) \<Longrightarrow> length rest' \<le> length rest"
  by (auto simp: pack_bucket_def Let_def split: option.splits if_splits)

lemma pack_levels_length:
  "pack_levels st curPos ds rest bks cannot = (rest', bks', cannot') \<Longrightarrow>
     length rest' \<le> length rest \<and> (cannot \<longrightarrow> cannot')"
proof (induction st curPos ds rest bks cannot rule: pack_levels.induct)
  case (1 st curPos rest bks cannot)
  then show ?case by simp
next
  case (2 st curPos d ds rest bks cannot)
  then show ?case
    by (fastforce split: if_splits prod.splits dest: pack_bucket_length)
qed

lemma pack_levels_progress:
  assumes "pack_levels st curPos ds rest bks cannot = (rest', bks', cannot')"
    "ds \<noteq> []" "rest \<noteq> []" "npos (hd rest) = curPos"
  shows "length rest' < length rest \<or> cannot'"
proof -
  obtain d ds' where ds: "ds = d # ds'" using assms(2) by (cases ds) auto
  obtain r b f where p: "pack_bucket curPos (GetNodeOnPath st curPos d) rest bks = (r, b, f)"
    by (cases "pack_bucket curPos (GetNodeOnPath st curPos d) rest bks") auto
  then have "pack_levels st curPos ds' r b (cannot \<or> f) = (rest', bks', cannot')"
    using assms ds by simp
  then have "length rest' \<le> length r \<and> (f \<longrightarrow> cannot')" using pack_levels_length by blast
  then show ?thesis using pack_bucket_progress [OF p assms(3,4)] by auto
qed

text \<open>
  One round of the while loop: pack along the path of the current position; if some bucket
  was full, the next node goes to the cache.
\<close>

function pack_all :: "oram \<Rightarrow> int \<Rightarrow> node list \<Rightarrow> packed \<Rightarrow> (bid \<times> node option) list
    \<Rightarrow> packed \<times> (bid \<times> node option) list" where
  "pack_all st curPos rest bks cache =
     (if rest = [] then (bks, cache)
      else
        let (rest1, bks1, cannot) = pack_levels st curPos (rev [0..<Suc (o_depth st)]) rest bks False
        in if rest1 = [] then (bks1, cache)
           else
             let rest2 = (if cannot then tl rest1 else rest1);
                 cache2 = (if cannot then AList.update (nkey (hd rest1)) (Some (hd rest1)) cache else cache);
                 curPos2 = (if rest2 \<noteq> [] then npos (hd rest2) else curPos)
             in pack_all st curPos2 rest2 bks1 cache2)"
  by pat_completeness auto

termination
proof (relation "measures [\<lambda>(st, curPos, rest, bks, cache). length rest,
    \<lambda>(st, curPos, rest, bks, cache). if rest \<noteq> [] \<and> npos (hd rest) = curPos then 0 else 1]",
    goal_cases)
  case 1
  then show ?case by simp
next
  case (2 st curPos rest bks cache x rest1 y bks1 cannot rest2 cache2 curPos2)
  then have p: "pack_levels st curPos (rev [0..<Suc (o_depth st)]) rest bks False = (rest1, bks1, cannot)"
    by simp
  have le: "length rest1 \<le> length rest" using pack_levels_length [OF p] by simp
  have ne: "rest \<noteq> []" "rest1 \<noteq> []" and r2: "rest2 = (if cannot then tl rest1 else rest1)" using 2 by auto
  have tl: "length (tl rest1) < length rest" using ne(2) le by (cases rest1) auto
  show ?case
  proof (cases "npos (hd rest) = curPos")
    case True
    then have "length rest1 < length rest \<or> cannot"
      using pack_levels_progress [OF p] ne by simp
    then have "length rest2 < length rest" using r2 tl by auto
    then show ?thesis by simp
  next
    case False
    then have "rest1 = rest \<and> \<not> cannot" using p 2
      by (cases "rev [0..<Suc (o_depth st)]") auto
    with False 2 show ?thesis by auto
  qed
qed

declare pack_all.simps [simp del]

fun write_packed :: "env \<Rightarrow> packed \<Rightarrow> oram \<Rightarrow> oram res" where
  "write_packed E [] st = Inr st"
| "write_packed E ((idx, ns) # bks) st =
     ebind (WriteBucket E st idx
              (map (\<lambda>n. \<lparr>b_id = nkey n, b_data = convertNodeToBlock E n\<rparr>) ns @
               replicate (Z - length ns) (dummy_blk E st)))
       (write_packed E bks)"

definition ORAM_setupInsert :: "env \<Rightarrow> node list \<Rightarrow> oram \<Rightarrow> oram res" where
  "ORAM_setupInsert E nodes st =
     (let ns = e_sort E nodes;
          curPos = (if ns \<noteq> [] then npos (hd ns) else 0);
          (bks, cache) = pack_all st curPos ns [] (o_cache st)
      in write_packed E (sort_key fst bks) (st\<lparr>o_cache := cache\<rparr>))"

section \<open>A concrete environment\<close>

text \<open>A padding cipher and fixed choices, for evaluating the model on concrete inputs.\<close>

definition toy_env :: "scheme \<Rightarrow> env" where
  "toy_env s = \<lparr>e_scheme = s, e_enc = pad_enc, e_dec = pad_dec, e_iv = (\<lambda>_. replicate 16 0), e_rand = (\<lambda>n. n * 7),
     e_order = (\<lambda>xs. xs), e_sort = sort_key npos, e_vptr = replicate 8 0, e_pad = replicate 4 0, e_uninit = 0\<rparr>"

end
