(* ===== verification/Amortized.thy ===== *)
theory Amortized
  imports Static_Bas Oram
begin

unbundle bit_operations_syntax

text \<open>
  The amortized static scheme \<open>Amortized\<close> (\<open>Amortized.cpp\<close>): a log-structured index. The
  levels below \<open>localSize\<close> are kept by the client in the clear, the others are encrypted
  dictionaries; an update merges all full levels below the lowest empty one into it.
\<close>

section \<open>Model\<close>

datatype OP = INS | DEL

definition localSize :: nat where "localSize = 10"

record amortized =
  a_keys :: "bytes option list"
  a_L :: bas_client
  a_updateCounter :: int
  a_data :: "(string \<times> bytes list) list list"

definition ceil_log2 :: "nat \<Rightarrow> nat" where
  "ceil_log2 N = (if N \<le> 1 then 0 else ilog2 (N - 1) + 1)"

definition Amortized_new :: "nat \<Rightarrow> amortized" where
  "Amortized_new N =
     \<lparr>a_keys = replicate (ceil_log2 N) None, a_L = AmortizedBASClient_new (ceil_log2 N),
      a_updateCounter = 0, a_data = replicate localSize []\<rparr>"

text \<open>\<open>int rm0 = log2((~updateCounter & (updateCounter + 1)))\<close>\<close>

definition rm0 :: "int \<Rightarrow> nat" where
  "rm0 u = ilog2 (nat (NOT u AND (u + 1)))"

text \<open>The 16-byte record of an update: keyword, operation at byte 10, index at bytes 11 to 14.\<close>

definition make_value :: "OP \<Rightarrow> string \<Rightarrow> int \<Rightarrow> bytes res" where
  "make_value op keyword ind =
     ebind (copy_at 0 (string_bytes keyword) (replicate AES_KEY_SIZE 0))
       (\<lambda>a. Inr ((put_int (AES_KEY_SIZE - 5) ind a)[AES_KEY_SIZE - 6 := (if op = INS then 0 else 1)]))"

text \<open>\<open>previousData[k]\<close>, created empty when absent, extended by \<open>vs\<close>.\<close>

definition append_to :: "string \<Rightarrow> bytes list \<Rightarrow> (string \<times> bytes list) list \<Rightarrow> (string \<times> bytes list) list" where
  "append_to k vs m =
     AList.update k ((case map_of m k of None \<Rightarrow> [] | Some ws \<Rightarrow> ws) @ vs) m"

fun merge_local :: "senv \<Rightarrow> nat list \<Rightarrow> (string \<times> bytes list) list list \<Rightarrow> (string \<times> bytes list) list
    \<Rightarrow> (string \<times> bytes list) list list \<times> (string \<times> bytes list) list" where
  "merge_local S [] dat prev = (dat, prev)"
| "merge_local S (i # is) dat prev =
     merge_local S is (dat[i := []]) (fold (\<lambda>(k, vs). append_to k vs) (s_iterw S (dat ! i)) prev)"

fun add_items :: "bytes list \<Rightarrow> (string \<times> bytes list) list \<Rightarrow> (string \<times> bytes list) list res" where
  "add_items [] prev = Inr prev"
| "add_items (item # items) prev =
     ebind (array_str item) (\<lambda>curKeyword. add_items items (append_to curKeyword [item] prev))"

fun merge_remote :: "senv \<Rightarrow> nat list \<Rightarrow> amortized \<Rightarrow> (string \<times> bytes list) list
    \<Rightarrow> (amortized \<times> (string \<times> bytes list) list) res" where
  "merge_remote S [] st prev = Inr (st, prev)"
| "merge_remote S (i # is) st prev =
     (if length (a_keys st) \<le> i then Inl BadIndex
      else ebind (bas_client_getAllData S i (a_keys st ! i) (a_L st))
        (\<lambda>curData. ebind (add_items curData prev)
          (\<lambda>prev'. ebind (bas_destry i (a_L st))
            (\<lambda>L. merge_remote S is (st\<lparr>a_L := L, a_keys := (a_keys st)[i := None]\<rparr>) prev'))))"

definition Amortized_update :: "senv \<Rightarrow> OP \<Rightarrow> string \<Rightarrow> int \<Rightarrow> amortized \<Rightarrow> amortized res" where
  "Amortized_update S op keyword ind st =
     (let r = rm0 (a_updateCounter st);
          (dat, prev) = merge_local S [0..<min r localSize] (a_data st) [];
          st1 = st\<lparr>a_updateCounter := a_updateCounter st + 1, a_data := dat\<rparr>
      in ebind (merge_remote S [localSize..<r] st1 prev)
        (\<lambda>(st2, prev2). ebind (make_value op keyword ind)
          (\<lambda>val. let prev3 = append_to keyword [val] prev2 in
            if r < localSize then
              Inr (st2\<lparr>a_data := (a_data st2)[r := um_insert_range (s_iterw S prev3) (a_data st2 ! r)]\<rparr>)
            else if length (a_keys st2) \<le> r then Inl BadIndex
            else let newKey = s_newkey S (nat (a_updateCounter st2)) in
              ebind (bas_setup S r prev3 (Some newKey) (a_L st2))
                (\<lambda>L. Inr (st2\<lparr>a_L := L, a_keys := (a_keys st2)[r := Some newKey]\<rparr>)))))"

text \<open>
  The counting of \<open>search\<close>: \<open>remove[ind] += 2 * op - 1\<close>, and the identifiers with a
  negative sum in increasing order, the iteration order of \<open>map<int, int>\<close>.
\<close>

definition tally_step :: "bytes \<Rightarrow> (int \<times> int) list \<Rightarrow> (int \<times> int) list" where
  "tally_step v m =
     (let plaintext = get_int (AES_KEY_SIZE - 5) v; old = (case map_of m plaintext of None \<Rightarrow> 0 | Some n \<Rightarrow> n)
      in AList.update plaintext (old + (2 * uint (v ! (AES_KEY_SIZE - 6)) - 1)) m)"

definition tally :: "bytes list \<Rightarrow> (int \<times> int) list" where
  "tally vs = fold tally_step vs []"

definition live_indexes :: "bytes list \<Rightarrow> int list" where
  "live_indexes vs = sort (map fst (filter (\<lambda>(i, n). n < 0) (tally vs)))"

text \<open>
  The local part of \<open>search\<close>: the test \<open>data[i][keyword].size() > 0\<close> creates an empty entry
  for an absent keyword.
\<close>

fun search_local :: "string \<Rightarrow> nat list \<Rightarrow> (string \<times> bytes list) list list \<Rightarrow> bytes list
    \<Rightarrow> (string \<times> bytes list) list list \<times> bytes list" where
  "search_local kw [] dat acc = (dat, acc)"
| "search_local kw (i # is) dat acc =
     (case map_of (dat ! i) kw of
        None \<Rightarrow> search_local kw is (dat[i := AList.update kw [] (dat ! i)]) acc
      | Some vs \<Rightarrow> search_local kw is dat (acc @ vs))"

fun search_remote :: "senv \<Rightarrow> string \<Rightarrow> nat list \<Rightarrow> amortized \<Rightarrow> bytes list \<Rightarrow> bytes list res" where
  "search_remote S kw [] st acc = Inr acc"
| "search_remote S kw (i # is) st acc =
     (if c_exist (a_L st) ! i then
        if length (a_keys st) \<le> i then Inl BadIndex
        else ebind (bas_client_search S i kw (a_keys st ! i) (a_L st))
               (\<lambda>tmpRes. search_remote S kw is st (acc @ tmpRes))
      else search_remote S kw is st acc)"

definition Amortized_search :: "senv \<Rightarrow> string \<Rightarrow> amortized \<Rightarrow> (int list \<times> amortized) res" where
  "Amortized_search S keyword st =
     (let (dat, loc) = search_local keyword [0..<min localSize (length (a_data st))] (a_data st) []
      in ebind (search_remote S keyword [localSize..<length (c_exist (a_L st))] st loc)
        (\<lambda>encIndexes. Inr (live_indexes encIndexes, st\<lparr>a_data := dat\<rparr>)))"

end
