(* ===== verification/Amortized_Correct.thy ===== *)
theory Amortized_Correct
  imports Amortized
begin

unbundle bit_operations_syntax

text \<open>
  Correctness of the amortized scheme. The state after a sequence of updates is related to the
  sequence by an invariant: level \<open>i\<close> is empty when bit \<open>i\<close> of the update counter is clear, and
  the records of all levels together are those of the updates. From it, a search returns the
  identifiers inserted more often than deleted.
\<close>

section \<open>The lowest clear bit\<close>

lemma ilog2_double: "0 < n \<Longrightarrow> ilog2 (2 * n) = Suc (ilog2 n)"
  by (subst ilog2.simps) simp

lemma low_bit_even: "even u \<Longrightarrow> NOT u AND (u + 1) = (1 :: int)"
  by (subst and_rec) (simp add: not_int_div_2)

lemma low_bit_odd: "odd u \<Longrightarrow> NOT u AND (u + 1) = 2 * (NOT (u div 2) AND (u div 2 + 1 :: int))"
  by (subst and_rec) (auto elim!: oddE simp: not_int_div_2)

lemma low_bit_pos: "0 \<le> u \<Longrightarrow> 0 < NOT u AND (u + 1 :: int)"
proof (induction "nat u" arbitrary: u rule: less_induct)
  case less
  show ?case
  proof (cases "even u")
    case False
    then have "nat (u div 2) < nat u" "0 \<le> u div 2" using less.prems by (auto elim!: oddE)
    then show ?thesis using less.hyps [of "u div 2"] False by (simp add: low_bit_odd)
  qed (simp add: low_bit_even)
qed

lemma rm0_even: "even u \<Longrightarrow> rm0 u = 0"
  by (simp add: rm0_def low_bit_even ilog2.simps)

lemma rm0_odd: "0 \<le> u \<Longrightarrow> odd u \<Longrightarrow> rm0 u = Suc (rm0 (u div 2))"
  using low_bit_pos [of "u div 2"] by (simp add: rm0_def low_bit_odd nat_mult_distrib ilog2_double)

lemma rm0_bits:
  "0 \<le> u \<Longrightarrow> \<not> bit u (rm0 u) \<and> bit (u + 1) (rm0 u) \<and> (\<forall>i>rm0 u. bit (u + 1) i = bit u i)"
proof (induction "nat u" arbitrary: u rule: less_induct)
  case less
  show ?case
  proof (cases "even u")
    case True
    then have "(u + 1) div 2 = u div 2" by auto
    then have "bit (u + 1) i = bit u i" if "0 < i" for i
      using that by (cases i) (simp_all add: bit_Suc)
    with True show ?thesis by (simp add: rm0_even bit_0)
  next
    case False
    then have "nat (u div 2) < nat u" "0 \<le> u div 2" "(u + 1) div 2 = u div 2 + 1"
      using less.prems by (auto elim!: oddE)
    then have "\<not> bit u (Suc (rm0 (u div 2)))" "bit (u + 1) (Suc (rm0 (u div 2)))"
      "\<forall>i>rm0 (u div 2). bit (u + 1) (Suc i) = bit u (Suc i)"
      using less.hyps [of "u div 2"] by (simp_all add: bit_Suc)
    moreover have "rm0 u = Suc (rm0 (u div 2))" using rm0_odd less.prems False by blast
    ultimately show ?thesis by (metis Suc_lessE Suc_less_SucD)
  qed
qed

lemma rm0_less: "0 \<le> u \<Longrightarrow> u + 1 < 2 ^ k \<Longrightarrow> rm0 u < k"
proof (rule ccontr)
  assume u: "0 \<le> u" "u + 1 < 2 ^ k" "\<not> rm0 u < k"
  have "(2::int) ^ k \<le> 2 ^ rm0 u" by (rule power_increasing) (use u in auto)
  with u(2) have "u + 1 < 2 ^ rm0 u" by (rule less_le_trans)
  then have "(u + 1) div 2 ^ rm0 u = 0" using u(1) by simp
  then show False using rm0_bits [OF u(1)] by (simp add: bit_iff_odd)
qed

section \<open>Records\<close>

definition the_value :: "OP \<Rightarrow> string \<Rightarrow> int \<Rightarrow> bytes" where
  "the_value op kw ind = (put_int 11 ind (pad16 kw))[10 := (if op = INS then 0 else 1)]"

lemma make_value_eq: "length kw \<le> 16 \<Longrightarrow> make_value op kw ind = Inr (the_value op kw ind)"
  by (simp add: make_value_def copy_at_0 AES_KEY_SIZE_def the_value_def pad16_def)

text \<open>Updates whose record keeps the keyword readable as a C string.\<close>

definition upd_ok :: "OP \<times> string \<times> int \<Rightarrow> bool" where
  "upd_ok e = (case e of (op, kw, ind) \<Rightarrow>
     length kw \<le> (if op = INS then 10 else 9) \<and> NUL \<notin> set kw \<and> int32 ind)"

lemma the_value_eq:
  assumes "length kw \<le> 10"
  shows "the_value op kw ind =
     string_bytes kw @ replicate (10 - length kw) 0 @ [if op = INS then 0 else 1] @ le32 ind @ [0]"
proof -
  have "pad16 kw = (string_bytes kw @ replicate (10 - length kw) 0 @ [0]) @ replicate 5 0"
    using assms by (simp add: pad16_def numeral_eq_Suc flip: replicate_add replicate_Suc)
  then have "put_int 11 ind (pad16 kw) = (string_bytes kw @ replicate (10 - length kw) 0 @ [0]) @ le32 ind @ [0]"
    using assms by (simp add: put_int_def numeral_eq_Suc)
  then show ?thesis using assms by (simp add: the_value_def list_update_append)
qed

lemma the_value_fields:
  assumes "length kw \<le> 10" "int32 ind" "length v = 16" "take 15 v = take 15 (the_value op kw ind)"
  shows "get_int 11 v = ind" "v ! 10 = (if op = INS then 0 else 1)"
proof -
  have "take 4 (drop 11 v) = take 4 (drop 11 (take 15 v))" by (simp add: drop_take)
  also have "\<dots> = le32 ind" using assms(1) by (simp add: assms(4) the_value_eq)
  finally show "get_int 11 v = ind" using assms(2) by (simp add: get_int_def rd32_le32)
  have "v ! 10 = take 15 v ! 10" by simp
  also have "\<dots> = (if op = INS then 0 else 1)" using assms(1) by (simp add: assms(4) the_value_eq nth_append)
  finally show "v ! 10 = (if op = INS then 0 else 1)" .
qed

definition kw_of :: "bytes \<Rightarrow> string" where
  "kw_of r = c_str (bytes_string r)"

lemma kw_of_value:
  assumes "upd_ok (op, kw, ind)" "take 15 v = take 15 (the_value op kw ind)"
  shows "array_str v = Inr kw" "kw_of (take 15 v) = kw"
proof -
  let ?z = "replicate (10 - length kw) 0 @ [if op = INS then 0 else 1] @ le32 ind"
  have len: "length kw \<le> 10" using assms(1) by (auto simp: upd_ok_def split: if_splits)
  have t: "take 15 v = string_bytes kw @ ?z" using len assms(2) by (simp add: the_value_eq)
  have "\<exists>zs. ?z = 0 # zs"
    using assms(1) by (cases "10 - length kw") (auto simp: upd_ok_def split: if_splits)
  then obtain zs where zs: "take 15 v = string_bytes kw @ 0 # zs" using t by auto
  have k: "kw_of (string_bytes kw @ 0 # ys) = kw" for ys
  proof -
    have "\<forall>c\<in>set kw. c \<noteq> NUL" using assms(1) by (auto simp: upd_ok_def)
    then show ?thesis by (simp add: kw_of_def c_str_def takeWhile_append2)
  qed
  then show "kw_of (take 15 v) = kw" by (simp add: zs)
  have "v = string_bytes kw @ 0 # zs @ drop 15 v" using zs by (metis append_take_drop_id append_assoc append_Cons)
  then show "array_str v = Inr kw"
    using k [of "zs @ drop 15 v"] by (metis array_str_def kw_of_def in_set_conv_decomp)
qed

section \<open>Multimaps of records\<close>

definition vrec :: "string \<Rightarrow> bytes \<Rightarrow> bool" where
  "vrec kw v \<longleftrightarrow> length v = 16 \<and>
     (\<exists>op ind. upd_ok (op, kw, ind) \<and> take 15 v = take 15 (the_value op kw ind))"

definition multi_wf :: "(string \<times> bytes list) list \<Rightarrow> bool" where
  "multi_wf ps \<longleftrightarrow> distinct (map fst ps) \<and> (\<forall>(kw, vs)\<in>set ps. kw_ok kw \<and> (\<forall>v\<in>set vs. vrec kw v))"

text \<open>The first 15 bytes of every record; byte 15 is lost in the encrypted levels.\<close>

definition recs :: "(string \<times> bytes list) list \<Rightarrow> bytes multiset" where
  "recs ps = image_mset (take 15) (mset (concat (map snd ps)))"

lemma recs_simps [simp]:
  "recs [] = {#}" "recs (p # ps) = image_mset (take 15) (mset (snd p)) + recs ps"
  "recs (ps @ qs) = recs ps + recs qs"
  by (simp_all add: recs_def)

lemma recs_perm: "mset qs = mset ps \<Longrightarrow> recs qs = recs ps"
proof -
  have "recs rs = image_mset (take 15) (\<Sum>\<^sub># (image_mset (\<lambda>p. mset (snd p)) (mset rs)))" for rs
    by (simp add: recs_def mset_concat comp_def flip: sum_mset_sum_list)
  then show "mset qs = mset ps \<Longrightarrow> recs qs = recs ps" by simp
qed

lemma multi_wf_perm:
  assumes "multi_wf ps" "mset qs = mset ps"
  shows "multi_wf qs"
proof -
  have "mset (map fst qs) = mset (map fst ps)" using assms(2) by simp
  then have "distinct (map fst qs) = distinct (map fst ps)" by (rule mset_eq_imp_distinct_iff)
  moreover have "set qs = set ps" using assms(2) by (rule mset_eq_setD)
  ultimately show ?thesis using assms(1) by (simp add: multi_wf_def)
qed

lemma recs_size: "(kw, vs) \<in> set ps \<Longrightarrow> length vs \<le> size (recs ps)"
  by (induction ps) auto

lemma multi_wf_ok:
  assumes "multi_wf ps" "size (recs ps) < 2 ^ 31"
  shows "multi_ok ps"
  unfolding multi_ok_def
proof (intro conjI ballI)
  show "distinct (map fst ps)" using assms(1) by (simp add: multi_wf_def)
  fix p assume p: "p \<in> set ps"
  obtain kw vs where kv: "p = (kw, vs)" by (cases p)
  then have "length vs < 2 ^ 31" using recs_size [of kw vs ps] p assms(2) by simp
  then show "case p of (kw, vs) \<Rightarrow> kw_ok kw \<and> length vs < 2 ^ 31 \<and> (\<forall>v\<in>set vs. length v = 16)"
    using assms(1) p kv by (auto simp: multi_wf_def vrec_def)
qed

lemma recs_update:
  "distinct (map fst m) \<Longrightarrow>
   recs (AList.update k (vals m k @ vs) m) = recs m + image_mset (take 15) (mset vs)"
  by (induction m) (auto simp: vals_def)

lemma append_to_vals: "append_to k vs m = AList.update k (vals m k @ vs) m"
  by (simp add: append_to_def vals_def)

lemma append_to_wf:
  assumes "multi_wf m" "kw_ok k" "\<forall>v\<in>set vs. vrec k v"
  shows "multi_wf (append_to k vs m)" "recs (append_to k vs m) = recs m + image_mset (take 15) (mset vs)"
proof -
  have d: "distinct (map fst m)" using assms(1) by (simp add: multi_wf_def)
  then show "recs (append_to k vs m) = recs m + image_mset (take 15) (mset vs)"
    by (simp add: append_to_vals recs_update)
  have v: "\<forall>v\<in>set (vals m k). vrec k v"
    using assms(1) by (auto simp: vals_def multi_wf_def dest!: map_of_SomeD split: option.splits)
  have "kw_ok kw \<and> (\<forall>v\<in>set ws. vrec kw v)" if "(kw, ws) \<in> set (append_to k vs m)" for kw ws
  proof (cases "kw = k")
    case True
    then have "map_of (append_to k vs m) k = Some ws"
      using that d by (auto simp: append_to_vals distinct_update)
    then have "ws = vals m k @ vs" by (simp add: append_to_vals update_conv)
    then show ?thesis using True assms v by auto
  next
    case False
    have "map_of (append_to k vs m) kw = Some ws"
      using that d by (simp add: append_to_vals distinct_update)
    then have "map_of m kw = Some ws" using False by (simp add: append_to_vals update_conv)
    then show ?thesis using assms(1) by (auto simp: multi_wf_def dest!: map_of_SomeD)
  qed
  then show "multi_wf (append_to k vs m)"
    using d by (auto simp: multi_wf_def append_to_vals distinct_update)
qed

lemma fold_append_to_wf:
  "multi_wf m \<Longrightarrow> multi_wf ps \<Longrightarrow>
   multi_wf (fold (\<lambda>(k, vs). append_to k vs) ps m) \<and>
   recs (fold (\<lambda>(k, vs). append_to k vs) ps m) = recs m + recs ps"
proof (induction ps arbitrary: m)
  case (Cons p ps)
  obtain k vs where p: "p = (k, vs)" by (cases p)
  have "kw_ok k" "\<forall>v\<in>set vs. vrec k v" "multi_wf ps" using Cons.prems(2) by (auto simp: p multi_wf_def)
  then show ?case
    using Cons.IH [of "append_to k vs m"] append_to_wf [OF Cons.prems(1), of k vs] by (auto simp: p)
qed simp

lemma merge_local_eq:
  assumes S: "senv_ok S"
  shows "distinct is \<Longrightarrow> \<forall>i\<in>set is. i < length dat \<and> multi_wf (dat ! i) \<Longrightarrow> multi_wf prev \<Longrightarrow>
    \<exists>prev'. merge_local S is dat prev = (map (\<lambda>i. if i \<in> set is then [] else dat ! i) [0..<length dat], prev') \<and>
      multi_wf prev' \<and> recs prev' = recs prev + (\<Sum>i\<leftarrow>is. recs (dat ! i))"
proof (induction "is" arbitrary: dat prev)
  case Nil
  then show ?case by (auto simp: map_nth)
next
  case (Cons i "is")
  let ?ps = "s_iterw S (dat ! i)"
  let ?dat = "dat[i := []]"
  let ?prev = "fold (\<lambda>(k, vs). append_to k vs) ?ps prev"
  have m: "mset ?ps = mset (dat ! i)" using S by (simp add: senv_ok_def)
  then have ps: "multi_wf ?ps" "recs ?ps = recs (dat ! i)"
    using multi_wf_perm [OF _ m] recs_perm [OF m] Cons.prems(2) by simp_all
  have prev: "multi_wf ?prev" "recs ?prev = recs prev + recs (dat ! i)"
    using fold_append_to_wf [OF Cons.prems(3) ps(1)] ps(2) by simp_all
  have "\<forall>j\<in>set is. j < length ?dat \<and> multi_wf (?dat ! j)" using Cons.prems by (auto simp: nth_list_update)
  then obtain prev' where p': "merge_local S is ?dat ?prev = (map (\<lambda>i. if i \<in> set is then [] else ?dat ! i) [0..<length ?dat], prev')"
    "multi_wf prev'" "recs prev' = recs ?prev + (\<Sum>j\<leftarrow>is. recs (?dat ! j))"
    using Cons.IH [of ?dat ?prev] Cons.prems(1) prev(1) by auto
  have "(\<Sum>j\<leftarrow>is. recs (?dat ! j)) = (\<Sum>j\<leftarrow>is. recs (dat ! j))"
    using Cons.prems(1) by (intro arg_cong [of _ _ sum_list] map_cong) (auto, metis nth_list_update_neq)
  moreover have "map (\<lambda>i. if i \<in> set is then [] else ?dat ! i) [0..<length ?dat] =
      map (\<lambda>j. if j \<in> set (i # is) then [] else dat ! j) [0..<length dat]"
    using Cons.prems(2) by (auto simp: nth_list_update)
  ultimately show ?case using p' prev(2) by (auto simp: add.assoc)
qed

lemma upd_ok_kw: "upd_ok (op, kw, ind) \<Longrightarrow> kw_ok kw \<and> length kw \<le> 10 \<and> int32 ind"
  by (auto simp: upd_ok_def kw_ok_def split: if_splits)

lemma vrec_array_str: "vrec kw v \<Longrightarrow> array_str v = Inr kw \<and> kw_of (take 15 v) = kw \<and> kw_ok kw"
  using kw_of_value upd_ok_kw by (fastforce simp: vrec_def)

lemma vrec_opened: "senv_ok S \<Longrightarrow> vrec kw v \<Longrightarrow> vrec kw (opened S v) \<and> take 15 (opened S v) = take 15 v"
  by (auto simp: vrec_def opened_def)

lemma add_items_eq:
  "multi_wf prev \<Longrightarrow> \<forall>v\<in>set items. \<exists>kw. vrec kw v \<Longrightarrow>
   \<exists>prev'. add_items items prev = Inr prev' \<and> multi_wf prev' \<and>
     recs prev' = recs prev + image_mset (take 15) (mset items)"
proof (induction items arbitrary: prev)
  case (Cons v items)
  then obtain kw where v: "vrec kw v" by auto
  have w: "multi_wf (append_to kw [v] prev)" "recs (append_to kw [v] prev) = recs prev + {#take 15 v#}"
    using append_to_wf [OF Cons.prems(1), of kw "[v]"] v vrec_array_str by auto
  obtain prev' where "add_items items (append_to kw [v] prev) = Inr prev'" "multi_wf prev'"
    "recs prev' = recs (append_to kw [v] prev) + image_mset (take 15) (mset items)"
    using Cons.IH [OF w(1)] Cons.prems(2) by auto
  then show ?case using vrec_array_str [OF v] w(2) by simp
qed simp

section \<open>Levels\<close>

text \<open>The multimaps that the levels of a state hold.\<close>

definition amort_rep :: "senv \<Rightarrow> nat \<Rightarrow> (nat \<Rightarrow> (string \<times> bytes list) list) \<Rightarrow> amortized \<Rightarrow> bool" where
  "amort_rep S n LV st \<longleftrightarrow>
     length (a_keys st) = n \<and> length (c_exist (a_L st)) = n \<and> length (c_server (a_L st)) = n \<and>
     length (a_data st) = 10 \<and>
     (\<forall>i<max 10 n. multi_wf (LV i) \<and> size (recs (LV i)) < 2 ^ 31) \<and>
     (\<forall>i<10. a_data st ! i = LV i) \<and>
     (\<forall>i\<in>{10..<n}. c_server (a_L st) ! i = dict_of S (a_keys st ! i) (LV i) \<and>
        (\<not> c_exist (a_L st) ! i \<longrightarrow> LV i = []))"

lemma amort_rep_multi_ok: "amort_rep S n LV st \<Longrightarrow> i < max 10 n \<Longrightarrow> multi_ok (LV i)"
  using multi_wf_ok by (auto simp: amort_rep_def)

lemma multi_wf_vrec: "multi_wf ps \<Longrightarrow> v \<in> set (concat (map snd ps)) \<Longrightarrow> \<exists>kw. vrec kw v"
  by (fastforce simp: multi_wf_def)

lemma dict_of_Nil [simp]: "dict_of S key [] = []"
  by (simp add: dict_of_def)

lemma multi_wf_Nil [simp]: "multi_wf []"
  by (simp add: multi_wf_def)

lemma merge_remote_one:
  assumes S: "senv_ok S" and rep: "amort_rep S n LV st" and i: "10 \<le> i" "i < n" and prev: "multi_wf prev"
  obtains st' prev' where "merge_remote S (i # is) st prev = merge_remote S is st' prev'"
    "amort_rep S n (LV(i := [])) st'" "multi_wf prev'" "recs prev' = recs prev + recs (LV i)"
    "a_data st' = a_data st" "a_updateCounter st' = a_updateCounter st"
proof -
  have d: "c_server (a_L st) ! i = dict_of S (a_keys st ! i) (LV i)"
    and len: "i < length (c_server (a_L st))" "i < length (c_exist (a_L st))" "i < length (a_keys st)"
    and wf: "multi_wf (LV i)"
    using rep i by (auto simp: amort_rep_def)
  obtain vs where vs: "bas_client_getAllData S i (a_keys st ! i) (a_L st) = Inr (map (opened S) vs)"
    "mset vs = mset (concat (map snd (LV i)))"
    using bas_client_getAllData_eq [OF S amort_rep_multi_ok [OF rep] len(1) d] i by auto
  have v: "\<exists>kw. vrec kw v" if "v \<in> set vs" for v
    using that multi_wf_vrec [OF wf] mset_eq_setD [OF vs(2)] by blast
  then have o: "\<forall>v\<in>set (map (opened S) vs). \<exists>kw. vrec kw v" "map (take 15) (map (opened S) vs) = map (take 15) vs"
    using vrec_opened [OF S] by (simp_all) blast+
  obtain prev' where prev': "add_items (map (opened S) vs) prev = Inr prev'" "multi_wf prev'"
    "recs prev' = recs prev + image_mset (take 15) (mset (map (opened S) vs))"
    using add_items_eq [OF prev o(1)] by blast
  have "image_mset (take 15) (mset (map (opened S) vs)) = mset (map (take 15) (map (opened S) vs))"
    by (simp only: mset_map)
  also have "\<dots> = image_mset (take 15) (mset vs)" by (simp only: o(2) mset_map)
  also have "\<dots> = recs (LV i)" by (simp only: vs(2) recs_def)
  finally have r: "recs prev' = recs prev + recs (LV i)" using prev'(3) by simp
  let ?L = "(a_L st)\<lparr>c_server := (c_server (a_L st))[i := []], c_exist := (c_exist (a_L st))[i := False]\<rparr>"
  let ?st = "st\<lparr>a_L := ?L, a_keys := (a_keys st)[i := None]\<rparr>"
  have "merge_remote S (i # is) st prev = merge_remote S is ?st prev'"
    using vs(1) prev'(1) len by (simp add: bas_destry_def bas_clear_def)
  moreover have "amort_rep S n (LV(i := [])) ?st"
    using rep i by (auto simp: amort_rep_def nth_list_update)
  ultimately show ?thesis using that prev'(2) r by simp
qed

lemma merge_remote_eq:
  assumes S: "senv_ok S"
  shows "amort_rep S n LV st \<Longrightarrow> distinct is \<Longrightarrow> set is \<subseteq> {10..<n} \<Longrightarrow> multi_wf prev \<Longrightarrow>
    \<exists>st' prev'. merge_remote S is st prev = Inr (st', prev') \<and>
      amort_rep S n (\<lambda>i. if i \<in> set is then [] else LV i) st' \<and> multi_wf prev' \<and>
      recs prev' = recs prev + (\<Sum>i\<leftarrow>is. recs (LV i)) \<and>
      a_data st' = a_data st \<and> a_updateCounter st' = a_updateCounter st"
proof (induction "is" arbitrary: LV st prev)
  case (Cons i "is")
  have i: "10 \<le> i" "i < n" using Cons.prems(3) by auto
  obtain st1 prev1 where 1: "merge_remote S (i # is) st prev = merge_remote S is st1 prev1"
    "amort_rep S n (LV(i := [])) st1" "multi_wf prev1" "recs prev1 = recs prev + recs (LV i)"
    "a_data st1 = a_data st" "a_updateCounter st1 = a_updateCounter st"
    using merge_remote_one [OF S Cons.prems(1) i Cons.prems(4)] by metis
  obtain st2 prev2 where 2: "merge_remote S is st1 prev1 = Inr (st2, prev2)"
    "amort_rep S n (\<lambda>j. if j \<in> set is then [] else (LV(i := [])) j) st2" "multi_wf prev2"
    "recs prev2 = recs prev1 + (\<Sum>j\<leftarrow>is. recs ((LV(i := [])) j))" "a_data st2 = a_data st1"
    "a_updateCounter st2 = a_updateCounter st1"
    using Cons.IH [OF 1(2) _ _ 1(3)] Cons.prems(2,3) by auto
  have "(\<Sum>j\<leftarrow>is. recs ((LV(i := [])) j)) = (\<Sum>j\<leftarrow>is. recs (LV j))"
    using Cons.prems(2) by (intro arg_cong [of _ _ sum_list] map_cong) auto
  moreover have "(\<lambda>j. if j \<in> set is then [] else (LV(i := [])) j) = (\<lambda>j. if j \<in> set (i # is) then [] else LV j)"
    by auto
  ultimately show ?case using 1 2 by (auto simp: add.assoc)
qed simp

section \<open>The invariant of updates\<close>

definition hrec :: "OP \<times> string \<times> int \<Rightarrow> bytes" where
  "hrec e = (case e of (op, kw, ind) \<Rightarrow> take 15 (the_value op kw ind))"

definition amort_inv :: "senv \<Rightarrow> nat \<Rightarrow> (OP \<times> string \<times> int) list \<Rightarrow> (nat \<Rightarrow> (string \<times> bytes list) list)
    \<Rightarrow> amortized \<Rightarrow> bool" where
  "amort_inv S n h LV st \<longleftrightarrow>
     amort_rep S n LV st \<and> a_updateCounter st = int (length h) \<and>
     (\<forall>i<max 10 n. \<not> bit (int (length h)) i \<longrightarrow> LV i = []) \<and>
     (\<Sum>i<max 10 n. recs (LV i)) = mset (map hrec h)"

lemma sum_split_at:
  fixes f :: "nat \<Rightarrow> 'a multiset"
  assumes "r < K"
  shows "sum f {..<K} = sum f {..<r} + f r + sum f {Suc r..<K}"
proof -
  have "sum f {..<K} = sum f {0..<r} + sum f {r..<K}"
    using assms by (simp add: lessThan_atLeast0 sum.atLeastLessThan_concat)
  also have "sum f {r..<K} = f r + sum f {Suc r..<K}" using assms by (rule sum.atLeast_Suc_lessThan)
  finally show ?thesis by (simp add: lessThan_atLeast0 add.assoc)
qed

lemma sum_list_upto: "sum_list (map f [a..<b]) = sum f {a..<b}" for f :: "nat \<Rightarrow> 'a multiset"
  by (simp add: interv_sum_list_conv_sum_set_nat)

lemma amort_inv_sum_size:
  assumes "amort_inv S n h LV st" "i < max 10 n"
  shows "size (recs (LV i)) \<le> length h"
proof -
  have "recs (LV i) \<subseteq># (\<Sum>i<max 10 n. recs (LV i))"
    using sum_split_at [OF assms(2), of "\<lambda>i. recs (LV i)"] by (simp add: subset_mset.add_increasing subset_mset.add_increasing2)
  then have "size (recs (LV i)) \<le> size (mset (map hrec h))"
    using assms(1) by (metis amort_inv_def size_mset_mono)
  then show ?thesis by simp
qed

text \<open>Merging the levels below \<open>r\<close>, local ones first.\<close>

lemma merge_levels:
  assumes S: "senv_ok S" and rep: "amort_rep S n LV st" and r: "r \<le> max 10 n"
  obtains st2 prev where
    "(case merge_local S [0..<min r 10] (a_data st) [] of (dat, prev) \<Rightarrow>
        merge_remote S [10..<r] (st\<lparr>a_updateCounter := u, a_data := dat\<rparr>) prev) = Inr (st2, prev)"
    "amort_rep S n (\<lambda>i. if i < r then [] else LV i) st2" "multi_wf prev"
    "recs prev = (\<Sum>i<r. recs (LV i))" "a_updateCounter st2 = u"
proof -
  let ?l = "[0..<min r 10]"
  have "\<forall>i\<in>set ?l. i < length (a_data st) \<and> multi_wf (a_data st ! i)"
    using rep by (auto simp: amort_rep_def)
  then obtain prev where l: "merge_local S ?l (a_data st) [] =
      (map (\<lambda>i. if i \<in> set ?l then [] else a_data st ! i) [0..<length (a_data st)], prev)"
    "multi_wf prev" "recs prev = (\<Sum>i\<leftarrow>?l. recs (a_data st ! i))"
    using merge_local_eq [OF S, of ?l "a_data st" "[]"] by auto
  let ?dat = "map (\<lambda>i. if i \<in> set ?l then [] else a_data st ! i) [0..<length (a_data st)]"
  let ?st = "st\<lparr>a_updateCounter := u, a_data := ?dat\<rparr>"
  let ?LV = "\<lambda>i. if i < min r 10 then [] else LV i"
  have rep1: "amort_rep S n ?LV ?st" using rep by (auto simp: amort_rep_def)
  have sub: "set [10..<r] \<subseteq> {10..<n}" using r by auto
  obtain st2 prev2 where m: "merge_remote S [10..<r] ?st prev = Inr (st2, prev2)"
    "amort_rep S n (\<lambda>i. if i \<in> set [10..<r] then [] else ?LV i) st2" "multi_wf prev2"
    "recs prev2 = recs prev + (\<Sum>i\<leftarrow>[10..<r]. recs (?LV i))" "a_updateCounter st2 = a_updateCounter ?st"
    using merge_remote_eq [OF S rep1 distinct_upt sub l(2)] by blast
  have "(\<lambda>i. if i \<in> set [10..<r] then [] else ?LV i) = (\<lambda>i. if i < r then [] else LV i)" by auto
  moreover have "recs prev2 = (\<Sum>i<r. recs (LV i))"
  proof -
    have "recs prev = sum (\<lambda>i. recs (LV i)) {0..<min r 10}"
      using l(3) rep unfolding sum_list_upto by (simp add: amort_rep_def)
    moreover have "(\<Sum>i\<leftarrow>[10..<r]. recs (?LV i)) = sum (\<lambda>i. recs (LV i)) {10..<r}"
      unfolding sum_list_upto by simp
    moreover have "sum (\<lambda>i. recs (LV i)) {0..<min r 10} + sum (\<lambda>i. recs (LV i)) {10..<r} = (\<Sum>i<r. recs (LV i))"
      by (cases "r \<le> 10") (simp_all add: lessThan_atLeast0 sum.atLeastLessThan_concat min_def)
    ultimately show ?thesis using m(4) by simp
  qed
  ultimately show ?thesis using that l(1) m by simp
qed

text \<open>Storing the merged multimap in level \<open>r\<close>, as the last part of \<open>update\<close> does.\<close>

definition store_level :: "senv \<Rightarrow> nat \<Rightarrow> (string \<times> bytes list) list \<Rightarrow> amortized \<Rightarrow> amortized res" where
  "store_level S r prev st =
     (if r < localSize then
        Inr (st\<lparr>a_data := (a_data st)[r := um_insert_range (s_iterw S prev) (a_data st ! r)]\<rparr>)
      else if length (a_keys st) \<le> r then Inl BadIndex
      else let newKey = s_newkey S (nat (a_updateCounter st)) in
        ebind (bas_setup S r prev (Some newKey) (a_L st))
          (\<lambda>L. Inr (st\<lparr>a_L := L, a_keys := (a_keys st)[r := Some newKey]\<rparr>)))"

lemma Amortized_update_alt:
  "Amortized_update S op keyword ind st =
     (let r = rm0 (a_updateCounter st) in
      ebind (case merge_local S [0..<min r 10] (a_data st) [] of (dat, prev) \<Rightarrow>
          merge_remote S [10..<r] (st\<lparr>a_updateCounter := a_updateCounter st + 1, a_data := dat\<rparr>) prev)
        (\<lambda>(st2, prev). ebind (make_value op keyword ind)
          (\<lambda>v. store_level S r (append_to keyword [v] prev) st2)))"
  by (simp add: Amortized_update_def store_level_def localSize_def Let_def case_prod_beta)

lemma store_level_rep:
  assumes S: "senv_ok S" and rep: "amort_rep S n LV st" and r: "r < max 10 n" "LV r = []"
    and prev: "multi_wf prev" "size (recs prev) < 2 ^ 31"
  obtains st' qs where "store_level S r prev st = Inr st'" "amort_rep S n (LV(r := qs)) st'"
    "recs qs = recs prev" "a_updateCounter st' = a_updateCounter st"
proof (cases "r < 10")
  case True
  let ?qs = "s_iterw S prev"
  have m: "mset ?qs = mset prev" using S by (simp add: senv_ok_def)
  note qs = multi_wf_perm [OF prev(1) m] recs_perm [OF m]
  have "um_insert_range ?qs [] = ?qs"
    using um_insert_range_fresh [of ?qs "[]"] qs(1) by (simp add: multi_wf_def)
  then have "store_level S r prev st = Inr (st\<lparr>a_data := (a_data st)[r := ?qs]\<rparr>)"
    using True rep r(2) by (simp add: store_level_def localSize_def amort_rep_def)
  moreover have "amort_rep S n (LV(r := ?qs)) (st\<lparr>a_data := (a_data st)[r := ?qs]\<rparr>)"
    using rep True qs prev(2) by (auto simp: amort_rep_def nth_list_update)
  ultimately show ?thesis using that qs(2) by simp
next
  case False
  then have n: "r < n" using r(1) by simp
  let ?key = "Some (s_newkey S (nat (a_updateCounter st)))"
  have len: "r < length (c_exist (a_L st))" "r < length (c_server (a_L st))" "c_server (a_L st) ! r = []"
    "r < length (a_keys st)"
    using rep n False r(2) by (auto simp: amort_rep_def)
  obtain qs where qs: "bas_setup S r prev ?key (a_L st) =
      Inr ((a_L st)\<lparr>c_server := (c_server (a_L st))[r := dict_of S ?key qs], c_exist := (c_exist (a_L st))[r := True]\<rparr>)"
    "multi_ok qs" "mset qs = mset prev"
    using bas_setup_eq [OF S multi_wf_ok [OF prev] len(1-3)] by metis
  have "multi_wf qs" "recs qs = recs prev" by (rule multi_wf_perm [OF prev(1) qs(3)], rule recs_perm [OF qs(3)])
  let ?st = "st\<lparr>a_L := (a_L st)\<lparr>c_server := (c_server (a_L st))[r := dict_of S ?key qs], c_exist := (c_exist (a_L st))[r := True]\<rparr>,
     a_keys := (a_keys st)[r := ?key]\<rparr>"
  have "amort_rep S n (LV(r := qs)) ?st"
    using rep False n \<open>multi_wf qs\<close> \<open>recs qs = recs prev\<close> prev(2) by (auto simp: amort_rep_def nth_list_update)
  moreover have "store_level S r prev st = Inr ?st"
    using False qs(1) len by (simp add: store_level_def localSize_def Let_def)
  ultimately show ?thesis using that \<open>recs qs = recs prev\<close> by simp
qed

lemma the_value_vrec: "upd_ok (op, kw, ind) \<Longrightarrow> vrec kw (the_value op kw ind)"
proof -
  assume e: "upd_ok (op, kw, ind)"
  then have "length (the_value op kw ind) = 16" using the_value_eq [of kw op ind] upd_ok_kw by fastforce
  then show ?thesis using e by (auto simp: vrec_def)
qed

lemma update_inv:
  assumes S: "senv_ok S" and inv: "amort_inv S n h LV st" and e: "upd_ok (op, kw, ind)"
    and cap: "length h + 1 < 2 ^ max 10 n" "length h + 1 < 2 ^ 31"
  obtains st' LV' where "Amortized_update S op kw ind st = Inr st'" "amort_inv S n (h @ [(op, kw, ind)]) LV' st'"
proof -
  let ?u = "int (length h)"
  let ?r = "rm0 ?u"
  let ?K = "max 10 n"
  have rep: "amort_rep S n LV st" and u: "a_updateCounter st = ?u"
    and clear: "\<And>i. i < ?K \<Longrightarrow> \<not> bit ?u i \<Longrightarrow> LV i = []"
    and sum: "(\<Sum>i<?K. recs (LV i)) = mset (map hrec h)"
    using inv by (auto simp: amort_inv_def)
  have "int (length h + 1) < 2 ^ ?K" using cap(1) by (metis of_nat_less_iff of_nat_numeral of_nat_power)
  then have r: "?r < ?K" by (intro rm0_less) simp_all
  obtain st2 prev where m:
    "(case merge_local S [0..<min ?r 10] (a_data st) [] of (dat, prev) \<Rightarrow>
        merge_remote S [10..<?r] (st\<lparr>a_updateCounter := ?u + 1, a_data := dat\<rparr>) prev) = Inr (st2, prev)"
    "amort_rep S n (\<lambda>i. if i < ?r then [] else LV i) st2" "multi_wf prev"
    "recs prev = (\<Sum>i<?r. recs (LV i))" "a_updateCounter st2 = ?u + 1"
    using merge_levels [OF S rep less_imp_le [OF r], of "?u + 1"] by blast
  let ?v = "the_value op kw ind"
  let ?prev = "append_to kw [?v] prev"
  have p: "multi_wf ?prev" "recs ?prev = add_mset (hrec (op, kw, ind)) (\<Sum>i<?r. recs (LV i))"
    using append_to_wf [OF m(3), of kw "[?v]"] the_value_vrec [OF e] upd_ok_kw [OF e] m(4) by (simp_all add: hrec_def)
  have LVr: "LV ?r = []" using clear [OF r] rm0_bits [of ?u] by simp
  have "size (\<Sum>i<?r. recs (LV i)) \<le> size (mset (map hrec h))"
    unfolding sum [symmetric] sum_split_at [OF r, of "\<lambda>i. recs (LV i)"] by simp
  then have "size (recs ?prev) < 2 ^ 31" using p(2) cap(2) by simp
  then obtain st' qs where s: "store_level S ?r ?prev st2 = Inr st'"
    "amort_rep S n ((\<lambda>i. if i < ?r then [] else LV i)(?r := qs)) st'" "recs qs = recs ?prev"
    "a_updateCounter st' = a_updateCounter st2"
    using store_level_rep [OF S m(2) r _ p(1)] LVr by auto
  let ?LV = "(\<lambda>i. if i < ?r then [] else LV i)(?r := qs)"
  have "Amortized_update S op kw ind st = Inr st'"
    using m(1) s(1) u make_value_eq [of kw op ind] upd_ok_kw [OF e] by (simp add: Amortized_update_alt)
  moreover have "(\<Sum>i<?K. recs (?LV i)) = mset (map hrec (h @ [(op, kw, ind)]))"
  proof -
    have "(\<Sum>i<?K. recs (?LV i)) = (\<Sum>i<?r. recs (?LV i)) + recs qs + (\<Sum>i\<in>{Suc ?r..<?K}. recs (?LV i))"
      using sum_split_at [OF r, of "\<lambda>i. recs (?LV i)"] by simp
    also have "(\<Sum>i<?r. recs (?LV i)) = {#}" by simp
    also have "(\<Sum>i\<in>{Suc ?r..<?K}. recs (?LV i)) = (\<Sum>i\<in>{Suc ?r..<?K}. recs (LV i))"
      by (intro sum.cong) auto
    finally have "(\<Sum>i<?K. recs (?LV i)) = add_mset (hrec (op, kw, ind)) (\<Sum>i<?K. recs (LV i))"
      using sum_split_at [OF r, of "\<lambda>i. recs (LV i)"] s(3) p(2) LVr by simp
    then show ?thesis using sum by simp
  qed
  moreover have "?LV i = []" if "i < ?K" "\<not> bit (int (length (h @ [(op, kw, ind)]))) i" for i
  proof -
    have "\<not> bit (?u + 1) i" using that(2) by (simp add: add.commute)
    then show ?thesis using rm0_bits [of ?u] clear [OF that(1)] by (cases "i < ?r"; cases "i = ?r") auto
  qed
  ultimately have "amort_inv S n (h @ [(op, kw, ind)]) ?LV st'"
    using s(2,4) m(5) by (simp add: amort_inv_def)
  then show ?thesis using that \<open>Amortized_update S op kw ind st = Inr st'\<close> by blast
qed

fun Amortized_updates :: "senv \<Rightarrow> (OP \<times> string \<times> int) list \<Rightarrow> amortized \<Rightarrow> amortized res" where
  "Amortized_updates S [] st = Inr st"
| "Amortized_updates S ((op, kw, ind) # h) st =
     ebind (Amortized_update S op kw ind st) (Amortized_updates S h)"

lemma updates_inv:
  assumes S: "senv_ok S"
  shows "amort_inv S n h0 LV st \<Longrightarrow> \<forall>e\<in>set h. upd_ok e \<Longrightarrow> length h0 + length h < 2 ^ max 10 n \<Longrightarrow>
    length h0 + length h < 2 ^ 31 \<Longrightarrow>
    \<exists>st' LV'. Amortized_updates S h st = Inr st' \<and> amort_inv S n (h0 @ h) LV' st'"
proof (induction h arbitrary: h0 LV st)
  case (Cons e h)
  obtain op kw ind where e: "e = (op, kw, ind)" by (cases e)
  have c: "length h0 + 1 < 2 ^ max 10 n" "length h0 + 1 < 2 ^ 31"
    using Cons.prems(3,4) by (auto simp del: max_def)
  obtain st1 LV1 where 1: "Amortized_update S op kw ind st = Inr st1" "amort_inv S n (h0 @ [e]) LV1 st1"
    using update_inv [OF S Cons.prems(1) _ c, of op kw ind] Cons.prems(2) e by auto
  then show ?case using Cons.IH [OF 1(2)] Cons.prems e by simp
qed auto

lemma new_inv: "amort_inv S (ceil_log2 N) [] (\<lambda>_. []) (Amortized_new N)"
  by (auto simp: amort_inv_def amort_rep_def Amortized_new_def AmortizedBASClient_new_def
      AmortizedBASServer_new_def localSize_def)

section \<open>Counting\<close>

definition ridx :: "bytes \<Rightarrow> int" where "ridx r = get_int 11 r"
definition delta :: "bytes \<Rightarrow> int" where "delta r = 2 * uint (r ! 10) - 1"

lemma ridx_take: "ridx (take 15 v) = ridx v" "delta (take 15 v) = delta v"
  by (simp_all add: ridx_def delta_def get_int_def drop_take)

definition ltotal :: "int \<Rightarrow> bytes list \<Rightarrow> int" where
  "ltotal i vs = (\<Sum>v\<leftarrow>filter (\<lambda>v. ridx v = i) vs. delta v)"

lemma ltotal_absent: "i \<notin> ridx ` set vs \<Longrightarrow> ltotal i vs = 0"
  by (induction vs) (auto simp: ltotal_def)

lemma tally_snoc: "tally (vs @ [v]) = tally_step v (tally vs)"
  by (simp add: tally_def)

lemma tally_eq:
  "distinct (map fst (tally vs)) \<and>
   map_of (tally vs) i = (if i \<in> ridx ` set vs then Some (ltotal i vs) else None)"
proof (induction vs arbitrary: i rule: rev_induct)
  case Nil
  then show ?case by (simp add: tally_def)
next
  case (snoc v vs)
  have step: "tally (vs @ [v]) = AList.update (ridx v)
      ((case map_of (tally vs) (ridx v) of None \<Rightarrow> 0 | Some n \<Rightarrow> n) + delta v) (tally vs)"
    by (simp add: tally_snoc tally_step_def AES_KEY_SIZE_def ridx_def delta_def Let_def)
  have "(case map_of (tally vs) (ridx v) of None \<Rightarrow> 0 | Some n \<Rightarrow> n) = ltotal (ridx v) vs"
    using snoc [of "ridx v"] ltotal_absent [of "ridx v" vs] by auto
  then show ?case
    unfolding step using snoc [of i] by (auto simp: distinct_update update_conv ltotal_def)
qed

lemma live_indexes_eq: "live_indexes vs = sorted_list_of_set {i. ltotal i vs < 0}"
proof -
  let ?neg = "map fst (filter (\<lambda>(i, n). n < 0) (tally vs))"
  have d: "distinct (map fst (tally vs))" using tally_eq by blast
  have "set ?neg = {i. ltotal i vs < 0}"
  proof (intro set_eqI iffI)
    fix i assume "i \<in> set ?neg"
    then obtain n where "(i, n) \<in> set (tally vs)" "n < 0" by auto
    then have "map_of (tally vs) i = Some n" "n < 0" using d by simp_all
    then show "i \<in> {i. ltotal i vs < 0}" using tally_eq [of vs i] by (auto split: if_splits)
  next
    fix i assume i: "i \<in> {i. ltotal i vs < 0}"
    then have "i \<in> ridx ` set vs" using ltotal_absent [of i vs] by fastforce
    then have "(i, ltotal i vs) \<in> set (tally vs)" using tally_eq [of vs i] map_of_SomeD by fastforce
    then show "i \<in> set ?neg" using i by force
  qed
  moreover have "distinct ?neg" using d by (rule distinct_map_filter)
  ultimately show ?thesis
    unfolding live_indexes_def by (metis sorted_list_of_set_sort_remdups distinct_remdups_id)
qed

text \<open>The sum over a multiset of 15-byte records.\<close>

definition mtotal :: "int \<Rightarrow> bytes multiset \<Rightarrow> int" where
  "mtotal i R = (\<Sum>r\<in>#filter_mset (\<lambda>r. ridx r = i) R. delta r)"

lemma total_mtotal: "ltotal i vs = mtotal i (image_mset (take 15) (mset vs))"
  by (induction vs) (simp_all add: ltotal_def mtotal_def ridx_take)

text \<open>The specification of a search: identifiers inserted more often than deleted.\<close>

definition live_spec :: "(OP \<times> string \<times> int) list \<Rightarrow> string \<Rightarrow> int list" where
  "live_spec h kw = sorted_list_of_set {i. count_list h (DEL, kw, i) < count_list h (INS, kw, i)}"

lemma hrec_fields:
  assumes "upd_ok (op, kw, ind)"
  shows "kw_of (hrec (op, kw, ind)) = kw" "ridx (hrec (op, kw, ind)) = ind"
    "delta (hrec (op, kw, ind)) = (if op = INS then -1 else 1)"
proof -
  note k = upd_ok_kw [OF assms]
  note f = the_value_fields [of kw ind "the_value op kw ind" op]
  show "kw_of (hrec (op, kw, ind)) = kw" using kw_of_value(2) [OF assms refl] by (simp add: hrec_def)
  have l: "length (the_value op kw ind) = 16" using the_value_vrec [OF assms] by (simp add: vrec_def)
  show "ridx (hrec (op, kw, ind)) = ind" "delta (hrec (op, kw, ind)) = (if op = INS then -1 else 1)"
    using f k l by (cases op; simp add: hrec_def ridx_take; simp add: ridx_def delta_def)+
qed

lemma mtotal_history:
  "\<forall>e\<in>set h. upd_ok e \<Longrightarrow>
   mtotal i (filter_mset (\<lambda>r. kw_of r = kw) (mset (map hrec h))) =
     int (count_list h (DEL, kw, i)) - int (count_list h (INS, kw, i))"
proof (induction h)
  case (Cons e h)
  obtain op k j where e: "e = (op, k, j)" by (cases e)
  note f = hrec_fields [of op k j]
  show ?case using Cons f by (cases op) (auto simp: e mtotal_def)
qed (simp add: mtotal_def)

section \<open>Searching\<close>

lemma vals_recs:
  "multi_wf ps \<Longrightarrow> image_mset (take 15) (mset (vals ps kw)) = filter_mset (\<lambda>r. kw_of r = kw) (recs ps)"
proof (induction ps)
  case (Cons p ps)
  obtain k vs where p: "p = (k, vs)" by (cases p)
  have wf: "multi_wf ps" "\<forall>v\<in>set vs. vrec k v" "k \<notin> fst ` set ps" using Cons.prems by (auto simp: p multi_wf_def)
  have "filter_mset (\<lambda>r. kw_of r = kw) (image_mset (take 15) (mset vs)) =
      (if k = kw then image_mset (take 15) (mset vs) else {#})"
    using wf(2) vrec_array_str by (induction vs) auto
  moreover have "vals ps k = []"
    using wf(3) by (auto simp: vals_def split: option.splits) (metis map_of_SomeD fst_conv image_eqI)
  ultimately show ?case using Cons.IH [OF wf(1)] by (auto simp: p vals_def)
qed (simp add: vals_def)

definition touch :: "string \<Rightarrow> (string \<times> bytes list) list \<Rightarrow> (string \<times> bytes list) list" where
  "touch kw ps = (if map_of ps kw = None then AList.update kw [] ps else ps)"

lemma touch_wf: "multi_wf ps \<Longrightarrow> kw_ok kw \<Longrightarrow> multi_wf (touch kw ps) \<and> recs (touch kw ps) = recs ps"
  using append_to_wf [of ps kw "[]"] by (auto simp: touch_def append_to_def split: option.splits)

lemma search_local_eq:
  "distinct is \<Longrightarrow> \<forall>i\<in>set is. i < length dat \<Longrightarrow>
   search_local kw is dat acc =
     (map (\<lambda>i. if i \<in> set is then touch kw (dat ! i) else dat ! i) [0..<length dat],
      acc @ concat (map (\<lambda>i. vals (dat ! i) kw) is))"
proof (induction "is" arbitrary: dat acc)
  case Nil
  then show ?case by (simp add: map_nth)
next
  case (Cons i "is")
  let ?dat = "dat[i := touch kw (dat ! i)]"
  have "search_local kw (i # is) dat acc = search_local kw is ?dat (acc @ vals (dat ! i) kw)"
    using Cons.prems by (auto simp: touch_def vals_def list_update_id split: option.splits)
  also have "\<dots> = (map (\<lambda>i. if i \<in> set is then touch kw (?dat ! i) else ?dat ! i) [0..<length ?dat],
      (acc @ vals (dat ! i) kw) @ concat (map (\<lambda>i. vals (?dat ! i) kw) is))"
    using Cons.prems by (intro Cons.IH) auto
  also have "map (\<lambda>i. vals (?dat ! i) kw) is = map (\<lambda>i. vals (dat ! i) kw) is"
    using Cons.prems(1) by (auto, metis nth_list_update_neq)
  finally show ?case using Cons.prems by (auto simp: nth_list_update)
qed

lemma search_remote_eq:
  assumes S: "senv_ok S" and rep: "amort_rep S n LV st" and kw: "kw_ok kw"
  shows "set is \<subseteq> {10..<n} \<Longrightarrow>
    search_remote S kw is st acc = Inr (acc @ concat (map (\<lambda>i. map (opened S) (vals (LV i) kw)) is))"
proof (induction "is" arbitrary: acc)
  case (Cons i "is")
  then have i: "10 \<le> i" "i < n" by auto
  have "bas_client_search S i kw (a_keys st ! i) (a_L st) = Inr (map (opened S) (vals (LV i) kw))"
    using rep i by (intro bas_client_search_eq [OF S amort_rep_multi_ok [OF rep] kw]) (auto simp: amort_rep_def)
  moreover have "i < length (a_keys st)" "\<not> c_exist (a_L st) ! i \<Longrightarrow> vals (LV i) kw = []"
    using rep i by (auto simp: amort_rep_def vals_def)
  ultimately show ?case using Cons by simp
qed simp

lemma search_result:
  assumes S: "senv_ok S" and rep: "amort_rep S n LV st" and kw: "kw_ok kw"
    and sum: "(\<Sum>i<max 10 n. recs (LV i)) = mset (map hrec h)" and h: "\<forall>e\<in>set h. upd_ok e"
  obtains st' where "Amortized_search S kw st = Inr (live_spec h kw, st')"
    "amort_rep S n (\<lambda>i. if i < 10 then touch kw (LV i) else LV i) st'"
proof -
  let ?P = "\<lambda>r. kw_of r = kw"
  let ?loc = "concat (map (\<lambda>i. vals (a_data st ! i) kw) [0..<10])"
  let ?rem = "concat (map (\<lambda>i. map (opened S) (vals (LV i) kw)) [10..<n])"
  let ?dat = "map (\<lambda>i. if i \<in> set [0..<10] then touch kw (a_data st ! i) else a_data st ! i) [0..<length (a_data st)]"
  have len: "length (a_data st) = 10" "length (c_exist (a_L st)) = n" using rep by (simp_all add: amort_rep_def)
  have "search_local kw [0..<10] (a_data st) [] = (?dat, ?loc)"
    using search_local_eq [of "[0..<10]" "a_data st" kw "[]"] len by simp
  moreover have "search_remote S kw [10..<n] st ?loc = Inr (?loc @ ?rem)"
    by (rule search_remote_eq [OF S rep kw]) auto
  ultimately have res: "Amortized_search S kw st = Inr (live_indexes (?loc @ ?rem), st\<lparr>a_data := ?dat\<rparr>)"
    using len by (simp add: Amortized_search_def localSize_def)
  have loc: "image_mset (take 15) (mset ?loc) = filter_mset ?P (\<Sum>i\<in>{0..<10}. recs (LV i))"
  proof -
    have "image_mset (take 15) (mset (concat (map (\<lambda>i. vals (a_data st ! i) kw) [0..<k]))) =
        filter_mset ?P (\<Sum>i\<in>{0..<k}. recs (LV i))" if "k \<le> 10" for k
      using that rep vals_recs by (induction k) (auto simp: amort_rep_def)
    then show ?thesis by blast
  qed
  have rem: "image_mset (take 15) (mset ?rem) = filter_mset ?P (\<Sum>i\<in>{10..<n}. recs (LV i))"
  proof -
    have one: "image_mset (take 15) (mset (map (opened S) (vals (LV i) kw))) = filter_mset ?P (recs (LV i))"
      if "i < n" for i
    proof -
      have wf: "multi_wf (LV i)" using that rep by (simp add: amort_rep_def)
      have "map (take 15) (map (opened S) (vals (LV i) kw)) = map (take 15) (vals (LV i) kw)"
        using vals_ok [OF amort_rep_multi_ok [OF rep, of i]] that by (fastforce simp: opened_def)
      then have "image_mset (take 15) (mset (map (opened S) (vals (LV i) kw))) = image_mset (take 15) (mset (vals (LV i) kw))"
        by (metis mset_map)
      then show ?thesis using vals_recs [OF wf, of kw] by simp
    qed
    have "image_mset (take 15) (mset (concat (map (\<lambda>i. map (opened S) (vals (LV i) kw)) [10..<k]))) =
        filter_mset ?P (\<Sum>i\<in>{10..<k}. recs (LV i))" if "k \<le> n" for k
      using that one by (induction k) auto
    then show ?thesis by blast
  qed
  have "image_mset (take 15) (mset (?loc @ ?rem)) = filter_mset ?P (\<Sum>i<max 10 n. recs (LV i))"
  proof -
    have "(\<Sum>i\<in>{0..<10}. recs (LV i)) + (\<Sum>i\<in>{10..<n}. recs (LV i)) = (\<Sum>i<max 10 n. recs (LV i))"
      by (cases "n \<le> 10") (simp_all add: lessThan_atLeast0 sum.atLeastLessThan_concat max_def)
    then show ?thesis using loc rem by (metis (no_types, lifting) filter_union_mset image_mset_union mset_append)
  qed
  then have "ltotal i (?loc @ ?rem) = int (count_list h (DEL, kw, i)) - int (count_list h (INS, kw, i))" for i
    by (simp only: total_mtotal sum mtotal_history [OF h])
  then have "live_indexes (?loc @ ?rem) = live_spec h kw" by (simp add: live_indexes_eq live_spec_def)
  moreover have "amort_rep S n (\<lambda>i. if i < 10 then touch kw (LV i) else LV i) (st\<lparr>a_data := ?dat\<rparr>)"
    using rep touch_wf kw by (auto simp: amort_rep_def)
  ultimately show ?thesis using that res by simp
qed

fun Amortized_searches :: "senv \<Rightarrow> string list \<Rightarrow> amortized \<Rightarrow> int list list res" where
  "Amortized_searches S [] st = Inr []"
| "Amortized_searches S (kw # kws) st =
     ebind (Amortized_search S kw st)
       (\<lambda>(r, st'). ebind (Amortized_searches S kws st') (\<lambda>rs. Inr (r # rs)))"

lemma searches_result:
  assumes S: "senv_ok S" and h: "\<forall>e\<in>set h. upd_ok e"
  shows "amort_rep S n LV st \<Longrightarrow> (\<Sum>i<max 10 n. recs (LV i)) = mset (map hrec h) \<Longrightarrow>
    \<forall>kw\<in>set kws. kw_ok kw \<Longrightarrow> Amortized_searches S kws st = Inr (map (live_spec h) kws)"
proof (induction kws arbitrary: LV st)
  case (Cons kw kws)
  let ?LV = "\<lambda>i. if i < 10 then touch kw (LV i) else LV i"
  have kw: "kw_ok kw" using Cons.prems(3) by simp
  obtain st' where st': "Amortized_search S kw st = Inr (live_spec h kw, st')" "amort_rep S n ?LV st'"
    using search_result [OF S Cons.prems(1) kw Cons.prems(2) h] by blast
  have "(\<Sum>i<max 10 n. recs (?LV i)) = (\<Sum>i<max 10 n. recs (LV i))"
    using Cons.prems(1) touch_wf [OF _ kw] by (intro sum.cong) (auto simp: amort_rep_def)
  then show ?case using Cons.IH [OF st'(2)] Cons.prems st'(1) by simp
qed simp

section \<open>Properties\<close>

text \<open>
  (C7) Amortized scheme, end to end: after any sequence of updates that fits the capacity of the
  structure, with keywords short enough to leave their record intact, every sequence of
  searches ends without an error and returns, for each keyword, in increasing order exactly the
  identifiers that were inserted more often than deleted.
\<close>

theorem Amortized_search_correct:
  assumes "senv_ok S" "\<forall>e\<in>set h. upd_ok e" "\<forall>kw\<in>set kws. kw_ok kw"
    "length h < 2 ^ max 10 (ceil_log2 N)" "length h < 2 ^ 31"
  shows "ebind (Amortized_updates S h (Amortized_new N)) (Amortized_searches S kws) = Inr (map (live_spec h) kws)"
proof -
  have "\<exists>st LV. Amortized_updates S h (Amortized_new N) = Inr st \<and> amort_inv S (ceil_log2 N) ([] @ h) LV st"
    by (rule updates_inv [OF assms(1) new_inv assms(2)]) (use assms(4,5) in simp_all)
  then obtain st LV where st: "Amortized_updates S h (Amortized_new N) = Inr st" "amort_inv S (ceil_log2 N) h LV st"
    by auto
  then show ?thesis using searches_result [OF assms(1,2), of "ceil_log2 N" LV st kws] assms(3)
    by (simp add: amort_inv_def)
qed

theorem Amortized_search_correct_witness:
  "ebind (Amortized_updates toy_senv [(INS, ''a'', 7), (INS, ''b'', 8), (INS, ''a'', 9), (DEL, ''a'', 7)] (Amortized_new 16))
     (Amortized_searches toy_senv [''a'', ''b'']) =
   Inr (map (live_spec [(INS, ''a'', 7), (INS, ''b'', 8), (INS, ''a'', 9), (DEL, ''a'', 7)]) [''a'', ''b''])"
  by (rule Amortized_search_correct [OF senv_ok_toy])
    (simp_all add: upd_ok_def kw_ok_def NUL_char int32_def max_def ceil_log2_def ilog2.simps)

lemma search_remote_none:
  "\<forall>i\<in>set is. \<not> c_exist (a_L st) ! i \<Longrightarrow> search_remote S kw is st acc = Inr acc"
  by (induction "is") auto



end
