(* ===== verification/Avl_Tree.thy ===== *)
theory Avl_Tree
  imports Oram Cpp_Strings
begin

text \<open>
  The AVL tree over the ORAM (\<open>AVLTree.h\<close>, \<open>AVLTree.cpp\<close>). Nodes refer to their children by
  identifier and position; every access goes through \<open>ORAM::ReadNode\<close>. The recursions follow
  identifiers stored in untrusted memory, so they carry a fuel argument, and running out of
  it is an error; \<open>dv\<close> is the member \<open>dummyValue\<close>, which only the static schemes consult.
  Where a call has two arguments with side effects (\<open>max(height(l), height(r))\<close>) they are
  evaluated from left to right.
\<close>

section \<open>Helpers\<close>

definition AVL_RandomPath :: "env \<Rightarrow> oram \<Rightarrow> int \<times> oram" where
  "AVL_RandomPath E st =
     (int (e_rand E (o_rng st) mod (o_maxOfRandom st + 1)), st\<lparr>o_rng := o_rng st + 1\<rparr>)"

definition deref :: "oram \<Rightarrow> bid \<Rightarrow> node res" where
  "deref st k = (case cached st k of None \<Rightarrow> Inl NullDeref | Some n \<Rightarrow> Inr n)"

text \<open>\<open>std::fill(value, 0); std::copy(s.begin(), s.end(), value.begin())\<close> on the 16-byte value array.\<close>

definition value_bytes :: "string \<Rightarrow> bytes res" where
  "value_bytes s = copy_at 0 (string_bytes s) (replicate 16 0)"

definition AVL_newNode :: "env \<Rightarrow> bid \<Rightarrow> string \<Rightarrow> oram \<Rightarrow> (node \<times> oram) res" where
  "AVL_newNode E key s st =
     ebind (value_bytes s) (\<lambda>v.
       let zero = Bid_int (ID_SIZE (e_scheme E)) 0;
           noPos = (if e_scheme E = Horus then e_uninit E else - 1);
           (p, st) = AVL_RandomPath E st
       in Inr (\<lparr>nkey = key, nvalue = v, npos = p, nleftID = zero, nleftPos = noPos,
                nrightID = zero, nrightPos = noPos, nevictionNode = e_uninit E, nheight = 1\<rparr>, st))"

definition AVL_height :: "env \<Rightarrow> bid \<Rightarrow> int \<Rightarrow> oram \<Rightarrow> (int \<times> oram) res" where
  "AVL_height E key leaf st =
     (if bid_eq_int key 0 then Inr (0, st)
      else ebind (ReadNode E key leaf leaf st) (\<lambda>(n, st).
             case n of None \<Rightarrow> Inl NullDeref | Some n \<Rightarrow> Inr (nheight n, st)))"

definition AVL_max :: "int \<Rightarrow> int \<Rightarrow> int" where
  "AVL_max a b = (if a > b then a else b)"

text \<open>\<open>n->height = max(height(left), height(right)) + 1\<close> for the cached node \<open>k\<close>.\<close>

definition update_height :: "env \<Rightarrow> bid \<Rightarrow> oram \<Rightarrow> oram res" where
  "update_height E k st =
     ebind (deref st k) (\<lambda>n.
     ebind (AVL_height E (nleftID n) (nleftPos n) st) (\<lambda>(hl, st).
     ebind (AVL_height E (nrightID n) (nrightPos n) st) (\<lambda>(hr, st).
     Inr (cache_modify k (\<lambda>n. n\<lparr>nheight := AVL_max hl hr + 1\<rparr>) st))))"

text \<open>\<open>WriteNode(p->key, p)\<close> for the cached node \<open>k\<close>.\<close>

definition write_ptr :: "env \<Rightarrow> bid \<Rightarrow> oram \<Rightarrow> oram res" where
  "write_ptr E k st =
     ebind (deref st k) (\<lambda>n. ebind (WriteNode E (nkey n) n st) (\<lambda>(_, st). Inr st))"

text \<open>The third subtree of a rotation: a fresh node with identifier 0 where there is none.\<close>

definition rotate_T2 :: "env \<Rightarrow> bid \<Rightarrow> oram \<Rightarrow> (node \<times> oram) res" where
  "rotate_T2 E child st =
     (if bid_eq_int child 0 then AVL_newNode E (Bid_int (ID_SIZE (e_scheme E)) 0) [] st
      else ebind (ReadNodeFromCache st child) (\<lambda>t.
             case t of None \<Rightarrow> Inl NullDeref | Some t \<Rightarrow> Inr (t, st)))"

definition cache_ptr :: "oram \<Rightarrow> bid \<Rightarrow> node res" where
  "cache_ptr st k =
     ebind (ReadNodeFromCache st k) (\<lambda>x. case x of None \<Rightarrow> Inl NullDeref | Some x \<Rightarrow> Inr x)"

text \<open>
  The rotations take the pointer of the old root (its key) and return the key of the new one.
\<close>

definition AVL_rightRotate :: "env \<Rightarrow> bid \<Rightarrow> oram \<Rightarrow> (bid \<times> oram) res" where
  "AVL_rightRotate E yk st =
     ebind (deref st yk) (\<lambda>y.
     let xk = nleftID y in
     ebind (cache_ptr st xk) (\<lambda>x.
     ebind (rotate_T2 E (nrightID x) st) (\<lambda>(T2, st).
     let st = cache_modify xk (\<lambda>n. n\<lparr>nrightID := nkey y, nrightPos := npos y\<rparr>) st;
         st = cache_modify yk (\<lambda>n. n\<lparr>nleftID := nkey T2, nleftPos := npos T2\<rparr>) st in
     ebind (update_height E yk st) (\<lambda>st.
     ebind (write_ptr E yk st) (\<lambda>st.
     ebind (update_height E xk st) (\<lambda>st.
     ebind (write_ptr E xk st) (\<lambda>st. Inr (xk, st))))))))"

definition AVL_leftRotate :: "env \<Rightarrow> bid \<Rightarrow> oram \<Rightarrow> (bid \<times> oram) res" where
  "AVL_leftRotate E xk st =
     ebind (deref st xk) (\<lambda>x.
     let yk = nrightID x in
     ebind (cache_ptr st yk) (\<lambda>y.
     ebind (rotate_T2 E (nleftID y) st) (\<lambda>(T2, st).
     let st = cache_modify yk (\<lambda>n. n\<lparr>nleftID := nkey x, nleftPos := npos x\<rparr>) st;
         st = cache_modify xk (\<lambda>n. n\<lparr>nrightID := nkey T2, nrightPos := npos T2\<rparr>) st in
     ebind (update_height E xk st) (\<lambda>st.
     ebind (write_ptr E xk st) (\<lambda>st.
     ebind (update_height E yk st) (\<lambda>st.
     ebind (write_ptr E yk st) (\<lambda>st. Inr (yk, st))))))))"

definition getBalance :: "env \<Rightarrow> bid \<Rightarrow> oram \<Rightarrow> (int \<times> oram) res" where
  "getBalance E k st =
     ebind (deref st k) (\<lambda>n.
     ebind (AVL_height E (nleftID n) (nleftPos n) st) (\<lambda>(hl, st).
     ebind (AVL_height E (nrightID n) (nrightPos n) st) (\<lambda>(hr, st). Inr (hl - hr, st))))"

section \<open>Insertion\<close>

text \<open>The tail of \<open>insert\<close>: the new position of the subtree is that of the rotation's result.\<close>

definition return_ptr :: "bid \<Rightarrow> oram \<Rightarrow> ((bid \<times> int) \<times> oram) res" where
  "return_ptr k st = ebind (deref st k) (\<lambda>n. Inr ((nkey n, npos n), st))"

definition balance_left :: "env \<Rightarrow> bid \<Rightarrow> bid \<Rightarrow> int \<Rightarrow> oram \<Rightarrow> ((bid \<times> int) \<times> oram) res" where
  "balance_left E nk key pos st =
     ebind (deref st nk) (\<lambda>node.
     ebind (cache_ptr st (nleftID node)) (\<lambda>l.
       if bid_lt key (nkey l)
       then ebind (AVL_rightRotate E nk st) (\<lambda>(r, st). return_ptr r st)
       else if bid_gt key (nkey l)
       then ebind (AVL_leftRotate E (nleftID node) st) (\<lambda>(r, st).
            ebind (deref st r) (\<lambda>res.
            let st = cache_modify nk (\<lambda>n. n\<lparr>nleftID := nkey res, nleftPos := npos res\<rparr>) st in
            ebind (write_ptr E nk st) (\<lambda>st.
            ebind (AVL_rightRotate E nk st) (\<lambda>(r, st). return_ptr r st))))
       else ebind (write_ptr E nk st) (\<lambda>st. Inr ((nkey node, pos), st))))"

definition balance_right :: "env \<Rightarrow> bid \<Rightarrow> bid \<Rightarrow> int \<Rightarrow> oram \<Rightarrow> ((bid \<times> int) \<times> oram) res" where
  "balance_right E nk key pos st =
     ebind (deref st nk) (\<lambda>node.
     ebind (cache_ptr st (nrightID node)) (\<lambda>r.
       if bid_gt key (nkey r)
       then ebind (AVL_leftRotate E nk st) (\<lambda>(r, st). return_ptr r st)
       else if bid_lt key (nkey r)
       then ebind (AVL_rightRotate E (nrightID node) st) (\<lambda>(r, st).
            ebind (deref st r) (\<lambda>res.
            let st = cache_modify nk (\<lambda>n. n\<lparr>nrightID := nkey res, nrightPos := npos res\<rparr>) st in
            ebind (write_ptr E nk st) (\<lambda>st.
            ebind (AVL_leftRotate E nk st) (\<lambda>(r, st). return_ptr r st))))
       else ebind (write_ptr E nk st) (\<lambda>st. Inr ((nkey node, pos), st))))"

definition rebalance :: "env \<Rightarrow> bid \<Rightarrow> bid \<Rightarrow> int \<Rightarrow> oram \<Rightarrow> ((bid \<times> int) \<times> oram) res" where
  "rebalance E nk key pos st =
     ebind (update_height E nk st) (\<lambda>st.
     ebind (getBalance E nk st) (\<lambda>(balance, st).
       if balance > 1 then balance_left E nk key pos st
       else if balance < - 1 then balance_right E nk key pos st
       else ebind (deref st nk) (\<lambda>node.
            ebind (write_ptr E nk st) (\<lambda>st. Inr ((nkey node, pos), st)))))"

definition is_stale :: "env \<Rightarrow> int \<Rightarrow> bid \<Rightarrow> bool" where
  "is_stale E dv k \<longleftrightarrow> e_scheme E = Static \<and> bid_tail_int k \<le> dv"

fun AVL_insert :: "env \<Rightarrow> int \<Rightarrow> nat \<Rightarrow> bid \<Rightarrow> int \<Rightarrow> bid \<Rightarrow> string \<Rightarrow> oram
    \<Rightarrow> ((bid \<times> int) \<times> oram) res" where
  "AVL_insert E dv 0 rootKey pos key s st = Inl OutOfFuel"
| "AVL_insert E dv (Suc fuel) rootKey pos key s st =
     (if bid_eq_int rootKey 0 \<or> is_stale E dv rootKey
      then ebind (AVL_newNode E key s st) (\<lambda>(nnode, st).
           ebind (WriteNode E key nnode st) (\<lambda>(p, st). Inr ((nkey nnode, p), st)))
      else
        ebind (ReadNode E rootKey pos pos st) (\<lambda>(nd, st).
          case nd of
            None \<Rightarrow> Inl NullDeref
          | Some node \<Rightarrow>
              if bid_lt key (nkey node)
              then ebind (AVL_insert E dv fuel (nleftID node) (nleftPos node) key s st) (\<lambda>((c, p), st).
                   rebalance E rootKey key pos
                     (cache_modify rootKey (\<lambda>n. n\<lparr>nleftID := c, nleftPos := p\<rparr>) st))
              else if bid_gt key (nkey node)
              then ebind (AVL_insert E dv fuel (nrightID node) (nrightPos node) key s st) (\<lambda>((c, p), st).
                   rebalance E rootKey key pos
                     (cache_modify rootKey (\<lambda>n. n\<lparr>nrightID := c, nrightPos := p\<rparr>) st))
              else ebind (value_bytes s) (\<lambda>v.
                   let st = cache_modify rootKey (\<lambda>n. n\<lparr>nvalue := v\<rparr>) st in
                   ebind (WriteNode E rootKey (node\<lparr>nvalue := v\<rparr>) st) (\<lambda>(_, st).
                   Inr ((nkey node, pos), st)))))"

section \<open>Lookup\<close>

text \<open>
  \<open>head\<close> is the node the pointer argument refers to, \<open>None\<close> for a null pointer; only its key
  and position are read. Where the subtree is empty the static schemes return a null pointer,
  the others the argument.
\<close>

fun AVL_search :: "env \<Rightarrow> int \<Rightarrow> nat \<Rightarrow> node option \<Rightarrow> bid \<Rightarrow> oram \<Rightarrow> (node option \<times> oram) res" where
  "AVL_search E dv 0 head key st = Inl OutOfFuel"
| "AVL_search E dv (Suc fuel) head key st =
     (case head of
        None \<Rightarrow> Inr (None, st)
      | Some h \<Rightarrow>
          if bid_eq_int (nkey h) 0 \<or> is_stale E dv (nkey h)
          then Inr (if e_scheme E = Static then None else head, st)
          else
            ebind (ReadNode E (nkey h) (npos h) (npos h) st) (\<lambda>(nd, st).
              case nd of
                None \<Rightarrow> Inl NullDeref
              | Some n \<Rightarrow>
                  if bid_gt (nkey n) key
                  then ebind (ReadNode E (nleftID n) (nleftPos n) (nleftPos n) st) (\<lambda>(c, st).
                       AVL_search E dv fuel c key st)
                  else if bid_lt (nkey n) key
                  then ebind (ReadNode E (nrightID n) (nrightPos n) (nrightPos n) st) (\<lambda>(c, st).
                       AVL_search E dv fuel c key st)
                  else Inr (Some n, st)))"

text \<open>
  \<open>batchSearch\<close> splits the keys at every node and collects the nodes found; it descends into
  a side only if some key belongs there.
\<close>

fun AVL_batchSearch :: "env \<Rightarrow> nat \<Rightarrow> node option \<Rightarrow> bid list \<Rightarrow> node list \<Rightarrow> oram
    \<Rightarrow> (node list \<times> oram) res" where
  "AVL_batchSearch E 0 head keys results st = Inl OutOfFuel"
| "AVL_batchSearch E (Suc fuel) head keys results st =
     (case head of
        None \<Rightarrow> Inr (results, st)
      | Some h \<Rightarrow>
          if bid_eq_int (nkey h) 0 then Inr (results, st)
          else
            ebind (ReadNode E (nkey h) (npos h) (npos h) st) (\<lambda>(nd, st).
              case nd of
                None \<Rightarrow> Inl NullDeref
              | Some n \<Rightarrow>
                  let leftkeys = filter (\<lambda>b. bid_gt (nkey n) b) keys;
                      rightkeys = filter (\<lambda>b. bid_lt (nkey n) b) keys;
                      results = results @ replicate (length (filter (\<lambda>b. bid_eq (nkey n) b) keys)) n
                  in ebind
                       (if leftkeys \<noteq> []
                        then ebind (ReadNode E (nleftID n) (nleftPos n) (nleftPos n) st) (\<lambda>(c, st).
                             AVL_batchSearch E fuel c leftkeys results st)
                        else Inr (results, st)) (\<lambda>(results, st).
                     if rightkeys \<noteq> []
                     then ebind (ReadNode E (nrightID n) (nrightPos n) (nrightPos n) st) (\<lambda>(c, st).
                          AVL_batchSearch E fuel c rightkeys results st)
                     else Inr (results, st))))"

section \<open>Counters kept in values\<close>

text \<open>
  The \<open>increment\<dots>\<close> members of the four copies walk down to the key and replace the value by
  a function \<open>f\<close> of the old one, returning the old one: all 16 bytes of it, trailing zeros
  included. An absent key gives the empty string.
\<close>

definition rewrite_value :: "(string \<Rightarrow> string res) \<Rightarrow> env \<Rightarrow> bid \<Rightarrow> node \<Rightarrow> oram \<Rightarrow> (string \<times> oram) res" where
  "rewrite_value f E key n st =
     (let res = bytes_string (nvalue n)
      in ebind (f res) (\<lambda>newval.
         ebind (value_bytes newval) (\<lambda>v.
         let st = cache_modify (nkey n) (\<lambda>n. n\<lparr>nvalue := v\<rparr>) st
         in ebind (WriteNode E key (n\<lparr>nvalue := v\<rparr>) st) (\<lambda>(_, st). Inr (res, st)))))"

fun AVL_rewrite :: "(string \<Rightarrow> string res) \<Rightarrow> env \<Rightarrow> int \<Rightarrow> nat \<Rightarrow> node option \<Rightarrow> bid \<Rightarrow> oram
    \<Rightarrow> (string \<times> oram) res" where
  "AVL_rewrite f E dv 0 head key st = Inl OutOfFuel"
| "AVL_rewrite f E dv (Suc fuel) head key st =
     (case head of
        None \<Rightarrow> Inr ([], st)
      | Some h \<Rightarrow>
          if bid_eq_int (nkey h) 0 \<or> is_stale E dv (nkey h) then Inr ([], st)
          else
            ebind (ReadNode E (nkey h) (npos h) (npos h) st) (\<lambda>(nd, st).
              case nd of
                None \<Rightarrow> Inl NullDeref
              | Some n \<Rightarrow>
                  if bid_gt (nkey n) key
                  then ebind (ReadNode E (nleftID n) (nleftPos n) (nleftPos n) st) (\<lambda>(c, st).
                       AVL_rewrite f E dv fuel c key st)
                  else if bid_lt (nkey n) key
                  then ebind (ReadNode E (nrightID n) (nrightPos n) (nrightPos n) st) (\<lambda>(c, st).
                       AVL_rewrite f E dv fuel c key st)
                  else rewrite_value f E key n st))"

text \<open>\<open>to_string(stoi(s) + d)\<close>; the sum is an \<open>int\<close>.\<close>

definition bump_str :: "int \<Rightarrow> string \<Rightarrow> string res" where
  "bump_str d s = ebind (stoi s) (\<lambda>c. if int32 (c + d) then Inr (to_string (c + d)) else Inl OutOfRange)"

text \<open>The two parts of a value \<open>"a-b"\<close>.\<close>

definition split2 :: "string \<Rightarrow> (string \<times> string) res" where
  "split2 s = (case splitData s ''-'' of Some (a # b # _) \<Rightarrow> Inr (a, b) | _ \<Rightarrow> Inl BadIndex)"

definition bump_first :: "string \<Rightarrow> string res" where
  "bump_first s = ebind (split2 s) (\<lambda>(a, b). ebind (bump_str 1 a) (\<lambda>a'. Inr (a' @ ''-'' @ b)))"

definition bump_second :: "string \<Rightarrow> string res" where
  "bump_second s = ebind (split2 s) (\<lambda>(a, b). ebind (bump_str 1 b) (\<lambda>b'. Inr (a @ ''-'' @ b')))"

definition static_incrementCnt :: "env \<Rightarrow> int \<Rightarrow> nat \<Rightarrow> node option \<Rightarrow> bid \<Rightarrow> oram \<Rightarrow> (string \<times> oram) res" where
  "static_incrementCnt = AVL_rewrite (bump_str 1)"

definition mitra_incrementFileCnt :: "env \<Rightarrow> int \<Rightarrow> nat \<Rightarrow> node option \<Rightarrow> bid \<Rightarrow> oram \<Rightarrow> (string \<times> oram) res" where
  "mitra_incrementFileCnt = AVL_rewrite bump_first"

definition qos_incrementSrcCnt :: "env \<Rightarrow> int \<Rightarrow> nat \<Rightarrow> node option \<Rightarrow> bid \<Rightarrow> oram \<Rightarrow> (string \<times> oram) res" where
  "qos_incrementSrcCnt = AVL_rewrite bump_first"

definition horus_incrementSrcCnt :: "env \<Rightarrow> int \<Rightarrow> nat \<Rightarrow> node option \<Rightarrow> bid \<Rightarrow> oram \<Rightarrow> (string \<times> oram) res" where
  "horus_incrementSrcCnt = AVL_rewrite (bump_str 1)"

definition horus_incrementUpdtCnt :: "env \<Rightarrow> int \<Rightarrow> nat \<Rightarrow> node option \<Rightarrow> bid \<Rightarrow> oram \<Rightarrow> (string \<times> oram) res" where
  "horus_incrementUpdtCnt = AVL_rewrite (bump_str 1)"

definition horus_decrementUpdtCnt :: "env \<Rightarrow> int \<Rightarrow> nat \<Rightarrow> node option \<Rightarrow> bid \<Rightarrow> oram \<Rightarrow> (string \<times> oram) res" where
  "horus_decrementUpdtCnt = AVL_rewrite (bump_str (- 1))"

text \<open>
  QOS' \<open>incrementAwCnt\<close> handles the root itself but descends with \<open>incrementSrcCnt\<close>: below the
  root it is the first part of the value that is incremented.
\<close>

definition qos_incrementAwCnt :: "env \<Rightarrow> int \<Rightarrow> nat \<Rightarrow> node option \<Rightarrow> bid \<Rightarrow> oram \<Rightarrow> (string \<times> oram) res" where
  "qos_incrementAwCnt E dv fuel head key st =
     (case head of
        None \<Rightarrow> Inr ([], st)
      | Some h \<Rightarrow>
          if bid_eq_int (nkey h) 0 then Inr ([], st)
          else
            ebind (ReadNode E (nkey h) (npos h) (npos h) st) (\<lambda>(nd, st).
              case nd of
                None \<Rightarrow> Inl NullDeref
              | Some n \<Rightarrow>
                  if bid_gt (nkey n) key
                  then ebind (ReadNode E (nleftID n) (nleftPos n) (nleftPos n) st) (\<lambda>(c, st).
                       qos_incrementSrcCnt E dv fuel c key st)
                  else if bid_lt (nkey n) key
                  then ebind (ReadNode E (nrightID n) (nrightPos n) (nrightPos n) st) (\<lambda>(c, st).
                       qos_incrementSrcCnt E dv fuel c key st)
                  else rewrite_value bump_second E key n st))"

section \<open>Bulk construction\<close>

text \<open>
  \<open>sortedArrayToBST\<close> links the nodes of \<open>setupNodes[start .. end]\<close> into a balanced tree and
  returns its height, position and root identifier.
\<close>

function sortedArrayToBST :: "env \<Rightarrow> int \<Rightarrow> int \<Rightarrow> node list \<Rightarrow> oram
    \<Rightarrow> (int \<times> int \<times> bid) \<times> node list \<times> oram" where
  "sortedArrayToBST E start fin nodes st =
     (if start > fin then ((0, - 1, Bid_int (ID_SIZE (e_scheme E)) 0), nodes, st)
      else
        let mid = (start + fin) div 2;
            ((lh, lp, lk), nodes, st) = sortedArrayToBST E start (mid - 1) nodes st;
            nodes = nodes[nat mid := (nodes ! nat mid)\<lparr>nleftPos := lp, nleftID := lk\<rparr>];
            ((rh, rp, rk), nodes, st) = sortedArrayToBST E (mid + 1) fin nodes st;
            (p, st) = AVL_RandomPath E st;
            root = (nodes ! nat mid)\<lparr>nrightPos := rp, nrightID := rk, npos := p, nheight := AVL_max lh rh + 1\<rparr>;
            nodes = nodes[nat mid := root]
        in ((nheight root, npos root, nkey root), nodes, st))"
  by pat_completeness auto

termination
  by (relation "measure (\<lambda>(E, start, fin, nodes, st). nat (fin + 1 - start))") auto

declare sortedArrayToBST.simps [simp del]

fun make_nodes :: "env \<Rightarrow> int \<Rightarrow> (bid \<times> string) list \<Rightarrow> oram \<Rightarrow> (node list \<times> oram) res" where
  "make_nodes E dv [] st = Inr ([], st)"
| "make_nodes E dv ((k, s) # ps) st =
     (if is_stale E dv k then make_nodes E dv ps st
      else ebind (AVL_newNode E k s st) (\<lambda>(n, st).
           ebind (make_nodes E dv ps st) (\<lambda>(ns, st). Inr (n # ns, st))))"

text \<open>
  \<open>setupInsert\<close> on the pairs of the \<open>std::map\<close> in key order; nodes left in \<open>setupNodes\<close> by an
  earlier call come first. It returns the root identifier and position.
\<close>

definition AVL_setupInsert :: "env \<Rightarrow> int \<Rightarrow> node list \<Rightarrow> (bid \<times> string) list \<Rightarrow> oram
    \<Rightarrow> (bid \<times> int \<times> node list \<times> oram) res" where
  "AVL_setupInsert E dv setupNodes pairs st =
     ebind (make_nodes E dv pairs st) (\<lambda>(ns, st).
     let nodes = setupNodes @ ns;
         ((_, rootPos, rootKey), nodes, st) = sortedArrayToBST E 0 (int (length nodes) - 1) nodes st
     in ebind (ORAM_setupInsert E nodes st) (\<lambda>st. Inr (rootKey, rootPos, nodes, st)))"

end
