(* ===== verification/Omap.thy ===== *)
theory Omap
  imports Avl_Tree
begin

text \<open>
  The oblivious map \<open>OMAP\<close> (\<open>OMAP.h\<close>, \<open>OMAP.cpp\<close>): the root of an AVL tree and the tree
  handler. Every operation is bracketed by \<open>startOperation\<close> and \<open>finishOperation\<close>, that is by
  \<open>ORAM::start\<close> and \<open>ORAM::finilize\<close>. \<open>fuel\<close> bounds the depth of the tree recursions.
\<close>

record omap =
  m_rootKey :: bid
  m_rootPos :: int
  m_oram :: oram
  m_dummyValue :: int
  m_setupNodes :: "node list"

definition OMAP_new :: "env \<Rightarrow> nat \<Rightarrow> bytes \<Rightarrow> omap res" where
  "OMAP_new E maxSize key =
     ebind (ORAM_new E maxSize key) (\<lambda>st.
     Inr \<lparr>m_rootKey = Bid_int (ID_SIZE (e_scheme E)) 0, m_rootPos = e_uninit E, m_oram = st,
          m_dummyValue = 0, m_setupNodes = []\<rparr>)"

text \<open>The node that \<open>find\<close> and its kin allocate to start a traversal at the root.\<close>

definition root_stub :: "env \<Rightarrow> omap \<Rightarrow> node" where
  "root_stub E m =
     \<lparr>nkey = m_rootKey m, nvalue = replicate 16 0, npos = m_rootPos m,
      nleftID = Bid_default (ID_SIZE (e_scheme E)), nleftPos = e_uninit E,
      nrightID = Bid_default (ID_SIZE (e_scheme E)), nrightPos = e_uninit E,
      nevictionNode = e_uninit E, nheight = e_uninit E\<rparr>"

definition startOperation :: "bool \<Rightarrow> omap \<Rightarrow> omap" where
  "startOperation batchWrite m = m\<lparr>m_oram := ORAM_start batchWrite (m_oram m)\<rparr>"

definition finishOperation :: "env \<Rightarrow> bool \<Rightarrow> omap \<Rightarrow> omap res" where
  "finishOperation E isFind m =
     ebind (finilize E isFind (m_rootKey m) (m_rootPos m) (m_oram m)) (\<lambda>(p, st).
     Inr (m\<lparr>m_rootPos := p, m_oram := st\<rparr>))"

definition OMAP_find :: "env \<Rightarrow> nat \<Rightarrow> bid \<Rightarrow> omap \<Rightarrow> (string \<times> omap) res" where
  "OMAP_find E fuel key m =
     (if bid_eq_int (m_rootKey m) 0 then Inr ([], m)
      else
        let m = startOperation False m
        in ebind (AVL_search E (m_dummyValue m) fuel (Some (root_stub E m)) key (m_oram m)) (\<lambda>(resNode, st).
           let res = (case resNode of None \<Rightarrow> [] | Some n \<Rightarrow> c_str (bytes_string (nvalue n)))
           in ebind (finishOperation E True (m\<lparr>m_oram := st\<rparr>)) (\<lambda>m. Inr (res, m))))"

text \<open>\<open>rootKey = treeHandler->insert(rootKey, rootPos, key, value)\<close>, with a literal 0 for an empty tree.\<close>

definition tree_insert :: "env \<Rightarrow> nat \<Rightarrow> bid \<Rightarrow> string \<Rightarrow> omap \<Rightarrow> omap res" where
  "tree_insert E fuel key s m =
     ebind (AVL_insert E (m_dummyValue m) fuel
              (if bid_eq_int (m_rootKey m) 0 then Bid_int (ID_SIZE (e_scheme E)) 0 else m_rootKey m)
              (m_rootPos m) key s (m_oram m)) (\<lambda>((k, p), st).
     Inr (m\<lparr>m_rootKey := k, m_rootPos := p, m_oram := st\<rparr>))"

definition OMAP_insert :: "env \<Rightarrow> nat \<Rightarrow> bid \<Rightarrow> string \<Rightarrow> omap \<Rightarrow> omap res" where
  "OMAP_insert E fuel key s m =
     ebind (tree_insert E fuel key s (startOperation False m)) (finishOperation E False)"

text \<open>The pairs of a \<open>std::map\<close>, an association list here, are visited in key order.\<close>

fun tree_inserts :: "env \<Rightarrow> nat \<Rightarrow> (bid \<times> string) list \<Rightarrow> omap \<Rightarrow> omap res" where
  "tree_inserts E fuel [] m = Inr m"
| "tree_inserts E fuel ((k, s) # ps) m = ebind (tree_insert E fuel k s m) (tree_inserts E fuel ps)"

definition OMAP_batchInsert :: "env \<Rightarrow> nat \<Rightarrow> (bid \<times> string) list \<Rightarrow> omap \<Rightarrow> omap res" where
  "OMAP_batchInsert E fuel pairs m =
     ebind (tree_inserts E fuel (sort_key fst pairs) (startOperation True m)) (finishOperation E False)"

definition OMAP_batchSearch :: "env \<Rightarrow> nat \<Rightarrow> bid list \<Rightarrow> omap \<Rightarrow> (string list \<times> omap) res" where
  "OMAP_batchSearch E fuel keys m =
     (let m = startOperation False m
      in ebind (AVL_batchSearch E fuel (Some (root_stub E m)) keys [] (m_oram m)) (\<lambda>(resNodes, st).
         ebind (finishOperation E True (m\<lparr>m_oram := st\<rparr>)) (\<lambda>m.
         Inr (map (\<lambda>n. bytes_string (nvalue n)) resNodes, m))))"

definition OMAP_setupInsert :: "env \<Rightarrow> (bid \<times> string) list \<Rightarrow> omap \<Rightarrow> omap res" where
  "OMAP_setupInsert E pairs m =
     ebind (AVL_setupInsert E (m_dummyValue m) (m_setupNodes m) (sort_key fst pairs) (m_oram m)) (\<lambda>(k, p, ns, st).
     Inr (m\<lparr>m_rootKey := k, m_rootPos := p, m_setupNodes := ns, m_oram := st\<rparr>))"

definition setDummy :: "int \<Rightarrow> omap \<Rightarrow> omap" where
  "setDummy i m = m\<lparr>m_oram := (m_oram m)\<lparr>o_dummyValue := i\<rparr>, m_dummyValue := i\<rparr>"

section \<open>Counter operations of the four schemes\<close>

text \<open>
  All of them run an \<open>increment\<dots>\<close> member of the tree handler; some insert an initial value
  when the key is absent, and they differ in the padding (\<open>isFind\<close>) they finish with.
\<close>

definition run_rewrite :: "(env \<Rightarrow> int \<Rightarrow> nat \<Rightarrow> node option \<Rightarrow> bid \<Rightarrow> oram \<Rightarrow> (string \<times> oram) res)
    \<Rightarrow> env \<Rightarrow> nat \<Rightarrow> bid \<Rightarrow> omap \<Rightarrow> (string \<times> omap) res" where
  "run_rewrite op E fuel key m =
     (let m = startOperation False m
      in ebind (op E (m_dummyValue m) fuel (Some (root_stub E m)) key (m_oram m)) (\<lambda>(res, st).
         Inr (res, m\<lparr>m_oram := st\<rparr>)))"

definition insert_as_is :: "env \<Rightarrow> nat \<Rightarrow> bid \<Rightarrow> string \<Rightarrow> omap \<Rightarrow> omap res" where
  "insert_as_is E fuel key s m =
     ebind (AVL_insert E (m_dummyValue m) fuel (m_rootKey m) (m_rootPos m) key s (m_oram m)) (\<lambda>((k, p), st).
     Inr (m\<lparr>m_rootKey := k, m_rootPos := p, m_oram := st\<rparr>))"

definition static_OMAP_incrementCnt :: "env \<Rightarrow> nat \<Rightarrow> bid \<Rightarrow> omap \<Rightarrow> (string \<times> omap) res" where
  "static_OMAP_incrementCnt E fuel key m =
     ebind (run_rewrite static_incrementCnt E fuel key m) (\<lambda>(res, m).
     ebind (if res = [] then insert_as_is E fuel key ''1'' m else Inr m) (\<lambda>m.
     ebind (finishOperation E False m) (\<lambda>m. Inr (res, m))))"

definition mitra_OMAP_incrementFileCnt :: "env \<Rightarrow> nat \<Rightarrow> bid \<Rightarrow> omap \<Rightarrow> (string \<times> omap) res" where
  "mitra_OMAP_incrementFileCnt E fuel key m =
     ebind (run_rewrite mitra_incrementFileCnt E fuel key m) (\<lambda>(res, m).
     ebind (if res = [] then ebind (insert_as_is E fuel key ''1-0'' m) (\<lambda>m. Inr (''0-0'', m))
            else Inr (res, m)) (\<lambda>(res, m).
     ebind (finishOperation E True m) (\<lambda>m. Inr (res, m))))"

definition qos_OMAP_incrementSrcCnt :: "env \<Rightarrow> nat \<Rightarrow> bid \<Rightarrow> omap \<Rightarrow> (string \<times> omap) res" where
  "qos_OMAP_incrementSrcCnt E fuel key m =
     ebind (run_rewrite qos_incrementSrcCnt E fuel key m) (\<lambda>(res, m).
     ebind (finishOperation E True m) (\<lambda>m. Inr (res, m)))"

definition qos_OMAP_incrementAwCnt :: "env \<Rightarrow> nat \<Rightarrow> bid \<Rightarrow> omap \<Rightarrow> (string \<times> omap) res" where
  "qos_OMAP_incrementAwCnt E fuel key m =
     ebind (run_rewrite qos_incrementAwCnt E fuel key m) (\<lambda>(res, m).
     ebind (if res = [] then insert_as_is E fuel key ''0-0'' m else Inr m) (\<lambda>m.
     ebind (finishOperation E True m) (\<lambda>m. Inr (res, m))))"

definition horus_OMAP_incrementSrcCnt :: "env \<Rightarrow> nat \<Rightarrow> bid \<Rightarrow> omap \<Rightarrow> (string \<times> omap) res" where
  "horus_OMAP_incrementSrcCnt E fuel key m =
     ebind (run_rewrite horus_incrementSrcCnt E fuel key m) (\<lambda>(res, m).
     ebind (finishOperation E True m) (\<lambda>m. Inr (res, m)))"

definition horus_OMAP_incrementUpdtCnt :: "env \<Rightarrow> nat \<Rightarrow> bid \<Rightarrow> omap \<Rightarrow> (string \<times> omap) res" where
  "horus_OMAP_incrementUpdtCnt E fuel key m =
     ebind (run_rewrite horus_incrementUpdtCnt E fuel key m) (\<lambda>(res, m).
     ebind (finishOperation E True m) (\<lambda>m. Inr (res, m)))"

definition horus_OMAP_decrementUpdtCnt :: "env \<Rightarrow> nat \<Rightarrow> bid \<Rightarrow> omap \<Rightarrow> (string \<times> omap) res" where
  "horus_OMAP_decrementUpdtCnt E fuel key m =
     ebind (run_rewrite horus_decrementUpdtCnt E fuel key m) (\<lambda>(res, m).
     ebind (finishOperation E True m) (\<lambda>m. Inr (res, m)))"

end
