(* ===== verification/De_Amortized.thy ===== *)
theory De_Amortized
  imports Amortized Omap
begin

text \<open>
  The de-amortized static scheme: \<open>DeAmortizedBASServer\<close>, \<open>DeAmortizedBASClient\<close> and
  \<open>DeAmortized\<close> (\<open>static/\<close>). Every level has four instances (oldest, older, old, new); each
  update moves one record of every level with two full instances into the new instance of the
  next level, and a new instance that is full replaces one of the other three.

  The server holds pointers to its sets; \<open>copy\<close> shares one, but every caller clears the source
  right after, which replaces its pointer by a fresh set, so the sets are modelled as values.
\<close>

section \<open>The server\<close>

text \<open>\<open>data[instance][index]\<close> of a two-dimensional vector and its update.\<close>

definition at2 :: "'a list list \<Rightarrow> nat \<Rightarrow> nat \<Rightarrow> 'a res" where
  "at2 xss j i = (if j < length xss \<and> i < length (xss ! j) then Inr (xss ! j ! i) else Inl BadIndex)"

definition upd2 :: "'a list list \<Rightarrow> nat \<Rightarrow> nat \<Rightarrow> 'a \<Rightarrow> 'a list list" where
  "upd2 xss j i x = xss[j := (xss ! j)[i := x]]"

definition put2 :: "nat \<Rightarrow> nat \<Rightarrow> 'a \<Rightarrow> 'a list list \<Rightarrow> 'a list list res" where
  "put2 j i x xss = ebind (at2 xss j i) (\<lambda>_. Inr (upd2 xss j i x))"

definition DeAmortizedBASServer_new :: "nat \<Rightarrow> dict list list" where
  "DeAmortizedBASServer_new dataIndex = replicate 4 (replicate dataIndex [])"

definition dbas_storeCiphers :: "nat \<Rightarrow> nat \<Rightarrow> dict \<Rightarrow> dict list list \<Rightarrow> dict list list res" where
  "dbas_storeCiphers j i ciphers srv =
     ebind (at2 srv j i) (\<lambda>d. Inr (upd2 srv j i (um_insert_range ciphers d)))"

definition dbas_search :: "senv \<Rightarrow> nat \<Rightarrow> nat \<Rightarrow> bytes \<Rightarrow> dict list list \<Rightarrow> bytes list res" where
  "dbas_search S j i tok srv =
     ebind (at2 srv j i) (\<lambda>d. loop_res (bas_search_loop S d tok 1 []))"

definition dbas_getAllData :: "senv \<Rightarrow> nat \<Rightarrow> nat \<Rightarrow> dict list list \<Rightarrow> bytes list res" where
  "dbas_getAllData S j i srv = ebind (at2 srv j i) (\<lambda>d. Inr (map snd (s_iter S d)))"

definition dbas_clear :: "nat \<Rightarrow> nat \<Rightarrow> dict list list \<Rightarrow> dict list list res" where
  "dbas_clear j i srv = put2 j i [] srv"

definition dbas_copy :: "nat \<Rightarrow> nat \<Rightarrow> nat \<Rightarrow> nat \<Rightarrow> dict list list \<Rightarrow> dict list list res" where
  "dbas_copy fj fi tj ti srv = ebind (at2 srv fj fi) (\<lambda>d. put2 tj ti d srv)"

definition dbas_size :: "nat \<Rightarrow> nat \<Rightarrow> dict list list \<Rightarrow> nat res" where
  "dbas_size j i srv = ebind (at2 srv j i) (\<lambda>d. Inr (length d))"

definition dbas_get :: "senv \<Rightarrow> nat \<Rightarrow> nat \<Rightarrow> nat \<Rightarrow> dict list list \<Rightarrow> bytes res" where
  "dbas_get S j i pos srv =
     ebind (at2 srv j i) (\<lambda>d. let it = s_iter S d in
       if pos < length it then Inr (snd (it ! pos)) else Inl BadIndex)"

definition dbas_add :: "nat \<Rightarrow> nat \<Rightarrow> bytes \<times> bytes \<Rightarrow> dict list list \<Rightarrow> dict list list res" where
  "dbas_add j i kv srv = ebind (at2 srv j i) (\<lambda>d. Inr (upd2 srv j i (AList.update (fst kv) (snd kv) d)))"

section \<open>The client\<close>

record dbas_client =
  dc_server :: "dict list list"
  dc_exist :: "bool list list"

definition DeAmortizedBASClient_new :: "nat \<Rightarrow> dbas_client" where
  "DeAmortizedBASClient_new n =
     \<lparr>dc_server = DeAmortizedBASServer_new n, dc_exist = replicate 4 (replicate n False)\<rparr>"

text \<open>\<open>K1\<close> and \<open>CNT\<close> are the two maps of \<open>setup\<close>; \<open>CNT\<close> starts at 1.\<close>

fun dbas_label :: "senv \<Rightarrow> bytes option \<Rightarrow> (string \<times> bytes) list \<Rightarrow> (string \<times> bytes) list \<Rightarrow> (string \<times> int) list
    \<Rightarrow> dict \<Rightarrow> dict res" where
  "dbas_label S key [] K1 CNT ciphers = Inr ciphers"
| "dbas_label S key ((kw, v) # ps) K1 CNT ciphers =
     ebind (case map_of CNT kw of
              None \<Rightarrow> ebind (encode (s_enc S) key (kw @ ''-1'')) (\<lambda>t. Inr (t, 1))
            | Some c \<Rightarrow> (case map_of K1 kw of None \<Rightarrow> Inl NullDeref | Some t \<Rightarrow> Inr (t, c)))
       (\<lambda>(t, c). let (t', mapKey) = getAESRandomValue S t c in
         ebind (encode_bytes (s_enc S) key v)
           (\<lambda>mapValue. dbas_label S key ps (AList.update kw t' K1) (AList.update kw (c + 1) CNT)
              (AList.update mapKey mapValue ciphers)))"

definition dbas_setup :: "senv \<Rightarrow> nat \<Rightarrow> nat \<Rightarrow> (string \<times> bytes) list \<Rightarrow> bytes option \<Rightarrow> dbas_client
    \<Rightarrow> dbas_client res" where
  "dbas_setup S j i pairs key c =
     ebind (dbas_clear j i (dc_server c)) (\<lambda>srv.
     ebind (put2 j i True (dc_exist c)) (\<lambda>ex.
     ebind (dbas_label S key pairs [] [] []) (\<lambda>ciphers.
     ebind (dbas_storeCiphers j i ciphers srv) (\<lambda>srv'.
       Inr (c\<lparr>dc_server := srv', dc_exist := ex\<rparr>)))))"

definition dbas_client_add :: "senv \<Rightarrow> nat \<Rightarrow> nat \<Rightarrow> string \<times> bytes \<Rightarrow> int \<Rightarrow> bytes option \<Rightarrow> dbas_client
    \<Rightarrow> dbas_client res" where
  "dbas_client_add S j i kv cnt key c =
     ebind (encode (s_enc S) key (fst kv @ ''-1'')) (\<lambda>K1.
     let mapKey = snd (getAESRandomValue S K1 cnt) in
     ebind (encode_bytes (s_enc S) key (snd kv)) (\<lambda>mapValue.
     ebind (dbas_add j i (mapKey, mapValue) (dc_server c)) (\<lambda>srv. Inr (c\<lparr>dc_server := srv\<rparr>))))"

definition dbas_client_search :: "senv \<Rightarrow> nat \<Rightarrow> nat \<Rightarrow> string \<Rightarrow> bytes option \<Rightarrow> dbas_client \<Rightarrow> bytes list res" where
  "dbas_client_search S j i keyword key c =
     ebind (encode (s_enc S) key (keyword @ ''-1'')) (\<lambda>tok.
     ebind (dbas_search S j i tok (dc_server c))
       (map_res (decode_bytes (s_dec S) (s_stack S) key)))"

definition dbas_client_getAllData :: "senv \<Rightarrow> nat \<Rightarrow> nat \<Rightarrow> bytes option \<Rightarrow> dbas_client \<Rightarrow> bytes list res" where
  "dbas_client_getAllData S j i key c =
     ebind (dbas_getAllData S j i (dc_server c)) (map_res (decode_bytes (s_dec S) (s_stack S) key))"

definition dbas_destry :: "nat \<Rightarrow> nat \<Rightarrow> dbas_client \<Rightarrow> dbas_client res" where
  "dbas_destry j i c =
     ebind (dbas_clear j i (dc_server c)) (\<lambda>srv.
     ebind (put2 j i False (dc_exist c)) (\<lambda>ex. Inr (c\<lparr>dc_server := srv, dc_exist := ex\<rparr>)))"

definition dbas_client_copy :: "nat \<Rightarrow> nat \<Rightarrow> nat \<Rightarrow> nat \<Rightarrow> dbas_client \<Rightarrow> dbas_client res" where
  "dbas_client_copy fj fi tj ti c =
     ebind (dbas_copy fj fi tj ti (dc_server c)) (\<lambda>srv.
     ebind (dbas_size tj ti srv) (\<lambda>n.
     if 0 < n then ebind (put2 tj ti True (dc_exist c)) (\<lambda>ex. Inr (c\<lparr>dc_server := srv, dc_exist := ex\<rparr>))
     else Inr (c\<lparr>dc_server := srv\<rparr>)))"

definition dbas_client_size :: "nat \<Rightarrow> nat \<Rightarrow> dbas_client \<Rightarrow> nat res" where
  "dbas_client_size j i c = dbas_size j i (dc_server c)"

definition dbas_client_get :: "senv \<Rightarrow> nat \<Rightarrow> nat \<Rightarrow> nat \<Rightarrow> bytes option \<Rightarrow> dbas_client \<Rightarrow> bytes res" where
  "dbas_client_get S j i pos key c =
     ebind (dbas_get S j i pos (dc_server c)) (decode_bytes (s_dec S) (s_stack S) key)"

section \<open>The scheme\<close>

text \<open>
  Parameters besides those of the dictionaries: the environment of the oblivious maps with a
  bound on their recursion depth, and the iteration order of \<open>unordered_map<string, prf_type>\<close>.
\<close>

record denv =
  d_S :: senv
  d_E :: env
  d_fuel :: nat
  d_iter :: "(string \<times> bytes) list \<Rightarrow> (string \<times> bytes) list"

record deamortized =
  d_l :: nat
  d_keys :: "bytes list list"
  d_cnt :: "nat list"
  d_omaps :: "omap list"
  d_setupOMAPS :: "(bid \<times> string) list list"
  d_setupOMAPSDummies :: "int list"
  d_L :: dbas_client
  d_data :: "(string \<times> bytes) list list list"
  d_localmap :: "(string \<times> string) list list"
  d_updateCounter :: int
  d_keyCnt :: nat

definition DeAmortized_new :: "denv \<Rightarrow> nat \<Rightarrow> deamortized res" where
  "DeAmortized_new D N =
     (let l = ceil_log2 N in
      ebind (map_res (\<lambda>i. OMAP_new (d_E D) (max (2 ^ i) 4) (replicate 16 0)) [0..<l])
        (\<lambda>omaps. Inr \<lparr>d_l = l,
           d_keys = map (\<lambda>j. map (\<lambda>i. s_newkey (d_S D) (j * l + i)) [0..<l]) [0..<4],
           d_cnt = replicate l 0, d_omaps = omaps, d_setupOMAPS = replicate l [],
           d_setupOMAPSDummies = replicate l 0, d_L = DeAmortizedBASClient_new l,
           d_data = replicate 4 (replicate localSize []), d_localmap = replicate localSize [],
           d_updateCounter = 0, d_keyCnt = 4 * l\<rparr>))"

definition DeAmortized_getBid :: "string \<Rightarrow> int \<Rightarrow> bid res" where
  "DeAmortized_getBid input cnt =
     ebind (copy_at 0 (string_bytes input) (replicate 16 0))
       (\<lambda>val. Inr (Bid_array (put_int (AES_KEY_SIZE - 4) cnt val)))"

definition getElementAt :: "denv \<Rightarrow> nat \<Rightarrow> nat \<Rightarrow> nat \<Rightarrow> deamortized \<Rightarrow> bytes res" where
  "getElementAt D j i pos st =
     ebind (at2 (d_data st) j i) (\<lambda>m. let it = d_iter D m in
       if pos < length it then Inr (snd (it ! pos)) else Inl BadIndex)"

text \<open>The counter of rebuilds: \<open>(int) ceil((updateCounter - (6 * 2^(i-1) - 2)) / 2^i) + 1\<close>.\<close>

definition upCnt :: "int \<Rightarrow> nat \<Rightarrow> int" where
  "upCnt u i = - ((- (u - (6 * 2 ^ (i - 1) - 2))) div 2 ^ i) + 1"

definition is_full_pair :: "nat \<Rightarrow> deamortized \<Rightarrow> bool res" where
  "is_full_pair i st =
     (if localSize < i then
        ebind (at2 (dc_exist (d_L st)) 0 (i - 1)) (\<lambda>a. ebind (at2 (dc_exist (d_L st)) 1 (i - 1)) (\<lambda>b. Inr (a \<and> b)))
      else ebind (at2 (d_data st) 0 (i - 1)) (\<lambda>a. ebind (at2 (d_data st) 1 (i - 1)) (\<lambda>b.
        Inr (a \<noteq> [] \<and> b \<noteq> []))))"

text \<open>The record that level \<open>i\<close> takes over next.\<close>

definition next_element :: "denv \<Rightarrow> nat \<Rightarrow> deamortized \<Rightarrow> bytes res" where
  "next_element D i st =
     (let c = d_cnt st ! i; half = 2 ^ (i - 1);
          j = (if c < half then 0 else 1); pos = (if c < half then c else c mod half)
      in if i \<le> localSize then getElementAt D j (i - 1) pos st
         else ebind (at2 (d_keys st) j (i - 1))
           (\<lambda>k. dbas_client_get (d_S D) j (i - 1) pos (Some k) (d_L st)))"

text \<open>
  The occurrence counter of the keyword in the instance under construction: in \<open>localmap\<close>, in the
  set-up map, or in the oblivious map, which increments it itself.
\<close>

definition bump_text :: "string \<Rightarrow> string res" where
  "bump_text c = (if c = [] then Inr ''1'' else ebind (stoi c) (\<lambda>n. Inr (to_string (n + 1))))"

definition lookup_text :: "'k \<Rightarrow> ('k \<times> string) list \<Rightarrow> string" where
  "lookup_text k m = (case map_of m k of None \<Rightarrow> [] | Some s \<Rightarrow> s)"

definition bump_counter :: "denv \<Rightarrow> bool \<Rightarrow> nat \<Rightarrow> string \<Rightarrow> int \<Rightarrow> deamortized \<Rightarrow> (string \<times> deamortized) res" where
  "bump_counter D setup i kw up st =
     (if i < localSize then
        let k = kw @ ''-'' @ to_string up; m = d_localmap st ! i in
        ebind (bump_text (lookup_text k m))
          (\<lambda>c. Inr (c, st\<lparr>d_localmap := (d_localmap st)[i := AList.update k c m]\<rparr>))
      else ebind (DeAmortized_getBid kw up) (\<lambda>b.
        if setup then
          let m = d_setupOMAPS st ! i in
          ebind (bump_text (lookup_text b m))
            (\<lambda>c. Inr (c, st\<lparr>d_setupOMAPS := (d_setupOMAPS st)[i := AList.update b c m]\<rparr>))
        else ebind (static_OMAP_incrementCnt (d_E D) (d_fuel D) b (d_omaps st ! i)) (\<lambda>(old, m).
          ebind (bump_text old) (\<lambda>c. Inr (c, st\<lparr>d_omaps := (d_omaps st)[i := m]\<rparr>)))))"

definition add_element :: "denv \<Rightarrow> nat \<Rightarrow> string \<Rightarrow> string \<Rightarrow> bytes \<Rightarrow> deamortized \<Rightarrow> deamortized res" where
  "add_element D i kw c x st =
     (if i < localSize then
        ebind (at2 (d_data st) 3 i) (\<lambda>m.
          Inr (st\<lparr>d_data := upd2 (d_data st) 3 i (AList.update (kw @ ''-'' @ c) x m)\<rparr>))
      else ebind (stoi c) (\<lambda>n. ebind (at2 (d_keys st) 3 i) (\<lambda>k.
        ebind (dbas_client_add (d_S D) 3 i (kw, x) n (Some k) (d_L st)) (\<lambda>L. Inr (st\<lparr>d_L := L\<rparr>)))))"

definition new_is_full :: "nat \<Rightarrow> deamortized \<Rightarrow> bool res" where
  "new_is_full i st =
     (if localSize \<le> i then ebind (dbas_client_size 3 i (d_L st)) (\<lambda>n. Inr (n = 2 ^ i))
      else ebind (at2 (d_data st) 3 i) (\<lambda>m. Inr (length m = 2 ^ i)))"

definition set_dummy :: "bool \<Rightarrow> nat \<Rightarrow> int \<Rightarrow> deamortized \<Rightarrow> deamortized" where
  "set_dummy setup i up st =
     (if setup then st\<lparr>d_setupOMAPSDummies := (d_setupOMAPSDummies st)[i := up]\<rparr>
      else st\<lparr>d_omaps := (d_omaps st)[i := setDummy up (d_omaps st ! i)]\<rparr>)"

text \<open>The source level: instances 0 and 1 are dropped, instance 2 becomes instance 0.\<close>

definition shift_below :: "bool \<Rightarrow> nat \<Rightarrow> string \<Rightarrow> int \<Rightarrow> deamortized \<Rightarrow> deamortized res" where
  "shift_below setup i kw up st =
     (if i \<le> localSize then
        let st = (if i = localSize then set_dummy setup i up st
                  else st\<lparr>d_localmap := (d_localmap st)[i := AList.delete (kw @ ''-'' @ to_string up) (d_localmap st ! i)]\<rparr>)
        in ebind (at2 (d_data st) 2 (i - 1)) (\<lambda>m.
           ebind (put2 0 (i - 1) (um_insert_range m []) (d_data st)) (\<lambda>dat.
           ebind (put2 1 (i - 1) [] dat) (\<lambda>dat. ebind (put2 2 (i - 1) [] dat) (\<lambda>dat. Inr (st\<lparr>d_data := dat\<rparr>)))))
      else
        let st = set_dummy setup i up st in
        ebind (dbas_destry 0 (i - 1) (d_L st)) (\<lambda>L. ebind (dbas_destry 1 (i - 1) L) (\<lambda>L.
        ebind (dbas_client_copy 2 (i - 1) 0 (i - 1) L) (\<lambda>L. ebind (dbas_destry 2 (i - 1) L) (\<lambda>L.
          Inr (st\<lparr>d_L := L\<rparr>))))))"

definition copy_key :: "nat \<Rightarrow> nat \<Rightarrow> nat \<Rightarrow> deamortized \<Rightarrow> deamortized res" where
  "copy_key tj fj i st =
     ebind (at2 (d_keys st) fj i) (\<lambda>k. ebind (put2 tj i k (d_keys st)) (\<lambda>ks. Inr (st\<lparr>d_keys := ks\<rparr>)))"

definition is_free :: "nat \<Rightarrow> nat \<Rightarrow> deamortized \<Rightarrow> bool res" where
  "is_free j i st =
     (if localSize \<le> i then ebind (at2 (dc_exist (d_L st)) j i) (\<lambda>e. Inr (\<not> e))
      else ebind (at2 (d_data st) j i) (\<lambda>m. Inr (m = [])))"

text \<open>The full new instance becomes instance \<open>j\<close>.\<close>

definition promote_to :: "nat \<Rightarrow> nat \<Rightarrow> deamortized \<Rightarrow> deamortized res" where
  "promote_to j i st =
     (if i < localSize then
        ebind (at2 (d_data st) 3 i) (\<lambda>m. ebind (put2 j i (um_insert_range m []) (d_data st)) (\<lambda>dat.
        ebind (put2 3 i [] dat) (\<lambda>dat. copy_key j 3 i (st\<lparr>d_data := dat\<rparr>))))
      else
        ebind (dbas_client_copy 3 i j i (d_L st)) (\<lambda>L. ebind (dbas_destry 3 i L) (\<lambda>L.
        copy_key j 3 i (st\<lparr>d_L := L\<rparr>))))"

definition promote :: "nat \<Rightarrow> deamortized \<Rightarrow> deamortized res" where
  "promote i st =
     ebind (is_free 0 i st) (\<lambda>f0. if f0 then promote_to 0 i st else
     ebind (is_free 1 i st) (\<lambda>f1. if f1 then promote_to 1 i st else
     ebind (is_free 2 i st) (\<lambda>f2. if f2 then promote_to 2 i st else Inr st)))"

definition fresh_key :: "denv \<Rightarrow> nat \<Rightarrow> deamortized \<Rightarrow> deamortized res" where
  "fresh_key D i st =
     (if localSize \<le> i then
        ebind (put2 3 i (s_newkey (d_S D) (d_keyCnt st)) (d_keys st)) (\<lambda>ks.
          Inr (st\<lparr>d_keys := ks, d_keyCnt := d_keyCnt st + 1\<rparr>))
      else Inr st)"

text \<open>One iteration of the loop over the levels in \<open>update\<close>.\<close>

definition level_step :: "denv \<Rightarrow> bool \<Rightarrow> nat \<Rightarrow> deamortized \<Rightarrow> deamortized res" where
  "level_step D setup i st =
     ebind (is_full_pair i st) (\<lambda>ready. if \<not> ready then Inr st else
     ebind (next_element D i st) (\<lambda>x.
     let st = st\<lparr>d_cnt := (d_cnt st)[i := d_cnt st ! i + 1]\<rparr> in
     ebind (array_str x) (\<lambda>curKeyword.
     let up = upCnt (d_updateCounter st) i in
     ebind (bump_counter D setup i curKeyword up st) (\<lambda>(c, st).
     ebind (add_element D i curKeyword c x st) (\<lambda>st.
     ebind (new_is_full i st) (\<lambda>full. if \<not> full then Inr st else
     ebind (shift_below setup i curKeyword up st) (\<lambda>st.
     ebind (copy_key 0 2 (i - 1) st) (\<lambda>st.
     ebind (promote i (st\<lparr>d_cnt := (d_cnt st)[i := 0]\<rparr>)) (\<lambda>st.
     fresh_key D i st)))))))))"

fun level_steps :: "denv \<Rightarrow> bool \<Rightarrow> nat list \<Rightarrow> deamortized \<Rightarrow> deamortized res" where
  "level_steps D setup [] st = Inr st"
| "level_steps D setup (i # is) st = ebind (level_step D setup i st) (level_steps D setup is)"

text \<open>The new record goes to the first empty instance of level 0, or into instance 2.\<close>

definition insert_new :: "string \<Rightarrow> bytes \<Rightarrow> deamortized \<Rightarrow> deamortized res" where
  "insert_new keyword val st =
     ebind (at2 (d_data st) 0 0) (\<lambda>m0. ebind (at2 (d_data st) 1 0) (\<lambda>m1. ebind (at2 (d_data st) 2 0) (\<lambda>m2.
     ebind (at2 (d_data st) 3 0) (\<lambda>m3.
       let new = AList.update (keyword @ ''-1'') val m3;
           j = (if m0 = [] then 0 else if m1 = [] then 1 else 2);
           old = (if m0 = [] then m0 else if m1 = [] then m1 else m2)
       in Inr (st\<lparr>d_data := upd2 (upd2 (d_data st) j 0 (um_insert_range new old)) 3 0 []\<rparr>)))))"

definition DeAmortized_update :: "denv \<Rightarrow> OP \<Rightarrow> string \<Rightarrow> int \<Rightarrow> bool \<Rightarrow> deamortized \<Rightarrow> deamortized res" where
  "DeAmortized_update D op keyword ind setup st =
     ebind (level_steps D setup (rev [1..<d_l st]) (st\<lparr>d_updateCounter := d_updateCounter st + 1\<rparr>)) (\<lambda>st.
     ebind (make_value op keyword ind) (\<lambda>val. insert_new keyword val st))"

text \<open>\<open>search\<close> in a local instance: counters 1, 2, ... until one is missing.\<close>

partial_function (option) local_search_loop :: "(string \<times> bytes) list \<Rightarrow> string \<Rightarrow> int \<Rightarrow> bytes list \<Rightarrow> bytes list option" where
  "local_search_loop m keyword curCounter acc =
     (case map_of m (keyword @ ''-'' @ to_string curCounter) of
        None \<Rightarrow> Some acc
      | Some x \<Rightarrow> local_search_loop m keyword (curCounter + 1) (acc @ [x]))"

declare local_search_loop.simps [code]

fun collect :: "('a \<Rightarrow> bytes list res) \<Rightarrow> 'a list \<Rightarrow> bytes list res" where
  "collect f [] = Inr []"
| "collect f (x # xs) = ebind (f x) (\<lambda>a. ebind (collect f xs) (\<lambda>b. Inr (a @ b)))"

definition search_local_instance :: "string \<Rightarrow> deamortized \<Rightarrow> nat \<times> nat \<Rightarrow> bytes list res" where
  "search_local_instance keyword st ji =
     ebind (at2 (d_data st) (fst ji) (snd ji)) (\<lambda>m.
       if m = [] then Inr [] else loop_res (local_search_loop m keyword 1 []))"

definition search_remote_instance :: "denv \<Rightarrow> string \<Rightarrow> deamortized \<Rightarrow> nat \<times> nat \<Rightarrow> bytes list res" where
  "search_remote_instance D keyword st ji =
     ebind (at2 (dc_exist (d_L st)) (fst ji) (snd ji)) (\<lambda>e.
       if e then ebind (at2 (d_keys st) (fst ji) (snd ji)) (\<lambda>k.
         dbas_client_search (d_S D) (fst ji) (snd ji) keyword (Some k) (d_L st))
       else Inr [])"

definition DeAmortized_search :: "denv \<Rightarrow> string \<Rightarrow> deamortized \<Rightarrow> int list res" where
  "DeAmortized_search D keyword st =
     ebind (collect (search_local_instance keyword st) (List.product [0..<3] [0..<localSize])) (\<lambda>loc.
     ebind (collect (search_remote_instance D keyword st) (List.product [0..<3] [localSize..<d_l st])) (\<lambda>rem.
       Inr (live_indexes (loc @ rem))))"

fun end_setup_omaps :: "env \<Rightarrow> nat list \<Rightarrow> deamortized \<Rightarrow> deamortized res" where
  "end_setup_omaps E [] st = Inr st"
| "end_setup_omaps E (i # is) st =
     ebind (OMAP_setupInsert E (d_setupOMAPS st ! i) (setDummy (d_setupOMAPSDummies st ! i) (d_omaps st ! i)))
       (\<lambda>m. end_setup_omaps E is (st\<lparr>d_omaps := (d_omaps st)[i := m]\<rparr>))"

definition DeAmortized_endSetup :: "denv \<Rightarrow> deamortized \<Rightarrow> deamortized res" where
  "DeAmortized_endSetup D st = end_setup_omaps (d_E D) [0..<length (d_setupOMAPS st)] st"

end
