(* ===== verification/Oram_Inv.thy ===== *)
theory Oram_Inv
  imports Oram "HOL-Library.Multiset"
begin

text \<open>
  Correctness of the Path ORAM: the geometry of paths, the round trip of buckets through
  serialisation, encryption and the store, and the invariant that makes the ORAM a memory of
  nodes. \<open>oram_rep E st R M V\<close> says that the state \<open>st\<close> holds the memory \<open>M\<close>, where \<open>V\<close> gives the
  nodes stored in each bucket and \<open>R\<close> is the set of buckets whose stored contents are out of
  date because they have been fetched into the cache.
\<close>

section \<open>Paths\<close>

lemma sdiv_2_nonneg: "0 \<le> (x::int) \<Longrightarrow> x sdiv 2 = x div 2"
  by (simp add: signed_divide_int_def sgn_if)

lemma int_div_less:
  assumes "0 < (b::int)" "l < a * b"
  shows "l div b < a"
proof -
  have "l div b * b \<le> l" using assms(1) by (metis add.commute div_mult_mod_eq le_add_same_cancel2 pos_mod_sign)
  with assms have "l div b * b < a * b" by linarith
  with assms(1) show ?thesis by simp
qed

lemma up_path_eq: "- 1 \<le> l \<Longrightarrow> up_path k l = (l + 1) div 2 ^ k - 1"
proof (induction k arbitrary: l)
  case 0
  then show ?case by simp
next
  case (Suc k)
  have "- 1 \<le> (l + 1) sdiv 2 - 1" using Suc.prems by (simp add: sdiv_2_nonneg)
  then have "up_path (Suc k) l = ((l + 1) sdiv 2 - 1 + 1) div 2 ^ k - 1" by (simp add: Suc.IH)
  also have "\<dots> = (l + 1) div 2 ^ Suc k - 1"
    using Suc.prems by (simp add: sdiv_2_nonneg zdiv_zmult2_eq)
  finally show ?case .
qed

definition geom :: "env \<Rightarrow> oram \<Rightarrow> bool" where
  "geom E st \<longleftrightarrow>
     o_bucketCount st = 2 ^ (o_depth st + 1) - 1 \<and> o_maxOfRandom st = 2 ^ o_depth st - 1 \<and>
     o_blockSize st = sizeof_Node (e_scheme E) \<and> o_plaintext_size st = Z * o_blockSize st \<and>
     o_clen_size st = GetCiphertextLength (Z * o_blockSize st) \<and>
     o_bucketCount st \<le> length (rs_store (o_store st)) \<and> o_depth st < 31"

lemma geomD:
  assumes "geom E st"
  shows "o_bucketCount st = 2 ^ (o_depth st + 1) - 1" "o_maxOfRandom st = 2 ^ o_depth st - 1"
    "o_blockSize st = sizeof_Node (e_scheme E)" "o_bucketCount st \<le> length (rs_store (o_store st))"
    "o_depth st < 31"
  using assms by (auto simp: geom_def)

definition leaf_ok :: "oram \<Rightarrow> int \<Rightarrow> bool" where
  "leaf_ok st l \<longleftrightarrow> 0 \<le> l \<and> l < 2 ^ o_depth st"

definition path :: "oram \<Rightarrow> int \<Rightarrow> int set" where
  "path st l = GetNodeOnPath st l ` {0..o_depth st}"

definition all_buckets :: "oram \<Rightarrow> int set" where
  "all_buckets st = {0..<int (o_bucketCount st)}"

lemma bucket_index:
  assumes "geom E st" "i \<in> all_buckets st"
  shows "0 \<le> i" "nat i < length (rs_store (o_store st))"
  using geomD(4) [OF assms(1)] assms(2) by (auto simp: all_buckets_def nat_less_iff)

lemma GetNodeOnPath_eq:
  assumes "o_bucketCount st = 2 ^ (o_depth st + 1) - 1" "leaf_ok st l"
  shows "GetNodeOnPath st l d = (l + 2 ^ o_depth st) div 2 ^ (o_depth st - d) - 1"
proof -
  have "o_bucketCount st div 2 = 2 ^ o_depth st - 1" using assms(1) by simp
  then have "int (o_bucketCount st div 2) = 2 ^ o_depth st - 1" by (simp add: of_nat_diff)
  moreover have "- 1 \<le> l + (2 ^ o_depth st - 1)" using assms(2) by (simp add: leaf_ok_def)
  ultimately show ?thesis by (simp add: GetNodeOnPath_def up_path_eq)
qed

lemma GetNodeOnPath_level:
  assumes "o_bucketCount st = 2 ^ (o_depth st + 1) - 1" "leaf_ok st l" "d \<le> o_depth st"
  shows "2 ^ d - 1 \<le> GetNodeOnPath st l d" "GetNodeOnPath st l d < 2 ^ (d + 1) - 1"
proof -
  let ?k = "o_depth st - d"
  have pw: "(2::int) ^ o_depth st = 2 ^ d * 2 ^ ?k" using assms(3) by (simp flip: power_add)
  have l: "0 \<le> l" "l < 2 ^ d * 2 ^ ?k" using assms(2) pw by (auto simp: leaf_ok_def)
  have "2 ^ d \<le> (l + 2 ^ d * 2 ^ ?k) div 2 ^ ?k" using l(1) by (simp add: zdiv_mono1 pos_imp_zdiv_nonneg_iff)
  moreover have "(l + 2 ^ d * 2 ^ ?k) div 2 ^ ?k < 2 ^ (d + 1)"
    using l by (intro int_div_less) (auto simp: algebra_simps)
  ultimately show "2 ^ d - 1 \<le> GetNodeOnPath st l d" "GetNodeOnPath st l d < 2 ^ (d + 1) - 1"
    using GetNodeOnPath_eq [OF assms(1,2)] pw by simp_all
qed

lemma GetNodeOnPath_range:
  assumes "o_bucketCount st = 2 ^ (o_depth st + 1) - 1" "leaf_ok st l" "d \<le> o_depth st"
  shows "GetNodeOnPath st l d \<in> all_buckets st"
proof -
  have "(2::int) ^ (d + 1) \<le> 2 ^ (o_depth st + 1)" using assms(3) by (intro power_increasing) auto
  moreover have "int (o_bucketCount st) = 2 ^ (o_depth st + 1) - 1" using assms(1) by (simp add: of_nat_diff)
  moreover have "(0::int) \<le> 2 ^ d - 1" by simp
  ultimately show ?thesis
    using GetNodeOnPath_level [OF assms] unfolding all_buckets_def atLeastLessThan_iff by linarith
qed

lemma GetNodeOnPath_level_unique:
  assumes "o_bucketCount st = 2 ^ (o_depth st + 1) - 1" "leaf_ok st l" "leaf_ok st l'"
    "d \<le> o_depth st" "d' \<le> o_depth st" "GetNodeOnPath st l d = GetNodeOnPath st l' d'"
  shows "d = d'"
proof -
  have "False" if "i < j" "(2::int) ^ j - 1 \<le> x" "x < 2 ^ (i + 1) - 1" for i j :: nat and x :: int
  proof -
    have "(2::int) ^ (i + 1) \<le> 2 ^ j" using that(1) by (intro power_increasing) auto
    with that(2,3) show False by linarith
  qed
  then show ?thesis
    using GetNodeOnPath_level [OF assms(1,2,4)] GetNodeOnPath_level [OF assms(1,3,5)] assms(6)
    by (metis linorder_neqE_nat)
qed

lemma GetNodeOnPath_parent:
  assumes "o_bucketCount st = 2 ^ (o_depth st + 1) - 1" "leaf_ok st l" "d < o_depth st"
  shows "GetNodeOnPath st l d = (GetNodeOnPath st l (Suc d) - 1) div 2"
proof -
  have "o_depth st - d = Suc (o_depth st - Suc d)" using assms(3) by simp
  moreover have "x div 2 ^ Suc k = x div 2 ^ k div 2" for x :: int and k
    by (metis power_Suc2 zdiv_zmult2_eq zero_le_numeral)
  ultimately have "GetNodeOnPath st l d = (GetNodeOnPath st l (Suc d) + 1) div 2 - 1"
    using GetNodeOnPath_eq [OF assms(1,2)] by (simp del: power_Suc)
  then show ?thesis by simp
qed

lemma GetNodeOnPath_root:
  assumes "o_bucketCount st = 2 ^ (o_depth st + 1) - 1" "leaf_ok st l"
  shows "GetNodeOnPath st l 0 = 0"
  using GetNodeOnPath_level [OF assms, of 0] by simp

lemma GetNodeOnPath_leaf:
  assumes "o_bucketCount st = 2 ^ (o_depth st + 1) - 1" "leaf_ok st l"
  shows "GetNodeOnPath st l (o_depth st) = l + 2 ^ o_depth st - 1"
  using GetNodeOnPath_eq [OF assms] by simp

section \<open>Nodes as bytes\<close>

definition env_ok :: "env \<Rightarrow> bool" where
  "env_ok E \<longleftrightarrow>
     cipher_ok (e_enc E) (e_dec E) \<and> (\<forall>i. length (e_iv E i) = 16) \<and>
     (\<forall>xs. distinct xs \<longrightarrow> distinct (e_order E xs) \<and> set (e_order E xs) = set xs) \<and>
     (\<forall>ns. mset (e_sort E ns) = mset ns \<and> sorted (map npos (e_sort E ns))) \<and>
     length (e_vptr E) = 8 \<and> length (e_pad E) = 4 \<and> int32 (e_uninit E)"

definition node_ok :: "scheme \<Rightarrow> node \<Rightarrow> bool" where
  "node_ok s n \<longleftrightarrow>
     bid_wf (ID_SIZE s) (nkey n) \<and> bid_wf (ID_SIZE s) (nleftID n) \<and> bid_wf (ID_SIZE s) (nrightID n) \<and>
     length (nvalue n) = 16 \<and> int32 (npos n) \<and> int32 (nleftPos n) \<and> int32 (nrightPos n) \<and>
     int32 (nevictionNode n) \<and> int32 (nheight n)"

lemma env_okD:
  assumes "env_ok E"
  shows "cipher_ok (e_enc E) (e_dec E)" "length (e_iv E i) = 16" "length (e_vptr E) = 8"
    "length (e_pad E) = 4" "int32 (e_uninit E)"
  using assms by (auto simp: env_ok_def)

lemma length_convertNodeToBlock:
  assumes "env_ok E" "node_ok (e_scheme E) n"
  shows "length (convertNodeToBlock E n) = sizeof_Node (e_scheme E)"
  using assms env_okD [OF assms(1)]
  by (simp add: convertNodeToBlock_def node_ok_def bid_wf_def sizeof_Node_def sizeof_Bid_def)

lemma convertBlockToNode_inverse:
  assumes "env_ok E" "node_ok (e_scheme E) n"
  shows "convertBlockToNode E (convertNodeToBlock E n) = Inr n"
proof -
  have len: "length (e_vptr E) = 8" "length (e_pad E) = 4" using env_okD [OF assms(1)] by auto
  have wf: "length (bid_id (nkey n)) = ID_SIZE (e_scheme E)" "length (bid_id (nleftID n)) = ID_SIZE (e_scheme E)"
    "length (bid_id (nrightID n)) = ID_SIZE (e_scheme E)" "length (nvalue n) = 16"
    using assms(2) by (auto simp: node_ok_def bid_wf_def)
  have i: "int32 (npos n)" "int32 (nleftPos n)" "int32 (nrightPos n)" "int32 (nevictionNode n)" "int32 (nheight n)"
    using assms(2) by (auto simp: node_ok_def)
  have sz: "length (convertNodeToBlock E n) = sizeof_Node (e_scheme E)"
    using assms by (rule length_convertNodeToBlock)
  have fields: "slice 8 (ID_SIZE (e_scheme E)) (convertNodeToBlock E n) = bid_id (nkey n)"
    "slice (sizeof_Bid (e_scheme E)) 16 (convertNodeToBlock E n) = nvalue n"
    "get_int (sizeof_Bid (e_scheme E) + 16) (convertNodeToBlock E n) = npos n"
    "slice (sizeof_Bid (e_scheme E) + 32) (ID_SIZE (e_scheme E)) (convertNodeToBlock E n) = bid_id (nleftID n)"
    "get_int (2 * sizeof_Bid (e_scheme E) + 24) (convertNodeToBlock E n) = nleftPos n"
    "slice (2 * sizeof_Bid (e_scheme E) + 40) (ID_SIZE (e_scheme E)) (convertNodeToBlock E n) = bid_id (nrightID n)"
    "get_int (3 * sizeof_Bid (e_scheme E) + 32) (convertNodeToBlock E n) = nrightPos n"
    "get_int (3 * sizeof_Bid (e_scheme E) + 36) (convertNodeToBlock E n) = nevictionNode n"
    "get_int (3 * sizeof_Bid (e_scheme E) + 40) (convertNodeToBlock E n) = nheight n"
    using len wf i
    by (simp_all add: slice_def convertNodeToBlock_def get_int_def sizeof_Bid_def rd32_le32)
  show ?thesis
    unfolding convertBlockToNode_def Let_def fields sz by simp
qed

lemma convertBlockToNode_zero:
  assumes "m = sizeof_Node (e_scheme E)"
  shows "\<exists>n. convertBlockToNode E (replicate m 0) = Inr n \<and> nkey n = Bid_int (ID_SIZE (e_scheme E)) 0"
proof -
  have "le32 0 = replicate 4 0" by (simp add: le32_nths eval_nat_numeral)
  then have "bid_id (Bid_int (ID_SIZE (e_scheme E)) 0) = replicate (ID_SIZE (e_scheme E)) 0"
    by (subst Bid_int_id) (auto simp: ID_SIZE_def simp flip: replicate_add)
  then have "Bid_int (ID_SIZE (e_scheme E)) 0 = Bid (replicate (ID_SIZE (e_scheme E)) 0)"
    by (metis bid.collapse)
  moreover have "slice 8 (ID_SIZE (e_scheme E)) (replicate m 0) = replicate (ID_SIZE (e_scheme E)) 0"
    using assms by (simp add: slice_def sizeof_Node_def sizeof_Bid_def min_def)
  ultimately show ?thesis
    using assms by (simp add: convertBlockToNode_def Let_def)
qed

section \<open>Buckets in the store\<close>

definition bkt_of :: "env \<Rightarrow> oram \<Rightarrow> node list \<Rightarrow> bucket" where
  "bkt_of E st ns =
     map (\<lambda>n. \<lparr>b_id = nkey n, b_data = convertNodeToBlock E n\<rparr>) ns @
     replicate (Z - length ns) (dummy_blk E st)"

definition plain_of :: "env \<Rightarrow> oram \<Rightarrow> node list \<Rightarrow> bytes" where
  "plain_of E st ns = concat (map b_data (bkt_of E st ns))"

definition bucket_ok :: "env \<Rightarrow> node list \<Rightarrow> bool" where
  "bucket_ok E ns \<longleftrightarrow> length ns \<le> Z \<and> (\<forall>n\<in>set ns. node_ok (e_scheme E) n)"

definition slot_ok :: "env \<Rightarrow> oram \<Rightarrow> bytes \<Rightarrow> node list \<Rightarrow> bool" where
  "slot_ok E st c ns \<longleftrightarrow> (\<exists>iv. length iv = 16 \<and> c = e_enc E (o_key st) iv (plain_of E st ns) @ iv)"

definition store_rep :: "env \<Rightarrow> oram \<Rightarrow> (int \<Rightarrow> node list) \<Rightarrow> bool" where
  "store_rep E st V \<longleftrightarrow>
     (\<forall>i\<in>all_buckets st. bucket_ok E (V i) \<and> slot_ok E st (rs_store (o_store st) ! nat i) (V i))"

text \<open>The part of the state that no operation changes.\<close>

definition cfg :: "oram \<Rightarrow> nat list \<times> bytes \<times> int" where
  "cfg st = ([o_depth st, o_bucketCount st, o_blockSize st, o_clen_size st, o_plaintext_size st,
              o_maxOfRandom st, o_maxHeightOfAVLTree st, length (rs_store (o_store st))],
             o_key st, o_dummyValue st)"

lemma cfgD:
  assumes "cfg st' = cfg st"
  shows "o_depth st' = o_depth st" "o_bucketCount st' = o_bucketCount st" "o_blockSize st' = o_blockSize st"
    "o_clen_size st' = o_clen_size st" "o_plaintext_size st' = o_plaintext_size st"
    "o_maxOfRandom st' = o_maxOfRandom st" "o_maxHeightOfAVLTree st' = o_maxHeightOfAVLTree st"
    "o_key st' = o_key st" "o_dummyValue st' = o_dummyValue st"
    "length (rs_store (o_store st')) = length (rs_store (o_store st))"
  using assms by (auto simp: cfg_def)

lemma cfg_cong:
  assumes "cfg st' = cfg st"
  shows "geom E st' = geom E st" "leaf_ok st' = leaf_ok st" "GetNodeOnPath st' = GetNodeOnPath st"
    "path st' = path st" "all_buckets st' = all_buckets st" "not_dummy E st' = not_dummy E st"
    "bkt_of E st' = bkt_of E st" "plain_of E st' = plain_of E st" "slot_ok E st' = slot_ok E st"
    "dummy_blk E st' = dummy_blk E st"
  using cfgD [OF assms]
  by (auto simp: geom_def leaf_ok_def GetNodeOnPath_def path_def all_buckets_def not_dummy_def
      bkt_of_def plain_of_def slot_ok_def dummy_blk_def fun_eq_iff image_def)

lemma length_bkt_of: "length ns \<le> Z \<Longrightarrow> length (bkt_of E st ns) = Z"
  by (simp add: bkt_of_def)

lemma blk_of_bkt:
  assumes "env_ok E" "geom E st" "bucket_ok E ns" "b \<in> set (bkt_of E st ns)"
  shows "length (b_data b) = o_blockSize st \<and>
         (\<exists>n. convertBlockToNode E (b_data b) = Inr n \<and> nkey n = b_id b)"
proof -
  have sz: "o_blockSize st = sizeof_Node (e_scheme E)" using assms(2) by (simp add: geom_def)
  from assms(4) consider n where "n \<in> set ns" "b = \<lparr>b_id = nkey n, b_data = convertNodeToBlock E n\<rparr>"
    | "b = dummy_blk E st"
    by (auto simp: bkt_of_def)
  then show ?thesis
  proof cases
    case (1 n)
    then have "node_ok (e_scheme E) n" using assms(3) by (simp add: bucket_ok_def)
    with 1 sz assms(1) show ?thesis
      by (simp add: length_convertNodeToBlock convertBlockToNode_inverse)
  next
    case 2
    then show ?thesis using convertBlockToNode_zero [OF sz] sz by (simp add: dummy_blk_def)
  qed
qed

lemma length_concat_const: "\<forall>x\<in>set xs. length (f x) = m \<Longrightarrow> length (concat (map f xs)) = length xs * m"
  by (induction xs) auto

lemma length_plain_of:
  assumes "env_ok E" "geom E st" "bucket_ok E ns"
  shows "length (plain_of E st ns) = Z * o_blockSize st"
proof -
  have "\<forall>b\<in>set (bkt_of E st ns). length (b_data b) = o_blockSize st"
    using blk_of_bkt [OF assms] by blast
  then have "length (plain_of E st ns) = length (bkt_of E st ns) * o_blockSize st"
    unfolding plain_of_def by (rule length_concat_const)
  then show ?thesis using assms(3) by (simp add: length_bkt_of bucket_ok_def)
qed

lemma deserialise_loop_eq:
  assumes "\<forall>b\<in>set bs. length (b_data b) = sz \<and> (\<exists>n. convertBlockToNode E (b_data b) = Inr n \<and> nkey n = b_id b)"
  shows "deserialise_loop E sz (length bs) (concat (map b_data bs)) = Inr bs"
  using assms by (induction bs) (auto simp: Let_def)

lemma ReadBucket_eq:
  assumes "env_ok E" "geom E st" "store_rep E st V" "i \<in> all_buckets st"
  shows "ReadBucket E st i = Inr (bkt_of E st (V i), st\<lparr>o_totalRead := o_totalRead st + 1\<rparr>)"
proof -
  let ?st = "st\<lparr>o_totalRead := o_totalRead st + 1\<rparr>"
  have ok: "bucket_ok E (V i)" using assms(3,4) by (simp add: store_rep_def)
  obtain iv where iv: "length iv = 16"
    "rs_store (o_store st) ! nat i = e_enc E (o_key st) iv (plain_of E st (V i)) @ iv"
    using assms(3,4) by (auto simp: store_rep_def slot_ok_def)
  have c: "cipher_ok (e_enc E) (e_dec E)" using assms(1) by (rule env_okD)
  have len: "length (plain_of E st (V i)) = Z * o_blockSize st" using assms(1,2) ok by (rule length_plain_of)
  have clen: "o_clen_size st = GetCiphertextLength (Z * o_blockSize st)" using assms(2) by (simp add: geom_def)
  have rd: "RAMStore_Read (o_store st) i = Inr (e_enc E (o_key st) iv (plain_of E st (V i)) @ iv)"
    using bucket_index [OF assms(2,4)] iv(2) by (simp add: RAMStore_Read_def)
  have dec: "Decrypt (e_dec E) (o_key st) (e_enc E (o_key st) iv (plain_of E st (V i)) @ iv) (o_clen_size st) =
      Inr (plain_of E st (V i))"
    using Decrypt_Encrypt [OF c iv(1) len, of "o_key st"] Encrypt_eq [OF c iv(1) len] clen by simp
  have des: "DeserialiseBucket E ?st (plain_of E st (V i)) = Inr (bkt_of E st (V i))"
  proof -
    have "deserialise_loop E (o_blockSize st) (length (bkt_of E st (V i))) (plain_of E st (V i)) =
        Inr (bkt_of E st (V i))"
      unfolding plain_of_def using blk_of_bkt [OF assms(1,2) ok] by (intro deserialise_loop_eq) blast
    then show ?thesis
      using ok len by (simp add: DeserialiseBucket_def length_bkt_of bucket_ok_def)
  qed
  then show ?thesis
    using rd dec by (simp add: ReadBucket_def Let_def)
qed

lemma WriteBucket_run:
  assumes "env_ok E" "geom E st" "i \<in> all_buckets st" "bucket_ok E ns"
  obtains c where "slot_ok E st c ns"
    "WriteBucket E st i (bkt_of E st ns) = Inr (st\<lparr>o_totalWrite := o_totalWrite st + 1, o_ivs := o_ivs st + 1,
       o_store := (o_store st)\<lparr>rs_store := (rs_store (o_store st))[nat i := c]\<rparr>\<rparr>)"
proof -
  let ?iv = "e_iv E (o_ivs st)"
  let ?c = "e_enc E (o_key st) ?iv (plain_of E st ns) @ ?iv"
  let ?st = "st\<lparr>o_totalWrite := o_totalWrite st + 1, o_ivs := o_ivs st + 1\<rparr>"
  have c: "cipher_ok (e_enc E) (e_dec E)" and iv: "length ?iv = 16" using assms(1) by (auto dest: env_okD)
  have len: "length (plain_of E st ns) = Z * o_blockSize st" using assms(1,2,4) by (rule length_plain_of)
  have ser: "SerialiseBucket ?st (bkt_of E st ns) = Inr (plain_of E st ns)"
    using len by (simp add: SerialiseBucket_def plain_of_def)
  have enc: "Encrypt (e_enc E) ?iv (o_key st) (plain_of E st ns) (o_clen_size st) (o_plaintext_size st) = Inr ?c"
    using Encrypt_eq [OF c iv len, of "o_key st"] assms(2) by (simp add: geom_def)
  have "slot_ok E st ?c ns" using iv by (auto simp: slot_ok_def)
  then show ?thesis
    using that ser enc bucket_index [OF assms(2,3)] by (simp add: WriteBucket_def RAMStore_Write_def Let_def)
qed

lemma WriteBucket_eq:
  assumes "env_ok E" "geom E st" "store_rep E st V" "i \<in> all_buckets st" "bucket_ok E ns"
  obtains st' where "WriteBucket E st i (bkt_of E st ns) = Inr st'" "store_rep E st' (V(i := ns))"
    "cfg st' = cfg st" "rs_empty (o_store st') = rs_empty (o_store st)"
    "o_cache st' = o_cache st" "o_leafList st' = o_leafList st" "o_readviewmap st' = o_readviewmap st"
    "o_writeviewmap st' = o_writeviewmap st" "o_modified st' = o_modified st" "o_readCnt st' = o_readCnt st"
    "o_batchWrite st' = o_batchWrite st"
proof -
  obtain c where c: "slot_ok E st c ns"
    "WriteBucket E st i (bkt_of E st ns) = Inr (st\<lparr>o_totalWrite := o_totalWrite st + 1, o_ivs := o_ivs st + 1,
       o_store := (o_store st)\<lparr>rs_store := (rs_store (o_store st))[nat i := c]\<rparr>\<rparr>)" (is "_ = Inr ?st'")
    by (rule WriteBucket_run [OF assms(1,2,4,5)])
  have cfg: "cfg ?st' = cfg st" by (simp add: cfg_def)
  have "store_rep E ?st' (V(i := ns))"
  proof -
    have "bucket_ok E ((V(i := ns)) j) \<and> slot_ok E st (rs_store (o_store ?st') ! nat j) ((V(i := ns)) j)"
      if "j \<in> all_buckets st" for j
    proof (cases "j = i")
      case True
      then show ?thesis using assms(5) c(1) bucket_index [OF assms(2,4)] by simp
    next
      case False
      then have "nat j \<noteq> nat i" using that bucket_index(1) [OF assms(2,4)] by (auto simp: all_buckets_def)
      with False that assms(3) show ?thesis by (simp add: store_rep_def)
    qed
    then show ?thesis using cfg_cong [OF cfg] by (simp add: store_rep_def)
  qed
  then show ?thesis using that c(2) cfg by simp
qed

section \<open>The memory an ORAM state represents\<close>

definition good :: "env \<Rightarrow> oram \<Rightarrow> node \<Rightarrow> bool" where
  "good E st n \<longleftrightarrow> node_ok (e_scheme E) n \<and> not_dummy E st (nkey n) \<and> leaf_ok st (npos n)"

text \<open>Null entries of the cache only ever arise for identifiers that compare equal to 0.\<close>

definition cache_ok :: "env \<Rightarrow> oram \<Rightarrow> bool" where
  "cache_ok E st \<longleftrightarrow>
     distinct (map fst (o_cache st)) \<and>
     (\<forall>k n. cached st k = Some n \<longrightarrow> nkey n = k \<and> good E st n) \<and>
     (\<forall>k. map_of (o_cache st) k = Some None \<longrightarrow> bid_eq_int k 0)"

text \<open>
  The buckets outside \<open>R\<close> hold each node at most once, on the path of its position, and no
  node that is in the cache.
\<close>

definition live_ok :: "env \<Rightarrow> oram \<Rightarrow> int set \<Rightarrow> (int \<Rightarrow> node list) \<Rightarrow> bool" where
  "live_ok E st R V \<longleftrightarrow>
     (\<forall>i\<in>all_buckets st - R. distinct (map nkey (V i)) \<and>
        (\<forall>n\<in>set (V i). good E st n \<and> i \<in> path st (npos n) \<and> cached st (nkey n) = None)) \<and>
     (\<forall>i\<in>all_buckets st - R. \<forall>j\<in>all_buckets st - R. i \<noteq> j \<longrightarrow>
        nkey ` set (V i) \<inter> nkey ` set (V j) = {})"

definition mem_ok :: "oram \<Rightarrow> int set \<Rightarrow> (int \<Rightarrow> node list) \<Rightarrow> (bid \<Rightarrow> node option) \<Rightarrow> bool" where
  "mem_ok st R V M \<longleftrightarrow>
     (\<forall>k n. M k = Some n \<longleftrightarrow>
        cached st k = Some n \<or> (\<exists>i\<in>all_buckets st - R. n \<in> set (V i) \<and> nkey n = k))"

definition oram_rep :: "env \<Rightarrow> oram \<Rightarrow> int set \<Rightarrow> (int \<Rightarrow> node list) \<Rightarrow> (bid \<Rightarrow> node option) \<Rightarrow> bool" where
  "oram_rep E st R V M \<longleftrightarrow>
     geom E st \<and> store_rep E st V \<and> cache_ok E st \<and> live_ok E st R V \<and> mem_ok st R V M"

lemma cached_cache_put [simp]: "cached (cache_put k n st) k' = (if k = k' then n else cached st k')"
  by (simp add: cached_def cache_put_def map_of_update_apply split: option.splits)

lemma cached_cache_erase [simp]: "cached (cache_erase k st) k' = (if k = k' then None else cached st k')"
  by (simp add: cached_def cache_erase_def map_of_delete_apply)

lemma cache_put_fields [simp]:
  "cfg (cache_put k n st) = cfg st" "o_store (cache_put k n st) = o_store st"
  "o_leafList (cache_put k n st) = o_leafList st" "o_readviewmap (cache_put k n st) = o_readviewmap st"
  "o_writeviewmap (cache_put k n st) = o_writeviewmap st" "o_modified (cache_put k n st) = o_modified st"
  "o_readCnt (cache_put k n st) = o_readCnt st" "o_batchWrite (cache_put k n st) = o_batchWrite st"
  "o_rng (cache_put k n st) = o_rng st"
  by (simp_all add: cache_put_def cfg_def)

lemma cache_erase_fields [simp]:
  "cfg (cache_erase k st) = cfg st" "o_store (cache_erase k st) = o_store st"
  "o_leafList (cache_erase k st) = o_leafList st" "o_readviewmap (cache_erase k st) = o_readviewmap st"
  "o_writeviewmap (cache_erase k st) = o_writeviewmap st" "o_modified (cache_erase k st) = o_modified st"
  "o_readCnt (cache_erase k st) = o_readCnt st" "o_batchWrite (cache_erase k st) = o_batchWrite st"
  "o_rng (cache_erase k st) = o_rng st"
  by (simp_all add: cache_erase_def cfg_def)

lemma map_of_cache_put [simp]:
  "map_of (o_cache (cache_put k n st)) k' = (if k = k' then Some n else map_of (o_cache st) k')"
  by (simp add: cache_put_def map_of_update_apply)

lemma map_of_cache_erase [simp]:
  "map_of (o_cache (cache_erase k st)) k' = (if k = k' then None else map_of (o_cache st) k')"
  by (simp add: cache_erase_def map_of_delete_apply)

lemma distinct_cache_put [simp]:
  "distinct (map fst (o_cache (cache_put k n st))) = distinct (map fst (o_cache st))"
  by (simp add: cache_put_def distinct_update update_keys)

lemma not_dummy_nonzero: "not_dummy E st k \<Longrightarrow> \<not> bid_eq_int k 0"
  by (simp add: not_dummy_def bid_ne_int_iff)

lemma cache_count_real:
  assumes "cache_ok E st" "\<not> bid_eq_int k 0"
  shows "cache_count st k \<longleftrightarrow> cached st k \<noteq> None"
proof -
  have "map_of (o_cache st) k \<noteq> Some None" using assms unfolding cache_ok_def by blast
  then show ?thesis by (auto simp: cache_count_def cached_def split: option.split)
qed

lemma ID_SIZE_ge [simp]: "4 \<le> ID_SIZE s"
  by (simp add: ID_SIZE_def)

lemma int32_0 [simp]: "int32 0"
  by (simp add: int32_def)

lemma bid_eq_int_zero [simp]: "bid_eq_int (Bid_int (ID_SIZE s) 0) 0"
  by (rule bid_eq_int_self [OF ID_SIZE_ge int32_0, THEN iffD2]) simp

lemma dummy_blk_dummy: "\<not> not_dummy E st (b_id (dummy_blk E st'))"
  by (simp add: dummy_blk_def not_dummy_def bid_ne_int_iff)

section \<open>Fetching\<close>

lemma fetch_dummies: "fetch_blocks E (replicate m (dummy_blk E st')) st = Inr st"
  by (induction m) (auto simp: dummy_blk_dummy)

lemma fetch_nodes:
  assumes "env_ok E" "distinct (map nkey ns)"
    "\<forall>n\<in>set ns. node_ok (e_scheme E) n \<and> not_dummy E st (nkey n) \<and> map_of (o_cache st) (nkey n) = None"
  shows "\<exists>st'. fetch_blocks E (map (\<lambda>n. \<lparr>b_id = nkey n, b_data = convertNodeToBlock E n\<rparr>) ns @ bs) st =
           fetch_blocks E bs st' \<and>
           st' = st\<lparr>o_cache := o_cache st'\<rparr> \<and>
           distinct (map fst (o_cache st')) = distinct (map fst (o_cache st)) \<and>
           map_of (o_cache st') = map_of (o_cache st) ++ map_of (map (\<lambda>n. (nkey n, Some n)) ns)"
  using assms(2,3)
proof (induction ns arbitrary: st)
  case Nil
  then show ?case by (intro exI [of _ st]) simp
next
  case (Cons n ns)
  let ?st1 = "cache_put (nkey n) (Some n) st"
  have conv: "convertBlockToNode E (convertNodeToBlock E n) = Inr n"
    using assms(1) Cons.prems by (simp add: convertBlockToNode_inverse)
  have d: "distinct (map nkey ns)" using Cons.prems(1) by simp
  have "\<forall>m\<in>set ns. node_ok (e_scheme E) m \<and> not_dummy E ?st1 (nkey m) \<and> map_of (o_cache ?st1) (nkey m) = None"
    using Cons.prems cfg_cong(6) [of ?st1 st] by auto
  from Cons.IH [OF d this] obtain st' where st':
    "fetch_blocks E (map (\<lambda>n. \<lparr>b_id = nkey n, b_data = convertNodeToBlock E n\<rparr>) ns @ bs) ?st1 = fetch_blocks E bs st'"
    "st' = ?st1\<lparr>o_cache := o_cache st'\<rparr>"
    "distinct (map fst (o_cache st')) = distinct (map fst (o_cache ?st1))"
    "map_of (o_cache st') = map_of (o_cache ?st1) ++ map_of (map (\<lambda>n. (nkey n, Some n)) ns)"
    by blast
  have "\<not> cache_count st (nkey n)" "not_dummy E st (nkey n)" using Cons.prems by (auto simp: cache_count_def)
  then have "fetch_blocks E (map (\<lambda>n. \<lparr>b_id = nkey n, b_data = convertNodeToBlock E n\<rparr>) (n # ns) @ bs) st =
      fetch_blocks E bs st'"
    using conv st'(1) by simp
  moreover have "st' = st\<lparr>o_cache := o_cache st'\<rparr>"
    by (subst st'(2)) (simp add: cache_put_def)
  moreover have "map_of (o_cache ?st1) ++ map_of (map (\<lambda>n. (nkey n, Some n)) ns) =
      map_of (o_cache st) ++ map_of (map (\<lambda>n. (nkey n, Some n)) (n # ns))"
    using Cons.prems(1) by (auto simp: fun_eq_iff map_add_def image_iff map_of_eq_None_iff split: option.splits
        dest!: map_of_SomeD)
  moreover have "distinct (map fst (o_cache st')) = distinct (map fst (o_cache st))" using st'(3) by simp
  ultimately show ?case using st'(4) by metis
qed

text \<open>What fetching leaves alone, and the cache only growing.\<close>

definition keeps :: "oram \<Rightarrow> oram \<Rightarrow> bool" where
  "keeps st st' \<longleftrightarrow>
     cfg st' = cfg st \<and> o_leafList st' = o_leafList st \<and> o_writeviewmap st' = o_writeviewmap st \<and>
     o_modified st' = o_modified st \<and> o_batchWrite st' = o_batchWrite st \<and>
     rs_empty (o_store st') = rs_empty (o_store st)"

definition grows :: "oram \<Rightarrow> oram \<Rightarrow> bool" where
  "grows st st' \<longleftrightarrow> (\<forall>k n. cached st k = Some n \<longrightarrow> cached st' k = Some n)"

lemma keeps_refl [simp]: "keeps st st" and grows_refl [simp]: "grows st st"
  by (simp_all add: keeps_def grows_def)

lemma keeps_trans: "keeps a b \<Longrightarrow> keeps b c \<Longrightarrow> keeps a c"
  and grows_trans: "grows a b \<Longrightarrow> grows b c \<Longrightarrow> grows a c"
  by (simp_all add: keeps_def grows_def)

lemma map_of_nodes:
  "distinct (map nkey ns) \<Longrightarrow>
     map_of (map (\<lambda>n. (nkey n, Some n)) ns) k = Some x \<longleftrightarrow> (\<exists>n\<in>set ns. nkey n = k \<and> x = Some n)"
  by (subst map_of_eq_Some_iff) (auto simp: comp_def)

lemma map_of_nodes_None: "map_of (map (\<lambda>n. (nkey n, Some n)) ns) k = None \<longleftrightarrow> k \<notin> nkey ` set ns"
  by (force simp: map_of_eq_None_iff)

lemma live_cache_None:
  assumes "cache_ok E st" "live_ok E st R V" "i \<in> all_buckets st - R" "n \<in> set (V i)"
  shows "map_of (o_cache st) (nkey n) = None"
proof -
  have "cached st (nkey n) = None" "good E st n" using assms by (auto simp: live_ok_def)
  then show ?thesis
    using cache_count_real [OF assms(1), of "nkey n"] not_dummy_nonzero
    by (auto simp: good_def cache_count_def)
qed

lemma fetched_cache:
  assumes "distinct (map nkey ns)" "\<forall>n\<in>set ns. map_of (o_cache st) (nkey n) = None"
    "map_of (o_cache st') = map_of (o_cache st) ++ map_of (map (\<lambda>n. (nkey n, Some n)) ns)"
  shows "cached st' k = Some n \<longleftrightarrow> cached st k = Some n \<or> (n \<in> set ns \<and> nkey n = k)"
    "map_of (o_cache st') k = Some None \<longleftrightarrow> map_of (o_cache st) k = Some None"
proof -
  have m: "map_of (o_cache st') k =
      (case map_of (map (\<lambda>n. (nkey n, Some n)) ns) k of None \<Rightarrow> map_of (o_cache st) k | Some x \<Rightarrow> Some x)"
    using assms(3) by (simp add: map_add_def)
  have inj: "n = n'" if "n \<in> set ns" "n' \<in> set ns" "nkey n = nkey n'" for n n'
    using assms(1) that by (auto simp: distinct_map inj_on_def)
  show "cached st' k = Some n \<longleftrightarrow> cached st k = Some n \<or> (n \<in> set ns \<and> nkey n = k)"
  proof (cases "k \<in> nkey ` set ns")
    case True
    then obtain n0 where n0: "n0 \<in> set ns" "nkey n0 = k" by auto
    then have "map_of (map (\<lambda>n. (nkey n, Some n)) ns) k = Some (Some n0)"
      using assms(1) by (auto simp: map_of_nodes)
    moreover have "map_of (o_cache st) k = None" using assms(2) n0 by auto
    ultimately show ?thesis using m n0 inj by (auto simp: cached_def)
  next
    case False
    then have "map_of (map (\<lambda>n. (nkey n, Some n)) ns) k = None" by (simp add: map_of_nodes_None)
    then show ?thesis using m False by (auto simp: cached_def)
  qed
  show "map_of (o_cache st') k = Some None \<longleftrightarrow> map_of (o_cache st) k = Some None"
  proof (cases "k \<in> nkey ` set ns")
    case True
    then obtain n0 where n0: "n0 \<in> set ns" "nkey n0 = k" by auto
    then have "map_of (map (\<lambda>n. (nkey n, Some n)) ns) k = Some (Some n0)"
      using assms(1) by (auto simp: map_of_nodes)
    moreover have "map_of (o_cache st) k = None" using assms(2) n0 by auto
    ultimately show ?thesis using m by simp
  next
    case False
    then have "map_of (map (\<lambda>n. (nkey n, Some n)) ns) k = None" by (simp add: map_of_nodes_None)
    then show ?thesis using m by simp
  qed
qed

lemma fetch_bucket:
  assumes E: "env_ok E" and rep: "oram_rep E st R V M" and i: "i \<in> all_buckets st" "i \<notin> R"
  obtains bkt st1 st' where
    "ReadBucket E (st\<lparr>o_readviewmap := rv\<rparr>) i = Inr (bkt, st1)" "fetch_blocks E bkt st1 = Inr st'"
    "oram_rep E st' (insert i R) V M" "keeps st st'" "grows st st'" "o_readviewmap st' = rv"
proof -
  let ?st1 = "st\<lparr>o_readviewmap := rv, o_totalRead := o_totalRead st + 1\<rparr>"
  let ?ns = "V i"
  have geom: "geom E st" and sr: "store_rep E st V" and c: "cache_ok E st" and l: "live_ok E st R V"
    and m: "mem_ok st R V M" using rep by (auto simp: oram_rep_def)
  have cfg1: "cfg (st\<lparr>o_readviewmap := rv\<rparr>) = cfg st" "cfg ?st1 = cfg st" by (simp_all add: cfg_def)
  have rb: "ReadBucket E (st\<lparr>o_readviewmap := rv\<rparr>) i = Inr (bkt_of E st ?ns, ?st1)"
    using ReadBucket_eq [OF E, of "st\<lparr>o_readviewmap := rv\<rparr>" V i] geom sr i cfg_cong [OF cfg1(1)]
    by (simp add: store_rep_def)
  have d: "distinct (map nkey ?ns)" and g: "\<forall>n\<in>set ?ns. good E st n" using l i by (auto simp: live_ok_def)
  have none: "\<forall>n\<in>set ?ns. map_of (o_cache st) (nkey n) = None"
    using live_cache_None [OF c l] i by auto
  then have "\<forall>n\<in>set ?ns. node_ok (e_scheme E) n \<and> not_dummy E ?st1 (nkey n) \<and> map_of (o_cache ?st1) (nkey n) = None"
    using g cfg_cong(6) [OF cfg1(2)] by (auto simp: good_def)
  from fetch_nodes [OF E d this, of "replicate (Z - length ?ns) (dummy_blk E st)"] obtain st' where
    fb: "fetch_blocks E (bkt_of E st ?ns) ?st1 = Inr st'" and st': "st' = ?st1\<lparr>o_cache := o_cache st'\<rparr>"
    and d': "distinct (map fst (o_cache st')) = distinct (map fst (o_cache ?st1))"
    and mp: "map_of (o_cache st') = map_of (o_cache st) ++ map_of (map (\<lambda>n. (nkey n, Some n)) ?ns)"
    by (auto simp: bkt_of_def fetch_dummies)
  have f: "cached st' k = Some n \<longleftrightarrow> cached st k = Some n \<or> (n \<in> set ?ns \<and> nkey n = k)"
    "map_of (o_cache st') k = Some None \<longleftrightarrow> map_of (o_cache st) k = Some None" for k n
    using fetched_cache [OF d none mp] by auto
  have cfg: "cfg st' = cfg st" using arg_cong [OF st', of cfg] by (simp add: cfg_def)
  have store: "o_store st' = o_store st" using arg_cong [OF st', of o_store] by simp
  have flds: "o_readviewmap st' = rv" "keeps st st'"
    using cfg store arg_cong [OF st', of o_readviewmap] arg_cong [OF st', of o_leafList]
      arg_cong [OF st', of o_writeviewmap] arg_cong [OF st', of o_modified] arg_cong [OF st', of o_batchWrite]
    by (simp_all add: keeps_def)
  note cc = cfg_cong [OF cfg]
  have good: "good E st' = good E st" using cc by (simp add: good_def fun_eq_iff)
  have "cache_ok E st'" using c d' g by (auto simp: cache_ok_def f good)
  moreover have "live_ok E st' (insert i R) V"
  proof -
    have "cached st' (nkey n) = None" if "j \<in> all_buckets st - insert i R" "n \<in> set (V j)" for j n
    proof -
      have "cached st (nkey n) = None" "nkey n \<notin> nkey ` set ?ns"
        using that l i by (fastforce simp: live_ok_def)+
      then have "cached st' (nkey n) \<noteq> Some n'" for n' by (auto simp: f image_iff)
      then show ?thesis by auto
    qed
    then show ?thesis using l by (auto simp: live_ok_def cc good)
  qed
  moreover have "mem_ok st' (insert i R) V M" using m i by (auto simp: mem_ok_def cc f)
  ultimately have "oram_rep E st' (insert i R) V M"
    using geom sr cc store by (auto simp: oram_rep_def store_rep_def)
  then show ?thesis using that rb fb flds by (auto simp: grows_def f)
qed

lemma oram_rep_cong:
  assumes "cfg st' = cfg st" "o_store st' = o_store st" "o_cache st' = o_cache st"
  shows "oram_rep E st' R V M = oram_rep E st R V M"
proof -
  have "cached st' = cached st" using assms(3) by (simp add: cached_def fun_eq_iff)
  moreover have "good E st' = good E st" using cfg_cong [OF assms(1)] by (simp add: good_def fun_eq_iff)
  ultimately show ?thesis
    using cfg_cong [OF assms(1)] assms
    by (simp add: oram_rep_def store_rep_def cache_ok_def live_ok_def mem_ok_def)
qed

lemma fetch_levels_rep:
  assumes E: "env_ok E" and rep: "oram_rep E st (set (o_readviewmap st)) V M"
    and leaf: "leaf_ok st leaf" and ds: "\<forall>d\<in>set ds. d \<le> o_depth st"
  obtains st' where "fetch_levels E leaf ds st = Inr st'" "oram_rep E st' (set (o_readviewmap st')) V M"
    "set (o_readviewmap st') = set (o_readviewmap st) \<union> GetNodeOnPath st leaf ` set ds"
    "keeps st st'" "grows st st'"
  using rep leaf ds
proof (induction ds arbitrary: st thesis)
  case Nil
  show ?case by (rule Nil.prems(1) [of st]) (use Nil.prems(2) in auto)
next
  case (Cons d ds)
  let ?nd = "GetNodeOnPath st leaf d"
  show ?case
  proof (cases "?nd \<in> set (o_readviewmap st)")
    case True
    obtain st' where st': "fetch_levels E leaf ds st = Inr st'" "oram_rep E st' (set (o_readviewmap st')) V M"
      "set (o_readviewmap st') = set (o_readviewmap st) \<union> GetNodeOnPath st leaf ` set ds"
      "keeps st st'" "grows st st'"
      using Cons.IH [of st] Cons.prems by auto
    show ?thesis by (rule Cons.prems(1) [of st']) (use st' True in auto)
  next
    case False
    have geom: "geom E st" using Cons.prems(2) by (simp add: oram_rep_def)
    have nd: "?nd \<in> all_buckets st"
      using GetNodeOnPath_range [OF geomD(1) [OF geom] Cons.prems(3)] Cons.prems(4) by simp
    obtain bkt st1 st2 where f:
      "ReadBucket E (st\<lparr>o_readviewmap := o_readviewmap st @ [?nd]\<rparr>) ?nd = Inr (bkt, st1)"
      "fetch_blocks E bkt st1 = Inr st2" "oram_rep E st2 (insert ?nd (set (o_readviewmap st))) V M"
      "keeps st st2" "grows st st2" "o_readviewmap st2 = o_readviewmap st @ [?nd]"
      using fetch_bucket [OF E Cons.prems(2) nd False] by metis
    have cc: "leaf_ok st2 = leaf_ok st" "o_depth st2 = o_depth st" "GetNodeOnPath st2 = GetNodeOnPath st"
      using f(4) by (auto simp: keeps_def dest: cfg_cong cfgD)
    obtain st' where st': "fetch_levels E leaf ds st2 = Inr st'" "oram_rep E st' (set (o_readviewmap st')) V M"
      "set (o_readviewmap st') = set (o_readviewmap st2) \<union> GetNodeOnPath st2 leaf ` set ds"
      "keeps st2 st'" "grows st2 st'"
      using Cons.IH [of st2] Cons.prems f(3,6) cc by auto
    show ?thesis
    proof (rule Cons.prems(1) [of st'])
      show "fetch_levels E leaf (d # ds) st = Inr st'" using f(1,2) False st'(1) by (simp add: Let_def)
      show "set (o_readviewmap st') = set (o_readviewmap st) \<union> GetNodeOnPath st leaf ` set (d # ds)"
        using st'(3) f(6) cc by simp
      show "keeps st st'" "grows st st'" using f(4,5) st'(4,5) keeps_trans grows_trans by blast+
    qed (use st' in auto)
  qed
qed

lemma FetchPath_rep:
  assumes E: "env_ok E" and rep: "oram_rep E st (set (o_readviewmap st)) V M" and leaf: "leaf_ok st leaf"
  obtains st' where "FetchPath E st leaf = Inr st'" "oram_rep E st' (set (o_readviewmap st')) V M"
    "set (o_readviewmap st') = set (o_readviewmap st) \<union> path st leaf" "keeps st st'" "grows st st'"
proof -
  let ?st = "st\<lparr>o_readCnt := o_readCnt st + 1\<rparr>"
  have cfg: "cfg ?st = cfg st" by (simp add: cfg_def)
  have "oram_rep E ?st (set (o_readviewmap ?st)) V M" using rep oram_rep_cong [OF cfg] by simp
  moreover have "leaf_ok ?st leaf" using leaf cfg_cong [OF cfg] by simp
  ultimately obtain st' where st': "fetch_levels E leaf [0..<Suc (o_depth st)] ?st = Inr st'"
    "oram_rep E st' (set (o_readviewmap st')) V M"
    "set (o_readviewmap st') = set (o_readviewmap ?st) \<union> GetNodeOnPath ?st leaf ` set [0..<Suc (o_depth st)]"
    "keeps ?st st'" "grows ?st st'"
    using fetch_levels_rep [OF E, of ?st V M leaf "[0..<Suc (o_depth st)]"] by auto
  have "set [0..<Suc (o_depth st)] = {0..o_depth st}" by auto
  then have "set (o_readviewmap st') = set (o_readviewmap st) \<union> path st leaf"
    using st'(3) cfg_cong(3) [OF cfg] by (simp add: path_def)
  moreover have "keeps st st'" "grows st st'"
    using st'(4,5) cfg by (auto simp: keeps_def grows_def cached_def)
  ultimately show ?thesis using that st'(1,2) by (simp add: FetchPath_def)
qed

lemma on_path_cached:
  assumes "oram_rep E st R V M" "M k = Some n" "path st (npos n) \<subseteq> R"
  shows "cached st k = Some n"
  using assms by (fastforce simp: oram_rep_def mem_ok_def live_ok_def)

end
