(* ===== verification/Oram_Ops.thy ===== *)
theory Oram_Ops
  imports Oram_Inv
begin

text \<open>
  What the operations of the ORAM do to the memory it represents, between \<open>start\<close> and
  \<open>finilize\<close>: reading a node at its position returns it and caches it, writes through the
  returned pointer change the memory at that key only, a new node extends it.
\<close>

section \<open>States inside an operation\<close>

text \<open>The fetched buckets are exactly those on the paths of the leaf list.\<close>

definition leaves_ok :: "oram \<Rightarrow> bool" where
  "leaves_ok st \<longleftrightarrow>
     (\<forall>l\<in>set (o_leafList st). leaf_ok st l) \<and>
     set (o_readviewmap st) = (\<Union>l\<in>set (o_leafList st). path st l)"

definition opst :: "env \<Rightarrow> oram \<Rightarrow> (bid \<Rightarrow> node option) \<Rightarrow> bool" where
  "opst E st M \<longleftrightarrow>
     (\<exists>V. oram_rep E st (set (o_readviewmap st)) V M) \<and> leaves_ok st \<and> o_writeviewmap st = [] \<and>
     \<not> o_batchWrite st"

text \<open>States between operations.\<close>

definition idle :: "env \<Rightarrow> oram \<Rightarrow> (bid \<Rightarrow> node option) \<Rightarrow> bool" where
  "idle E st M \<longleftrightarrow> (\<exists>V. oram_rep E st {} V M) \<and> o_leafList st = [] \<and> o_modified st = []"

lemma good_cfg: "cfg st' = cfg st \<Longrightarrow> good E st' = good E st"
  by (simp add: good_def fun_eq_iff cfg_cong(2) [of st' st] cfg_cong(6) [of st' st E])

lemma opst_good: "opst E st M \<Longrightarrow> M k = Some n \<Longrightarrow> nkey n = k \<and> good E st n"
  by (fastforce simp: opst_def oram_rep_def mem_ok_def cache_ok_def live_ok_def)

lemma idle_good: "idle E st M \<Longrightarrow> M k = Some n \<Longrightarrow> nkey n = k \<and> good E st n"
  by (fastforce simp: idle_def oram_rep_def mem_ok_def cache_ok_def live_ok_def)

lemma opst_cached: "opst E st M \<Longrightarrow> cached st k = Some n \<Longrightarrow> M k = Some n"
  by (auto simp: opst_def oram_rep_def mem_ok_def)

lemma opst_nonzero: "opst E st M \<Longrightarrow> M k = Some n \<Longrightarrow> \<not> bid_eq_int k 0"
  using opst_good not_dummy_nonzero by (fastforce simp: good_def)

lemma opst_geom: "opst E st M \<Longrightarrow> geom E st"
  by (auto simp: opst_def oram_rep_def)

lemma opst_cache_ok: "opst E st M \<Longrightarrow> cache_ok E st"
  by (auto simp: opst_def oram_rep_def)

lemma start_opst: "idle E st M \<Longrightarrow> opst E (ORAM_start False st) M"
proof -
  assume i: "idle E st M"
  let ?st = "ORAM_start False st"
  have cfg: "cfg ?st = cfg st" by (simp add: ORAM_start_def cfg_def)
  show "opst E ?st M"
    using i oram_rep_cong [OF cfg]
    by (auto simp: opst_def idle_def leaves_ok_def ORAM_start_def)
qed

text \<open>A state whose cache has the same entries represents the same memory.\<close>

lemma oram_rep_same_cache:
  assumes "cfg st' = cfg st" "o_store st' = o_store st" "map_of (o_cache st') = map_of (o_cache st)"
    "distinct (map fst (o_cache st'))"
  shows "oram_rep E st R V M \<Longrightarrow> oram_rep E st' R V M"
proof -
  have "cached st' = cached st" using assms(3) by (simp add: cached_def fun_eq_iff)
  moreover have "good E st' = good E st" using assms(1) by (rule good_cfg)
  ultimately show "oram_rep E st R V M \<Longrightarrow> oram_rep E st' R V M"
    using cfg_cong [OF assms(1)] assms
    by (simp add: oram_rep_def store_rep_def cache_ok_def live_ok_def mem_ok_def)
qed

lemma cached_Some_map_of: "cached st k = Some n \<longleftrightarrow> map_of (o_cache st) k = Some (Some n)"
  by (auto simp: cached_def split: option.splits)

lemma distinct_cache_erase [simp]:
  "distinct (map fst (o_cache st)) \<Longrightarrow> distinct (map fst (o_cache (cache_erase k st)))"
  by (simp add: cache_erase_def distinct_delete)

lemma map_of_reput:
  "cached st k = Some n \<Longrightarrow> map_of (o_cache (cache_put k (Some n) (cache_erase k st))) = map_of (o_cache st)"
  "cached st k = Some n \<Longrightarrow> map_of (o_cache (cache_put k (Some n) st)) = map_of (o_cache st)"
  by (auto simp: fun_eq_iff cached_Some_map_of)

lemma add_leaf_fields [simp]:
  "cfg (add_leaf l st) = cfg st" "o_store (add_leaf l st) = o_store st" "o_cache (add_leaf l st) = o_cache st"
  "o_readviewmap (add_leaf l st) = o_readviewmap st" "o_writeviewmap (add_leaf l st) = o_writeviewmap st"
  "o_modified (add_leaf l st) = o_modified st" "o_batchWrite (add_leaf l st) = o_batchWrite st"
  "set (o_leafList (add_leaf l st)) = insert l (set (o_leafList st))"
  "cached (add_leaf l st) = cached st"
  by (auto simp: add_leaf_def cfg_def cached_def fun_eq_iff)

lemma o_cache_cache_put: "o_cache (cache_put k n st) = AList.update k n (o_cache st)"
  by (simp add: cache_put_def)

lemma o_leafList_add_leaf:
  "o_leafList (add_leaf l st) = (if l \<in> set (o_leafList st) then o_leafList st else o_leafList st @ [l])"
  by (simp add: add_leaf_def)

lemma mark_modified_fields [simp]:
  "cfg (mark_modified k st) = cfg st" "o_store (mark_modified k st) = o_store st"
  "o_cache (mark_modified k st) = o_cache st" "o_readviewmap (mark_modified k st) = o_readviewmap st"
  "o_writeviewmap (mark_modified k st) = o_writeviewmap st" "o_leafList (mark_modified k st) = o_leafList st"
  "o_batchWrite (mark_modified k st) = o_batchWrite st"
  "set (o_modified (mark_modified k st)) = insert k (set (o_modified st))"
  "cached (mark_modified k st) = cached st"
  by (auto simp: mark_modified_def cfg_def cached_def fun_eq_iff)

lemma opst_mark_modified:
  assumes "opst E st M"
  shows "opst E (mark_modified k st) M"
proof -
  have "leaves_ok (mark_modified k st) = leaves_ok st"
    using cfg_cong [of "mark_modified k st" st] by (simp add: leaves_ok_def)
  then show ?thesis
    using assms oram_rep_cong [of "mark_modified k st" st] by (auto simp: opst_def)
qed

section \<open>Reading\<close>

text \<open>
  What an access may change: the cache grows, more keys count as modified, nothing else of
  the represented memory moves.
\<close>

definition accessed :: "oram \<Rightarrow> oram \<Rightarrow> bid \<Rightarrow> bool" where
  "accessed st st' k \<longleftrightarrow>
     cfg st' = cfg st \<and> grows st st' \<and> set (o_modified st') = insert k (set (o_modified st)) \<and>
     rs_empty (o_store st') = rs_empty (o_store st)"

lemma FetchPath_op:
  assumes E: "env_ok E" and op: "opst E st M" and leaf: "leaf_ok st leaf"
  obtains st' where "FetchPath E st leaf = Inr st'" "opst E (add_leaf leaf st') M"
    "keeps st st'" "grows st st'" "\<And>k n. M k = Some n \<Longrightarrow> npos n = leaf \<Longrightarrow> cached st' k = Some n"
proof -
  obtain V where rep: "oram_rep E st (set (o_readviewmap st)) V M" using op by (auto simp: opst_def)
  obtain st' where f: "FetchPath E st leaf = Inr st'" "oram_rep E st' (set (o_readviewmap st')) V M"
    "set (o_readviewmap st') = set (o_readviewmap st) \<union> path st leaf" "keeps st st'" "grows st st'"
    using FetchPath_rep [OF E rep leaf] by blast
  have cfg: "cfg st' = cfg st" using f(4) by (simp add: keeps_def)
  have "leaves_ok (add_leaf leaf st')"
    using op f(3,4) leaf cfg_cong [OF cfg] cfg_cong [of "add_leaf leaf st'" st']
    by (auto simp: opst_def leaves_ok_def keeps_def)
  then have "opst E (add_leaf leaf st') M"
    using f(2,4) op oram_rep_cong [of "add_leaf leaf st'" st'] by (auto simp: opst_def keeps_def)
  moreover have "cached st' k = Some n" if "M k = Some n" "npos n = leaf" for k n
    using on_path_cached [OF f(2) that(1)] that(2) f(3) cfg_cong(4) [OF cfg] by simp
  ultimately show ?thesis using that f by blast
qed

lemma opst_same_cache:
  assumes "opst E st M" "cfg st' = cfg st" "o_store st' = o_store st"
    "map_of (o_cache st') = map_of (o_cache st)" "distinct (map fst (o_cache st'))"
    "o_leafList st' = o_leafList st" "o_readviewmap st' = o_readviewmap st" "o_writeviewmap st' = o_writeviewmap st"
    "o_batchWrite st' = o_batchWrite st"
  shows "opst E st' M"
proof -
  have "cached st' = cached st" using assms(4) by (simp add: cached_def fun_eq_iff)
  moreover have "leaves_ok st' = leaves_ok st"
    using assms cfg_cong [OF assms(2)] by (simp add: leaves_ok_def)
  moreover obtain V where "oram_rep E st (set (o_readviewmap st)) V M" using assms(1) by (auto simp: opst_def)
  then have "oram_rep E st' (set (o_readviewmap st')) V M"
    using oram_rep_same_cache [OF assms(2-5)] assms(7) by simp
  ultimately show ?thesis using assms by (auto simp: opst_def)
qed

lemma cfg_o_store: "length (rs_store s) = length (rs_store (o_store st)) \<Longrightarrow> cfg (st\<lparr>o_store := s\<rparr>) = cfg st"
  by (simp add: cfg_def)

lemma cached_o_store [simp]: "cached (st\<lparr>o_store := s\<rparr>) = cached st"
  by (simp add: cached_def fun_eq_iff)

text \<open>The number of free blocks is no part of the represented memory.\<close>

lemma opst_same_store:
  assumes "opst E st M" "cfg st' = cfg st" "rs_store (o_store st') = rs_store (o_store st)" "o_cache st' = o_cache st"
    "o_leafList st' = o_leafList st" "o_readviewmap st' = o_readviewmap st" "o_writeviewmap st' = o_writeviewmap st"
    "o_batchWrite st' = o_batchWrite st"
  shows "opst E st' M"
proof -
  have "cached st' = cached st" using assms(4) by (simp add: cached_def fun_eq_iff)
  moreover have "leaves_ok st' = leaves_ok st"
    using assms cfg_cong [OF assms(2)] by (simp add: leaves_ok_def)
  moreover obtain V where "oram_rep E st (set (o_readviewmap st)) V M" using assms(1) by (auto simp: opst_def)
  then have "oram_rep E st' (set (o_readviewmap st')) V M"
    using assms cfg_cong [OF assms(2)] good_cfg [OF assms(2)] \<open>cached st' = cached st\<close>
    by (simp add: oram_rep_def store_rep_def cache_ok_def live_ok_def mem_ok_def)
  ultimately show ?thesis using assms by (auto simp: opst_def)
qed

lemma ReadNode_op:
  assumes E: "env_ok E" and op: "opst E st M" and k: "M k = Some n" "npos n = leaf"
  obtains st' where "ReadNode E k leaf leaf st = Inr (Some n, st')" "opst E st' M"
    "cached st' k = Some n" "accessed st st' k"
proof -
  have nz: "\<not> bid_eq_int k 0" using opst_nonzero [OF op k(1)] .
  have leaf: "leaf_ok st leaf" using opst_good [OF op k(1)] k(2) by (simp add: good_def)
  have same: "n\<lparr>npos := leaf\<rparr> = n" using k(2) by simp
  show ?thesis
  proof (cases "\<not> cache_count st k \<or> leaf \<notin> set (o_leafList st)")
    case True
    obtain st1 where f: "FetchPath E st leaf = Inr st1" "opst E (add_leaf leaf st1) M"
      "keeps st st1" "grows st st1" "\<And>k n. M k = Some n \<Longrightarrow> npos n = leaf \<Longrightarrow> cached st1 k = Some n"
      using FetchPath_op [OF E op leaf] by blast
    have c: "cached st1 k = Some n" using f(5) k by blast
    let ?st2 = "add_leaf leaf (cache_put k (Some n) (cache_erase k st1))"
    have d: "distinct (map fst (o_cache st1))"
      using opst_cache_ok [OF f(2)] by (simp add: cache_ok_def)
    have "opst E ?st2 M"
      by (rule opst_same_cache [OF f(2)]) (use d c map_of_reput(1) [OF c] in \<open>simp_all add: o_leafList_add_leaf\<close>)
    then have "opst E (mark_modified k ?st2) M" by (rule opst_mark_modified)
    moreover have "ReadNode E k leaf leaf st = Inr (Some n, mark_modified k ?st2)"
      using nz True f(1) c same by (simp add: ReadNode_def Access_read_def ReadData_def Let_def)
    moreover have "accessed st (mark_modified k ?st2) k"
      using f(3,4) c by (auto simp: accessed_def keeps_def grows_def)
    ultimately show ?thesis using that by simp
  next
    case False
    then obtain n' where n': "cached st k = Some n'"
      using cache_count_real [OF opst_cache_ok [OF op] nz] by auto
    then have c: "cached st k = Some n" using opst_cached [OF op n'] k(1) by simp
    let ?st2 = "cache_put k (Some n) (mark_modified k st)"
    have d: "distinct (map fst (o_cache st))" using opst_cache_ok [OF op] by (simp add: cache_ok_def)
    have "opst E (mark_modified k st) M" using op by (rule opst_mark_modified)
    then have "opst E ?st2 M"
      by (rule opst_same_cache) (use c d map_of_reput(2) [of "mark_modified k st"] in auto)
    moreover have "ReadNode E k leaf leaf st = Inr (Some n, ?st2)"
      using nz False c same by (simp add: ReadNode_def Let_def)
    moreover have "accessed st ?st2 k" using c by (auto simp: accessed_def grows_def)
    ultimately show ?thesis using that by simp
  qed
qed

section \<open>Writing\<close>

lemma cache_modify_fields [simp]:
  "cfg (cache_modify k f st) = cfg st" "o_store (cache_modify k f st) = o_store st"
  "o_leafList (cache_modify k f st) = o_leafList st" "o_readviewmap (cache_modify k f st) = o_readviewmap st"
  "o_writeviewmap (cache_modify k f st) = o_writeviewmap st" "o_modified (cache_modify k f st) = o_modified st"
  "o_batchWrite (cache_modify k f st) = o_batchWrite st"
  by (auto simp: cache_modify_def split: option.splits)

lemma cached_cache_modify [simp]:
  "cached (cache_modify k f st) k' = (if k = k' then map_option f (cached st k) else cached st k')"
  by (auto simp: cache_modify_def split: option.splits)

lemma opst_cache_put:
  assumes op: "opst E st M" and n: "good E st n" "nkey n = k" and k: "cached st k \<noteq> None \<or> M k = None"
  shows "opst E (cache_put k (Some n) st) (M(k \<mapsto> n))"
proof -
  let ?st = "cache_put k (Some n) st"
  let ?R = "set (o_readviewmap st)"
  obtain V where rep: "oram_rep E st ?R V M" using op by (auto simp: opst_def)
  have cc: "cfg ?st = cfg st" by simp
  note cg = cfg_cong [OF cc] good_cfg [OF cc]
  have notlive: "nkey m \<noteq> k" if "i \<in> all_buckets st - ?R" "m \<in> set (V i)" for i m
  proof
    assume "nkey m = k"
    then have "cached st k = None" "M k = Some m"
      using that rep by (auto simp: oram_rep_def live_ok_def mem_ok_def)
    then show False using k by simp
  qed
  have "cache_ok E ?st"
    using rep n by (auto simp: oram_rep_def cache_ok_def cg)
  moreover have "live_ok E ?st ?R V"
    using rep notlive by (auto simp: oram_rep_def live_ok_def cg)
  moreover have "mem_ok ?st ?R V (M(k \<mapsto> n))"
    using rep notlive by (auto simp: oram_rep_def mem_ok_def cg)
  ultimately have "oram_rep E ?st ?R V (M(k \<mapsto> n))"
    using rep by (auto simp: oram_rep_def store_rep_def cg)
  moreover have "leaves_ok ?st" using op by (simp add: opst_def leaves_ok_def cg)
  ultimately show ?thesis using op by (auto simp: opst_def)
qed

lemma opst_cache_modify:
  assumes "opst E st M" "cached st k = Some n" "good E st (f n)" "nkey (f n) = k"
  shows "opst E (cache_modify k f st) (M(k \<mapsto> f n))"
  using opst_cache_put [OF assms(1,3,4)] assms(2) by (simp add: cache_modify_def)

lemma WriteNode_cached:
  assumes op: "opst E st M" and k: "cached st k \<noteq> None"
  shows "WriteNode E k n st = Inr (npos n, mark_modified k st)"
proof -
  obtain m where m: "cached st k = Some m" using k by auto
  then have nz: "\<not> bid_eq_int k 0" using opst_cached [OF op] opst_nonzero [OF op] by blast
  then have "cache_count st k" using cache_count_real [OF opst_cache_ok [OF op]] k by simp
  with nz show ?thesis by (simp add: WriteNode_def)
qed

lemma WriteNode_new:
  assumes E: "env_ok E" and op: "opst E st M" and k: "M k = None" and n: "good E st n" "nkey n = k"
    and room: "e_scheme E = Horus \<Longrightarrow> 0 < rs_empty (o_store st)"
  obtains st' where "WriteNode E k n st = Inr (npos n, st')" "opst E st' (M(k \<mapsto> n))"
    "cached st' k = Some n" "cfg st' = cfg st" "grows st st'"
    "set (o_modified st') = insert k (set (o_modified st))"
    "rs_empty (o_store st') = (if e_scheme E = Horus then rs_empty (o_store st) - 1 else rs_empty (o_store st))"
proof -
  have nz: "\<not> bid_eq_int k 0" using n not_dummy_nonzero by (auto simp: good_def)
  have nc: "cached st k = None" using opst_cached [OF op] k by (cases "cached st k") auto
  then have cnt: "\<not> cache_count st k" using cache_count_real [OF opst_cache_ok [OF op] nz] by simp
  have op1: "opst E (mark_modified k st) M" using op by (rule opst_mark_modified)
  have leaf: "leaf_ok (mark_modified k st) (npos n)"
    using n cfg_cong(2) [of "mark_modified k st" st] by (simp add: good_def)
  obtain st1 where f: "FetchPath E (mark_modified k st) (npos n) = Inr st1" "opst E (add_leaf (npos n) st1) M"
    "keeps (mark_modified k st) st1" "grows (mark_modified k st) st1"
    by (rule FetchPath_op [OF E op1 leaf])
  have cfg: "cfg st1 = cfg st" using f(3) by (simp add: keeps_def)
  have nc1: "cached st1 k = None" using opst_cached [OF f(2), of k] k by (cases "cached st1 k") auto
  have b: "\<not> o_batchWrite st" using op by (simp add: opst_def)
  let ?st2 = "cache_put k (Some n) st1"
  let ?st3 = "if e_scheme E = Horus then ?st2\<lparr>o_store := ReduceEmptyNumbers (o_store ?st2)\<rparr> else ?st2"
  have wd: "WriteData E k n st1 = Inr ?st3"
    using room f(3) by (auto simp: WriteData_def keeps_def GetEmptySize_def)
  have "opst E (cache_put k (Some n) (add_leaf (npos n) st1)) (M(k \<mapsto> n))"
    using n k cfg by (intro opst_cache_put [OF f(2)]) (auto simp: good_cfg [of "add_leaf (npos n) st1" st])
  then have "opst E (add_leaf (npos n) ?st3) (M(k \<mapsto> n))"
    by (rule opst_same_store) (auto simp: o_leafList_add_leaf cfg_o_store ReduceEmptyNumbers_def o_cache_cache_put)
  moreover have "WriteNode E k n st = Inr (npos n, add_leaf (npos n) ?st3)"
    using nz cnt f(1) b wd by (simp add: WriteNode_def Access_write_def)
  moreover have "cfg ?st3 = cfg st" using cfg by (simp add: cfg_o_store ReduceEmptyNumbers_def)
  moreover have "grows st (add_leaf (npos n) ?st3)" using f(4) nc by (auto simp: grows_def)
  moreover have "set (o_modified ?st3) = insert k (set (o_modified st))" using f(3) by (simp add: keeps_def)
  moreover have "rs_empty (o_store ?st3) = (if e_scheme E = Horus then rs_empty (o_store st) - 1 else rs_empty (o_store st))"
    using f(3) by (simp add: keeps_def ReduceEmptyNumbers_def)
  ultimately show ?thesis by (intro that [of "add_leaf (npos n) ?st3"]) simp_all
qed

end
