(* ===== verification/Oram_Write.thy ===== *)
theory Oram_Write
  imports Oram_Ops
begin

text \<open>
  Writing the cache back at the end of an operation: every bucket that was fetched is written
  once, from the leaves upwards, with nodes of the cache whose path runs through it; what does
  not fit stays in the cache. The represented memory does not change.
\<close>

section \<open>One bucket\<close>

lemma evict_blocks_eq:
  assumes "distinct bids" "\<forall>k\<in>set bids. cached st k \<noteq> None" "distinct (map fst (o_cache st))"
  shows "\<exists>c. evict_blocks E bids st =
      (map (\<lambda>k. \<lparr>b_id = k, b_data = convertNodeToBlock E (the (cached st k))\<rparr>) bids, st\<lparr>o_cache := c\<rparr>) \<and>
      distinct (map fst c) \<and> (\<forall>k. map_of c k = (if k \<in> set bids then None else map_of (o_cache st) k))"
  using assms
proof (induction bids arbitrary: st)
  case Nil
  then show ?case by (intro exI [of _ "o_cache st"]) simp
next
  case (Cons b bids)
  let ?st = "cache_erase b st"
  have c: "\<forall>k\<in>set bids. cached ?st k = cached st k" using Cons.prems(1) by auto
  have "\<forall>k\<in>set bids. cached ?st k \<noteq> None" using c Cons.prems(2) by (auto simp del: cached_cache_erase)
  from Cons.IH [OF _ this] Cons.prems(1,3) obtain c where c': "evict_blocks E bids ?st =
      (map (\<lambda>k. \<lparr>b_id = k, b_data = convertNodeToBlock E (the (cached ?st k))\<rparr>) bids, ?st\<lparr>o_cache := c\<rparr>)"
    "distinct (map fst c)" "\<forall>k. map_of c k = (if k \<in> set bids then None else map_of (o_cache ?st) k)"
    by (auto simp del: cached_cache_erase map_of_cache_erase)
  obtain n where n: "cached st b = Some n" using Cons.prems(2) by auto
  have "map (\<lambda>k. \<lparr>b_id = k, b_data = convertNodeToBlock E (the (cached ?st k))\<rparr>) bids =
      map (\<lambda>k. \<lparr>b_id = k, b_data = convertNodeToBlock E (the (cached st k))\<rparr>) bids"
    using c by (auto intro!: map_cong)
  then have "evict_blocks E (b # bids) st =
      (map (\<lambda>k. \<lparr>b_id = k, b_data = convertNodeToBlock E (the (cached st k))\<rparr>) (b # bids), st\<lparr>o_cache := c\<rparr>)"
    using c'(1) n by (simp add: cache_erase_def)
  then show ?case using c'(2,3) by (intro exI [of _ c]) auto
qed

lemma GetIntersectingBlocks_props:
  assumes "env_ok E" "distinct (map fst (o_cache st))"
  shows "distinct (GetIntersectingBlocks E st x d)" "length (GetIntersectingBlocks E st x d) \<le> Z"
    "k \<in> set (GetIntersectingBlocks E st x d) \<Longrightarrow>
       \<exists>n. cached st k = Some n \<and> GetNodeOnPath st (npos n) d = GetNodeOnPath st x d"
proof -
  have "distinct (e_order E (map fst (o_cache st)))" using assms by (simp add: env_ok_def)
  then show "distinct (GetIntersectingBlocks E st x d)" by (simp add: GetIntersectingBlocks_def)
  show "length (GetIntersectingBlocks E st x d) \<le> Z" by (simp add: GetIntersectingBlocks_def)
  show "\<exists>n. cached st k = Some n \<and> GetNodeOnPath st (npos n) d = GetNodeOnPath st x d"
    if "k \<in> set (GetIntersectingBlocks E st x d)"
    using that by (auto simp: GetIntersectingBlocks_def fits_at_def dest!: in_set_takeD split: option.splits)
qed

text \<open>What writing back leaves alone.\<close>

definition wkeeps :: "oram \<Rightarrow> oram \<Rightarrow> bool" where
  "wkeeps st st' \<longleftrightarrow>
     cfg st' = cfg st \<and> o_leafList st' = o_leafList st \<and> o_readviewmap st' = o_readviewmap st \<and>
     rs_empty (o_store st') = rs_empty (o_store st)"

lemma wkeeps_refl [simp]: "wkeeps st st"
  by (simp add: wkeeps_def)

lemma wkeeps_trans: "wkeeps a b \<Longrightarrow> wkeeps b c \<Longrightarrow> wkeeps a c"
  by (simp add: wkeeps_def)

text \<open>Moving the nodes \<open>ns\<close> from the cache into the bucket \<open>nd\<close>.\<close>

lemma oram_rep_evict:
  assumes rep: "oram_rep E st R V M" and nd: "nd \<in> R" and d: "d \<le> o_depth st"
    and ns: "distinct (map nkey ns)" "\<forall>n\<in>set ns. cached st (nkey n) = Some n \<and> GetNodeOnPath st (npos n) d = nd"
    and st': "cfg st' = cfg st" "store_rep E st' (V(nd := ns))" "distinct (map fst (o_cache st'))"
    "\<And>k. map_of (o_cache st') k = (if k \<in> nkey ` set ns then None else map_of (o_cache st) k)"
  shows "oram_rep E st' (R - {nd}) (V(nd := ns)) M"
proof -
  note cg = cfg_cong [OF st'(1)] good_cfg [OF st'(1)]
  have c: "cached st' k = (if k \<in> nkey ` set ns then None else cached st k)" for k
    by (simp add: cached_def st'(4))
  have g: "good E st n" if "n \<in> set ns" for n using that ns(2) rep by (auto simp: oram_rep_def cache_ok_def)
  have p: "nd \<in> path st (npos n)" if "n \<in> set ns" for n using that ns(2) d by (auto simp: path_def)
  have nl: "nkey m \<notin> nkey ` set ns" if "i \<in> all_buckets st - R" "m \<in> set (V i)" for i m
    using that rep ns(2) by (fastforce simp: oram_rep_def live_ok_def)
  have nl': "nkey ` set ns \<inter> nkey ` set (V i) = {}" if "i \<in> all_buckets st - R" for i
    unfolding disjoint_iff using nl [OF that] by (metis imageE)
  have "cache_ok E st'" using rep st'(3) by (auto simp: oram_rep_def cache_ok_def c cg st'(4))
  moreover have "live_ok E st' (R - {nd}) (V(nd := ns))"
    unfolding live_ok_def cg
  proof (intro conjI ballI impI)
    fix i assume i: "i \<in> all_buckets st - (R - {nd})"
    show "distinct (map nkey ((V(nd := ns)) i))"
      using i rep ns(1) by (auto simp: oram_rep_def live_ok_def)
    fix n assume n: "n \<in> set ((V(nd := ns)) i)"
    show "good E st n" "i \<in> path st (npos n)" "cached st' (nkey n) = None"
      using i n g p rep by (auto simp: oram_rep_def live_ok_def c split: if_splits)
  next
    fix i j assume ij: "i \<in> all_buckets st - (R - {nd})" "j \<in> all_buckets st - (R - {nd})" "i \<noteq> j"
    consider "i = nd" "j \<in> all_buckets st - R" | "j = nd" "i \<in> all_buckets st - R"
      | "i \<in> all_buckets st - R" "j \<in> all_buckets st - R" using ij nd by blast
    then show "nkey ` set ((V(nd := ns)) i) \<inter> nkey ` set ((V(nd := ns)) j) = {}"
    proof cases
      case 3
      then have "i \<noteq> nd" "j \<noteq> nd" using nd by auto
      with 3 show ?thesis using rep ij(3) by (simp add: oram_rep_def live_ok_def)
    next
      case 1
      then show ?thesis using nl' [OF 1(2)] ij(3) by simp
    next
      case 2
      then show ?thesis using nl' [OF 2(2)] ij(3) by (simp add: Int_commute)
    qed
  qed
  moreover have "mem_ok st' (R - {nd}) (V(nd := ns)) M"
    unfolding mem_ok_def cg
  proof (intro allI)
    fix k n
    have ndb: "nd \<in> all_buckets st" if ne: "ns \<noteq> []"
    proof -
      obtain m where m: "m \<in> set ns" using ne by (cases ns) auto
      then show ?thesis
        using GetNodeOnPath_range [OF geomD(1), of E st "npos m" d] g [OF m] d ns(2) rep
        by (auto simp: oram_rep_def good_def)
    qed
    have buckets: "(\<exists>i\<in>all_buckets st - (R - {nd}). n \<in> set ((V(nd := ns)) i) \<and> nkey n = k) \<longleftrightarrow>
        n \<in> set ns \<and> nkey n = k \<or> (\<exists>i\<in>all_buckets st - R. n \<in> set (V i) \<and> nkey n = k)" (is "?l \<longleftrightarrow> ?r")
    proof
      assume ?l
      then show ?r by (auto split: if_splits)
    next
      assume ?r
      then consider "n \<in> set ns" "nkey n = k" | i where "i \<in> all_buckets st - R" "n \<in> set (V i)" "nkey n = k" by blast
      then show ?l
      proof cases
        case 1
        then have "nd \<in> all_buckets st" using ndb by fastforce
        with 1 show ?thesis by (intro bexI [of _ nd]) auto
      next
        case (2 i)
        then show ?thesis using nd by (intro bexI [of _ i]) auto
      qed
    qed
    have "M k = Some n \<longleftrightarrow> cached st k = Some n \<or> (\<exists>i\<in>all_buckets st - R. n \<in> set (V i) \<and> nkey n = k)"
      using rep by (simp add: oram_rep_def mem_ok_def)
    also have "\<dots> \<longleftrightarrow> (cached st' k = Some n \<or> n \<in> set ns \<and> nkey n = k) \<or>
        (\<exists>i\<in>all_buckets st - R. n \<in> set (V i) \<and> nkey n = k)"
      using ns(2) by (auto simp: c)
    also have "\<dots> \<longleftrightarrow> cached st' k = Some n \<or>
        (\<exists>i\<in>all_buckets st - (R - {nd}). n \<in> set ((V(nd := ns)) i) \<and> nkey n = k)"
      unfolding buckets by blast
    finally show "M k = Some n \<longleftrightarrow> cached st' k = Some n \<or>
        (\<exists>i\<in>all_buckets st - (R - {nd}). n \<in> set ((V(nd := ns)) i) \<and> nkey n = k)" .
  qed
  ultimately show ?thesis using rep st'(2) by (simp add: oram_rep_def cg)
qed

lemma WritePath_rep:
  assumes E: "env_ok E" and rep: "oram_rep E st (R - set (o_writeviewmap st)) V M"
    and leaf: "leaf_ok st leaf" and d: "d \<le> o_depth st" and nd: "GetNodeOnPath st leaf d \<in> R"
  obtains st' V' where "WritePath E leaf d st = Inr st'" "oram_rep E st' (R - set (o_writeviewmap st')) V' M"
    "set (o_writeviewmap st') = insert (GetNodeOnPath st leaf d) (set (o_writeviewmap st))" "wkeeps st st'"
proof (cases "GetNodeOnPath st leaf d \<in> set (o_writeviewmap st)")
  case True
  then show ?thesis using that [of st V] rep by (simp add: WritePath_def insert_absorb)
next
  case False
  let ?nd = "GetNodeOnPath st leaf d"
  let ?bids = "GetIntersectingBlocks E st leaf d"
  let ?ns = "map (\<lambda>k. the (cached st k)) ?bids"
  have geom: "geom E st" and sr: "store_rep E st V" and c: "cache_ok E st" using rep by (auto simp: oram_rep_def)
  have dist: "distinct (map fst (o_cache st))" using c by (simp add: cache_ok_def)
  note gi = GetIntersectingBlocks_props [OF E dist, where x = leaf and d = d]
  obtain ch where ev: "evict_blocks E ?bids st =
      (map (\<lambda>k. \<lparr>b_id = k, b_data = convertNodeToBlock E (the (cached st k))\<rparr>) ?bids, st\<lparr>o_cache := ch\<rparr>)"
    "distinct (map fst ch)" "\<forall>k. map_of ch k = (if k \<in> set ?bids then None else map_of (o_cache st) k)"
    using evict_blocks_eq [OF gi(1) _ dist, of E] gi(3) by fastforce
  have key: "nkey (the (cached st k)) = k" if "k \<in> set ?bids" for k
    using gi(3) [OF that] c by (auto simp: cache_ok_def)
  then have keys: "map nkey ?ns = ?bids" by (simp add: comp_def map_idI)
  have ks: "nkey ` set ?ns = set ?bids" using arg_cong [OF keys, of set] by (simp only: set_map)
  have ns: "\<forall>n\<in>set ?ns. cached st (nkey n) = Some n \<and> GetNodeOnPath st (npos n) d = ?nd"
    using gi(3) key by fastforce
  have ok: "bucket_ok E ?ns"
    using gi(2) ns c by (auto simp: bucket_ok_def cache_ok_def good_def)
  let ?st1 = "st\<lparr>o_cache := ch, o_writeviewmap := o_writeviewmap st @ [?nd]\<rparr>"
  have cfg1: "cfg ?st1 = cfg st" by (simp add: cfg_def)
  have bkt: "map (\<lambda>k. \<lparr>b_id = k, b_data = convertNodeToBlock E (the (cached st k))\<rparr>) ?bids @
      replicate (Z - length ?bids) (dummy_blk E (st\<lparr>o_cache := ch\<rparr>)) = bkt_of E ?st1 ?ns"
    using key by (simp add: bkt_of_def dummy_blk_def)
  have ndb: "?nd \<in> all_buckets ?st1"
    using GetNodeOnPath_range [OF geomD(1) [OF geom] leaf d] cfg_cong(5) [OF cfg1] by simp
  have "store_rep E ?st1 V" using sr cfg_cong [OF cfg1] by (simp add: store_rep_def)
  then obtain st' where w: "WriteBucket E ?st1 ?nd (bkt_of E ?st1 ?ns) = Inr st'" "store_rep E st' (V(?nd := ?ns))"
    "cfg st' = cfg ?st1" "rs_empty (o_store st') = rs_empty (o_store ?st1)"
    "o_cache st' = o_cache ?st1" "o_leafList st' = o_leafList ?st1" "o_readviewmap st' = o_readviewmap ?st1"
    "o_writeviewmap st' = o_writeviewmap ?st1"
    using WriteBucket_eq [OF E _ _ ndb ok, of V] geom cfg_cong(1) [OF cfg1] by metis
  have wp: "WritePath E leaf d st = Inr st'"
    using False ev(1) w(1) bkt by (simp add: WritePath_def Let_def)
  have "oram_rep E st' (R - set (o_writeviewmap st) - {?nd}) (V(?nd := ?ns)) M"
  proof (rule oram_rep_evict [OF rep _ d _ ns])
    show "?nd \<in> R - set (o_writeviewmap st)" using nd False by simp
    show "distinct (map nkey ?ns)" unfolding keys by (rule gi(1))
    show "cfg st' = cfg st" using w(3) cfg1 by simp
    show "map_of (o_cache st') k = (if k \<in> nkey ` set ?ns then None else map_of (o_cache st) k)" for k
      using ev(3) w(5) ks by simp
  qed (use w(2,5) ev(2) in auto)
  moreover have "R - set (o_writeviewmap st) - {?nd} = R - set (o_writeviewmap st')" using w(8) by auto
  ultimately show ?thesis
    using that [OF wp, of "V(?nd := ?ns)"] w(3,4,6,7,8) cfg1 by (simp add: wkeeps_def)
qed

section \<open>All fetched buckets\<close>

lemma write_leaves_rep:
  assumes "env_ok E" "oram_rep E st (R - set (o_writeviewmap st)) V M" "d \<le> o_depth st"
    "\<forall>l\<in>set ls. leaf_ok st l \<and> GetNodeOnPath st l d \<in> R"
  obtains st' V' where "write_leaves E d ls st = Inr st'" "oram_rep E st' (R - set (o_writeviewmap st')) V' M"
    "set (o_writeviewmap st') = set (o_writeviewmap st) \<union> (\<lambda>l. GetNodeOnPath st l d) ` set ls" "wkeeps st st'"
  using assms(2-4)
proof (induction ls arbitrary: st V thesis)
  case Nil
  show ?case by (rule Nil.prems(1) [of st V]) (use Nil.prems(2) in auto)
next
  case (Cons l ls)
  obtain st1 V1 where st1: "WritePath E l d st = Inr st1" "oram_rep E st1 (R - set (o_writeviewmap st1)) V1 M"
    "set (o_writeviewmap st1) = insert (GetNodeOnPath st l d) (set (o_writeviewmap st))" "wkeeps st st1"
    using WritePath_rep [OF assms(1) Cons.prems(2) _ Cons.prems(3)] Cons.prems(4) by (metis list.set_intros(1))
  have cfg: "cfg st1 = cfg st" using st1(4) by (simp add: wkeeps_def)
  note cg = cfg_cong(2,3) [OF cfg] cfgD(1) [OF cfg]
  obtain st2 V2 where st2: "write_leaves E d ls st1 = Inr st2" "oram_rep E st2 (R - set (o_writeviewmap st2)) V2 M"
    "set (o_writeviewmap st2) = set (o_writeviewmap st1) \<union> (\<lambda>l. GetNodeOnPath st1 l d) ` set ls" "wkeeps st1 st2"
    using Cons.IH [OF _ st1(2)] Cons.prems(3,4) cg by auto
  show ?case
  proof (rule Cons.prems(1) [of st2 V2])
    show "wkeeps st st2" using st1(4) st2(4) by (rule wkeeps_trans)
  qed (use st1 st2 cg in auto)
qed

lemma write_levels_rep:
  assumes "env_ok E" "oram_rep E st (R - set (o_writeviewmap st)) V M" "\<forall>d\<in>set ds. d \<le> o_depth st"
    "\<forall>l\<in>set (o_leafList st). leaf_ok st l \<and> path st l \<subseteq> R"
  obtains st' V' where "write_levels E ds st = Inr st'" "oram_rep E st' (R - set (o_writeviewmap st')) V' M"
    "set (o_writeviewmap st') = set (o_writeviewmap st) \<union> (\<Union>l\<in>set (o_leafList st). GetNodeOnPath st l ` set ds)"
    "wkeeps st st'"
  using assms(2-4)
proof (induction ds arbitrary: st V thesis)
  case Nil
  show ?case by (rule Nil.prems(1) [of st V]) (use Nil.prems(2) in auto)
next
  case (Cons d ds)
  have "\<forall>l\<in>set (o_leafList st). leaf_ok st l \<and> GetNodeOnPath st l d \<in> R"
    using Cons.prems(3,4) unfolding path_def by fastforce
  then obtain st1 V1 where st1: "write_leaves E d (o_leafList st) st = Inr st1"
    "oram_rep E st1 (R - set (o_writeviewmap st1)) V1 M"
    "set (o_writeviewmap st1) = set (o_writeviewmap st) \<union> (\<lambda>l. GetNodeOnPath st l d) ` set (o_leafList st)" "wkeeps st st1"
    using write_leaves_rep [OF assms(1) Cons.prems(2)] Cons.prems(3) by (metis list.set_intros(1))
  have cfg: "cfg st1 = cfg st" and ll: "o_leafList st1 = o_leafList st" using st1(4) by (auto simp: wkeeps_def)
  note cg = cfg_cong(2,3,4) [OF cfg] cfgD(1) [OF cfg]
  obtain st2 V2 where st2: "write_levels E ds st1 = Inr st2" "oram_rep E st2 (R - set (o_writeviewmap st2)) V2 M"
    "set (o_writeviewmap st2) = set (o_writeviewmap st1) \<union> (\<Union>l\<in>set (o_leafList st1). GetNodeOnPath st1 l ` set ds)"
    "wkeeps st1 st2"
    using Cons.IH [OF _ st1(2)] Cons.prems(3,4) cg ll by auto
  show ?case
  proof (rule Cons.prems(1) [of st2 V2])
    show "wkeeps st st2" using st1(4) st2(4) by (rule wkeeps_trans)
    show "set (o_writeviewmap st2) =
        set (o_writeviewmap st) \<union> (\<Union>l\<in>set (o_leafList st). GetNodeOnPath st l ` set (d # ds))"
      using st1(3) st2(3) cg ll by auto
  qed (use st1 st2 in auto)
qed

text \<open>After the last bucket no stored bucket is out of date.\<close>

lemma write_back:
  assumes E: "env_ok E" and op: "opst E st M"
  obtains st' V where "write_levels E (rev [0..<Suc (o_depth st)]) st = Inr st'" "oram_rep E st' {} V M"
    "cfg st' = cfg st" "rs_empty (o_store st') = rs_empty (o_store st)"
proof -
  let ?R = "set (o_readviewmap st)"
  obtain V where "oram_rep E st ?R V M" using op by (auto simp: opst_def)
  moreover have lo: "leaves_ok st" and w: "o_writeviewmap st = []" using op by (auto simp: opst_def)
  ultimately have rep: "oram_rep E st (?R - set (o_writeviewmap st)) V M" by simp
  have ds: "set (rev [0..<Suc (o_depth st)]) = {0..o_depth st}" by auto
  obtain st' V' where st': "write_levels E (rev [0..<Suc (o_depth st)]) st = Inr st'"
    "oram_rep E st' (?R - set (o_writeviewmap st')) V' M"
    "set (o_writeviewmap st') = set (o_writeviewmap st) \<union> (\<Union>l\<in>set (o_leafList st). GetNodeOnPath st l ` set (rev [0..<Suc (o_depth st)]))"
    "wkeeps st st'"
    using write_levels_rep [OF E rep, of "rev [0..<Suc (o_depth st)]"] lo ds by (auto simp: leaves_ok_def)
  have "set (o_writeviewmap st') = ?R" using st'(3) lo w unfolding ds by (simp add: leaves_ok_def path_def)
  then show ?thesis using that st' by (simp add: wkeeps_def)
qed

end
