(* ===== verification/Oram_Refresh.thy ===== *)
theory Oram_Refresh
  imports Oram_Write
begin

text \<open>
  The position update of \<open>finilize\<close>: every node read since \<open>start\<close> gets a new random position,
  and the positions that cached parents record for their children are brought up to date,
  from the leaves of the AVL tree to its root. A memory is \<open>linked\<close> when every recorded
  position is the position of the child and heights decrease towards the leaves.
\<close>

section \<open>Linked memories\<close>

type_synonym mem = "bid \<Rightarrow> node option"

definition link :: "mem \<Rightarrow> bid \<Rightarrow> int \<Rightarrow> int \<Rightarrow> bool" where
  "link M c p h \<longleftrightarrow> (bid_ne_int c 0 \<longrightarrow> (\<exists>m. M c = Some m \<and> npos m = p \<and> nheight m < h))"

definition linked_node :: "mem \<Rightarrow> node \<Rightarrow> bool" where
  "linked_node M n \<longleftrightarrow> link M (nleftID n) (nleftPos n) (nheight n) \<and> link M (nrightID n) (nrightPos n) (nheight n)"

definition linked :: "mem \<Rightarrow> bool" where
  "linked M \<longleftrightarrow> (\<forall>k n. M k = Some n \<longrightarrow> linked_node M n)"

text \<open>Equal up to positions.\<close>

definition moved :: "node \<Rightarrow> node \<Rightarrow> bool" where
  "moved n n' \<longleftrightarrow> nkey n' = nkey n \<and> nvalue n' = nvalue n \<and> nleftID n' = nleftID n \<and>
     nrightID n' = nrightID n \<and> nheight n' = nheight n"

lemma moved_refl [simp]: "moved n n"
  by (simp add: moved_def)

text \<open>The positions a refreshed node records.\<close>

definition child_pos :: "oram \<Rightarrow> bid \<Rightarrow> int \<Rightarrow> int" where
  "child_pos st c old = (if bid_ne_int c 0 then (case cached st c of Some m \<Rightarrow> npos m | None \<Rightarrow> old) else old)"

lemma refresh_child_eq:
  assumes "cache_ok E st"
  shows "refresh_child st c old = Inr (child_pos st c old)"
proof (cases "bid_ne_int c 0")
  case True
  then have "cache_count st c \<longleftrightarrow> cached st c \<noteq> None"
    using cache_count_real [OF assms] by (simp add: bid_ne_int_iff)
  then show ?thesis by (auto simp: refresh_child_def child_pos_def split: option.splits)
qed (simp add: refresh_child_def child_pos_def)

lemma child_pos_cong: "cached st' c = cached st c \<Longrightarrow> child_pos st' c old = child_pos st c old"
  by (simp add: child_pos_def)

lemma leaf_int32: "geom E st \<Longrightarrow> leaf_ok st p \<Longrightarrow> int32 p"
proof -
  assume g: "geom E st" and l: "leaf_ok st p"
  have "(2::int) ^ o_depth st \<le> 2 ^ 31" using geomD(5) [OF g] by (intro power_increasing) auto
  then show "int32 p" using l by (simp add: leaf_ok_def int32_def)
qed

lemma child_pos_int32:
  assumes "opst E st M" "int32 old"
  shows "int32 (child_pos st c old)"
  using assms opst_cache_ok [OF assms(1)]
  by (auto simp: child_pos_def cache_ok_def good_def node_ok_def split: option.splits)

lemma RandomPath_leaf:
  assumes "geom E st"
  shows "leaf_ok st (fst (ORAM_RandomPath E st))"
proof -
  have "e_rand E (o_rng st) mod (o_maxOfRandom st + 1) < 2 ^ o_depth st"
    using geomD(2) [OF assms] by simp
  then have "int (e_rand E (o_rng st) mod (o_maxOfRandom st + 1)) < int (2 ^ o_depth st)" by (simp only: of_nat_less_iff)
  then show ?thesis by (simp add: leaf_ok_def ORAM_RandomPath_def)
qed

lemma opst_rng: "opst E st M \<Longrightarrow> opst E (st\<lparr>o_rng := r\<rparr>) M"
  by (erule opst_same_store) (simp_all add: cfg_def)

lemma rng_fields [simp]: "cfg (st\<lparr>o_rng := r\<rparr>) = cfg st" "cached (st\<lparr>o_rng := r\<rparr>) = cached st"
  by (simp_all add: cfg_def cached_def fun_eq_iff)

text \<open>What the refresh leaves alone.\<close>

definition rkeeps :: "oram \<Rightarrow> oram \<Rightarrow> bool" where
  "rkeeps st st' \<longleftrightarrow>
     cfg st' = cfg st \<and> o_modified st' = o_modified st \<and> map fst (o_cache st') = map fst (o_cache st) \<and>
     rs_empty (o_store st') = rs_empty (o_store st)"

lemma rkeeps_refl [simp]: "rkeeps st st"
  by (simp add: rkeeps_def)

lemma rkeeps_trans: "rkeeps a b \<Longrightarrow> rkeeps b c \<Longrightarrow> rkeeps a c"
  by (simp add: rkeeps_def)

lemma rkeeps_cache_put: "cached st k \<noteq> None \<Longrightarrow> rkeeps st (cache_put k n st)"
  by (auto simp: rkeeps_def o_cache_cache_put update_keys cached_def image_iff map_of_eq_None_iff
      split: option.splits dest!: map_of_SomeD) force

lemma rkeeps_rng [simp]: "rkeeps st (st\<lparr>o_rng := r\<rparr>)"
  by (simp add: rkeeps_def)

lemma refresh_node_step:
  assumes op: "opst E st M" and b: "cached st b = Some n" "nheight n = int i"
    and ch: "bid_ne_int (nleftID n) 0 \<Longrightarrow> nleftID n \<noteq> b" "bid_ne_int (nrightID n) 0 \<Longrightarrow> nrightID n \<noteq> b"
  obtains st' p where "refresh_node E i b st = Inr st'"
    "opst E st' (M(b \<mapsto> n\<lparr>npos := p, nleftPos := child_pos st (nleftID n) (nleftPos n),
                       nrightPos := child_pos st (nrightID n) (nrightPos n)\<rparr>))"
    "b \<notin> set (o_modified st) \<Longrightarrow> p = npos n" "rkeeps st st'"
    "\<And>k. cached st' k = (if k = b then Some (n\<lparr>npos := p, nleftPos := child_pos st (nleftID n) (nleftPos n),
                       nrightPos := child_pos st (nrightID n) (nrightPos n)\<rparr>) else cached st k)"
proof -
  define rp where "rp = (if nkey n \<in> set (o_modified st) then ORAM_RandomPath E st else (npos n, st))"
  let ?p = "fst rp"
  let ?lp = "child_pos st (nleftID n) (nleftPos n)"
  let ?rp = "child_pos st (nrightID n) (nrightPos n)"
  let ?n0 = "n\<lparr>npos := ?p\<rparr>"
  let ?n1 = "n\<lparr>npos := ?p, nleftPos := ?lp\<rparr>"
  let ?n2 = "n\<lparr>npos := ?p, nleftPos := ?lp, nrightPos := ?rp\<rparr>"
  let ?s0 = "cache_put b (Some ?n0) (snd rp)"
  let ?s1 = "cache_put b (Some ?n1) ?s0"
  let ?s2 = "cache_put b (Some ?n2) ?s1"
  have g: "good E st n" and key: "nkey n = b" using opst_cache_ok [OF op] b by (auto simp: cache_ok_def)
  have geom: "geom E st" using op by (rule opst_geom)
  have opr: "opst E (snd rp) M" and cr: "cached (snd rp) = cached st" "cfg (snd rp) = cfg st" "rkeeps st (snd rp)"
    using op opst_rng [OF op] by (auto simp: rp_def ORAM_RandomPath_def)
  have leaf: "leaf_ok st ?p" using RandomPath_leaf [OF geom] g by (auto simp: rp_def good_def)
  have i32: "int32 (nleftPos n)" "int32 (nrightPos n)" using g by (auto simp: good_def node_ok_def)
  have gg: "good E st ?n0" "good E st ?n1" "good E st ?n2"
    using g leaf leaf_int32 [OF geom leaf] child_pos_int32 [OF op i32(1)] child_pos_int32 [OF op i32(2)]
    by (simp_all add: good_def node_ok_def)
  have o0: "opst E ?s0 (M(b \<mapsto> ?n0))"
    using gg(1) key b(1) cr by (intro opst_cache_put [OF opr]) (auto simp: good_cfg [OF cr(2)])
  have gs: "good E ?s0 = good E st" "good E ?s1 = good E st" by (rule good_cfg, simp add: cr(2))+
  have o1: "opst E ?s1 (M(b \<mapsto> ?n1))"
    using gg(2) key opst_cache_put [OF o0, of ?n1 b] by (simp add: gs)
  have o2: "opst E ?s2 (M(b \<mapsto> ?n2))"
    using gg(3) key opst_cache_put [OF o1, of ?n2 b] by (simp add: gs)
  have l: "refresh_child ?s0 (nleftID n) (nleftPos n) = Inr ?lp"
    using refresh_child_eq [OF opst_cache_ok [OF o0]] ch(1) cr(1) by (auto simp: child_pos_def)
  have r: "refresh_child ?s1 (nrightID n) (nrightPos n) = Inr ?rp"
    using refresh_child_eq [OF opst_cache_ok [OF o1]] ch(2) cr(1) by (auto simp: child_pos_def)
  have "refresh_node E i b st = Inr ?s2"
    using b l r by (simp add: refresh_node_def rp_def [symmetric] case_prod_beta Let_def)
  moreover have "rkeeps st ?s2"
  proof -
    have "rkeeps (snd rp) ?s0" using cr(1) b(1) by (intro rkeeps_cache_put) simp
    moreover have "rkeeps ?s0 ?s1" "rkeeps ?s1 ?s2" by (intro rkeeps_cache_put, simp)+
    ultimately show ?thesis using cr(3) rkeeps_trans by blast
  qed
  moreover have "?p = npos n" if "b \<notin> set (o_modified st)" using that key by (simp add: rp_def)
  ultimately show ?thesis using that [OF _ o2] cr(1) by simp
qed

section \<open>The invariant of the update\<close>

definition kids :: "node \<Rightarrow> bid set" where
  "kids n = {c \<in> {nleftID n, nrightID n}. bid_ne_int c 0}"

text \<open>\<open>D\<close> is the set of the nodes done so far; their cached children are done.\<close>

definition refreshing :: "env \<Rightarrow> oram \<Rightarrow> mem \<Rightarrow> bid set \<Rightarrow> oram \<Rightarrow> mem \<Rightarrow> bool" where
  "refreshing E st0 M0 D st M \<longleftrightarrow>
     opst E st M \<and> rkeeps st0 st \<and> (\<forall>k. rel_option moved (M0 k) (M k)) \<and>
     (\<forall>k. k \<notin> D \<longrightarrow> M k = M0 k) \<and>
     (\<forall>k. cached st k = None \<longleftrightarrow> cached st0 k = None) \<and> (\<forall>k\<in>D. cached st0 k \<noteq> None) \<and>
     (\<forall>k n n'. M0 k = Some n \<longrightarrow> M k = Some n' \<longrightarrow> k \<notin> set (o_modified st0) \<longrightarrow> npos n' = npos n) \<and>
     (\<forall>k n. k \<in> D \<longrightarrow> M k = Some n \<longrightarrow> linked_node M n \<and> (\<forall>c\<in>kids n. cached st0 c \<noteq> None \<longrightarrow> c \<in> D))"

lemma refreshingD:
  assumes "refreshing E st0 M0 D st M"
  shows "opst E st M" "rkeeps st0 st" "rel_option moved (M0 k) (M k)" "k \<notin> D \<Longrightarrow> M k = M0 k"
    "cached st k = None \<longleftrightarrow> cached st0 k = None" "k \<in> D \<Longrightarrow> cached st0 k \<noteq> None"
    "M0 k = Some n \<Longrightarrow> M k = Some n' \<Longrightarrow> k \<notin> set (o_modified st0) \<Longrightarrow> npos n' = npos n"
    "k \<in> D \<Longrightarrow> M k = Some n \<Longrightarrow> linked_node M n"
    "k \<in> D \<Longrightarrow> M k = Some n \<Longrightarrow> c \<in> kids n \<Longrightarrow> cached st0 c \<noteq> None \<Longrightarrow> c \<in> D"
  using assms unfolding refreshing_def by blast+

lemma linked_node_kids:
  assumes "linked_node M n" "c \<in> kids n"
  obtains m where "M c = Some m" "nheight m < nheight n"
  using assms by (auto simp: linked_node_def kids_def link_def)

lemma kids_moved: "moved n n' \<Longrightarrow> kids n' = kids n"
  by (simp add: moved_def kids_def)

text \<open>Changing a node that is no child of \<open>n\<close>.\<close>

lemma linked_node_upd: "linked_node M n \<Longrightarrow> b \<notin> kids n \<Longrightarrow> linked_node (M(b \<mapsto> x)) n"
  by (auto simp: linked_node_def link_def kids_def)

lemma child_pos_link:
  assumes R: "refreshing E st0 M0 D st M" and l: "link M0 c p h"
    and c: "bid_ne_int c 0 \<Longrightarrow> cached st0 c \<noteq> None \<Longrightarrow> c \<in> D"
  shows "link M c (child_pos st c p) h"
  unfolding link_def
proof
  assume nz: "bid_ne_int c 0"
  then obtain m where m: "M0 c = Some m" "npos m = p" "nheight m < h" using l by (auto simp: link_def)
  then obtain m' where m': "M c = Some m'" "moved m m'"
    using refreshingD(3) [OF R, of c] by (cases "M c") auto
  show "\<exists>m. M c = Some m \<and> npos m = child_pos st c p \<and> nheight m < h"
  proof (cases "cached st c")
    case None
    then have "cached st0 c = None" using refreshingD(5) [OF R] by simp
    then have "M c = M0 c" using refreshingD(4,6) [OF R, of c] by blast
    then show ?thesis using m None by (simp add: child_pos_def)
  next
    case (Some x)
    then have "x = m'" using opst_cached [OF refreshingD(1) [OF R]] m'(1) by fastforce
    then show ?thesis using m(3) m' Some nz by (simp add: child_pos_def moved_def)
  qed
qed

lemma refreshing_step:
  assumes R: "refreshing E st0 M0 D st M" and L: "linked M0" and b: "cached st b = Some n" "nheight n = int i" "b \<notin> D"
    and kD: "\<forall>c\<in>kids n. cached st0 c \<noteq> None \<longrightarrow> c \<in> D"
  obtains st' M' where "refresh_node E i b st = Inr st'" "refreshing E st0 M0 (insert b D) st' M'"
proof -
  note op = refreshingD(1) [OF R]
  have Mb: "M b = Some n" using opst_cached [OF op b(1)] .
  then have M0b: "M0 b = Some n" using refreshingD(4) [OF R b(3)] by simp
  then have ln: "linked_node M0 n" using L by (simp add: linked_def)
  have nb: "b \<notin> kids n"
  proof
    assume "b \<in> kids n"
    then obtain m where "M0 b = Some m" "nheight m < nheight n" by (rule linked_node_kids [OF ln])
    then show False using M0b by simp
  qed
  have kmod: "o_modified st = o_modified st0" using refreshingD(2) [OF R] by (simp add: rkeeps_def)
  obtain st' p where s: "refresh_node E i b st = Inr st'"
    "opst E st' (M(b \<mapsto> n\<lparr>npos := p, nleftPos := child_pos st (nleftID n) (nleftPos n),
                       nrightPos := child_pos st (nrightID n) (nrightPos n)\<rparr>))"
    "b \<notin> set (o_modified st) \<Longrightarrow> p = npos n" "rkeeps st st'"
    "\<And>k. cached st' k = (if k = b then Some (n\<lparr>npos := p, nleftPos := child_pos st (nleftID n) (nleftPos n),
                       nrightPos := child_pos st (nrightID n) (nrightPos n)\<rparr>) else cached st k)"
    using refresh_node_step [OF op b(1,2)] nb by (auto simp: kids_def)
  define n' where "n' = n\<lparr>npos := p, nleftPos := child_pos st (nleftID n) (nleftPos n),
                       nrightPos := child_pos st (nrightID n) (nrightPos n)\<rparr>"
  have mv: "moved n n'" by (simp add: n'_def moved_def)
  have "linked_node M n'"
    using ln kD child_pos_link [OF R] by (auto simp: linked_node_def n'_def kids_def)
  then have ln': "linked_node (M(b \<mapsto> n')) n'" using nb kids_moved [OF mv] by (simp add: linked_node_upd)
  have "linked_node (M(b \<mapsto> n')) m" if "k \<in> D" "M k = Some m" for k m
  proof -
    have "b \<notin> kids m" using refreshingD(9) [OF R that] refreshingD(5) [OF R, of b] b(1,3) by fastforce
    then show ?thesis using refreshingD(8) [OF R that] by (simp add: linked_node_upd)
  qed
  note lD = this
  have "refreshing E st0 M0 (insert b D) st' (M(b \<mapsto> n'))"
    unfolding refreshing_def
  proof (intro conjI allI impI ballI)
    show "opst E st' (M(b \<mapsto> n'))" using s(2) by (simp add: n'_def)
    show "rkeeps st0 st'" using refreshingD(2) [OF R] s(4) by (rule rkeeps_trans)
    show "rel_option moved (M0 k) ((M(b \<mapsto> n')) k)" for k using refreshingD(3) [OF R, of k] M0b mv by simp
    show "(M(b \<mapsto> n')) k = M0 k" if "k \<notin> insert b D" for k using refreshingD(4) [OF R, of k] that by simp
    show "cached st' k = None \<longleftrightarrow> cached st0 k = None" for k using s(5) refreshingD(5) [OF R, of k] b(1) by auto
    show "cached st0 k \<noteq> None" if "k \<in> insert b D" for k
      using that refreshingD(5,6) [OF R, of k] b(1) by auto
    show "npos m' = npos m" if "M0 k = Some m" "(M(b \<mapsto> n')) k = Some m'" "k \<notin> set (o_modified st0)" for k m m'
      using that refreshingD(7) [OF R, of k m m'] s(3) kmod M0b by (auto simp: n'_def split: if_splits)
  next
    fix k m assume k: "k \<in> insert b D" "(M(b \<mapsto> n')) k = Some m"
    show "linked_node (M(b \<mapsto> n')) m" using k lD [of k m] ln' by (auto split: if_splits)
    fix c assume c: "c \<in> kids m" "cached st0 c \<noteq> None"
    show "c \<in> insert b D"
    proof (cases "k = b")
      case True
      then show ?thesis using k(2) c kD kids_moved [OF mv] by auto
    next
      case False
      then show ?thesis using k c refreshingD(9) [OF R, of k m c] by simp
    qed
  qed
  then show ?thesis using that s(1) by blast
qed

section \<open>One level and all levels\<close>

definition below :: "oram \<Rightarrow> nat \<Rightarrow> bid set" where
  "below st i = {k. \<exists>n. cached st k = Some n \<and> nheight n < int i}"

definition level :: "oram \<Rightarrow> nat \<Rightarrow> bid set" where
  "level st i = {k. \<exists>n. cached st k = Some n \<and> nheight n = int i}"

lemma below_Suc: "below st (Suc i) = below st i \<union> level st i"
  by (auto simp: below_def level_def)

lemma refreshing_height:
  assumes "refreshing E st0 M0 D st M" "opst E st0 M0" "cached st k = Some n"
  obtains n0 where "cached st0 k = Some n0" "M0 k = Some n0" "moved n0 n"
proof -
  obtain n0 where n0: "cached st0 k = Some n0" using refreshingD(5) [OF assms(1), of k] assms(3) by auto
  moreover have "M0 k = Some n0" using opst_cached [OF assms(2) n0] .
  moreover have "M k = Some n" using opst_cached [OF refreshingD(1) [OF assms(1)] assms(3)] .
  ultimately show ?thesis using that refreshingD(3) [OF assms(1), of k] by simp
qed

lemma refresh_nodes_rep:
  assumes L: "linked M0" and op0: "opst E st0 M0" and R: "refreshing E st0 M0 D st M"
    and D: "below st0 i \<subseteq> D" "level st0 i \<inter> set bs \<inter> D = {}" and d: "distinct bs"
  obtains st' M' where "refresh_nodes E i bs st = Inr st'" "refreshing E st0 M0 (D \<union> (level st0 i \<inter> set bs)) st' M'"
  using R D d
proof (induction bs arbitrary: st M D thesis)
  case Nil
  then show ?case by simp
next
  case (Cons b bs)
  show ?case
  proof (cases "b \<in> level st0 i")
    case False
    have "refresh_node E i b st = Inr st"
    proof (cases "cached st b")
      case (Some n)
      then obtain n0 where "cached st0 b = Some n0" "moved n0 n"
        using refreshing_height [OF Cons.prems(2) op0] by metis
      then show ?thesis using False Some by (auto simp: refresh_node_def level_def moved_def)
    qed (simp add: refresh_node_def)
    moreover have "level st0 i \<inter> set bs \<inter> D = {}" "distinct bs" using Cons.prems(4,5) by auto
    then obtain st' M' where "refresh_nodes E i bs st = Inr st'"
        "refreshing E st0 M0 (D \<union> (level st0 i \<inter> set bs)) st' M'"
      using Cons.IH [OF _ Cons.prems(2,3)] by blast
    moreover have "level st0 i \<inter> set (b # bs) = level st0 i \<inter> set bs" using False by auto
    ultimately show ?thesis using Cons.prems(1) by simp
  next
    case True
    then obtain n where n: "cached st b = Some n"
      using refreshingD(5) [OF Cons.prems(2), of b] by (auto simp: level_def)
    then obtain n0 where n0: "cached st0 b = Some n0" "M0 b = Some n0" "moved n0 n"
      using refreshing_height [OF Cons.prems(2) op0] by metis
    have h: "nheight n0 = int i" "nheight n = int i" using True n0 by (auto simp: level_def moved_def)
    have ln: "linked_node M0 n0" using L n0(2) by (simp add: linked_def)
    have kD: "\<forall>c\<in>kids n. cached st0 c \<noteq> None \<longrightarrow> c \<in> D"
    proof (intro ballI impI)
      fix c assume c: "c \<in> kids n" "cached st0 c \<noteq> None"
      then obtain m where m: "cached st0 c = Some m" by auto
      obtain m' where "M0 c = Some m'" "nheight m' < nheight n0"
        using linked_node_kids [OF ln] c(1) kids_moved [OF n0(3)] by metis
      then have "nheight m < int i" using opst_cached [OF op0 m] h by simp
      then show "c \<in> D" using m Cons.prems(3) by (auto simp: below_def)
    qed
    have "b \<notin> D" using True Cons.prems(4) by auto
    then obtain st1 M1 where s: "refresh_node E i b st = Inr st1" "refreshing E st0 M0 (insert b D) st1 M1"
      using refreshing_step [OF Cons.prems(2) L n h(2) _ kD] by metis
    obtain st' M' where "refresh_nodes E i bs st1 = Inr st'"
        "refreshing E st0 M0 (insert b D \<union> (level st0 i \<inter> set bs)) st' M'"
      using Cons.IH [OF _ s(2)] Cons.prems(3,4,5) by (auto simp: disjoint_iff)
    moreover have "insert b D \<union> (level st0 i \<inter> set bs) = D \<union> (level st0 i \<inter> set (b # bs))" using True by auto
    ultimately show ?thesis using Cons.prems(1) s(1) by simp
  qed
qed

lemma refresh_levels_rep:
  assumes E: "env_ok E" and L: "linked M0" and op0: "opst E st0 M0"
  shows "refreshing E st0 M0 (below st0 i) st M \<Longrightarrow>
    \<exists>st' M'. refresh_levels E [i..<i + m] st = Inr st' \<and> refreshing E st0 M0 (below st0 (i + m)) st' M'"
proof (induction m arbitrary: i st M)
  case 0
  then show ?case by auto
next
  case (Suc m)
  let ?bs = "e_order E (map fst (o_cache st))"
  have keys: "map fst (o_cache st) = map fst (o_cache st0)"
    using refreshingD(2) [OF Suc.prems] by (simp add: rkeeps_def)
  have "distinct (map fst (o_cache st0))" using opst_cache_ok [OF op0] by (simp add: cache_ok_def)
  then have bs: "distinct ?bs" "set ?bs = fst ` set (o_cache st0)"
    using E keys by (auto simp: env_ok_def)
  have lev: "level st0 i \<subseteq> set ?bs"
    unfolding bs(2) by (auto simp: level_def cached_Some_map_of dest!: map_of_SomeD intro: rev_image_eqI)
  have disj: "level st0 i \<inter> set ?bs \<inter> below st0 i = {}" by (auto simp: below_def level_def)
  obtain st1 M1 where s: "refresh_nodes E i ?bs st = Inr st1"
    "refreshing E st0 M0 (below st0 i \<union> (level st0 i \<inter> set ?bs)) st1 M1"
    using refresh_nodes_rep [OF L op0 Suc.prems subset_refl _ bs(1)] disj by blast
  moreover have "below st0 i \<union> (level st0 i \<inter> set ?bs) = below st0 (Suc i)" using lev by (auto simp: below_Suc)
  ultimately obtain st' M' where "refresh_levels E [Suc i..<Suc i + m] st1 = Inr st'"
      "refreshing E st0 M0 (below st0 (Suc i + m)) st' M'" using Suc.IH [of "Suc i" st1 M1] by auto
  moreover have "[i..<i + Suc m] = i # [Suc i..<Suc i + m]" by (simp add: upt_conv_Cons del: upt_Suc)
  ultimately show ?case using s(1) by auto
qed

text \<open>The height up to which \<open>finilize\<close> refreshes nodes.\<close>

definition top_height :: "env \<Rightarrow> oram \<Rightarrow> nat" where
  "top_height E st = (if e_scheme E = Horus then o_depth st + 2 else o_maxHeightOfAVLTree st)"

lemma refresh_range_eq: "\<exists>i m. refresh_range E st = [i..<i + m] \<and> i \<le> 1 \<and> i + m = Suc (top_height E st)"
proof (cases "e_scheme E = Horus")
  case True
  then show ?thesis
    by (intro exI [of _ 0] exI [of _ "o_depth st + 3"]) (simp add: refresh_range_def top_height_def)
next
  case False
  then show ?thesis
    by (intro exI [of _ 1] exI [of _ "o_maxHeightOfAVLTree st"]) (simp add: refresh_range_def top_height_def)
qed

lemma top_height_cfg: "cfg st' = cfg st \<Longrightarrow> top_height E st' = top_height E st"
  using cfgD(1,7) [of st' st] by (simp add: top_height_def)

definition heights_ok :: "env \<Rightarrow> oram \<Rightarrow> mem \<Rightarrow> bool" where
  "heights_ok E st M \<longleftrightarrow> (\<forall>k n. M k = Some n \<longrightarrow> 1 \<le> nheight n \<and> nheight n \<le> int (top_height E st))"

text \<open>A node whose position is about to change has a cached parent.\<close>

definition parents_cached :: "oram \<Rightarrow> mem \<Rightarrow> bool" where
  "parents_cached st M \<longleftrightarrow>
     (\<forall>k n. M k = Some n \<longrightarrow> cached st k = None \<longrightarrow> kids n \<inter> set (o_modified st) = {})"

lemma link_same_pos:
  assumes "link M c p h" "rel_option moved (M c) (M' c)"
    "\<And>m m'. bid_ne_int c 0 \<Longrightarrow> M c = Some m \<Longrightarrow> M' c = Some m' \<Longrightarrow> npos m' = npos m"
  shows "link M' c p h"
  unfolding link_def
proof
  assume nz: "bid_ne_int c 0"
  then obtain m where m: "M c = Some m" "npos m = p" "nheight m < h" using assms(1) by (auto simp: link_def)
  then obtain m' where m': "M' c = Some m'" "moved m m'" using assms(2) by (cases "M' c") auto
  then show "\<exists>m. M' c = Some m \<and> npos m = p \<and> nheight m < h"
    using assms(3) [OF nz m(1) m'(1)] m(2,3) by (simp add: moved_def)
qed

lemma refresh_rep:
  assumes E: "env_ok E" and op: "opst E st M" and L: "linked M" and h: "heights_ok E st M" and pc: "parents_cached st M"
  obtains st' M' where "refresh_levels E (refresh_range E st) st = Inr st'" "opst E st' M'" "linked M'"
    "\<And>k. rel_option moved (M k) (M' k)" "rkeeps st st'" "\<And>k. cached st' k = None \<longleftrightarrow> cached st k = None"
proof -
  obtain i m where im: "refresh_range E st = [i..<i + m]" "i \<le> 1" "i + m = Suc (top_height E st)"
    using refresh_range_eq by blast
  have c1: "1 \<le> nheight n" "nheight n \<le> int (top_height E st)" if "cached st k = Some n" for k n
    using h opst_cached [OF op that] by (auto simp: heights_ok_def)
  have "below st i = {}" using im(2) c1(1) by (fastforce simp: below_def)
  moreover have "refreshing E st M {} st M" using op by (auto simp: refreshing_def option.rel_refl)
  ultimately obtain st' M' where s: "refresh_levels E (refresh_range E st) st = Inr st'"
    "refreshing E st M (below st (i + m)) st' M'"
    using refresh_levels_rep [OF E L op, of i st M m] im(1) by auto
  note R = s(2) [unfolded im(3)]
  have below: "k \<in> below st (Suc (top_height E st)) \<longleftrightarrow> cached st k \<noteq> None" for k
    using c1(2) by (fastforce simp: below_def)
  have "linked_node M' n" if "M' k = Some n" for k n
  proof (cases "cached st k")
    case None
    then have Mk: "M k = Some n" using refreshingD(4) [OF R, of k] below that by simp
    have km: "c \<notin> set (o_modified st)" if "c \<in> kids n" for c
      using pc Mk None that by (auto simp: parents_cached_def)
    have "linked_node M n" using L Mk by (simp add: linked_def)
    moreover have "link M' c p h" if "link M c p h" "c \<in> {nleftID n, nrightID n}" for c p h
      using that(1) refreshingD(3) [OF R]
    proof (rule link_same_pos)
      fix m m' assume "bid_ne_int c 0" "M c = Some m" "M' c = Some m'"
      then show "npos m' = npos m" using refreshingD(7) [OF R] km that(2) by (simp add: kids_def)
    qed
    ultimately show ?thesis by (simp add: linked_node_def)
  next
    case (Some x)
    then show ?thesis using refreshingD(8) [OF R _ that] below by simp
  qed
  then have "linked M'" by (simp add: linked_def)
  then show ?thesis using that [OF s(1)] refreshingD(1,2,3,5) [OF R] by blast
qed

section \<open>The end of an operation\<close>

lemma fake_reads_op:
  assumes E: "env_ok E"
  shows "opst E st M \<Longrightarrow> \<exists>st'. fake_reads E m st = Inr st' \<and> opst E st' M \<and> cfg st' = cfg st \<and> grows st st' \<and>
    o_modified st' = o_modified st \<and> rs_empty (o_store st') = rs_empty (o_store st)"
proof (induction m arbitrary: st)
  case 0
  then show ?case by simp
next
  case (Suc m)
  obtain r st1 where r: "ORAM_RandomPath E st = (r, st1)" by (cases "ORAM_RandomPath E st")
  then have st1: "st1 = st\<lparr>o_rng := o_rng st + 1\<rparr>" by (simp add: ORAM_RandomPath_def)
  have op1: "opst E st1 M" using Suc.prems by (simp add: st1 opst_rng)
  have leaf: "leaf_ok st1 r" using RandomPath_leaf [OF opst_geom [OF Suc.prems]] r st1 by (simp add: leaf_ok_def)
  let ?st2 = "add_leaf r st1"
  obtain V where V: "oram_rep E st1 (set (o_readviewmap st1)) V M" using op1 by (auto simp: opst_def)
  then have rep: "oram_rep E ?st2 (set (o_readviewmap ?st2)) V M" using oram_rep_cong [of ?st2 st1] by simp
  have leaf2: "leaf_ok ?st2 r" using leaf cfg_cong(2) [of ?st2 st1] by simp
  obtain st3 where f: "FetchPath E ?st2 r = Inr st3" "oram_rep E st3 (set (o_readviewmap st3)) V M"
    "set (o_readviewmap st3) = set (o_readviewmap ?st2) \<union> path ?st2 r" "keeps ?st2 st3" "grows ?st2 st3"
    by (rule FetchPath_rep [OF E rep leaf2])
  have cfg: "cfg st3 = cfg st1" using f(4) by (simp add: keeps_def)
  have "leaves_ok st3"
    using op1 f(3,4) leaf cfg_cong(2,4) [OF cfg] cfg_cong(4) [of ?st2 st1]
    by (auto simp: opst_def leaves_ok_def keeps_def)
  then have op3: "opst E st3 M" using f(2,4) op1 by (auto simp: opst_def keeps_def)
  have k: "cfg st3 = cfg st" "o_modified st3 = o_modified st" "rs_empty (o_store st3) = rs_empty (o_store st)" "grows st st3"
    using f(4,5) cfg by (auto simp: keeps_def st1 grows_def)
  obtain st4 where "fake_reads E m st3 = Inr st4" "opst E st4 M" "cfg st4 = cfg st3" "grows st3 st4"
    "o_modified st4 = o_modified st3" "rs_empty (o_store st4) = rs_empty (o_store st3)"
    using Suc.IH [OF op3] by blast
  then show ?case using r f(1) k grows_trans [OF k(4)] by simp
qed

lemma opst_put_null:
  assumes op: "opst E st M" and k: "bid_eq_int k 0"
  shows "opst E (cache_put k None st) M"
proof -
  let ?st = "cache_put k None st"
  have "cached st k = None"
    using opst_cached [OF op, of k] opst_nonzero [OF op, of k] k by (cases "cached st k") auto
  then have c: "cached ?st = cached st" by (auto simp: fun_eq_iff)
  obtain V where V: "oram_rep E st (set (o_readviewmap st)) V M" using op by (auto simp: opst_def)
  have cfg: "cfg ?st = cfg st" by simp
  have "cache_ok E ?st" using V k c good_cfg [OF cfg] by (auto simp: oram_rep_def cache_ok_def)
  then have "oram_rep E ?st (set (o_readviewmap st)) V M"
    using V cfg_cong [OF cfg] good_cfg [OF cfg] c
    by (simp add: oram_rep_def store_rep_def live_ok_def mem_ok_def)
  then show ?thesis using op cfg_cong [OF cfg] by (auto simp: opst_def leaves_ok_def)
qed

lemma idle_of_rep: "oram_rep E st {} V M \<Longrightarrow> idle E (st\<lparr>o_leafList := [], o_modified := []\<rparr>) M"
  using oram_rep_cong [of "st\<lparr>o_leafList := [], o_modified := []\<rparr>" st E "{}" V M]
  by (auto simp: idle_def cfg_def)

text \<open>
  \<open>finilize\<close> returns to a state between operations whose memory is the old one up to
  positions, is linked again, and gives the position of the root.
\<close>

lemma finilize_idle:
  assumes E: "env_ok E" and op: "opst E st M" and L: "linked M" and h: "heights_ok E st M" and pc: "parents_cached st M"
    and root: "bid_eq_int rootKey 0 \<or> cached st rootKey \<noteq> None"
  obtains st' M' p where "finilize E isFind rootKey rootPos st = Inr (p, st')" "idle E st' M'" "linked M'"
    "\<And>k. rel_option moved (M k) (M' k)" "cfg st' = cfg st" "rs_empty (o_store st') = rs_empty (o_store st)"
    "bid_ne_int rootKey 0 \<Longrightarrow> \<exists>n. M' rootKey = Some n \<and> npos n = p"
proof -
  have nb: "\<not> o_batchWrite st" using op by (simp add: opst_def)
  obtain st1 where s1: "fake_reads E (pad_bound isFind (o_depth st) - o_readCnt st) st = Inr st1" "opst E st1 M"
    "cfg st1 = cfg st" "grows st st1" "o_modified st1 = o_modified st" "rs_empty (o_store st1) = rs_empty (o_store st)"
    using fake_reads_op [OF E op] by blast
  have "heights_ok E st1 M" using h by (simp add: heights_ok_def top_height_cfg [OF s1(3)])
  moreover have "parents_cached st1 M"
    unfolding parents_cached_def s1(5)
  proof (intro allI impI)
    fix k n assume "M k = Some n" "cached st1 k = None"
    moreover from this have "cached st k = None" using s1(4) by (cases "cached st k") (auto simp: grows_def)
    ultimately show "kids n \<inter> set (o_modified st) = {}" using pc by (simp add: parents_cached_def)
  qed
  ultimately obtain st2 M' where s2: "refresh_levels E (refresh_range E st1) st1 = Inr st2" "opst E st2 M'" "linked M'"
    "\<And>k. rel_option moved (M k) (M' k)" "rkeeps st1 st2" "\<And>k. cached st2 k = None \<longleftrightarrow> cached st1 k = None"
    using refresh_rep [OF E s1(2) L] by blast
  let ?st3 = "if cache_count st2 rootKey then st2 else cache_put rootKey None st2"
  have rc: "cached st2 rootKey \<noteq> None" if "bid_ne_int rootKey 0"
    using that root s1(4) s2(6) [of rootKey] by (auto simp: bid_ne_int_iff grows_def)
  then have cc: "cache_count st2 rootKey" if "bid_ne_int rootKey 0"
    using that cache_count_real [OF opst_cache_ok [OF s2(2)]] by (simp add: bid_ne_int_iff)
  have op3: "opst E ?st3 M'" using s2(2) opst_put_null [OF s2(2), of rootKey] cc by (auto simp: bid_ne_int_iff)
  have k3: "cfg ?st3 = cfg st" "rs_empty (o_store ?st3) = rs_empty (o_store st)"
    using s1(3,6) s2(5) by (auto simp: rkeeps_def)
  obtain st4 V where s4: "write_levels E (rev [0..<Suc (o_depth ?st3)]) ?st3 = Inr st4" "oram_rep E st4 {} V M'"
    "cfg st4 = cfg ?st3" "rs_empty (o_store st4) = rs_empty (o_store ?st3)"
    using write_back [OF E op3] by blast
  let ?p = "case cached ?st3 rootKey of Some n \<Rightarrow> npos n | None \<Rightarrow> rootPos"
  let ?st5 = "st4\<lparr>o_leafList := [], o_modified := []\<rparr>"
  have "finilize E isFind rootKey rootPos st = Inr (?p, ?st5)"
    using nb s1(1) s2(1) s4(1) by (simp add: finilize_def Let_def)
  moreover have "idle E ?st5 M'" using s4(2) by (rule idle_of_rep)
  moreover have "cfg ?st5 = cfg st" "rs_empty (o_store ?st5) = rs_empty (o_store st)"
    using s4(3,4) k3 by (auto simp: cfg_def)
  moreover have "\<exists>n. M' rootKey = Some n \<and> npos n = ?p" if nz: "bid_ne_int rootKey 0"
    using rc [OF nz] cc [OF nz] opst_cached [OF s2(2), of rootKey] by auto
  ultimately show ?thesis using that s2(3,4) by blast
qed

end
