(* ===== verification/Avl_Rep.thy ===== *)
theory Avl_Rep
  imports Avl_Tree Oram_Refresh "HOL-Library.Tree"
begin

text \<open>
  The AVL tree over the ORAM as a functional tree. \<open>tree_at M k p t\<close> says that the memory \<open>M\<close>
  holds the tree \<open>t\<close> under the identifier \<open>k\<close> at position \<open>p\<close>, with exact heights; each operation
  of \<open>AVLTree\<close> is related to an operation on \<open>t\<close>.
\<close>

section \<open>Trees in the memory\<close>

type_synonym avl = "(bid \<times> bytes) tree"

definition tkeys :: "avl \<Rightarrow> bid set" where
  "tkeys t = fst ` set_tree t"

lemma tkeys_simps [simp]: "tkeys Leaf = {}" "tkeys (Node l (x, v) r) = insert x (tkeys l \<union> tkeys r)"
  by (auto simp: tkeys_def)

definition troot :: "avl \<Rightarrow> bid set" where
  "troot t = (case t of Leaf \<Rightarrow> {} | Node l a r \<Rightarrow> {fst a})"

lemma troot_simps [simp]: "troot Leaf = {}" "troot (Node l (x, v) r) = {x}"
  by (simp_all add: troot_def)

lemma troot_keys: "troot t \<subseteq> tkeys t"
  by (auto simp: troot_def tkeys_def split: tree.splits)

fun tree_at :: "mem \<Rightarrow> bid \<Rightarrow> int \<Rightarrow> avl \<Rightarrow> bool" where
  "tree_at M k p Leaf \<longleftrightarrow> bid_eq_int k 0"
| "tree_at M k p (Node l (x, v) r) \<longleftrightarrow>
     k = x \<and> (\<exists>n. M x = Some n \<and> npos n = p \<and> nvalue n = v \<and> nheight n = int (Suc (max (height l) (height r))) \<and>
       tree_at M (nleftID n) (nleftPos n) l \<and> tree_at M (nrightID n) (nrightPos n) r)"

definition children :: "mem \<Rightarrow> node \<Rightarrow> avl \<Rightarrow> avl \<Rightarrow> bool" where
  "children M n l r \<longleftrightarrow> tree_at M (nleftID n) (nleftPos n) l \<and> tree_at M (nrightID n) (nrightPos n) r"

lemma tree_at_Node:
  "tree_at M k p (Node l (x, v) r) \<longleftrightarrow>
     k = x \<and> (\<exists>n. M x = Some n \<and> npos n = p \<and> nvalue n = v \<and> nheight n = int (Suc (max (height l) (height r))) \<and>
       children M n l r)"
  by (simp add: children_def)

lemma tree_at_cong: "\<forall>x\<in>tkeys t. M' x = M x \<Longrightarrow> tree_at M' k p t = tree_at M k p t"
  by (induction M k p t rule: tree_at.induct) auto

lemma children_cong: "\<forall>x\<in>tkeys l \<union> tkeys r. M' x = M x \<Longrightarrow> children M' n l r = children M n l r"
  by (simp add: children_def tree_at_cong [of l M' M] tree_at_cong [of r M' M])

lemma tree_at_upd [simp]: "x \<notin> tkeys t \<Longrightarrow> tree_at (M(x \<mapsto> n)) k p t = tree_at M k p t"
  by (rule tree_at_cong) auto

lemma children_upd [simp]: "x \<notin> tkeys l \<Longrightarrow> x \<notin> tkeys r \<Longrightarrow> children (M(x \<mapsto> m)) n l r = children M n l r"
  by (simp add: children_def)

section \<open>Effects on the cache\<close>

text \<open>
  \<open>eff m S\<close>: nothing leaves the cache, the keys read or written are in \<open>S\<close>, and \<open>m\<close> blocks of
  the store were taken.
\<close>

definition eff :: "nat \<Rightarrow> bid set \<Rightarrow> oram \<Rightarrow> oram \<Rightarrow> bool" where
  "eff m S st st' \<longleftrightarrow>
     cfg st' = cfg st \<and> rs_empty (o_store st') + m = rs_empty (o_store st) \<and>
     (\<forall>k. cached st k \<noteq> None \<longrightarrow> cached st' k \<noteq> None) \<and>
     set (o_modified st') \<subseteq> set (o_modified st) \<union> S"

lemma eff_refl [simp]: "eff 0 S st st"
  by (simp add: eff_def)

lemma eff_trans: "eff m S a b \<Longrightarrow> eff m' T b c \<Longrightarrow> eff (m + m') (S \<union> T) a c"
  by (auto simp: eff_def)

lemma eff_trans0: "eff 0 S a b \<Longrightarrow> eff 0 S b c \<Longrightarrow> eff 0 S a c"
  using eff_trans [of 0 S a b 0 S c] by simp

lemma eff_seq: "eff 0 S a b \<Longrightarrow> eff 0 T b c \<Longrightarrow> eff 0 (S \<union> T) a c"
  using eff_trans [of 0 S a b 0 T c] by simp

lemma eff_mono: "eff m S a b \<Longrightarrow> S \<subseteq> T \<Longrightarrow> eff m T a b"
  by (auto simp: eff_def)

lemma eff_cached: "eff m S a b \<Longrightarrow> cached a k \<noteq> None \<Longrightarrow> cached b k \<noteq> None"
  by (simp add: eff_def)

lemma opst_cached_iff: "opst E st M \<Longrightarrow> cached st k \<noteq> None \<Longrightarrow> cached st k = M k"
  using opst_cached [of E st M k] by (cases "cached st k") auto

definition rootc :: "oram \<Rightarrow> avl \<Rightarrow> bool" where
  "rootc st t \<longleftrightarrow> (\<forall>k\<in>troot t. cached st k \<noteq> None)"

lemma rootc_simps [simp]: "rootc st Leaf" "rootc st (Node l (x, v) r) \<longleftrightarrow> cached st x \<noteq> None"
  by (simp_all add: rootc_def)

lemma rootc_eff: "rootc a t \<Longrightarrow> eff m S a b \<Longrightarrow> rootc b t"
  by (auto simp: rootc_def eff_def)

section \<open>Reading and heights\<close>

lemma tree_at_zero: "opst E st M \<Longrightarrow> tree_at M k p t \<Longrightarrow> bid_eq_int k 0 \<longleftrightarrow> t = Leaf"
  by (cases t) (auto dest: opst_nonzero)

lemma ReadNode_tree:
  assumes "env_ok E" "opst E st M" "M k = Some n"
  obtains st' where "ReadNode E k (npos n) (npos n) st = Inr (Some n, st')" "opst E st' M"
    "eff 0 {k} st st'" "cached st' k = Some n"
proof -
  obtain st' where s: "ReadNode E k (npos n) (npos n) st = Inr (Some n, st')" "opst E st' M"
    "cached st' k = Some n" "accessed st st' k"
    using ReadNode_op [OF assms refl] by blast
  then have "eff 0 {k} st st'" by (auto simp: eff_def accessed_def grows_def)
  then show ?thesis using that s by blast
qed

lemma AVL_height_op:
  assumes "env_ok E" "opst E st M" "tree_at M k p t"
  obtains st' where "AVL_height E k p st = Inr (int (height t), st')" "opst E st' M" "eff 0 (troot t) st st'" "rootc st' t"
proof (cases t)
  case Leaf
  then show ?thesis using that [of st] assms by (simp add: AVL_height_def)
next
  case (Node l a r)
  obtain x v where a: "a = (x, v)" by (cases a)
  obtain n where n: "k = x" "M x = Some n" "npos n = p" "nheight n = int (height t)"
    using assms(3) Node a by auto
  have nz: "\<not> bid_eq_int k 0" using opst_nonzero [OF assms(2) n(2)] n(1) by simp
  obtain st' where "ReadNode E x p p st = Inr (Some n, st')" "opst E st' M" "eff 0 {x} st st'" "cached st' x = Some n"
    using ReadNode_tree [OF assms(1,2) n(2)] n(3) by metis
  then show ?thesis using that [of st'] nz n(1,4) Node a by (simp add: AVL_height_def)
qed

lemma deref_eq: "opst E st M \<Longrightarrow> cached st k \<noteq> None \<Longrightarrow> deref st k = Inr (the (M k))"
  using opst_cached_iff [of E st M k] by (cases "M k") (auto simp: deref_def split: option.splits)

lemma cache_ptr_eq:
  assumes "opst E st M" "cached st k \<noteq> None"
  shows "cache_ptr st k = Inr (the (M k))"
proof -
  obtain n where n: "cached st k = Some n" "M k = Some n" using opst_cached_iff [OF assms] assms(2) by auto
  have nz: "\<not> bid_eq_int k 0" using opst_nonzero [OF assms(1) n(2)] .
  then have "cache_count st k" using cache_count_real [OF opst_cache_ok [OF assms(1)]] n(1) by simp
  then show ?thesis using nz n by (simp add: cache_ptr_def ReadNodeFromCache_def)
qed

lemma write_ptr_op:
  assumes "opst E st M" "cached st k \<noteq> None"
  obtains st' where "write_ptr E k st = Inr st'" "opst E st' M" "eff 0 {k} st st'" "cached st' = cached st"
proof -
  obtain n where n: "cached st k = Some n" using assms(2) by auto
  have "nkey n = k" using opst_good [OF assms(1) opst_cached [OF assms(1) n]] by simp
  then have "write_ptr E k st = Inr (mark_modified k st)"
    using WriteNode_cached [OF assms, of n] n by (simp add: write_ptr_def deref_def)
  then show ?thesis using that opst_mark_modified [OF assms(1)] by (simp add: eff_def)
qed

text \<open>A write through a pointer of the cache.\<close>

lemma modify_op:
  assumes "opst E st M" "cached st k = Some n" "good E st (f n)" "nkey (f n) = k"
  shows "opst E (cache_modify k f st) (M(k \<mapsto> f n))"
  using opst_cache_modify [where f = f, OF assms] .

lemma eff_modify [simp]: "eff 0 S st (cache_modify k f st)"
  by (auto simp: eff_def)

lemma rootc_modify [simp]: "rootc (cache_modify k f st) t \<longleftrightarrow> rootc st t"
  by (simp add: rootc_def)

lemma children_heights:
  assumes E: "env_ok E" and op: "opst E st M" and s: "children M n l r"
  obtains st1 st2 where "AVL_height E (nleftID n) (nleftPos n) st = Inr (int (height l), st1)"
    "AVL_height E (nrightID n) (nrightPos n) st1 = Inr (int (height r), st2)"
    "opst E st2 M" "eff 0 (troot l \<union> troot r) st st2" "rootc st2 l" "rootc st2 r"
proof -
  obtain st1 where h1: "AVL_height E (nleftID n) (nleftPos n) st = Inr (int (height l), st1)" "opst E st1 M"
    "eff 0 (troot l) st st1" "rootc st1 l"
    using AVL_height_op [OF E op] s by (metis children_def)
  obtain st2 where h2: "AVL_height E (nrightID n) (nrightPos n) st1 = Inr (int (height r), st2)" "opst E st2 M"
    "eff 0 (troot r) st1 st2" "rootc st2 r"
    using AVL_height_op [OF E h1(2)] s by (metis children_def)
  show ?thesis
    using that [OF h1(1) h2(1,2)] eff_trans [OF h1(3) h2(3)] h2(4) rootc_eff [OF h1(4) h2(3)] by simp
qed

lemma update_height_op:
  assumes E: "env_ok E" and op: "opst E st M" and k: "cached st k \<noteq> None" "M k = Some n" and s: "children M n l r"
    and h: "max (height l) (height r) < 2 ^ 30"
  obtains st' where "update_height E k st = Inr st'"
    "opst E st' (M(k \<mapsto> n\<lparr>nheight := int (Suc (max (height l) (height r)))\<rparr>))"
    "eff 0 (troot l \<union> troot r) st st'" "rootc st' l" "rootc st' r"
proof -
  let ?f = "\<lambda>n. n\<lparr>nheight := int (Suc (max (height l) (height r)))\<rparr>"
  obtain st1 st2 where h12: "AVL_height E (nleftID n) (nleftPos n) st = Inr (int (height l), st1)"
    "AVL_height E (nrightID n) (nrightPos n) st1 = Inr (int (height r), st2)"
    "opst E st2 M" "eff 0 (troot l \<union> troot r) st st2" "rootc st2 l" "rootc st2 r"
    by (rule children_heights [OF E op s])
  have c2: "cached st2 k = Some n" using eff_cached [OF h12(4) k(1)] opst_cached_iff [OF h12(3)] k(2) by simp
  have g: "nkey n = k" "good E st2 n" using opst_good [OF h12(3) k(2)] by auto
  have "int32 (int (Suc (max (height l) (height r))))" using h by (simp add: int32_def)
  then have "good E st2 (?f n)" using g(2) by (simp add: good_def node_ok_def)
  note m = modify_op [where f = ?f, OF h12(3) c2 this]
  have "AVL_max (int (height l)) (int (height r)) + 1 = int (Suc (max (height l) (height r)))"
    by (simp add: AVL_max_def max_def)
  then have "update_height E k st = Inr (cache_modify k ?f st2)"
    using deref_eq [OF op k(1)] k(2) h12(1,2) by (simp add: update_height_def add.commute)
  moreover have "eff 0 (troot l \<union> troot r) st (cache_modify k ?f st2)"
    using eff_trans0 [OF h12(4)] by simp
  moreover have "rootc (cache_modify k ?f st2) l" "rootc (cache_modify k ?f st2) r"
    using h12(5,6) by simp_all
  ultimately show ?thesis using that m g(1) by simp
qed

lemma getBalance_op:
  assumes E: "env_ok E" and op: "opst E st M" and k: "cached st k \<noteq> None" "M k = Some n" and s: "children M n l r"
  obtains st' where "getBalance E k st = Inr (int (height l) - int (height r), st')" "opst E st' M"
    "eff 0 (troot l \<union> troot r) st st'" "rootc st' l" "rootc st' r"
proof -
  obtain st1 st2 where h12: "AVL_height E (nleftID n) (nleftPos n) st = Inr (int (height l), st1)"
    "AVL_height E (nrightID n) (nrightPos n) st1 = Inr (int (height r), st2)"
    "opst E st2 M" "eff 0 (troot l \<union> troot r) st st2" "rootc st2 l" "rootc st2 r"
    by (rule children_heights [OF E op s])
  then show ?thesis using that [of st2] deref_eq [OF op k(1)] k(2) by (simp add: getBalance_def)
qed

section \<open>Rotations\<close>

lemma AVL_RandomPath_eq: "AVL_RandomPath E st = ORAM_RandomPath E st"
  by (simp add: AVL_RandomPath_def ORAM_RandomPath_def)

lemma zero_wf [simp]: "bid_wf (ID_SIZE s) (Bid_int (ID_SIZE s) 0)"
  by (rule Bid_int_wf) simp

lemma rotate_T2_op:
  assumes E: "env_ok E" and op: "opst E st M" and b: "tree_at M k p b" "rootc st b"
  obtains T2 st' where "rotate_T2 E k st = Inr (T2, st')" "opst E st' M" "eff 0 {} st st'"
    "tree_at M (nkey T2) (npos T2) b"
    "bid_wf (ID_SIZE (e_scheme E)) (nkey T2)" "int32 (npos T2)"
proof (cases b)
  case Leaf
  obtain r st1 where r: "AVL_RandomPath E st = (r, st1)" by (cases "AVL_RandomPath E st")
  then have st1: "st1 = st\<lparr>o_rng := o_rng st + 1\<rparr>" by (simp add: AVL_RandomPath_def)
  have "int32 r"
    using RandomPath_leaf [OF opst_geom [OF op]] leaf_int32 [OF opst_geom [OF op]] r by (metis AVL_RandomPath_eq fst_conv)
  moreover obtain T2 where "rotate_T2 E k st = Inr (T2, st1)" "nkey T2 = Bid_int (ID_SIZE (e_scheme E)) 0" "npos T2 = r"
    using b(1) Leaf r by (simp add: rotate_T2_def AVL_newNode_def value_bytes_def copy_at_def string_bytes_def Let_def)
  moreover have "opst E st1 M" "eff 0 {} st st1" using op st1 by (simp_all add: opst_rng eff_def)
  ultimately show ?thesis using that [of T2 st1] Leaf by simp
next
  case (Node l a r)
  obtain x v where a: "a = (x, v)" by (cases a)
  obtain n where n: "k = x" "M x = Some n" "npos n = p" using b(1) Node a by auto
  have c: "cached st x \<noteq> None" using b(2) Node a by simp
  have nz: "\<not> bid_eq_int x 0" using opst_nonzero [OF op n(2)] .
  have g: "nkey n = x" "good E st n" using opst_good [OF op n(2)] by auto
  have "rotate_T2 E k st = Inr (n, st)"
    using cache_ptr_eq [OF op c] n(1,2) nz
    by (auto simp: rotate_T2_def cache_ptr_def res_simps split: option.splits)
  moreover have "tree_at M (nkey n) (npos n) b" using b(1) n g(1) by simp
  ultimately show ?thesis using that op g by (simp add: good_def node_ok_def)
qed

lemma AVL_rightRotate_op:
  assumes E: "env_ok E" and op: "opst E st M" and y: "cached st yk \<noteq> None" "M yk = Some y" "nleftID y = xk"
    and x: "cached st xk \<noteq> None" "M xk = Some x" and ab: "children M x a b"
    and c: "tree_at M (nrightID y) (nrightPos y) c" and b: "rootc st b"
    and d: "xk \<noteq> yk" "xk \<notin> tkeys a \<union> tkeys b \<union> tkeys c" "yk \<notin> tkeys a \<union> tkeys b \<union> tkeys c"
    and h: "height a < 2 ^ 29" "height b < 2 ^ 29" "height c < 2 ^ 29"
  obtains st' M' where "AVL_rightRotate E yk st = Inr (xk, st')" "opst E st' M'"
    "tree_at M' xk (npos x) (Node a (xk, nvalue x) (Node b (yk, nvalue y) c))"
    "\<And>k. k \<noteq> xk \<Longrightarrow> k \<noteq> yk \<Longrightarrow> M' k = M k"
    "eff 0 ({xk, yk} \<union> troot a \<union> troot b \<union> troot c) st st'" "rootc st' a" "rootc st' b" "rootc st' c"
proof -
  have gx: "nkey x = xk" "good E st x" and gy: "nkey y = yk" "good E st y"
    using opst_good [OF op x(2)] opst_good [OF op y(2)] by auto
  have ta: "tree_at M (nleftID x) (nleftPos x) a" and tb: "tree_at M (nrightID x) (nrightPos x) b"
    using ab by (auto simp: children_def)
  obtain T2 st0 where T2: "rotate_T2 E (nrightID x) st = Inr (T2, st0)" "opst E st0 M" "eff 0 {} st st0"
    "tree_at M (nkey T2) (npos T2) b"
    "bid_wf (ID_SIZE (e_scheme E)) (nkey T2)" "int32 (npos T2)"
    using rotate_T2_op [OF E op tb b] by metis
  have g0: "good E st0 = good E st" using T2(3) by (intro good_cfg) (simp add: eff_def)
  let ?fx = "\<lambda>n. n\<lparr>nrightID := nkey y, nrightPos := npos y\<rparr>"
  let ?fy = "\<lambda>n. n\<lparr>nleftID := nkey T2, nleftPos := npos T2\<rparr>"
  have cx: "cached st0 xk = Some x" and cy: "cached st0 yk = Some y"
    using eff_cached [OF T2(3)] x y opst_cached_iff [OF T2(2)] by auto
  have "good E st0 (?fx x)" using gx gy by (auto simp: g0 good_def node_ok_def)
  note m1 = modify_op [where f = ?fx, OF T2(2) cx this]
  let ?st1 = "cache_modify xk ?fx st0" and ?M1 = "M(xk \<mapsto> ?fx x)"
  have op1: "opst E ?st1 ?M1" and e1: "eff 0 {} st0 ?st1" using m1 gx(1) by simp_all
  have "good E ?st1 = good E st0" by (rule good_cfg) simp
  then have "good E ?st1 (?fy y)" using gy T2(5,6) by (auto simp: g0 good_def node_ok_def)
  note m2 = modify_op [where f = ?fy, OF op1 _ this, of yk]
  let ?st2 = "cache_modify yk ?fy ?st1" and ?M2 = "?M1(yk \<mapsto> ?fy y)"
  have op2: "opst E ?st2 ?M2" and e2: "eff 0 {} ?st1 ?st2" using m2 gy(1) d(1) cy by simp_all
  have s2: "children ?M2 (?fy y) b c"
    using T2(4) c d by (simp add: children_def)
  have cc2: "cached ?st2 yk \<noteq> None" "cached ?st2 xk \<noteq> None" using cx cy d(1) by auto
  obtain st3 where u3: "update_height E yk ?st2 = Inr st3"
    "opst E st3 (?M2(yk \<mapsto> (?fy y)\<lparr>nheight := int (Suc (max (height b) (height c)))\<rparr>))"
    "eff 0 (troot b \<union> troot c) ?st2 st3" "rootc st3 b" "rootc st3 c"
    by (rule update_height_op [OF E op2 cc2(1) _ s2]) (use h in auto)
  let ?y3 = "(?fy y)\<lparr>nheight := int (Suc (max (height b) (height c)))\<rparr>"
  let ?M3 = "?M2(yk \<mapsto> ?y3)"
  obtain st4 where u4: "write_ptr E yk st3 = Inr st4" "opst E st4 ?M3" "eff 0 {yk} st3 st4"
    using write_ptr_op [OF u3(2) eff_cached [OF u3(3) cc2(1)]] by metis
  have cx4: "cached st4 xk \<noteq> None" using eff_cached [OF u4(3)] eff_cached [OF u3(3) cc2(2)] by blast
  have M3: "?M3 xk = Some (?fx x)" using d(1) by simp
  have s3: "children ?M3 (?fx x) a (Node b (yk, nvalue y) c)"
    using ta T2(4) c d gy(1) by (auto simp: children_def)
  obtain st5 where u5: "update_height E xk st4 = Inr st5"
    "opst E st5 (?M3(xk \<mapsto> (?fx x)\<lparr>nheight := int (Suc (max (height a) (height (Node b (yk, nvalue y) c))))\<rparr>))"
    "eff 0 (troot a \<union> troot (Node b (yk, nvalue y) c)) st4 st5" "rootc st5 a" "rootc st5 (Node b (yk, nvalue y) c)"
    by (rule update_height_op [OF E u4(2) cx4 M3 s3]) (use h in auto)
  let ?x5 = "(?fx x)\<lparr>nheight := int (Suc (max (height a) (height (Node b (yk, nvalue y) c))))\<rparr>"
  let ?M5 = "?M3(xk \<mapsto> ?x5)"
  obtain st6 where u6: "write_ptr E xk st5 = Inr st6" "opst E st6 ?M5" "eff 0 {xk} st5 st6"
    using write_ptr_op [OF u5(2) eff_cached [OF u5(3) cx4]] by metis
  have run: "AVL_rightRotate E yk st = Inr (xk, st6)"
    using deref_eq [OF op y(1)] y cache_ptr_eq [OF op x(1)] x(2) T2(1) u3(1) u4(1) u5(1) u6(1)
    by (simp add: AVL_rightRotate_def Let_def)
  have t: "tree_at ?M5 xk (npos x) (Node a (xk, nvalue x) (Node b (yk, nvalue y) c))"
    using ta T2(4) c d gy(1) by auto
  have "eff 0 ({xk, yk} \<union> troot a \<union> troot b \<union> troot c) st st6"
    using eff_seq [OF eff_seq [OF eff_seq [OF eff_seq [OF eff_seq [OF eff_seq [OF T2(3) e1] e2] u3(3)] u4(3)] u5(3)] u6(3)]
    by (rule eff_mono) auto
  moreover have "rootc st6 a" "rootc st6 b" "rootc st6 c"
    using u3(4,5) u5(4) rootc_eff u4(3) u5(3) u6(3) by blast+
  moreover have "?M5 k = M k" if "k \<noteq> xk" "k \<noteq> yk" for k using that by simp
  ultimately show ?thesis using that [OF run u6(2) t] by blast
qed

lemma AVL_leftRotate_op:
  assumes E: "env_ok E" and op: "opst E st M" and x: "cached st xk \<noteq> None" "M xk = Some x" "nrightID x = yk"
    and y: "cached st yk \<noteq> None" "M yk = Some y" and ab: "children M y b a"
    and c: "tree_at M (nleftID x) (nleftPos x) c" and b: "rootc st b"
    and d: "yk \<noteq> xk" "yk \<notin> tkeys a \<union> tkeys b \<union> tkeys c" "xk \<notin> tkeys a \<union> tkeys b \<union> tkeys c"
    and h: "height a < 2 ^ 29" "height b < 2 ^ 29" "height c < 2 ^ 29"
  obtains st' M' where "AVL_leftRotate E xk st = Inr (yk, st')" "opst E st' M'"
    "tree_at M' yk (npos y) (Node (Node c (xk, nvalue x) b) (yk, nvalue y) a)"
    "\<And>k. k \<noteq> yk \<Longrightarrow> k \<noteq> xk \<Longrightarrow> M' k = M k"
    "eff 0 ({yk, xk} \<union> troot a \<union> troot b \<union> troot c) st st'" "rootc st' a" "rootc st' b" "rootc st' c"
proof -
  have gy: "nkey y = yk" "good E st y" and gx: "nkey x = xk" "good E st x"
    using opst_good [OF op y(2)] opst_good [OF op x(2)] by auto
  have ta: "tree_at M (nrightID y) (nrightPos y) a" and tb: "tree_at M (nleftID y) (nleftPos y) b"
    using ab by (auto simp: children_def)
  obtain T2 st0 where T2: "rotate_T2 E (nleftID y) st = Inr (T2, st0)" "opst E st0 M" "eff 0 {} st st0"
    "tree_at M (nkey T2) (npos T2) b"
    "bid_wf (ID_SIZE (e_scheme E)) (nkey T2)" "int32 (npos T2)"
    using rotate_T2_op [OF E op tb b] by metis
  have g0: "good E st0 = good E st" using T2(3) by (intro good_cfg) (simp add: eff_def)
  let ?fy = "\<lambda>n. n\<lparr>nleftID := nkey x, nleftPos := npos x\<rparr>"
  let ?fx = "\<lambda>n. n\<lparr>nrightID := nkey T2, nrightPos := npos T2\<rparr>"
  have cy: "cached st0 yk = Some y" and cx: "cached st0 xk = Some x"
    using eff_cached [OF T2(3)] y x opst_cached_iff [OF T2(2)] by auto
  have "good E st0 (?fy y)" using gy gx by (auto simp: g0 good_def node_ok_def)
  note m1 = modify_op [where f = ?fy, OF T2(2) cy this]
  let ?st1 = "cache_modify yk ?fy st0" and ?M1 = "M(yk \<mapsto> ?fy y)"
  have op1: "opst E ?st1 ?M1" and e1: "eff 0 {} st0 ?st1" using m1 gy(1) by simp_all
  have "good E ?st1 = good E st0" by (rule good_cfg) simp
  then have "good E ?st1 (?fx x)" using gx T2(5,6) by (auto simp: g0 good_def node_ok_def)
  note m2 = modify_op [where f = ?fx, OF op1 _ this, of xk]
  let ?st2 = "cache_modify xk ?fx ?st1" and ?M2 = "?M1(xk \<mapsto> ?fx x)"
  have op2: "opst E ?st2 ?M2" and e2: "eff 0 {} ?st1 ?st2" using m2 gx(1) d(1) cx by simp_all
  have s2: "children ?M2 (?fx x) c b"
    using T2(4) c d by (simp add: children_def)
  have cc2: "cached ?st2 xk \<noteq> None" "cached ?st2 yk \<noteq> None" using cy cx d(1) by auto
  obtain st3 where u3: "update_height E xk ?st2 = Inr st3"
    "opst E st3 (?M2(xk \<mapsto> (?fx x)\<lparr>nheight := int (Suc (max (height c) (height b)))\<rparr>))"
    "eff 0 (troot c \<union> troot b) ?st2 st3" "rootc st3 c" "rootc st3 b"
    by (rule update_height_op [OF E op2 cc2(1) _ s2]) (use h in auto)
  let ?x3 = "(?fx x)\<lparr>nheight := int (Suc (max (height c) (height b)))\<rparr>"
  let ?M3 = "?M2(xk \<mapsto> ?x3)"
  obtain st4 where u4: "write_ptr E xk st3 = Inr st4" "opst E st4 ?M3" "eff 0 {xk} st3 st4"
    using write_ptr_op [OF u3(2) eff_cached [OF u3(3) cc2(1)]] by metis
  have cy4: "cached st4 yk \<noteq> None" using eff_cached [OF u4(3)] eff_cached [OF u3(3) cc2(2)] by blast
  have M3: "?M3 yk = Some (?fy y)" using d(1) by simp
  have s3: "children ?M3 (?fy y) (Node c (xk, nvalue x) b) a"
    using ta T2(4) c d gx(1) by (auto simp: children_def)
  obtain st5 where u5: "update_height E yk st4 = Inr st5"
    "opst E st5 (?M3(yk \<mapsto> (?fy y)\<lparr>nheight := int (Suc (max (height (Node c (xk, nvalue x) b)) (height a)))\<rparr>))"
    "eff 0 (troot (Node c (xk, nvalue x) b) \<union> troot a) st4 st5" "rootc st5 (Node c (xk, nvalue x) b)" "rootc st5 a"
    by (rule update_height_op [OF E u4(2) cy4 M3 s3]) (use h in auto)
  let ?y5 = "(?fy y)\<lparr>nheight := int (Suc (max (height (Node c (xk, nvalue x) b)) (height a)))\<rparr>"
  let ?M5 = "?M3(yk \<mapsto> ?y5)"
  obtain st6 where u6: "write_ptr E yk st5 = Inr st6" "opst E st6 ?M5" "eff 0 {yk} st5 st6"
    using write_ptr_op [OF u5(2) eff_cached [OF u5(3) cy4]] by metis
  have run: "AVL_leftRotate E xk st = Inr (yk, st6)"
    using deref_eq [OF op x(1)] x cache_ptr_eq [OF op y(1)] y(2) T2(1) u3(1) u4(1) u5(1) u6(1)
    by (simp add: AVL_leftRotate_def Let_def)
  have t: "tree_at ?M5 yk (npos y) (Node (Node c (xk, nvalue x) b) (yk, nvalue y) a)"
    using ta T2(4) c d gx(1) by auto
  have "eff 0 ({yk, xk} \<union> troot a \<union> troot b \<union> troot c) st st6"
    using eff_seq [OF eff_seq [OF eff_seq [OF eff_seq [OF eff_seq [OF eff_seq [OF T2(3) e1] e2] u3(3)] u4(3)] u5(3)] u6(3)]
    by (rule eff_mono) auto
  moreover have "rootc st6 a" "rootc st6 b" "rootc st6 c"
    using u3(4,5) u5(5) rootc_eff u4(3) u5(3) u6(3) by blast+
  moreover have "?M5 k = M k" if "k \<noteq> yk" "k \<noteq> xk" for k using that by simp
  ultimately show ?thesis using that [OF run u6(2) t] by blast
qed

end
