(* ===== verification/Avl_Spec.thy ===== *)
theory Avl_Spec
  imports Prelude "HOL-Library.Tree"
begin

text \<open>
  The functional tree the AVL operations of the repository implement: insertion that rebalances
  by comparing the inserted key with the key of the heavy child, as the code does, its effect on
  the represented map, the balance invariant and the height bound that follows from it.
\<close>

section \<open>Insertion\<close>

fun rotR :: "'a tree \<Rightarrow> 'a tree" where
  "rotR (Node (Node a x b) y c) = Node a x (Node b y c)"
| "rotR t = t"

fun rotL :: "'a tree \<Rightarrow> 'a tree" where
  "rotL (Node a x (Node b y c)) = Node (Node a x b) y c"
| "rotL t = t"

definition reb :: "'k::linorder \<Rightarrow> ('k \<times> 'v) tree \<Rightarrow> 'k \<times> 'v \<Rightarrow> ('k \<times> 'v) tree \<Rightarrow> ('k \<times> 'v) tree" where
  "reb k l e r =
     (if height l > height r + 1
      then case l of
             Leaf \<Rightarrow> Node l e r
           | Node _ y _ \<Rightarrow>
               if k < fst y then rotR (Node l e r)
               else if fst y < k then rotR (Node (rotL l) e r) else Node l e r
      else if height r > height l + 1
      then case r of
             Leaf \<Rightarrow> Node l e r
           | Node _ y _ \<Rightarrow>
               if fst y < k then rotL (Node l e r)
               else if k < fst y then rotL (Node l e (rotR r)) else Node l e r
      else Node l e r)"

fun ins :: "'k::linorder \<Rightarrow> 'v \<Rightarrow> ('k \<times> 'v) tree \<Rightarrow> ('k \<times> 'v) tree" where
  "ins k v Leaf = Node Leaf (k, v) Leaf"
| "ins k v (Node l (x, w) r) =
     (if k < x then reb k (ins k v l) (x, w) r
      else if x < k then reb k l (x, w) (ins k v r)
      else Node l (x, v) r)"

section \<open>The represented map\<close>

definition tmap :: "('k \<times> 'v) tree \<Rightarrow> 'k \<Rightarrow> 'v option" where
  "tmap t = map_of (inorder t)"

definition ordered :: "('k::linorder \<times> 'v) tree \<Rightarrow> bool" where
  "ordered t \<longleftrightarrow> sorted_wrt (<) (map fst (inorder t))"

lemma inorder_rotR [simp]: "inorder (rotR t) = inorder t"
  by (induction t rule: rotR.induct) auto

lemma inorder_rotL [simp]: "inorder (rotL t) = inorder t"
  by (induction t rule: rotL.induct) auto

lemma inorder_reb: "inorder (reb k l e r) = inorder l @ e # inorder r"
  by (simp add: reb_def split: tree.split)

lemma ordered_Node:
  "ordered (Node l (x, v) r) \<longleftrightarrow>
     ordered l \<and> ordered r \<and> (\<forall>k\<in>fst ` set_tree l. k < x) \<and> (\<forall>k\<in>fst ` set_tree r. x < k)"
  by (auto simp: ordered_def sorted_wrt_append dest: less_trans)

lemma dom_tmap: "dom (tmap t) = fst ` set_tree t"
  by (simp add: tmap_def dom_map_of_conv_image_fst)

lemma tmap_None: "k \<notin> fst ` set_tree t \<Longrightarrow> tmap t k = None"
  using dom_tmap [of t] by auto

lemma tmap_Node:
  assumes "ordered (Node l (x, v) r)"
  shows "tmap (Node l (x, v) r) k = (if k < x then tmap l k else if x < k then tmap r k else Some v)"
proof -
  have "tmap (Node l (x, v) r) k = (case tmap l k of None \<Rightarrow> if k = x then Some v else tmap r k | Some w \<Rightarrow> Some w)"
    by (simp add: tmap_def map_add_def split: option.splits)
  moreover have "tmap l k = None" if "\<not> k < x"
    using assms that by (intro tmap_None) (auto simp: ordered_Node)
  moreover have "tmap r k = None" if "\<not> x < k"
    using assms that by (intro tmap_None) (auto simp: ordered_Node)
  ultimately show ?thesis by (auto split: option.splits)
qed

lemma keys_reb: "set_tree (reb k l e r) = insert e (set_tree l \<union> set_tree r)"
  using arg_cong [OF inorder_reb, of set] by simp

lemma ordered_inorder: "inorder t = inorder t' \<Longrightarrow> ordered t = ordered t'"
  by (simp add: ordered_def)

lemma tmap_inorder: "inorder t = inorder t' \<Longrightarrow> tmap t = tmap t'"
  by (simp add: tmap_def)

lemma keys_ins: "ordered t \<Longrightarrow> fst ` set_tree (ins k v t) = insert k (fst ` set_tree t)"
  by (induction k v t rule: ins.induct) (auto simp: keys_reb ordered_Node image_Un)

lemma ins_ordered: "ordered t \<Longrightarrow> ordered (ins k v t)"
proof (induction k v t rule: ins.induct)
  case (1 k v)
  then show ?case by (simp add: ordered_def)
next
  case (2 k v l x w r)
  have reb: "ordered (reb k l' (x, w) r') = ordered (Node l' (x, w) r')" for l' r'
    by (rule ordered_inorder) (simp add: inorder_reb)
  show ?case using 2 by (auto simp: reb ordered_Node keys_ins)
qed

lemma ins_tmap: "ordered t \<Longrightarrow> tmap (ins k v t) = (tmap t)(k \<mapsto> v)"
proof (induction k v t rule: ins.induct)
  case (1 k v)
  then show ?case by (simp add: tmap_def fun_eq_iff)
next
  case (2 k v l x w r)
  have reb: "tmap (reb k l' (x, w) r') = tmap (Node l' (x, w) r')" for l' r'
    by (rule tmap_inorder) (simp add: inorder_reb)
  have o: "ordered l" "ordered r" using 2(3) by (auto simp: ordered_Node)
  consider "k < x" | "x < k" | "k = x" by force
  then show ?case
  proof cases
    case 1
    then have "ordered (Node (ins k v l) (x, w) r)"
      using 2(3) o by (auto simp: ordered_Node keys_ins ins_ordered)
    then show ?thesis using 1 2(1) 2(3) o by (auto simp: reb tmap_Node fun_eq_iff)
  next
    case 2
    then have "ordered (Node l (x, w) (ins k v r))"
      using \<open>ordered (Node l (x, w) r)\<close> o by (auto simp: ordered_Node keys_ins ins_ordered)
    then show ?thesis using 2 "2.IH"(2) \<open>ordered (Node l (x, w) r)\<close> o by (auto simp: reb tmap_Node fun_eq_iff)
  next
    case 3
    then have "ordered (Node l (x, v) r)" using 2(3) by (simp add: ordered_Node)
    then show ?thesis using 3 2(3) by (auto simp: tmap_Node fun_eq_iff)
  qed
qed

section \<open>Balance\<close>

fun avl :: "'a tree \<Rightarrow> bool" where
  "avl Leaf = True"
| "avl (Node l e r) \<longleftrightarrow> height l \<le> height r + 1 \<and> height r \<le> height l + 1 \<and> avl l \<and> avl r"

text \<open>How a tree grew: its root is not the new key, and the side of the new key is the higher one.\<close>

definition grown :: "'k::linorder \<Rightarrow> ('k \<times> 'v) tree \<Rightarrow> bool" where
  "grown k t \<longleftrightarrow> (case t of Leaf \<Rightarrow> False | Node a y b \<Rightarrow>
     k \<noteq> fst y \<and> (k < fst y \<longrightarrow> height a = height b + 1) \<and> (fst y < k \<longrightarrow> height b = height a + 1))"

lemma grownE:
  assumes "grown k t"
  obtains a y w b where "t = Node a (y, w) b" "k < y" "height a = height b + 1"
  | a y w b where "t = Node a (y, w) b" "y < k" "height b = height a + 1"
proof (cases t)
  case (Node a e b)
  then obtain y w where "t = Node a (y, w) b" by (cases e) auto
  then show ?thesis using assms that by (auto simp: grown_def elim: linorder_neqE)
qed (use assms in \<open>simp add: grown_def\<close>)

lemma height_pos: "height t = Suc m \<Longrightarrow> \<exists>l e r. t = Node l e r \<and> m = max (height l) (height r)"
  by (cases t) auto

lemma reb_left:
  assumes "avl l'" "avl r" "height l' = height r + 2" "grown k l'"
  shows "avl (reb k l' e r)" "height (reb k l' e r) = height r + 2"
proof -
  have "avl (reb k l' e r) \<and> height (reb k l' e r) = height r + 2"
    using assms(4)
  proof (cases rule: grownE)
    case (1 a y w b)
    then show ?thesis using assms(1-3) by (auto simp: reb_def)
  next
    case (2 a y w b)
    then obtain b1 z b2 where b: "b = Node b1 z b2" "max (height b1) (height b2) = height a"
      using height_pos [of b "height a"] by auto
    then show ?thesis using assms(1-3) 2 by (auto simp: reb_def)
  qed
  then show "avl (reb k l' e r)" "height (reb k l' e r) = height r + 2" by auto
qed

lemma reb_right:
  assumes "avl l" "avl r'" "height r' = height l + 2" "grown k r'"
  shows "avl (reb k l e r')" "height (reb k l e r') = height l + 2"
proof -
  have "avl (reb k l e r') \<and> height (reb k l e r') = height l + 2"
    using assms(4)
  proof (cases rule: grownE)
    case (1 a y w b)
    then obtain a1 z a2 where a: "a = Node a1 z a2" "max (height a1) (height a2) = height b"
      using height_pos [of a "height b"] by auto
    then show ?thesis using assms(1-3) 1 by (auto simp: reb_def)
  next
    case (2 a y w b)
    then show ?thesis using assms(1-3) by (auto simp: reb_def)
  qed
  then show "avl (reb k l e r')" "height (reb k l e r') = height l + 2" by auto
qed

lemma reb_none: "height l \<le> height r + 1 \<Longrightarrow> height r \<le> height l + 1 \<Longrightarrow> reb k l e r = Node l e r"
  by (simp add: reb_def)

theorem ins_avl:
  "avl t \<Longrightarrow> avl (ins k v t) \<and> (height (ins k v t) = height t \<or>
     height (ins k v t) = height t + 1 \<and> (t \<noteq> Leaf \<longrightarrow> grown k (ins k v t)))"
proof (induction k v t rule: ins.induct)
  case (1 k v)
  then show ?case by simp
next
  case (2 k v l x w r)
  have a: "avl l" "avl r" "height l \<le> height r + 1" "height r \<le> height l + 1" using 2(3) by auto
  consider "k < x" | "x < k" | "k = x" by force
  then show ?case
  proof cases
    case 1
    then have IH: "avl (ins k v l)" "height (ins k v l) = height l \<or>
        height (ins k v l) = height l + 1 \<and> (l \<noteq> Leaf \<longrightarrow> grown k (ins k v l))"
      using 2(1) a by auto
    show ?thesis
    proof (cases "height (ins k v l) \<le> height r + 1")
      case True
      then have "reb k (ins k v l) (x, w) r = Node (ins k v l) (x, w) r" using IH(2) a by (intro reb_none) auto
      moreover have "height (Node (ins k v l) (x, w) r) = height (Node l (x, w) r) \<or>
          height (Node (ins k v l) (x, w) r) = height (Node l (x, w) r) + 1 \<and> height (ins k v l) = height r + 1"
        using IH(2) True a by (simp add: max_def) linarith
      ultimately show ?thesis using 1 True IH a by (auto simp: grown_def)
    next
      case False
      then have h: "height (ins k v l) = height r + 2" "height l = height r + 1" using IH(2) a by auto
      then have "l \<noteq> Leaf" "grown k (ins k v l)" using IH(2) by auto
      then show ?thesis using 1 reb_left [OF IH(1) a(2) h(1)] h by auto
    qed
  next
    case 2
    then have IH: "avl (ins k v r)" "height (ins k v r) = height r \<or>
        height (ins k v r) = height r + 1 \<and> (r \<noteq> Leaf \<longrightarrow> grown k (ins k v r))"
      using "2.IH"(2) a by auto
    show ?thesis
    proof (cases "height (ins k v r) \<le> height l + 1")
      case True
      then have "reb k l (x, w) (ins k v r) = Node l (x, w) (ins k v r)" using IH(2) a by (intro reb_none) auto
      moreover have "height (Node l (x, w) (ins k v r)) = height (Node l (x, w) r) \<or>
          height (Node l (x, w) (ins k v r)) = height (Node l (x, w) r) + 1 \<and> height (ins k v r) = height l + 1"
        using IH(2) True a by (simp add: max_def) linarith
      ultimately show ?thesis using 2 True IH a by (auto simp: grown_def)
    next
      case False
      then have h: "height (ins k v r) = height l + 2" "height r = height l + 1" using IH(2) a by auto
      then have "r \<noteq> Leaf" "grown k (ins k v r)" using IH(2) by auto
      then show ?thesis using 2 reb_right [OF a(1) IH(1) h(1)] h by auto
    qed
  next
    case 3
    then show ?thesis using a by simp
  qed
qed

text \<open>Overwriting a present key does not change the shape.\<close>

lemma ins_present_height:
  "avl t \<Longrightarrow> ordered t \<Longrightarrow> k \<in> fst ` set_tree t \<Longrightarrow> height (ins k v t) = height t"
proof (induction k v t rule: ins.induct)
  case (2 k v l x w r)
  have a: "height l \<le> height r + 1" "height r \<le> height l + 1" using 2(3) by auto
  consider "k < x" | "x < k" | "k = x" by force
  then show ?case
  proof cases
    case 1
    then have "k \<in> fst ` set_tree l" using 2(4,5) by (auto simp: ordered_Node)
    then show ?thesis using 1 2 a by (auto simp: ordered_Node reb_none)
  next
    case 2
    then have "k \<in> fst ` set_tree r" using "2.prems"(2,3) by (auto simp: ordered_Node)
    then show ?thesis using 2 "2.IH" "2.prems" a by (auto simp: ordered_Node reb_none)
  qed simp
qed simp

section \<open>Height bound\<close>

fun min_size :: "nat \<Rightarrow> nat" where
  "min_size 0 = 0"
| "min_size (Suc 0) = 1"
| "min_size (Suc (Suc h)) = Suc (min_size (Suc h) + min_size h)"

lemma min_size_Suc: "min_size h \<le> min_size (Suc h)"
  by (induction h rule: min_size.induct) auto

lemma min_size_mono: "h \<le> h' \<Longrightarrow> min_size h \<le> min_size h'"
  by (rule lift_Suc_mono_le) (rule min_size_Suc)

lemma avl_min_size: "avl t \<Longrightarrow> min_size (height t) \<le> size t"
proof (induction t)
  case (Node l e r)
  have a: "height l \<le> height r + 1" "height r \<le> height l + 1"
    "min_size (height l) \<le> size l" "min_size (height r) \<le> size r" using Node by auto
  show ?case
  proof (cases "max (height l) (height r)")
    case (Suc h)
    then have "min_size (Suc h) + min_size h \<le> min_size (height l) + min_size (height r)"
    proof (cases "height l = Suc h")
      case True
      then have "h \<le> height r" using a by simp
      then show ?thesis using True min_size_mono [of h "height r"] by simp
    next
      case False
      then have "height r = Suc h" "h \<le> height l" using Suc a by auto
      then show ?thesis using min_size_mono [of h "height l"] by simp
    qed
    then show ?thesis using Suc a by simp
  qed simp
qed simp

lemma avl_height_bound:
  assumes "avl t" "size t < min_size (Suc h)"
  shows "height t \<le> h"
proof (rule ccontr)
  assume "\<not> height t \<le> h"
  then have "min_size (Suc h) \<le> min_size (height t)" by (intro min_size_mono) simp
  then show False using avl_min_size [OF assms(1)] assms(2) by simp
qed

lemma size_tkeys: "ordered t \<Longrightarrow> size t = card (fst ` set_tree t)"
proof -
  assume "ordered t"
  then have "distinct (map fst (inorder t))" by (simp add: ordered_def strict_sorted_iff)
  then have "card (set (map fst (inorder t))) = length (map fst (inorder t))" by (rule distinct_card)
  then show ?thesis by simp
qed

end
