(* ===== verification/Avl_Insert.thy ===== *)
theory Avl_Insert
  imports Avl_Rep Avl_Spec
begin

text \<open>
  Insertion into the AVL tree over the ORAM implements the functional insertion \<open>ins\<close>: no read
  fails, no cache lookup of a rotation misses, and the tree in the memory afterwards is the
  rebalanced one. The nodes marked as modified are such that their parents are cached, which is
  what the position update at the end of the operation needs.
\<close>

section \<open>What is cached along the path of a key\<close>

definition tbelow :: "avl \<Rightarrow> bid set" where
  "tbelow t = (case t of Leaf \<Rightarrow> {} | Node l e r \<Rightarrow> tkeys l \<union> tkeys r)"

lemma tbelow_simps [simp]: "tbelow Leaf = {}" "tbelow (Node l (x, v) r) = tkeys l \<union> tkeys r"
  by (simp_all add: tbelow_def)

lemma tbelow_keys: "tbelow t \<subseteq> tkeys t"
  by (auto simp: tbelow_def tkeys_def split: tree.splits)

fun closed :: "oram \<Rightarrow> avl \<Rightarrow> bool" where
  "closed st Leaf \<longleftrightarrow> True"
| "closed st (Node l (x, v) r) \<longleftrightarrow>
     (cached st x \<noteq> None \<or> (troot l \<union> troot r) \<inter> set (o_modified st) = {}) \<and> closed st l \<and> closed st r"

lemma closed_eff: "closed a t \<Longrightarrow> eff m S a b \<Longrightarrow> S \<inter> tbelow t = {} \<Longrightarrow> closed b t"
proof (induction a t rule: closed.induct)
  case (2 a l x v r)
  have e: "set (o_modified b) \<subseteq> set (o_modified a) \<union> S" "cached a x \<noteq> None \<Longrightarrow> cached b x \<noteq> None"
    using 2(4) by (auto simp: eff_def)
  have "S \<inter> tbelow l = {}" "S \<inter> tbelow r = {}" "S \<inter> (troot l \<union> troot r) = {}"
    using 2(5) tbelow_keys [of l] tbelow_keys [of r] troot_keys [of l] troot_keys [of r] by auto
  then show ?case using 2 e by auto
qed simp

fun pathc :: "oram \<Rightarrow> bid \<Rightarrow> avl \<Rightarrow> bool" where
  "pathc st key Leaf \<longleftrightarrow> True"
| "pathc st key (Node l (x, v) r) \<longleftrightarrow>
     cached st x \<noteq> None \<and> rootc st l \<and> rootc st r \<and>
     (key < x \<longrightarrow> pathc st key l) \<and> (x < key \<longrightarrow> pathc st key r)"

lemma pathc_eff: "pathc a key t \<Longrightarrow> eff m S a b \<Longrightarrow> pathc b key t"
  by (induction a key t rule: pathc.induct) (auto simp: eff_def rootc_def)

lemma ordered_tkeys:
  assumes "ordered (Node l (x, v) r)"
  shows "ordered l" "ordered r" "\<forall>k\<in>tkeys l. k < x" "\<forall>k\<in>tkeys r. x < k"
    "x \<notin> tkeys l" "x \<notin> tkeys r" "tkeys l \<inter> tkeys r = {}"
proof -
  show l: "\<forall>k\<in>tkeys l. k < x" "\<forall>k\<in>tkeys r. x < k" using assms by (auto simp: ordered_Node tkeys_def)
  then show "x \<notin> tkeys l" "x \<notin> tkeys r" "tkeys l \<inter> tkeys r = {}" by fastforce+
qed (use assms in \<open>auto simp: ordered_Node\<close>)

lemma troot_tbelow: "ordered t \<Longrightarrow> troot t \<inter> tbelow t = {}"
proof (cases t)
  case (Node l e r)
  obtain x v where "e = (x, v)" by (cases e)
  moreover assume "ordered t"
  ultimately show ?thesis using Node ordered_tkeys(5,6) [of l x v r] by auto
qed simp

text \<open>The children of a rotation keep their closedness: only their roots are read.\<close>

lemma closed_heads:
  assumes "closed st t" "eff m (K \<union> troot t \<union> T) st st'" "ordered t" "K \<inter> tkeys t = {}" "T \<inter> tkeys t = {}"
  shows "closed st' t"
  by (rule closed_eff [OF assms(1,2)]) (use assms(4,5) troot_tbelow [OF assms(3)] tbelow_keys [of t] in blast)

section \<open>Comparisons\<close>

lemma opst_wf: "opst E st M \<Longrightarrow> M k = Some n \<Longrightarrow> bid_wf (ID_SIZE (e_scheme E)) k"
  using opst_good [of E st M k n] by (auto simp: good_def node_ok_def)

lemma opst_cmp:
  assumes "opst E st M" "M k = Some n" "bid_wf (ID_SIZE (e_scheme E)) key"
  shows "bid_lt key k \<longleftrightarrow> key < k" "bid_gt key k \<longleftrightarrow> k < key" "bid_lt k key \<longleftrightarrow> k < key" "bid_gt k key \<longleftrightarrow> key < k"
  using bid_cmp_iff [OF assms(3) opst_wf [OF assms(1,2)]] bid_cmp_iff [OF opst_wf [OF assms(1,2)] assms(3)] by auto

lemma return_ptr_op:
  assumes "opst E st M" "cached st k \<noteq> None" "M k = Some n"
  shows "return_ptr k st = Inr ((k, npos n), st)"
  using deref_eq [OF assms(1,2)] assms(3) opst_good [OF assms(1,3)] by (simp add: return_ptr_def)

lemma children_left:
  assumes "children M n (Node a (x, w) b) r"
  obtains xn where "nleftID n = x" "M x = Some xn" "npos xn = nleftPos n" "nvalue xn = w" "children M xn a b"
    "tree_at M (nrightID n) (nrightPos n) r"
  using assms by (auto simp: children_def)

lemma children_right:
  assumes "children M n l (Node a (x, w) b)"
  obtains xn where "nrightID n = x" "M x = Some xn" "npos xn = nrightPos n" "nvalue xn = w" "children M xn a b"
    "tree_at M (nleftID n) (nleftPos n) l"
  using assms by (auto simp: children_def)

section \<open>Rebalancing\<close>

lemma balance_left_single:
  assumes E: "env_ok E" and op: "opst E st M" and k: "cached st k \<noteq> None" "M k = Some n"
    and s: "children M n (Node a (x, w) b) r" and ord: "ordered (Node (Node a (x, w) b) (k, nvalue n) r)"
    and h: "height a < 2 ^ 29" "height b < 2 ^ 29" "height r < 2 ^ 29"
    and key: "bid_wf (ID_SIZE (e_scheme E)) key" "key < x"
    and pc: "pathc st key (Node a (x, w) b)" and cl: "closed st a" "closed st b" "closed st r"
  obtains st' M' p where "balance_left E k key pos st = Inr ((x, p), st')" "opst E st' M'"
    "tree_at M' x p (Node a (x, w) (Node b (k, nvalue n) r))"
    "\<And>z. z \<notin> {x, k} \<Longrightarrow> M' z = M z" "eff 0 ({x, k} \<union> troot a \<union> troot b \<union> troot r) st st'"
    "pathc st' key (Node a (x, w) (Node b (k, nvalue n) r))" "closed st' (Node a (x, w) (Node b (k, nvalue n) r))"
proof -
  obtain xn where x: "nleftID n = x" "M x = Some xn" "npos xn = nleftPos n" "nvalue xn = w" "children M xn a b"
    "tree_at M (nrightID n) (nrightPos n) r" by (rule children_left [OF s])
  have c: "cached st x \<noteq> None" "rootc st a" "rootc st b" "pathc st key a" using pc key(2) by auto
  have nx: "nkey xn = x" "nkey n = k" using opst_good [OF op x(2)] opst_good [OF op k(2)] by auto
  have o: "ordered (Node a (x, w) b)" "ordered r" using ordered_tkeys(1,2) [OF ord] by auto
  note d1 = ordered_tkeys [OF ord] and d2 = ordered_tkeys [OF o(1)]
  have d: "x \<noteq> k" "x \<notin> tkeys a \<union> tkeys b \<union> tkeys r" "k \<notin> tkeys a \<union> tkeys b \<union> tkeys r" using d1 d2 by auto
  obtain st' M' where R: "AVL_rightRotate E k st = Inr (x, st')" "opst E st' M'"
    "tree_at M' x (npos xn) (Node a (x, nvalue xn) (Node b (k, nvalue n) r))"
    "\<And>z. z \<noteq> x \<Longrightarrow> z \<noteq> k \<Longrightarrow> M' z = M z"
    "eff 0 ({x, k} \<union> troot a \<union> troot b \<union> troot r) st st'" "rootc st' a" "rootc st' b" "rootc st' r"
    using AVL_rightRotate_op [OF E op k x(1) c(1) x(2,5,6) c(3) d h] by metis
  have c': "cached st' x \<noteq> None" "cached st' k \<noteq> None" using eff_cached [OF R(5)] c(1) k(1) by auto
  obtain x' where x': "M' x = Some x'" "npos x' = npos xn" using R(3) by auto
  have run: "balance_left E k key pos st = Inr ((x, npos xn), st')"
    using deref_eq [OF op k(1)] k(2) x(1) cache_ptr_eq [OF op c(1)] x(2) nx opst_cmp [OF op x(2) key(1)] key(2) R(1)
      return_ptr_op [OF R(2) c'(1) x'(1)] x'(2)
    by (simp add: balance_left_def)
  have p': "pathc st' key (Node a (x, w) (Node b (k, nvalue n) r))"
    using c' R(6-8) pathc_eff [OF c(4) R(5)] key(2) by auto
  have "closed st' a" "closed st' b" "closed st' r"
    by (rule closed_eff [OF _ R(5)],
        use cl d d1(7) d2(7) o d2(1,2) troot_tbelow [of a] troot_tbelow [of b] troot_tbelow [of r] tbelow_keys [of a] tbelow_keys [of b]
          tbelow_keys [of r] troot_keys [of a] troot_keys [of b] troot_keys [of r] in auto)+
  then show ?thesis
    using that [OF run R(2) _ _ R(5) p'] R(3,4) x(4) c' by simp
qed

lemma balance_left_double:
  assumes E: "env_ok E" and op: "opst E st M" and k: "cached st k \<noteq> None" "M k = Some n"
    and s: "children M n (Node a (x, w) (Node b (z, u) c)) r"
    and ord: "ordered (Node (Node a (x, w) (Node b (z, u) c)) (k, nvalue n) r)"
    and h: "height a < 2 ^ 28" "height b < 2 ^ 28" "height c < 2 ^ 28" "height r < 2 ^ 28"
    and key: "bid_wf (ID_SIZE (e_scheme E)) key" "x < key" "key < k"
    and pc: "pathc st key (Node a (x, w) (Node b (z, u) c))" and cl: "closed st a" "closed st b" "closed st c" "closed st r"
  obtains st' M' p where "balance_left E k key pos st = Inr ((z, p), st')" "opst E st' M'"
    "tree_at M' z p (Node (Node a (x, w) b) (z, u) (Node c (k, nvalue n) r))"
    "\<And>y. y \<notin> {x, z, k} \<Longrightarrow> M' y = M y" "eff 0 ({x, z, k} \<union> troot a \<union> troot b \<union> troot c \<union> troot r) st st'"
    "pathc st' key (Node (Node a (x, w) b) (z, u) (Node c (k, nvalue n) r))"
    "closed st' (Node (Node a (x, w) b) (z, u) (Node c (k, nvalue n) r))"
proof -
  obtain xn where x: "nleftID n = x" "M x = Some xn" "npos xn = nleftPos n" "nvalue xn = w" "children M xn a (Node b (z, u) c)"
    "tree_at M (nrightID n) (nrightPos n) r" by (rule children_left [OF s])
  obtain zn where z: "nrightID xn = z" "M z = Some zn" "npos zn = nrightPos xn" "nvalue zn = u" "children M zn b c"
    "tree_at M (nleftID xn) (nleftPos xn) a" by (rule children_right [OF x(5)])
  have ca: "cached st x \<noteq> None" "cached st z \<noteq> None" "rootc st a" "rootc st b" "rootc st c"
    "key < z \<Longrightarrow> pathc st key b" "z < key \<Longrightarrow> pathc st key c" using pc key(2) by auto
  have nx: "nkey xn = x" "nkey n = k" "nkey zn = z"
    using opst_good [OF op x(2)] opst_good [OF op k(2)] opst_good [OF op z(2)] by auto
  have o1: "ordered (Node a (x, w) (Node b (z, u) c))" "ordered r" using ordered_tkeys(1,2) [OF ord] by auto
  have o2: "ordered a" "ordered (Node b (z, u) c)" using ordered_tkeys(1,2) [OF o1(1)] by auto
  note d1 = ordered_tkeys [OF ord] and d2 = ordered_tkeys [OF o1(1)] and d3 = ordered_tkeys [OF o2(2)]
  have d: "z \<noteq> x" "z \<notin> tkeys b \<union> tkeys c \<union> tkeys a" "x \<notin> tkeys b \<union> tkeys c \<union> tkeys a" "k \<noteq> x" "k \<noteq> z"
    "k \<notin> tkeys a" "k \<notin> tkeys b" "k \<notin> tkeys c" "k \<notin> tkeys r" "x \<notin> tkeys r" "z \<notin> tkeys r"
    using d1 d2 d3 by auto
  obtain st1 M1 where L: "AVL_leftRotate E x st = Inr (z, st1)" "opst E st1 M1"
    "tree_at M1 z (npos zn) (Node (Node a (x, nvalue xn) b) (z, nvalue zn) c)"
    "\<And>y. y \<noteq> z \<Longrightarrow> y \<noteq> x \<Longrightarrow> M1 y = M y"
    "eff 0 ({z, x} \<union> troot c \<union> troot b \<union> troot a) st st1" "rootc st1 c" "rootc st1 b" "rootc st1 a"
    by (rule AVL_leftRotate_op [OF E op ca(1) x(2) z(1) ca(2) z(2,5,6) ca(4)]) (use d h in auto)
  have c1: "cached st1 x \<noteq> None" "cached st1 z \<noteq> None" "cached st1 k \<noteq> None"
    using eff_cached [OF L(5)] ca(1,2) k(1) by auto
  have k1: "M1 k = Some n" using L(4) d k(2) by simp
  obtain z1 where z1: "M1 z = Some z1" "npos z1 = npos zn" "nvalue z1 = u" "children M1 z1 (Node a (x, w) b) c"
    using L(3) x(4) z(4) by (auto simp: children_def)
  have nz1: "nkey z1 = z" "good E st1 z1" using opst_good [OF L(2) z1(1)] by auto
  let ?f = "\<lambda>n. n\<lparr>nleftID := nkey z1, nleftPos := npos z1\<rparr>"
  have gk: "nkey n = k" "good E st1 n" using opst_good [OF L(2) k1] by auto
  have "cached st1 k = Some n" using opst_cached_iff [OF L(2) c1(3)] k1 by simp
  moreover have "good E st1 (?f n)" using gk(2) nz1 by (auto simp: good_def node_ok_def)
  ultimately have op2: "opst E (cache_modify k ?f st1) (M1(k \<mapsto> ?f n))"
    by (rule modify_op [where f = ?f, OF L(2)]) (use gk(1) in simp)
  let ?M2 = "M1(k \<mapsto> ?f n)"
  have "cached (cache_modify k ?f st1) k \<noteq> None" using c1(3) by simp
  then obtain st3 where W: "write_ptr E k (cache_modify k ?f st1) = Inr st3" "opst E st3 ?M2"
    "eff 0 {k} (cache_modify k ?f st1) st3"
    using write_ptr_op [OF op2] by metis
  have e3: "eff 0 ({k} \<union> ({z, x} \<union> troot c \<union> troot b \<union> troot a)) st st3"
    using eff_seq [OF eff_seq [OF L(5) eff_modify [of "{}" st1 k ?f]] W(3)] by (rule eff_mono) auto
  have c3: "cached st3 x \<noteq> None" "cached st3 z \<noteq> None" "cached st3 k \<noteq> None" "rootc st3 c" "rootc st3 b" "rootc st3 a"
    using eff_cached [OF e3] ca k(1) rootc_eff [OF _ e3] by auto
  have z2: "?M2 z = Some z1" "children ?M2 z1 (Node a (x, w) b) c" using z1 d by auto
  have r2: "tree_at ?M2 (nrightID (?f n)) (nrightPos (?f n)) r"
  proof -
    have "\<forall>y\<in>tkeys r. ?M2 y = M y" using d(9-11) by (intro ballI) (metis L(4) fun_upd_other)
    then show ?thesis using x(6) by (simp only: tree_at_cong) simp
  qed
  obtain st' M' where R: "AVL_rightRotate E k st3 = Inr (z, st')" "opst E st' M'"
    "tree_at M' z (npos z1) (Node (Node a (x, w) b) (z, nvalue z1) (Node c (k, nvalue (?f n)) r))"
    "\<And>y. y \<noteq> z \<Longrightarrow> y \<noteq> k \<Longrightarrow> M' y = ?M2 y"
    "eff 0 ({z, k} \<union> troot (Node a (x, w) b) \<union> troot c \<union> troot r) st3 st'"
    "rootc st' (Node a (x, w) b)" "rootc st' c" "rootc st' r"
    by (rule AVL_rightRotate_op [OF E W(2) c3(3) _ _ c3(2) z2(1,2) r2 c3(4)])
      (use d d1 h nz1(1) in \<open>auto intro: less_trans\<close>)
  have e': "eff 0 ({x, z, k} \<union> troot a \<union> troot b \<union> troot c \<union> troot r) st st'"
    using eff_seq [OF e3 R(5)] by (rule eff_mono) auto
  have c': "cached st' x \<noteq> None" "cached st' z \<noteq> None" "cached st' k \<noteq> None" "rootc st' a" "rootc st' b" "rootc st' c"
    using eff_cached [OF e'] ca k(1) rootc_eff [OF _ e'] by auto
  obtain z' where z': "M' z = Some z'" "npos z' = npos z1" using R(3) by auto
  have "deref st1 z = Inr z1" using deref_eq [OF L(2) c1(2)] z1(1) by simp
  then have run: "balance_left E k key pos st = Inr ((z, npos z1), st')"
    using deref_eq [OF op k(1)] k(2) x(1) cache_ptr_eq [OF op ca(1)] x(2) nx opst_cmp [OF op x(2) key(1)] key(2) less_not_sym [OF key(2)] L(1)
      W(1) R(1) return_ptr_op [OF R(2) c'(2) z'(1)] z'(2)
    by (simp add: balance_left_def Let_def)
  have p': "pathc st' key (Node (Node a (x, w) b) (z, u) (Node c (k, nvalue n) r))"
    using c' R(8) pathc_eff [OF ca(6) e'] pathc_eff [OF ca(7) e'] key(2,3) by auto
  have "closed st' a" "closed st' b" "closed st' c" "closed st' r"
    by (rule closed_eff [OF _ e'],
        use cl d d1(7) d2(7) d3(7) o1 o2 d3(1,2) troot_tbelow [of a] troot_tbelow [of b] troot_tbelow [of r] troot_tbelow [of c]
          tbelow_keys [of a] tbelow_keys [of b] tbelow_keys [of c]
          tbelow_keys [of r] troot_keys [of a] troot_keys [of b] troot_keys [of c] troot_keys [of r] in auto)+
  then show ?thesis
    using that [OF run R(2) _ _ e' p'] R(3,4) L(4) z1(3) c' by simp
qed

lemma balance_right_single:
  assumes E: "env_ok E" and op: "opst E st M" and k: "cached st k \<noteq> None" "M k = Some n"
    and s: "children M n r (Node b (x, w) a)" and ord: "ordered (Node r (k, nvalue n) (Node b (x, w) a))"
    and h: "height a < 2 ^ 29" "height b < 2 ^ 29" "height r < 2 ^ 29"
    and key: "bid_wf (ID_SIZE (e_scheme E)) key" "x < key"
    and pc: "pathc st key (Node b (x, w) a)" and cl: "closed st a" "closed st b" "closed st r"
  obtains st' M' p where "balance_right E k key pos st = Inr ((x, p), st')" "opst E st' M'"
    "tree_at M' x p (Node (Node r (k, nvalue n) b) (x, w) a)"
    "\<And>z. z \<notin> {x, k} \<Longrightarrow> M' z = M z" "eff 0 ({x, k} \<union> troot a \<union> troot b \<union> troot r) st st'"
    "pathc st' key (Node (Node r (k, nvalue n) b) (x, w) a)" "closed st' (Node (Node r (k, nvalue n) b) (x, w) a)"
proof -
  obtain xn where x: "nrightID n = x" "M x = Some xn" "npos xn = nrightPos n" "nvalue xn = w" "children M xn b a"
    "tree_at M (nleftID n) (nleftPos n) r" by (rule children_right [OF s])
  have c: "cached st x \<noteq> None" "rootc st a" "rootc st b" "pathc st key a" using pc key(2) by auto
  have nx: "nkey xn = x" "nkey n = k" using opst_good [OF op x(2)] opst_good [OF op k(2)] by auto
  have o: "ordered (Node b (x, w) a)" "ordered r" using ordered_tkeys(1,2) [OF ord] by auto
  note d1 = ordered_tkeys [OF ord] and d2 = ordered_tkeys [OF o(1)]
  have d: "x \<noteq> k" "x \<notin> tkeys a \<union> tkeys b \<union> tkeys r" "k \<notin> tkeys a \<union> tkeys b \<union> tkeys r" using d1 d2 by auto
  obtain st' M' where R: "AVL_leftRotate E k st = Inr (x, st')" "opst E st' M'"
    "tree_at M' x (npos xn) (Node (Node r (k, nvalue n) b) (x, nvalue xn) a)"
    "\<And>z. z \<noteq> x \<Longrightarrow> z \<noteq> k \<Longrightarrow> M' z = M z"
    "eff 0 ({x, k} \<union> troot a \<union> troot b \<union> troot r) st st'" "rootc st' a" "rootc st' b" "rootc st' r"
    using AVL_leftRotate_op [OF E op k x(1) c(1) x(2,5,6) c(3) d h] by metis
  have c': "cached st' x \<noteq> None" "cached st' k \<noteq> None" using eff_cached [OF R(5)] c(1) k(1) by auto
  obtain x' where x': "M' x = Some x'" "npos x' = npos xn" using R(3) by auto
  have run: "balance_right E k key pos st = Inr ((x, npos xn), st')"
    using deref_eq [OF op k(1)] k(2) x(1) cache_ptr_eq [OF op c(1)] x(2) nx opst_cmp [OF op x(2) key(1)] key(2) R(1)
      return_ptr_op [OF R(2) c'(1) x'(1)] x'(2)
    by (simp add: balance_right_def)
  have p': "pathc st' key (Node (Node r (k, nvalue n) b) (x, w) a)"
    using c' R(6-8) pathc_eff [OF c(4) R(5)] key(2) by auto
  have "closed st' a" "closed st' b" "closed st' r"
    by (rule closed_eff [OF _ R(5)],
        use cl d d1(7) d2(7) o d2(1,2) troot_tbelow [of a] troot_tbelow [of b] troot_tbelow [of r] tbelow_keys [of a] tbelow_keys [of b]
          tbelow_keys [of r] troot_keys [of a] troot_keys [of b] troot_keys [of r] in auto)+
  then show ?thesis
    using that [OF run R(2) _ _ R(5) p'] R(3,4) x(4) c' by simp
qed

lemma balance_right_double:
  assumes E: "env_ok E" and op: "opst E st M" and k: "cached st k \<noteq> None" "M k = Some n"
    and s: "children M n r (Node (Node c (z, u) b) (x, w) a)"
    and ord: "ordered (Node r (k, nvalue n) (Node (Node c (z, u) b) (x, w) a))"
    and h: "height a < 2 ^ 28" "height b < 2 ^ 28" "height c < 2 ^ 28" "height r < 2 ^ 28"
    and key: "bid_wf (ID_SIZE (e_scheme E)) key" "key < x" "k < key"
    and pc: "pathc st key (Node (Node c (z, u) b) (x, w) a)" and cl: "closed st a" "closed st b" "closed st c" "closed st r"
  obtains st' M' p where "balance_right E k key pos st = Inr ((z, p), st')" "opst E st' M'"
    "tree_at M' z p (Node (Node r (k, nvalue n) c) (z, u) (Node b (x, w) a))"
    "\<And>y. y \<notin> {x, z, k} \<Longrightarrow> M' y = M y" "eff 0 ({x, z, k} \<union> troot a \<union> troot b \<union> troot c \<union> troot r) st st'"
    "pathc st' key (Node (Node r (k, nvalue n) c) (z, u) (Node b (x, w) a))"
    "closed st' (Node (Node r (k, nvalue n) c) (z, u) (Node b (x, w) a))"
proof -
  obtain xn where x: "nrightID n = x" "M x = Some xn" "npos xn = nrightPos n" "nvalue xn = w" "children M xn (Node c (z, u) b) a"
    "tree_at M (nleftID n) (nleftPos n) r" by (rule children_right [OF s])
  obtain zn where z: "nleftID xn = z" "M z = Some zn" "npos zn = nleftPos xn" "nvalue zn = u" "children M zn c b"
    "tree_at M (nrightID xn) (nrightPos xn) a" by (rule children_left [OF x(5)])
  have ca: "cached st x \<noteq> None" "cached st z \<noteq> None" "rootc st a" "rootc st b" "rootc st c"
    "z < key \<Longrightarrow> pathc st key b" "key < z \<Longrightarrow> pathc st key c" using pc key(2) by auto
  have nx: "nkey xn = x" "nkey n = k" "nkey zn = z"
    using opst_good [OF op x(2)] opst_good [OF op k(2)] opst_good [OF op z(2)] by auto
  have o1: "ordered (Node (Node c (z, u) b) (x, w) a)" "ordered r" using ordered_tkeys(1,2) [OF ord] by auto
  have o2: "ordered a" "ordered (Node c (z, u) b)" using ordered_tkeys(1,2) [OF o1(1)] by auto
  note d1 = ordered_tkeys [OF ord] and d2 = ordered_tkeys [OF o1(1)] and d3 = ordered_tkeys [OF o2(2)]
  have d: "z \<noteq> x" "z \<notin> tkeys b \<union> tkeys c \<union> tkeys a" "x \<notin> tkeys b \<union> tkeys c \<union> tkeys a" "k \<noteq> x" "k \<noteq> z"
    "k \<notin> tkeys a" "k \<notin> tkeys b" "k \<notin> tkeys c" "k \<notin> tkeys r" "x \<notin> tkeys r" "z \<notin> tkeys r"
    using d1 d2 d3 by auto
  obtain st1 M1 where L: "AVL_rightRotate E x st = Inr (z, st1)" "opst E st1 M1"
    "tree_at M1 z (npos zn) (Node c (z, nvalue zn) (Node b (x, nvalue xn) a))"
    "\<And>y. y \<noteq> z \<Longrightarrow> y \<noteq> x \<Longrightarrow> M1 y = M y"
    "eff 0 ({z, x} \<union> troot c \<union> troot b \<union> troot a) st st1" "rootc st1 c" "rootc st1 b" "rootc st1 a"
    by (rule AVL_rightRotate_op [OF E op ca(1) x(2) z(1) ca(2) z(2,5,6) ca(4)]) (use d h in auto)
  have c1: "cached st1 x \<noteq> None" "cached st1 z \<noteq> None" "cached st1 k \<noteq> None"
    using eff_cached [OF L(5)] ca(1,2) k(1) by auto
  have k1: "M1 k = Some n" using L(4) d k(2) by simp
  obtain z1 where z1: "M1 z = Some z1" "npos z1 = npos zn" "nvalue z1 = u" "children M1 z1 c (Node b (x, w) a)"
    using L(3) x(4) z(4) by (auto simp: children_def)
  have nz1: "nkey z1 = z" "good E st1 z1" using opst_good [OF L(2) z1(1)] by auto
  let ?f = "\<lambda>n. n\<lparr>nrightID := nkey z1, nrightPos := npos z1\<rparr>"
  have gk: "nkey n = k" "good E st1 n" using opst_good [OF L(2) k1] by auto
  have "cached st1 k = Some n" using opst_cached_iff [OF L(2) c1(3)] k1 by simp
  moreover have "good E st1 (?f n)" using gk(2) nz1 by (auto simp: good_def node_ok_def)
  ultimately have op2: "opst E (cache_modify k ?f st1) (M1(k \<mapsto> ?f n))"
    by (rule modify_op [where f = ?f, OF L(2)]) (use gk(1) in simp)
  let ?M2 = "M1(k \<mapsto> ?f n)"
  have "cached (cache_modify k ?f st1) k \<noteq> None" using c1(3) by simp
  then obtain st3 where W: "write_ptr E k (cache_modify k ?f st1) = Inr st3" "opst E st3 ?M2"
    "eff 0 {k} (cache_modify k ?f st1) st3"
    using write_ptr_op [OF op2] by metis
  have e3: "eff 0 ({k} \<union> ({z, x} \<union> troot c \<union> troot b \<union> troot a)) st st3"
    using eff_seq [OF eff_seq [OF L(5) eff_modify [of "{}" st1 k ?f]] W(3)] by (rule eff_mono) auto
  have c3: "cached st3 x \<noteq> None" "cached st3 z \<noteq> None" "cached st3 k \<noteq> None" "rootc st3 c" "rootc st3 b" "rootc st3 a"
    using eff_cached [OF e3] ca k(1) rootc_eff [OF _ e3] by auto
  have z2: "?M2 z = Some z1" "children ?M2 z1 c (Node b (x, w) a)" using z1 d by auto
  have r2: "tree_at ?M2 (nleftID (?f n)) (nleftPos (?f n)) r"
  proof -
    have "\<forall>y\<in>tkeys r. ?M2 y = M y" using d(9-11) by (intro ballI) (metis L(4) fun_upd_other)
    then show ?thesis using x(6) by (simp only: tree_at_cong) simp
  qed
  obtain st' M' where R: "AVL_leftRotate E k st3 = Inr (z, st')" "opst E st' M'"
    "tree_at M' z (npos z1) (Node (Node r (k, nvalue (?f n)) c) (z, nvalue z1) (Node b (x, w) a))"
    "\<And>y. y \<noteq> z \<Longrightarrow> y \<noteq> k \<Longrightarrow> M' y = ?M2 y"
    "eff 0 ({z, k} \<union> troot (Node b (x, w) a) \<union> troot c \<union> troot r) st3 st'"
    "rootc st' (Node b (x, w) a)" "rootc st' c" "rootc st' r"
    by (rule AVL_leftRotate_op [OF E W(2) c3(3) _ _ c3(2) z2(1,2) r2 c3(4)])
      (use d d1 h nz1(1) in \<open>auto intro: less_trans\<close>)
  have e': "eff 0 ({x, z, k} \<union> troot a \<union> troot b \<union> troot c \<union> troot r) st st'"
    using eff_seq [OF e3 R(5)] by (rule eff_mono) auto
  have c': "cached st' x \<noteq> None" "cached st' z \<noteq> None" "cached st' k \<noteq> None" "rootc st' a" "rootc st' b" "rootc st' c"
    using eff_cached [OF e'] ca k(1) rootc_eff [OF _ e'] by auto
  obtain z' where z': "M' z = Some z'" "npos z' = npos z1" using R(3) by auto
  have "deref st1 z = Inr z1" using deref_eq [OF L(2) c1(2)] z1(1) by simp
  then have run: "balance_right E k key pos st = Inr ((z, npos z1), st')"
    using deref_eq [OF op k(1)] k(2) x(1) cache_ptr_eq [OF op ca(1)] x(2) nx opst_cmp [OF op x(2) key(1)] key(2) less_not_sym [OF key(2)] L(1)
      W(1) R(1) return_ptr_op [OF R(2) c'(2) z'(1)] z'(2)
    by (simp add: balance_right_def Let_def)
  have p': "pathc st' key (Node (Node r (k, nvalue n) c) (z, u) (Node b (x, w) a))"
    using c' R(8) pathc_eff [OF ca(6) e'] pathc_eff [OF ca(7) e'] key(2,3) by auto
  have "closed st' a" "closed st' b" "closed st' c" "closed st' r"
    by (rule closed_eff [OF _ e'],
        use cl d d1(7) d2(7) d3(7) o1 o2 d3(1,2) troot_tbelow [of a] troot_tbelow [of b] troot_tbelow [of r] troot_tbelow [of c]
          tbelow_keys [of a] tbelow_keys [of b] tbelow_keys [of c]
          tbelow_keys [of r] troot_keys [of a] troot_keys [of b] troot_keys [of c] troot_keys [of r] in auto)+
  then show ?thesis
    using that [OF run R(2) _ _ e' p'] R(3,4) L(4) z1(3) c' by simp
qed

text \<open>The three outcomes of \<open>rebalance\<close> as one statement about \<open>reb\<close>.\<close>

definition rebalanced :: "env \<Rightarrow> bid \<Rightarrow> oram \<Rightarrow> mem \<Rightarrow> avl \<Rightarrow> bid \<Rightarrow> bytes \<Rightarrow> avl \<Rightarrow>
    (error + (bid \<times> int) \<times> oram) \<Rightarrow> bool" where
  "rebalanced E key st M l k v r res \<longleftrightarrow>
     (\<exists>st' M' k' p. res = Inr ((k', p), st') \<and> opst E st' M' \<and> tree_at M' k' p (reb key l (k, v) r) \<and>
        (\<forall>z. z \<notin> insert k (tkeys l \<union> tkeys r) \<longrightarrow> M' z = M z) \<and> eff 0 (insert k (tkeys l \<union> tkeys r)) st st' \<and>
        closed st' (reb key l (k, v) r) \<and> rootc st' (reb key l (k, v) r) \<and>
        ((key < k \<longrightarrow> pathc st key l) \<and> (k < key \<longrightarrow> pathc st key r) \<longrightarrow> pathc st' key (reb key l (k, v) r)))"

lemma balance_left_op:
  assumes E: "env_ok E" and op: "opst E st M" and k: "cached st k \<noteq> None" "M k = Some n"
    and s: "children M n l r" and ord: "ordered (Node l (k, nvalue n) r)" and h: "height l < 2 ^ 28" "height r < 2 ^ 28"
    and key: "bid_wf (ID_SIZE (e_scheme E)) key" "key < k"
    and bal: "height r + 1 < height l" "grown key l" and pc: "pathc st key l" and cl: "closed st l" "closed st r"
  shows "rebalanced E key st M l k (nvalue n) r (balance_left E k key pos st)"
  using bal(2)
proof (cases rule: grownE)
  case (1 a x w b)
  have reb: "reb key l (k, nvalue n) r = Node a (x, w) (Node b (k, nvalue n) r)"
    using 1 bal by (simp add: reb_def)
  have hh: "height a < 2 ^ 29" "height b < 2 ^ 29" "height r < 2 ^ 29" using h 1(1) by auto
  have cc: "closed st a" "closed st b" "closed st r" using cl 1(1) by auto
  obtain st' M' p where R: "balance_left E k key pos st = Inr ((x, p), st')" "opst E st' M'"
    "tree_at M' x p (Node a (x, w) (Node b (k, nvalue n) r))"
    "\<And>z. z \<notin> {x, k} \<Longrightarrow> M' z = M z" "eff 0 ({x, k} \<union> troot a \<union> troot b \<union> troot r) st st'"
    "pathc st' key (Node a (x, w) (Node b (k, nvalue n) r))" "closed st' (Node a (x, w) (Node b (k, nvalue n) r))"
    by (rule balance_left_single [where pos = pos, OF E op k s [unfolded 1(1)] ord [unfolded 1(1)] hh key(1) 1(2) pc [unfolded 1(1)] cc]) blast
  from R(5) have e: "eff 0 (insert k (tkeys l \<union> tkeys r)) st st'"
    by (rule eff_mono) (use 1(1) troot_keys [of a] troot_keys [of b] troot_keys [of r] in auto)
  have f: "M' y = M y" if "y \<notin> insert k (tkeys l \<union> tkeys r)" for y by (rule R(4)) (use that 1(1) in auto)
  have c: "rootc st' (reb key l (k, nvalue n) r)" using R(6) reb by simp
  show ?thesis unfolding rebalanced_def using R(1,2,3,6,7) f e c unfolding reb by blast
next
  case (2 a x w b0)
  then obtain b z u c where b0: "b0 = Node b (z, u) c" by (cases b0) auto
  note l = 2(1) [unfolded b0]
  have reb: "reb key l (k, nvalue n) r = Node (Node a (x, w) b) (z, u) (Node c (k, nvalue n) r)"
    using 2(2) l bal by (simp add: reb_def)
  have hh: "height a < 2 ^ 28" "height b < 2 ^ 28" "height c < 2 ^ 28" "height r < 2 ^ 28" using h l by auto
  have cc: "closed st a" "closed st b" "closed st c" "closed st r" using cl l by auto
  obtain st' M' p where R: "balance_left E k key pos st = Inr ((z, p), st')" "opst E st' M'"
    "tree_at M' z p (Node (Node a (x, w) b) (z, u) (Node c (k, nvalue n) r))"
    "\<And>y. y \<notin> {x, z, k} \<Longrightarrow> M' y = M y" "eff 0 ({x, z, k} \<union> troot a \<union> troot b \<union> troot c \<union> troot r) st st'"
    "pathc st' key (Node (Node a (x, w) b) (z, u) (Node c (k, nvalue n) r))"
    "closed st' (Node (Node a (x, w) b) (z, u) (Node c (k, nvalue n) r))"
    by (rule balance_left_double [where pos = pos, OF E op k s [unfolded l] ord [unfolded l] hh key(1) 2(2) key(2) pc [unfolded l] cc]) blast
  from R(5) have e: "eff 0 (insert k (tkeys l \<union> tkeys r)) st st'"
    by (rule eff_mono) (use l troot_keys [of a] troot_keys [of b] troot_keys [of c] troot_keys [of r] in auto)
  have f: "M' y = M y" if "y \<notin> insert k (tkeys l \<union> tkeys r)" for y by (rule R(4)) (use that l in auto)
  have c: "rootc st' (reb key l (k, nvalue n) r)" using R(6) reb by simp
  show ?thesis unfolding rebalanced_def using R(1,2,3,6,7) f e c unfolding reb by blast
qed

lemma balance_right_op:
  assumes E: "env_ok E" and op: "opst E st M" and k: "cached st k \<noteq> None" "M k = Some n"
    and s: "children M n l r" and ord: "ordered (Node l (k, nvalue n) r)" and h: "height r < 2 ^ 28" "height l < 2 ^ 28"
    and key: "bid_wf (ID_SIZE (e_scheme E)) key" "k < key"
    and bal: "height l + 1 < height r" "grown key r" and pc: "pathc st key r" and cl: "closed st r" "closed st l"
  shows "rebalanced E key st M l k (nvalue n) r (balance_right E k key pos st)"
  using bal(2)
proof (cases rule: grownE)
  case (2 b x w a)
  have reb: "reb key l (k, nvalue n) r = Node (Node l (k, nvalue n) b) (x, w) a"
    using 2 bal by (simp add: reb_def)
  have hh: "height a < 2 ^ 29" "height b < 2 ^ 29" "height l < 2 ^ 29" using h 2(1) by auto
  have cc: "closed st a" "closed st b" "closed st l" using cl 2(1) by auto
  obtain st' M' p where R: "balance_right E k key pos st = Inr ((x, p), st')" "opst E st' M'"
    "tree_at M' x p (Node (Node l (k, nvalue n) b) (x, w) a)"
    "\<And>z. z \<notin> {x, k} \<Longrightarrow> M' z = M z" "eff 0 ({x, k} \<union> troot a \<union> troot b \<union> troot l) st st'"
    "pathc st' key (Node (Node l (k, nvalue n) b) (x, w) a)" "closed st' (Node (Node l (k, nvalue n) b) (x, w) a)"
    by (rule balance_right_single [where pos = pos, OF E op k s [unfolded 2(1)] ord [unfolded 2(1)] hh key(1) 2(2) pc [unfolded 2(1)] cc]) blast
  from R(5) have e: "eff 0 (insert k (tkeys l \<union> tkeys r)) st st'"
    by (rule eff_mono) (use 2(1) troot_keys [of a] troot_keys [of b] troot_keys [of l] in auto)
  have f: "M' y = M y" if "y \<notin> insert k (tkeys l \<union> tkeys r)" for y by (rule R(4)) (use that 2(1) in auto)
  have c: "rootc st' (reb key l (k, nvalue n) r)" using R(6) reb by simp
  show ?thesis unfolding rebalanced_def using R(1,2,3,6,7) f e c unfolding reb by blast
next
  case (1 b0 x w a)
  then obtain b z u c where b0: "b0 = Node c (z, u) b" by (cases b0) auto
  note r = 1(1) [unfolded b0]
  have reb: "reb key l (k, nvalue n) r = Node (Node l (k, nvalue n) c) (z, u) (Node b (x, w) a)"
    using 1(2) r bal by (simp add: reb_def)
  have hh: "height a < 2 ^ 28" "height b < 2 ^ 28" "height c < 2 ^ 28" "height l < 2 ^ 28" using h r by auto
  have cc: "closed st a" "closed st b" "closed st c" "closed st l" using cl r by auto
  obtain st' M' p where R: "balance_right E k key pos st = Inr ((z, p), st')" "opst E st' M'"
    "tree_at M' z p (Node (Node l (k, nvalue n) c) (z, u) (Node b (x, w) a))"
    "\<And>y. y \<notin> {x, z, k} \<Longrightarrow> M' y = M y" "eff 0 ({x, z, k} \<union> troot a \<union> troot b \<union> troot c \<union> troot l) st st'"
    "pathc st' key (Node (Node l (k, nvalue n) c) (z, u) (Node b (x, w) a))"
    "closed st' (Node (Node l (k, nvalue n) c) (z, u) (Node b (x, w) a))"
    by (rule balance_right_double [where pos = pos, OF E op k s [unfolded r] ord [unfolded r] hh key(1) 1(2) key(2) pc [unfolded r] cc]) blast
  from R(5) have e: "eff 0 (insert k (tkeys l \<union> tkeys r)) st st'"
    by (rule eff_mono) (use r troot_keys [of a] troot_keys [of b] troot_keys [of c] troot_keys [of l] in auto)
  have f: "M' y = M y" if "y \<notin> insert k (tkeys l \<union> tkeys r)" for y by (rule R(4)) (use that r in auto)
  have c: "rootc st' (reb key l (k, nvalue n) r)" using R(6) reb by simp
  show ?thesis unfolding rebalanced_def using R(1,2,3,6,7) f e c unfolding reb by blast
qed

lemma rebalanced_pre:
  assumes "rebalanced E key st2 M1 l k v r res" "eff 0 (troot l \<union> troot r) st st2" "\<And>z. z \<noteq> k \<Longrightarrow> M1 z = M z"
  shows "rebalanced E key st M l k v r res"
proof -
  obtain st' M' k' p where R: "res = Inr ((k', p), st')" "opst E st' M'" "tree_at M' k' p (reb key l (k, v) r)"
    "\<forall>z. z \<notin> insert k (tkeys l \<union> tkeys r) \<longrightarrow> M' z = M1 z" "eff 0 (insert k (tkeys l \<union> tkeys r)) st2 st'"
    "closed st' (reb key l (k, v) r) \<and> rootc st' (reb key l (k, v) r)"
    "(key < k \<longrightarrow> pathc st2 key l) \<and> (k < key \<longrightarrow> pathc st2 key r) \<longrightarrow> pathc st' key (reb key l (k, v) r)"
    using assms(1) unfolding rebalanced_def by blast
  have "eff 0 (insert k (tkeys l \<union> tkeys r)) st st'"
    using eff_seq [OF assms(2) R(5)] by (rule eff_mono) (use troot_keys [of l] troot_keys [of r] in auto)
  moreover have "\<forall>z. z \<notin> insert k (tkeys l \<union> tkeys r) \<longrightarrow> M' z = M z" using R(4) assms(3) by auto
  moreover have "(key < k \<longrightarrow> pathc st key l) \<and> (k < key \<longrightarrow> pathc st key r) \<longrightarrow> pathc st' key (reb key l (k, v) r)"
    using R(7) pathc_eff [OF _ assms(2)] by blast
  ultimately show ?thesis unfolding rebalanced_def using R(1,2,3,6) by blast
qed

lemma rebalance_op:
  assumes E: "env_ok E" and op: "opst E st M" and k: "cached st k \<noteq> None" "M k = Some n"
    and s: "children M n l r" and ord: "ordered (Node l (k, nvalue n) r)" and h: "height l < 2 ^ 28" "height r < 2 ^ 28"
    and key: "bid_wf (ID_SIZE (e_scheme E)) key"
    and left: "height r + 1 < height l \<Longrightarrow> key < k \<and> grown key l \<and> pathc st key l"
    and right: "height l + 1 < height r \<Longrightarrow> k < key \<and> grown key r \<and> pathc st key r"
    and cl: "closed st l" "closed st r"
  shows "rebalanced E key st M l k (nvalue n) r (rebalance E k key (npos n) st)"
proof -
  let ?n1 = "n\<lparr>nheight := int (Suc (max (height l) (height r)))\<rparr>"
  let ?M1 = "M(k \<mapsto> ?n1)"
  note o = ordered_tkeys [OF ord]
  have hm: "max (height l) (height r) < 2 ^ 30" using h by simp
  obtain st1 where u: "update_height E k st = Inr st1" "opst E st1 ?M1" "eff 0 (troot l \<union> troot r) st st1"
    by (rule update_height_op [OF E op k s hm]) blast
  have c1: "cached st1 k \<noteq> None" using eff_cached [OF u(3) k(1)] .
  have s1: "children ?M1 ?n1 l r" using s o(5,6) by (simp add: children_def)
  obtain st2 where b: "getBalance E k st1 = Inr (int (height l) - int (height r), st2)" "opst E st2 ?M1"
    "eff 0 (troot l \<union> troot r) st1 st2" "rootc st2 l" "rootc st2 r"
    by (rule getBalance_op [OF E u(2) c1 _ s1]) auto
  have e2: "eff 0 (troot l \<union> troot r) st st2" using eff_trans0 [OF u(3) b(3)] .
  have c2: "cached st2 k \<noteq> None" using eff_cached [OF e2 k(1)] .
  have cl2: "closed st2 l" "closed st2 r"
    by (rule closed_eff [OF _ e2], use cl o(1,2,7) troot_tbelow [of l] troot_tbelow [of r] tbelow_keys [of l] tbelow_keys [of r]
        troot_keys [of l] troot_keys [of r] in auto)+
  have ord1: "ordered (Node l (k, nvalue ?n1) r)" and M1k: "?M1 k = Some ?n1" using ord by auto
  have pre: "rebalanced E key st2 ?M1 l k (nvalue ?n1) r (rebalance E k key (npos n) st)"
  proof -
    consider "height r + 1 < height l" | "height l + 1 < height r" | "height l \<le> height r + 1" "height r \<le> height l + 1"
      by linarith
    then show ?thesis
    proof cases
      case 1
      then have "key < k" "grown key l" "pathc st2 key l" using left pathc_eff [OF _ e2] by auto
      then have "rebalanced E key st2 ?M1 l k (nvalue ?n1) r (balance_left E k key (npos n) st2)"
        by (intro balance_left_op [OF E b(2) c2 M1k s1 ord1 h key _ 1]) (use cl2 in auto)
      then show ?thesis using 1 u(1) b(1) by (simp add: rebalance_def)
    next
      case 2
      then have "k < key" "grown key r" "pathc st2 key r" using right pathc_eff [OF _ e2] by auto
      then have "rebalanced E key st2 ?M1 l k (nvalue ?n1) r (balance_right E k key (npos n) st2)"
        by (intro balance_right_op [OF E b(2) c2 M1k s1 ord1 h(2,1) key _ 2]) (use cl2 in auto)
      then show ?thesis using 2 u(1) b(1) by (simp add: rebalance_def)
    next
      case 3
      obtain st3 where w: "write_ptr E k st2 = Inr st3" "opst E st3 ?M1" "eff 0 {k} st2 st3"
        using write_ptr_op [OF b(2) c2] by metis
      have "deref st2 k = Inr ?n1" "nkey n = k" using deref_eq [OF b(2) c2] opst_good [OF op k(2)] by auto
      then have run: "rebalance E k key (npos n) st = Inr ((k, npos n), st3)"
        using 3 u(1) b(1) w(1) by (simp add: rebalance_def)
      have t: "tree_at ?M1 k (npos n) (Node l (k, nvalue n) r)" using s1 by (simp add: children_def)
      have c3: "cached st3 k \<noteq> None" "rootc st3 l" "rootc st3 r"
        using eff_cached [OF w(3) c2] rootc_eff [OF b(4) w(3)] rootc_eff [OF b(5) w(3)] by auto
      have "closed st3 l" "closed st3 r"
        by (rule closed_eff [OF _ w(3)], use cl2 o(5,6) tbelow_keys [of l] tbelow_keys [of r] in auto)+
      then have cl3: "closed st3 (Node l (k, nvalue n) r)" using c3 by simp
      have e3: "eff 0 (insert k (tkeys l \<union> tkeys r)) st2 st3" using w(3) by (rule eff_mono) auto
      have "(key < k \<longrightarrow> pathc st2 key l) \<and> (k < key \<longrightarrow> pathc st2 key r) \<longrightarrow> pathc st3 key (Node l (k, nvalue n) r)"
        using c3 pathc_eff [OF _ w(3)] by auto
      then show ?thesis
        unfolding rebalanced_def reb_none [OF 3] run using w(2) t e3 cl3 c3(1) by fastforce
    qed
  qed
  then have "rebalanced E key st2 ?M1 l k (nvalue n) r (rebalance E k key (npos n) st)" by simp
  then show ?thesis using e2 by (rule rebalanced_pre) simp
qed

section \<open>Insertion\<close>

text \<open>What \<open>AVL_insert\<close> achieves for the subtree \<open>t\<close>.\<close>

definition inserted :: "env \<Rightarrow> bid \<Rightarrow> bytes \<Rightarrow> oram \<Rightarrow> mem \<Rightarrow> avl \<Rightarrow> (error + (bid \<times> int) \<times> oram) \<Rightarrow> bool" where
  "inserted E key v st M t res \<longleftrightarrow>
     (\<exists>st' M' k' p. res = Inr ((k', p), st') \<and> opst E st' M' \<and> tree_at M' k' p (ins key v t) \<and>
        (\<forall>z. z \<notin> insert key (tkeys t) \<longrightarrow> M' z = M z) \<and>
        eff (if e_scheme E = Horus \<and> key \<notin> tkeys t then 1 else 0) (insert key (tkeys t)) st st' \<and>
        closed st' (ins key v t) \<and> rootc st' (ins key v t) \<and> (key \<notin> tkeys t \<longrightarrow> pathc st' key (ins key v t)))"

definition new_key_ok :: "env \<Rightarrow> oram \<Rightarrow> mem \<Rightarrow> avl \<Rightarrow> bid \<Rightarrow> bool" where
  "new_key_ok E st M t key \<longleftrightarrow>
     bid_wf (ID_SIZE (e_scheme E)) key \<and> not_dummy E st key \<and>
     (key \<notin> tkeys t \<longrightarrow> M key = None \<and> (e_scheme E = Horus \<longrightarrow> 0 < rs_empty (o_store st)))"

lemma value_bytes_eq:
  "length s \<le> 16 \<Longrightarrow> value_bytes s = Inr (string_bytes s @ replicate (16 - length s) 0)"
  by (simp add: value_bytes_def copy_at_def)

lemma not_stale: "not_dummy E st k \<Longrightarrow> \<not> is_stale E (o_dummyValue st) k"
  by (auto simp: not_dummy_def is_stale_def)

lemma insert_leaf:
  assumes E: "env_ok E" and op: "opst E st M" and k: "bid_eq_int k 0" and key: "new_key_ok E st M Leaf key"
    and s: "length s \<le> 16" "v = string_bytes s @ replicate (16 - length s) 0"
  shows "inserted E key v st M Leaf (AVL_insert E dv (Suc fuel) k p key s st)"
proof -
  obtain q st1 where q: "AVL_RandomPath E st = (q, st1)" by (cases "AVL_RandomPath E st")
  then have st1: "st1 = st\<lparr>o_rng := o_rng st + 1\<rparr>" by (simp add: AVL_RandomPath_def)
  have op1: "opst E st1 M" using op by (simp add: st1 opst_rng)
  have g1: "good E st1 = good E st" by (rule good_cfg) (simp add: st1)
  have leaf: "leaf_ok st q" using RandomPath_leaf [OF opst_geom [OF op], unfolded AVL_RandomPath_eq [symmetric]] q by simp
  let ?zero = "Bid_int (ID_SIZE (e_scheme E)) 0"
  let ?np = "if e_scheme E = Horus then e_uninit E else - 1"
  let ?n = "\<lparr>nkey = key, nvalue = v, npos = q, nleftID = ?zero, nleftPos = ?np, nrightID = ?zero, nrightPos = ?np,
    nevictionNode = e_uninit E, nheight = 1\<rparr>"
  have new: "AVL_newNode E key s st = Inr (?n, st1)"
    using value_bytes_eq [OF s(1)] s(2) q by (simp add: AVL_newNode_def Let_def)
  have "int32 q" using leaf_int32 [OF opst_geom [OF op] leaf] .
  moreover have "int32 (e_uninit E)" "int32 (- 1)" "int32 1" "length v = 16"
    using env_okD(5) [OF E] s by (auto simp: int32_def)
  ultimately have "good E st ?n" using key leaf by (auto simp: good_def node_ok_def new_key_ok_def)
  then have g: "good E st1 ?n" by (simp add: g1)
  have key': "M key = None" "e_scheme E = Horus \<Longrightarrow> 0 < rs_empty (o_store st1)"
    using key by (auto simp: new_key_ok_def st1)
  obtain st2 where W: "WriteNode E key ?n st1 = Inr (npos ?n, st2)" "opst E st2 (M(key \<mapsto> ?n))"
    "cached st2 key = Some ?n" "cfg st2 = cfg st1" "grows st1 st2" "set (o_modified st2) = insert key (set (o_modified st1))"
    "rs_empty (o_store st2) = (if e_scheme E = Horus then rs_empty (o_store st1) - 1 else rs_empty (o_store st1))"
    by (rule WriteNode_new [OF E op1 key'(1) g _ key'(2)]) auto
  have "AVL_insert E dv (Suc fuel) k p key s st = Inr ((key, q), st2)" using k new W(1) by simp
  moreover have "eff (if e_scheme E = Horus \<and> key \<notin> tkeys Leaf then 1 else 0) (insert key (tkeys Leaf)) st st2"
    using W(4-7) key'(2) by (auto simp: eff_def grows_def st1)
  moreover have "tree_at (M(key \<mapsto> ?n)) key q (ins key v Leaf)" by simp
  ultimately show ?thesis unfolding inserted_def using W(2,3) by fastforce
qed

lemma insert_here:
  assumes E: "env_ok E" and op: "opst E st M" and t: "tree_at M k p (Node l (key, w) r)"
    and ord: "ordered (Node l (key, w) r)" and cl: "closed st (Node l (key, w) r)" and dv: "dv = o_dummyValue st"
    and s: "length s \<le> 16" "v = string_bytes s @ replicate (16 - length s) 0"
  shows "inserted E key v st M (Node l (key, w) r) (AVL_insert E dv (Suc fuel) k p key s st)"
proof -
  obtain n where n: "k = key" "M key = Some n" "npos n = p" "nvalue n = w"
    "nheight n = int (Suc (max (height l) (height r)))" "children M n l r"
    using t by (auto simp: children_def)
  have g: "nkey n = key" "good E st n" using opst_good [OF op n(2)] by auto
  have wf: "bid_wf (ID_SIZE (e_scheme E)) key" using opst_wf [OF op n(2)] .
  have nz: "\<not> bid_eq_int key 0" "\<not> is_stale E dv key"
    using opst_nonzero [OF op n(2)] not_stale g dv by (auto simp: good_def)
  note o = ordered_tkeys [OF ord]
  obtain st1 where r: "ReadNode E key p p st = Inr (Some n, st1)" "opst E st1 M" "eff 0 {key} st st1" "cached st1 key = Some n"
    using ReadNode_tree [OF E op n(2)] n(3) by metis
  have g1: "good E st1 n" using opst_good [OF r(2) n(2)] by simp
  let ?f = "\<lambda>n. n\<lparr>nvalue := v\<rparr>"
  have "good E st1 (?f n)" using g1 s by (simp add: good_def node_ok_def)
  then have op2: "opst E (cache_modify key ?f st1) (M(key \<mapsto> ?f n))"
    by (rule modify_op [where f = ?f, OF r(2,4)]) (use g(1) in simp)
  have c2: "cached (cache_modify key ?f st1) key \<noteq> None" using r(4) by simp
  let ?st3 = "mark_modified key (cache_modify key ?f st1)"
  have run: "AVL_insert E dv (Suc fuel) k p key s st = Inr ((key, p), ?st3)"
    using n(1) nz r(1) g(1) opst_cmp [OF op n(2) wf] value_bytes_eq [OF s(1)] s(2) WriteNode_cached [OF op2 c2, of "n\<lparr>nvalue := v\<rparr>"]
    by simp
  have "tree_at (M(key \<mapsto> ?f n)) key p (Node l (key, v) r)" using n o(5,6) by (auto simp: children_def)
  moreover have "eff 0 {key} st ?st3" using r(3) by (auto simp: eff_def)
  moreover from this have "closed ?st3 l" "closed ?st3 r"
    by (rule closed_eff [rotated], use cl o(5,6) tbelow_keys [of l] tbelow_keys [of r] in auto)+
  moreover have "opst E ?st3 (M(key \<mapsto> ?f n))" using op2 by (rule opst_mark_modified)
  moreover have "eff 0 (insert key (tkeys (Node l (key, w) r))) st ?st3" using calculation(2) by (rule eff_mono) auto
  ultimately show ?thesis unfolding inserted_def run using c2 by fastforce
qed

lemma insert_left:
  assumes E: "env_ok E" and op: "opst E st M" and t: "tree_at M k p (Node l (x, w) r)"
    and ord: "ordered (Node l (x, w) r)" and a: "avl (Node l (x, w) r)" and h: "height (Node l (x, w) r) < 2 ^ 27"
    and cl: "closed st (Node l (x, w) r)" and dv: "dv = o_dummyValue st"
    and key: "bid_wf (ID_SIZE (e_scheme E)) key" "key < x"
    and IH: "\<And>st1 k1 p1. opst E st1 M \<Longrightarrow> tree_at M k1 p1 l \<Longrightarrow> closed st1 l \<Longrightarrow> eff 0 {x} st st1 \<Longrightarrow>
      inserted E key v st1 M l (AVL_insert E dv fuel k1 p1 key s st1)"
  shows "inserted E key v st M (Node l (x, w) r) (AVL_insert E dv (Suc fuel) k p key s st)"
proof -
  let ?l = "ins key v l"
  let ?m = "if e_scheme E = Horus \<and> key \<notin> tkeys l then 1 else 0"
  obtain n where n: "k = x" "M x = Some n" "npos n = p" "nvalue n = w" "children M n l r"
    using t by (auto simp: children_def)
  have g: "nkey n = x" "good E st n" using opst_good [OF op n(2)] by auto
  have nz: "\<not> bid_eq_int x 0" "\<not> is_stale E dv x"
    using opst_nonzero [OF op n(2)] not_stale g dv by (auto simp: good_def)
  note o = ordered_tkeys [OF ord]
  have kx: "key \<noteq> x" "key \<notin> tkeys r" using key(2) o(4) by auto
  obtain st1 where R: "ReadNode E x p p st = Inr (Some n, st1)" "opst E st1 M" "eff 0 {x} st st1" "cached st1 x = Some n"
    using ReadNode_tree [OF E op n(2)] n(3) by metis
  have cl1: "closed st1 l" "closed st1 r"
    by (rule closed_eff [OF _ R(3)], use cl o(5,6) tbelow_keys [of l] tbelow_keys [of r] in auto)+
  have tl: "tree_at M (nleftID n) (nleftPos n) l" and tr: "tree_at M (nrightID n) (nrightPos n) r"
    using n(5) by (auto simp: children_def)
  obtain st2 M2 c q where I: "AVL_insert E dv fuel (nleftID n) (nleftPos n) key s st1 = Inr ((c, q), st2)" "opst E st2 M2"
    "tree_at M2 c q ?l" "\<forall>z. z \<notin> insert key (tkeys l) \<longrightarrow> M2 z = M z" "eff ?m (insert key (tkeys l)) st1 st2"
    "closed st2 ?l" "rootc st2 ?l" "key \<notin> tkeys l \<longrightarrow> pathc st2 key ?l"
    using IH [OF R(2) tl cl1(1) R(3)] unfolding inserted_def by blast
  have kl: "tkeys ?l = insert key (tkeys l)" using keys_ins [OF o(1)] by (simp add: tkeys_def)
  have M2x: "M2 x = Some n" using I(4) o(5) kx n(2) by simp
  have c2: "cached st2 x = Some n" using eff_cached [OF I(5)] R(4) opst_cached_iff [OF I(2), of x] M2x by simp
  have tr2: "tree_at M2 (nrightID n) (nrightPos n) r"
  proof -
    have "\<forall>z\<in>tkeys r. M2 z = M z" using I(4) o(7) kx(2) by auto
    from tree_at_cong [OF this] show ?thesis using tr by simp
  qed
  obtain cn where cn: "M2 c = Some cn" "npos cn = q"
    using I(3) keys_ins [OF o(1), of key v] by (cases ?l) auto
  have gc: "nkey cn = c" "good E st2 cn" "good E st2 n" using opst_good [OF I(2) cn(1)] opst_good [OF I(2) M2x] by auto
  let ?f = "\<lambda>n. n\<lparr>nleftID := c, nleftPos := q\<rparr>"
  have gf: "good E st2 (?f n)" using gc cn(2) by (auto simp: good_def node_ok_def)
  then have op3: "opst E (cache_modify x ?f st2) (M2(x \<mapsto> ?f n))"
    by (rule modify_op [where f = ?f, OF I(2) c2]) (use g(1) in simp)
  let ?st3 = "cache_modify x ?f st2"
  have c3: "cached ?st3 x \<noteq> None" using c2 by simp
  have s3: "children (M2(x \<mapsto> ?f n)) (?f n) ?l r" using I(3) tr2 kl o(5,6) kx by (simp add: children_def)
  have ord3: "ordered (Node ?l (x, nvalue (?f n)) r)"
    using o key(2) kl by (auto simp: ordered_Node ins_ordered tkeys_def)
  have al: "avl l" "avl r" "height l \<le> height r + 1" "height r \<le> height l + 1" using a by auto
  note ia = ins_avl [OF al(1), of key v]
  have h3: "height ?l < 2 ^ 28" "height r < 2 ^ 28" using ia h by auto
  have e3: "eff 0 {} st2 ?st3" by simp
  have cl3: "closed ?st3 ?l" "closed ?st3 r"
  proof -
    show "closed ?st3 ?l" by (rule closed_eff [OF I(6) e3]) simp
    have "closed st2 r"
      by (rule closed_eff [OF cl1(2) I(5)]) (use kx(2) o(7) tbelow_keys [of r] in auto)
    then show "closed ?st3 r" using e3 by (rule closed_eff) simp
  qed
  have left: "key < x \<and> grown key ?l \<and> pathc ?st3 key ?l" if "height r + 1 < height ?l"
  proof -
    have hl: "height ?l = height l + 1" "l \<noteq> Leaf" using that ia al(3) by auto
    then have "key \<notin> tkeys l" using ins_present_height [OF al(1) o(1), of key v] by (auto simp: tkeys_def)
    then show ?thesis using I(8) ia hl key(2) pathc_eff [OF _ e3] by auto
  qed
  have right: "x < key \<and> grown key r \<and> pathc ?st3 key r" if "height ?l + 1 < height r"
    using that ia al(4) by auto
  have reb: "rebalanced E key ?st3 (M2(x \<mapsto> ?f n)) ?l x (nvalue (?f n)) r (rebalance E x key (npos (?f n)) ?st3)"
    by (rule rebalance_op [OF E op3 c3 _ s3 ord3 h3 key(1) left right cl3]) auto
  have run: "AVL_insert E dv (Suc fuel) k p key s st = rebalance E x key (npos (?f n)) ?st3"
    using n(1,3) nz R(1) g(1) opst_cmp [OF op n(2) key(1)] key(2) I(1) by simp
  obtain st4 M4 k4 p4 where Q: "rebalance E x key (npos (?f n)) ?st3 = Inr ((k4, p4), st4)" "opst E st4 M4"
    "tree_at M4 k4 p4 (reb key ?l (x, w) r)" "\<forall>z. z \<notin> insert x (tkeys ?l \<union> tkeys r) \<longrightarrow> M4 z = (M2(x \<mapsto> ?f n)) z"
    "eff 0 (insert x (tkeys ?l \<union> tkeys r)) ?st3 st4" "closed st4 (reb key ?l (x, w) r)" "rootc st4 (reb key ?l (x, w) r)"
    "(key < x \<longrightarrow> pathc ?st3 key ?l) \<and> (x < key \<longrightarrow> pathc ?st3 key r) \<longrightarrow> pathc st4 key (reb key ?l (x, w) r)"
    using reb n(4) unfolding rebalanced_def by auto
  have ins: "ins key v (Node l (x, w) r) = reb key ?l (x, w) r" using key(2) by simp
  have "eff (0 + ?m + 0 + 0) ({x} \<union> insert key (tkeys l) \<union> {} \<union> insert x (tkeys ?l \<union> tkeys r)) st st4"
    by (rule eff_trans [OF eff_trans [OF eff_trans [OF R(3) I(5)] e3] Q(5)])
  then have "eff ?m (insert key (tkeys (Node l (x, w) r))) st st4"
    unfolding add_0_left add_0_right by (rule eff_mono) (auto simp: kl)
  then have "eff (if e_scheme E = Horus \<and> key \<notin> tkeys (Node l (x, w) r) then 1 else 0) (insert key (tkeys (Node l (x, w) r))) st st4"
    using kx by simp
  moreover have "\<forall>z. z \<notin> insert key (tkeys (Node l (x, w) r)) \<longrightarrow> M4 z = M z" using Q(4) I(4) by (simp add: kl)
  moreover have "key \<notin> tkeys (Node l (x, w) r) \<longrightarrow> pathc st4 key (reb key ?l (x, w) r)"
    using Q(8) I(8) pathc_eff [OF _ e3] key(2) by auto
  ultimately show ?thesis unfolding inserted_def run ins using Q(1,2,3,6,7) by blast
qed

lemma insert_right:
  assumes E: "env_ok E" and op: "opst E st M" and t: "tree_at M k p (Node l (x, w) r)"
    and ord: "ordered (Node l (x, w) r)" and a: "avl (Node l (x, w) r)" and h: "height (Node l (x, w) r) < 2 ^ 27"
    and cl: "closed st (Node l (x, w) r)" and dv: "dv = o_dummyValue st"
    and key: "bid_wf (ID_SIZE (e_scheme E)) key" "x < key"
    and IH: "\<And>st1 k1 p1. opst E st1 M \<Longrightarrow> tree_at M k1 p1 r \<Longrightarrow> closed st1 r \<Longrightarrow> eff 0 {x} st st1 \<Longrightarrow>
      inserted E key v st1 M r (AVL_insert E dv fuel k1 p1 key s st1)"
  shows "inserted E key v st M (Node l (x, w) r) (AVL_insert E dv (Suc fuel) k p key s st)"
proof -
  let ?r = "ins key v r"
  let ?m = "if e_scheme E = Horus \<and> key \<notin> tkeys r then 1 else 0"
  obtain n where n: "k = x" "M x = Some n" "npos n = p" "nvalue n = w" "children M n l r"
    using t by (auto simp: children_def)
  have g: "nkey n = x" "good E st n" using opst_good [OF op n(2)] by auto
  have nz: "\<not> bid_eq_int x 0" "\<not> is_stale E dv x"
    using opst_nonzero [OF op n(2)] not_stale g dv by (auto simp: good_def)
  note o = ordered_tkeys [OF ord]
  have kx: "key \<noteq> x" "key \<notin> tkeys l" using key(2) o(3) by auto
  obtain st1 where R: "ReadNode E x p p st = Inr (Some n, st1)" "opst E st1 M" "eff 0 {x} st st1" "cached st1 x = Some n"
    using ReadNode_tree [OF E op n(2)] n(3) by metis
  have cl1: "closed st1 r" "closed st1 l"
    by (rule closed_eff [OF _ R(3)], use cl o(5,6) tbelow_keys [of r] tbelow_keys [of l] in auto)+
  have tl: "tree_at M (nrightID n) (nrightPos n) r" and tr: "tree_at M (nleftID n) (nleftPos n) l"
    using n(5) by (auto simp: children_def)
  obtain st2 M2 c q where I: "AVL_insert E dv fuel (nrightID n) (nrightPos n) key s st1 = Inr ((c, q), st2)" "opst E st2 M2"
    "tree_at M2 c q ?r" "\<forall>z. z \<notin> insert key (tkeys r) \<longrightarrow> M2 z = M z" "eff ?m (insert key (tkeys r)) st1 st2"
    "closed st2 ?r" "rootc st2 ?r" "key \<notin> tkeys r \<longrightarrow> pathc st2 key ?r"
    using IH [OF R(2) tl cl1(1) R(3)] unfolding inserted_def by blast
  have kl: "tkeys ?r = insert key (tkeys r)" using keys_ins [OF o(2)] by (simp add: tkeys_def)
  have M2x: "M2 x = Some n" using I(4) o(6) kx n(2) by simp
  have c2: "cached st2 x = Some n" using eff_cached [OF I(5)] R(4) opst_cached_iff [OF I(2), of x] M2x by simp
  have tr2: "tree_at M2 (nleftID n) (nleftPos n) l"
  proof -
    have "\<forall>z\<in>tkeys l. M2 z = M z" using I(4) o(7) kx(2) by auto
    from tree_at_cong [OF this] show ?thesis using tr by simp
  qed
  obtain cn where cn: "M2 c = Some cn" "npos cn = q"
    using I(3) keys_ins [OF o(2), of key v] by (cases ?r) auto
  have gc: "nkey cn = c" "good E st2 cn" "good E st2 n" using opst_good [OF I(2) cn(1)] opst_good [OF I(2) M2x] by auto
  let ?f = "\<lambda>n. n\<lparr>nrightID := c, nrightPos := q\<rparr>"
  have gf: "good E st2 (?f n)" using gc cn(2) by (auto simp: good_def node_ok_def)
  then have op3: "opst E (cache_modify x ?f st2) (M2(x \<mapsto> ?f n))"
    by (rule modify_op [where f = ?f, OF I(2) c2]) (use g(1) in simp)
  let ?st3 = "cache_modify x ?f st2"
  have c3: "cached ?st3 x \<noteq> None" using c2 by simp
  have s3: "children (M2(x \<mapsto> ?f n)) (?f n) l ?r" using I(3) tr2 kl o(5,6) kx by (simp add: children_def)
  have ord3: "ordered (Node l (x, nvalue (?f n)) ?r)"
    using o key(2) kl by (auto simp: ordered_Node ins_ordered tkeys_def)
  have al: "avl r" "avl l" "height r \<le> height l + 1" "height l \<le> height r + 1" using a by auto
  note ia = ins_avl [OF al(1), of key v]
  have h3: "height ?r < 2 ^ 28" "height l < 2 ^ 28" using ia h by auto
  have e3: "eff 0 {} st2 ?st3" by simp
  have cl3: "closed ?st3 ?r" "closed ?st3 l"
  proof -
    show "closed ?st3 ?r" by (rule closed_eff [OF I(6) e3]) simp
    have "closed st2 l"
      by (rule closed_eff [OF cl1(2) I(5)]) (use kx(2) o(7) tbelow_keys [of l] in auto)
    then show "closed ?st3 l" using e3 by (rule closed_eff) simp
  qed
  have right: "x < key \<and> grown key ?r \<and> pathc ?st3 key ?r" if "height l + 1 < height ?r"
  proof -
    have hl: "height ?r = height r + 1" "r \<noteq> Leaf" using that ia al(3) by auto
    then have "key \<notin> tkeys r" using ins_present_height [OF al(1) o(2), of key v] by (auto simp: tkeys_def)
    then show ?thesis using I(8) ia hl key(2) pathc_eff [OF _ e3] by auto
  qed
  have left: "key < x \<and> grown key l \<and> pathc ?st3 key l" if "height ?r + 1 < height l"
    using that ia al(4) by auto
  have reb: "rebalanced E key ?st3 (M2(x \<mapsto> ?f n)) l x (nvalue (?f n)) ?r (rebalance E x key (npos (?f n)) ?st3)"
    by (rule rebalance_op [OF E op3 c3 _ s3 ord3 h3(2,1) key(1) left right cl3(2,1)]) auto
  have run: "AVL_insert E dv (Suc fuel) k p key s st = rebalance E x key (npos (?f n)) ?st3"
    using n(1,3) nz R(1) g(1) opst_cmp [OF op n(2) key(1)] key(2) less_not_sym [OF key(2)] I(1) by simp
  obtain st4 M4 k4 p4 where Q: "rebalance E x key (npos (?f n)) ?st3 = Inr ((k4, p4), st4)" "opst E st4 M4"
    "tree_at M4 k4 p4 (reb key l (x, w) ?r)" "\<forall>z. z \<notin> insert x (tkeys l \<union> tkeys ?r) \<longrightarrow> M4 z = (M2(x \<mapsto> ?f n)) z"
    "eff 0 (insert x (tkeys l \<union> tkeys ?r)) ?st3 st4" "closed st4 (reb key l (x, w) ?r)" "rootc st4 (reb key l (x, w) ?r)"
    "(x < key \<longrightarrow> pathc ?st3 key ?r) \<and> (key < x \<longrightarrow> pathc ?st3 key l) \<longrightarrow> pathc st4 key (reb key l (x, w) ?r)"
    using reb n(4) unfolding rebalanced_def by auto
  have ins: "ins key v (Node l (x, w) r) = reb key l (x, w) ?r" using key(2) less_not_sym [OF key(2)] by simp
  have "eff (0 + ?m + 0 + 0) ({x} \<union> insert key (tkeys r) \<union> {} \<union> insert x (tkeys l \<union> tkeys ?r)) st st4"
    by (rule eff_trans [OF eff_trans [OF eff_trans [OF R(3) I(5)] e3] Q(5)])
  then have "eff ?m (insert key (tkeys (Node l (x, w) r))) st st4"
    unfolding add_0_left add_0_right by (rule eff_mono) (auto simp: kl)
  then have "eff (if e_scheme E = Horus \<and> key \<notin> tkeys (Node l (x, w) r) then 1 else 0) (insert key (tkeys (Node l (x, w) r))) st st4"
    using kx by simp
  moreover have "\<forall>z. z \<notin> insert key (tkeys (Node l (x, w) r)) \<longrightarrow> M4 z = M z" using Q(4) I(4) by (simp add: kl)
  moreover have "key \<notin> tkeys (Node l (x, w) r) \<longrightarrow> pathc st4 key (reb key l (x, w) ?r)"
    using Q(8) I(8) pathc_eff [OF _ e3] key(2) by auto
  ultimately show ?thesis unfolding inserted_def run ins using Q(1,2,3,6,7) by blast
qed

theorem AVL_insert_op:
  assumes E: "env_ok E" and s: "length s \<le> 16" "v = string_bytes s @ replicate (16 - length s) 0"
  shows "opst E st M \<Longrightarrow> tree_at M k p t \<Longrightarrow> ordered t \<Longrightarrow> avl t \<Longrightarrow> height t < 2 ^ 27 \<Longrightarrow> closed st t \<Longrightarrow>
    dv = o_dummyValue st \<Longrightarrow> new_key_ok E st M t key \<Longrightarrow> height t < fuel \<Longrightarrow>
    inserted E key v st M t (AVL_insert E dv fuel k p key s st)"
proof (induction t arbitrary: fuel k p st)
  case Leaf
  obtain f where f: "fuel = Suc f" using Leaf.prems(9) by (cases fuel) auto
  show ?case unfolding f by (rule insert_leaf [OF E Leaf.prems(1) _ Leaf.prems(8) s]) (use Leaf.prems(2) in simp)
next
  case (Node l e r)
  obtain x w where e: "e = (x, w)" by (cases e)
  note P = Node.prems [unfolded e]
  obtain f where f: "fuel = Suc f" "height l < f" "height r < f" using P(9) by (cases fuel) auto
  note o = ordered_tkeys [OF P(3)]
  have key: "bid_wf (ID_SIZE (e_scheme E)) key" using P(8) by (simp add: new_key_ok_def)
  have sub: "new_key_ok E st1 M t key" "dv = o_dummyValue st1"
    if "eff 0 {x} st st1" "key \<notin> tkeys t \<Longrightarrow> key \<notin> tkeys (Node l (x, w) r)" for st1 t
  proof -
    have cfg: "cfg st1 = cfg st" using that(1) by (simp add: eff_def)
    show "new_key_ok E st1 M t key"
      using P(8) that cfg_cong(6) [OF cfg, of E] unfolding new_key_ok_def eff_def by auto
    show "dv = o_dummyValue st1" using P(7) cfgD(9) [OF cfg] by simp
  qed
  consider "key < x" | "x < key" | "key = x" by force
  then show ?case
  proof cases
    case 1
    then have nk: "key \<notin> tkeys l \<Longrightarrow> key \<notin> tkeys (Node l (x, w) r)" using o(4) by auto
    show ?thesis unfolding f(1) e
    proof (rule insert_left [OF E P(1-6,7) key 1])
      fix st1 k1 p1
      assume A: "opst E st1 M" "tree_at M k1 p1 l" "closed st1 l" "eff 0 {x} st st1"
      show "inserted E key v st1 M l (AVL_insert E dv f k1 p1 key s st1)"
        by (rule Node.IH(1) [OF A(1,2) o(1) _ _ A(3) sub(2,1) [OF A(4) nk] f(2)]) (use P in auto)
    qed
  next
    case 2
    then have nk: "key \<notin> tkeys r \<Longrightarrow> key \<notin> tkeys (Node l (x, w) r)" using o(3) by auto
    show ?thesis unfolding f(1) e
    proof (rule insert_right [OF E P(1-6,7) key 2])
      fix st1 k1 p1
      assume A: "opst E st1 M" "tree_at M k1 p1 r" "closed st1 r" "eff 0 {x} st st1"
      show "inserted E key v st1 M r (AVL_insert E dv f k1 p1 key s st1)"
        by (rule Node.IH(2) [OF A(1,2) o(2) _ _ A(3) sub(2,1) [OF A(4) nk] f(3)]) (use P in auto)
    qed
  next
    case 3
    show ?thesis unfolding f(1) e
      using insert_here [OF E P(1) _ _ _ P(7) s, where k = k and p = p and l = l and w = w and r = r and key = key] P(2,3,6) 3 by simp
  qed
qed

end
