(* ===== verification/Avl_Search.thy ===== *)
theory Avl_Search
  imports Avl_Insert
begin

text \<open>
  Lookup and the counter can_rewrite of the AVL tree over the ORAM, and the facts about a tree in
  the memory that the end of an operation needs.
\<close>

section \<open>Lookup\<close>

lemma eff_dummyValue: "eff m S a b \<Longrightarrow> o_dummyValue b = o_dummyValue a"
  by (auto simp: eff_def dest: cfgD(9))

text \<open>Descending to a child: an absent child is a null pointer.\<close>

lemma read_child:
  assumes E: "env_ok E" and op: "opst E st M" and t: "tree_at M k p t" and cl: "closed st t" and ord: "ordered t"
  obtains c st' where "ReadNode E k p p st = Inr (c, st')" "opst E st' M" "eff 0 (troot t) st st'" "closed st' t"
    "c = None \<longleftrightarrow> t = Leaf" "\<And>n. c = Some n \<Longrightarrow> tree_at M (nkey n) (npos n) t \<and> nkey n = k \<and> npos n = p"
proof (cases t)
  case Leaf
  then show ?thesis using that [of None st] t op by (simp add: ReadNode_def)
next
  case (Node l e r)
  obtain x v where e: "e = (x, v)" by (cases e)
  obtain n where n: "k = x" "M x = Some n" "npos n = p" using t Node e by auto
  obtain st' where s: "ReadNode E x p p st = Inr (Some n, st')" "opst E st' M" "eff 0 {x} st st'"
    using ReadNode_tree [OF E op n(2)] n(3) by metis
  have "nkey n = x" using opst_good [OF op n(2)] by simp
  moreover have "closed st' t"
    by (rule closed_eff [OF cl s(3)]) (use troot_tbelow [OF ord] Node e in auto)
  ultimately show ?thesis using that [of "Some n" st'] s n t Node e by simp
qed

lemma AVL_search_op:
  assumes E: "env_ok E" and key: "bid_wf (ID_SIZE (e_scheme E)) key"
  shows "opst E st M \<Longrightarrow> tree_at M (nkey h) (npos h) t \<Longrightarrow> t \<noteq> Leaf \<Longrightarrow> ordered t \<Longrightarrow> closed st t \<Longrightarrow>
    dv = o_dummyValue st \<Longrightarrow> height t < fuel \<Longrightarrow>
    \<exists>res st'. AVL_search E dv fuel (Some h) key st = Inr (res, st') \<and> opst E st' M \<and> eff 0 (tkeys t) st st' \<and>
      closed st' t \<and> rootc st' t \<and> map_option nvalue res = tmap t key"
proof (induction t arbitrary: fuel h st)
  case (Node l e r)
  obtain x w where e: "e = (x, w)" by (cases e)
  note P = Node.prems [unfolded e]
  obtain f where f: "fuel = Suc f" "height l < f" "height r < f" using P(7) by (cases fuel) auto
  note o = ordered_tkeys [OF P(4)]
  obtain n where n: "nkey h = x" "M x = Some n" "npos n = npos h" "nvalue n = w" "children M n l r"
    using P(2) by (auto simp: children_def)
  have g: "nkey n = x" "good E st n" using opst_good [OF P(1) n(2)] by auto
  have nz: "\<not> bid_eq_int x 0" "\<not> is_stale E dv x"
    using opst_nonzero [OF P(1) n(2)] not_stale g P(6) by (auto simp: good_def)
  note cmp = opst_cmp [OF P(1) n(2) key]
  obtain st1 where R: "ReadNode E x (npos h) (npos h) st = Inr (Some n, st1)" "opst E st1 M" "eff 0 {x} st st1" "cached st1 x = Some n"
    using ReadNode_tree [OF E P(1) n(2)] n(3) by metis
  have cl1: "closed st1 l" "closed st1 r"
    by (rule closed_eff [OF _ R(3)], use P(5) o(5,6) tbelow_keys [of l] tbelow_keys [of r] in auto)+
  have dv1: "dv = o_dummyValue st1" using P(6) eff_dummyValue [OF R(3)] by simp
  text \<open>One descent, for either side.\<close>
  have down: "\<exists>res st'. ebind (ReadNode E k p p st1) (\<lambda>(c, st). AVL_search E dv f c key st) = Inr (res, st') \<and> opst E st' M \<and>
      eff 0 (tkeys t) st1 st' \<and> closed st' t \<and> map_option nvalue res = tmap t key"
    if t: "tree_at M k p t" "closed st1 t" "ordered t" "height t < f"
      and IH: "\<And>h st. opst E st M \<Longrightarrow> tree_at M (nkey h) (npos h) t \<Longrightarrow> t \<noteq> Leaf \<Longrightarrow> ordered t \<Longrightarrow> closed st t \<Longrightarrow>
        dv = o_dummyValue st \<Longrightarrow> height t < f \<Longrightarrow>
        \<exists>res st'. AVL_search E dv f (Some h) key st = Inr (res, st') \<and> opst E st' M \<and> eff 0 (tkeys t) st st' \<and>
          closed st' t \<and> rootc st' t \<and> map_option nvalue res = tmap t key"
    for t k p
  proof -
    obtain c st2 where C: "ReadNode E k p p st1 = Inr (c, st2)" "opst E st2 M" "eff 0 (troot t) st1 st2" "closed st2 t"
      "c = None \<longleftrightarrow> t = Leaf" "\<And>n. c = Some n \<Longrightarrow> tree_at M (nkey n) (npos n) t \<and> nkey n = k \<and> npos n = p"
      using read_child [OF E R(2) t(1,2,3)] by metis
    show ?thesis
    proof (cases c)
      case None
      then have "AVL_search E dv f c key st2 = Inr (None, st2)" using t(4) by (cases f) auto
      then show ?thesis using C None by (auto simp: tmap_def)
    next
      case (Some m)
      have dv2: "dv = o_dummyValue st2" using dv1 eff_dummyValue [OF C(3)] by simp
      obtain res st3 where S: "AVL_search E dv f (Some m) key st2 = Inr (res, st3)" "opst E st3 M" "eff 0 (tkeys t) st2 st3"
        "closed st3 t" "map_option nvalue res = tmap t key"
        using IH [OF C(2) _ _ t(3) C(4) dv2 t(4)] C(5,6) Some by blast
      have "eff 0 (tkeys t) st1 st3" using eff_seq [OF C(3) S(3)] by (rule eff_mono) (use troot_keys in auto)
      then show ?thesis using C(1) Some S by auto
    qed
  qed
  have finish: "eff 0 (tkeys (Node l (x, w) r)) st st' \<and> closed st' (Node l (x, w) r) \<and> rootc st' (Node l (x, w) r)"
    if "eff 0 S st1 st'" "S \<subseteq> tkeys l \<union> tkeys r" "closed st' l" "closed st' r" for S st'
    using eff_mono [OF eff_seq [OF R(3) that(1)], of "tkeys (Node l (x, w) r)"] that eff_cached [OF that(1), of x] R(4) by auto
  consider "key < x" | "x < key" | "key = x" by force
  then show ?case
  proof cases
    case 1
    obtain res st' where D: "ebind (ReadNode E (nleftID n) (nleftPos n) (nleftPos n) st1) (\<lambda>(c, st). AVL_search E dv f c key st) = Inr (res, st')"
      "opst E st' M" "eff 0 (tkeys l) st1 st'" "closed st' l" "map_option nvalue res = tmap l key"
      using down [of "nleftID n" "nleftPos n" l] n(5) cl1(1) o(1) f(2) Node.IH(1) by (auto simp: children_def)
    have "closed st' r" by (rule closed_eff [OF cl1(2) D(3)]) (use o(7) tbelow_keys [of r] in auto)
    then show ?thesis
      using D finish [OF D(3) _ D(4)] R(1) n(1,3) nz g(1) cmp 1 tmap_Node [OF P(4), of key] e f(1) by auto
  next
    case 2
    obtain res st' where D: "ebind (ReadNode E (nrightID n) (nrightPos n) (nrightPos n) st1) (\<lambda>(c, st). AVL_search E dv f c key st) = Inr (res, st')"
      "opst E st' M" "eff 0 (tkeys r) st1 st'" "closed st' r" "map_option nvalue res = tmap r key"
      using down [of "nrightID n" "nrightPos n" r] n(5) cl1(2) o(2) f(3) Node.IH(2) by (auto simp: children_def)
    have "closed st' l" by (rule closed_eff [OF cl1(1) D(3)]) (use o(7) tbelow_keys [of l] in auto)
    then show ?thesis
      using D finish [OF D(3) _ _ D(4)] R(1) n(1,3) nz g(1) cmp 2 less_not_sym [OF 2] tmap_Node [OF P(4), of key] e f(1) by auto
  next
    case 3
    then show ?thesis
      using finish [of "{}" st1] cl1 R n nz g(1) cmp tmap_Node [OF P(4), of key] e f(1) by auto
  qed
qed simp

section \<open>What the end of an operation needs\<close>

lemma kids_children:
  assumes "children M n l r" "opst E st M"
  shows "kids n = troot l \<union> troot r"
proof -
  have "{c \<in> {k}. bid_ne_int c 0} = troot t" if "tree_at M k p t" for k p t
    using that assms(2) by (cases t) (auto simp: bid_ne_int_iff troot_def dest: opst_nonzero)
  then show ?thesis using assms(1) unfolding kids_def children_def by blast
qed

lemma tree_at_node:
  "tree_at M k p t \<Longrightarrow> x \<in> tkeys t \<Longrightarrow>
     \<exists>n l v r. M x = Some n \<and> children M n l r \<and> nheight n = int (height (Node l (x, v) r)) \<and>
       height (Node l (x, v) r) \<le> height t \<and> (closed st t \<longrightarrow> closed st (Node l (x, v) r))"
proof (induction M k p t rule: tree_at.induct)
  case (2 M k p l y v r)
  obtain n where n: "M y = Some n" "nheight n = int (height (Node l (y, v) r))" "children M n l r"
    using "2.prems"(1) by (auto simp: children_def)
  consider "x = y" | "x \<in> tkeys l" | "x \<in> tkeys r" using "2.prems"(2) by auto
  then show ?case
  proof cases
    case 1
    then show ?thesis using n by blast
  next
    case 2
    then obtain n' l' v' r' where "M x = Some n' \<and> children M n' l' r' \<and> nheight n' = int (height (Node l' (x, v') r')) \<and>
        height (Node l' (x, v') r') \<le> height l \<and> (closed st l \<longrightarrow> closed st (Node l' (x, v') r'))"
      using "2.IH"(1) n(3) by (fastforce simp: children_def)
    then show ?thesis by (intro exI [of _ n'] exI [of _ l'] exI [of _ v'] exI [of _ r']) auto
  next
    case 3
    then obtain n' l' v' r' where "M x = Some n' \<and> children M n' l' r' \<and> nheight n' = int (height (Node l' (x, v') r')) \<and>
        height (Node l' (x, v') r') \<le> height r \<and> (closed st r \<longrightarrow> closed st (Node l' (x, v') r'))"
      using "2.IH"(2) n(3) by (fastforce simp: children_def)
    then show ?thesis by (intro exI [of _ n'] exI [of _ l'] exI [of _ v'] exI [of _ r']) auto
  qed
qed simp

lemma tree_link:
  assumes "tree_at M c p t" "height t < h"
  shows "link M c p (int h)"
  using assms by (cases t) (auto simp: link_def bid_ne_int_iff)

text \<open>The memory holds the tree and nothing else.\<close>

lemma tree_conditions:
  assumes op: "opst E st M" and t: "tree_at M k p t" and d: "dom M = tkeys t" and h: "height t \<le> top_height E st"
    and cl: "closed st t"
  shows "linked M" "heights_ok E st M" "parents_cached st M"
proof -
  have node: "\<exists>l v r. children M n l r \<and> nheight n = int (height (Node l (x, v) r)) \<and>
      height (Node l (x, v) r) \<le> height t \<and> closed st (Node l (x, v) r)" if "M x = Some n" for x n
  proof -
    have "x \<in> tkeys t" using that d by auto
    from tree_at_node [OF t this, of st] show ?thesis using that cl by auto
  qed
  show "linked M" unfolding linked_def
  proof (intro allI impI)
    fix x n assume "M x = Some n"
    then obtain l and v :: bytes and r where n: "children M n l r" "nheight n = int (height (Node l (x, v) r))" using node by blast
    then show "linked_node M n"
      using tree_link [of M "nleftID n" "nleftPos n" l "height (Node l (x, v) r)"]
        tree_link [of M "nrightID n" "nrightPos n" r "height (Node l (x, v) r)"]
      by (simp add: linked_node_def children_def)
  qed
  show "heights_ok E st M" unfolding heights_ok_def
  proof (intro allI impI)
    fix x n assume "M x = Some n"
    then obtain l and v :: bytes and r where "nheight n = int (height (Node l (x, v) r))" "height (Node l (x, v) r) \<le> height t"
      using node by blast
    then show "1 \<le> nheight n \<and> nheight n \<le> int (top_height E st)" using h by simp
  qed
  show "parents_cached st M" unfolding parents_cached_def
  proof (intro allI impI)
    fix x n assume x: "M x = Some n" "cached st x = None"
    then obtain l v r where "children M n l r" "closed st (Node l (x, v) r)" using node by blast
    then show "kids n \<inter> set (o_modified st) = {}" using kids_children [OF _ op] x(2) by auto
  qed
qed

text \<open>New positions keep the tree.\<close>

lemma tree_at_moved:
  assumes "linked M'" "\<And>k. rel_option moved (M k) (M' k)" "\<And>k n. M' k = Some n \<Longrightarrow> \<not> bid_eq_int k 0"
  shows "tree_at M k p t \<Longrightarrow> (t \<noteq> Leaf \<Longrightarrow> \<exists>n. M' k = Some n \<and> npos n = p') \<Longrightarrow> tree_at M' k p' t"
proof (induction t arbitrary: k p p')
  case (Node l e r)
  obtain x v where e: "e = (x, v)" by (cases e)
  obtain n where n: "k = x" "M x = Some n" "nvalue n = v" "nheight n = int (height (Node l (x, v) r))"
    "tree_at M (nleftID n) (nleftPos n) l" "tree_at M (nrightID n) (nrightPos n) r"
    using Node.prems(1) e by auto
  obtain n' where n': "M' x = Some n'" "npos n' = p'" using Node.prems(2) n(1) by auto
  then have mv: "moved n n'" using assms(2) [of x] n(2) by simp
  have ln: "linked_node M' n'" using assms(1) n'(1) by (simp add: linked_def)
  have child: "\<exists>m. M' c = Some m \<and> npos m = q" if l: "link M' c q h" and t: "tree_at M c q0 t" "t \<noteq> Leaf" for c q q0 h t
  proof -
    obtain y where "M c = Some y" using t by (cases t) auto
    then have "M' c \<noteq> None" using assms(2) [of c] by (cases "M' c") auto
    then have "bid_ne_int c 0" using assms(3) by (auto simp: bid_ne_int_iff)
    then show ?thesis using l by (auto simp: link_def)
  qed
  have "tree_at M' (nleftID n') (nleftPos n') l" "tree_at M' (nrightID n') (nrightPos n') r"
    using Node.IH(1) [OF n(5)] Node.IH(2) [OF n(6)] child [OF _ n(5)] child [OF _ n(6)] ln mv
    unfolding linked_node_def moved_def by metis+
  then show ?case using n(1,3,4) n' mv e by (simp add: moved_def)
qed simp

section \<open>Rewriting a value\<close>

text \<open>Where the key is present, insertion changes its value only.\<close>

lemma ins_present:
  assumes "avl (Node l (x, w) r)" "ordered (Node l (x, w) r)"
  shows "key < x \<Longrightarrow> key \<in> tkeys l \<Longrightarrow> ins key v (Node l (x, w) r) = Node (ins key v l) (x, w) r"
    "x < key \<Longrightarrow> key \<in> tkeys r \<Longrightarrow> ins key v (Node l (x, w) r) = Node l (x, w) (ins key v r)"
  using assms ordered_tkeys(1,2) [OF assms(2)] ins_present_height [of l key v] ins_present_height [of r key v]
  by (auto simp: tkeys_def intro!: reb_none)

definition value_of :: "string \<Rightarrow> bytes" where
  "value_of s = string_bytes s @ replicate (16 - length s) 0"

lemma value_bytes_value_of: "length s \<le> 16 \<Longrightarrow> value_bytes s = Inr (value_of s)"
  by (simp add: value_bytes_eq value_of_def)

lemma length_value_of [simp]: "length s \<le> 16 \<Longrightarrow> length (value_of s) = 16"
  by (simp add: value_of_def)

definition rewritten :: "(string \<Rightarrow> string res) \<Rightarrow> bid \<Rightarrow> avl \<Rightarrow> avl" where
  "rewritten f key t =
     (case tmap t key of None \<Rightarrow> t
      | Some w \<Rightarrow> (case f (bytes_string w) of Inl _ \<Rightarrow> t | Inr s \<Rightarrow> ins key (value_of s) t))"

definition can_rewrite :: "(string \<Rightarrow> string res) \<Rightarrow> bid \<Rightarrow> avl \<Rightarrow> bool" where
  "can_rewrite f key t \<longleftrightarrow> (\<forall>w. tmap t key = Some w \<longrightarrow> (\<exists>s. f (bytes_string w) = Inr s \<and> length s \<le> 16))"

definition old_value :: "bid \<Rightarrow> avl \<Rightarrow> string" where
  "old_value key t = (case tmap t key of None \<Rightarrow> [] | Some w \<Rightarrow> bytes_string w)"

lemma rewritten_Leaf [simp]: "rewritten f key Leaf = Leaf" "old_value key Leaf = []"
  by (simp_all add: rewritten_def old_value_def tmap_def)

lemma rewritten_height: "avl t \<Longrightarrow> ordered t \<Longrightarrow> height (rewritten f key t) = height t"
  using dom_tmap [of t]
  by (auto simp: rewritten_def ins_present_height domI split: option.splits sum.splits) (metis domI ins_present_height)

lemma rewritten_keys: "ordered t \<Longrightarrow> tkeys (rewritten f key t) = tkeys t"
  using dom_tmap [of t]
  by (auto simp: rewritten_def tkeys_def keys_ins split: option.splits sum.splits)

lemma tmap_tkeys: "tmap t k = Some v \<Longrightarrow> k \<in> tkeys t"
  using dom_tmap [of t] by (auto simp: tkeys_def)

lemma rewritten_left:
  assumes "avl (Node l (x, w) r)" "ordered (Node l (x, w) r)" "key < x"
  shows "rewritten f key (Node l (x, w) r) = Node (rewritten f key l) (x, w) r"
proof (cases "tmap l key")
  case None
  then show ?thesis using tmap_Node [OF assms(2), of key] assms(3) by (simp add: rewritten_def)
next
  case (Some u)
  then show ?thesis
    using tmap_Node [OF assms(2), of key] assms(3) ins_present(1) [OF assms(1-3) tmap_tkeys [OF Some]]
    by (simp add: rewritten_def split: sum.split)
qed

lemma rewritten_right:
  assumes "avl (Node l (x, w) r)" "ordered (Node l (x, w) r)" "x < key"
  shows "rewritten f key (Node l (x, w) r) = Node l (x, w) (rewritten f key r)"
proof (cases "tmap r key")
  case None
  then show ?thesis using tmap_Node [OF assms(2), of key] assms(3) less_not_sym [OF assms(3)] by (simp add: rewritten_def)
next
  case (Some u)
  then show ?thesis
    using tmap_Node [OF assms(2), of key] assms(3) less_not_sym [OF assms(3)] ins_present(2) [OF assms(1-3) tmap_tkeys [OF Some]]
    by (simp add: rewritten_def split: sum.split)
qed

text \<open>What the rewrite of a subtree achieves.\<close>

definition rewrote :: "(string \<Rightarrow> string res) \<Rightarrow> env \<Rightarrow> bid \<Rightarrow> oram \<Rightarrow> mem \<Rightarrow> bid \<Rightarrow> int \<Rightarrow> avl \<Rightarrow> (string \<times> oram) res \<Rightarrow> bool" where
  "rewrote f E key st M k p t res \<longleftrightarrow>
     (\<exists>st' M'. res = Inr (old_value key t, st') \<and> opst E st' M' \<and> tree_at M' k p (rewritten f key t) \<and>
        (\<forall>z. z \<notin> tkeys t \<longrightarrow> M' z = M z) \<and> dom M' = dom M \<and> eff 0 (tkeys t) st st' \<and> closed st' (rewritten f key t) \<and> rootc st' t)"

lemma rewrite_here:
  assumes E: "env_ok E" and op: "opst E st M" and n: "M key = Some n" "nvalue n = w" "cached st key = Some n"
    and c: "children M n l r" "nheight n = int (height (Node l (key, w) r))" and ord: "ordered (Node l (key, w) r)"
    and cl: "closed st l" "closed st r" and f: "can_rewrite f key (Node l (key, w) r)"
  shows "rewrote f E key st M key (npos n) (Node l (key, w) r) (rewrite_value f E key n st)"
proof -
  note o = ordered_tkeys [OF ord]
  have tm: "tmap (Node l (key, w) r) key = Some w" using tmap_Node [OF ord, of key] by simp
  then obtain s where s: "f (bytes_string w) = Inr s" "length s \<le> 16" using f by (auto simp: can_rewrite_def)
  have g: "nkey n = key" "good E st n" using opst_good [OF op n(1)] by auto
  let ?f = "\<lambda>n. n\<lparr>nvalue := value_of s\<rparr>"
  have "good E st (?f n)" using g(2) s(2) by (simp add: good_def node_ok_def)
  then have op2: "opst E (cache_modify key ?f st) (M(key \<mapsto> ?f n))"
    by (rule modify_op [where f = ?f, OF op n(3)]) (use g(1) in simp)
  have c2: "cached (cache_modify key ?f st) key \<noteq> None" using n(3) by simp
  let ?st = "mark_modified key (cache_modify key ?f st)"
  have run: "rewrite_value f E key n st = Inr (bytes_string w, ?st)"
    using n(2) s value_bytes_value_of [OF s(2)] g(1) WriteNode_cached [OF op2 c2, of "n\<lparr>nvalue := value_of s\<rparr>"]
    by (simp add: rewrite_value_def Let_def)
  have rw: "rewritten f key (Node l (key, w) r) = Node l (key, value_of s) r" "old_value key (Node l (key, w) r) = bytes_string w"
    using tm s(1) by (simp_all add: rewritten_def old_value_def)
  have e: "eff 0 {key} st ?st" by (auto simp: eff_def)
  have "closed ?st l" "closed ?st r"
    by (rule closed_eff [OF _ e], use cl o(5,6) tbelow_keys [of l] tbelow_keys [of r] in auto)+
  moreover have "opst E ?st (M(key \<mapsto> ?f n))" using op2 by (rule opst_mark_modified)
  moreover have "tree_at (M(key \<mapsto> ?f n)) key (npos n) (Node l (key, value_of s) r)"
    using c o(5,6) by (auto simp: children_def)
  moreover have "eff 0 (tkeys (Node l (key, w) r)) st ?st" using e by (rule eff_mono) auto
  ultimately show ?thesis
    unfolding rewrote_def run rw using c2 n(1) by (intro exI [of _ ?st] exI [of _ "M(key \<mapsto> ?f n)"]) auto
qed

lemma rewrite_step:
  assumes E: "env_ok E" and op: "opst E st M" and cl: "closed st t" and t: "tree_at M k p t" "ordered t" "height t < f"
    and IH: "\<And>h st. opst E st M \<Longrightarrow> tree_at M (nkey h) (npos h) t \<Longrightarrow> t \<noteq> Leaf \<Longrightarrow> closed st t \<Longrightarrow> o_dummyValue st = dv \<Longrightarrow>
        rewrote g E key st M (nkey h) (npos h) t (AVL_rewrite g E dv f (Some h) key st)"
    and dv: "o_dummyValue st = dv"
  shows "rewrote g E key st M k p t (ebind (ReadNode E k p p st) (\<lambda>(c, st). AVL_rewrite g E dv f c key st))"
proof -
  obtain c st2 where C: "ReadNode E k p p st = Inr (c, st2)" "opst E st2 M" "eff 0 (troot t) st st2" "closed st2 t"
    "c = None \<longleftrightarrow> t = Leaf" "\<And>n. c = Some n \<Longrightarrow> tree_at M (nkey n) (npos n) t \<and> nkey n = k \<and> npos n = p"
    using read_child [OF E op t(1) cl t(2)] by metis
  show ?thesis
  proof (cases c)
    case None
    then have "AVL_rewrite g E dv f c key st2 = Inr ([], st2)" using t(3) by (cases f) auto
    then show ?thesis using C None t(1) by (auto simp: rewrote_def)
  next
    case (Some m)
    have dv2: "o_dummyValue st2 = dv" using dv eff_dummyValue [OF C(3)] by simp
    have km: "nkey m = k" "npos m = p" using C(6) [OF Some] by auto
    have "rewrote g E key st2 M k p t (AVL_rewrite g E dv f (Some m) key st2)"
      using IH [OF C(2) _ _ C(4) dv2, of m] C(5) C(6) [OF Some] Some km by simp
    then obtain st' M' where S: "AVL_rewrite g E dv f (Some m) key st2 = Inr (old_value key t, st')" "opst E st' M'"
      "tree_at M' k p (rewritten g key t)" "\<forall>z. z \<notin> tkeys t \<longrightarrow> M' z = M z" "dom M' = dom M" "eff 0 (tkeys t) st2 st'"
      "closed st' (rewritten g key t)" "rootc st' t"
      unfolding rewrote_def by blast
    have "eff 0 (tkeys t) st st'" using eff_seq [OF C(3) S(6)] by (rule eff_mono) (use troot_keys in auto)
    then show ?thesis unfolding rewrote_def using C(1) Some S by auto
  qed
qed

text \<open>A rewrite below a cached node is a rewrite of the tree.\<close>

lemma rewrote_up:
  assumes op: "opst E st1 M" and e: "eff 0 {x} st st1" "cached st1 x \<noteq> None"
    and n: "M x = Some n" "nheight n = int (height (Node l (x, nvalue n) r))" "children M n l r"
    and a: "avl (Node l (x, nvalue n) r)" and ord: "ordered (Node l (x, nvalue n) r)" and cl: "closed st1 l" "closed st1 r"
  shows "key < x \<Longrightarrow> rewrote f E key st1 M (nleftID n) (nleftPos n) l res \<Longrightarrow> rewrote f E key st M x (npos n) (Node l (x, nvalue n) r) res"
    and "x < key \<Longrightarrow> rewrote f E key st1 M (nrightID n) (nrightPos n) r res \<Longrightarrow> rewrote f E key st M x (npos n) (Node l (x, nvalue n) r) res"
proof -
  note o = ordered_tkeys [OF ord]
  have al: "avl l" "avl r" using a by auto
  {
    assume lt: "key < x" and r: "rewrote f E key st1 M (nleftID n) (nleftPos n) l res"
    obtain st' M' where S: "res = Inr (old_value key l, st')" "opst E st' M'" "tree_at M' (nleftID n) (nleftPos n) (rewritten f key l)"
      "\<forall>z. z \<notin> tkeys l \<longrightarrow> M' z = M z" "dom M' = dom M" "eff 0 (tkeys l) st1 st'" "closed st' (rewritten f key l)"
      using r unfolding rewrote_def by blast
    have Mx: "M' x = Some n" using S(4) o(5) n(1) by simp
    have "\<forall>z\<in>tkeys r. M' z = M z" using S(4) o(7) by auto
    from tree_at_cong [OF this] have tr: "tree_at M' (nrightID n) (nrightPos n) r" using n(3) by (simp add: children_def)
    have ov: "old_value key (Node l (x, nvalue n) r) = old_value key l"
      using tmap_Node [OF ord, of key] lt by (simp add: old_value_def)
    have "closed st' r" by (rule closed_eff [OF cl(2) S(6)]) (use o(7) tbelow_keys [of r] in auto)
    moreover have "cached st' x \<noteq> None" using eff_cached [OF S(6) e(2)] .
    moreover have "eff 0 (tkeys (Node l (x, nvalue n) r)) st st'" using eff_seq [OF e(1) S(6)] by (rule eff_mono) auto
    moreover have "tree_at M' x (npos n) (Node (rewritten f key l) (x, nvalue n) r)"
      using Mx S(3) tr n(2) rewritten_height [OF al(1) o(1)] by simp
    ultimately show "rewrote f E key st M x (npos n) (Node l (x, nvalue n) r) res"
      unfolding rewrote_def rewritten_left [OF a ord lt] ov using S(1,2,4,5,7) by auto
  }
  {
    assume gt: "x < key" and r: "rewrote f E key st1 M (nrightID n) (nrightPos n) r res"
    obtain st' M' where S: "res = Inr (old_value key r, st')" "opst E st' M'" "tree_at M' (nrightID n) (nrightPos n) (rewritten f key r)"
      "\<forall>z. z \<notin> tkeys r \<longrightarrow> M' z = M z" "dom M' = dom M" "eff 0 (tkeys r) st1 st'" "closed st' (rewritten f key r)"
      using r unfolding rewrote_def by blast
    have Mx: "M' x = Some n" using S(4) o(6) n(1) by simp
    have "\<forall>z\<in>tkeys l. M' z = M z" using S(4) o(7) by auto
    from tree_at_cong [OF this] have tl: "tree_at M' (nleftID n) (nleftPos n) l" using n(3) by (simp add: children_def)
    have ov: "old_value key (Node l (x, nvalue n) r) = old_value key r"
      using tmap_Node [OF ord, of key] gt less_not_sym [OF gt] by (simp add: old_value_def)
    have "closed st' l" by (rule closed_eff [OF cl(1) S(6)]) (use o(7) tbelow_keys [of l] in auto)
    moreover have "cached st' x \<noteq> None" using eff_cached [OF S(6) e(2)] .
    moreover have "eff 0 (tkeys (Node l (x, nvalue n) r)) st st'" using eff_seq [OF e(1) S(6)] by (rule eff_mono) auto
    moreover have "tree_at M' x (npos n) (Node l (x, nvalue n) (rewritten f key r))"
      using Mx S(3) tl n(2) rewritten_height [OF al(2) o(2)] by simp
    ultimately show "rewrote f E key st M x (npos n) (Node l (x, nvalue n) r) res"
      unfolding rewrote_def rewritten_right [OF a ord gt] ov using S(1,2,4,5,7) by auto
  }
qed

lemma AVL_rewrite_op:
  assumes E: "env_ok E" and key: "bid_wf (ID_SIZE (e_scheme E)) key"
  shows "opst E st M \<Longrightarrow> tree_at M (nkey h) (npos h) t \<Longrightarrow> t \<noteq> Leaf \<Longrightarrow> closed st t \<Longrightarrow> o_dummyValue st = dv \<Longrightarrow>
    ordered t \<Longrightarrow> avl t \<Longrightarrow> height t < fuel \<Longrightarrow> can_rewrite f key t \<Longrightarrow>
    rewrote f E key st M (nkey h) (npos h) t (AVL_rewrite f E dv fuel (Some h) key st)"
proof (induction t arbitrary: fuel h st)
  case (Node l e r)
  obtain x w where e: "e = (x, w)" by (cases e)
  note P = Node.prems [unfolded e]
  obtain fu where fu: "fuel = Suc fu" "height l < fu" "height r < fu" using P(8) by (cases fuel) auto
  note o = ordered_tkeys [OF P(6)]
  obtain n where n: "nkey h = x" "M x = Some n" "npos n = npos h" "nvalue n = w" "nheight n = int (height (Node l (x, nvalue n) r))"
    "children M n l r"
    using P(2) by (auto simp: children_def)
  have g: "nkey n = x" "good E st n" using opst_good [OF P(1) n(2)] by auto
  have nz: "\<not> bid_eq_int x 0" "\<not> is_stale E dv x"
    using opst_nonzero [OF P(1) n(2)] not_stale g P(5) by (auto simp: good_def)
  note cmp = opst_cmp [OF P(1) n(2) key]
  obtain st1 where R: "ReadNode E x (npos h) (npos h) st = Inr (Some n, st1)" "opst E st1 M" "eff 0 {x} st st1" "cached st1 x = Some n"
    using ReadNode_tree [OF E P(1) n(2)] n(3) by metis
  have cl1: "closed st1 l" "closed st1 r"
    by (rule closed_eff [OF _ R(3)], use P(4) o(5,6) tbelow_keys [of l] tbelow_keys [of r] in auto)+
  have dv1: "o_dummyValue st1 = dv" using P(5) eff_dummyValue [OF R(3)] by simp
  have al: "avl l" "avl r" using P(7) by auto
  have cr: "can_rewrite f key t" if "tmap t key = tmap (Node l (x, w) r) key" for t
    using P(9) that by (simp add: can_rewrite_def)
  have c1: "cached st1 x \<noteq> None" using R(4) by simp
  note up = rewrote_up [OF R(2,3) c1 n(2,5,6) P(7) [folded n(4)] P(6) [folded n(4)] cl1, of key]
  have tl: "tree_at M (nleftID n) (nleftPos n) l" and tr: "tree_at M (nrightID n) (nrightPos n) r"
    using n(6) by (auto simp: children_def)
  consider "key < x" | "x < key" | "key = x" by force
  then show ?case
  proof cases
    case 1
    then have "can_rewrite f key l" using cr tmap_Node [OF P(6), of key] by simp
    then have "rewrote f E key st1 M (nleftID n) (nleftPos n) l
        (ebind (ReadNode E (nleftID n) (nleftPos n) (nleftPos n) st1) (\<lambda>(c, st). AVL_rewrite f E dv fu c key st))"
      by (intro rewrite_step [OF E R(2) cl1(1) tl o(1) fu(2) _ dv1] Node.IH(1)) (use o(1) al(1) fu(2) in auto)
    from up(1) [OF 1 this] show ?thesis using fu(1) e n nz R(1) g(1) cmp 1 by simp
  next
    case 2
    then have "can_rewrite f key r" using cr tmap_Node [OF P(6), of key] less_not_sym [OF 2] by simp
    then have "rewrote f E key st1 M (nrightID n) (nrightPos n) r
        (ebind (ReadNode E (nrightID n) (nrightPos n) (nrightPos n) st1) (\<lambda>(c, st). AVL_rewrite f E dv fu c key st))"
      by (intro rewrite_step [OF E R(2) cl1(2) tr o(2) fu(3) _ dv1] Node.IH(2)) (use o(2) al(2) fu(3) in auto)
    from up(2) [OF 2 this] show ?thesis using fu(1) e n nz R(1) g(1) cmp 2 less_not_sym [OF 2] by simp
  next
    case 3
    have "rewrote f E key st1 M key (npos n) (Node l (key, w) r) (rewrite_value f E key n st1)"
      using rewrite_here [OF E R(2), of key n w l r f] n R(4) P(6,9) cl1 3 by simp
    then have "rewrote f E key st M key (npos n) (Node l (key, w) r) (rewrite_value f E key n st1)"
      unfolding rewrote_def using eff_seq [OF R(3)] 3 by (metis Un_insert_left insert_absorb2 sup_bot_left tkeys_simps(2))
    then show ?thesis using fu(1) e n nz R(1) g(1) cmp 3 by simp
  qed
qed simp

end
