(* ===== verification/Sse_Spec.thy ===== *)
theory Sse_Spec
  imports Prelude
begin

text \<open>
  What a searchable-encryption scheme promises: a database of identifiers per keyword with
  insertion, removal and search. \<open>simulation\<close> is the interface between a scheme and this
  specification: one law about single operations, from which runs of operations follow.
\<close>

section \<open>Runs\<close>

fun arun :: "('op \<Rightarrow> 'a \<Rightarrow> 'o \<times> 'a) \<Rightarrow> 'op list \<Rightarrow> 'a \<Rightarrow> 'o list \<times> 'a" where
  "arun f [] a = ([], a)"
| "arun f (p # ps) a = (let (out, b) = f p a; (outs, c) = arun f ps b in (out # outs, c))"

fun crun :: "('op \<Rightarrow> 's \<Rightarrow> ('o \<times> 's) res) \<Rightarrow> 'op list \<Rightarrow> 's \<Rightarrow> ('o list \<times> 's) res" where
  "crun f [] s = Inr ([], s)"
| "crun f (p # ps) s = ebind (f p s) (\<lambda>(out, t). ebind (crun f ps t) (\<lambda>(outs, u). Inr (out # outs, u)))"

fun all_ok :: "('op \<Rightarrow> 'a \<Rightarrow> bool) \<Rightarrow> ('op \<Rightarrow> 'a \<Rightarrow> 'o \<times> 'a) \<Rightarrow> 'op list \<Rightarrow> 'a \<Rightarrow> bool" where
  "all_ok ok f [] a = True"
| "all_ok ok f (p # ps) a = (ok p a \<and> all_ok ok f ps (snd (f p a)))"

locale simulation =
  fixes R :: "'a \<Rightarrow> 's \<Rightarrow> bool"
    and ok :: "'op \<Rightarrow> 'a \<Rightarrow> bool"
    and astep :: "'op \<Rightarrow> 'a \<Rightarrow> 'o \<times> 'a"
    and cstep :: "'op \<Rightarrow> 's \<Rightarrow> ('o \<times> 's) res"
  assumes step: "R a s \<Longrightarrow> ok p a \<Longrightarrow> \<exists>t. cstep p s = Inr (fst (astep p a), t) \<and> R (snd (astep p a)) t"
begin

lemma run:
  "R a s \<Longrightarrow> all_ok ok astep ps a \<Longrightarrow>
    \<exists>t. crun cstep ps s = Inr (fst (arun astep ps a), t) \<and> R (snd (arun astep ps a)) t"
proof (induction ps arbitrary: a s)
  case (Cons p ps)
  then obtain t where t: "cstep p s = Inr (fst (astep p a), t)" "R (snd (astep p a)) t"
    using step [of a s p] by auto
  then obtain u where "crun cstep ps t = Inr (fst (arun astep ps (snd (astep p a))), u)"
    "R (snd (arun astep ps (snd (astep p a)))) u"
    using Cons.IH [of "snd (astep p a)" t] Cons.prems(2) by auto
  with t(1) show ?case by (simp add: split_beta)
qed simp

lemma run_outputs:
  "R a s \<Longrightarrow> all_ok ok astep ps a \<Longrightarrow> \<exists>t. crun cstep ps s = Inr (fst (arun astep ps a), t)"
  using run by blast

end

section \<open>The database\<close>

text \<open>
  \<open>s_db\<close> holds the live identifiers of each keyword in the order of insertion; \<open>s_ins\<close> and
  \<open>s_srch\<close> count the insertions and searches of each keyword, which bound what a scheme can store.
\<close>

datatype sse_op = Ins string int | Del string int | Srch string

record sse =
  s_db :: "string \<Rightarrow> int list"
  s_ins :: "string \<Rightarrow> nat"
  s_srch :: "string \<Rightarrow> nat"

definition sse_empty :: sse where
  "sse_empty = \<lparr>s_db = (\<lambda>_. []), s_ins = (\<lambda>_. 0), s_srch = (\<lambda>_. 0)\<rparr>"

fun sse_step :: "sse_op \<Rightarrow> sse \<Rightarrow> int list \<times> sse" where
  "sse_step (Ins w x) a =
     ([], a\<lparr>s_db := (s_db a)(w := s_db a w @ [x]), s_ins := (s_ins a)(w := s_ins a w + 1)\<rparr>)"
| "sse_step (Del w x) a = ([], a\<lparr>s_db := (s_db a)(w := filter (\<lambda>y. y \<noteq> x) (s_db a w))\<rparr>)"
| "sse_step (Srch w) a = (s_db a w, a\<lparr>s_srch := (s_srch a)(w := s_srch a w + 1)\<rparr>)"

end
