(* ===== verification/Omap_Correct.thy ===== *)
theory Omap_Correct
  imports Avl_Search Omap Sse_Spec
begin

text \<open>
  The oblivious map is a map: \<open>find\<close> returns the value last inserted under a key and the empty
  string for an absent key, whatever positions the random generator picks, whatever order the
  hash map of the cache is iterated in, and whatever stays in the stash. The proof composes the
  ORAM as a memory (\<open>opst\<close>, \<open>idle\<close>), the tree in that memory (\<open>tree_at\<close>) and the
  functional AVL tree.
\<close>

section \<open>The represented tree\<close>

text \<open>Between operations.\<close>

definition omap_rep :: "env \<Rightarrow> omap \<Rightarrow> avl \<Rightarrow> bool" where
  "omap_rep E m t \<longleftrightarrow>
     (\<exists>M. idle E (m_oram m) M \<and> tree_at M (m_rootKey m) (m_rootPos m) t \<and> dom M = tkeys t) \<and>
     ordered t \<and> avl t \<and> height t \<le> top_height E (m_oram m) \<and> top_height E (m_oram m) < 2 ^ 27 \<and>
     m_dummyValue m = o_dummyValue (m_oram m)"

text \<open>Inside an operation.\<close>

definition omap_op :: "env \<Rightarrow> omap \<Rightarrow> avl \<Rightarrow> bool" where
  "omap_op E m t \<longleftrightarrow>
     (\<exists>M. opst E (m_oram m) M \<and> tree_at M (m_rootKey m) (m_rootPos m) t \<and> dom M = tkeys t) \<and>
     ordered t \<and> avl t \<and> closed (m_oram m) t \<and> m_dummyValue m = o_dummyValue (m_oram m)"

text \<open>What an operation does not change.\<close>

definition same_map :: "env \<Rightarrow> nat \<Rightarrow> omap \<Rightarrow> omap \<Rightarrow> bool" where
  "same_map E k m m' \<longleftrightarrow>
     top_height E (m_oram m') = top_height E (m_oram m) \<and> m_dummyValue m' = m_dummyValue m \<and>
     rs_empty (o_store (m_oram m')) + k = rs_empty (o_store (m_oram m)) \<and> m_setupNodes m' = m_setupNodes m"

lemma same_map_trans: "same_map E j a b \<Longrightarrow> same_map E k b c \<Longrightarrow> same_map E (j + k) a c"
  by (simp add: same_map_def)

lemma closed_unmodified: "set (o_modified st) = {} \<Longrightarrow> closed st t"
  by (induction st t rule: closed.induct) auto

lemma start_op:
  assumes "omap_rep E m t"
  shows "omap_op E (startOperation False m) t" "same_map E 0 m (startOperation False m)"
proof -
  have c: "closed (ORAM_start False (m_oram m)) t"
    using assms by (intro closed_unmodified) (auto simp: omap_rep_def idle_def ORAM_start_def)
  show "omap_op E (startOperation False m) t"
    using assms start_opst c by (auto simp: omap_rep_def omap_op_def startOperation_def ORAM_start_def)
  show "same_map E 0 m (startOperation False m)"
    by (simp add: same_map_def startOperation_def ORAM_start_def top_height_def)
qed

lemma idle_nonzero: "idle E st M \<Longrightarrow> M k = Some n \<Longrightarrow> \<not> bid_eq_int k 0"
  using idle_good not_dummy_nonzero by (fastforce simp: good_def)

lemma finish_op:
  assumes E: "env_ok E" and m: "omap_op E m t" "rootc (m_oram m) t" and h: "height t \<le> top_height E (m_oram m)"
    "top_height E (m_oram m) < 2 ^ 27"
  obtains m' where "finishOperation E isFind m = Inr m'" "omap_rep E m' t" "same_map E 0 m m'"
proof -
  obtain M where M: "opst E (m_oram m) M" "tree_at M (m_rootKey m) (m_rootPos m) t" "dom M = tkeys t"
    and c: "closed (m_oram m) t" and o: "ordered t" "avl t" "m_dummyValue m = o_dummyValue (m_oram m)"
    using m(1) by (auto simp: omap_op_def)
  note tc = tree_conditions [OF M h(1) c]
  have root: "bid_eq_int (m_rootKey m) 0 \<or> cached (m_oram m) (m_rootKey m) \<noteq> None"
    using M(2) m(2) by (cases t) auto
  obtain st' M' p where F: "finilize E isFind (m_rootKey m) (m_rootPos m) (m_oram m) = Inr (p, st')" "idle E st' M'" "linked M'"
    "\<And>k. rel_option moved (M k) (M' k)" "cfg st' = cfg (m_oram m)" "rs_empty (o_store st') = rs_empty (o_store (m_oram m))"
    "bid_ne_int (m_rootKey m) 0 \<Longrightarrow> \<exists>n. M' (m_rootKey m) = Some n \<and> npos n = p"
    by (rule finilize_idle [OF E M(1) tc root]) blast
  have "tree_at M' (m_rootKey m) p t"
  proof (rule tree_at_moved [OF F(3,4) idle_nonzero [OF F(2)] M(2)])
    assume "t \<noteq> Leaf"
    then have "bid_ne_int (m_rootKey m) 0" using tree_at_zero [OF M(1,2)] by (simp add: bid_ne_int_iff)
    then show "\<exists>n. M' (m_rootKey m) = Some n \<and> npos n = p" by (rule F(7))
  qed
  moreover have "dom M' = tkeys t"
  proof -
    have "M' k = None \<longleftrightarrow> M k = None" for k using F(4) [of k] by (cases "M k"; cases "M' k") auto
    then show ?thesis using M(3) by (auto simp: dom_def)
  qed
  ultimately have "omap_rep E (m\<lparr>m_rootPos := p, m_oram := st'\<rparr>) t"
    using F(2) o h cfgD(9) [OF F(5)] top_height_cfg [OF F(5), of E] by (auto simp: omap_rep_def)
  moreover have "same_map E 0 m (m\<lparr>m_rootPos := p, m_oram := st'\<rparr>)"
    using F(6) top_height_cfg [OF F(5), of E] by (simp add: same_map_def)
  ultimately show ?thesis using that F(1) by (simp add: finishOperation_def)
qed

section \<open>Find\<close>

lemma OMAP_find_rep:
  assumes E: "env_ok E" and m: "omap_rep E m t" and key: "bid_wf (ID_SIZE (e_scheme E)) key"
    and fuel: "top_height E (m_oram m) < fuel"
  obtains m' where "OMAP_find E fuel key m = Inr (case tmap t key of None \<Rightarrow> [] | Some v \<Rightarrow> c_str (bytes_string v), m')"
    "omap_rep E m' t" "same_map E 0 m m'"
proof (cases "t = Leaf")
  case True
  then have "bid_eq_int (m_rootKey m) 0" using m by (auto simp: omap_rep_def)
  then show ?thesis using that [of m] m True by (simp add: OMAP_find_def tmap_def same_map_def)
next
  case False
  let ?m = "startOperation False m"
  have s: "omap_op E ?m t" "same_map E 0 m ?m" using start_op [OF m] by auto
  obtain M where M: "opst E (m_oram ?m) M" "tree_at M (m_rootKey ?m) (m_rootPos ?m) t" "dom M = tkeys t"
    using s(1) by (auto simp: omap_op_def)
  have o: "ordered t" "avl t" "closed (m_oram ?m) t" "m_dummyValue ?m = o_dummyValue (m_oram ?m)"
    using s(1) by (auto simp: omap_op_def)
  have h: "height t \<le> top_height E (m_oram m)" "top_height E (m_oram m) < 2 ^ 27" using m by (auto simp: omap_rep_def)
  have hf: "height t < fuel" using h(1) fuel by simp
  have nz: "\<not> bid_eq_int (m_rootKey m) 0"
    using tree_at_zero [OF M(1,2)] False by (simp add: startOperation_def)
  have stub: "tree_at M (nkey (root_stub E ?m)) (npos (root_stub E ?m)) t" using M(2) by (simp add: root_stub_def)
  obtain res st' where S: "AVL_search E (m_dummyValue ?m) fuel (Some (root_stub E ?m)) key (m_oram ?m) = Inr (res, st')"
    "opst E st' M" "eff 0 (tkeys t) (m_oram ?m) st'" "closed st' t" "rootc st' t" "map_option nvalue res = tmap t key"
    using AVL_search_op [OF E key M(1) stub False o(1,3,4) hf] by blast
  let ?m2 = "?m\<lparr>m_oram := st'\<rparr>"
  have cfg: "cfg st' = cfg (m_oram ?m)" using S(3) by (simp add: eff_def)
  have op2: "omap_op E ?m2 t" using S(2,4) M(2,3) o cfgD(9) [OF cfg] by (auto simp: omap_op_def)
  have s2: "same_map E 0 ?m ?m2" using S(3) top_height_cfg [OF cfg, of E] by (simp add: same_map_def eff_def)
  have sm: "same_map E 0 m ?m2" using same_map_trans [OF s(2) s2] by simp
  then have h2: "height t \<le> top_height E (m_oram ?m2)" "top_height E (m_oram ?m2) < 2 ^ 27" using h by (simp_all add: same_map_def)
  obtain m' where F: "finishOperation E True ?m2 = Inr m'" "omap_rep E m' t" "same_map E 0 ?m2 m'"
    using finish_op [OF E op2 _ h2] S(5) by (metis omap.select_convs(3) omap.update_convs(3) omap.surjective)
  have "(case res of None \<Rightarrow> [] | Some n \<Rightarrow> c_str (bytes_string (nvalue n))) =
      (case tmap t key of None \<Rightarrow> [] | Some v \<Rightarrow> c_str (bytes_string v))"
    using S(6) [symmetric] by (cases res) auto
  then have "OMAP_find E fuel key m = Inr (case tmap t key of None \<Rightarrow> [] | Some v \<Rightarrow> c_str (bytes_string v), m')"
    using nz S(1) F(1) by (simp add: OMAP_find_def Let_def)
  then show ?thesis using that F(2) same_map_trans [OF sm F(3)] by simp
qed

section \<open>Insert\<close>

definition key_ok :: "env \<Rightarrow> int \<Rightarrow> bid \<Rightarrow> bool" where
  "key_ok E dv key \<longleftrightarrow>
     bid_wf (ID_SIZE (e_scheme E)) key \<and> bid_ne_int key 0 \<and> (e_scheme E = Static \<longrightarrow> bid_tail_int key > dv)"

definition taken :: "env \<Rightarrow> bid \<Rightarrow> avl \<Rightarrow> nat" where
  "taken E key t = (if e_scheme E = Horus \<and> key \<notin> tkeys t then 1 else 0)"

lemma tree_at_dom: "tree_at M k p t \<Longrightarrow> tkeys t \<subseteq> dom M"
  using tree_at_node by (metis domI subsetI)

lemma tkeys_ins: "ordered t \<Longrightarrow> tkeys (ins key v t) = insert key (tkeys t)"
  using keys_ins by (simp add: tkeys_def)

lemma insert_any_rep:
  assumes E: "env_ok E" and m: "omap_op E m t" and h: "height t < 2 ^ 27" "height t < fuel"
    and key: "key_ok E (m_dummyValue m) key" and room: "taken E key t \<le> rs_empty (o_store (m_oram m))" and s: "length s \<le> 16"
    and k: "k = m_rootKey m \<or> bid_eq_int k 0 \<and> bid_eq_int (m_rootKey m) 0"
  obtains k' p st' where "AVL_insert E (m_dummyValue m) fuel k (m_rootPos m) key s (m_oram m) = Inr ((k', p), st')"
    "omap_op E (m\<lparr>m_rootKey := k', m_rootPos := p, m_oram := st'\<rparr>) (ins key (value_of s) t)"
    "rootc st' (ins key (value_of s) t)"
    "same_map E (taken E key t) m (m\<lparr>m_rootKey := k', m_rootPos := p, m_oram := st'\<rparr>)"
proof -
  obtain M where M: "opst E (m_oram m) M" "tree_at M (m_rootKey m) (m_rootPos m) t" "dom M = tkeys t"
    and o: "ordered t" "avl t" "closed (m_oram m) t" "m_dummyValue m = o_dummyValue (m_oram m)"
    using m by (auto simp: omap_op_def)
  have t: "tree_at M k (m_rootPos m) t" using k M(2) tree_at_zero [OF M(1,2)] by auto
  have nk: "new_key_ok E (m_oram m) M t key"
    using key room M(3) o(4) by (auto simp: new_key_ok_def key_ok_def not_dummy_def taken_def split: if_splits)
  obtain st' M' k' p where I: "AVL_insert E (m_dummyValue m) fuel k (m_rootPos m) key s (m_oram m) = Inr ((k', p), st')"
    "opst E st' M'" "tree_at M' k' p (ins key (value_of s) t)" "\<forall>z. z \<notin> insert key (tkeys t) \<longrightarrow> M' z = M z"
    "eff (taken E key t) (insert key (tkeys t)) (m_oram m) st'" "closed st' (ins key (value_of s) t)" "rootc st' (ins key (value_of s) t)"
    using AVL_insert_op [OF E s value_of_def M(1) t o(1,2) h(1) o(3,4) nk h(2)] unfolding inserted_def taken_def by blast
  have cfg: "cfg st' = cfg (m_oram m)" using I(5) by (simp add: eff_def)
  have d: "dom M' = tkeys (ins key (value_of s) t)"
  proof
    show "tkeys (ins key (value_of s) t) \<subseteq> dom M'" using tree_at_dom [OF I(3)] .
    show "dom M' \<subseteq> tkeys (ins key (value_of s) t)"
    proof
      fix z assume z: "z \<in> dom M'"
      then have "z \<in> insert key (tkeys t)" using I(4) M(3) by (metis domD domI insertCI)
      then show "z \<in> tkeys (ins key (value_of s) t)" using tkeys_ins [OF o(1)] by simp
    qed
  qed
  have "omap_op E (m\<lparr>m_rootKey := k', m_rootPos := p, m_oram := st'\<rparr>) (ins key (value_of s) t)"
    using I(2,3,6) d o(4) cfgD(9) [OF cfg] ins_ordered [OF o(1)] ins_avl [OF o(2)] by (auto simp: omap_op_def)
  moreover have "same_map E (taken E key t) m (m\<lparr>m_rootKey := k', m_rootPos := p, m_oram := st'\<rparr>)"
    using I(5) top_height_cfg [OF cfg, of E] by (simp add: same_map_def eff_def)
  ultimately show ?thesis using that I(1,7) by blast
qed

lemma OMAP_insert_rep:
  assumes E: "env_ok E" and m: "omap_rep E m t" and key: "key_ok E (m_dummyValue m) key"
    and fuel: "top_height E (m_oram m) < fuel" and s: "length s \<le> 16"
    and room: "taken E key t \<le> rs_empty (o_store (m_oram m))" and h: "height (ins key (value_of s) t) \<le> top_height E (m_oram m)"
  obtains m' where "OMAP_insert E fuel key s m = Inr m'" "omap_rep E m' (ins key (value_of s) t)" "same_map E (taken E key t) m m'"
proof -
  let ?m = "startOperation False m"
  let ?t = "ins key (value_of s) t"
  have st: "omap_op E ?m t" "same_map E 0 m ?m" using start_op [OF m] by auto
  have f: "m_rootKey ?m = m_rootKey m" "m_rootPos ?m = m_rootPos m" "m_dummyValue ?m = m_dummyValue m"
    by (simp_all add: startOperation_def)
  have ht: "height t < 2 ^ 27" "height t < fuel" "top_height E (m_oram m) < 2 ^ 27" using m fuel by (auto simp: omap_rep_def)
  have key': "key_ok E (m_dummyValue ?m) key" and room': "taken E key t \<le> rs_empty (o_store (m_oram ?m))"
    using key room f st(2) by (simp_all add: same_map_def)
  let ?k = "if bid_eq_int (m_rootKey ?m) 0 then Bid_int (ID_SIZE (e_scheme E)) 0 else m_rootKey ?m"
  obtain k' p st' where I: "AVL_insert E (m_dummyValue ?m) fuel ?k (m_rootPos ?m) key s (m_oram ?m) = Inr ((k', p), st')"
    "omap_op E (?m\<lparr>m_rootKey := k', m_rootPos := p, m_oram := st'\<rparr>) ?t" "rootc st' ?t"
    "same_map E (taken E key t) ?m (?m\<lparr>m_rootKey := k', m_rootPos := p, m_oram := st'\<rparr>)"
    by (rule insert_any_rep [OF E st(1) ht(1,2) key' room' s, of ?k]) auto
  let ?m2 = "?m\<lparr>m_rootKey := k', m_rootPos := p, m_oram := st'\<rparr>"
  have sm: "same_map E (taken E key t) m ?m2" using same_map_trans [OF st(2) I(4)] by simp
  then have h2: "height ?t \<le> top_height E (m_oram ?m2)" "top_height E (m_oram ?m2) < 2 ^ 27"
    using h ht(3) by (simp_all add: same_map_def)
  have rc: "rootc (m_oram ?m2) ?t" using I(3) by simp
  obtain m' where F: "finishOperation E False ?m2 = Inr m'" "omap_rep E m' ?t" "same_map E 0 ?m2 m'"
    by (rule finish_op [OF E I(2) rc h2]) blast
  have "OMAP_insert E fuel key s m = Inr m'" using I(1) F(1) by (simp add: OMAP_insert_def tree_insert_def)
  then show ?thesis using that F(2) same_map_trans [OF sm F(3)] by simp
qed

section \<open>Construction\<close>

lemma ilog2_less: "n < 2 ^ k \<Longrightarrow> 0 < k \<Longrightarrow> ilog2 n < k"
proof (induction k arbitrary: n)
  case (Suc k)
  show ?case
  proof (cases "n \<le> 1")
    case False
    then have "0 < k" using Suc.prems(1) by (cases k) auto
    moreover have "n div 2 < 2 ^ k" using Suc.prems(1) by simp
    ultimately show ?thesis using Suc.IH [of "n div 2"] False by (simp add: ilog2.simps [of n])
  qed (simp add: ilog2.simps)
qed simp

lemma int_bucket: "int j \<in> all_buckets st \<longleftrightarrow> j < o_bucketCount st"
  by (simp add: all_buckets_def)

lemma write_empty_rep:
  assumes E: "env_ok E"
  shows "geom E st \<Longrightarrow> \<forall>i\<in>set is. i < o_bucketCount st \<Longrightarrow>
    \<forall>i. int i \<in> all_buckets st \<and> i \<notin> set is \<longrightarrow> slot_ok E st (rs_store (o_store st) ! i) [] \<Longrightarrow>
    \<exists>st'. write_empty_buckets E is st = Inr st' \<and> cfg st' = cfg st \<and> o_cache st' = o_cache st \<and>
      o_leafList st' = o_leafList st \<and> o_modified st' = o_modified st \<and> rs_empty (o_store st') = rs_empty (o_store st) \<and>
      (\<forall>i. int i \<in> all_buckets st \<longrightarrow> slot_ok E st (rs_store (o_store st') ! i) [])"
proof (induction "is" arbitrary: st)
  case (Cons i js)
  have i: "int i \<in> all_buckets st" using Cons.prems(2) by (simp add: all_buckets_def)
  have "bucket_ok E []" by (simp add: bucket_ok_def)
  then obtain c where c: "slot_ok E st c []"
    "WriteBucket E st (int i) (bkt_of E st []) = Inr (st\<lparr>o_totalWrite := o_totalWrite st + 1, o_ivs := o_ivs st + 1,
       o_store := (o_store st)\<lparr>rs_store := (rs_store (o_store st))[nat (int i) := c]\<rparr>\<rparr>)" (is "_ = Inr ?st1")
    by (rule WriteBucket_run [OF E Cons.prems(1) i])
  have cfg: "cfg ?st1 = cfg st" by (simp add: cfg_def)
  note cc = cfg_cong [OF cfg]
  have len: "i < length (rs_store (o_store st))" using bucket_index [OF Cons.prems(1) i] by simp
  have "\<exists>st'. write_empty_buckets E js ?st1 = Inr st' \<and> cfg st' = cfg ?st1 \<and> o_cache st' = o_cache ?st1 \<and>
      o_leafList st' = o_leafList ?st1 \<and> o_modified st' = o_modified ?st1 \<and> rs_empty (o_store st') = rs_empty (o_store ?st1) \<and>
      (\<forall>j. int j \<in> all_buckets ?st1 \<longrightarrow> slot_ok E ?st1 (rs_store (o_store st') ! j) [])"
  proof (rule Cons.IH)
    show "geom E ?st1" using Cons.prems(1) cc by simp
    show "\<forall>j\<in>set js. j < o_bucketCount ?st1" using Cons.prems(2) by simp
    show "\<forall>j. int j \<in> all_buckets ?st1 \<and> j \<notin> set js \<longrightarrow> slot_ok E ?st1 (rs_store (o_store ?st1) ! j) []"
      unfolding cc using Cons.prems(3) c(1) len by (auto simp: nth_list_update)
  qed
  moreover have "bkt_of E st [] = replicate Z (dummy_blk E st)" by (simp add: bkt_of_def)
  ultimately show ?case using c(2) cfg unfolding cc by auto
qed auto

definition omap_cap :: "nat \<Rightarrow> nat" where
  "omap_cap maxSize = Z * (2 ^ (ilog2 (maxSize div Z) + 1) - 1)"

definition omap_top :: "env \<Rightarrow> nat \<Rightarrow> nat" where
  "omap_top E maxSize = (if e_scheme E = Horus then ilog2 (maxSize div Z) + 2 else ilog2 (omap_cap maxSize) + 1)"

lemma ORAM_new_idle:
  assumes E: "env_ok E" and sz: "maxSize div Z \<noteq> 0" "ilog2 (maxSize div Z) < 31"
  obtains st where "ORAM_new E maxSize key = Inr st" "idle E st (\<lambda>_. None)" "top_height E st = omap_top E maxSize"
    "rs_empty (o_store st) = omap_cap maxSize" "o_dummyValue st = 0"
proof -
  let ?d = "ilog2 (maxSize div Z)"
  let ?bs = "sizeof_Node (e_scheme E)"
  let ?st = "\<lparr>o_depth = ?d, o_bucketCount = 2 ^ (?d + 1) - 1, o_blockSize = ?bs,
    o_clen_size = GetCiphertextLength (Z * ?bs), o_plaintext_size = ?bs * Z,
    o_maxOfRandom = (2 ^ (?d + 1) - 1) div 2, o_maxHeightOfAVLTree = ilog2 (omap_cap maxSize) + 1,
    o_key = key, o_store = RAMStore_new (omap_cap maxSize) (IV + GetCiphertextLength (Z * ?bs)),
    o_cache = [], o_leafList = [], o_readviewmap = [], o_writeviewmap = [],
    o_modified = [], o_readCnt = 0, o_batchWrite = False, o_totalRead = 0,
    o_totalWrite = 0, o_dummyValue = 0, o_rng = 0, o_ivs = 0\<rparr>"
  have "(2 ^ (?d + 1) - 1) div 2 = (2::nat) ^ ?d - 1" by simp
  then have g: "geom E ?st" using sz by (simp add: geom_def RAMStore_new_def omap_cap_def Z_def)
  have "\<exists>st'. write_empty_buckets E [0..<2 ^ (?d + 1) - 1] ?st = Inr st' \<and> cfg st' = cfg ?st \<and> o_cache st' = o_cache ?st \<and>
      o_leafList st' = o_leafList ?st \<and> o_modified st' = o_modified ?st \<and> rs_empty (o_store st') = rs_empty (o_store ?st) \<and>
      (\<forall>j. int j \<in> all_buckets ?st \<longrightarrow> slot_ok E ?st (rs_store (o_store st') ! j) [])"
    by (rule write_empty_rep [OF E g]) (auto simp: int_bucket)
  then obtain st' where w: "write_empty_buckets E [0..<2 ^ (?d + 1) - 1] ?st = Inr st'" "cfg st' = cfg ?st" "o_cache st' = []"
      "o_leafList st' = []" "o_modified st' = []" "rs_empty (o_store st') = omap_cap maxSize"
      "\<forall>j. int j \<in> all_buckets ?st \<longrightarrow> slot_ok E ?st (rs_store (o_store st') ! j) []"
    by (auto simp: RAMStore_new_def)
  have "store_rep E st' (\<lambda>_. [])"
    using w(7) cfg_cong [OF w(2)] by (auto simp: store_rep_def bucket_ok_def all_buckets_def)
  then have "oram_rep E st' {} (\<lambda>_. []) (\<lambda>_. None)"
    using g cfg_cong(1) [OF w(2), of E] w(3) by (simp add: oram_rep_def cache_ok_def live_ok_def mem_ok_def cached_def)
  then have "idle E st' (\<lambda>_. None)" using w(4,5) by (auto simp: idle_def)
  moreover have "ORAM_new E maxSize key = Inr st'" using sz w(1) by (simp add: ORAM_new_def Let_def omap_cap_def)
  moreover have "top_height E st' = omap_top E maxSize"
    using top_height_cfg [OF w(2), of E] by (simp add: top_height_def omap_top_def)
  moreover have "o_dummyValue st' = 0" using cfgD(9) [OF w(2)] by simp
  ultimately show ?thesis using that w(6) by blast
qed

lemma omap_top_small:
  assumes "ilog2 (maxSize div Z) < 31"
  shows "omap_top E maxSize < 2 ^ 27"
proof -
  have "omap_cap maxSize < 2 ^ (ilog2 (maxSize div Z) + 3)"
    by (simp add: omap_cap_def Z_def power_add)
  then have "ilog2 (omap_cap maxSize) < ilog2 (maxSize div Z) + 3" by (rule ilog2_less) simp
  then show ?thesis using assms by (simp add: omap_top_def)
qed

section \<open>Runs of operations\<close>

datatype map_op = Put bid string | Get bid

fun map_step :: "map_op \<Rightarrow> (bid \<Rightarrow> string option) \<Rightarrow> string \<times> (bid \<Rightarrow> string option)" where
  "map_step (Put k s) f = ([], f(k \<mapsto> s))"
| "map_step (Get k) f = (case f k of None \<Rightarrow> [] | Some s \<Rightarrow> s, f)"

fun omap_step :: "env \<Rightarrow> nat \<Rightarrow> map_op \<Rightarrow> omap \<Rightarrow> (string \<times> omap) res" where
  "omap_step E fuel (Put k s) m = ebind (OMAP_insert E fuel k s m) (\<lambda>m. Inr ([], m))"
| "omap_step E fuel (Get k) m = OMAP_find E fuel k m"

definition text_ok :: "string \<Rightarrow> bool" where
  "text_ok s \<longleftrightarrow> length s \<le> 16 \<and> NUL \<notin> set s"

text \<open>
  Admissible operations: keys of the right width that do not read as a dummy, values that fit,
  and no more keys than keep an AVL tree within the height \<open>top\<close> that \<open>finilize\<close> updates.
\<close>

fun omap_ok :: "env \<Rightarrow> nat \<Rightarrow> nat \<Rightarrow> map_op \<Rightarrow> (bid \<Rightarrow> string option) \<Rightarrow> bool" where
  "omap_ok E h cap (Put k s) f \<longleftrightarrow>
     key_ok E 0 k \<and> text_ok s \<and> card (insert k (dom f)) < min_size (Suc h) \<and> card (insert k (dom f)) \<le> cap"
| "omap_ok E h cap (Get k) f \<longleftrightarrow> bid_wf (ID_SIZE (e_scheme E)) k"

definition omap_rel :: "env \<Rightarrow> nat \<Rightarrow> nat \<Rightarrow> nat \<Rightarrow> (bid \<Rightarrow> string option) \<Rightarrow> omap \<Rightarrow> bool" where
  "omap_rel E fuel h cap f m \<longleftrightarrow>
     env_ok E \<and> h < fuel \<and> (\<exists>t. omap_rep E m t \<and> (\<forall>k. tmap t k = map_option value_of (f k)) \<and> (\<forall>k s. f k = Some s \<longrightarrow> text_ok s) \<and>
       rs_empty (o_store (m_oram m)) + (if e_scheme E = Horus then size t else 0) = cap) \<and>
     top_height E (m_oram m) = h \<and> m_dummyValue m = 0"

lemma c_str_value_of: "text_ok s \<Longrightarrow> c_str (bytes_string (value_of s)) = s"
  by (simp add: text_ok_def value_of_def c_str_pad)

lemma size_ins: "ordered t \<Longrightarrow> size (ins k v t) = (if k \<in> tkeys t then size t else Suc (size t))"
  using size_tkeys [OF ins_ordered, of t k v] size_tkeys [of t] keys_ins [of t k v]
  by (simp add: tkeys_def insert_absorb)

interpretation omap: simulation "omap_rel E fuel h cap" "omap_ok E h cap" map_step "omap_step E fuel" for E fuel h cap
proof
  fix f m p assume rel: "omap_rel E fuel h cap f m" and ok: "omap_ok E h cap p f"
  obtain t where t: "omap_rep E m t" "\<forall>k. tmap t k = map_option value_of (f k)" "\<forall>k s. f k = Some s \<longrightarrow> text_ok s"
    "rs_empty (o_store (m_oram m)) + (if e_scheme E = Horus then size t else 0) = cap"
    and E: "env_ok E" and h: "top_height E (m_oram m) = h" "h < fuel" and dv: "m_dummyValue m = 0"
    using rel by (auto simp: omap_rel_def)
  have o: "ordered t" "avl t" using t(1) by (auto simp: omap_rep_def)
  have dom: "tkeys t = dom f" using dom_tmap [of t] t(2) by (auto simp: tkeys_def dom_def)
  show "\<exists>m'. omap_step E fuel p m = Inr (fst (map_step p f), m') \<and> omap_rel E fuel h cap (snd (map_step p f)) m'"
  proof (cases p)
    case (Get k)
    then obtain m' where F: "OMAP_find E fuel k m = Inr (case tmap t k of None \<Rightarrow> [] | Some v \<Rightarrow> c_str (bytes_string v), m')"
      "omap_rep E m' t" "same_map E 0 m m'"
      using OMAP_find_rep [OF E t(1)] ok h by auto
    have "(case tmap t k of None \<Rightarrow> [] | Some v \<Rightarrow> c_str (bytes_string v)) = fst (map_step p f)"
      using t(2,3) Get c_str_value_of by (auto split: option.splits)
    then show ?thesis using F Get rel t(2-4) h dv E by (auto simp: omap_rel_def same_map_def)
  next
    case (Put k s)
    let ?t = "ins k (value_of s) t"
    have ok': "key_ok E 0 k" "text_ok s" "card (insert k (dom f)) < min_size (Suc h)" "card (insert k (dom f)) \<le> cap"
      using ok Put by auto
    have sz: "size ?t = card (insert k (dom f))" using size_tkeys [OF ins_ordered [OF o(1)]] keys_ins [OF o(1)] dom by (simp add: tkeys_def)
    have ht: "height ?t \<le> top_height E (m_oram m)"
      using avl_height_bound [of ?t h] ins_avl [OF o(2)] sz ok'(3) h(1) by simp
    have room: "taken E k t \<le> rs_empty (o_store (m_oram m))"
      using size_ins [OF o(1), of k "value_of s"] sz ok'(4) t(4) by (auto simp: taken_def split: if_splits)
    have "length s \<le> 16" using ok'(2) by (simp add: text_ok_def)
    then obtain m' where I: "OMAP_insert E fuel k s m = Inr m'" "omap_rep E m' ?t" "same_map E (taken E k t) m m'"
      using OMAP_insert_rep [OF E t(1) _ _ _ room ht] ok'(1) dv h by auto
    have "rs_empty (o_store (m_oram m')) + (if e_scheme E = Horus then size ?t else 0) = cap"
      using I(3) t(4) size_ins [OF o(1), of k "value_of s"] by (auto simp: same_map_def taken_def split: if_splits)
    moreover have "\<forall>k'. tmap ?t k' = map_option value_of ((f(k \<mapsto> s)) k')" using ins_tmap [OF o(1)] t(2) by simp
    moreover have "\<forall>k' s'. (f(k \<mapsto> s)) k' = Some s' \<longrightarrow> text_ok s'" using t(3) ok'(2) by simp
    ultimately have "omap_rel E fuel h cap (f(k \<mapsto> s)) m'"
      using I(2,3) E h dv unfolding omap_rel_def same_map_def by auto
    then show ?thesis using I(1) Put by simp
  qed
qed

lemma omap_rel_new:
  assumes "env_ok E" "maxSize div Z \<noteq> 0" "ilog2 (maxSize div Z) < 31" "omap_top E maxSize < fuel"
  obtains m where "OMAP_new E maxSize key = Inr m" "omap_rep E m Leaf"
    "omap_rel E fuel (omap_top E maxSize) (omap_cap maxSize) (\<lambda>_. None) m"
proof -
  obtain st where st: "ORAM_new E maxSize key = Inr st" "idle E st (\<lambda>_. None)" "top_height E st = omap_top E maxSize"
    "rs_empty (o_store st) = omap_cap maxSize" "o_dummyValue st = 0"
    by (rule ORAM_new_idle [OF assms(1-3)]) blast
  let ?m = "\<lparr>m_rootKey = Bid_int (ID_SIZE (e_scheme E)) 0, m_rootPos = e_uninit E, m_oram = st, m_dummyValue = 0, m_setupNodes = []\<rparr>"
  have rep: "omap_rep E ?m Leaf"
    using st omap_top_small [OF assms(3), of E] by (auto simp: omap_rep_def ordered_def)
  then have "omap_rel E fuel (omap_top E maxSize) (omap_cap maxSize) (\<lambda>_. None) ?m"
    using st assms(1,4) by (auto simp: omap_rel_def tmap_def intro!: exI [of _ Leaf])
  then show ?thesis using that rep st(1) by (simp add: OMAP_new_def)
qed

section \<open>Properties\<close>

text \<open>
  (C3) The oblivious map, end to end: a new map followed by any admissible sequence of insertions
  and lookups runs without an error, and every lookup returns what the abstract map holds, for
  every random generator, cipher, cache order and scheme. The bounds on the number of keys are
  those under which the AVL tree stays within the height whose positions \<open>finilize\<close> refreshes,
  and, for Horus, within the free blocks of the store.
\<close>

theorem omap_refines_map:
  assumes "env_ok E" "maxSize div Z \<noteq> 0" "ilog2 (maxSize div Z) < 31" "omap_top E maxSize < fuel"
    "all_ok (omap_ok E (omap_top E maxSize) (omap_cap maxSize)) map_step ps (\<lambda>_. None)"
  shows "\<exists>m. ebind (OMAP_new E maxSize key) (crun (omap_step E fuel) ps) = Inr (fst (arun map_step ps (\<lambda>_. None)), m)"
proof -
  obtain m where "OMAP_new E maxSize key = Inr m" "omap_rel E fuel (omap_top E maxSize) (omap_cap maxSize) (\<lambda>_. None) m"
    using omap_rel_new [OF assms(1-4)] by metis
  then show ?thesis using omap.run_outputs [OF _ assms(5)] by simp
qed

lemma env_ok_toy: "env_ok (toy_env s)"
  using cipher_ok_pad by (simp add: env_ok_def toy_env_def int32_def)

theorem omap_refines_map_witness:
  "\<exists>m. ebind (OMAP_new (toy_env Mitra) 8 [1]) (crun (omap_step (toy_env Mitra) 20)
      [Put (Bid_int 16 3) ''x'', Put (Bid_int 16 2) ''y'', Put (Bid_int 16 1) ''z'', Put (Bid_int 16 3) ''w'', Get (Bid_int 16 3), Get (Bid_int 16 1)]) =
     Inr ([[], [], [], [], ''w'', ''z''], m)"
proof -
  have k: "key_ok (toy_env Mitra) 0 (Bid_int 16 3)" "key_ok (toy_env Mitra) 0 (Bid_int 16 2)" "key_ok (toy_env Mitra) 0 (Bid_int 16 1)"
    by code_simp+
  have t: "omap_top (toy_env Mitra) 8 = 4" "omap_cap 8 = 12" by code_simp+
  have d: "Bid_int 16 3 \<noteq> Bid_int 16 2" "Bid_int 16 3 \<noteq> Bid_int 16 1" "Bid_int 16 1 \<noteq> Bid_int 16 2" by code_simp+
  have w: "bid_wf (ID_SIZE (e_scheme (toy_env Mitra))) (Bid_int 16 3)" "bid_wf (ID_SIZE (e_scheme (toy_env Mitra))) (Bid_int 16 1)"
    by code_simp+
  have ms: "min_size 5 = 12" by code_simp
  let ?ps = "[Put (Bid_int 16 3) ''x'', Put (Bid_int 16 2) ''y'', Put (Bid_int 16 1) ''z'', Put (Bid_int 16 3) ''w'',
    Get (Bid_int 16 3), Get (Bid_int 16 1)]"
  have s: "text_ok ''x''" "text_ok ''y''" "text_ok ''z''" "text_ok ''w''" by (simp_all add: text_ok_def NUL_char)
  have ok: "all_ok (omap_ok (toy_env Mitra) (omap_top (toy_env Mitra) 8) (omap_cap 8)) map_step ?ps (\<lambda>_. None)"
    unfolding t using k w d d [symmetric] s by (simp add: ms insert_absorb card_insert_if)
  have sz: "8 div Z \<noteq> 0" "ilog2 (8 div Z) < 31" "omap_top (toy_env Mitra) 8 < 20" unfolding t by (simp_all add: Z_def ilog2.simps)
  have run: "fst (arun map_step ?ps (\<lambda>_. None)) = [[], [], [], [], ''w'', ''z'']" using d d [symmetric] by simp
  show ?thesis using omap_refines_map [OF env_ok_toy sz ok, of "[1]"] unfolding run .
qed

end
