(* ===== verification/De_Amortized_Correct.thy ===== *)
theory De_Amortized_Correct
  imports De_Amortized Amortized_Correct Omap_Correct
begin

text \<open>
  Correctness of the de-amortized scheme while all its levels are kept by the client, that is for
  structures of at most \<open>2 ^ localSize\<close> elements. After \<open>u\<close> updates the number of full instances of
  every level and the progress of its rebuild are functions of \<open>u\<close> alone; from this schedule it
  follows that a full instance always finds room and that no record is lost.
\<close>

section \<open>Keys of a local instance\<close>

definition dkey :: "string \<Rightarrow> nat \<Rightarrow> string" where
  "dkey kw n = kw @ ''-'' @ to_string (int n)"

lemma last_dash:
  assumes "a @ c # s = b @ c # t" "c \<notin> set s" "c \<notin> set t"
  shows "a = b \<and> s = t"
proof -
  have "rev s @ c # rev a = rev t @ c # rev b" using arg_cong [OF assms(1), of rev] by simp
  moreover have "takeWhile (\<lambda>x. x \<noteq> c) (rev s @ c # rev a) = rev s" "takeWhile (\<lambda>x. x \<noteq> c) (rev t @ c # rev b) = rev t"
    using assms(2,3) by (simp_all add: takeWhile_append takeWhile_eq_all_conv)
  ultimately have "rev s = rev t" by simp
  with assms(1) show ?thesis by simp
qed

lemma to_string_nat_inj: "to_string (int m) = to_string (int n) \<longleftrightarrow> m = n"
  by (metis digits_val_show_nat nat_int to_string_def of_nat_0_le_iff not_less)

lemma to_string_dash: "CHR ''-'' \<notin> set (to_string (int n))"
  using show_nat_digits [of n] digit_not_sign by (auto simp: to_string_def)

lemma dkey_inj [simp]: "dkey a m = dkey b n \<longleftrightarrow> a = b \<and> m = n"
proof
  assume "dkey a m = dkey b n"
  then have "a @ CHR ''-'' # to_string (int m) = b @ CHR ''-'' # to_string (int n)" by (simp add: dkey_def)
  then show "a = b \<and> m = n" using last_dash to_string_dash to_string_nat_inj by metis
qed simp

section \<open>Instances\<close>

text \<open>The entries of one keyword; an instance numbers them from 1 without gaps.\<close>

definition kent :: "string \<Rightarrow> (string \<times> bytes) list \<Rightarrow> (string \<times> bytes) list" where
  "kent kw m = filter (\<lambda>e. kw_of (take 15 (snd e)) = kw) m"

definition inst_ok :: "(string \<times> bytes) list \<Rightarrow> bool" where
  "inst_ok m \<longleftrightarrow> distinct (map fst m) \<and> (\<forall>e\<in>set m. \<exists>kw. vrec kw (snd e)) \<and>
     (\<forall>kw. fst ` set (kent kw m) = dkey kw ` {1..length (kent kw m)})"

lemma kent_simps [simp]: "kent kw [] = []" "kent kw (a @ b) = kent kw a @ kent kw b"
  by (simp_all add: kent_def)

lemma inst_ok_Nil [simp]: "inst_ok []"
  by (simp add: inst_ok_def)

lemma inst_kent: "inst_ok m \<Longrightarrow> fst ` set (kent kw m) = dkey kw ` {1..length (kent kw m)}"
  by (simp add: inst_ok_def)

lemma inst_key:
  assumes "inst_ok m" "(k, v) \<in> set m"
  shows "\<exists>kw n. vrec kw v \<and> kw_of (take 15 v) = kw \<and> k = dkey kw n \<and> 1 \<le> n \<and> n \<le> length (kent kw m)"
proof -
  obtain kw where kw: "vrec kw v" "kw_of (take 15 v) = kw" using assms vrec_array_str by (fastforce simp: inst_ok_def)
  then have "(k, v) \<in> set (kent kw m)" using assms(2) by (simp add: kent_def)
  then have "k \<in> dkey kw ` {1..length (kent kw m)}" using assms(1) unfolding inst_ok_def by (metis fst_conv image_eqI)
  with kw show ?thesis by auto
qed

lemma inst_next_fresh: "inst_ok m \<Longrightarrow> dkey kw (length (kent kw m) + 1) \<notin> fst ` set m"
  using inst_key by fastforce

lemma inst_insert:
  assumes m: "inst_ok m" and x: "vrec kw x"
  shows "AList.update (dkey kw (length (kent kw m) + 1)) x m = m @ [(dkey kw (length (kent kw m) + 1), x)]"
    and "inst_ok (m @ [(dkey kw (length (kent kw m) + 1), x)])"
proof -
  let ?k = "dkey kw (length (kent kw m) + 1)"
  have fresh: "?k \<notin> fst ` set m" by (rule inst_next_fresh [OF m])
  then show "AList.update ?k x m = m @ [(?k, x)]" by (rule update_fresh)
  have kx: "kw_of (take 15 x) = kw" using vrec_array_str [OF x] by simp
  have "fst ` set (kent k (m @ [(?k, x)])) = dkey k ` {1..length (kent k (m @ [(?k, x)]))}" for k
  proof (cases "k = kw")
    case True
    have "fst ` set (kent kw m) = dkey kw ` {1..length (kent kw m)}" using m by (simp add: inst_ok_def)
    moreover have "{1..Suc n} = insert (Suc n) {1..n}" for n :: nat by auto
    ultimately show ?thesis using True kx by (simp add: kent_def)
  next
    case False
    then show ?thesis using m kx by (simp add: inst_ok_def kent_def)
  qed
  then show "inst_ok (m @ [(?k, x)])" using m x fresh by (auto simp: inst_ok_def)
qed

text \<open>Two orders of the same entries give the same records.\<close>

lemma inst_map_of:
  assumes "inst_ok m" "1 \<le> n" "n \<le> length (kent kw m)"
  obtains v where "map_of m (dkey kw n) = Some v" "(dkey kw n, v) \<in> set (kent kw m)"
proof -
  have "dkey kw n \<in> fst ` set (kent kw m)" using assms by (simp add: inst_ok_def)
  then obtain v where v: "(dkey kw n, v) \<in> set (kent kw m)" by auto
  then have "(dkey kw n, v) \<in> set m" by (simp add: kent_def)
  then have "map_of m (dkey kw n) = Some v" using assms(1) by (simp add: inst_ok_def)
  then show ?thesis using v that by blast
qed

lemma local_search_loop_eq:
  assumes m: "inst_ok m" and j: "1 \<le> j" "j \<le> length (kent kw m) + 1"
  shows "local_search_loop m kw (int j) acc =
    Some (acc @ map (\<lambda>n. the (map_of m (dkey kw n))) [j..<length (kent kw m) + 1])"
  using j
proof (induction "length (kent kw m) + 1 - j" arbitrary: j acc)
  case 0
  then have "map_of m (dkey kw j) = None" using inst_next_fresh [OF m, of kw] by (simp add: map_of_eq_None_iff)
  then show ?case using 0 by (subst local_search_loop.simps) (simp add: dkey_def)
next
  case (Suc d)
  then have jl: "j \<le> length (kent kw m)" by simp
  obtain v where v: "map_of m (dkey kw j) = Some v" using inst_map_of [OF m Suc.prems(1) jl] by blast
  have "local_search_loop m kw (int j) acc = local_search_loop m kw (int (Suc j)) (acc @ [v])"
    using v by (subst local_search_loop.simps) (simp add: dkey_def add.commute)
  also have "\<dots> = Some ((acc @ [v]) @ map (\<lambda>n. the (map_of m (dkey kw n))) [Suc j..<length (kent kw m) + 1])"
    using Suc.hyps Suc.prems jl by (intro Suc.hyps(1)) simp_all
  finally show ?case using v jl by (simp add: upt_conv_Cons del: upt_Suc)
qed

lemma kent_by_number:
  assumes m: "inst_ok m"
  shows "mset (map (\<lambda>n. the (map_of m (dkey kw n))) [1..<length (kent kw m) + 1]) = mset (map snd (kent kw m))"
proof -
  let ?ps = "map (\<lambda>n. (dkey kw n, the (map_of m (dkey kw n)))) [1..<length (kent kw m) + 1]"
  have dm: "distinct m" using m by (simp add: inst_ok_def distinct_map)
  have "distinct ?ps" by (simp add: distinct_map inj_on_def)
  moreover have "distinct (kent kw m)" using dm by (simp add: kent_def)
  moreover have "set ?ps = set (kent kw m)"
  proof (intro set_eqI iffI)
    fix e assume "e \<in> set ?ps"
    then obtain n where n: "1 \<le> n" "n \<le> length (kent kw m)" "e = (dkey kw n, the (map_of m (dkey kw n)))" by auto
    then show "e \<in> set (kent kw m)" using inst_map_of [OF m n(1,2)] by (metis option.sel)
  next
    fix e assume e: "e \<in> set (kent kw m)"
    then have "fst e \<in> dkey kw ` {1..length (kent kw m)}" using inst_kent [OF m, of kw] by (metis image_eqI)
    then obtain n where n: "fst e = dkey kw n" "n \<in> {1..length (kent kw m)}" by blast
    have "e \<in> set m" using e by (simp add: kent_def)
    then have "map_of m (fst e) = Some (snd e)" using m by (simp add: inst_ok_def)
    then have "e = (dkey kw n, the (map_of m (dkey kw n)))" using n(1) by (cases e) simp
    moreover have "n \<in> set [1..<length (kent kw m) + 1]" using n(2) by auto
    ultimately show "e \<in> set ?ps" by (metis (no_types, lifting) image_eqI set_map)
  qed
  ultimately have "mset ?ps = mset (kent kw m)" by (simp only: set_eq_iff_mset_eq_distinct)
  then have "mset (map snd ?ps) = mset (map snd (kent kw m))" by (simp only: mset_map)
  then show ?thesis by (simp only: map_map comp_def snd_conv)
qed


section \<open>The schedule\<close>

text \<open>
  With \<open>v\<close> two more than the number of updates: the full instances level \<open>i\<close> has received, those
  it has given to the next level (two at a time; the last level keeps all), and the number of
  records in its instance under construction.
\<close>

definition rcv :: "nat \<Rightarrow> nat \<Rightarrow> nat" where
  "rcv i v = v div 2 ^ i - 2"

definition drp :: "nat \<Rightarrow> nat \<Rightarrow> nat \<Rightarrow> nat" where
  "drp l i v = (if i + 1 < l then rcv (i + 1) v else 0)"

definition occ :: "nat \<Rightarrow> nat \<Rightarrow> nat \<Rightarrow> nat \<Rightarrow> nat" where
  "occ l i tr td = rcv i tr - 2 * drp l i td"

definition prog :: "nat \<Rightarrow> nat \<Rightarrow> nat" where
  "prog i v = (if v div 2 ^ i < 2 then 0 else v mod 2 ^ i)"

lemma div_half: "v div 2 ^ Suc i = v div 2 ^ i div (2 :: nat)"
  by (subst power_Suc2) (rule div_mult2_eq)

lemma room_arith:
  "2 \<le> w \<Longrightarrow> w - 2 - 2 * (Suc w div 2 - 2) < 3 \<and> Suc w - 2 - 2 * (Suc w div 2 - 2) = Suc (w - 2 - 2 * (Suc w div 2 - 2))" for w :: nat
proof (cases "even w")
  case True
  then obtain k where "w = 2 * k" by (elim evenE)
  then show "2 \<le> w \<Longrightarrow> ?thesis" by simp arith
next
  case False
  then obtain k where "w = 2 * k + 1" by (elim oddE)
  then show "2 \<le> w \<Longrightarrow> ?thesis" by simp arith
qed

lemma stable_arith: "2 \<le> Suc w div 2 \<Longrightarrow> Suc w mod 2 \<noteq> 0 \<Longrightarrow> 2 \<le> w - 2 - 2 * (Suc w div 2 - 2)" for w :: nat
  by (elim oddE [of "Suc w", simplified odd_iff_mod_2_eq_one] | (cases "even w"; auto elim!: evenE oddE))

lemma step_within: "Suc v mod 2 ^ i \<noteq> 0 \<Longrightarrow> Suc v div 2 ^ i = v div 2 ^ i \<and> Suc v mod 2 ^ i = Suc (v mod 2 ^ i)" for v :: nat
  by (simp add: div_Suc mod_Suc split: if_splits)

lemma step_across: "Suc v mod 2 ^ i = 0 \<Longrightarrow> Suc v div 2 ^ i = Suc (v div 2 ^ i) \<and> Suc (v mod 2 ^ i) = 2 ^ i" for v :: nat
  by (simp add: div_Suc mod_Suc split: if_splits)

lemma occ_ready: "0 < i \<Longrightarrow> i < l \<Longrightarrow> 2 \<le> occ l (i - 1) v v \<longleftrightarrow> 2 \<le> v div 2 ^ i"
  by (cases i) (auto simp: occ_def drp_def rcv_def div_half simp del: power_Suc)

lemma not_ready_step:
  assumes "v div 2 ^ i < 2"
  shows "rcv i (Suc v) = rcv i v" "prog i (Suc v) = prog i v"
  using assms step_within [of v i] step_across [of v i]
  by (cases "Suc v mod 2 ^ i = 0"; force simp: rcv_def prog_def)+

lemma ready_partial:
  assumes "2 \<le> v div 2 ^ i" "Suc v mod 2 ^ i \<noteq> 0"
  shows "rcv i (Suc v) = rcv i v" "prog i v = v mod 2 ^ i" "prog i (Suc v) = Suc (v mod 2 ^ i)" "Suc (v mod 2 ^ i) < 2 ^ i"
    "Suc v div 2 ^ i = v div 2 ^ i"
  using assms step_within [of v i] mod_less_divisor [of "2 ^ i" "Suc v"] by (auto simp: rcv_def prog_def)

lemma ready_full:
  assumes "2 \<le> v div 2 ^ i" "Suc v mod 2 ^ i = 0"
  shows "rcv i (Suc v) = Suc (rcv i v)" "prog i v = v mod 2 ^ i" "prog i (Suc v) = 0" "Suc (v mod 2 ^ i) = 2 ^ i"
    "Suc v div 2 ^ i = Suc (v div 2 ^ i)"
  using assms step_across [of v i] by (auto simp: rcv_def prog_def)

lemma occ_room:
  assumes "2 \<le> v div 2 ^ i" "Suc v mod 2 ^ i = 0" "Suc v div 2 ^ (l - 1) \<le> 5" "i < l"
  shows "occ l i v (Suc v) < 3" "occ l i (Suc v) (Suc v) = Suc (occ l i v (Suc v))"
proof -
  have "occ l i v (Suc v) < 3 \<and> occ l i (Suc v) (Suc v) = Suc (occ l i v (Suc v))"
  proof (cases "i + 1 < l")
    case True
    then show ?thesis using room_arith [OF assms(1)] step_across [OF assms(2)]
      by (simp add: occ_def drp_def rcv_def div_half del: power_Suc)
  next
    case False
    then have "i = l - 1" using assms(4) by simp
    then show ?thesis using assms step_across [OF assms(2)] False
      by (simp add: occ_def drp_def rcv_def) arith
  qed
  then show "occ l i v (Suc v) < 3" "occ l i (Suc v) (Suc v) = Suc (occ l i v (Suc v))" by blast+
qed

text \<open>A new full instance of level \<open>i\<close> does not disturb the rebuild of the next level.\<close>

lemma occ_stable:
  assumes "Suc v mod 2 ^ i = 0" "i + 1 < l" "prog (Suc i) (Suc v) \<noteq> 0"
  shows "2 \<le> occ l i v (Suc v)"
proof -
  have "2 \<le> Suc v div 2 ^ Suc i" "Suc v mod 2 ^ Suc i \<noteq> 0" using assms(3) by (auto simp: prog_def split: if_splits)
  moreover have "Suc v mod 2 ^ Suc i = 2 ^ i * (Suc v div 2 ^ i mod 2) + Suc v mod 2 ^ i"
    using mod_mult2_eq [of "Suc v" "2 ^ i" 2] by (simp add: mult.commute)
  ultimately have "2 \<le> Suc v div 2 ^ i div 2" "Suc v div 2 ^ i mod 2 \<noteq> 0" using assms(1) by (auto simp: div_half simp del: power_Suc)
  then have "2 \<le> v div 2 ^ i - 2 - 2 * (Suc (v div 2 ^ i) div 2 - 2)"
    using stable_arith [of "v div 2 ^ i"] step_across [OF assms(1)] by metis
  then show ?thesis using step_across [OF assms(1)] assms(2)
    by (simp only: occ_def drp_def rcv_def div_half if_True flip: Suc_eq_plus1)
qed

lemma upCnt_eq:
  assumes "0 < i"
  shows "upCnt (int (Suc u)) i = int ((u + 2) div 2 ^ i) - 1"
proof -
  obtain k where i: "i = Suc k" using assms by (cases i) auto
  let ?P = "2 ^ i :: int"
  have six: "6 * 2 ^ (i - 1) = 3 * ?P" by (simp add: i)
  have "upCnt (int (Suc u)) i = - ((3 * ?P + (- (int u + 3))) div ?P) + 1"
    unfolding upCnt_def six by (simp add: algebra_simps)
  also have "\<dots> = - (3 + (- (int u + 3)) div ?P) + 1" by simp
  also have "(- (int u + 3)) div ?P = - ((int u + 2) div ?P) - 1"
  proof (rule int_div_pos_eq)
    show "- (int u + 3) = ?P * (- ((int u + 2) div ?P) - 1) + (?P - 1 - (int u + 2) mod ?P)"
      using mult_div_mod_eq [of ?P "int u + 2"] by (simp add: algebra_simps)
    have "0 \<le> (int u + 2) mod ?P" "(int u + 2) mod ?P < ?P" by simp_all
    then show "0 \<le> ?P - 1 - (int u + 2) mod ?P" "?P - 1 - (int u + 2) mod ?P < ?P" by linarith+
  qed
  finally show ?thesis by (simp add: zdiv_int add.commute)
qed


section \<open>One step of a level\<close>

abbreviation dat :: "deamortized \<Rightarrow> nat \<Rightarrow> nat \<Rightarrow> (string \<times> bytes) list" where
  "dat st j i \<equiv> d_data st ! j ! i"

definition shape :: "nat \<Rightarrow> deamortized \<Rightarrow> bool" where
  "shape l st \<longleftrightarrow> d_l st = l \<and> l \<le> 10 \<and> length (d_data st) = 4 \<and> (\<forall>j<4. length (d_data st ! j) = 10) \<and>
     length (d_cnt st) = l \<and> length (d_localmap st) = 10 \<and> length (d_keys st) = 4 \<and> (\<forall>j<4. length (d_keys st ! j) = l)"

definition iter_ok :: "denv \<Rightarrow> bool" where
  "iter_ok D \<longleftrightarrow> (\<forall>m. mset (d_iter D m) = mset m)"

lemma iter_length: "iter_ok D \<Longrightarrow> length (d_iter D m) = length m"
  unfolding iter_ok_def by (metis size_mset)

lemma at2_Inr: "j < length xss \<Longrightarrow> i < length (xss ! j) \<Longrightarrow> at2 xss j i = Inr (xss ! j ! i)"
  by (simp add: at2_def)

lemma shape_at2: "shape l st \<Longrightarrow> j < 4 \<Longrightarrow> i < 10 \<Longrightarrow> at2 (d_data st) j i = Inr (dat st j i)"
  by (simp add: shape_def at2_def)

lemma upd2_nth:
  "j < length xss \<Longrightarrow> i < length (xss ! j) \<Longrightarrow> upd2 xss j i x ! j' ! i' = (if j' = j \<and> i' = i then x else xss ! j' ! i')"
  by (auto simp: upd2_def nth_list_update)

lemma upd2_length [simp]: "length (upd2 xss j i x) = length xss"
  by (simp add: upd2_def)

lemma upd2_inner [simp]: "j' < length xss \<Longrightarrow> length (upd2 xss j i x ! j') = length (xss ! j')"
  by (cases "j' = j") (auto simp: upd2_def)

definition stream :: "denv \<Rightarrow> deamortized \<Rightarrow> nat \<Rightarrow> bytes list" where
  "stream D st i = map snd (d_iter D (dat st 0 (i - 1)) @ d_iter D (dat st 1 (i - 1)))"

text \<open>What \<open>level_step\<close> does once the new instance is full.\<close>

definition finish_level :: "denv \<Rightarrow> bool \<Rightarrow> nat \<Rightarrow> string \<Rightarrow> deamortized \<Rightarrow> deamortized res" where
  "finish_level D su i kw st =
     ebind (shift_below su i kw (upCnt (d_updateCounter st) i) st) (\<lambda>st.
     ebind (copy_key 0 2 (i - 1) st) (\<lambda>st.
     ebind (promote i (st\<lparr>d_cnt := (d_cnt st)[i := 0]\<rparr>)) (fresh_key D i)))"

lemma local_levels: "shape l st \<Longrightarrow> i < l \<Longrightarrow> i < localSize \<and> i \<le> localSize \<and> \<not> localSize \<le> i \<and> \<not> localSize < i \<and> i - 1 < 10 \<and> i < 10"
  by (auto simp: shape_def localSize_def)

lemma level_step_idle:
  assumes "shape l st" "i < l" "dat st 0 (i - 1) = [] \<or> dat st 1 (i - 1) = []"
  shows "level_step D su i st = Inr st"
proof -
  have "is_full_pair i st = Inr False"
    using assms local_levels [OF assms(1,2)] shape_at2 [OF assms(1)] by (auto simp: is_full_pair_def)
  then show ?thesis by (simp add: level_step_def)
qed

lemma next_element_eq:
  assumes "shape l st" "0 < i" "i < l" "iter_ok D" "length (dat st 0 (i - 1)) = 2 ^ (i - 1)" "length (dat st 1 (i - 1)) = 2 ^ (i - 1)"
    "d_cnt st ! i < 2 ^ i"
  shows "next_element D i st = Inr (stream D st i ! (d_cnt st ! i))"
proof -
  let ?c = "d_cnt st ! i" and ?h = "2 ^ (i - 1) :: nat"
  have two: "(2::nat) ^ i = ?h + ?h" using assms(2) by (cases i) auto
  note lv = local_levels [OF assms(1,3)]
  have a: "at2 (d_data st) j (i - 1) = Inr (dat st j (i - 1))" if "j < 4" for j using shape_at2 [OF assms(1)] that lv by blast
  show ?thesis
  proof (cases "?c < ?h")
    case True
    then show ?thesis using a lv assms(4,5) iter_length [OF assms(4)]
      by (simp add: next_element_def getElementAt_def Let_def stream_def nth_append)
  next
    case False
    then have "?c mod ?h = ?c - ?h" using assms(7) two by (simp add: mod_if)
    moreover have "?c - ?h < ?h" using assms(7) two False by linarith
    ultimately show ?thesis using False a lv assms two iter_length [OF assms(4)]
      by (simp add: next_element_def getElementAt_def Let_def stream_def nth_append)
  qed
qed

lemma bump_counter_local:
  assumes "i < localSize" "bump_text (lookup_text (kw @ ''-'' @ to_string up) (d_localmap st ! i)) = Inr c"
  shows "bump_counter D su i kw up st =
    Inr (c, st\<lparr>d_localmap := (d_localmap st)[i := AList.update (kw @ ''-'' @ to_string up) c (d_localmap st ! i)]\<rparr>)"
  using assms by (simp add: bump_counter_def Let_def)

lemma level_step_ready:
  assumes sh: "shape l st" and i: "0 < i" "i < l" and D: "iter_ok D"
    and full: "length (dat st 0 (i - 1)) = 2 ^ (i - 1)" "length (dat st 1 (i - 1)) = 2 ^ (i - 1)"
    and c: "d_cnt st ! i < 2 ^ i" and x: "stream D st i ! (d_cnt st ! i) = x" "array_str x = Inr kw"
    and up: "upCnt (d_updateCounter st) i = up"
    and bump: "bump_text (lookup_text (kw @ ''-'' @ to_string up) (d_localmap st ! i)) = Inr ct"
    and st1: "st1 = st\<lparr>d_cnt := (d_cnt st)[i := d_cnt st ! i + 1],
      d_localmap := (d_localmap st)[i := AList.update (kw @ ''-'' @ to_string up) ct (d_localmap st ! i)],
      d_data := upd2 (d_data st) 3 i (AList.update (kw @ ''-'' @ ct) x (dat st 3 i))\<rparr>"
  shows "level_step D su i st =
     (if length (AList.update (kw @ ''-'' @ ct) x (dat st 3 i)) = 2 ^ i then finish_level D su i kw st1 else Inr st1)"
    "shape l st1"
proof -
  note lv = local_levels [OF sh i(2)]
  have ne: "dat st 0 (i - 1) \<noteq> []" "dat st 1 (i - 1) \<noteq> []" using full by (metis length_0_conv power_not_zero zero_neq_numeral)+
  have ready: "is_full_pair i st = Inr True"
    using ne lv shape_at2 [OF sh] by (simp add: is_full_pair_def)
  have nx: "next_element D i st = Inr x" using next_element_eq [OF sh i D full c] x(1) by simp
  let ?st = "st\<lparr>d_cnt := (d_cnt st)[i := d_cnt st ! i + 1]\<rparr>"
  let ?lm = "(d_localmap st)[i := AList.update (kw @ ''-'' @ to_string up) ct (d_localmap st ! i)]"
  have b: "bump_counter D su i kw up ?st = Inr (ct, ?st\<lparr>d_localmap := ?lm\<rparr>)"
    using bump_counter_local [of i kw up ?st ct D su] lv bump by simp
  have a: "at2 (d_data st) 3 i = Inr (dat st 3 i)" using shape_at2 [OF sh] lv by simp
  have add: "add_element D i kw ct x (?st\<lparr>d_localmap := ?lm\<rparr>) = Inr st1"
    using a lv st1 by (simp add: add_element_def)
  show sh1: "shape l st1" using sh st1 by (auto simp: shape_def)
  have "dat st1 3 i = AList.update (kw @ ''-'' @ ct) x (dat st 3 i)"
    using st1 sh lv by (simp add: upd2_nth shape_def)
  then have fl: "new_is_full i st1 = Inr (length (AList.update (kw @ ''-'' @ ct) x (dat st 3 i)) = 2 ^ i)"
    using shape_at2 [OF sh1, of 3 i] lv by (simp add: new_is_full_def)
  have "d_updateCounter st1 = d_updateCounter st" using st1 by simp
  then show "level_step D su i st =
     (if length (AList.update (kw @ ''-'' @ ct) x (dat st 3 i)) = 2 ^ i then finish_level D su i kw st1 else Inr st1)"
    using ready nx x(2) b add fl up by (simp add: level_step_def finish_level_def Let_def)
qed


lemma put2_Inr: "j < length xss \<Longrightarrow> i < length (xss ! j) \<Longrightarrow> put2 j i x xss = Inr (upd2 xss j i x)"
  by (simp add: put2_def at2_Inr)

lemma copy_key_eq:
  assumes "shape l st" "tj < 4" "fj < 4" "i < l"
  shows "\<exists>ks. copy_key tj fj i st = Inr (st\<lparr>d_keys := ks\<rparr>) \<and> length ks = 4 \<and> (\<forall>j<4. length (ks ! j) = l)"
  using assms by (intro exI [of _ "upd2 (d_keys st) tj i (d_keys st ! fj ! i)"])
    (simp add: copy_key_def shape_def at2_Inr put2_Inr)

lemma copy_instance: "distinct (map fst m) \<Longrightarrow> um_insert_range m [] = m"
  using um_insert_range_fresh [of m "[]"] by simp

lemma shift_below_eq:
  assumes sh: "shape l st" and i: "0 < i" "i < l" and d: "distinct (map fst (dat st 2 (i - 1)))"
  shows "shift_below su i kw up st =
    Inr (st\<lparr>d_localmap := (d_localmap st)[i := AList.delete (kw @ ''-'' @ to_string up) (d_localmap st ! i)],
            d_data := upd2 (upd2 (upd2 (d_data st) 0 (i - 1) (dat st 2 (i - 1))) 1 (i - 1) []) 2 (i - 1) []\<rparr>)"
proof -
  note lv = local_levels [OF sh i(2)]
  have len: "length (d_data st) = 4" "\<And>j. j < 4 \<Longrightarrow> length (d_data st ! j) = 10" using sh by (simp_all add: shape_def)
  show ?thesis using lv len copy_instance [OF d]
    by (simp add: shift_below_def Let_def at2_Inr put2_Inr)
qed

lemma promote_eq:
  assumes sh: "shape l st" and i: "i < l" and j: "j < 3" "\<forall>k<j. dat st k i \<noteq> []" "dat st j i = []"
    and d: "distinct (map fst (dat st 3 i))"
  shows "\<exists>ks. promote i st = Inr (st\<lparr>d_data := upd2 (upd2 (d_data st) j i (dat st 3 i)) 3 i [], d_keys := ks\<rparr>) \<and>
    length ks = 4 \<and> (\<forall>j<4. length (ks ! j) = l)"
proof -
  note lv = local_levels [OF sh i]
  have len: "length (d_data st) = 4" "\<And>j. j < 4 \<Longrightarrow> length (d_data st ! j) = 10" using sh by (simp_all add: shape_def)
  have free: "is_free k i st = Inr (dat st k i = [])" if "k < 4" for k
    using that lv shape_at2 [OF sh that, of i] by (simp add: is_free_def)
  have "promote i st = promote_to j i st"
  proof -
    have "j = 0 \<or> j = 1 \<or> j = 2" using j(1) by auto
    then show ?thesis using j free [of 0] free [of 1] free [of 2] by (auto simp: promote_def)
  qed
  moreover have "shape l (st\<lparr>d_data := upd2 (upd2 (d_data st) j i (dat st 3 i)) 3 i []\<rparr>)"
    using sh by (simp add: shape_def)
  then obtain ks where "copy_key j 3 i (st\<lparr>d_data := upd2 (upd2 (d_data st) j i (dat st 3 i)) 3 i []\<rparr>) =
      Inr (st\<lparr>d_data := upd2 (upd2 (d_data st) j i (dat st 3 i)) 3 i [], d_keys := ks\<rparr>)"
      "length ks = 4" "\<forall>j<4. length (ks ! j) = l"
    using copy_key_eq [where tj = j and fj = 3 and i = i] j(1) i by fastforce
  ultimately show ?thesis using lv len j(1) copy_instance [OF d]
    by (intro exI [of _ ks]) (simp add: promote_to_def at2_Inr put2_Inr)
qed

lemma upd2_three:
  assumes "length xss = 4" "\<forall>j<4. length (xss ! j) = 10" "p < 10"
  shows "upd2 (upd2 (upd2 xss 0 p a) 1 p b) 2 p c ! j' ! i' =
    (if i' = p \<and> j' = 0 then a else if i' = p \<and> j' = 1 then b else if i' = p \<and> j' = 2 then c else xss ! j' ! i')"
proof -
  let ?x1 = "upd2 xss 0 p a"
  let ?x2 = "upd2 ?x1 1 p b"
  have l: "0 < length xss" "p < length (xss ! 0)" "1 < length ?x1" "p < length (?x1 ! 1)" "2 < length ?x2" "p < length (?x2 ! 2)"
    using assms by (simp_all del: One_nat_def)
  have "upd2 ?x2 2 p c ! j' ! i' = (if j' = 2 \<and> i' = p then c else ?x2 ! j' ! i')" by (rule upd2_nth [OF l(5,6)])
  moreover have "?x2 ! j' ! i' = (if j' = 1 \<and> i' = p then b else ?x1 ! j' ! i')" by (rule upd2_nth [OF l(3,4)])
  moreover have "?x1 ! j' ! i' = (if j' = 0 \<and> i' = p then a else xss ! j' ! i')" by (rule upd2_nth [OF l(1,2)])
  ultimately show ?thesis by (cases "i' = p"; cases "j' = 2"; cases "j' = 1"; cases "j' = 0"; simp only: simp_thms if_True if_False)
qed

lemma upd2_two:
  assumes "length xss = 4" "\<forall>j<4. length (xss ! j) = 10" "i < 10" "j < 3"
  shows "upd2 (upd2 xss j i a) 3 i b ! j' ! i' =
    (if i' = i \<and> j' = 3 then b else if i' = i \<and> j' = j then a else xss ! j' ! i')"
proof -
  let ?x1 = "upd2 xss j i a"
  have l: "j < length xss" "i < length (xss ! j)" "3 < length ?x1" "i < length (?x1 ! 3)" using assms by simp_all
  have "upd2 ?x1 3 i b ! j' ! i' = (if j' = 3 \<and> i' = i then b else ?x1 ! j' ! i')" by (rule upd2_nth [OF l(3,4)])
  moreover have "?x1 ! j' ! i' = (if j' = j \<and> i' = i then a else xss ! j' ! i')" by (rule upd2_nth [OF l(1,2)])
  ultimately show ?thesis by (cases "i' = i"; cases "j' = 3"; simp only: simp_thms if_True if_False)
qed

lemma finish_level_eq:
  assumes sh: "shape l st" and i: "0 < i" "i < l" and j: "j < 3" "\<forall>k<j. dat st k i \<noteq> []" "dat st j i = []"
    and d: "distinct (map fst (dat st 2 (i - 1)))" "distinct (map fst (dat st 3 i))"
  obtains st' where "finish_level D su i kw st = Inr st'" "shape l st'" "d_updateCounter st' = d_updateCounter st"
    "d_cnt st' = (d_cnt st)[i := 0]"
    "d_localmap st' = (d_localmap st)[i := AList.delete (kw @ ''-'' @ to_string (upCnt (d_updateCounter st) i)) (d_localmap st ! i)]"
    "\<And>j' i'. dat st' j' i' =
       (if i' = i - 1 \<and> j' = 0 then dat st 2 (i - 1) else if i' = i - 1 \<and> (j' = 1 \<or> j' = 2) then []
        else if i' = i \<and> j' = j then dat st 3 i else if i' = i \<and> j' = 3 then [] else dat st j' i')"
proof -
  note lv = local_levels [OF sh i(2)]
  have len: "length (d_data st) = 4" "\<And>j. j < 4 \<Longrightarrow> length (d_data st ! j) = 10" using sh by (simp_all add: shape_def)
  let ?lm = "(d_localmap st)[i := AList.delete (kw @ ''-'' @ to_string (upCnt (d_updateCounter st) i)) (d_localmap st ! i)]"
  obtain d1 where d1_def: "d1 = upd2 (upd2 (upd2 (d_data st) 0 (i - 1) (dat st 2 (i - 1))) 1 (i - 1) []) 2 (i - 1) []" by blast
  let ?st1 = "st\<lparr>d_localmap := ?lm, d_data := d1\<rparr>"
  have s1: "shift_below su i kw (upCnt (d_updateCounter st) i) st = Inr ?st1"
    unfolding d1_def by (rule shift_below_eq [OF sh i d(1)])
  have ld: "length d1 = 4" "\<forall>j<4. length (d1 ! j) = 10" using len by (simp_all add: d1_def del: One_nat_def)
  have sh1: "shape l ?st1" using sh ld by (simp add: shape_def)
  then obtain ks1 where k1: "copy_key 0 2 (i - 1) ?st1 = Inr (?st1\<lparr>d_keys := ks1\<rparr>)" "length ks1 = 4" "\<forall>j<4. length (ks1 ! j) = l"
  proof -
    have "i - 1 < l" using i by linarith
    then have "\<exists>ks. copy_key 0 2 (i - 1) ?st1 = Inr (?st1\<lparr>d_keys := ks\<rparr>) \<and> length ks = 4 \<and> (\<forall>j<4. length (ks ! j) = l)"
      by (intro copy_key_eq [OF sh1]) simp_all
    then show ?thesis using that by blast
  qed
  let ?st2 = "?st1\<lparr>d_keys := ks1, d_cnt := (d_cnt st)[i := 0]\<rparr>"
  have sh2: "shape l ?st2" using sh ld k1 by (simp add: shape_def)
  have d1: "d1 ! j' ! i' = (if i' = i - 1 \<and> j' = 0 then dat st 2 (i - 1) else if i' = i - 1 \<and> (j' = 1 \<or> j' = 2) then [] else dat st j' i')" for j' i'
  proof -
    have "\<forall>j<4. length (d_data st ! j) = 10" "i - 1 < 10" using len lv by blast+
    note t = upd2_three [OF len(1) this]
    show ?thesis unfolding d1_def t by auto
  qed
  have ni: "i \<noteq> i - 1" using i(1) by simp
  obtain ks2 where p: "promote i ?st2 = Inr (?st2\<lparr>d_data := upd2 (upd2 d1 j i (d1 ! 3 ! i)) 3 i [], d_keys := ks2\<rparr>)"
    "length ks2 = 4" "\<forall>j<4. length (ks2 ! j) = l"
    using promote_eq [OF sh2 i(2) j(1)] j d1 ni d(2) by auto
  let ?st3 = "?st2\<lparr>d_data := upd2 (upd2 d1 j i (d1 ! 3 ! i)) 3 i [], d_keys := ks2\<rparr>"
  have "fresh_key D i ?st3 = Inr ?st3" using lv by (simp add: fresh_key_def)
  then have "finish_level D su i kw st = Inr ?st3" using s1 k1 p by (simp add: finish_level_def)
  moreover have "shape l ?st3" using sh ld p(2,3) by (simp add: shape_def)
  moreover have "dat ?st3 j' i' =
       (if i' = i - 1 \<and> j' = 0 then dat st 2 (i - 1) else if i' = i - 1 \<and> (j' = 1 \<or> j' = 2) then []
        else if i' = i \<and> j' = j then dat st 3 i else if i' = i \<and> j' = 3 then [] else dat st j' i')" for j' i'
  proof -
    have il: "i < 10" using lv by blast
    have "dat ?st3 j' i' = (if i' = i \<and> j' = 3 then [] else if i' = i \<and> j' = j then d1 ! 3 ! i else d1 ! j' ! i')"
      using upd2_two [OF ld il j(1)] by simp
    then show ?thesis unfolding d1 using ni j(1) by auto
  qed
  ultimately show ?thesis by (intro that [of ?st3]) simp_all
qed


section \<open>The state of a level\<close>

text \<open>
  The first \<open>occ\<close> of the three instances are full; the instance under construction holds the records
  moved so far and the counters of \<open>localmap\<close> its number of entries of each keyword.
\<close>

definition ctext :: "nat \<Rightarrow> string" where
  "ctext n = (if n = 0 then [] else to_string (int n))"

definition level_ok :: "nat \<Rightarrow> nat \<Rightarrow> nat \<Rightarrow> nat \<Rightarrow> deamortized \<Rightarrow> bool" where
  "level_ok l k tr td st \<longleftrightarrow>
     (\<forall>j<3. inst_ok (dat st j k) \<and> length (dat st j k) = (if j < occ l k tr td then 2 ^ k else 0))"

definition counts_ok :: "nat \<Rightarrow> (string \<times> bytes) list \<Rightarrow> (string \<times> string) list \<Rightarrow> bool" where
  "counts_ok q m lm \<longleftrightarrow> (\<forall>kw n. 1 \<le> n \<longrightarrow> q \<le> n + 1 \<longrightarrow>
     lookup_text (dkey kw n) lm = (if n + 1 = q then ctext (length (kent kw m)) else []))"

definition build_ok :: "denv \<Rightarrow> nat \<Rightarrow> nat \<Rightarrow> deamortized \<Rightarrow> bool" where
  "build_ok D k v st \<longleftrightarrow> inst_ok (dat st 3 k) \<and> length (dat st 3 k) = prog k v \<and> d_cnt st ! k = prog k v \<and>
     mset (map snd (dat st 3 k)) = mset (take (prog k v) (stream D st k)) \<and>
     counts_ok (v div 2 ^ k) (dat st 3 k) (d_localmap st ! k)"

lemma level_ok_cong:
  "(\<And>j. j < 3 \<Longrightarrow> dat st' j k = dat st j k) \<Longrightarrow> occ l k tr' td' = occ l k tr td \<Longrightarrow>
   level_ok l k tr' td' st' = level_ok l k tr td st"
  by (simp add: level_ok_def)

lemma build_ok_cong:
  "dat st' 3 k = dat st 3 k \<Longrightarrow> dat st' 0 (k - 1) = dat st 0 (k - 1) \<Longrightarrow> dat st' 1 (k - 1) = dat st 1 (k - 1) \<Longrightarrow>
   d_cnt st' ! k = d_cnt st ! k \<Longrightarrow> d_localmap st' ! k = d_localmap st ! k \<Longrightarrow> build_ok D k v st' = build_ok D k v st"
  by (simp add: build_ok_def stream_def)

lemma build_ok_empty:
  "build_ok D k v st \<Longrightarrow> prog k v = 0 \<Longrightarrow> dat st' 3 k = dat st 3 k \<Longrightarrow>
   d_cnt st' ! k = d_cnt st ! k \<Longrightarrow> d_localmap st' ! k = d_localmap st ! k \<Longrightarrow> build_ok D k v st'"
  by (simp add: build_ok_def [of D k v]) (auto)

lemma bump_ctext: "int32 (int n + 1) \<Longrightarrow> bump_text (ctext n) = Inr (to_string (int (Suc n)))"
proof (cases "n = 0")
  case True
  have "to_string 1 = ''1''" by code_simp
  then show ?thesis using True by (simp add: bump_text_def ctext_def)
next
  case False
  assume "int32 (int n + 1)"
  then have "int32 (int n)" by (simp add: int32_def)
  moreover have "to_string (int n) \<noteq> []" by (simp add: to_string_def)
  ultimately show ?thesis using False stoi_to_string [of "int n"] by (simp add: bump_text_def ctext_def add.commute)
qed

lemma counts_step:
  assumes "counts_ok q m lm" "2 \<le> q" "kw_of (take 15 x) = kw"
  shows "counts_ok q (m @ [(k, x)]) (AList.update (dkey kw (q - 1)) (to_string (int (Suc (length (kent kw m))))) lm)"
proof -
  obtain p where q: "q = Suc p" using assms(2) by (cases q) auto
  show ?thesis unfolding counts_ok_def
  proof (intro allI impI)
    fix kw' n assume n: "1 \<le> n" "q \<le> n + 1"
    have "lookup_text (dkey kw' n) lm = (if n + 1 = q then ctext (length (kent kw' m)) else [])"
      using assms(1) n by (simp add: counts_ok_def)
    then show "lookup_text (dkey kw' n) (AList.update (dkey kw (q - 1)) (to_string (int (Suc (length (kent kw m))))) lm) =
        (if n + 1 = q then ctext (length (kent kw' (m @ [(k, x)]))) else [])"
      using assms(3) by (auto simp: q lookup_text_def update_conv ctext_def kent_def add.commute [of 1])
  qed
qed

lemma counts_delete: "counts_ok q m lm \<Longrightarrow> 2 \<le> q \<Longrightarrow> counts_ok (Suc q) [] (AList.delete (dkey kw (q - 1)) lm)"
  by (cases q) (auto simp: counts_ok_def lookup_text_def delete_conv ctext_def kent_def)

lemma rebuild_number:
  assumes "0 < i" "2 \<le> v div 2 ^ i"
  shows "upCnt (int (v - 1)) i = int (v div 2 ^ i - 1)"
proof -
  have "v div 2 ^ i \<le> v" by simp
  then have "2 \<le> v" using assms(2) by linarith
  then show ?thesis
    using upCnt_eq [OF assms(1), of "v - 2"] assms(2) by (simp add: of_nat_diff Suc_diff_Suc numeral_2_eq_2)
qed

lemma stream_facts:
  assumes D: "iter_ok D" and L: "level_ok l (i - 1) tr td st" "2 \<le> occ l (i - 1) tr td" and i: "0 < i"
  shows "length (dat st 0 (i - 1)) = 2 ^ (i - 1)" "length (dat st 1 (i - 1)) = 2 ^ (i - 1)" "length (stream D st i) = 2 ^ i"
    "x \<in> set (stream D st i) \<Longrightarrow> \<exists>kw. vrec kw x"
    "mset (stream D st i) = mset (map snd (dat st 0 (i - 1))) + mset (map snd (dat st 1 (i - 1)))"
proof -
  have m: "inst_ok (dat st j (i - 1)) \<and> length (dat st j (i - 1)) = 2 ^ (i - 1)" if "j < 2" for j
    using L that by (simp add: level_ok_def)
  show l: "length (dat st 0 (i - 1)) = 2 ^ (i - 1)" "length (dat st 1 (i - 1)) = 2 ^ (i - 1)" using m [of 0] m [of 1] by simp_all
  show "length (stream D st i) = 2 ^ i"
    using i l by (cases i) (simp_all add: stream_def iter_length [OF D])
  have p: "mset (d_iter D x) = mset x" for x using D by (simp add: iter_ok_def)
  then show e: "mset (stream D st i) = mset (map snd (dat st 0 (i - 1))) + mset (map snd (dat st 1 (i - 1)))"
    by (simp add: stream_def)
  assume "x \<in> set (stream D st i)"
  then have "x \<in> set (map snd (dat st 0 (i - 1))) \<union> set (map snd (dat st 1 (i - 1)))"
    using mset_eq_setD [of "stream D st i" "map snd (dat st 0 (i - 1)) @ map snd (dat st 1 (i - 1))"] e by simp
  then show "\<exists>kw. vrec kw x" using m [of 0] m [of 1] by (fastforce simp: inst_ok_def)
qed

text \<open>One record is moved from the two full instances below into the instance under construction.\<close>

lemma build_step:
  assumes sh: "shape l st" and i: "0 < i" "i < l" and D: "iter_ok D" and L: "level_ok l (i - 1) v v st"
    and B: "build_ok D i v st" and q: "2 \<le> v div 2 ^ i" and u: "d_updateCounter st = int (v - 1)"
  obtains kw st1 m lm where
    "level_step D su i st = (if Suc (v mod 2 ^ i) = 2 ^ i then finish_level D su i kw st1 else Inr st1)"
    "shape l st1" "d_updateCounter st1 = d_updateCounter st"
    "\<And>j k. dat st1 j k = (if j = 3 \<and> k = i then m else dat st j k)" "inst_ok m" "length m = Suc (v mod 2 ^ i)"
    "mset (map snd m) = mset (take (Suc (v mod 2 ^ i)) (stream D st i))"
    "d_cnt st1 = (d_cnt st)[i := Suc (v mod 2 ^ i)]" "d_localmap st1 = (d_localmap st)[i := lm]"
    "counts_ok (v div 2 ^ i) m lm"
proof -
  let ?c = "v mod 2 ^ i" and ?q = "v div 2 ^ i"
  have o: "2 \<le> occ l (i - 1) v v" using occ_ready [OF i, of v] q by simp
  note s = stream_facts [OF D L o i(1)]
  have c: "prog i v = ?c" using q by (simp add: prog_def)
  have cl: "?c < 2 ^ i" by simp
  have B': "inst_ok (dat st 3 i)" "length (dat st 3 i) = ?c" "d_cnt st ! i = ?c"
    "mset (map snd (dat st 3 i)) = mset (take ?c (stream D st i))" "counts_ok ?q (dat st 3 i) (d_localmap st ! i)"
    using B c by (simp_all add: build_ok_def)
  obtain x where x: "stream D st i ! ?c = x" by blast
  then have "x \<in> set (stream D st i)" using s(3) cl nth_mem by metis
  then obtain kw where kw: "vrec kw x" using s(4) by blast
  note kx = vrec_array_str [OF kw]
  let ?n = "length (kent kw (dat st 3 i))"
  have "?n \<le> ?c" using B'(2) by (simp add: kent_def flip: B'(2))
  moreover have "(2::nat) ^ i \<le> 1024"
    using power_increasing [of i 10 "2 :: nat"] sh i by (simp add: shape_def)
  ultimately have "?n < 1024" using cl by linarith
  then have n: "int32 (int ?n + 1)" by (simp add: int32_def)
  have up: "upCnt (d_updateCounter st) i = int (?q - 1)" unfolding u by (rule rebuild_number [OF i(1) q])
  let ?ct = "to_string (int (Suc ?n))"
  have ck: "lookup_text (dkey kw (?q - 1)) (d_localmap st ! i) = ctext ?n"
    using B'(5) q by (simp add: counts_ok_def)
  let ?lm = "AList.update (dkey kw (?q - 1)) ?ct (d_localmap st ! i)"
  let ?m = "AList.update (dkey kw (Suc ?n)) x (dat st 3 i)"
  let ?st1 = "st\<lparr>d_cnt := (d_cnt st)[i := d_cnt st ! i + 1], d_localmap := (d_localmap st)[i := ?lm],
      d_data := upd2 (d_data st) 3 i ?m\<rparr>"
  have m: "?m = dat st 3 i @ [(dkey kw (Suc ?n), x)]" "inst_ok ?m"
    using inst_insert [OF B'(1) kw] by simp_all
  have step: "level_step D su i st = (if length ?m = 2 ^ i then finish_level D su i kw ?st1 else Inr ?st1)" "shape l ?st1"
    using level_step_ready [OF sh i D s(1,2), where x = x and kw = kw and up = "int (?q - 1)" and ct = ?ct and ?st1.0 = ?st1]
      B'(3) cl x kx up ck bump_ctext [OF n] by (simp_all add: dkey_def)
  have d1: "dat ?st1 j k = (if j = 3 \<and> k = i then ?m else dat st j k)" for j k
    using upd2_nth [of 3 "d_data st" i ?m j k] sh local_levels [OF sh i(2)] by (simp add: shape_def)
  have "take (Suc ?c) (stream D st i) = take ?c (stream D st i) @ [x]"
    using x s(3) cl by (simp add: take_Suc_conv_app_nth)
  then have vm: "mset (map snd ?m) = mset (take (Suc ?c) (stream D st i))" using B'(4) by (simp add: m(1))
  have cm: "counts_ok ?q ?m ?lm" unfolding m(1)
    using counts_step [OF B'(5) q] kx by simp
  show ?thesis
    by (rule that [of kw ?st1 ?m ?lm])
      (use step d1 m B' vm cm in simp_all)
qed


section \<open>One pass over the levels\<close>

text \<open>
  The state between two steps: the levels from \<open>i\<close> on have been served, level \<open>i - 1\<close> has given
  its records away but not received new ones.
\<close>

definition mid :: "nat \<Rightarrow> denv \<Rightarrow> nat \<Rightarrow> nat \<Rightarrow> deamortized \<Rightarrow> bool" where
  "mid l D v i st \<longleftrightarrow> shape l st \<and> d_updateCounter st = int (v - 1) \<and>
     (\<forall>k<l. level_ok l k (if i \<le> k then Suc v else v) (if i \<le> Suc k then Suc v else v) st) \<and>
     (\<forall>k<l. 0 < k \<longrightarrow> build_ok D k (if i \<le> k then Suc v else v) st) \<and>
     (\<forall>j<4. \<forall>k<10. l \<le> k \<longrightarrow> dat st j k = []) \<and> dat st 3 0 = []"

lemma midD:
  assumes "mid l D v i st"
  shows "shape l st" "d_updateCounter st = int (v - 1)"
    "k < l \<Longrightarrow> level_ok l k (if i \<le> k then Suc v else v) (if i \<le> Suc k then Suc v else v) st"
    "k < l \<Longrightarrow> 0 < k \<Longrightarrow> build_ok D k (if i \<le> k then Suc v else v) st"
    "j < 4 \<Longrightarrow> k < 10 \<Longrightarrow> l \<le> k \<Longrightarrow> dat st j k = []" "dat st 3 0 = []"
  using assms by (simp_all add: mid_def)

lemma mid_step:
  assumes M: "mid l D v (Suc i) st" and i: "0 < i" "i < l" and sh: "shape l st'"
    and u: "d_updateCounter st' = d_updateCounter st"
    and here: "level_ok l i (Suc v) (Suc v) st'" "level_ok l (i - 1) v (Suc v) st'" "build_ok D i (Suc v) st'"
    and frame: "\<And>j k. k \<noteq> i \<Longrightarrow> k \<noteq> i - 1 \<Longrightarrow> dat st' j k = dat st j k" "dat st' 3 (i - 1) = dat st 3 (i - 1)"
      "\<And>k. k \<noteq> i \<Longrightarrow> d_cnt st' ! k = d_cnt st ! k" "\<And>k. k \<noteq> i \<Longrightarrow> d_localmap st' ! k = d_localmap st ! k"
    and next_level: "Suc i < l \<Longrightarrow> prog (Suc i) (Suc v) \<noteq> 0 \<Longrightarrow> dat st' 0 i = dat st 0 i \<and> dat st' 1 i = dat st 1 i"
  shows "mid l D v i st'"
proof -
  note m = midD [OF M]
  have "level_ok l k (if i \<le> k then Suc v else v) (if i \<le> Suc k then Suc v else v) st'" if k: "k < l" for k
  proof -
    consider "k = i" | "k = i - 1" | "k \<noteq> i" "k \<noteq> i - 1" "(i \<le> k) = (Suc i \<le> k)" "(i \<le> Suc k) = (Suc i \<le> Suc k)"
      by linarith
    then show ?thesis
    proof cases
      case 3
      then have "\<And>j. dat st' j k = dat st j k" using frame(1) by blast
      then show ?thesis using m(3) [OF k] unfolding 3 by (simp add: level_ok_def)
    qed (use here i in auto)
  qed
  moreover have "build_ok D k (if i \<le> k then Suc v else v) st'" if k: "k < l" "0 < k" for k
  proof -
    consider "k = i" | "k = Suc i" | "k \<noteq> i" "k \<noteq> Suc i" "(i \<le> k) = (Suc i \<le> k)" by linarith
    then show ?thesis
    proof cases
      case 1
      then show ?thesis using here by simp
    next
      case 2
      have B: "build_ok D k (Suc v) st" using m(4) [OF k] 2 by simp
      have f: "dat st' 3 k = dat st 3 k" "d_cnt st' ! k = d_cnt st ! k" "d_localmap st' ! k = d_localmap st ! k"
        using frame 2 by simp_all
      have "build_ok D k (Suc v) st'"
      proof (cases "prog k (Suc v) = 0")
        case True
        then show ?thesis using build_ok_empty [OF B _ f] by simp
      next
        case False
        then have "dat st' 0 (k - 1) = dat st 0 (k - 1)" "dat st' 1 (k - 1) = dat st 1 (k - 1)"
          using next_level 2 k by simp_all
        then show ?thesis using build_ok_cong [OF f(1) _ _ f(2,3)] B by simp
      qed
      then show ?thesis using 2 by simp
    next
      case 3
      have f: "dat st' 3 k = dat st 3 k" using frame(1) [of k 3] frame(2) 3 by (cases "k = i - 1") auto
      have "k - 1 \<noteq> i" "k - 1 \<noteq> i - 1" using 3 k(2) by linarith+
      then have "dat st' 0 (k - 1) = dat st 0 (k - 1)" "dat st' 1 (k - 1) = dat st 1 (k - 1)" using frame(1) by blast+
      then have "build_ok D k w st' = build_ok D k w st" for w
        using build_ok_cong [OF f] frame(3) [OF 3(1)] frame(4) [OF 3(1)] by blast
      then show ?thesis using m(4) [OF k] unfolding 3(3) by simp
    qed
  qed
  moreover have "dat st' j k = []" if "j < 4" "k < 10" "l \<le> k" for j k
    using m(5) [OF that] frame(1) [of k j] that i by simp
  moreover have "dat st' 3 0 = []" using frame(1) [of 0 3] frame(2) m(6) i(1) by (cases "i = 1") auto
  ultimately show ?thesis using sh u m(2) by (simp add: mid_def)
qed

text \<open>The records of all instances but the new ones.\<close>

definition held :: "deamortized \<Rightarrow> nat \<Rightarrow> bytes multiset" where
  "held st k = mset (map snd (dat st 0 k)) + mset (map snd (dat st 1 k)) + mset (map snd (dat st 2 k))"

definition contents :: "deamortized \<Rightarrow> bytes multiset" where
  "contents st = (\<Sum>k<10. held st k)"

lemma held_cong: "(\<And>j. j < 3 \<Longrightarrow> dat st' j k = dat st j k) \<Longrightarrow> held st' k = held st k"
  by (simp add: held_def)

lemma contents_cong: "(\<And>j k. j < 3 \<Longrightarrow> k < 10 \<Longrightarrow> dat st' j k = dat st j k) \<Longrightarrow> contents st' = contents st"
  unfolding contents_def by (intro sum.cong) (auto intro: held_cong)

lemma contents_two:
  assumes "\<And>k. k \<noteq> a \<Longrightarrow> k \<noteq> b \<Longrightarrow> held st' k = held st k" "a < 10" "b < 10" "a \<noteq> b"
    "held st' a + held st' b = held st a + held st b"
  shows "contents st' = contents st"
proof -
  have "sum f {..<10} = (f a + f b) + sum f ({..<10} - {a} - {b})" for f :: "nat \<Rightarrow> bytes multiset"
    using assms(2-4) by (simp add: sum.remove [of "{..<10}" a f] sum.remove [of "{..<10} - {a}" b f] add.assoc)
  moreover have "sum (held st') ({..<10} - {a} - {b}) = sum (held st) ({..<10} - {a} - {b})"
    using assms(1) by (intro sum.cong) auto
  ultimately show ?thesis unfolding contents_def by (simp only: assms(5))
qed

lemma occ_le3:
  assumes "v div 2 ^ (l - 1) \<le> 5" "k < l"
  shows "occ l k v v \<le> 3"
proof (cases "k + 1 < l")
  case True
  have "w - 2 - 2 * (w div 2 - 2) \<le> 3" for w :: nat by linarith
  then show ?thesis using True by (simp add: occ_def drp_def rcv_def div_half del: power_Suc)
next
  case False
  then have k: "k = l - 1" using assms(2) by simp
  have "v div 2 ^ (l - 1) - 2 \<le> 3" using assms(1) by linarith
  then show ?thesis using False k by (simp add: occ_def drp_def rcv_def)
qed

lemma drop_two: "0 < i \<Longrightarrow> i < l \<Longrightarrow> rcv i (Suc v) = Suc (rcv i v) \<Longrightarrow> occ l (i - 1) v (Suc v) = occ l (i - 1) v v - 2"
  by (simp add: occ_def drp_def)

lemma drop_none: "0 < i \<Longrightarrow> i < l \<Longrightarrow> rcv i (Suc v) = rcv i v \<Longrightarrow> occ l (i - 1) v (Suc v) = occ l (i - 1) v v"
  by (simp add: occ_def drp_def)

lemma receive_none: "rcv i (Suc v) = rcv i v \<Longrightarrow> occ l i (Suc v) (Suc v) = occ l i v (Suc v)"
  by (simp add: occ_def)

lemma mid_below:
  assumes "mid l D v (Suc i) st" "0 < i" "i < l"
  shows "level_ok l (i - 1) v v st" "level_ok l i v (Suc v) st" "build_ok D i v st"
proof -
  note m = midD [OF assms(1)]
  have "\<not> Suc i \<le> i - 1" "\<not> Suc i \<le> Suc (i - 1)" using assms(2) by linarith+
  then show "level_ok l (i - 1) v v st" using m(3) [of "i - 1"] assms(2,3) by (simp split: if_splits)
  show "level_ok l i v (Suc v) st" using m(3) [of i] assms(3) by simp
  show "build_ok D i v st" using m(4) [of i] assms(2,3) by simp
qed

lemma step_idle:
  assumes M: "mid l D v (Suc i) st" and i: "0 < i" "i < l" and q: "v div 2 ^ i < 2"
  shows "level_step D su i st = Inr st" "mid l D v i st"
proof -
  note b = mid_below [OF M i]
  note n = not_ready_step [OF q]
  have "\<not> 2 \<le> occ l (i - 1) v v" using occ_ready [OF i, of v] q by simp
  then have "length (dat st 1 (i - 1)) = 0" using b(1) by (simp add: level_ok_def)
  then show "level_step D su i st = Inr st" using level_step_idle [OF midD(1) [OF M] i(2)] by simp
  have p: "prog i v = 0" using q by (simp add: prog_def)
  have c: "counts_ok (v div 2 ^ i) (dat st 3 i) (d_localmap st ! i)" "dat st 3 i = []"
    using b(3) p unfolding build_ok_def by auto
  have "v div 2 ^ i \<le> Suc v div 2 ^ i" by (intro div_le_mono) simp
  then have "counts_ok (Suc v div 2 ^ i) [] (d_localmap st ! i)"
    using c q by (auto simp: counts_ok_def kent_def ctext_def split: if_splits)
  then have "build_ok D i (Suc v) st" using b(3) c(2) n(2) p by (simp add: build_ok_def)
  moreover have "level_ok l i (Suc v) (Suc v) st" "level_ok l (i - 1) v (Suc v) st"
    using b receive_none [OF n(1)] drop_none [OF i n(1)] by (simp_all add: level_ok_def)
  ultimately show "mid l D v i st" by (intro mid_step [OF M i midD(1) [OF M]]) simp_all
qed

lemma step_partial:
  assumes M: "mid l D v (Suc i) st" and i: "0 < i" "i < l" and D: "iter_ok D"
    and q: "2 \<le> v div 2 ^ i" "Suc v mod 2 ^ i \<noteq> 0"
  obtains st' where "level_step D su i st = Inr st'" "mid l D v i st'" "contents st' = contents st"
proof -
  note b = mid_below [OF M i]
  note n = ready_partial [OF q]
  obtain kw st1 m lm where s: "level_step D su i st = (if Suc (v mod 2 ^ i) = 2 ^ i then finish_level D su i kw st1 else Inr st1)"
    "shape l st1" "d_updateCounter st1 = d_updateCounter st" and
    d: "\<And>j k. dat st1 j k = (if j = 3 \<and> k = i then m else dat st j k)" and m: "inst_ok m" "length m = Suc (v mod 2 ^ i)"
    "mset (map snd m) = mset (take (Suc (v mod 2 ^ i)) (stream D st i))" and
    f: "d_cnt st1 = (d_cnt st)[i := Suc (v mod 2 ^ i)]" "d_localmap st1 = (d_localmap st)[i := lm]"
    and c: "counts_ok (v div 2 ^ i) m lm"
    by (rule build_step [OF midD(1) [OF M] i D b(1,3) q(1) midD(2) [OF M], of su], rule that)
  have len: "i < length (d_cnt st)" "i < length (d_localmap st)"
    using midD(1) [OF M] i by (auto simp: shape_def)
  have "stream D st1 i = stream D st i" using d by (simp add: stream_def)
  then have "build_ok D i (Suc v) st1" using d m f c n len by (simp add: build_ok_def)
  moreover have "level_ok l i (Suc v) (Suc v) st1" "level_ok l (i - 1) v (Suc v) st1"
    using b d receive_none [OF n(1)] drop_none [OF i n(1)] by (simp_all add: level_ok_def)
  ultimately have "mid l D v i st1"
    using i by (intro mid_step [OF M i s(2,3)]) (auto simp: d f)
  moreover have "contents st1 = contents st" using d by (intro contents_cong) simp
  ultimately show ?thesis using s(1) n(4) by (intro that [of st1]) simp_all
qed

lemma step_full:
  assumes M: "mid l D v (Suc i) st" and i: "0 < i" "i < l" and D: "iter_ok D"
    and q: "2 \<le> v div 2 ^ i" "Suc v mod 2 ^ i = 0" and v: "Suc v div 2 ^ (l - 1) \<le> 5"
  obtains st' where "level_step D su i st = Inr st'" "mid l D v i st'" "contents st' = contents st"
proof -
  note b = mid_below [OF M i]
  note n = ready_full [OF q]
  let ?j = "occ l i v (Suc v)" and ?a = "occ l (i - 1) v v"
  note o = occ_room [OF q v i(2)]
  have "v div 2 ^ (l - 1) \<le> Suc v div 2 ^ (l - 1)" by (intro div_le_mono) simp
  then have "?a \<le> 3" using v i by (intro occ_le3) linarith+
  then have a: "2 \<le> ?a" "?a \<le> 3" using occ_ready [OF i, of v] q(1) by auto
  note sf = stream_facts [OF D b(1) a(1) i(1)]
  obtain kw st1 m lm where s: "level_step D su i st = (if Suc (v mod 2 ^ i) = 2 ^ i then finish_level D su i kw st1 else Inr st1)"
    "shape l st1" "d_updateCounter st1 = d_updateCounter st" and
    d: "\<And>j k. dat st1 j k = (if j = 3 \<and> k = i then m else dat st j k)" and m: "inst_ok m" "length m = Suc (v mod 2 ^ i)"
    "mset (map snd m) = mset (take (Suc (v mod 2 ^ i)) (stream D st i))" and
    f: "d_cnt st1 = (d_cnt st)[i := Suc (v mod 2 ^ i)]" "d_localmap st1 = (d_localmap st)[i := lm]"
    and c: "counts_ok (v div 2 ^ i) m lm"
    by (rule build_step [OF midD(1) [OF M] i D b(1,3) q(1) midD(2) [OF M], of su], rule that)
  have L: "inst_ok (dat st j i)" "length (dat st j i) = (if j < ?j then 2 ^ i else 0)" if "j < 3" for j
    using b(2) that by (simp_all add: level_ok_def)
  have L2: "inst_ok (dat st 2 (i - 1))" "length (dat st 2 (i - 1)) = (if 2 < ?a then 2 ^ (i - 1) else 0)"
    using b(1) by (simp_all add: level_ok_def)
  have free: "\<forall>k<?j. dat st1 k i \<noteq> []" "dat st1 ?j i = []"
    using L o(1) by (auto simp: d simp flip: length_0_conv)
  have dist: "distinct (map fst (dat st1 2 (i - 1)))" "distinct (map fst (dat st1 3 i))"
    using L2 m(1) by (simp_all add: d inst_ok_def)
  obtain st' where e: "finish_level D su i kw st1 = Inr st'" "shape l st'" "d_updateCounter st' = d_updateCounter st1"
    "d_cnt st' = (d_cnt st1)[i := 0]"
    "d_localmap st' = (d_localmap st1)[i := AList.delete (kw @ ''-'' @ to_string (upCnt (d_updateCounter st1) i)) (d_localmap st1 ! i)]" and
    g: "\<And>j' i'. dat st' j' i' =
       (if i' = i - 1 \<and> j' = 0 then dat st1 2 (i - 1) else if i' = i - 1 \<and> (j' = 1 \<or> j' = 2) then []
        else if i' = i \<and> j' = ?j then dat st1 3 i else if i' = i \<and> j' = 3 then [] else dat st1 j' i')"
    by (rule finish_level_eq [OF s(2) i o(1) free dist, where kw = kw and D = D and su = su], rule that)
  have ni: "i \<noteq> i - 1" "i - 1 \<noteq> i" using i(1) by simp_all
  have here: "dat st' j i = (if j = ?j then m else if j = 3 then [] else dat st j i)" for j
    using ni o(1) by (simp only: g d) simp
  have below: "dat st' 0 (i - 1) = dat st 2 (i - 1)" "dat st' 1 (i - 1) = []" "dat st' 2 (i - 1) = []" "dat st' 3 (i - 1) = dat st 3 (i - 1)"
    using ni by (simp_all only: g d) simp_all
  have other: "dat st' j k = dat st j k" if "k \<noteq> i" "k \<noteq> i - 1" for j k using that by (simp add: g d)
  have len: "i < length (d_cnt st)" "i < length (d_localmap st)" using midD(1) [OF M] i by (auto simp: shape_def)
  have "level_ok l i (Suc v) (Suc v) st'"
    unfolding level_ok_def o(2) using L m(1,2) n(4) o(1) by (auto simp: here)
  moreover have "level_ok l (i - 1) v (Suc v) st'"
    unfolding level_ok_def drop_two [OF i n(1)] using L2 a(2) below by (auto simp: less_Suc_eq numeral_3_eq_3 numeral_2_eq_2)
  moreover have "build_ok D i (Suc v) st'"
  proof -
    have "counts_ok (Suc v div 2 ^ i) [] (AList.delete (dkey kw (v div 2 ^ i - 1)) lm)"
      unfolding n(5) by (rule counts_delete [OF c q(1)])
    moreover have "upCnt (d_updateCounter st1) i = int (v div 2 ^ i - 1)"
      unfolding s(3) midD(2) [OF M] by (rule rebuild_number [OF i(1) q(1)])
    ultimately show ?thesis using here [of 3] o(1) n(3) len by (simp add: build_ok_def e f dkey_def)
  qed
  moreover have "dat st' 0 i = dat st 0 i \<and> dat st' 1 i = dat st 1 i" if "Suc i < l" "prog (Suc i) (Suc v) \<noteq> 0"
    using occ_stable [OF q(2) _ that(2), of l] that(1) by (simp add: here)
  ultimately have "mid l D v i st'"
    using e(2,3) s(3) other below(4) by (intro mid_step [OF M i]) (simp_all add: e f)
  moreover have "contents st' = contents st"
  proof (rule contents_two [where a = i and b = "i - 1"])
    have "held st' i = held st i + mset (map snd m)"
    proof -
      have "?j = 0 \<or> ?j = 1 \<or> ?j = 2" using o(1) by auto
      moreover have "dat st ?j i = []" using L(2) [OF o(1)] by simp
      ultimately show ?thesis by (auto simp: held_def here)
    qed
    moreover have "mset (map snd m) = mset (stream D st i)" using m(3) n(4) sf(3) by simp
    ultimately show "held st' i + held st' (i - 1) = held st i + held st (i - 1)"
      using sf(5) below by (simp add: held_def)
    show "held st' k = held st k" if "k \<noteq> i" "k \<noteq> i - 1" for k using other that by (simp add: held_def)
  qed (use ni i midD(1) [OF M] in \<open>auto simp: shape_def\<close>)
  ultimately show ?thesis using s(1) n(4) e(1) by (intro that [of st']) simp_all
qed

lemma level_step_mid:
  assumes "mid l D v (Suc i) st" "0 < i" "i < l" "iter_ok D" "Suc v div 2 ^ (l - 1) \<le> 5"
  shows "\<exists>st'. level_step D su i st = Inr st' \<and> mid l D v i st' \<and> contents st' = contents st"
proof (cases "v div 2 ^ i < 2")
  case True
  then show ?thesis using step_idle [OF assms(1-3)] by blast
next
  case False
  then show ?thesis using step_full [OF assms(1-4) _ _ assms(5)] step_partial [OF assms(1-4)] by (metis not_less)
qed

lemma level_steps_mid:
  assumes "iter_ok D" "Suc v div 2 ^ (l - 1) \<le> 5"
  shows "n < l \<Longrightarrow> mid l D v (Suc n) st \<Longrightarrow>
    \<exists>st'. level_steps D su (rev [1..<Suc n]) st = Inr st' \<and> mid l D v 1 st' \<and> contents st' = contents st"
proof (induction n arbitrary: st)
  case (Suc n)
  obtain st1 where 1: "level_step D su (Suc n) st = Inr st1" "mid l D v (Suc n) st1" "contents st1 = contents st"
    using level_step_mid [OF Suc.prems(2) _ Suc.prems(1) assms] by blast
  then show ?case using Suc.IH [OF _ 1(2)] Suc.prems(1) by auto
qed auto


section \<open>Updates\<close>

definition dinv :: "nat \<Rightarrow> denv \<Rightarrow> (OP \<times> string \<times> int) list \<Rightarrow> deamortized \<Rightarrow> bool" where
  "dinv l D h st \<longleftrightarrow> shape l st \<and> d_updateCounter st = int (length h) \<and>
     (\<forall>k<l. level_ok l k (length h + 2) (length h + 2) st) \<and> (\<forall>k<l. 0 < k \<longrightarrow> build_ok D k (length h + 2) st) \<and>
     (\<forall>j<4. \<forall>k<10. l \<le> k \<longrightarrow> dat st j k = []) \<and> dat st 3 0 = [] \<and>
     image_mset (take 15) (contents st) = mset (map hrec h)"

lemma dinv_mid:
  assumes "dinv l D h st"
  shows "mid l D (length h + 2) l (st\<lparr>d_updateCounter := d_updateCounter st + 1\<rparr>)"
proof -
  obtain v where v: "v = length h + 2" by blast
  note d = assms [unfolded dinv_def, folded v]
  have last: "level_ok l k v w st = level_ok l k v v st" if "l \<le> Suc k" for k w
    using that by (intro level_ok_cong) (simp_all add: occ_def drp_def)
  have "level_ok l k v (if l \<le> Suc k then w else v) st" if "k < l" for k w
    using last [of k w] d that by (cases "l \<le> Suc k") simp_all
  moreover have "level_ok l k a b (st\<lparr>d_updateCounter := w\<rparr>) = level_ok l k a b st"
    "build_ok D k a (st\<lparr>d_updateCounter := w\<rparr>) = build_ok D k a st" for k a b w
    by (simp_all add: level_ok_def build_ok_def stream_def)
  moreover have "int (length h) + 1 = int (v - 1)" using v by simp
  ultimately show ?thesis
    unfolding mid_def v [symmetric] using d by (simp add: shape_def not_le split del: if_split)
qed

lemma insert_new_eq:
  assumes M: "mid l D v 1 st" and v: "2 \<le> v" "Suc v div 2 ^ (l - 1) \<le> 5" and l: "0 < l" and x: "vrec kw x"
  obtains st' where "insert_new kw x st = Inr st'" "shape l st'" "d_updateCounter st' = int (v - 1)"
    "\<And>k. k < l \<Longrightarrow> level_ok l k (Suc v) (Suc v) st'" "\<And>k. k < l \<Longrightarrow> 0 < k \<Longrightarrow> build_ok D k (Suc v) st'"
    "\<And>j k. j < 4 \<Longrightarrow> k < 10 \<Longrightarrow> l \<le> k \<Longrightarrow> dat st' j k = []" "dat st' 3 0 = []"
    "contents st' = add_mset x (contents st)"
proof -
  note m = midD [OF M]
  let ?j = "occ l 0 v (Suc v)" and ?new = "[(dkey kw (Suc 0), x)]"
  have ls: "length (d_data st) = 4" "\<forall>j<4. length (d_data st ! j) = 10" using m(1) by (simp_all add: shape_def)
  have o: "?j < 3" "occ l 0 (Suc v) (Suc v) = Suc ?j" using occ_room [of v 0 l] v l by simp_all
  have L: "inst_ok (dat st j 0)" "length (dat st j 0) = (if j < ?j then 1 else 0)" if "j < 3" for j
    using m(3) [of 0] l that by (simp_all add: level_ok_def)
  have one: "to_string 1 = ''1''" by code_simp
  have a: "at2 (d_data st) j 0 = Inr (dat st j 0)" if "j < 4" for j using shape_at2 [OF m(1) that] by simp
  let ?st = "st\<lparr>d_data := upd2 (upd2 (d_data st) ?j 0 ?new) 3 0 []\<rparr>"
  have j3: "?j = 0 \<or> ?j = 1 \<or> ?j = 2" using o(1) by auto
  have e: "insert_new kw x st = Inr ?st"
  proof -
    have "um_insert_range ?new [] = ?new" using copy_instance [of ?new] by simp
    moreover have "dat st 0 0 = [] \<longleftrightarrow> ?j = 0" "dat st 1 0 = [] \<longleftrightarrow> ?j \<le> 1" "?j = 2 \<Longrightarrow> dat st 2 0 = []"
      using L(2) [of 0] L(2) [of 1] L(2) [of 2] by (auto simp flip: length_0_conv)
    then have "(if dat st 0 0 = [] then 0 else if dat st 1 0 = [] then 1 else 2) = ?j"
      "(if dat st 0 0 = [] then dat st 0 0 else if dat st 1 0 = [] then dat st 1 0 else dat st 2 0) = []"
      using j3 by auto
    moreover have "AList.update (kw @ ''-1'') x (dat st 3 0) = ?new" using m(6) one by (simp add: dkey_def)
    ultimately show ?thesis
      using a [of 0] a [of 1] a [of 2] a [of 3] by (simp add: insert_new_def Let_def split del: if_split del: One_nat_def)
  qed
  have d: "upd2 (upd2 (d_data st) ?j 0 ?new) 3 0 [] ! j ! k = (if k = 0 \<and> j = 3 then [] else if k = 0 \<and> j = ?j then ?new else dat st j k)" for j k
    by (rule upd2_two [OF ls _ o(1)]) simp
  have sh: "shape l ?st" using m(1) by (simp add: shape_def)
  have "inst_ok ?new" using inst_insert(2) [OF inst_ok_Nil x] by simp
  then have "level_ok l 0 (Suc v) (Suc v) ?st" unfolding level_ok_def o(2) using L o(1) by (auto simp: d)
  moreover have "level_ok l k (Suc v) (Suc v) ?st" if "k < l" "k \<noteq> 0" for k
    using m(3) [OF that(1)] that by (simp add: level_ok_def d)
  ultimately have lev: "level_ok l k (Suc v) (Suc v) ?st" if "k < l" for k using that by (cases "k = 0") auto
  have build: "build_ok D k (Suc v) ?st" if k: "k < l" "0 < k" for k
  proof -
    have B: "build_ok D k (Suc v) st" using m(4) [OF k] k by simp
    have f: "dat ?st 3 k = dat st 3 k" using k by (simp add: d)
    show ?thesis
    proof (cases "prog k (Suc v) = 0")
      case True
      then show ?thesis using build_ok_empty [OF B _ f] by simp
    next
      case False
      have "dat ?st 0 (k - 1) = dat st 0 (k - 1) \<and> dat ?st 1 (k - 1) = dat st 1 (k - 1)"
      proof (cases "k = 1")
        case True
        then have "2 \<le> ?j" using occ_stable [of v 0 l] False k by simp
        then show ?thesis by (simp add: d)
      qed (use k in \<open>simp add: d\<close>)
      then show ?thesis using build_ok_cong [OF f] B by simp
    qed
  qed
  have none: "dat ?st j k = []" if "j < 4" "k < 10" "l \<le> k" for j k
    using m(5) [OF that] that l by (simp add: d)
  have c: "contents ?st = add_mset x (contents st)"
  proof -
    have "held ?st 0 = add_mset x (held st 0)"
      using j3 L(2) [OF o(1)] by (auto simp: held_def d)
    moreover have "held ?st k = held st k" if "k \<noteq> 0" for k using that by (simp add: held_def d)
    moreover have "contents s = held s 0 + sum (held s) ({..<10} - {0})" for s
      by (simp add: contents_def sum.remove [of "{..<10}" 0])
    ultimately show ?thesis by simp
  qed
  show ?thesis by (rule that [OF e sh _ lev build none _ c]) (use m(2) in \<open>simp_all add: d\<close>)
qed

lemma DeAmortized_update_inv:
  assumes inv: "dinv l D h st" and D: "iter_ok D" and l: "0 < l" and cap: "length h + 3 < 3 * 2 ^ l"
    and e: "upd_ok (op, kw, ind)"
  shows "\<exists>st'. DeAmortized_update D op kw ind su st = Inr st' \<and> dinv l D (h @ [(op, kw, ind)]) st'"
proof -
  let ?v = "length h + 2" and ?x = "the_value op kw ind"
  have v: "Suc ?v div 2 ^ (l - 1) \<le> 5"
  proof -
    have "Suc ?v < 6 * 2 ^ (l - 1)" using cap l by (cases l) auto
    then have "Suc ?v div 2 ^ (l - 1) < 6" by (simp add: div_less_iff_less_mult)
    then show ?thesis by simp
  qed
  have sh: "d_l st = l" using inv by (simp add: dinv_def shape_def)
  have "mid l D ?v (Suc (l - 1)) (st\<lparr>d_updateCounter := d_updateCounter st + 1\<rparr>)" using dinv_mid [OF inv] l by simp
  then obtain st1 where 1: "level_steps D su (rev [1..<Suc (l - 1)]) (st\<lparr>d_updateCounter := d_updateCounter st + 1\<rparr>) = Inr st1"
    "mid l D ?v 1 st1" "contents st1 = contents (st\<lparr>d_updateCounter := d_updateCounter st + 1\<rparr>)"
    using level_steps_mid [OF D v, of "l - 1"] l by (metis diff_less zero_less_one)
  have x: "vrec kw ?x" by (rule the_value_vrec [OF e])
  obtain st' where s: "insert_new kw ?x st1 = Inr st'" "shape l st'" "d_updateCounter st' = int (?v - 1)"
    "\<And>k. k < l \<Longrightarrow> level_ok l k (Suc ?v) (Suc ?v) st'" "\<And>k. k < l \<Longrightarrow> 0 < k \<Longrightarrow> build_ok D k (Suc ?v) st'"
    "\<And>j k. j < 4 \<Longrightarrow> k < 10 \<Longrightarrow> l \<le> k \<Longrightarrow> dat st' j k = []" "dat st' 3 0 = []" "contents st' = add_mset ?x (contents st1)"
    by (rule insert_new_eq [OF 1(2) _ v l x]) (simp, rule that)
  have "make_value op kw ind = Inr ?x" using make_value_eq upd_ok_kw [OF e] by simp
  then have "DeAmortized_update D op kw ind su st = Inr st'"
    using 1(1) s(1) l by (simp add: DeAmortized_update_def sh)
  moreover have "contents (st\<lparr>d_updateCounter := d_updateCounter st + 1\<rparr>) = contents st" by (intro contents_cong) simp
  then have "image_mset (take 15) (contents st') = mset (map hrec (h @ [(op, kw, ind)]))"
    using s(8) 1(3) inv by (simp add: dinv_def hrec_def)
  ultimately show ?thesis using s(2-7) by (simp add: dinv_def)
qed

fun DeAmortized_updates :: "denv \<Rightarrow> bool \<Rightarrow> (OP \<times> string \<times> int) list \<Rightarrow> deamortized \<Rightarrow> deamortized res" where
  "DeAmortized_updates D su [] st = Inr st"
| "DeAmortized_updates D su ((op, kw, ind) # h) st =
     ebind (DeAmortized_update D op kw ind su st) (DeAmortized_updates D su h)"

lemma DeAmortized_updates_inv:
  assumes D: "iter_ok D" and l: "0 < l"
  shows "dinv l D h0 st \<Longrightarrow> \<forall>e\<in>set h. upd_ok e \<Longrightarrow> length h0 + length h + 2 < 3 * 2 ^ l \<Longrightarrow>
    \<exists>st'. DeAmortized_updates D su h st = Inr st' \<and> dinv l D (h0 @ h) st'"
proof (induction h arbitrary: h0 st)
  case (Cons e h)
  obtain op kw ind where e: "e = (op, kw, ind)" by (cases e)
  have "length h0 + 3 < 3 * 2 ^ l" using Cons.prems(3) by simp
  then obtain st1 where "DeAmortized_update D op kw ind su st = Inr st1" "dinv l D (h0 @ [e]) st1"
    using DeAmortized_update_inv [OF Cons.prems(1) D l, of op kw ind] Cons.prems(2) e by auto
  then show ?case using Cons.IH [of "h0 @ [e]" st1] Cons.prems e by simp
qed auto


lemma DeAmortized_new_inv:
  assumes E: "env_ok (d_E D)" and N: "ceil_log2 N \<le> 10"
  obtains st where "DeAmortized_new D N = Inr st" "dinv (ceil_log2 N) D [] st"
proof -
  let ?l = "ceil_log2 N"
  have "\<exists>m. OMAP_new (d_E D) (max (2 ^ i) 4) (replicate 16 0) = Inr m" if "i < 10" for i
  proof -
    have c: "4 \<le> max (2 ^ i) (4 :: nat)" "max (2 ^ i) 4 < (2 :: nat) ^ 10"
      using power_strict_increasing [of i 10 "2 :: nat"] that by auto
    then have "max (2 ^ i) 4 div Z \<noteq> 0" by (simp add: Z_def div_eq_0_iff)
    moreover have "ilog2 (max (2 ^ i) 4 div Z) < 31"
      using c(2) by (intro ilog2_less) (simp_all add: Z_def)
    ultimately obtain m where "OMAP_new (d_E D) (max (2 ^ i) 4) (replicate 16 0) = Inr m"
      by (rule omap_rel_new [OF E _ _ lessI]) blast
    then show ?thesis by blast
  qed
  then have "\<exists>ms. map_res (\<lambda>i. OMAP_new (d_E D) (max (2 ^ i) 4) (replicate 16 0)) is = Inr ms" if "set is \<subseteq> {..<10}" for "is"
    using that by (induction "is") fastforce+
  then obtain ms where ms: "map_res (\<lambda>i. OMAP_new (d_E D) (max (2 ^ i) 4) (replicate 16 0)) [0..<?l] = Inr ms"
    using N by (metis atLeast_upt lessThan_subset_iff)
  have r: "rcv k (Suc (Suc 0)) = 0" for k
  proof -
    have "Suc (Suc 0) div 2 ^ k \<le> Suc (Suc 0)" by (rule div_le_dividend)
    then show ?thesis unfolding rcv_def by linarith
  qed
  have p: "prog k (Suc (Suc 0)) = 0" for k
  proof (cases k)
    case (Suc n)
    have "1 div 2 ^ n \<le> (1 :: nat)" by (rule div_le_dividend)
    moreover have "2 div 2 ^ k = (1 :: nat) div 2 ^ n" by (simp add: Suc)
    ultimately have "2 div 2 ^ k < (2 :: nat)" by linarith
    then show ?thesis by (simp add: prog_def numeral_2_eq_2)
  qed (simp add: prog_def)
  have "counts_ok q [] []" for q
    by (auto simp: counts_ok_def lookup_text_def ctext_def)
  then show ?thesis
    using ms N r p by (intro that) (auto simp: DeAmortized_new_def Let_def dinv_def shape_def level_ok_def build_ok_def occ_def
        localSize_def contents_def held_def DeAmortizedBASClient_new_def)
qed

section \<open>Searching\<close>

lemma collect_eq: "\<forall>x\<in>set xs. f x = Inr (g x) \<Longrightarrow> collect f xs = Inr (concat (map g xs))"
  by (induction xs) auto

lemma search_instance:
  assumes "at2 (d_data st) j k = Inr m" "inst_ok m"
  obtains vs where "search_local_instance kw st (j, k) = Inr vs" "mset vs = mset (map snd (kent kw m))"
proof (cases "m = []")
  case True
  then show ?thesis using that [of "[]"] assms by (simp add: search_local_instance_def)
next
  case False
  let ?vs = "map (\<lambda>n. the (map_of m (dkey kw n))) [1..<length (kent kw m) + 1]"
  have "local_search_loop m kw (int 1) [] = Some ([] @ ?vs)" by (rule local_search_loop_eq [OF assms(2)]) simp_all
  then show ?thesis
    using that [of ?vs] assms False kent_by_number [OF assms(2), of kw] by (simp add: search_local_instance_def loop_res_def)
qed

lemma kent_filter: "image_mset (take 15) (mset (map snd (kent kw m))) =
    filter_mset (\<lambda>r. kw_of r = kw) (image_mset (take 15) (mset (map snd m)))"
  by (induction m) (auto simp: kent_def)

lemma sum_product: "(\<Sum>p\<leftarrow>List.product [0..<3] xs. f p) = (\<Sum>k\<leftarrow>xs. f (0, k) + f (1, k) + f (2, k))"
  for f :: "nat \<times> nat \<Rightarrow> bytes multiset"
proof -
  have "[0..<3] = [0, 1, 2 :: nat]" by (simp add: numeral_3_eq_3 numeral_2_eq_2)
  then show ?thesis by (simp add: sum_list_addf comp_def add.assoc del: One_nat_def)
qed

lemma DeAmortized_search_eq:
  assumes inv: "dinv l D h st" and h: "\<forall>e\<in>set h. upd_ok e"
  shows "DeAmortized_search D kw st = Inr (live_spec h kw)"
proof -
  have sh: "shape l st" using inv by (simp add: dinv_def)
  have ok: "inst_ok (dat st j k)" if "j < 3" "k < 10" for j k
    using inv that by (cases "k < l") (auto simp: dinv_def level_ok_def not_less)
  let ?ps = "List.product [0..<3] [0..<localSize]"
  have "\<forall>p\<in>set ?ps. \<exists>vs. search_local_instance kw st p = Inr vs \<and> mset vs = mset (map snd (kent kw (dat st (fst p) (snd p))))"
  proof
    fix p assume "p \<in> set ?ps"
    then obtain j k where p: "p = (j, k)" "j < 3" "k < 10" by (auto simp: localSize_def)
    have "at2 (d_data st) j k = Inr (dat st j k)" using p by (intro shape_at2 [OF sh]) simp_all
    then show "\<exists>vs. search_local_instance kw st p = Inr vs \<and> mset vs = mset (map snd (kent kw (dat st (fst p) (snd p))))"
      using search_instance [OF _ ok [OF p(2,3)], where kw = kw] p(1) by (metis fst_conv snd_conv)
  qed
  then obtain g where g: "\<forall>p\<in>set ?ps. search_local_instance kw st p = Inr (g p)"
    "\<forall>p\<in>set ?ps. mset (g p) = mset (map snd (kent kw (dat st (fst p) (snd p))))"
    by metis
  have "List.product xs [] = []" for xs :: "nat list" by (induction xs) simp_all
  then have "List.product [0..<3] [localSize..<l] = []" using sh by (simp add: shape_def localSize_def)
  then have res: "DeAmortized_search D kw st = Inr (live_indexes (concat (map g ?ps)))"
    using collect_eq [OF g(1)] sh by (simp add: DeAmortized_search_def shape_def)
  let ?P = "\<lambda>r. kw_of r = kw"
  let ?V = "\<lambda>p. image_mset (take 15) (mset (map snd (dat st (fst p) (snd p))))"
  have "image_mset (take 15) (mset (concat (map g qs))) = filter_mset ?P (\<Sum>p\<leftarrow>qs. ?V p)" if "set qs \<subseteq> set ?ps" for qs
    using that g(2) kent_filter by (induction qs) auto
  then have "image_mset (take 15) (mset (concat (map g ?ps))) = filter_mset ?P (\<Sum>p\<leftarrow>?ps. ?V p)" by blast
  also have "(\<Sum>p\<leftarrow>?ps. ?V p) = (\<Sum>k<10. image_mset (take 15) (held st k))"
    by (simp add: sum_product held_def localSize_def sum_list_upto lessThan_atLeast0)
  also have "\<dots> = image_mset (take 15) (contents st)"
  proof -
    have "(\<Sum>k<n. image_mset (take 15) (held st k)) = image_mset (take 15) (\<Sum>k<n. held st k)" for n :: nat
      by (induction n) simp_all
    then show ?thesis by (simp add: contents_def)
  qed
  finally have "image_mset (take 15) (mset (concat (map g ?ps))) = filter_mset ?P (mset (map hrec h))"
    using inv by (simp add: dinv_def)
  then have "ltotal i (concat (map g ?ps)) = int (count_list h (DEL, kw, i)) - int (count_list h (INS, kw, i))" for i
    by (simp only: total_mtotal mtotal_history [OF h])
  then show ?thesis by (simp add: res live_indexes_eq live_spec_def)
qed


section \<open>Properties\<close>

lemma levels_small:
  assumes "2 \<le> N" "N \<le> 1024"
  shows "0 < ceil_log2 N" "ceil_log2 N \<le> 10"
proof -
  have "ilog2 (N - 1) < 10" using assms by (intro ilog2_less) simp_all
  then show "0 < ceil_log2 N" "ceil_log2 N \<le> 10" using assms by (simp_all add: ceil_log2_def)
qed

lemma DeAmortized_run:
  assumes "env_ok (d_E D)" "iter_ok D" "2 \<le> N" "N \<le> 1024" "\<forall>e\<in>set h. upd_ok e" "length h + 2 < 3 * 2 ^ ceil_log2 N"
  obtains st where "ebind (DeAmortized_new D N) (DeAmortized_updates D su h) = Inr st" "dinv (ceil_log2 N) D h st"
proof -
  note l = levels_small [OF assms(3,4)]
  obtain st0 where 0: "DeAmortized_new D N = Inr st0" "dinv (ceil_log2 N) D [] st0"
    by (rule DeAmortized_new_inv [OF assms(1) l(2)])
  then show ?thesis
    using DeAmortized_updates_inv [OF assms(2) l(1) 0(2) assms(5)] assms(6) that by auto
qed

text \<open>
  (C11) De-amortized scheme, end to end, while all levels are kept by the client: after any sequence of
  updates that fits the structure, during or after setup, every search ends without an error and
  returns in increasing order exactly the identifiers inserted more often than deleted, whatever
  the iteration order of the hash maps.
\<close>

theorem DeAmortized_search_correct:
  assumes "env_ok (d_E D)" "\<forall>m. mset (d_iter D m) = mset m" "2 \<le> N" "N \<le> 1024" "\<forall>e\<in>set h. upd_ok e"
    "length h + 2 < 3 * 2 ^ ceil_log2 N"
  shows "ebind (ebind (DeAmortized_new D N) (DeAmortized_updates D su h)) (\<lambda>st. map_res (\<lambda>kw. DeAmortized_search D kw st) kws) =
    Inr (map (live_spec h) kws)"
proof -
  have "iter_ok D" using assms(2) by (simp add: iter_ok_def)
  then obtain st where st: "ebind (DeAmortized_new D N) (DeAmortized_updates D su h) = Inr st" "dinv (ceil_log2 N) D h st"
    using DeAmortized_run [OF assms(1) _ assms(3-6)] by blast
  have "map_res (\<lambda>kw. DeAmortized_search D kw st) kws = Inr (map (live_spec h) kws)"
    using DeAmortized_search_eq [OF st(2) assms(5)] by (induction kws) simp_all
  then show ?thesis using st(1) by simp
qed

definition toy_denv :: denv where
  "toy_denv = \<lparr>d_S = toy_senv, d_E = toy_env Static, d_fuel = 50, d_iter = rev\<rparr>"

theorem DeAmortized_search_correct_witness:
  "ebind (ebind (DeAmortized_new toy_denv 4) (DeAmortized_updates toy_denv False
       [(INS, ''a'', 7), (INS, ''b'', 8), (INS, ''a'', 9), (DEL, ''a'', 7), (INS, ''b'', 5), (INS, ''a'', 3)]))
     (\<lambda>st. map_res (\<lambda>kw. DeAmortized_search toy_denv kw st) [''a'', ''b'']) =
   Inr (map (live_spec [(INS, ''a'', 7), (INS, ''b'', 8), (INS, ''a'', 9), (DEL, ''a'', 7), (INS, ''b'', 5), (INS, ''a'', 3)])
     [''a'', ''b''])"
  by (rule DeAmortized_search_correct)
    (simp_all add: toy_denv_def env_ok_toy upd_ok_def NUL_char int32_def ceil_log2_def ilog2.simps)



end
