(* ===== verification/Sse_Common.thy ===== *)
theory Sse_Common
  imports Utilities Block_Id Omap
begin

unbundle bit_operations_syntax

text \<open>
  Helpers that the clients of the schemes share as copied members: the keyword in a zeroed
  16-byte array, the identifier of a keyword in an oblivious map, exclusive or of arrays, the
  parsing of the counter pairs \<open>a-b\<close> kept in the maps.
\<close>

section \<open>Arrays\<close>

definition kw_block :: "string \<Rightarrow> bytes res" where
  "kw_block keyword = copy_at 0 (string_bytes keyword) (replicate AES_KEY_SIZE 0)"

definition getBid :: "nat \<Rightarrow> string \<Rightarrow> bid res" where
  "getBid idSize input = ebind (copy_at 0 (string_bytes input) (replicate idSize 0)) (\<lambda>a. Inr (Bid_array a))"

definition bitwiseXOR :: "bytes \<Rightarrow> bytes \<Rightarrow> bytes" where
  "bitwiseXOR input1 input2 = map2 (XOR) input1 input2"

text \<open>
  \<open>bitwiseXOR(int, int, prf_type)\<close>: four bytes of the identifier, one of the operation, the
  rest is \<open>rand() % 255\<close>; \<open>noise\<close> holds those bytes.
\<close>

definition bitwiseXOR_int :: "(nat \<Rightarrow> byte) \<Rightarrow> int \<Rightarrow> int \<Rightarrow> bytes \<Rightarrow> bytes" where
  "bitwiseXOR_int noise input1 op input2 =
     bitwiseXOR (le32 input1 @ [word_of_int (op AND 0xFF)] @ map noise [5..<AES_KEY_SIZE]) input2"

section \<open>Counter pairs\<close>

definition split_or_error :: "string \<Rightarrow> string list res" where
  "split_or_error s = (case splitData s ''-'' of None \<Rightarrow> Inl OutOfFuel | Some ps \<Rightarrow> Inr ps)"

definition nth_or_error :: "'a list \<Rightarrow> nat \<Rightarrow> 'a res" where
  "nth_or_error xs i = (if i < length xs then Inr (xs ! i) else Inl BadIndex)"

definition parse_pair :: "string \<Rightarrow> (int \<times> int) res" where
  "parse_pair s =
     ebind (split_or_error s) (\<lambda>parts.
     ebind (nth_or_error parts 0) (\<lambda>p0. ebind (stoi p0) (\<lambda>a.
     ebind (nth_or_error parts 1) (\<lambda>p1. ebind (stoi p1) (\<lambda>b. Inr (a, b))))))"

definition show_pair :: "int \<Rightarrow> int \<Rightarrow> string" where
  "show_pair a b = to_string a @ ''-'' @ to_string b"

text \<open>The test inserts that the clients run after setting up a map.\<close>

definition test_bid :: "nat \<Rightarrow> bid" where
  "test_bid idSize = setValue (Bid_default idSize) 1"

fun test_inserts :: "env \<Rightarrow> nat \<Rightarrow> nat \<Rightarrow> omap \<Rightarrow> omap res" where
  "test_inserts E fuel 0 m = Inr m"
| "test_inserts E fuel (Suc n) m =
     ebind (OMAP_insert E fuel (test_bid (ID_SIZE (e_scheme E))) ''TEST'' m) (test_inserts E fuel n)"

section \<open>Lemmas\<close>

lemma kw_block_eq: "length kw \<le> 16 \<Longrightarrow> kw_block kw = Inr (pad16 kw)"
  by (simp add: kw_block_def copy_at_0 pad16_def AES_KEY_SIZE_def)

lemma bitwiseXOR_involution:
  "length a = length b \<Longrightarrow> bitwiseXOR b (bitwiseXOR a b) = a"
proof (induction a b rule: list_induct2)
  case (Cons x xs y ys)
  have "y XOR (x XOR y) = x" by (metis xor.assoc xor.commute xor.right_neutral xor_self_eq)
  then show ?case using Cons by (simp add: bitwiseXOR_def)
qed (simp add: bitwiseXOR_def)

lemma length_bitwiseXOR [simp]: "length (bitwiseXOR a b) = min (length a) (length b)"
  by (simp add: bitwiseXOR_def)

lemma to_string_no_dash: "0 \<le> n \<Longrightarrow> CHR ''-'' \<notin> set (to_string n)"
  using show_nat_digits digit_not_sign by (fastforce simp: to_string_def)

lemma to_string_nonempty [simp]: "to_string n \<noteq> []"
  by (simp add: to_string_def)

lemma parse_pair_show:
  assumes "0 \<le> a" "a < 2 ^ 31" "0 \<le> b" "b < 2 ^ 31" "set z \<subseteq> {NUL}"
  shows "parse_pair (show_pair a b @ z) = Inr (a, b)"
proof -
  have "CHR ''-'' \<notin> set z" using assms(5) by (auto simp: NUL_char)
  then have d: "CHR ''-'' \<notin> set (to_string b @ z)" "CHR ''-'' \<notin> set (to_string a)"
    using to_string_no_dash assms by auto
  then have "splitData (show_pair a b @ z) ''-'' = Some [to_string a, to_string b @ z]"
    by (simp add: splitData_single show_pair_def split_on_delim split_on_no_delim)
  moreover have "stoi (to_string b @ z) = Inr b"
  proof (cases z)
    case Nil
    then show ?thesis using assms by (simp add: int32_def)
  next
    case (Cons c cs)
    then have "\<not> starts_digit z" using assms(5) by (auto simp: starts_digit_def NUL_char is_digit_def)
    then show ?thesis using assms stoi_to_string_append [of b z] by (simp add: int32_def)
  qed
  moreover have "stoi (to_string a) = Inr a" using assms by (simp add: int32_def)
  ultimately show ?thesis
    by (simp add: parse_pair_def split_or_error_def nth_or_error_def)
qed

end
