(* ===== verification/Mitra.thy ===== *)
theory Mitra
  imports Sse_Common Amortized
begin

text \<open>
  The Mitra scheme: \<open>Client\<close> and \<open>Server\<close> of \<open>mitra/\<close>. The client counts the updates of every
  keyword, in its own maps when \<open>localStorage\<close> is set and in an oblivious map otherwise, and
  stores each update under an address derived from keyword and count. With \<open>deleteFiles\<close> a
  search re-encrypts the live identifiers under the next search count.

  \<open>Server::Server\<close> resets \<open>useRocksDB\<close> to false, so the server is its in-memory map. The
  communication counters are statistics and are left out.
\<close>

section \<open>The server\<close>

definition Server_update :: "bytes \<Rightarrow> bytes \<Rightarrow> dict \<Rightarrow> dict" where
  "Server_update addr val DictW = AList.update addr val DictW"

text \<open>\<open>DictW[k]\<close> creates a zero entry for an absent key; zero values are skipped.\<close>

fun Server_search :: "bytes list \<Rightarrow> dict \<Rightarrow> bytes list \<times> dict" where
  "Server_search [] DictW = ([], DictW)"
| "Server_search (k # ks) DictW =
     (let notfound = replicate AES_KEY_SIZE 0;
          val = (case map_of DictW k of None \<Rightarrow> notfound | Some v \<Rightarrow> v);
          D = (case map_of DictW k of None \<Rightarrow> AList.update k notfound DictW | Some _ \<Rightarrow> DictW);
          (res, D') = Server_search ks D
      in (if val \<noteq> notfound then val # res else res, D'))"

section \<open>The client\<close>

record menv =
  m_E :: env
  m_fuel :: nat
  m_prg :: "bytes \<Rightarrow> bytes"
  m_rand :: "nat \<Rightarrow> nat \<Rightarrow> byte"

record mitra =
  mc_deleteFiles :: bool
  mc_localStorage :: bool
  mc_omap :: omap
  mc_FileCnt :: "(bytes \<times> int) list"
  mc_SrcCnt :: "(bytes \<times> int) list"
  mc_setupOMAP :: "(bid \<times> string) list"
  mc_DictW :: dict
  mc_rnd :: nat

definition Mitra_new :: "menv \<Rightarrow> bool \<Rightarrow> nat \<Rightarrow> mitra res" where
  "Mitra_new M deleteFiles keywordsSize =
     ebind (OMAP_new (m_E M) keywordsSize (replicate 16 0)) (\<lambda>m.
       Inr \<lparr>mc_deleteFiles = deleteFiles, mc_localStorage = False, mc_omap = m, mc_FileCnt = [],
            mc_SrcCnt = [], mc_setupOMAP = [], mc_DictW = [], mc_rnd = 0\<rparr>)"

text \<open>\<open>getAESRandomValue\<close> writes the counters into the keyword array it is given.\<close>

definition mitra_getAESRandomValue :: "menv \<Rightarrow> bool \<Rightarrow> bytes \<Rightarrow> int \<Rightarrow> int \<Rightarrow> int \<Rightarrow> bytes \<times> bytes" where
  "mitra_getAESRandomValue M deleteFiles keyword op srcCnt fileCnt =
     (let k1 = (if deleteFiles then put_int (AES_KEY_SIZE - 9) srcCnt keyword else keyword);
          k2 = k1[AES_KEY_SIZE - 5 := word_of_int op];
          k3 = put_int (AES_KEY_SIZE - 4) fileCnt k2
      in (k3, m_prg M k3))"

definition op_int :: "OP \<Rightarrow> int" where
  "op_int op = (case op of INS \<Rightarrow> 0 | DEL \<Rightarrow> 1)"

text \<open>Addresses and masks of one update; the array \<open>k_w\<close> is passed on.\<close>

definition put_entry :: "menv \<Rightarrow> bytes \<Rightarrow> OP \<Rightarrow> int \<Rightarrow> int \<Rightarrow> int \<Rightarrow> mitra \<Rightarrow> bytes \<times> mitra" where
  "put_entry M k_w op ind srcCnt fileCnt st =
     (let (k1, addr) = mitra_getAESRandomValue M (mc_deleteFiles st) k_w 0 srcCnt fileCnt;
          (k2, rnd) = mitra_getAESRandomValue M (mc_deleteFiles st) k1 1 srcCnt fileCnt;
          val = bitwiseXOR_int (m_rand M (mc_rnd st)) ind (op_int op) rnd
      in (k2, st\<lparr>mc_DictW := Server_update addr val (mc_DictW st), mc_rnd := mc_rnd st + 1\<rparr>))"

text \<open>The counters of an update, in local storage and in the oblivious map.\<close>

definition local_counts :: "bytes \<Rightarrow> mitra \<Rightarrow> (int \<times> int) \<times> mitra" where
  "local_counts k_w st =
     (let fileCnt = (case map_of (mc_FileCnt st) k_w of None \<Rightarrow> 1 | Some n \<Rightarrow> n + 1);
          srcCnt = (if mc_deleteFiles st then (case map_of (mc_SrcCnt st) k_w of None \<Rightarrow> 0 | Some n \<Rightarrow> n) else 0);
          src = (if mc_deleteFiles st then AList.update k_w srcCnt (mc_SrcCnt st) else mc_SrcCnt st)
      in ((fileCnt, srcCnt), st\<lparr>mc_FileCnt := AList.update k_w fileCnt (mc_FileCnt st), mc_SrcCnt := src\<rparr>))"

definition omap_counts :: "menv \<Rightarrow> string \<Rightarrow> bool \<Rightarrow> mitra \<Rightarrow> ((int \<times> int) \<times> mitra) res" where
  "omap_counts M keyword setup st =
     ebind (getBid 16 keyword) (\<lambda>mapKey.
     ebind (if setup then Inr (case map_of (mc_setupOMAP st) mapKey of None \<Rightarrow> [] | Some s \<Rightarrow> s, st)
            else ebind (mitra_OMAP_incrementFileCnt (m_E M) (m_fuel M) mapKey (mc_omap st))
                   (\<lambda>(s, m). Inr (s, st\<lparr>mc_omap := m\<rparr>))) (\<lambda>(s, st).
     ebind (if s \<noteq> [] then parse_pair s else Inr (0, 0)) (\<lambda>(f, srcCnt).
     let fileCnt = f + 1 in
     Inr ((fileCnt, srcCnt),
          if setup then st\<lparr>mc_setupOMAP := AList.update mapKey (show_pair fileCnt srcCnt) (mc_setupOMAP st)\<rparr> else st))))"

definition Mitra_update :: "menv \<Rightarrow> OP \<Rightarrow> string \<Rightarrow> int \<Rightarrow> bool \<Rightarrow> mitra \<Rightarrow> mitra res" where
  "Mitra_update M op keyword ind setup st =
     ebind (kw_block keyword) (\<lambda>k_w.
     ebind (if mc_localStorage st then Inr (local_counts k_w st) else omap_counts M keyword setup st)
       (\<lambda>((fileCnt, srcCnt), st). Inr (snd (put_entry M k_w op ind srcCnt fileCnt st))))"

text \<open>The list of addresses 1 to \<open>fileCnt\<close> and the unmasking of the answers.\<close>

fun mitra_addresses :: "menv \<Rightarrow> bool \<Rightarrow> bytes \<Rightarrow> int \<Rightarrow> int list \<Rightarrow> bytes list \<times> bytes" where
  "mitra_addresses M df k_w srcCnt [] = ([], k_w)"
| "mitra_addresses M df k_w srcCnt (i # is) =
     (let (k1, a) = mitra_getAESRandomValue M df k_w 0 srcCnt i; (as, k2) = mitra_addresses M df k1 srcCnt is
      in (a # as, k2))"

definition mitra_tally_step :: "bytes \<Rightarrow> (int \<times> int) list \<Rightarrow> (int \<times> int) list" where
  "mitra_tally_step p m =
     (let plaintext = get_int 0 p; old = (case map_of m plaintext of None \<Rightarrow> 0 | Some n \<Rightarrow> n)
      in AList.update plaintext (old + (2 * uint (p ! 4) - 1)) m)"

fun mitra_decode :: "menv \<Rightarrow> bool \<Rightarrow> bytes \<Rightarrow> int \<Rightarrow> int \<Rightarrow> bytes list \<Rightarrow> (int \<times> int) list \<Rightarrow> (int \<times> int) list \<times> bytes" where
  "mitra_decode M df k_w srcCnt cnt [] remove = (remove, k_w)"
| "mitra_decode M df k_w srcCnt cnt (e # es) remove =
     (let (k1, tmp) = mitra_getAESRandomValue M df k_w 1 srcCnt cnt
      in mitra_decode M df k1 srcCnt (cnt + 1) es (mitra_tally_step (bitwiseXOR tmp e) remove))"

text \<open>The loop over the sorted map \<open>remove\<close>; \<open>fileCnt\<close> counts re-encrypted entries.\<close>

fun mitra_collect :: "menv \<Rightarrow> bytes \<Rightarrow> int \<Rightarrow> int \<Rightarrow> (int \<times> int) list \<Rightarrow> mitra \<Rightarrow> int list \<times> int \<times> mitra" where
  "mitra_collect M k_w srcCnt fileCnt [] st = ([], fileCnt, st)"
| "mitra_collect M k_w srcCnt fileCnt ((i, n) # rs) st =
     (if n < 0 then
        if mc_deleteFiles st then
          let (k1, st1) = put_entry M k_w INS i srcCnt (fileCnt + 1) st;
              (res, f, st2) = mitra_collect M k1 srcCnt (fileCnt + 1) rs st1
          in (i # res, f, st2)
        else let (res, f, st2) = mitra_collect M k_w srcCnt fileCnt rs st in (i # res, f, st2)
      else mitra_collect M k_w srcCnt fileCnt rs st)"

text \<open>The counters of a search; \<open>None\<close> when the keyword is unknown.\<close>

definition search_counts :: "menv \<Rightarrow> bytes \<Rightarrow> bid \<Rightarrow> mitra \<Rightarrow> ((int \<times> int) option \<times> mitra) res" where
  "search_counts M k_w mapKey st =
     (if mc_localStorage st then
        (case map_of (mc_FileCnt st) k_w of
           None \<Rightarrow> Inr (None, st)
         | Some f \<Rightarrow>
             let srcCnt = (if mc_deleteFiles st then (case map_of (mc_SrcCnt st) k_w of None \<Rightarrow> 0 | Some n \<Rightarrow> n) else 0)
             in Inr (Some (f, srcCnt), st))
      else ebind (OMAP_find (m_E M) (m_fuel M) mapKey (mc_omap st)) (\<lambda>(s, m).
        let st = st\<lparr>mc_omap := m\<rparr> in
        if s \<noteq> [] then ebind (parse_pair s) (\<lambda>p. Inr (Some p, st)) else Inr (None, st)))"

definition Mitra_search :: "menv \<Rightarrow> string \<Rightarrow> mitra \<Rightarrow> (int list \<times> mitra) res" where
  "Mitra_search M keyword st =
     ebind (kw_block keyword) (\<lambda>k_w. ebind (getBid 16 keyword) (\<lambda>mapKey.
     ebind (search_counts M k_w mapKey st) (\<lambda>(cnts, st).
     case cnts of None \<Rightarrow> Inr ([], st) | Some (fileCnt, srcCnt) \<Rightarrow>
       let df = mc_deleteFiles st;
           (KList, k1) = mitra_addresses M df k_w srcCnt [1..fileCnt];
           (encIndexes, D) = Server_search KList (mc_DictW st);
           (remove, k2) = mitra_decode M df k1 srcCnt 1 encIndexes [];
           st1 = st\<lparr>mc_DictW := D\<rparr>;
           st2 = (if df \<and> mc_localStorage st
                  then st1\<lparr>mc_SrcCnt := AList.update k_w ((case map_of (mc_SrcCnt st1) k_w of None \<Rightarrow> 0 | Some n \<Rightarrow> n) + 1) (mc_SrcCnt st1)\<rparr>
                  else st1);
           (res, f, st3) = mitra_collect M k2 (if df then srcCnt + 1 else srcCnt) (if df then 0 else fileCnt)
              (sort_key fst remove) st2
       in if df then
            if mc_localStorage st then Inr (res, st3\<lparr>mc_FileCnt := AList.update k_w f (mc_FileCnt st3)\<rparr>)
            else ebind (OMAP_insert (m_E M) (m_fuel M) mapKey (show_pair f (srcCnt + 1)) (mc_omap st3))
                   (\<lambda>m. Inr (res, st3\<lparr>mc_omap := m\<rparr>))
          else Inr (res, st3))))"

definition Mitra_endSetup :: "menv \<Rightarrow> mitra \<Rightarrow> mitra res" where
  "Mitra_endSetup M st =
     (if mc_localStorage st then Inr st
      else ebind (OMAP_setupInsert (m_E M) (mc_setupOMAP st) (mc_omap st)) (\<lambda>m.
        ebind (test_inserts (m_E M) (m_fuel M) 500 m) (\<lambda>m. Inr (st\<lparr>mc_omap := m\<rparr>))))"

end
