(* ===== verification/Omap_Counters.thy ===== *)
theory Omap_Counters
  imports Omap_Correct Sse_Common
begin

text \<open>
  The counter operations of the oblivious maps. Each of them rewrites the value stored under a
  key by a function of the old value and returns the old value; some insert an initial value
  for an absent key. \<open>AVL_rewrite_op\<close> gives the tree after the rewrite, and the lemmas below
  carry it to the map: first for any rewriting function, then for the four schemes.
\<close>

section \<open>Rewriting a value\<close>

lemma rewritten_present:
  assumes "tmap t key = Some w" "f (bytes_string w) = Inr s"
  shows "rewritten f key t = ins key (value_of s) t" "old_value key t = bytes_string w"
  using assms by (simp_all add: rewritten_def old_value_def)

lemma rewritten_absent:
  assumes "tmap t key = None"
  shows "rewritten f key t = t" "old_value key t = []" "can_rewrite f key t"
  using assms by (simp_all add: rewritten_def old_value_def can_rewrite_def)

lemma rootc_rewritten:
  assumes "avl t" "ordered t"
  shows "rootc st (rewritten f key t) = rootc st t"
proof (cases t)
  case (Node l e r)
  obtain x w where e: "e = (x, w)" by (cases e)
  note a = assms [unfolded Node e]
  consider "key < x" | "x < key" | "key = x" by force
  then show ?thesis
  proof cases
    case 1
    then show ?thesis using rewritten_left [OF a 1] Node e by simp
  next
    case 2
    then show ?thesis using rewritten_right [OF a 2] Node e by simp
  next
    case 3
    then show ?thesis using Node e by (simp add: rewritten_def split: option.split sum.split)
  qed
qed simp

lemma run_rewrite_rep:
  assumes E: "env_ok E" and m: "omap_rep E m t" and key: "bid_wf (ID_SIZE (e_scheme E)) key"
    and fuel: "top_height E (m_oram m) < fuel" and f: "can_rewrite f key t"
  obtains m' where "run_rewrite (AVL_rewrite f) E fuel key m = Inr (old_value key t, m')"
    "omap_op E m' (rewritten f key t)" "rootc (m_oram m') (rewritten f key t)" "same_map E 0 m m'"
proof -
  let ?m = "startOperation False m"
  have s: "omap_op E ?m t" "same_map E 0 m ?m" using start_op [OF m] by auto
  have hf: "height t < fuel" using m fuel by (simp add: omap_rep_def)
  obtain M where M: "opst E (m_oram ?m) M" "tree_at M (m_rootKey ?m) (m_rootPos ?m) t" "dom M = tkeys t"
    and o: "ordered t" "avl t" "closed (m_oram ?m) t" "m_dummyValue ?m = o_dummyValue (m_oram ?m)"
    using s(1) by (auto simp: omap_op_def)
  show ?thesis
  proof (cases "t = Leaf")
    case True
    then have "bid_eq_int (m_rootKey ?m) 0" using tree_at_zero [OF M(1,2)] by simp
    moreover obtain fu where "fuel = Suc fu" using fuel by (cases fuel) auto
    ultimately have "run_rewrite (AVL_rewrite f) E fuel key m = Inr ([], ?m)"
      by (simp add: run_rewrite_def root_stub_def)
    then show ?thesis using that s True by simp
  next
    case False
    have stub: "tree_at M (nkey (root_stub E ?m)) (npos (root_stub E ?m)) t" using M(2) by (simp add: root_stub_def)
    obtain st' M' where R: "AVL_rewrite f E (m_dummyValue ?m) fuel (Some (root_stub E ?m)) key (m_oram ?m) = Inr (old_value key t, st')"
      "opst E st' M'" "tree_at M' (m_rootKey ?m) (m_rootPos ?m) (rewritten f key t)" "dom M' = dom M"
      "eff 0 (tkeys t) (m_oram ?m) st'" "closed st' (rewritten f key t)" "rootc st' t"
      using AVL_rewrite_op [OF E key M(1) stub False o(3) o(4) [symmetric] o(1,2) hf f] unfolding rewrote_def
      by (auto simp: root_stub_def)
    have cfg: "cfg st' = cfg (m_oram ?m)" using R(5) by (simp add: eff_def)
    have sh: "ordered (rewritten f key t)" "avl (rewritten f key t)"
      using o ins_ordered [OF o(1)] ins_avl [OF o(2)] by (auto simp: rewritten_def split: option.splits sum.splits)
    have "omap_op E (?m\<lparr>m_oram := st'\<rparr>) (rewritten f key t)"
      using R(2-4,6) sh o(4) cfgD(9) [OF cfg] rewritten_keys [OF o(1)] M(3) by (auto simp: omap_op_def)
    moreover have "same_map E 0 ?m (?m\<lparr>m_oram := st'\<rparr>)"
      using R(5) top_height_cfg [OF cfg, of E] by (simp add: same_map_def eff_def)
    then have "same_map E 0 m (?m\<lparr>m_oram := st'\<rparr>)" using same_map_trans [OF s(2)] by fastforce
    moreover have "run_rewrite (AVL_rewrite f) E fuel key m = Inr (old_value key t, ?m\<lparr>m_oram := st'\<rparr>)"
      using R(1) by (simp add: run_rewrite_def Let_def)
    moreover have "rootc st' (rewritten f key t)" using R(7) rootc_rewritten [OF o(2,1)] by simp
    ultimately show ?thesis using that by simp
  qed
qed

text \<open>Errors of the rewriting function or of the copy of its result come out.\<close>

lemma AVL_rewrite_error:
  assumes E: "env_ok E" and key: "bid_wf (ID_SIZE (e_scheme E)) key"
  shows "opst E st M \<Longrightarrow> tree_at M (nkey h) (npos h) t \<Longrightarrow> t \<noteq> Leaf \<Longrightarrow> closed st t \<Longrightarrow> o_dummyValue st = dv \<Longrightarrow>
    ordered t \<Longrightarrow> height t < fuel \<Longrightarrow> tmap t key = Some w \<Longrightarrow> ebind (f (bytes_string w)) value_bytes = Inl err \<Longrightarrow>
    AVL_rewrite f E dv fuel (Some h) key st = Inl err"
proof (induction t arbitrary: fuel h st)
  case (Node l e r)
  obtain x u where e: "e = (x, u)" by (cases e)
  note P = Node.prems [unfolded e]
  obtain fu where fu: "fuel = Suc fu" "height l < fu" "height r < fu" using P(7) by (cases fuel) auto
  note o = ordered_tkeys [OF P(6)]
  obtain n where n: "nkey h = x" "M x = Some n" "npos n = npos h" "nvalue n = u" "children M n l r"
    using P(2) by (auto simp: children_def)
  have g: "nkey n = x" "good E st n" using opst_good [OF P(1) n(2)] by auto
  have nz: "\<not> bid_eq_int x 0" "\<not> is_stale E dv x"
    using opst_nonzero [OF P(1) n(2)] not_stale g P(5) by (auto simp: good_def)
  note cmp = opst_cmp [OF P(1) n(2) key]
  obtain st1 where R: "ReadNode E x (npos h) (npos h) st = Inr (Some n, st1)" "opst E st1 M" "eff 0 {x} st st1"
    using ReadNode_tree [OF E P(1) n(2)] n(3) by metis
  have cl1: "closed st1 l" "closed st1 r"
    by (rule closed_eff [OF _ R(3)], use P(4) o(5,6) tbelow_keys [of l] tbelow_keys [of r] in auto)+
  have dv1: "o_dummyValue st1 = dv" using P(5) eff_dummyValue [OF R(3)] by simp
  have down: "ebind (ReadNode E k p p st1) (\<lambda>(c, st). AVL_rewrite f E dv fu c key st) = Inl err"
    if t: "tree_at M k p t" "closed st1 t" "ordered t" "height t < fu" "tmap t key = Some w"
      and IH: "\<And>h st. opst E st M \<Longrightarrow> tree_at M (nkey h) (npos h) t \<Longrightarrow> t \<noteq> Leaf \<Longrightarrow> closed st t \<Longrightarrow> o_dummyValue st = dv \<Longrightarrow>
        AVL_rewrite f E dv fu (Some h) key st = Inl err" for k p t
  proof -
    have ne: "t \<noteq> Leaf" using t(5) by (auto simp: tmap_def)
    obtain c st2 where C: "ReadNode E k p p st1 = Inr (c, st2)" "opst E st2 M" "eff 0 (troot t) st1 st2" "closed st2 t"
      "c = None \<longleftrightarrow> t = Leaf" "\<And>n. c = Some n \<Longrightarrow> tree_at M (nkey n) (npos n) t \<and> nkey n = k \<and> npos n = p"
      using read_child [OF E R(2) t(1,2,3)] by metis
    then obtain m where m: "c = Some m" using ne by auto
    have dv2: "o_dummyValue st2 = dv" using dv1 eff_dummyValue [OF C(3)] by simp
    show ?thesis using IH [OF C(2) conjunct1 [OF C(6) [OF m]] ne C(4) dv2] C(1) m by simp
  qed
  have tl: "tree_at M (nleftID n) (nleftPos n) l" and tr: "tree_at M (nrightID n) (nrightPos n) r"
    using n(5) by (auto simp: children_def)
  consider "key < x" | "x < key" | "key = x" by force
  then show ?case
  proof cases
    case 1
    then have "tmap l key = Some w" using P(8) tmap_Node [OF P(6), of key] by simp
    then have "ebind (ReadNode E (nleftID n) (nleftPos n) (nleftPos n) st1) (\<lambda>(c, st). AVL_rewrite f E dv fu c key st) = Inl err"
      by (intro down [OF tl cl1(1) o(1) fu(2)] Node.IH(1)) (use o(1) fu(2) P(9) in auto)
    then show ?thesis using fu(1) n nz R(1) g(1) cmp 1 by simp
  next
    case 2
    then have "tmap r key = Some w" using P(8) tmap_Node [OF P(6), of key] less_not_sym [OF 2] by simp
    then have "ebind (ReadNode E (nrightID n) (nrightPos n) (nrightPos n) st1) (\<lambda>(c, st). AVL_rewrite f E dv fu c key st) = Inl err"
      by (intro down [OF tr cl1(2) o(2) fu(3)] Node.IH(2)) (use o(2) fu(3) P(9) in auto)
    then show ?thesis using fu(1) n nz R(1) g(1) cmp 2 less_not_sym [OF 2] by simp
  next
    case 3
    then have "u = w" using P(8) tmap_Node [OF P(6), of key] by simp
    then have "rewrite_value f E key n st1 = Inl err"
      using P(9) n(4) by (cases "f (bytes_string w)") (auto simp: rewrite_value_def Let_def)
    then show ?thesis using fu(1) n nz R(1) g(1) cmp 3 by simp
  qed
qed simp

section \<open>Rewriting as a step on the map\<close>

text \<open>What a stored text reads as: all 16 bytes, trailing zeros included.\<close>

definition padded :: "string \<Rightarrow> string" where
  "padded s = bytes_string (value_of s)"

lemma padded_eq: "padded s = s @ replicate (16 - length s) NUL"
  by (simp add: padded_def value_of_def)

lemma padded_not_Nil: "length s \<le> 16 \<Longrightarrow> padded s \<noteq> []"
  by (auto simp: padded_eq)

lemma length_padded [simp]: "length s \<le> 16 \<Longrightarrow> length (padded s) = 16"
  by (simp add: padded_eq)

lemma string_bytes_NULs [simp]: "string_bytes (replicate n NUL) = replicate n 0"
  by (simp add: string_bytes_def)

lemma value_of_padded: "length s \<le> 16 \<Longrightarrow> value_of (padded s) = value_of s"
  by (simp add: value_of_def [of "padded s"]) (simp add: padded_eq value_of_def)

lemma omap_relE:
  assumes "omap_rel E fuel h cap f m"
  obtains t where "omap_rep E m t" "\<forall>k. tmap t k = map_option value_of (f k)" "\<forall>k s. f k = Some s \<longrightarrow> text_ok s"
    "rs_empty (o_store (m_oram m)) + (if e_scheme E = Horus then size t else 0) = cap"
    "env_ok E" "h < fuel" "top_height E (m_oram m) = h" "m_dummyValue m = 0" "ordered t" "avl t" "tkeys t = dom f"
proof -
  obtain t where t: "omap_rep E m t" "\<forall>k. tmap t k = map_option value_of (f k)" "\<forall>k s. f k = Some s \<longrightarrow> text_ok s"
    "rs_empty (o_store (m_oram m)) + (if e_scheme E = Horus then size t else 0) = cap"
    using assms by (auto simp: omap_rel_def)
  moreover have "tkeys t = dom f" using dom_tmap [of t] t(2) by (auto simp: tkeys_def dom_def)
  moreover have "ordered t" "avl t" using t(1) by (auto simp: omap_rep_def)
  ultimately show ?thesis using that assms by (auto simp: omap_rel_def)
qed

lemma rewrite_present_rel:
  assumes rel: "omap_rel E fuel h cap f m" and key: "bid_wf (ID_SIZE (e_scheme E)) key" and s: "f key = Some s"
    and g: "g (padded s) = Inr u" "length u \<le> 16" "value_of u = value_of s'" "text_ok s'"
  obtains m1 m' where "run_rewrite (AVL_rewrite g) E fuel key m = Inr (padded s, m1)"
    "finishOperation E isFind m1 = Inr m'" "omap_rel E fuel h cap (f(key \<mapsto> s')) m'"
proof -
  obtain t where t: "omap_rep E m t" "\<forall>k. tmap t k = map_option value_of (f k)" "\<forall>k s. f k = Some s \<longrightarrow> text_ok s"
    "rs_empty (o_store (m_oram m)) + (if e_scheme E = Horus then size t else 0) = cap"
    and c: "env_ok E" "h < fuel" "top_height E (m_oram m) = h" "m_dummyValue m = 0" and o: "ordered t" "avl t" "tkeys t = dom f"
    using omap_relE [OF rel] by metis
  have w: "tmap t key = Some (value_of s)" using t(2) s by simp
  have gw: "g (bytes_string (value_of s)) = Inr u" using g(1) by (simp add: padded_def)
  have can: "can_rewrite g key t" using w gw g(2) by (simp add: can_rewrite_def)
  let ?t = "ins key (value_of s') t"
  have rw: "rewritten g key t = ins key (value_of s') t" "old_value key t = bytes_string (value_of s)"
    using rewritten_present [OF w, of g u] gw g(3) by auto
  have fuel: "top_height E (m_oram m) < fuel" using c by simp
  obtain m1 where R: "run_rewrite (AVL_rewrite g) E fuel key m = Inr (old_value key t, m1)"
    "omap_op E m1 (rewritten g key t)" "rootc (m_oram m1) (rewritten g key t)" "same_map E 0 m m1"
    by (rule run_rewrite_rep [OF c(1) t(1) key fuel can])
  have h1: "height ?t \<le> top_height E (m_oram m1)" "top_height E (m_oram m1) < 2 ^ 27"
    using R(4) t(1) rewritten_height [OF o(2,1), of g key] rw(1) by (simp_all add: same_map_def omap_rep_def)
  obtain m' where F: "finishOperation E isFind m1 = Inr m'" "omap_rep E m' ?t" "same_map E 0 m1 m'"
    by (rule finish_op [OF c(1) R(2,3) [unfolded rw(1)] h1])
  have "key \<in> tkeys t" using o(3) s by auto
  then have sz: "size ?t = size t" using size_ins [OF o(1)] by simp
  have "omap_rel E fuel h cap (f(key \<mapsto> s')) m'"
    unfolding omap_rel_def
  proof (intro conjI exI [of _ ?t])
    show "\<forall>k. tmap ?t k = map_option value_of ((f(key \<mapsto> s')) k)" using ins_tmap [OF o(1)] t(2) by simp
    show "\<forall>k s. (f(key \<mapsto> s')) k = Some s \<longrightarrow> text_ok s" using t(3) g(4) by simp
  qed (use c F(2,3) R(4) t(4) sz in \<open>auto simp: same_map_def\<close>)
  then show ?thesis using that R(1) F(1) rw(2) by (simp add: padded_def)
qed

lemma rewrite_absent_rel:
  assumes rel: "omap_rel E fuel h cap f m" and key: "bid_wf (ID_SIZE (e_scheme E)) key" and s: "f key = None"
  obtains m1 m' where "run_rewrite (AVL_rewrite g) E fuel key m = Inr ([], m1)"
    "finishOperation E isFind m1 = Inr m'" "omap_rel E fuel h cap f m'"
proof -
  obtain t where t: "omap_rep E m t" "\<forall>k. tmap t k = map_option value_of (f k)" "\<forall>k s. f k = Some s \<longrightarrow> text_ok s"
    "rs_empty (o_store (m_oram m)) + (if e_scheme E = Horus then size t else 0) = cap"
    and c: "env_ok E" "h < fuel" "top_height E (m_oram m) = h" "m_dummyValue m = 0" and o: "ordered t" "avl t" "tkeys t = dom f"
    using omap_relE [OF rel] by metis
  have w: "tmap t key = None" using t(2) s by simp
  have rw: "rewritten g key t = t" "old_value key t = []" "can_rewrite g key t" using rewritten_absent [OF w] by auto
  have fuel: "top_height E (m_oram m) < fuel" using c by simp
  obtain m1 where R: "run_rewrite (AVL_rewrite g) E fuel key m = Inr ([], m1)"
    "omap_op E m1 t" "rootc (m_oram m1) t" "same_map E 0 m m1"
    using run_rewrite_rep [OF c(1) t(1) key fuel rw(3)] rw(1,2) by metis
  have h1: "height t \<le> top_height E (m_oram m1)" "top_height E (m_oram m1) < 2 ^ 27"
    using R(4) t(1) by (simp_all add: same_map_def omap_rep_def)
  obtain m' where F: "finishOperation E isFind m1 = Inr m'" "omap_rep E m' t" "same_map E 0 m1 m'"
    by (rule finish_op [OF c(1) R(2,3) h1])
  have "omap_rel E fuel h cap f m'"
    unfolding omap_rel_def by (intro conjI exI [of _ t]) (use c F(2,3) R(4) t in \<open>auto simp: same_map_def\<close>)
  then show ?thesis using that R(1) F(1) by simp
qed

text \<open>A rewrite that finds nothing, followed by an insertion in the same operation.\<close>

lemma rewrite_insert_rel:
  assumes rel: "omap_rel E fuel h cap f m" and s: "f key = None" and ok: "omap_ok E h cap (Put key s') f"
  obtains m1 m2 m' where "run_rewrite (AVL_rewrite g) E fuel key m = Inr ([], m1)"
    "insert_as_is E fuel key s' m1 = Inr m2" "finishOperation E isFind m2 = Inr m'" "omap_rel E fuel h cap (f(key \<mapsto> s')) m'"
proof -
  obtain t where t: "omap_rep E m t" "\<forall>k. tmap t k = map_option value_of (f k)" "\<forall>k s. f k = Some s \<longrightarrow> text_ok s"
    "rs_empty (o_store (m_oram m)) + (if e_scheme E = Horus then size t else 0) = cap"
    and c: "env_ok E" "h < fuel" "top_height E (m_oram m) = h" "m_dummyValue m = 0" and o: "ordered t" "avl t" "tkeys t = dom f"
    using omap_relE [OF rel] by metis
  have ok': "key_ok E 0 key" "text_ok s'" "card (insert key (dom f)) < min_size (Suc h)" "card (insert key (dom f)) \<le> cap"
    using ok by auto
  have w: "tmap t key = None" and nk: "key \<notin> tkeys t" using t(2) s o(3) by auto
  have rw: "rewritten g key t = t" "old_value key t = []" "can_rewrite g key t" using rewritten_absent [OF w] by auto
  have fuel: "top_height E (m_oram m) < fuel" using c by simp
  have key: "bid_wf (ID_SIZE (e_scheme E)) key" using ok'(1) by (simp add: key_ok_def)
  obtain m1 where R: "run_rewrite (AVL_rewrite g) E fuel key m = Inr ([], m1)"
    "omap_op E m1 t" "rootc (m_oram m1) t" "same_map E 0 m m1"
    using run_rewrite_rep [OF c(1) t(1) key fuel rw(3)] rw(1,2) by metis
  let ?t = "ins key (value_of s') t"
  have sz: "size ?t = card (insert key (dom f))"
    using size_tkeys [OF ins_ordered [OF o(1)]] keys_ins [OF o(1)] o(3) by (simp add: tkeys_def)
  have szt: "size ?t = Suc (size t)" using size_ins [OF o(1)] nk by simp
  have ht: "height t \<le> h" "h < 2 ^ 27" using t(1) c(3) by (simp_all add: omap_rep_def)
  have h1: "height t < 2 ^ 27" "height t < fuel" using ht c(2) by simp_all
  have room: "taken E key t \<le> rs_empty (o_store (m_oram m1))"
    using R(4) t(4) sz szt ok'(4) by (auto simp: taken_def same_map_def split: if_splits)
  have key1: "key_ok E (m_dummyValue m1) key" using ok'(1) R(4) c(4) by (simp add: same_map_def)
  have len: "length s' \<le> 16" using ok'(2) by (simp add: text_ok_def)
  obtain k' p st' where I: "AVL_insert E (m_dummyValue m1) fuel (m_rootKey m1) (m_rootPos m1) key s' (m_oram m1) = Inr ((k', p), st')"
    "omap_op E (m1\<lparr>m_rootKey := k', m_rootPos := p, m_oram := st'\<rparr>) ?t" "rootc st' ?t"
    "same_map E (taken E key t) m1 (m1\<lparr>m_rootKey := k', m_rootPos := p, m_oram := st'\<rparr>)"
    using insert_any_rep [OF c(1) R(2) h1 key1 room len, of "m_rootKey m1"] by blast
  let ?m2 = "m1\<lparr>m_rootKey := k', m_rootPos := p, m_oram := st'\<rparr>"
  have sm: "same_map E (taken E key t) m ?m2" using same_map_trans [OF R(4) I(4)] by simp
  have h2: "height ?t \<le> top_height E (m_oram ?m2)" "top_height E (m_oram ?m2) < 2 ^ 27"
    using avl_height_bound [of ?t h] ins_avl [OF o(2)] sz ok'(3) ht(2) sm c(3) by (simp_all add: same_map_def)
  have rc: "rootc (m_oram ?m2) ?t" using I(3) by simp
  obtain m' where F: "finishOperation E isFind ?m2 = Inr m'" "omap_rep E m' ?t" "same_map E 0 ?m2 m'"
    by (rule finish_op [OF c(1) I(2) rc h2])
  have sm': "same_map E (taken E key t) m m'" using same_map_trans [OF sm F(3)] by simp
  have "omap_rel E fuel h cap (f(key \<mapsto> s')) m'"
    unfolding omap_rel_def
  proof (intro conjI exI [of _ ?t])
    show "\<forall>k. tmap ?t k = map_option value_of ((f(key \<mapsto> s')) k)" using ins_tmap [OF o(1)] t(2) by simp
    show "\<forall>k s. (f(key \<mapsto> s')) k = Some s \<longrightarrow> text_ok s" using t(3) ok'(2) by simp
    show "rs_empty (o_store (m_oram m')) + (if e_scheme E = Horus then size ?t else 0) = cap"
      using sm' t(4) szt nk by (auto simp: same_map_def taken_def)
  qed (use c F(2) sm' in \<open>auto simp: same_map_def\<close>)
  then show ?thesis using that R(1) I(1) F(1) by (simp add: insert_as_is_def)
qed

lemma rewrite_error_rel:
  assumes rel: "omap_rel E fuel h cap f m" and key: "bid_wf (ID_SIZE (e_scheme E)) key" and s: "f key = Some s"
    and g: "ebind (g (padded s)) value_bytes = Inl err"
  shows "run_rewrite (AVL_rewrite g) E fuel key m = Inl err"
proof -
  obtain t where t: "omap_rep E m t" "\<forall>k. tmap t k = map_option value_of (f k)"
    and c: "env_ok E" "h < fuel" "top_height E (m_oram m) = h" using omap_relE [OF rel] by metis
  let ?m = "startOperation False m"
  have so: "omap_op E ?m t" using start_op [OF t(1)] by auto
  have hf: "height t < fuel" using t(1) c by (simp add: omap_rep_def)
  obtain M where M: "opst E (m_oram ?m) M" "tree_at M (m_rootKey ?m) (m_rootPos ?m) t"
    and o: "ordered t" "closed (m_oram ?m) t" "m_dummyValue ?m = o_dummyValue (m_oram ?m)"
    using so by (auto simp: omap_op_def)
  have w: "tmap t key = Some (value_of s)" using t(2) s by simp
  have ne: "t \<noteq> Leaf" using w by (auto simp: tmap_def)
  have stub: "tree_at M (nkey (root_stub E ?m)) (npos (root_stub E ?m)) t" using M(2) by (simp add: root_stub_def)
  have "AVL_rewrite g E (m_dummyValue ?m) fuel (Some (root_stub E ?m)) key (m_oram ?m) = Inl err"
    using AVL_rewrite_error [OF c(1) key M(1) stub ne o(2) o(3) [symmetric] o(1) hf w] g by (simp add: padded_def)
  then show ?thesis by (simp add: run_rewrite_def Let_def)
qed

section \<open>The counter texts\<close>

lemma digits_NUL: "\<not> starts_digit (replicate n NUL)"
  by (cases n) (auto simp: starts_digit_def NUL_char is_digit_def)

lemma split2_padded:
  assumes "0 \<le> a" "0 \<le> b"
  shows "split2 (padded (show_pair a b)) = Inr (to_string a, to_string b @ replicate (16 - length (show_pair a b)) NUL)"
proof -
  let ?z = "replicate (16 - length (show_pair a b)) NUL"
  have "CHR ''-'' \<notin> set ?z" by (auto simp: NUL_char)
  then have d: "CHR ''-'' \<notin> set (to_string b @ ?z)" "CHR ''-'' \<notin> set (to_string a)"
    using to_string_no_dash assms by auto
  have "padded (show_pair a b) = to_string a @ CHR ''-'' # (to_string b @ ?z)"
    by (simp add: padded_eq show_pair_def)
  then have "splitData (padded (show_pair a b)) ''-'' = Some [to_string a, to_string b @ ?z]"
    using d by (simp add: splitData_single split_on_delim split_on_no_delim)
  then show ?thesis by (simp add: split2_def)
qed

definition count_ok :: "int \<Rightarrow> bool" where
  "count_ok a \<longleftrightarrow> 0 \<le> a \<and> a + 1 < 2 ^ 31"

lemma count_okD: "count_ok a \<Longrightarrow> int32 a \<and> int32 (a + 1) \<and> 0 \<le> a"
  by (simp add: count_ok_def int32_def)

lemma bump_first_padded:
  assumes "count_ok a" "0 \<le> b"
  shows "bump_first (padded (show_pair a b)) =
    Inr (to_string (a + 1) @ ''-'' @ to_string b @ replicate (16 - length (show_pair a b)) NUL)"
  using assms split2_padded [of a b] count_okD [OF assms(1)]
  by (simp add: bump_first_def bump_str_def)

lemma bump_second_padded:
  assumes "0 \<le> a" "count_ok b"
  shows "bump_second (padded (show_pair a b)) = Inr (show_pair a (b + 1))"
proof -
  have "stoi (to_string b @ replicate (16 - length (show_pair a b)) NUL) = Inr b"
    using stoi_to_string_append [OF _ digits_NUL] count_okD [OF assms(2)] by simp
  then show ?thesis using assms split2_padded [of a b] count_okD [OF assms(2)]
    by (simp add: bump_second_def bump_str_def show_pair_def)
qed

lemma bump_str_padded:
  assumes "int32 a" "int32 (a + d)"
  shows "bump_str d (padded (to_string a)) = Inr (to_string (a + d))"
  using stoi_to_string_append [OF assms(1) digits_NUL] assms(2) by (simp add: bump_str_def padded_eq)

text \<open>
  \<open>bump_first\<close> keeps the zeros that fill the second part up to 16 bytes: the new value fits
  exactly when the first part keeps its number of digits.
\<close>

definition same_digits :: "int \<Rightarrow> bool" where
  "same_digits a \<longleftrightarrow> length (to_string (a + 1)) = length (to_string a)"

lemma to_string_chars: "c \<in> set (to_string v) \<Longrightarrow> c \<noteq> NUL"
  using show_nat_digits digit_not_sign by (fastforce simp: to_string_def NUL_char split: if_splits)

lemma text_ok_show: "0 \<le> a \<Longrightarrow> 0 \<le> b \<Longrightarrow> length (show_pair a b) \<le> 16 \<Longrightarrow> text_ok (show_pair a b)"
  using to_string_chars by (auto simp: text_ok_def show_pair_def NUL_char)

lemma bump_first_fits:
  assumes "same_digits a" "length (show_pair a b) \<le> 16"
  shows "length (show_pair (a + 1) b) \<le> 16"
    "value_of (to_string (a + 1) @ ''-'' @ to_string b @ replicate (16 - length (show_pair a b)) NUL) = value_of (show_pair (a + 1) b)"
proof -
  have l: "length (show_pair (a + 1) b) = length (show_pair a b)" using assms(1) by (simp add: same_digits_def show_pair_def)
  then show "length (show_pair (a + 1) b) \<le> 16" using assms(2) by simp
  have "to_string (a + 1) @ ''-'' @ to_string b @ replicate (16 - length (show_pair a b)) NUL = padded (show_pair (a + 1) b)"
    using l by (simp add: padded_eq show_pair_def)
  then show "value_of (to_string (a + 1) @ ''-'' @ to_string b @ replicate (16 - length (show_pair a b)) NUL) = value_of (show_pair (a + 1) b)"
    using value_of_padded assms(2) l by simp
qed

lemma bump_first_overflow:
  assumes "count_ok a" "0 \<le> b" "length (show_pair a b) \<le> 16" "length (to_string a) < length (to_string (a + 1))"
  shows "ebind (bump_first (padded (show_pair a b))) value_bytes = Inl BufferOverflow"
proof -
  have "16 < length (to_string (a + 1) @ ''-'' @ to_string b @ replicate (16 - length (show_pair a b)) NUL)"
    using assms(3,4) by (simp add: show_pair_def)
  then show ?thesis using bump_first_padded [OF assms(1,2)] by (simp add: value_bytes_def copy_at_def)
qed

section \<open>The counters of the schemes\<close>

lemma bump_first_rel:
  assumes rel: "omap_rel E fuel h cap f m" and key: "bid_wf (ID_SIZE (e_scheme E)) key" and s: "f key = Some (show_pair a b)"
    and ok: "count_ok a" "0 \<le> b" "same_digits a" "length (show_pair a b) \<le> 16"
  obtains m1 m' where "run_rewrite (AVL_rewrite bump_first) E fuel key m = Inr (padded (show_pair a b), m1)"
    "finishOperation E isFind m1 = Inr m'" "omap_rel E fuel h cap (f(key \<mapsto> show_pair (a + 1) b)) m'"
proof -
  let ?u = "to_string (a + 1) @ ''-'' @ to_string b @ replicate (16 - length (show_pair a b)) NUL"
  note fit = bump_first_fits [OF ok(3,4)]
  have len: "length ?u \<le> 16" using ok(3,4) by (simp add: same_digits_def show_pair_def)
  have tx: "text_ok (show_pair (a + 1) b)" using fit(1) ok(2) count_okD [OF ok(1)] by (intro text_ok_show) auto
  show ?thesis
    by (rule rewrite_present_rel [where g = bump_first, OF rel key s bump_first_padded [OF ok(1,2)] len fit(2) tx, of isFind])
      (rule that)
qed

text \<open>Mitra: the first increment inserts \<open>1-0\<close> and answers \<open>0-0\<close>.\<close>

lemma mitra_count_present:
  assumes "omap_rel E fuel h cap f m" "bid_wf (ID_SIZE (e_scheme E)) key" "f key = Some (show_pair a b)"
    and ok: "count_ok a" "0 \<le> b" "same_digits a" "length (show_pair a b) \<le> 16"
  obtains m' where "mitra_OMAP_incrementFileCnt E fuel key m = Inr (padded (show_pair a b), m')"
    "omap_rel E fuel h cap (f(key \<mapsto> show_pair (a + 1) b)) m'"
proof -
  obtain m1 m' where "run_rewrite (AVL_rewrite bump_first) E fuel key m = Inr (padded (show_pair a b), m1)"
    "finishOperation E True m1 = Inr m'" "omap_rel E fuel h cap (f(key \<mapsto> show_pair (a + 1) b)) m'"
    by (rule bump_first_rel [OF assms])
  then show ?thesis using that padded_not_Nil [OF ok(4)]
    by (simp add: mitra_OMAP_incrementFileCnt_def mitra_incrementFileCnt_def)
qed

lemma mitra_count_absent:
  assumes "omap_rel E fuel h cap f m" "f key = None" "omap_ok E h cap (Put key ''1-0'') f"
  obtains m' where "mitra_OMAP_incrementFileCnt E fuel key m = Inr (''0-0'', m')"
    "omap_rel E fuel h cap (f(key \<mapsto> ''1-0'')) m'"
proof -
  obtain m1 m2 m' where "run_rewrite (AVL_rewrite bump_first) E fuel key m = Inr ([], m1)"
    "insert_as_is E fuel key ''1-0'' m1 = Inr m2" "finishOperation E True m2 = Inr m'" "omap_rel E fuel h cap (f(key \<mapsto> ''1-0'')) m'"
    by (rule rewrite_insert_rel [OF assms])
  then show ?thesis using that by (simp add: mitra_OMAP_incrementFileCnt_def mitra_incrementFileCnt_def)
qed

lemma mitra_count_overflow:
  assumes rel: "omap_rel E fuel h cap f m" "bid_wf (ID_SIZE (e_scheme E)) key" "f key = Some (show_pair a b)"
    and ok: "count_ok a" "0 \<le> b" "length (show_pair a b) \<le> 16" "length (to_string a) < length (to_string (a + 1))"
  shows "mitra_OMAP_incrementFileCnt E fuel key m = Inl BufferOverflow"
  using rewrite_error_rel [where g = bump_first, OF rel bump_first_overflow [OF ok]]
  by (simp add: mitra_OMAP_incrementFileCnt_def mitra_incrementFileCnt_def)

text \<open>QOS: the search count is the first part; an unknown keyword is not inserted.\<close>

lemma qos_src_present:
  assumes "omap_rel E fuel h cap f m" "bid_wf (ID_SIZE (e_scheme E)) key" "f key = Some (show_pair a b)"
    "count_ok a" "0 \<le> b" "same_digits a" "length (show_pair a b) \<le> 16"
  obtains m' where "qos_OMAP_incrementSrcCnt E fuel key m = Inr (padded (show_pair a b), m')"
    "omap_rel E fuel h cap (f(key \<mapsto> show_pair (a + 1) b)) m'"
proof -
  obtain m1 m' where "run_rewrite (AVL_rewrite bump_first) E fuel key m = Inr (padded (show_pair a b), m1)"
    "finishOperation E True m1 = Inr m'" "omap_rel E fuel h cap (f(key \<mapsto> show_pair (a + 1) b)) m'"
    by (rule bump_first_rel [OF assms])
  then show ?thesis using that by (simp add: qos_OMAP_incrementSrcCnt_def qos_incrementSrcCnt_def)
qed

text \<open>The static schemes and Horus keep a single number.\<close>

lemma length_show_nat: "n < 10 ^ Suc k \<Longrightarrow> length (show_nat n) \<le> Suc k"
proof (induction k arbitrary: n)
  case (Suc k)
  show ?case
  proof (cases "n < 10")
    case False
    then have "n div 10 < 10 ^ Suc k" using Suc.prems by (simp add: less_mult_imp_div_less)
    then have "length (show_nat (n div 10)) \<le> Suc k" by (rule Suc.IH)
    then show ?thesis using False by (simp add: show_nat.simps [of n])
  qed (simp add: show_nat.simps [of n])
qed (simp add: show_nat.simps)

lemma length_to_string: "int32 v \<Longrightarrow> length (to_string v) \<le> 11"
  using length_show_nat [of "nat v" 9] length_show_nat [of "nat (- v)" 9]
  by (auto simp: to_string_def int32_def nat_less_iff)

lemma text_ok_to_string: "int32 v \<Longrightarrow> text_ok (to_string v)"
  using length_to_string [of v] to_string_chars by (auto simp: text_ok_def)

lemma bump_str_rel:
  assumes rel: "omap_rel E fuel h cap f m" and key: "bid_wf (ID_SIZE (e_scheme E)) key" and s: "f key = Some (to_string a)"
    and ok: "int32 a" "int32 (a + d)"
  obtains m1 m' where "run_rewrite (AVL_rewrite (bump_str d)) E fuel key m = Inr (padded (to_string a), m1)"
    "finishOperation E isFind m1 = Inr m'" "omap_rel E fuel h cap (f(key \<mapsto> to_string (a + d))) m'"
proof -
  have len: "length (to_string (a + d)) \<le> 16" using length_to_string [OF ok(2)] by simp
  show ?thesis
    by (rule rewrite_present_rel [where g = "bump_str d", OF rel key s bump_str_padded [OF ok] len refl text_ok_to_string [OF ok(2)],
          of isFind]) (rule that)
qed

section \<open>Counters as a refinement\<close>

text \<open>
  The counter map of Horus: numbers under keys, set, read, incremented (by a search or an
  insertion) and decremented (by a removal). An absent key answers the empty string.
\<close>

datatype num_op = SetNum bid int | GetNum bid | SrcUp bid | UpdtUp bid | UpdtDown bid

definition num_bump :: "int \<Rightarrow> bid \<Rightarrow> (bid \<Rightarrow> int option) \<Rightarrow> string \<times> (bid \<Rightarrow> int option)" where
  "num_bump d k f = (case f k of None \<Rightarrow> ([], f) | Some v \<Rightarrow> (padded (to_string v), f(k \<mapsto> v + d)))"

fun num_step :: "num_op \<Rightarrow> (bid \<Rightarrow> int option) \<Rightarrow> string \<times> (bid \<Rightarrow> int option)" where
  "num_step (SetNum k v) f = ([], f(k \<mapsto> v))"
| "num_step (GetNum k) f = (case f k of None \<Rightarrow> [] | Some v \<Rightarrow> to_string v, f)"
| "num_step (SrcUp k) f = num_bump 1 k f"
| "num_step (UpdtUp k) f = num_bump 1 k f"
| "num_step (UpdtDown k) f = num_bump (- 1) k f"

fun num_cstep :: "env \<Rightarrow> nat \<Rightarrow> num_op \<Rightarrow> omap \<Rightarrow> (string \<times> omap) res" where
  "num_cstep E fuel (SetNum k v) m = ebind (OMAP_insert E fuel k (to_string v) m) (\<lambda>m. Inr ([], m))"
| "num_cstep E fuel (GetNum k) m = OMAP_find E fuel k m"
| "num_cstep E fuel (SrcUp k) m = horus_OMAP_incrementSrcCnt E fuel k m"
| "num_cstep E fuel (UpdtUp k) m = horus_OMAP_incrementUpdtCnt E fuel k m"
| "num_cstep E fuel (UpdtDown k) m = horus_OMAP_decrementUpdtCnt E fuel k m"

definition bump_allowed :: "env \<Rightarrow> int \<Rightarrow> bid \<Rightarrow> (bid \<Rightarrow> int option) \<Rightarrow> bool" where
  "bump_allowed E d k f \<longleftrightarrow> bid_wf (ID_SIZE (e_scheme E)) k \<and> (case f k of None \<Rightarrow> True | Some v \<Rightarrow> int32 (v + d))"

fun num_ok :: "env \<Rightarrow> nat \<Rightarrow> nat \<Rightarrow> num_op \<Rightarrow> (bid \<Rightarrow> int option) \<Rightarrow> bool" where
  "num_ok E h cap (SetNum k v) f \<longleftrightarrow>
     int32 v \<and> key_ok E 0 k \<and> card (insert k (dom f)) < min_size (Suc h) \<and> card (insert k (dom f)) \<le> cap"
| "num_ok E h cap (GetNum k) f \<longleftrightarrow> bid_wf (ID_SIZE (e_scheme E)) k"
| "num_ok E h cap (SrcUp k) f \<longleftrightarrow> bump_allowed E 1 k f"
| "num_ok E h cap (UpdtUp k) f \<longleftrightarrow> bump_allowed E 1 k f"
| "num_ok E h cap (UpdtDown k) f \<longleftrightarrow> bump_allowed E (- 1) k f"

definition num_rel :: "env \<Rightarrow> nat \<Rightarrow> nat \<Rightarrow> nat \<Rightarrow> (bid \<Rightarrow> int option) \<Rightarrow> omap \<Rightarrow> bool" where
  "num_rel E fuel h cap f m \<longleftrightarrow> omap_rel E fuel h cap (map_option to_string \<circ> f) m \<and> (\<forall>k v. f k = Some v \<longrightarrow> int32 v)"

lemma comp_upd: "map_option to_string \<circ> f(k \<mapsto> v) = (map_option to_string \<circ> f)(k \<mapsto> to_string v)"
  by auto

lemma dom_comp [simp]: "dom (map_option to_string \<circ> f) = dom f"
  by (auto simp: dom_def)

lemma num_bump_rel:
  assumes rel: "num_rel E fuel h cap f m" and ok: "bump_allowed E d k f"
  shows "\<exists>m'. ebind (run_rewrite (AVL_rewrite (bump_str d)) E fuel k m) (\<lambda>(res, m).
      ebind (finishOperation E True m) (\<lambda>m. Inr (res, m))) = Inr (fst (num_bump d k f), m') \<and>
    num_rel E fuel h cap (snd (num_bump d k f)) m'"
proof -
  have r: "omap_rel E fuel h cap (map_option to_string \<circ> f) m" and i: "\<forall>k v. f k = Some v \<longrightarrow> int32 v"
    using rel by (auto simp: num_rel_def)
  have k: "bid_wf (ID_SIZE (e_scheme E)) k" using ok by (simp add: bump_allowed_def)
  show ?thesis
  proof (cases "f k")
    case None
    then have "(map_option to_string \<circ> f) k = None" by simp
    then obtain m1 m' where "run_rewrite (AVL_rewrite (bump_str d)) E fuel k m = Inr ([], m1)"
      "finishOperation E True m1 = Inr m'" "omap_rel E fuel h cap (map_option to_string \<circ> f) m'"
      using rewrite_absent_rel [OF r k] by metis
    then show ?thesis using None i by (simp add: num_bump_def num_rel_def)
  next
    case (Some v)
    then have "(map_option to_string \<circ> f) k = Some (to_string v)" "int32 v" "int32 (v + d)"
      using i ok by (auto simp: bump_allowed_def)
    then obtain m1 m' where "run_rewrite (AVL_rewrite (bump_str d)) E fuel k m = Inr (padded (to_string v), m1)"
      "finishOperation E True m1 = Inr m'" "omap_rel E fuel h cap ((map_option to_string \<circ> f)(k \<mapsto> to_string (v + d))) m'"
      using bump_str_rel [OF r k] by metis
    then show ?thesis using Some i ok by (simp add: num_bump_def num_rel_def comp_upd bump_allowed_def)
  qed
qed

lemma num_step_map:
  assumes rel: "num_rel E fuel h cap f m" and ok: "omap_ok E h cap p (map_option to_string \<circ> f)"
  shows "\<exists>m'. omap_step E fuel p m = Inr (fst (map_step p (map_option to_string \<circ> f)), m') \<and>
    omap_rel E fuel h cap (snd (map_step p (map_option to_string \<circ> f))) m'"
  using omap.step [of E fuel h cap "map_option to_string \<circ> f" m p] assms by (simp add: num_rel_def)

interpretation num: simulation "num_rel E fuel h cap" "num_ok E h cap" num_step "num_cstep E fuel" for E fuel h cap
proof
  fix f m p assume rel: "num_rel E fuel h cap f m" and ok: "num_ok E h cap p f"
  show "\<exists>m'. num_cstep E fuel p m = Inr (fst (num_step p f), m') \<and> num_rel E fuel h cap (snd (num_step p f)) m'"
  proof (cases p)
    case (SetNum k v)
    then show ?thesis
      using num_step_map [OF rel, of "Put k (to_string v)"] ok rel text_ok_to_string
      by (fastforce simp: num_rel_def comp_upd)
  next
    case (GetNum k)
    then show ?thesis
      using num_step_map [OF rel, of "Get k"] ok rel by (auto simp: num_rel_def split: option.splits)
  next
    case (SrcUp k)
    then show ?thesis using num_bump_rel [OF rel, of 1 k] ok by (simp add: horus_OMAP_incrementSrcCnt_def horus_incrementSrcCnt_def)
  next
    case (UpdtUp k)
    then show ?thesis using num_bump_rel [OF rel, of 1 k] ok by (simp add: horus_OMAP_incrementUpdtCnt_def horus_incrementUpdtCnt_def)
  next
    case (UpdtDown k)
    then show ?thesis using num_bump_rel [OF rel, of "- 1" k] ok by (simp add: horus_OMAP_decrementUpdtCnt_def horus_decrementUpdtCnt_def)
  qed
qed

section \<open>The leaf counter of QOS\<close>

text \<open>
  \<open>incrementAwCnt\<close> is the rewrite of the second part at the root and the rewrite of the first part
  below it.
\<close>

lemma qos_incrementAwCnt_eq:
  assumes E: "env_ok E" and sch: "e_scheme E \<noteq> Static" and key: "bid_wf (ID_SIZE (e_scheme E)) key" and m: "omap_rep E m t"
    and t: "t = Node l (x, w) r"
  shows "run_rewrite qos_incrementAwCnt E fuel key m =
    run_rewrite (AVL_rewrite (if key = x then bump_second else bump_first)) E (Suc fuel) key m"
proof -
  let ?m = "startOperation False m"
  obtain M where M: "opst E (m_oram ?m) M" "tree_at M (m_rootKey ?m) (m_rootPos ?m) t"
    using start_op [OF m] by (auto simp: omap_op_def)
  have x: "m_rootKey ?m = x" using M(2) t by simp
  obtain n where n: "M x = Some n" "npos n = m_rootPos ?m" using M(2) t by auto
  have g: "nkey n = x" using opst_good [OF M(1) n(1)] by simp
  have nz: "\<not> bid_eq_int x 0" using opst_nonzero [OF M(1) n(1)] .
  have st: "\<not> is_stale E dv x" for dv using sch by (simp add: is_stale_def)
  note cmp = opst_cmp [OF M(1) n(1) key]
  obtain st1 where R: "ReadNode E x (m_rootPos ?m) (m_rootPos ?m) (m_oram ?m) = Inr (Some n, st1)"
    using ReadNode_tree [OF E M(1) n(1)] n(2) by metis
  show ?thesis
    using R x nz st g cmp less_not_sym [of key x]
    by (auto simp: run_rewrite_def Let_def root_stub_def qos_incrementAwCnt_def qos_incrementSrcCnt_def)
qed

lemma omap_rel_root:
  assumes "omap_rel E fuel h cap f m" "f key = Some s"
  obtains t l w r where "omap_rep E m t" "t = Node l (m_rootKey m, w) r"
proof -
  obtain t where t: "omap_rep E m t" "tkeys t = dom f" using omap_relE [OF assms(1)] by metis
  then have "t \<noteq> Leaf" using assms(2) by auto
  then obtain l x w r where n: "t = Node l (x, w) r" by (cases t) auto
  then have "x = m_rootKey m" using t(1) by (auto simp: omap_rep_def)
  then show ?thesis using that t(1) n by blast
qed

lemma omap_rel_fuel: "omap_rel E fuel h cap f m \<Longrightarrow> omap_rel E (Suc fuel) h cap f m"
  by (auto simp: omap_rel_def)

lemma qos_aw_present:
  assumes rel: "omap_rel E fuel h cap f m" and sch: "e_scheme E \<noteq> Static" and key: "bid_wf (ID_SIZE (e_scheme E)) key"
    and s: "f key = Some (show_pair a b)" and ok: "count_ok a" "count_ok b" "length (show_pair a b) \<le> 16"
    and fit: "if key = m_rootKey m then length (show_pair a (b + 1)) \<le> 16 else same_digits a"
  obtains m' where "qos_OMAP_incrementAwCnt E fuel key m = Inr (padded (show_pair a b), m')"
    "omap_rel E fuel h cap (f(key \<mapsto> (if key = m_rootKey m then show_pair a (b + 1) else show_pair (a + 1) b))) m'"
proof -
  obtain t l w r where t: "omap_rep E m t" "t = Node l (m_rootKey m, w) r" using omap_rel_root [OF rel s] by metis
  have E: "env_ok E" "h < fuel" using rel by (simp_all add: omap_rel_def)
  note rel' = omap_rel_fuel [OF rel]
  let ?s = "if key = m_rootKey m then show_pair a (b + 1) else show_pair (a + 1) b"
  have nn: "0 \<le> a" "0 \<le> b" using ok by (simp_all add: count_ok_def)
  obtain m1 m' where r: "run_rewrite (AVL_rewrite (if key = m_rootKey m then bump_second else bump_first)) E (Suc fuel) key m = Inr (padded (show_pair a b), m1)"
    "finishOperation E True m1 = Inr m'" "omap_rel E (Suc fuel) h cap (f(key \<mapsto> ?s)) m'"
  proof (cases "key = m_rootKey m")
    case True
    then have len: "length (show_pair a (b + 1)) \<le> 16" using fit by simp
    then have tx: "text_ok (show_pair a (b + 1))" using nn by (intro text_ok_show) auto
    obtain m1 m' where "run_rewrite (AVL_rewrite bump_second) E (Suc fuel) key m = Inr (padded (show_pair a b), m1)"
      "finishOperation E True m1 = Inr m'" "omap_rel E (Suc fuel) h cap (f(key \<mapsto> show_pair a (b + 1))) m'"
      by (rule rewrite_present_rel [where g = bump_second, OF rel' key s bump_second_padded [OF nn(1) ok(2)] len refl tx])
    then show ?thesis using that True by simp
  next
    case False
    then have sd: "same_digits a" using fit by simp
    obtain m1 m' where "run_rewrite (AVL_rewrite bump_first) E (Suc fuel) key m = Inr (padded (show_pair a b), m1)"
      "finishOperation E True m1 = Inr m'" "omap_rel E (Suc fuel) h cap (f(key \<mapsto> show_pair (a + 1) b)) m'"
      by (rule bump_first_rel [OF rel' key s ok(1) nn(2) sd ok(3)])
    then show ?thesis using that False by simp
  qed
  have "omap_rel E fuel h cap (f(key \<mapsto> ?s)) m'" using r(3) E(2) by (auto simp: omap_rel_def)
  moreover have "qos_OMAP_incrementAwCnt E fuel key m = Inr (padded (show_pair a b), m')"
    using r(1,2) padded_not_Nil [OF ok(3)] qos_incrementAwCnt_eq [OF E(1) sch key t]
    by (simp add: qos_OMAP_incrementAwCnt_def)
  ultimately show ?thesis using that by blast
qed

section \<open>Repeated increments\<close>

lemma crun_snoc:
  "crun f (ps @ [p]) s = ebind (crun f ps s) (\<lambda>(outs, t). ebind (f p t) (\<lambda>(out, u). Inr (outs @ [out], u)))"
proof (induction ps arbitrary: s)
  case Nil
  then show ?case by (cases "f p s") auto
next
  case (Cons q ps)
  then show ?case by (cases "f q s") (auto simp: ebind_assoc split_beta intro!: ebind_cong)
qed

lemma min_size_pos: "k < min_size (Suc k)"
  by (induction k rule: min_size.induct) auto

lemma omap_cap_pos: "maxSize div Z \<noteq> 0 \<Longrightarrow> 1 < omap_cap maxSize"
proof -
  have "(1::nat) \<le> 2 ^ ilog2 (maxSize div Z)" by simp
  then have "1 \<le> 2 ^ (ilog2 (maxSize div Z) + 1) - (1::nat)" unfolding power_add power_one_right by linarith
  then show ?thesis by (simp add: omap_cap_def Z_def)
qed

lemma omap_top_pos: "maxSize div Z \<noteq> 0 \<Longrightarrow> 2 \<le> omap_top E maxSize"
proof -
  assume "maxSize div Z \<noteq> 0"
  then have "1 < omap_cap maxSize" by (rule omap_cap_pos)
  then have "1 \<le> ilog2 (omap_cap maxSize)" by (simp add: ilog2.simps [of "omap_cap maxSize"])
  then show ?thesis by (simp add: omap_top_def)
qed

text \<open>Mitra's counters: up to nine increments of a fresh key answer in turn \<open>0-0, 1-0, \<dots>\<close>.\<close>

definition mitra_answer :: "nat \<Rightarrow> string" where
  "mitra_answer i = (if i = 0 then ''0-0'' else padded (show_pair (int i) 0))"

lemma same_digits_small: "0 \<le> a \<Longrightarrow> a < 9 \<Longrightarrow> same_digits a"
  by (simp add: same_digits_def to_string_def show_nat.simps nat_less_iff)

lemma length_show_small: "0 \<le> a \<Longrightarrow> a \<le> 9 \<Longrightarrow> int32 b \<Longrightarrow> length (show_pair a b) \<le> 16"
proof -
  assume a: "0 \<le> a" "a \<le> 9" and b: "int32 b"
  have "length (to_string a) = 1" using a by (simp add: to_string_def show_nat.simps nat_less_iff)
  then show ?thesis using length_to_string [OF b] by (simp add: show_pair_def)
qed

lemma mitra_counts_rel:
  assumes "omap_rel E fuel h cap (\<lambda>_. None) m" "key_ok E 0 key" "1 < min_size (Suc h)" "1 \<le> cap"
  shows "n < 9 \<Longrightarrow> \<exists>m'. crun (\<lambda>k m. mitra_OMAP_incrementFileCnt E fuel k m) (replicate (Suc n) key) m = Inr (map mitra_answer [0..<Suc n], m') \<and>
    omap_rel E fuel h cap [key \<mapsto> show_pair (int (Suc n)) 0] m'"
proof (induction n)
  case 0
  have "omap_ok E h cap (Put key ''1-0'') (\<lambda>_. None)" using assms(2-4) by (simp add: text_ok_def NUL_char)
  then obtain m' where "mitra_OMAP_incrementFileCnt E fuel key m = Inr (''0-0'', m')"
    "omap_rel E fuel h cap [key \<mapsto> ''1-0''] m'"
    using mitra_count_absent [OF assms(1)] by blast
  moreover have "show_pair 1 0 = ''1-0''" by code_simp
  ultimately show ?case by (simp add: mitra_answer_def fun_upd_def)
next
  case (Suc n)
  then obtain m' where m': "crun (\<lambda>k m. mitra_OMAP_incrementFileCnt E fuel k m) (replicate (Suc n) key) m = Inr (map mitra_answer [0..<Suc n], m')"
    "omap_rel E fuel h cap [key \<mapsto> show_pair (int (Suc n)) 0] m'" using Suc_lessD by blast
  have key: "bid_wf (ID_SIZE (e_scheme E)) key" using assms(2) by (simp add: key_ok_def)
  have ok: "count_ok (int (Suc n))" "same_digits (int (Suc n))" "length (show_pair (int (Suc n)) 0) \<le> 16"
    using Suc.prems by (auto simp: count_ok_def int32_def intro!: same_digits_small length_show_small)
  have fk: "[key \<mapsto> show_pair (int (Suc n)) 0] key = Some (show_pair (int (Suc n)) 0)" by simp
  obtain m2 where "mitra_OMAP_incrementFileCnt E fuel key m' = Inr (padded (show_pair (int (Suc n)) 0), m2)"
    "omap_rel E fuel h cap ([key \<mapsto> show_pair (int (Suc n)) 0](key \<mapsto> show_pair (int (Suc n) + 1) 0)) m2"
    using mitra_count_present [OF m'(2) key fk ok(1) order_refl ok(2,3)] by blast
  then have m2: "mitra_OMAP_incrementFileCnt E fuel key m' = Inr (padded (show_pair (int (Suc n)) 0), m2)"
    "omap_rel E fuel h cap [key \<mapsto> show_pair (int (Suc n) + 1) 0] m2" by (simp_all only: fun_upd_upd)
  have a: "padded (show_pair (int (Suc n)) 0) = mitra_answer (Suc n)" by (simp add: mitra_answer_def)
  have i: "int (Suc n) + 1 = int (Suc (Suc n))" by simp
  have r: "replicate (Suc (Suc n)) key = replicate (Suc n) key @ [key]" by (simp add: replicate_append_same)
  have "crun (\<lambda>k m. mitra_OMAP_incrementFileCnt E fuel k m) (replicate (Suc (Suc n)) key) m =
      Inr (map mitra_answer [0..<Suc n] @ [mitra_answer (Suc n)], m2)"
    unfolding r crun_snoc m'(1) using m2(1) a by simp
  moreover have "map mitra_answer [0..<Suc (Suc n)] = map mitra_answer [0..<Suc n] @ [mitra_answer (Suc n)]" by simp
  ultimately show ?case using m2(2) unfolding i by metis
qed

section \<open>Properties\<close>

text \<open>
  (C16) The counter map of Horus, end to end: after the construction of an oblivious map, any
  admissible sequence of settings, reads, increments and decrements runs without an error and
  answers what a map of integers answers; an increment answers the old number.
\<close>

theorem counters_refine_numbers:
  assumes "env_ok E" "maxSize div Z \<noteq> 0" "ilog2 (maxSize div Z) < 31" "omap_top E maxSize < fuel"
    "all_ok (num_ok E (omap_top E maxSize) (omap_cap maxSize)) num_step ps (\<lambda>_. None)"
  shows "\<exists>m. ebind (OMAP_new E maxSize key) (crun (num_cstep E fuel) ps) = Inr (fst (arun num_step ps (\<lambda>_. None)), m)"
proof -
  obtain m where m: "OMAP_new E maxSize key = Inr m" "omap_rel E fuel (omap_top E maxSize) (omap_cap maxSize) (\<lambda>_. None) m"
    using omap_rel_new [OF assms(1-4)] by metis
  then have "num_rel E fuel (omap_top E maxSize) (omap_cap maxSize) (\<lambda>_. None) m" by (simp add: num_rel_def comp_def)
  then show ?thesis using num.run_outputs [OF _ assms(5)] m(1) by simp
qed

theorem counters_refine_numbers_witness:
  "\<exists>m. ebind (OMAP_new (toy_env Horus) 8 [1]) (crun (num_cstep (toy_env Horus) 20)
      [SetNum (Bid_int 24 3) 9, UpdtUp (Bid_int 24 3), UpdtUp (Bid_int 24 2), UpdtDown (Bid_int 24 3), GetNum (Bid_int 24 3)]) =
     Inr ([[], padded ''9'', [], padded ''10'', ''9''], m)"
proof -
  let ?E = "toy_env Horus"
  have t: "omap_top ?E 8 = 3" "omap_cap 8 = 12" by code_simp+
  have k: "key_ok ?E 0 (Bid_int 24 3)" "bid_wf (ID_SIZE (e_scheme ?E)) (Bid_int 24 3)" "bid_wf (ID_SIZE (e_scheme ?E)) (Bid_int 24 2)"
    "Bid_int 24 3 \<noteq> Bid_int 24 2" by code_simp+
  have ms: "min_size 4 = 7" by code_simp
  have d: "to_string 9 = ''9''" "to_string 10 = ''10''" by code_simp+
  let ?ps = "[SetNum (Bid_int 24 3) 9, UpdtUp (Bid_int 24 3), UpdtUp (Bid_int 24 2), UpdtDown (Bid_int 24 3), GetNum (Bid_int 24 3)]"
  have ok: "all_ok (num_ok ?E (omap_top ?E 8) (omap_cap 8)) num_step ?ps (\<lambda>_. None)"
    unfolding t using k k(4) [symmetric] by (simp add: ms bump_allowed_def num_bump_def int32_def)
  have sz: "8 div Z \<noteq> 0" "ilog2 (8 div Z) < 31" "omap_top ?E 8 < 20" unfolding t by (simp_all add: Z_def ilog2.simps)
  have run: "fst (arun num_step ?ps (\<lambda>_. None)) = [[], padded ''9'', [], padded ''10'', ''9'']"
    using k(4) d by (simp add: num_bump_def)
  show ?thesis using counters_refine_numbers [OF env_ok_toy sz ok, of "[1]"] unfolding run .
qed

text \<open>
  (C33) Mitra's update counters in the oblivious map are bounded by the 16-byte value: after the
  construction, up to nine increments of a keyword answer \<open>0-0, 1-0, \<dots>, 8-0\<close>, and the tenth
  fails with a buffer overflow, because the zeros that fill the value are kept behind the second
  number when the first one grows by a digit.
\<close>

theorem mitra_counter_overflows:
  assumes "env_ok E" "maxSize div Z \<noteq> 0" "ilog2 (maxSize div Z) < 31" "omap_top E maxSize < fuel" "key_ok E 0 k"
  shows "(\<forall>n\<le>9. \<exists>m. ebind (OMAP_new E maxSize key) (crun (mitra_OMAP_incrementFileCnt E fuel) (replicate n k)) =
      Inr (map mitra_answer [0..<n], m)) \<and>
    ebind (OMAP_new E maxSize key) (crun (mitra_OMAP_incrementFileCnt E fuel) (replicate 10 k)) = Inl BufferOverflow"
proof -
  obtain m where m: "OMAP_new E maxSize key = Inr m" "omap_rel E fuel (omap_top E maxSize) (omap_cap maxSize) (\<lambda>_. None) m"
    using omap_rel_new [OF assms(1-4)] by metis
  have sz: "1 < min_size (Suc (omap_top E maxSize))" "1 \<le> omap_cap maxSize"
    using min_size_pos [of "omap_top E maxSize"] omap_top_pos [OF assms(2), of E] omap_cap_pos [OF assms(2)] by simp_all
  note run = mitra_counts_rel [OF m(2) assms(5) sz]
  have small: "\<exists>m. ebind (OMAP_new E maxSize key) (crun (mitra_OMAP_incrementFileCnt E fuel) (replicate n k)) =
      Inr (map mitra_answer [0..<n], m)" if "n \<le> 9" for n
    using run [of "n - 1"] m(1) that by (cases n) auto
  obtain m' where m': "crun (mitra_OMAP_incrementFileCnt E fuel) (replicate 9 k) m = Inr (map mitra_answer [0..<9], m')"
    "omap_rel E fuel (omap_top E maxSize) (omap_cap maxSize) [k \<mapsto> show_pair 9 0] m'"
    using run [of 8] by (auto simp del: replicate.simps crun.simps)
  have l: "length (show_pair 9 0) \<le> 16" "length (to_string 9) < length (to_string (9 + 1))" by code_simp+
  have "mitra_OMAP_incrementFileCnt E fuel k m' = Inl BufferOverflow"
    using mitra_count_overflow [OF m'(2), of k 9 0] assms(5) l by (simp add: key_ok_def count_ok_def)
  then have "crun (mitra_OMAP_incrementFileCnt E fuel) (replicate 9 k @ [k]) m = Inl BufferOverflow"
    unfolding crun_snoc m'(1) by simp
  moreover have "replicate 9 k @ [k] = replicate 10 k" by (simp add: numeral_eq_Suc)
  ultimately show ?thesis using m(1) small by simp
qed

theorem mitra_counter_overflows_witness:
  "(\<exists>m. ebind (OMAP_new (toy_env Mitra) 4 [1]) (crun (mitra_OMAP_incrementFileCnt (toy_env Mitra) 9) (replicate 2 (Bid_int 16 7))) =
     Inr ([''0-0'', padded ''1-0''], m)) \<and>
   ebind (OMAP_new (toy_env Mitra) 4 [1]) (crun (mitra_OMAP_incrementFileCnt (toy_env Mitra) 9) (replicate 10 (Bid_int 16 7))) = Inl BufferOverflow"
proof -
  have sz: "4 div Z \<noteq> 0" "ilog2 (4 div Z) < 31" by (simp_all add: Z_def ilog2.simps)
  have t: "omap_top (toy_env Mitra) 4 < 9" "key_ok (toy_env Mitra) 0 (Bid_int 16 7)" by code_simp+
  have a: "map mitra_answer [0..<2] = [''0-0'', padded ''1-0'']" "(2::nat) \<le> 9" by code_simp+
  show ?thesis using mitra_counter_overflows [OF env_ok_toy sz t, of "[1]"] a(2) unfolding a(1) [symmetric] by blast
qed



end
