(* ===== verification/Mitra_Correct.thy ===== *)
theory Mitra_Correct
  imports Mitra Sse_Spec Omap_Counters
begin

text \<open>
  Correctness of the Mitra client, with and without re-encryption (\<open>deleteFiles\<close>) and with its
  counters in local maps or in the oblivious map: a search returns the live identifiers of the
  keyword in increasing order. The locale \<open>mitra_counters\<close> is the interface between the client and
  its counters; it is interpreted on both.
\<close>

section \<open>Addresses and masks\<close>

text \<open>
  The counters overwrite the last bytes of the keyword array: 5 bytes, or 9 when the search
  count is part of it. \<open>room\<close> is what is left for the keyword.
\<close>

definition room :: "bool \<Rightarrow> nat" where
  "room df = (if df then 7 else 11)"

definition cblock :: "bool \<Rightarrow> string \<Rightarrow> int \<Rightarrow> int \<Rightarrow> int \<Rightarrow> bytes" where
  "cblock df w op s f = take (room df) (pad16 w) @ (if df then le32 s else []) @ [word_of_int op] @ le32 f"

definition addr :: "menv \<Rightarrow> bool \<Rightarrow> string \<Rightarrow> int \<Rightarrow> int \<Rightarrow> bytes" where
  "addr M df w s f = m_prg M (cblock df w 0 s f)"

definition pad :: "menv \<Rightarrow> bool \<Rightarrow> string \<Rightarrow> int \<Rightarrow> int \<Rightarrow> bytes" where
  "pad M df w s f = m_prg M (cblock df w 1 s f)"

definition nonneg32 :: "int \<Rightarrow> bool" where
  "nonneg32 s \<longleftrightarrow> 0 \<le> s \<and> s < 2 ^ 31"

text \<open>
  What the scheme relies on: the generator is injective on 16-byte seeds and yields 16 bytes, the
  keywords fit into their room, and no random filling equals the mask it is combined with (the
  server takes an all-zero value for an absent one).
\<close>

definition menv_ok :: "bool \<Rightarrow> string set \<Rightarrow> menv \<Rightarrow> bool" where
  "menv_ok df W M \<longleftrightarrow>
     inj_on (m_prg M) {b. length b = 16} \<and> (\<forall>b. length b = 16 \<longrightarrow> length (m_prg M b) = 16) \<and>
     (\<forall>w\<in>W. length w \<le> room df \<and> NUL \<notin> set w) \<and>
     (\<forall>w\<in>W. \<forall>s f n x op. bitwiseXOR_int (m_rand M n) x (op_int op) (pad M df w s f) \<noteq> replicate 16 0)"

definition fits :: "bool \<Rightarrow> string \<Rightarrow> bytes \<Rightarrow> bool" where
  "fits df w k \<longleftrightarrow> length k = 16 \<and> take (room df) k = take (room df) (pad16 w)"

lemma length_cblock: "length w \<le> room df \<Longrightarrow> length (cblock df w op s f) = 16"
  by (simp add: cblock_def room_def split: if_splits)

lemma fits_pad16: "length w \<le> room df \<Longrightarrow> fits df w (pad16 w)"
  by (simp add: fits_def room_def split: if_splits)

lemma fits_cblock: "length w \<le> room df \<Longrightarrow> fits df w (cblock df w op s f)"
  using length_cblock [of w df] by (simp add: fits_def) (simp add: cblock_def room_def split: if_splits)

lemma getAESRandomValue_cblock:
  assumes "fits df w k" "length w \<le> room df"
  shows "mitra_getAESRandomValue M df k op s f = (cblock df w op s f, m_prg M (cblock df w op s f))"
proof -
  have len: "length k = 16" and t: "take (room df) k = take (room df) (pad16 w)" using assms(1) by (simp_all add: fits_def)
  let ?k1 = "if df then put_int 7 s k else k"
  have k1: "length ?k1 = 16" "take 11 ?k1 = take (room df) (pad16 w) @ (if df then le32 s else [])"
    using len t by (auto simp: room_def put_int_def)
  have "put_int 12 f (?k1[11 := word_of_int op]) = take 11 ?k1 @ [word_of_int op] @ le32 f"
  proof -
    have "take (Suc 11) (?k1[11 := word_of_int op]) = take 11 ?k1 @ [word_of_int op]"
      using take_Suc_conv_app_nth [of 11 "?k1[11 := word_of_int op]"] k1(1) by simp
    then show ?thesis using k1(1) by (simp add: put_int_def)
  qed
  then have "put_int 12 f (?k1[11 := word_of_int op]) = cblock df w op s f" using k1(2) by (simp add: cblock_def)
  then show ?thesis by (cases df) (simp_all add: mitra_getAESRandomValue_def AES_KEY_SIZE_def Let_def)
qed

lemma pad16_inj:
  assumes "take n (pad16 w) = take n (pad16 w')" "length w \<le> n" "length w' \<le> n" "NUL \<notin> set w" "NUL \<notin> set w'" "n \<le> 15"
  shows "w = w'"
proof -
  have *: "takeWhile (\<lambda>b. b \<noteq> 0) (take n (pad16 v) @ [0]) = string_bytes v" if "length v \<le> n" "NUL \<notin> set v" for v
  proof -
    have "\<forall>b\<in>set (string_bytes v). b \<noteq> 0" using that(2) by (auto simp: string_bytes_def)
    moreover have "take n (pad16 v) @ [0] = string_bytes v @ replicate (n - length v) 0 @ [0]"
      using that(1) assms(6) by (simp add: pad16_def)
    ultimately show ?thesis by (cases "n - length v") (auto simp: takeWhile_append2)
  qed
  have "string_bytes w = string_bytes w'" using * [OF assms(2,4)] * [OF assms(3,5)] assms(1) by simp
  then show ?thesis by (metis string_bytes_inverse)
qed

lemma cblock_inj:
  assumes w: "length w \<le> room df" "NUL \<notin> set w" "length w' \<le> room df" "NUL \<notin> set w'"
    and s: "nonneg32 s" "nonneg32 s'" "nonneg32 f" "nonneg32 f'" and ns: "\<not> df \<Longrightarrow> s = s'"
  shows "cblock df w op s f = cblock df w' op s' f' \<longleftrightarrow> w = w' \<and> s = s' \<and> f = f'"
proof
  assume e: "cblock df w op s f = cblock df w' op s' f'"
  have r: "room df \<le> 11" by (simp add: room_def)
  have len: "length (take (room df) (pad16 v)) = room df" if "length v \<le> room df" for v
    using that r by simp
  have "take (room df) (pad16 w) = take (room df) (pad16 w') \<and> (df \<longrightarrow> le32 s = le32 s') \<and> le32 f = le32 f'"
    using e len [OF w(1)] len [OF w(3)] by (auto simp: cblock_def)
  then show "w = w' \<and> s = s' \<and> f = f'"
    using pad16_inj [of "room df" w w'] w r s ns by (auto simp: le32_inj int32_def nonneg32_def)
qed simp

lemma addr_inj:
  assumes M: "menv_ok df W M" and w: "w \<in> W" "w' \<in> W"
    and s: "nonneg32 s" "nonneg32 s'" "nonneg32 f" "nonneg32 f'" and ns: "\<not> df \<Longrightarrow> s = s'"
  shows "addr M df w s f = addr M df w' s' f' \<longleftrightarrow> w = w' \<and> s = s' \<and> f = f'"
proof
  have W: "length w \<le> room df" "NUL \<notin> set w" "length w' \<le> room df" "NUL \<notin> set w'" using M w by (auto simp: menv_ok_def)
  assume "addr M df w s f = addr M df w' s' f'"
  then have "cblock df w 0 s f = cblock df w' 0 s' f'"
    using M length_cblock [OF W(1)] length_cblock [OF W(3)] unfolding menv_ok_def addr_def
    by (elim conjE) (erule (1) inj_onD, simp_all)
  then show "w = w' \<and> s = s' \<and> f = f'" using cblock_inj [OF W s ns] by blast
qed simp

section \<open>Records\<close>

text \<open>The masked value of an update and what unmasking gives back.\<close>

definition entry :: "menv \<Rightarrow> bool \<Rightarrow> string \<Rightarrow> int \<Rightarrow> int \<Rightarrow> OP \<times> int \<Rightarrow> bytes \<Rightarrow> bool" where
  "entry M df w s f e v \<longleftrightarrow> (\<exists>n. v = bitwiseXOR_int (m_rand M n) (snd e) (op_int (fst e)) (pad M df w s f))"

lemma length_pad: "menv_ok df W M \<Longrightarrow> w \<in> W \<Longrightarrow> length (pad M df w s f) = 16"
  using length_cblock [of w df] by (auto simp: menv_ok_def pad_def)

lemma entry_open:
  assumes M: "menv_ok df W M" and w: "w \<in> W" and e: "entry M df w s f (op, x) v" and x: "int32 x"
  shows "get_int 0 (bitwiseXOR (pad M df w s f) v) = x" "bitwiseXOR (pad M df w s f) v ! 4 = word_of_int (op_int op)"
    "v \<noteq> replicate 16 0"
proof -
  obtain n where n: "v = bitwiseXOR_int (m_rand M n) x (op_int op) (pad M df w s f)" using e by (auto simp: entry_def)
  let ?p = "le32 x @ [word_of_int (op_int op AND 0xFF)] @ map (m_rand M n) [5..<16]"
  have "bitwiseXOR (pad M df w s f) v = ?p"
    unfolding n bitwiseXOR_int_def AES_KEY_SIZE_def using length_pad [OF M w] by (intro bitwiseXOR_involution) simp
  moreover have "op_int op AND 0xFF = op_int op" by (cases op) (simp_all add: op_int_def)
  ultimately show "get_int 0 (bitwiseXOR (pad M df w s f) v) = x" "bitwiseXOR (pad M df w s f) v ! 4 = word_of_int (op_int op)"
    using x by (simp_all add: get_int_def rd32_le32 nth_append)
  show "v \<noteq> replicate 16 0" using M w n by (auto simp: menv_ok_def)
qed

section \<open>Tallies\<close>

text \<open>The sum over the updates of an identifier: an insertion counts -1, a deletion 1.\<close>

definition net :: "(OP \<times> int) list \<Rightarrow> int \<Rightarrow> int" where
  "net es x = (\<Sum>e\<leftarrow>es. if snd e = x then 2 * op_int (fst e) - 1 else 0)"

definition look0 :: "('k \<times> int) list \<Rightarrow> 'k \<Rightarrow> int" where
  "look0 m k = (case map_of m k of None \<Rightarrow> 0 | Some n \<Rightarrow> n)"

lemma look0_update: "look0 (AList.update k v m) k' = (if k' = k then v else look0 m k')"
  by (simp add: look0_def map_of_update_apply)

lemma look0_Nil [simp]: "look0 [] k = 0"
  by (simp add: look0_def)

lemma net_simps [simp]: "net [] x = 0" "net (e # es) x = (if snd e = x then 2 * op_int (fst e) - 1 else 0) + net es x"
  "net (es @ es') x = net es x + net es' x"
  by (simp_all add: net_def)

lemma net_absent: "x \<notin> snd ` set es \<Longrightarrow> net es x = 0"
  by (induction es) auto

lemma mitra_tally_step_eq:
  assumes "get_int 0 p = x" "p ! 4 = word_of_int (op_int op)"
  shows "mitra_tally_step p m = AList.update x (look0 m x + (2 * op_int op - 1)) m"
  using assms by (cases op) (simp_all add: mitra_tally_step_def look0_def op_int_def Let_def)

lemma mitra_decode_eq:
  assumes M: "menv_ok df W M" and w: "w \<in> W"
  shows "fits df w k \<Longrightarrow> distinct (map fst rem) \<Longrightarrow> length vs = length es \<Longrightarrow> \<forall>e\<in>set es. int32 (snd e) \<Longrightarrow>
    \<forall>i<length es. entry M df w s (c + int i) (es ! i) (vs ! i) \<Longrightarrow>
    \<exists>rem' k'. mitra_decode M df k s c vs rem = (rem', k') \<and> fits df w k' \<and> distinct (map fst rem') \<and>
      fst ` set rem' = fst ` set rem \<union> snd ` set es \<and> (\<forall>x. look0 rem' x = look0 rem x + net es x)"
proof (induction vs arbitrary: k rem es c)
  case (Cons v vs)
  then obtain op x es' where es: "es = (op, x) # es'" by (cases es) auto
  have kw: "length w \<le> room df" using M w by (auto simp: menv_ok_def)
  have e0: "entry M df w s c (op, x) v" and x: "int32 x" using Cons.prems(4,5) es by force+
  note op = entry_open [OF M w e0 x]
  let ?rem = "AList.update x (look0 rem x + (2 * op_int op - 1)) rem"
  have "\<forall>i<length es'. entry M df w s (c + 1 + int i) (es' ! i) (vs ! i)"
  proof (intro allI impI)
    fix i assume "i < length es'"
    then have "entry M df w s (c + int (Suc i)) (es ! Suc i) ((v # vs) ! Suc i)" using Cons.prems(5) es by (metis Suc_less_eq length_Cons)
    then show "entry M df w s (c + 1 + int i) (es' ! i) (vs ! i)" by (simp add: es algebra_simps)
  qed
  then obtain rem' k' where r: "mitra_decode M df (cblock df w 1 s c) s (c + 1) vs ?rem = (rem', k')" "fits df w k'"
    "distinct (map fst rem')" "fst ` set rem' = fst ` set ?rem \<union> snd ` set es'" "\<forall>y. look0 rem' y = look0 ?rem y + net es' y"
    using Cons.IH [OF fits_cblock [OF kw], of ?rem es' "c + 1" 1 s c] Cons.prems(2,3,4) es by (auto simp: distinct_update)
  have "mitra_decode M df k s c (v # vs) rem = (rem', k')"
    using r(1) getAESRandomValue_cblock [OF Cons.prems(1) kw] mitra_tally_step_eq [OF op(1,2)] by (simp add: pad_def)
  then show ?case using r es by (auto simp: look0_update dom_update)
qed auto

text \<open>The identifiers with a negative sum, in increasing order.\<close>

lemma negative_keys:
  assumes "distinct (map fst rem)" "\<forall>x. look0 rem x = (if x \<in> set db then -1 else 0)" "distinct db"
  shows "map fst (filter (\<lambda>(x, n). n < 0) (sort_key fst rem)) = sort db"
proof -
  let ?l = "map fst (filter (\<lambda>(x, n). n < 0) (sort_key fst rem))"
  have "x \<in> set ?l \<longleftrightarrow> x \<in> set db" for x
  proof
    assume "x \<in> set ?l"
    then obtain n where n: "(x, n) \<in> set rem" "n < 0" by auto
    then have "look0 rem x = n" using assms(1) by (simp add: look0_def)
    then show "x \<in> set db" using assms(2) n(2) by (auto split: if_splits)
  next
    assume x: "x \<in> set db"
    then have "look0 rem x = - 1" using assms(2) by simp
    then have "map_of rem x = Some (- 1)" by (auto simp: look0_def split: option.splits)
    then show "x \<in> set ?l" using map_of_SomeD by (force simp: image_iff)
  qed
  moreover have d: "distinct (map fst (sort_key fst rem))"
    using assms(1) mset_eq_imp_distinct_iff [of "map fst (sort_key fst rem)" "map fst rem"] by simp
  then have "distinct ?l" by (rule distinct_map_filter)
  moreover have "sorted ?l" by (rule sorted_filter) simp
  ultimately show ?thesis using assms(3) by (intro sorted_distinct_set_unique) auto
qed

section \<open>The invariant\<close>

text \<open>The updates of a keyword that are stored under its current search count.\<close>

record mkw =
  u_es :: "(OP \<times> int) list"
  u_src :: int

definition stored :: "menv \<Rightarrow> bool \<Rightarrow> dict \<Rightarrow> string \<Rightarrow> int \<Rightarrow> int \<Rightarrow> (OP \<times> int) list \<Rightarrow> bool" where
  "stored M df D w s c es \<longleftrightarrow>
     (\<forall>i<length es. \<exists>v. map_of D (addr M df w s (c + int i)) = Some v \<and> entry M df w s (c + int i) (es ! i) v)"

text \<open>The counters of the keywords: stored updates and searches.\<close>

type_synonym counts = "string \<Rightarrow> int \<times> int"

definition counts_of :: "(string \<Rightarrow> mkw) \<Rightarrow> counts" where
  "counts_of a = (\<lambda>w. (int (length (u_es (a w))), u_src (a w)))"

definition mkw_ok :: "nat \<Rightarrow> bool \<Rightarrow> mkw \<Rightarrow> bool" where
  "mkw_ok lim df u \<longleftrightarrow>
     nonneg32 (u_src u) \<and> (\<not> df \<longrightarrow> u_src u = 0) \<and> length (u_es u) < lim \<and> (\<forall>e\<in>set (u_es u). int32 (snd e))"

definition mrep :: "(counts \<Rightarrow> mitra \<Rightarrow> bool) \<Rightarrow> nat \<Rightarrow> bool \<Rightarrow> string set \<Rightarrow> menv \<Rightarrow> (string \<Rightarrow> mkw) \<Rightarrow> mitra \<Rightarrow> bool" where
  "mrep counts lim df W M a st \<longleftrightarrow>
     menv_ok df W M \<and> mc_deleteFiles st = df \<and> counts (counts_of a) st \<and>
     (\<forall>w\<in>W. mkw_ok lim df (a w) \<and> stored M df (mc_DictW st) w (u_src (a w)) 1 (u_es (a w)))"

text \<open>The counters are read and written; the dictionary and the random bytes stay.\<close>

definition unchanged :: "mitra \<Rightarrow> mitra \<Rightarrow> bool" where
  "unchanged st st' \<longleftrightarrow>
     mc_DictW st' = mc_DictW st \<and> mc_rnd st' = mc_rnd st \<and> mc_deleteFiles st' = mc_deleteFiles st \<and>
     mc_localStorage st' = mc_localStorage st"

definition next_counts :: "menv \<Rightarrow> bool \<Rightarrow> string \<Rightarrow> mitra \<Rightarrow> ((int \<times> int) \<times> mitra) res" where
  "next_counts M load w st = (if mc_localStorage st then Inr (local_counts (pad16 w) st) else omap_counts M w load st)"

definition put_counts :: "menv \<Rightarrow> string \<Rightarrow> bid \<Rightarrow> int \<Rightarrow> int \<Rightarrow> mitra \<Rightarrow> mitra res" where
  "put_counts M w b f s st =
     (if mc_localStorage st
      then Inr (st\<lparr>mc_SrcCnt := AList.update (pad16 w) s (mc_SrcCnt st), mc_FileCnt := AList.update (pad16 w) f (mc_FileCnt st)\<rparr>)
      else ebind (OMAP_insert (m_E M) (m_fuel M) b (show_pair f s) (mc_omap st)) (\<lambda>m. Inr (st\<lparr>mc_omap := m\<rparr>)))"

lemma menv_ok_kw: "menv_ok df W M \<Longrightarrow> w \<in> W \<Longrightarrow> length w \<le> room df \<and> length w \<le> 16 \<and> NUL \<notin> set w"
  by (auto simp: menv_ok_def room_def split: if_splits)

lemma pad16_eq_iff: "menv_ok df W M \<Longrightarrow> w \<in> W \<Longrightarrow> w' \<in> W \<Longrightarrow> pad16 w = pad16 w' \<longleftrightarrow> w = w'"
  using pad16_inj [of "room df" w w'] menv_ok_kw [of df W M] by (auto simp: room_def split: if_splits)

lemma put_entry_eq:
  assumes M: "menv_ok df W M" and w: "w \<in> W" and k: "fits df w k" and df: "mc_deleteFiles st = df"
  obtains v where "put_entry M k op x s f st = (cblock df w 1 s f, st\<lparr>mc_DictW := AList.update (addr M df w s f) v (mc_DictW st), mc_rnd := mc_rnd st + 1\<rparr>)"
    "entry M df w s f (op, x) v"
proof -
  note kw = menv_ok_kw [OF M w]
  have "put_entry M k op x s f st = (cblock df w 1 s f, st\<lparr>mc_DictW := AList.update (addr M df w s f)
      (bitwiseXOR_int (m_rand M (mc_rnd st)) x (op_int op) (pad M df w s f)) (mc_DictW st), mc_rnd := mc_rnd st + 1\<rparr>)"
    using getAESRandomValue_cblock [OF k] getAESRandomValue_cblock [OF fits_cblock, of w df] kw df
    by (simp add: put_entry_def Server_update_def addr_def pad_def)
  then show ?thesis using that by (auto simp: entry_def)
qed

lemma stored_update:
  assumes M: "menv_ok df W M" and w: "w \<in> W" "w' \<in> W" and s: "nonneg32 s" "nonneg32 s'" "\<not> df \<Longrightarrow> s = s'"
    and f: "nonneg32 f" "0 \<le> c" "c + int (length es) \<le> 2 ^ 31" and st: "stored M df D w' s' c es"
    and other: "w' \<noteq> w \<or> s' \<noteq> s \<or> f < c \<or> c + int (length es) \<le> f"
  shows "stored M df (AList.update (addr M df w s f) v D) w' s' c es"
  unfolding stored_def
proof (intro allI impI)
  fix i assume i: "i < length es"
  then have n: "nonneg32 (c + int i)" using f(2,3) by (simp add: nonneg32_def)
  have "addr M df w s f \<noteq> addr M df w' s' (c + int i)" using addr_inj [OF M w s(1,2) f(1) n s(3)] other i by auto
  then show "\<exists>va. map_of (AList.update (addr M df w s f) v D) (addr M df w' s' (c + int i)) = Some va \<and> entry M df w' s' (c + int i) (es ! i) va"
    using st i by (auto simp: stored_def map_of_update_apply)
qed

lemma stored_snoc:
  assumes "stored M df D w s c es" "map_of D (addr M df w s (c + int (length es))) = Some v" "entry M df w s (c + int (length es)) e v"
  shows "stored M df D w s c (es @ [e])"
  using assms by (auto simp: stored_def nth_append less_Suc_eq)

section \<open>Searches\<close>

lemma mitra_addresses_eq:
  assumes kw: "length w \<le> room df"
  shows "fits df w k \<Longrightarrow> \<exists>k'. mitra_addresses M df k s fs = (map (addr M df w s) fs, k') \<and> fits df w k'"
proof (induction fs arbitrary: k)
  case (Cons f fs)
  obtain k' where "mitra_addresses M df (cblock df w 0 s f) s fs = (map (addr M df w s) fs, k')" "fits df w k'"
    using Cons.IH [OF fits_cblock [OF kw]] by blast
  then show ?case using getAESRandomValue_cblock [OF Cons.prems kw] by (simp add: addr_def)
qed simp

lemma Server_search_present:
  "length vs = length ks \<Longrightarrow> \<forall>i<length ks. map_of D (ks ! i) = Some (vs ! i) \<and> vs ! i \<noteq> replicate 16 0 \<Longrightarrow>
    Server_search ks D = (vs, D)"
proof (induction ks arbitrary: vs)
  case (Cons k ks)
  then obtain v vs' where vs: "vs = v # vs'" by (cases vs) auto
  have "Server_search ks D = (vs', D)" using Cons vs by (intro Cons.IH) fastforce+
  moreover have "map_of D k = Some v" "v \<noteq> replicate 16 0" using Cons.prems(2) vs by force+
  ultimately show ?case by (simp add: vs AES_KEY_SIZE_def)
qed simp

lemma mitra_collect_keep: "\<not> mc_deleteFiles st \<Longrightarrow> mitra_collect M k s f rs st = (map fst (filter (\<lambda>(x, n). n < 0) rs), f, st)"
  by (induction rs) auto

text \<open>Re-encryption of the live identifiers under a search count that is not in use yet.\<close>

lemma mitra_collect_store:
  assumes M: "menv_ok True W M" and w: "w \<in> W" and s: "nonneg32 s"
  shows "mc_deleteFiles st \<Longrightarrow> fits True w k \<Longrightarrow> f + int (length rs) < 2 ^ 31 \<Longrightarrow> f = int (length es) \<Longrightarrow>
    stored M True (mc_DictW st) w s 1 es \<Longrightarrow>
    \<exists>D r. mitra_collect M k s f rs st =
        (map fst (filter (\<lambda>(x, n). n < 0) rs), f + int (length (filter (\<lambda>(x, n). n < 0) rs)), st\<lparr>mc_DictW := D, mc_rnd := r\<rparr>) \<and>
      stored M True D w s 1 (es @ map (\<lambda>x. (INS, x)) (map fst (filter (\<lambda>(x, n). n < 0) rs))) \<and>
      (\<forall>w'\<in>W. \<forall>s' c es'. w' \<noteq> w \<or> s' \<noteq> s \<longrightarrow> nonneg32 s' \<longrightarrow> 0 \<le> c \<longrightarrow> c + int (length es') \<le> 2 ^ 31 \<longrightarrow>
        stored M True (mc_DictW st) w' s' c es' \<longrightarrow> stored M True D w' s' c es')"
proof (induction rs arbitrary: st k f es)
  case Nil
  then show ?case by (intro exI [of _ "mc_DictW st"] exI [of _ "mc_rnd st"]) simp
next
  case (Cons p rs)
  obtain x n where p: "p = (x, n)" by (cases p)
  show ?case
  proof (cases "n < 0")
    case False
    then show ?thesis using Cons p by simp
  next
    case True
    note kw = menv_ok_kw [OF M w]
    obtain v where v: "put_entry M k INS x s (f + 1) st = (cblock True w 1 s (f + 1),
        st\<lparr>mc_DictW := AList.update (addr M True w s (f + 1)) v (mc_DictW st), mc_rnd := mc_rnd st + 1\<rparr>)"
      "entry M True w s (f + 1) (INS, x) v"
      using put_entry_eq [OF M w Cons.prems(2)] Cons.prems(1) by metis
    let ?D = "AList.update (addr M True w s (f + 1)) v (mc_DictW st)"
    let ?st = "st\<lparr>mc_DictW := ?D, mc_rnd := mc_rnd st + 1\<rparr>"
    have f1: "nonneg32 (f + 1)" using Cons.prems(3,4) by (simp add: nonneg32_def)
    have "stored M True ?D w s 1 es"
      using Cons.prems(3,4,5) by (intro stored_update [OF M w w s s _ f1]) auto
    then have "stored M True ?D w s 1 (es @ [(INS, x)])"
      using v(2) Cons.prems(4) by (intro stored_snoc [where v = v]) (auto simp: map_of_update_apply add.commute)
    then have ih: "mc_deleteFiles ?st" "fits True w (cblock True w 1 s (f + 1))" "(f + 1) + int (length rs) < 2 ^ 31"
      "f + 1 = int (length (es @ [(INS, x)]))" "stored M True (mc_DictW ?st) w s 1 (es @ [(INS, x)])"
      using Cons.prems(1,3,4) fits_cblock kw by auto
    obtain D r where st': "mitra_collect M (cblock True w 1 s (f + 1)) s (f + 1) rs ?st =
        (map fst (filter (\<lambda>(x, n). n < 0) rs), (f + 1) + int (length (filter (\<lambda>(x, n). n < 0) rs)), ?st\<lparr>mc_DictW := D, mc_rnd := r\<rparr>)"
      "stored M True D w s 1 ((es @ [(INS, x)]) @ map (\<lambda>x. (INS, x)) (map fst (filter (\<lambda>(x, n). n < 0) rs)))"
      "\<forall>w'\<in>W. \<forall>s' c es'. w' \<noteq> w \<or> s' \<noteq> s \<longrightarrow> nonneg32 s' \<longrightarrow> 0 \<le> c \<longrightarrow> c + int (length es') \<le> 2 ^ 31 \<longrightarrow>
        stored M True (mc_DictW ?st) w' s' c es' \<longrightarrow> stored M True D w' s' c es'"
      using Cons.IH [OF ih] by blast
    have "mitra_collect M k s f (p # rs) st =
        (x # map fst (filter (\<lambda>(x, n). n < 0) rs), (f + 1) + int (length (filter (\<lambda>(x, n). n < 0) rs)), st\<lparr>mc_DictW := D, mc_rnd := r\<rparr>)"
      using v(1) st'(1) True Cons.prems(1) p by simp
    moreover have "stored M True D w' s' c es'"
      if "w' \<in> W" "w' \<noteq> w \<or> s' \<noteq> s" "nonneg32 s'" "0 \<le> c" "c + int (length es') \<le> 2 ^ 31" "stored M True (mc_DictW st) w' s' c es'" for w' s' c es'
    proof -
      have "stored M True ?D w' s' c es'" using that by (intro stored_update [OF M w that(1) s that(3) _ f1]) auto
      then show ?thesis using st'(3) that by simp
    qed
    ultimately show ?thesis using st'(2) True p by (intro exI [of _ D] exI [of _ r]) simp
  qed
qed

lemma search_answers:
  assumes M: "menv_ok df W M" and w: "w \<in> W" and st: "stored M df D w s 1 es" and es: "\<forall>e\<in>set es. int32 (snd e)"
  obtains vs where "length vs = length es" "Server_search (map (addr M df w s) [1..int (length es)]) D = (vs, D)"
    "\<forall>i<length es. entry M df w s (1 + int i) (es ! i) (vs ! i)"
proof -
  define val where "val i = the (map_of D (addr M df w s (1 + int i)))" for i
  have v: "map_of D (addr M df w s (1 + int i)) = Some (val i)" "entry M df w s (1 + int i) (es ! i) (val i)" if "i < length es" for i
    using st that by (auto simp: stored_def val_def)
  have nz: "val i \<noteq> replicate 16 0" if "i < length es" for i
  proof -
    obtain op x where e: "es ! i = (op, x)" by (cases "es ! i")
    then have "int32 x" using es that nth_mem by fastforce
    then show ?thesis using entry_open(3) [OF M w] v(2) [OF that] e by metis
  qed
  have up: "[1..int (length es)] = map (\<lambda>i. 1 + int i) [0..<length es]"
    by (rule nth_equalityI) simp_all
  have "Server_search (map (addr M df w s) [1..int (length es)]) D = (map val [0..<length es], D)"
    unfolding up by (rule Server_search_present) (use v nz in auto)
  then show ?thesis using that [of "map val [0..<length es]"] v by simp
qed

section \<open>Counters as an interface\<close>

text \<open>What an update relies on; \<open>load\<close> tells whether it is one of the setup.\<close>

locale mitra_updates =
  fixes W :: "string set" and df :: bool and M :: menv and counts :: "counts \<Rightarrow> mitra \<Rightarrow> bool" and lim :: nat and load :: bool
  assumes lim_less: "lim \<le> 2 ^ 31"
    and counts_store: "counts c st \<Longrightarrow> counts c (st\<lparr>mc_DictW := D, mc_rnd := r\<rparr>)"
    and count_up: "menv_ok df W M \<Longrightarrow> mc_deleteFiles st = df \<Longrightarrow> counts c st \<Longrightarrow> w \<in> W \<Longrightarrow> c w = (f, s) \<Longrightarrow>
      0 \<le> f \<Longrightarrow> f + 1 < int lim \<Longrightarrow> nonneg32 s \<Longrightarrow> \<not> df \<longrightarrow> s = 0 \<Longrightarrow>
      \<exists>st'. next_counts M load w st = Inr ((f + 1, s), st') \<and> counts (c(w := (f + 1, s))) st' \<and> unchanged st st'"
begin

lemma update_rep:
  assumes st: "mrep counts lim df W M a st" and w: "w \<in> W" and x: "int32 x" and n: "length (u_es (a w)) + 1 < lim"
  shows "\<exists>st'. Mitra_update M op w x load st = Inr st' \<and> mrep counts lim df W M (a(w := (a w)\<lparr>u_es := u_es (a w) @ [(op, x)]\<rparr>)) st'"
proof -
  let ?s = "u_src (a w)" and ?n = "int (length (u_es (a w))) + 1" and ?k = "pad16 w"
  have M: "menv_ok df W M" and l: "mc_deleteFiles st = df" and c: "counts (counts_of a) st"
    and rep: "\<And>w'. w' \<in> W \<Longrightarrow> mkw_ok lim df (a w') \<and> stored M df (mc_DictW st) w' (u_src (a w')) 1 (u_es (a w'))"
    using st by (auto simp: mrep_def)
  note kw = menv_ok_kw [OF M w] and r = rep [OF w]
  have s: "nonneg32 ?s" "nonneg32 ?n" "\<not> df \<longrightarrow> ?s = 0" using r n lim_less by (auto simp: mkw_ok_def nonneg32_def)
  have cw: "counts_of a w = (int (length (u_es (a w))), ?s)" by (simp add: counts_of_def)
  have n': "int (length (u_es (a w))) + 1 < int lim" using n by simp
  obtain st1 where st1: "next_counts M load w st = Inr ((?n, ?s), st1)" "counts ((counts_of a)(w := (?n, ?s))) st1" "unchanged st st1"
    using count_up [OF M l c w cw _ n' s(1,3)] by auto
  have l1: "mc_deleteFiles st1 = df" using st1(3) l by (simp add: unchanged_def)
  obtain v where v: "put_entry M ?k op x ?s ?n st1 = (cblock df w 1 ?s ?n, st1\<lparr>mc_DictW := AList.update (addr M df w ?s ?n) v (mc_DictW st1), mc_rnd := mc_rnd st1 + 1\<rparr>)"
    "entry M df w ?s ?n (op, x) v"
    using put_entry_eq [OF M w fits_pad16 l1] kw by metis
  let ?D = "AList.update (addr M df w ?s ?n) v (mc_DictW st)"
  let ?st2 = "st1\<lparr>mc_DictW := ?D, mc_rnd := mc_rnd st1 + 1\<rparr>"
  let ?a = "a(w := (a w)\<lparr>u_es := u_es (a w) @ [(op, x)]\<rparr>)"
  have D: "mc_DictW st1 = mc_DictW st" using st1(3) by (simp add: unchanged_def)
  have "Mitra_update M op w x load st = Inr ?st2"
    using kw_block_eq [of w] kw st1(1) v(1) D by (simp add: Mitra_update_def next_counts_def split: if_splits)
  moreover have "counts (counts_of ?a) ?st2"
  proof -
    have "counts_of ?a = (counts_of a)(w := (?n, ?s))" by (auto simp: counts_of_def)
    then show ?thesis using counts_store [OF st1(2)] by simp
  qed
  moreover have "mkw_ok lim df (?a w') \<and> stored M df ?D w' (u_src (?a w')) 1 (u_es (?a w'))" if w': "w' \<in> W" for w'
  proof -
    note r' = rep [OF w']
    have st': "stored M df ?D w' (u_src (a w')) 1 (u_es (a w'))"
      using r r' n s lim_less by (intro stored_update [OF M w w']) (auto simp: mkw_ok_def)
    show ?thesis
    proof (cases "w' = w")
      case True
      have "stored M df ?D w ?s 1 (u_es (a w) @ [(op, x)])"
        using st' True v(2) by (intro stored_snoc [where v = v]) (auto simp: map_of_update_apply add.commute)
      then show ?thesis using True r n x by (auto simp: mkw_ok_def)
    next
      case False
      then show ?thesis using r' st' by auto
    qed
  qed
  ultimately have "Mitra_update M op w x load st = Inr ?st2 \<and> mrep counts lim df W M ?a ?st2"
    using M l1 by (simp add: mrep_def)
  then show ?thesis by blast
qed

end

text \<open>What a search relies on in addition.\<close>

locale mitra_counters = mitra_updates W df M counts lim False
  for W :: "string set" and df :: bool and M :: menv and counts :: "counts \<Rightarrow> mitra \<Rightarrow> bool" and lim :: nat +
  assumes count_find: "menv_ok df W M \<Longrightarrow> mc_deleteFiles st = df \<Longrightarrow> counts c st \<Longrightarrow> w \<in> W \<Longrightarrow> c w = (f, s) \<Longrightarrow>
      0 \<le> f \<Longrightarrow> f < int lim \<Longrightarrow> nonneg32 s \<Longrightarrow> \<not> df \<longrightarrow> s = 0 \<Longrightarrow> getBid 16 w = Inr b \<Longrightarrow>
      \<exists>r st'. search_counts M (pad16 w) b st = Inr (r, st') \<and> counts c st' \<and> unchanged st st' \<and>
        (r = Some (f, s) \<and> (mc_localStorage st' \<and> df \<longrightarrow> look0 (mc_SrcCnt st') (pad16 w) = s) \<or> r = None \<and> f = 0)"
    and count_put: "menv_ok df W M \<Longrightarrow> mc_deleteFiles st = df \<Longrightarrow> df \<Longrightarrow> counts c st \<Longrightarrow> w \<in> W \<Longrightarrow> 0 \<le> f \<Longrightarrow>
      f < int lim \<Longrightarrow> nonneg32 s \<Longrightarrow> getBid 16 w = Inr b \<Longrightarrow>
      \<exists>st'. put_counts M w b f s st = Inr st' \<and> counts (c(w := (f, s))) st' \<and> unchanged st st'"
begin

lemma search_rep:
  assumes st: "mrep counts lim df W M a st" and w: "w \<in> W" and s: "nonneg32 (u_src (a w) + 1)"
    and db: "\<forall>x. net (u_es (a w)) x = (if x \<in> set db then -1 else 0)" "distinct db" "length db < lim"
  shows "\<exists>st' u. Mitra_search M w st = Inr (sort db, st') \<and> mrep counts lim df W M (a(w := u)) st' \<and>
    (u = a w \<or> df \<and> u = \<lparr>u_es = map (\<lambda>x. (INS, x)) (sort db), u_src = u_src (a w) + 1\<rparr>)"
proof -
  let ?s = "u_src (a w)" and ?es = "u_es (a w)" and ?k = "pad16 w" and ?f = "int (length (u_es (a w)))"
  have M: "menv_ok df W M" and l: "mc_deleteFiles st = df" and c: "counts (counts_of a) st"
    and rep: "\<And>w'. w' \<in> W \<Longrightarrow> mkw_ok lim df (a w') \<and> stored M df (mc_DictW st) w' (u_src (a w')) 1 (u_es (a w'))"
    using st by (auto simp: mrep_def)
  note kw = menv_ok_kw [OF M w] and r = rep [OF w]
  have es: "\<forall>e\<in>set ?es. int32 (snd e)" "stored M df (mc_DictW st) w ?s 1 ?es" using r by (auto simp: mkw_ok_def)
  have pre: "?f < int lim" "nonneg32 ?s" "\<not> df \<longrightarrow> ?s = 0" using r by (auto simp: mkw_ok_def)
  obtain b where b: "getBid 16 w = Inr b" using kw by (auto simp: getBid_def copy_at_0)
  have cw: "counts_of a w = (?f, ?s)" by (simp add: counts_of_def)
  obtain rr st1 where f: "search_counts M ?k b st = Inr (rr, st1)" "counts (counts_of a) st1" "unchanged st st1"
    "rr = Some (?f, ?s) \<and> (mc_localStorage st1 \<and> df \<longrightarrow> look0 (mc_SrcCnt st1) ?k = ?s) \<or> rr = None \<and> ?f = 0"
    using count_find [OF M l c w cw of_nat_0_le_iff pre b] by metis
  have u: "mc_DictW st1 = mc_DictW st" "mc_deleteFiles st1 = df" using f(3) l by (simp_all add: unchanged_def)
  have st1: "mrep counts lim df W M a st1" using f(2) u M rep by (simp add: mrep_def)
  have same: "st1\<lparr>mc_DictW := mc_DictW st\<rparr> = st1" by (simp flip: u(1))
  note run = Mitra_search_def kw_block_eq [OF conjunct1 [OF conjunct2 [OF kw]]] b f(1) Let_def same
  show ?thesis
  proof (cases rr)
    case None
    then have "?es = []" using f(4) by simp
    then have "\<forall>x. x \<notin> set db" using db(1) by (auto split: if_splits)
    then have "db = []" by (cases db) auto
    moreover have "Mitra_search M w st = Inr ([], st1)" using None by (simp add: run)
    ultimately show ?thesis using st1 by (intro exI [of _ st1] exI [of _ "a w"]) simp
  next
    case (Some p)
    then have p: "p = (?f, ?s)" and src: "mc_localStorage st1 \<and> df \<Longrightarrow> look0 (mc_SrcCnt st1) ?k = ?s" using f(4) by auto
    obtain k1 where k1: "mitra_addresses M df ?k ?s [1..?f] = (map (addr M df w ?s) [1..?f], k1)" "fits df w k1"
      using mitra_addresses_eq [OF conjunct1 [OF kw] fits_pad16 [OF conjunct1 [OF kw]]] by blast
    obtain vs where vs: "length vs = length ?es" "Server_search (map (addr M df w ?s) [1..?f]) (mc_DictW st) = (vs, mc_DictW st)"
      "\<forall>i<length ?es. entry M df w ?s (1 + int i) (?es ! i) (vs ! i)"
      using search_answers [OF M w es(2,1)] by metis
    obtain rem k2 where d: "mitra_decode M df k1 ?s 1 vs [] = (rem, k2)" "fits df w k2" "distinct (map fst rem)"
      "\<forall>x. look0 rem x = net ?es x" "fst ` set rem = snd ` set ?es"
      using mitra_decode_eq [OF M w k1(2) _ vs(1) es(1) vs(3), of "[]"] by auto
    have neg: "map fst (filter (\<lambda>(x, n). n < 0) (sort_key fst rem)) = sort db"
      using negative_keys [OF d(3), of db] d(4) db by simp
    show ?thesis
    proof (cases df)
      case False
      then have "mitra_collect M k2 ?s ?f (sort_key fst rem) st1 = (sort db, ?f, st1)"
        using mitra_collect_keep [of st1 M k2 ?s ?f "sort_key fst rem"] u neg by simp
      then have "Mitra_search M w st = Inr (sort db, st1)" using False k1(1) vs(2) d(1) u Some p by (simp add: run)
      then show ?thesis using st1 by (intro exI [of _ st1] exI [of _ "a w"]) simp
    next
      case True
      let ?st2 = "if mc_localStorage st1 then st1\<lparr>mc_SrcCnt := AList.update ?k (?s + 1) (mc_SrcCnt st1)\<rparr> else st1"
      have "length (sort_key fst rem) = card (fst ` set rem)" using distinct_card [OF d(3)] by simp
      also have "\<dots> \<le> length ?es" unfolding d(5) using card_image_le [of "set ?es" snd] card_length [of ?es] by simp
      finally have len: "0 + int (length (sort_key fst rem)) < 2 ^ 31" using r lim_less by (simp add: mkw_ok_def)
      have M': "menv_ok True W M" using M True by simp
      have pre2: "mc_deleteFiles ?st2" "fits True w k2" "(0::int) = int (length [])" "stored M True (mc_DictW ?st2) w (?s + 1) 1 []"
        using True u d(2) by (simp_all add: stored_def)
      have fl: "length (filter (\<lambda>(x, n). n < 0) (sort_key fst rem)) = length db" using arg_cong [OF neg, of length] by simp
      obtain D rd where cl: "mitra_collect M k2 (?s + 1) 0 (sort_key fst rem) ?st2 = (sort db, int (length db), ?st2\<lparr>mc_DictW := D, mc_rnd := rd\<rparr>)"
        "stored M True D w (?s + 1) 1 (map (\<lambda>x. (INS, x)) (sort db))"
        "\<forall>w'\<in>W. \<forall>s' c es'. w' \<noteq> w \<or> s' \<noteq> ?s + 1 \<longrightarrow> nonneg32 s' \<longrightarrow> 0 \<le> c \<longrightarrow> c + int (length es') \<le> 2 ^ 31 \<longrightarrow>
          stored M True (mc_DictW st) w' s' c es' \<longrightarrow> stored M True D w' s' c es'"
        using mitra_collect_store [OF M' w s pre2(1,2) len pre2(3,4)] neg fl u(1) by (auto split: if_splits)
      let ?st3 = "st1\<lparr>mc_DictW := D, mc_rnd := rd\<rparr>"
      have l3: "mc_deleteFiles ?st3 = df" using u by simp
      have fdb: "int (length db) < int lim" using db(3) by simp
      obtain st4 where st4: "put_counts M w b (int (length db)) (?s + 1) ?st3 = Inr st4"
        "counts ((counts_of a)(w := (int (length db), ?s + 1))) st4" "unchanged ?st3 st4"
        using count_put [OF M l3 True counts_store [OF f(2)] w of_nat_0_le_iff fdb s b] by blast
      have ss: "(case map_of (mc_SrcCnt st1) ?k of None \<Rightarrow> 0 | Some n \<Rightarrow> n) = ?s" if "mc_localStorage st1"
        using src that True by (simp add: look0_def)
      have "Mitra_search M w st = Inr (sort db, st4)"
        using cl(1) st4(1) ss True k1(1) vs(2) d(1) u Some p by (auto simp: run put_counts_def ebind_Inr_conv)
      moreover have D4: "mc_DictW st4 = D" "mc_deleteFiles st4 = df" using st4(3) u by (simp_all add: unchanged_def)
      let ?u = "\<lparr>u_es = map (\<lambda>x. (INS, x)) (sort db), u_src = ?s + 1\<rparr>"
      have "mkw_ok lim df ((a(w := ?u)) w') \<and> stored M df D w' (u_src ((a(w := ?u)) w')) 1 (u_es ((a(w := ?u)) w'))"
        if w': "w' \<in> W" for w'
      proof (cases "w' = w")
        case True
        have "int32 x" if "x \<in> set db" for x
        proof -
          have "net ?es x \<noteq> 0" using db(1) that by simp
          then have "x \<in> snd ` set ?es" using net_absent by blast
          then show ?thesis using es(1) by auto
        qed
        then show ?thesis using True cl(2) s db(3) \<open>df\<close> by (auto simp: mkw_ok_def)
      next
        case False
        then show ?thesis using cl(3) rep [OF w'] w' \<open>df\<close> lim_less by (auto simp: mkw_ok_def)
      qed
      moreover have "counts_of (a(w := ?u)) = (counts_of a)(w := (int (length db), ?s + 1))" by (auto simp: counts_of_def)
      ultimately show ?thesis using st4(2) M D4 True by (intro exI [of _ st4] exI [of _ ?u]) (simp add: mrep_def)
    qed
  qed
qed

end

section \<open>Local counters\<close>

definition local_rep :: "string set \<Rightarrow> counts \<Rightarrow> mitra \<Rightarrow> bool" where
  "local_rep W c st \<longleftrightarrow>
     mc_localStorage st \<and> (\<forall>w\<in>W. look0 (mc_FileCnt st) (pad16 w) = fst (c w) \<and> look0 (mc_SrcCnt st) (pad16 w) = snd (c w))"

interpretation local_counts: mitra_counters W df M "local_rep W" "2 ^ 31" for W df M
proof
  fix c st w f s assume M: "menv_ok df W M" and l: "mc_deleteFiles st = df" and c: "local_rep W c st" and w: "w \<in> W"
    and cw: "c w = (f, s)" and ns: "\<not> df \<longrightarrow> s = 0"
  have r: "look0 (mc_FileCnt st) (pad16 w) = f" "look0 (mc_SrcCnt st) (pad16 w) = s" "mc_localStorage st"
    using c w cw by (auto simp: local_rep_def)
  define st1 where "st1 = snd (local_counts (pad16 w) st)"
  have n: "local_counts (pad16 w) st = ((f + 1, s), st1)"
    using r l ns by (cases df) (auto simp: st1_def local_counts_def look0_def Let_def split: option.splits)
  have f1: "unchanged st st1" "look0 (mc_FileCnt st1) k = (if k = pad16 w then f + 1 else look0 (mc_FileCnt st) k)"
    "look0 (mc_SrcCnt st1) k = look0 (mc_SrcCnt st) k" for k
    using r unfolding st1_def local_counts_def
    by (cases df; auto simp: look0_update unchanged_def Let_def; auto simp: look0_def split: option.splits)+
  have "local_rep W (c(w := (f + 1, s))) st1"
    using c f1 pad16_eq_iff [OF M _ w] r(2) by (auto simp: local_rep_def unchanged_def)
  then show "\<exists>st'. next_counts M False w st = Inr ((f + 1, s), st') \<and> local_rep W (c(w := (f + 1, s))) st' \<and> unchanged st st'"
    using n f1(1) r(3) by (simp add: next_counts_def)
next
  fix c st w f s b assume l: "mc_deleteFiles st = df" and c: "local_rep W c st" and w: "w \<in> W" and cw: "c w = (f, s)"
    and ns: "\<not> df \<longrightarrow> s = 0"
  have r: "look0 (mc_FileCnt st) (pad16 w) = f" "look0 (mc_SrcCnt st) (pad16 w) = s" "mc_localStorage st"
    using c w cw by (auto simp: local_rep_def)
  show "\<exists>r st'. search_counts M (pad16 w) b st = Inr (r, st') \<and> local_rep W c st' \<and> unchanged st st' \<and>
      (r = Some (f, s) \<and> (mc_localStorage st' \<and> df \<longrightarrow> look0 (mc_SrcCnt st') (pad16 w) = s) \<or> r = None \<and> f = 0)"
  proof (cases "map_of (mc_FileCnt st) (pad16 w)")
    case None
    then show ?thesis using c r by (simp add: search_counts_def unchanged_def look0_def)
  next
    case (Some f')
    then have "f' = f" using r(1) by (simp add: look0_def)
    then show ?thesis using Some c r l ns by (cases df) (auto simp: search_counts_def unchanged_def look0_def Let_def)
  qed
next
  fix c st w f s b assume M: "menv_ok df W M" and c: "local_rep W c st" and w: "w \<in> W"
  have "mc_localStorage st" using c by (simp add: local_rep_def)
  then show "\<exists>st'. put_counts M w b f s st = Inr st' \<and> local_rep W (c(w := (f, s))) st' \<and> unchanged st st'"
    using c pad16_eq_iff [OF M _ w] by (auto simp: local_rep_def put_counts_def unchanged_def look0_update)
qed (auto simp: local_rep_def)

section \<open>Counters in the oblivious map\<close>

definition kw_bid :: "string \<Rightarrow> bid" where
  "kw_bid w = Bid_array (pad16 w)"

text \<open>
  The map holds the counter pair of every known keyword. A pair whose first number would grow to
  two digits cannot be stored, hence the bound 10 on the number of stored updates. \<open>X\<close> are keys
  of the map that belong to no keyword.
\<close>

definition omap_counts_rep :: "nat \<Rightarrow> nat \<Rightarrow> bid set \<Rightarrow> string set \<Rightarrow> menv \<Rightarrow> counts \<Rightarrow> mitra \<Rightarrow> bool" where
  "omap_counts_rep h cap X W M c st \<longleftrightarrow>
     \<not> mc_localStorage st \<and> e_scheme (m_E M) = Mitra \<and> finite W \<and> finite X \<and> card W + card X < min_size (Suc h) \<and>
     card W + card X \<le> cap \<and> [] \<notin> W \<and>
     (\<exists>f. omap_rel (m_E M) (m_fuel M) h cap f (mc_omap st) \<and> dom f \<subseteq> kw_bid ` W \<union> X \<and>
        (\<forall>w\<in>W. case f (kw_bid w) of None \<Rightarrow> c w = (0, 0) | Some s \<Rightarrow> s = show_pair (fst (c w)) (snd (c w))))"

lemma getBid_kw: "length w \<le> 16 \<Longrightarrow> getBid 16 w = Inr (kw_bid w)"
  by (simp add: getBid_def copy_at_0 kw_bid_def pad16_def)

lemma kw_bid_inj: "menv_ok df W M \<Longrightarrow> w \<in> W \<Longrightarrow> w' \<in> W \<Longrightarrow> kw_bid w = kw_bid w' \<longleftrightarrow> w = w'"
  using pad16_eq_iff [of df W M w w'] by (auto simp: kw_bid_def Bid_array_def)

lemma kw_bid_key:
  assumes "menv_ok df W M" "w \<in> W" "w \<noteq> []" "e_scheme E = Mitra"
  shows "key_ok E 0 (kw_bid w)" "bid_wf (ID_SIZE (e_scheme E)) (kw_bid w)"
proof -
  note kw = menv_ok_kw [OF assms(1,2)]
  obtain c cs where w: "w = c # cs" using assms(3) by (cases w) auto
  then have "pad16 w ! 0 \<noteq> 0" using kw by (auto simp: pad16_def string_bytes_def)
  then have "bid_ne_int (kw_bid w) 0" by (simp add: kw_bid_def Bid_array_def bid_ne_int_iff bid_eq_int_0_iff)
  moreover show "bid_wf (ID_SIZE (e_scheme E)) (kw_bid w)"
    using kw assms(4) by (simp add: bid_wf_def ID_SIZE_def kw_bid_def Bid_array_def)
  ultimately show "key_ok E 0 (kw_bid w)" using assms(4) by (simp add: key_ok_def)
qed

lemma omap_counts_put:
  assumes M: "menv_ok df W M" and st: "omap_counts_rep h cap X W M c st" and w: "w \<in> W"
    and f: "omap_rel (m_E M) (m_fuel M) h cap f (mc_omap st)" "dom f \<subseteq> kw_bid ` W \<union> X"
    and s: "text_ok s"
  shows "omap_ok (m_E M) h cap (Put (kw_bid w) s) f"
proof -
  have fin: "finite W" "finite X" "card W + card X < min_size (Suc h)" "card W + card X \<le> cap" "w \<noteq> []" "e_scheme (m_E M) = Mitra"
    using st w by (auto simp: omap_counts_rep_def)
  have "insert (kw_bid w) (dom f) \<subseteq> kw_bid ` W \<union> X" using f(2) w by simp
  then have "card (insert (kw_bid w) (dom f)) \<le> card (kw_bid ` W \<union> X)" using fin(1,2) by (intro card_mono) auto
  then have "card (insert (kw_bid w) (dom f)) \<le> card W + card X"
    using card_Un_le [of "kw_bid ` W" X] card_image_le [OF fin(1), of kw_bid] by linarith
  then show ?thesis using fin s kw_bid_key [OF M w] by simp
qed

lemma omap_counts_upd:
  assumes M: "menv_ok df W M" and st: "omap_counts_rep h cap X W M c st" and w: "w \<in> W"
    and f: "dom f \<subseteq> kw_bid ` W \<union> X" "\<forall>w\<in>W. case f (kw_bid w) of None \<Rightarrow> c w = (0, 0) | Some s \<Rightarrow> s = show_pair (fst (c w)) (snd (c w))"
    and m: "omap_rel (m_E M) (m_fuel M) h cap (f(kw_bid w \<mapsto> show_pair a b)) m"
  shows "omap_counts_rep h cap X W M (c(w := (a, b))) (st\<lparr>mc_omap := m\<rparr>)"
  unfolding omap_counts_rep_def
proof (intro conjI exI [of _ "f(kw_bid w \<mapsto> show_pair a b)"] ballI)
  fix w' assume "w' \<in> W"
  then show "case (f(kw_bid w \<mapsto> show_pair a b)) (kw_bid w') of None \<Rightarrow> (c(w := (a, b))) w' = (0, 0)
      | Some s \<Rightarrow> s = show_pair (fst ((c(w := (a, b))) w')) (snd ((c(w := (a, b))) w'))"
    using f(2) kw_bid_inj [OF M _ w, of w'] by (cases "w' = w") (auto split: option.splits)
qed (use st f(1) w m in \<open>auto simp: omap_counts_rep_def\<close>)

interpretation omap_counts: mitra_counters W df M "omap_counts_rep h cap X W M" 10 for W df M h cap X
proof
  fix c st w f s assume M: "menv_ok df W M" and l: "mc_deleteFiles st = df" and c: "omap_counts_rep h cap X W M c st" and w: "w \<in> W"
    and cw: "c w = (f, s)" and fs: "0 \<le> f" "f + 1 < int 10" "nonneg32 s"
  obtain g where g: "omap_rel (m_E M) (m_fuel M) h cap g (mc_omap st)" "dom g \<subseteq> kw_bid ` W \<union> X"
    "\<forall>w\<in>W. case g (kw_bid w) of None \<Rightarrow> c w = (0, 0) | Some s \<Rightarrow> s = show_pair (fst (c w)) (snd (c w))"
    using c by (auto simp: omap_counts_rep_def)
  have b: "getBid 16 w = Inr (kw_bid w)" using getBid_kw menv_ok_kw [OF M w] by simp
  have sch: "e_scheme (m_E M) = Mitra" "w \<noteq> []" and nl: "\<not> mc_localStorage st" using c w by (auto simp: omap_counts_rep_def)
  note key = kw_bid_key [OF M w sch(2,1)]
  have s31: "0 \<le> s" "s < 2 ^ 31" using fs(3) by (simp_all add: nonneg32_def)
  show "\<exists>st'. next_counts M False w st = Inr ((f + 1, s), st') \<and> omap_counts_rep h cap X W M (c(w := (f + 1, s))) st' \<and> unchanged st st'"
  proof (cases "g (kw_bid w)")
    case None
    then have z: "f = 0" "s = 0" using g(3) w cw by force+
    have "omap_ok (m_E M) h cap (Put (kw_bid w) ''1-0'') g"
      by (rule omap_counts_put [OF M c w g(1,2)]) (simp add: text_ok_def NUL_char)
    then obtain m where m: "mitra_OMAP_incrementFileCnt (m_E M) (m_fuel M) (kw_bid w) (mc_omap st) = Inr (''0-0'', m)"
      "omap_rel (m_E M) (m_fuel M) h cap (g(kw_bid w \<mapsto> ''1-0'')) m"
      using mitra_count_absent [OF g(1) None] by blast
    have e: "''1-0'' = show_pair 1 0" "''0-0'' = show_pair 0 0" by code_simp+
    have "parse_pair ''0-0'' = Inr (0, 0)" using parse_pair_show [of 0 0 "[]"] e(2) by simp
    then have "next_counts M False w st = Inr ((1, 0), st\<lparr>mc_omap := m\<rparr>)"
      using nl b m(1) by (simp add: next_counts_def omap_counts_def)
    moreover have "omap_counts_rep h cap X W M (c(w := (1, 0))) (st\<lparr>mc_omap := m\<rparr>)"
      using omap_counts_upd [OF M c w g(2,3)] m(2) e(1) by simp
    ultimately show ?thesis using z by (simp add: unchanged_def)
  next
    case (Some v)
    then have v: "v = show_pair f s" using g(3) w cw by force
    have ok: "count_ok f" "same_digits f" "length (show_pair f s) \<le> 16"
      using fs s31 by (auto simp: count_ok_def int32_def intro!: same_digits_small length_show_small)
    obtain m where m: "mitra_OMAP_incrementFileCnt (m_E M) (m_fuel M) (kw_bid w) (mc_omap st) = Inr (padded (show_pair f s), m)"
      "omap_rel (m_E M) (m_fuel M) h cap (g(kw_bid w \<mapsto> show_pair (f + 1) s)) m"
      using mitra_count_present [OF g(1) key(2) Some [unfolded v] ok(1) s31(1) ok(2,3)] by blast
    have "parse_pair (padded (show_pair f s)) = Inr (f, s)"
      unfolding padded_eq using fs s31 by (intro parse_pair_show) auto
    then have "next_counts M False w st = Inr ((f + 1, s), st\<lparr>mc_omap := m\<rparr>)"
      using nl b m(1) padded_not_Nil [OF ok(3)] by (simp add: next_counts_def omap_counts_def)
    then show ?thesis using omap_counts_upd [OF M c w g(2,3) m(2)] by (simp add: unchanged_def)
  qed
next
  fix c st w f s b assume M: "menv_ok df W M" and c: "omap_counts_rep h cap X W M c st" and w: "w \<in> W" and cw: "c w = (f, s)"
    and fs: "0 \<le> f" "f < int 10" "nonneg32 s" and b: "getBid 16 w = Inr b"
  obtain g where g: "omap_rel (m_E M) (m_fuel M) h cap g (mc_omap st)" "dom g \<subseteq> kw_bid ` W \<union> X"
    "\<forall>w\<in>W. case g (kw_bid w) of None \<Rightarrow> c w = (0, 0) | Some s \<Rightarrow> s = show_pair (fst (c w)) (snd (c w))"
    using c by (auto simp: omap_counts_rep_def)
  have bw: "b = kw_bid w" using b getBid_kw menv_ok_kw [OF M w] by simp
  have sch: "e_scheme (m_E M) = Mitra" "w \<noteq> []" and nl: "\<not> mc_localStorage st" using c w by (auto simp: omap_counts_rep_def)
  note key = kw_bid_key [OF M w sch(2,1)]
  obtain m where m: "OMAP_find (m_E M) (m_fuel M) b (mc_omap st) = Inr (case g b of None \<Rightarrow> [] | Some s \<Rightarrow> s, m)"
    "omap_rel (m_E M) (m_fuel M) h cap g m"
    using omap.step [OF g(1), of "Get b"] key(2) bw by auto
  have rep: "omap_counts_rep h cap X W M c (st\<lparr>mc_omap := m\<rparr>)" using c g m(2) by (auto simp: omap_counts_rep_def)
  show "\<exists>r st'. search_counts M (pad16 w) b st = Inr (r, st') \<and> omap_counts_rep h cap X W M c st' \<and> unchanged st st' \<and>
      (r = Some (f, s) \<and> (mc_localStorage st' \<and> df \<longrightarrow> look0 (mc_SrcCnt st') (pad16 w) = s) \<or> r = None \<and> f = 0)"
  proof (cases "g b")
    case None
    then have "f = 0" using g(3) w cw bw by force
    then show ?thesis using None m(1) rep nl by (simp add: search_counts_def unchanged_def)
  next
    case (Some v)
    then have v: "v = show_pair f s" using g(3) w cw bw by force
    have "parse_pair v = Inr (f, s)" unfolding v using fs parse_pair_show [of f s "[]"] by (simp add: nonneg32_def)
    moreover have "v \<noteq> []" using v by (simp add: show_pair_def)
    ultimately show ?thesis using Some m(1) rep nl by (simp add: search_counts_def unchanged_def)
  qed
next
  fix c st w f s b assume M: "menv_ok df W M" and c: "omap_counts_rep h cap X W M c st" and w: "w \<in> W"
    and fs: "0 \<le> f" "f < int 10" "nonneg32 s" and b: "getBid 16 w = Inr b"
  obtain g where g: "omap_rel (m_E M) (m_fuel M) h cap g (mc_omap st)" "dom g \<subseteq> kw_bid ` W \<union> X"
    "\<forall>w\<in>W. case g (kw_bid w) of None \<Rightarrow> c w = (0, 0) | Some s \<Rightarrow> s = show_pair (fst (c w)) (snd (c w))"
    using c by (auto simp: omap_counts_rep_def)
  have bw: "b = kw_bid w" using b getBid_kw menv_ok_kw [OF M w] by simp
  have nl: "\<not> mc_localStorage st" using c by (auto simp: omap_counts_rep_def)
  have "length (show_pair f s) \<le> 16" using fs by (intro length_show_small) (auto simp: nonneg32_def int32_def)
  then have tx: "text_ok (show_pair f s)" using fs by (intro text_ok_show) (auto simp: nonneg32_def)
  obtain m where m: "OMAP_insert (m_E M) (m_fuel M) b (show_pair f s) (mc_omap st) = Inr m"
    "omap_rel (m_E M) (m_fuel M) h cap (g(kw_bid w \<mapsto> show_pair f s)) m"
    using omap.step [OF g(1) omap_counts_put [OF M c w g(1,2) tx]] bw by (auto simp: ebind_Inr_conv)
  have "put_counts M w b f s st = Inr (st\<lparr>mc_omap := m\<rparr>)" using nl m(1) by (simp add: put_counts_def)
  then show "\<exists>st'. put_counts M w b f s st = Inr st' \<and> omap_counts_rep h cap X W M (c(w := (f, s))) st' \<and> unchanged st st'"
    using omap_counts_upd [OF M c w g(2,3) m(2)] by (simp add: unchanged_def)
qed (auto simp: omap_counts_rep_def)

section \<open>Refinement of the database\<close>

text \<open>The specification with the answers in increasing order.\<close>

definition sse_step_sorted :: "sse_op \<Rightarrow> sse \<Rightarrow> int list \<times> sse" where
  "sse_step_sorted p a = (sort (fst (sse_step p a)), snd (sse_step p a))"

text \<open>The updates of a setup; a setup makes no searches.\<close>

fun mitra_load_step :: "menv \<Rightarrow> bool \<Rightarrow> sse_op \<Rightarrow> mitra \<Rightarrow> (int list \<times> mitra) res" where
  "mitra_load_step M load (Ins w x) st = ebind (Mitra_update M INS w x load st) (\<lambda>st. Inr ([], st))"
| "mitra_load_step M load (Del w x) st = ebind (Mitra_update M DEL w x load st) (\<lambda>st. Inr ([], st))"
| "mitra_load_step M load (Srch w) st = Inr ([], st)"

fun mitra_step :: "menv \<Rightarrow> sse_op \<Rightarrow> mitra \<Rightarrow> (int list \<times> mitra) res" where
  "mitra_step M (Ins w x) st = ebind (Mitra_update M INS w x False st) (\<lambda>st. Inr ([], st))"
| "mitra_step M (Del w x) st = ebind (Mitra_update M DEL w x False st) (\<lambda>st. Inr ([], st))"
| "mitra_step M (Srch w) st = Mitra_search M w st"

text \<open>\<open>lim\<close> bounds the updates that a keyword may have stored: at most two for each insertion.\<close>

fun mitra_ok :: "nat \<Rightarrow> string set \<Rightarrow> sse_op \<Rightarrow> sse \<Rightarrow> bool" where
  "mitra_ok lim W (Ins w x) a \<longleftrightarrow> w \<in> W \<and> int32 x \<and> x \<notin> set (s_db a w) \<and> 2 * (s_ins a w + 1) < lim"
| "mitra_ok lim W (Del w x) a \<longleftrightarrow> w \<in> W \<and> x \<in> set (s_db a w)"
| "mitra_ok lim W (Srch w) a \<longleftrightarrow> w \<in> W \<and> s_srch a w + 1 < 2 ^ 31"

fun is_update :: "sse_op \<Rightarrow> bool" where
  "is_update (Srch w) = False"
| "is_update p = True"

definition load_ok :: "nat \<Rightarrow> string set \<Rightarrow> sse_op \<Rightarrow> sse \<Rightarrow> bool" where
  "load_ok lim W p a \<longleftrightarrow> is_update p \<and> mitra_ok lim W p a"

text \<open>
  The stored updates sum up to -1 for the live identifiers and 0 for the others; there are at
  most two stored updates per insertion.
\<close>

definition mitra_kw :: "nat \<Rightarrow> sse \<Rightarrow> string \<Rightarrow> mkw \<Rightarrow> bool" where
  "mitra_kw lim a w u \<longleftrightarrow>
     distinct (s_db a w) \<and> (\<forall>x. net (u_es u) x = (if x \<in> set (s_db a w) then -1 else 0)) \<and>
     length (u_es u) + length (s_db a w) \<le> 2 * s_ins a w \<and> length (s_db a w) \<le> s_ins a w \<and> 2 * s_ins a w < lim \<and>
     u_src u \<le> int (s_srch a w)"

definition mitra_rel :: "(counts \<Rightarrow> mitra \<Rightarrow> bool) \<Rightarrow> nat \<Rightarrow> bool \<Rightarrow> string set \<Rightarrow> menv \<Rightarrow> sse \<Rightarrow> mitra \<Rightarrow> bool" where
  "mitra_rel counts lim df W M a st \<longleftrightarrow> (\<exists>b. mrep counts lim df W M b st \<and> (\<forall>w\<in>W. mitra_kw lim a w (b w)))"

lemma mitra_relI:
  "mrep counts lim df W M b st \<Longrightarrow> (\<And>w. w \<in> W \<Longrightarrow> mitra_kw lim a w (b w)) \<Longrightarrow> mitra_rel counts lim df W M a st"
  by (auto simp: mitra_rel_def)

lemma length_filter_neq: "distinct xs \<Longrightarrow> x \<in> set xs \<Longrightarrow> length (filter (\<lambda>y. y \<noteq> x) xs) + 1 = length xs"
proof (induction xs)
  case (Cons y ys)
  have "filter (\<lambda>z. z \<noteq> y) ys = ys" using Cons.prems by (auto simp: filter_id_conv)
  then show ?case using Cons by (cases "y = x") auto
qed simp

lemma net_insertions: "distinct xs \<Longrightarrow> net (map (\<lambda>x. (INS, x)) xs) y = (if y \<in> set xs then -1 else 0)"
  by (induction xs) (auto simp: op_int_def)

context mitra_updates
begin

lemma update_step:
  assumes rel: "mitra_rel counts lim df W M a st" and ok: "load_ok lim W p a"
  shows "\<exists>t. mitra_load_step M load p st = Inr (fst (sse_step_sorted p a), t) \<and> mitra_rel counts lim df W M (snd (sse_step_sorted p a)) t"
proof -
  obtain b where b: "mrep counts lim df W M b st" and ab: "\<And>w. w \<in> W \<Longrightarrow> mitra_kw lim a w (b w)" using rel by (auto simp: mitra_rel_def)
  show ?thesis
  proof (cases p)
    case (Ins w x)
    then have w: "w \<in> W" "int32 x" "length (u_es (b w)) + 1 < lim" using ok [unfolded load_ok_def] ab [of w] by (auto simp: mitra_kw_def)
    let ?b = "b(w := (b w)\<lparr>u_es := u_es (b w) @ [(INS, x)]\<rparr>)"
    have "mitra_kw lim (snd (sse_step p a)) w' (?b w')" if "w' \<in> W" for w'
      using ab [OF that] ok [unfolded load_ok_def] Ins by (auto simp: mitra_kw_def op_int_def)
    moreover obtain st' where "Mitra_update M INS w x load st = Inr st'" "mrep counts lim df W M ?b st'"
      using update_rep [OF b w(1,2,3), of INS] by blast
    ultimately show ?thesis using Ins mitra_relI [of counts lim df W M ?b st'] by (simp add: sse_step_sorted_def)
  next
    case (Del w x)
    then have w: "w \<in> W" "x \<in> set (s_db a w)" using ok [unfolded load_ok_def] by auto
    have n: "length (u_es (b w)) + 1 < lim" using ab [OF w(1)] w(2) by (cases "s_db a w") (auto simp: mitra_kw_def)
    have x: "int32 x"
    proof -
      have "net (u_es (b w)) x \<noteq> 0" using ab [OF w(1)] w(2) by (simp add: mitra_kw_def)
      then have "x \<in> snd ` set (u_es (b w))" using net_absent by blast
      then show ?thesis using b w(1) by (auto simp: mrep_def mkw_ok_def)
    qed
    let ?b = "b(w := (b w)\<lparr>u_es := u_es (b w) @ [(DEL, x)]\<rparr>)"
    have "mitra_kw lim (snd (sse_step p a)) w' (?b w')" if "w' \<in> W" for w'
      using ab [OF that] w(2) Del length_filter_neq [of "s_db a w" x] by (auto simp: mitra_kw_def op_int_def)
    moreover obtain st' where "Mitra_update M DEL w x load st = Inr st'" "mrep counts lim df W M ?b st'"
      using update_rep [OF b w(1) x n, of DEL] by blast
    ultimately show ?thesis using Del mitra_relI [of counts lim df W M ?b st'] by (simp add: sse_step_sorted_def)
  next
    case (Srch w)
    then show ?thesis using ok by (simp add: load_ok_def)
  qed
qed

end

context mitra_counters
begin

lemma search_step:
  assumes rel: "mitra_rel counts lim df W M a st" and ok: "mitra_ok lim W (Srch w) a"
  shows "\<exists>t. Mitra_search M w st = Inr (fst (sse_step_sorted (Srch w) a), t) \<and> mitra_rel counts lim df W M (snd (sse_step_sorted (Srch w) a)) t"
proof -
  obtain b where b: "mrep counts lim df W M b st" and ab: "\<And>w. w \<in> W \<Longrightarrow> mitra_kw lim a w (b w)" using rel by (auto simp: mitra_rel_def)
  let ?db = "s_db a w"
  have w: "w \<in> W" "nonneg32 (u_src (b w) + 1)" using ok ab [of w] b by (auto simp: mitra_kw_def nonneg32_def mrep_def mkw_ok_def)
  note kw = ab [OF w(1)]
  have db: "\<forall>x. net (u_es (b w)) x = (if x \<in> set ?db then -1 else 0)" "distinct ?db" "length ?db < lim" using kw by (auto simp: mitra_kw_def)
  obtain st' u where s: "Mitra_search M w st = Inr (sort ?db, st')" "mrep counts lim df W M (b(w := u)) st'"
    "u = b w \<or> df \<and> u = \<lparr>u_es = map (\<lambda>x. (INS, x)) (sort ?db), u_src = u_src (b w) + 1\<rparr>"
    using search_rep [OF b w db] by blast
  have "mitra_kw lim (snd (sse_step (Srch w) a)) w' ((b(w := u)) w')" if "w' \<in> W" for w'
    using ab [OF that] s(3) net_insertions [of "sort ?db"] by (auto simp: mitra_kw_def)
  then show ?thesis using s(1,2) mitra_relI [of counts lim df W M "b(w := u)" st'] by (simp add: sse_step_sorted_def)
qed

lemma database_step:
  assumes rel: "mitra_rel counts lim df W M a st" and ok: "mitra_ok lim W p a"
  shows "\<exists>t. mitra_step M p st = Inr (fst (sse_step_sorted p a), t) \<and> mitra_rel counts lim df W M (snd (sse_step_sorted p a)) t"
  using update_step [OF rel, of p] search_step [OF rel] ok by (cases p) (auto simp: load_ok_def)

end

sublocale mitra_counters \<subseteq> database: simulation "mitra_rel counts lim df W M" "mitra_ok lim W" sse_step_sorted "mitra_step M"
  by unfold_locales (rule database_step)

sublocale mitra_updates \<subseteq> loading: simulation "mitra_rel counts lim df W M" "load_ok lim W" sse_step_sorted "mitra_load_step M load"
  by unfold_locales (rule update_step)

section \<open>Properties\<close>

lemma mitra_new_rel:
  assumes "menv_ok df W M" "mc_DictW st = []" "mc_deleteFiles st = df" "counts (\<lambda>_. (0, 0)) st" "0 < lim"
  shows "mitra_rel counts lim df W M sse_empty st"
  using assms by (intro mitra_relI [where b = "\<lambda>_. \<lparr>u_es = [], u_src = 0\<rparr>"])
    (auto simp: mrep_def mkw_ok_def counts_of_def nonneg32_def stored_def mitra_kw_def sse_empty_def)

lemma mitra_new_local:
  assumes "menv_ok df W M" "Mitra_new M df n = Inr st"
  shows "mitra_rel (local_rep W) (2 ^ 31) df W M sse_empty (st\<lparr>mc_localStorage := True\<rparr>)"
  using assms by (intro mitra_new_rel) (auto simp: Mitra_new_def ebind_Inr_conv local_rep_def)


lemma mitra_new_omap:
  assumes M: "menv_ok df W M" and E: "env_ok (m_E M)" "e_scheme (m_E M) = Mitra"
    and n: "n div Z \<noteq> 0" "ilog2 (n div Z) < 31" "omap_top (m_E M) n < m_fuel M"
    and W: "finite W" "[] \<notin> W" "card W < min_size (Suc (omap_top (m_E M) n))" "card W \<le> omap_cap n"
  obtains st where "Mitra_new M df n = Inr st"
    "mitra_rel (omap_counts_rep (omap_top (m_E M) n) (omap_cap n) {} W M) 10 df W M sse_empty st"
proof -
  obtain m where m: "OMAP_new (m_E M) n (replicate 16 0) = Inr m"
    "omap_rel (m_E M) (m_fuel M) (omap_top (m_E M) n) (omap_cap n) (\<lambda>_. None) m"
    using omap_rel_new [OF E(1) n] by metis
  let ?st = "\<lparr>mc_deleteFiles = df, mc_localStorage = False, mc_omap = m, mc_FileCnt = [],
            mc_SrcCnt = [], mc_setupOMAP = [], mc_DictW = [], mc_rnd = 0\<rparr>"
  have "omap_counts_rep (omap_top (m_E M) n) (omap_cap n) {} W M (\<lambda>_. (0, 0)) ?st"
    using m(2) E(2) W by (auto simp: omap_counts_rep_def intro!: exI [of _ "\<lambda>_. None"])
  then have "mitra_rel (omap_counts_rep (omap_top (m_E M) n) (omap_cap n) {} W M) 10 df W M sse_empty ?st"
    by (intro mitra_new_rel [OF M]) auto
  then show ?thesis using that m(1) by (simp add: Mitra_new_def)
qed

text \<open>A generator and random bytes that satisfy the assumptions.\<close>

definition toy_menv :: menv where
  "toy_menv = \<lparr>m_E = toy_env Mitra, m_fuel = 50, m_prg = (\<lambda>b. drop 6 b @ take 6 b), m_rand = (\<lambda>n i. 2)\<rparr>"

lemma menv_ok_toy: "menv_ok df {''a'', ''b''} toy_menv"
proof -
  have inj: "inj_on (m_prg toy_menv) {b. length b = 16}"
  proof (rule inj_onI)
    fix b c :: bytes assume "b \<in> {b. length b = 16}" "c \<in> {b. length b = 16}" "m_prg toy_menv b = m_prg toy_menv c"
    then have "drop 6 b = drop 6 c" "take 6 b = take 6 c" by (simp_all add: toy_menv_def)
    then show "b = c" by (metis append_take_drop_id)
  qed
  have "bitwiseXOR_int (m_rand toy_menv n) x (op_int op) (pad toy_menv df w s f) ! 5 \<noteq> 0" if "length w \<le> room df" for w s f n x op
  proof -
    have "length (cblock df w 1 s f) = 16" using length_cblock [OF that] .
    moreover have "cblock df w 1 s f ! 11 = 1" using that by (auto simp: cblock_def room_def nth_append split: if_splits)
    ultimately have "pad toy_menv df w s f ! 5 = 1" "length (pad toy_menv df w s f) = 16"
      by (simp_all add: pad_def toy_menv_def nth_append)
    then have "bitwiseXOR_int (m_rand toy_menv n) x (op_int op) (pad toy_menv df w s f) ! 5 = 2 XOR 1"
      by (simp add: bitwiseXOR_int_def bitwiseXOR_def AES_KEY_SIZE_def nth_append toy_menv_def)
    then show ?thesis by simp
  qed
  moreover have "v ! 5 \<noteq> 0 \<Longrightarrow> v \<noteq> replicate 16 (0::byte)" for v by auto
  ultimately have "bitwiseXOR_int (m_rand toy_menv n) x (op_int op) (pad toy_menv df w s f) \<noteq> replicate 16 0" if "length w \<le> room df" for w s f n x op
    using that by blast
  then show ?thesis using inj by (auto simp: menv_ok_def room_def toy_menv_def NUL_char)
qed

lemma toy_mitra_new: "\<exists>st. Mitra_new toy_menv True 4 = Inr st"
proof -
  have "(case Mitra_new toy_menv True 4 of Inl _ \<Rightarrow> False | Inr _ \<Rightarrow> True)" by code_simp
  then show ?thesis by (auto split: sum.splits)
qed


text \<open>
  (C1) Mitra as it is constructed, with its counters in the oblivious map: every admissible sequence
  of insertions, deletions and searches runs without an error and every search returns the live
  identifiers of its keyword in increasing order. The client, the oblivious map, the AVL tree, the
  ORAM and the server are composed. The bound 10 on the updates of a keyword is the one beyond which
  a counter no longer fits (\<open>mitra_counter_overflows\<close>); the number of keywords is bounded by the map.
\<close>

theorem mitra_omap_refines_database:
  assumes "menv_ok df W M" "env_ok (m_E M)" "e_scheme (m_E M) = Mitra"
    "n div Z \<noteq> 0" "ilog2 (n div Z) < 31" "omap_top (m_E M) n < m_fuel M"
    "finite W" "[] \<notin> W" "card W < min_size (Suc (omap_top (m_E M) n))" "card W \<le> omap_cap n"
    "all_ok (mitra_ok 10 W) sse_step_sorted ps sse_empty"
  shows "\<exists>st. ebind (Mitra_new M df n) (crun (mitra_step M) ps) = Inr (fst (arun sse_step_sorted ps sse_empty), st)"
proof -
  obtain st where "Mitra_new M df n = Inr st"
    "mitra_rel (omap_counts_rep (omap_top (m_E M) n) (omap_cap n) {} W M) 10 df W M sse_empty st"
    by (rule mitra_new_omap [OF assms(1-10)])
  then show ?thesis using omap_counts.database.run_outputs [OF _ assms(11)] by simp
qed

theorem mitra_omap_refines_database_witness:
  "\<exists>st. ebind (Mitra_new toy_menv True 4) (crun (mitra_step toy_menv)
      [Ins ''a'' 8, Ins ''a'' 7, Ins ''b'' 9, Srch ''a'', Del ''a'' 8, Srch ''a'', Srch ''b'']) =
    Inr ([[], [], [], [7, 8], [], [7], [9]], st)"
proof -
  have E: "env_ok (m_E toy_menv)" "e_scheme (m_E toy_menv) = Mitra" using env_ok_toy by (simp_all add: toy_menv_def toy_env_def)
  have sz: "4 div Z \<noteq> 0" "ilog2 (4 div Z) < 31" by (simp_all add: Z_def ilog2.simps)
  have t: "omap_top (m_E toy_menv) 4 = 3" "omap_cap 4 = 4" "min_size 4 = 7" "m_fuel toy_menv = 50" by code_simp+
  have W: "finite {''a'', ''b''}" "[] \<notin> {''a'', ''b''}" "card {''a'', ''b''} < min_size (Suc (omap_top (m_E toy_menv) 4))"
    "card {''a'', ''b''} \<le> omap_cap 4" "omap_top (m_E toy_menv) 4 < m_fuel toy_menv" unfolding t by (simp_all add: t)
  show ?thesis
    using mitra_omap_refines_database [OF menv_ok_toy E sz W(5,1,2,3,4),
      of "[Ins ''a'' 8, Ins ''a'' 7, Ins ''b'' 9, Srch ''a'', Del ''a'' 8, Srch ''a'', Srch ''b'']" True]
    by (simp add: sse_empty_def int32_def sse_step_sorted_def)
qed

end
