(* ===== verification/Bulk_Tree.thy ===== *)
theory Bulk_Tree
  imports Omap_Correct
begin

text \<open>
  Bulk construction: \<open>sortedArrayToBST\<close> turns the sorted nodes into a balanced tree, whatever
  positions the random generator picks.
\<close>

section \<open>The tree of a sorted list\<close>

fun bits :: "nat \<Rightarrow> nat" where
  "bits n = (if n = 0 then 0 else Suc (bits (n div 2)))"

declare bits.simps [simp del]

lemma bits_0 [simp]: "bits 0 = 0"
  by (simp add: bits.simps)

lemma bits_pos: "0 < n \<Longrightarrow> bits n = Suc (bits (n div 2))"
  by (simp add: bits.simps [of n])

lemma bits_mono: "m \<le> n \<Longrightarrow> bits m \<le> bits n"
proof (induction n arbitrary: m rule: bits.induct)
  case (1 n)
  then show ?case using div_le_mono [of m n 2] by (cases "m = 0") (auto simp: bits_pos)
qed

lemma bits_less: "n < 2 ^ h \<Longrightarrow> bits n \<le> h"
proof (induction n arbitrary: h rule: bits.induct)
  case (1 n)
  show ?case
  proof (cases "n = 0")
    case False
    then obtain g where "h = Suc g" using "1.prems" by (cases h) auto
    then show ?thesis using "1.IH" [OF False, of g] "1.prems" False by (simp add: bits_pos)
  qed simp
qed

lemma bits_halves: "bits ((n - 1) div 2) \<le> bits (n div 2)" "bits (n div 2) \<le> Suc (bits ((n - 1) div 2))"
proof -
  show "bits ((n - 1) div 2) \<le> bits (n div 2)" by (intro bits_mono div_le_mono) simp
  have "bits (n div 2) \<le> bits (2 * ((n - 1) div 2) + 1)" by (intro bits_mono) presburger
  also have "\<dots> = Suc (bits ((n - 1) div 2))" by (simp add: bits_pos)
  finally show "bits (n div 2) \<le> Suc (bits ((n - 1) div 2))" .
qed

function mid_tree :: "'a list \<Rightarrow> 'a tree" where
  "mid_tree xs =
     (if xs = [] then Leaf
      else let m = (length xs - 1) div 2 in Node (mid_tree (take m xs)) (xs ! m) (mid_tree (drop (Suc m) xs)))"
  by pat_completeness auto

termination
  by (relation "measure length") (auto simp: neq_Nil_conv)

declare mid_tree.simps [simp del]

lemma mid_tree_Nil [simp]: "mid_tree [] = Leaf"
  by (simp add: mid_tree.simps)

definition halves :: "'a list \<Rightarrow> 'a list \<Rightarrow> bool" where
  "halves l r \<longleftrightarrow> length r = length l \<or> length r = Suc (length l)"

lemma halves_div: "halves l r \<Longrightarrow> (length l + length r) div 2 = length l"
  by (auto simp: halves_def)

lemma bits_parts:
  assumes "halves l r"
  shows "bits (Suc (length l + length r)) = Suc (bits (length r))" "bits (length l) \<le> bits (length r)"
    "bits (length r) \<le> Suc (bits (length l))"
proof -
  have "Suc (length l + length r) div 2 = length r" "(Suc (length l + length r) - 1) div 2 = length l"
    using assms by (auto simp: halves_def)
  then show "bits (Suc (length l + length r)) = Suc (bits (length r))" "bits (length l) \<le> bits (length r)"
    "bits (length r) \<le> Suc (bits (length l))"
    using bits_halves [of "Suc (length l + length r)"] by (simp_all add: bits_pos)
qed

lemma mid_tree_parts: "halves l r \<Longrightarrow> mid_tree (l @ y # r) = Node (mid_tree l) y (mid_tree r)"
  by (simp add: mid_tree.simps [of "l @ y # r"] Let_def halves_div)

lemma middle:
  assumes "xs \<noteq> []"
  obtains l y r where "xs = l @ y # r" "halves l r"
proof -
  let ?m = "(length xs - 1) div 2"
  have m: "?m < length xs" using assms by (cases xs) auto
  have "length (drop (Suc ?m) xs) = length (take ?m xs) \<or> length (drop (Suc ?m) xs) = Suc (length (take ?m xs))"
    using assms m by (cases xs) (simp, simp, presburger)
  then show ?thesis using that [OF id_take_nth_drop [OF m]] by (simp only: halves_def)
qed

lemma mid_tree_facts: "inorder (mid_tree xs) = xs \<and> height (mid_tree xs) = bits (length xs) \<and> avl (mid_tree xs)"
proof (induction "length xs" arbitrary: xs rule: less_induct)
  case less
  show ?case
  proof (cases "xs = []")
    case False
    then obtain l y r where x: "xs = l @ y # r" "halves l r" by (rule middle)
    have "length l < length xs" "length r < length xs" using x(1) by simp_all
    note ih = less [OF this(1)] less [OF this(2)]
    show ?thesis unfolding x(1) mid_tree_parts [OF x(2)] using ih bits_parts [OF x(2)] by simp
  qed simp
qed

lemmas mid_tree_inorder = mid_tree_facts [THEN conjunct1]
  and mid_tree_height = mid_tree_facts [THEN conjunct2, THEN conjunct1]
  and mid_tree_avl = mid_tree_facts [THEN conjunct2, THEN conjunct2]

section \<open>The links\<close>

definition kv :: "node \<Rightarrow> bid \<times> bytes" where
  "kv n = (nkey n, nvalue n)"

definition holds :: "mem \<Rightarrow> node list \<Rightarrow> bool" where
  "holds M ns \<longleftrightarrow> (\<forall>n\<in>set ns. M (nkey n) = Some n)"

definition ready :: "env \<Rightarrow> oram \<Rightarrow> node \<Rightarrow> bool" where
  "ready E st n \<longleftrightarrow> node_ok (e_scheme E) n \<and> leaf_ok st (npos n)"

lemma RandomPath_run:
  assumes "geom E st"
  obtains q where "AVL_RandomPath E st = (q, st\<lparr>o_rng := o_rng st + 1\<rparr>)" "leaf_ok st q" "int32 q"
proof -
  obtain q st1 where q: "AVL_RandomPath E st = (q, st1)" by (cases "AVL_RandomPath E st")
  then have "leaf_ok st q" using RandomPath_leaf [OF assms, unfolded AVL_RandomPath_eq [symmetric]] by simp
  then show ?thesis using that [of q] q leaf_int32 [OF assms] by (simp add: AVL_RandomPath_def)
qed

lemma geom_rng [simp]: "geom E (st\<lparr>o_rng := r\<rparr>) = geom E st" "leaf_ok (st\<lparr>o_rng := r\<rparr>) = leaf_ok st"
  "ready E (st\<lparr>o_rng := r\<rparr>) = ready E st"
  by (simp_all add: geom_def leaf_ok_def ready_def fun_eq_iff)

lemma sortedArrayToBST_step:
  assumes "start \<le> fin" "(start + fin) div 2 = mid" "sortedArrayToBST E start (mid - 1) nodes st = ((lh, lp, lk), n1, s1)"
    "n1[nat mid := (n1 ! nat mid)\<lparr>nleftPos := lp, nleftID := lk\<rparr>] = n2"
    "sortedArrayToBST E (mid + 1) fin n2 s1 = ((rh, rp, rk), n3, s3)" "AVL_RandomPath E s3 = (p, s4)"
    "(n3 ! nat mid)\<lparr>nrightPos := rp, nrightID := rk, npos := p, nheight := AVL_max lh rh + 1\<rparr> = root"
  shows "sortedArrayToBST E start fin nodes st = ((nheight root, npos root, nkey root), n3[nat mid := root], s4)"
  using assms(1-6) unfolding assms(7) [symmetric] by (subst sortedArrayToBST.simps) (simp add: Let_def)

lemma sortedArrayToBST_tree:
  assumes "geom E st" "\<forall>n\<in>set xs. ready E st n" "bits (length xs) < 2 ^ 31"
  shows "\<exists>xs' p k r. sortedArrayToBST E (int (length pre)) (int (length pre) + int (length xs) - 1) (pre @ xs @ post) st =
      ((int (bits (length xs)), p, k), pre @ xs' @ post, st\<lparr>o_rng := r\<rparr>) \<and>
    map kv xs' = map kv xs \<and> (\<forall>n\<in>set xs'. ready E st n) \<and> bid_wf (ID_SIZE (e_scheme E)) k \<and> int32 p \<and>
    (\<forall>M. holds M xs' \<longrightarrow> tree_at M k p (mid_tree (map kv xs)))"
  using assms
proof (induction "length xs" arbitrary: xs pre post st rule: less_induct)
  case less
  show ?case
  proof (cases "xs = []")
    case True
    have "tree_at M (Bid_int (ID_SIZE (e_scheme E)) 0) (- 1) Leaf" for M by simp
    moreover have "st = st\<lparr>o_rng := o_rng st\<rparr>" by simp
    moreover have "sortedArrayToBST E (int (length pre)) (int (length pre) - 1) (pre @ post) st =
        ((0, - 1, Bid_int (ID_SIZE (e_scheme E)) 0), pre @ post, st)" by (subst sortedArrayToBST.simps) simp
    ultimately show ?thesis using True
      by (intro exI [of _ "[]"] exI [of _ "- 1"] exI [of _ "Bid_int (ID_SIZE (e_scheme E)) 0"] exI [of _ "o_rng st"]) (simp add: int32_def)
  next
    case False
    then obtain l y r where x: "xs = l @ y # r" and hv: "halves l r" by (rule middle)
    note bp = bits_parts [OF hv]
    let ?a = "int (length pre)"
    have mid: "(?a + (?a + int (length xs) - 1)) div 2 = ?a + int (length l)"
      using hv unfolding x by (auto simp: halves_def)
    have small: "length l < length xs" "length r < length xs" using x by simp_all
    have small2: "bits (length l) < 2 ^ 31" "bits (length r) < 2 ^ 31"
      using small [THEN less_imp_le, THEN bits_mono] less.prems(3) by linarith+
    have okl: "\<forall>n\<in>set l. ready E st n" and okr: "\<forall>n\<in>set r. ready E st n" and oky: "ready E st y"
      using less.prems(2) x by simp_all
    obtain l' lp lk r1 where L: "sortedArrayToBST E ?a (?a + int (length l) - 1) (pre @ l @ (y # r @ post)) st =
        ((int (bits (length l)), lp, lk), pre @ l' @ (y # r @ post), st\<lparr>o_rng := r1\<rparr>)"
      "map kv l' = map kv l" "\<forall>n\<in>set l'. ready E st n" "bid_wf (ID_SIZE (e_scheme E)) lk" "int32 lp"
      "\<forall>M. holds M l' \<longrightarrow> tree_at M lk lp (mid_tree (map kv l))"
      using less.hyps [OF small(1) less.prems(1) okl small2(1)] by blast
    have ll: "length l' = length l" using L(2) by (metis length_map)
    let ?y1 = "y\<lparr>nleftPos := lp, nleftID := lk\<rparr>"
    let ?pre = "pre @ l' @ [?y1]"
    have g1: "geom E (st\<lparr>o_rng := r1\<rparr>)" "\<forall>n\<in>set r. ready E (st\<lparr>o_rng := r1\<rparr>) n" using less.prems(1) okr by simp_all
    obtain r' rp rk r2 where R: "sortedArrayToBST E (int (length ?pre)) (int (length ?pre) + int (length r) - 1) (?pre @ r @ post) (st\<lparr>o_rng := r1\<rparr>) =
        ((int (bits (length r)), rp, rk), ?pre @ r' @ post, (st\<lparr>o_rng := r1\<rparr>)\<lparr>o_rng := r2\<rparr>)"
      "map kv r' = map kv r" "\<forall>n\<in>set r'. ready E (st\<lparr>o_rng := r1\<rparr>) n" "bid_wf (ID_SIZE (e_scheme E)) rk" "int32 rp"
      "\<forall>M. holds M r' \<longrightarrow> tree_at M rk rp (mid_tree (map kv r))"
      using less.hyps [OF small(2) g1 small2(2)] by blast
    obtain q where q: "AVL_RandomPath E (st\<lparr>o_rng := r2\<rparr>) = (q, (st\<lparr>o_rng := r2\<rparr>)\<lparr>o_rng := r2 + 1\<rparr>)" "leaf_ok st q" "int32 q"
      using RandomPath_run [of E "st\<lparr>o_rng := r2\<rparr>"] less.prems(1) by auto
    have h: "AVL_max (int (bits (length l))) (int (bits (length r))) + 1 = int (bits (length xs))"
      using bp by (simp add: AVL_max_def x)
    let ?y2 = "?y1\<lparr>nrightPos := rp, nrightID := rk, npos := q, nheight := int (bits (length xs))\<rparr>"
    let ?xs' = "l' @ ?y2 # r'"
    have n1: "(pre @ l' @ (y # r @ post))[nat (?a + int (length l)) := ((pre @ l' @ (y # r @ post)) ! nat (?a + int (length l)))\<lparr>nleftPos := lp, nleftID := lk\<rparr>] =
        ?pre @ r @ post"
      using ll by (simp add: nat_int_add list_update_append nth_append)
    have n2: "((?pre @ r' @ post) ! nat (?a + int (length l)))\<lparr>nrightPos := rp, nrightID := rk, npos := q,
        nheight := AVL_max (int (bits (length l))) (int (bits (length r))) + 1\<rparr> = ?y2"
      using ll h by (simp add: nat_int_add nth_append)
    have n3: "(?pre @ r' @ post)[nat (?a + int (length l)) := ?y2] = pre @ ?xs' @ post"
      using ll by (simp add: nat_int_add list_update_append)
    have ix: "?a + int (length l) + 1 = int (length ?pre)" "?a + int (length xs) - 1 = int (length ?pre) + int (length r) - 1"
      using ll x by simp_all
    have L1: "sortedArrayToBST E ?a (?a + int (length l) - 1) (pre @ xs @ post) st =
        ((int (bits (length l)), lp, lk), pre @ l' @ (y # r @ post), st\<lparr>o_rng := r1\<rparr>)" using L(1) x by simp
    have R1: "sortedArrayToBST E (?a + int (length l) + 1) (?a + int (length xs) - 1) (?pre @ r @ post) (st\<lparr>o_rng := r1\<rparr>) =
        ((int (bits (length r)), rp, rk), ?pre @ r' @ post, st\<lparr>o_rng := r2\<rparr>)" unfolding ix using R(1) by simp
    have le: "?a \<le> ?a + int (length xs) - 1" using x by simp
    have run: "sortedArrayToBST E ?a (?a + int (length xs) - 1) (pre @ xs @ post) st =
        ((int (bits (length xs)), q, nkey y), pre @ ?xs' @ post, st\<lparr>o_rng := r2 + 1\<rparr>)"
      using sortedArrayToBST_step [OF le mid L1 n1 R1 q(1) n2] n3 by simp
    have kvs: "map kv ?xs' = map kv xs" using L(2) R(2) x by (simp add: kv_def)
    have "int32 (int (bits (length xs)))" using less.prems(3) by (simp add: int32_def)
    then have "ready E st ?y2" using oky q(2,3) L(4,5) R(4,5) by (simp add: ready_def node_ok_def)
    then have rdy: "\<forall>n\<in>set ?xs'. ready E st n" using L(3) R(3) by auto
    have "mid_tree (map kv xs) = Node (mid_tree (map kv l)) (kv y) (mid_tree (map kv r))"
      unfolding x using mid_tree_parts [of "map kv l" "map kv r"] hv by (simp add: halves_def)
    moreover have "bits (length xs) = Suc (max (bits (length l)) (bits (length r)))"
      using bp by (simp add: x)
    ultimately have "\<forall>M. holds M ?xs' \<longrightarrow> tree_at M (nkey y) q (mid_tree (map kv xs))"
      using L(6) R(6) by (auto simp: holds_def kv_def mid_tree_height)
    moreover have "bid_wf (ID_SIZE (e_scheme E)) (nkey y)" using oky by (simp add: ready_def node_ok_def)
    ultimately show ?thesis using run kvs rdy q(3) by blast
  qed
qed

end
