(* ===== verification/Bulk_Pack.thy ===== *)
theory Bulk_Pack
  imports Omap_Correct
begin

text \<open>
  \<open>ORAM::setupInsert\<close>: packing loses no node and puts each on the path of its position; what does
  not fit stays in the stash.
\<close>

section \<open>Packing\<close>

definition content :: "packed \<Rightarrow> node list" where
  "content bks = concat (map snd bks)"

definition cnodes :: "(bid \<times> node option) list \<Rightarrow> node list" where
  "cnodes c = concat (map (\<lambda>(k, x). case x of None \<Rightarrow> [] | Some n \<Rightarrow> [n]) c)"

lemma content_update:
  "mset (content (AList.update i ((case map_of bks i of None \<Rightarrow> [] | Some b \<Rightarrow> b) @ k) bks)) = mset (content bks) + mset k"
  by (induction bks) (auto simp: content_def)

lemma cnodes_update: "map_of c k = None \<Longrightarrow> mset (cnodes (AList.update k (Some n) c)) = add_mset n (mset (cnodes c))"
  by (induction c) (auto simp: cnodes_def split: if_splits)

definition packed_ok :: "oram \<Rightarrow> packed \<Rightarrow> bool" where
  "packed_ok st bks \<longleftrightarrow> distinct (map fst bks) \<and>
     (\<forall>i b. map_of bks i = Some b \<longrightarrow> i \<in> all_buckets st \<and> length b \<le> Z \<and> (\<forall>n\<in>set b. i \<in> path st (npos n)))"

lemma take_while_split: "k = take m (takeWhile P xs) \<Longrightarrow> xs = k @ drop (length k) xs \<and> (\<forall>x\<in>set k. P x)"
proof -
  assume k: "k = take m (takeWhile P xs)"
  have "xs = takeWhile P xs @ dropWhile P xs" by simp
  then have "xs = k @ (drop m (takeWhile P xs) @ dropWhile P xs)" using k by (metis append.assoc append_take_drop_id)
  then show ?thesis using k by (metis append_eq_conv_conj in_set_takeD set_takeWhileD)
qed

lemma pack_bucket_keeps:
  assumes p: "pack_bucket c i rest bks = (rest', bks', full)" and ok: "packed_ok st bks" "i \<in> path st c" "i \<in> all_buckets st"
  shows "packed_ok st bks'" "mset (content bks') + mset rest' = mset (content bks) + mset rest" "set rest' \<subseteq> set rest"
proof -
  let ?b = "case map_of bks i of None \<Rightarrow> [] | Some b \<Rightarrow> b"
  have lb: "length ?b \<le> Z" "\<forall>n\<in>set ?b. i \<in> path st (npos n)" using ok(1) by (auto simp: packed_ok_def split: option.splits)
  have "bks' = bks \<and> rest' = rest \<or>
      (\<exists>k. k = take (Z - length ?b) (takeWhile (\<lambda>n. npos n = c) rest) \<and> rest' = drop (length k) rest \<and> bks' = AList.update i (?b @ k) bks)"
    using p by (auto simp: pack_bucket_def Let_def split: option.splits if_splits)
  then consider "bks' = bks" "rest' = rest"
    | k where "k = take (Z - length ?b) (takeWhile (\<lambda>n. npos n = c) rest)" "rest' = drop (length k) rest" "bks' = AList.update i (?b @ k) bks"
    by blast
  then have "packed_ok st bks' \<and> mset (content bks') + mset rest' = mset (content bks) + mset rest \<and> set rest' \<subseteq> set rest"
  proof (cases)
    case 1
    then show ?thesis using ok by simp
  next
    case 2
    have k: "rest = k @ rest'" "\<forall>n\<in>set k. npos n = c" using take_while_split [OF 2(1)] 2(2) by auto
    have "length k \<le> Z - length ?b" using 2(1) by simp
    then have "length (?b @ k) \<le> Z" using lb(1) by simp
    then have "packed_ok st bks'"
      using ok lb(2) k(2) distinct_update [of bks i] unfolding 2(3) packed_ok_def map_of_update_apply by (auto split: if_splits)
    moreover have "mset (content bks') + mset rest' = mset (content bks) + mset rest"
      unfolding 2(3) content_update using arg_cong [OF k(1), of mset] by simp
    moreover have "set rest' \<subseteq> set rest" using arg_cong [OF k(1), of set] by auto
    ultimately show ?thesis by blast
  qed
  then show "packed_ok st bks'" "mset (content bks') + mset rest' = mset (content bks) + mset rest" "set rest' \<subseteq> set rest" by blast+
qed

lemma pack_levels_keeps:
  assumes "pack_levels st c ds rest bks cannot = (rest', bks', cannot')" "packed_ok st bks" "\<forall>d\<in>set ds. d \<le> o_depth st"
    "o_bucketCount st = 2 ^ (o_depth st + 1) - 1" "\<forall>n\<in>set rest. leaf_ok st (npos n)"
  shows "packed_ok st bks' \<and> mset (content bks') + mset rest' = mset (content bks) + mset rest \<and> set rest' \<subseteq> set rest"
  using assms
proof (induction ds arbitrary: rest bks cannot)
  case (Cons d ds)
  show ?case
  proof (cases "rest \<noteq> [] \<and> npos (hd rest) = c")
    case True
    obtain r b f where p: "pack_bucket c (GetNodeOnPath st c d) rest bks = (r, b, f)"
      by (cases "pack_bucket c (GetNodeOnPath st c d) rest bks") auto
    have l: "leaf_ok st c" using True Cons.prems(5) by (cases rest) auto
    have "GetNodeOnPath st c d \<in> path st c" "GetNodeOnPath st c d \<in> all_buckets st"
      using Cons.prems(3) GetNodeOnPath_range [OF Cons.prems(4) l, of d] by (simp_all add: path_def)
    note k = pack_bucket_keeps [OF p Cons.prems(2) this]
    have q: "pack_levels st c ds r b (cannot \<or> f) = (rest', bks', cannot')" using Cons.prems(1) True p by simp
    have "\<forall>n\<in>set r. leaf_ok st (npos n)" using k(3) Cons.prems(5) by blast
    then show ?thesis using Cons.IH [OF q k(1) _ Cons.prems(4)] Cons.prems(3) k(2,3) by auto
  next
    case False
    then have "rest' = rest" "bks' = bks" using Cons.prems(1) by auto
    then show ?thesis using Cons.prems(2) by simp
  qed
qed simp

section \<open>The stash during packing\<close>

definition stash_ok :: "(bid \<times> node option) list \<Rightarrow> bool" where
  "stash_ok c \<longleftrightarrow> distinct (map fst c) \<and> (\<forall>k n. map_of c k = Some (Some n) \<longrightarrow> nkey n = k) \<and>
     (\<forall>k. map_of c k = Some None \<longrightarrow> bid_eq_int k 0)"

lemma cnodes_iff: "stash_ok c \<Longrightarrow> map_of c k = Some (Some n) \<longleftrightarrow> n \<in> set (cnodes c) \<and> nkey n = k"
proof -
  assume c: "stash_ok c"
  then have d: "distinct (map fst c)" by (simp add: stash_ok_def)
  have s: "n \<in> set (cnodes c) \<longleftrightarrow> (\<exists>k. (k, Some n) \<in> set c)" by (force simp: cnodes_def split: option.splits)
  have e: "map_of c k = Some (Some n) \<longleftrightarrow> (k, Some n) \<in> set c" for k by (rule map_of_eq_Some_iff [OF d])
  have "nkey n = k" if "(k, Some n) \<in> set c" for k using c e that unfolding stash_ok_def by blast
  then show ?thesis unfolding s e by blast
qed

lemma stash_put:
  assumes "stash_ok c" "nkey n \<notin> nkey ` set (cnodes c)" "\<not> bid_eq_int (nkey n) 0"
  shows "stash_ok (AList.update (nkey n) (Some n) c)" "mset (cnodes (AList.update (nkey n) (Some n) c)) = add_mset n (mset (cnodes c))"
proof -
  have none: "map_of c (nkey n) = None"
  proof (cases "map_of c (nkey n)")
    case (Some x)
    show ?thesis
    proof (cases x)
      case None
      then show ?thesis using Some assms(1,3) unfolding stash_ok_def by blast
    next
      case (Some y)
      then show ?thesis using \<open>map_of c (nkey n) = Some x\<close> cnodes_iff [OF assms(1), of "nkey n" y] assms(2) by (metis imageI)
    qed
  qed simp
  show "stash_ok (AList.update (nkey n) (Some n) c)"
    using assms(1) distinct_update [of c "nkey n"] unfolding stash_ok_def map_of_update_apply
    by (intro conjI allI impI) (metis option.inject option.distinct(1))+
  show "mset (cnodes (AList.update (nkey n) (Some n) c)) = add_mset n (mset (cnodes c))" by (rule cnodes_update [OF none])
qed

lemma pack_all_keeps:
  assumes "pack_all st c rest bks cache = (bks', cache')" "packed_ok st bks" "stash_ok cache"
    "distinct (map nkey (content bks @ cnodes cache @ rest))" "\<forall>n\<in>set rest. \<not> bid_eq_int (nkey n) 0 \<and> leaf_ok st (npos n)" "o_bucketCount st = 2 ^ (o_depth st + 1) - 1"
  shows "packed_ok st bks' \<and> stash_ok cache' \<and>
    mset (content bks') + mset (cnodes cache') = mset (content bks) + mset (cnodes cache) + mset rest"
  using assms
proof (induction st c rest bks cache rule: pack_all.induct)
  case (1 st c rest bks cache)
  show ?case
  proof (cases "rest = []")
    case True
    then show ?thesis using "1.prems" by (simp add: pack_all.simps)
  next
    case False
    obtain r b f where p: "pack_levels st c (rev [0..<Suc (o_depth st)]) rest bks False = (r, b, f)"
      by (cases "pack_levels st c (rev [0..<Suc (o_depth st)]) rest bks False") auto
    have k: "packed_ok st b" "mset (content b) + mset r = mset (content bks) + mset rest" and rs: "set r \<subseteq> set rest"
      using pack_levels_keeps [OF p "1.prems"(2) _ "1.prems"(6)] "1.prems"(5) by auto
    show ?thesis
    proof (cases "r = []")
      case True
      then show ?thesis using "1.prems"(1,3) False p k by (simp add: pack_all.simps [of st c rest] del: upt_Suc)
    next
      case r: False
      let ?c = "if f then AList.update (nkey (hd r)) (Some (hd r)) cache else cache"
      let ?r = "if f then tl r else r"
      have run: "pack_all st (if ?r \<noteq> [] then npos (hd ?r) else c) ?r b ?c = (bks', cache')"
        using "1.prems"(1) False p r by (simp add: pack_all.simps [of st c rest] Let_def del: upt_Suc)
      have ms: "mset (map nkey (content b @ cnodes cache @ r)) = mset (map nkey (content bks @ cnodes cache @ rest))"
        using arg_cong [OF k(2), of "image_mset nkey"] by (simp add: add.left_commute [of "image_mset nkey (mset (cnodes cache))"])
      then have d: "distinct (map nkey (content b @ cnodes cache @ r))" using "1.prems"(4) mset_eq_imp_distinct_iff by blast
      have nz: "\<forall>n\<in>set r. \<not> bid_eq_int (nkey n) 0 \<and> leaf_ok st (npos n)" using rs "1.prems"(5) by blast
      obtain n r' where n: "r = n # r'" using r by (cases r) auto
      have c: "stash_ok ?c" "mset (cnodes ?c) + mset ?r = mset (cnodes cache) + mset r"
        using stash_put [OF "1.prems"(3), of n] d nz n "1.prems"(3) by auto
      have "mset (map nkey (content b @ cnodes ?c @ ?r)) = mset (map nkey (content b @ cnodes cache @ r))"
        by (simp only: mset_map mset_append image_mset_union [symmetric] c(2))
      then have d2: "distinct (map nkey (content b @ cnodes ?c @ ?r))" using d mset_eq_imp_distinct_iff by blast
      have nz2: "\<forall>n\<in>set ?r. \<not> bid_eq_int (nkey n) 0 \<and> leaf_ok st (npos n)" using nz n by auto
      have "packed_ok st bks' \<and> stash_ok cache' \<and> mset (content bks') + mset (cnodes cache') = mset (content b) + mset (cnodes ?c) + mset ?r"
        by (rule "1.IH" [OF False p [symmetric] refl refl r refl refl refl run k(1) c(1) d2 nz2 "1.prems"(6)])
      moreover have "mset (content b) + mset (cnodes ?c) + mset ?r = mset (content bks) + mset (cnodes cache) + mset rest"
      proof -
        have "mset (content b) + mset (cnodes ?c) + mset ?r = mset (content b) + (mset (cnodes cache) + mset r)"
          by (simp only: add.assoc c(2))
        also have "\<dots> = mset (content b) + mset r + mset (cnodes cache)" by (simp only: ac_simps)
        also have "\<dots> = mset (content bks) + mset (cnodes cache) + mset rest" unfolding k(2) by (simp only: ac_simps)
        finally show ?thesis .
      qed
      ultimately show ?thesis by simp
    qed
  qed
qed

section \<open>Writing the buckets\<close>

definition bucket_of :: "packed \<Rightarrow> int \<Rightarrow> node list" where
  "bucket_of bks i = (case map_of bks i of None \<Rightarrow> [] | Some b \<Rightarrow> b)"

lemma write_packed_rep:
  assumes E: "env_ok E"
  shows "geom E st \<Longrightarrow> store_rep E st V \<Longrightarrow> distinct (map fst bks) \<Longrightarrow> \<forall>(i, b)\<in>set bks. i \<in> all_buckets st \<and> bucket_ok E b \<Longrightarrow>
    \<exists>st'. write_packed E bks st = Inr st' \<and> store_rep E st' (\<lambda>i. case map_of bks i of None \<Rightarrow> V i | Some b \<Rightarrow> b) \<and> cfg st' = cfg st \<and>
      rs_empty (o_store st') = rs_empty (o_store st) \<and> o_cache st' = o_cache st \<and> o_leafList st' = o_leafList st \<and>
      o_modified st' = o_modified st"
proof (induction bks arbitrary: st V)
  case (Cons x bks)
  obtain i b where x: "x = (i, b)" by (cases x)
  have ib: "i \<in> all_buckets st" "bucket_ok E b" using Cons.prems(4) x by auto
  obtain st1 where w: "WriteBucket E st i (bkt_of E st b) = Inr st1" "store_rep E st1 (V(i := b))" "cfg st1 = cfg st"
    "rs_empty (o_store st1) = rs_empty (o_store st)" "o_cache st1 = o_cache st" "o_leafList st1 = o_leafList st" "o_modified st1 = o_modified st"
    by (rule WriteBucket_eq [OF E Cons.prems(1,2) ib]) blast
  have pre: "geom E st1" "distinct (map fst bks)" "\<forall>(i, b)\<in>set bks. i \<in> all_buckets st1 \<and> bucket_ok E b"
    using Cons.prems cfg_cong [OF w(3)] by auto
  obtain st2 where s: "write_packed E bks st1 = Inr st2"
    "store_rep E st2 (\<lambda>j. case map_of bks j of None \<Rightarrow> (V(i := b)) j | Some b \<Rightarrow> b)" "cfg st2 = cfg st1"
    "rs_empty (o_store st2) = rs_empty (o_store st1)" "o_cache st2 = o_cache st1" "o_leafList st2 = o_leafList st1" "o_modified st2 = o_modified st1"
    using Cons.IH [OF pre(1) w(2) pre(2,3)] by blast
  have "i \<notin> fst ` set bks" using Cons.prems(3) x by simp
  then have "map_of bks i = None" by (simp add: map_of_eq_None_iff)
  then have v: "(\<lambda>j. case map_of bks j of None \<Rightarrow> (V(i := b)) j | Some b \<Rightarrow> b) = (\<lambda>j. case map_of (x # bks) j of None \<Rightarrow> V j | Some b \<Rightarrow> b)"
    by (auto simp: x fun_eq_iff split: option.split)
  have "write_packed E (x # bks) st = Inr st2" using w(1) s(1) by (simp add: x bkt_of_def)
  then show ?case using s(2-7) w(3-7) unfolding v by simp
qed (simp add: store_rep_def)

lemma map_of_same_set:
  assumes "distinct (map fst xs)" "distinct (map fst ys)" "set xs = set ys"
  shows "map_of xs = map_of ys"
proof
  fix k show "map_of xs k = map_of ys k"
    using map_of_eq_Some_iff [OF assms(1), of k] map_of_eq_Some_iff [OF assms(2), of k] assms(3) by (metis not_None_eq)
qed

section \<open>Bulk insertion into an empty ORAM\<close>

definition node_map :: "node list \<Rightarrow> mem" where
  "node_map ns = map_of (map (\<lambda>n. (nkey n, n)) ns)"

lemma node_map_iff: "distinct (map nkey ns) \<Longrightarrow> node_map ns k = Some n \<longleftrightarrow> n \<in> set ns \<and> nkey n = k"
  by (subst node_map_def, subst map_of_eq_Some_iff) (auto simp: comp_def)

lemma empty_memory: "oram_rep E st {} V (\<lambda>_. None) \<Longrightarrow> i \<in> all_buckets st \<Longrightarrow> V i = []"
  "oram_rep E st {} V (\<lambda>_. None) \<Longrightarrow> cached st k = None"
proof -
  assume r: "oram_rep E st {} V (\<lambda>_. None)"
  then have m: "\<not> (cached st k = Some n \<or> (\<exists>i\<in>all_buckets st - {}. n \<in> set (V i) \<and> nkey n = k))" for k n
    unfolding oram_rep_def mem_ok_def by simp
  show "cached st k = None" using m by (cases "cached st k") auto
  show "V i = []" if "i \<in> all_buckets st"
  proof (rule ccontr)
    assume "V i \<noteq> []"
    then have "hd (V i) \<in> set (V i)" by simp
    then show False using m [of "nkey (hd (V i))" "hd (V i)"] that by blast
  qed
qed

lemma content_bucket: "n \<in> set (content bks) \<Longrightarrow> distinct (map fst bks) \<Longrightarrow> \<exists>i. n \<in> set (bucket_of bks i)"
proof -
  assume n: "n \<in> set (content bks)" and d: "distinct (map fst bks)"
  then obtain i b where "(i, b) \<in> set bks" "n \<in> set b" by (auto simp: content_def)
  then have "map_of bks i = Some b" using d by simp
  then have "n \<in> set (bucket_of bks i)" using \<open>n \<in> set b\<close> by (simp add: bucket_of_def)
  then show ?thesis by blast
qed

lemma bucket_content: "set (bucket_of bks i) \<subseteq> set (content bks)"
proof (cases "map_of bks i")
  case (Some b)
  then show ?thesis using map_of_SomeD [OF Some] by (auto simp: bucket_of_def content_def)
qed (simp add: bucket_of_def)

lemma content_disjoint:
  "distinct (map nkey (content bks)) \<Longrightarrow> distinct (map nkey (bucket_of bks i)) \<and>
     (i \<noteq> j \<longrightarrow> nkey ` set (bucket_of bks i) \<inter> nkey ` set (bucket_of bks j) = {})"
proof (induction bks)
  case (Cons x bks)
  obtain l b where x: "x = (l, b)" by (cases x)
  have c: "content (x # bks) = b @ content bks" "bucket_of (x # bks) k = (if k = l then b else bucket_of bks k)" for k
    by (auto simp: content_def bucket_of_def x)
  have d: "distinct (map nkey b)" "distinct (map nkey (content bks))" "nkey ` set b \<inter> nkey ` set (content bks) = {}"
    using Cons.prems c(1) by auto
  have "nkey ` set b \<inter> nkey ` set (bucket_of bks k) = {}" for k using d(3) bucket_content [of bks k] by blast
  then show ?case using Cons.IH [OF d(2)] d(1) unfolding c(2) by (auto simp: Int_commute)
qed (simp add: bucket_of_def)

lemma ORAM_setupInsert_idle:
  assumes E: "env_ok E" and idle: "idle E st (\<lambda>_. None)" and ns: "\<forall>n\<in>set ns. good E st n" "distinct (map nkey ns)"
  obtains st' where "ORAM_setupInsert E ns st = Inr st'" "idle E st' (node_map ns)" "cfg st' = cfg st"
    "rs_empty (o_store st') = rs_empty (o_store st)"
proof -
  obtain V where rep: "oram_rep E st {} V (\<lambda>_. None)" and lists: "o_leafList st = []" "o_modified st = []"
    using idle by (auto simp: idle_def)
  then have g: "geom E st" and sr: "store_rep E st V" and co: "cache_ok E st" by (simp_all add: oram_rep_def)
  note empty = empty_memory [OF rep]
  let ?ns = "e_sort E ns"
  have ms: "mset ?ns = mset ns" using E by (simp add: env_ok_def)
  then have set: "set ?ns = set ns" by (rule mset_eq_setD)
  obtain bks c where p: "pack_all st (if ?ns \<noteq> [] then npos (hd ?ns) else 0) ?ns [] (o_cache st) = (bks, c)"
    by (cases "pack_all st (if ?ns \<noteq> [] then npos (hd ?ns) else 0) ?ns [] (o_cache st)") auto
  have stash: "stash_ok (o_cache st)" "cnodes (o_cache st) = []"
  proof -
    have "stash_ok (o_cache st)"
      using co empty(2) unfolding cache_ok_def stash_ok_def cached_def by (metis (no_types, lifting) option.case(2) option.distinct(1))
    moreover have "n \<notin> set (cnodes (o_cache st))" for n
      using cnodes_iff [OF calculation, of "nkey n" n] empty(2) [of "nkey n"] by (auto simp: cached_def split: option.splits)
    ultimately show "stash_ok (o_cache st)" "cnodes (o_cache st) = []" by (auto simp: neq_Nil_conv) (metis list.set_intros(1) neq_Nil_conv)
  qed
  have pk: "packed_ok st []" by (simp add: packed_ok_def)
  have d0: "distinct (map nkey (content [] @ cnodes (o_cache st) @ ?ns))"
    using ns(2) mset_eq_imp_distinct_iff [of "map nkey ?ns" "map nkey ns"] ms stash(2) by (simp add: content_def)
  have nz: "\<forall>n\<in>set ?ns. \<not> bid_eq_int (nkey n) 0 \<and> leaf_ok st (npos n)" using ns(1) set not_dummy_nonzero by (fastforce simp: good_def)
  have k: "packed_ok st bks" "stash_ok c" "mset (content bks) + mset (cnodes c) = mset ns"
    using pack_all_keeps [OF p pk stash(1) d0 nz geomD(1) [OF g]] stash(2) ms by (simp_all add: content_def)
  have all: "set (content bks) \<union> set (cnodes c) = set ns" using arg_cong [OF k(3), of set_mset] by simp
  have dist: "distinct (map nkey (content bks @ cnodes c))"
    using mset_eq_imp_distinct_iff [of "map nkey (content bks @ cnodes c)" "map nkey ns"] ns(2) k(3)
    by (metis mset_append mset_map)
  have db: "distinct (map fst bks)" using k(1) by (simp add: packed_ok_def)
  have inb: "map_of bks i = Some b \<Longrightarrow> i \<in> all_buckets st \<and> bucket_ok E b" for i b
  proof -
    assume b: "map_of bks i = Some b"
    have "set b \<subseteq> set ns" using bucket_content [of bks i] all b by (auto simp: bucket_of_def)
    then show ?thesis using k(1) b ns(1) by (auto simp: packed_ok_def bucket_ok_def good_def)
  qed
  let ?bks = "sort_key fst bks"
  have sb: "distinct (map fst ?bks)" "set ?bks = set bks" using db by (simp_all add: distinct_map)
  let ?st = "st\<lparr>o_cache := c\<rparr>"
  have cfg1: "cfg ?st = cfg st" by (simp add: cfg_def)
  note cg = cfg_cong [OF cfg1]
  have "\<forall>(i, b)\<in>set ?bks. i \<in> all_buckets ?st \<and> bucket_ok E b" using inb sb(2) db unfolding cg by auto
  then obtain st' where w: "write_packed E ?bks ?st = Inr st'" "store_rep E st' (\<lambda>i. case map_of ?bks i of None \<Rightarrow> V i | Some b \<Rightarrow> b)"
    "cfg st' = cfg ?st" "rs_empty (o_store st') = rs_empty (o_store ?st)" "o_cache st' = c" "o_leafList st' = []" "o_modified st' = []"
    using write_packed_rep [OF E _ _ sb(1), of ?st V] g sr lists unfolding cg store_rep_def by auto
  have run: "ORAM_setupInsert E ns st = Inr st'" using p w(1) by (simp add: ORAM_setupInsert_def Let_def)
  note cg' = cfg_cong [OF trans [OF w(3) cfg1]]
  let ?V = "bucket_of bks"
  have store: "store_rep E st' ?V"
    using w(2) empty(1) map_of_same_set [OF sb(1) db sb(2)] unfolding store_rep_def cg' by (auto simp: bucket_of_def split: option.splits)
  have cached: "cached st' k = Some n \<longleftrightarrow> n \<in> set (cnodes c) \<and> nkey n = k" for k n
    using cnodes_iff [OF k(2), of k n] w(5) by (auto simp: cached_def split: option.splits)
  have mem: "n \<in> set ns \<longleftrightarrow> n \<in> set (cnodes c) \<or> (\<exists>i\<in>all_buckets st. n \<in> set (?V i))" for n
  proof -
    have "\<exists>i\<in>all_buckets st. n \<in> set (?V i)" if "n \<in> set (content bks)"
    proof -
      have "\<exists>i. n \<in> set (?V i)" using content_bucket [OF that db] .
      then obtain i where i: "n \<in> set (?V i)" by blast
      then obtain b where "map_of bks i = Some b" by (cases "map_of bks i") (simp_all add: bucket_of_def)
      then show ?thesis using i inb by blast
    qed
    then show ?thesis using all bucket_content [of bks] by blast
  qed
  have V: "i \<in> path st (npos n) \<and> n \<in> set ns \<and> nkey n \<notin> nkey ` set (cnodes c)" if n: "n \<in> set (?V i)" for n i
  proof -
    obtain b where b: "map_of bks i = Some b" "n \<in> set b" using n by (cases "map_of bks i") (simp_all add: bucket_of_def)
    have "n \<in> set (content bks)" using n bucket_content by blast
    then have "n \<in> set ns" "nkey n \<notin> nkey ` set (cnodes c)" using all dist by auto
    then show ?thesis using k(1) b by (auto simp: packed_ok_def)
  qed
  have gd: "good E st' = good E st" using good_cfg [OF trans [OF w(3) cfg1]] .
  have "cache_ok E st'"
    using k(2) cached ns(1) all w(5) unfolding cache_ok_def stash_ok_def gd by auto
  moreover have "live_ok E st' {} ?V"
  proof -
    have "cached st' (nkey n) = None" if "n \<in> set (?V i)" for n i
    proof (rule ccontr)
      assume "cached st' (nkey n) \<noteq> None"
      then obtain x where "cached st' (nkey n) = Some x" by blast
      then show False using V [OF that] cached [of "nkey n" x] by (metis imageI)
    qed
    then show ?thesis using V ns(1) content_disjoint [of bks] dist unfolding live_ok_def gd cg' by auto
  qed
  moreover have "mem_ok st' {} ?V (node_map ns)"
    unfolding mem_ok_def cg' node_map_iff [OF ns(2)] cached using mem by auto
  ultimately have "oram_rep E st' {} ?V (node_map ns)" using store g cg' by (simp add: oram_rep_def)
  then have "idle E st' (node_map ns)" using w(6,7) by (auto simp: idle_def)
  then show ?thesis using that run w(3,4) cfg1 by simp
qed

end
