(* ===== verification/Omap_Bulk.thy ===== *)
theory Omap_Bulk
  imports Bulk_Tree Bulk_Pack
begin

text \<open>
  Bulk loading of an oblivious map, \<open>OMAP::setupInsert\<close>: the loaded map holds the given pairs, and
  every later operation finds it in a state that the operations themselves could have left.
\<close>

section \<open>The nodes\<close>

definition pair_ok :: "env \<Rightarrow> bid \<times> string \<Rightarrow> bool" where
  "pair_ok E p \<longleftrightarrow> key_ok E 0 (fst p) \<and> text_ok (snd p)"

definition entry :: "bid \<times> string \<Rightarrow> bid \<times> bytes" where
  "entry p = (fst p, value_of (snd p))"

lemma make_nodes_run:
  assumes E: "env_ok E"
  shows "geom E st \<Longrightarrow> \<forall>p\<in>set ps. pair_ok E p \<Longrightarrow>
    \<exists>ns r. make_nodes E 0 ps st = Inr (ns, st\<lparr>o_rng := r\<rparr>) \<and> map kv ns = map entry ps \<and> (\<forall>n\<in>set ns. ready E st n)"
proof (induction ps arbitrary: st)
  case Nil
  have "make_nodes E 0 [] st = Inr ([], st\<lparr>o_rng := o_rng st\<rparr>)" by simp
  then show ?case by (intro exI [of _ "[]"] exI [of _ "o_rng st"]) simp
next
  case (Cons p ps)
  obtain k s where p: "p = (k, s)" by (cases p)
  have ok: "key_ok E 0 k" "length s \<le> 16" using Cons.prems(2) p by (auto simp: pair_ok_def text_ok_def)
  obtain q where q: "AVL_RandomPath E st = (q, st\<lparr>o_rng := o_rng st + 1\<rparr>)" "leaf_ok st q" "int32 q"
    by (rule RandomPath_run [OF Cons.prems(1)])
  let ?zero = "Bid_int (ID_SIZE (e_scheme E)) 0" and ?np = "if e_scheme E = Horus then e_uninit E else - 1"
  let ?n = "\<lparr>nkey = k, nvalue = value_of s, npos = q, nleftID = ?zero, nleftPos = ?np, nrightID = ?zero, nrightPos = ?np,
    nevictionNode = e_uninit E, nheight = 1\<rparr>"
  have new: "AVL_newNode E k s st = Inr (?n, st\<lparr>o_rng := o_rng st + 1\<rparr>)"
    using value_bytes_value_of [OF ok(2)] q(1) by (simp add: AVL_newNode_def Let_def)
  have "int32 (e_uninit E)" "int32 (- 1)" "int32 1" "length (value_of s) = 16"
    using env_okD(5) [OF E] ok(2) by (auto simp: int32_def value_of_def)
  then have rdy: "ready E st ?n" using ok(1) q(2,3) by (simp add: ready_def node_ok_def key_ok_def)
  obtain ns r where ns: "make_nodes E 0 ps (st\<lparr>o_rng := o_rng st + 1\<rparr>) = Inr (ns, st\<lparr>o_rng := r\<rparr>)" "map kv ns = map entry ps"
    "\<forall>n\<in>set ns. ready E st n"
    using Cons.IH [of "st\<lparr>o_rng := o_rng st + 1\<rparr>"] Cons.prems by auto
  have fresh: "\<not> is_stale E 0 k" using ok(1) by (auto simp: is_stale_def key_ok_def)
  have "make_nodes E 0 (p # ps) st = Inr (?n # ns, st\<lparr>o_rng := r\<rparr>)"
    using new ns(1) p fresh by simp
  moreover have "kv ?n = entry p" by (simp add: kv_def entry_def p)
  ultimately show ?case using ns(2,3) rdy by (intro exI [of _ "?n # ns"] exI [of _ r]) simp
qed

section \<open>The map\<close>

definition loaded :: "(bid \<times> string) list \<Rightarrow> avl" where
  "loaded pairs = mid_tree (map entry (sort_key fst pairs))"

lemma loaded_facts:
  assumes "distinct (map fst pairs)"
  shows "ordered (loaded pairs)" "avl (loaded pairs)" "height (loaded pairs) = bits (length pairs)" "size (loaded pairs) = length pairs"
    "tkeys (loaded pairs) = fst ` set pairs" "tmap (loaded pairs) k = map_option value_of (map_of pairs k)"
proof -
  have e: "map fst (map entry (sort_key fst pairs)) = map fst (sort_key fst pairs)" by (simp add: entry_def comp_def)
  have d: "distinct (map fst (sort_key fst pairs))" using assms by (simp add: distinct_map)
  show "ordered (loaded pairs)" unfolding ordered_def loaded_def mid_tree_inorder e using d by (simp add: strict_sorted_iff)
  show "avl (loaded pairs)" "height (loaded pairs) = bits (length pairs)" by (simp_all add: loaded_def mid_tree_avl mid_tree_height)
  have io: "inorder (loaded pairs) = map entry (sort_key fst pairs)" by (simp add: loaded_def mid_tree_inorder)
  show "size (loaded pairs) = length pairs" using arg_cong [OF io, of length] by simp
  show "tkeys (loaded pairs) = fst ` set pairs"
    using arg_cong [OF io, of set] by (simp add: tkeys_def image_image entry_def)
  have "map_of (map entry xs) k = map_option value_of (map_of xs k)" for xs by (induction xs) (auto simp: entry_def)
  moreover have "map_of (sort_key fst pairs) = map_of pairs" using d assms by (intro map_of_same_set) simp_all
  ultimately show "tmap (loaded pairs) k = map_option value_of (map_of pairs k)" unfolding tmap_def io by simp
qed

lemma OMAP_setupInsert_rep:
  assumes E: "env_ok E" and m: "omap_rep E m Leaf" "m_setupNodes m = []" "m_dummyValue m = 0"
    and ps: "\<forall>p\<in>set pairs. pair_ok E p" "distinct (map fst pairs)" "bits (length pairs) \<le> top_height E (m_oram m)"
  obtains m' where "OMAP_setupInsert E pairs m = Inr m'" "omap_rep E m' (loaded pairs)"
    "top_height E (m_oram m') = top_height E (m_oram m)" "m_dummyValue m' = 0" "rs_empty (o_store (m_oram m')) = rs_empty (o_store (m_oram m))"
proof -
  let ?st = "m_oram m" and ?ps = "sort_key fst pairs"
  obtain M where idle0: "idle E ?st M" "dom M = {}" and top: "top_height E ?st < 2 ^ 27" "o_dummyValue ?st = 0"
    using m(1,3) by (auto simp: omap_rep_def)
  have idle: "idle E ?st (\<lambda>_. None)" using idle0 by simp
  then have g: "geom E ?st" by (auto simp: idle_def oram_rep_def)
  obtain ns r where n: "make_nodes E 0 ?ps ?st = Inr (ns, ?st\<lparr>o_rng := r\<rparr>)" "map kv ns = map entry ?ps" "\<forall>n\<in>set ns. ready E ?st n"
    using make_nodes_run [OF E g, of ?ps] ps(1) by auto
  have len: "length ns = length pairs" using arg_cong [OF n(2), of length] by simp
  have small: "bits (length ns) < 2 ^ 31" using ps(3) top(1) len by simp
  have g1: "geom E (?st\<lparr>o_rng := r\<rparr>)" "\<forall>n\<in>set ns. ready E (?st\<lparr>o_rng := r\<rparr>) n" using g n(3) by simp_all
  obtain xs p k r2 where b: "sortedArrayToBST E 0 (int (length ns) - 1) ns (?st\<lparr>o_rng := r\<rparr>) = ((int (bits (length ns)), p, k), xs, ?st\<lparr>o_rng := r2\<rparr>)"
    "map kv xs = map kv ns" "\<forall>n\<in>set xs. ready E ?st n" "\<forall>M. holds M xs \<longrightarrow> tree_at M k p (loaded pairs)"
    using sortedArrayToBST_tree [OF g1 small, of "[]" "[]"] n(2) by (auto simp: loaded_def)
  let ?st2 = "?st\<lparr>o_rng := r2\<rparr>"
  have keys: "map nkey xs = map fst ?ps"
  proof -
    have "map fst (map kv xs) = map fst (map entry ?ps)" using b(2) n(2) by simp
    then show ?thesis by (simp add: kv_def entry_def comp_def)
  qed
  have dist: "distinct (map nkey xs)" unfolding keys using ps(2) by (simp add: distinct_map)
  have ks: "nkey ` set xs = fst ` set pairs" using arg_cong [OF keys, of set] by simp
  have idle2: "idle E ?st2 (\<lambda>_. None)" using idle oram_rep_cong [of ?st2 ?st E] by (simp add: idle_def cfg_def)
  have good: "\<forall>n\<in>set xs. good E ?st2 n"
  proof
    fix n assume n: "n \<in> set xs"
    then have "nkey n \<in> fst ` set pairs" using ks by blast
    then have "key_ok E 0 (nkey n)" using ps(1) by (auto simp: pair_ok_def)
    then have "not_dummy E ?st2 (nkey n)" using top(2) by (simp add: not_dummy_def key_ok_def)
    then show "good E ?st2 n" using b(3) n by (simp add: good_def ready_def)
  qed
  obtain st3 where w: "ORAM_setupInsert E xs ?st2 = Inr st3" "idle E st3 (node_map xs)" "cfg st3 = cfg ?st2"
    "rs_empty (o_store st3) = rs_empty (o_store ?st2)"
    by (rule ORAM_setupInsert_idle [OF E idle2 good dist])
  let ?m = "m\<lparr>m_rootKey := k, m_rootPos := p, m_setupNodes := xs, m_oram := st3\<rparr>"
  have run: "OMAP_setupInsert E pairs m = Inr ?m"
    using n(1) b(1) w(1) m(2,3) by (simp add: OMAP_setupInsert_def AVL_setupInsert_def Let_def)
  have "holds (node_map xs) xs" using node_map_iff [OF dist] by (auto simp: holds_def)
  then have tree: "tree_at (node_map xs) k p (loaded pairs)" using b(4) by blast
  have "dom (node_map xs) = tkeys (loaded pairs)"
    unfolding loaded_facts(5) [OF ps(2)] ks [symmetric] by (auto simp: node_map_iff [OF dist] dom_def)
  moreover have "top_height E st3 = top_height E ?st" using top_height_cfg [OF w(3)] by (simp add: top_height_def)
  moreover have "o_dummyValue st3 = 0" using cfgD(9) [OF w(3)] top(2) by simp
  ultimately have "omap_rep E ?m (loaded pairs)"
    using w(2) tree loaded_facts(1-3) [OF ps(2)] ps(3) top(1) m(3) by (auto simp: omap_rep_def)
  then show ?thesis using that run w(4) m(3) \<open>top_height E st3 = top_height E ?st\<close> by simp
qed

text \<open>
  Loading takes no block of a Horus store, whose free blocks bound later insertions: the bound grows
  by the number of loaded keys.
\<close>

definition bulk_cap :: "env \<Rightarrow> nat \<Rightarrow> (bid \<times> string) list \<Rightarrow> nat" where
  "bulk_cap E maxSize pairs = omap_cap maxSize + (if e_scheme E = Horus then length pairs else 0)"

lemma omap_bulk_rel:
  assumes E: "env_ok E" and sz: "maxSize div Z \<noteq> 0" "ilog2 (maxSize div Z) < 31" "omap_top E maxSize < fuel"
    and ps: "\<forall>p\<in>set pairs. pair_ok E p" "distinct (map fst pairs)" "length pairs < 2 ^ omap_top E maxSize"
  obtains m where "ebind (OMAP_new E maxSize key) (OMAP_setupInsert E pairs) = Inr m"
    "omap_rel E fuel (omap_top E maxSize) (bulk_cap E maxSize pairs) (map_of pairs) m"
proof -
  obtain m where m: "OMAP_new E maxSize key = Inr m" "omap_rep E m Leaf"
    "omap_rel E fuel (omap_top E maxSize) (omap_cap maxSize) (\<lambda>_. None) m"
    by (rule omap_rel_new [OF E sz])
  have s: "m_setupNodes m = []" using m(1) by (auto simp: OMAP_new_def ebind_Inr_conv)
  have r: "top_height E (m_oram m) = omap_top E maxSize" "m_dummyValue m = 0" using m(3) by (auto simp: omap_rel_def)
  have e: "rs_empty (o_store (m_oram m)) = omap_cap maxSize"
  proof -
    obtain t where t: "omap_rep E m t" "\<forall>k. tmap t k = None" "rs_empty (o_store (m_oram m)) + (if e_scheme E = Horus then size t else 0) = omap_cap maxSize"
      using m(3) by (auto simp: omap_rel_def)
    have "t = Leaf" using t(2) dom_tmap [of t] by (cases t) (auto simp: dom_def)
    then show ?thesis using t(3) by (simp split: if_splits)
  qed
  have b: "bits (length pairs) \<le> top_height E (m_oram m)" unfolding r by (rule bits_less [OF ps(3)])
  obtain m' where m': "OMAP_setupInsert E pairs m = Inr m'" "omap_rep E m' (loaded pairs)"
    "top_height E (m_oram m') = top_height E (m_oram m)" "m_dummyValue m' = 0" "rs_empty (o_store (m_oram m')) = rs_empty (o_store (m_oram m))"
    by (rule OMAP_setupInsert_rep [OF E m(2) s r(2) ps(1,2) b])
  have "\<forall>k s. map_of pairs k = Some s \<longrightarrow> text_ok s" using ps(1) map_of_SomeD by (fastforce simp: pair_ok_def)
  then have "omap_rel E fuel (omap_top E maxSize) (bulk_cap E maxSize pairs) (map_of pairs) m'"
    using E sz(3) m'(2-5) r e loaded_facts(4,6) [OF ps(2)] unfolding omap_rel_def bulk_cap_def by (intro conjI exI [of _ "loaded pairs"]) auto
  then show ?thesis using that m(1) m'(1) by simp
qed

section \<open>Properties\<close>

text \<open>
  (C6) Bulk loading, end to end: a new oblivious map, loaded with \<open>setupInsert\<close> and then used by any
  admissible sequence of insertions and lookups, answers what the map of the loaded pairs
  answers, for every random generator. Fewer than \<open>2 ^ h\<close> pairs are loaded, where \<open>h\<close> is the height
  of the trees that the program keeps up to date.
\<close>

theorem omap_bulk_refines_map:
  assumes "env_ok E" "maxSize div Z \<noteq> 0" "ilog2 (maxSize div Z) < 31" "omap_top E maxSize < fuel"
    "\<forall>p\<in>set pairs. pair_ok E p" "distinct (map fst pairs)" "length pairs < 2 ^ omap_top E maxSize"
    "all_ok (omap_ok E (omap_top E maxSize) (bulk_cap E maxSize pairs)) map_step ps (map_of pairs)"
  shows "\<exists>m. ebind (ebind (OMAP_new E maxSize key) (OMAP_setupInsert E pairs)) (crun (omap_step E fuel) ps) =
    Inr (fst (arun map_step ps (map_of pairs)), m)"
proof -
  obtain m where "ebind (OMAP_new E maxSize key) (OMAP_setupInsert E pairs) = Inr m"
    "omap_rel E fuel (omap_top E maxSize) (bulk_cap E maxSize pairs) (map_of pairs) m"
    by (rule omap_bulk_rel [OF assms(1-7)])
  then show ?thesis using omap.run_outputs [OF _ assms(8)] by simp
qed

theorem omap_bulk_refines_map_witness:
  "\<exists>m. ebind (ebind (OMAP_new (toy_env Mitra) 8 [1]) (OMAP_setupInsert (toy_env Mitra)
        [(Bid_int 16 3, ''x''), (Bid_int 16 1, ''y''), (Bid_int 16 5, ''z'')]))
      (crun (omap_step (toy_env Mitra) 20) [Get (Bid_int 16 5), Put (Bid_int 16 3) ''w'', Get (Bid_int 16 1), Get (Bid_int 16 3)]) =
    Inr ([''z'', [], ''y'', ''w''], m)"
proof -
  let ?E = "toy_env Mitra"
  let ?pairs = "[(Bid_int 16 3, ''x''), (Bid_int 16 1, ''y''), (Bid_int 16 5, ''z'')]"
  let ?ps = "[Get (Bid_int 16 5), Put (Bid_int 16 3) ''w'', Get (Bid_int 16 1), Get (Bid_int 16 3)]"
  have k: "key_ok ?E 0 (Bid_int 16 3)" "key_ok ?E 0 (Bid_int 16 1)" "key_ok ?E 0 (Bid_int 16 5)" by code_simp+
  have t: "omap_top ?E 8 = 4" "omap_cap 8 = 12" "bulk_cap ?E 8 ?pairs = 12" by code_simp+
  have d: "Bid_int 16 3 \<noteq> Bid_int 16 1" "Bid_int 16 3 \<noteq> Bid_int 16 5" "Bid_int 16 1 \<noteq> Bid_int 16 5" by code_simp+
  have w: "bid_wf (ID_SIZE (e_scheme ?E)) (Bid_int 16 3)" "bid_wf (ID_SIZE (e_scheme ?E)) (Bid_int 16 1)"
    "bid_wf (ID_SIZE (e_scheme ?E)) (Bid_int 16 5)" by code_simp+
  have s: "text_ok ''x''" "text_ok ''y''" "text_ok ''z''" "text_ok ''w''" by (simp_all add: text_ok_def NUL_char)
  have ms: "min_size 5 = 12" by code_simp
  have sz: "8 div Z \<noteq> 0" "ilog2 (8 div Z) < 31" "omap_top ?E 8 < 20" unfolding t by (simp_all add: Z_def ilog2.simps)
  have ps: "\<forall>p\<in>set ?pairs. pair_ok ?E p" "distinct (map fst ?pairs)" "length ?pairs < 2 ^ omap_top ?E 8"
    unfolding t using k s d by (simp_all add: pair_ok_def)
  have ok: "all_ok (omap_ok ?E (omap_top ?E 8) (bulk_cap ?E 8 ?pairs)) map_step ?ps (map_of ?pairs)"
    unfolding t using k w d d [symmetric] s by (simp add: ms card_insert_if)
  have run: "fst (arun map_step ?ps (map_of ?pairs)) = [''z'', [], ''y'', ''w'']" using d d [symmetric] by simp
  show ?thesis using omap_bulk_refines_map [OF env_ok_toy sz ps ok, of "[1]"] unfolding run .
qed

end
