(* ===== verification/Mitra_Bulk.thy ===== *)
theory Mitra_Bulk
  imports Mitra_Correct Omap_Bulk
begin

text \<open>
  The setup of Mitra: updates collect their counters in \<open>setupOMAP\<close>, \<open>endSetup\<close> loads them into the
  oblivious map and makes the test insertions. What was set up is the database on which the
  client then works.
\<close>

section \<open>Counters of the setup\<close>

definition setup_rep :: "omap \<Rightarrow> string set \<Rightarrow> counts \<Rightarrow> mitra \<Rightarrow> bool" where
  "setup_rep m W c st \<longleftrightarrow> \<not> mc_localStorage st \<and> mc_omap st = m \<and> distinct (map fst (mc_setupOMAP st)) \<and>
     fst ` set (mc_setupOMAP st) \<subseteq> kw_bid ` W \<and>
     (\<forall>w\<in>W. case map_of (mc_setupOMAP st) (kw_bid w) of None \<Rightarrow> c w = (0, 0) | Some s \<Rightarrow> s = show_pair (fst (c w)) (snd (c w)))"

interpretation setup_counts: mitra_updates W df M "setup_rep m W" 10 True for W df M m
proof
  fix c st w f s assume M: "menv_ok df W M" and c: "setup_rep m W c st" and w: "w \<in> W" and cw: "c w = (f, s)"
    and fs: "0 \<le> f" "f + 1 < int 10" "nonneg32 s"
  have b: "getBid 16 w = Inr (kw_bid w)" using getBid_kw menv_ok_kw [OF M w] by simp
  have nl: "\<not> mc_localStorage st" using c by (simp add: setup_rep_def)
  have r: "case map_of (mc_setupOMAP st) (kw_bid w) of None \<Rightarrow> (f, s) = (0, 0) | Some t \<Rightarrow> t = show_pair f s"
  proof -
    have "case map_of (mc_setupOMAP st) (kw_bid w) of None \<Rightarrow> c w = (0, 0) | Some t \<Rightarrow> t = show_pair (fst (c w)) (snd (c w))"
      using c w by (simp add: setup_rep_def)
    then show ?thesis unfolding cw fst_conv snd_conv .
  qed
  let ?st = "st\<lparr>mc_setupOMAP := AList.update (kw_bid w) (show_pair (f + 1) s) (mc_setupOMAP st)\<rparr>"
  have "next_counts M True w st = Inr ((f + 1, s), ?st)"
  proof (cases "map_of (mc_setupOMAP st) (kw_bid w)")
    case None
    then show ?thesis using nl b r by (simp add: next_counts_def omap_counts_def Let_def)
  next
    case (Some t)
    then have "t = show_pair f s" using r by simp
    moreover have "parse_pair (show_pair f s) = Inr (f, s)" using fs parse_pair_show [of f s "[]"] by (simp add: nonneg32_def)
    moreover have "show_pair f s \<noteq> []" by (simp add: show_pair_def)
    ultimately show ?thesis using nl b Some by (simp add: next_counts_def omap_counts_def Let_def)
  qed
  moreover have "setup_rep m W (c(w := (f + 1, s))) ?st"
    unfolding setup_rep_def
  proof (intro conjI ballI)
    fix w' assume "w' \<in> W"
    then show "case map_of (mc_setupOMAP ?st) (kw_bid w') of None \<Rightarrow> (c(w := (f + 1, s))) w' = (0, 0)
        | Some t \<Rightarrow> t = show_pair (fst ((c(w := (f + 1, s))) w')) (snd ((c(w := (f + 1, s))) w'))"
      using c kw_bid_inj [OF M _ w, of w'] by (cases "w' = w") (auto simp: setup_rep_def map_of_update_apply split: option.splits)
  qed (use c w in \<open>auto simp: setup_rep_def dom_update distinct_update\<close>)
  ultimately show "\<exists>st'. next_counts M True w st = Inr ((f + 1, s), st') \<and> setup_rep m W (c(w := (f + 1, s))) st' \<and> unchanged st st'"
    by (simp add: unchanged_def)
qed (auto simp: setup_rep_def)

section \<open>The end of the setup\<close>

lemma test_inserts_rel:
  assumes "omap_rel E fuel h cap f m" "key_ok E 0 (test_bid (ID_SIZE (e_scheme E)))" "0 < n"
    "card (insert (test_bid (ID_SIZE (e_scheme E))) (dom f)) < min_size (Suc h)" "card (insert (test_bid (ID_SIZE (e_scheme E))) (dom f)) \<le> cap"
  shows "\<exists>m'. test_inserts E fuel n m = Inr m' \<and> omap_rel E fuel h cap (f(test_bid (ID_SIZE (e_scheme E)) \<mapsto> ''TEST'')) m'"
  using assms
proof (induction n arbitrary: f m)
  case (Suc n)
  let ?b = "test_bid (ID_SIZE (e_scheme E))"
  define g where "g = f(?b \<mapsto> ''TEST'')"
  have g: "dom g = insert ?b (dom f)" "g(?b \<mapsto> ''TEST'') = g" by (simp_all add: g_def)
  have "omap_ok E h cap (Put ?b ''TEST'') f" using Suc.prems by (simp add: text_ok_def NUL_char)
  then obtain m1 where m1: "OMAP_insert E fuel ?b ''TEST'' m = Inr m1" "omap_rel E fuel h cap g m1"
    using omap.step [OF Suc.prems(1)] unfolding g_def by (fastforce simp: ebind_Inr_conv)
  have "\<exists>m'. test_inserts E fuel n m1 = Inr m' \<and> omap_rel E fuel h cap g m'"
  proof (cases "n = 0")
    case True
    then show ?thesis using m1(2) by simp
  next
    case False
    then show ?thesis using Suc.IH [OF m1(2) Suc.prems(2)] Suc.prems(4,5) unfolding g by simp
  qed
  then show ?case using m1(1) unfolding g_def [symmetric] by simp
qed simp

lemma test_bid_facts: "e_scheme E = Mitra \<Longrightarrow> key_ok E 0 (test_bid 16)" "kw_bid w = test_bid 16 \<Longrightarrow> NUL \<notin> set w \<Longrightarrow> w = []"
proof -
  have t: "test_bid 16 = Bid (replicate 3 0 @ 1 # replicate 12 0)" by code_simp
  have "bid_ne_int (test_bid 16) 0" by code_simp
  then show "key_ok E 0 (test_bid 16)" if "e_scheme E = Mitra" using that by (simp add: key_ok_def t bid_wf_def ID_SIZE_def)
  assume e: "kw_bid w = test_bid 16" and w: "NUL \<notin> set w"
  have "pad16 w ! 0 = 0" using e by (simp add: t kw_bid_def Bid_array_def nth_append)
  then show "w = []" using w by (cases w) (auto simp: pad16_def string_bytes_def)
qed

lemma min_size_pow: "min_size (Suc h) \<le> 2 ^ h"
proof (induction h rule: min_size.induct)
  case (3 h)
  have "(1::nat) \<le> 2 ^ h" by simp
  then show ?case using 3 by simp
qed simp_all

lemma card_keys: "distinct (map fst ps) \<Longrightarrow> fst ` set ps \<subseteq> A \<Longrightarrow> finite A \<Longrightarrow> length ps \<le> card A"
  by (metis card_mono distinct_card length_map set_map)

lemma endSetup_rel:
  assumes M: "menv_ok df W M" and E: "env_ok (m_E M)" "e_scheme (m_E M) = Mitra"
    and n: "n div Z \<noteq> 0" "ilog2 (n div Z) < 31" "omap_top (m_E M) n < m_fuel M"
    and W: "finite W" "[] \<notin> W" "card W + 1 < min_size (Suc (omap_top (m_E M) n))" "card W + 1 \<le> omap_cap n"
    and new: "OMAP_new (m_E M) n key = Inr m" and rel: "mitra_rel (setup_rep m W) 10 df W M a st"
  obtains st' where "Mitra_endSetup M st = Inr st'"
    "mitra_rel (omap_counts_rep (omap_top (m_E M) n) (omap_cap n) {test_bid 16} W M) 10 df W M a st'"
proof -
  obtain b where b: "mrep (setup_rep m W) 10 df W M b st" and ab: "\<And>w. w \<in> W \<Longrightarrow> mitra_kw 10 a w (b w)"
    using rel by (auto simp: mitra_rel_def)
  let ?ps = "mc_setupOMAP st" and ?E = "m_E M" and ?h = "omap_top (m_E M) n"
  have s: "\<not> mc_localStorage st" "mc_omap st = m" "distinct (map fst ?ps)" "fst ` set ?ps \<subseteq> kw_bid ` W"
    and c: "\<forall>w\<in>W. case map_of ?ps (kw_bid w) of None \<Rightarrow> counts_of b w = (0, 0) | Some t \<Rightarrow> t = show_pair (fst (counts_of b w)) (snd (counts_of b w))"
    using b by (simp_all add: mrep_def setup_rep_def)
  have len: "length ?ps \<le> card W" using card_keys [OF s(3,4)] W(1) card_image_le [OF W(1), of kw_bid] by simp
  have ok: "pair_ok ?E p" if p: "p \<in> set ?ps" for p
  proof -
    obtain w where w: "w \<in> W" "fst p = kw_bid w" using s(4) p by auto
    have "map_of ?ps (kw_bid w) = Some (snd p)" using s(3) p w(2) by (metis map_of_eq_Some_iff prod.collapse)
    then have t: "snd p = show_pair (int (length (u_es (b w)))) (u_src (b w))" using c w(1) by (force simp: counts_of_def)
    have u: "0 \<le> u_src (b w)" "u_src (b w) < 2 ^ 31" "length (u_es (b w)) < 10" using b w(1) by (auto simp: mrep_def mkw_ok_def nonneg32_def)
    then have "text_ok (snd p)" unfolding t by (intro text_ok_show length_show_small) (auto simp: int32_def)
    moreover have "w \<noteq> []" using w(1) W(2) by auto
    ultimately show ?thesis using kw_bid_key(1) [OF M w(1) _ E(2)] w(2) by (simp add: pair_ok_def)
  qed
  have "length ?ps < 2 ^ ?h" using len W(3) min_size_pow [of ?h] by linarith
  then obtain m0 where m0: "ebind (OMAP_new ?E n key) (OMAP_setupInsert ?E ?ps) = Inr m0"
    "omap_rel ?E (m_fuel M) ?h (bulk_cap ?E n ?ps) (map_of ?ps) m0"
    using omap_bulk_rel [OF E(1) n _ s(3)] ok by blast
  have m1: "OMAP_setupInsert ?E ?ps m = Inr m0" "omap_rel ?E (m_fuel M) ?h (omap_cap n) (map_of ?ps) m0"
    using m0 new E(2) by (simp_all add: bulk_cap_def)
  have idz: "test_bid (ID_SIZE (e_scheme ?E)) = test_bid 16" using E(2) by (simp add: ID_SIZE_def)
  have "card (insert (test_bid 16) (dom (map_of ?ps))) \<le> Suc (card (dom (map_of ?ps)))" by (rule card_insert_le_m1) simp_all
  also have "card (dom (map_of ?ps)) \<le> card W"
    using card_mono [OF _ s(4)] W(1) card_image_le [OF W(1), of kw_bid] by (fastforce simp: dom_map_of_conv_image_fst)
  finally have cd: "card (insert (test_bid 16) (dom (map_of ?ps))) \<le> card W + 1" by simp
  obtain m2 where m2: "test_inserts ?E (m_fuel M) 500 m0 = Inr m2"
    "omap_rel ?E (m_fuel M) ?h (omap_cap n) ((map_of ?ps)(test_bid 16 \<mapsto> ''TEST'')) m2"
    using test_inserts_rel [OF m1(2), of 500] test_bid_facts(1) [OF E(2)] cd W(3,4) unfolding idz by auto
  have run: "Mitra_endSetup M st = Inr (st\<lparr>mc_omap := m2\<rparr>)" using s(1,2) m1(1) m2(1) by (simp add: Mitra_endSetup_def)
  have other: "kw_bid w \<noteq> test_bid 16" if "w \<in> W" for w
    using test_bid_facts(2) [of w] menv_ok_kw [OF M that] W(2) that by auto
  have "omap_counts_rep ?h (omap_cap n) {test_bid 16} W M (counts_of b) (st\<lparr>mc_omap := m2\<rparr>)"
    unfolding omap_counts_rep_def
  proof (intro conjI exI [of _ "(map_of ?ps)(test_bid 16 \<mapsto> ''TEST'')"] ballI)
    fix w assume "w \<in> W"
    then show "case ((map_of ?ps)(test_bid 16 \<mapsto> ''TEST'')) (kw_bid w) of None \<Rightarrow> counts_of b w = (0, 0)
        | Some t \<Rightarrow> t = show_pair (fst (counts_of b w)) (snd (counts_of b w))"
      using c other by simp
  qed (use s W E(2) m2(2) in \<open>auto simp: dom_map_of_conv_image_fst\<close>)
  then have "mrep (omap_counts_rep ?h (omap_cap n) {test_bid 16} W M) 10 df W M b (st\<lparr>mc_omap := m2\<rparr>)"
    using b by (simp add: mrep_def)
  then show ?thesis using that run mitra_relI ab by blast
qed

section \<open>Properties\<close>

text \<open>
  (C5) Mitra with a setup, end to end: the updates of a setup followed by \<open>endSetup\<close>, the bulk load of
  the counters with its five hundred test insertions included, and then any admissible sequence of
  operations run without an error, and every search answers what the database answers after all
  the updates before it.
\<close>

theorem mitra_setup_refines_database:
  assumes "menv_ok df W M" "env_ok (m_E M)" "e_scheme (m_E M) = Mitra"
    "n div Z \<noteq> 0" "ilog2 (n div Z) < 31" "omap_top (m_E M) n < m_fuel M"
    "finite W" "[] \<notin> W" "card W + 1 < min_size (Suc (omap_top (m_E M) n))" "card W + 1 \<le> omap_cap n"
    "all_ok (load_ok 10 W) sse_step_sorted qs sse_empty"
    "all_ok (mitra_ok 10 W) sse_step_sorted ps (snd (arun sse_step_sorted qs sse_empty))"
  shows "\<exists>st. ebind (ebind (Mitra_new M df n) (crun (mitra_load_step M True) qs)) (\<lambda>(outs, st).
      ebind (Mitra_endSetup M st) (crun (mitra_step M) ps)) =
    Inr (fst (arun sse_step_sorted ps (snd (arun sse_step_sorted qs sse_empty))), st)"
proof -
  let ?E = "m_E M"
  obtain m where m: "OMAP_new ?E n (replicate 16 0) = Inr m" by (rule omap_rel_new [OF assms(2,4,5,6)])
  let ?st = "\<lparr>mc_deleteFiles = df, mc_localStorage = False, mc_omap = m, mc_FileCnt = [],
            mc_SrcCnt = [], mc_setupOMAP = [], mc_DictW = [], mc_rnd = 0\<rparr>"
  have new: "Mitra_new M df n = Inr ?st" using m by (simp add: Mitra_new_def)
  have "mitra_rel (setup_rep m W) 10 df W M sse_empty ?st"
    by (rule mitra_new_rel [OF assms(1)]) (simp_all add: setup_rep_def)
  then obtain outs st1 where st1: "crun (mitra_load_step M True) qs ?st = Inr (outs, st1)"
    "mitra_rel (setup_rep m W) 10 df W M (snd (arun sse_step_sorted qs sse_empty)) st1"
    using setup_counts.loading.run [OF _ assms(11)] by blast
  obtain st2 where st2: "Mitra_endSetup M st1 = Inr st2"
    "mitra_rel (omap_counts_rep (omap_top ?E n) (omap_cap n) {test_bid 16} W M) 10 df W M (snd (arun sse_step_sorted qs sse_empty)) st2"
    by (rule endSetup_rel [OF assms(1-10) m st1(2)])
  show ?thesis using new st1(1) st2(1) omap_counts.database.run_outputs [OF st2(2) assms(12)] by simp
qed

theorem mitra_setup_refines_database_witness:
  "\<exists>st. ebind (ebind (Mitra_new toy_menv True 4) (crun (mitra_load_step toy_menv True) [Ins ''a'' 8, Ins ''b'' 9, Ins ''a'' 7, Del ''a'' 8]))
      (\<lambda>(outs, st). ebind (Mitra_endSetup toy_menv st) (crun (mitra_step toy_menv) [Srch ''a'', Ins ''a'' 5, Srch ''a'', Srch ''b''])) =
    Inr ([[7], [], [5, 7], [9]], st)"
proof -
  have E: "env_ok (m_E toy_menv)" "e_scheme (m_E toy_menv) = Mitra" using env_ok_toy by (simp_all add: toy_menv_def toy_env_def)
  have sz: "4 div Z \<noteq> 0" "ilog2 (4 div Z) < 31" by (simp_all add: Z_def ilog2.simps)
  have t: "omap_top (m_E toy_menv) 4 = 3" "omap_cap 4 = 4" "min_size 4 = 7" "m_fuel toy_menv = 50" by code_simp+
  have W: "finite {''a'', ''b''}" "[] \<notin> {''a'', ''b''}" "card {''a'', ''b''} + 1 < min_size (Suc (omap_top (m_E toy_menv) 4))"
    "card {''a'', ''b''} + 1 \<le> omap_cap 4" "omap_top (m_E toy_menv) 4 < m_fuel toy_menv" unfolding t by (simp_all add: t)
  show ?thesis
    using mitra_setup_refines_database [OF menv_ok_toy E sz W(5,1,2,3,4),
      of "[Ins ''a'' 8, Ins ''b'' 9, Ins ''a'' 7, Del ''a'' 8]" "[Srch ''a'', Ins ''a'' 5, Srch ''a'', Srch ''b'']" True]
    by (simp add: sse_empty_def int32_def sse_step_sorted_def load_ok_def)
qed

end
