(* ===== verification/Qos.thy ===== *)
theory Qos
  imports Sse_Common
begin

text \<open>
  The QOS scheme: \<open>Client\<close> and \<open>Server\<close> of \<open>qos/\<close>. The \<open>a_w\<close>-th identifier of a keyword is
  leaf \<open>a_w\<close> of a binary tree with nodes numbered as in a heap. A removal colours the topmost
  node all of whose leaves are removed; the server stores the coloured nodes under encrypted
  labels and a search descends from a cover of the leaves \<open>0..a_w\<close>, stopping at coloured nodes.
\<close>

section \<open>Parameters and state\<close>

record qenv =
  q_E :: env
  q_fuel :: nat
  q_enc :: cipher
  q_dec :: cipher
  q_prg :: "bytes \<Rightarrow> bytes"
  q_stack :: bytes
  q_rand :: "nat \<Rightarrow> int"

text \<open>
  The counters (\<open>Ocnt\<close>), colours (\<open>Ostate\<close>) and positions (\<open>Odel\<close>) each have three members: a map
  for \<open>localStorage\<close>, one for the setup phase, and an oblivious map.
\<close>

datatype tab = Ocnt | Ostate | Odel

record qtab =
  t_local :: "(string \<times> string) list"
  t_setup :: "(bid \<times> string) list"
  t_omap :: omap

record qserver =
  qs_height :: nat
  qs_I :: "(bytes \<times> bytes) list"
  qs_Dstate :: "(bytes \<times> bytes) list"

record qos =
  qc_server :: qserver
  qc_height :: nat
  qc_localStorage :: bool
  qc_tab :: "tab \<Rightarrow> qtab"
  qc_rnd :: nat

definition IKey :: bytes where "IKey = replicate 16 1"
definition DKey :: bytes where "DKey = replicate 16 2"
definition secretKey :: bytes where "secretKey = replicate 16 3"

definition qos_ceil_log2 :: "nat \<Rightarrow> nat" where
  "qos_ceil_log2 N = (if N \<le> 1 then 0 else ilog2 (N - 1) + 1)"

definition Qos_Server_new :: "nat \<Rightarrow> qserver" where
  "Qos_Server_new N = \<lparr>qs_height = qos_ceil_log2 N + 1, qs_I = [], qs_Dstate = []\<rparr>"

definition Qos_Client_new :: "qenv \<Rightarrow> nat \<Rightarrow> nat \<Rightarrow> qos res" where
  "Qos_Client_new Q N keywordSize =
     ebind (OMAP_new (q_E Q) keywordSize (replicate 16 0)) (\<lambda>m1.
     ebind (OMAP_new (q_E Q) N (replicate 16 0)) (\<lambda>m2.
     ebind (OMAP_new (q_E Q) N (replicate 16 0)) (\<lambda>m3.
     Inr \<lparr>qc_server = Qos_Server_new N, qc_height = qos_ceil_log2 N + 1, qc_localStorage = False,
          qc_tab = (\<lambda>t. \<lparr>t_local = [], t_setup = [], t_omap = (case t of Ocnt \<Rightarrow> m1 | Ostate \<Rightarrow> m2 | Odel \<Rightarrow> m3)\<rparr>),
          qc_rnd = 0\<rparr>)))"

section \<open>The server\<close>

definition Qos_Server_insert :: "bytes \<Rightarrow> bytes \<Rightarrow> qserver \<Rightarrow> qserver" where
  "Qos_Server_insert key val s = s\<lparr>qs_I := AList.update key val (qs_I s)\<rparr>"

definition insertInDstate :: "bytes \<Rightarrow> bytes \<Rightarrow> qserver \<Rightarrow> qserver" where
  "insertInDstate key val s = s\<lparr>qs_Dstate := AList.update key val (qs_Dstate s)\<rparr>"

definition Qos_Server_insert_all :: "(bytes \<times> bytes) list \<Rightarrow> (bytes \<times> bytes) list \<Rightarrow> qserver \<Rightarrow> qserver" where
  "Qos_Server_insert_all is ds s =
     fold (\<lambda>(k, v). insertInDstate k v) ds (fold (\<lambda>(k, v). Qos_Server_insert k v) is s)"

text \<open>
  \<open>getNodeOnPath\<close> of client and server: \<open>d = height - 1, \<dots>, curDepth\<close> steps towards the root;
  the root has depth 1.
\<close>

definition getNodeOnPath :: "nat \<Rightarrow> int \<Rightarrow> nat \<Rightarrow> int" where
  "getNodeOnPath height leaf curDepth = up_path (height - curDepth) (leaf + (2 ^ height - 1) div 2)"

definition log2_floor :: "int \<Rightarrow> nat" where
  "log2_floor a = ilog2 (nat a)"

lemma cover_decreases:
  fixes a :: int
  assumes "0 \<le> a"
  shows "nat (a - ((if a = 0 then 0 else 2 ^ log2_floor (a + 1) - 1) + 1) + 1) < nat (a + 1)"
proof -
  have "(0 :: int) < 2 ^ k" for k by simp
  then show ?thesis using assms by (auto simp: nat_less_iff)
qed

function findCoveringSet :: "nat \<Rightarrow> int \<Rightarrow> int \<Rightarrow> int list" where
  "findCoveringSet height a_w totIndex =
     (if a_w < 0 then []
      else let lastTreeHeight = (if a_w = 0 then 1 else log2_floor (a_w + 1) + 1);
               lastIndex = (if a_w = 0 then 0 else 2 ^ log2_floor (a_w + 1) - 1);
               index = getNodeOnPath height (lastIndex + totIndex) (height - lastTreeHeight + 1)
           in index # findCoveringSet height (a_w - (lastIndex + 1)) (totIndex + lastIndex + 1))"
  by pat_completeness auto
termination
  by (relation "measure (\<lambda>(h, a, t). nat (a + 1))") (simp, use cover_decreases in auto)

declare findCoveringSet.simps [simp del]

text \<open>The label of node \<open>index\<close> under a 16-byte key, with the static AES key.\<close>

definition node_label :: "qenv \<Rightarrow> bytes \<Rightarrow> int \<Rightarrow> bytes res" where
  "node_label Q key index = encode_bytes (q_enc Q) None (put_int (AES_KEY_SIZE - 5) index key)"

text \<open>
  \<open>recursiveSearch\<close>: results, deleted nodes and the remaining \<open>Dstate\<close>. Node numbers are natural
  numbers, so the children of an inner node are larger than the node.
\<close>

function recursiveSearch :: "qenv \<Rightarrow> nat \<Rightarrow> bytes \<Rightarrow> nat \<Rightarrow> int list \<Rightarrow> int list \<Rightarrow> (bytes \<times> bytes) list
    \<Rightarrow> (int list \<times> int list \<times> (bytes \<times> bytes) list) res" where
  "recursiveSearch Q height key index result deletes Dstate =
     ebind (node_label Q key (int index)) (\<lambda>fkey.
       if map_of Dstate fkey = None then
         if 2 ^ (height - 1) - 1 \<le> index then Inr (result @ [int index], deletes, Dstate)
         else ebind (recursiveSearch Q height key (index * 2 + 1) result deletes Dstate)
                (\<lambda>(r, d, D). recursiveSearch Q height key (index * 2 + 2) r d D)
       else Inr (result, deletes @ [int index], AList.delete fkey Dstate))"
  by pat_completeness auto
termination
  by (relation "measure (\<lambda>(Q, height, key, index, r, d, D). 2 ^ (height - 1) - 1 - index)") auto

declare recursiveSearch.simps [simp del]

fun search_nodes :: "qenv \<Rightarrow> nat \<Rightarrow> bytes \<Rightarrow> int list \<Rightarrow> int list \<Rightarrow> int list \<Rightarrow> (bytes \<times> bytes) list
    \<Rightarrow> (int list \<times> int list \<times> (bytes \<times> bytes) list) res" where
  "search_nodes Q height key [] r d D = Inr (r, d, D)"
| "search_nodes Q height key (i # is) r d D =
     ebind (recursiveSearch Q height key (nat i) r d D)
       (\<lambda>(r', d', D'). search_nodes Q height key is r' d' D')"

text \<open>The values found, removed from \<open>I\<close>; the map \<open>result\<close> is iterated in increasing order later.\<close>

fun take_values :: "qenv \<Rightarrow> bytes \<Rightarrow> int list \<Rightarrow> (int \<times> bytes) list \<Rightarrow> (bytes \<times> bytes) list
    \<Rightarrow> ((int \<times> bytes) list \<times> (bytes \<times> bytes) list) res" where
  "take_values Q Ikey [] result I = Inr (result, I)"
| "take_values Q Ikey (i # is) result I =
     ebind (node_label Q Ikey i) (\<lambda>fkey.
       case map_of I fkey of
         Some v \<Rightarrow> take_values Q Ikey is (AList.update i v result) (AList.delete fkey I)
       | None \<Rightarrow> take_values Q Ikey is result I)"

definition Qos_Server_search :: "qenv \<Rightarrow> bytes \<Rightarrow> bytes \<Rightarrow> int \<Rightarrow> qserver
    \<Rightarrow> ((int \<times> bytes) list \<times> int list \<times> qserver) res" where
  "Qos_Server_search Q Ikey Dkey a_w s =
     ebind (search_nodes Q (qs_height s) Dkey (findCoveringSet (qs_height s) a_w 0) [] [] (qs_Dstate s))
       (\<lambda>(indexes, deletes, D). ebind (take_values Q Ikey indexes [] (qs_I s))
         (\<lambda>(result, I). Inr (sort_key fst result, deletes, s\<lparr>qs_I := I, qs_Dstate := D\<rparr>)))"

section \<open>The client\<close>

definition qos_getAESRandomValue :: "qenv \<Rightarrow> bytes \<Rightarrow> int \<Rightarrow> bytes \<times> bytes" where
  "qos_getAESRandomValue Q keyword src_cnt =
     (let k = put_int (AES_KEY_SIZE - 4) src_cnt keyword in (k, q_prg Q k))"

definition tab_lookup :: "'k \<Rightarrow> ('k \<times> string) list \<Rightarrow> string" where
  "tab_lookup k m = (case map_of m k of None \<Rightarrow> [] | Some s \<Rightarrow> s)"

definition tab_get :: "qenv \<Rightarrow> tab \<Rightarrow> string \<Rightarrow> bool \<Rightarrow> qos \<Rightarrow> (string \<times> qos) res" where
  "tab_get Q t name setup st =
     (if qc_localStorage st then Inr (tab_lookup name (t_local (qc_tab st t)), st)
      else ebind (getBid 16 name) (\<lambda>b.
        if setup then Inr (tab_lookup b (t_setup (qc_tab st t)), st)
        else ebind (OMAP_find (q_E Q) (q_fuel Q) b (t_omap (qc_tab st t))) (\<lambda>(s, m).
          Inr (s, st\<lparr>qc_tab := (qc_tab st)(t := (qc_tab st t)\<lparr>t_omap := m\<rparr>)\<rparr>))))"

definition tab_put :: "qenv \<Rightarrow> tab \<Rightarrow> string \<Rightarrow> string \<Rightarrow> bool \<Rightarrow> qos \<Rightarrow> qos res" where
  "tab_put Q t name s setup st =
     (let q = qc_tab st t in
      if qc_localStorage st then Inr (st\<lparr>qc_tab := (qc_tab st)(t := q\<lparr>t_local := AList.update name s (t_local q)\<rparr>)\<rparr>)
      else ebind (getBid 16 name) (\<lambda>b.
        if setup then Inr (st\<lparr>qc_tab := (qc_tab st)(t := q\<lparr>t_setup := AList.update b s (t_setup q)\<rparr>)\<rparr>)
        else ebind (OMAP_insert (q_E Q) (q_fuel Q) b s (t_omap q)) (\<lambda>m.
          Inr (st\<lparr>qc_tab := (qc_tab st)(t := q\<lparr>t_omap := m\<rparr>)\<rparr>))))"

text \<open>
  The counter pair of an insertion. Only in the oblivious map the increment of \<open>a_w\<close> is part of
  the lookup (\<open>incrementAwCnt\<close>).
\<close>

definition insert_counts :: "qenv \<Rightarrow> string \<Rightarrow> bool \<Rightarrow> qos \<Rightarrow> ((int \<times> int) \<times> qos) res" where
  "insert_counts Q keyword setup st =
     ebind (getBid 16 keyword) (\<lambda>key.
     ebind (if qc_localStorage st \<or> setup then tab_get Q Ocnt keyword setup st
            else ebind (qos_OMAP_incrementAwCnt (q_E Q) (q_fuel Q) key (t_omap (qc_tab st Ocnt))) (\<lambda>(s, m).
              Inr (s, st\<lparr>qc_tab := (qc_tab st)(Ocnt := (qc_tab st Ocnt)\<lparr>t_omap := m\<rparr>)\<rparr>))) (\<lambda>(result, st).
     ebind (if result \<noteq> [] then parse_pair result else Inr (0, -1)) (\<lambda>(src_cnt, a).
     let a_w = a + 1 in
     ebind (if qc_localStorage st \<or> setup then tab_put Q Ocnt keyword (show_pair src_cnt a_w) setup st else Inr st) (\<lambda>st.
     Inr ((src_cnt, a_w), st)))))"

text \<open>Label and value of an identifier at tree node \<open>nodeIndex\<close>.\<close>

definition index_entry :: "qenv \<Rightarrow> string \<Rightarrow> int \<Rightarrow> int \<Rightarrow> int \<Rightarrow> (bytes \<times> bytes) res" where
  "index_entry Q keyword src_cnt nodeIndex ident =
     ebind (kw_block keyword) (\<lambda>k_w.
     let phi = snd (qos_getAESRandomValue Q k_w src_cnt) in
     ebind (node_label Q (bitwiseXOR IKey phi) nodeIndex) (\<lambda>mapKey.
     ebind (encode_bytes (q_enc Q) (Some secretKey) (put_int (AES_KEY_SIZE - 5) ident k_w)) (\<lambda>mapValue.
     Inr (mapKey, mapValue))))"

definition delete_entry :: "qenv \<Rightarrow> string \<Rightarrow> int \<Rightarrow> int \<Rightarrow> (bytes \<times> bytes) res" where
  "delete_entry Q keyword src_cnt nodeIndex =
     ebind (kw_block keyword) (\<lambda>k_w.
     let phi = snd (qos_getAESRandomValue Q k_w src_cnt) in
     ebind (node_label Q (bitwiseXOR DKey phi) nodeIndex) (\<lambda>fkey.
     ebind (encode0 (q_enc Q) (q_stack Q) (replicate 16 0) ''0'') (\<lambda>fvalue. Inr (fkey, fvalue))))"

definition Qos_insert :: "qenv \<Rightarrow> string \<Rightarrow> int \<Rightarrow> bool \<Rightarrow> qos \<Rightarrow> qos res" where
  "Qos_insert Q keyword ident setup st =
     ebind (insert_counts Q keyword setup st) (\<lambda>((src_cnt, a_w), st).
     ebind (tab_put Q Odel (keyword @ ''-'' @ to_string ident) (to_string a_w) setup st) (\<lambda>st.
     ebind (index_entry Q keyword src_cnt (getNodeOnPath (qc_height st) a_w (qc_height st)) ident) (\<lambda>(k, v).
     Inr (st\<lparr>qc_server := Qos_Server_insert k v (qc_server st)\<rparr>))))"

definition sibling_of :: "int \<Rightarrow> int list" where
  "sibling_of index =
     (if index mod 2 = 0 \<and> index \<noteq> 0 then [index - 1]
      else if index mod 2 \<noteq> 0 \<and> index \<noteq> 0 then [index + 1] else [])"

text \<open>The colours of a list of nodes; the colour of an unknown node is 0.\<close>

fun get_colors :: "qenv \<Rightarrow> string \<Rightarrow> bool \<Rightarrow> int list \<Rightarrow> qos \<Rightarrow> (int list \<times> qos) res" where
  "get_colors Q keyword setup [] st = Inr ([], st)"
| "get_colors Q keyword setup (n # ns) st =
     ebind (tab_get Q Ostate (keyword @ ''-'' @ to_string n) setup st) (\<lambda>(s, st).
     ebind (stoi (if s = [] then ''0'' else s)) (\<lambda>color.
     ebind (get_colors Q keyword setup ns st) (\<lambda>(cs, st). Inr (color # cs, st))))"

text \<open>\<open>finalNodesColor\<close>: from the leaf upwards, 2 while all siblings have colour 2.\<close>

fun final_colors :: "int \<Rightarrow> int list \<Rightarrow> nat \<Rightarrow> int list" where
  "final_colors prev sibs 0 = []"
| "final_colors prev sibs (Suc n) =
     (let c = (if prev = 2 \<and> hd sibs = 2 then 2 else 0) in c # final_colors c (tl sibs) n)"

text \<open>The topmost node whose colour becomes 2; the lists run from the leaf to the root.\<close>

definition node_to_color :: "int list \<Rightarrow> int list \<Rightarrow> int list \<Rightarrow> int option" where
  "node_to_color treeNodes nodesColor finalColor =
     map_option (\<lambda>(n, c, f). n)
       (find (\<lambda>(n, c, f). f \<noteq> c \<and> f = 2) (rev (zip treeNodes (zip nodesColor finalColor))))"

definition Qos_remove :: "qenv \<Rightarrow> string \<Rightarrow> int \<Rightarrow> bool \<Rightarrow> qos \<Rightarrow> qos res" where
  "Qos_remove Q keyword ident setup st =
     ebind (getBid 16 keyword) (\<lambda>key. ebind (tab_get Q Ocnt keyword setup st) (\<lambda>(result, st).
     ebind (split_or_error result) (\<lambda>parts. ebind (nth_or_error parts 0) (\<lambda>p. ebind (stoi p) (\<lambda>src_cnt.
     ebind (tab_get Q Odel (keyword @ ''-'' @ to_string ident) setup st) (\<lambda>(posStr, st).
     ebind (stoi posStr) (\<lambda>pos.
     let treeNodes = map (getNodeOnPath (qc_height st) pos) (rev [1..<Suc (qc_height st)]);
         siblings = concat (map sibling_of treeNodes) in
     ebind (get_colors Q keyword setup treeNodes st) (\<lambda>(nodesColor, st).
     ebind (get_colors Q keyword setup siblings st) (\<lambda>(siblingsColor, st).
     let finalColor = 2 # final_colors 2 siblingsColor (length nodesColor - 1) in
     case node_to_color treeNodes nodesColor finalColor of
       Some n \<Rightarrow>
         ebind (tab_put Q Ostate (keyword @ ''-'' @ to_string n) (to_string 2) setup st) (\<lambda>st.
         ebind (delete_entry Q keyword src_cnt n) (\<lambda>(k, v).
         Inr (st\<lparr>qc_server := insertInDstate k v (qc_server st)\<rparr>)))
     | None \<Rightarrow>
         ebind (encode0 (q_enc Q) (q_stack Q) (replicate 16 0) (''dum'' @ to_string (q_rand Q (qc_rnd st)))) (\<lambda>k.
         ebind (encode0 (q_enc Q) (q_stack Q) (replicate 16 0) (''dm'' @ to_string (q_rand Q (qc_rnd st + 1)))) (\<lambda>v.
         Inr (st\<lparr>qc_server := insertInDstate k v (qc_server st), qc_rnd := qc_rnd st + 2\<rparr>))))))))))))"

text \<open>The identifiers of the ciphers found, and their re-encryption under the next search count.\<close>

fun decode_ids :: "qenv \<Rightarrow> (int \<times> bytes) list \<Rightarrow> int list res" where
  "decode_ids Q [] = Inr []"
| "decode_ids Q ((i, c) # cs) =
     ebind (decode_bytes (q_dec Q) (q_stack Q) (Some secretKey) c) (\<lambda>p.
     ebind (decode_ids Q cs) (\<lambda>ids. Inr (get_int (AES_KEY_SIZE - 5) p # ids)))"

fun new_entries :: "qenv \<Rightarrow> string \<Rightarrow> int \<Rightarrow> (int \<times> int) list \<Rightarrow> (bytes \<times> bytes) list res" where
  "new_entries Q keyword src_cnt [] = Inr []"
| "new_entries Q keyword src_cnt ((n, ident) # ps) =
     ebind (index_entry Q keyword src_cnt n ident) (\<lambda>e.
     ebind (new_entries Q keyword src_cnt ps) (\<lambda>es. Inr (e # es)))"

fun new_deletes :: "qenv \<Rightarrow> string \<Rightarrow> int \<Rightarrow> int list \<Rightarrow> (bytes \<times> bytes) list res" where
  "new_deletes Q keyword src_cnt [] = Inr []"
| "new_deletes Q keyword src_cnt (n # ns) =
     ebind (delete_entry Q keyword src_cnt n) (\<lambda>e.
     ebind (new_deletes Q keyword src_cnt ns) (\<lambda>es. Inr (e # es)))"

definition Qos_search :: "qenv \<Rightarrow> string \<Rightarrow> qos \<Rightarrow> (int list \<times> qos) res" where
  "Qos_search Q keyword st =
     ebind (getBid 16 keyword) (\<lambda>key.
     ebind (if qc_localStorage st then tab_get Q Ocnt keyword False st
            else ebind (qos_OMAP_incrementSrcCnt (q_E Q) (q_fuel Q) key (t_omap (qc_tab st Ocnt))) (\<lambda>(s, m).
              Inr (s, st\<lparr>qc_tab := (qc_tab st)(Ocnt := (qc_tab st Ocnt)\<lparr>t_omap := m\<rparr>)\<rparr>))) (\<lambda>(result, st).
     ebind (parse_pair result) (\<lambda>(src_cnt, a_w).
     ebind (kw_block keyword) (\<lambda>k_w.
     let phi = snd (qos_getAESRandomValue Q k_w src_cnt) in
     ebind (Qos_Server_search Q (bitwiseXOR IKey phi) (bitwiseXOR DKey phi) a_w (qc_server st)) (\<lambda>(ciphers, deletes, srv).
     ebind (decode_ids Q ciphers) (\<lambda>finalRes.
     ebind (if qc_localStorage st then tab_put Q Ocnt keyword (show_pair (src_cnt + 1) a_w) False st else Inr st) (\<lambda>st.
     ebind (new_entries Q keyword (src_cnt + 1) (zip (map fst ciphers) finalRes)) (\<lambda>es.
     ebind (new_deletes Q keyword (src_cnt + 1) deletes) (\<lambda>ds.
     Inr (finalRes, st\<lparr>qc_server := Qos_Server_insert_all es ds srv\<rparr>))))))))))"

definition setup_tab :: "qenv \<Rightarrow> tab \<Rightarrow> qos \<Rightarrow> qos res" where
  "setup_tab Q t st =
     ebind (OMAP_setupInsert (q_E Q) (t_setup (qc_tab st t)) (t_omap (qc_tab st t))) (\<lambda>m.
     Inr (st\<lparr>qc_tab := (qc_tab st)(t := (qc_tab st t)\<lparr>t_omap := m\<rparr>)\<rparr>))"

definition test_tab :: "qenv \<Rightarrow> tab \<Rightarrow> qos \<Rightarrow> qos res" where
  "test_tab Q t st =
     ebind (test_inserts (q_E Q) (q_fuel Q) 1000 (t_omap (qc_tab st t))) (\<lambda>m.
     Inr (st\<lparr>qc_tab := (qc_tab st)(t := (qc_tab st t)\<lparr>t_omap := m\<rparr>)\<rparr>))"

definition Qos_endSetup :: "qenv \<Rightarrow> qos \<Rightarrow> qos res" where
  "Qos_endSetup Q st =
     ebind (setup_tab Q Ocnt st) (\<lambda>st. ebind (setup_tab Q Odel st) (\<lambda>st.
     ebind (test_tab Q Ocnt st) (\<lambda>st. ebind (test_tab Q Odel st) (\<lambda>st.
     ebind (setup_tab Q Ostate st) (test_tab Q Ostate)))))"

end
