(* ===== verification/Qos_Tree.thy ===== *)
theory Qos_Tree
  imports Qos Oram_Inv
begin

text \<open>
  The tree of the QOS scheme: the covering set contains every leaf \<open>0..a_w\<close> exactly once, the
  recursive search returns exactly the leaves without a coloured ancestor, and the colouring of a
  removal covers exactly one more leaf.
\<close>

section \<open>Nodes and leaves\<close>

definition qleaf :: "nat \<Rightarrow> int \<Rightarrow> bool" where
  "qleaf h l \<longleftrightarrow> 0 \<le> l \<and> l < 2 ^ (h - 1)"

definition above :: "nat \<Rightarrow> int \<Rightarrow> int \<Rightarrow> bool" where
  "above h x l \<longleftrightarrow> (\<exists>d\<in>{1..h}. getNodeOnPath h l d = x)"

lemma getNodeOnPath_eq:
  assumes "1 \<le> h" "0 \<le> l"
  shows "getNodeOnPath h l d = (l + 2 ^ (h - 1)) div 2 ^ (h - d) - 1"
proof -
  obtain g where g: "h = Suc g" using assms(1) by (cases h) auto
  have q: "((2::int) ^ h - 1) div 2 = 2 ^ g - 1" using g by simp
  have "- 1 \<le> l + ((2::int) ^ g - 1)" using assms(2) by simp
  then have "up_path n (l + ((2::int) ^ g - 1)) = (l + ((2::int) ^ g - 1) + 1) div 2 ^ n - 1" for n
    by (rule up_path_eq)
  moreover have "l + ((2::int) ^ g - 1) + 1 = l + 2 ^ g" by simp
  ultimately show ?thesis unfolding getNodeOnPath_def q by (simp add: g)
qed

lemma above_iff:
  assumes "1 \<le> h" "0 \<le> l"
  shows "above h x l \<longleftrightarrow> (\<exists>j<h. (l + 2 ^ (h - 1)) div 2 ^ j - 1 = x)"
proof
  assume "above h x l"
  then obtain d where "d \<in> {1..h}" "getNodeOnPath h l d = x" by (auto simp: above_def)
  then show "\<exists>j<h. (l + 2 ^ (h - 1)) div 2 ^ j - 1 = x"
    using getNodeOnPath_eq [OF assms] by (intro exI [of _ "h - d"]) auto
next
  assume "\<exists>j<h. (l + 2 ^ (h - 1)) div 2 ^ j - 1 = x"
  then obtain j where "j < h" "(l + 2 ^ (h - 1)) div 2 ^ j - 1 = x" by blast
  then have "h - j \<in> {1..h}" "getNodeOnPath h l (h - j) = x" using getNodeOnPath_eq [OF assms] by auto
  then show "above h x l" by (auto simp: above_def)
qed

lemma int_div_less_pow: "(l::int) < m * 2 ^ j \<Longrightarrow> l div 2 ^ j < m"
proof (rule ccontr)
  assume "l < m * 2 ^ j" "\<not> l div 2 ^ j < m"
  then have "m * 2 ^ j \<le> l div 2 ^ j * 2 ^ j" by (intro mult_right_mono) auto
  moreover have "l div 2 ^ j * 2 ^ j \<le> l" by (simp add: minus_mod_eq_div_mult [symmetric])
  ultimately show False using \<open>l < m * 2 ^ j\<close> by linarith
qed

lemma div_pow_range:
  fixes l :: int
  assumes "0 \<le> l" "l < 2 ^ n" "j \<le> n"
  shows "2 ^ (n - j) \<le> (l + 2 ^ n) div 2 ^ j" "(l + 2 ^ n) div 2 ^ j < 2 * 2 ^ (n - j)"
    "(l + 2 ^ n) div 2 ^ j = l div 2 ^ j + 2 ^ (n - j)"
proof -
  have p: "(2::int) ^ n = 2 ^ (n - j) * 2 ^ j" using assms(3) by (simp flip: power_add)
  then show e: "(l + 2 ^ n) div 2 ^ j = l div 2 ^ j + 2 ^ (n - j)" by simp
  have "0 \<le> l div 2 ^ j" using assms(1) by (simp add: pos_imp_zdiv_nonneg_iff)
  then show "2 ^ (n - j) \<le> (l + 2 ^ n) div 2 ^ j" using e by simp
  have "l < 2 ^ (n - j) * 2 ^ j" using assms(2) p by simp
  then have "l div 2 ^ j < 2 ^ (n - j)" by (simp add: int_div_less_pow)
  then show "(l + 2 ^ n) div 2 ^ j < 2 * 2 ^ (n - j)" using e by simp
qed

text \<open>The node of a dyadic interval is above exactly the leaves of the interval.\<close>

lemma above_dyadic:
  assumes h: "1 \<le> h" and l: "qleaf h l" and k: "k \<le> h - 1" and m: "0 \<le> m" "m < 2 ^ (h - 1 - k)"
  shows "above h (m + 2 ^ (h - 1 - k) - 1) l \<longleftrightarrow> l div 2 ^ k = m"
proof -
  let ?n = "h - 1"
  have l': "0 \<le> l" "l < 2 ^ ?n" using l by (auto simp: qleaf_def)
  have "j = k" if j: "j \<le> ?n" "(l + 2 ^ ?n) div 2 ^ j = m + 2 ^ (?n - k)" for j
  proof (rule ccontr)
    assume "j \<noteq> k"
    then consider "?n - j + 1 \<le> ?n - k" | "?n - k + 1 \<le> ?n - j" using j(1) k by linarith
    then show False
    proof cases
      case 1
      then have "(2::int) ^ (?n - j + 1) \<le> 2 ^ (?n - k)" by (rule power_increasing) simp
      then show False using div_pow_range(2) [OF l' j(1)] j(2) m by simp
    next
      case 2
      then have "(2::int) ^ (?n - k + 1) \<le> 2 ^ (?n - j)" by (rule power_increasing) simp
      then show False using div_pow_range(1) [OF l' j(1)] j(2) m by simp
    qed
  qed
  moreover have "(l + 2 ^ ?n) div 2 ^ k = l div 2 ^ k + 2 ^ (?n - k)" using div_pow_range(3) [OF l' k] .
  moreover have "above h (m + 2 ^ (?n - k) - 1) l \<longleftrightarrow> (\<exists>j\<le>?n. (l + 2 ^ ?n) div 2 ^ j = m + 2 ^ (?n - k))"
  proof -
    have "j < h \<longleftrightarrow> j \<le> ?n" for j using h by auto
    then show ?thesis using above_iff [OF h l'(1)] by (simp add: algebra_simps)
  qed
  ultimately show ?thesis using k by (metis add_right_cancel)
qed

lemma ilog2_bounds: "0 < n \<Longrightarrow> 2 ^ ilog2 n \<le> n \<and> n < 2 * 2 ^ ilog2 n"
proof (induction n rule: ilog2.induct)
  case (1 n)
  then show ?case by (cases "n \<le> 1") (simp_all add: ilog2.simps [of n], linarith)
qed

lemma log2_floor_bounds: "0 < a \<Longrightarrow> 2 ^ log2_floor a \<le> a \<and> a < 2 * 2 ^ log2_floor a"
proof -
  assume a: "0 < a"
  then have "2 ^ ilog2 (nat a) \<le> nat a \<and> nat a < 2 * 2 ^ ilog2 (nat a)" by (intro ilog2_bounds) simp
  then have "int (2 ^ ilog2 (nat a)) \<le> int (nat a) \<and> int (nat a) < int (2 * 2 ^ ilog2 (nat a))" by linarith
  then show ?thesis using a by (simp add: log2_floor_def)
qed

section \<open>The covering set\<close>

lemma findCoveringSet_step:
  assumes "0 \<le> a" "log2_floor (a + 1) < h"
  shows "findCoveringSet h a t =
     getNodeOnPath h (2 ^ log2_floor (a + 1) - 1 + t) (h - log2_floor (a + 1)) #
     findCoveringSet h (a - 2 ^ log2_floor (a + 1)) (t + 2 ^ log2_floor (a + 1))"
proof -
  have "log2_floor 1 = 0" by (simp add: log2_floor_def ilog2.simps)
  then show ?thesis using assms by (subst findCoveringSet.simps) (auto simp: Let_def add.commute Suc_diff_Suc)
qed

text \<open>The first node is the one of the largest dyadic interval that starts at \<open>t\<close>.\<close>

lemma findCoveringSet_Cons:
  assumes h: "1 \<le> h" and t: "0 \<le> t" and a: "0 \<le> a" and ta: "t + a < 2 ^ (h - 1)"
    and K: "a + 1 \<le> 2 ^ K" "2 ^ K dvd t"
  obtains k m where "k = log2_floor (a + 1)" "k \<le> K" "k \<le> h - 1" "2 ^ k \<le> a + 1" "a + 1 < 2 * 2 ^ k"
    "2 ^ k dvd t" "t = 2 ^ k * m" "0 \<le> m" "m < 2 ^ (h - 1 - k)"
    "findCoveringSet h a t = (m + 2 ^ (h - 1 - k) - 1) # findCoveringSet h (a - 2 ^ k) (t + 2 ^ k)"
proof -
  let ?k = "log2_floor (a + 1)"
  have b: "2 ^ ?k \<le> a + 1" "a + 1 < 2 * 2 ^ ?k" using log2_floor_bounds [of "a + 1"] a by auto
  have kK: "?k \<le> K"
  proof (rule ccontr)
    assume "\<not> ?k \<le> K"
    then have "(2::int) ^ (K + 1) \<le> 2 ^ ?k" by (intro power_increasing) auto
    moreover have "(2::int) ^ K < 2 ^ (K + 1)" by simp
    ultimately show False using b(1) K(1) by linarith
  qed
  then have "(2::int) ^ ?k dvd 2 ^ K" by (rule le_imp_power_dvd)
  then have dvd: "2 ^ ?k dvd t" using K(2) dvd_trans by blast
  then obtain m where m: "t = 2 ^ ?k * m" by (elim dvdE)
  have pos: "(0::int) < 2 ^ ?k" by simp
  have kh: "?k \<le> h - 1"
  proof (rule ccontr)
    assume "\<not> ?k \<le> h - 1"
    then have "(2::int) ^ (h - 1) < 2 ^ ?k" by (intro power_strict_increasing) auto
    then show False using b(1) t ta by linarith
  qed
  have m0: "0 \<le> m" using m t pos by (simp add: zero_le_mult_iff)
  have ph: "(2::int) ^ (h - 1) = 2 ^ (h - 1 - ?k) * 2 ^ ?k" using kh by (simp flip: power_add)
  have "t < 2 ^ (h - 1)" using ta a by linarith
  then have "2 ^ ?k * m < 2 ^ ?k * 2 ^ (h - 1 - ?k)" unfolding m ph by (simp only: mult.commute)
  then have m1: "m < 2 ^ (h - 1 - ?k)" using mult_less_cancel_left_pos [OF pos] by blast
  have k': "?k < h" using kh h by linarith
  have idx: "getNodeOnPath h (2 ^ ?k - 1 + t) (h - ?k) = m + 2 ^ (h - 1 - ?k) - 1"
  proof -
    have "0 \<le> 2 ^ ?k - 1 + t" using t pos by linarith
    moreover have "h - (h - ?k) = ?k" using kh h by simp
    moreover have "(2 ^ ?k - 1 + t + 2 ^ (h - 1)) div 2 ^ ?k = (2 ^ ?k - 1 + (m + 2 ^ (h - 1 - ?k)) * 2 ^ ?k) div 2 ^ ?k"
      using m ph by (simp add: algebra_simps)
    ultimately show ?thesis using getNodeOnPath_eq [OF h] by simp
  qed
  show ?thesis
    by (rule that [OF refl kK kh b dvd m m0 m1]) (simp only: findCoveringSet_step [OF a k'] idx)
qed

lemma findCoveringSet_counts:
  assumes h: "1 \<le> h" and l: "qleaf h l"
  shows "0 \<le> t \<Longrightarrow> - 1 \<le> a \<Longrightarrow> t + a < 2 ^ (h - 1) \<Longrightarrow> a + 1 \<le> 2 ^ K \<Longrightarrow> 2 ^ K dvd t \<Longrightarrow>
    length (filter (\<lambda>x. above h x l) (findCoveringSet h a t)) = (if t \<le> l \<and> l \<le> t + a then 1 else 0)"
proof (induction "nat (a + 1)" arbitrary: a t K rule: less_induct)
  case less
  show ?case
  proof (cases "a < 0")
    case False
    then have a: "0 \<le> a" by simp
    obtain k m where k: "k \<le> h - 1" "2 ^ k \<le> a + 1" "a + 1 < 2 * 2 ^ k" "2 ^ k dvd t"
      and m: "t = 2 ^ k * m" "0 \<le> m" "m < 2 ^ (h - 1 - k)"
      and eq: "findCoveringSet h a t = (m + 2 ^ (h - 1 - k) - 1) # findCoveringSet h (a - 2 ^ k) (t + 2 ^ k)"
      using findCoveringSet_Cons [OF h less.prems(1) a less.prems(3-5)] by metis
    have pos: "(0::int) < 2 ^ k" by simp
    have "l div 2 ^ k = m \<longleftrightarrow> 2 ^ k * m \<le> l \<and> l < 2 ^ k * m + 2 ^ k"
    proof
      assume d: "l div 2 ^ k = m"
      have "l = 2 ^ k * m + l mod 2 ^ k" using d by (metis mult_div_mod_eq)
      then show "2 ^ k * m \<le> l \<and> l < 2 ^ k * m + 2 ^ k"
        using pos_mod_sign [OF pos, of l] pos_mod_bound [OF pos, of l] by linarith
    next
      assume "2 ^ k * m \<le> l \<and> l < 2 ^ k * m + 2 ^ k"
      then show "l div 2 ^ k = m" by (intro int_div_pos_eq [of _ _ _ "l - 2 ^ k * m"]) auto
    qed
    then have ab: "above h (m + 2 ^ (h - 1 - k) - 1) l \<longleftrightarrow> t \<le> l \<and> l < t + 2 ^ k"
      using above_dyadic [OF h l k(1) m(2,3)] m(1) by simp
    have "length (filter (\<lambda>x. above h x l) (findCoveringSet h (a - 2 ^ k) (t + 2 ^ k))) =
        (if t + 2 ^ k \<le> l \<and> l \<le> (t + 2 ^ k) + (a - 2 ^ k) then 1 else 0)"
      by (rule less.hyps [of _ _ k]) (use a k pos less.prems in \<open>auto simp: nat_less_iff\<close>)
    then show ?thesis unfolding eq using ab k pos by (auto split: if_splits)
  qed (simp add: findCoveringSet.simps)
qed

lemma findCoveringSet_valid:
  assumes h: "1 \<le> h"
  shows "0 \<le> t \<Longrightarrow> t + a < 2 ^ (h - 1) \<Longrightarrow> a + 1 \<le> 2 ^ K \<Longrightarrow> 2 ^ K dvd t \<Longrightarrow>
    x \<in> set (findCoveringSet h a t) \<Longrightarrow> 0 \<le> x \<and> x + 1 < 2 ^ h"
proof (induction "nat (a + 1)" arbitrary: a t K rule: less_induct)
  case less
  show ?case
  proof (cases "a < 0")
    case False
    then have a: "0 \<le> a" by simp
    obtain k m where k: "k \<le> h - 1" "2 ^ k \<le> a + 1" "a + 1 < 2 * 2 ^ k" "2 ^ k dvd t"
      and m: "t = 2 ^ k * m" "0 \<le> m" "m < 2 ^ (h - 1 - k)"
      and eq: "findCoveringSet h a t = (m + 2 ^ (h - 1 - k) - 1) # findCoveringSet h (a - 2 ^ k) (t + 2 ^ k)"
      using findCoveringSet_Cons [OF h less.prems(1) a less.prems(2-4)] by metis
    have "(2::int) ^ (h - 1 - k + 1) \<le> 2 ^ h" using h by (intro power_increasing) auto
    then have "m + 2 ^ (h - 1 - k) < 2 ^ h" using m(3) by simp
    moreover have "0 < m + 2 ^ (h - 1 - k)" using m(2) by (intro add_nonneg_pos) simp_all
    moreover have "0 \<le> x \<and> x + 1 < 2 ^ h" if "x \<in> set (findCoveringSet h (a - 2 ^ k) (t + 2 ^ k))"
    proof (rule less.hyps [of _ _ k])
      show "nat (a - 2 ^ k + 1) < nat (a + 1)" using a by simp
    qed (use a k that less.prems in auto)
    ultimately show ?thesis using less.prems(5) m(2) unfolding eq by auto
  qed (use less.prems in \<open>simp add: findCoveringSet.simps\<close>)
qed

text \<open>
  The covering set is maximal: the parent of a node of the covering set is also above the first
  leaf that is not covered.
\<close>

lemma findCoveringSet_parent:
  assumes h: "1 \<le> h"
  shows "0 \<le> t \<Longrightarrow> t + a + 1 < 2 ^ (h - 1) \<Longrightarrow> a + 1 < 2 ^ K \<Longrightarrow> 2 ^ K dvd t \<Longrightarrow>
    x \<in> set (findCoveringSet h a t) \<Longrightarrow> 0 < x \<and> above h ((x - 1) div 2) (t + a + 1)"
proof (induction "nat (a + 1)" arbitrary: a t K rule: less_induct)
  case less
  show ?case
  proof (cases "a < 0")
    case False
    then have a: "0 \<le> a" by simp
    have ta: "t + a < 2 ^ (h - 1)" "a + 1 \<le> 2 ^ K" using less.prems by auto
    obtain k m where k: "k \<le> K" "k \<le> h - 1" "2 ^ k \<le> a + 1" "a + 1 < 2 * 2 ^ k" "2 ^ k dvd t"
      and m: "t = 2 ^ k * m" "0 \<le> m" "m < 2 ^ (h - 1 - k)"
      and eq: "findCoveringSet h a t = (m + 2 ^ (h - 1 - k) - 1) # findCoveringSet h (a - 2 ^ k) (t + 2 ^ k)"
      using findCoveringSet_Cons [OF h less.prems(1) a ta less.prems(4)] by metis
    have "k \<noteq> K" using k(3) less.prems(3) by auto
    then have "(2::int) ^ (k + 1) dvd 2 ^ K" using k(1) by (intro le_imp_power_dvd) simp
    then have "2 ^ (k + 1) dvd t" using less.prems(4) dvd_trans by blast
    then have "even m" using m(1) by (simp add: mult.commute [of 2])
    then obtain q where q: "m = 2 * q" by (elim evenE)
    have kh: "k < h - 1"
    proof (rule ccontr)
      assume "\<not> k < h - 1"
      then have "k = h - 1" using k(2) by simp
      then show False using k(3) less.prems(1,2) by simp
    qed
    let ?e = "h - 1 - (k + 1)"
    have e: "(2::int) ^ (h - 1 - k) = 2 * 2 ^ ?e" using kh by (simp flip: power_Suc add: Suc_diff_Suc)
    have x: "m + 2 ^ (h - 1 - k) - 1 = 2 * (q + 2 ^ ?e - 1) + 1" using q e by simp
    have q2: "0 \<le> q" "q < 2 ^ ?e" using m(2,3) q e by simp_all
    have "(t + a + 1) div 2 ^ (k + 1) = q"
    proof (rule int_div_pos_eq [of _ _ _ "a + 1"])
      show "t + a + 1 = 2 ^ (k + 1) * q + (a + 1)" using m(1) q by simp
    qed (use a k in simp_all)
    moreover have "qleaf h (t + a + 1)" using less.prems(1,2) a by (simp add: qleaf_def)
    ultimately have "above h (q + 2 ^ ?e - 1) (t + a + 1)"
      using above_dyadic [OF h _ _ q2(1), of "t + a + 1" "k + 1"] q2(2) kh by simp
    moreover have "0 < x \<and> above h ((x - 1) div 2) ((t + 2 ^ k) + (a - 2 ^ k) + 1)"
      if "x \<in> set (findCoveringSet h (a - 2 ^ k) (t + 2 ^ k))"
    proof (rule less.hyps [of _ _ k])
      show "nat (a - 2 ^ k + 1) < nat (a + 1)" using a by simp
    qed (use a k that less.prems in auto)
    moreover have "0 < q + 2 ^ ?e" using q2(1) by (intro add_nonneg_pos) simp_all
    ultimately show ?thesis using less.prems(5) q2(1) unfolding eq x by auto
  qed (use less.prems in \<open>simp add: findCoveringSet.simps\<close>)
qed

section \<open>Subtrees\<close>

text \<open>Node \<open>y\<close> lies in the subtree of \<open>x\<close>; \<open>lf h p\<close> is the node of leaf \<open>p\<close>.\<close>

definition subnode :: "nat \<Rightarrow> nat \<Rightarrow> bool" where
  "subnode x y \<longleftrightarrow> (\<exists>j. (y + 1) div 2 ^ j = x + 1)"

definition lf :: "nat \<Rightarrow> nat \<Rightarrow> nat" where
  "lf h p = p + 2 ^ (h - 1) - 1"

lemma subnode_refl [simp]: "subnode x x"
  unfolding subnode_def by (rule exI [of _ 0]) simp

lemma subnode_le: "subnode x y \<Longrightarrow> x \<le> y"
  unfolding subnode_def by (metis add_le_cancel_right div_le_dividend)

lemma subnode_trans: "subnode x y \<Longrightarrow> subnode y z \<Longrightarrow> subnode x z"
proof -
  assume "subnode x y" "subnode y z"
  then obtain i j where "(y + 1) div 2 ^ i = x + 1" "(z + 1) div 2 ^ j = y + 1" by (auto simp: subnode_def)
  then have "(z + 1) div 2 ^ (j + i) = x + 1" by (simp add: power_add div_mult2_eq)
  then show ?thesis unfolding subnode_def by blast
qed

lemma subnode_chain: "subnode x z \<Longrightarrow> subnode y z \<Longrightarrow> subnode x y \<or> subnode y x"
proof -
  assume "subnode x z" "subnode y z"
  then obtain i j where ij: "(z + 1) div 2 ^ i = x + 1" "(z + 1) div 2 ^ j = y + 1" by (auto simp: subnode_def)
  have *: "subnode u v" if "(z + 1) div 2 ^ a = u + 1" "(z + 1) div 2 ^ b = v + 1" "b \<le> a" for a b u v
  proof -
    have "(v + 1) div 2 ^ (a - b) = u + 1"
      using that by (metis div_mult2_eq le_add_diff_inverse power_add)
    then show ?thesis unfolding subnode_def by blast
  qed
  show ?thesis using * [OF ij] * [OF ij(2,1)] by (meson nat_le_linear)
qed

lemma subnode_unfold: "subnode x y \<longleftrightarrow> y = x \<or> subnode (2 * x + 1) y \<or> subnode (2 * x + 2) y"
proof
  assume "subnode x y"
  then obtain j where j: "(y + 1) div 2 ^ j = x + 1" by (auto simp: subnode_def)
  show "y = x \<or> subnode (2 * x + 1) y \<or> subnode (2 * x + 2) y"
  proof (cases j)
    case (Suc i)
    then have "(y + 1) div 2 ^ i div 2 = x + 1" using j by (simp add: div_mult2_eq mult.commute [of 2])
    then have "(y + 1) div 2 ^ i = 2 * x + 1 + 1 \<or> (y + 1) div 2 ^ i = 2 * x + 2 + 1" by linarith
    then show ?thesis unfolding subnode_def by blast
  qed (use j in simp)
next
  have "subnode x (2 * x + 1)" "subnode x (2 * x + 2)"
    unfolding subnode_def by (rule exI [of _ 1], simp)+
  then show "y = x \<or> subnode (2 * x + 1) y \<or> subnode (2 * x + 2) y \<Longrightarrow> subnode x y"
    using subnode_trans by auto
qed

lemma subnode_children_disjoint: "subnode (2 * x + 1) y \<Longrightarrow> \<not> subnode (2 * x + 2) y"
proof
  assume "subnode (2 * x + 1) y" "subnode (2 * x + 2) y"
  then have "subnode (2 * x + 1) (2 * x + 2) \<or> subnode (2 * x + 2) (2 * x + 1)" by (rule subnode_chain)
  then have s: "subnode (2 * x + 1) (2 * x + 2)" using subnode_le by fastforce
  then obtain j where j: "(2 * x + 3) div 2 ^ j = 2 * x + 2" unfolding subnode_def by (auto simp: numeral_3_eq_3)
  then show False
  proof (cases j)
    case (Suc i)
    have "(2 * x + 3) div 2 ^ j \<le> (2 * x + 3) div 2" using Suc by (intro div_le_mono2) auto
    then show False using j by linarith
  qed simp
qed

lemma subnode_deep: "2 ^ (h - 1) - 1 \<le> x \<Longrightarrow> subnode x y \<Longrightarrow> y + 1 < 2 ^ h \<Longrightarrow> 1 \<le> h \<Longrightarrow> y = x"
proof -
  assume a: "2 ^ (h - 1) - 1 \<le> x" "subnode x y" "y + 1 < 2 ^ h" "1 \<le> h"
  have "(2::nat) ^ h = 2 * 2 ^ (h - 1)" using a(4) by (cases h) auto
  then have "y < 2 * x + 1" using a(1,3) by linarith
  then show ?thesis using a(2) subnode_unfold [of x y] subnode_le by fastforce
qed

lemma above_subnode:
  assumes "1 \<le> h" "p < 2 ^ (h - 1)"
  shows "above h (int x) (int p) \<longleftrightarrow> subnode x (lf h p)"
proof -
  have e: "(int p + 2 ^ (h - 1)) div 2 ^ j = int ((lf h p + 1) div 2 ^ j)" for j
    by (simp add: lf_def zdiv_int)
  have "lf h p + 1 < 2 ^ h" using assms by (cases h) (auto simp: lf_def)
  then have "(lf h p + 1) div 2 ^ j = 0" if "h \<le> j" for j
    using that by (intro div_less) (meson le_less_trans less_le_trans one_le_numeral power_increasing)
  then have "(lf h p + 1) div 2 ^ j = x + 1 \<Longrightarrow> j < h" for j by (metis Suc_eq_plus1 nat.distinct(1) not_le)
  moreover have "int ((lf h p + 1) div 2 ^ j) - 1 = int x \<longleftrightarrow> (lf h p + 1) div 2 ^ j = x + 1" for j by linarith
  ultimately show ?thesis
    using above_iff [of h "int p" "int x"] assms(1) unfolding e subnode_def by (metis of_nat_0_le_iff)
qed

section \<open>The recursive search\<close>

text \<open>The walk of \<open>recursiveSearch\<close> over a set of coloured nodes.\<close>

function walk :: "nat \<Rightarrow> (nat \<Rightarrow> bool) \<Rightarrow> nat \<Rightarrow> nat list \<times> nat list" where
  "walk h B x =
     (if B x then ([], [x])
      else if 2 ^ (h - 1) - 1 \<le> x then ([x], [])
      else (fst (walk h B (2 * x + 1)) @ fst (walk h B (2 * x + 2)),
            snd (walk h B (2 * x + 1)) @ snd (walk h B (2 * x + 2))))"
  by pat_completeness auto
termination
  by (relation "measure (\<lambda>(h, B, x). 2 ^ (h - 1) - 1 - x)") auto

declare walk.simps [simp del]

lemma tree_induct [case_names node]:
  assumes "\<And>x::nat. (\<not> 2 ^ (h - 1) - 1 \<le> x \<Longrightarrow> P (2 * x + 1)) \<Longrightarrow> (\<not> 2 ^ (h - 1) - 1 \<le> x \<Longrightarrow> P (2 * x + 2)) \<Longrightarrow> P x"
  shows "P x"
proof (induction "2 ^ (h - 1) - 1 - x" arbitrary: x rule: less_induct)
  case less
  show ?case by (rule assms; rule less) auto
qed

lemma child_valid:
  assumes "1 \<le> h" "\<not> 2 ^ (h - 1) - 1 \<le> (x::nat)"
  shows "2 * x + 1 + 1 < 2 ^ h" "2 * x + 2 + 1 < 2 ^ h"
  using assms by (cases h; simp)+

lemma walk_found:
  "1 \<le> h \<Longrightarrow> x + 1 < 2 ^ h \<Longrightarrow> y + 1 < 2 ^ h \<Longrightarrow> 2 ^ (h - 1) - 1 \<le> y \<Longrightarrow>
    y \<in> set (fst (walk h B x)) \<longleftrightarrow> subnode x y \<and> (\<forall>z. subnode x z \<and> subnode z y \<longrightarrow> \<not> B z)"
proof (induction x rule: tree_induct [of h])
  case (node x)
  consider "B x" | "\<not> B x" "2 ^ (h - 1) - 1 \<le> x" | "\<not> B x" "\<not> 2 ^ (h - 1) - 1 \<le> x" by blast
  then show ?case
  proof cases
    case 1
    then show ?thesis unfolding walk.simps [of h B x] using subnode_refl by fastforce
  next
    case 2
    have "y = x" if "subnode x y" using subnode_deep [OF 2(2) that node(5,3)] .
    moreover have "z = x" if "subnode x z" "subnode z x" for z using that subnode_le by (meson le_antisym)
    ultimately show ?thesis unfolding walk.simps [of h B x] using 2 by auto
  next
    case 3
    note IH = node(1) [OF 3(2) node(3) child_valid(1) [OF node(3) 3(2)] node(5,6)] node(2) [OF 3(2) node(3) child_valid(2) [OF node(3) 3(2)] node(5,6)]
    have "x \<noteq> y" using 3(2) node(6) by blast
    then have s: "subnode x y \<longleftrightarrow> subnode (2 * x + 1) y \<or> subnode (2 * x + 2) y" using subnode_unfold [of x y] by blast
    have b: "(\<forall>z. subnode x z \<and> subnode z y \<longrightarrow> \<not> B z) \<longleftrightarrow>
        (\<forall>z. subnode (2 * x + 1) z \<and> subnode z y \<longrightarrow> \<not> B z) \<and> (\<forall>z. subnode (2 * x + 2) z \<and> subnode z y \<longrightarrow> \<not> B z)"
      using 3(1) by (auto simp: subnode_unfold [of x])
    have d: "\<not> (subnode (2 * x + 1) y \<and> (subnode (2 * x + 2) z \<and> subnode z y))"
      "\<not> (subnode (2 * x + 2) y \<and> (subnode (2 * x + 1) z \<and> subnode z y))" for z
      using subnode_children_disjoint [of x] subnode_trans by blast+
    have "y \<in> set (fst (walk h B x)) \<longleftrightarrow> y \<in> set (fst (walk h B (2 * x + 1))) \<or> y \<in> set (fst (walk h B (2 * x + 2)))"
      unfolding walk.simps [of h B x] using 3 by simp
    then show ?thesis unfolding IH s b using d by blast
  qed
qed

lemma walk_hits:
  "1 \<le> h \<Longrightarrow> x + 1 < 2 ^ h \<Longrightarrow> z \<in> set (snd (walk h B x)) \<Longrightarrow> subnode x z \<and> B z \<and> z + 1 < 2 ^ h"
proof (induction x rule: tree_induct [of h])
  case (node x)
  consider "B x" | "\<not> B x" "2 ^ (h - 1) - 1 \<le> x" | "\<not> B x" "\<not> 2 ^ (h - 1) - 1 \<le> x" by blast
  then show ?case
  proof cases
    case 3
    then have "z \<in> set (snd (walk h B (2 * x + 1))) \<or> z \<in> set (snd (walk h B (2 * x + 2)))"
      using node(5) unfolding walk.simps [of h B x] by simp
    then show ?thesis
      using node(1,2) [OF 3(2) node(3)] child_valid [OF node(3) 3(2)] subnode_unfold [of x z] by blast
  qed (use node(3-) walk.simps [of h B x] in auto)
qed

lemma walk_hits_cover:
  "1 \<le> h \<Longrightarrow> y + 1 < 2 ^ h \<Longrightarrow> 2 ^ (h - 1) - 1 \<le> y \<Longrightarrow> subnode x z \<Longrightarrow> subnode z y \<Longrightarrow> B z \<Longrightarrow>
    \<exists>u\<in>set (snd (walk h B x)). subnode u y"
proof (induction x rule: tree_induct [of h])
  case (node x)
  have xy: "subnode x y" using node(6,7) subnode_trans by blast
  consider "B x" | "\<not> B x" "2 ^ (h - 1) - 1 \<le> x" | "\<not> B x" "\<not> 2 ^ (h - 1) - 1 \<le> x" by blast
  then show ?case
  proof cases
    case 1
    then show ?thesis unfolding walk.simps [of h B x] using xy by simp
  next
    case 2
    have "y = x" using subnode_deep [OF 2(2) xy node(4,3)] .
    then have "z = x" using node(6,7) subnode_le by (meson le_antisym)
    then show ?thesis using 2 node(8) by blast
  next
    case 3
    have "z \<noteq> x" using 3(1) node(8) by blast
    then have "subnode (2 * x + 1) z \<or> subnode (2 * x + 2) z" using node(6) subnode_unfold [of x z] by blast
    then show ?thesis unfolding walk.simps [of h B x]
      using 3 node(1,2) [OF 3(2) node(3-5) _ node(7,8)] by auto
  qed
qed

text \<open>The server's search is this walk, whatever injective labels the nodes have.\<close>

lemma recursiveSearch_walk:
  assumes lab: "\<And>y. y + 1 < 2 ^ h \<Longrightarrow> node_label Q key (int y) = Inr (L y)"
    and inj: "inj_on L {y. y + 1 < 2 ^ h}"
  shows "1 \<le> h \<Longrightarrow> x + 1 < 2 ^ h \<Longrightarrow> (\<And>y. subnode x y \<Longrightarrow> y + 1 < 2 ^ h \<Longrightarrow> B y \<longleftrightarrow> map_of D (L y) \<noteq> None) \<Longrightarrow>
    \<exists>D'. recursiveSearch Q h key x r d D =
        Inr (r @ map int (fst (walk h B x)), d @ map int (snd (walk h B x)), D') \<and>
      map_of D' = (\<lambda>k. if k \<in> L ` set (snd (walk h B x)) then None else map_of D k)"
  using lab inj
proof (induction x arbitrary: r d D rule: tree_induct [of h])
  case (node x)
  note lab = node(6)
  have Lx: "node_label Q key (int x) = Inr (L x)" and Bx: "B x \<longleftrightarrow> map_of D (L x) \<noteq> None"
    using node(4,5,6) by auto
  consider "B x" | "\<not> B x" "2 ^ (h - 1) - 1 \<le> x" | "\<not> B x" "\<not> 2 ^ (h - 1) - 1 \<le> x" by blast
  then show ?case
  proof cases
    case 3
    note v = child_valid [OF node(3) 3(2)]
    have sub: "subnode (2 * x + 1) y \<or> subnode (2 * x + 2) y \<Longrightarrow> subnode x y" for y using subnode_unfold by blast
    obtain D1 where D1: "recursiveSearch Q h key (2 * x + 1) r d D =
        Inr (r @ map int (fst (walk h B (2 * x + 1))), d @ map int (snd (walk h B (2 * x + 1))), D1)"
      "map_of D1 = (\<lambda>k. if k \<in> L ` set (snd (walk h B (2 * x + 1))) then None else map_of D k)"
      using node(1) [OF 3(2) node(3) v(1) _ node(6,7), of D r d] node(5) sub by blast
    have "B y \<longleftrightarrow> map_of D1 (L y) \<noteq> None" if y: "subnode (2 * x + 2) y" "y + 1 < 2 ^ h" for y
    proof -
      have "L y \<notin> L ` set (snd (walk h B (2 * x + 1)))"
        using walk_hits [OF node(3) v(1)] inj_onD [OF node(7)] y subnode_children_disjoint by fastforce
      then show ?thesis using node(5) sub y D1(2) by simp
    qed
    then obtain D2 where D2: "recursiveSearch Q h key (2 * x + 2) (r @ map int (fst (walk h B (2 * x + 1)))) (d @ map int (snd (walk h B (2 * x + 1)))) D1 =
        Inr ((r @ map int (fst (walk h B (2 * x + 1)))) @ map int (fst (walk h B (2 * x + 2))),
             (d @ map int (snd (walk h B (2 * x + 1)))) @ map int (snd (walk h B (2 * x + 2))), D2)"
      "map_of D2 = (\<lambda>k. if k \<in> L ` set (snd (walk h B (2 * x + 2))) then None else map_of D1 k)"
      using node(2) [OF 3(2) node(3) v(2) _ node(6,7), of D1 "r @ map int (fst (walk h B (2 * x + 1)))" "d @ map int (snd (walk h B (2 * x + 1)))"] by blast
    have "recursiveSearch Q h key x r d D = recursiveSearch Q h key (2 * x + 2) (r @ map int (fst (walk h B (2 * x + 1)))) (d @ map int (snd (walk h B (2 * x + 1)))) D1"
      using 3 Bx Lx D1(1) by (subst recursiveSearch.simps) (simp add: mult.commute)
    moreover have "map_of D2 = (\<lambda>k. if k \<in> L ` set (snd (walk h B x)) then None else map_of D k)"
      unfolding walk.simps [of h B x] using 3 D1(2) D2(2) by (auto simp: fun_eq_iff image_Un)
    ultimately show ?thesis unfolding walk.simps [of h B x] using 3 D2(1) by auto
  qed (use Bx Lx in \<open>auto simp: recursiveSearch.simps [of Q h key x] walk.simps [of h B x] fun_eq_iff map_of_delete_apply\<close>)
qed

section \<open>A search over the covering set\<close>

lemma node_has_leaf: "1 \<le> h \<Longrightarrow> x + 1 < 2 ^ h \<Longrightarrow> \<exists>p<2 ^ (h - 1). subnode x (lf h p)"
proof (induction x rule: tree_induct [of h])
  case (node x)
  show ?case
  proof (cases "2 ^ (h - 1) - 1 \<le> x")
    case True
    have "(2::nat) ^ h = 2 * 2 ^ (h - 1)" using node(3) by (cases h) auto
    then have "x + 1 - 2 ^ (h - 1) < 2 ^ (h - 1)" "lf h (x + 1 - 2 ^ (h - 1)) = x"
      using True node(4) by (simp_all add: lf_def)
    then show ?thesis by (metis subnode_refl)
  next
    case False
    then show ?thesis using node(1) [OF False node(3) child_valid(1) [OF node(3) False]] subnode_unfold [of x] by blast
  qed
qed

lemma walk_search_nodes:
  assumes h: "1 \<le> h" and lab: "\<And>y. y + 1 < 2 ^ h \<Longrightarrow> node_label Q key (int y) = Inr (L y)"
    and inj: "inj_on L {y. y + 1 < 2 ^ h}"
  shows "\<forall>x\<in>set xs. x + 1 < 2 ^ h \<Longrightarrow> sorted_wrt (\<lambda>a b. \<forall>y. \<not> (subnode a y \<and> subnode b y)) xs \<Longrightarrow>
    (\<And>x y. x \<in> set xs \<Longrightarrow> subnode x y \<Longrightarrow> y + 1 < 2 ^ h \<Longrightarrow> B y \<longleftrightarrow> map_of D (L y) \<noteq> None) \<Longrightarrow>
    \<exists>D'. search_nodes Q h key (map int xs) r d D =
        Inr (r @ map int (concat (map (\<lambda>a. fst (walk h B a)) xs)), d @ map int (concat (map (\<lambda>a. snd (walk h B a)) xs)), D') \<and>
      map_of D' = (\<lambda>k. if k \<in> L ` set (concat (map (\<lambda>a. snd (walk h B a)) xs)) then None else map_of D k)"
proof (induction xs arbitrary: r d D)
  case (Cons x xs)
  obtain D1 where D1: "recursiveSearch Q h key x r d D =
        Inr (r @ map int (fst (walk h B x)), d @ map int (snd (walk h B x)), D1)"
      "map_of D1 = (\<lambda>k. if k \<in> L ` set (snd (walk h B x)) then None else map_of D k)"
    using recursiveSearch_walk [OF lab inj h, of x B D r d] Cons.prems(1,3) by auto
  have "B y \<longleftrightarrow> map_of D1 (L y) \<noteq> None" if y: "x' \<in> set xs" "subnode x' y" "y + 1 < 2 ^ h" for x' y
  proof -
    have "L y \<notin> L ` set (snd (walk h B x))"
      using walk_hits [OF h, of x _ B] inj_onD [OF inj] y Cons.prems(1,2) by fastforce
    then show ?thesis using Cons.prems(3) [of x' y] y D1(2) by simp
  qed
  then obtain D2 where "search_nodes Q h key (map int xs) (r @ map int (fst (walk h B x))) (d @ map int (snd (walk h B x))) D1 =
        Inr ((r @ map int (fst (walk h B x))) @ map int (concat (map (\<lambda>a. fst (walk h B a)) xs)),
             (d @ map int (snd (walk h B x))) @ map int (concat (map (\<lambda>a. snd (walk h B a)) xs)), D2)"
      "map_of D2 = (\<lambda>k. if k \<in> L ` set (concat (map (\<lambda>a. snd (walk h B a)) xs)) then None else map_of D1 k)"
    using Cons.IH [of D1 "r @ map int (fst (walk h B x))" "d @ map int (snd (walk h B x))"] Cons.prems(1,2) by auto
  then show ?case using D1 by (auto simp: fun_eq_iff)
qed (simp add: fun_eq_iff)

lemma walk_leaf:
  "1 \<le> h \<Longrightarrow> x + 1 < 2 ^ h \<Longrightarrow> y \<in> set (fst (walk h B x)) \<Longrightarrow> 2 ^ (h - 1) - 1 \<le> y \<and> y + 1 < 2 ^ h"
proof (induction x rule: tree_induct [of h])
  case (node x)
  consider "B x" | "\<not> B x" "2 ^ (h - 1) - 1 \<le> x" | "\<not> B x" "\<not> 2 ^ (h - 1) - 1 \<le> x" by blast
  then show ?case
  proof cases
    case 3
    then have "y \<in> set (fst (walk h B (2 * x + 1))) \<or> y \<in> set (fst (walk h B (2 * x + 2)))"
      using node(5) unfolding walk.simps [of h B x] by simp
    then show ?thesis using node(1,2) [OF 3(2) node(3)] child_valid [OF node(3) 3(2)] by blast
  qed (use node(3-) walk.simps [of h B x] in auto)
qed

lemma lf_leaf:
  assumes "1 \<le> h" "p < 2 ^ (h - 1)"
  shows "lf h p + 1 < 2 ^ h" "2 ^ (h - 1) - 1 \<le> lf h p"
  using assms by (cases h; simp add: lf_def)+

lemma leaf_lf:
  assumes "1 \<le> h" "2 ^ (h - 1) - 1 \<le> y" "y + 1 < 2 ^ h"
  obtains p where "p < 2 ^ (h - 1)" "y = lf h p"
proof
  have "(2::nat) ^ h = 2 * 2 ^ (h - 1)" using assms(1) by (cases h) auto
  then show "y + 1 - 2 ^ (h - 1) < 2 ^ (h - 1)" "y = lf h (y + 1 - 2 ^ (h - 1))"
    using assms by (simp_all add: lf_def)
qed

lemma lf_inj: "lf h p = lf h q \<longleftrightarrow> p = q"
proof -
  have "(1::nat) \<le> 2 ^ (h - 1)" by simp
  then show ?thesis unfolding lf_def by linarith
qed

text \<open>The nodes of the covering set as natural numbers.\<close>

definition cover :: "nat \<Rightarrow> nat \<Rightarrow> nat list" where
  "cover h a = map nat (findCoveringSet h (int a) 0)"

lemma int_less_pow: "a < 2 ^ n \<Longrightarrow> int a < 2 ^ n \<and> int a + 1 \<le> 2 ^ n"
proof -
  assume "a < 2 ^ n"
  then have "int a < int (2 ^ n)" by (simp only: of_nat_less_iff)
  moreover have "int (2 ^ n) = 2 ^ n" by simp
  ultimately show ?thesis by linarith
qed

lemma cover_valid:
  assumes "1 \<le> h" "a < 2 ^ (h - 1)"
  shows "findCoveringSet h (int a) 0 = map int (cover h a)" "\<forall>x\<in>set (cover h a). x + 1 < 2 ^ h"
proof -
  note a = int_less_pow [OF assms(2)]
  have v: "0 \<le> x \<and> x + 1 < 2 ^ h" if "x \<in> set (findCoveringSet h (int a) 0)" for x
    using findCoveringSet_valid [OF assms(1), of 0 "int a" "h - 1" x] a that by simp
  then show "findCoveringSet h (int a) 0 = map int (cover h a)"
    unfolding cover_def map_map by (intro map_idI [symmetric]) simp
  show "\<forall>x\<in>set (cover h a). x + 1 < 2 ^ h"
  proof
    fix x assume "x \<in> set (cover h a)"
    then obtain y where "y \<in> set (findCoveringSet h (int a) 0)" "x = nat y" by (auto simp: cover_def)
    then have "int x + 1 < int (2 ^ h)" using v [of y] by simp
    then show "x + 1 < 2 ^ h" by linarith
  qed
qed

lemma cover_once:
  assumes "1 \<le> h" "a < 2 ^ (h - 1)" "p < 2 ^ (h - 1)"
  shows "length (filter (\<lambda>x. subnode x (lf h p)) (cover h a)) = (if p \<le> a then 1 else 0)"
proof -
  have "qleaf h (int p)" using assms(3) by (simp add: qleaf_def)
  moreover note int_less_pow [OF assms(2)]
  ultimately have "length (filter (\<lambda>x. above h x (int p)) (map int (cover h a))) = (if p \<le> a then 1 else 0)"
    using findCoveringSet_counts [OF assms(1), of "int p" 0 "int a" "h - 1"] cover_valid(1) [OF assms(1,2)] by simp
  then show ?thesis using above_subnode [OF assms(1,3)] by (simp add: filter_map comp_def)
qed

lemma cover_disjoint:
  assumes "1 \<le> h" "a < 2 ^ (h - 1)"
  shows "sorted_wrt (\<lambda>x y. \<forall>z. \<not> (subnode x z \<and> subnode y z)) (cover h a)"
  unfolding sorted_wrt_iff_nth_less
proof (intro allI impI notI)
  fix i j z assume ij: "i < j" "j < length (cover h a)"
    and z: "subnode (cover h a ! i) z \<and> subnode (cover h a ! j) z"
  have v: "cover h a ! i + 1 < 2 ^ h" "cover h a ! j + 1 < 2 ^ h" using cover_valid(2) [OF assms] ij by simp_all
  obtain p where p: "p < 2 ^ (h - 1)" "subnode (cover h a ! i) (lf h p)" "subnode (cover h a ! j) (lf h p)"
    using subnode_chain z node_has_leaf [OF assms(1)] v subnode_trans by meson
  let ?P = "\<lambda>x. subnode x (lf h p)"
  have "{i, j} \<subseteq> {k. k < length (cover h a) \<and> ?P (cover h a ! k)}" using ij p by auto
  then have "card {i, j} \<le> length (filter ?P (cover h a))"
    unfolding length_filter_conv_card by (intro card_mono) auto
  then show False using cover_once [OF assms p(1)] ij(1) by (simp split: if_splits)
qed

lemma cover_parent:
  assumes "1 \<le> h" "a + 1 < 2 ^ (h - 1)" "x \<in> set (cover h a)"
  shows "0 < x \<and> subnode ((x - 1) div 2) (lf h (a + 1))"
proof -
  have a: "a < 2 ^ (h - 1)" using assms(2) by simp
  have "int x \<in> set (findCoveringSet h (int a) 0)" unfolding cover_valid(1) [OF assms(1) a] using assms(3) by simp
  moreover have "int a + 1 < 2 ^ (h - 1)" using int_less_pow [OF assms(2)] by simp
  ultimately have "0 < int x \<and> above h ((int x - 1) div 2) (int a + 1)"
    using findCoveringSet_parent [OF assms(1), of 0 "int a" "h - 1" "int x"] by simp
  moreover have "(int x - 1) div 2 = int ((x - 1) div 2)" if "0 < x" using that by (simp add: zdiv_int of_nat_diff)
  moreover have "int a + 1 = int (a + 1)" by simp
  ultimately show ?thesis using above_subnode [OF assms(1,2), of "(x - 1) div 2"] by simp
qed

lemma proper_subnode: "subnode y x \<Longrightarrow> y \<noteq> x \<Longrightarrow> subnode y ((x - 1) div 2)"
proof -
  assume "subnode y x" "y \<noteq> x"
  then obtain j where j: "(x + 1) div 2 ^ j = y + 1" unfolding subnode_def by blast
  then obtain i where "j = Suc i" using \<open>y \<noteq> x\<close> by (cases j) auto
  then have "(x + 1) div 2 div 2 ^ i = y + 1" using j by (simp add: div_mult2_eq)
  moreover have "x \<noteq> 0" using \<open>subnode y x\<close> \<open>y \<noteq> x\<close> subnode_le by fastforce
  then have "(x + 1) div 2 = (x - 1) div 2 + 1" by linarith
  ultimately show ?thesis unfolding subnode_def by metis
qed

lemma cover_full:
  assumes "1 \<le> h" "a = 2 ^ (h - 1) - 1"
  shows "findCoveringSet h (int a) 0 = [0]"
proof -
  have a: "int a + 1 = 2 ^ (h - 1)" using assms(2) by simp
  obtain k m where k: "k \<le> h - 1" "int a + 1 < 2 * 2 ^ k" "0 \<le> m" "m < 2 ^ (h - 1 - k)"
    "findCoveringSet h (int a) 0 = (m + 2 ^ (h - 1 - k) - 1) # findCoveringSet h (int a - 2 ^ k) (0 + 2 ^ k)"
  proof -
    have "0 + int a < 2 ^ (h - 1)" "int a + 1 \<le> 2 ^ (h - 1)" using a by linarith+
    then show thesis using findCoveringSet_Cons [OF assms(1), of 0 "int a" "h - 1"] that by (metis dvd_0_right order_refl of_nat_0_le_iff)
  qed
  have "(2::int) ^ (h - 1) < 2 ^ (k + 1)" using k(2) a by simp
  then have "h - 1 < k + 1" using power_less_imp_less_exp [of "2::int" "h - 1" "k + 1"] by simp
  then have e: "k = h - 1" using k(1) by simp
  then have "m = 0" using k(3,4) by simp
  moreover have "findCoveringSet h (int a - 2 ^ (h - 1)) t = []" for t
  proof -
    have "int a - 2 ^ (h - 1) < 0" using a by linarith
    then show ?thesis by (simp add: findCoveringSet.simps)
  qed
  ultimately show ?thesis using k(5) unfolding e by simp
qed

text \<open>
  What a search over the covering set of \<open>0..a\<close> finds and hits, when every coloured node is above
  leaves up to \<open>a\<close> only.
\<close>

lemma cover_walk:
  assumes h: "1 \<le> h" and a: "a < 2 ^ (h - 1)"
    and B: "\<And>y p. B y \<Longrightarrow> p < 2 ^ (h - 1) \<Longrightarrow> subnode y (lf h p) \<Longrightarrow> p \<le> a"
  shows "set (concat (map (\<lambda>x. fst (walk h B x)) (cover h a))) =
      lf h ` {p. p \<le> a \<and> \<not> (\<exists>y. B y \<and> subnode y (lf h p))}" (is "?F = ?G")
    and "set (concat (map (\<lambda>x. snd (walk h B x)) (cover h a))) \<subseteq> {y. B y \<and> y + 1 < 2 ^ h}"
    and "p < 2 ^ (h - 1) \<Longrightarrow> (\<exists>y\<in>set (concat (map (\<lambda>x. snd (walk h B x)) (cover h a))). subnode y (lf h p)) \<longleftrightarrow>
      (\<exists>y. B y \<and> subnode y (lf h p))"
proof -
  note v = cover_valid(2) [OF h a]
  have inside: "subnode x y" if "x \<in> set (cover h a)" "subnode x (lf h p)" "B y" "subnode y (lf h p)" "p < 2 ^ (h - 1)" for x y p
  proof (rule ccontr)
    assume "\<not> subnode x y"
    then have yx: "subnode y x" "y \<noteq> x" using subnode_chain [OF that(2,4)] by auto
    show False
    proof (cases "a + 1 < 2 ^ (h - 1)")
      case True
      have "subnode y (lf h (a + 1))"
        using cover_parent [OF h True that(1)] proper_subnode [OF yx] subnode_trans by blast
      then show False using B [OF that(3) True] by simp
    next
      case False
      then have a': "a = 2 ^ (h - 1) - 1" using a by simp
      then have "findCoveringSet h (int a) 0 = [0]" by (rule cover_full [OF h])
      then have "x = 0" using that(1) by (simp add: cover_def)
      then show False using yx subnode_le by fastforce
    qed
  qed
  have hit: "\<exists>x\<in>set (cover h a). subnode x (lf h p)" if "p \<le> a" for p
  proof -
    have "p < 2 ^ (h - 1)" using that a by simp
    then have "filter (\<lambda>x. subnode x (lf h p)) (cover h a) \<noteq> []" using cover_once [OF h a, of p] that by auto
    then show ?thesis by (auto simp: filter_empty_conv)
  qed
  have miss: "p \<le> a" if "x \<in> set (cover h a)" "subnode x (lf h p)" "p < 2 ^ (h - 1)" for p x
  proof -
    have "filter (\<lambda>x. subnode x (lf h p)) (cover h a) \<noteq> []" using that by (auto simp: filter_empty_conv)
    then show ?thesis using cover_once [OF h a that(3)] by (auto split: if_splits)
  qed
  show "?F = ?G"
  proof (intro set_eqI iffI)
    fix y assume "y \<in> ?F"
    then obtain x where x: "x \<in> set (cover h a)" "y \<in> set (fst (walk h B x))" by auto
    then obtain p where p: "p < 2 ^ (h - 1)" "y = lf h p" using walk_leaf [OF h] leaf_lf [OF h] v by metis
    have w: "subnode x y" "\<And>z. subnode x z \<Longrightarrow> subnode z y \<Longrightarrow> \<not> B z"
      using walk_found [OF h, of x y B] v x lf_leaf [OF h p(1)] p(2) by auto
    then show "y \<in> ?G" using inside [OF x(1)] miss [OF x(1)] p by blast
  next
    fix y assume "y \<in> ?G"
    then obtain p where p: "p \<le> a" "\<And>z. B z \<Longrightarrow> \<not> subnode z (lf h p)" "y = lf h p" by auto
    obtain x where x: "x \<in> set (cover h a)" "subnode x (lf h p)" using hit p(1) by blast
    have "p < 2 ^ (h - 1)" using p(1) a by simp
    then have "y \<in> set (fst (walk h B x))"
      using walk_found [OF h, of x y B] v x lf_leaf [OF h] p by auto
    then show "y \<in> ?F" using x(1) by auto
  qed
  show "set (concat (map (\<lambda>x. snd (walk h B x)) (cover h a))) \<subseteq> {y. B y \<and> y + 1 < 2 ^ h}"
    using walk_hits [OF h] v by auto
  assume p: "p < 2 ^ (h - 1)"
  show "(\<exists>y\<in>set (concat (map (\<lambda>x. snd (walk h B x)) (cover h a))). subnode y (lf h p)) \<longleftrightarrow>
      (\<exists>y. B y \<and> subnode y (lf h p))"
  proof
    assume "\<exists>y. B y \<and> subnode y (lf h p)"
    then obtain y where y: "B y" "subnode y (lf h p)" by blast
    obtain x where x: "x \<in> set (cover h a)" "subnode x (lf h p)" using hit B [OF y(1) p y(2)] by blast
    then have "\<exists>u\<in>set (snd (walk h B x)). subnode u (lf h p)"
      using walk_hits_cover [OF h lf_leaf [OF h p] inside [OF x y p] y(2), of B] y(1) by blast
    then show "\<exists>y\<in>set (concat (map (\<lambda>x. snd (walk h B x)) (cover h a))). subnode y (lf h p)" using x(1) by auto
  qed (use walk_hits [OF h] v in fastforce)
qed

section \<open>The colouring of a removal\<close>

definition up_node :: "nat \<Rightarrow> nat \<Rightarrow> nat \<Rightarrow> nat" where
  "up_node h p i = (lf h p + 1) div 2 ^ i - 1"

definition sibling :: "nat \<Rightarrow> nat" where
  "sibling x = (if even x then x - 1 else x + 1)"

lemma up_node_pos:
  assumes "1 \<le> h" "i < h"
  shows "0 < (lf h p + 1) div 2 ^ i"
proof -
  have "(2::nat) ^ i \<le> 2 ^ (h - 1)" using assms by (intro power_increasing) auto
  moreover have "2 ^ (h - 1) \<le> lf h p + 1" by (simp add: lf_def)
  ultimately have "2 ^ i \<le> lf h p + 1" by (rule le_trans)
  then show ?thesis by (simp add: div_greater_zero_iff)
qed

lemma up_node_0 [simp]: "up_node h p 0 = lf h p"
  by (simp add: up_node_def)

lemma subnode_up_node: "1 \<le> h \<Longrightarrow> i < h \<Longrightarrow> subnode (up_node h p i) (lf h p)"
  using up_node_pos [of h i p] unfolding subnode_def up_node_def by (intro exI [of _ i]) simp

lemma up_node_Suc:
  assumes "1 \<le> h" "Suc i < h"
  shows "up_node h p i = 2 * up_node h p (Suc i) + 1 \<or> up_node h p i = 2 * up_node h p (Suc i) + 2"
proof -
  have "(lf h p + 1) div 2 ^ Suc i = (lf h p + 1) div 2 ^ i div 2" by (simp add: div_mult2_eq mult.commute [of 2])
  then show ?thesis using up_node_pos [OF assms, of p] unfolding up_node_def by linarith
qed

lemma up_node_pos_inner: "1 \<le> h \<Longrightarrow> Suc i < h \<Longrightarrow> 0 < up_node h p i"
  using up_node_Suc [of h i p] by auto

lemma up_node_root:
  assumes "1 \<le> h" "p < 2 ^ (h - 1)"
  shows "up_node h p (h - 1) = 0"
proof -
  have "lf h p + 1 = p + 2 ^ (h - 1)" by (simp add: lf_def)
  then have "(lf h p + 1) div 2 ^ (h - 1) = p div 2 ^ (h - 1) + 1" using div_add_self2 [of "2 ^ (h - 1)" p] by simp
  then show ?thesis using assms(2) by (simp add: up_node_def)
qed

lemma getNodeOnPath_up:
  assumes "1 \<le> h" "i < h"
  shows "getNodeOnPath h (int p) (h - i) = int (up_node h p i)"
proof -
  have "int p + 2 ^ (h - 1) = int (lf h p + 1)" by (simp add: lf_def)
  moreover have "h - (h - i) = i" using assms(2) by simp
  ultimately have "getNodeOnPath h (int p) (h - i) = int ((lf h p + 1) div 2 ^ i) - 1"
    using getNodeOnPath_eq [OF assms(1), of "int p"] by (simp add: zdiv_int)
  then show ?thesis using up_node_pos [OF assms, of p] by (simp add: up_node_def of_nat_diff)
qed

lemma tree_nodes_eq:
  assumes "1 \<le> h"
  shows "map (getNodeOnPath h (int p)) (rev [1..<Suc h]) = map (\<lambda>i. int (up_node h p i)) [0..<h]"
proof (rule nth_equalityI)
  fix i assume "i < length (map (getNodeOnPath h (int p)) (rev [1..<Suc h]))"
  then have i: "i < h" by (simp del: upt_Suc)
  then have "rev [1..<Suc h] ! i = h - i" by (simp add: rev_nth del: upt_Suc)
  then show "map (getNodeOnPath h (int p)) (rev [1..<Suc h]) ! i = map (\<lambda>i. int (up_node h p i)) [0..<h] ! i"
    using i getNodeOnPath_up [OF assms i] by (simp del: upt_Suc)
qed (simp del: upt_Suc)

lemma siblings_eq:
  assumes "1 \<le> h" "p < 2 ^ (h - 1)"
  shows "concat (map sibling_of (map (\<lambda>i. int (up_node h p i)) [0..<h])) =
    map (\<lambda>i. int (sibling (up_node h p i))) [0..<h - 1]"
proof -
  have "[0..<h] = [0..<h - 1] @ [h - 1]" using assms(1) by (metis Suc_diff_1 less_le_trans upt_Suc_append zero_le zero_less_one)
  moreover have "sibling_of (int (up_node h p (h - 1))) = []" using up_node_root [OF assms] by (simp add: sibling_of_def)
  moreover have "map (\<lambda>i. sibling_of (int (up_node h p i))) [0..<h - 1] = map (\<lambda>i. [int (sibling (up_node h p i))]) [0..<h - 1]"
  proof (rule map_cong [OF refl])
    fix i assume "i \<in> set [0..<h - 1]"
    then have "0 < up_node h p i" using up_node_pos_inner assms(1) by simp
    then show "sibling_of (int (up_node h p i)) = [int (sibling (up_node h p i))]"
      by (auto simp: sibling_of_def sibling_def of_nat_diff even_iff_mod_2_eq_zero [symmetric] zmod_int [symmetric])
  qed
  ultimately have "concat (map (\<lambda>i. sibling_of (int (up_node h p i))) [0..<h]) =
      concat (map (\<lambda>i. [int (sibling (up_node h p i))]) [0..<h - 1])"
    by (simp only: map_append concat_append list.map concat.simps append_Nil2)
  then show ?thesis by (simp add: comp_def concat_map_singleton)
qed

lemma final_colors_nth:
  "i < n \<Longrightarrow> n \<le> length cs \<Longrightarrow> final_colors prev cs n ! i = (if prev = 2 \<and> (\<forall>j\<le>i. cs ! j = 2) then 2 else 0)"
proof (induction n arbitrary: prev cs i)
  case (Suc n)
  then obtain c cs' where cs: "cs = c # cs'" by (cases cs) auto
  show ?case
  proof (cases i)
    case (Suc k)
    have "(\<forall>j\<le>Suc k. (c # cs') ! j = 2) \<longleftrightarrow> c = 2 \<and> (\<forall>j\<le>k. cs' ! j = 2)"
      by (auto simp: nth_Cons split: nat.splits)
    then show ?thesis using Suc Suc.IH [of k cs'] Suc.prems cs by (simp add: Let_def)
  qed (use cs in \<open>simp add: Let_def\<close>)
qed simp

lemma find_SomeD: "find P xs = Some x \<Longrightarrow> x \<in> set xs \<and> P x"
  by (induction xs) (auto split: if_splits)

lemma length_final_colors [simp]: "length (final_colors prev cs n) = n"
  by (induction n arbitrary: prev cs) (simp_all add: Let_def)

text \<open>The leaves below a node on the path whose lower siblings are all coloured.\<close>

lemma coloured_chain:
  assumes "1 \<le> h"
  shows "i < h \<Longrightarrow> \<forall>j<i. B (sibling (up_node h p j)) \<Longrightarrow> subnode (up_node h p i) (lf h q) \<Longrightarrow> q < 2 ^ (h - 1) \<Longrightarrow> p < 2 ^ (h - 1) \<Longrightarrow>
    q = p \<or> (\<exists>y. B y \<and> subnode y (lf h q))"
proof (induction i)
  case 0
  then have "lf h q = lf h p"
    using subnode_deep [OF lf_leaf(2) [OF assms 0(5)], of "lf h q"] lf_leaf(1) [OF assms 0(4)] assms by simp
  then show ?case by (simp add: lf_inj)
next
  case (Suc i)
  let ?u = "up_node h p (Suc i)"
  have "lf h q \<noteq> ?u"
  proof
    assume "lf h q = ?u"
    then have "subnode (lf h q) (up_node h p i)" "up_node h p i \<noteq> lf h q"
      using up_node_Suc [OF assms Suc.prems(1), of p] subnode_unfold [of ?u] subnode_refl by fastforce+
    moreover have "up_node h p i + 1 < 2 ^ h"
      using subnode_le [OF subnode_up_node [OF assms, of i p]] lf_leaf(1) [OF assms Suc.prems(5)] Suc.prems(1) by simp
    ultimately show False using subnode_deep [OF lf_leaf(2) [OF assms Suc.prems(4)]] assms by blast
  qed
  then have "subnode (2 * ?u + 1) (lf h q) \<or> subnode (2 * ?u + 2) (lf h q)"
    using Suc.prems(3) subnode_unfold [of ?u] by blast
  moreover have "{up_node h p i, sibling (up_node h p i)} = {2 * ?u + 1, 2 * ?u + 2}"
    using up_node_Suc [OF assms Suc.prems(1), of p] by (auto simp: sibling_def)
  ultimately consider "subnode (up_node h p i) (lf h q)" | "subnode (sibling (up_node h p i)) (lf h q)"
    by (metis insert_iff singletonD)
  then show ?case using Suc by cases auto
qed

text \<open>
  The node that a removal of leaf \<open>p\<close> colours: it is above \<open>p\<close>, and every other leaf below it
  was below a coloured node already. Nothing is coloured only if the leaf itself was coloured.
\<close>

lemma node_to_color_spec:
  assumes h: "1 \<le> h" and p: "p < 2 ^ (h - 1)"
    and r: "node_to_color (map (\<lambda>i. int (up_node h p i)) [0..<h]) (map (\<lambda>i. col (up_node h p i)) [0..<h])
      (2 # final_colors 2 (map (\<lambda>i. col (sibling (up_node h p i))) [0..<h - 1]) (h - 1)) = r"
  shows "r = None \<Longrightarrow> col (lf h p) = 2"
    and "r = Some n \<Longrightarrow> \<exists>x. n = int x \<and> x + 1 < 2 ^ h \<and> subnode x (lf h p) \<and>
      (\<forall>q<2 ^ (h - 1). subnode x (lf h q) \<longrightarrow> q = p \<or> (\<exists>y. col y = 2 \<and> subnode y (lf h q)))"
proof -
  let ?cs = "map (\<lambda>i. col (sibling (up_node h p i))) [0..<h - 1]"
  let ?f = "2 # final_colors 2 ?cs (h - 1)"
  let ?l = "zip (map (\<lambda>i. int (up_node h p i)) [0..<h]) (zip (map (\<lambda>i. col (up_node h p i)) [0..<h]) ?f)"
  have len: "length ?f = h" using h by simp
  have nth: "?l ! i = (int (up_node h p i), col (up_node h p i), ?f ! i)" if "i < h" for i
    using that len by simp
  have fin: "\<forall>j<i. col (sibling (up_node h p j)) = 2" if "i < h" "?f ! i = 2" for i
  proof (cases i)
    case (Suc k)
    then have "final_colors 2 ?cs (h - 1) ! k = (if \<forall>j\<le>k. ?cs ! j = 2 then 2 else 0)"
      using that(1) by (subst final_colors_nth) auto
    then have "\<forall>j\<le>k. ?cs ! j = 2" using that(2) Suc by (simp split: if_splits)
    then show ?thesis using Suc that(1) by auto
  qed simp
  show "col (lf h p) = 2" if "r = None"
  proof -
    have "(int (up_node h p 0), col (up_node h p 0), 2) \<in> set ?l" using nth [of 0] len h by (metis (no_types, lifting) length_map length_upt length_zip less_le_trans min.idem minus_nat.diff_0 nth_Cons_0 nth_mem zero_less_one)
    then show ?thesis using r that by (auto simp: node_to_color_def find_None_iff)
  qed
  assume "r = Some n"
  then obtain c f where cf: "find (\<lambda>(n, c, f). f \<noteq> c \<and> f = 2) (rev ?l) = Some (n, c, f)"
    using r by (auto simp: node_to_color_def)
  have "(n, c, f) \<in> set ?l" "f = 2" using find_SomeD [OF cf] unfolding set_rev prod.case by blast+
  then obtain i where i: "i < h" "n = int (up_node h p i)" "?f ! i = 2"
    using nth len by (auto simp: in_set_conv_nth)
  have "up_node h p i + 1 < 2 ^ h"
    using subnode_le [OF subnode_up_node [OF h i(1), of p]] lf_leaf(1) [OF h p] by simp
  then show "\<exists>x. n = int x \<and> x + 1 < 2 ^ h \<and> subnode x (lf h p) \<and>
      (\<forall>q<2 ^ (h - 1). subnode x (lf h q) \<longrightarrow> q = p \<or> (\<exists>y. col y = 2 \<and> subnode y (lf h q)))"
    using i(2) subnode_up_node [OF h i(1)] coloured_chain [OF h i(1), of "\<lambda>y. col y = 2" p] fin [OF i(1,3)] p by blast
qed

text \<open>
  (C15) \<open>findCoveringSet(a_w)\<close> covers exactly the leaves \<open>0..a_w\<close> and each of them by exactly one
  of its nodes.
\<close>

theorem covering_set_exact:
  assumes "1 \<le> h" "qleaf h l" "qleaf h a_w"
  shows "length (filter (\<lambda>x. above h x l) (findCoveringSet h a_w 0)) = (if l \<le> a_w then 1 else 0)"
  using findCoveringSet_counts [OF assms(1,2), of 0 a_w "h - 1"] assms(2,3) by (simp add: qleaf_def)

theorem covering_set_exact_witness:
  "length (filter (\<lambda>x. above 4 x 5) (findCoveringSet 4 6 0)) = 1 \<and>
   length (filter (\<lambda>x. above 4 x 7) (findCoveringSet 4 6 0)) = 0"
  using covering_set_exact [of 4 5 6] covering_set_exact [of 4 7 6] by (simp add: qleaf_def)

end
