(* ===== verification/Qos_Correct.thy ===== *)
theory Qos_Correct
  imports Qos_Tree Sse_Spec
begin

text \<open>
  Correctness of the QOS client with local storage: after any sequence of insertions, removals
  and searches a search returns the live identifiers of the keyword in the order of insertion.
\<close>

section \<open>Labels\<close>

text \<open>
  What the scheme relies on: decryption inverts encryption, the generator yields 16 bytes, and
  on the keywords in use the first 11 bytes it derives from different keywords or search counts
  differ (the other bytes of a label are overwritten by the node number).
\<close>

definition phi :: "qenv \<Rightarrow> string \<Rightarrow> int \<Rightarrow> bytes" where
  "phi Q w s = q_prg Q (put_int 12 s (pad16 w))"

definition cnt_ok :: "int \<Rightarrow> bool" where
  "cnt_ok s \<longleftrightarrow> 0 \<le> s \<and> s < 2 ^ 31"

definition qenv_ok :: "string set \<Rightarrow> qenv \<Rightarrow> bool" where
  "qenv_ok W Q \<longleftrightarrow>
     cipher_ok (q_enc Q) (q_dec Q) \<and> length (q_stack Q) = 16 \<and>
     (\<forall>b. length b = 16 \<longrightarrow> length (q_prg Q b) = 16) \<and>
     (\<forall>w\<in>W. length w \<le> 11) \<and>
     inj_on (\<lambda>(w, s). take 11 (phi Q w s)) (W \<times> Collect cnt_ok)"

text \<open>The label of node \<open>y\<close> of keyword \<open>w\<close> under search count \<open>s\<close> and the sealed identifier.\<close>

definition nlab :: "qenv \<Rightarrow> bytes \<Rightarrow> string \<Rightarrow> int \<Rightarrow> nat \<Rightarrow> bytes" where
  "nlab Q X w s y = q_enc Q (the_key None) util_iv (take 11 (bitwiseXOR X (phi Q w s)) @ le32 (int y))"

definition seal_id :: "qenv \<Rightarrow> string \<Rightarrow> int \<Rightarrow> bytes" where
  "seal_id Q w ident = q_enc Q secretKey util_iv (take 15 (put_int 11 ident (pad16 w)))"

lemma qenv_ok_kw: "qenv_ok W Q \<Longrightarrow> w \<in> W \<Longrightarrow> length w \<le> 11 \<and> length (pad16 w) = 16"
  by (auto simp: qenv_ok_def)

lemma length_phi: "qenv_ok W Q \<Longrightarrow> w \<in> W \<Longrightarrow> length (phi Q w s) = 16"
  using qenv_ok_kw [of W Q w] by (simp add: qenv_ok_def phi_def)

lemma take_15_put_int: "length K = 16 \<Longrightarrow> take 15 (put_int 11 y K) = take 11 K @ le32 y"
  by (simp add: put_int_def)

lemma node_label_eq:
  assumes "qenv_ok W Q" "w \<in> W" "length X = 16"
  shows "node_label Q (bitwiseXOR X (phi Q w s)) (int y) = Inr (nlab Q X w s y)"
proof -
  have l: "length (bitwiseXOR X (phi Q w s)) = 16" using length_phi assms by simp
  then show ?thesis
    using encode_bytes_eq(1) [of "q_enc Q" "q_dec Q" "put_int 11 (int y) (bitwiseXOR X (phi Q w s))" None] assms(1)
    by (simp add: node_label_def AES_KEY_SIZE_def qenv_ok_def take_15_put_int nlab_def)
qed

lemma bitwiseXOR_take_inj:
  assumes "take n (bitwiseXOR X a) = take n (bitwiseXOR X b)" "length a = length X" "length b = length X"
  shows "take n a = take n b"
proof (rule nth_equalityI)
  fix i assume "i < length (take n a)"
  then have i: "i < n" "i < length X" using assms by simp_all
  then have "bitwiseXOR X a ! i = bitwiseXOR X b ! i" using assms(1) by (metis nth_take)
  then have "X ! i XOR a ! i = X ! i XOR b ! i" using i assms by (simp add: bitwiseXOR_def)
  then have "X ! i XOR (X ! i XOR a ! i) = X ! i XOR (X ! i XOR b ! i)" by simp
  then have "a ! i = b ! i" by (simp flip: xor.assoc)
  then show "take n a ! i = take n b ! i" using i by simp
qed (use assms in simp)

lemma nlab_inj:
  assumes Q: "qenv_ok W Q" and X: "length X = 16" and w: "w \<in> W" "w' \<in> W"
    and s: "cnt_ok s" "cnt_ok s'" and y: "y < 2 ^ 31" "y' < 2 ^ 31"
  shows "nlab Q X w s y = nlab Q X w' s' y' \<longleftrightarrow> w = w' \<and> s = s' \<and> y = y'"
proof
  assume e: "nlab Q X w s y = nlab Q X w' s' y'"
  let ?p = "\<lambda>w s y. take 11 (bitwiseXOR X (phi Q w s)) @ le32 (int y)"
  have "q_dec Q (the_key None) util_iv (q_enc Q (the_key None) util_iv p) = p" for p
    using Q by (simp add: qenv_ok_def cipher_ok_def util_iv_def)
  then have "?p w s y = ?p w' s' y'" using e unfolding nlab_def by metis
  then have t: "take 11 (bitwiseXOR X (phi Q w s)) = take 11 (bitwiseXOR X (phi Q w' s'))" "le32 (int y) = le32 (int y')"
    using length_phi [OF Q] w X by simp_all
  have "take 11 (phi Q w s) = take 11 (phi Q w' s')"
    by (rule bitwiseXOR_take_inj [OF t(1)]) (use length_phi [OF Q] w X in simp_all)
  then have "w = w' \<and> s = s'" using Q w s by (auto simp: qenv_ok_def inj_on_def)
  moreover have "y = y'" using t(2) y by (simp add: le32_inj int32_def)
  ultimately show "w = w' \<and> s = s' \<and> y = y'" by simp
qed simp

lemma seal_id_eq:
  assumes "qenv_ok W Q" "w \<in> W"
  shows "encode_bytes (q_enc Q) (Some secretKey) (put_int 11 ident (pad16 w)) = Inr (seal_id Q w ident)"
  using assms qenv_ok_kw [OF assms] encode_bytes_eq(1) [of "q_enc Q" "q_dec Q" "put_int 11 ident (pad16 w)" "Some secretKey"]
  by (simp add: qenv_ok_def seal_id_def the_key_def)

lemma open_id:
  assumes "qenv_ok W Q" "w \<in> W" "int32 ident"
  shows "ebind (decode_bytes (q_dec Q) (q_stack Q) (Some secretKey) (seal_id Q w ident)) (\<lambda>p. Inr (get_int 11 p)) = Inr ident"
proof -
  let ?p = "put_int 11 ident (pad16 w)"
  have l: "length ?p = 16" "length (q_stack Q) = 16" "cipher_ok (q_enc Q) (q_dec Q)"
    using assms qenv_ok_kw [OF assms(1,2)] by (auto simp: qenv_ok_def)
  have "decode_bytes (q_dec Q) (q_stack Q) (Some secretKey) (seal_id Q w ident) = Inr (take 15 ?p @ [q_stack Q ! 15])"
    using decode_bytes_encode [OF l(3,1,2), of "Some secretKey"] seal_id_eq [OF assms(1,2)] by simp
  moreover have "get_int 11 (take 15 ?p @ [q_stack Q ! 15]) = ident"
    using assms(3) qenv_ok_kw [OF assms(1,2)] by (simp add: get_int_def put_int_def rd32_le32)
  ultimately show ?thesis by simp
qed

section \<open>The local tables\<close>

definition cell :: "tab \<Rightarrow> string \<Rightarrow> qos \<Rightarrow> string" where
  "cell t name st = tab_lookup name (t_local (qc_tab st t))"

lemma tab_get_local: "qc_localStorage st \<Longrightarrow> tab_get Q t name setup st = Inr (cell t name st, st)"
  by (simp add: tab_get_def cell_def)

definition set_cell :: "tab \<Rightarrow> string \<Rightarrow> string \<Rightarrow> qos \<Rightarrow> qos" where
  "set_cell t name s st =
     st\<lparr>qc_tab := (qc_tab st)(t := (qc_tab st t)\<lparr>t_local := AList.update name s (t_local (qc_tab st t))\<rparr>)\<rparr>"

lemma tab_put_local: "qc_localStorage st \<Longrightarrow> tab_put Q t name s setup st = Inr (set_cell t name s st)"
  by (simp add: tab_put_def set_cell_def Let_def)

lemma cell_set_cell: "cell t' name' (set_cell t name s st) = (if t' = t \<and> name' = name then s else cell t' name' st)"
  by (auto simp: cell_def set_cell_def tab_lookup_def map_of_update_apply)

lemma set_cell_fields [simp]:
  "qc_server (set_cell t name s st) = qc_server st" "qc_height (set_cell t name s st) = qc_height st"
  "qc_localStorage (set_cell t name s st) = qc_localStorage st" "qc_rnd (set_cell t name s st) = qc_rnd st"
  by (simp_all add: set_cell_def)

lemma cell_server [simp]: "cell t name (st\<lparr>qc_server := srv\<rparr>) = cell t name st"
  by (simp add: cell_def)

lemma cnt_ok_int32: "cnt_ok n \<Longrightarrow> int32 n"
  by (simp add: cnt_ok_def int32_def)

lemma to_string_inj: "cnt_ok n \<Longrightarrow> cnt_ok n' \<Longrightarrow> to_string n = to_string n' \<longleftrightarrow> n = n'"
  by (metis stoi_to_string Inr_inject cnt_ok_int32)

lemma entry_name_inj:
  assumes "cnt_ok n" "cnt_ok n'"
  shows "w @ ''-'' @ to_string n = w' @ ''-'' @ to_string n' \<longleftrightarrow> w = w' \<and> n = n'"
proof
  assume e: "w @ ''-'' @ to_string n = w' @ ''-'' @ to_string n'"
  have d: "takeWhile (\<lambda>c. c \<noteq> CHR ''-'') (rev (v @ ''-'' @ to_string m)) = rev (to_string m)" if "cnt_ok m" for v m
  proof -
    have "\<forall>c\<in>set (rev (to_string m)). c \<noteq> CHR ''-''" using to_string_no_dash [of m] that by (auto simp: cnt_ok_def)
    then have "takeWhile (\<lambda>c. c \<noteq> CHR ''-'') (rev (to_string m) @ CHR ''-'' # rev v) = rev (to_string m)"
      by (subst takeWhile_append2) auto
    then show ?thesis by simp
  qed
  have "to_string n = to_string n'" using d [OF assms(1), of w] d [OF assms(2), of w'] e by (metis rev_rev_ident)
  moreover from this have "n = n'" using to_string_inj assms by blast
  ultimately show "w = w' \<and> n = n'" using e by simp
qed simp

section \<open>What the client and the server know of a keyword\<close>

text \<open>
  The cells and entries that belong to one keyword: the counter pair, the positions of its
  identifiers, the colours of its tree nodes and, per search count, its labels in \<open>Dstate\<close> and \<open>I\<close>.
\<close>

record kview =
  v_cnt :: string
  v_del :: "int \<Rightarrow> string"
  v_col :: "nat \<Rightarrow> string"
  v_D :: "int \<Rightarrow> nat \<Rightarrow> bytes option"
  v_I :: "int \<Rightarrow> nat \<Rightarrow> bytes option"

definition entry_ok :: "int \<Rightarrow> nat \<Rightarrow> bool" where
  "entry_ok j y \<longleftrightarrow> cnt_ok j \<and> y < 2 ^ 31"

definition view :: "qenv \<Rightarrow> qos \<Rightarrow> string \<Rightarrow> kview" where
  "view Q st w = \<lparr>v_cnt = cell Ocnt w st,
     v_del = (\<lambda>i. if cnt_ok i then cell Odel (w @ ''-'' @ to_string i) st else []),
     v_col = (\<lambda>y. if y < 2 ^ 31 then cell Ostate (w @ ''-'' @ to_string (int y)) st else []),
     v_D = (\<lambda>j y. if entry_ok j y then map_of (qs_Dstate (qc_server st)) (nlab Q DKey w j y) else None),
     v_I = (\<lambda>j y. if entry_ok j y then map_of (qs_I (qc_server st)) (nlab Q IKey w j y) else None)\<rparr>"

definition upd2 :: "'a \<Rightarrow> 'b \<Rightarrow> 'c \<Rightarrow> ('a \<Rightarrow> 'b \<Rightarrow> 'c) \<Rightarrow> 'a \<Rightarrow> 'b \<Rightarrow> 'c" where
  "upd2 x y z f = f(x := (f x)(y := z))"

lemma upd2_apply: "upd2 x y z f x' y' = (if x' = x \<and> y' = y then z else f x' y')"
  by (simp add: upd2_def)

lemma length_DKey [simp]: "length IKey = 16" "length DKey = 16"
  by (simp_all add: IKey_def DKey_def)

lemma cnt_ok_node: "y < 2 ^ 31 \<Longrightarrow> cnt_ok (int y)"
  by (simp add: cnt_ok_def)

lemma view_set_cnt: "view Q (set_cell Ocnt w s st) w' = (if w' = w then (view Q st w')\<lparr>v_cnt := s\<rparr> else view Q st w')"
  by (auto simp: view_def cell_set_cell fun_eq_iff)

lemma view_set_del:
  assumes "cnt_ok i"
  shows "view Q (set_cell Odel (w @ ''-'' @ to_string i) s st) w' =
    (if w' = w then (view Q st w')\<lparr>v_del := (v_del (view Q st w'))(i := s)\<rparr> else view Q st w')"
  using entry_name_inj [OF _ assms] assms by (auto simp: view_def cell_set_cell fun_eq_iff to_string_inj)

lemma view_set_col:
  assumes "y < 2 ^ 31"
  shows "view Q (set_cell Ostate (w @ ''-'' @ to_string (int y)) s st) w' =
    (if w' = w then (view Q st w')\<lparr>v_col := (v_col (view Q st w'))(y := s)\<rparr> else view Q st w')"
  using entry_name_inj [OF cnt_ok_node cnt_ok_node [OF assms]] assms
  by (auto simp: view_def cell_set_cell fun_eq_iff to_string_inj [OF cnt_ok_node cnt_ok_node])

lemma view_insert_I:
  assumes "qenv_ok W Q" "w \<in> W" "w' \<in> W" "entry_ok j y"
  shows "view Q (st\<lparr>qc_server := Qos_Server_insert (nlab Q IKey w j y) v (qc_server st)\<rparr>) w' =
    (if w' = w then (view Q st w')\<lparr>v_I := upd2 j y (Some v) (v_I (view Q st w'))\<rparr> else view Q st w')"
  using nlab_inj [OF assms(1) length_DKey(1) assms(2,3)] assms(4)
  by (auto simp: view_def Qos_Server_insert_def fun_eq_iff map_of_update_apply upd2_apply entry_ok_def)

lemma view_insert_D:
  assumes "qenv_ok W Q" "w \<in> W" "w' \<in> W" "entry_ok j y"
  shows "view Q (st\<lparr>qc_server := insertInDstate (nlab Q DKey w j y) v (qc_server st)\<rparr>) w' =
    (if w' = w then (view Q st w')\<lparr>v_D := upd2 j y (Some v) (v_D (view Q st w'))\<rparr> else view Q st w')"
  using nlab_inj [OF assms(1) length_DKey(2) assms(2,3)] assms(4)
  by (auto simp: view_def insertInDstate_def fun_eq_iff map_of_update_apply upd2_apply entry_ok_def)

section \<open>The invariant of a keyword\<close>

text \<open>
  All identifiers inserted so far with the removed positions and the current search count. The
  live identifiers are those at the other positions.
\<close>

record kwst =
  k_ids :: "int list"
  k_rem :: "nat set"
  k_src :: int

definition live :: "kwst \<Rightarrow> int list" where
  "live a = map (\<lambda>i. k_ids a ! i) (filter (\<lambda>i. i \<notin> k_rem a) [0..<length (k_ids a)])"

definition kwst_ok :: "nat \<Rightarrow> kwst \<Rightarrow> bool" where
  "kwst_ok h a \<longleftrightarrow>
     length (k_ids a) \<le> 2 ^ (h - 1) \<and> k_rem a \<subseteq> {..<length (k_ids a)} \<and> cnt_ok (k_src a) \<and>
     (\<forall>x\<in>set (k_ids a). cnt_ok x) \<and> distinct (live a)"

text \<open>A set of tree nodes covers exactly the removed positions.\<close>

definition covers :: "nat \<Rightarrow> (nat \<Rightarrow> bool) \<Rightarrow> nat set \<Rightarrow> bool" where
  "covers h B R \<longleftrightarrow> (\<forall>p<2 ^ (h - 1). (\<exists>y. B y \<and> subnode y (lf h p)) \<longleftrightarrow> p \<in> R)"

definition kw_rep :: "nat \<Rightarrow> (int \<Rightarrow> bytes) \<Rightarrow> kview \<Rightarrow> kwst \<Rightarrow> bool" where
  "kw_rep h sl v a \<longleftrightarrow>
     kwst_ok h a \<and>
     v_cnt v = (if k_ids a = [] then [] else show_pair (k_src a) (int (length (k_ids a)) - 1)) \<and>
     (k_ids a = [] \<longrightarrow> k_src a = 0) \<and>
     (\<forall>i<length (k_ids a). i \<notin> k_rem a \<longrightarrow> v_del v (k_ids a ! i) = to_string (int i)) \<and>
     (\<forall>y. v_col v y \<in> {[], ''2''}) \<and>
     covers h (\<lambda>y. v_col v y = ''2'') (k_rem a) \<and>
     covers h (\<lambda>y. v_D v (k_src a) y \<noteq> None) (k_rem a) \<and>
     (\<forall>i<length (k_ids a). i \<notin> k_rem a \<longrightarrow> v_I v (k_src a) (lf h i) = Some (sl (k_ids a ! i))) \<and>
     (\<forall>j y. k_src a < j \<longrightarrow> v_I v j y = None \<and> v_D v j y = None)"

lemma kw_rep_cnt:
  "kw_rep h sl v a \<Longrightarrow> v_cnt v = (if length (k_ids a) = 0 then [] else show_pair (k_src a) (int (length (k_ids a) - 1)))"
  by (cases "k_ids a") (simp_all add: kw_rep_def)

lemma kw_rep_ok: "kw_rep h sl v a \<Longrightarrow> kwst_ok h a \<and> cnt_ok (k_src a) \<and> (k_ids a = [] \<longrightarrow> k_src a = 0)"
  by (simp add: kw_rep_def kwst_ok_def)

lemma set_live: "set (live a) = {k_ids a ! i | i. i < length (k_ids a) \<and> i \<notin> k_rem a}"
  by (auto simp: live_def)

lemma live_insert:
  assumes "kwst_ok h a"
  shows "live (a\<lparr>k_ids := k_ids a @ [x]\<rparr>) = live a @ [x]"
proof -
  have "length (k_ids a) \<notin> k_rem a" using assms by (auto simp: kwst_ok_def)
  moreover have "map (\<lambda>i. (k_ids a @ [x]) ! i) (filter (\<lambda>i. i \<notin> k_rem a) [0..<length (k_ids a)]) = live a"
    unfolding live_def by (intro map_cong) (auto simp: nth_append)
  ultimately show ?thesis by (simp add: live_def)
qed

lemma distinct_map_filter_remove:
  "distinct (map f (filter P xs)) \<Longrightarrow> i \<in> set xs \<Longrightarrow> P i \<Longrightarrow>
    map f (filter (\<lambda>j. P j \<and> j \<noteq> i) xs) = filter (\<lambda>x. x \<noteq> f i) (map f (filter P xs))"
proof -
  assume d: "distinct (map f (filter P xs))" and i: "i \<in> set xs" "P i"
  have "filter (\<lambda>x. x \<noteq> f i) (map f (filter P xs)) = map f (filter (\<lambda>j. f j \<noteq> f i) (filter P xs))"
    by (simp add: filter_map comp_def)
  also have "filter (\<lambda>j. f j \<noteq> f i) (filter P xs) = filter (\<lambda>j. j \<noteq> i) (filter P xs)"
    using d i by (intro filter_cong refl) (auto simp: distinct_map inj_on_def)
  finally show ?thesis by (simp add: conj_commute)
qed

lemma live_remove:
  assumes "kwst_ok h a" "i < length (k_ids a)" "i \<notin> k_rem a"
  shows "live (a\<lparr>k_rem := insert i (k_rem a)\<rparr>) = filter (\<lambda>x. x \<noteq> k_ids a ! i) (live a)"
  using distinct_map_filter_remove [of "\<lambda>i. k_ids a ! i" "\<lambda>i. i \<notin> k_rem a" "[0..<length (k_ids a)]" i] assms
  by (simp add: live_def kwst_ok_def conj_commute)

lemma kw_rep_insert:
  assumes rep: "kw_rep h sl v a" and x: "cnt_ok x" "x \<notin> set (live a)" and n: "length (k_ids a) < 2 ^ (h - 1)"
  shows "kw_rep h sl (v\<lparr>v_cnt := show_pair (k_src a) (int (length (k_ids a))), v_del := (v_del v)(x := to_string (int (length (k_ids a)))),
      v_I := upd2 (k_src a) (lf h (length (k_ids a))) (Some (sl x)) (v_I v)\<rparr>) (a\<lparr>k_ids := k_ids a @ [x]\<rparr>)"
proof -
  have ok: "kwst_ok h a" using rep by (simp add: kw_rep_def)
  have "kwst_ok h (a\<lparr>k_ids := k_ids a @ [x]\<rparr>)"
    using ok x n live_insert [OF ok, of x] by (auto simp: kwst_ok_def)
  moreover have "k_ids a ! i \<noteq> x" if "i < length (k_ids a)" "i \<notin> k_rem a" for i using x(2) that by (auto simp: set_live)
  ultimately show ?thesis
    using rep x by (auto simp: kw_rep_def nth_append upd2_apply lf_inj less_Suc_eq)
qed

lemma kw_rep_remove:
  assumes rep: "kw_rep h sl v a" and i: "i < length (k_ids a)" "i \<notin> k_rem a" and h: "1 \<le> h"
    and x: "subnode x (lf h i)"
      "\<forall>q<2 ^ (h - 1). subnode x (lf h q) \<longrightarrow> q = i \<or> (\<exists>y. v_col v y = ''2'' \<and> subnode y (lf h q))"
  shows "kw_rep h sl (v\<lparr>v_col := (v_col v)(x := ''2''), v_D := upd2 (k_src a) x (Some z) (v_D v)\<rparr>)
    (a\<lparr>k_rem := insert i (k_rem a)\<rparr>)"
proof -
  have ok: "kwst_ok h a" using rep by (simp add: kw_rep_def)
  have "kwst_ok h (a\<lparr>k_rem := insert i (k_rem a)\<rparr>)"
    using ok i live_remove [OF ok i] by (auto simp: kwst_ok_def)
  moreover
  have "covers h (\<lambda>y. B y \<or> y = x) (insert i (k_rem a))" if "covers h B (k_rem a)" for B
  proof -
    have "\<exists>y. B y \<and> subnode y (lf h q)" if "q < 2 ^ (h - 1)" "subnode x (lf h q)" "q \<noteq> i" for q
    proof -
      have "\<exists>y. v_col v y = ''2'' \<and> subnode y (lf h q)" using that x(2) by blast
      then have "q \<in> k_rem a" using rep that(1) by (auto simp: kw_rep_def covers_def)
      then show ?thesis using \<open>covers h B (k_rem a)\<close> that(1) by (simp add: covers_def)
    qed
    then show ?thesis using that x(1) by (auto simp: covers_def)
  qed
  note cov = this [of "\<lambda>y. v_col v y = ''2''"] this [of "\<lambda>y. v_D v (k_src a) y \<noteq> None"]
  have "(\<lambda>y. ((v_col v)(x := ''2'')) y = ''2'') = (\<lambda>y. v_col v y = ''2'' \<or> y = x)"
    "(\<lambda>y. upd2 (k_src a) x (Some z) (v_D v) (k_src a) y \<noteq> None) = (\<lambda>y. v_D v (k_src a) y \<noteq> None \<or> y = x)"
    by (auto simp: fun_eq_iff upd2_apply)
  then have "covers h (\<lambda>y. ((v_col v)(x := ''2'')) y = ''2'') (insert i (k_rem a))"
    "covers h (\<lambda>y. upd2 (k_src a) x (Some z) (v_D v) (k_src a) y \<noteq> None) (insert i (k_rem a))"
    using cov rep by (simp_all only: kw_rep_def simp_thms)
  ultimately show ?thesis
    using rep unfolding kw_rep_def by (auto simp: upd2_apply)
qed

lemma kw_rep_search:
  assumes rep: "kw_rep h sl v a" and s: "cnt_ok (k_src a + 1)" "k_ids a \<noteq> []"
    and D: "covers h (\<lambda>y. D (k_src a + 1) y \<noteq> None) (k_rem a)"
    and I: "\<And>i. i < length (k_ids a) \<Longrightarrow> i \<notin> k_rem a \<Longrightarrow> I (k_src a + 1) (lf h i) = Some (sl (k_ids a ! i))"
    and fresh: "\<And>j y. k_src a + 1 < j \<Longrightarrow> I j y = None \<and> D j y = None"
  shows "kw_rep h sl (v\<lparr>v_cnt := show_pair (k_src a + 1) (int (length (k_ids a)) - 1), v_D := D, v_I := I\<rparr>)
    (a\<lparr>k_src := k_src a + 1\<rparr>)"
  using assms by (auto simp: kw_rep_def kwst_ok_def live_def)

section \<open>The operations of the client\<close>

definition qrep :: "string set \<Rightarrow> qenv \<Rightarrow> (string \<Rightarrow> kwst) \<Rightarrow> qos \<Rightarrow> bool" where
  "qrep W Q a st \<longleftrightarrow>
     qenv_ok W Q \<and> qc_localStorage st \<and> 1 \<le> qc_height st \<and> qc_height st \<le> 31 \<and>
     qs_height (qc_server st) = qc_height st \<and>
     (\<forall>w\<in>W. kw_rep (qc_height st) (seal_id Q w) (view Q st w) (a w))"

lemma getBid_short: "length w \<le> 16 \<Longrightarrow> \<exists>b. getBid 16 w = Inr b"
  by (simp add: getBid_def copy_at_0)

lemma encode0_short:
  assumes "cipher_ok enc dec" "length g = 16" "length out = 16" "length kw \<le> 11"
  shows "\<exists>c. encode0 enc g out kw = Inr c"
proof -
  let ?p0 = "string_bytes kw @ drop (length kw) g"
  let ?p = "map (\<lambda>i. if length kw \<le> i \<and> i < 12 then 0 else ?p0 ! i) [0..<length ?p0]"
  let ?n = "length (takeWhile (\<lambda>b. b \<noteq> 0) ?p)"
  have len: "length ?p = 16" using assms(2,4) by simp
  have "?n \<le> length kw"
  proof (rule ccontr)
    assume "\<not> ?n \<le> length kw"
    then have "length kw < ?n" by simp
    then have "takeWhile (\<lambda>b. b \<noteq> 0) ?p ! length kw \<in> set (takeWhile (\<lambda>b. b \<noteq> 0) ?p)" by (rule nth_mem)
    then have "?p ! length kw \<noteq> 0" unfolding takeWhile_nth [OF \<open>length kw < ?n\<close>] by (rule set_takeWhileD [THEN conjunct2])
    then show False using assms(4) len by simp
  qed
  then have n: "?n < 16" using assms(4) by simp
  then have "length (enc util_key util_iv (take ?n ?p)) = 16"
    using assms(1) len by (simp add: cipher_ok_def util_iv_def)
  then show ?thesis
    using assms n len by (simp add: encode0_def copy_at_0 Let_def util_encrypt_def)
qed

lemma qos_phi: "snd (qos_getAESRandomValue Q (pad16 w) s) = phi Q w s"
  by (simp add: qos_getAESRandomValue_def phi_def AES_KEY_SIZE_def Let_def)

lemma index_entry_eq:
  assumes "qenv_ok W Q" "w \<in> W"
  shows "index_entry Q w s (int y) x = Inr (nlab Q IKey w s y, seal_id Q w x)"
  using node_label_eq [OF assms, of IKey] seal_id_eq [OF assms, of x] qenv_ok_kw [OF assms] kw_block_eq [of w]
  by (simp add: index_entry_def qos_phi Let_def AES_KEY_SIZE_def)

lemma delete_entry_eq:
  assumes "qenv_ok W Q" "w \<in> W"
  shows "\<exists>z. \<forall>s y. delete_entry Q w s (int y) = Inr (nlab Q DKey w s y, z)"
proof -
  obtain z where "encode0 (q_enc Q) (q_stack Q) (replicate 16 0) ''0'' = Inr z"
    using encode0_short [of "q_enc Q" "q_dec Q" "q_stack Q" "replicate 16 0" "''0''"] assms(1) by (auto simp: qenv_ok_def)
  then show ?thesis
    using node_label_eq [OF assms, of DKey] qenv_ok_kw [OF assms] kw_block_eq [of w]
    by (simp add: delete_entry_def qos_phi Let_def)
qed

lemma parse_pair_cnt:
  "cnt_ok s \<Longrightarrow> n < 2 ^ 31 \<Longrightarrow> parse_pair (show_pair s (int n)) = Inr (s, int n)"
  using parse_pair_show [of s "int n" "[]"] by (simp add: cnt_ok_def)

lemma pow_height: "h \<le> 31 \<Longrightarrow> (2::nat) ^ (h - 1) \<le> 2 ^ 30"
  by (rule power_increasing) auto

lemma lf_small: "1 \<le> h \<Longrightarrow> h \<le> 31 \<Longrightarrow> p < 2 ^ (h - 1) \<Longrightarrow> lf h p < 2 ^ 31"
proof -
  assume a: "1 \<le> h" "h \<le> 31" "p < 2 ^ (h - 1)"
  have "(2::nat) ^ h \<le> 2 ^ 31" using a(2) by (rule power_increasing) simp
  then show ?thesis using lf_leaf(1) [OF a(1,3)] by linarith
qed

lemma insert_counts_local:
  assumes "qrep W Q a st" "w \<in> W" "length (k_ids (a w)) < 2 ^ (qc_height st - 1)"
  shows "insert_counts Q w setup st = Inr ((k_src (a w), int (length (k_ids (a w)))),
    set_cell Ocnt w (show_pair (k_src (a w)) (int (length (k_ids (a w))))) st)"
proof -
  let ?n = "length (k_ids (a w))"
  have l: "qc_localStorage st" and kw: "length w \<le> 16" and rep: "kw_rep (qc_height st) (seal_id Q w) (view Q st w) (a w)"
    using assms qenv_ok_kw [of W Q w] by (auto simp: qrep_def)
  obtain b where b: "getBid 16 w = Inr b" using getBid_short [OF kw] by blast
  have c: "cell Ocnt w st = (if ?n = 0 then [] else show_pair (k_src (a w)) (int (?n - 1)))"
    using kw_rep_cnt [OF rep] by (simp add: view_def)
  have "?n < 2 ^ 31" using assms(3) pow_height [of "qc_height st"] assms(1) by (simp add: qrep_def)
  moreover have "cnt_ok (k_src (a w))" "?n = 0 \<longrightarrow> k_src (a w) = 0" using kw_rep_ok [OF rep] by auto
  ultimately have "(if cell Ocnt w st \<noteq> [] then parse_pair (cell Ocnt w st) else Inr (0, - 1)) = Inr (k_src (a w), int ?n - 1)"
    using c parse_pair_cnt [of "k_src (a w)" "?n - 1"]
    by (cases "k_ids (a w)") (auto simp: show_pair_def)
  then show ?thesis
    using l b by (simp add: insert_counts_def tab_get_local tab_put_local Let_def)
qed

lemma Qos_insert_rep:
  assumes st: "qrep W Q a st" and w: "w \<in> W" and n: "length (k_ids (a w)) < 2 ^ (qc_height st - 1)"
    and x: "cnt_ok x" "x \<notin> set (live (a w))"
  shows "\<exists>st'. Qos_insert Q w x setup st = Inr st' \<and> qc_height st' = qc_height st \<and>
    qrep W Q (a(w := (a w)\<lparr>k_ids := k_ids (a w) @ [x]\<rparr>)) st'"
proof -
  let ?n = "length (k_ids (a w))" and ?h = "qc_height st" and ?s = "k_src (a w)"
  have h: "1 \<le> ?h" "?h \<le> 31" "qenv_ok W Q" "qc_localStorage st" using st by (auto simp: qrep_def)
  have ok: "cnt_ok ?s" using st w by (auto simp: qrep_def kw_rep_def kwst_ok_def)
  let ?st1 = "set_cell Ocnt w (show_pair ?s (int ?n)) st"
  let ?st2 = "set_cell Odel (w @ ''-'' @ to_string x) (to_string (int ?n)) ?st1"
  let ?st3 = "?st2\<lparr>qc_server := Qos_Server_insert (nlab Q IKey w ?s (lf ?h ?n)) (seal_id Q w x) (qc_server ?st2)\<rparr>"
  have "getNodeOnPath ?h (int ?n) ?h = int (lf ?h ?n)" using getNodeOnPath_up [OF h(1), of 0 ?n] h(1) by simp
  then have "Qos_insert Q w x setup st = Inr ?st3"
    using insert_counts_local [OF st w n] h index_entry_eq [OF h(3) w]
    by (simp add: Qos_insert_def tab_put_local)
  moreover have e: "entry_ok ?s (lf ?h ?n)" using lf_small [OF h(1,2) n] ok by (simp add: entry_ok_def)
  have v: "view Q ?st3 w' = (if w' = w then (view Q st w)\<lparr>v_cnt := show_pair ?s (int ?n),
      v_del := (v_del (view Q st w))(x := to_string (int ?n)),
      v_I := upd2 ?s (lf ?h ?n) (Some (seal_id Q w x)) (v_I (view Q st w))\<rparr> else view Q st w')" if "w' \<in> W" for w'
    by (simp only: view_insert_I [OF h(3) w that e] view_set_del [OF x(1)] view_set_cnt) simp
  have "kw_rep ?h (seal_id Q w') (view Q ?st3 w') ((a(w := (a w)\<lparr>k_ids := k_ids (a w) @ [x]\<rparr>)) w')" if "w' \<in> W" for w'
    using kw_rep_insert [OF _ x n, of "seal_id Q w" "view Q st w"] st w that v [OF that] by (auto simp: qrep_def)
  then have "qrep W Q (a(w := (a w)\<lparr>k_ids := k_ids (a w) @ [x]\<rparr>)) ?st3"
    using st by (simp add: qrep_def Qos_Server_insert_def)
  ultimately show ?thesis by (intro exI [of _ ?st3]) simp
qed

definition colour :: "kview \<Rightarrow> nat \<Rightarrow> int" where
  "colour v y = (if v_col v y = ''2'' then 2 else 0)"

lemma stoi_digit: "stoi ''0'' = Inr 0" "stoi ''2'' = Inr 2" "to_string 2 = ''2''"
  by code_simp+

lemma get_colors_local:
  assumes "qc_localStorage st" "\<forall>y. v_col (view Q st w) y \<in> {[], ''2''}"
  shows "\<forall>y\<in>set ys. y < 2 ^ 31 \<Longrightarrow> get_colors Q w setup (map int ys) st = Inr (map (colour (view Q st w)) ys, st)"
proof (induction ys)
  case (Cons y ys)
  then have y: "v_col (view Q st w) y = cell Ostate (w @ ''-'' @ to_string (int y)) st" by (simp add: view_def)
  then have "cell Ostate (w @ ''-'' @ to_string (int y)) st \<in> {[], ''2''}" using assms(2) by metis
  then have "stoi (if cell Ostate (w @ ''-'' @ to_string (int y)) st = [] then ''0'' else cell Ostate (w @ ''-'' @ to_string (int y)) st) =
      Inr (colour (view Q st w) y)"
    using stoi_digit y by (auto simp: colour_def)
  then show ?case using Cons assms(1)
    by (simp only: list.map get_colors.simps tab_get_local ebind.simps prod.case) simp
qed simp

lemma split_show_pair:
  assumes "cnt_ok s" "cnt_ok n"
  shows "split_or_error (show_pair s n) = Inr [to_string s, to_string n]"
proof -
  have "CHR ''-'' \<notin> set (to_string s)" "CHR ''-'' \<notin> set (to_string n)"
    using to_string_no_dash assms by (auto simp: cnt_ok_def)
  then show ?thesis
    by (simp add: split_or_error_def splitData_single show_pair_def split_on_delim split_on_no_delim)
qed

lemma up_node_small:
  assumes "1 \<le> h" "h \<le> 31" "p < 2 ^ (h - 1)" "i < h"
  shows "up_node h p i < 2 ^ 31" "sibling (up_node h p i) < 2 ^ 31"
proof -
  have "(2::nat) ^ h \<le> 2 ^ 31" using assms(2) by (rule power_increasing) simp
  moreover have "up_node h p i \<le> lf h p" by (rule subnode_le [OF subnode_up_node [OF assms(1,4)]])
  ultimately show "up_node h p i < 2 ^ 31" "sibling (up_node h p i) < 2 ^ 31"
    using lf_leaf(1) [OF assms(1,3)] unfolding sibling_def by (auto simp del: One_nat_def)
qed

lemma Qos_remove_rep:
  assumes st: "qrep W Q a st" and w: "w \<in> W" and i: "i < length (k_ids (a w))" "i \<notin> k_rem (a w)"
  shows "\<exists>st'. Qos_remove Q w (k_ids (a w) ! i) setup st = Inr st' \<and> qc_height st' = qc_height st \<and>
    qrep W Q (a(w := (a w)\<lparr>k_rem := insert i (k_rem (a w))\<rparr>)) st'"
proof -
  let ?h = "qc_height st" and ?s = "k_src (a w)" and ?x = "k_ids (a w) ! i" and ?v = "view Q st w"
  have h: "1 \<le> ?h" "?h \<le> 31" "qenv_ok W Q" "qc_localStorage st" and rep: "kw_rep ?h (seal_id Q w) ?v (a w)"
    using st w by (auto simp: qrep_def)
  have ok: "cnt_ok ?s" "cnt_ok ?x" "length (k_ids (a w)) \<le> 2 ^ (?h - 1)" using rep i(1) by (auto simp: kw_rep_def kwst_ok_def)
  have p: "i < 2 ^ (?h - 1)" using i(1) ok(3) by simp
  have i31: "cnt_ok (int i)" using p pow_height [OF h(2)] by (simp add: cnt_ok_def)
  have n31: "cnt_ok (int (length (k_ids (a w)) - 1))" using ok(3) pow_height [OF h(2)] by (simp add: cnt_ok_def)
  obtain b where b: "getBid 16 w = Inr b" using getBid_short [of w] qenv_ok_kw [OF h(3) w] by auto
  have cnt: "cell Ocnt w st = show_pair ?s (int (length (k_ids (a w)) - 1))"
    using kw_rep_cnt [OF rep] i(1) by (auto simp: view_def)
  have del: "cell Odel (w @ ''-'' @ to_string ?x) st = to_string (int i)"
    using rep i ok(2) by (auto simp: kw_rep_def view_def)
  have col: "\<forall>y. v_col ?v y \<in> {[], ''2''}" using rep by (simp add: kw_rep_def)
  let ?N = "map (up_node ?h i) [0..<?h]" and ?S = "map (\<lambda>j. sibling (up_node ?h i j)) [0..<?h - 1]"
  have colN: "get_colors Q w setup (map int ?N) st = Inr (map (colour ?v) ?N, st)"
    "get_colors Q w setup (map int ?S) st = Inr (map (colour ?v) ?S, st)"
    using up_node_small [OF h(1,2) p] by (intro get_colors_local h(4) col; auto)+
  let ?r = "node_to_color (map (\<lambda>j. int (up_node ?h i j)) [0..<?h]) (map (\<lambda>j. colour ?v (up_node ?h i j)) [0..<?h])
      (2 # final_colors 2 (map (\<lambda>j. colour ?v (sibling (up_node ?h i j))) [0..<?h - 1]) (?h - 1))"
  have notcol: "colour ?v (lf ?h i) \<noteq> 2"
  proof -
    have "\<not> (\<exists>y. v_col ?v y = ''2'' \<and> subnode y (lf ?h i))" using rep i p by (auto simp: kw_rep_def covers_def)
    then show ?thesis using subnode_refl by (auto simp: colour_def)
  qed
  then obtain m where m: "?r = Some m" using node_to_color_spec(1) [OF h(1) p refl, of "colour ?v"] by (cases ?r) auto
  obtain x where x: "m = int x" "x + 1 < 2 ^ ?h" "subnode x (lf ?h i)"
    "\<forall>q<2 ^ (?h - 1). subnode x (lf ?h q) \<longrightarrow> q = i \<or> (\<exists>y. colour ?v y = 2 \<and> subnode y (lf ?h q))"
    using node_to_color_spec(2) [OF h(1) p m] by blast
  have x31: "x < 2 ^ 31" using x(3) subnode_le lf_small [OF h(1,2) p] by (meson le_less_trans)
  obtain z where z: "delete_entry Q w ?s (int x) = Inr (nlab Q DKey w ?s x, z)" using delete_entry_eq [OF h(3) w] by blast
  let ?st1 = "set_cell Ostate (w @ ''-'' @ to_string (int x)) ''2'' st"
  let ?st2 = "?st1\<lparr>qc_server := insertInDstate (nlab Q DKey w ?s x) z (qc_server ?st1)\<rparr>"
  have sib: "concat (map (\<lambda>d. sibling_of (getNodeOnPath ?h (int i) d)) (rev [1..<Suc ?h])) =
      map (\<lambda>j. int (sibling (up_node ?h i j))) [0..<?h - 1]"
    using siblings_eq [OF h(1) p] unfolding tree_nodes_eq [OF h(1), of i, symmetric] map_map comp_def .
  have run: "Qos_remove Q w ?x setup st = Inr ?st2"
    using b cnt del split_show_pair [OF ok(1) n31] stoi_to_string [OF cnt_ok_int32 [OF ok(1)]]
      stoi_to_string [OF cnt_ok_int32 [OF i31]] colN m x(1) z stoi_digit(3)
      tree_nodes_eq [OF h(1), of i] sib
    by (simp add: Qos_remove_def tab_get_local tab_put_local h(4) nth_or_error_def Let_def comp_def del: upt_Suc append.simps append_Cons)
  have e: "entry_ok ?s x" using ok x31 by (simp add: entry_ok_def)
  have v: "view Q ?st2 w' = (if w' = w then ?v\<lparr>v_col := (v_col ?v)(x := ''2''), v_D := upd2 ?s x (Some z) (v_D ?v)\<rparr> else view Q st w')"
    if "w' \<in> W" for w'
    by (simp only: view_insert_D [OF h(3) w that e] view_set_col [OF x31]) simp
  have "\<forall>q<2 ^ (?h - 1). subnode x (lf ?h q) \<longrightarrow> q = i \<or> (\<exists>y. v_col ?v y = ''2'' \<and> subnode y (lf ?h q))"
    using x(4) by (auto simp: colour_def split: if_splits)
  then have "kw_rep ?h (seal_id Q w') (view Q ?st2 w') ((a(w := (a w)\<lparr>k_rem := insert i (k_rem (a w))\<rparr>)) w')" if "w' \<in> W" for w'
    using kw_rep_remove [OF rep i h(1) x(3)] st that v [OF that] by (auto simp: qrep_def)
  then have "qrep W Q (a(w := (a w)\<lparr>k_rem := insert i (k_rem (a w))\<rparr>)) ?st2"
    using st by (simp add: qrep_def insertInDstate_def)
  then show ?thesis using run by (intro exI [of _ ?st2]) simp
qed

section \<open>The search\<close>

lemma take_values_spec:
  assumes lab: "\<And>y. y \<in> set ys \<Longrightarrow> node_label Q key (int y) = Inr (L y)" and inj: "inj_on L (set ys)"
  shows "distinct (map fst res) \<Longrightarrow> \<exists>res' I'. take_values Q key (map int ys) res I = Inr (res', I') \<and> distinct (map fst res') \<and>
    map_of res' = (\<lambda>i. if \<exists>y\<in>set ys. i = int y \<and> map_of I (L y) \<noteq> None then map_of I (L (nat i)) else map_of res i) \<and>
    map_of I' = (\<lambda>k. if k \<in> L ` set ys then None else map_of I k)"
  using lab inj
proof (induction ys arbitrary: res I)
  case (Cons y ys)
  have inj: "inj_on L (set ys)" and lab: "node_label Q key (int y) = Inr (L y)" "\<And>y. y \<in> set ys \<Longrightarrow> node_label Q key (int y) = Inr (L y)"
    using Cons.prems by auto
  have Ly: "y = y'" if "y' \<in> set ys" "L y = L y'" for y' using Cons.prems(3) that by (auto simp: inj_on_def)
  show ?case
  proof (cases "map_of I (L y)")
    case None
    obtain res' I' where "take_values Q key (map int ys) res I = Inr (res', I')" "distinct (map fst res')"
      "map_of res' = (\<lambda>i. if \<exists>y\<in>set ys. i = int y \<and> map_of I (L y) \<noteq> None then map_of I (L (nat i)) else map_of res i)"
      "map_of I' = (\<lambda>k. if k \<in> L ` set ys then None else map_of I k)"
      using Cons.IH [OF Cons.prems(1) lab(2) inj, of I] by blast
    then show ?thesis using None lab(1) by (auto simp: fun_eq_iff)
  next
    case (Some v)
    have d: "distinct (map fst (AList.update (int y) v res))" using Cons.prems(1) by (simp add: distinct_update)
    obtain res' I' where r: "take_values Q key (map int ys) (AList.update (int y) v res) (AList.delete (L y) I) = Inr (res', I')" "distinct (map fst res')"
      "map_of res' = (\<lambda>i. if \<exists>y'\<in>set ys. i = int y' \<and> map_of (AList.delete (L y) I) (L y') \<noteq> None then map_of (AList.delete (L y) I) (L (nat i)) else map_of (AList.update (int y) v res) i)"
      "map_of I' = (\<lambda>k. if k \<in> L ` set ys then None else map_of (AList.delete (L y) I) k)"
      using Cons.IH [OF d lab(2) inj, of "AList.delete (L y) I"] by blast
    have "map_of res' i = (if \<exists>y'\<in>set (y # ys). i = int y' \<and> map_of I (L y') \<noteq> None then map_of I (L (nat i)) else map_of res i)" for i
      unfolding r(3) using Some by (auto simp: map_of_delete_apply map_of_update_apply dest: Ly)
    moreover have "map_of I' = (\<lambda>k. if k \<in> L ` set (y # ys) then None else map_of I k)"
      unfolding r(4) by (auto simp: fun_eq_iff map_of_delete_apply)
    ultimately show ?thesis using Some lab(1) r(1,2) by (auto simp: fun_eq_iff)
  qed
qed (simp add: fun_eq_iff)

lemma sorted_alist_unique:
  assumes "map_of xs = map_of ys" "distinct (map fst xs)" "distinct (map fst ys)" "sorted (map fst ys)"
  shows "sort_key fst xs = (ys :: ('a::linorder \<times> 'b) list)"
proof -
  have s: "set xs = set ys" using assms(1-3) map_of_inject_set by blast
  have d: "distinct (map fst (sort_key fst xs))"
    using assms(2) mset_eq_imp_distinct_iff [of "map fst (sort_key fst xs)" "map fst xs"] by simp
  have "inj_on fst (set (sort_key fst xs) \<union> set ys)" using assms(3) s by (simp add: distinct_map)
  then show ?thesis using d assms(3,4) s by (intro map_sorted_distinct_set_unique [where f = fst]) auto
qed

lemma decode_ids_eq:
  assumes "qenv_ok W Q" "w \<in> W"
  shows "\<forall>x\<in>set xs. cnt_ok (f x) \<Longrightarrow> decode_ids Q (map (\<lambda>x. (g x, seal_id Q w (f x))) xs) = Inr (map f xs)"
proof (induction xs)
  case (Cons x xs)
  obtain p where "decode_bytes (q_dec Q) (q_stack Q) (Some secretKey) (seal_id Q w (f x)) = Inr p" "get_int 11 p = f x"
    using open_id [OF assms cnt_ok_int32, of "f x"] Cons.prems by (auto simp: res_simps)
  then show ?case using Cons by (simp add: AES_KEY_SIZE_def)
qed simp

lemma new_entries_eq:
  assumes "qenv_ok W Q" "w \<in> W"
  shows "new_entries Q w s (map (\<lambda>x. (int (g x), f x)) xs) = Inr (map (\<lambda>x. (nlab Q IKey w s (g x), seal_id Q w (f x))) xs)"
  using index_entry_eq [OF assms] by (induction xs) auto

lemma new_deletes_eq:
  assumes "qenv_ok W Q" "w \<in> W"
  shows "\<exists>z. \<forall>s ys. new_deletes Q w s (map int ys) = Inr (map (\<lambda>y. (nlab Q DKey w s y, z)) ys)"
proof -
  obtain z where z: "\<And>s y. delete_entry Q w s (int y) = Inr (nlab Q DKey w s y, z)" using delete_entry_eq [OF assms] by blast
  have "new_deletes Q w s (map int ys) = Inr (map (\<lambda>y. (nlab Q DKey w s y, z)) ys)" for s ys
    using z by (induction ys) auto
  then show ?thesis by blast
qed

lemma fold_insert_I:
  "qs_Dstate (fold (\<lambda>(k, v). Qos_Server_insert k v) es s) = qs_Dstate s"
  "qs_height (fold (\<lambda>(k, v). Qos_Server_insert k v) es s) = qs_height s"
  "map_of (qs_I (fold (\<lambda>(k, v). Qos_Server_insert k v) es s)) = (map_of (qs_I s)) ++ map_of (rev es)"
  by (induction es arbitrary: s) (auto simp: Qos_Server_insert_def update_conv' fun_eq_iff map_add_def split: option.splits)

lemma fold_insert_D:
  "qs_I (fold (\<lambda>(k, v). insertInDstate k v) ds s) = qs_I s"
  "qs_height (fold (\<lambda>(k, v). insertInDstate k v) ds s) = qs_height s"
  "map_of (qs_Dstate (fold (\<lambda>(k, v). insertInDstate k v) ds s)) = (map_of (qs_Dstate s)) ++ map_of (rev ds)"
  by (induction ds arbitrary: s) (auto simp: insertInDstate_def update_conv' fun_eq_iff map_add_def split: option.splits)

lemma insert_all_fields:
  "qs_height (Qos_Server_insert_all es ds s) = qs_height s"
  "map_of (qs_I (Qos_Server_insert_all es ds s)) = (map_of (qs_I s)) ++ map_of (rev es)"
  "map_of (qs_Dstate (Qos_Server_insert_all es ds s)) = (map_of (qs_Dstate s)) ++ map_of (rev ds)"
  by (simp_all add: Qos_Server_insert_all_def fold_insert_I fold_insert_D)

text \<open>The positions that are not removed, in increasing order.\<close>

definition live_pos :: "kwst \<Rightarrow> nat list" where
  "live_pos a = filter (\<lambda>i. i \<notin> k_rem a) [0..<length (k_ids a)]"

lemma live_live_pos: "live a = map (\<lambda>i. k_ids a ! i) (live_pos a)"
  by (simp add: live_def live_pos_def)

lemma sorted_live_pos: "sorted (live_pos a)" "distinct (live_pos a)"
  by (simp_all add: live_pos_def sorted_wrt_filter)

lemma lf_mono: "p < q \<Longrightarrow> lf h p < lf h q"
proof -
  have "(1::nat) \<le> 2 ^ (h - 1)" by simp
  then show "p < q \<Longrightarrow> lf h p < lf h q" unfolding lf_def by linarith
qed

lemma node_entry: "h \<le> 31 \<Longrightarrow> y + 1 < 2 ^ h \<Longrightarrow> y < (2::nat) ^ 31"
proof -
  assume "h \<le> 31" "y + 1 < 2 ^ h"
  moreover from this(1) have "(2::nat) ^ h \<le> 2 ^ 31" by (rule power_increasing) simp
  ultimately show "y < 2 ^ 31" by linarith
qed

lemma nlab_inj_on:
  assumes "qenv_ok W Q" "w \<in> W" "length X = 16" "cnt_ok s"
  shows "inj_on (nlab Q X w s) {y. y < 2 ^ 31}"
  using nlab_inj [OF assms(1,3) assms(2) assms(2) assms(4,4)] by (auto simp: inj_on_def)

text \<open>The answer of the server: the sealed identifiers of the live positions and the coloured nodes it met.\<close>

lemma Qos_Server_search_rep:
  assumes Q: "qenv_ok W Q" and w: "w \<in> W" and h: "1 \<le> qs_height srv" "qs_height srv \<le> 31"
    and rep: "kw_rep (qs_height srv) (seal_id Q w) v a" and ne: "k_ids a \<noteq> []"
    and D: "\<And>y. y < 2 ^ 31 \<Longrightarrow> v_D v (k_src a) y = map_of (qs_Dstate srv) (nlab Q DKey w (k_src a) y)"
    and I: "\<And>y. y < 2 ^ 31 \<Longrightarrow> v_I v (k_src a) y = map_of (qs_I srv) (nlab Q IKey w (k_src a) y)"
  shows "\<exists>hs srv'. Qos_Server_search Q (bitwiseXOR IKey (phi Q w (k_src a))) (bitwiseXOR DKey (phi Q w (k_src a)))
        (int (length (k_ids a) - 1)) srv =
      Inr (map (\<lambda>p. (int (lf (qs_height srv) p), seal_id Q w (k_ids a ! p))) (live_pos a), map int hs, srv') \<and>
    qs_height srv' = qs_height srv \<and> (\<forall>y\<in>set hs. y + 1 < 2 ^ qs_height srv) \<and>
    covers (qs_height srv) (\<lambda>y. y \<in> set hs) (k_rem a) \<and>
    map_of (qs_Dstate srv') = (\<lambda>k. if k \<in> nlab Q DKey w (k_src a) ` set hs then None else map_of (qs_Dstate srv) k) \<and>
    map_of (qs_I srv') = (\<lambda>k. if k \<in> (\<lambda>p. nlab Q IKey w (k_src a) (lf (qs_height srv) p)) ` set (live_pos a) then None else map_of (qs_I srv) k)"
proof -
  let ?h = "qs_height srv" and ?s = "k_src a" and ?n = "length (k_ids a)"
  let ?B = "\<lambda>y. v_D v ?s y \<noteq> None" and ?L = "nlab Q DKey w ?s" and ?M = "nlab Q IKey w ?s"
  let ?xs = "cover ?h (?n - 1)"
  let ?F = "concat (map (\<lambda>x. fst (walk ?h ?B x)) ?xs)" and ?H = "concat (map (\<lambda>x. snd (walk ?h ?B x)) ?xs)"
  have ok: "cnt_ok ?s" "?n \<le> 2 ^ (?h - 1)" "k_rem a \<subseteq> {..<?n}" using rep by (auto simp: kw_rep_def kwst_ok_def)
  have cov: "covers ?h ?B (k_rem a)" using rep by (simp add: kw_rep_def)
  have a: "?n - 1 < 2 ^ (?h - 1)" using ok(2) ne by (cases "k_ids a") auto
  have Bp: "p \<le> ?n - 1" if "?B y" "p < 2 ^ (?h - 1)" "subnode y (lf ?h p)" for y p
  proof -
    have "p \<in> k_rem a" using cov that by (auto simp: covers_def)
    then show ?thesis using ok(3) by auto
  qed
  have cw: "set ?F = lf ?h ` {p. p \<le> ?n - 1 \<and> \<not> (\<exists>y. ?B y \<and> subnode y (lf ?h p))}"
    "set ?H \<subseteq> {y. ?B y \<and> y + 1 < 2 ^ ?h}"
    "\<And>p. p < 2 ^ (?h - 1) \<Longrightarrow> (\<exists>y\<in>set ?H. subnode y (lf ?h p)) \<longleftrightarrow> (\<exists>y. ?B y \<and> subnode y (lf ?h p))"
  proof -
    show "set ?F = lf ?h ` {p. p \<le> ?n - 1 \<and> \<not> (\<exists>y. ?B y \<and> subnode y (lf ?h p))}"
      by (rule cover_walk(1) [OF h(1) a]) (erule (2) Bp)
    show "set ?H \<subseteq> {y. ?B y \<and> y + 1 < 2 ^ ?h}"
      by (rule cover_walk(2) [OF h(1) a]) (erule (2) Bp)
    fix p :: nat assume p: "p < 2 ^ (?h - 1)"
    show "(\<exists>y\<in>set ?H. subnode y (lf ?h p)) \<longleftrightarrow> (\<exists>y. ?B y \<and> subnode y (lf ?h p))"
      by (rule cover_walk(3) [OF h(1) a _ p]) (erule (2) Bp)
  qed
  have "{y. y + 1 < 2 ^ ?h} \<subseteq> {y. y < (2::nat) ^ 31}" using node_entry [OF h(2)] by (intro Collect_mono) simp
  then have inj: "inj_on ?L {y. y + 1 < 2 ^ ?h}" "inj_on ?M {y. y < 2 ^ 31}"
    by (rule inj_on_subset [OF nlab_inj_on [OF Q w length_DKey(2) ok(1)]])
      (rule nlab_inj_on [OF Q w length_DKey(1) ok(1)])
  have labD: "node_label Q (bitwiseXOR DKey (phi Q w ?s)) (int y) = Inr (?L y)"
    and labI: "node_label Q (bitwiseXOR IKey (phi Q w ?s)) (int y) = Inr (?M y)" for y
    using node_label_eq [OF Q w] by simp_all
  obtain D' where D': "search_nodes Q ?h (bitwiseXOR DKey (phi Q w ?s)) (map int ?xs) [] [] (qs_Dstate srv) = Inr (map int ?F, map int ?H, D')"
    "map_of D' = (\<lambda>k. if k \<in> ?L ` set ?H then None else map_of (qs_Dstate srv) k)"
    using walk_search_nodes [OF h(1) labD inj(1) cover_valid(2) [OF h(1) a] cover_disjoint [OF h(1) a], of ?B "qs_Dstate srv" "[]" "[]"]
      D node_entry [OF h(2)] by auto
  have F: "set ?F = lf ?h ` set (live_pos a)"
  proof -
    have "{p. p \<le> ?n - 1 \<and> \<not> (\<exists>y. ?B y \<and> subnode y (lf ?h p))} = set (live_pos a)"
    proof (rule set_eqI)
      fix p
      have "p \<le> ?n - 1 \<longleftrightarrow> p < ?n" using ne by (cases "k_ids a") auto
      moreover have "(\<exists>y. ?B y \<and> subnode y (lf ?h p)) \<longleftrightarrow> p \<in> k_rem a" if "p < ?n"
        using cov that ok(2) unfolding covers_def by (meson less_le_trans)
      ultimately show "p \<in> {p. p \<le> ?n - 1 \<and> \<not> (\<exists>y. ?B y \<and> subnode y (lf ?h p))} \<longleftrightarrow> p \<in> set (live_pos a)"
        unfolding mem_Collect_eq live_pos_def set_filter set_upt atLeastLessThan_iff using le0 [of p] by blast
    qed
    then show ?thesis using cw(1) by (simp only:)
  qed
  have lfp: "lf ?h p < 2 ^ 31" if "p \<in> set (live_pos a)" for p
    using that ok(2) lf_small [OF h] by (auto simp: live_pos_def)
  have "inj_on ?M (set ?F)" using inj(2) lfp F by (auto intro: inj_on_subset)
  then obtain res I' where r: "take_values Q (bitwiseXOR IKey (phi Q w ?s)) (map int ?F) [] (qs_I srv) = Inr (res, I')"
    "distinct (map fst res)"
    "map_of res = (\<lambda>i. if \<exists>y\<in>set ?F. i = int y \<and> map_of (qs_I srv) (?M y) \<noteq> None then map_of (qs_I srv) (?M (nat i)) else map_of [] i)"
    "map_of I' = (\<lambda>k. if k \<in> ?M ` set ?F then None else map_of (qs_I srv) k)"
    using take_values_spec [OF labI, of ?F "[]" "qs_I srv"] by auto
  let ?res = "map (\<lambda>p. (int (lf ?h p), seal_id Q w (k_ids a ! p))) (live_pos a)"
  have val: "map_of (qs_I srv) (?M (lf ?h p)) = Some (seal_id Q w (k_ids a ! p))" if "p \<in> set (live_pos a)" for p
  proof -
    have "v_I v ?s (lf ?h p) = Some (seal_id Q w (k_ids a ! p))" using rep that by (auto simp: kw_rep_def live_pos_def)
    then show ?thesis using I [OF lfp [OF that]] by simp
  qed
  have sd: "sorted (map fst ?res)" "distinct (map fst ?res)"
    using sorted_live_pos [of a] lf_mono [of _ _ ?h] by (auto simp: sorted_map comp_def distinct_map inj_on_def lf_inj intro!: sorted_wrt_mono_rel [of _ "(\<le>)"]) (metis le_eq_less_or_eq)
  have "map_of res i = map_of ?res i" for i
  proof (cases "\<exists>p\<in>set (live_pos a). i = int (lf ?h p)")
    case True
    then obtain p where p: "p \<in> set (live_pos a)" "i = int (lf ?h p)" by blast
    then have "map_of ?res i = Some (seal_id Q w (k_ids a ! p))" using sd(2) by (intro map_of_is_SomeI) auto
    moreover have "map_of res i = Some (seal_id Q w (k_ids a ! p))" unfolding r(3) F using p val by auto
    ultimately show ?thesis by simp
  next
    case False
    then have "map_of ?res i = None" by (auto simp: map_of_eq_None_iff)
    then show ?thesis unfolding r(3) F using False by auto
  qed
  then have "sort_key fst res = ?res" using r(2) sd by (intro sorted_alist_unique) auto
  then have "Qos_Server_search Q (bitwiseXOR IKey (phi Q w ?s)) (bitwiseXOR DKey (phi Q w ?s)) (int (?n - 1)) srv =
      Inr (?res, map int ?H, srv\<lparr>qs_I := I', qs_Dstate := D'\<rparr>)"
    using D'(1) r(1) cover_valid(1) [OF h(1) a] by (simp add: Qos_Server_search_def)
  moreover have "\<forall>y\<in>set ?H. y + 1 < 2 ^ ?h" using cw(2) by auto
  moreover have "covers ?h (\<lambda>y. y \<in> set ?H) (k_rem a)" using cov cw(3) unfolding covers_def Bex_def by blast
  moreover have "map_of I' = (\<lambda>k. if k \<in> (\<lambda>p. ?M (lf ?h p)) ` set (live_pos a) then None else map_of (qs_I srv) k)"
    unfolding r(4) F by (simp add: image_image)
  ultimately show ?thesis using D'(2) by (intro exI [of _ ?H] exI [of _ "srv\<lparr>qs_I := I', qs_Dstate := D'\<rparr>"]) simp
qed

lemma map_of_rev_map:
  assumes "distinct (map f xs)"
  shows "map_of (rev (map (\<lambda>x. (f x, g x)) xs)) k = (if k \<in> f ` set xs then Some (g (the_inv_into (set xs) f k)) else None)"
proof (cases "k \<in> f ` set xs")
  case True
  then obtain x where x: "x \<in> set xs" "k = f x" by blast
  have "distinct (map fst (rev (map (\<lambda>x. (f x, g x)) xs)))" using assms by (simp add: rev_map [symmetric] comp_def)
  then have "map_of (rev (map (\<lambda>x. (f x, g x)) xs)) k = Some (g x)" using x by (intro map_of_is_SomeI) auto
  moreover have "the_inv_into (set xs) f k = x" using assms x by (simp add: distinct_map the_inv_into_f_f)
  ultimately show ?thesis using True by simp
qed (auto simp: map_of_eq_None_iff)

text \<open>The entries of other keywords and counts are not touched by the re-encryption.\<close>

lemma map_of_nlab_other:
  assumes "qenv_ok W Q" "length X = 16" "w \<in> W" "w' \<in> W" "cnt_ok s" "entry_ok j y" "\<forall>x\<in>set xs. g x < 2 ^ 31" "w' \<noteq> w \<or> j \<noteq> s"
  shows "map_of (rev (map (\<lambda>x. (nlab Q X w s (g x), f x)) xs)) (nlab Q X w' j y) = None"
proof -
  have "nlab Q X w' j y \<noteq> nlab Q X w s (g x)" if "x \<in> set xs" for x
    using nlab_inj [OF assms(1,2,4,3)] assms(5-8) that by (auto simp: entry_ok_def)
  then have "nlab Q X w' j y \<notin> fst ` set (rev (map (\<lambda>x. (nlab Q X w s (g x), f x)) xs))"
    by (simp add: image_image image_iff)
  then show ?thesis by (simp only: map_of_eq_None_iff not_False_eq_True)
qed

lemma Qos_search_rep:
  assumes st: "qrep W Q a st" and w: "w \<in> W" and ne: "k_ids (a w) \<noteq> []" and s: "cnt_ok (k_src (a w) + 1)"
  shows "\<exists>st'. Qos_search Q w st = Inr (live (a w), st') \<and> qc_height st' = qc_height st \<and>
    qrep W Q (a(w := (a w)\<lparr>k_src := k_src (a w) + 1\<rparr>)) st'"
proof -
  let ?h = "qc_height st" and ?s = "k_src (a w)" and ?n = "length (k_ids (a w))" and ?v = "view Q st w" and ?srv = "qc_server st"
  have h: "1 \<le> ?h" "?h \<le> 31" "qenv_ok W Q" "qc_localStorage st" "qs_height ?srv = ?h"
    and rep: "kw_rep ?h (seal_id Q w) ?v (a w)"
    using st w by (auto simp: qrep_def)
  have ok: "cnt_ok ?s" "?n \<le> 2 ^ (?h - 1)" "\<forall>x\<in>set (k_ids (a w)). cnt_ok x" using rep by (auto simp: kw_rep_def kwst_ok_def)
  obtain hs srv' where r: "Qos_Server_search Q (bitwiseXOR IKey (phi Q w ?s)) (bitwiseXOR DKey (phi Q w ?s)) (int (?n - 1)) ?srv =
      Inr (map (\<lambda>p. (int (lf ?h p), seal_id Q w (k_ids (a w) ! p))) (live_pos (a w)), map int hs, srv')"
    "qs_height srv' = ?h" "\<forall>y\<in>set hs. y + 1 < 2 ^ ?h" "covers ?h (\<lambda>y. y \<in> set hs) (k_rem (a w))"
    "map_of (qs_Dstate srv') = (\<lambda>k. if k \<in> nlab Q DKey w ?s ` set hs then None else map_of (qs_Dstate ?srv) k)"
    "map_of (qs_I srv') = (\<lambda>k. if k \<in> (\<lambda>p. nlab Q IKey w ?s (lf ?h p)) ` set (live_pos (a w)) then None else map_of (qs_I ?srv) k)"
    using Qos_Server_search_rep [OF h(3) w, of ?srv ?v "a w"] h ok(1) rep ne by (auto simp: view_def entry_ok_def)
  obtain z where z: "\<And>s ys. new_deletes Q w s (map int ys) = Inr (map (\<lambda>y. (nlab Q DKey w s y, z)) ys)"
    using new_deletes_eq [OF h(3) w] by blast
  obtain b where b: "getBid 16 w = Inr b" using getBid_short [of w] qenv_ok_kw [OF h(3) w] by auto
  have cnt: "cell Ocnt w st = show_pair ?s (int (?n - 1))" using kw_rep_cnt [OF rep] ne by (auto simp: view_def)
  have n31: "?n - 1 < 2 ^ 31" using ok(2) pow_height [OF h(2)] by simp
  let ?es = "map (\<lambda>p. (nlab Q IKey w (?s + 1) (lf ?h p), seal_id Q w (k_ids (a w) ! p))) (live_pos (a w))"
  let ?ds = "map (\<lambda>y. (nlab Q DKey w (?s + 1) y, z)) hs"
  let ?st1 = "set_cell Ocnt w (show_pair (?s + 1) (int (?n - 1))) st"
  let ?st2 = "?st1\<lparr>qc_server := Qos_Server_insert_all ?es ?ds srv'\<rparr>"
  have pos: "p < ?n" "p \<notin> k_rem (a w)" "lf ?h p < 2 ^ 31" if "p \<in> set (live_pos (a w))" for p
    using that lf_small [OF h(1,2)] ok(2) by (auto simp: live_pos_def)
  have dec: "decode_ids Q (map (\<lambda>p. (int (lf ?h p), seal_id Q w (k_ids (a w) ! p))) (live_pos (a w))) = Inr (live (a w))"
    using decode_ids_eq [OF h(3) w, of "live_pos (a w)" "\<lambda>p. k_ids (a w) ! p" "\<lambda>p. int (lf ?h p)"] pos(1) ok(3) by (simp add: live_live_pos)
  have zip: "zip (map fst (map (\<lambda>p. (int (lf ?h p), seal_id Q w (k_ids (a w) ! p))) (live_pos (a w)))) (live (a w)) =
      map (\<lambda>p. (int (lf ?h p), k_ids (a w) ! p)) (live_pos (a w))"
    by (simp add: live_live_pos comp_def zip_map_map zip_same_conv_map)
  have run: "Qos_search Q w st = Inr (live (a w), ?st2)"
    using b cnt parse_pair_cnt [OF ok(1) n31] r(1) dec zip z new_entries_eq [OF h(3) w, of "?s + 1" "lf ?h"] qenv_ok_kw [OF h(3) w] kw_block_eq [of w]
    by (simp add: Qos_search_def tab_get_local tab_put_local h(4) qos_phi Let_def)
  let ?D = "v_D (view Q ?st2 w)" and ?I = "v_I (view Q ?st2 w)"
  have h31: "\<forall>y\<in>set hs. y < 2 ^ 31" using r(3) node_entry [OF h(2)] by blast
  have es31: "\<forall>p\<in>set (live_pos (a w)). lf ?h p < 2 ^ 31" using pos(3) by blast
  have keepD: "map_of (qs_Dstate srv') (nlab Q DKey w' j y) = map_of (qs_Dstate ?srv) (nlab Q DKey w' j y)"
    and keepI: "map_of (qs_I srv') (nlab Q IKey w' j y) = map_of (qs_I ?srv) (nlab Q IKey w' j y)"
    if "w' \<in> W" "entry_ok j y" "w' \<noteq> w \<or> j \<noteq> ?s" for w' j y
  proof -
    have "nlab Q DKey w' j y \<notin> nlab Q DKey w ?s ` set hs"
      using nlab_inj [OF h(3) length_DKey(2) that(1) w] that(2,3) ok(1) h31 by (auto simp: entry_ok_def)
    then show "map_of (qs_Dstate srv') (nlab Q DKey w' j y) = map_of (qs_Dstate ?srv) (nlab Q DKey w' j y)" using r(5) by simp
    have "nlab Q IKey w' j y \<notin> (\<lambda>p. nlab Q IKey w ?s (lf ?h p)) ` set (live_pos (a w))"
      using nlab_inj [OF h(3) length_DKey(1) that(1) w] that(2,3) ok(1) es31 by (auto simp: entry_ok_def)
    then show "map_of (qs_I srv') (nlab Q IKey w' j y) = map_of (qs_I ?srv) (nlab Q IKey w' j y)" using r(6) by simp
  qed
  have same: "map_of (qs_Dstate (qc_server ?st2)) (nlab Q DKey w' j y) = map_of (qs_Dstate ?srv) (nlab Q DKey w' j y)"
    "map_of (qs_I (qc_server ?st2)) (nlab Q IKey w' j y) = map_of (qs_I ?srv) (nlab Q IKey w' j y)"
    if "w' \<in> W" "entry_ok j y" "w' \<noteq> w \<or> j \<noteq> ?s \<and> j \<noteq> ?s + 1" for w' j y
    using that keepD [OF that(1,2)] keepI [OF that(1,2)]
      map_of_nlab_other [OF h(3) length_DKey(2) w that(1) s that(2) h31, of "\<lambda>y. z"]
      map_of_nlab_other [OF h(3) length_DKey(1) w that(1) s that(2) es31, of "\<lambda>p. seal_id Q w (k_ids (a w) ! p)"]
    by (auto simp: insert_all_fields map_add_def)
  have other: "view Q ?st2 w' = view Q st w'" if "w' \<in> W" "w' \<noteq> w" for w'
    using same [OF that(1)] that(2) by (auto simp: view_def cell_set_cell fun_eq_iff)
  have vw: "view Q ?st2 w = ?v\<lparr>v_cnt := show_pair (?s + 1) (int ?n - 1), v_D := ?D, v_I := ?I\<rparr>"
    using ne by (cases "k_ids (a w)") (auto simp: view_def cell_set_cell fun_eq_iff)
  have fresh: "v_I ?v j y = None" "v_D ?v j y = None" if "?s < j" for j y using rep that by (auto simp: kw_rep_def)
  have newD: "?D (?s + 1) y \<noteq> None \<longleftrightarrow> y \<in> set hs" for y
  proof (cases "entry_ok (?s + 1) y")
    case True
    have "map_of (qs_Dstate srv') (nlab Q DKey w (?s + 1) y) = None"
      using keepD [OF w True] fresh(2) [of "?s + 1" y] True by (auto simp: view_def)
    moreover have "nlab Q DKey w (?s + 1) y \<in> fst ` set (rev ?ds) \<longleftrightarrow> y \<in> set hs"
      using nlab_inj [OF h(3) length_DKey(2) w w s s] True h31 by (auto simp: entry_ok_def image_iff)
    ultimately show ?thesis
      using True map_of_eq_None_iff [of "rev ?ds" "nlab Q DKey w (?s + 1) y"]
      by (auto simp: view_def insert_all_fields map_add_def split: option.splits)
  next
    case False
    then show ?thesis using h31 s by (auto simp: view_def entry_ok_def)
  qed
  have newI: "?I (?s + 1) (lf ?h p) = Some (seal_id Q w (k_ids (a w) ! p))" if "p < ?n" "p \<notin> k_rem (a w)" for p
  proof -
    have p: "p \<in> set (live_pos (a w))" using that by (simp add: live_pos_def)
    have "distinct (map fst (rev ?es))"
      using nlab_inj [OF h(3) length_DKey(1) w w s s] es31 sorted_live_pos(2) [of "a w"]
      by (auto simp: rev_map [symmetric] comp_def distinct_map inj_on_def lf_inj)
    then have "map_of (rev ?es) (nlab Q IKey w (?s + 1) (lf ?h p)) = Some (seal_id Q w (k_ids (a w) ! p))"
      using p by (intro map_of_is_SomeI) auto
    then show ?thesis using pos(3) [OF p] s by (simp add: view_def insert_all_fields entry_ok_def)
  qed
  have freshJ: "?I j y = None \<and> ?D j y = None" if "?s + 1 < j" for j y
    using same [OF w, of j y] fresh [of j y] that by (auto simp: view_def)
  have "covers ?h (\<lambda>y. ?D (?s + 1) y \<noteq> None) (k_rem (a w))" using r(4) newD by simp
  then have "kw_rep ?h (seal_id Q w) (view Q ?st2 w) ((a w)\<lparr>k_src := ?s + 1\<rparr>)"
    by (subst vw) (intro kw_rep_search [OF rep s ne] newI freshJ, simp_all)
  then have "qrep W Q (a(w := (a w)\<lparr>k_src := ?s + 1\<rparr>)) ?st2"
    using st other r(2) by (auto simp: qrep_def insert_all_fields)
  then show ?thesis using run by (intro exI [of _ ?st2]) simp
qed

section \<open>Refinement of the database\<close>

text \<open>The operations of the client as one step function; the output of an update is empty.\<close>

fun qos_step :: "qenv \<Rightarrow> sse_op \<Rightarrow> qos \<Rightarrow> (int list \<times> qos) res" where
  "qos_step Q (Ins w x) st = ebind (Qos_insert Q w x False st) (\<lambda>st. Inr ([], st))"
| "qos_step Q (Del w x) st = ebind (Qos_remove Q w x False st) (\<lambda>st. Inr ([], st))"
| "qos_step Q (Srch w) st = Qos_search Q w st"

text \<open>
  Admissible operations: a keyword holds at most \<open>cap\<close> insertions, an identifier is inserted
  when it is not live and removed when it is, a keyword is searched after its first insertion.
\<close>

fun qos_ok :: "string set \<Rightarrow> nat \<Rightarrow> sse_op \<Rightarrow> sse \<Rightarrow> bool" where
  "qos_ok W cap (Ins w x) a \<longleftrightarrow> w \<in> W \<and> cnt_ok x \<and> x \<notin> set (s_db a w) \<and> s_ins a w < cap"
| "qos_ok W cap (Del w x) a \<longleftrightarrow> w \<in> W \<and> x \<in> set (s_db a w)"
| "qos_ok W cap (Srch w) a \<longleftrightarrow> w \<in> W \<and> 0 < s_ins a w \<and> s_srch a w + 1 < 2 ^ 31"

definition qos_rel :: "string set \<Rightarrow> qenv \<Rightarrow> nat \<Rightarrow> sse \<Rightarrow> qos \<Rightarrow> bool" where
  "qos_rel W Q h a st \<longleftrightarrow> qc_height st = h \<and>
     (\<exists>b. qrep W Q b st \<and> (\<forall>w\<in>W. s_db a w = live (b w) \<and> s_ins a w = length (k_ids (b w)) \<and> int (s_srch a w) = k_src (b w)))"

interpretation qos: simulation "qos_rel W Q h" "qos_ok W (2 ^ (h - 1))" sse_step "qos_step Q" for W Q h
proof
  fix a st p assume rel: "qos_rel W Q h a st" and ok: "qos_ok W (2 ^ (h - 1)) p a"
  obtain b where h: "qc_height st = h" and b: "qrep W Q b st"
    and ab: "\<And>w. w \<in> W \<Longrightarrow> s_db a w = live (b w) \<and> s_ins a w = length (k_ids (b w)) \<and> int (s_srch a w) = k_src (b w)"
    using rel by (auto simp: qos_rel_def)
  show "\<exists>t. qos_step Q p st = Inr (fst (sse_step p a), t) \<and> qos_rel W Q h (snd (sse_step p a)) t"
  proof (cases p)
    case (Ins w x)
    then have w: "w \<in> W" "cnt_ok x" "x \<notin> set (live (b w))" "length (k_ids (b w)) < 2 ^ (qc_height st - 1)" using ok ab h by auto
    have "live ((b w)\<lparr>k_ids := k_ids (b w) @ [x]\<rparr>) = live (b w) @ [x]"
      using live_insert [of h "b w" x] b w(1) h by (auto simp: qrep_def kw_rep_def)
    then show ?thesis
      using Qos_insert_rep [OF b w(1,4,2,3), of False] Ins ab h
      by (auto simp: qos_rel_def intro!: exI [of _ "b(w := (b w)\<lparr>k_ids := k_ids (b w) @ [x]\<rparr>)"])
  next
    case (Del w x)
    then have w: "w \<in> W" "x \<in> set (live (b w))" using ok ab by auto
    obtain i where i: "i < length (k_ids (b w))" "i \<notin> k_rem (b w)" "x = k_ids (b w) ! i" using w(2) by (auto simp: set_live)
    have "live ((b w)\<lparr>k_rem := insert i (k_rem (b w))\<rparr>) = filter (\<lambda>y. y \<noteq> x) (live (b w))"
      using live_remove [of h "b w" i] b w(1) h i by (auto simp: qrep_def kw_rep_def)
    then show ?thesis
      using Qos_remove_rep [OF b w(1) i(1,2), of False] Del ab h i(3)
      by (auto simp: qos_rel_def intro!: exI [of _ "b(w := (b w)\<lparr>k_rem := insert i (k_rem (b w))\<rparr>)"])
  next
    case (Srch w)
    then have w: "w \<in> W" "k_ids (b w) \<noteq> []" "cnt_ok (k_src (b w) + 1)"
      using ok ab [of w] by (auto simp: cnt_ok_def)
    have "live ((b w)\<lparr>k_src := k_src (b w) + 1\<rparr>) = live (b w)" by (simp add: live_def)
    then show ?thesis
      using Qos_search_rep [OF b w] Srch ab h w(1)
      by (auto simp: qos_rel_def intro!: exI [of _ "b(w := (b w)\<lparr>k_src := k_src (b w) + 1\<rparr>)"])
  qed
qed

section \<open>Properties\<close>

lemma qos_rel_new:
  assumes "qenv_ok W Q" "Qos_Client_new Q N ks = Inr st" "N \<le> 2 ^ 30"
  shows "qos_rel W Q (qos_ceil_log2 N + 1) sse_empty (st\<lparr>qc_localStorage := True\<rparr>)"
proof -
  have "qos_ceil_log2 N \<le> 30"
  proof (cases "N \<le> 1")
    case False
    then have "2 ^ ilog2 (N - 1) \<le> N - 1" using ilog2_bounds [of "N - 1"] by simp
    also have "N - 1 < 2 ^ 30" using assms(3) False by simp
    finally have "ilog2 (N - 1) < 30" by (rule power_less_imp_less_exp [rotated]) simp
    then show ?thesis by (simp add: qos_ceil_log2_def)
  qed (simp add: qos_ceil_log2_def)
  then have "qrep W Q (\<lambda>_. \<lparr>k_ids = [], k_rem = {}, k_src = 0\<rparr>) (st\<lparr>qc_localStorage := True\<rparr>)"
    using assms(1,2)
    by (auto simp: qrep_def kw_rep_def kwst_ok_def live_def covers_def cnt_ok_def view_def cell_def tab_lookup_def
        Qos_Client_new_def Qos_Server_new_def res_simps)
  then show ?thesis
    using assms(2) by (auto simp: qos_rel_def sse_empty_def live_def Qos_Client_new_def res_simps
        intro!: exI [of _ "\<lambda>_. \<lparr>k_ids = [], k_rem = {}, k_src = 0\<rparr>"])
qed

text \<open>
  (C4) QOS with local storage, end to end: every admissible sequence of insertions, removals and
  searches runs without an error, and each search returns the live identifiers of its keyword
  in the order of insertion, as in the database specification.
\<close>

theorem qos_refines_database:
  assumes "qenv_ok W Q" "Qos_Client_new Q N ks = Inr st" "N \<le> 2 ^ 30"
    "all_ok (qos_ok W (2 ^ qos_ceil_log2 N)) sse_step ps sse_empty"
  shows "\<exists>st'. crun (qos_step Q) ps (st\<lparr>qc_localStorage := True\<rparr>) = Inr (fst (arun sse_step ps sse_empty), st')"
  using qos.run_outputs [OF qos_rel_new [OF assms(1-3)], of ps] assms(4) by simp

text \<open>A generator, a cipher and a keyword set that satisfy the assumptions.\<close>

definition toy_qenv :: qenv where
  "toy_qenv = \<lparr>q_E = toy_env Qos, q_fuel = 50, q_enc = pad_enc, q_dec = pad_dec, q_prg = (\<lambda>b. drop 12 b @ take 12 b),
     q_stack = replicate 16 0, q_rand = int\<rparr>"

lemma qenv_ok_toy: "qenv_ok {''a'', ''b''} toy_qenv"
proof -
  have p: "pad16 ''a'' = byte_of_char CHR ''a'' # replicate 15 0" "pad16 ''b'' = byte_of_char CHR ''b'' # replicate 15 0"
    by (simp_all add: pad16_def string_bytes_def)
  have t: "take 11 (phi toy_qenv w s) = le32 s @ take 7 (pad16 w)" if "length (pad16 w) = 16" for w s
    using that by (simp add: phi_def toy_qenv_def put_int_def)
  have ab: "byte_of_char CHR ''a'' \<noteq> byte_of_char CHR ''b''" by code_simp
  have "inj_on (\<lambda>(w, s). take 11 (phi toy_qenv w s)) ({''a'', ''b''} \<times> Collect cnt_ok)"
    using t p ab by (auto simp: inj_on_def le32_inj cnt_ok_int32)
  moreover have "length (drop 12 b @ take 12 b) = 16" if "length b = 16" for b :: bytes using that by simp
  ultimately show ?thesis using cipher_ok_pad by (simp add: qenv_ok_def toy_qenv_def)
qed

lemma toy_client_new: "\<exists>st. Qos_Client_new toy_qenv 4 4 = Inr st"
proof -
  have "(case Qos_Client_new toy_qenv 4 4 of Inl _ \<Rightarrow> False | Inr _ \<Rightarrow> True)" by code_simp
  then show ?thesis by (auto split: sum.splits)
qed

theorem qos_refines_database_witness:
  "\<exists>st st'. Qos_Client_new toy_qenv 4 4 = Inr st \<and>
     crun (qos_step toy_qenv) [Ins ''a'' 7, Ins ''a'' 8, Ins ''b'' 9, Del ''a'' 7, Srch ''a'', Srch ''b'']
       (st\<lparr>qc_localStorage := True\<rparr>) = Inr ([[], [], [], [], [8], [9]], st')"
proof -
  obtain st where st: "Qos_Client_new toy_qenv 4 4 = Inr st" using toy_client_new by blast
  have "qos_ceil_log2 4 = 2" by code_simp
  then show ?thesis
    using qos_refines_database [OF qenv_ok_toy st, of "[Ins ''a'' 7, Ins ''a'' 8, Ins ''b'' 9, Del ''a'' 7, Srch ''a'', Srch ''b'']"] st
    by (simp add: sse_empty_def cnt_ok_def)
qed

end
