(* ===== verification/Prf_Oram.thy ===== *)
theory Prf_Oram
  imports Omap
begin

text \<open>
  \<open>PRFORAM\<close> (\<open>horus/PRFORAM.cpp\<close>): the Path ORAM of the Horus scheme whose positions are chosen by
  the caller. Boxes hold an identifier, 16 bytes and a position. Every access writes the whole
  path back, so between accesses only boxes that did not fit remain in the stash. The stash is a
  \<open>std::map\<close>, iterated in the order of the identifiers.
\<close>

section \<open>Types\<close>

record box =
  x_key :: bid
  x_value :: bytes
  x_pos :: int

record prforam =
  p_depth :: nat
  p_bucketCount :: nat
  p_blockSize :: nat
  p_clen_size :: nat
  p_plaintext_size :: nat
  p_key :: bytes
  p_store :: ramstore
  p_stash :: "(bid \<times> box option) list"
  p_viewmap :: "int list"
  p_totalRead :: nat
  p_totalWrite :: nat
  p_ivs :: nat

definition sizeof_Box :: nat where "sizeof_Box = 56"

definition convertBoxToBlock :: "env \<Rightarrow> box \<Rightarrow> bytes" where
  "convertBoxToBlock E x = e_vptr E @ bid_id (x_key x) @ x_value x @ le32 (x_pos x) @ e_pad E"

definition convertBlockToBox :: "bytes \<Rightarrow> box res" where
  "convertBlockToBox b =
     (if length b < sizeof_Box then Inl BadIndex
      else Inr \<lparr>x_key = Bid (slice 8 24 b), x_value = slice 32 16 b, x_pos = get_int 48 b\<rparr>)"

section \<open>Buckets\<close>

definition GetBoxOnPath :: "prforam \<Rightarrow> int \<Rightarrow> nat \<Rightarrow> int" where
  "GetBoxOnPath st leaf curDepth = up_path (p_depth st - curDepth) (leaf + int (p_bucketCount st div 2))"

definition box_SerialiseBucket :: "prforam \<Rightarrow> bucket \<Rightarrow> bytes res" where
  "box_SerialiseBucket st bkt =
     (let buffer = concat (map b_data bkt)
      in if length buffer = Z * p_blockSize st then Inr buffer else Inl AssertFailed)"

fun box_deserialise_loop :: "nat \<Rightarrow> nat \<Rightarrow> bytes \<Rightarrow> bucket res" where
  "box_deserialise_loop sz 0 buffer = Inr []"
| "box_deserialise_loop sz (Suc z) buffer =
     (let data = take sz buffer
      in ebind (convertBlockToBox data) (\<lambda>x.
         ebind (box_deserialise_loop sz z (drop sz buffer)) (\<lambda>rest.
         Inr (\<lparr>b_id = x_key x, b_data = data\<rparr> # rest))))"

definition box_DeserialiseBucket :: "prforam \<Rightarrow> bytes \<Rightarrow> bucket res" where
  "box_DeserialiseBucket st buffer =
     (if length buffer = Z * p_blockSize st then box_deserialise_loop (p_blockSize st) Z buffer
      else Inl AssertFailed)"

definition box_ReadBucket :: "env \<Rightarrow> prforam \<Rightarrow> int \<Rightarrow> (bucket \<times> prforam) res" where
  "box_ReadBucket E st index =
     (let st = st\<lparr>p_totalRead := p_totalRead st + 1\<rparr>
      in ebind (RAMStore_Read (p_store st) index) (\<lambda>ciphertext.
         ebind (Decrypt (e_dec E) (p_key st) ciphertext (p_clen_size st)) (\<lambda>buffer.
         ebind (box_DeserialiseBucket st buffer) (\<lambda>bkt. Inr (bkt, st)))))"

definition box_WriteBucket :: "env \<Rightarrow> prforam \<Rightarrow> int \<Rightarrow> bucket \<Rightarrow> prforam res" where
  "box_WriteBucket E st index bkt =
     (let iv = e_iv E (p_ivs st);
          st = st\<lparr>p_totalWrite := p_totalWrite st + 1, p_ivs := p_ivs st + 1\<rparr>
      in ebind (box_SerialiseBucket st bkt) (\<lambda>b.
         ebind (Encrypt (e_enc E) iv (p_key st) b (p_clen_size st) (p_plaintext_size st)) (\<lambda>ciphertext.
         ebind (RAMStore_Write (p_store st) index ciphertext) (\<lambda>s.
         Inr (st\<lparr>p_store := s\<rparr>)))))"

definition box_dummy_blk :: "env \<Rightarrow> prforam \<Rightarrow> blk" where
  "box_dummy_blk E st = \<lparr>b_id = Bid_int 24 0, b_data = replicate (p_blockSize st) 0\<rparr>"

fun box_write_empty :: "env \<Rightarrow> nat list \<Rightarrow> prforam \<Rightarrow> prforam res" where
  "box_write_empty E [] st = Inr st"
| "box_write_empty E (i # is) st =
     ebind (box_WriteBucket E st (int i) (replicate Z (box_dummy_blk E st))) (box_write_empty E is)"

definition PRFORAM_new :: "env \<Rightarrow> nat \<Rightarrow> bytes \<Rightarrow> prforam res" where
  "PRFORAM_new E maxSize key =
     (if maxSize div Z = 0 then Inl OutOfRange
      else
        let depth = ilog2 (maxSize div Z);
            bucketCount = 2 ^ (depth + 1) - 1;
            blockCount = Z * (2 ^ (depth + 1) - 1);
            clen = GetCiphertextLength (sizeof_Box * Z)
        in box_write_empty E [0..<bucketCount]
             \<lparr>p_depth = depth, p_bucketCount = bucketCount, p_blockSize = sizeof_Box, p_clen_size = clen,
              p_plaintext_size = sizeof_Box * Z, p_key = key, p_store = RAMStore_new blockCount (IV + clen),
              p_stash = [], p_viewmap = [], p_totalRead = 0, p_totalWrite = 0, p_ivs = 0\<rparr>)"

section \<open>Paths\<close>

fun box_fetch_blocks :: "bucket \<Rightarrow> prforam \<Rightarrow> prforam res" where
  "box_fetch_blocks [] st = Inr st"
| "box_fetch_blocks (b # bs) st =
     (if bid_ne_int (b_id b) 0
      then ebind (convertBlockToBox (b_data b)) (\<lambda>x.
             box_fetch_blocks bs
               (if map_of (p_stash st) (b_id b) = None
                then st\<lparr>p_stash := AList.update (b_id b) (Some x) (p_stash st)\<rparr> else st))
      else box_fetch_blocks bs st)"

fun box_fetch_levels :: "env \<Rightarrow> bool \<Rightarrow> int \<Rightarrow> nat list \<Rightarrow> prforam \<Rightarrow> prforam res" where
  "box_fetch_levels E batchRead leaf [] st = Inr st"
| "box_fetch_levels E batchRead leaf (d # ds) st =
     (let nd = GetBoxOnPath st leaf d in
      if batchRead \<and> nd \<in> set (p_viewmap st) then box_fetch_levels E batchRead leaf ds st
      else ebind (box_ReadBucket E (if batchRead then st\<lparr>p_viewmap := p_viewmap st @ [nd]\<rparr> else st) nd) (\<lambda>(bkt, st).
           ebind (box_fetch_blocks bkt st) (box_fetch_levels E batchRead leaf ds)))"

definition box_FetchPath :: "env \<Rightarrow> int \<Rightarrow> bool \<Rightarrow> prforam \<Rightarrow> prforam res" where
  "box_FetchPath E leaf batchRead st = box_fetch_levels E batchRead leaf [0..<Suc (p_depth st)] st"

definition stash_box :: "prforam \<Rightarrow> bid \<Rightarrow> box option" where
  "stash_box st bid = (case map_of (p_stash st) bid of Some (Some x) \<Rightarrow> Some x | _ \<Rightarrow> None)"

definition box_fits_at :: "prforam \<Rightarrow> int \<Rightarrow> nat \<Rightarrow> bid \<Rightarrow> bool" where
  "box_fits_at st nd curDepth bid =
     (case stash_box st bid of None \<Rightarrow> False | Some x \<Rightarrow> GetBoxOnPath st (x_pos x) curDepth = nd)"

definition box_GetIntersectingBlocks :: "prforam \<Rightarrow> int \<Rightarrow> nat \<Rightarrow> bid list" where
  "box_GetIntersectingBlocks st x curDepth =
     take Z (filter (box_fits_at st (GetBoxOnPath st x curDepth) curDepth) (sort (map fst (p_stash st))))"

fun box_evict :: "env \<Rightarrow> bid list \<Rightarrow> prforam \<Rightarrow> bucket \<times> prforam" where
  "box_evict E [] st = ([], st)"
| "box_evict E (bid # bids) st =
     (case stash_box st bid of
        None \<Rightarrow> box_evict E bids st
      | Some x \<Rightarrow>
          let (bkt, st') = box_evict E bids (st\<lparr>p_stash := AList.delete bid (p_stash st)\<rparr>)
          in (\<lparr>b_id = bid, b_data = convertBoxToBlock E x\<rparr> # bkt, st'))"

definition box_WritePath :: "env \<Rightarrow> int \<Rightarrow> nat \<Rightarrow> prforam \<Rightarrow> prforam res" where
  "box_WritePath E leaf d st =
     (let nd = GetBoxOnPath st leaf d
      in if nd \<in> set (p_viewmap st) then Inr st
         else let (bkt, st) = box_evict E (box_GetIntersectingBlocks st leaf d) st;
                  bkt = bkt @ replicate (Z - length bkt) (box_dummy_blk E st)
              in box_WriteBucket E (st\<lparr>p_viewmap := p_viewmap st @ [nd]\<rparr>) nd bkt)"

fun box_write_path_levels :: "env \<Rightarrow> int \<Rightarrow> nat list \<Rightarrow> prforam \<Rightarrow> prforam res" where
  "box_write_path_levels E leaf [] st = Inr st"
| "box_write_path_levels E leaf (d # ds) st =
     ebind (box_WritePath E leaf d st) (box_write_path_levels E leaf ds)"

section \<open>Single accesses\<close>

definition box_WriteData :: "bid \<Rightarrow> box \<Rightarrow> prforam \<Rightarrow> prforam res" where
  "box_WriteData bid x st =
     (if GetEmptySize (p_store st) > 0
      then Inr (st\<lparr>p_stash := AList.update bid (Some x) (p_stash st), p_store := ReduceEmptyNumbers (p_store st)\<rparr>)
      else Inl (RuntimeError ''There is no more space in PRFORAM''))"

definition box_ReadData :: "bid \<Rightarrow> prforam \<Rightarrow> box option" where
  "box_ReadData bid st = stash_box st bid"

definition box_text :: "box option \<Rightarrow> string" where
  "box_text x = (case x of None \<Rightarrow> [] | Some b \<Rightarrow> c_str (bytes_string (x_value b)))"

definition box_Access_read :: "env \<Rightarrow> bid \<Rightarrow> int \<Rightarrow> prforam \<Rightarrow> (string \<times> prforam) res" where
  "box_Access_read E bid pos st =
     ebind (box_FetchPath E pos False st) (\<lambda>st.
     let res = box_text (box_ReadData bid st) in
     ebind (box_write_path_levels E pos (rev [0..<Suc (p_depth st)]) (st\<lparr>p_viewmap := []\<rparr>)) (\<lambda>st.
     Inr (res, st)))"

definition box_Access_write :: "env \<Rightarrow> bid \<Rightarrow> box \<Rightarrow> prforam \<Rightarrow> prforam res" where
  "box_Access_write E bid x st =
     ebind (box_FetchPath E (x_pos x) False st) (\<lambda>st.
     ebind (box_WriteData bid x st) (\<lambda>st.
     box_write_path_levels E (x_pos x) (rev [0..<Suc (p_depth st)]) (st\<lparr>p_viewmap := []\<rparr>)))"

text \<open>\<open>return NULL\<close> as a \<open>string\<close> dereferences a null pointer.\<close>

definition ReadBox :: "env \<Rightarrow> bid \<Rightarrow> int \<Rightarrow> prforam \<Rightarrow> (string \<times> prforam) res" where
  "ReadBox E bid pos st =
     (if bid_eq_int bid 0 then Inl NullDeref
      else if map_of (p_stash st) bid = None then box_Access_read E bid pos st
      else (case stash_box st bid of None \<Rightarrow> Inl NullDeref | Some x \<Rightarrow> Inr (box_text (Some x), st)))"

definition make_box :: "bid \<Rightarrow> string \<Rightarrow> int \<Rightarrow> box res" where
  "make_box bid s pos =
     ebind (copy_at 0 (string_bytes s) (replicate 16 0)) (\<lambda>v. Inr \<lparr>x_key = bid, x_value = v, x_pos = pos\<rparr>)"

definition WriteBox :: "env \<Rightarrow> bid \<Rightarrow> string \<Rightarrow> int \<Rightarrow> prforam \<Rightarrow> prforam res" where
  "WriteBox E bid s pos st =
     (if bid_eq_int bid 0 then Inl (RuntimeError ''Box id is not set'')
      else ebind (make_box bid s pos) (\<lambda>x. box_Access_write E bid x st))"

section \<open>Batches\<close>

text \<open>
  \<open>stash.count(item.second)\<close> converts the position to an identifier; \<open>leafs\<close> is a sorted set.
\<close>

fun batch_read_loop :: "env \<Rightarrow> (bid \<times> int) list \<Rightarrow> string list \<Rightarrow> int list \<Rightarrow> prforam
    \<Rightarrow> (string list \<times> int list \<times> prforam) res" where
  "batch_read_loop E [] result leafs st = Inr (result, leafs, st)"
| "batch_read_loop E ((bid, pos) # items) result leafs st =
     (if map_of (p_stash st) (Bid_int 24 pos) = None then
        ebind (box_FetchPath E pos True st) (\<lambda>st.
          batch_read_loop E items (result @ [box_text (box_ReadData bid st)]) (List.insert pos leafs) st)
      else (case stash_box st (Bid_int 24 pos) of
              None \<Rightarrow> Inl NullDeref
            | Some x \<Rightarrow> batch_read_loop E items (result @ [box_text (Some x)]) leafs st))"

fun box_write_leafs :: "env \<Rightarrow> nat \<Rightarrow> int list \<Rightarrow> prforam \<Rightarrow> prforam res" where
  "box_write_leafs E d [] st = Inr st"
| "box_write_leafs E d (l # ls) st = ebind (box_WritePath E l d st) (box_write_leafs E d ls)"

fun box_write_levels :: "env \<Rightarrow> nat list \<Rightarrow> int list \<Rightarrow> prforam \<Rightarrow> prforam res" where
  "box_write_levels E [] ls st = Inr st"
| "box_write_levels E (d # ds) ls st = ebind (box_write_leafs E d ls st) (box_write_levels E ds ls)"

definition PRFORAM_batchRead :: "env \<Rightarrow> (bid \<times> int) list \<Rightarrow> prforam \<Rightarrow> (string list \<times> prforam) res" where
  "PRFORAM_batchRead E batchQuery st =
     ebind (batch_read_loop E batchQuery [] [] (st\<lparr>p_viewmap := []\<rparr>)) (\<lambda>(result, leafs, st).
     ebind (box_write_levels E (rev [0..<Suc (p_depth st)]) (sort leafs) (st\<lparr>p_viewmap := []\<rparr>)) (\<lambda>st.
     Inr (result, st)))"

text \<open>The two maps are iterated side by side.\<close>

fun batch_write_loop :: "env \<Rightarrow> (bid \<times> string) list \<Rightarrow> (bid \<times> int) list \<Rightarrow> int list \<Rightarrow> prforam
    \<Rightarrow> (int list \<times> prforam) res" where
  "batch_write_loop E [] ps leafs st = Inr (leafs, st)"
| "batch_write_loop E (v # vs) [] leafs st = Inl BadIndex"
| "batch_write_loop E ((bid, s) # vs) ((b, pos) # ps) leafs st =
     ebind (if map_of (p_stash st) (Bid_int 24 pos) = None
            then ebind (box_FetchPath E pos True st) (\<lambda>st. Inr (List.insert pos leafs, st))
            else Inr (leafs, st)) (\<lambda>(leafs, st).
     ebind (make_box bid s pos) (\<lambda>x.
     ebind (box_WriteData bid x st) (batch_write_loop E vs ps leafs)))"

definition PRFORAM_batchWrite :: "env \<Rightarrow> (bid \<times> string) list \<Rightarrow> (bid \<times> int) list \<Rightarrow> prforam \<Rightarrow> prforam res" where
  "PRFORAM_batchWrite E vs ps st =
     ebind (batch_write_loop E (sort_key fst vs) (sort_key fst ps) [] (st\<lparr>p_viewmap := []\<rparr>)) (\<lambda>(leafs, st).
     box_write_levels E (rev [0..<Suc (p_depth st)]) (sort leafs) (st\<lparr>p_viewmap := []\<rparr>))"

section \<open>Bulk insertion\<close>

text \<open>As in \<open>ORAM::setupInsert\<close>: boxes sorted by position are packed from the leaves upwards.\<close>

type_synonym packed_boxes = "(int \<times> box list) list"

definition box_pack_bucket :: "int \<Rightarrow> int \<Rightarrow> box list \<Rightarrow> packed_boxes \<Rightarrow> box list \<times> packed_boxes \<times> bool" where
  "box_pack_bucket curPos idx rest bks =
     (let same = takeWhile (\<lambda>n. x_pos n = curPos) rest
      in case map_of bks idx of
           None \<Rightarrow> (drop (length (take Z same)) rest, AList.update idx (take Z same) bks, False)
         | Some b \<Rightarrow>
             if length b < Z
             then let k = take (Z - length b) same
                  in (drop (length k) rest, AList.update idx (b @ k) bks, False)
             else (rest, bks, True))"

fun box_pack_levels :: "prforam \<Rightarrow> int \<Rightarrow> nat list \<Rightarrow> box list \<Rightarrow> packed_boxes \<Rightarrow> bool \<Rightarrow> box list \<times> packed_boxes \<times> bool" where
  "box_pack_levels st curPos [] rest bks cannot = (rest, bks, cannot)"
| "box_pack_levels st curPos (d # ds) rest bks cannot =
     (if rest \<noteq> [] \<and> x_pos (hd rest) = curPos
      then let (rest', bks', full) = box_pack_bucket curPos (GetBoxOnPath st curPos d) rest bks
           in box_pack_levels st curPos ds rest' bks' (cannot \<or> full)
      else (rest, bks, cannot))"

lemma box_pack_bucket_progress:
  assumes "box_pack_bucket curPos idx rest bks = (rest', bks', full)" "rest \<noteq> []" "x_pos (hd rest) = curPos"
  shows "length rest' < length rest \<or> (full \<and> rest' = rest)"
  using assms by (cases rest) (auto simp: box_pack_bucket_def Let_def Z_def split: option.splits if_splits)

lemma box_pack_bucket_length: "box_pack_bucket curPos idx rest bks = (rest', bks', full) \<Longrightarrow> length rest' \<le> length rest"
  by (auto simp: box_pack_bucket_def Let_def split: option.splits if_splits)

lemma box_pack_levels_length:
  "box_pack_levels st curPos ds rest bks cannot = (rest', bks', cannot') \<Longrightarrow>
     length rest' \<le> length rest \<and> (cannot \<longrightarrow> cannot')"
proof (induction st curPos ds rest bks cannot rule: box_pack_levels.induct)
  case (1 st curPos rest bks cannot)
  then show ?case by simp
next
  case (2 st curPos d ds rest bks cannot)
  then show ?case
    by (fastforce split: if_splits prod.splits dest: box_pack_bucket_length)
qed

lemma box_pack_levels_progress:
  assumes "box_pack_levels st curPos ds rest bks cannot = (rest', bks', cannot')"
    "ds \<noteq> []" "rest \<noteq> []" "x_pos (hd rest) = curPos"
  shows "length rest' < length rest \<or> cannot'"
proof -
  obtain d ds' where ds: "ds = d # ds'" using assms(2) by (cases ds) auto
  obtain r b f where p: "box_pack_bucket curPos (GetBoxOnPath st curPos d) rest bks = (r, b, f)"
    by (cases "box_pack_bucket curPos (GetBoxOnPath st curPos d) rest bks") auto
  then have "box_pack_levels st curPos ds' r b (cannot \<or> f) = (rest', bks', cannot')"
    using assms ds by simp
  then have "length rest' \<le> length r \<and> (f \<longrightarrow> cannot')" using box_pack_levels_length by blast
  then show ?thesis using box_pack_bucket_progress [OF p assms(3,4)] by auto
qed

text \<open>
  One round of the while loop: pack along the path of the current position; if some bucket
  was full, the next node goes to the cache.
\<close>

function box_pack_all :: "prforam \<Rightarrow> int \<Rightarrow> box list \<Rightarrow> packed_boxes \<Rightarrow> (bid \<times> box option) list
    \<Rightarrow> packed_boxes \<times> (bid \<times> box option) list" where
  "box_pack_all st curPos rest bks cache =
     (if rest = [] then (bks, cache)
      else
        let (rest1, bks1, cannot) = box_pack_levels st curPos (rev [0..<Suc (p_depth st)]) rest bks False
        in if rest1 = [] then (bks1, cache)
           else
             let rest2 = (if cannot then tl rest1 else rest1);
                 cache2 = (if cannot then AList.update (x_key (hd rest1)) (Some (hd rest1)) cache else cache);
                 curPos2 = (if rest2 \<noteq> [] then x_pos (hd rest2) else curPos)
             in box_pack_all st curPos2 rest2 bks1 cache2)"
  by pat_completeness auto

termination
proof (relation "measures [\<lambda>(st, curPos, rest, bks, cache). length rest,
    \<lambda>(st, curPos, rest, bks, cache). if rest \<noteq> [] \<and> x_pos (hd rest) = curPos then 0 else 1]",
    goal_cases)
  case 1
  then show ?case by simp
next
  case (2 st curPos rest bks cache x rest1 y bks1 cannot rest2 cache2 curPos2)
  then have p: "box_pack_levels st curPos (rev [0..<Suc (p_depth st)]) rest bks False = (rest1, bks1, cannot)"
    by simp
  have le: "length rest1 \<le> length rest" using box_pack_levels_length [OF p] by simp
  have ne: "rest \<noteq> []" "rest1 \<noteq> []" and r2: "rest2 = (if cannot then tl rest1 else rest1)" using 2 by auto
  have tl: "length (tl rest1) < length rest" using ne(2) le by (cases rest1) auto
  show ?case
  proof (cases "x_pos (hd rest) = curPos")
    case True
    then have "length rest1 < length rest \<or> cannot"
      using box_pack_levels_progress [OF p] ne by simp
    then have "length rest2 < length rest" using r2 tl by auto
    then show ?thesis by simp
  next
    case False
    then have "rest1 = rest \<and> \<not> cannot" using p 2
      by (cases "rev [0..<Suc (p_depth st)]") auto
    with False 2 show ?thesis by auto
  qed
qed

declare box_pack_all.simps [simp del]

fun box_write_packed_boxes :: "env \<Rightarrow> packed_boxes \<Rightarrow> prforam \<Rightarrow> prforam res" where
  "box_write_packed_boxes E [] st = Inr st"
| "box_write_packed_boxes E ((idx, ns) # bks) st =
     ebind (box_WriteBucket E st idx
              (map (\<lambda>n. \<lparr>b_id = x_key n, b_data = convertBoxToBlock E n\<rparr>) ns @
               replicate (Z - length ns) (box_dummy_blk E st)))
       (box_write_packed_boxes E bks)"

fun make_boxes :: "(bid \<times> string) list \<Rightarrow> (bid \<times> int) list \<Rightarrow> box list res" where
  "make_boxes [] ps = Inr []"
| "make_boxes (v # vs) [] = Inl BadIndex"
| "make_boxes ((bid, s) # vs) ((b, pos) # ps) =
     ebind (make_box bid s pos) (\<lambda>x. ebind (make_boxes vs ps) (\<lambda>xs. Inr (x # xs)))"

definition PRFORAM_setupInsert :: "env \<Rightarrow> (box list \<Rightarrow> box list) \<Rightarrow> (bid \<times> string) list \<Rightarrow> (bid \<times> int) list
    \<Rightarrow> prforam \<Rightarrow> prforam res" where
  "PRFORAM_setupInsert E srt vs ps st =
     ebind (make_boxes (sort_key fst vs) (sort_key fst ps)) (\<lambda>xs.
     let ns = srt xs;
         curPos = (if ns \<noteq> [] then x_pos (hd ns) else 0);
         (bks, stash) = box_pack_all st curPos ns [] (p_stash st)
     in box_write_packed_boxes E (sort_key fst bks) (st\<lparr>p_stash := stash, p_viewmap := []\<rparr>))"

end
