(* ===== verification/Horus.thy ===== *)
theory Horus
  imports Sse_Common Prf_Oram Static_Bas
begin

text \<open>
  The Horus scheme (\<open>horus/Horus.cpp\<close>). The \<open>u\<close>-th identifier of a keyword is a box of \<open>PRFORAM\<close>
  whose position is a pseudorandom function of keyword, \<open>u\<close>, the number of searches and an access
  count; a removal moves the last identifier into the gap under the next access count. A search
  finds the current access count of every \<open>u\<close> by bisection, in batches.
\<close>

section \<open>Parameters and state\<close>

text \<open>
  \<open>h_prg\<close> is \<open>Prg::derive\<close> read as an \<open>unsigned int\<close>, \<open>h_split\<close> is \<open>boost::split\<close> at \<open>#\<close>, \<open>h_sort\<close>
  what \<open>std::sort\<close> does by position, \<open>h_rounds\<close> a bound on the rounds of a search.
\<close>

record henv =
  h_E :: env
  h_fuel :: nat
  h_prg :: "bytes \<Rightarrow> nat"
  h_split :: "string \<Rightarrow> string list"
  h_sort :: "box list \<Rightarrow> box list"
  h_rounds :: nat

record horus =
  hs_setupPairs1 :: "(bid \<times> string) list"
  hs_setupPairs2 :: "(bid \<times> string) list"
  hs_setupPairsPos :: "(bid \<times> int) list"
  hs_OMAP_updt :: omap
  hs_CNTs :: omap
  hs_ORAM_srch :: prforam
  hs_UpdtCnt :: "(string \<times> int) list"
  hs_SrchCnt :: "(string \<times> int) list"
  hs_Access :: "(string \<times> int) list"
  hs_LastIND :: "(string \<times> int) list"
  hs_latestUpdatedCounter :: "(string \<times> int) list"
  hs_maxSize :: nat

definition INC_FACTOR :: nat where "INC_FACTOR = 4"

text \<open>\<open>bytes<Key> key2{1}\<close> sets the first byte only.\<close>

definition Horus_new :: "henv \<Rightarrow> nat \<Rightarrow> horus res" where
  "Horus_new H maxSize =
     ebind (OMAP_new (h_E H) (maxSize * INC_FACTOR) (replicate 16 0)) (\<lambda>updt.
     ebind (PRFORAM_new (h_E H) (maxSize * INC_FACTOR) (1 # replicate 15 0)) (\<lambda>srch.
     ebind (OMAP_new (h_E H) maxSize (2 # replicate 15 0)) (\<lambda>cnts.
     Inr \<lparr>hs_setupPairs1 = [], hs_setupPairs2 = [], hs_setupPairsPos = [], hs_OMAP_updt = updt,
          hs_CNTs = cnts, hs_ORAM_srch = srch, hs_UpdtCnt = [], hs_SrchCnt = [], hs_Access = [],
          hs_LastIND = [], hs_latestUpdatedCounter = [], hs_maxSize = maxSize\<rparr>)))"

section \<open>Identifiers and positions\<close>

definition createBid_prefix :: "byte \<Rightarrow> string \<Rightarrow> int \<Rightarrow> bid res" where
  "createBid_prefix prefix keyword number =
     ebind (copy_at 1 (string_bytes keyword) ((replicate 24 0)[0 := prefix])) (\<lambda>a.
     Inr (Bid (put_int 20 number a)))"

definition createBid3 :: "string \<Rightarrow> int \<Rightarrow> int \<Rightarrow> int \<Rightarrow> bid res" where
  "createBid3 keyword val1 val2 val3 =
     ebind (copy_at 12 (string_bytes keyword) (put_int 8 val3 (put_int 4 val2 (put_int 0 val1 (replicate 24 0))))) (\<lambda>a.
     Inr (Bid a))"

definition createBid_number :: "string \<Rightarrow> int \<Rightarrow> bid res" where
  "createBid_number keyword number =
     ebind (Bid_string 24 keyword) (\<lambda>b. Inr (Bid (put_int 20 number (bid_id b))))"

definition generatePosition :: "henv \<Rightarrow> nat \<Rightarrow> string \<Rightarrow> int \<Rightarrow> int \<Rightarrow> int \<Rightarrow> int res" where
  "generatePosition H maxSize keyword updt_cnt src_cnt acc_cnt =
     (let keyStr = keyword @ ''-'' @ to_string updt_cnt @ ''-'' @ to_string src_cnt @ ''-'' @ to_string acc_cnt;
          k = take 31 (string_bytes keyStr);
          result = h_prg H (k @ replicate (32 - length k) 0) mod 2 ^ 32;
          m = (2 ^ (ilog2 (maxSize * INC_FACTOR div Z) + 1) - 1) div 2
      in if m = 0 then Inl DivByZero else Inr (int (result mod m)))"

definition type_tag :: "string \<Rightarrow> int option" where
  "type_tag type =
     (if type = ''UpdtCnt'' then Some 1 else if type = ''SrchCnt'' then Some 2
      else if type = ''Access'' then Some 3 else if type = ''LastIND'' then Some 4
      else if type = ''latestUpdatedCounter'' then Some 5 else None)"

definition horus_getBid :: "string \<Rightarrow> string \<Rightarrow> bid res" where
  "horus_getBid input type =
     ebind (copy_at 0 (string_bytes input) (replicate 24 0)) (\<lambda>a.
     Inr (Bid_array (case type_tag type of None \<Rightarrow> a | Some n \<Rightarrow> put_int 20 n a)))"

section \<open>Accessing the three structures\<close>

definition cnt_find :: "henv \<Rightarrow> string \<Rightarrow> string \<Rightarrow> horus \<Rightarrow> (string \<times> horus) res" where
  "cnt_find H keyword type st =
     ebind (horus_getBid keyword type) (\<lambda>b.
     ebind (OMAP_find (h_E H) (h_fuel H) b (hs_CNTs st)) (\<lambda>(s, m). Inr (s, st\<lparr>hs_CNTs := m\<rparr>)))"

definition cnt_insert :: "henv \<Rightarrow> string \<Rightarrow> string \<Rightarrow> string \<Rightarrow> horus \<Rightarrow> horus res" where
  "cnt_insert H keyword type s st =
     ebind (horus_getBid keyword type) (\<lambda>b.
     ebind (OMAP_insert (h_E H) (h_fuel H) b s (hs_CNTs st)) (\<lambda>m. Inr (st\<lparr>hs_CNTs := m\<rparr>)))"

definition updt_find :: "henv \<Rightarrow> bid \<Rightarrow> horus \<Rightarrow> (string \<times> horus) res" where
  "updt_find H b st =
     ebind (OMAP_find (h_E H) (h_fuel H) b (hs_OMAP_updt st)) (\<lambda>(s, m). Inr (s, st\<lparr>hs_OMAP_updt := m\<rparr>))"

definition updt_insert :: "henv \<Rightarrow> bid \<Rightarrow> string \<Rightarrow> horus \<Rightarrow> horus res" where
  "updt_insert H b s st =
     ebind (OMAP_insert (h_E H) (h_fuel H) b s (hs_OMAP_updt st)) (\<lambda>m. Inr (st\<lparr>hs_OMAP_updt := m\<rparr>))"

definition srch_write :: "henv \<Rightarrow> string \<Rightarrow> int \<Rightarrow> int \<Rightarrow> int \<Rightarrow> string \<Rightarrow> horus \<Rightarrow> horus res" where
  "srch_write H keyword u s a text st =
     ebind (createBid3 keyword u s a) (\<lambda>b.
     ebind (generatePosition H (hs_maxSize st) keyword u s a) (\<lambda>pos.
     ebind (WriteBox (h_E H) b text pos (hs_ORAM_srch st)) (\<lambda>o'. Inr (st\<lparr>hs_ORAM_srch := o'\<rparr>))))"

definition show_hash :: "int \<Rightarrow> int \<Rightarrow> string" where
  "show_hash a b = to_string a @ ''#'' @ to_string b"

section \<open>Insertion\<close>

text \<open>The counters of the keyword: \<open>updtCnt\<close>, \<open>srcCnt\<close>, \<open>lastUpdtCnt\<close>.\<close>

definition insert_counters :: "henv \<Rightarrow> string \<Rightarrow> horus \<Rightarrow> ((int \<times> int \<times> int) \<times> horus) res" where
  "insert_counters H keyword st =
     ebind (horus_getBid keyword ''UpdtCnt'') (\<lambda>b.
     ebind (horus_OMAP_incrementUpdtCnt (h_E H) (h_fuel H) b (hs_CNTs st)) (\<lambda>(s, m).
     let st = st\<lparr>hs_CNTs := m\<rparr> in
     if s = [] then
       ebind (cnt_insert H keyword ''UpdtCnt'' (to_string 1) st) (\<lambda>st.
       ebind (cnt_insert H keyword ''latestUpdatedCounter'' (to_string 0) st) (\<lambda>st.
       ebind (cnt_insert H keyword ''SrchCnt'' (to_string 0) st) (\<lambda>st. Inr ((0, 0, 0), st))))
     else
       ebind (stoi s) (\<lambda>updtCnt.
       ebind (cnt_find H keyword ''SrchCnt'' st) (\<lambda>(s, st). ebind (stoi s) (\<lambda>srcCnt.
       ebind (cnt_find H keyword ''latestUpdatedCounter'' st) (\<lambda>(s, st). ebind (stoi s) (\<lambda>last.
       Inr ((updtCnt, srcCnt, last), st))))))))"

definition access_counter :: "henv \<Rightarrow> string \<Rightarrow> horus \<Rightarrow> (int \<times> horus) res" where
  "access_counter H keyword st =
     ebind (cnt_find H keyword ''Access'' st) (\<lambda>(s, st).
     if s = [] then ebind (cnt_insert H keyword ''Access'' (to_string 1) st) (\<lambda>st. Inr (1, st))
     else ebind (stoi s) (\<lambda>a. Inr (a, st)))"

text \<open>The access count of slot \<open>updtCnt\<close>: one more than that of the identifier last stored there.\<close>

definition slot_access :: "henv \<Rightarrow> string \<Rightarrow> int \<Rightarrow> bid \<Rightarrow> horus \<Rightarrow> (int \<times> horus) res" where
  "slot_access H keyword accessCnt mapKey2 st =
     ebind (updt_find H mapKey2 st) (\<lambda>(s, st).
     if s = [] then Inr (1, st)
     else ebind (nth_or_error (h_split H s) 1) (\<lambda>t. ebind (stoi t) (\<lambda>n.
       let acc_cnt = n + 1 in
       if accessCnt < acc_cnt then
         ebind (cnt_insert H keyword ''Access'' (to_string acc_cnt) st) (\<lambda>st. Inr (acc_cnt, st))
       else Inr (acc_cnt, st))))"

definition Horus_insert :: "henv \<Rightarrow> string \<Rightarrow> int \<Rightarrow> horus \<Rightarrow> horus res" where
  "Horus_insert H keyword ind st =
     ebind (createBid_prefix 0 keyword ind) (\<lambda>mapKey.
     ebind (updt_find H mapKey st) (\<lambda>(resStr, st).
     let tokens = h_split H resStr in
     if resStr = [] \<or> (tokens \<noteq> [] \<and> hd tokens = ''-1'') then
       ebind (insert_counters H keyword st) (\<lambda>((u, srcCnt, lastUpdtCnt), st).
       ebind (access_counter H keyword st) (\<lambda>(accessCnt, st).
       let updtCnt = u + 1 in
       ebind (createBid_prefix 1 keyword updtCnt) (\<lambda>mapKey2.
       ebind (slot_access H keyword accessCnt mapKey2 st) (\<lambda>(acc_cnt, st).
       ebind (updt_insert H mapKey (show_hash updtCnt acc_cnt) st) (\<lambda>st.
       ebind (updt_insert H mapKey2 (show_hash ind acc_cnt) st) (\<lambda>st.
       ebind (srch_write H keyword updtCnt srcCnt acc_cnt (to_string ind) st) (\<lambda>st.
       ebind (if lastUpdtCnt < updtCnt then
                ebind (cnt_insert H keyword ''latestUpdatedCounter'' (to_string (lastUpdtCnt + 1)) st) (\<lambda>st.
                if 1 < acc_cnt then srch_write H keyword updtCnt srcCnt 1 (''@'' @ to_string acc_cnt) st else Inr st)
              else Inr st) (\<lambda>st.
       cnt_insert H keyword ''LastIND'' (to_string ind) st))))))))
     else Inr st))"

section \<open>Removal\<close>

text \<open>The last identifier moves into the slot of the removed one.\<close>

definition move_last :: "henv \<Rightarrow> string \<Rightarrow> int \<Rightarrow> int \<Rightarrow> int \<Rightarrow> int \<Rightarrow> horus \<Rightarrow> horus res" where
  "move_last H keyword updt_cnt srcCnt acc lastind st =
     (let acc_cnt = acc + 1 in
      ebind (cnt_find H keyword ''Access'' st) (\<lambda>(s, st). ebind (stoi s) (\<lambda>accessCnt.
      ebind (if accessCnt < acc_cnt then cnt_insert H keyword ''Access'' (to_string acc_cnt) st else Inr st) (\<lambda>st.
      ebind (srch_write H keyword updt_cnt srcCnt acc_cnt (to_string lastind) st) (\<lambda>st.
      ebind (createBid_prefix 0 keyword lastind) (\<lambda>k0. ebind (updt_insert H k0 (show_hash updt_cnt acc_cnt) st) (\<lambda>st.
      ebind (createBid_prefix 1 keyword updt_cnt) (\<lambda>k1. updt_insert H k1 (show_hash lastind acc_cnt) st))))))))"

definition Horus_remove :: "henv \<Rightarrow> string \<Rightarrow> int \<Rightarrow> horus \<Rightarrow> horus res" where
  "Horus_remove H keyword ind st =
     ebind (createBid_prefix 0 keyword ind) (\<lambda>mapKey.
     ebind (updt_find H mapKey st) (\<lambda>(resStr, st).
     let tokens = h_split H resStr in
     if tokens = [] then Inr st else
     ebind (stoi (hd tokens)) (\<lambda>updt_cnt.
     if \<not> 0 < updt_cnt then Inr st else
     ebind (nth_or_error tokens 1) (\<lambda>t1. ebind (stoi t1) (\<lambda>acc_cnt.
     ebind (updt_insert H mapKey (''-1#'' @ to_string (acc_cnt + 1)) st) (\<lambda>st.
     ebind (horus_getBid keyword ''UpdtCnt'') (\<lambda>b.
     ebind (horus_OMAP_decrementUpdtCnt (h_E H) (h_fuel H) b (hs_CNTs st)) (\<lambda>(s, m).
     let st = st\<lparr>hs_CNTs := m\<rparr> in
     ebind (stoi s) (\<lambda>u.
     let updtCnt = u - 1 in
     if 0 < updtCnt then
       ebind (cnt_find H keyword ''SrchCnt'' st) (\<lambda>(s, st). ebind (stoi s) (\<lambda>srcCnt.
       ebind (cnt_find H keyword ''LastIND'' st) (\<lambda>(s, st). ebind (stoi s) (\<lambda>lastind.
       ebind (if updtCnt + 1 \<noteq> updt_cnt then move_last H keyword updt_cnt srcCnt acc_cnt lastind st else Inr st) (\<lambda>st.
       ebind (createBid_prefix 1 keyword updtCnt) (\<lambda>mapKey2.
       ebind (updt_find H mapKey2 st) (\<lambda>(s, st).
       ebind (nth_or_error (h_split H s) 0) (\<lambda>t0. ebind (stoi t0) (\<lambda>li.
       cnt_insert H keyword ''LastIND'' (to_string li) st)))))))))
     else cnt_insert H keyword ''LastIND'' [] st)))))))))"

section \<open>Search\<close>

record sitem =
  si_found :: bool
  si_left :: int
  si_right :: int
  si_cur :: int
  si_lastAcc :: int
  si_lastID :: string

definition half_down :: "int \<Rightarrow> int" where "half_down n = n div 2"
definition half_up :: "int \<Rightarrow> int" where "half_up n = - ((- n) div 2)"

text \<open>First round: an answer \<open>@n\<close> under access count 1 gives the lower bound of the bisection.\<close>

definition first_step :: "string \<Rightarrow> sitem \<Rightarrow> sitem res" where
  "first_step ident it =
     (if ident \<noteq> [] \<and> hd ident = CHR ''@'' \<and> si_left it = 1 then
        ebind (stoi (tl ident)) (\<lambda>l.
        let c = (l + si_right it) sdiv 2 in Inr (it\<lparr>si_left := l, si_cur := c, si_lastAcc := c\<rparr>))
      else Inr (it\<lparr>si_cur := (si_left it + si_right it) sdiv 2\<rparr>))"

text \<open>Later rounds; the second component tells whether the item is settled.\<close>

definition bisect_step :: "string \<Rightarrow> sitem \<Rightarrow> sitem \<times> bool" where
  "bisect_step ident it =
     (if ident = [] \<or> si_right it \<le> si_left it then
        if si_right it \<le> si_left it then
          (if si_lastID it = [] then it\<lparr>si_found := True, si_lastID := ident, si_lastAcc := si_cur it\<rparr>
           else it\<lparr>si_found := True\<rparr>, True)
        else if si_cur it = si_right it then
          let c = half_down (si_left it + si_right it) in (it\<lparr>si_cur := c, si_right := c\<rparr>, False)
        else (it\<lparr>si_right := si_cur it, si_cur := half_up (si_left it + si_cur it)\<rparr>, False)
      else
        let it' = it\<lparr>si_lastID := ident, si_lastAcc := si_cur it\<rparr> in
        if si_cur it = si_left it then (it'\<lparr>si_cur := half_up (si_left it + si_right it)\<rparr>, False)
        else (it'\<lparr>si_left := si_cur it, si_cur := half_down (si_cur it + si_right it)\<rparr>, False))"

record sout =
  so_result :: "int list"
  so_poses :: "(bid \<times> int) list"
  so_ids :: "(bid \<times> string) list"

definition out_write :: "henv \<Rightarrow> nat \<Rightarrow> string \<Rightarrow> int \<Rightarrow> int \<Rightarrow> int \<Rightarrow> string \<Rightarrow> sout \<Rightarrow> sout res" where
  "out_write H maxSize keyword u s a text q =
     ebind (createBid3 keyword u s a) (\<lambda>b. ebind (generatePosition H maxSize keyword u s a) (\<lambda>pos.
     Inr (q\<lparr>so_poses := um_insert (b, pos) (so_poses q), so_ids := um_insert (b, text) (so_ids q)\<rparr>)))"

text \<open>A settled item is reported and written again under the next search count.\<close>

definition settle :: "henv \<Rightarrow> nat \<Rightarrow> string \<Rightarrow> int \<Rightarrow> int \<Rightarrow> sitem \<Rightarrow> sout \<Rightarrow> sout res" where
  "settle H maxSize keyword srcCnt u it q =
     ebind (stoi (si_lastID it)) (\<lambda>r.
     ebind (out_write H maxSize keyword u (srcCnt + 1) (si_lastAcc it) (si_lastID it) (q\<lparr>so_result := so_result q @ [r]\<rparr>)) (\<lambda>q.
     if 1 < si_lastAcc it then out_write H maxSize keyword u (srcCnt + 1) 1 (''@'' @ to_string (si_lastAcc it)) q
     else Inr q))"

text \<open>The loop over the items of one round; \<open>u\<close> is \<open>i + 1\<close>, \<open>ids\<close> the answers not yet used.\<close>

fun round_items :: "henv \<Rightarrow> nat \<Rightarrow> string \<Rightarrow> int \<Rightarrow> bool \<Rightarrow> int \<Rightarrow> string list \<Rightarrow> sitem list \<Rightarrow> sout
    \<Rightarrow> (sitem list \<times> sout) res" where
  "round_items H ms kw src firstRun u ids [] q = Inr ([], q)"
| "round_items H ms kw src firstRun u ids (it # its) q =
     (if si_found it then
        ebind (round_items H ms kw src firstRun (u + 1) ids its q) (\<lambda>(its', q'). Inr (it # its', q'))
      else ebind (nth_or_error ids 0) (\<lambda>ident.
        if firstRun then
          ebind (first_step ident it) (\<lambda>it'.
          ebind (round_items H ms kw src firstRun (u + 1) (tl ids) its q) (\<lambda>(its', q'). Inr (it' # its', q')))
        else
          let (it', done) = bisect_step ident it in
          ebind (if done then settle H ms kw src u it' q else Inr q) (\<lambda>q.
          ebind (round_items H ms kw src firstRun (u + 1) (tl ids) its q) (\<lambda>(its', q'). Inr (it' # its', q')))))"

fun batch_query :: "henv \<Rightarrow> nat \<Rightarrow> string \<Rightarrow> int \<Rightarrow> int \<Rightarrow> sitem list \<Rightarrow> (bid \<times> int) list res" where
  "batch_query H ms kw src u [] = Inr []"
| "batch_query H ms kw src u (it # its) =
     (if si_found it then batch_query H ms kw src (u + 1) its
      else ebind (generatePosition H ms kw u src (si_cur it)) (\<lambda>pos.
        ebind (createBid3 kw u src (si_cur it)) (\<lambda>b.
        ebind (batch_query H ms kw src (u + 1) its) (\<lambda>qs. Inr ((b, pos) # qs)))))"

fun search_rounds :: "henv \<Rightarrow> nat \<Rightarrow> nat \<Rightarrow> string \<Rightarrow> int \<Rightarrow> bool \<Rightarrow> sitem list \<Rightarrow> sout \<Rightarrow> prforam
    \<Rightarrow> (sout \<times> prforam) res" where
  "search_rounds H 0 ms kw src firstRun its q oram = Inl OutOfFuel"
| "search_rounds H (Suc n) ms kw src firstRun its q oram =
     ebind (batch_query H ms kw src 1 its) (\<lambda>qs.
     if qs = [] then Inr (q, oram)
     else ebind (PRFORAM_batchRead (h_E H) qs oram) (\<lambda>(ids, oram).
       ebind (round_items H ms kw src firstRun 1 ids its q) (\<lambda>(its', q').
       search_rounds H n ms kw src False its' q' oram)))"

definition Horus_search :: "henv \<Rightarrow> string \<Rightarrow> horus \<Rightarrow> (int list \<times> horus) res" where
  "Horus_search H keyword st =
     ebind (cnt_find H keyword ''UpdtCnt'' st) (\<lambda>(s, st). ebind (stoi s) (\<lambda>updtCnt.
     ebind (cnt_find H keyword ''Access'' st) (\<lambda>(s, st). ebind (stoi s) (\<lambda>accessCnt.
     ebind (horus_getBid keyword ''SrchCnt'') (\<lambda>b.
     ebind (horus_OMAP_incrementSrcCnt (h_E H) (h_fuel H) b (hs_CNTs st)) (\<lambda>(s, m).
     let st = st\<lparr>hs_CNTs := m\<rparr> in
     ebind (stoi s) (\<lambda>srcCnt.
     if updtCnt < 0 then Inl OutOfRange else
     let item = \<lparr>si_found = False, si_left = 1, si_right = accessCnt, si_cur = 1, si_lastAcc = 0, si_lastID = []\<rparr> in
     ebind (search_rounds H (h_rounds H) (hs_maxSize st) keyword srcCnt True (replicate (nat updtCnt) item)
              \<lparr>so_result = [], so_poses = [], so_ids = []\<rparr> (hs_ORAM_srch st)) (\<lambda>(q, oram).
     ebind (PRFORAM_batchWrite (h_E H) (so_ids q) (so_poses q) oram) (\<lambda>oram.
     ebind (cnt_insert H keyword ''latestUpdatedCounter'' (to_string (int (length (so_result q))))
              (st\<lparr>hs_ORAM_srch := oram\<rparr>)) (\<lambda>st.
     Inr (so_result q, st)))))))))))"

section \<open>Setup\<close>

definition Horus_beginSetup :: "horus \<Rightarrow> horus" where
  "Horus_beginSetup st = st\<lparr>hs_setupPairs1 := [], hs_setupPairs2 := []\<rparr>"

text \<open>\<open>m[k]\<close> of a \<open>map<string, int>\<close>, creating the entry 0.\<close>

definition at_or_zero :: "string \<Rightarrow> (string \<times> int) list \<Rightarrow> int" where
  "at_or_zero k m = (case map_of m k of None \<Rightarrow> 0 | Some n \<Rightarrow> n)"

definition created :: "string \<Rightarrow> (string \<times> int) list \<Rightarrow> (string \<times> int) list" where
  "created k m = AList.update k (at_or_zero k m) m"

definition Horus_setupInsert :: "henv \<Rightarrow> string \<Rightarrow> int \<Rightarrow> horus \<Rightarrow> horus res" where
  "Horus_setupInsert H keyword ind st =
     ebind (createBid_prefix 0 keyword ind) (\<lambda>mapKey.
     let u = at_or_zero keyword (hs_UpdtCnt st) + 1; s = at_or_zero keyword (hs_SrchCnt st);
         access = (case map_of (hs_Access st) keyword of None \<Rightarrow> AList.update keyword 1 (hs_Access st) | Some _ \<Rightarrow> hs_Access st) in
     ebind (createBid_prefix 1 keyword u) (\<lambda>mapKey2.
     ebind (createBid3 keyword u s 1) (\<lambda>oramID.
     ebind (generatePosition H (hs_maxSize st) keyword u s 1) (\<lambda>pos.
     Inr (st\<lparr>hs_UpdtCnt := AList.update keyword u (hs_UpdtCnt st), hs_Access := access,
             hs_SrchCnt := created keyword (hs_SrchCnt st),
             hs_setupPairs1 := AList.update mapKey2 (show_hash ind 1) (AList.update mapKey (show_hash u 1) (hs_setupPairs1 st)),
             hs_setupPairs2 := AList.update oramID (to_string ind) (hs_setupPairs2 st),
             hs_setupPairsPos := AList.update oramID pos (hs_setupPairsPos st),
             hs_LastIND := AList.update keyword ind (hs_LastIND st)\<rparr>)))))"

definition setup_text :: "bid \<Rightarrow> horus \<Rightarrow> string" where
  "setup_text b st = (case map_of (hs_setupPairs1 st) b of None \<Rightarrow> [] | Some s \<Rightarrow> s)"

definition setup_move_last :: "henv \<Rightarrow> string \<Rightarrow> int \<Rightarrow> int \<Rightarrow> horus \<Rightarrow> horus res" where
  "setup_move_last H keyword updt_cnt acc st =
     (let acc_cnt = acc + 1; s = at_or_zero keyword (hs_SrchCnt st); lastind = at_or_zero keyword (hs_LastIND st);
          access = (if at_or_zero keyword (hs_Access st) < acc_cnt then AList.update keyword acc_cnt (hs_Access st)
                    else created keyword (hs_Access st)) in
      ebind (createBid3 keyword updt_cnt s acc_cnt) (\<lambda>oramID.
      ebind (generatePosition H (hs_maxSize st) keyword updt_cnt s acc_cnt) (\<lambda>pos.
      ebind (createBid_prefix 0 keyword lastind) (\<lambda>k0. ebind (createBid_prefix 1 keyword updt_cnt) (\<lambda>k1.
      Inr (st\<lparr>hs_Access := access, hs_SrchCnt := created keyword (hs_SrchCnt st),
              hs_LastIND := created keyword (hs_LastIND st),
              hs_setupPairs2 := AList.update oramID (to_string lastind) (hs_setupPairs2 st),
              hs_setupPairsPos := AList.update oramID pos (hs_setupPairsPos st),
              hs_setupPairs1 := AList.update k1 (show_hash lastind acc_cnt) (AList.update k0 (show_hash updt_cnt acc_cnt) (hs_setupPairs1 st))\<rparr>))))))"

definition Horus_setupRemove :: "henv \<Rightarrow> string \<Rightarrow> int \<Rightarrow> horus \<Rightarrow> horus res" where
  "Horus_setupRemove H keyword ind st =
     ebind (createBid_prefix 0 keyword ind) (\<lambda>mapKey.
     let tokens = h_split H (setup_text mapKey st) in
     if tokens = [] then Inr (st\<lparr>hs_setupPairs1 := AList.update mapKey (setup_text mapKey st) (hs_setupPairs1 st)\<rparr>) else
     ebind (stoi (hd tokens)) (\<lambda>updt_cnt.
     if \<not> 0 < updt_cnt then Inr st else
     ebind (nth_or_error tokens 1) (\<lambda>t1. ebind (stoi t1) (\<lambda>acc_cnt.
     let u = at_or_zero keyword (hs_UpdtCnt st) - 1;
         st = st\<lparr>hs_setupPairs1 := AList.update mapKey (''-1#'' @ to_string (acc_cnt + 1)) (hs_setupPairs1 st),
                 hs_UpdtCnt := AList.update keyword u (hs_UpdtCnt st)\<rparr> in
     if 0 < u then
       ebind (if u + 1 \<noteq> updt_cnt then setup_move_last H keyword updt_cnt acc_cnt st else Inr st) (\<lambda>st.
       ebind (createBid_prefix 1 keyword u) (\<lambda>mapKey2.
       ebind (nth_or_error (h_split H (setup_text mapKey2 st)) 0) (\<lambda>t0. ebind (stoi t0) (\<lambda>li.
       Inr (st\<lparr>hs_LastIND := AList.update keyword li (hs_LastIND st)\<rparr>)))))
     else Inr (st\<lparr>hs_LastIND := AList.delete keyword (hs_LastIND st)\<rparr>)))))"

fun cnt_pairs :: "string \<Rightarrow> (string \<times> int) list \<Rightarrow> (bid \<times> string) list \<Rightarrow> (bid \<times> string) list res" where
  "cnt_pairs type [] pairs = Inr pairs"
| "cnt_pairs type ((kw, n) # ps) pairs =
     ebind (horus_getBid kw type) (\<lambda>b. cnt_pairs type ps (AList.update b (to_string n) pairs))"

definition Horus_endSetup :: "henv \<Rightarrow> horus \<Rightarrow> horus res" where
  "Horus_endSetup H st =
     ebind (OMAP_setupInsert (h_E H) (hs_setupPairs1 st) (hs_OMAP_updt st)) (\<lambda>m.
     ebind (test_inserts (h_E H) (h_fuel H) 500 m) (\<lambda>m.
     ebind (PRFORAM_setupInsert (h_E H) (h_sort H) (hs_setupPairs2 st) (hs_setupPairsPos st) (hs_ORAM_srch st)) (\<lambda>oram.
     ebind (cnt_pairs ''UpdtCnt'' (hs_UpdtCnt st) []) (\<lambda>ps.
     ebind (cnt_pairs ''SrchCnt'' (hs_SrchCnt st) ps) (\<lambda>ps.
     ebind (cnt_pairs ''Access'' (hs_Access st) ps) (\<lambda>ps.
     ebind (cnt_pairs ''LastIND'' (hs_LastIND st) ps) (\<lambda>ps.
     ebind (cnt_pairs ''latestUpdatedCounter'' (hs_latestUpdatedCounter st) ps) (\<lambda>ps.
     ebind (OMAP_setupInsert (h_E H) ps (hs_CNTs st)) (\<lambda>c.
     ebind (test_inserts (h_E H) (h_fuel H) 500 c) (\<lambda>c.
     Inr (st\<lparr>hs_OMAP_updt := m, hs_ORAM_srch := oram, hs_CNTs := c, hs_UpdtCnt := [], hs_SrchCnt := [],
             hs_Access := [], hs_LastIND := [], hs_latestUpdatedCounter := []\<rparr>)))))))))))"

end
