(* ===== verification/Placement.thy ===== *)
theory Placement
  imports Main
begin

text \<open>
  The bookkeeping of a tree of buckets with a stash, apart from the format of its blocks.
  \<open>placed key spots B V S M\<close>: the blocks of the buckets \<open>B\<close>, given by \<open>V\<close>, and of the stash \<open>S\<close> are those
  of the memory \<open>M\<close>; a block is in at most one place, and only in buckets of its spots.
\<close>

definition placed :: "('x \<Rightarrow> 'k) \<Rightarrow> ('x \<Rightarrow> 'i set) \<Rightarrow> 'i set \<Rightarrow> ('i \<Rightarrow> 'x list) \<Rightarrow> ('k \<Rightarrow> 'x option) \<Rightarrow> ('k \<Rightarrow> 'x option) \<Rightarrow> bool" where
  "placed key spots B V S M \<longleftrightarrow>
     (\<forall>k x. S k = Some x \<longrightarrow> key x = k) \<and>
     (\<forall>i\<in>B. distinct (map key (V i)) \<and> (\<forall>x\<in>set (V i). i \<in> spots x \<and> S (key x) = None)) \<and>
     (\<forall>i\<in>B. \<forall>j\<in>B. i \<noteq> j \<longrightarrow> key ` set (V i) \<inter> key ` set (V j) = {}) \<and>
     (\<forall>k x. M k = Some x \<longleftrightarrow> S k = Some x \<or> (\<exists>i\<in>B. x \<in> set (V i) \<and> key x = k))"

lemma placedD:
  assumes "placed key spots B V S M"
  shows "S k = Some x \<Longrightarrow> key x = k" "i \<in> B \<Longrightarrow> distinct (map key (V i))"
    "i \<in> B \<Longrightarrow> x \<in> set (V i) \<Longrightarrow> i \<in> spots x" "i \<in> B \<Longrightarrow> x \<in> set (V i) \<Longrightarrow> S (key x) = None"
    "i \<in> B \<Longrightarrow> j \<in> B \<Longrightarrow> x \<in> set (V i) \<Longrightarrow> y \<in> set (V j) \<Longrightarrow> key x = key y \<Longrightarrow> i = j"
    "M k = Some x \<longleftrightarrow> S k = Some x \<or> (\<exists>i\<in>B. x \<in> set (V i) \<and> key x = k)"
proof -
  show "S k = Some x \<Longrightarrow> key x = k" "i \<in> B \<Longrightarrow> distinct (map key (V i))"
    "i \<in> B \<Longrightarrow> x \<in> set (V i) \<Longrightarrow> i \<in> spots x" "i \<in> B \<Longrightarrow> x \<in> set (V i) \<Longrightarrow> S (key x) = None"
    "M k = Some x \<longleftrightarrow> S k = Some x \<or> (\<exists>i\<in>B. x \<in> set (V i) \<and> key x = k)"
    using assms by (simp_all add: placed_def)
  show "i = j" if "i \<in> B" "j \<in> B" "x \<in> set (V i)" "y \<in> set (V j)" "key x = key y"
  proof (rule ccontr)
    assume "i \<noteq> j"
    then have "key ` set (V i) \<inter> key ` set (V j) = {}" using assms that(1,2) by (simp add: placed_def)
    then show False using that(3-5) by (metis disjoint_iff imageI)
  qed
qed

lemma placed_memory_key: "placed key spots B V S M \<Longrightarrow> M k = Some x \<Longrightarrow> key x = k"
  using placedD(1,6) by metis

text \<open>A block whose spots have all been fetched is in the stash.\<close>

lemma placed_stashed:
  "placed key spots B V S M \<Longrightarrow> M k = Some x \<Longrightarrow> spots x \<inter> B = {} \<Longrightarrow> S k = Some x"
  using placedD(3) [of key spots B V S M] placedD(6) [of key spots B V S M k x] by (auto simp: disjoint_iff)

lemma placed_fetch:
  assumes P: "placed key spots B V S M" and i: "i \<in> B"
    and S': "\<And>k x. S' k = Some x \<longleftrightarrow> S k = Some x \<or> x \<in> set (V i) \<and> key x = k"
  shows "placed key spots (B - {i}) V S' M"
  unfolding placed_def
proof (intro conjI allI ballI impI)
  note p = placedD [OF P]
  show "key x = k" if "S' k = Some x" for k x using that S' p(1) by blast
  show "distinct (map key (V j))" if "j \<in> B - {i}" for j using that p(2) by blast
  show "j \<in> spots x" if "j \<in> B - {i}" "x \<in> set (V j)" for j x using that p(3) by blast
  show "S' (key x) = None" if "j \<in> B - {i}" "x \<in> set (V j)" for j x
  proof (cases "S' (key x)")
    case (Some y)
    then consider "S (key x) = Some y" | "y \<in> set (V i)" "key y = key x" using S' by blast
    then show ?thesis using p(4) [of j x] p(5) [of i j y x] i that by cases auto
  qed
  show "key ` set (V j) \<inter> key ` set (V j') = {}" if "j \<in> B - {i}" "j' \<in> B - {i}" "j \<noteq> j'" for j j'
    using that p(5) by fast
  show "M k = Some x \<longleftrightarrow> S' k = Some x \<or> (\<exists>j\<in>B - {i}. x \<in> set (V j) \<and> key x = k)" for k x
    unfolding p(6) S' using i by blast
qed

lemma placed_evict:
  assumes P: "placed key spots B V S M" and i: "i \<notin> B" and ns: "distinct (map key ns)"
    "\<And>x. x \<in> set ns \<Longrightarrow> S (key x) = Some x \<and> i \<in> spots x"
    and S': "\<And>k. S' k = (if k \<in> key ` set ns then None else S k)"
  shows "placed key spots (insert i B) (V(i := ns)) S' M"
  unfolding placed_def
proof (intro conjI allI ballI impI)
  note p = placedD [OF P]
  have new: "key x \<notin> key ` set (V j)" if "x \<in> set ns" "j \<in> B" for x j
    using ns(2) [OF that(1)] p(4) [OF that(2)] by force
  show "key x = k" if "S' k = Some x" for k x using that p(1) by (simp add: S' split: if_splits)
  show "distinct (map key ((V(i := ns)) j))" if "j \<in> insert i B" for j using that ns(1) p(2) by auto
  show "j \<in> spots x" "S' (key x) = None" if "j \<in> insert i B" "x \<in> set ((V(i := ns)) j)" for j x
  proof (atomize (full), cases "j = i")
    case True
    then show "j \<in> spots x \<and> S' (key x) = None" using that(2) ns(2) by (auto simp: S')
  next
    case False
    then have "j \<in> B" "x \<in> set (V j)" using that by auto
    then show "j \<in> spots x \<and> S' (key x) = None" using p(3,4) by (simp add: S')
  qed
  show "key ` set ((V(i := ns)) j) \<inter> key ` set ((V(i := ns)) j') = {}"
    if "j \<in> insert i B" "j' \<in> insert i B" "j \<noteq> j'" for j j'
  proof -
    note jj = that
    consider "j = i" "j' \<in> B" "j' \<noteq> i" | "j' = i" "j \<in> B" "j \<noteq> i" | "j \<in> B" "j' \<in> B" "j \<noteq> i" "j' \<noteq> i" using jj by (metis insertE)
    then show ?thesis
    proof cases
      case 1
      then show ?thesis using new by auto
    next
      case 2
      then have "key ` set ns \<inter> key ` set (V j) = {}" using new by auto
      then show ?thesis using 2 by (simp add: Int_commute)
    next
      case 3
      then have "key ` set (V j) \<inter> key ` set (V j') = {}" using p(5) jj(3) by fast
      then show ?thesis using 3 by simp
    qed
  qed
  show "M k = Some x \<longleftrightarrow> S' k = Some x \<or> (\<exists>j\<in>insert i B. x \<in> set ((V(i := ns)) j) \<and> key x = k)" for k x
  proof -
    have "(\<exists>j\<in>insert i B. x \<in> set ((V(i := ns)) j) \<and> key x = k) \<longleftrightarrow>
        x \<in> set ns \<and> key x = k \<or> (\<exists>j\<in>B. x \<in> set (V j) \<and> key x = k)" using i by auto
    moreover have "S k = Some x \<longleftrightarrow> S' k = Some x \<or> x \<in> set ns \<and> key x = k"
    proof (cases "k \<in> key ` set ns")
      case True
      then obtain y where y: "y \<in> set ns" "key y = k" by blast
      then have "S k = Some y" using ns(2) by blast
      moreover have "S' k = None" using True by (simp add: S')
      moreover have "S k = Some x" if "x \<in> set ns" "key x = k" using ns(2) [OF that(1)] that(2) by simp
      ultimately show ?thesis using y by (metis option.distinct(1) option.inject)
    qed (auto simp: S')
    ultimately show ?thesis unfolding p(6) by blast
  qed
qed

text \<open>Writing a block that is in the stash, or nowhere.\<close>

lemma placed_put:
  assumes P: "placed key spots B V S M" and x: "key x = k" "M k = None \<or> S k \<noteq> None"
  shows "placed key spots B V (S(k \<mapsto> x)) (M(k \<mapsto> x))"
proof -
  note p = placedD [OF P]
  have new: "key y \<noteq> k" if "i \<in> B" "y \<in> set (V i)" for i y
  proof
    assume "key y = k"
    then have "S k = None" "M k = Some y" using p(4) [OF that] p(6) [of k y] that by auto
    then show False using x(2) by simp
  qed
  show ?thesis unfolding placed_def
  proof (intro conjI allI ballI impI)
    show "key y = k'" if "(S(k \<mapsto> x)) k' = Some y" for k' y using that x(1) p(1) by (simp split: if_splits)
    show "distinct (map key (V i))" if "i \<in> B" for i using that p(2) by blast
    show "i \<in> spots y" if "i \<in> B" "y \<in> set (V i)" for i y using that p(3) by blast
    show "(S(k \<mapsto> x)) (key y) = None" if "i \<in> B" "y \<in> set (V i)" for i y using that new p(4) by simp
    show "key ` set (V i) \<inter> key ` set (V j) = {}" if "i \<in> B" "j \<in> B" "i \<noteq> j" for i j using that p(5) by fast
    show "(M(k \<mapsto> x)) k' = Some y \<longleftrightarrow> (S(k \<mapsto> x)) k' = Some y \<or> (\<exists>i\<in>B. y \<in> set (V i) \<and> key y = k')" for k' y
    proof (cases "k' = k")
      case True
      then show ?thesis using new by auto
    next
      case False
      then show ?thesis using p(6) by simp
    qed
  qed
qed

lemma placed_empty: "(\<And>i. i \<in> B \<Longrightarrow> V i = []) \<Longrightarrow> placed key spots B V (\<lambda>_. None) (\<lambda>_. None)"
  by (simp add: placed_def)

end
