(* ===== verification/Prf_Rep.thy ===== *)
theory Prf_Rep
  imports Prf_Oram Omap_Correct Placement
begin

text \<open>
  \<open>PRFORAM\<close> as a memory of boxes: the round trip of boxes and buckets, and the relation
  \<open>prf_rep E st R V M\<close>, which says that the buckets \<open>V\<close> and the stash of \<open>st\<close> hold the memory \<open>M\<close>, where \<open>R\<close> are
  the buckets whose stored contents have been fetched.
\<close>

section \<open>Geometry\<close>

text \<open>The tree has the shape of the Path ORAM of the same depth.\<close>

definition geo :: "prforam \<Rightarrow> oram" where
  "geo st = \<lparr>o_depth = p_depth st, o_bucketCount = p_bucketCount st, o_blockSize = 0, o_clen_size = 0,
     o_plaintext_size = 0, o_maxOfRandom = 0, o_maxHeightOfAVLTree = 0, o_key = [],
     o_store = \<lparr>rs_store = [], rs_size = 0, rs_empty = 0\<rparr>, o_cache = [], o_leafList = [], o_readviewmap = [],
     o_writeviewmap = [], o_modified = [], o_readCnt = 0, o_batchWrite = False, o_totalRead = 0, o_totalWrite = 0,
     o_dummyValue = 0, o_rng = 0, o_ivs = 0\<rparr>"

lemma geo_sel [simp]: "o_depth (geo st) = p_depth st" "o_bucketCount (geo st) = p_bucketCount st"
  by (simp_all add: geo_def)

lemma GetBoxOnPath_geo: "GetBoxOnPath st = GetNodeOnPath (geo st)"
  by (simp add: GetBoxOnPath_def GetNodeOnPath_def fun_eq_iff)

definition bgeom :: "prforam \<Rightarrow> bool" where
  "bgeom st \<longleftrightarrow> p_bucketCount st = 2 ^ (p_depth st + 1) - 1 \<and> p_blockSize st = sizeof_Box \<and>
     p_plaintext_size st = Z * sizeof_Box \<and> p_clen_size st = GetCiphertextLength (Z * sizeof_Box) \<and>
     p_bucketCount st \<le> length (rs_store (p_store st)) \<and> p_depth st < 31"

lemma bgeomD:
  assumes "bgeom st"
  shows "o_bucketCount (geo st) = 2 ^ (o_depth (geo st) + 1) - 1" "p_blockSize st = sizeof_Box"
    "p_bucketCount st \<le> length (rs_store (p_store st))" "p_depth st < 31"
  using assms by (simp_all add: bgeom_def)

text \<open>The part of the state that no operation changes.\<close>

definition pcfg :: "prforam \<Rightarrow> nat list \<times> bytes" where
  "pcfg st = ([p_depth st, p_bucketCount st, p_blockSize st, p_clen_size st, p_plaintext_size st,
     length (rs_store (p_store st))], p_key st)"

lemma pcfg_cong:
  assumes "pcfg st' = pcfg st"
  shows "p_depth st' = p_depth st" "geo st' = geo st" "bgeom st' = bgeom st" "p_key st' = p_key st"
    "GetBoxOnPath st' = GetBoxOnPath st" "box_dummy_blk E st' = box_dummy_blk E st"
  using assms by (simp_all add: pcfg_def geo_def bgeom_def GetBoxOnPath_def box_dummy_blk_def fun_eq_iff)

definition spots :: "prforam \<Rightarrow> box \<Rightarrow> int set" where
  "spots st x = path (geo st) (x_pos x)"

abbreviation buckets :: "prforam \<Rightarrow> int set" where
  "buckets st \<equiv> all_buckets (geo st)"

abbreviation bleaf :: "prforam \<Rightarrow> int \<Rightarrow> bool" where
  "bleaf st \<equiv> leaf_ok (geo st)"

lemma bucket_store_index:
  assumes "bgeom st" "i \<in> buckets st"
  shows "0 \<le> i" "nat i < length (rs_store (p_store st))"
  using bgeomD(3) [OF assms(1)] assms(2) by (auto simp: all_buckets_def nat_less_iff)

section \<open>Boxes as bytes\<close>

definition box_ok :: "box \<Rightarrow> bool" where
  "box_ok x \<longleftrightarrow> bid_wf 24 (x_key x) \<and> length (x_value x) = 16 \<and> int32 (x_pos x)"

lemma length_convertBoxToBlock: "env_ok E \<Longrightarrow> box_ok x \<Longrightarrow> length (convertBoxToBlock E x) = sizeof_Box"
  using env_okD [of E] by (simp add: convertBoxToBlock_def box_ok_def bid_wf_def sizeof_Box_def)

lemma convertBlockToBox_inverse:
  assumes "env_ok E" "box_ok x"
  shows "convertBlockToBox (convertBoxToBlock E x) = Inr x"
proof -
  have len: "length (e_vptr E) = 8" "length (e_pad E) = 4" using env_okD [OF assms(1)] by auto
  have wf: "length (bid_id (x_key x)) = 24" "length (x_value x) = 16" "int32 (x_pos x)"
    using assms(2) by (auto simp: box_ok_def bid_wf_def)
  have "slice 8 24 (convertBoxToBlock E x) = bid_id (x_key x)" "slice 32 16 (convertBoxToBlock E x) = x_value x"
    "get_int 48 (convertBoxToBlock E x) = x_pos x"
    using len wf by (simp_all add: slice_def convertBoxToBlock_def get_int_def rd32_le32)
  then show ?thesis using length_convertBoxToBlock [OF assms] by (simp add: convertBlockToBox_def)
qed

lemma convertBlockToBox_zero: "\<exists>x. convertBlockToBox (replicate sizeof_Box 0) = Inr x \<and> x_key x = Bid_int 24 0"
proof -
  have "le32 0 = replicate 4 0" by (simp add: le32_nths eval_nat_numeral)
  then have "bid_id (Bid_int 24 0) = replicate 24 0"
    by (subst Bid_int_id) (auto simp flip: replicate_add)
  then have "Bid_int 24 0 = Bid (replicate 24 0)" by (metis bid.collapse)
  moreover have "slice 8 24 (replicate sizeof_Box 0) = replicate 24 0" by (simp add: slice_def sizeof_Box_def)
  ultimately show ?thesis by (simp add: convertBlockToBox_def)
qed

section \<open>Buckets in the store\<close>

definition bbkt :: "env \<Rightarrow> prforam \<Rightarrow> box list \<Rightarrow> bucket" where
  "bbkt E st xs = map (\<lambda>x. \<lparr>b_id = x_key x, b_data = convertBoxToBlock E x\<rparr>) xs @
     replicate (Z - length xs) (box_dummy_blk E st)"

definition bplain :: "env \<Rightarrow> prforam \<Rightarrow> box list \<Rightarrow> bytes" where
  "bplain E st xs = concat (map b_data (bbkt E st xs))"

definition boxes_ok :: "box list \<Rightarrow> bool" where
  "boxes_ok xs \<longleftrightarrow> length xs \<le> Z \<and> (\<forall>x\<in>set xs. box_ok x)"

definition bslot :: "env \<Rightarrow> prforam \<Rightarrow> bytes \<Rightarrow> box list \<Rightarrow> bool" where
  "bslot E st c xs \<longleftrightarrow> (\<exists>iv. length iv = 16 \<and> c = e_enc E (p_key st) iv (bplain E st xs) @ iv)"

definition bstore :: "env \<Rightarrow> prforam \<Rightarrow> (int \<Rightarrow> box list) \<Rightarrow> bool" where
  "bstore E st V \<longleftrightarrow> (\<forall>i\<in>buckets st. boxes_ok (V i) \<and> bslot E st (rs_store (p_store st) ! nat i) (V i))"

lemma bbkt_cong:
  assumes "pcfg st' = pcfg st"
  shows "bbkt E st' = bbkt E st" "bplain E st' = bplain E st" "bslot E st' = bslot E st"
  by (simp_all add: bbkt_def bplain_def bslot_def fun_eq_iff pcfg_cong(4,6) [OF assms])

lemma blk_of_bbkt:
  assumes "env_ok E" "bgeom st" "boxes_ok xs" "b \<in> set (bbkt E st xs)"
  shows "length (b_data b) = sizeof_Box \<and> (\<exists>x. convertBlockToBox (b_data b) = Inr x \<and> x_key x = b_id b)"
proof -
  from assms(4) consider x where "x \<in> set xs" "b = \<lparr>b_id = x_key x, b_data = convertBoxToBlock E x\<rparr>"
    | "b = box_dummy_blk E st"
    by (auto simp: bbkt_def)
  then show ?thesis
  proof cases
    case (1 x)
    then have "box_ok x" using assms(3) by (simp add: boxes_ok_def)
    with 1 assms(1) show ?thesis by (simp add: length_convertBoxToBlock convertBlockToBox_inverse)
  next
    case 2
    then show ?thesis using convertBlockToBox_zero bgeomD(2) [OF assms(2)] by (simp add: box_dummy_blk_def)
  qed
qed

lemma length_bplain:
  assumes "env_ok E" "bgeom st" "boxes_ok xs"
  shows "length (bplain E st xs) = Z * sizeof_Box"
proof -
  have "\<forall>b\<in>set (bbkt E st xs). length (b_data b) = sizeof_Box" using blk_of_bbkt [OF assms] by blast
  then have "length (bplain E st xs) = length (bbkt E st xs) * sizeof_Box"
    unfolding bplain_def by (rule length_concat_const)
  then show ?thesis using assms(3) by (simp add: bbkt_def boxes_ok_def)
qed

lemma box_deserialise_loop_eq:
  assumes "\<forall>b\<in>set bs. length (b_data b) = sz \<and> (\<exists>x. convertBlockToBox (b_data b) = Inr x \<and> x_key x = b_id b)"
  shows "box_deserialise_loop sz (length bs) (concat (map b_data bs)) = Inr bs"
  using assms by (induction bs) (auto simp: Let_def)

lemma box_ReadBucket_eq:
  assumes E: "env_ok E" and g: "bgeom st" and s: "bstore E st V" and i: "i \<in> buckets st"
  shows "box_ReadBucket E st i = Inr (bbkt E st (V i), st\<lparr>p_totalRead := p_totalRead st + 1\<rparr>)"
proof -
  let ?st = "st\<lparr>p_totalRead := p_totalRead st + 1\<rparr>"
  have ok: "boxes_ok (V i)" using s i by (simp add: bstore_def)
  obtain iv where iv: "length iv = 16" "rs_store (p_store st) ! nat i = e_enc E (p_key st) iv (bplain E st (V i)) @ iv"
    using s i by (auto simp: bstore_def bslot_def)
  have c: "cipher_ok (e_enc E) (e_dec E)" using E by (rule env_okD)
  have len: "length (bplain E st (V i)) = Z * sizeof_Box" by (rule length_bplain [OF E g ok])
  have clen: "p_clen_size st = GetCiphertextLength (Z * sizeof_Box)" using g by (simp add: bgeom_def)
  have rd: "RAMStore_Read (p_store st) i = Inr (e_enc E (p_key st) iv (bplain E st (V i)) @ iv)"
    using bucket_store_index [OF g i] iv(2) by (simp add: RAMStore_Read_def)
  have dec: "Decrypt (e_dec E) (p_key st) (e_enc E (p_key st) iv (bplain E st (V i)) @ iv) (p_clen_size st) = Inr (bplain E st (V i))"
    using Decrypt_Encrypt [OF c iv(1) len, of "p_key st"] Encrypt_eq [OF c iv(1) len] clen by simp
  have "box_deserialise_loop sizeof_Box (length (bbkt E st (V i))) (bplain E st (V i)) = Inr (bbkt E st (V i))"
    unfolding bplain_def using blk_of_bbkt [OF E g ok] by (intro box_deserialise_loop_eq) blast
  moreover have "length (bbkt E st (V i)) = Z" using ok by (simp add: bbkt_def boxes_ok_def)
  ultimately have "box_DeserialiseBucket ?st (bplain E st (V i)) = Inr (bbkt E st (V i))"
    using len bgeomD(2) [OF g] by (simp add: box_DeserialiseBucket_def)
  then show ?thesis using rd dec by (simp add: box_ReadBucket_def Let_def)
qed

lemma box_WriteBucket_run:
  assumes E: "env_ok E" and g: "bgeom st" and i: "i \<in> buckets st" and ok: "boxes_ok xs"
  obtains c where "bslot E st c xs"
    "box_WriteBucket E st i (bbkt E st xs) = Inr (st\<lparr>p_totalWrite := p_totalWrite st + 1, p_ivs := p_ivs st + 1,
       p_store := (p_store st)\<lparr>rs_store := (rs_store (p_store st))[nat i := c]\<rparr>\<rparr>)"
proof -
  let ?iv = "e_iv E (p_ivs st)"
  let ?c = "e_enc E (p_key st) ?iv (bplain E st xs) @ ?iv"
  let ?st = "st\<lparr>p_totalWrite := p_totalWrite st + 1, p_ivs := p_ivs st + 1\<rparr>"
  have c: "cipher_ok (e_enc E) (e_dec E)" and iv: "length ?iv = 16" using E by (auto dest: env_okD)
  have len: "length (bplain E st xs) = Z * sizeof_Box" by (rule length_bplain [OF E g ok])
  have ser: "box_SerialiseBucket ?st (bbkt E st xs) = Inr (bplain E st xs)"
    using len bgeomD(2) [OF g] by (simp add: box_SerialiseBucket_def bplain_def)
  have enc: "Encrypt (e_enc E) ?iv (p_key st) (bplain E st xs) (p_clen_size st) (p_plaintext_size st) = Inr ?c"
    using Encrypt_eq [OF c iv len, of "p_key st"] g by (simp add: bgeom_def)
  have "bslot E st ?c xs" using iv by (auto simp: bslot_def)
  then show ?thesis
    using that ser enc bucket_store_index [OF g i] by (simp add: box_WriteBucket_def RAMStore_Write_def Let_def)
qed

lemma box_WriteBucket_eq:
  assumes E: "env_ok E" and g: "bgeom st" and s: "bstore E st V" and i: "i \<in> buckets st" and ok: "boxes_ok xs"
  obtains st' where "box_WriteBucket E st i (bbkt E st xs) = Inr st'" "bstore E st' (V(i := xs))"
    "pcfg st' = pcfg st" "rs_empty (p_store st') = rs_empty (p_store st)" "p_stash st' = p_stash st"
    "p_viewmap st' = p_viewmap st"
proof -
  obtain c where c: "bslot E st c xs"
    "box_WriteBucket E st i (bbkt E st xs) = Inr (st\<lparr>p_totalWrite := p_totalWrite st + 1, p_ivs := p_ivs st + 1,
       p_store := (p_store st)\<lparr>rs_store := (rs_store (p_store st))[nat i := c]\<rparr>\<rparr>)" (is "_ = Inr ?st'")
    by (rule box_WriteBucket_run [OF E g i ok])
  have cfg: "pcfg ?st' = pcfg st" by (simp add: pcfg_def)
  have "boxes_ok ((V(i := xs)) j) \<and> bslot E st (rs_store (p_store ?st') ! nat j) ((V(i := xs)) j)" if "j \<in> buckets st" for j
  proof (cases "j = i")
    case True
    then show ?thesis using ok c(1) bucket_store_index [OF g i] by simp
  next
    case False
    then have "nat j \<noteq> nat i" using that bucket_store_index(1) [OF g i] by (auto simp: all_buckets_def)
    with False that s show ?thesis by (simp add: bstore_def)
  qed
  then have "bstore E ?st' (V(i := xs))" using pcfg_cong [OF cfg] bbkt_cong [OF cfg] by (simp add: bstore_def)
  then show ?thesis using that c(2) cfg by simp
qed

section \<open>The memory of boxes\<close>

definition bgood :: "prforam \<Rightarrow> box \<Rightarrow> bool" where
  "bgood st x \<longleftrightarrow> box_ok x \<and> bid_ne_int (x_key x) 0 \<and> bleaf st (x_pos x)"

lemma bgood_cong:
  assumes "pcfg st' = pcfg st"
  shows "spots st' = spots st" "bgood st' = bgood st"
  by (simp_all add: fun_eq_iff spots_def bgood_def pcfg_cong(2) [OF assms])

definition prf_rep :: "env \<Rightarrow> prforam \<Rightarrow> int set \<Rightarrow> (int \<Rightarrow> box list) \<Rightarrow> (bid \<Rightarrow> box option) \<Rightarrow> bool" where
  "prf_rep E st R V M \<longleftrightarrow>
     bgeom st \<and> bstore E st V \<and> distinct (map fst (p_stash st)) \<and> (\<forall>k. map_of (p_stash st) k \<noteq> Some None) \<and>
     (\<forall>k x. M k = Some x \<longrightarrow> bgood st x) \<and> placed x_key (spots st) (buckets st - R) V (stash_box st) M"

lemma prf_repD:
  assumes "prf_rep E st R V M"
  shows "bgeom st" "bstore E st V" "distinct (map fst (p_stash st))" "map_of (p_stash st) k \<noteq> Some None"
    "M k = Some x \<Longrightarrow> bgood st x" "placed x_key (spots st) (buckets st - R) V (stash_box st) M"
  using assms by (simp_all add: prf_rep_def)

lemma stash_box_None: "map_of (p_stash st) k \<noteq> Some None \<Longrightarrow> map_of (p_stash st) k = None \<longleftrightarrow> stash_box st k = None"
  by (auto simp: stash_box_def split: option.splits)

lemma prf_rep_cong:
  assumes "pcfg st' = pcfg st" "p_store st' = p_store st" "p_stash st' = p_stash st"
  shows "prf_rep E st' R V M = prf_rep E st R V M"
proof -
  have "stash_box st' = stash_box st" using assms(3) by (simp add: stash_box_def fun_eq_iff)
  then show ?thesis
    using pcfg_cong [OF assms(1)] bbkt_cong [OF assms(1)] bgood_cong [OF assms(1)] assms(2,3)
    by (simp add: prf_rep_def bstore_def)
qed

section \<open>Fetching\<close>

lemma box_dummy_skipped: "\<not> bid_ne_int (b_id (box_dummy_blk E st)) 0"
proof -
  have "bid_eq_int (Bid_int 24 0) 0" using bid_eq_int_zero [of Horus] by (simp add: ID_SIZE_def)
  then show ?thesis by (simp add: box_dummy_blk_def bid_ne_int_iff)
qed

lemma box_fetch_dummies: "box_fetch_blocks (replicate m (box_dummy_blk E st')) st = Inr st"
  by (induction m) (auto simp: box_dummy_skipped)

lemma box_fetch_nodes:
  assumes "env_ok E" "distinct (map x_key xs)" "distinct (map fst (p_stash st))"
    "\<forall>x\<in>set xs. box_ok x \<and> bid_ne_int (x_key x) 0 \<and> map_of (p_stash st) (x_key x) = None"
  shows "\<exists>c. box_fetch_blocks (map (\<lambda>x. \<lparr>b_id = x_key x, b_data = convertBoxToBlock E x\<rparr>) xs @ bs) st =
       box_fetch_blocks bs (st\<lparr>p_stash := c\<rparr>) \<and> distinct (map fst c) \<and>
     (\<forall>k y. map_of c k = Some y \<longleftrightarrow> map_of (p_stash st) k = Some y \<or> (\<exists>x\<in>set xs. x_key x = k \<and> y = Some x))"
  using assms(2-4)
proof (induction xs arbitrary: st)
  case Nil
  then show ?case by (intro exI [of _ "p_stash st"]) simp
next
  case (Cons x xs)
  let ?st = "st\<lparr>p_stash := AList.update (x_key x) (Some x) (p_stash st)\<rparr>"
  have "distinct (map x_key xs)" "distinct (map fst (p_stash ?st))"
    "\<forall>z\<in>set xs. box_ok z \<and> bid_ne_int (x_key z) 0 \<and> map_of (p_stash ?st) (x_key z) = None"
    using Cons.prems by (auto simp: distinct_update map_of_update_apply)
  from Cons.IH [OF this] obtain c where c:
    "box_fetch_blocks (map (\<lambda>x. \<lparr>b_id = x_key x, b_data = convertBoxToBlock E x\<rparr>) xs @ bs) ?st = box_fetch_blocks bs (?st\<lparr>p_stash := c\<rparr>)"
    "distinct (map fst c)"
    "\<forall>k y. map_of c k = Some y \<longleftrightarrow> map_of (p_stash ?st) k = Some y \<or> (\<exists>x\<in>set xs. x_key x = k \<and> y = Some x)"
    by blast
  have "map_of c k = Some y \<longleftrightarrow> map_of (p_stash st) k = Some y \<or> (\<exists>x\<in>set (x # xs). x_key x = k \<and> y = Some x)" for k y
    using c(3) Cons.prems(3) by (auto simp: map_of_update_apply)
  moreover have "box_fetch_blocks (map (\<lambda>x. \<lparr>b_id = x_key x, b_data = convertBoxToBlock E x\<rparr>) (x # xs) @ bs) st =
      box_fetch_blocks bs (st\<lparr>p_stash := c\<rparr>)"
    using c(1) Cons.prems(3) convertBlockToBox_inverse [OF assms(1)] by simp
  ultimately show ?case using c(2) by blast
qed

lemma box_fetch_bucket:
  assumes E: "env_ok E" and rep: "prf_rep E st R V M" and i: "i \<in> buckets st" "i \<notin> R"
  obtains bkt st1 st' where "box_ReadBucket E st i = Inr (bkt, st1)" "box_fetch_blocks bkt st1 = Inr st'"
    "prf_rep E st' (insert i R) V M" "pcfg st' = pcfg st" "rs_empty (p_store st') = rs_empty (p_store st)"
    "p_viewmap st' = p_viewmap st"
proof -
  note r = prf_repD [OF rep]
  note p = placedD [OF r(6)]
  let ?st1 = "st\<lparr>p_totalRead := p_totalRead st + 1\<rparr>"
  have iB: "i \<in> buckets st - R" using i by blast
  have rb: "box_ReadBucket E st i = Inr (bbkt E st (V i), ?st1)" by (rule box_ReadBucket_eq [OF E r(1,2) i(1)])
  have g: "bgood st x" if "x \<in> set (V i)" for x using r(5) p(6) iB that by blast
  have none: "map_of (p_stash st) (x_key x) = None" if "x \<in> set (V i)" for x
    using p(4) [OF iB that] stash_box_None [OF r(4)] by simp
  have "\<forall>x\<in>set (V i). box_ok x \<and> bid_ne_int (x_key x) 0 \<and> map_of (p_stash ?st1) (x_key x) = None"
    using g none by (simp add: bgood_def)
  then obtain c where c: "box_fetch_blocks (bbkt E st (V i)) ?st1 = Inr (?st1\<lparr>p_stash := c\<rparr>)" "distinct (map fst c)"
    "\<forall>k y. map_of c k = Some y \<longleftrightarrow> map_of (p_stash st) k = Some y \<or> (\<exists>x\<in>set (V i). x_key x = k \<and> y = Some x)"
    using box_fetch_nodes [OF E p(2) [OF iB], of ?st1 "replicate (Z - length (V i)) (box_dummy_blk E st)"] r(3)
    by (auto simp: bbkt_def box_fetch_dummies)
  let ?st' = "?st1\<lparr>p_stash := c\<rparr>"
  have cfg: "pcfg ?st' = pcfg st" by (simp add: pcfg_def)
  note cc = pcfg_cong [OF cfg]
  have S: "stash_box ?st' k = Some x \<longleftrightarrow> stash_box st k = Some x \<or> x \<in> set (V i) \<and> x_key x = k" for k x
    using c(3) [rule_format, of k "Some x"] by (auto simp: stash_box_def split: option.splits)
  have "placed x_key (spots st) (buckets st - R - {i}) V (stash_box ?st') M" by (rule placed_fetch [OF r(6) iB S])
  moreover have "buckets st - R - {i} = buckets st - insert i R" by blast
  moreover have "map_of c k \<noteq> Some None" for k using c(3) r(4) by auto
  moreover have "bstore E ?st' V" using r(2) bbkt_cong [OF cfg] cc by (simp add: bstore_def)
  ultimately have "prf_rep E ?st' (insert i R) V M"
    using r(1,5) c(2) cc bgood_cong [OF cfg] by (simp add: prf_rep_def)
  then show ?thesis using that rb c(1) cfg by simp
qed

lemma GetBoxOnPath_range: "bgeom st \<Longrightarrow> bleaf st l \<Longrightarrow> d \<le> p_depth st \<Longrightarrow> GetBoxOnPath st l d \<in> buckets st"
  using GetNodeOnPath_range [of "geo st" l d] bgeomD(1) by (simp add: GetBoxOnPath_geo)

lemma GetBoxOnPath_inj:
  "bgeom st \<Longrightarrow> bleaf st l \<Longrightarrow> d \<le> p_depth st \<Longrightarrow> d' \<le> p_depth st \<Longrightarrow> GetBoxOnPath st l d = GetBoxOnPath st l d' \<Longrightarrow> d = d'"
  using GetNodeOnPath_level_unique [of "geo st" l l d d'] bgeomD(1) by (simp add: GetBoxOnPath_geo)

lemma box_fetch_levels_rep:
  assumes E: "env_ok E" and rep: "prf_rep E st R V M" and leaf: "bleaf st leaf" and ds: "distinct ds" "\<forall>d\<in>set ds. d \<le> p_depth st"
    and mode: "if batch then R = set (p_viewmap st) else \<forall>d\<in>set ds. GetBoxOnPath st leaf d \<notin> R"
  obtains st' where "box_fetch_levels E batch leaf ds st = Inr st'" "prf_rep E st' (R \<union> GetBoxOnPath st leaf ` set ds) V M"
    "pcfg st' = pcfg st" "rs_empty (p_store st') = rs_empty (p_store st)"
    "batch \<Longrightarrow> set (p_viewmap st') = R \<union> GetBoxOnPath st leaf ` set ds"
  using rep leaf ds mode
proof (induction ds arbitrary: st R thesis)
  case Nil
  show ?case by (rule Nil.prems(1) [of st]) (use Nil.prems(2,6) in auto)
next
  case (Cons d ds)
  let ?nd = "GetBoxOnPath st leaf d"
  have g: "bgeom st" by (rule prf_repD(1) [OF Cons.prems(2)])
  show ?case
  proof (cases "batch \<and> ?nd \<in> set (p_viewmap st)")
    case True
    then have "?nd \<in> R" using Cons.prems(6) by simp
    then have R: "R \<union> GetBoxOnPath st leaf ` set (d # ds) = R \<union> GetBoxOnPath st leaf ` set ds" by auto
    have "distinct ds" "\<forall>d\<in>set ds. d \<le> p_depth st" "if batch then R = set (p_viewmap st) else \<forall>d\<in>set ds. GetBoxOnPath st leaf d \<notin> R"
      using Cons.prems(4-6) by (auto split: if_splits)
    from Cons.IH [OF _ Cons.prems(2,3) this] obtain st' where "box_fetch_levels E batch leaf ds st = Inr st'"
      "prf_rep E st' (R \<union> GetBoxOnPath st leaf ` set ds) V M" "pcfg st' = pcfg st" "rs_empty (p_store st') = rs_empty (p_store st)"
      "batch \<Longrightarrow> set (p_viewmap st') = R \<union> GetBoxOnPath st leaf ` set ds" by blast
    then show ?thesis using Cons.prems(1) [of st'] True R by (simp add: Let_def)
  next
    case False
    then have nd: "?nd \<in> buckets st" "?nd \<notin> R"
      using GetBoxOnPath_range [OF g Cons.prems(3), of d] Cons.prems(5,6) by (auto split: if_splits)
    let ?st = "if batch then st\<lparr>p_viewmap := p_viewmap st @ [?nd]\<rparr> else st"
    have c0: "pcfg ?st = pcfg st" "p_store ?st = p_store st" "p_stash ?st = p_stash st" by (simp_all add: pcfg_def)
    have "prf_rep E ?st R V M" using Cons.prems(2) prf_rep_cong [OF c0] by simp
    moreover have "?nd \<in> buckets ?st" using nd(1) pcfg_cong(2) [OF c0(1)] by simp
    ultimately obtain bkt st1 st2 where f: "box_ReadBucket E ?st ?nd = Inr (bkt, st1)" "box_fetch_blocks bkt st1 = Inr st2"
      "prf_rep E st2 (insert ?nd R) V M" "pcfg st2 = pcfg ?st" "rs_empty (p_store st2) = rs_empty (p_store ?st)" "p_viewmap st2 = p_viewmap ?st"
      using box_fetch_bucket [OF E _ _ nd(2)] by metis
    have cfg: "pcfg st2 = pcfg st" using f(4) c0(1) by simp
    note cc = pcfg_cong [OF cfg]
    have "GetBoxOnPath st leaf d' \<noteq> ?nd" if "d' \<in> set ds" for d'
      using GetBoxOnPath_inj [OF g Cons.prems(3), of d' d] Cons.prems(4,5) that by auto
    then have m: "if batch then insert ?nd R = set (p_viewmap st2) else \<forall>d\<in>set ds. GetBoxOnPath st2 leaf d \<notin> insert ?nd R"
      using Cons.prems(6) f(6) cc(5) by (auto split: if_splits)
    have "bleaf st2 leaf" "distinct ds" "\<forall>d\<in>set ds. d \<le> p_depth st2" using Cons.prems(3-5) cc by simp_all
    from Cons.IH [OF _ f(3) this m] obtain st' where st': "box_fetch_levels E batch leaf ds st2 = Inr st'"
      "prf_rep E st' (insert ?nd R \<union> GetBoxOnPath st2 leaf ` set ds) V M" "pcfg st' = pcfg st2" "rs_empty (p_store st') = rs_empty (p_store st2)"
      "batch \<Longrightarrow> set (p_viewmap st') = insert ?nd R \<union> GetBoxOnPath st2 leaf ` set ds" by blast
    show ?thesis
    proof (rule Cons.prems(1) [of st'])
      have "box_fetch_levels E batch leaf (d # ds) st =
          ebind (box_ReadBucket E ?st ?nd) (\<lambda>(bkt, st). ebind (box_fetch_blocks bkt st) (box_fetch_levels E batch leaf ds))"
        using False by (cases batch) (simp_all add: Let_def)
      then show "box_fetch_levels E batch leaf (d # ds) st = Inr st'" using f(1,2) st'(1) by simp
      show "rs_empty (p_store st') = rs_empty (p_store st)" using st'(4) f(5) c0(2) by simp
    qed (use st' cfg cc(5) in simp_all)
  qed
qed

section \<open>Writing back\<close>

lemma box_evict_eq:
  assumes "distinct bids" "\<forall>k\<in>set bids. stash_box st k \<noteq> None" "distinct (map fst (p_stash st))"
  shows "\<exists>c. box_evict E bids st =
      (map (\<lambda>k. \<lparr>b_id = k, b_data = convertBoxToBlock E (the (stash_box st k))\<rparr>) bids, st\<lparr>p_stash := c\<rparr>) \<and>
      distinct (map fst c) \<and> (\<forall>k. map_of c k = (if k \<in> set bids then None else map_of (p_stash st) k))"
  using assms
proof (induction bids arbitrary: st)
  case Nil
  then show ?case by (intro exI [of _ "p_stash st"]) simp
next
  case (Cons b bids)
  let ?st = "st\<lparr>p_stash := AList.delete b (p_stash st)\<rparr>"
  have c: "stash_box ?st k = stash_box st k" if "k \<in> set bids" for k
    using Cons.prems(1) that by (auto simp: stash_box_def map_of_delete_apply)
  have "distinct (map fst (p_stash ?st))" using Cons.prems(3) by (simp add: distinct_delete)
  then obtain c where c': "box_evict E bids ?st =
      (map (\<lambda>k. \<lparr>b_id = k, b_data = convertBoxToBlock E (the (stash_box ?st k))\<rparr>) bids, ?st\<lparr>p_stash := c\<rparr>)"
    "distinct (map fst c)" "\<forall>k. map_of c k = (if k \<in> set bids then None else map_of (p_stash ?st) k)"
    using Cons.IH [of ?st] Cons.prems(1,2) c by auto
  obtain x where x: "stash_box st b = Some x" using Cons.prems(2) by auto
  have "map (\<lambda>k. \<lparr>b_id = k, b_data = convertBoxToBlock E (the (stash_box ?st k))\<rparr>) bids =
      map (\<lambda>k. \<lparr>b_id = k, b_data = convertBoxToBlock E (the (stash_box st k))\<rparr>) bids"
    using c by simp
  then have "box_evict E (b # bids) st =
      (map (\<lambda>k. \<lparr>b_id = k, b_data = convertBoxToBlock E (the (stash_box st k))\<rparr>) (b # bids), st\<lparr>p_stash := c\<rparr>)"
    using c'(1) x by simp
  then show ?case using c'(2,3) by (intro exI [of _ c]) (auto simp: map_of_delete_apply)
qed

lemma box_GetIntersectingBlocks_props:
  assumes "distinct (map fst (p_stash st))"
  shows "distinct (box_GetIntersectingBlocks st l d)" "length (box_GetIntersectingBlocks st l d) \<le> Z"
    "k \<in> set (box_GetIntersectingBlocks st l d) \<Longrightarrow>
       \<exists>x. stash_box st k = Some x \<and> GetBoxOnPath st (x_pos x) d = GetBoxOnPath st l d"
proof -
  show "distinct (box_GetIntersectingBlocks st l d)" "length (box_GetIntersectingBlocks st l d) \<le> Z"
    using assms by (simp_all add: box_GetIntersectingBlocks_def)
  show "\<exists>x. stash_box st k = Some x \<and> GetBoxOnPath st (x_pos x) d = GetBoxOnPath st l d"
    if "k \<in> set (box_GetIntersectingBlocks st l d)"
    using that by (auto simp: box_GetIntersectingBlocks_def box_fits_at_def dest!: in_set_takeD split: option.splits)
qed

lemma box_WritePath_rep:
  assumes E: "env_ok E" and rep: "prf_rep E st (R - set (p_viewmap st)) V M"
    and leaf: "bleaf st leaf" and d: "d \<le> p_depth st" and nd: "GetBoxOnPath st leaf d \<in> R"
  obtains st' V' where "box_WritePath E leaf d st = Inr st'" "prf_rep E st' (R - set (p_viewmap st')) V' M"
    "set (p_viewmap st') = insert (GetBoxOnPath st leaf d) (set (p_viewmap st))" "pcfg st' = pcfg st"
    "rs_empty (p_store st') = rs_empty (p_store st)"
proof (cases "GetBoxOnPath st leaf d \<in> set (p_viewmap st)")
  case True
  then show ?thesis using that [of st V] rep by (simp add: box_WritePath_def insert_absorb)
next
  case False
  let ?nd = "GetBoxOnPath st leaf d"
  let ?bids = "box_GetIntersectingBlocks st leaf d"
  let ?xs = "map (\<lambda>k. the (stash_box st k)) ?bids"
  note r = prf_repD [OF rep]
  note gi = box_GetIntersectingBlocks_props [OF r(3), where l = leaf and d = d]
  obtain ch where ev: "box_evict E ?bids st =
      (map (\<lambda>k. \<lparr>b_id = k, b_data = convertBoxToBlock E (the (stash_box st k))\<rparr>) ?bids, st\<lparr>p_stash := ch\<rparr>)"
    "distinct (map fst ch)" "\<forall>k. map_of ch k = (if k \<in> set ?bids then None else map_of (p_stash st) k)"
    using box_evict_eq [OF gi(1) _ r(3), of E] gi(3) by fastforce
  have key: "x_key (the (stash_box st k)) = k" if "k \<in> set ?bids" for k
    using gi(3) [OF that] placedD(1) [OF r(6)] by auto
  then have keys: "map x_key ?xs = ?bids" by (simp add: comp_def map_idI)
  have ks: "x_key ` set ?xs = set ?bids" using arg_cong [OF keys, of set] by (simp only: set_map)
  have xs: "stash_box st (x_key x) = Some x \<and> GetBoxOnPath st (x_pos x) d = ?nd" if "x \<in> set ?xs" for x
    using that gi(3) key by fastforce
  have ok: "boxes_ok ?xs"
    using gi(2) xs r(5) placedD(6) [OF r(6)] by (auto simp: boxes_ok_def bgood_def)
  let ?st1 = "st\<lparr>p_stash := ch, p_viewmap := p_viewmap st @ [?nd]\<rparr>"
  have cfg1: "pcfg ?st1 = pcfg st" by (simp add: pcfg_def)
  have bkt: "map (\<lambda>k. \<lparr>b_id = k, b_data = convertBoxToBlock E (the (stash_box st k))\<rparr>) ?bids @
      replicate (Z - length ?bids) (box_dummy_blk E (st\<lparr>p_stash := ch\<rparr>)) = bbkt E ?st1 ?xs"
    using key by (simp add: bbkt_def box_dummy_blk_def)
  have ndb: "?nd \<in> buckets st" by (rule GetBoxOnPath_range [OF r(1) leaf d])
  have "bstore E ?st1 V" using r(2) bbkt_cong [OF cfg1] pcfg_cong(2) [OF cfg1] by (simp add: bstore_def)
  then obtain st' where w: "box_WriteBucket E ?st1 ?nd (bbkt E ?st1 ?xs) = Inr st'" "bstore E st' (V(?nd := ?xs))"
    "pcfg st' = pcfg ?st1" "rs_empty (p_store st') = rs_empty (p_store ?st1)" "p_stash st' = p_stash ?st1"
    "p_viewmap st' = p_viewmap ?st1"
    using box_WriteBucket_eq [OF E _ _ _ ok, of ?st1 V ?nd] r(1) ndb pcfg_cong(2,3) [OF cfg1] by metis
  have wp: "box_WritePath E leaf d st = Inr st'"
    using False ev(1) w(1) bkt by (simp add: box_WritePath_def Let_def)
  have cfg: "pcfg st' = pcfg st" using w(3) cfg1 by simp
  have S: "stash_box st' k = (if k \<in> x_key ` set ?xs then None else stash_box st k)" for k
    using ev(3) w(5) ks by (simp add: stash_box_def)
  have "placed x_key (spots st) (insert ?nd (buckets st - (R - set (p_viewmap st)))) (V(?nd := ?xs)) (stash_box st') M"
  proof (rule placed_evict [OF r(6) _ _ _ S])
    show "?nd \<notin> buckets st - (R - set (p_viewmap st))" using nd False by simp
    show "distinct (map x_key ?xs)" unfolding keys by (rule gi(1))
    show "stash_box st (x_key x) = Some x \<and> ?nd \<in> spots st x" if "x \<in> set ?xs" for x
      using xs [OF that] d unfolding spots_def path_def GetBoxOnPath_geo by (metis atLeastAtMost_iff geo_sel(1) imageI zero_le)
  qed
  moreover have "insert ?nd (buckets st - (R - set (p_viewmap st))) = buckets st - (R - set (p_viewmap st'))"
    using ndb w(6) by auto
  moreover have "map_of (p_stash st') k \<noteq> Some None" for k using ev(3) w(5) r(4) by simp
  ultimately have "prf_rep E st' (R - set (p_viewmap st')) (V(?nd := ?xs)) M"
    using r(1,5) w(2,5) ev(2) pcfg_cong [OF cfg] bgood_cong [OF cfg] by (simp add: prf_rep_def)
  then show ?thesis using that [OF wp] w(4,6) cfg by simp
qed

text \<open>Writing the buckets of one level, then of all levels.\<close>

lemma box_write_leafs_rep:
  assumes E: "env_ok E" and rep: "prf_rep E st (R - set (p_viewmap st)) V M" and d: "d \<le> p_depth st"
    and ls: "\<forall>l\<in>set ls. bleaf st l \<and> GetBoxOnPath st l d \<in> R"
  obtains st' V' where "box_write_leafs E d ls st = Inr st'" "prf_rep E st' (R - set (p_viewmap st')) V' M"
    "set (p_viewmap st') = set (p_viewmap st) \<union> (\<lambda>l. GetBoxOnPath st l d) ` set ls" "pcfg st' = pcfg st"
    "rs_empty (p_store st') = rs_empty (p_store st)"
  using rep d ls
proof (induction ls arbitrary: st V thesis)
  case Nil
  show ?case by (rule Nil.prems(1) [of st V]) (use Nil.prems(2) in auto)
next
  case (Cons l ls)
  have l: "bleaf st l" "GetBoxOnPath st l d \<in> R" using Cons.prems(4) by simp_all
  obtain st1 V1 where st1: "box_WritePath E l d st = Inr st1" "prf_rep E st1 (R - set (p_viewmap st1)) V1 M"
    "set (p_viewmap st1) = insert (GetBoxOnPath st l d) (set (p_viewmap st))" "pcfg st1 = pcfg st"
    "rs_empty (p_store st1) = rs_empty (p_store st)"
    by (rule box_WritePath_rep [OF E Cons.prems(2) l(1) Cons.prems(3) l(2)])
  note cg = pcfg_cong [OF st1(4)]
  have "d \<le> p_depth st1" "\<forall>l\<in>set ls. bleaf st1 l \<and> GetBoxOnPath st1 l d \<in> R" using Cons.prems(3,4) cg by simp_all
  from Cons.IH [OF _ st1(2) this] obtain st2 V2 where st2: "box_write_leafs E d ls st1 = Inr st2"
    "prf_rep E st2 (R - set (p_viewmap st2)) V2 M"
    "set (p_viewmap st2) = set (p_viewmap st1) \<union> (\<lambda>l. GetBoxOnPath st1 l d) ` set ls" "pcfg st2 = pcfg st1"
    "rs_empty (p_store st2) = rs_empty (p_store st1)" by blast
  show ?case by (rule Cons.prems(1) [of st2 V2]) (use st1 st2 cg in auto)
qed

lemma box_write_levels_rep:
  assumes E: "env_ok E" and rep: "prf_rep E st (R - set (p_viewmap st)) V M" and ds: "\<forall>d\<in>set ds. d \<le> p_depth st"
    and ls: "\<forall>l\<in>set ls. bleaf st l \<and> path (geo st) l \<subseteq> R"
  obtains st' V' where "box_write_levels E ds ls st = Inr st'" "prf_rep E st' (R - set (p_viewmap st')) V' M"
    "set (p_viewmap st') = set (p_viewmap st) \<union> (\<Union>l\<in>set ls. GetBoxOnPath st l ` set ds)" "pcfg st' = pcfg st"
    "rs_empty (p_store st') = rs_empty (p_store st)"
  using rep ds ls
proof (induction ds arbitrary: st V thesis)
  case Nil
  show ?case by (rule Nil.prems(1) [of st V]) (use Nil.prems(2) in auto)
next
  case (Cons d ds)
  have d: "d \<le> p_depth st" using Cons.prems(3) by simp
  then have "\<forall>l\<in>set ls. bleaf st l \<and> GetBoxOnPath st l d \<in> R"
    using Cons.prems(4) unfolding path_def GetBoxOnPath_geo by fastforce
  then obtain st1 V1 where st1: "box_write_leafs E d ls st = Inr st1" "prf_rep E st1 (R - set (p_viewmap st1)) V1 M"
    "set (p_viewmap st1) = set (p_viewmap st) \<union> (\<lambda>l. GetBoxOnPath st l d) ` set ls" "pcfg st1 = pcfg st"
    "rs_empty (p_store st1) = rs_empty (p_store st)"
    using box_write_leafs_rep [OF E Cons.prems(2) d] by metis
  note cg = pcfg_cong [OF st1(4)]
  have "\<forall>d\<in>set ds. d \<le> p_depth st1" "\<forall>l\<in>set ls. bleaf st1 l \<and> path (geo st1) l \<subseteq> R" using Cons.prems(3,4) cg by simp_all
  from Cons.IH [OF _ st1(2) this] obtain st2 V2 where st2: "box_write_levels E ds ls st1 = Inr st2"
    "prf_rep E st2 (R - set (p_viewmap st2)) V2 M"
    "set (p_viewmap st2) = set (p_viewmap st1) \<union> (\<Union>l\<in>set ls. GetBoxOnPath st1 l ` set ds)" "pcfg st2 = pcfg st1"
    "rs_empty (p_store st2) = rs_empty (p_store st1)" by blast
  show ?case by (rule Cons.prems(1) [of st2 V2]) (use st1 st2 cg in auto)
qed

lemma path_boxes: "path (geo st) l = GetBoxOnPath st l ` set [0..<Suc (p_depth st)]"
proof -
  have "set [0..<Suc (p_depth st)] = {0..p_depth st}" by auto
  then show ?thesis by (simp add: path_def GetBoxOnPath_geo del: upt_Suc)
qed

text \<open>After an access every bucket is up to date again.\<close>

lemma box_write_back:
  assumes E: "env_ok E" and rep: "prf_rep E st (\<Union>l\<in>set ls. path (geo st) l) V M" and ls: "\<forall>l\<in>set ls. bleaf st l"
  obtains st' V' where "box_write_levels E (rev [0..<Suc (p_depth st)]) ls (st\<lparr>p_viewmap := []\<rparr>) = Inr st'"
    "prf_rep E st' {} V' M" "pcfg st' = pcfg st" "rs_empty (p_store st') = rs_empty (p_store st)"
proof -
  let ?R = "\<Union>l\<in>set ls. path (geo st) l" and ?st = "st\<lparr>p_viewmap := []\<rparr>"
  have c: "pcfg ?st = pcfg st" "p_store ?st = p_store st" "p_stash ?st = p_stash st" by (simp_all add: pcfg_def)
  note cg = pcfg_cong [OF c(1)]
  have "prf_rep E ?st (?R - set (p_viewmap ?st)) V M" using rep prf_rep_cong [OF c] by simp
  moreover have "\<forall>d\<in>set (rev [0..<Suc (p_depth st)]). d \<le> p_depth ?st" by auto
  moreover have "\<forall>l\<in>set ls. bleaf ?st l \<and> path (geo ?st) l \<subseteq> ?R" using ls cg(2) by auto
  ultimately obtain st' V' where st': "box_write_levels E (rev [0..<Suc (p_depth st)]) ls ?st = Inr st'"
    "prf_rep E st' (?R - set (p_viewmap st')) V' M"
    "set (p_viewmap st') = set (p_viewmap ?st) \<union> (\<Union>l\<in>set ls. GetBoxOnPath ?st l ` set (rev [0..<Suc (p_depth st)]))"
    "pcfg st' = pcfg ?st" "rs_empty (p_store st') = rs_empty (p_store ?st)"
    by (rule box_write_levels_rep [OF E])
  have "set (p_viewmap st') = ?R" using st'(3) cg(5) unfolding path_boxes by (simp del: upt_Suc)
  then show ?thesis using that st' c(1) by simp
qed

lemma ebind_Inr_right: "ebind x Inr = x"
  by (cases x) simp_all

lemma box_write_path_levels_eq: "box_write_path_levels E l ds st = box_write_levels E ds [l] st"
proof (induction ds arbitrary: st)
  case (Cons d ds)
  have "box_write_leafs E d [l] = box_WritePath E l d"
  proof
    show "box_write_leafs E d [l] st = box_WritePath E l d st" for st
      by (cases "box_WritePath E l d st") simp_all
  qed
  then show ?case using Cons.IH by (cases "box_WritePath E l d st") simp_all
qed simp

section \<open>Single accesses\<close>

lemma box_FetchPath_rep:
  assumes E: "env_ok E" and rep: "prf_rep E st R V M" and leaf: "bleaf st leaf"
    and mode: "if batch then R = set (p_viewmap st) else R = {}"
  obtains st' where "box_FetchPath E leaf batch st = Inr st'" "prf_rep E st' (R \<union> path (geo st) leaf) V M"
    "pcfg st' = pcfg st" "rs_empty (p_store st') = rs_empty (p_store st)"
    "batch \<Longrightarrow> set (p_viewmap st') = R \<union> path (geo st) leaf"
proof -
  have "distinct [0..<Suc (p_depth st)]" "\<forall>d\<in>set [0..<Suc (p_depth st)]. d \<le> p_depth st" by auto
  moreover have "if batch then R = set (p_viewmap st) else \<forall>d\<in>set [0..<Suc (p_depth st)]. GetBoxOnPath st leaf d \<notin> R"
    using mode by (simp split: if_splits)
  ultimately obtain st' where "box_fetch_levels E batch leaf [0..<Suc (p_depth st)] st = Inr st'"
    "prf_rep E st' (R \<union> GetBoxOnPath st leaf ` set [0..<Suc (p_depth st)]) V M"
    "pcfg st' = pcfg st" "rs_empty (p_store st') = rs_empty (p_store st)"
    "batch \<Longrightarrow> set (p_viewmap st') = R \<union> GetBoxOnPath st leaf ` set [0..<Suc (p_depth st)]"
    by (rule box_fetch_levels_rep [OF E rep leaf]) blast
  then show ?thesis using that unfolding path_boxes box_FetchPath_def by blast
qed

text \<open>A box whose path has been fetched is in the stash.\<close>

lemma box_in_stash: "prf_rep E st R V M \<Longrightarrow> M k = Some x \<Longrightarrow> path (geo st) (x_pos x) \<subseteq> R \<Longrightarrow> stash_box st k = Some x"
  using placed_stashed [OF prf_repD(6)] by (fastforce simp: spots_def)

lemma stash_in_memory: "prf_rep E st R V M \<Longrightarrow> stash_box st k = Some x \<Longrightarrow> M k = Some x"
  using placedD(6) [OF prf_repD(6)] by blast

text \<open>What is read at the position under which a box was written, if it was.\<close>

lemma stash_at_position:
  assumes "prf_rep E st R V M" "path (geo st) pos \<subseteq> R" "\<And>x. M k = Some x \<Longrightarrow> x_pos x = pos"
  shows "stash_box st k = M k"
proof (cases "M k")
  case None
  then show ?thesis using stash_in_memory [OF assms(1), of k] by (cases "stash_box st k") auto
next
  case (Some x)
  then show ?thesis using box_in_stash [OF assms(1) Some] assms(2,3) by simp
qed

end
