(* ===== verification/Prf_Correct.thy ===== *)
theory Prf_Correct
  imports Prf_Rep
begin

text \<open>
  \<open>PRFORAM\<close> refines a map from identifiers to texts, as long as every identifier is used with one
  position: the operations, single and in batches, and the constructor.
\<close>

section \<open>The abstract map\<close>

text \<open>\<open>P\<close> gives the position of each identifier, \<open>n\<close> is the number of writes still possible.\<close>

definition mem_text :: "(bid \<Rightarrow> int) \<Rightarrow> (bid \<Rightarrow> string option) \<Rightarrow> (bid \<Rightarrow> box option) \<Rightarrow> bool" where
  "mem_text P T M \<longleftrightarrow> (\<forall>k. M k = None \<longrightarrow> T k = None) \<and>
     (\<forall>k x. M k = Some x \<longrightarrow> x_pos x = P k \<and> (\<exists>s. T k = Some s \<and> text_ok s \<and> x_value x = value_of s))"

definition prf_rel :: "env \<Rightarrow> nat \<Rightarrow> (bid \<Rightarrow> int) \<Rightarrow> (bid \<Rightarrow> string option) \<Rightarrow> nat \<Rightarrow> prforam \<Rightarrow> bool" where
  "prf_rel E h P T n st \<longleftrightarrow> env_ok E \<and> p_depth st = h \<and> rs_empty (p_store st) = n \<and>
     (\<exists>V M. prf_rep E st {} V M \<and> mem_text P T M)"

definition shown :: "string option \<Rightarrow> string" where
  "shown t = (case t of None \<Rightarrow> [] | Some s \<Rightarrow> s)"

lemma box_text_memory: "mem_text P T M \<Longrightarrow> box_text (M k) = shown (T k)"
proof (cases "M k")
  case (Some x)
  assume "mem_text P T M"
  then obtain s where "T k = Some s" "text_ok s" "x_value x = value_of s" using Some unfolding mem_text_def by blast
  then show ?thesis using Some c_str_value_of by (simp add: box_text_def shown_def)
qed (auto simp: mem_text_def box_text_def shown_def)

lemma memory_position: "mem_text P T M \<Longrightarrow> M k = Some x \<Longrightarrow> x_pos x = P k"
  by (simp add: mem_text_def)

lemma mem_text_put:
  "mem_text P T M \<Longrightarrow> text_ok s \<Longrightarrow> x_pos x = P k \<Longrightarrow> x_value x = value_of s \<Longrightarrow> mem_text P (T(k \<mapsto> s)) (M(k \<mapsto> x))"
  by (simp add: mem_text_def)

definition pos_ok :: "nat \<Rightarrow> int \<Rightarrow> bool" where
  "pos_ok h p \<longleftrightarrow> 0 \<le> p \<and> p < 2 ^ h"

lemma bleaf_pos: "bleaf st p \<longleftrightarrow> pos_ok (p_depth st) p"
  by (simp add: leaf_ok_def pos_ok_def)

lemma make_box_eq: "length s \<le> 16 \<Longrightarrow> make_box b s p = Inr \<lparr>x_key = b, x_value = value_of s, x_pos = p\<rparr>"
  by (simp add: make_box_def copy_at_0 value_of_def string_bytes_def)

section \<open>Single accesses\<close>

lemma ReadBox_rel:
  assumes rel: "prf_rel E h P T n st" and b: "\<not> bid_eq_int b 0" "pos_ok h (P b)"
  obtains st' where "ReadBox E b (P b) st = Inr (shown (T b), st')" "prf_rel E h P T n st'"
proof -
  obtain V M where E: "env_ok E" and h: "p_depth st = h" "rs_empty (p_store st) = n" and rep: "prf_rep E st {} V M" and m: "mem_text P T M"
    using rel by (auto simp: prf_rel_def)
  show ?thesis
  proof (cases "map_of (p_stash st) b = None")
    case False
    then obtain x where x: "stash_box st b = Some x" using prf_repD(4) [OF rep, of b] by (auto simp: stash_box_def split: option.splits)
    then have "box_text (Some x) = shown (T b)" using box_text_memory [OF m, of b] stash_in_memory [OF rep x] by simp
    then show ?thesis using that [of st] rel x False b(1) by (simp add: ReadBox_def)
  next
    case True
    have l: "bleaf st (P b)" using b(2) h by (simp add: bleaf_pos)
    have "if False then ({} :: int set) = set (p_viewmap st) else ({} :: int set) = {}" by simp
    then obtain st1 where 1: "box_FetchPath E (P b) False st = Inr st1" "prf_rep E st1 ({} \<union> path (geo st) (P b)) V M"
      "pcfg st1 = pcfg st" "rs_empty (p_store st1) = rs_empty (p_store st)"
      by (rule box_FetchPath_rep [OF E rep l]) blast
    note cg = pcfg_cong [OF 1(3)]
    have "stash_box st1 b = M b" using memory_position [OF m] cg(2) by (intro stash_at_position [OF 1(2)]) auto
    then have t: "box_text (box_ReadData b st1) = shown (T b)" using box_text_memory [OF m] by (simp add: box_ReadData_def)
    have "prf_rep E st1 (\<Union>l\<in>set [P b]. path (geo st1) l) V M" "\<forall>l\<in>set [P b]. bleaf st1 l" using 1(2) l cg(2) by simp_all
    then obtain st2 V2 where 2: "box_write_levels E (rev [0..<Suc (p_depth st1)]) [P b] (st1\<lparr>p_viewmap := []\<rparr>) = Inr st2"
      "prf_rep E st2 {} V2 M" "pcfg st2 = pcfg st1" "rs_empty (p_store st2) = rs_empty (p_store st1)"
      by (rule box_write_back [OF E])
    have "ReadBox E b (P b) st = Inr (shown (T b), st2)"
      using b(1) True 1(1) 2(1) t by (simp add: ReadBox_def box_Access_read_def box_write_path_levels_eq Let_def del: upt_Suc)
    moreover have "prf_rel E h P T n st2"
      using E h 1(4) 2(2,4) m cg(1) pcfg_cong(1) [OF 2(3)] by (auto simp: prf_rel_def)
    ultimately show ?thesis by (rule that)
  qed
qed

text \<open>A write into the stash once the path of the position has been fetched.\<close>

lemma box_WriteData_rep:
  assumes rep: "prf_rep E st R V M" and m: "mem_text P T M" and pos: "path (geo st) (P b) \<subseteq> R" "bleaf st (P b)"
    and b: "bid_wf 24 b" "\<not> bid_eq_int b 0" and s: "text_ok s" and n: "0 < rs_empty (p_store st)"
  obtains st' M' where "box_WriteData b \<lparr>x_key = b, x_value = value_of s, x_pos = P b\<rparr> st = Inr st'"
    "prf_rep E st' R V M'" "mem_text P (T(b \<mapsto> s)) M'" "pcfg st' = pcfg st" "rs_empty (p_store st') = rs_empty (p_store st) - 1"
    "p_viewmap st' = p_viewmap st"
proof -
  let ?x = "\<lparr>x_key = b, x_value = value_of s, x_pos = P b\<rparr>"
  let ?st = "st\<lparr>p_stash := AList.update b (Some ?x) (p_stash st), p_store := ReduceEmptyNumbers (p_store st)\<rparr>"
  note r = prf_repD [OF rep]
  have cfg: "pcfg ?st = pcfg st" by (simp add: pcfg_def ReduceEmptyNumbers_def)
  note cg = pcfg_cong [OF cfg] bgood_cong [OF cfg] bbkt_cong [OF cfg]
  have st: "stash_box ?st = (stash_box st)(b \<mapsto> ?x)"
    by (simp add: stash_box_def fun_eq_iff map_of_update_apply)
  have "stash_box st b = M b" using memory_position [OF m] pos(1) by (intro stash_at_position [OF rep]) auto
  then have "M b = None \<or> stash_box st b \<noteq> None" by (cases "M b") auto
  then have "placed x_key (spots st) (buckets st - R) V ((stash_box st)(b \<mapsto> ?x)) (M(b \<mapsto> ?x))"
    by (intro placed_put [OF r(6)]) simp_all
  moreover have "bgood st ?x"
  proof -
    have "(2::int) ^ p_depth st < 2 ^ 31" using bgeomD(4) [OF r(1)] by (intro power_strict_increasing) auto
    moreover have "0 \<le> P b" "P b < 2 ^ p_depth st" using pos(2) by (simp_all add: leaf_ok_def)
    ultimately have "int32 (P b)" unfolding int32_def by linarith
    moreover have "length (value_of s) = 16" using s by (simp add: value_of_def text_ok_def string_bytes_def)
    ultimately show ?thesis using b pos(2) by (simp add: bgood_def box_ok_def bid_ne_int_iff)
  qed
  moreover have "distinct (map fst (p_stash ?st))" using r(3) by (simp add: distinct_update)
  moreover have "map_of (p_stash ?st) k \<noteq> Some None" for k using r(4) by (simp add: map_of_update_apply)
  moreover have "bstore E ?st V" using r(2) cg by (simp add: bstore_def ReduceEmptyNumbers_def)
  ultimately have "prf_rep E ?st R V (M(b \<mapsto> ?x))" using r(1,5) cg st by (simp add: prf_rep_def)
  moreover have "box_WriteData b ?x st = Inr ?st" using n by (simp add: box_WriteData_def GetEmptySize_def)
  moreover have "mem_text P (T(b \<mapsto> s)) (M(b \<mapsto> ?x))" by (rule mem_text_put [OF m s]) simp_all
  ultimately show ?thesis using that cfg by (simp add: ReduceEmptyNumbers_def)
qed

lemma WriteBox_rel:
  assumes rel: "prf_rel E h P T (Suc n) st" and b: "bid_wf 24 b" "\<not> bid_eq_int b 0" "pos_ok h (P b)" and s: "text_ok s"
  obtains st' where "WriteBox E b s (P b) st = Inr st'" "prf_rel E h P (T(b \<mapsto> s)) n st'"
proof -
  obtain V M where E: "env_ok E" and h: "p_depth st = h" "rs_empty (p_store st) = Suc n" and rep: "prf_rep E st {} V M" and m: "mem_text P T M"
    using rel by (auto simp: prf_rel_def)
  let ?x = "\<lparr>x_key = b, x_value = value_of s, x_pos = P b\<rparr>"
  have l: "bleaf st (P b)" using b(3) h by (simp add: bleaf_pos)
  have "if False then ({} :: int set) = set (p_viewmap st) else ({} :: int set) = {}" by simp
  then obtain st1 where 1: "box_FetchPath E (P b) False st = Inr st1" "prf_rep E st1 ({} \<union> path (geo st) (P b)) V M"
    "pcfg st1 = pcfg st" "rs_empty (p_store st1) = rs_empty (p_store st)"
    by (rule box_FetchPath_rep [OF E rep l]) blast
  note cg = pcfg_cong [OF 1(3)]
  have "path (geo st1) (P b) \<subseteq> {} \<union> path (geo st) (P b)" "bleaf st1 (P b)" "0 < rs_empty (p_store st1)" using cg(2) l 1(4) h by simp_all
  then obtain st2 M2 where 2: "box_WriteData b ?x st1 = Inr st2" "prf_rep E st2 ({} \<union> path (geo st) (P b)) V M2"
    "mem_text P (T(b \<mapsto> s)) M2" "pcfg st2 = pcfg st1" "rs_empty (p_store st2) = rs_empty (p_store st1) - 1"
    by (rule box_WriteData_rep [OF 1(2) m _ _ b(1,2) s]) blast
  have "prf_rep E st2 (\<Union>l\<in>set [P b]. path (geo st2) l) V M2" "\<forall>l\<in>set [P b]. bleaf st2 l"
    using 2(2) l cg(2) pcfg_cong(2) [OF 2(4)] by simp_all
  then obtain st3 V3 where 3: "box_write_levels E (rev [0..<Suc (p_depth st2)]) [P b] (st2\<lparr>p_viewmap := []\<rparr>) = Inr st3"
    "prf_rep E st3 {} V3 M2" "pcfg st3 = pcfg st2" "rs_empty (p_store st3) = rs_empty (p_store st2)"
    by (rule box_write_back [OF E])
  have "make_box b s (P b) = Inr ?x" using s by (intro make_box_eq) (simp add: text_ok_def)
  then have "WriteBox E b s (P b) st = Inr st3"
    using b(2) 1(1) 2(1) 3(1) by (simp add: WriteBox_def box_Access_write_def box_write_path_levels_eq del: upt_Suc)
  moreover have "prf_rel E h P (T(b \<mapsto> s)) n st3"
    using E h 1(4) 2(3,5) 3(2,4) cg(1) pcfg_cong(1) [OF 2(4)] pcfg_cong(1) [OF 3(3)] by (auto simp: prf_rel_def)
  ultimately show ?thesis by (rule that)
qed

section \<open>Batches\<close>

text \<open>
  In a batch the program looks up the position, converted to an identifier, in the stash; it must
  not be one of the identifiers in use.
\<close>

definition pos_unused :: "(bid \<Rightarrow> string option) \<Rightarrow> int \<Rightarrow> bool" where
  "pos_unused T p \<longleftrightarrow> T (Bid_int 24 p) = None"

lemma pos_not_stashed:
  assumes "prf_rep E st R V M" "mem_text P T M" "pos_unused T p"
  shows "map_of (p_stash st) (Bid_int 24 p) = None"
proof (rule ccontr)
  assume "map_of (p_stash st) (Bid_int 24 p) \<noteq> None"
  then obtain x where "stash_box st (Bid_int 24 p) = Some x"
    using prf_repD(4) [OF assms(1), of "Bid_int 24 p"] by (auto simp: stash_box_def split: option.splits)
  then have "M (Bid_int 24 p) = Some x" by (rule stash_in_memory [OF assms(1)])
  then show False using assms(2,3) unfolding mem_text_def pos_unused_def by (metis option.distinct(1))
qed

lemma batch_read_loop_rel:
  assumes E: "env_ok E" and m: "mem_text P T M"
    and rep: "prf_rep E st (\<Union>l\<in>set leafs. path (geo st) l) V M" "set (p_viewmap st) = (\<Union>l\<in>set leafs. path (geo st) l)"
    and items: "\<forall>(b, p)\<in>set items. p = P b \<and> pos_ok (p_depth st) p \<and> pos_unused T p" and leafs: "\<forall>l\<in>set leafs. bleaf st l"
  obtains st' leafs' where
    "batch_read_loop E items result leafs st = Inr (result @ map (\<lambda>(b, p). shown (T b)) items, leafs', st')"
    "prf_rep E st' (\<Union>l\<in>set leafs'. path (geo st') l) V M" "\<forall>l\<in>set leafs'. bleaf st' l" "pcfg st' = pcfg st"
    "rs_empty (p_store st') = rs_empty (p_store st)"
  using rep items leafs
proof (induction items arbitrary: st leafs result thesis)
  case Nil
  show ?case by (rule Nil.prems(1) [of leafs st]) (use Nil.prems in simp_all)
next
  case (Cons i items)
  obtain b where i: "i = (b, P b)" "pos_ok (p_depth st) (P b)" "pos_unused T (P b)" using Cons.prems(4) by (cases i) auto
  have l: "bleaf st (P b)" using i(2) by (simp add: bleaf_pos)
  let ?R = "\<Union>l\<in>set leafs. path (geo st) l"
  have "if True then ?R = set (p_viewmap st) else ?R = {}" using Cons.prems(3) by simp
  then obtain st1 where 1: "box_FetchPath E (P b) True st = Inr st1" "prf_rep E st1 (?R \<union> path (geo st) (P b)) V M"
    "pcfg st1 = pcfg st" "rs_empty (p_store st1) = rs_empty (p_store st)" "set (p_viewmap st1) = ?R \<union> path (geo st) (P b)"
    by (rule box_FetchPath_rep [OF E Cons.prems(2) l]) blast
  note cg = pcfg_cong [OF 1(3)]
  let ?leafs = "List.insert (P b) leafs"
  have R: "?R \<union> path (geo st) (P b) = (\<Union>l\<in>set ?leafs. path (geo st1) l)" using cg(2) by auto
  have "stash_box st1 b = M b" using memory_position [OF m] cg(2) by (intro stash_at_position [OF 1(2)]) auto
  then have t: "box_text (box_ReadData b st1) = shown (T b)" using box_text_memory [OF m] by (simp add: box_ReadData_def)
  have nk: "map_of (p_stash st) (Bid_int 24 (P b)) = None" by (rule pos_not_stashed [OF Cons.prems(2) m i(3)])
  have rep1: "prf_rep E st1 (\<Union>l\<in>set ?leafs. path (geo st1) l) V M" "set (p_viewmap st1) = (\<Union>l\<in>set ?leafs. path (geo st1) l)"
    using 1(2,5) unfolding R by simp_all
  have rest: "\<forall>(b, p)\<in>set items. p = P b \<and> pos_ok (p_depth st1) p \<and> pos_unused T p" "\<forall>l\<in>set ?leafs. bleaf st1 l"
    using Cons.prems(4,5) cg l by auto
  obtain st' leafs' where st': "batch_read_loop E items (result @ [shown (T b)]) ?leafs st1 =
      Inr ((result @ [shown (T b)]) @ map (\<lambda>(b, p). shown (T b)) items, leafs', st')"
    "prf_rep E st' (\<Union>l\<in>set leafs'. path (geo st') l) V M" "\<forall>l\<in>set leafs'. bleaf st' l" "pcfg st' = pcfg st1"
    "rs_empty (p_store st') = rs_empty (p_store st1)"
    using Cons.IH [OF _ rep1 rest] by blast
  show ?case by (rule Cons.prems(1) [of leafs' st']) (use st' 1(1,3,4) t nk i(1) in simp_all)
qed

lemma batchRead_rel:
  assumes rel: "prf_rel E h P T n st" and items: "\<forall>(b, p)\<in>set items. p = P b \<and> pos_ok h p \<and> pos_unused T p"
  obtains st' where "PRFORAM_batchRead E items st = Inr (map (\<lambda>(b, p). shown (T b)) items, st')" "prf_rel E h P T n st'"
proof -
  obtain V M where E: "env_ok E" and h: "p_depth st = h" "rs_empty (p_store st) = n" and rep: "prf_rep E st {} V M" and m: "mem_text P T M"
    using rel by (auto simp: prf_rel_def)
  let ?st = "st\<lparr>p_viewmap := []\<rparr>"
  have c: "pcfg ?st = pcfg st" "p_store ?st = p_store st" "p_stash ?st = p_stash st" by (simp_all add: pcfg_def)
  have "prf_rep E ?st (\<Union>l\<in>set []. path (geo ?st) l) V M" "set (p_viewmap ?st) = (\<Union>l\<in>set []. path (geo ?st) l)"
    "\<forall>(b, p)\<in>set items. p = P b \<and> pos_ok (p_depth ?st) p \<and> pos_unused T p" "\<forall>l\<in>set []. bleaf ?st l"
    using rep prf_rep_cong [OF c] items h by auto
  then obtain st1 leafs where 1: "batch_read_loop E items [] [] ?st = Inr ([] @ map (\<lambda>(b, p). shown (T b)) items, leafs, st1)"
    "prf_rep E st1 (\<Union>l\<in>set leafs. path (geo st1) l) V M" "\<forall>l\<in>set leafs. bleaf st1 l" "pcfg st1 = pcfg ?st"
    "rs_empty (p_store st1) = rs_empty (p_store ?st)"
    by (rule batch_read_loop_rel [OF E m]) blast
  have "prf_rep E st1 (\<Union>l\<in>set (sort leafs). path (geo st1) l) V M" "\<forall>l\<in>set (sort leafs). bleaf st1 l" using 1(2,3) by simp_all
  then obtain st2 V2 where 2: "box_write_levels E (rev [0..<Suc (p_depth st1)]) (sort leafs) (st1\<lparr>p_viewmap := []\<rparr>) = Inr st2"
    "prf_rep E st2 {} V2 M" "pcfg st2 = pcfg st1" "rs_empty (p_store st2) = rs_empty (p_store st1)"
    by (rule box_write_back [OF E])
  have "PRFORAM_batchRead E items st = Inr (map (\<lambda>(b, p). shown (T b)) items, st2)"
    using 1(1) 2(1) by (simp add: PRFORAM_batchRead_def del: upt_Suc)
  moreover have "prf_rel E h P T n st2"
    using E h 1(5) 2(2,4) m pcfg_cong(1) [OF 1(4)] pcfg_cong(1) [OF 2(3)] by (auto simp: prf_rel_def)
  ultimately show ?thesis by (rule that)
qed

definition puts :: "(bid \<times> string) list \<Rightarrow> (bid \<Rightarrow> string option) \<Rightarrow> (bid \<Rightarrow> string option)" where
  "puts vs T = fold (\<lambda>(b, s) T. T(b \<mapsto> s)) vs T"

definition write_ok :: "nat \<Rightarrow> (bid \<Rightarrow> int) \<Rightarrow> bid \<times> string \<Rightarrow> bool" where
  "write_ok h P v \<longleftrightarrow> (case v of (b, s) \<Rightarrow> bid_wf 24 b \<and> \<not> bid_eq_int b 0 \<and> pos_ok h (P b) \<and> text_ok s)"

lemma batch_write_loop_rel:
  assumes E: "env_ok E"
    and rep: "prf_rep E st (\<Union>l\<in>set leafs. path (geo st) l) V M" "set (p_viewmap st) = (\<Union>l\<in>set leafs. path (geo st) l)"
    and m: "mem_text P T M" and vs: "\<forall>v\<in>set vs. write_ok (p_depth st) P v"
    and free: "\<forall>v\<in>set vs. \<forall>w\<in>set vs. fst w \<noteq> Bid_int 24 (P (fst v))" "\<forall>v\<in>set vs. pos_unused T (P (fst v))"
    and n: "length vs \<le> rs_empty (p_store st)" and leafs: "\<forall>l\<in>set leafs. bleaf st l"
  obtains st' leafs' M' where
    "batch_write_loop E vs (map (\<lambda>(b, s). (b, P b)) vs) leafs st = Inr (leafs', st')"
    "prf_rep E st' (\<Union>l\<in>set leafs'. path (geo st') l) V M'" "mem_text P (puts vs T) M'" "\<forall>l\<in>set leafs'. bleaf st' l"
    "pcfg st' = pcfg st" "rs_empty (p_store st') = rs_empty (p_store st) - length vs"
  using rep m vs free n leafs
proof (induction vs arbitrary: st leafs T M thesis)
  case Nil
  show ?case by (rule Nil.prems(1) [of leafs st M]) (use Nil.prems in \<open>simp_all add: puts_def\<close>)
next
  case (Cons v vs)
  obtain b s where v: "v = (b, s)" by (cases v)
  have w: "bid_wf 24 b" "\<not> bid_eq_int b 0" "pos_ok (p_depth st) (P b)" "text_ok s" using Cons.prems(5) v by (auto simp: write_ok_def)
  have l: "bleaf st (P b)" using w(3) by (simp add: bleaf_pos)
  let ?R = "\<Union>l\<in>set leafs. path (geo st) l"
  have "if True then ?R = set (p_viewmap st) else ?R = {}" using Cons.prems(3) by simp
  then obtain st1 where 1: "box_FetchPath E (P b) True st = Inr st1" "prf_rep E st1 (?R \<union> path (geo st) (P b)) V M"
    "pcfg st1 = pcfg st" "rs_empty (p_store st1) = rs_empty (p_store st)" "set (p_viewmap st1) = ?R \<union> path (geo st) (P b)"
    by (rule box_FetchPath_rep [OF E Cons.prems(2) l]) blast
  note cg = pcfg_cong [OF 1(3)]
  have "path (geo st1) (P b) \<subseteq> ?R \<union> path (geo st) (P b)" "bleaf st1 (P b)" "0 < rs_empty (p_store st1)"
    using cg(2) l 1(4) Cons.prems(8) by auto
  then obtain st2 M2 where 2: "box_WriteData b \<lparr>x_key = b, x_value = value_of s, x_pos = P b\<rparr> st1 = Inr st2"
    "prf_rep E st2 (?R \<union> path (geo st) (P b)) V M2" "mem_text P (T(b \<mapsto> s)) M2" "pcfg st2 = pcfg st1"
    "rs_empty (p_store st2) = rs_empty (p_store st1) - 1" "p_viewmap st2 = p_viewmap st1"
    by (rule box_WriteData_rep [OF 1(2) Cons.prems(4) _ _ w(1,2,4)]) blast
  have cfg: "pcfg st2 = pcfg st" using 1(3) 2(4) by simp
  note cg2 = pcfg_cong [OF cfg]
  let ?leafs = "List.insert (P b) leafs"
  have R: "?R \<union> path (geo st) (P b) = (\<Union>l\<in>set ?leafs. path (geo st2) l)" using cg2(2) by auto
  have rep2: "prf_rep E st2 (\<Union>l\<in>set ?leafs. path (geo st2) l) V M2" "set (p_viewmap st2) = (\<Union>l\<in>set ?leafs. path (geo st2) l)"
    using 2(2,6) 1(5) unfolding R by simp_all
  have nk: "map_of (p_stash st) (Bid_int 24 (P b)) = None"
    by (rule pos_not_stashed [OF Cons.prems(2,4)]) (use Cons.prems(7) v in simp)
  have rest: "\<forall>v\<in>set vs. write_ok (p_depth st2) P v" "\<forall>v\<in>set vs. \<forall>w\<in>set vs. fst w \<noteq> Bid_int 24 (P (fst v))"
    "\<forall>v\<in>set vs. pos_unused (T(b \<mapsto> s)) (P (fst v))" "length vs \<le> rs_empty (p_store st2)" "\<forall>l\<in>set ?leafs. bleaf st2 l"
    using Cons.prems(5-9) v cg2 l 2(5) 1(4) by (auto simp: pos_unused_def)
  obtain st' leafs' M' where st': "batch_write_loop E vs (map (\<lambda>(b, s). (b, P b)) vs) ?leafs st2 = Inr (leafs', st')"
    "prf_rep E st' (\<Union>l\<in>set leafs'. path (geo st') l) V M'" "mem_text P (puts vs (T(b \<mapsto> s))) M'" "\<forall>l\<in>set leafs'. bleaf st' l"
    "pcfg st' = pcfg st2" "rs_empty (p_store st') = rs_empty (p_store st2) - length vs"
    using Cons.IH [OF _ rep2 2(3) rest] by blast
  have mk: "make_box b s (P b) = Inr \<lparr>x_key = b, x_value = value_of s, x_pos = P b\<rparr>" using w(4) by (intro make_box_eq) (simp add: text_ok_def)
  show ?case
  proof (rule Cons.prems(1) [of leafs' st' M'])
    show "batch_write_loop E (v # vs) (map (\<lambda>(b, s). (b, P b)) (v # vs)) leafs st = Inr (leafs', st')"
      using nk 1(1) mk 2(1) st'(1) v by simp
    show "mem_text P (puts (v # vs) T) M'" using st'(3) v by (simp add: puts_def)
  qed (use st' cfg 2(5) 1(4) in simp_all)
qed

text \<open>The two maps of a batch have the same keys, and are iterated in the same order.\<close>

lemma sort_pairs:
  fixes f :: "'a :: linorder \<times> 'b \<Rightarrow> 'a \<times> 'c"
  assumes "\<And>x. fst (f x) = fst x"
  shows "sort_key fst (map f xs) = map f (sort_key fst xs)"
proof -
  have "insort_key fst (f x) (map f ys) = map f (insort_key fst x ys)" for x ys by (induction ys) (simp_all add: assms)
  then show ?thesis by (induction xs) simp_all
qed

lemma sort_same_order:
  fixes ps :: "('a :: linorder \<times> 'b) list"
  assumes "mset ps = mset qs" "distinct (map fst ps)"
  shows "sort_key fst ps = sort_key fst qs"
proof (rule sort_key_inj_key_eq)
  show "mset ps = mset (sort_key fst qs)" using assms(1) by simp
  show "inj_on fst (set ps)" using assms(2) by (simp add: distinct_map)
  show "sorted (map fst (sort_key fst qs))" by simp
qed

lemma puts_map_of: "distinct (map fst vs) \<Longrightarrow> puts vs T = T ++ map_of vs"
proof (induction vs arbitrary: T)
  case (Cons v vs)
  obtain b s where v: "v = (b, s)" by (cases v)
  have "map_of vs b = None" using Cons.prems v by (simp add: map_of_eq_None_iff)
  then show ?case using Cons v by (auto simp: puts_def fun_eq_iff map_add_def split: option.splits)
qed (simp add: puts_def)

lemma puts_sorted: "distinct (map fst vs) \<Longrightarrow> puts (sort_key fst vs) T = puts vs T"
proof -
  assume d: "distinct (map fst vs)"
  have "mset (map fst (sort_key fst vs)) = mset (map fst vs)" by simp
  then have d': "distinct (map fst (sort_key fst vs))" using d mset_eq_imp_distinct_iff by blast
  have "map_of (sort_key fst vs) = map_of vs" by (rule iffD2 [OF map_of_inject_set [OF d' d]]) simp
  then show "puts (sort_key fst vs) T = puts vs T" by (simp add: puts_map_of d d')
qed

lemma batchWrite_rel:
  assumes rel: "prf_rel E h P T n st" and vs: "\<forall>v\<in>set vs. write_ok h P v" "distinct (map fst vs)"
    and ps: "mset ps = mset (map (\<lambda>(b, s). (b, P b)) vs)"
    and free: "\<forall>v\<in>set vs. \<forall>w\<in>set vs. fst w \<noteq> Bid_int 24 (P (fst v))" "\<forall>v\<in>set vs. pos_unused T (P (fst v))"
    and n: "length vs \<le> n"
  obtains st' where "PRFORAM_batchWrite E vs ps st = Inr st'" "prf_rel E h P (puts vs T) (n - length vs) st'"
proof -
  obtain V M where E: "env_ok E" and h: "p_depth st = h" "rs_empty (p_store st) = n" and rep: "prf_rep E st {} V M" and m: "mem_text P T M"
    using rel by (auto simp: prf_rel_def)
  let ?f = "\<lambda>(b, s :: string). (b, P b)"
  let ?vs = "sort_key fst vs"
  have "distinct (map fst ps)"
  proof -
    have "mset (map fst ps) = image_mset fst (mset ps)" by simp
    also have "\<dots> = mset (map fst (map ?f vs))" unfolding ps by (simp only: mset_map)
    also have "map fst (map ?f vs) = map fst vs" by (simp add: case_prod_beta)
    finally show ?thesis using vs(2) mset_eq_imp_distinct_iff by blast
  qed
  then have "sort_key fst ps = sort_key fst (map ?f vs)" by (rule sort_same_order [OF ps])
  also have "\<dots> = map ?f ?vs" by (rule sort_pairs) (simp add: case_prod_beta)
  finally have order: "sort_key fst ps = map ?f ?vs" .
  let ?st = "st\<lparr>p_viewmap := []\<rparr>"
  have c: "pcfg ?st = pcfg st" "p_store ?st = p_store st" "p_stash ?st = p_stash st" by (simp_all add: pcfg_def)
  have rep0: "prf_rep E ?st (\<Union>l\<in>set []. path (geo ?st) l) V M" "set (p_viewmap ?st) = (\<Union>l\<in>set []. path (geo ?st) l)"
    using rep prf_rep_cong [OF c] by simp_all
  have "\<forall>v\<in>set ?vs. write_ok (p_depth ?st) P v" "\<forall>v\<in>set ?vs. \<forall>w\<in>set ?vs. fst w \<noteq> Bid_int 24 (P (fst v))"
    "\<forall>v\<in>set ?vs. pos_unused T (P (fst v))" "length ?vs \<le> rs_empty (p_store ?st)" "\<forall>l\<in>set []. bleaf ?st l"
    using vs(1) free n h by simp_all
  then obtain st1 leafs M1 where 1: "batch_write_loop E ?vs (map ?f ?vs) [] ?st = Inr (leafs, st1)"
    "prf_rep E st1 (\<Union>l\<in>set leafs. path (geo st1) l) V M1" "mem_text P (puts ?vs T) M1" "\<forall>l\<in>set leafs. bleaf st1 l"
    "pcfg st1 = pcfg ?st" "rs_empty (p_store st1) = rs_empty (p_store ?st) - length ?vs"
    by (rule batch_write_loop_rel [OF E rep0 m]) blast
  have "prf_rep E st1 (\<Union>l\<in>set (sort leafs). path (geo st1) l) V M1" "\<forall>l\<in>set (sort leafs). bleaf st1 l" using 1(2,4) by simp_all
  then obtain st2 V2 where 2: "box_write_levels E (rev [0..<Suc (p_depth st1)]) (sort leafs) (st1\<lparr>p_viewmap := []\<rparr>) = Inr st2"
    "prf_rep E st2 {} V2 M1" "pcfg st2 = pcfg st1" "rs_empty (p_store st2) = rs_empty (p_store st1)"
    by (rule box_write_back [OF E])
  have "PRFORAM_batchWrite E vs ps st = Inr st2"
    using 1(1) 2(1) order by (simp add: PRFORAM_batchWrite_def del: upt_Suc)
  moreover have "prf_rel E h P (puts vs T) (n - length vs) st2"
    using E h 1(3,6) 2(2,4) puts_sorted [OF vs(2)] pcfg_cong(1) [OF 1(5)] pcfg_cong(1) [OF 2(3)] by (auto simp: prf_rel_def)
  ultimately show ?thesis by (rule that)
qed

section \<open>A new ORAM\<close>

lemma box_write_empty_rep:
  assumes E: "env_ok E" and g: "bgeom st" and idx: "\<forall>i\<in>set is. int i \<in> buckets st"
  shows "\<exists>st'. box_write_empty E is st = Inr st' \<and> pcfg st' = pcfg st \<and> p_stash st' = p_stash st \<and>
    rs_empty (p_store st') = rs_empty (p_store st) \<and>
    (\<forall>j. int j \<in> buckets st \<longrightarrow> bslot E st (rs_store (p_store st') ! j) [] \<or>
       j \<notin> set is \<and> rs_store (p_store st') ! j = rs_store (p_store st) ! j)"
  using g idx
proof (induction "is" arbitrary: st)
  case (Cons i "is")
  have i: "int i \<in> buckets st" using Cons.prems(2) by simp
  have e: "bbkt E st [] = replicate Z (box_dummy_blk E st)" by (simp add: bbkt_def)
  obtain c where c: "bslot E st c []" "box_WriteBucket E st (int i) (bbkt E st []) = Inr (st\<lparr>p_totalWrite := p_totalWrite st + 1,
      p_ivs := p_ivs st + 1, p_store := (p_store st)\<lparr>rs_store := (rs_store (p_store st))[nat (int i) := c]\<rparr>\<rparr>)" (is "_ = Inr ?st1")
    by (rule box_WriteBucket_run [OF E Cons.prems(1) i, of "[]"]) (simp_all add: boxes_ok_def)
  have cfg: "pcfg ?st1 = pcfg st" by (simp add: pcfg_def)
  note cg = pcfg_cong [OF cfg] bbkt_cong [OF cfg]
  have "bgeom ?st1" "\<forall>i\<in>set is. int i \<in> buckets ?st1" using Cons.prems cg by simp_all
  from Cons.IH [OF this] obtain st' where st': "box_write_empty E is ?st1 = Inr st'" "pcfg st' = pcfg ?st1" "p_stash st' = p_stash ?st1"
    "rs_empty (p_store st') = rs_empty (p_store ?st1)"
    "\<forall>j. int j \<in> buckets ?st1 \<longrightarrow> bslot E ?st1 (rs_store (p_store st') ! j) [] \<or>
       j \<notin> set is \<and> rs_store (p_store st') ! j = rs_store (p_store ?st1) ! j" by blast
  have "bslot E st (rs_store (p_store st') ! j) [] \<or> j \<notin> set (i # is) \<and> rs_store (p_store st') ! j = rs_store (p_store st) ! j"
    if j: "int j \<in> buckets st" for j
    using st'(5) [rule_format, of j] j c(1) cg bucket_store_index(2) [OF Cons.prems(1) i] by (cases "j = i") auto
  then show ?case using c(2) st'(1-4) cfg e by auto
qed auto

lemma PRFORAM_new_rel:
  assumes E: "env_ok E" and sz: "maxSize div Z \<noteq> 0" "ilog2 (maxSize div Z) < 31"
  obtains st where "PRFORAM_new E maxSize key = Inr st"
    "prf_rel E (ilog2 (maxSize div Z)) P (\<lambda>_. None) (Z * (2 ^ (ilog2 (maxSize div Z) + 1) - 1)) st"
proof -
  let ?d = "ilog2 (maxSize div Z)"
  let ?st = "\<lparr>p_depth = ?d, p_bucketCount = 2 ^ (?d + 1) - 1, p_blockSize = sizeof_Box,
    p_clen_size = GetCiphertextLength (sizeof_Box * Z), p_plaintext_size = sizeof_Box * Z, p_key = key,
    p_store = RAMStore_new (Z * (2 ^ (?d + 1) - 1)) (IV + GetCiphertextLength (sizeof_Box * Z)),
    p_stash = [], p_viewmap = [], p_totalRead = 0, p_totalWrite = 0, p_ivs = 0\<rparr>"
  have g: "bgeom ?st" using sz(2) by (simp add: bgeom_def RAMStore_new_def Z_def mult.commute)
  have b: "int j \<in> buckets ?st \<longleftrightarrow> j < 2 ^ (?d + 1) - 1" for j
    by (simp only: all_buckets_def geo_sel prforam.simps atLeastLessThan_iff of_nat_less_iff) simp
  have "\<exists>st'. box_write_empty E [0..<2 ^ (?d + 1) - 1] ?st = Inr st' \<and> pcfg st' = pcfg ?st \<and> p_stash st' = p_stash ?st \<and>
      rs_empty (p_store st') = rs_empty (p_store ?st) \<and>
      (\<forall>j. int j \<in> buckets ?st \<longrightarrow> bslot E ?st (rs_store (p_store st') ! j) [] \<or>
        j \<notin> set [0..<2 ^ (?d + 1) - 1] \<and> rs_store (p_store st') ! j = rs_store (p_store ?st) ! j)"
    by (rule box_write_empty_rep [OF E g]) (simp only: b set_upt ball_simps atLeastLessThan_iff, simp)
  then obtain st' where w: "box_write_empty E [0..<2 ^ (?d + 1) - 1] ?st = Inr st'" "pcfg st' = pcfg ?st" "p_stash st' = []"
    "rs_empty (p_store st') = Z * (2 ^ (?d + 1) - 1)" "\<forall>j. int j \<in> buckets ?st \<longrightarrow> bslot E ?st (rs_store (p_store st') ! j) []"
    using b by (auto simp: RAMStore_new_def)
  note cg = pcfg_cong [OF w(2)] bbkt_cong [OF w(2)]
  have "bslot E ?st (rs_store (p_store st') ! nat i) []" if "i \<in> buckets ?st" for i
    using w(5) [rule_format, of "nat i"] that by (simp add: all_buckets_def)
  then have "bstore E st' (\<lambda>_. [])" unfolding bstore_def cg by (simp add: boxes_ok_def)
  moreover have "stash_box st' = (\<lambda>_. None)" using w(3) by (simp add: stash_box_def fun_eq_iff)
  ultimately have "prf_rep E st' {} (\<lambda>_. []) (\<lambda>_. None)"
    using g cg(3) w(3) by (simp add: prf_rep_def placed_empty)
  moreover have "mem_text P (\<lambda>_. None) (\<lambda>_. None)" by (simp add: mem_text_def)
  moreover have "p_depth st' = ?d" using cg(1) by simp
  moreover have "PRFORAM_new E maxSize key = Inr st'" using sz(1) w(1) by (simp add: PRFORAM_new_def Let_def)
  ultimately show ?thesis using that w(4) E unfolding prf_rel_def by blast
qed

section \<open>Runs\<close>

datatype prf_op = ReadOp bid | WriteOp bid string | ReadBatch "bid list" | WriteBatch "(bid \<times> string) list"

text \<open>The abstract state is the map with the number of writes left.\<close>

fun prf_step :: "prf_op \<Rightarrow> (bid \<Rightarrow> string option) \<times> nat \<Rightarrow> string list \<times> ((bid \<Rightarrow> string option) \<times> nat)" where
  "prf_step (ReadOp b) (T, n) = ([shown (T b)], (T, n))"
| "prf_step (WriteOp b s) (T, n) = ([], (T(b \<mapsto> s), n - 1))"
| "prf_step (ReadBatch bs) (T, n) = (map (\<lambda>b. shown (T b)) bs, (T, n))"
| "prf_step (WriteBatch vs) (T, n) = ([], (T ++ map_of vs, n - length vs))"

fun prf_ok :: "nat \<Rightarrow> (bid \<Rightarrow> int) \<Rightarrow> prf_op \<Rightarrow> (bid \<Rightarrow> string option) \<times> nat \<Rightarrow> bool" where
  "prf_ok h P (ReadOp b) (T, n) = (\<not> bid_eq_int b 0 \<and> pos_ok h (P b))"
| "prf_ok h P (WriteOp b s) (T, n) = (write_ok h P (b, s) \<and> 0 < n)"
| "prf_ok h P (ReadBatch bs) (T, n) = (\<forall>b\<in>set bs. pos_ok h (P b) \<and> pos_unused T (P b))"
| "prf_ok h P (WriteBatch vs) (T, n) = ((\<forall>v\<in>set vs. write_ok h P v) \<and> distinct (map fst vs) \<and> length vs \<le> n \<and>
     (\<forall>v\<in>set vs. pos_unused T (P (fst v)) \<and> (\<forall>w\<in>set vs. fst w \<noteq> Bid_int 24 (P (fst v)))))"

fun prf_cstep :: "env \<Rightarrow> (bid \<Rightarrow> int) \<Rightarrow> prf_op \<Rightarrow> prforam \<Rightarrow> (string list \<times> prforam) res" where
  "prf_cstep E P (ReadOp b) st = ebind (ReadBox E b (P b) st) (\<lambda>(s, st). Inr ([s], st))"
| "prf_cstep E P (WriteOp b s) st = ebind (WriteBox E b s (P b) st) (\<lambda>st. Inr ([], st))"
| "prf_cstep E P (ReadBatch bs) st = PRFORAM_batchRead E (map (\<lambda>b. (b, P b)) bs) st"
| "prf_cstep E P (WriteBatch vs) st =
     ebind (PRFORAM_batchWrite E vs (map (\<lambda>(b, s). (b, P b)) vs) st) (\<lambda>st. Inr ([], st))"

lemma prf_step_rel:
  assumes rel: "prf_rel E h P T n st" and ok: "prf_ok h P p (T, n)"
  shows "\<exists>st'. prf_cstep E P p st = Inr (fst (prf_step p (T, n)), st') \<and>
    prf_rel E h P (fst (snd (prf_step p (T, n)))) (snd (snd (prf_step p (T, n)))) st'"
proof (cases p)
  case (ReadOp b)
  then show ?thesis using ReadBox_rel [OF rel, of b] ok by fastforce
next
  case (WriteOp b s)
  then have b: "bid_wf 24 b" "\<not> bid_eq_int b 0" "pos_ok h (P b)" "text_ok s" "0 < n" using ok by (auto simp: write_ok_def)
  then obtain n' where n: "n = Suc n'" by (cases n) auto
  then show ?thesis using WriteBox_rel [OF rel [unfolded n] b(1-4)] WriteOp by fastforce
next
  case (ReadBatch bs)
  have "\<forall>(b, p)\<in>set (map (\<lambda>b. (b, P b)) bs). p = P b \<and> pos_ok h p \<and> pos_unused T p" using ok ReadBatch by auto
  then obtain st' where st': "PRFORAM_batchRead E (map (\<lambda>b. (b, P b)) bs) st =
      Inr (map (\<lambda>(b, p). shown (T b)) (map (\<lambda>b. (b, P b)) bs), st')" "prf_rel E h P T n st'"
    by (rule batchRead_rel [OF rel])
  then show ?thesis using ReadBatch by (simp add: comp_def)
next
  case (WriteBatch vs)
  then have vs: "\<forall>v\<in>set vs. write_ok h P v" "distinct (map fst vs)" "length vs \<le> n"
    "\<forall>v\<in>set vs. \<forall>w\<in>set vs. fst w \<noteq> Bid_int 24 (P (fst v))" "\<forall>v\<in>set vs. pos_unused T (P (fst v))" using ok by auto
  obtain st' where st': "PRFORAM_batchWrite E vs (map (\<lambda>(b, s). (b, P b)) vs) st = Inr st'"
    "prf_rel E h P (puts vs T) (n - length vs) st'"
    by (rule batchWrite_rel [OF rel vs(1,2) refl vs(4,5,3)])
  then show ?thesis using WriteBatch puts_map_of [OF vs(2)] by simp
qed

interpretation box_map: simulation "\<lambda>a st. prf_rel E h P (fst a) (snd a) st" "prf_ok h P" prf_step "prf_cstep E P" for E h P
proof
  fix a :: "(bid \<Rightarrow> string option) \<times> nat" and s p
  assume "prf_rel E h P (fst a) (snd a) s" "prf_ok h P p a"
  then show "\<exists>t. prf_cstep E P p s = Inr (fst (prf_step p a), t) \<and>
      prf_rel E h P (fst (snd (prf_step p a))) (snd (snd (prf_step p a))) t"
    using prf_step_rel [of E h P "fst a" "snd a" s p] by simp
qed

section \<open>Properties\<close>



end
