(* ===== verification/Horus_Keys.thy ===== *)
theory Horus_Keys
  imports Horus Prf_Correct Omap_Counters
begin

text \<open>
  The identifiers of Horus: keys of the two oblivious maps and of the boxes, for keywords of at
  most twelve characters, and the position of a box as a function of its identifier.
\<close>

section \<open>Layout\<close>

definition hkw :: "string \<Rightarrow> bool" where
  "hkw kw \<longleftrightarrow> kw \<noteq> [] \<and> length kw \<le> 12 \<and> NUL \<notin> set kw"

definition kpad :: "string \<Rightarrow> bytes" where
  "kpad kw = string_bytes kw @ replicate (12 - length kw) 0"

text \<open>Keys of the counters, of the update map, and of the boxes.\<close>

definition cbid :: "string \<Rightarrow> int \<Rightarrow> bid" where
  "cbid kw n = Bid (kpad kw @ replicate 8 0 @ le32 n)"

definition ubid :: "byte \<Rightarrow> string \<Rightarrow> int \<Rightarrow> bid" where
  "ubid p kw i = Bid (p # kpad kw @ replicate 7 0 @ le32 i)"

definition bbid :: "string \<Rightarrow> int \<Rightarrow> int \<Rightarrow> int \<Rightarrow> bid" where
  "bbid kw u s a = Bid (le32 u @ le32 s @ le32 a @ kpad kw)"

lemma length_kpad [simp]: "hkw kw \<Longrightarrow> length (kpad kw) = 12"
  by (simp add: hkw_def kpad_def)

lemma kpad_inj: "hkw kw \<Longrightarrow> hkw kw' \<Longrightarrow> kpad kw = kpad kw' \<longleftrightarrow> kw = kw'"
proof -
  have c: "c_str (bytes_string (kpad k)) = k" if "hkw k" for k
    using that by (simp add: kpad_def hkw_def c_str_pad)
  assume "hkw kw" "hkw kw'"
  then show "kpad kw = kpad kw' \<longleftrightarrow> kw = kw'" using c by metis
qed

lemma copy_pad:
  assumes "hkw kw" "off + 12 \<le> length dst" "take 12 (drop off dst) = replicate 12 0"
  shows "copy_at off (string_bytes kw) dst = Inr (take off dst @ kpad kw @ drop (off + 12) dst)"
proof -
  let ?n = "length kw"
  have l: "?n \<le> 12" using assms(1) by (simp add: hkw_def)
  have "drop off dst = replicate 12 0 @ drop (off + 12) dst"
    using append_take_drop_id [of 12 "drop off dst"] assms(3) by (simp add: add.commute)
  then have "drop ?n (drop off dst) = drop ?n (replicate 12 0 @ drop (off + 12) dst)" by simp
  then have "drop (off + ?n) dst = replicate (12 - ?n) 0 @ drop (off + 12) dst"
    using l by (simp add: add.commute)
  then show ?thesis using l assms(2) by (simp add: copy_at_def kpad_def)
qed

lemma horus_getBid_eq:
  assumes "hkw kw" "type_tag t = Some n"
  shows "horus_getBid kw t = Inr (cbid kw n)"
  using copy_pad [OF assms(1), of 0 "replicate 24 0"] assms
  by (simp add: horus_getBid_def Bid_array_def cbid_def put_int_def)

lemma createBid_prefix_eq:
  assumes "hkw kw"
  shows "createBid_prefix p kw i = Inr (ubid p kw i)"
proof -
  have "(replicate 24 0)[0 := p] = p # replicate 23 0" by (simp add: eval_nat_numeral)
  then show ?thesis
    using copy_pad [OF assms, of 1 "p # replicate 23 0"] assms by (simp add: createBid_prefix_def ubid_def put_int_def)
qed

lemma createBid3_eq:
  assumes "hkw kw"
  shows "createBid3 kw u s a = Inr (bbid kw u s a)"
proof -
  have p: "put_int 8 a (put_int 4 s (put_int 0 u (replicate 24 0))) = le32 u @ le32 s @ le32 a @ replicate 12 0"
    by (simp add: put_int_def)
  show ?thesis using copy_pad [OF assms, of 12] unfolding createBid3_def p by (simp add: bbid_def)
qed

section \<open>Different keys\<close>

lemma cbid_inj: "hkw kw \<Longrightarrow> hkw kw' \<Longrightarrow> int32 n \<Longrightarrow> int32 n' \<Longrightarrow> cbid kw n = cbid kw' n' \<longleftrightarrow> kw = kw' \<and> n = n'"
  by (auto simp: cbid_def kpad_inj le32_inj)

lemma ubid_inj: "hkw kw \<Longrightarrow> hkw kw' \<Longrightarrow> int32 i \<Longrightarrow> int32 i' \<Longrightarrow>
    ubid p kw i = ubid p' kw' i' \<longleftrightarrow> p = p' \<and> kw = kw' \<and> i = i'"
  by (auto simp: ubid_def kpad_inj le32_inj)

lemma bbid_inj: "hkw kw \<Longrightarrow> hkw kw' \<Longrightarrow> int32 u \<Longrightarrow> int32 u' \<Longrightarrow> int32 s \<Longrightarrow> int32 s' \<Longrightarrow> int32 a \<Longrightarrow> int32 a' \<Longrightarrow>
    bbid kw u s a = bbid kw' u' s' a' \<longleftrightarrow> kw = kw' \<and> u = u' \<and> s = s' \<and> a = a'"
  by (auto simp: bbid_def kpad_inj le32_inj)

lemma bid_wf_keys [simp]:
  "hkw kw \<Longrightarrow> bid_wf 24 (cbid kw n)" "hkw kw \<Longrightarrow> bid_wf 24 (ubid p kw i)" "hkw kw \<Longrightarrow> bid_wf 24 (bbid kw u s a)"
  by (simp_all add: bid_wf_def cbid_def ubid_def bbid_def)

lemma kpad_first: "hkw kw \<Longrightarrow> kpad kw ! 0 \<noteq> 0"
  by (cases kw) (auto simp: hkw_def kpad_def string_bytes_def)

lemma le32_nonzero:
  assumes "int32 u" "u \<noteq> 0"
  shows "\<not> (le32 u ! 0 = 0 \<and> le32 u ! 1 = 0 \<and> le32 u ! 2 = 0 \<and> le32 u ! 3 = 0)"
proof
  assume z: "le32 u ! 0 = 0 \<and> le32 u ! 1 = 0 \<and> le32 u ! 2 = 0 \<and> le32 u ! 3 = 0"
  obtain b0 b1 b2 b3 where b: "le32 u = [b0, b1, b2, b3]" using le32_nths by blast
  have "le32 u = le32 0" using z unfolding b by (simp add: le32_nths)
  then show False using assms le32_inj [of u 0] by (simp add: int32_def)
qed

lemma keys_nonzero [simp]:
  "hkw kw \<Longrightarrow> \<not> bid_eq_int (cbid kw n) 0" "hkw kw \<Longrightarrow> \<not> bid_eq_int (ubid p kw i) 0"
  "int32 u \<Longrightarrow> u \<noteq> 0 \<Longrightarrow> \<not> bid_eq_int (bbid kw u s a) 0"
  using kpad_first [of kw] le32_nonzero [of u]
  by (auto simp: bid_eq_int_0_iff cbid_def ubid_def bbid_def nth_append)

lemma horus_key_ok: "e_scheme E = Horus \<Longrightarrow> bid_wf 24 k \<Longrightarrow> \<not> bid_eq_int k 0 \<Longrightarrow> key_ok E 0 k"
  by (simp add: key_ok_def bid_ne_int_iff ID_SIZE_def)

text \<open>A box is not named by a position converted to an identifier.\<close>

lemma bbid_not_position: "hkw kw \<Longrightarrow> bbid kw u s a \<noteq> Bid_int 24 p"
proof
  assume kw: "hkw kw" and e: "bbid kw u s a = Bid_int 24 p"
  have "bid_id (bbid kw u s a) ! 12 = kpad kw ! 0" by (simp add: bbid_def nth_append)
  moreover have "bid_id (Bid_int 24 p) ! 12 = 0" by (simp add: Bid_int_id nth_append)
  ultimately show False using kpad_first [OF kw] e by simp
qed

section \<open>Positions\<close>

definition hdepth :: "nat \<Rightarrow> nat" where
  "hdepth ms = ilog2 (ms * INC_FACTOR div Z)"

text \<open>The position of a box, read off its identifier; other identifiers are not used.\<close>

definition hpos :: "henv \<Rightarrow> nat \<Rightarrow> bid \<Rightarrow> int" where
  "hpos H ms b = (case generatePosition H ms (c_str (bytes_string (drop 12 (bid_id b))))
       (get_int 0 (bid_id b)) (get_int 4 (bid_id b)) (get_int 8 (bid_id b)) of Inl _ \<Rightarrow> 0 | Inr p \<Rightarrow> p)"

lemma hpos_bbid:
  assumes kw: "hkw kw" and i: "int32 u" "int32 s" "int32 a" and d: "hdepth ms \<noteq> 0"
  shows "generatePosition H ms kw u s a = Inr (hpos H ms (bbid kw u s a))"
    "pos_ok (hdepth ms) (hpos H ms (bbid kw u s a))"
proof -
  have p: "c_str (bytes_string (kpad kw)) = kw" using kw by (simp add: kpad_def hkw_def c_str_pad)
  have g: "get_int 0 (bid_id (bbid kw u s a)) = u" "get_int 4 (bid_id (bbid kw u s a)) = s" "get_int 8 (bid_id (bbid kw u s a)) = a"
    "drop 12 (bid_id (bbid kw u s a)) = kpad kw"
    using i by (simp_all add: bbid_def get_int_def rd32_le32)
  let ?m = "(2 ^ (hdepth ms + 1) - 1) div 2 :: nat"
  have e: "?m = 2 ^ hdepth ms - 1" by simp
  have "(2::nat) ^ 1 \<le> 2 ^ hdepth ms" using d by (intro power_increasing) auto
  then have m: "0 < ?m" "?m < 2 ^ hdepth ms" unfolding e by auto
  obtain r :: nat where r: "generatePosition H ms kw u s a = Inr (int (r mod ?m))"
    using m(1) by (auto simp: generatePosition_def Let_def hdepth_def)
  then show "generatePosition H ms kw u s a = Inr (hpos H ms (bbid kw u s a))" by (simp add: hpos_def g p)
  moreover have "r mod ?m < 2 ^ hdepth ms" using mod_less_divisor [OF m(1), of r] m(2) by linarith
  then have "int (r mod ?m) < 2 ^ hdepth ms" by (metis of_nat_less_numeral_power_cancel_iff)
  ultimately show "pos_ok (hdepth ms) (hpos H ms (bbid kw u s a))" using r by (simp add: pos_ok_def)
qed

end
