(* ===== verification/Horus_Bisect.thy ===== *)
theory Horus_Bisect
  imports Horus Oram_Inv "HOL-Library.Log_Nat"
begin

text \<open>
  The bisection of a Horus search for one slot. In the current epoch the slot has boxes under
  the access counts \<open>l\<close> to \<open>a\<close>; count 1 holds \<open>@l\<close> when \<open>l\<close> is greater. The search
  finds \<open>a\<close>, starting from an upper bound, in a number of rounds logarithmic in that bound.
\<close>

definition slot_answer :: "int \<Rightarrow> int \<Rightarrow> (int \<Rightarrow> string) \<Rightarrow> int \<Rightarrow> string" where
  "slot_answer l a t c = (if l \<le> c \<and> c \<le> a then t c else if c = 1 \<and> 1 < l then CHR ''@'' # to_string l else [])"

text \<open>The texts of a slot: not empty, and not taken for a mark.\<close>

definition slot_texts :: "int \<Rightarrow> int \<Rightarrow> (int \<Rightarrow> string) \<Rightarrow> bool" where
  "slot_texts l a t \<longleftrightarrow> 1 \<le> l \<and> l \<le> a \<and> int32 l \<and> (\<forall>c. l \<le> c \<and> c \<le> a \<longrightarrow> t c \<noteq> [] \<and> hd (t c) \<noteq> CHR ''@'')"

definition bisecting :: "int \<Rightarrow> int \<Rightarrow> (int \<Rightarrow> string) \<Rightarrow> sitem \<Rightarrow> bool" where
  "bisecting l a t it \<longleftrightarrow> \<not> si_found it \<and> l \<le> si_left it \<and> si_left it \<le> a \<and> a \<le> si_right it \<and>
     (si_cur it = (si_left it + si_right it) div 2 \<or> si_cur it = (si_left it + si_right it + 1) div 2) \<and>
     (si_lastID it = [] \<or> si_lastID it = t (si_left it) \<and> si_lastAcc it = si_left it)"

definition settled :: "int \<Rightarrow> (int \<Rightarrow> string) \<Rightarrow> sitem \<Rightarrow> bool" where
  "settled a t it \<longleftrightarrow> si_found it \<and> si_lastAcc it = a \<and> si_lastID it = t a"

lemma to_string_set: "c \<in> set (to_string n) \<Longrightarrow> is_digit c \<or> c = CHR ''-''"
  using show_nat_digits [of "nat n"] show_nat_digits [of "nat (- n)"] by (auto simp: to_string_def split: if_splits)

lemma to_string_head: "hd (to_string n) \<noteq> CHR ''@''"
proof -
  have "\<not> is_digit (CHR ''@'')" by code_simp
  then have "CHR ''@'' \<notin> set (to_string n)" using to_string_set [of "CHR ''@''" n] by auto
  then show ?thesis using hd_in_set [OF to_string_nonempty] by metis
qed

text \<open>How many more rounds an item takes at most.\<close>

definition rounds_left :: "sitem \<Rightarrow> nat" where
  "rounds_left it =
     (let w = nat (si_right it - si_left it) in
      if w = 0 then 1 else if w = 1 then (if si_cur it = si_left it then 3 else 2) else ceillog2 w + 3)"

lemma half_up_eq: "half_up n = (n + 1) div 2"
  unfolding half_up_def by linarith

lemma middle_bounds:
  fixes l r c :: int
  assumes "l < r" "c = (l + r) div 2 \<or> c = (l + r + 1) div 2"
  shows "l \<le> c" "c \<le> r" "c = l \<or> c = r \<Longrightarrow> r = l + 1"
  using assms by linarith+

lemma ceillog2_half:
  assumes "2 \<le> w" "2 * v \<le> w + 1"
  shows "Suc (ceillog2 v) \<le> ceillog2 w"
proof -
  have "w \<le> 2 ^ ceillog2 w" by (rule le_two_power_ceillog2)
  moreover have p: "1 \<le> ceillog2 w" using ceillog2_mono [OF assms(1)] by simp
  then obtain k where k: "ceillog2 w = Suc k" by (cases "ceillog2 w") auto
  ultimately have "v \<le> 2 ^ k" using assms(2) by simp
  then show ?thesis using k by (cases "v = 0") (simp_all add: ceillog2_le_iff)
qed

text \<open>A narrower interval leaves fewer rounds.\<close>

lemma rounds_shrink:
  assumes "si_left it + 1 < si_right it" "si_left it' \<le> si_right it'"
    "2 * (si_right it' - si_left it') \<le> si_right it - si_left it + 1"
  shows "rounds_left it' < rounds_left it"
proof -
  let ?w = "nat (si_right it - si_left it)" and ?v = "nat (si_right it' - si_left it')"
  have e: "int ?w = si_right it - si_left it" "int ?v = si_right it' - si_left it'" using assms(1,2) by simp_all
  have "2 \<le> int ?w" "2 * int ?v \<le> int ?w + 1" unfolding e using assms(1,3) by simp_all
  then have w: "2 \<le> ?w" "2 * ?v \<le> ?w + 1" by presburger+
  have s: "Suc (ceillog2 ?v) \<le> ceillog2 ?w" by (rule ceillog2_half [OF w])
  have "rounds_left it = ceillog2 ?w + 3" using w(1) by (simp add: rounds_left_def Let_def)
  moreover have "rounds_left it' \<le> (if ?v \<le> 1 then 3 else ceillog2 ?v + 3)"
    by (auto simp: rounds_left_def Let_def)
  ultimately show ?thesis using s by (auto split: if_splits)
qed

lemma rounds_narrow:
  assumes "si_right it = si_left it + 1" "si_left it' = si_right it'"
  shows "rounds_left it' < rounds_left it"
  using assms by (simp add: rounds_left_def)

lemma bisect_settles:
  assumes b: "bisecting l a t it" and t: "slot_texts l a t" and e: "si_left it = si_right it"
  shows "snd (bisect_step (slot_answer l a t (si_cur it)) it)"
    "settled a t (fst (bisect_step (slot_answer l a t (si_cur it)) it))"
proof -
  have "si_cur it = a" "si_left it = a" using b e by (auto simp: bisecting_def)
  moreover have "slot_answer l a t a = t a" using b by (simp add: slot_answer_def bisecting_def)
  ultimately show "snd (bisect_step (slot_answer l a t (si_cur it)) it)"
    "settled a t (fst (bisect_step (slot_answer l a t (si_cur it)) it))"
    using b e by (auto simp: bisect_step_def settled_def bisecting_def)
qed

lemma bisect_empty:
  assumes b: "bisecting l a t it" and c: "si_left it < si_right it" "a < si_cur it"
  obtains it' where "bisect_step [] it = (it', False)" "bisecting l a t it'" "rounds_left it' < rounds_left it"
proof (cases "si_cur it = si_right it")
  case True
  have w: "si_right it = si_left it + 1" using middle_bounds(3) [OF c(1)] b True by (auto simp: bisecting_def)
  let ?it = "it\<lparr>si_cur := si_left it, si_right := si_left it\<rparr>"
  have "half_down (si_left it + si_right it) = si_left it" using w by (simp add: half_down_def)
  then have "bisect_step [] it = (?it, False)" using c(1) True by (simp add: bisect_step_def Let_def)
  moreover have "bisecting l a t ?it" using b c True w by (auto simp: bisecting_def)
  moreover have "rounds_left ?it < rounds_left it" by (rule rounds_narrow [OF w]) simp
  ultimately show ?thesis by (rule that)
next
  case False
  note m = middle_bounds [OF c(1)]
  let ?it = "it\<lparr>si_right := si_cur it, si_cur := (si_left it + si_cur it + 1) div 2\<rparr>"
  have d: "si_cur it = (si_left it + si_right it) div 2 \<or> si_cur it = (si_left it + si_right it + 1) div 2"
    using b by (simp add: bisecting_def)
  have "si_cur it < si_right it" using m(2) [OF d] False by simp
  moreover have "si_left it < si_cur it" using b c by (simp add: bisecting_def)
  ultimately have w: "si_left it + 1 < si_right it" by simp
  have "bisect_step [] it = (?it, False)" using c(1) False by (simp add: bisect_step_def half_up_eq)
  moreover have "bisecting l a t ?it" using b c by (auto simp: bisecting_def)
  moreover have "rounds_left ?it < rounds_left it" by (rule rounds_shrink [OF w]) (use d c b in \<open>auto simp: bisecting_def\<close>)
  ultimately show ?thesis by (rule that)
qed

lemma bisect_hit:
  assumes b: "bisecting l a t it" and c: "si_left it < si_right it" "si_cur it \<le> a" and i: "ident = t (si_cur it)" "ident \<noteq> []"
  obtains it' where "bisect_step ident it = (it', False)" "bisecting l a t it'" "rounds_left it' < rounds_left it"
proof (cases "si_cur it = si_left it")
  case True
  have w: "si_right it = si_left it + 1" using middle_bounds(3) [OF c(1)] b True by (auto simp: bisecting_def)
  let ?it = "it\<lparr>si_lastID := ident, si_lastAcc := si_left it, si_cur := si_right it\<rparr>"
  have "half_up (si_left it + si_right it) = si_right it" using w by (simp add: half_up_eq)
  then have "bisect_step ident it = (?it, False)" using c(1) True i(2) by (simp add: bisect_step_def Let_def)
  moreover have "bisecting l a t ?it" using b c True w i(1) by (auto simp: bisecting_def)
  moreover have "rounds_left ?it < rounds_left it" using w True by (simp add: rounds_left_def Let_def)
  ultimately show ?thesis by (rule that)
next
  case False
  have d: "si_cur it = (si_left it + si_right it) div 2 \<or> si_cur it = (si_left it + si_right it + 1) div 2"
    using b by (simp add: bisecting_def)
  note m = middle_bounds [OF c(1) d]
  let ?it = "it\<lparr>si_lastID := ident, si_lastAcc := si_cur it, si_left := si_cur it, si_cur := (si_cur it + si_right it) div 2\<rparr>"
  have "bisect_step ident it = (?it, False)" using c(1) False i(2) by (simp add: bisect_step_def half_down_def Let_def)
  moreover have "bisecting l a t ?it" using b c m i(1) by (auto simp: bisecting_def)
  moreover have "rounds_left ?it < rounds_left it"
  proof (cases "si_right it = si_left it + 1")
    case True
    then show ?thesis using m(1,2) False by (intro rounds_narrow) auto
  next
    case ne: False
    then have w: "si_left it + 1 < si_right it" using c(1) by simp
    show ?thesis by (rule rounds_shrink [OF w]) (use d m in auto)
  qed
  ultimately show ?thesis by (rule that)
qed

lemma bisect_narrows:
  assumes b: "bisecting l a t it" and t: "slot_texts l a t" and c: "si_left it < si_right it"
  obtains it' where "bisect_step (slot_answer l a t (si_cur it)) it = (it', False)" "bisecting l a t it'" "rounds_left it' < rounds_left it"
proof (cases "si_cur it \<le> a")
  case True
  have "l \<le> si_cur it" using middle_bounds(1) [OF c] b by (force simp: bisecting_def)
  then have "slot_answer l a t (si_cur it) = t (si_cur it)" "t (si_cur it) \<noteq> []"
    using True t by (simp_all add: slot_answer_def slot_texts_def)
  then show ?thesis using bisect_hit [OF b c True] that by metis
next
  case False
  then have "slot_answer l a t (si_cur it) = []" using t b by (auto simp: slot_answer_def slot_texts_def)
  then show ?thesis using bisect_empty [OF b c] False that by (metis not_less)
qed

section \<open>The first round\<close>

definition fresh_item :: "int \<Rightarrow> sitem" where
  "fresh_item R = \<lparr>si_found = False, si_left = 1, si_right = R, si_cur = 1, si_lastAcc = 0, si_lastID = []\<rparr>"

lemma first_step_bisecting:
  assumes t: "slot_texts l a t" and R: "a \<le> R"
  obtains it' where "first_step (slot_answer l a t 1) (fresh_item R) = Inr it'" "bisecting l a t it'"
    "rounds_left it' \<le> ceillog2 (nat (R - 1)) + 3" "si_right it' = R"
proof -
  have l: "1 \<le> l" "l \<le> a" "int32 l" using t by (simp_all add: slot_texts_def)
  let ?it = "(fresh_item R)\<lparr>si_left := l, si_cur := (l + R) div 2, si_lastAcc := (if l = 1 then 0 else (l + R) div 2)\<rparr>"
  have "first_step (slot_answer l a t 1) (fresh_item R) = Inr ?it"
  proof (cases "l = 1")
    case True
    then have "slot_answer l a t 1 = t 1" "t 1 \<noteq> []" "hd (t 1) \<noteq> CHR ''@''" using t l by (simp_all add: slot_answer_def slot_texts_def)
    then show ?thesis using True l R by (simp add: first_step_def fresh_item_def sdiv_2_nonneg)
  next
    case False
    then have "slot_answer l a t 1 = CHR ''@'' # to_string l" using l by (simp add: slot_answer_def)
    then show ?thesis using False l R by (simp add: first_step_def fresh_item_def sdiv_2_nonneg Let_def)
  qed
  moreover have "bisecting l a t ?it" using l R by (simp add: bisecting_def fresh_item_def)
  moreover have "rounds_left ?it \<le> ceillog2 (nat (R - 1)) + 3"
    using l R ceillog2_mono [of "nat (R - l)" "nat (R - 1)"] by (simp add: rounds_left_def fresh_item_def Let_def)
  moreover have "si_right ?it = R" by (simp add: fresh_item_def)
  ultimately show ?thesis by (rule that)
qed

section \<open>Rounds for one slot\<close>

definition bisect_round :: "(int \<Rightarrow> string) \<Rightarrow> sitem \<Rightarrow> sitem" where
  "bisect_round ans it = (if si_found it then it else fst (bisect_step (ans (si_cur it)) it))"

lemma bisect_rounds_settle:
  assumes "bisecting l a t it" "slot_texts l a t" "rounds_left it \<le> k"
  shows "settled a t ((bisect_round (slot_answer l a t) ^^ k) it)"
  using assms
proof (induction k arbitrary: it)
  case 0
  then show ?case by (simp add: rounds_left_def Let_def split: if_splits)
next
  case (Suc k)
  let ?f = "bisect_round (slot_answer l a t)"
  have nf: "\<not> si_found it" "si_left it \<le> si_right it" using Suc.prems(1) by (auto simp: bisecting_def)
  have stay: "settled a t ((?f ^^ n) x)" if "settled a t x" for x n
    using that by (induction n) (simp_all add: bisect_round_def settled_def)
  show ?case
  proof (cases "si_left it = si_right it")
    case True
    then have "settled a t (?f it)"
      using bisect_settles(2) [OF Suc.prems(1,2)] nf by (simp add: bisect_round_def)
    then have "settled a t ((?f ^^ k) (?f it))" by (rule stay)
    then show ?thesis unfolding funpow_Suc_right by simp
  next
    case False
    then have "si_left it < si_right it" using nf by simp
    then obtain it' where "?f it = it'" "bisecting l a t it'" "rounds_left it' < rounds_left it"
      using bisect_narrows [OF Suc.prems(1,2)] nf by (metis bisect_round_def fst_conv)
    then have "settled a t ((?f ^^ k) (?f it))" using Suc.IH [of it'] Suc.prems(2,3) by simp
    then show ?thesis unfolding funpow_Suc_right by simp
  qed
qed

section \<open>Properties\<close>

text \<open>
  (C14) The bisection of a Horus search: a slot whose boxes of the current epoch lie under the access
  counts \<open>l\<close> to \<open>a\<close>, with the mark \<open>@l\<close> under 1, is settled with access count \<open>a\<close> and the text stored there,
  by the first round and at most \<open>ceillog2 (R - 1) + 3\<close> more, where \<open>R\<close> is the access counter
  of the keyword.
\<close>

theorem Horus_bisection_finds:
  assumes "slot_texts l a t" "a \<le> R"
  shows "\<exists>it'. ebind (first_step (slot_answer l a t 1) (fresh_item R)) (\<lambda>it.
      Inr ((bisect_round (slot_answer l a t) ^^ (ceillog2 (nat (R - 1)) + 3)) it)) = Inr it' \<and>
    si_found it' \<and> si_lastAcc it' = a \<and> si_lastID it' = t a"
proof -
  obtain it where "first_step (slot_answer l a t 1) (fresh_item R) = Inr it" "bisecting l a t it"
    "rounds_left it \<le> ceillog2 (nat (R - 1)) + 3"
    by (rule first_step_bisecting [OF assms])
  then show ?thesis using bisect_rounds_settle [OF _ assms(1)] by (auto simp: settled_def)
qed

theorem Horus_bisection_finds_witness:
  "\<exists>it'. ebind (first_step ''@3'' (fresh_item 9)) (\<lambda>it.
      Inr ((bisect_round (slot_answer 3 5 to_string) ^^ 6) it)) = Inr it' \<and>
    si_found it' \<and> si_lastAcc it' = 5 \<and> si_lastID it' = ''5''"
proof -
  have t: "slot_texts 3 5 to_string" using to_string_head by (simp add: slot_texts_def int32_def)
  have c: "ceillog2 8 = 3" using ceillog2_2_power [of 3] by simp
  have v: "slot_answer 3 5 to_string 1 = ''@3''" "to_string 5 = ''5''" by code_simp+
  show ?thesis using Horus_bisection_finds [OF t, of 9] unfolding v by (simp add: c)
qed

end
