(* ===== verification/Horus_Find.thy ===== *)
theory Horus_Find
  imports Horus_Keys Horus_Bisect
begin

text \<open>
  The rounds of a Horus search over all slots of a keyword: the items that are still open, the
  answers they get, and the boxes written for the next epoch.
\<close>

section \<open>Slots\<close>

record slot =
  sl_lo :: int
  sl_acc :: int
  sl_text :: "int \<Rightarrow> string"
  sl_ind :: int

definition hslot_ok :: "int \<Rightarrow> slot \<Rightarrow> bool" where
  "hslot_ok R d \<longleftrightarrow> slot_texts (sl_lo d) (sl_acc d) (sl_text d) \<and> sl_acc d \<le> R \<and>
     sl_text d (sl_acc d) = to_string (sl_ind d) \<and> int32 (sl_ind d)"

abbreviation answer :: "slot \<Rightarrow> int \<Rightarrow> string" where
  "answer d \<equiv> slot_answer (sl_lo d) (sl_acc d) (sl_text d)"

abbreviation open_item :: "slot \<Rightarrow> sitem \<Rightarrow> bool" where
  "open_item d \<equiv> bisecting (sl_lo d) (sl_acc d) (sl_text d)"

text \<open>The boxes of slot \<open>u\<close> in the epoch that follows a search.\<close>

definition next_boxes :: "string \<Rightarrow> int \<Rightarrow> (nat \<Rightarrow> slot) \<Rightarrow> nat \<Rightarrow> (bid \<times> string) list" where
  "next_boxes kw s D u = (bbid kw (int u) s (sl_acc (D u)), to_string (sl_ind (D u))) #
     (if 1 < sl_acc (D u) then [(bbid kw (int u) s 1, CHR ''@'' # to_string (sl_acc (D u)))] else [])"

definition out_of :: "henv \<Rightarrow> nat \<Rightarrow> string \<Rightarrow> int \<Rightarrow> (nat \<Rightarrow> slot) \<Rightarrow> nat list \<Rightarrow> sout" where
  "out_of H ms kw s D order =
     (let bs = concat (map (next_boxes kw s D) order) in
      \<lparr>so_result = map (\<lambda>u. sl_ind (D u)) order, so_poses = map (\<lambda>(b, t). (b, hpos H ms b)) bs, so_ids = bs\<rparr>)"

text \<open>What all lemmas below assume of keyword, epoch and slots.\<close>

definition find_ok :: "nat \<Rightarrow> string \<Rightarrow> int \<Rightarrow> int \<Rightarrow> (nat \<Rightarrow> slot) \<Rightarrow> nat \<Rightarrow> bool" where
  "find_ok ms kw s R D N \<longleftrightarrow> hkw kw \<and> hdepth ms \<noteq> 0 \<and> int32 s \<and> int32 (s + 1) \<and> int32 R \<and> int32 (int N) \<and>
     (\<forall>u. 1 \<le> u \<and> u \<le> N \<longrightarrow> hslot_ok R (D u))"

lemma find_okD:
  assumes "find_ok ms kw s R D N" "1 \<le> u" "u \<le> N"
  shows "hkw kw" "hdepth ms \<noteq> 0" "int32 s" "int32 (s + 1)" "int32 (int u)" "hslot_ok R (D u)"
    "1 \<le> sl_acc (D u)" "int32 (sl_acc (D u))" "int32 (sl_ind (D u))" "int32 1"
    "slot_texts (sl_lo (D u)) (sl_acc (D u)) (sl_text (D u))" "sl_text (D u) (sl_acc (D u)) = to_string (sl_ind (D u))"
  using assms by (auto simp: find_ok_def hslot_ok_def slot_texts_def int32_def)

lemma next_boxes_key: "b \<in> fst ` set (next_boxes kw s D u) \<Longrightarrow> \<exists>c. b = bbid kw (int u) s c \<and> (c = sl_acc (D u) \<or> c = 1)"
  by (auto simp: next_boxes_def split: if_splits)

lemma box_fresh:
  assumes "find_ok ms kw s R D N" "1 \<le> u" "u \<le> N" "u \<notin> set order" "\<forall>v\<in>set order. 1 \<le> v \<and> v \<le> N" "int32 a"
  shows "map_of (concat (map (next_boxes kw (s + 1) D) order)) (bbid kw (int u) (s + 1) a) = None"
proof -
  have "bbid kw (int u) (s + 1) a \<notin> fst ` set (next_boxes kw (s + 1) D v)" if v: "v \<in> set order" for v
  proof
    assume "bbid kw (int u) (s + 1) a \<in> fst ` set (next_boxes kw (s + 1) D v)"
    then obtain c where c: "bbid kw (int u) (s + 1) a = bbid kw (int v) (s + 1) c" "c = sl_acc (D v) \<or> c = 1"
      using next_boxes_key by blast
    note v' = find_okD [OF assms(1), of v] and u' = find_okD [OF assms(1-3)]
    have "u = v" using c assms(5,6) v v' u' bbid_inj [of kw kw "int u" "int v" "s + 1" "s + 1" a c] by auto
    then show False using v assms(4) by simp
  qed
  then show ?thesis by (auto simp: map_of_eq_None_iff)
qed

lemma out_write_eq:
  assumes "hkw kw" "hdepth ms \<noteq> 0" "int32 u" "int32 s" "int32 a" "map_of (so_ids q) (bbid kw u s a) = None"
    "so_poses q = map (\<lambda>(b, t). (b, hpos H ms b)) (so_ids q)"
  shows "out_write H ms kw u s a text q =
    Inr (q\<lparr>so_poses := map (\<lambda>(b, t). (b, hpos H ms b)) (so_ids q @ [(bbid kw u s a, text)]), so_ids := so_ids q @ [(bbid kw u s a, text)]\<rparr>)"
proof -
  have "fst ` set (map (\<lambda>(b, t). (b, hpos H ms b)) (so_ids q)) = fst ` set (so_ids q)" by force
  then have "map_of (so_poses q) (bbid kw u s a) = None" using assms(6,7) by (simp add: map_of_eq_None_iff)
  then show ?thesis
    using createBid3_eq [OF assms(1)] hpos_bbid(1) [OF assms(1,3,4,5,2)] assms(6,7) by (simp add: out_write_def um_insert_def)
qed

lemma settle_eq:
  assumes ok: "find_ok ms kw s R D N" "1 \<le> u" "u \<le> N" "u \<notin> set order" "\<forall>v\<in>set order. 1 \<le> v \<and> v \<le> N"
    and it: "settled (sl_acc (D u)) (sl_text (D u)) it"
  shows "settle H ms kw s (int u) it (out_of H ms kw (s + 1) D order) = Inr (out_of H ms kw (s + 1) D (order @ [u]))"
proof -
  note f = find_okD [OF ok(1-3)]
  let ?a = "sl_acc (D u)" and ?bs = "concat (map (next_boxes kw (s + 1) D) order)"
  have i: "si_lastAcc it = ?a" "si_lastID it = to_string (sl_ind (D u))" using it f(12) by (simp_all add: settled_def)
  have fr: "map_of ?bs (bbid kw (int u) (s + 1) c) = None" if "int32 c" for c by (rule box_fresh [OF ok that])
  let ?q = "\<lparr>so_result = map (\<lambda>u. sl_ind (D u)) order @ [sl_ind (D u)], so_poses = map (\<lambda>(b, t). (b, hpos H ms b)) ?bs, so_ids = ?bs\<rparr>"
  let ?b1 = "(bbid kw (int u) (s + 1) ?a, to_string (sl_ind (D u)))"
  let ?q1 = "?q\<lparr>so_poses := map (\<lambda>(b, t). (b, hpos H ms b)) (?bs @ [?b1]), so_ids := ?bs @ [?b1]\<rparr>"
  have w1: "out_write H ms kw (int u) (s + 1) ?a (to_string (sl_ind (D u))) ?q = Inr ?q1"
    using out_write_eq [OF f(1,2,5,4,8), of ?q] fr [OF f(8)] by simp
  have w2: "out_write H ms kw (int u) (s + 1) 1 t ?q1 = Inr (?q1\<lparr>so_poses := map (\<lambda>(b, t). (b, hpos H ms b)) (?bs @ [?b1, (bbid kw (int u) (s + 1) 1, t)]),
      so_ids := ?bs @ [?b1, (bbid kw (int u) (s + 1) 1, t)]\<rparr>)" if "1 < ?a" for t
  proof -
    have "bbid kw (int u) (s + 1) 1 \<noteq> bbid kw (int u) (s + 1) ?a" using that f by (simp add: bbid_inj)
    then show ?thesis using out_write_eq [OF f(1,2,5,4,10), of ?q1] fr [OF f(10)] by (simp add: map_add_def)
  qed
  show ?thesis using w1 w2 i f(9) by (simp add: settle_def out_of_def Let_def next_boxes_def)
qed

section \<open>One round\<close>

fun asked :: "nat \<Rightarrow> sitem list \<Rightarrow> (nat \<times> sitem) list" where
  "asked u [] = []"
| "asked u (it # its) = (if si_found it then asked (Suc u) its else (u, it) # asked (Suc u) its)"

fun items_ok :: "int \<Rightarrow> (nat \<Rightarrow> slot) \<Rightarrow> nat \<Rightarrow> sitem list \<Rightarrow> bool" where
  "items_ok R D u [] = True"
| "items_ok R D u (it # its) = ((si_found it \<or> open_item (D u) it \<and> si_right it \<le> R) \<and> items_ok R D (Suc u) its)"

fun done_items :: "nat \<Rightarrow> sitem list \<Rightarrow> nat list" where
  "done_items u [] = []"
| "done_items u (it # its) = (if si_found it then u # done_items (Suc u) its else done_items (Suc u) its)"

fun newly :: "nat \<Rightarrow> sitem list \<Rightarrow> nat list" where
  "newly u [] = []"
| "newly u (it # its) =
     (if \<not> si_found it \<and> si_left it = si_right it then u # newly (Suc u) its else newly (Suc u) its)"

fun stepped :: "(nat \<Rightarrow> slot) \<Rightarrow> nat \<Rightarrow> sitem list \<Rightarrow> sitem list" where
  "stepped D u [] = []"
| "stepped D u (it # its) = bisect_round (answer (D u)) it # stepped D (Suc u) its"

definition rounds_within :: "nat \<Rightarrow> sitem list \<Rightarrow> bool" where
  "rounds_within k its \<longleftrightarrow> (\<forall>it\<in>set its. si_found it \<or> rounds_left it \<le> k)"

lemma asked_range: "(v, it) \<in> set (asked u its) \<Longrightarrow> u \<le> v \<and> v < u + length its \<and> it \<in> set its \<and> \<not> si_found it"
  by (induction u its rule: asked.induct) (fastforce split: if_splits)+

lemma newly_range: "v \<in> set (newly u its) \<Longrightarrow> u \<le> v \<and> v < u + length its"
  by (induction u its rule: newly.induct) (fastforce split: if_splits)+

lemma newly_distinct: "distinct (newly u its)"
proof (induction its arbitrary: u)
  case (Cons it its)
  have "u \<notin> set (newly (Suc u) its)" using newly_range [of u "Suc u" its] by auto
  then show ?case using Cons.IH [of "Suc u"] by simp
qed simp

lemma done_range: "v \<in> set (done_items u its) \<Longrightarrow> u \<le> v \<and> v < u + length its"
  by (induction u its rule: done_items.induct) (fastforce split: if_splits)+

lemma newly_done: "set (newly u its) \<inter> set (done_items u its) = {}"
proof (induction u its rule: newly.induct)
  case (2 u it its)
  have "u \<notin> set (newly (Suc u) its)" "u \<notin> set (done_items (Suc u) its)"
    using newly_range [of u "Suc u" its] done_range [of u "Suc u" its] by auto
  then show ?case using 2 by simp
qed simp

lemma length_stepped [simp]: "length (stepped D u its) = length its"
  by (induction D u its rule: stepped.induct) auto

text \<open>An open item after a round: settled if its interval is a point, else open and closer.\<close>

lemma round_item:
  assumes "open_item d it" "hslot_ok R d"
  shows "if si_left it = si_right it then settled (sl_acc d) (sl_text d) (bisect_round (answer d) it)
    else open_item d (bisect_round (answer d) it) \<and> rounds_left (bisect_round (answer d) it) < rounds_left it"
    "snd (bisect_step (answer d (si_cur it)) it) \<longleftrightarrow> si_left it = si_right it"
    "fst (bisect_step (answer d (si_cur it)) it) = bisect_round (answer d) it"
proof -
  have t: "slot_texts (sl_lo d) (sl_acc d) (sl_text d)" using assms(2) by (simp add: hslot_ok_def)
  have nf: "\<not> si_found it" "si_left it \<le> si_right it" using assms(1) by (auto simp: bisecting_def)
  show 3: "fst (bisect_step (answer d (si_cur it)) it) = bisect_round (answer d) it" using nf by (simp add: bisect_round_def)
  show "if si_left it = si_right it then settled (sl_acc d) (sl_text d) (bisect_round (answer d) it)
    else open_item d (bisect_round (answer d) it) \<and> rounds_left (bisect_round (answer d) it) < rounds_left it"
  proof (cases "si_left it = si_right it")
    case True
    then show ?thesis using bisect_settles(2) [OF assms(1) t] 3 by simp
  next
    case False
    then show ?thesis using bisect_narrows [OF assms(1) t] 3 nf by (metis fst_conv order_le_less)
  qed
  show "snd (bisect_step (answer d (si_cur it)) it) \<longleftrightarrow> si_left it = si_right it"
  proof (cases "si_left it = si_right it")
    case True
    then show ?thesis using bisect_settles(1) [OF assms(1) t] by simp
  next
    case False
    then show ?thesis using bisect_narrows [OF assms(1) t] nf by (metis snd_conv order_le_less)
  qed
qed

lemma settled_found: "settled a t it \<Longrightarrow> si_found it"
  by (simp add: settled_def)

lemma open_not_found: "open_item d it \<Longrightarrow> \<not> si_found it"
  by (simp add: bisecting_def)

lemma open_cur:
  assumes "open_item d it" "hslot_ok R d" "si_right it \<le> R"
  shows "1 \<le> si_cur it" "si_cur it \<le> R"
proof -
  have "1 \<le> si_left it" "si_left it \<le> si_right it" using assms by (auto simp: bisecting_def hslot_ok_def slot_texts_def)
  then show "1 \<le> si_cur it" "si_cur it \<le> R" using assms(1,3) by (auto simp: bisecting_def)
qed

lemma bisect_right: "si_cur it \<le> R \<Longrightarrow> si_right it \<le> R \<Longrightarrow> si_left it \<le> si_right it \<Longrightarrow>
    si_right (fst (bisect_step ident it)) \<le> R"
  by (auto simp: bisect_step_def half_down_def Let_def)

lemma round_right:
  assumes "open_item d it" "hslot_ok R d" "si_right it \<le> R"
  shows "si_right (bisect_round (answer d) it) \<le> R"
  using bisect_right [of it R] open_cur [OF assms] assms by (auto simp: bisect_round_def bisecting_def)

lemma items_stepped:
  assumes "find_ok ms kw s R D N"
  shows "1 \<le> u \<Longrightarrow> u + length its \<le> Suc N \<Longrightarrow> items_ok R D u its \<Longrightarrow>
    items_ok R D u (stepped D u its) \<and> set (done_items u (stepped D u its)) = set (done_items u its) \<union> set (newly u its) \<and>
    (rounds_within (Suc k) its \<longrightarrow> rounds_within k (stepped D u its))"
proof (induction its arbitrary: u)
  case (Cons it its)
  have u: "u \<le> N" using Cons.prems by simp
  have IH: "items_ok R D (Suc u) (stepped D (Suc u) its)"
    "set (done_items (Suc u) (stepped D (Suc u) its)) = set (done_items (Suc u) its) \<union> set (newly (Suc u) its)"
    "rounds_within (Suc k) its \<longrightarrow> rounds_within k (stepped D (Suc u) its)"
    using Cons.IH [of "Suc u"] Cons.prems by simp_all
  show ?case
  proof (cases "si_found it")
    case True
    then have "bisect_round (answer (D u)) it = it" by (simp add: bisect_round_def)
    then show ?thesis using IH True by (auto simp: rounds_within_def)
  next
    case False
    then have o: "open_item (D u) it" "si_right it \<le> R" using Cons.prems by simp_all
    note r = round_item [OF o(1) find_okD(6) [OF assms Cons.prems(1) u]] and rr = round_right [OF o(1) find_okD(6) [OF assms Cons.prems(1) u] o(2)]
    show ?thesis
    proof (cases "si_left it = si_right it")
      case True
      then show ?thesis using IH r(1) False settled_found by (auto simp: rounds_within_def)
    next
      case ne: False
      then show ?thesis using IH r(1) False open_not_found rr by (force simp: rounds_within_def)
    qed
  qed
qed (simp add: rounds_within_def)

lemma round_items_eq:
  assumes "find_ok ms kw s R D N"
  shows "1 \<le> u \<Longrightarrow> u + length its \<le> Suc N \<Longrightarrow> items_ok R D u its \<Longrightarrow> set order \<inter> set (newly u its) = {} \<Longrightarrow>
    \<forall>v\<in>set order. 1 \<le> v \<and> v \<le> N \<Longrightarrow>
    round_items H ms kw s False (int u) (map (\<lambda>(v, it). answer (D v) (si_cur it)) (asked u its)) its (out_of H ms kw (s + 1) D order) =
      Inr (stepped D u its, out_of H ms kw (s + 1) D (order @ newly u its))"
proof (induction its arbitrary: u order)
  case (Cons it its)
  have u: "u \<le> N" "int u + 1 = int (Suc u)" using Cons.prems by simp_all
  show ?case
  proof (cases "si_found it")
    case True
    have "bisect_round (answer (D u)) it = it" using True by (simp add: bisect_round_def)
    then show ?thesis using Cons.IH [of "Suc u" order, folded u(2)] Cons.prems True by simp
  next
    case False
    then have o: "open_item (D u) it" using Cons.prems by simp
    note r = round_item [OF o find_okD(6) [OF assms Cons.prems(1) u(1)]]
    obtain it' d where b: "bisect_step (answer (D u) (si_cur it)) it = (it', d)" by (cases "bisect_step (answer (D u) (si_cur it)) it")
    have it': "it' = bisect_round (answer (D u)) it" "d \<longleftrightarrow> si_left it = si_right it" using r(2,3) b by simp_all
    have nu: "u \<notin> set (newly (Suc u) its)" using newly_range [of u "Suc u" its] by auto
    show ?thesis
    proof (cases "si_left it = si_right it")
      case True
      have un: "u \<notin> set order" using Cons.prems(4) True False by simp
      have "settle H ms kw s (int u) it' (out_of H ms kw (s + 1) D order) = Inr (out_of H ms kw (s + 1) D (order @ [u]))"
        using settle_eq [OF assms Cons.prems(1) u(1) un Cons.prems(5)] r(1) True it'(1) by simp
      moreover have "set (order @ [u]) \<inter> set (newly (Suc u) its) = {}" "\<forall>v\<in>set (order @ [u]). 1 \<le> v \<and> v \<le> N"
        using Cons.prems(1,4,5) True False nu u(1) by auto
      ultimately show ?thesis
        using Cons.IH [of "Suc u" "order @ [u]", folded u(2)] Cons.prems(2,3) True False b it' by (simp add: nth_or_error_def)
    next
      case ne: False
      then show ?thesis
        using Cons.IH [of "Suc u" order, folded u(2)] Cons.prems ne False b it' by (simp add: nth_or_error_def)
    qed
  qed
qed (simp add: out_of_def)

lemma round_items_first:
  assumes "find_ok ms kw s R D N"
  shows "1 \<le> u \<Longrightarrow> u + n \<le> Suc N \<Longrightarrow>
    \<exists>its. round_items H ms kw s True (int u) (map (\<lambda>(v, it). answer (D v) (si_cur it)) (asked u (replicate n (fresh_item R))))
      (replicate n (fresh_item R)) q = Inr (its, q) \<and>
    length its = n \<and> items_ok R D u its \<and> done_items u its = [] \<and> rounds_within (ceillog2 (nat (R - 1)) + 3) its"
proof (induction n arbitrary: u)
  case (Suc n)
  have u: "u \<le> N" "int u + 1 = int (Suc u)" using Suc.prems by simp_all
  have "hslot_ok R (D u)" using find_okD(6) [OF assms Suc.prems(1) u(1)] .
  then have sl: "slot_texts (sl_lo (D u)) (sl_acc (D u)) (sl_text (D u))" "sl_acc (D u) \<le> R" by (simp_all add: hslot_ok_def)
  obtain it' where it': "first_step (answer (D u) 1) (fresh_item R) = Inr it'" "open_item (D u) it'"
    "rounds_left it' \<le> ceillog2 (nat (R - 1)) + 3" "si_right it' = R"
    by (rule first_step_bisecting [OF sl])
  obtain its where its: "round_items H ms kw s True (int (Suc u)) (map (\<lambda>(v, it). answer (D v) (si_cur it)) (asked (Suc u) (replicate n (fresh_item R))))
      (replicate n (fresh_item R)) q = Inr (its, q)" "length its = n" "items_ok R D (Suc u) its" "done_items (Suc u) its = []"
      "rounds_within (ceillog2 (nat (R - 1)) + 3) its"
    using Suc.IH [of "Suc u"] Suc.prems by auto
  have f: "\<not> si_found (fresh_item R)" "si_cur (fresh_item R) = 1" by (simp_all add: fresh_item_def)
  show ?case
    by (rule exI [of _ "it' # its"])
      (use it' its [folded u(2)] f open_not_found [OF it'(2)] in \<open>simp add: nth_or_error_def rounds_within_def\<close>)
qed (simp add: rounds_within_def)

section \<open>All rounds\<close>

lemma batch_query_eq:
  assumes "find_ok ms kw s R D N"
  shows "1 \<le> u \<Longrightarrow> u + length its \<le> Suc N \<Longrightarrow> \<forall>it\<in>set its. si_found it \<or> int32 (si_cur it) \<Longrightarrow>
    batch_query H ms kw s (int u) its =
      Inr (map (\<lambda>(v, it). (bbid kw (int v) s (si_cur it), hpos H ms (bbid kw (int v) s (si_cur it)))) (asked u its))"
proof (induction its arbitrary: u)
  case (Cons it its)
  have u: "u \<le> N" "int u + 1 = int (Suc u)" using Cons.prems by simp_all
  note f = find_okD [OF assms Cons.prems(1) u(1)]
  show ?case
    using Cons.IH [of "Suc u", folded u(2)] Cons.prems createBid3_eq [OF f(1)]
      hpos_bbid(1) [OF f(1,5,3) _ f(2), of "si_cur it" H] by auto
qed simp

text \<open>The boxes of the current epoch hold the answers of the slots.\<close>

definition boxes_hold :: "string \<Rightarrow> int \<Rightarrow> int \<Rightarrow> (nat \<Rightarrow> slot) \<Rightarrow> nat \<Rightarrow> (bid \<Rightarrow> string option) \<Rightarrow> bool" where
  "boxes_hold kw s R D N T \<longleftrightarrow> (\<forall>u c. 1 \<le> u \<and> u \<le> N \<and> 1 \<le> c \<and> c \<le> R \<longrightarrow> shown (T (bbid kw (int u) s c)) = answer (D u) c)"

lemma asked_cur:
  assumes "find_ok ms kw s R D N"
  shows "1 \<le> u \<Longrightarrow> u + length its \<le> Suc N \<Longrightarrow> items_ok R D u its \<Longrightarrow> (v, it) \<in> set (asked u its) \<Longrightarrow>
    1 \<le> v \<and> v \<le> N \<and> 1 \<le> si_cur it \<and> si_cur it \<le> R"
proof (induction its arbitrary: u)
  case (Cons x its)
  have u: "u \<le> N" using Cons.prems by simp
  have "1 \<le> si_cur x \<and> si_cur x \<le> R" if "\<not> si_found x"
    using open_cur [OF _ find_okD(6) [OF assms Cons.prems(1) u]] Cons.prems(3) that by simp
  then show ?case using Cons.IH [of "Suc u"] Cons.prems u by (auto split: if_splits)
qed simp

text \<open>One round on the ORAM: the positions asked for, the boxes read.\<close>

lemma read_round:
  assumes ok: "find_ok ms kw s R D N" and hold: "boxes_hold kw s R D N T" and rel: "prf_rel (h_E H) (hdepth ms) (hpos H ms) T n oram"
    and free: "\<forall>p. T (Bid_int 24 p) = None"
    and its: "length its = N" "\<forall>v it. (v, it) \<in> set (asked 1 its) \<longrightarrow> 1 \<le> v \<and> v \<le> N \<and> 1 \<le> si_cur it \<and> si_cur it \<le> R"
      "\<forall>it\<in>set its. si_found it \<or> int32 (si_cur it)"
  obtains qs oram' where "batch_query H ms kw s 1 its = Inr qs" "qs = [] \<longleftrightarrow> asked 1 its = []"
    "PRFORAM_batchRead (h_E H) qs oram = Inr (map (\<lambda>(v, it). answer (D v) (si_cur it)) (asked 1 its), oram')"
    "prf_rel (h_E H) (hdepth ms) (hpos H ms) T n oram'"
proof -
  let ?q = "\<lambda>(v, it). (bbid kw (int v) s (si_cur it), hpos H ms (bbid kw (int v) s (si_cur it)))"
  let ?qs = "map ?q (asked 1 its)"
  have q: "batch_query H ms kw s 1 its = Inr ?qs" using batch_query_eq [OF ok, of 1 its H] its(1,3) by simp
  have "\<forall>(b, p)\<in>set ?qs. p = hpos H ms b \<and> pos_ok (hdepth ms) p \<and> pos_unused T p"
  proof (intro ballI)
    fix x assume "x \<in> set ?qs"
    then obtain v it where x: "x = ?q (v, it)" "(v, it) \<in> set (asked 1 its)" by auto
    then have v: "1 \<le> v" "v \<le> N" "1 \<le> si_cur it" "si_cur it \<le> R" using its(2) by auto
    then have "int32 (si_cur it)" using ok by (auto simp: find_ok_def int32_def)
    note f = find_okD [OF ok v(1,2)]
    show "case x of (b, p) \<Rightarrow> p = hpos H ms b \<and> pos_ok (hdepth ms) p \<and> pos_unused T p"
      using hpos_bbid(2) [OF f(1,5,3) \<open>int32 (si_cur it)\<close> f(2)] x(1) free by (simp add: pos_unused_def)
  qed
  then obtain oram' where r: "PRFORAM_batchRead (h_E H) ?qs oram = Inr (map (\<lambda>(b, p). shown (T b)) ?qs, oram')"
    "prf_rel (h_E H) (hdepth ms) (hpos H ms) T n oram'"
    by (rule batchRead_rel [OF rel])
  have "map (\<lambda>(b, p). shown (T b)) ?qs = map (\<lambda>(v, it). answer (D v) (si_cur it)) (asked 1 its)"
    using its(2) hold by (auto simp: boxes_hold_def)
  then show ?thesis using that [OF q _ _ r(2)] r(1) by simp
qed

lemma all_found: "rounds_within 0 its \<Longrightarrow> asked u its = []"
  by (induction u its rule: asked.induct) (auto simp: rounds_within_def rounds_left_def Let_def split: if_splits)

lemma asked_done: "asked u its = [] \<Longrightarrow> done_items u its = [u..<u + length its]"
proof (induction its arbitrary: u)
  case (Cons it its)
  have "[u..<u + length (it # its)] = u # [Suc u..<Suc u + length its]" by (simp add: upt_conv_Cons del: upt_Suc)
  then show ?case using Cons.IH [of "Suc u"] Cons.prems by (simp split: if_splits)
qed simp

lemma items_cur32:
  assumes "find_ok ms kw s R D N"
  shows "1 \<le> u \<Longrightarrow> u + length its \<le> Suc N \<Longrightarrow> items_ok R D u its \<Longrightarrow> \<forall>it\<in>set its. si_found it \<or> int32 (si_cur it)"
proof (induction its arbitrary: u)
  case (Cons x its)
  have "1 \<le> si_cur x \<and> si_cur x \<le> R" if "\<not> si_found x"
    using open_cur [OF _ find_okD(6) [OF assms Cons.prems(1)]] Cons.prems that by simp
  moreover have "int32 R" using assms by (simp add: find_ok_def)
  ultimately have "si_found x \<or> int32 (si_cur x)" by (auto simp: int32_def)
  then show ?case using Cons.IH [of "Suc u"] Cons.prems by simp
qed simp

lemma search_rounds_settle:
  assumes ok: "find_ok ms kw s R D N" and hold: "boxes_hold kw s R D N T" and free: "\<forall>p. T (Bid_int 24 p) = None"
  shows "rounds_within k its \<Longrightarrow> length its = N \<Longrightarrow> items_ok R D 1 its \<Longrightarrow> k < fuel \<Longrightarrow>
    prf_rel (h_E H) (hdepth ms) (hpos H ms) T n oram \<Longrightarrow> set order = set (done_items 1 its) \<Longrightarrow> distinct order \<Longrightarrow>
    \<exists>order' oram'. search_rounds H fuel ms kw s False its (out_of H ms kw (s + 1) D order) oram =
        Inr (out_of H ms kw (s + 1) D order', oram') \<and>
      prf_rel (h_E H) (hdepth ms) (hpos H ms) T n oram' \<and> distinct order' \<and> set order' = {1..N}"
proof (induction k arbitrary: its fuel oram order)
  case 0
  obtain f where f: "fuel = Suc f" using 0(4) by (cases fuel) auto
  have a: "asked 1 its = []" by (rule all_found [OF 0(1)])
  have "set order = {1..N}" using asked_done [OF a] 0 by auto
  moreover have "batch_query H ms kw s 1 its = Inr []"
    using batch_query_eq [OF ok, of 1 its H] items_cur32 [OF ok _ _ 0(3)] 0(2) a by simp
  ultimately show ?case using 0 f by auto
next
  case (Suc k)
  obtain f where f: "fuel = Suc f" "k < f" using Suc.prems(4) by (cases fuel) auto
  have len: "1 \<le> (1::nat)" "1 + length its \<le> Suc N" using Suc.prems(2) by simp_all
  have c: "\<forall>v it. (v, it) \<in> set (asked 1 its) \<longrightarrow> 1 \<le> v \<and> v \<le> N \<and> 1 \<le> si_cur it \<and> si_cur it \<le> R"
    using asked_cur [OF ok len Suc.prems(3)] by blast
  obtain qs oram1 where q: "batch_query H ms kw s 1 its = Inr qs" "qs = [] \<longleftrightarrow> asked 1 its = []"
    "PRFORAM_batchRead (h_E H) qs oram = Inr (map (\<lambda>(v, it). answer (D v) (si_cur it)) (asked 1 its), oram1)"
    "prf_rel (h_E H) (hdepth ms) (hpos H ms) T n oram1"
    by (rule read_round [OF ok hold Suc.prems(5) free Suc.prems(2) c items_cur32 [OF ok len Suc.prems(3)]])
  show ?case
  proof (cases "asked 1 its = []")
    case True
    have "set order = {1..N}" using asked_done [OF True] Suc.prems by auto
    then show ?thesis using q True f Suc.prems by auto
  next
    case False
    let ?its = "stepped D 1 its" and ?o = "order @ newly 1 its"
    have d: "set order \<inter> set (newly 1 its) = {}" using Suc.prems(6) newly_done [of 1 its] by auto
    have o: "\<forall>v\<in>set order. 1 \<le> v \<and> v \<le> N" using Suc.prems(2,6) done_range [of _ 1 its] by (auto simp: less_Suc_eq_le)
    have r: "round_items H ms kw s False 1 (map (\<lambda>(v, it). answer (D v) (si_cur it)) (asked 1 its)) its (out_of H ms kw (s + 1) D order) =
        Inr (?its, out_of H ms kw (s + 1) D ?o)"
      using round_items_eq [OF ok len Suc.prems(3) d o, of H] by simp
    have st: "items_ok R D 1 ?its" "set (done_items 1 ?its) = set (done_items 1 its) \<union> set (newly 1 its)" "rounds_within k ?its"
      using items_stepped [OF ok len Suc.prems(3), of k] Suc.prems(1) by simp_all
    have "set ?o = set (done_items 1 ?its)" "distinct ?o" "length ?its = N"
      using st(2) Suc.prems(2,6,7) d newly_distinct by auto
    then obtain order' oram' where "search_rounds H f ms kw s False ?its (out_of H ms kw (s + 1) D ?o) oram1 =
        Inr (out_of H ms kw (s + 1) D order', oram')"
      "prf_rel (h_E H) (hdepth ms) (hpos H ms) T n oram' \<and> distinct order' \<and> set order' = {1..N}"
      using Suc.IH [OF st(3) _ st(1) f(2) q(4), of ?o] by blast
    then show ?thesis using q(1,2,3) r False f(1) by auto
  qed
qed

text \<open>The whole loop: \<open>ceillog2 (R - 1) + 5\<close> rounds are enough.\<close>

lemma search_rounds_all:
  assumes ok: "find_ok ms kw s R D N" and hold: "boxes_hold kw s R D N T" and free: "\<forall>p. T (Bid_int 24 p) = None"
    and rel: "prf_rel (h_E H) (hdepth ms) (hpos H ms) T n oram" and R: "1 \<le> R" and fuel: "ceillog2 (nat (R - 1)) + 4 < fuel"
  obtains order oram' where "search_rounds H fuel ms kw s True (replicate N (fresh_item R)) \<lparr>so_result = [], so_poses = [], so_ids = []\<rparr> oram =
      Inr (out_of H ms kw (s + 1) D order, oram')"
    "prf_rel (h_E H) (hdepth ms) (hpos H ms) T n oram'" "distinct order" "set order = {1..N}"
proof -
  obtain f where f: "fuel = Suc f" "ceillog2 (nat (R - 1)) + 3 < f" using fuel by (cases fuel) auto
  let ?its = "replicate N (fresh_item R)"
  have q0: "\<lparr>so_result = [], so_poses = [], so_ids = []\<rparr> = out_of H ms kw (s + 1) D []" by (simp add: out_of_def)
  have ones: "\<not> si_found (fresh_item R)" "si_cur (fresh_item R) = 1" "int32 1" by (simp_all add: fresh_item_def int32_def)
  have c: "\<forall>v it. (v, it) \<in> set (asked 1 ?its) \<longrightarrow> 1 \<le> v \<and> v \<le> N \<and> 1 \<le> si_cur it \<and> si_cur it \<le> R"
    using asked_range [of _ _ 1 ?its] ones R by fastforce
  obtain qs oram1 where q: "batch_query H ms kw s 1 ?its = Inr qs" "qs = [] \<longleftrightarrow> asked 1 ?its = []"
    "PRFORAM_batchRead (h_E H) qs oram = Inr (map (\<lambda>(v, it). answer (D v) (si_cur it)) (asked 1 ?its), oram1)"
    "prf_rel (h_E H) (hdepth ms) (hpos H ms) T n oram1"
    by (rule read_round [OF ok hold rel free _ c]) (use ones in auto)
  show ?thesis
  proof (cases "N = 0")
    case True
    then have "search_rounds H fuel ms kw s True ?its \<lparr>so_result = [], so_poses = [], so_ids = []\<rparr> oram =
      Inr (out_of H ms kw (s + 1) D [], oram)" using f(1) q0 by simp
    then show ?thesis using that rel True by simp
  next
    case False
    then have ne: "asked 1 ?its \<noteq> []" using ones by (cases N) auto
    obtain its where its: "round_items H ms kw s True 1 (map (\<lambda>(v, it). answer (D v) (si_cur it)) (asked 1 ?its)) ?its
        (out_of H ms kw (s + 1) D []) = Inr (its, out_of H ms kw (s + 1) D [])"
      "length its = N" "items_ok R D 1 its" "done_items 1 its = []" "rounds_within (ceillog2 (nat (R - 1)) + 3) its"
      using round_items_first [OF ok, of 1 N H "out_of H ms kw (s + 1) D []"] by auto
    obtain order oram' where "search_rounds H f ms kw s False its (out_of H ms kw (s + 1) D []) oram1 =
        Inr (out_of H ms kw (s + 1) D order, oram')"
      "prf_rel (h_E H) (hdepth ms) (hpos H ms) T n oram' \<and> distinct order \<and> set order = {1..N}"
      using search_rounds_settle [OF ok hold free its(5,2,3) f(2) q(4), of "[]"] its(4) by auto
    then show ?thesis using that q(1-3) ne its(1) f(1) q0 by simp
  qed
qed

end
