(* ===== verification/Horus_Steps.thy ===== *)
theory Horus_Steps
  imports Horus_Find
begin

text \<open>
  The three structures of Horus as maps (\<open>hmaps\<close>), and the accesses to them as steps on these
  maps: the update map \<open>Mu\<close>, the counters \<open>Mc\<close> and the boxes \<open>T\<close> with the number \<open>n\<close> of writes left.
\<close>

section \<open>Assumptions\<close>

text \<open>\<open>boost::split\<close> at \<open>#\<close>, for a text without and with one \<open>#\<close>.\<close>

definition henv_ok :: "henv \<Rightarrow> bool" where
  "henv_ok H \<longleftrightarrow> env_ok (h_E H) \<and> e_scheme (h_E H) = Horus \<and> h_split H [] = [[]] \<and>
     (\<forall>a b. CHR ''#'' \<notin> set a \<and> CHR ''#'' \<notin> set b \<longrightarrow> h_split H (a @ ''#'' @ b) = [a, b])"

definition hsize_ok :: "henv \<Rightarrow> nat \<Rightarrow> bool" where
  "hsize_ok H ms \<longleftrightarrow> 4 \<le> ms \<and> hdepth ms < 31 \<and> omap_top (h_E H) (ms * INC_FACTOR) < h_fuel H \<and> omap_top (h_E H) ms < h_fuel H"

definition hroom :: "env \<Rightarrow> nat \<Rightarrow> nat \<Rightarrow> bool" where
  "hroom E ms k \<longleftrightarrow> k < min_size (Suc (omap_top E ms)) \<and> k \<le> omap_cap ms"

lemma hroom_mono: "hroom E ms k \<Longrightarrow> j \<le> k \<Longrightarrow> hroom E ms j"
  by (auto simp: hroom_def)

definition hmaps :: "henv \<Rightarrow> nat \<Rightarrow> (bid \<Rightarrow> string option) \<Rightarrow> (bid \<Rightarrow> string option) \<Rightarrow> (bid \<Rightarrow> string option) \<Rightarrow> nat \<Rightarrow> horus \<Rightarrow> bool" where
  "hmaps H ms Mu Mc T n st \<longleftrightarrow>
     omap_rel (h_E H) (h_fuel H) (omap_top (h_E H) (ms * INC_FACTOR)) (omap_cap (ms * INC_FACTOR)) Mu (hs_OMAP_updt st) \<and>
     omap_rel (h_E H) (h_fuel H) (omap_top (h_E H) ms) (omap_cap ms) Mc (hs_CNTs st) \<and>
     prf_rel (h_E H) (hdepth ms) (hpos H ms) T n (hs_ORAM_srch st) \<and> hs_maxSize st = ms"

lemma hash_not_in: "CHR ''#'' \<notin> set (to_string n)"
proof -
  have "\<not> is_digit (CHR ''#'')" by code_simp
  then show ?thesis using to_string_set [of "CHR ''#''" n] by auto
qed

lemma split_hash: "henv_ok H \<Longrightarrow> h_split H (show_hash a b) = [to_string a, to_string b]"
  using hash_not_in by (simp add: henv_ok_def show_hash_def)

lemma split_removed: "henv_ok H \<Longrightarrow> h_split H (''-1#'' @ to_string k) = [''-1'', to_string k]"
proof -
  assume "henv_ok H"
  then have "CHR ''#'' \<notin> set ''-1'' \<Longrightarrow> h_split H (''-1'' @ ''#'' @ to_string k) = [''-1'', to_string k]"
    using hash_not_in unfolding henv_ok_def by blast
  then show ?thesis by simp
qed

lemma stoi_padded: "int32 v \<Longrightarrow> stoi (padded (to_string v)) = Inr v"
  using stoi_to_string_append [OF _ digits_NUL] by (simp add: padded_eq)

lemma length_to_string_small: "0 \<le> a \<Longrightarrow> a < 10000 \<Longrightarrow> length (to_string a) \<le> 4"
  using length_show_nat [of "nat a" 3] by (simp add: to_string_def nat_less_iff)

lemma text_ok_hash:
  assumes "int32 a" "0 \<le> b" "b < 10000"
  shows "text_ok (show_hash a b)"
proof -
  have "NUL \<notin> set (show_hash a b)" using to_string_chars by (auto simp: show_hash_def NUL_char)
  then show ?thesis using length_to_string [OF assms(1)] length_to_string_small [OF assms(2,3)] by (simp add: text_ok_def show_hash_def)
qed

lemma text_ok_removed: "0 \<le> b \<Longrightarrow> b < 10000 \<Longrightarrow> text_ok (''-1#'' @ to_string b)"
  using length_to_string_small [of b] to_string_chars by (auto simp: text_ok_def NUL_char)

lemma text_ok_mark: "int32 b \<Longrightarrow> text_ok (CHR ''@'' # to_string b)"
  using length_to_string [of b] to_string_chars by (auto simp: text_ok_def NUL_char)

lemma omap_put:
  assumes "omap_rel E fuel h cap f m" "omap_ok E h cap (Put b s) f"
  obtains m' where "OMAP_insert E fuel b s m = Inr m'" "omap_rel E fuel h cap (f(b \<mapsto> s)) m'"
proof -
  obtain m' where m': "omap_step E fuel (Put b s) m = Inr (fst (map_step (Put b s) f), m')" "omap_rel E fuel h cap (snd (map_step (Put b s) f)) m'"
    using omap.step [OF assms] by blast
  then have "OMAP_insert E fuel b s m = Inr m'" by (cases "OMAP_insert E fuel b s m") simp_all
  then show ?thesis using that m'(2) by simp
qed

lemma omap_get:
  assumes "omap_rel E fuel h cap f m" "omap_ok E h cap (Get b) f"
  obtains m' where "OMAP_find E fuel b m = Inr (shown (f b), m')" "omap_rel E fuel h cap f m'"
  using omap.step [OF assms] by (auto simp: shown_def)

section \<open>The update map\<close>

lemma updt_find_step:
  assumes "hmaps H ms Mu Mc T n st" "henv_ok H" "bid_wf 24 b"
  obtains st' where "updt_find H b st = Inr (shown (Mu b), st')" "hmaps H ms Mu Mc T n st'"
proof -
  have ok: "omap_ok (h_E H) (omap_top (h_E H) (ms * INC_FACTOR)) (omap_cap (ms * INC_FACTOR)) (Get b) Mu"
    using assms(2,3) by (simp add: henv_ok_def ID_SIZE_def)
  obtain m where m: "OMAP_find (h_E H) (h_fuel H) b (hs_OMAP_updt st) = Inr (shown (Mu b), m)"
    "omap_rel (h_E H) (h_fuel H) (omap_top (h_E H) (ms * INC_FACTOR)) (omap_cap (ms * INC_FACTOR)) Mu m"
    using omap_get [OF _ ok] assms(1) by (metis hmaps_def)
  show ?thesis by (rule that [of "st\<lparr>hs_OMAP_updt := m\<rparr>"]) (use m assms(1) in \<open>simp_all add: updt_find_def hmaps_def\<close>)
qed

lemma updt_insert_step:
  assumes "hmaps H ms Mu Mc T n st" "henv_ok H" "bid_wf 24 b" "\<not> bid_eq_int b 0" "text_ok s"
    "hroom (h_E H) (ms * INC_FACTOR) (card (insert b (dom Mu)))"
  obtains st' where "updt_insert H b s st = Inr st'" "hmaps H ms (Mu(b \<mapsto> s)) Mc T n st'"
proof -
  have "omap_ok (h_E H) (omap_top (h_E H) (ms * INC_FACTOR)) (omap_cap (ms * INC_FACTOR)) (Put b s) Mu"
    using assms horus_key_ok [OF _ assms(3,4)] by (simp add: henv_ok_def hroom_def)
  then obtain m where m: "OMAP_insert (h_E H) (h_fuel H) b s (hs_OMAP_updt st) = Inr m"
    "omap_rel (h_E H) (h_fuel H) (omap_top (h_E H) (ms * INC_FACTOR)) (omap_cap (ms * INC_FACTOR)) (Mu(b \<mapsto> s)) m"
    using omap_put assms(1) by (metis hmaps_def)
  show ?thesis by (rule that [of "st\<lparr>hs_OMAP_updt := m\<rparr>"]) (use m assms(1) in \<open>simp_all add: updt_insert_def hmaps_def\<close>)
qed

section \<open>The counters\<close>

lemma cnt_find_step:
  assumes "hmaps H ms Mu Mc T n st" "henv_ok H" "hkw kw" "type_tag t = Some k"
  obtains st' where "cnt_find H kw t st = Inr (shown (Mc (cbid kw k)), st')" "hmaps H ms Mu Mc T n st'"
proof -
  have ok: "omap_ok (h_E H) (omap_top (h_E H) ms) (omap_cap ms) (Get (cbid kw k)) Mc"
    using assms(2,3) by (simp add: henv_ok_def ID_SIZE_def)
  obtain m where m: "OMAP_find (h_E H) (h_fuel H) (cbid kw k) (hs_CNTs st) = Inr (shown (Mc (cbid kw k)), m)"
    "omap_rel (h_E H) (h_fuel H) (omap_top (h_E H) ms) (omap_cap ms) Mc m"
    using omap_get [OF _ ok] assms(1) by (metis hmaps_def)
  show ?thesis
    by (rule that [of "st\<lparr>hs_CNTs := m\<rparr>"])
      (use m assms(1) horus_getBid_eq [OF assms(3,4)] in \<open>simp_all add: cnt_find_def hmaps_def\<close>)
qed

lemma cnt_insert_step:
  assumes "hmaps H ms Mu Mc T n st" "henv_ok H" "hkw kw" "type_tag t = Some k" "text_ok s"
    "hroom (h_E H) ms (card (insert (cbid kw k) (dom Mc)))"
  obtains st' where "cnt_insert H kw t s st = Inr st'" "hmaps H ms Mu (Mc(cbid kw k \<mapsto> s)) T n st'"
proof -
  have "omap_ok (h_E H) (omap_top (h_E H) ms) (omap_cap ms) (Put (cbid kw k) s) Mc"
    using assms horus_key_ok [of "h_E H" "cbid kw k"] by (simp add: henv_ok_def hroom_def)
  then obtain m where m: "OMAP_insert (h_E H) (h_fuel H) (cbid kw k) s (hs_CNTs st) = Inr m"
    "omap_rel (h_E H) (h_fuel H) (omap_top (h_E H) ms) (omap_cap ms) (Mc(cbid kw k \<mapsto> s)) m"
    using omap_put assms(1) by (metis hmaps_def)
  show ?thesis
    by (rule that [of "st\<lparr>hs_CNTs := m\<rparr>"])
      (use m assms(1) horus_getBid_eq [OF assms(3,4)] in \<open>simp_all add: cnt_insert_def hmaps_def\<close>)
qed

text \<open>The counters that are raised and lowered, read as a rewriting.\<close>

lemma cnt_bump_step:
  assumes "hmaps H ms Mu Mc T n st" "henv_ok H" "hkw kw" "Mc (cbid kw k) = Some (to_string v)" "int32 v" "int32 (v + d)"
  obtains m where "ebind (run_rewrite (AVL_rewrite (bump_str d)) (h_E H) (h_fuel H) (cbid kw k) (hs_CNTs st)) (\<lambda>(res, m).
      ebind (finishOperation (h_E H) True m) (\<lambda>m. Inr (res, m))) = Inr (padded (to_string v), m)"
    "hmaps H ms Mu (Mc(cbid kw k \<mapsto> to_string (v + d))) T n (st\<lparr>hs_CNTs := m\<rparr>)"
proof -
  have rel: "omap_rel (h_E H) (h_fuel H) (omap_top (h_E H) ms) (omap_cap ms) Mc (hs_CNTs st)"
    and w: "bid_wf (ID_SIZE (e_scheme (h_E H))) (cbid kw k)"
    using assms(1-3) by (simp_all add: hmaps_def henv_ok_def ID_SIZE_def)
  obtain m1 m' where r: "run_rewrite (AVL_rewrite (bump_str d)) (h_E H) (h_fuel H) (cbid kw k) (hs_CNTs st) = Inr (padded (to_string v), m1)"
    "finishOperation (h_E H) True m1 = Inr m'"
    "omap_rel (h_E H) (h_fuel H) (omap_top (h_E H) ms) (omap_cap ms) (Mc(cbid kw k \<mapsto> to_string (v + d))) m'"
    using bump_str_rel [OF rel w assms(4-6)] by metis
  show ?thesis by (rule that [of m']) (use r assms(1) in \<open>simp_all add: hmaps_def\<close>)
qed

lemma cnt_bump_absent:
  assumes "hmaps H ms Mu Mc T n st" "henv_ok H" "hkw kw" "Mc (cbid kw k) = None"
  obtains m where "ebind (run_rewrite (AVL_rewrite (bump_str d)) (h_E H) (h_fuel H) (cbid kw k) (hs_CNTs st)) (\<lambda>(res, m).
      ebind (finishOperation (h_E H) True m) (\<lambda>m. Inr (res, m))) = Inr ([], m)"
    "hmaps H ms Mu Mc T n (st\<lparr>hs_CNTs := m\<rparr>)"
proof -
  have rel: "omap_rel (h_E H) (h_fuel H) (omap_top (h_E H) ms) (omap_cap ms) Mc (hs_CNTs st)"
    and w: "bid_wf (ID_SIZE (e_scheme (h_E H))) (cbid kw k)"
    using assms(1-3) by (simp_all add: hmaps_def henv_ok_def ID_SIZE_def)
  obtain m1 m' where r: "run_rewrite (AVL_rewrite (bump_str d)) (h_E H) (h_fuel H) (cbid kw k) (hs_CNTs st) = Inr ([], m1)"
    "finishOperation (h_E H) True m1 = Inr m'"
    "omap_rel (h_E H) (h_fuel H) (omap_top (h_E H) ms) (omap_cap ms) Mc m'"
    using rewrite_absent_rel [OF rel w assms(4)] by metis
  show ?thesis by (rule that [of m']) (use r assms(1) in \<open>simp_all add: hmaps_def\<close>)
qed

lemmas horus_bumps = horus_OMAP_incrementUpdtCnt_def horus_incrementUpdtCnt_def horus_OMAP_decrementUpdtCnt_def
  horus_decrementUpdtCnt_def horus_OMAP_incrementSrcCnt_def horus_incrementSrcCnt_def

section \<open>The boxes\<close>

lemma srch_write_step:
  assumes "hmaps H ms Mu Mc T (Suc n) st" "hkw kw" "hdepth ms \<noteq> 0" "int32 u" "u \<noteq> 0" "int32 s" "int32 a" "text_ok t"
  obtains st' where "srch_write H kw u s a t st = Inr st'" "hmaps H ms Mu Mc (T(bbid kw u s a \<mapsto> t)) n st'"
proof -
  note p = hpos_bbid [OF assms(2,4,6,7,3), of H]
  have rel: "prf_rel (h_E H) (hdepth ms) (hpos H ms) T (Suc n) (hs_ORAM_srch st)" "hs_maxSize st = ms"
    using assms(1) by (simp_all add: hmaps_def)
  obtain o' where o': "WriteBox (h_E H) (bbid kw u s a) t (hpos H ms (bbid kw u s a)) (hs_ORAM_srch st) = Inr o'"
    "prf_rel (h_E H) (hdepth ms) (hpos H ms) (T(bbid kw u s a \<mapsto> t)) n o'"
    by (rule WriteBox_rel [OF rel(1) _ _ p(2) assms(8)]) (use assms in simp_all)
  show ?thesis
    by (rule that [of "st\<lparr>hs_ORAM_srch := o'\<rparr>"])
      (use o' p(1) assms(1) rel(2) createBid3_eq [OF assms(2)] in \<open>simp_all add: srch_write_def hmaps_def\<close>)
qed

section \<open>The beginning\<close>

lemma hdepth_pos: "4 \<le> ms \<Longrightarrow> hdepth ms \<noteq> 0"
  by (simp add: hdepth_def INC_FACTOR_def Z_def ilog2.simps [of ms])

lemma ilog2_mono: "m \<le> n \<Longrightarrow> 0 < m \<Longrightarrow> ilog2 m \<le> ilog2 n"
proof (induction n arbitrary: m rule: ilog2.induct)
  case (1 n)
  show ?case
  proof (cases "m \<le> 1")
    case True
    then show ?thesis by (simp add: ilog2.simps [of m])
  next
    case False
    then have "ilog2 (m div 2) \<le> ilog2 (n div 2)" using 1 by (intro "1.IH") (auto simp: div_le_mono)
    then show ?thesis using False 1(2) ilog2.simps [of m] ilog2.simps [of n] by simp
  qed
qed

lemma Horus_new_maps:
  assumes H: "henv_ok H" and sz: "hsize_ok H ms"
  obtains st where "Horus_new H ms = Inr st"
    "hmaps H ms (\<lambda>_. None) (\<lambda>_. None) (\<lambda>_. None) (omap_cap (ms * INC_FACTOR)) st"
proof -
  have E: "env_ok (h_E H)" using H by (simp add: henv_ok_def)
  have s: "ms * INC_FACTOR div Z = ms" "ms div Z \<noteq> 0" "ms * INC_FACTOR div Z \<noteq> 0" "ilog2 (ms * INC_FACTOR div Z) < 31"
    "omap_top (h_E H) (ms * INC_FACTOR) < h_fuel H" "omap_top (h_E H) ms < h_fuel H"
    using sz div_greater_zero_iff [of ms 4] by (simp_all add: hsize_ok_def hdepth_def Z_def INC_FACTOR_def)
  have s2: "ilog2 (ms div Z) < 31"
    using ilog2_mono [of "ms div Z" ms] s(1,2,4) by simp
  obtain u where u: "OMAP_new (h_E H) (ms * INC_FACTOR) (replicate 16 0) = Inr u"
    "omap_rel (h_E H) (h_fuel H) (omap_top (h_E H) (ms * INC_FACTOR)) (omap_cap (ms * INC_FACTOR)) (\<lambda>_. None) u"
    using omap_rel_new [OF E s(3,4,5)] by metis
  obtain p where p: "PRFORAM_new (h_E H) (ms * INC_FACTOR) (1 # replicate 15 0) = Inr p"
    "prf_rel (h_E H) (hdepth ms) (hpos H ms) (\<lambda>_. None) (omap_cap (ms * INC_FACTOR)) p"
    using PRFORAM_new_rel [OF E s(3,4)] unfolding omap_cap_def hdepth_def by metis
  obtain c where c: "OMAP_new (h_E H) ms (2 # replicate 15 0) = Inr c"
    "omap_rel (h_E H) (h_fuel H) (omap_top (h_E H) ms) (omap_cap ms) (\<lambda>_. None) c"
    using omap_rel_new [OF E s(2) s2 s(6)] by metis
  let ?st = "\<lparr>hs_setupPairs1 = [], hs_setupPairs2 = [], hs_setupPairsPos = [], hs_OMAP_updt = u, hs_CNTs = c, hs_ORAM_srch = p,
    hs_UpdtCnt = [], hs_SrchCnt = [], hs_Access = [], hs_LastIND = [], hs_latestUpdatedCounter = [], hs_maxSize = ms\<rparr>"
  have "Horus_new H ms = Inr ?st" using u(1) p(1) c(1) by (simp add: Horus_new_def)
  moreover have "hmaps H ms (\<lambda>_. None) (\<lambda>_. None) (\<lambda>_. None) (omap_cap (ms * INC_FACTOR)) ?st"
    using u(2) p(2) c(2) by (simp add: hmaps_def)
  ultimately show ?thesis by (rule that)
qed

end
