(* ===== verification/Horus_Rep.thy ===== *)
theory Horus_Rep
  imports Horus_Steps
begin

text \<open>
  What the three structures of Horus hold for one keyword: the identifiers in their slots, the
  epoch, the access count of every slot, and the boxes of the current epoch.
\<close>

section \<open>Slots\<close>

text \<open>A slot that gets another identifier in the same epoch, and one that starts an epoch.\<close>

definition add_to_slot :: "slot \<Rightarrow> int \<Rightarrow> slot" where
  "add_to_slot d x = d\<lparr>sl_acc := sl_acc d + 1, sl_text := (sl_text d)(sl_acc d + 1 := to_string x), sl_ind := x\<rparr>"

definition new_slot :: "int \<Rightarrow> int \<Rightarrow> slot" where
  "new_slot a x = \<lparr>sl_lo = a, sl_acc = a, sl_text = (\<lambda>_. to_string x), sl_ind = x\<rparr>"

lemma add_to_slot_sel [simp]: "sl_acc (add_to_slot d x) = sl_acc d + 1" "sl_ind (add_to_slot d x) = x"
  by (simp_all add: add_to_slot_def)

lemma new_slot_sel [simp]: "sl_acc (new_slot a x) = a" "sl_ind (new_slot a x) = x"
  by (simp_all add: new_slot_def)

lemma hslot_ok_mono: "hslot_ok R d \<Longrightarrow> R \<le> R' \<Longrightarrow> hslot_ok R' d"
  by (simp add: hslot_ok_def)

lemma add_to_slot_ok: "hslot_ok R d \<Longrightarrow> int32 x \<Longrightarrow> sl_acc d + 1 \<le> R' \<Longrightarrow> hslot_ok R' (add_to_slot d x)"
  using to_string_head [of x] by (auto simp: hslot_ok_def slot_texts_def add_to_slot_def)

lemma new_slot_ok: "int32 x \<Longrightarrow> int32 a \<Longrightarrow> 1 \<le> a \<Longrightarrow> a \<le> R \<Longrightarrow> hslot_ok R (new_slot a x)"
  using to_string_head [of x] by (simp add: hslot_ok_def slot_texts_def new_slot_def)

lemma answer_add_to_slot: "hslot_ok R d \<Longrightarrow> answer (add_to_slot d x) c = (if c = sl_acc d + 1 then to_string x else answer d c)"
  by (auto simp: hslot_ok_def slot_texts_def slot_answer_def add_to_slot_def)

lemma answer_new_slot:
  "answer (new_slot a x) c = (if c = a then to_string x else if c = 1 \<and> 1 < a then CHR ''@'' # to_string a else [])"
  by (auto simp: slot_answer_def new_slot_def)

lemma answer_beyond: "hslot_ok R d \<Longrightarrow> sl_acc d < c \<Longrightarrow> answer d c = []"
  by (auto simp: hslot_ok_def slot_texts_def slot_answer_def)

definition opt_text :: "string \<Rightarrow> string option" where
  "opt_text s = (if s = [] then None else Some s)"

lemma opt_text_simps [simp]: "opt_text [] = None" "opt_text (c # s) = Some (c # s)" "opt_text (to_string n) = Some (to_string n)"
  "shown (opt_text s) = s" "shown None = []" "shown (Some s) = s"
  by (simp_all add: opt_text_def shown_def)

section \<open>One keyword\<close>

record kwst =
  w_ids :: "int list"
  w_seen :: "int set"
  w_srch :: int
  w_access :: int
  w_latest :: nat
  w_top :: nat
  w_slot :: "nat \<Rightarrow> slot"

text \<open>\<open>b\<close> bounds all counters.\<close>

definition kw_wf :: "nat \<Rightarrow> kwst \<Rightarrow> bool" where
  "kw_wf b K \<longleftrightarrow> distinct (w_ids K) \<and> set (w_ids K) \<subseteq> w_seen K \<and> (\<forall>i\<in>w_seen K. int32 i) \<and>
     length (w_ids K) \<le> w_latest K \<and> w_latest K \<le> w_top K \<and> w_top K \<le> b \<and>
     0 \<le> w_srch K \<and> w_srch K \<le> int b \<and> 1 \<le> w_access K \<and> w_access K \<le> int b + 1 \<and>
     (\<forall>u. 1 \<le> u \<and> u \<le> w_top K \<longrightarrow> 1 \<le> sl_acc (w_slot K u) \<and> sl_acc (w_slot K u) \<le> w_access K \<and> int32 (sl_ind (w_slot K u))) \<and>
     (\<forall>u. 1 \<le> u \<and> u \<le> w_latest K \<longrightarrow> hslot_ok (w_access K) (w_slot K u)) \<and>
     (\<forall>u. 1 \<le> u \<and> u \<le> length (w_ids K) \<longrightarrow> sl_ind (w_slot K u) = w_ids K ! (u - 1))"

definition cnt_rep :: "string \<Rightarrow> kwst \<Rightarrow> int \<Rightarrow> (bid \<Rightarrow> string option) \<Rightarrow> bool" where
  "cnt_rep kw K cnt Mc \<longleftrightarrow> Mc (cbid kw 1) = Some (to_string cnt) \<and> Mc (cbid kw 2) = Some (to_string (w_srch K)) \<and>
     Mc (cbid kw 3) = Some (to_string (w_access K)) \<and>
     (w_ids K \<noteq> [] \<longrightarrow> Mc (cbid kw 4) = Some (to_string (last (w_ids K)))) \<and>
     Mc (cbid kw 5) = Some (to_string (int (w_latest K)))"

definition slot_rep :: "string \<Rightarrow> kwst \<Rightarrow> (bid \<Rightarrow> string option) \<Rightarrow> bool" where
  "slot_rep kw K Mu \<longleftrightarrow> (\<forall>v. int32 v \<and> 1 \<le> v \<longrightarrow> Mu (ubid 1 kw v) =
     (if v \<le> int (w_top K) then Some (show_hash (sl_ind (w_slot K (nat v))) (sl_acc (w_slot K (nat v)))) else None))"

definition ind_rep :: "string \<Rightarrow> kwst \<Rightarrow> (bid \<Rightarrow> string option) \<Rightarrow> bool" where
  "ind_rep kw K Mu \<longleftrightarrow>
     (\<forall>u. 1 \<le> u \<and> u \<le> length (w_ids K) \<longrightarrow> Mu (ubid 0 kw (w_ids K ! (u - 1))) = Some (show_hash (int u) (sl_acc (w_slot K u)))) \<and>
     (\<forall>i\<in>w_seen K - set (w_ids K). \<exists>k. Mu (ubid 0 kw i) = Some (''-1#'' @ to_string k)) \<and>
     (\<forall>i. int32 i \<and> i \<notin> w_seen K \<longrightarrow> Mu (ubid 0 kw i) = None)"

definition box_rep :: "string \<Rightarrow> kwst \<Rightarrow> (bid \<Rightarrow> string option) \<Rightarrow> bool" where
  "box_rep kw K T \<longleftrightarrow> (\<forall>u s c. int32 u \<and> int32 s \<and> int32 c \<and> 1 \<le> u \<and> 1 \<le> c \<and> w_srch K \<le> s \<longrightarrow> T (bbid kw u s c) =
     (if s = w_srch K \<and> u \<le> int (w_latest K) then opt_text (answer (w_slot K (nat u)) c) else None))"

definition kw_state :: "nat \<Rightarrow> string \<Rightarrow> kwst \<Rightarrow> (bid \<Rightarrow> string option) \<Rightarrow> (bid \<Rightarrow> string option) \<Rightarrow> (bid \<Rightarrow> string option) \<Rightarrow> bool" where
  "kw_state b kw K Mu Mc T \<longleftrightarrow>
     kw_wf b K \<and> cnt_rep kw K (int (length (w_ids K))) Mc \<and> slot_rep kw K Mu \<and> ind_rep kw K Mu \<and> box_rep kw K T"

text \<open>A keyword before its first insertion.\<close>

definition no_ids :: kwst where
  "no_ids = \<lparr>w_ids = [], w_seen = {}, w_srch = 0, w_access = 1, w_latest = 0, w_top = 0, w_slot = (\<lambda>_. new_slot 1 0)\<rparr>"

definition kw_unknown :: "string \<Rightarrow> (bid \<Rightarrow> string option) \<Rightarrow> (bid \<Rightarrow> string option) \<Rightarrow> (bid \<Rightarrow> string option) \<Rightarrow> bool" where
  "kw_unknown kw Mu Mc T \<longleftrightarrow>
     (\<forall>k\<in>{1..5}. Mc (cbid kw k) = None) \<and> slot_rep kw no_ids Mu \<and> ind_rep kw no_ids Mu \<and> box_rep kw no_ids T"

lemma no_ids_wf: "kw_wf b no_ids"
  by (simp add: kw_wf_def no_ids_def)

lemma kw_unknown_empty: "kw_unknown kw (\<lambda>_. None) (\<lambda>_. None) (\<lambda>_. None)"
  by (simp add: kw_unknown_def slot_rep_def ind_rep_def box_rep_def no_ids_def)

lemma kw_wf_mono: "kw_wf b K \<Longrightarrow> b \<le> b' \<Longrightarrow> kw_wf b' K"
  by (auto simp: kw_wf_def)

lemma kw_wfD:
  assumes "kw_wf b K"
  shows "distinct (w_ids K)" "set (w_ids K) \<subseteq> w_seen K" "i \<in> w_seen K \<Longrightarrow> int32 i"
    "length (w_ids K) \<le> w_latest K" "w_latest K \<le> w_top K" "w_top K \<le> b" "0 \<le> w_srch K" "w_srch K \<le> int b"
    "1 \<le> w_access K" "w_access K \<le> int b + 1"
    "1 \<le> u \<Longrightarrow> u \<le> w_top K \<Longrightarrow> 1 \<le> sl_acc (w_slot K u)"
    "1 \<le> u \<Longrightarrow> u \<le> w_top K \<Longrightarrow> sl_acc (w_slot K u) \<le> w_access K"
    "1 \<le> u \<Longrightarrow> u \<le> w_top K \<Longrightarrow> int32 (sl_ind (w_slot K u))"
    "1 \<le> u \<Longrightarrow> u \<le> w_latest K \<Longrightarrow> hslot_ok (w_access K) (w_slot K u)"
    "1 \<le> u \<Longrightarrow> u \<le> length (w_ids K) \<Longrightarrow> sl_ind (w_slot K u) = w_ids K ! (u - 1)"
  using assms by (auto simp: kw_wf_def)

lemma small_int32: "0 \<le> v \<Longrightarrow> v \<le> 20000 \<Longrightarrow> int32 v"
  by (simp add: int32_def)

section \<open>Other keywords\<close>

definition same_kw :: "string \<Rightarrow> (bid \<Rightarrow> string option) \<Rightarrow> (bid \<Rightarrow> string option) \<Rightarrow> (bid \<Rightarrow> string option) \<Rightarrow>
    (bid \<Rightarrow> string option) \<Rightarrow> (bid \<Rightarrow> string option) \<Rightarrow> (bid \<Rightarrow> string option) \<Rightarrow> bool" where
  "same_kw kw Mu Mc T Mu' Mc' T' \<longleftrightarrow> (\<forall>k\<in>{1..5}. Mc' (cbid kw k) = Mc (cbid kw k)) \<and>
     (\<forall>p i. int32 i \<longrightarrow> Mu' (ubid p kw i) = Mu (ubid p kw i)) \<and>
     (\<forall>u s c. int32 u \<and> int32 s \<and> int32 c \<longrightarrow> T' (bbid kw u s c) = T (bbid kw u s c))"

lemma same_kw_refl: "same_kw kw Mu Mc T Mu Mc T"
  by (simp add: same_kw_def)

lemma same_kw_cnt: "same_kw kw Mu Mc T Mu' Mc' T' \<Longrightarrow> hkw kw \<Longrightarrow> hkw kw' \<Longrightarrow> kw \<noteq> kw' \<Longrightarrow> int32 k \<Longrightarrow>
    same_kw kw Mu Mc T Mu' (Mc'(cbid kw' k \<mapsto> t)) T'"
  by (auto simp: same_kw_def cbid_inj int32_def)

lemma same_kw_updt: "same_kw kw Mu Mc T Mu' Mc' T' \<Longrightarrow> hkw kw \<Longrightarrow> hkw kw' \<Longrightarrow> kw \<noteq> kw' \<Longrightarrow> int32 i \<Longrightarrow>
    same_kw kw Mu Mc T (Mu'(ubid p kw' i \<mapsto> t)) Mc' T'"
  by (auto simp: same_kw_def ubid_inj)

lemma same_kw_box: "same_kw kw Mu Mc T Mu' Mc' T' \<Longrightarrow> hkw kw \<Longrightarrow> hkw kw' \<Longrightarrow> kw \<noteq> kw' \<Longrightarrow> int32 u \<Longrightarrow> int32 s \<Longrightarrow> int32 c \<Longrightarrow>
    same_kw kw Mu Mc T Mu' Mc' (T'(bbid kw' u s c \<mapsto> t))"
  by (auto simp: same_kw_def bbid_inj)

lemma same_kw_state:
  assumes "same_kw kw Mu Mc T Mu' Mc' T'" "kw_state b kw K Mu Mc T" "b < 10000"
  shows "kw_state b kw K Mu' Mc' T'"
proof -
  have w: "kw_wf b K" using assms(2) by (simp add: kw_state_def)
  have "int32 (w_ids K ! (u - 1))" if "1 \<le> u" "u \<le> length (w_ids K)" for u
    using kw_wfD(2,3) [OF w] that by (meson Suc_le_lessD Suc_pred' nth_mem order_less_le_trans subsetD zero_less_one diff_less less_le_trans)
  then show ?thesis
    using assms(1,2) kw_wfD(2,3) [OF w]
    by (auto simp: kw_state_def same_kw_def cnt_rep_def slot_rep_def ind_rep_def box_rep_def)
qed

lemma same_kw_unknown: "same_kw kw Mu Mc T Mu' Mc' T' \<Longrightarrow> kw_unknown kw Mu Mc T \<Longrightarrow> kw_unknown kw Mu' Mc' T'"
  by (auto simp: kw_unknown_def same_kw_def slot_rep_def ind_rep_def box_rep_def no_ids_def)

section \<open>Room for the counters\<close>

definition ckeys :: "string set \<Rightarrow> bid set" where
  "ckeys W = (\<Union>kw\<in>W. cbid kw ` {1..5})"

lemma ckeys_in: "kw \<in> W \<Longrightarrow> k \<in> {1..5} \<Longrightarrow> cbid kw k \<in> ckeys W"
  unfolding ckeys_def by blast

lemma card_ckeys: "finite W \<Longrightarrow> card (ckeys W) \<le> 5 * card W" "finite W \<Longrightarrow> finite (ckeys W)"
proof -
  assume f: "finite W"
  then show "finite (ckeys W)" by (simp add: ckeys_def)
  have "card (ckeys W) \<le> (\<Sum>kw\<in>W. card (cbid kw ` {1..5}))" unfolding ckeys_def by (rule card_UN_le [OF f])
  also have "\<dots> \<le> (\<Sum>kw\<in>W. 5)"
  proof (rule sum_mono)
    fix kw show "card (cbid kw ` {1..5}) \<le> 5" using card_image_le [of "{1..5::int}" "cbid kw"] by simp
  qed
  finally show "card (ckeys W) \<le> 5 * card W" by simp
qed

lemma cnt_insert_room:
  assumes "hmaps H ms Mu Mc T n st" "henv_ok H" "hkw kw" "type_tag t = Some k" "text_ok s"
    and W: "finite W" "kw \<in> W" "dom Mc \<subseteq> ckeys W" "hroom (h_E H) ms (5 * card W)"
  obtains st' where "cnt_insert H kw t s st = Inr st'" "hmaps H ms Mu (Mc(cbid kw k \<mapsto> s)) T n st'"
    "dom (Mc(cbid kw k \<mapsto> s)) \<subseteq> ckeys W"
proof -
  have "k \<in> {1..5}" using assms(4) by (auto simp: type_tag_def split: if_splits)
  then have "cbid kw k \<in> ckeys W" by (rule ckeys_in [OF W(2)])
  then have i: "insert (cbid kw k) (dom Mc) \<subseteq> ckeys W" using W(3) by simp
  then have "card (insert (cbid kw k) (dom Mc)) \<le> 5 * card W"
    using card_mono [OF card_ckeys(2) [OF W(1)] i] card_ckeys(1) [OF W(1)] by simp
  then have "hroom (h_E H) ms (card (insert (cbid kw k) (dom Mc)))" using hroom_mono [OF W(4)] by simp
  then obtain st' where "cnt_insert H kw t s st = Inr st'" "hmaps H ms Mu (Mc(cbid kw k \<mapsto> s)) T n st'"
    by (rule cnt_insert_step [OF assms(1-5)])
  then show ?thesis using that i by simp
qed

end
