(* ===== verification/Horus_Insert.thy ===== *)
theory Horus_Insert
  imports Horus_Rep
begin

text \<open>
  The insertion of Horus: the counters it prepares, the slot it takes, and the state of the
  keyword afterwards.
\<close>

section \<open>Counters\<close>

lemma int32_1: "int32 0" "int32 1" "int32 2" "int32 3" "int32 4" "int32 5"
  by (simp_all add: int32_def)

lemma tags [simp]: "type_tag ''UpdtCnt'' = Some 1" "type_tag ''SrchCnt'' = Some 2" "type_tag ''Access'' = Some 3"
  "type_tag ''LastIND'' = Some 4" "type_tag ''latestUpdatedCounter'' = Some 5"
  by (simp_all add: type_tag_def)

lemma cbid_neq: "hkw kw \<Longrightarrow> int32 j \<Longrightarrow> int32 k \<Longrightarrow> j \<noteq> k \<Longrightarrow> cbid kw j \<noteq> cbid kw k"
  by (simp add: cbid_inj)

lemma counters_known:
  assumes hm: "hmaps H ms Mu Mc T n st" and H: "henv_ok H" and kw: "hkw kw" and wf: "kw_wf b K" "b < 10000"
    and c: "cnt_rep kw K (int (length (w_ids K))) Mc"
  obtains st' where "insert_counters H kw st = Inr ((int (length (w_ids K)), w_srch K, int (w_latest K)), st')"
    "hmaps H ms Mu (Mc(cbid kw 1 \<mapsto> to_string (int (length (w_ids K)) + 1))) T n st'"
proof -
  let ?n = "int (length (w_ids K))" and ?Mc = "Mc(cbid kw 1 \<mapsto> to_string (int (length (w_ids K)) + 1))"
  note w = kw_wfD [OF wf(1)]
  have i: "int32 ?n" "int32 (?n + 1)" "int32 (w_srch K)" "int32 (int (w_latest K))"
    using w(4-8) wf(2) by (simp_all add: int32_def)
  have g: "Mc (cbid kw 1) = Some (to_string ?n)" "?Mc (cbid kw 2) = Some (to_string (w_srch K))"
    "?Mc (cbid kw 5) = Some (to_string (int (w_latest K)))"
    using c cbid_neq [OF kw] int32_1 by (simp_all add: cnt_rep_def)
  obtain m where m: "horus_OMAP_incrementUpdtCnt (h_E H) (h_fuel H) (cbid kw 1) (hs_CNTs st) = Inr (padded (to_string ?n), m)"
    "hmaps H ms Mu ?Mc T n (st\<lparr>hs_CNTs := m\<rparr>)"
    using cnt_bump_step [OF hm H kw g(1) i(1,2)] unfolding horus_bumps by metis
  obtain st1 where s1: "cnt_find H kw ''SrchCnt'' (st\<lparr>hs_CNTs := m\<rparr>) = Inr (to_string (w_srch K), st1)" "hmaps H ms Mu ?Mc T n st1"
    using cnt_find_step [OF m(2) H kw tags(2)] g(2) by (metis opt_text_simps(6))
  obtain st2 where s2: "cnt_find H kw ''latestUpdatedCounter'' st1 = Inr (to_string (int (w_latest K)), st2)" "hmaps H ms Mu ?Mc T n st2"
    using cnt_find_step [OF s1(2) H kw tags(5)] g(3) by (metis opt_text_simps(6))
  have "padded (to_string ?n) \<noteq> []" using length_to_string [OF i(1)] by (intro padded_not_Nil) simp
  then have "insert_counters H kw st = Inr ((?n, w_srch K, int (w_latest K)), st2)"
    using m(1) s1(1) s2(1) i horus_getBid_eq [OF kw tags(1)] by (simp add: insert_counters_def stoi_padded Let_def)
  then show ?thesis using that s2(2) by blast
qed

lemma access_known:
  assumes hm: "hmaps H ms Mu Mc T n st" and H: "henv_ok H" and kw: "hkw kw" and wf: "kw_wf b K" "b < 10000"
    and c: "cnt_rep kw K cnt Mc"
  obtains st' where "access_counter H kw st = Inr (w_access K, st')" "hmaps H ms Mu Mc T n st'"
proof -
  have i: "int32 (w_access K)" using kw_wfD(9,10) [OF wf(1)] wf(2) by (simp add: int32_def)
  have g: "shown (Mc (cbid kw 3)) = to_string (w_access K)" using c by (simp add: cnt_rep_def)
  obtain st' where st': "cnt_find H kw ''Access'' st = Inr (to_string (w_access K), st')" "hmaps H ms Mu Mc T n st'"
    using cnt_find_step [OF hm H kw tags(3)] unfolding g by metis
  then show ?thesis using that [of st'] i by (simp add: access_counter_def)
qed

text \<open>Counters for an insertion, of a keyword with or without earlier insertions.\<close>

lemma counters_ready:
  assumes hm: "hmaps H ms Mu Mc T n st" and H: "henv_ok H" and kw: "hkw kw" and wf: "kw_wf b K" "b < 10000"
    and c: "cnt_rep kw K (int (length (w_ids K))) Mc \<or> K = no_ids \<and> (\<forall>k\<in>{1..5}. Mc (cbid kw k) = None)"
    and W: "finite W" "kw \<in> W" "dom Mc \<subseteq> ckeys W" "hroom (h_E H) ms (5 * card W)"
  obtains st1 st2 Mc' where "insert_counters H kw st = Inr ((int (length (w_ids K)), w_srch K, int (w_latest K)), st1)"
    "access_counter H kw st1 = Inr (w_access K, st2)" "hmaps H ms Mu Mc' T n st2"
    "cnt_rep kw K (int (length (w_ids K)) + 1) Mc'" "dom Mc' \<subseteq> ckeys W"
    "\<And>kw'. hkw kw' \<Longrightarrow> kw' \<noteq> kw \<Longrightarrow> same_kw kw' Mu Mc T Mu Mc' T"
proof -
  have fr: "same_kw kw' Mu Mc T Mu (Mc'(cbid kw k \<mapsto> t)) T" if "hkw kw'" "kw' \<noteq> kw" "same_kw kw' Mu Mc T Mu Mc' T" "int32 k" for kw' k t Mc'
    by (rule same_kw_cnt [OF that(3,1) kw that(2,4)])
  note neq = cbid_neq [OF kw]
  from c show ?thesis
  proof
    assume c: "cnt_rep kw K (int (length (w_ids K))) Mc"
    let ?Mc = "Mc(cbid kw 1 \<mapsto> to_string (int (length (w_ids K)) + 1))"
    have c': "cnt_rep kw K (int (length (w_ids K)) + 1) ?Mc" using c neq int32_1 by (simp add: cnt_rep_def)
    obtain st1 where s1: "insert_counters H kw st = Inr ((int (length (w_ids K)), w_srch K, int (w_latest K)), st1)" "hmaps H ms Mu ?Mc T n st1"
      by (rule counters_known [OF hm H kw wf c])
    obtain st2 where s2: "access_counter H kw st1 = Inr (w_access K, st2)" "hmaps H ms Mu ?Mc T n st2"
      by (rule access_known [OF s1(2) H kw wf c'])
    have "dom ?Mc \<subseteq> ckeys W" using W(3) ckeys_in [OF W(2), of 1] by simp
    then show ?thesis by (rule that [OF s1(1) s2 c' _ fr]) (simp_all add: same_kw_refl int32_1)
  next
    assume u: "K = no_ids \<and> (\<forall>k\<in>{1..5}. Mc (cbid kw k) = None)"
    let ?M1 = "Mc(cbid kw 1 \<mapsto> to_string 1)" let ?M2 = "?M1(cbid kw 5 \<mapsto> to_string 0)" let ?M3 = "?M2(cbid kw 2 \<mapsto> to_string 0)"
    let ?M4 = "?M3(cbid kw 3 \<mapsto> to_string 1)"
    have no: "Mc (cbid kw 1) = None" "?M3 (cbid kw 3) = None" using u neq int32_1 by simp_all
    obtain m where m: "horus_OMAP_incrementUpdtCnt (h_E H) (h_fuel H) (cbid kw 1) (hs_CNTs st) = Inr ([], m)"
      "hmaps H ms Mu Mc T n (st\<lparr>hs_CNTs := m\<rparr>)"
      using cnt_bump_absent [OF hm H kw no(1)] unfolding horus_bumps by metis
    have t: "text_ok (to_string 1)" "text_ok (to_string 0)" by (simp_all add: text_ok_to_string int32_1)
    obtain s1 where s1: "cnt_insert H kw ''UpdtCnt'' (to_string 1) (st\<lparr>hs_CNTs := m\<rparr>) = Inr s1" "hmaps H ms Mu ?M1 T n s1" "dom ?M1 \<subseteq> ckeys W"
      by (rule cnt_insert_room [OF m(2) H kw tags(1) t(1) W])
    obtain s2 where s2: "cnt_insert H kw ''latestUpdatedCounter'' (to_string 0) s1 = Inr s2" "hmaps H ms Mu ?M2 T n s2" "dom ?M2 \<subseteq> ckeys W"
      by (rule cnt_insert_room [OF s1(2) H kw tags(5) t(2) W(1,2) s1(3) W(4)])
    obtain s3 where s3: "cnt_insert H kw ''SrchCnt'' (to_string 0) s2 = Inr s3" "hmaps H ms Mu ?M3 T n s3" "dom ?M3 \<subseteq> ckeys W"
      by (rule cnt_insert_room [OF s2(2) H kw tags(2) t(2) W(1,2) s2(3) W(4)])
    obtain s4 where s4: "cnt_find H kw ''Access'' s3 = Inr ([], s4)" "hmaps H ms Mu ?M3 T n s4"
      using cnt_find_step [OF s3(2) H kw tags(3)] no(2) by (metis opt_text_simps(5))
    obtain s5 where s5: "cnt_insert H kw ''Access'' (to_string 1) s4 = Inr s5" "hmaps H ms Mu ?M4 T n s5" "dom ?M4 \<subseteq> ckeys W"
      by (rule cnt_insert_room [OF s4(2) H kw tags(3) t(1) W(1,2) s3(3) W(4)])
    have K: "w_ids K = []" "w_srch K = 0" "w_latest K = 0" "w_access K = 1" using u by (simp_all add: no_ids_def)
    show ?thesis
    proof (rule that)
      show "insert_counters H kw st = Inr ((int (length (w_ids K)), w_srch K, int (w_latest K)), s3)"
        using m(1) s1(1) s2(1) s3(1) K horus_getBid_eq [OF kw tags(1)] by (simp add: insert_counters_def Let_def)
      show "access_counter H kw s3 = Inr (w_access K, s5)" using s4(1) s5(1) K by (simp add: access_counter_def)
      show "cnt_rep kw K (int (length (w_ids K)) + 1) ?M4" using K neq int32_1 by (simp add: cnt_rep_def)
      show "same_kw kw' Mu Mc T Mu ?M4 T" if "hkw kw'" "kw' \<noteq> kw" for kw'
        by (intro fr [OF that] same_kw_refl int32_1)
    qed (use s5 in simp_all)
  qed
qed

section \<open>The state afterwards\<close>

text \<open>The slot the new identifier takes, as the access count written and as a slot.\<close>

definition ins_acc :: "kwst \<Rightarrow> int" where
  "ins_acc K = (let u = Suc (length (w_ids K)) in if u \<le> w_top K then sl_acc (w_slot K u) + 1 else 1)"

definition ins_slot :: "kwst \<Rightarrow> int \<Rightarrow> slot" where
  "ins_slot K x = (let u = Suc (length (w_ids K)) in
     if w_latest K < u then new_slot (ins_acc K) x else add_to_slot (w_slot K u) x)"

definition kw_insert :: "int \<Rightarrow> kwst \<Rightarrow> kwst" where
  "kw_insert x K = (let u = Suc (length (w_ids K)) in
     K\<lparr>w_ids := w_ids K @ [x], w_seen := insert x (w_seen K), w_access := max (w_access K) (ins_acc K),
       w_latest := max (w_latest K) u, w_top := max (w_top K) u, w_slot := (w_slot K)(u := ins_slot K x)\<rparr>)"

lemma kw_insert_sel [simp]:
  "w_ids (kw_insert x K) = w_ids K @ [x]" "w_seen (kw_insert x K) = insert x (w_seen K)" "w_srch (kw_insert x K) = w_srch K"
  "w_access (kw_insert x K) = max (w_access K) (ins_acc K)" "w_latest (kw_insert x K) = max (w_latest K) (Suc (length (w_ids K)))"
  "w_top (kw_insert x K) = max (w_top K) (Suc (length (w_ids K)))" "w_slot (kw_insert x K) = (w_slot K)(Suc (length (w_ids K)) := ins_slot K x)"
  by (simp_all add: kw_insert_def Let_def)

lemma ins_acc_bounds:
  assumes "kw_wf b K"
  shows "1 \<le> ins_acc K" "ins_acc K \<le> w_access K + 1" "w_latest K = Suc u' \<Longrightarrow> length (w_ids K) \<le> u' \<Longrightarrow>
    ins_acc K = sl_acc (w_slot K (Suc (length (w_ids K)))) + 1"
  using kw_wfD(5,9) [OF assms] kw_wfD(11,12) [OF assms, of "Suc (length (w_ids K))"] by (auto simp: ins_acc_def Let_def)

lemma ins_slot_sel:
  assumes "kw_wf b K"
  shows "sl_acc (ins_slot K x) = ins_acc K" "sl_ind (ins_slot K x) = x"
proof -
  show "sl_ind (ins_slot K x) = x" by (simp add: ins_slot_def Let_def)
  show "sl_acc (ins_slot K x) = ins_acc K"
    using kw_wfD(4,5) [OF assms] by (auto simp: ins_slot_def ins_acc_def Let_def)
qed

lemma ins_slot_ok:
  assumes wf: "kw_wf b K" and b: "b < 10000" and x: "int32 x"
  shows "hslot_ok (max (w_access K) (ins_acc K)) (ins_slot K x)"
proof (cases "w_latest K < Suc (length (w_ids K))")
  case True
  have "int32 (ins_acc K)" using ins_acc_bounds(1,2) [OF wf] kw_wfD(10) [OF wf] b by (simp add: int32_def)
  then show ?thesis using True x ins_acc_bounds(1) [OF wf] by (simp add: ins_slot_def Let_def new_slot_ok)
next
  case False
  let ?d = "w_slot K (Suc (length (w_ids K)))"
  have "hslot_ok (w_access K) ?d" using kw_wfD(14) [OF wf, of "Suc (length (w_ids K))"] False by simp
  moreover have "ins_acc K = sl_acc ?d + 1" using False kw_wfD(5) [OF wf] by (simp add: ins_acc_def Let_def)
  ultimately show ?thesis using False x by (simp add: ins_slot_def Let_def add_to_slot_ok)
qed

lemma kw_insert_wf:
  assumes wf: "kw_wf b K" and b: "b < 10000" and x: "int32 x" "x \<notin> set (w_ids K)"
  shows "kw_wf (Suc b) (kw_insert x K)"
proof -
  note w = kw_wfD [OF wf] and a = ins_acc_bounds [OF wf] and s = ins_slot_sel [OF wf]
  let ?n = "length (w_ids K)" and ?R = "max (w_access K) (ins_acc K)"
  have 1: "\<forall>u. 1 \<le> u \<and> u \<le> max (w_top K) (Suc ?n) \<longrightarrow> 1 \<le> sl_acc (((w_slot K)(Suc ?n := ins_slot K x)) u) \<and>
      sl_acc (((w_slot K)(Suc ?n := ins_slot K x)) u) \<le> ?R \<and> int32 (sl_ind (((w_slot K)(Suc ?n := ins_slot K x)) u))"
  proof (intro allI impI)
    fix u assume u: "1 \<le> u \<and> u \<le> max (w_top K) (Suc ?n)"
    show "1 \<le> sl_acc (((w_slot K)(Suc ?n := ins_slot K x)) u) \<and>
      sl_acc (((w_slot K)(Suc ?n := ins_slot K x)) u) \<le> ?R \<and> int32 (sl_ind (((w_slot K)(Suc ?n := ins_slot K x)) u))"
    proof (cases "u = Suc ?n")
      case False
      then have "u \<le> w_top K" using u w(4,5) by linarith
      then show ?thesis using False u w(11,12,13) [of u] by simp
    qed (use a(1) s x(1) in simp)
  qed
  have 2: "\<forall>u. 1 \<le> u \<and> u \<le> max (w_latest K) (Suc ?n) \<longrightarrow> hslot_ok ?R (((w_slot K)(Suc ?n := ins_slot K x)) u)"
  proof (intro allI impI)
    fix u assume u: "1 \<le> u \<and> u \<le> max (w_latest K) (Suc ?n)"
    show "hslot_ok ?R (((w_slot K)(Suc ?n := ins_slot K x)) u)"
    proof (cases "u = Suc ?n")
      case False
      then have "u \<le> w_latest K" using u w(4) by linarith
      then show ?thesis using False u hslot_ok_mono [OF w(14) [of u], of ?R] by simp
    qed (use ins_slot_ok [OF wf b x(1)] in simp)
  qed
  have 3: "\<forall>u. 1 \<le> u \<and> u \<le> length (w_ids K @ [x]) \<longrightarrow> sl_ind (((w_slot K)(Suc ?n := ins_slot K x)) u) = (w_ids K @ [x]) ! (u - 1)"
    using w(15) s(2) by (auto simp: nth_append)
  show ?thesis
    unfolding kw_wf_def kw_insert_sel using w(1-10) a(1,2) x 1 2 3 by (auto simp: max_def)
qed

text \<open>The three maps after the insertion.\<close>

definition ins_updt :: "string \<Rightarrow> int \<Rightarrow> kwst \<Rightarrow> (bid \<Rightarrow> string option) \<Rightarrow> (bid \<Rightarrow> string option)" where
  "ins_updt kw x K Mu = (let u = int (Suc (length (w_ids K))) in
     Mu(ubid 0 kw x \<mapsto> show_hash u (ins_acc K), ubid 1 kw u \<mapsto> show_hash x (ins_acc K)))"

definition ins_box :: "string \<Rightarrow> int \<Rightarrow> kwst \<Rightarrow> (bid \<Rightarrow> string option) \<Rightarrow> (bid \<Rightarrow> string option)" where
  "ins_box kw x K T = (let u = Suc (length (w_ids K)); T1 = T(bbid kw (int u) (w_srch K) (ins_acc K) \<mapsto> to_string x) in
     if w_latest K < u \<and> 1 < ins_acc K then T1(bbid kw (int u) (w_srch K) 1 \<mapsto> CHR ''@'' # to_string (ins_acc K)) else T1)"

lemma small_counts:
  assumes "kw_wf b K" "b < 10000"
  shows "int32 (int (length (w_ids K)))" "int32 (int (Suc (length (w_ids K))))" "int32 (w_srch K)" "int32 (w_srch K + 1)"
    "int32 (w_access K)" "int32 (ins_acc K)" "int32 (int (w_latest K))" "int32 (int (w_latest K) + 1)" "int32 (int (w_top K))"
    "0 \<le> ins_acc K" "0 \<le> w_access K"
  using kw_wfD(4-10) [OF assms(1)] ins_acc_bounds(1,2) [OF assms(1)] assms(2) by (simp_all add: int32_def)

lemma ins_slot_rep:
  assumes wf: "kw_wf b K" "b < 10000" and kw: "hkw kw" and x: "int32 x" and r: "slot_rep kw K Mu"
  shows "slot_rep kw (kw_insert x K) (ins_updt kw x K Mu)"
  unfolding slot_rep_def
proof (intro allI impI)
  fix v :: int assume v: "int32 v \<and> 1 \<le> v"
  let ?u = "Suc (length (w_ids K))"
  note sc = small_counts [OF wf]
  have k: "ubid 1 kw v \<noteq> ubid 0 kw x" "ubid 1 kw v = ubid 1 kw (int ?u) \<longleftrightarrow> v = int ?u"
    using v kw x sc(2) by (simp_all only: ubid_inj) simp_all
  show "ins_updt kw x K Mu (ubid 1 kw v) = (if v \<le> int (w_top (kw_insert x K))
      then Some (show_hash (sl_ind (w_slot (kw_insert x K) (nat v))) (sl_acc (w_slot (kw_insert x K) (nat v)))) else None)"
  proof (cases "v = int ?u")
    case True
    then have "nat v = ?u" "v \<le> int (max (w_top K) ?u)" by simp_all
    then show ?thesis using True ins_slot_sel [OF wf(1)] unfolding kw_insert_sel by (simp add: ins_updt_def Let_def)
  next
    case False
    have "Mu (ubid 1 kw v) = (if v \<le> int (w_top K) then Some (show_hash (sl_ind (w_slot K (nat v))) (sl_acc (w_slot K (nat v)))) else None)"
      using r v by (simp add: slot_rep_def)
    moreover have "v \<le> int (max (w_top K) ?u) \<longleftrightarrow> v \<le> int (w_top K)" using False kw_wfD(4,5) [OF wf(1)] by linarith
    moreover have "nat v \<noteq> ?u" using False v by linarith
    ultimately show ?thesis using k False unfolding ins_updt_def Let_def kw_insert_sel by simp
  qed
qed

lemma ins_ind_rep:
  assumes wf: "kw_wf b K" "b < 10000" and kw: "hkw kw" and x: "int32 x" "x \<notin> set (w_ids K)" and r: "ind_rep kw K Mu"
  shows "ind_rep kw (kw_insert x K) (ins_updt kw x K Mu)"
proof -
  let ?u = "Suc (length (w_ids K))"
  note w = kw_wfD [OF wf(1)] and sc = small_counts [OF wf]
  have k: "ins_updt kw x K Mu (ubid 0 kw i) = (if i = x then Some (show_hash (int ?u) (ins_acc K)) else Mu (ubid 0 kw i))" if "int32 i" for i
    using kw x(1) that sc(2) by (simp add: ins_updt_def Let_def ubid_inj)
  have ids: "int32 (w_ids K ! (v - 1))" "w_ids K ! (v - 1) \<noteq> x" if "1 \<le> v" "v \<le> length (w_ids K)" for v
  proof -
    have "w_ids K ! (v - 1) \<in> set (w_ids K)" using that by (intro nth_mem) simp
    then show "int32 (w_ids K ! (v - 1))" "w_ids K ! (v - 1) \<noteq> x" using w(2,3) x(2) by auto
  qed
  have 1: "ins_updt kw x K Mu (ubid 0 kw ((w_ids K @ [x]) ! (v - 1))) = Some (show_hash (int v) (sl_acc (((w_slot K)(?u := ins_slot K x)) v)))"
    if v: "1 \<le> v" "v \<le> length (w_ids K @ [x])" for v
  proof (cases "v = ?u")
    case True
    then show ?thesis using k [OF x(1)] ins_slot_sel [OF wf(1)] by simp
  next
    case False
    then have v': "v \<le> length (w_ids K)" using v by simp
    then have "v - 1 < length (w_ids K)" using v(1) by linarith
    then have "(w_ids K @ [x]) ! (v - 1) = w_ids K ! (v - 1)" by (simp add: nth_append)
    then show ?thesis using k [OF ids(1) [OF v(1) v']] ids(2) [OF v(1) v'] r v(1) v' False by (simp add: ind_rep_def)
  qed
  have 2: "\<exists>k. ins_updt kw x K Mu (ubid 0 kw i) = Some (''-1#'' @ to_string k)" if "i \<in> insert x (w_seen K) - set (w_ids K @ [x])" for i
    using that k [OF w(3) [of i]] r by (auto simp: ind_rep_def)
  have 3: "ins_updt kw x K Mu (ubid 0 kw i) = None" if "int32 i" "i \<notin> insert x (w_seen K)" for i
    using that k r by (simp add: ind_rep_def)
  show ?thesis unfolding ind_rep_def kw_insert_sel using 1 2 3 by blast
qed

lemma answer_ins_slot:
  assumes "kw_wf b K"
  shows "answer (ins_slot K x) c = (if c = ins_acc K then to_string x
    else if w_latest K < Suc (length (w_ids K)) then (if c = 1 \<and> 1 < ins_acc K then CHR ''@'' # to_string (ins_acc K) else [])
    else answer (w_slot K (Suc (length (w_ids K)))) c)"
proof (cases "w_latest K < Suc (length (w_ids K))")
  case True
  then have "ins_slot K x = new_slot (ins_acc K) x" by (simp add: ins_slot_def Let_def)
  then show ?thesis unfolding answer_new_slot [symmetric] using True by (simp only: answer_new_slot) simp
next
  case False
  let ?d = "w_slot K (Suc (length (w_ids K)))"
  have "hslot_ok (w_access K) ?d" using kw_wfD(14) [OF assms, of "Suc (length (w_ids K))"] False by simp
  moreover have "ins_acc K = sl_acc ?d + 1" using False kw_wfD(5) [OF assms] by (simp add: ins_acc_def Let_def)
  moreover from this False have "ins_slot K x = add_to_slot ?d x" by (simp add: ins_slot_def Let_def)
  ultimately show ?thesis using False by (simp only: answer_add_to_slot) simp
qed

lemma ins_box_rep:
  assumes wf: "kw_wf b K" "b < 10000" and kw: "hkw kw" and r: "box_rep kw K T"
  shows "box_rep kw (kw_insert x K) (ins_box kw x K T)"
  unfolding box_rep_def
proof (intro allI impI)
  fix v s c :: int
  assume a: "int32 v \<and> int32 s \<and> int32 c \<and> 1 \<le> v \<and> 1 \<le> c \<and> w_srch (kw_insert x K) \<le> s"
  let ?u = "Suc (length (w_ids K))" and ?s = "w_srch K" and ?a = "ins_acc K"
  note sc = small_counts [OF wf] and w = kw_wfD [OF wf(1)]
  have k: "bbid kw v s c = bbid kw (int ?u) ?s ?a \<longleftrightarrow> v = int ?u \<and> s = ?s \<and> c = ?a"
    "bbid kw v s c = bbid kw (int ?u) ?s 1 \<longleftrightarrow> v = int ?u \<and> s = ?s \<and> c = 1"
    using a kw sc(2,3,6) int32_1 by (simp_all only: bbid_inj simp_thms)
  have old: "T (bbid kw v s c) = (if s = ?s \<and> v \<le> int (w_latest K) then opt_text (answer (w_slot K (nat v)) c) else None)"
    using r a by (simp add: box_rep_def)
  show "ins_box kw x K T (bbid kw v s c) = (if s = w_srch (kw_insert x K) \<and> v \<le> int (w_latest (kw_insert x K))
      then opt_text (answer (w_slot (kw_insert x K) (nat v)) c) else None)"
  proof (cases "v = int ?u \<and> s = ?s")
    case False
    have "ins_box kw x K T (bbid kw v s c) = T (bbid kw v s c)" using k False by (auto simp: ins_box_def Let_def)
    moreover have "s = ?s \<Longrightarrow> v \<le> int (max (w_latest K) ?u) \<longleftrightarrow> v \<le> int (w_latest K)" using False w(4) by linarith
    moreover have "s = ?s \<Longrightarrow> nat v \<noteq> ?u" using False a by linarith
    ultimately show ?thesis using old unfolding kw_insert_sel by auto
  next
    case True
    then have v: "nat v = ?u" "v \<le> int (max (w_latest K) ?u)" by simp_all
    have "ins_box kw x K T (bbid kw v s c) = opt_text (answer (ins_slot K x) c)"
      using k True old v(1) unfolding answer_ins_slot [OF wf(1)] by (auto simp: ins_box_def Let_def)
    then show ?thesis using True v by (simp del: max_less_iff_conj)
  qed
qed

section \<open>The operation\<close>

lemma slot_access_ready:
  assumes hm: "hmaps H ms Mu Mc T n st" and H: "henv_ok H" and kw: "hkw kw" and wf: "kw_wf b K" "b < 10000"
    and r: "slot_rep kw K Mu" and c: "cnt_rep kw K cnt Mc"
    and W: "finite W" "kw \<in> W" "dom Mc \<subseteq> ckeys W" "hroom (h_E H) ms (5 * card W)"
  obtains st' Mc' where "slot_access H kw (w_access K) (ubid 1 kw (int (Suc (length (w_ids K))))) st = Inr (ins_acc K, st')"
    "hmaps H ms Mu Mc' T n st'" "cnt_rep kw (K\<lparr>w_access := max (w_access K) (ins_acc K)\<rparr>) cnt Mc'" "dom Mc' \<subseteq> ckeys W"
    "\<And>kw'. hkw kw' \<Longrightarrow> kw' \<noteq> kw \<Longrightarrow> same_kw kw' Mu Mc T Mu Mc' T"
proof -
  let ?u = "Suc (length (w_ids K))"
  note sc = small_counts [OF wf] and w = kw_wfD [OF wf(1)]
  have g: "Mu (ubid 1 kw (int ?u)) = (if ?u \<le> w_top K then Some (show_hash (sl_ind (w_slot K ?u)) (sl_acc (w_slot K ?u))) else None)"
    using r sc(2) by (auto simp: slot_rep_def nat_add_distrib)
  obtain st1 where s1: "updt_find H (ubid 1 kw (int ?u)) st = Inr (shown (Mu (ubid 1 kw (int ?u))), st1)" "hmaps H ms Mu Mc T n st1"
    using updt_find_step [OF hm H] kw by (metis bid_wf_keys(2))
  show ?thesis
  proof (cases "?u \<le> w_top K")
    case False
    then have a: "ins_acc K = 1" "K\<lparr>w_access := max (w_access K) (ins_acc K)\<rparr> = K"
      using w(9) by (simp_all add: ins_acc_def Let_def)
    show ?thesis
    proof (rule that)
      show "slot_access H kw (w_access K) (ubid 1 kw (int ?u)) st = Inr (ins_acc K, st1)"
        using s1(1) g False a(1) by (simp add: slot_access_def)
      show "cnt_rep kw (K\<lparr>w_access := max (w_access K) (ins_acc K)\<rparr>) cnt Mc" using c a(2) by simp
    qed (simp_all add: s1(2) W(3) same_kw_refl)
  next
    case True
    let ?a = "sl_acc (w_slot K ?u)" and ?t = "show_hash (sl_ind (w_slot K ?u)) (sl_acc (w_slot K ?u))"
    have a: "ins_acc K = ?a + 1" "int32 ?a" using True w(10) w(11,12) [of ?u] wf(2) by (auto simp: ins_acc_def Let_def int32_def)
    have t: "?t \<noteq> []" "h_split H ?t ! 1 = to_string ?a" "length (h_split H ?t) = 2" using split_hash [OF H] by (simp_all add: show_hash_def)
    have sa: "slot_access H kw (w_access K) (ubid 1 kw (int ?u)) st =
      (if w_access K < ?a + 1 then ebind (cnt_insert H kw ''Access'' (to_string (?a + 1)) st1) (\<lambda>st. Inr (?a + 1, st)) else Inr (?a + 1, st1))"
      using s1(1) g True t a(2) by (simp add: slot_access_def nth_or_error_def Let_def)
    show ?thesis
    proof (cases "w_access K < ?a + 1")
      case le: False
      then have e: "K\<lparr>w_access := max (w_access K) (ins_acc K)\<rparr> = K" using a(1) by simp
      show ?thesis
      proof (rule that)
        show "slot_access H kw (w_access K) (ubid 1 kw (int ?u)) st = Inr (ins_acc K, st1)" using sa le a(1) by simp
        show "cnt_rep kw (K\<lparr>w_access := max (w_access K) (ins_acc K)\<rparr>) cnt Mc" using c e by simp
      qed (simp_all add: s1(2) W(3) same_kw_refl)
    next
      case gt: True
      have tx: "text_ok (to_string (?a + 1))" using text_ok_to_string sc(6) a(1) by simp
      obtain st2 where s2: "cnt_insert H kw ''Access'' (to_string (?a + 1)) st1 = Inr st2"
        "hmaps H ms Mu (Mc(cbid kw 3 \<mapsto> to_string (?a + 1))) T n st2" "dom (Mc(cbid kw 3 \<mapsto> to_string (?a + 1))) \<subseteq> ckeys W"
        by (rule cnt_insert_room [OF s1(2) H kw tags(3) tx W])
      show ?thesis
      proof (rule that)
        show "slot_access H kw (w_access K) (ubid 1 kw (int ?u)) st = Inr (ins_acc K, st2)" using sa gt s2(1) a(1) by simp
        show "cnt_rep kw (K\<lparr>w_access := max (w_access K) (ins_acc K)\<rparr>) cnt (Mc(cbid kw 3 \<mapsto> to_string (?a + 1)))"
          using c gt a(1) cbid_neq [OF kw] int32_1 by (simp add: cnt_rep_def)
        show "same_kw kw' Mu Mc T Mu (Mc(cbid kw 3 \<mapsto> to_string (?a + 1))) T" if "hkw kw'" "kw' \<noteq> kw" for kw'
          by (rule same_kw_cnt [OF same_kw_refl that(1) kw that(2) int32_1(4)])
      qed (use s2 in simp_all)
    qed
  qed
qed

text \<open>The mark of a slot that starts an epoch with a higher access count.\<close>

lemma insert_latest:
  assumes kw: "hkw kw" and wf: "kw_wf b K" "b < 10000" and d: "hdepth ms \<noteq> 0"
    and T1: "T1 = T(bbid kw (int (Suc (length (w_ids K)))) (w_srch K) (ins_acc K) \<mapsto> to_string x)"
    and hm: "hmaps H ms Mu Mc T1 (Suc n) st" and H: "henv_ok H" and c: "cnt_rep kw (K\<lparr>w_access := R\<rparr>) cnt Mc"
    and W: "finite W" "kw \<in> W" "dom Mc \<subseteq> ckeys W" "hroom (h_E H) ms (5 * card W)"
  obtains st' Mc' n' where
    "(if int (w_latest K) < int (Suc (length (w_ids K))) then
        ebind (cnt_insert H kw ''latestUpdatedCounter'' (to_string (int (w_latest K) + 1)) st) (\<lambda>st.
        if 1 < ins_acc K then srch_write H kw (int (Suc (length (w_ids K)))) (w_srch K) 1 (''@'' @ to_string (ins_acc K)) st else Inr st)
      else Inr st) = Inr st'"
    "hmaps H ms Mu Mc' (ins_box kw x K T) n' st'" "n \<le> n'" "dom Mc' \<subseteq> ckeys W"
    "cnt_rep kw (K\<lparr>w_access := R, w_latest := max (w_latest K) (Suc (length (w_ids K)))\<rparr>) cnt Mc'"
    "\<And>kw'. hkw kw' \<Longrightarrow> kw' \<noteq> kw \<Longrightarrow> same_kw kw' Mu Mc T Mu Mc' T"
proof (cases "w_latest K < Suc (length (w_ids K))")
  case False
  show ?thesis
  proof (rule that)
    show "hmaps H ms Mu Mc (ins_box kw x K T) (Suc n) st" using hm T1 False by (simp add: ins_box_def Let_def)
    show "cnt_rep kw (K\<lparr>w_access := R, w_latest := max (w_latest K) (Suc (length (w_ids K)))\<rparr>) cnt Mc" using c False by (simp add: cnt_rep_def)
  qed (use False W(3) in \<open>simp_all add: same_kw_refl\<close>)
next
  case True
  let ?u = "Suc (length (w_ids K))" and ?Mc = "Mc(cbid kw 5 \<mapsto> to_string (int (w_latest K) + 1))"
  note sc = small_counts [OF wf]
  have l: "max (w_latest K) ?u = Suc (w_latest K)" using True kw_wfD(4) [OF wf(1)] by simp
  have c': "cnt_rep kw (K\<lparr>w_access := R, w_latest := max (w_latest K) ?u\<rparr>) cnt ?Mc"
    unfolding l using c cbid_neq [OF kw] int32_1 by (simp add: cnt_rep_def add.commute)
  have fr: "same_kw kw' Mu Mc T Mu ?Mc T" if "hkw kw'" "kw' \<noteq> kw" for kw'
    by (rule same_kw_cnt [OF same_kw_refl that(1) kw that(2) int32_1(6)])
  obtain st1 where s1: "cnt_insert H kw ''latestUpdatedCounter'' (to_string (int (w_latest K) + 1)) st = Inr st1"
    "hmaps H ms Mu ?Mc T1 (Suc n) st1" "dom ?Mc \<subseteq> ckeys W"
    by (rule cnt_insert_room [OF hm H kw tags(5) text_ok_to_string [OF sc(8)] W])
  show ?thesis
  proof (cases "1 < ins_acc K")
    case False
    have "hmaps H ms Mu ?Mc (ins_box kw x K T) (Suc n) st1" using s1(2) T1 False by (simp add: ins_box_def Let_def)
    then show ?thesis by (rule that [rotated]) (use True False s1 c' fr in simp_all)
  next
    case mark: True
    have tx: "text_ok (''@'' @ to_string (ins_acc K))" using text_ok_mark [OF sc(6)] by simp
    have nz: "int ?u \<noteq> 0" by simp
    obtain st2 where s2: "srch_write H kw (int ?u) (w_srch K) 1 (''@'' @ to_string (ins_acc K)) st1 = Inr st2"
      "hmaps H ms Mu ?Mc (T1(bbid kw (int ?u) (w_srch K) 1 \<mapsto> ''@'' @ to_string (ins_acc K))) n st2"
      by (rule srch_write_step [OF s1(2) kw d sc(2) nz sc(3) int32_1(2) tx])
    have "hmaps H ms Mu ?Mc (ins_box kw x K T) n st2" using s2(2) T1 True mark by (simp add: ins_box_def Let_def)
    then show ?thesis by (rule that [rotated]) (use True mark s1 s2(1) c' fr in simp_all)
  qed
qed

lemma to_string_not_removed: "0 \<le> n \<Longrightarrow> to_string n \<noteq> ''-1''"
  using to_string_no_dash [of n] by force

lemma ins_updt_frame: "hkw kw \<Longrightarrow> hkw kw' \<Longrightarrow> kw' \<noteq> kw \<Longrightarrow> kw_wf b K \<Longrightarrow> b < 10000 \<Longrightarrow> int32 x \<Longrightarrow>
    same_kw kw' Mu Mc T Mu' Mc' T' \<Longrightarrow> same_kw kw' Mu Mc T (ins_updt kw x K Mu') Mc' T'"
  unfolding ins_updt_def Let_def using small_counts(2) by (intro same_kw_updt) auto

lemma ins_box_frame: "hkw kw \<Longrightarrow> hkw kw' \<Longrightarrow> kw' \<noteq> kw \<Longrightarrow> kw_wf b K \<Longrightarrow> b < 10000 \<Longrightarrow>
    same_kw kw' Mu Mc T Mu' Mc' T' \<Longrightarrow> same_kw kw' Mu Mc T Mu' Mc' (ins_box kw x K T')"
  unfolding ins_box_def Let_def using small_counts [of b K] int32_1 by (auto intro!: same_kw_box)

lemma same_kw_trans: "same_kw kw Mu Mc T Mu' Mc' T' \<Longrightarrow> same_kw kw Mu' Mc' T' Mu'' Mc'' T'' \<Longrightarrow> same_kw kw Mu Mc T Mu'' Mc'' T''"
  by (simp add: same_kw_def)

lemma Horus_insert_present:
  assumes hm: "hmaps H ms Mu Mc T n st" and H: "henv_ok H" and kw: "hkw kw" and K: "kw_state b kw K Mu Mc T" "b < 10000"
    and x: "x \<in> set (w_ids K)"
  obtains st' where "Horus_insert H kw x st = Inr st'" "hmaps H ms Mu Mc T n st'"
proof -
  obtain i where i: "i < length (w_ids K)" "w_ids K ! i = x" using x by (meson in_set_conv_nth)
  have "\<forall>u. 1 \<le> u \<and> u \<le> length (w_ids K) \<longrightarrow> Mu (ubid 0 kw (w_ids K ! (u - 1))) = Some (show_hash (int u) (sl_acc (w_slot K u)))"
    using K(1) by (simp add: kw_state_def ind_rep_def)
  from this [rule_format, of "Suc i"] have g: "Mu (ubid 0 kw x) = Some (show_hash (int (Suc i)) (sl_acc (w_slot K (Suc i))))"
    using i by simp
  obtain st1 where s1: "updt_find H (ubid 0 kw x) st = Inr (show_hash (int (Suc i)) (sl_acc (w_slot K (Suc i))), st1)" "hmaps H ms Mu Mc T n st1"
    using updt_find_step [OF hm H] kw g by (metis bid_wf_keys(2) opt_text_simps(6))
  have "show_hash (int (Suc i)) (sl_acc (w_slot K (Suc i))) \<noteq> []" by (simp add: show_hash_def)
  then have "Horus_insert H kw x st = Inr st1"
    using s1(1) createBid_prefix_eq [OF kw] split_hash [OF H] to_string_not_removed [of "int (Suc i)"]
    by (simp add: Horus_insert_def Let_def del: of_nat_Suc)
  then show ?thesis using that s1(2) by blast
qed

lemma Horus_insert_absent:
  assumes hm: "hmaps H ms Mu Mc T (Suc (Suc n)) st" and H: "henv_ok H" and kw: "hkw kw" and wf: "kw_wf b K" "b < 9990"
    and c: "cnt_rep kw K (int (length (w_ids K))) Mc \<or> K = no_ids \<and> (\<forall>k\<in>{1..5}. Mc (cbid kw k) = None)"
    and r: "slot_rep kw K Mu" "ind_rep kw K Mu"
    and x: "int32 x" "x \<notin> set (w_ids K)" and d: "hdepth ms \<noteq> 0"
    and W: "finite W" "kw \<in> W" "dom Mc \<subseteq> ckeys W" "hroom (h_E H) ms (5 * card W)"
    and U: "finite (dom Mu)" "hroom (h_E H) (ms * INC_FACTOR) (card (dom Mu) + 2)"
  obtains st' Mc' n' where "Horus_insert H kw x st = Inr st'"
    "hmaps H ms (ins_updt kw x K Mu) Mc' (ins_box kw x K T) n' st'" "n \<le> n'"
    "cnt_rep kw (kw_insert x K) (int (length (w_ids K)) + 1) Mc'" "dom Mc' \<subseteq> ckeys W"
    "\<And>kw'. hkw kw' \<Longrightarrow> kw' \<noteq> kw \<Longrightarrow> same_kw kw' Mu Mc T (ins_updt kw x K Mu) Mc' (ins_box kw x K T)"
proof -
  let ?u = "Suc (length (w_ids K))" and ?a = "ins_acc K"
  have b: "b < 10000" using wf(2) by simp
  note sc = small_counts [OF wf(1) b]
  have a4: "?a < 10000" using ins_acc_bounds(2) [OF wf(1)] kw_wfD(10) [OF wf(1)] wf(2) by simp
  have g: "shown (Mu (ubid 0 kw x)) = [] \<or> (\<exists>k. shown (Mu (ubid 0 kw x)) = ''-1#'' @ to_string k)"
  proof (cases "x \<in> w_seen K")
    case True
    then have "\<exists>k. Mu (ubid 0 kw x) = Some (''-1#'' @ to_string k)" using r(2) x unfolding ind_rep_def by blast
    then obtain k where "Mu (ubid 0 kw x) = Some (''-1#'' @ to_string k)" by blast
    then show ?thesis unfolding shown_def by (metis option.case(2))
  next
    case False
    then have "Mu (ubid 0 kw x) = None" using r(2) x unfolding ind_rep_def by blast
    then show ?thesis by simp
  qed
  obtain st1 where s1: "updt_find H (ubid 0 kw x) st = Inr (shown (Mu (ubid 0 kw x)), st1)" "hmaps H ms Mu Mc T (Suc (Suc n)) st1"
    using updt_find_step [OF hm H] kw by (metis bid_wf_keys(2))
  obtain st2 st3 Mc3 where s3: "insert_counters H kw st1 = Inr ((int (length (w_ids K)), w_srch K, int (w_latest K)), st2)"
    "access_counter H kw st2 = Inr (w_access K, st3)" "hmaps H ms Mu Mc3 T (Suc (Suc n)) st3"
    "cnt_rep kw K (int (length (w_ids K)) + 1) Mc3" "dom Mc3 \<subseteq> ckeys W"
    "\<And>kw'. hkw kw' \<Longrightarrow> kw' \<noteq> kw \<Longrightarrow> same_kw kw' Mu Mc T Mu Mc3 T"
    by (rule counters_ready [OF s1(2) H kw wf(1) b c W]) blast
  obtain st4 Mc4 where s4: "slot_access H kw (w_access K) (ubid 1 kw (int ?u)) st3 = Inr (?a, st4)" "hmaps H ms Mu Mc4 T (Suc (Suc n)) st4"
    "cnt_rep kw (K\<lparr>w_access := max (w_access K) ?a\<rparr>) (int (length (w_ids K)) + 1) Mc4" "dom Mc4 \<subseteq> ckeys W"
    "\<And>kw'. hkw kw' \<Longrightarrow> kw' \<noteq> kw \<Longrightarrow> same_kw kw' Mu Mc3 T Mu Mc4 T"
    by (rule slot_access_ready [OF s3(3) H kw wf(1) b r(1) s3(4) W(1,2) s3(5) W(4)]) blast
  let ?M1 = "Mu(ubid 0 kw x \<mapsto> show_hash (int ?u) ?a)"
  have cu: "card (insert (ubid 0 kw x) (dom Mu)) \<le> card (dom Mu) + 2" "card (insert (ubid 1 kw (int ?u)) (dom ?M1)) \<le> card (dom Mu) + 2"
    using U(1) by (simp_all add: card_insert_if)
  obtain st5 where s5: "updt_insert H (ubid 0 kw x) (show_hash (int ?u) ?a) st4 = Inr st5" "hmaps H ms ?M1 Mc4 T (Suc (Suc n)) st5"
    by (rule updt_insert_step [OF s4(2) H _ _ text_ok_hash [OF sc(2,10) a4] hroom_mono [OF U(2) cu(1)]]) (use kw in simp_all)
  obtain st6 where s6: "updt_insert H (ubid 1 kw (int ?u)) (show_hash x ?a) st5 = Inr st6" "hmaps H ms (ins_updt kw x K Mu) Mc4 T (Suc (Suc n)) st6"
    by (rule updt_insert_step [OF s5(2) H _ _ text_ok_hash [OF x(1) sc(10) a4] hroom_mono [OF U(2) cu(2)]]) (use kw in \<open>simp_all add: ins_updt_def Let_def\<close>)
  let ?T1 = "T(bbid kw (int ?u) (w_srch K) ?a \<mapsto> to_string x)"
  have nz: "int ?u \<noteq> 0" by simp
  obtain st7 where s7: "srch_write H kw (int ?u) (w_srch K) ?a (to_string x) st6 = Inr st7" "hmaps H ms (ins_updt kw x K Mu) Mc4 ?T1 (Suc n) st7"
    by (rule srch_write_step [OF s6(2) kw d sc(2) nz sc(3,6) text_ok_to_string [OF x(1)]])
  obtain st8 Mc8 n8 where s8: "(if int (w_latest K) < int ?u then
        ebind (cnt_insert H kw ''latestUpdatedCounter'' (to_string (int (w_latest K) + 1)) st7) (\<lambda>st.
        if 1 < ?a then srch_write H kw (int ?u) (w_srch K) 1 (''@'' @ to_string ?a) st else Inr st)
      else Inr st7) = Inr st8" "hmaps H ms (ins_updt kw x K Mu) Mc8 (ins_box kw x K T) n8 st8" "n \<le> n8" "dom Mc8 \<subseteq> ckeys W"
    "cnt_rep kw (K\<lparr>w_access := max (w_access K) ?a, w_latest := max (w_latest K) ?u\<rparr>) (int (length (w_ids K)) + 1) Mc8"
    "\<And>kw'. hkw kw' \<Longrightarrow> kw' \<noteq> kw \<Longrightarrow> same_kw kw' (ins_updt kw x K Mu) Mc4 T (ins_updt kw x K Mu) Mc8 T"
    by (rule insert_latest [OF kw wf(1) b d refl s7(2) H s4(3) W(1,2) s4(4) W(4)]) blast
  let ?Mc = "Mc8(cbid kw 4 \<mapsto> to_string x)"
  obtain st9 where s9: "cnt_insert H kw ''LastIND'' (to_string x) st8 = Inr st9" "hmaps H ms (ins_updt kw x K Mu) ?Mc (ins_box kw x K T) n8 st9" "dom ?Mc \<subseteq> ckeys W"
    by (rule cnt_insert_room [OF s8(2) H kw tags(4) text_ok_to_string [OF x(1)] W(1,2) s8(4) W(4)])
  have cond: "shown (Mu (ubid 0 kw x)) = [] \<or> h_split H (shown (Mu (ubid 0 kw x))) \<noteq> [] \<and> hd (h_split H (shown (Mu (ubid 0 kw x)))) = ''-1''"
    using g split_removed [OF H] by auto
  have e: "int (length (w_ids K)) + 1 = int ?u" by simp
  have A: "Horus_insert H kw x st = Inr st9"
    by (simp only: Horus_insert_def Let_def createBid_prefix_eq [OF kw] ebind.simps prod.case s1(1) cond if_True simp_thms
        s3(1,2) e s4(1) s5(1) s6(1) s7(1) s8(1) s9(1))
  have B: "cnt_rep kw (kw_insert x K) (int (length (w_ids K)) + 1) ?Mc"
    using s8(5) cbid_neq [OF kw] int32_1 by (simp add: cnt_rep_def)
  have C: "same_kw kw' Mu Mc T (ins_updt kw x K Mu) ?Mc (ins_box kw x K T)" if k: "hkw kw'" "kw' \<noteq> kw" for kw'
  proof -
    have "same_kw kw' Mu Mc T Mu Mc4 T" by (rule same_kw_trans [OF s3(6) [OF k] s4(5) [OF k]])
    then have "same_kw kw' Mu Mc T Mu Mc8 T" using s8(6) [OF k] by (simp add: same_kw_def)
    then have "same_kw kw' Mu Mc T Mu ?Mc T" by (rule same_kw_cnt [OF _ k(1) kw k(2) int32_1(5)])
    then show ?thesis by (intro ins_box_frame [OF kw k wf(1) b] ins_updt_frame [OF kw k wf(1) b x(1)])
  qed
  show ?thesis by (rule that [OF A s9(2) s8(3) B s9(3) C])
qed

end
