(* ===== verification/Horus_Remove.thy ===== *)
theory Horus_Remove
  imports Horus_Insert
begin

text \<open>
  The removal of Horus: the last identifier moves into the slot of the removed one, which gets a
  box under the next access count.
\<close>

section \<open>The state afterwards\<close>

definition kw_remove :: "nat \<Rightarrow> kwst \<Rightarrow> kwst" where
  "kw_remove p K =
     (if p = length (w_ids K) then K\<lparr>w_ids := butlast (w_ids K)\<rparr>
      else K\<lparr>w_ids := (butlast (w_ids K))[p - 1 := last (w_ids K)], w_access := max (w_access K) (sl_acc (w_slot K p) + 1),
             w_slot := (w_slot K)(p := add_to_slot (w_slot K p) (last (w_ids K)))\<rparr>)"

definition rem_updt :: "string \<Rightarrow> nat \<Rightarrow> kwst \<Rightarrow> (bid \<Rightarrow> string option) \<Rightarrow> (bid \<Rightarrow> string option)" where
  "rem_updt kw p K Mu =
     (let a = sl_acc (w_slot K p) + 1; li = last (w_ids K); M1 = Mu(ubid 0 kw (w_ids K ! (p - 1)) \<mapsto> ''-1#'' @ to_string a) in
      if p = length (w_ids K) then M1 else M1(ubid 0 kw li \<mapsto> show_hash (int p) a, ubid 1 kw (int p) \<mapsto> show_hash li a))"

definition rem_box :: "string \<Rightarrow> nat \<Rightarrow> kwst \<Rightarrow> (bid \<Rightarrow> string option) \<Rightarrow> (bid \<Rightarrow> string option)" where
  "rem_box kw p K T =
     (if p = length (w_ids K) then T
      else T(bbid kw (int p) (w_srch K) (sl_acc (w_slot K p) + 1) \<mapsto> to_string (last (w_ids K))))"

text \<open>A slot in use: its number, and what is known of it.\<close>

definition slot_of :: "kwst \<Rightarrow> nat \<Rightarrow> bool" where
  "slot_of K p \<longleftrightarrow> 1 \<le> p \<and> p \<le> length (w_ids K)"

lemma slot_ofD:
  assumes wf: "kw_wf b K" and p: "slot_of K p"
  shows "1 \<le> p" "p \<le> length (w_ids K)" "p - 1 < length (w_ids K)" "w_ids K \<noteq> []" "p \<le> w_latest K" "p \<le> w_top K"
    "1 \<le> sl_acc (w_slot K p)" "sl_acc (w_slot K p) \<le> w_access K" "hslot_ok (w_access K) (w_slot K p)"
    "sl_ind (w_slot K p) = w_ids K ! (p - 1)" "w_ids K ! (p - 1) \<in> set (w_ids K)" "int32 (w_ids K ! (p - 1))"
    "last (w_ids K) \<in> set (w_ids K)" "int32 (last (w_ids K))"
    "p \<noteq> length (w_ids K) \<Longrightarrow> last (w_ids K) \<noteq> w_ids K ! (p - 1)"
proof -
  note w = kw_wfD [OF wf]
  show 1: "1 \<le> p" "p \<le> length (w_ids K)" using p by (simp_all add: slot_of_def)
  then show 2: "p - 1 < length (w_ids K)" "w_ids K \<noteq> []" "p \<le> w_latest K" "p \<le> w_top K"
    using w(4,5) by auto
  show "1 \<le> sl_acc (w_slot K p)" "sl_acc (w_slot K p) \<le> w_access K" "hslot_ok (w_access K) (w_slot K p)" "sl_ind (w_slot K p) = w_ids K ! (p - 1)"
    using w(11,12,14,15) [of p] 1 2 by simp_all
  show "w_ids K ! (p - 1) \<in> set (w_ids K)" "last (w_ids K) \<in> set (w_ids K)" using 2 by simp_all
  then show "int32 (w_ids K ! (p - 1))" "int32 (last (w_ids K))" using w(2,3) by auto
  show "last (w_ids K) \<noteq> w_ids K ! (p - 1)" if "p \<noteq> length (w_ids K)"
    using that 1 2 w(1) by (simp add: last_conv_nth nth_eq_iff_index_eq)
qed

lemma snoc_ids: "xs \<noteq> [] \<Longrightarrow> xs = butlast xs @ [last xs]"
  by simp

lemma fill_gap:
  assumes "distinct xs" "i < length xs - 1"
  shows "set ((butlast xs)[i := last xs]) = set xs - {xs ! i}" "distinct ((butlast xs)[i := last xs])"
proof -
  let ?ys = "butlast xs" and ?l = "last xs"
  have "xs \<noteq> []" using assms(2) by auto
  then have x: "xs = ?ys @ [?l]" by simp
  have d: "distinct ?ys" "?l \<notin> set ?ys" using assms(1) x by (metis distinct_append, metis distinct_append disjoint_iff list.set_intros(1))
  have i: "i < length ?ys" "?ys ! i = xs ! i" using assms(2) by (simp_all add: nth_butlast)
  have "set (?ys[i := ?l]) = insert ?l (set ?ys - {?ys ! i})" by (rule set_update_distinct [OF d(1) i(1)])
  moreover have "set xs = insert ?l (set ?ys)" using x by (metis set_append list.simps(15) Un_insert_right sup_bot_right empty_set)
  moreover have "xs ! i \<noteq> ?l" using d(2) i by (metis nth_mem)
  ultimately show "set ((butlast xs)[i := last xs]) = set xs - {xs ! i}" using i(2) by auto
  show "distinct ((butlast xs)[i := last xs])" by (rule distinct_list_update [OF d(1)]) (use d(2) in auto)
qed

lemma kw_remove_ids:
  assumes wf: "kw_wf b K" and p: "slot_of K p"
  shows "set (w_ids (kw_remove p K)) = set (w_ids K) - {w_ids K ! (p - 1)}" "distinct (w_ids (kw_remove p K))"
    "length (w_ids (kw_remove p K)) = length (w_ids K) - 1"
proof -
  note s = slot_ofD [OF wf p] and d = kw_wfD(1) [OF wf]
  have "set (w_ids (kw_remove p K)) = set (w_ids K) - {w_ids K ! (p - 1)} \<and> distinct (w_ids (kw_remove p K))"
  proof (cases "p = length (w_ids K)")
    case True
    have x: "w_ids K = butlast (w_ids K) @ [last (w_ids K)]" using s(4) by simp
    have "w_ids K ! (p - 1) = last (w_ids K)" using True s(4) by (simp add: last_conv_nth)
    moreover have "distinct (butlast (w_ids K))" "last (w_ids K) \<notin> set (butlast (w_ids K))"
      using d x by (metis distinct_append, metis distinct_append disjoint_iff list.set_intros(1))
    moreover have "set (w_ids K) = insert (last (w_ids K)) (set (butlast (w_ids K)))"
      using x by (metis set_append list.simps(15) Un_insert_right sup_bot_right empty_set)
    ultimately show ?thesis using True by (auto simp: kw_remove_def)
  next
    case False
    then have "p - 1 < length (w_ids K) - 1" using s(1,2) by linarith
    then show ?thesis using fill_gap [OF d] False by (simp add: kw_remove_def)
  qed
  then show "set (w_ids (kw_remove p K)) = set (w_ids K) - {w_ids K ! (p - 1)}" "distinct (w_ids (kw_remove p K))" by simp_all
  show "length (w_ids (kw_remove p K)) = length (w_ids K) - 1" by (simp add: kw_remove_def)
qed

lemma kw_remove_nth:
  assumes wf: "kw_wf b K" and p: "slot_of K p" and u: "1 \<le> u" "u \<le> length (w_ids K) - 1"
  shows "w_ids (kw_remove p K) ! (u - 1) = (if u = p then last (w_ids K) else w_ids K ! (u - 1))"
  using u slot_ofD(1,2) [OF wf p] by (auto simp: kw_remove_def nth_butlast nth_list_update)

lemma kw_remove_sel [simp]:
  "w_seen (kw_remove p K) = w_seen K" "w_srch (kw_remove p K) = w_srch K" "w_latest (kw_remove p K) = w_latest K"
  "w_top (kw_remove p K) = w_top K"
  "w_access (kw_remove p K) = (if p = length (w_ids K) then w_access K else max (w_access K) (sl_acc (w_slot K p) + 1))"
  "w_slot (kw_remove p K) u = (if u = p \<and> p \<noteq> length (w_ids K) then add_to_slot (w_slot K p) (last (w_ids K)) else w_slot K u)"
  by (simp_all add: kw_remove_def)

lemma kw_remove_wf:
  assumes wf: "kw_wf b K" and p: "slot_of K p"
  shows "kw_wf (Suc b) (kw_remove p K)"
proof -
  note w = kw_wfD [OF wf] and s = slot_ofD [OF wf p] and r = kw_remove_ids [OF wf p] and n = kw_remove_nth [OF wf p]
  let ?K = "kw_remove p K"
  have 1: "1 \<le> sl_acc (w_slot ?K u) \<and> sl_acc (w_slot ?K u) \<le> w_access ?K \<and> int32 (sl_ind (w_slot ?K u))" if "1 \<le> u" "u \<le> w_top K" for u
    using w(11,12,13) [OF that] s(7,14) by (auto simp: le_max_iff_disj)
  have 2: "hslot_ok (w_access ?K) (w_slot ?K u)" if "1 \<le> u" "u \<le> w_latest K" for u
    using w(14) [OF that] hslot_ok_mono add_to_slot_ok [OF s(9,14), of "w_access ?K"] by (auto simp: le_max_iff_disj)
  have 3: "sl_ind (w_slot ?K u) = w_ids ?K ! (u - 1)" if "1 \<le> u" "u \<le> length (w_ids ?K)" for u
    using that n [of u] w(15) [of u] r(3) s(1,2) by auto
  have 4: "set (w_ids ?K) \<subseteq> w_seen K" "length (w_ids ?K) \<le> w_latest K" "w_access ?K \<le> int b + 2" "1 \<le> w_access ?K"
    using r w(2,4,9,10) s(8) by auto
  show ?thesis unfolding kw_wf_def kw_remove_sel(1-4) using w(3,5,6,7,8) r(2) 1 2 3 4 by auto
qed

lemma rem_slot_rep:
  assumes wf: "kw_wf b K" "b < 10000" and p: "slot_of K p" and kw: "hkw kw" and r: "slot_rep kw K Mu"
  shows "slot_rep kw (kw_remove p K) (rem_updt kw p K Mu)"
  unfolding slot_rep_def
proof (intro allI impI)
  fix v :: int assume v: "int32 v \<and> 1 \<le> v"
  note s = slot_ofD [OF wf(1) p] and sc = small_counts [OF wf]
  have ip: "int32 (int p)" using s(2) sc(1) by (simp add: int32_def)
  have k: "ubid 1 kw v \<noteq> ubid 0 kw i" if "int32 i" for i using v kw that by (simp add: ubid_inj)
  have k2: "ubid 1 kw v = ubid 1 kw (int p) \<longleftrightarrow> v = int p" using v kw ip by (simp add: ubid_inj)
  have old: "Mu (ubid 1 kw v) = (if v \<le> int (w_top K) then Some (show_hash (sl_ind (w_slot K (nat v))) (sl_acc (w_slot K (nat v)))) else None)"
    using r v by (simp add: slot_rep_def)
  show "rem_updt kw p K Mu (ubid 1 kw v) = (if v \<le> int (w_top (kw_remove p K))
      then Some (show_hash (sl_ind (w_slot (kw_remove p K) (nat v))) (sl_acc (w_slot (kw_remove p K) (nat v)))) else None)"
  proof (cases "v = int p \<and> p \<noteq> length (w_ids K)")
    case True
    then show ?thesis using s(6) by (simp add: rem_updt_def Let_def)
  next
    case False
    have "nat v = p \<longleftrightarrow> v = int p" using v by auto
    moreover have "rem_updt kw p K Mu (ubid 1 kw v) = Mu (ubid 1 kw v)"
      using False k [OF s(12)] k [OF s(14)] k2 by (auto simp: rem_updt_def Let_def)
    ultimately show ?thesis using old False by auto
  qed
qed

lemma rem_ind_rep:
  assumes wf: "kw_wf b K" "b < 10000" and p: "slot_of K p" and kw: "hkw kw" and r: "ind_rep kw K Mu"
  shows "ind_rep kw (kw_remove p K) (rem_updt kw p K Mu)"
proof -
  let ?n = "length (w_ids K)" and ?x = "w_ids K ! (p - 1)" and ?li = "last (w_ids K)" and ?a = "sl_acc (w_slot K p) + 1"
  let ?K = "kw_remove p K" and ?M = "rem_updt kw p K Mu"
  note w = kw_wfD [OF wf(1)] and s = slot_ofD [OF wf(1) p] and sc = small_counts [OF wf] and ids = kw_remove_ids [OF wf(1) p]
  have ip: "int32 (int p)" using s(2) sc(1) by (simp add: int32_def)
  have k: "?M (ubid 0 kw i) = (if p \<noteq> ?n \<and> i = ?li then Some (show_hash (int p) ?a)
      else if i = ?x then Some (''-1#'' @ to_string ?a) else Mu (ubid 0 kw i))" if "int32 i" for i
    using that kw s(12,14) ip by (auto simp: rem_updt_def Let_def ubid_inj)
  have use: "w_ids K ! (u - 1) \<in> set (w_ids K)" "int32 (w_ids K ! (u - 1))" if "1 \<le> u" "u \<le> ?n" for u
    using slot_ofD(11,12) [OF wf(1), of u] that by (simp_all add: slot_of_def)
  have 1: "?M (ubid 0 kw (w_ids ?K ! (u - 1))) = Some (show_hash (int u) (sl_acc (w_slot ?K u)))"
    if u: "1 \<le> u" "u \<le> length (w_ids ?K)" for u
  proof -
    have u': "u \<le> ?n - 1" "u \<le> ?n" "u \<noteq> ?n" using u ids(3) s(1,2) by linarith+
    have old: "Mu (ubid 0 kw (w_ids K ! (u - 1))) = Some (show_hash (int u) (sl_acc (w_slot K u)))"
      using r u(1) u'(2) by (simp add: ind_rep_def)
    note nth = kw_remove_nth [OF wf(1) p u(1) u'(1)]
    show ?thesis
    proof (cases "u = p")
      case True
      then show ?thesis unfolding nth using k [OF s(14)] u'(3) by simp
    next
      case False
      have "w_ids K ! (u - 1) \<noteq> ?x" "w_ids K ! (u - 1) \<noteq> ?li"
        using False u(1) u'(2,3) s(1,2,4) w(1) by (auto simp: last_conv_nth nth_eq_iff_index_eq)
      then show ?thesis unfolding nth using k [OF use(2) [OF u(1) u'(2)]] False old by simp
    qed
  qed
  have 2: "\<exists>k. ?M (ubid 0 kw i) = Some (''-1#'' @ to_string k)" if i: "i \<in> w_seen K - set (w_ids ?K)" for i
  proof (cases "i = ?x")
    case True
    then show ?thesis using k [OF s(12)] s(15) by auto
  next
    case False
    then have "i \<in> w_seen K - set (w_ids K)" using i ids(1) by auto
    moreover from this have "i \<noteq> ?li" "int32 i" using s(13) w(3) by auto
    ultimately show ?thesis using k [of i] False r unfolding ind_rep_def by auto
  qed
  have 3: "?M (ubid 0 kw i) = None" if "int32 i" "i \<notin> w_seen K" for i
  proof -
    have "i \<noteq> ?x" "i \<noteq> ?li" using that(2) w(2) s(11,13) by auto
    then show ?thesis using k [OF that(1)] r that by (simp add: ind_rep_def)
  qed
  show ?thesis unfolding ind_rep_def kw_remove_sel(1) using 1 2 3 by blast
qed

lemma rem_box_rep:
  assumes wf: "kw_wf b K" "b < 9990" and p: "slot_of K p" and kw: "hkw kw" and r: "box_rep kw K T"
  shows "box_rep kw (kw_remove p K) (rem_box kw p K T)"
  unfolding box_rep_def
proof (intro allI impI)
  fix v s c :: int
  assume a: "int32 v \<and> int32 s \<and> int32 c \<and> 1 \<le> v \<and> 1 \<le> c \<and> w_srch (kw_remove p K) \<le> s"
  let ?d = "w_slot K p"
  have b: "b < 10000" using wf(2) by simp
  note w = kw_wfD [OF wf(1)] and sl = slot_ofD [OF wf(1) p] and sc = small_counts [OF wf(1) b]
  have i: "int32 (int p)" "int32 (sl_acc ?d + 1)" using sl(2,7,8) sc(1) w(10) wf(2) by (simp_all add: int32_def)
  have k: "bbid kw v s c = bbid kw (int p) (w_srch K) (sl_acc ?d + 1) \<longleftrightarrow> v = int p \<and> s = w_srch K \<and> c = sl_acc ?d + 1"
    using a kw i sc(3) by (simp add: bbid_inj)
  have old: "T (bbid kw v s c) = (if s = w_srch K \<and> v \<le> int (w_latest K) then opt_text (answer (w_slot K (nat v)) c) else None)"
    using r a by (simp add: box_rep_def)
  show "rem_box kw p K T (bbid kw v s c) = (if s = w_srch (kw_remove p K) \<and> v \<le> int (w_latest (kw_remove p K))
      then opt_text (answer (w_slot (kw_remove p K) (nat v)) c) else None)"
  proof (cases "v = int p \<and> s = w_srch K \<and> p \<noteq> length (w_ids K)")
    case True
    then have v: "nat v = p" "v \<le> int (w_latest K)" using sl(5) by simp_all
    have "rem_box kw p K T (bbid kw v s c) = opt_text (answer (add_to_slot ?d (last (w_ids K))) c)"
      using k True old v unfolding answer_add_to_slot [OF sl(9)] by (simp add: rem_box_def)
    moreover have "w_slot (kw_remove p K) (nat v) = add_to_slot ?d (last (w_ids K))" using True v(1) by simp
    ultimately show ?thesis using True v(2) by (simp only: kw_remove_sel(2,3) simp_thms if_True)
  next
    case False
    have "rem_box kw p K T (bbid kw v s c) = T (bbid kw v s c)" using k False by (auto simp: rem_box_def)
    moreover have "s = w_srch K \<Longrightarrow> w_slot (kw_remove p K) (nat v) = w_slot K (nat v)" using False a by auto
    ultimately show ?thesis using old by auto
  qed
qed

section \<open>The operation\<close>

lemma rem_updt_frame:
  assumes "hkw kw" "hkw kw'" "kw' \<noteq> kw" "kw_wf b K" "b < 10000" "slot_of K p" "same_kw kw' Mu Mc T Mu' Mc' T'"
  shows "same_kw kw' Mu Mc T (rem_updt kw p K Mu') Mc' T'"
proof -
  note s = slot_ofD [OF assms(4,6)]
  have "int32 (int p)" using s(2) small_counts(1) [OF assms(4,5)] by (simp add: int32_def)
  then show ?thesis unfolding rem_updt_def Let_def using assms s(12,14) by (auto intro!: same_kw_updt)
qed

lemma rem_box_frame:
  assumes "hkw kw" "hkw kw'" "kw' \<noteq> kw" "kw_wf b K" "b < 9990" "slot_of K p" "same_kw kw' Mu Mc T Mu' Mc' T'"
  shows "same_kw kw' Mu Mc T Mu' Mc' (rem_box kw p K T')"
proof -
  have b: "b < 10000" using assms(5) by simp
  note s = slot_ofD [OF assms(4,6)] and sc = small_counts [OF assms(4) b]
  have "int32 (int p)" "int32 (sl_acc (w_slot K p) + 1)"
    using s(2,7,8) sc(1) kw_wfD(10) [OF assms(4)] assms(5) by (simp_all add: int32_def)
  then show ?thesis unfolding rem_box_def using assms sc(3) by (auto intro!: same_kw_box)
qed

text \<open>The move of the last identifier.\<close>

lemma move_last_ready:
  assumes hm: "hmaps H ms Mu Mc T (Suc n) st" and H: "henv_ok H" and kw: "hkw kw" and wf: "kw_wf b K" "b < 9990"
    and p: "slot_of K p" "p \<noteq> length (w_ids K)" and d: "hdepth ms \<noteq> 0" and c: "cnt_rep kw K cnt Mc"
    and W: "finite W" "kw \<in> W" "dom Mc \<subseteq> ckeys W" "hroom (h_E H) ms (5 * card W)"
    and U: "ubid 0 kw (last (w_ids K)) \<in> dom Mu" "ubid 1 kw (int p) \<in> dom Mu" "hroom (h_E H) (ms * INC_FACTOR) (card (dom Mu))"
  obtains st' Mc' where
    "move_last H kw (int p) (w_srch K) (sl_acc (w_slot K p)) (last (w_ids K)) st = Inr st'"
    "hmaps H ms (Mu(ubid 0 kw (last (w_ids K)) \<mapsto> show_hash (int p) (sl_acc (w_slot K p) + 1),
        ubid 1 kw (int p) \<mapsto> show_hash (last (w_ids K)) (sl_acc (w_slot K p) + 1))) Mc' (rem_box kw p K T) n st'"
    "cnt_rep kw (K\<lparr>w_access := max (w_access K) (sl_acc (w_slot K p) + 1)\<rparr>) cnt Mc'" "dom Mc' \<subseteq> ckeys W"
    "\<And>kw'. hkw kw' \<Longrightarrow> kw' \<noteq> kw \<Longrightarrow> same_kw kw' Mu Mc T Mu Mc' T"
proof -
  let ?a = "sl_acc (w_slot K p) + 1" and ?li = "last (w_ids K)"
  have b: "b < 10000" using wf(2) by simp
  note w = kw_wfD [OF wf(1)] and s = slot_ofD [OF wf(1) p(1)] and sc = small_counts [OF wf(1) b]
  have i: "int32 (int p)" "int32 ?a" "0 \<le> ?a" "?a < 10000" "int p \<noteq> 0"
    using s(1,2,7,8) sc(1) w(10) wf(2) by (simp_all add: int32_def)
  have g: "shown (Mc (cbid kw 3)) = to_string (w_access K)" using c by (simp add: cnt_rep_def)
  obtain st1 where s1: "cnt_find H kw ''Access'' st = Inr (to_string (w_access K), st1)" "hmaps H ms Mu Mc T (Suc n) st1"
    using cnt_find_step [OF hm H kw tags(3)] unfolding g by metis
  have "\<exists>st2 Mc'. (if w_access K < ?a then cnt_insert H kw ''Access'' (to_string ?a) st1 else Inr st1) = Inr st2 \<and>
      hmaps H ms Mu Mc' T (Suc n) st2 \<and> cnt_rep kw (K\<lparr>w_access := max (w_access K) ?a\<rparr>) cnt Mc' \<and> dom Mc' \<subseteq> ckeys W \<and>
      (\<forall>kw'. hkw kw' \<and> kw' \<noteq> kw \<longrightarrow> same_kw kw' Mu Mc T Mu Mc' T)"
  proof (cases "w_access K < ?a")
    case False
    then show ?thesis using s1(2) c W(3) by (intro exI [of _ st1] exI [of _ Mc]) (simp add: same_kw_refl)
  next
    case True
    let ?Mc = "Mc(cbid kw 3 \<mapsto> to_string ?a)"
    obtain st2 where s2: "cnt_insert H kw ''Access'' (to_string ?a) st1 = Inr st2" "hmaps H ms Mu ?Mc T (Suc n) st2" "dom ?Mc \<subseteq> ckeys W"
      by (rule cnt_insert_room [OF s1(2) H kw tags(3) text_ok_to_string [OF i(2)] W])
    have "cnt_rep kw (K\<lparr>w_access := max (w_access K) ?a\<rparr>) cnt ?Mc" using c True cbid_neq [OF kw] int32_1 by (simp add: cnt_rep_def)
    moreover have "same_kw kw' Mu Mc T Mu ?Mc T" if "hkw kw'" "kw' \<noteq> kw" for kw'
      by (rule same_kw_cnt [OF same_kw_refl that(1) kw that(2) int32_1(4)])
    ultimately show ?thesis using s2 True by (intro exI [of _ st2] exI [of _ ?Mc]) simp
  qed
  then obtain st2 Mc' where s2: "(if w_access K < ?a then cnt_insert H kw ''Access'' (to_string ?a) st1 else Inr st1) = Inr st2"
      "hmaps H ms Mu Mc' T (Suc n) st2" "cnt_rep kw (K\<lparr>w_access := max (w_access K) ?a\<rparr>) cnt Mc'" "dom Mc' \<subseteq> ckeys W"
      "\<And>kw'. hkw kw' \<Longrightarrow> kw' \<noteq> kw \<Longrightarrow> same_kw kw' Mu Mc T Mu Mc' T" by blast
  obtain st3 where s3: "srch_write H kw (int p) (w_srch K) ?a (to_string ?li) st2 = Inr st3" "hmaps H ms Mu Mc' (rem_box kw p K T) n st3"
    using srch_write_step [OF s2(2) kw d i(1,5) sc(3) i(2) text_ok_to_string [OF s(14)]] p(2) by (metis rem_box_def)
  have cu: "card (insert (ubid 0 kw ?li) (dom Mu)) \<le> card (dom Mu)" using U(1) by (simp add: insert_absorb)
  let ?M1 = "Mu(ubid 0 kw ?li \<mapsto> show_hash (int p) ?a)"
  have cu2: "card (insert (ubid 1 kw (int p)) (dom ?M1)) \<le> card (dom Mu)" using U(1,2) by (simp add: insert_absorb)
  obtain st4 where s4: "updt_insert H (ubid 0 kw ?li) (show_hash (int p) ?a) st3 = Inr st4" "hmaps H ms ?M1 Mc' (rem_box kw p K T) n st4"
    by (rule updt_insert_step [OF s3(2) H _ _ text_ok_hash [OF i(1,3,4)] hroom_mono [OF U(3) cu]]) (use kw in simp_all)
  obtain st5 where s5: "updt_insert H (ubid 1 kw (int p)) (show_hash ?li ?a) st4 = Inr st5"
    "hmaps H ms (?M1(ubid 1 kw (int p) \<mapsto> show_hash ?li ?a)) Mc' (rem_box kw p K T) n st5"
    by (rule updt_insert_step [OF s4(2) H _ _ text_ok_hash [OF s(14) i(3,4)] hroom_mono [OF U(3) cu2]]) (use kw in simp_all)
  have A: "move_last H kw (int p) (w_srch K) (sl_acc (w_slot K p)) ?li st = Inr st5"
    by (simp only: move_last_def Let_def s1(1) ebind.simps prod.case stoi_to_string [OF sc(5)] s2(1) s3(1) createBid_prefix_eq [OF kw] s4(1) s5(1))
  show ?thesis by (rule that [OF A s5(2) s2(3,4,5)])
qed

lemma rem_updt_dom:
  assumes "slot_rep kw K Mu" "ind_rep kw K Mu" "kw_wf b K" "b < 10000" "slot_of K p"
  shows "ubid 0 kw (w_ids K ! (p - 1)) \<in> dom Mu" "ubid 0 kw (last (w_ids K)) \<in> dom Mu" "ubid 1 kw (int p) \<in> dom Mu"
    "dom (rem_updt kw p K Mu) = dom Mu"
proof -
  note s = slot_ofD [OF assms(3,5)] and sc = small_counts [OF assms(3,4)]
  have ind: "ubid 0 kw (w_ids K ! (u - 1)) \<in> dom Mu" if "1 \<le> u" "u \<le> length (w_ids K)" for u
    using assms(2) that unfolding ind_rep_def by blast
  show 1: "ubid 0 kw (w_ids K ! (p - 1)) \<in> dom Mu" by (rule ind [OF s(1,2)])
  have "1 \<le> length (w_ids K)" using s(1,2) by linarith
  from ind [OF this order_refl] show 2: "ubid 0 kw (last (w_ids K)) \<in> dom Mu" using s(4) by (simp add: last_conv_nth)
  have "int32 (int p)" using s(2) sc(1) by (simp add: int32_def)
  then show 3: "ubid 1 kw (int p) \<in> dom Mu" using assms(1) s(1,6) by (auto simp: slot_rep_def)
  show "dom (rem_updt kw p K Mu) = dom Mu" using 1 2 3 by (auto simp: rem_updt_def Let_def)
qed

text \<open>What follows the move: the identifier in the last slot is noted.\<close>

lemma remove_rest:
  assumes hm: "hmaps H ms Mu Mc T n st" and H: "henv_ok H" and kw: "hkw kw" and wf: "kw_wf b K" "b < 10000"
    and r: "slot_rep kw K Mu" and c: "cnt_rep kw (K\<lparr>w_ids := []\<rparr>) (int (length (w_ids K))) Mc" and ne: "w_ids K \<noteq> []"
    and W: "finite W" "kw \<in> W" "dom Mc \<subseteq> ckeys W" "hroom (h_E H) ms (5 * card W)"
  obtains st' where
    "ebind (updt_find H (ubid 1 kw (int (length (w_ids K)))) st) (\<lambda>(s, st).
     ebind (nth_or_error (h_split H s) 0) (\<lambda>t0. ebind (stoi t0) (\<lambda>li. cnt_insert H kw ''LastIND'' (to_string li) st))) = Inr st'"
    "hmaps H ms Mu (Mc(cbid kw 4 \<mapsto> to_string (last (w_ids K)))) T n st'"
    "cnt_rep kw K (int (length (w_ids K))) (Mc(cbid kw 4 \<mapsto> to_string (last (w_ids K))))"
    "dom (Mc(cbid kw 4 \<mapsto> to_string (last (w_ids K)))) \<subseteq> ckeys W"
proof -
  let ?n = "length (w_ids K)"
  note w = kw_wfD [OF wf(1)] and sc = small_counts [OF wf]
  have p: "slot_of K ?n" using ne by (simp add: slot_of_def Suc_le_eq)
  note s = slot_ofD [OF wf(1) p]
  have l: "last (w_ids K) = sl_ind (w_slot K ?n)" "int32 (last (w_ids K))" using s(10,14) ne by (simp_all add: last_conv_nth)
  have g: "Mu (ubid 1 kw (int ?n)) = Some (show_hash (last (w_ids K)) (sl_acc (w_slot K ?n)))"
    using r sc(1) s(1,6) l(1) by (simp add: slot_rep_def)
  obtain st1 where s1: "updt_find H (ubid 1 kw (int ?n)) st = Inr (show_hash (last (w_ids K)) (sl_acc (w_slot K ?n)), st1)" "hmaps H ms Mu Mc T n st1"
    using updt_find_step [OF hm H] kw g by (metis bid_wf_keys(2) opt_text_simps(6))
  obtain st2 where s2: "cnt_insert H kw ''LastIND'' (to_string (last (w_ids K))) st1 = Inr st2"
    "hmaps H ms Mu (Mc(cbid kw 4 \<mapsto> to_string (last (w_ids K)))) T n st2" "dom (Mc(cbid kw 4 \<mapsto> to_string (last (w_ids K)))) \<subseteq> ckeys W"
    by (rule cnt_insert_room [OF s1(2) H kw tags(4) text_ok_to_string [OF l(2)] W])
  have "cnt_rep kw K (int ?n) (Mc(cbid kw 4 \<mapsto> to_string (last (w_ids K))))"
    using c cbid_neq [OF kw] int32_1 by (simp add: cnt_rep_def)
  then show ?thesis using s1(1) s2 split_hash [OF H] l(2) by (intro that [of st2]) (simp_all add: nth_or_error_def)
qed

lemma Horus_remove_present:
  assumes hm: "hmaps H ms Mu Mc T (Suc n) st" and H: "henv_ok H" and kw: "hkw kw" and K: "kw_state b kw K Mu Mc T" and b: "b < 9990"
    and p: "slot_of K p" and d: "hdepth ms \<noteq> 0"
    and W: "finite W" "kw \<in> W" "dom Mc \<subseteq> ckeys W" "hroom (h_E H) ms (5 * card W)" and U: "hroom (h_E H) (ms * INC_FACTOR) (card (dom Mu))"
  obtains st' Mc' n' where "Horus_remove H kw (w_ids K ! (p - 1)) st = Inr st'"
    "hmaps H ms (rem_updt kw p K Mu) Mc' (rem_box kw p K T) n' st'" "n \<le> n'"
    "kw_state (Suc b) kw (kw_remove p K) (rem_updt kw p K Mu) Mc' (rem_box kw p K T)" "dom Mc' \<subseteq> ckeys W"
    "\<And>kw'. hkw kw' \<Longrightarrow> kw' \<noteq> kw \<Longrightarrow> same_kw kw' Mu Mc T (rem_updt kw p K Mu) Mc' (rem_box kw p K T)"
proof -
  let ?n = "length (w_ids K)" and ?x = "w_ids K ! (p - 1)" and ?li = "last (w_ids K)" and ?K = "kw_remove p K"
  let ?a = "sl_acc (w_slot K p)" and ?Mu = "rem_updt kw p K Mu" and ?T = "rem_box kw p K T"
  have k: "kw_wf b K" "cnt_rep kw K (int ?n) Mc" "slot_rep kw K Mu" "ind_rep kw K Mu" "box_rep kw K T" using K by (simp_all add: kw_state_def)
  have b': "b < 10000" using b by simp
  note w = kw_wfD [OF k(1)] and s = slot_ofD [OF k(1) p] and sc = small_counts [OF k(1) b'] and dm = rem_updt_dom [OF k(3,4,1) b' p]
  note ids = kw_remove_ids [OF k(1) p]
  have i: "int32 (int p)" "int32 ?a" "0 \<le> ?a + 1" "?a + 1 < 10000" "0 < int p"
    using s(1,2,7,8) sc(1) w(10) b by (simp_all add: int32_def)
  have g: "Mu (ubid 0 kw ?x) = Some (show_hash (int p) ?a)" using k(4) s(1,2) by (simp add: ind_rep_def)
  obtain st1 where s1: "updt_find H (ubid 0 kw ?x) st = Inr (show_hash (int p) ?a, st1)" "hmaps H ms Mu Mc T (Suc n) st1"
    using updt_find_step [OF hm H] kw g by (metis bid_wf_keys(2) opt_text_simps(6))
  let ?M1 = "Mu(ubid 0 kw ?x \<mapsto> ''-1#'' @ to_string (?a + 1))"
  have cu: "card (insert (ubid 0 kw ?x) (dom Mu)) \<le> card (dom Mu)" using dm(1) by (simp add: insert_absorb)
  obtain st2 where s2: "updt_insert H (ubid 0 kw ?x) (''-1#'' @ to_string (?a + 1)) st1 = Inr st2" "hmaps H ms ?M1 Mc T (Suc n) st2"
    by (rule updt_insert_step [OF s1(2) H _ _ text_ok_removed [OF i(3,4)] hroom_mono [OF U cu]]) (use kw in simp_all)
  let ?Mc = "Mc(cbid kw 1 \<mapsto> to_string (int ?n + - 1))"
  have m1: "Mc (cbid kw 1) = Some (to_string (int ?n))" "int32 (int ?n + - 1)" using k(2) sc(1) by (simp_all add: cnt_rep_def int32_def)
  obtain m where m: "horus_OMAP_decrementUpdtCnt (h_E H) (h_fuel H) (cbid kw 1) (hs_CNTs st2) = Inr (padded (to_string (int ?n)), m)"
    "hmaps H ms ?M1 ?Mc T (Suc n) (st2\<lparr>hs_CNTs := m\<rparr>)"
    using cnt_bump_step [OF s2(2) H kw m1(1) sc(1) m1(2)] unfolding horus_bumps by metis
  have c1: "cnt_rep kw K (int ?n - 1) ?Mc" using k(2) cbid_neq [OF kw] int32_1 by (simp add: cnt_rep_def)
  have W1: "dom ?Mc \<subseteq> ckeys W" using W(3) ckeys_in [OF W(2), of 1] by simp
  have fr1: "same_kw kw' Mu Mc T Mu ?Mc T" if "hkw kw'" "kw' \<noteq> kw" for kw'
    by (rule same_kw_cnt [OF same_kw_refl that(1) kw that(2) int32_1(2)])
  have wf': "kw_wf (Suc b) ?K" by (rule kw_remove_wf [OF k(1) p])
  have reps: "slot_rep kw ?K ?Mu" "ind_rep kw ?K ?Mu" "box_rep kw ?K ?T"
    by (rule rem_slot_rep [OF k(1) b' p kw k(3)], rule rem_ind_rep [OF k(1) b' p kw k(4)], rule rem_box_rep [OF k(1) b p kw k(5)])
  note result = that
  have fin: thesis if f: "Horus_remove H kw ?x st = Inr st'" "hmaps H ms ?Mu Mc' ?T n' st'" "n \<le> n'"
      "cnt_rep kw ?K (int (length (w_ids ?K))) Mc'" "dom Mc' \<subseteq> ckeys W"
      "\<And>kw'. hkw kw' \<Longrightarrow> kw' \<noteq> kw \<Longrightarrow> same_kw kw' Mu Mc T Mu Mc' T" for st' Mc' n'
  proof (rule result [OF f(1-3) _ f(5)])
    show "kw_state (Suc b) kw ?K ?Mu Mc' ?T" using wf' reps f(4) by (simp add: kw_state_def)
    show "same_kw kw' Mu Mc T ?Mu Mc' ?T" if k': "hkw kw'" "kw' \<noteq> kw" for kw'
      by (intro rem_box_frame [OF kw k' k(1) b p] rem_updt_frame [OF kw k' k(1) b' p] f(6) k')
  qed
  have start: "Horus_remove H kw ?x st = (if 0 < int ?n - 1 then
       ebind (cnt_find H kw ''SrchCnt'' (st2\<lparr>hs_CNTs := m\<rparr>)) (\<lambda>(s, st). ebind (stoi s) (\<lambda>srcCnt.
       ebind (cnt_find H kw ''LastIND'' st) (\<lambda>(s, st). ebind (stoi s) (\<lambda>lastind.
       ebind (if int ?n - 1 + 1 \<noteq> int p then move_last H kw (int p) srcCnt ?a lastind st else Inr st) (\<lambda>st.
       ebind (updt_find H (ubid 1 kw (int ?n - 1)) st) (\<lambda>(s, st).
       ebind (nth_or_error (h_split H s) 0) (\<lambda>t0. ebind (stoi t0) (\<lambda>li.
       cnt_insert H kw ''LastIND'' (to_string li) st))))))))
     else cnt_insert H kw ''LastIND'' [] (st2\<lparr>hs_CNTs := m\<rparr>))"
    using s1(1) s2(1) m(1) i(1,2,5) sc(1) split_hash [OF H]
    by (simp add: Horus_remove_def Let_def createBid_prefix_eq [OF kw] horus_getBid_eq [OF kw tags(1)] nth_or_error_def stoi_padded)
  show thesis
  proof (cases "?n = 1")
    case True
    then have p1: "p = ?n" "w_ids ?K = []" using s(1,2) ids(3) by simp_all
    have e: "?Mu = ?M1" "?T = T" using p1(1) by (simp_all add: rem_updt_def rem_box_def Let_def)
    let ?Mc' = "?Mc(cbid kw 4 \<mapsto> [])"
    have tx: "text_ok []" by (simp add: text_ok_def)
    obtain st3 where s3: "cnt_insert H kw ''LastIND'' [] (st2\<lparr>hs_CNTs := m\<rparr>) = Inr st3" "hmaps H ms ?M1 ?Mc' T (Suc n) st3" "dom ?Mc' \<subseteq> ckeys W"
      by (rule cnt_insert_room [OF m(2) H kw tags(4) tx W(1,2) W1 W(4)])
    have "cnt_rep kw ?K (int (length (w_ids ?K))) ?Mc'"
      using c1 True p1 cbid_neq [OF kw] int32_1 by (simp add: cnt_rep_def)
    moreover have "same_kw kw' Mu Mc T Mu ?Mc' T" if "hkw kw'" "kw' \<noteq> kw" for kw'
      by (rule same_kw_cnt [OF fr1 [OF that] that(1) kw that(2) int32_1(5)])
    moreover have "Horus_remove H kw ?x st = Inr st3" using start True s3(1) by simp
    ultimately show thesis using fin [of st3 ?Mc' "Suc n"] s3(2,3) e by simp
  next
    case False
    then have n1: "0 < int ?n - 1" "w_ids ?K \<noteq> []" "int (length (w_ids ?K)) = int ?n - 1"
      using s(1,2) ids(3) by (linarith, force, linarith)
    have gs: "shown (?Mc (cbid kw 2)) = to_string (w_srch K)" "shown (?Mc (cbid kw 4)) = to_string ?li"
      using c1 s(4) by (simp_all add: cnt_rep_def)
    obtain st3 where s3: "cnt_find H kw ''SrchCnt'' (st2\<lparr>hs_CNTs := m\<rparr>) = Inr (to_string (w_srch K), st3)" "hmaps H ms ?M1 ?Mc T (Suc n) st3"
      using cnt_find_step [OF m(2) H kw tags(2)] unfolding gs by metis
    obtain st4 where s4: "cnt_find H kw ''LastIND'' st3 = Inr (to_string ?li, st4)" "hmaps H ms ?M1 ?Mc T (Suc n) st4"
      using cnt_find_step [OF s3(2) H kw tags(4)] unfolding gs by metis
    have "\<exists>st5 Mc5 n5. (if int ?n - 1 + 1 \<noteq> int p then move_last H kw (int p) (w_srch K) ?a ?li st4 else Inr st4) = Inr st5 \<and>
        hmaps H ms ?Mu Mc5 ?T n5 st5 \<and> n \<le> n5 \<and> cnt_rep kw (K\<lparr>w_access := w_access ?K\<rparr>) (int ?n - 1) Mc5 \<and> dom Mc5 \<subseteq> ckeys W \<and>
        (\<forall>kw'. hkw kw' \<and> kw' \<noteq> kw \<longrightarrow> same_kw kw' Mu Mc T Mu Mc5 T)"
    proof (cases "p = ?n")
      case True
      then have e: "?Mu = ?M1" "?T = T" by (simp_all add: rem_updt_def rem_box_def Let_def)
      show ?thesis by (intro exI [of _ st4] exI [of _ ?Mc] exI [of _ "Suc n"]) (use True e s4(2) c1 W1 fr1 in simp)
    next
      case ne: False
      have dm1: "ubid 0 kw ?li \<in> dom ?M1" "ubid 1 kw (int p) \<in> dom ?M1" "card (dom ?M1) = card (dom Mu)"
        using dm(1-3) by (simp_all add: insert_absorb)
      have U1: "hroom (h_E H) (ms * INC_FACTOR) (card (dom ?M1))" using U dm1(3) by simp
      obtain st5 Mc5 where s5: "move_last H kw (int p) (w_srch K) ?a ?li st4 = Inr st5"
        "hmaps H ms (?M1(ubid 0 kw ?li \<mapsto> show_hash (int p) (?a + 1), ubid 1 kw (int p) \<mapsto> show_hash ?li (?a + 1))) Mc5 ?T n st5"
        "cnt_rep kw (K\<lparr>w_access := max (w_access K) (?a + 1)\<rparr>) (int ?n - 1) Mc5" "dom Mc5 \<subseteq> ckeys W"
        "\<And>kw'. hkw kw' \<Longrightarrow> kw' \<noteq> kw \<Longrightarrow> same_kw kw' ?M1 ?Mc T ?M1 Mc5 T"
        by (rule move_last_ready [OF s4(2) H kw k(1) b p ne d c1 W(1,2) W1 W(4) dm1(1,2) U1]) blast
      have "?Mu = ?M1(ubid 0 kw ?li \<mapsto> show_hash (int p) (?a + 1), ubid 1 kw (int p) \<mapsto> show_hash ?li (?a + 1))"
        using ne by (simp add: rem_updt_def Let_def)
      moreover have "same_kw kw' Mu Mc T Mu Mc5 T" if k': "hkw kw'" "kw' \<noteq> kw" for kw'
        using fr1 [OF k'] s5(5) [OF k'] by (simp add: same_kw_def)
      ultimately show ?thesis
        by (intro exI [of _ st5] exI [of _ Mc5] exI [of _ n]) (use ne s5(1-4) in simp)
    qed
    then obtain st5 Mc5 n5 where s5: "(if int ?n - 1 + 1 \<noteq> int p then move_last H kw (int p) (w_srch K) ?a ?li st4 else Inr st4) = Inr st5"
        "hmaps H ms ?Mu Mc5 ?T n5 st5" "n \<le> n5" "cnt_rep kw (K\<lparr>w_access := w_access ?K\<rparr>) (int ?n - 1) Mc5" "dom Mc5 \<subseteq> ckeys W"
        "\<And>kw'. hkw kw' \<Longrightarrow> kw' \<noteq> kw \<Longrightarrow> same_kw kw' Mu Mc T Mu Mc5 T" by blast
    have c5: "cnt_rep kw (?K\<lparr>w_ids := []\<rparr>) (int (length (w_ids ?K))) Mc5"
      unfolding n1(3) using s5(4) by (simp add: cnt_rep_def)
    have b2: "Suc b < 10000" using b by simp
    obtain st6 where s6: "ebind (updt_find H (ubid 1 kw (int (length (w_ids ?K)))) st5) (\<lambda>(s, st).
       ebind (nth_or_error (h_split H s) 0) (\<lambda>t0. ebind (stoi t0) (\<lambda>li. cnt_insert H kw ''LastIND'' (to_string li) st))) = Inr st6"
      "hmaps H ms ?Mu (Mc5(cbid kw 4 \<mapsto> to_string (last (w_ids ?K)))) ?T n5 st6"
      "cnt_rep kw ?K (int (length (w_ids ?K))) (Mc5(cbid kw 4 \<mapsto> to_string (last (w_ids ?K))))"
      "dom (Mc5(cbid kw 4 \<mapsto> to_string (last (w_ids ?K)))) \<subseteq> ckeys W"
      by (rule remove_rest [OF s5(2) H kw wf' b2 reps(1) c5 n1(2) W(1,2) s5(5) W(4)])
    have A: "Horus_remove H kw ?x st = Inr st6"
      by (simp only: start n1(1) if_True s3(1) ebind.simps prod.case stoi_to_string [OF sc(3)] s4(1) stoi_to_string [OF s(14)] s5(1)
          s6(1) [unfolded n1(3)])
    have B: "same_kw kw' Mu Mc T Mu (Mc5(cbid kw 4 \<mapsto> to_string (last (w_ids ?K)))) T" if k': "hkw kw'" "kw' \<noteq> kw" for kw'
      by (rule same_kw_cnt [OF s5(6) [OF k'] k'(1) kw k'(2) int32_1(5)])
    show thesis by (rule fin [OF A s6(2) s5(3) s6(3,4) B])
  qed
qed

text \<open>Removing an identifier a second time changes nothing.\<close>

lemma Horus_remove_again:
  assumes hm: "hmaps H ms Mu Mc T n st" and H: "henv_ok H" and kw: "hkw kw" and r: "ind_rep kw K Mu"
    and x: "x \<in> w_seen K - set (w_ids K)"
  obtains st' where "Horus_remove H kw x st = Inr st'" "hmaps H ms Mu Mc T n st'"
proof -
  obtain k where k: "Mu (ubid 0 kw x) = Some (''-1#'' @ to_string k)" using r x unfolding ind_rep_def by blast
  obtain st1 where s1: "updt_find H (ubid 0 kw x) st = Inr (''-1#'' @ to_string k, st1)" "hmaps H ms Mu Mc T n st1"
    using updt_find_step [OF hm H] kw k by (metis bid_wf_keys(2) opt_text_simps(6))
  have "stoi ''-1'' = Inr (- 1)" by code_simp
  then have "Horus_remove H kw x st = Inr st1"
    using s1(1) split_removed [OF H] by (simp add: Horus_remove_def Let_def createBid_prefix_eq [OF kw])
  then show ?thesis using that s1(2) by blast
qed

end
