(* ===== verification/Horus_Search.thy ===== *)
theory Horus_Search
  imports Horus_Remove
begin

text \<open>
  The search of Horus: it reports the identifiers of all slots and writes them again for the next
  epoch, in which every slot starts with the access count it had.
\<close>

section \<open>The boxes of the next epoch\<close>

definition kw_search :: "kwst \<Rightarrow> kwst" where
  "kw_search K = K\<lparr>w_srch := w_srch K + 1, w_latest := length (w_ids K),
     w_slot := (\<lambda>u. if 1 \<le> u \<and> u \<le> length (w_ids K) then new_slot (sl_acc (w_slot K u)) (sl_ind (w_slot K u)) else w_slot K u)\<rparr>"

lemma next_boxes_distinct:
  assumes ok: "find_ok ms kw s R D N"
  shows "distinct order \<Longrightarrow> \<forall>v\<in>set order. 1 \<le> v \<and> v \<le> N \<Longrightarrow> distinct (map fst (concat (map (next_boxes kw (s + 1) D) order)))"
proof (induction order)
  case (Cons u order)
  have u: "1 \<le> u" "u \<le> N" "u \<notin> set order" "\<forall>v\<in>set order. 1 \<le> v \<and> v \<le> N" using Cons.prems by simp_all
  note f = find_okD [OF ok u(1,2)]
  have d: "distinct (map fst (next_boxes kw (s + 1) D u))" using f by (auto simp: next_boxes_def bbid_inj)
  have "fst ` set (next_boxes kw (s + 1) D u) \<inter> fst ` set (concat (map (next_boxes kw (s + 1) D) order)) = {}"
  proof -
    have "b \<notin> fst ` set (concat (map (next_boxes kw (s + 1) D) order))" if "b \<in> fst ` set (next_boxes kw (s + 1) D u)" for b
    proof -
      note bb = that
      obtain c where c: "b = bbid kw (int u) (s + 1) c" "c = sl_acc (D u) \<or> c = 1" using next_boxes_key [OF bb] by blast
      then have "int32 c" using f(8,10) by auto
      then show ?thesis using box_fresh [OF ok u(1,2,3,4)] c(1) by (metis map_of_eq_None_iff)
    qed
    then show ?thesis by blast
  qed
  then show ?case using Cons.IH d u(4) Cons.prems(1) by (simp add: image_Un [symmetric] Int_commute)
qed simp

lemma next_boxes_member:
  assumes ok: "find_ok ms kw s R D N" and o: "set order = {1..N}" and v: "int32 v" "1 \<le> v" and c: "int32 c"
  shows "(bbid kw v (s + 1) c, t) \<in> set (concat (map (next_boxes kw (s + 1) D) order)) \<longleftrightarrow>
    v \<le> int N \<and> (c = sl_acc (D (nat v)) \<and> t = to_string (sl_ind (D (nat v))) \<or>
      c = 1 \<and> 1 < sl_acc (D (nat v)) \<and> t = CHR ''@'' # to_string (sl_acc (D (nat v))))"
proof -
  have e: "bbid kw v (s + 1) c = bbid kw (int u) (s + 1) c' \<longleftrightarrow> v = int u \<and> c = c'" if "u \<in> {1..N}" "int32 c'" for u c'
    using find_okD [OF ok, of u] that v c by (auto simp: bbid_inj)
  have nb: "(bbid kw v (s + 1) c, t) \<in> set (next_boxes kw (s + 1) D u) \<longleftrightarrow> v = int u \<and>
      (c = sl_acc (D u) \<and> t = to_string (sl_ind (D u)) \<or> c = 1 \<and> 1 < sl_acc (D u) \<and> t = CHR ''@'' # to_string (sl_acc (D u)))"
    if u: "u \<in> {1..N}" for u
    using e [OF u] find_okD(8,10) [OF ok, of u] u by (auto simp: next_boxes_def)
  have "(bbid kw v (s + 1) c, t) \<in> set (concat (map (next_boxes kw (s + 1) D) order)) \<longleftrightarrow>
      (\<exists>u\<in>{1..N}. (bbid kw v (s + 1) c, t) \<in> set (next_boxes kw (s + 1) D u))" using o by simp
  also have "\<dots> \<longleftrightarrow> (\<exists>u\<in>{1..N}. v = int u \<and> (c = sl_acc (D u) \<and> t = to_string (sl_ind (D u)) \<or>
      c = 1 \<and> 1 < sl_acc (D u) \<and> t = CHR ''@'' # to_string (sl_acc (D u))))" using nb by simp
  also have "\<dots> \<longleftrightarrow> nat v \<in> {1..N} \<and> (c = sl_acc (D (nat v)) \<and> t = to_string (sl_ind (D (nat v))) \<or>
      c = 1 \<and> 1 < sl_acc (D (nat v)) \<and> t = CHR ''@'' # to_string (sl_acc (D (nat v))))"
  proof (intro iffI)
    assume "nat v \<in> {1..N} \<and> (c = sl_acc (D (nat v)) \<and> t = to_string (sl_ind (D (nat v))) \<or>
      c = 1 \<and> 1 < sl_acc (D (nat v)) \<and> t = CHR ''@'' # to_string (sl_acc (D (nat v))))"
    moreover have "v = int (nat v)" using v(2) by simp
    ultimately show "\<exists>u\<in>{1..N}. v = int u \<and> (c = sl_acc (D u) \<and> t = to_string (sl_ind (D u)) \<or>
      c = 1 \<and> 1 < sl_acc (D u) \<and> t = CHR ''@'' # to_string (sl_acc (D u)))" by blast
  qed auto
  also have "nat v \<in> {1..N} \<longleftrightarrow> v \<le> int N" using v(2) by auto
  finally show ?thesis .
qed

lemma map_of_next_boxes:
  assumes ok: "find_ok ms kw s R D N" and o: "distinct order" "set order = {1..N}" and v: "int32 v" "1 \<le> v" and c: "int32 c"
  shows "map_of (concat (map (next_boxes kw (s + 1) D) order)) (bbid kw v (s + 1) c) =
    (if v \<le> int N then opt_text (answer (new_slot (sl_acc (D (nat v))) (sl_ind (D (nat v)))) c) else None)"
proof -
  let ?vs = "concat (map (next_boxes kw (s + 1) D) order)" and ?b = "bbid kw v (s + 1) c"
  have "distinct (map fst ?vs)" by (rule next_boxes_distinct [OF ok o(1)]) (simp add: o(2))
  then have m: "map_of ?vs ?b = Some t \<longleftrightarrow> (?b, t) \<in> set ?vs" for t by (rule map_of_eq_Some_iff)
  note mem = m [unfolded next_boxes_member [OF ok o(2) v c]]
  show ?thesis
  proof (cases "map_of ?vs ?b")
    case None
    then have "\<And>t. \<not> (v \<le> int N \<and> (c = sl_acc (D (nat v)) \<and> t = to_string (sl_ind (D (nat v))) \<or>
      c = 1 \<and> 1 < sl_acc (D (nat v)) \<and> t = CHR ''@'' # to_string (sl_acc (D (nat v)))))" using mem by simp
    then have "v \<le> int N \<Longrightarrow> c \<noteq> sl_acc (D (nat v)) \<and> \<not> (c = 1 \<and> 1 < sl_acc (D (nat v)))" by blast
    then show ?thesis unfolding answer_new_slot using None by auto
  next
    case (Some t)
    then have "v \<le> int N \<and> (c = sl_acc (D (nat v)) \<and> t = to_string (sl_ind (D (nat v))) \<or>
      c = 1 \<and> 1 < sl_acc (D (nat v)) \<and> t = CHR ''@'' # to_string (sl_acc (D (nat v))))" using mem by simp
    then show ?thesis unfolding answer_new_slot using Some by auto
  qed
qed

lemma next_boxes_foreign:
  assumes ok: "find_ok ms kw s R D N" and o: "set order = {1..N}" and k: "hkw kw'" "int32 u" "int32 s'" "int32 c"
    and ne: "kw' \<noteq> kw \<or> s' \<noteq> s + 1"
  shows "map_of (concat (map (next_boxes kw (s + 1) D) order)) (bbid kw' u s' c) = None"
proof -
  have "bbid kw' u s' c \<notin> fst ` set (next_boxes kw (s + 1) D v)" if v: "v \<in> {1..N}" for v
  proof
    assume "bbid kw' u s' c \<in> fst ` set (next_boxes kw (s + 1) D v)"
    then obtain c' where c': "bbid kw' u s' c = bbid kw (int v) (s + 1) c'" "c' = sl_acc (D v) \<or> c' = 1" using next_boxes_key by blast
    have "kw' = kw \<and> s' = s + 1" using c' k find_okD [OF ok, of v] v by (auto simp: bbid_inj)
    then show False using ne by blast
  qed
  moreover have "fst ` set (concat (map (next_boxes kw (s + 1) D) order)) = (\<Union>v\<in>{1..N}. fst ` set (next_boxes kw (s + 1) D v))"
    using o by (simp add: image_UN)
  ultimately show ?thesis by (simp only: map_of_eq_None_iff) blast
qed

section \<open>The operation\<close>

lemma search_find_ok:
  assumes wf: "kw_wf b K" "b < 9990" and kw: "hkw kw" and d: "hdepth ms \<noteq> 0"
  shows "find_ok ms kw (w_srch K) (w_access K) (w_slot K) (length (w_ids K))"
proof -
  have b: "b < 10000" using wf(2) by simp
  show ?thesis
    using kw d small_counts [OF wf(1) b] kw_wfD(4,14) [OF wf(1)] by (simp add: find_ok_def)
qed

lemma sorted_result:
  assumes "kw_wf b K" "distinct order" "set order = {1..length (w_ids K)}"
  shows "mset (map (\<lambda>u. sl_ind (w_slot K u)) order) = mset (w_ids K)" "length order = length (w_ids K)"
proof -
  let ?n = "length (w_ids K)"
  have o: "mset order = mset [1..<Suc ?n]"
    using assms(2,3) by (intro iffD1 [OF set_eq_iff_mset_eq_distinct]) (simp_all add: atLeastLessThanSuc_atLeastAtMost del: upt_Suc)
  have "mset (map (\<lambda>u. sl_ind (w_slot K u)) order) = mset (map (\<lambda>u. sl_ind (w_slot K u)) [1..<Suc ?n])"
    using o by (simp add: mset_map del: upt_Suc)
  also have "map (\<lambda>u. sl_ind (w_slot K u)) [1..<Suc ?n] = w_ids K"
    by (rule nth_equalityI) (use kw_wfD(15) [OF assms(1)] in \<open>auto simp del: upt_Suc\<close>)
  finally show "mset (map (\<lambda>u. sl_ind (w_slot K u)) order) = mset (w_ids K)" .
  show "length order = ?n" using arg_cong [OF o, of size] by (simp del: upt_Suc)
qed

lemma search_boxes_write:
  assumes ok: "find_ok ms kw s R D N" and o: "distinct order" "set order = {1..N}"
    and v: "v \<in> set (concat (map (next_boxes kw (s + 1) D) order))"
  shows "write_ok (hdepth ms) (hpos H ms) v"
proof -
  obtain u where u: "u \<in> {1..N}" "v \<in> set (next_boxes kw (s + 1) D u)" using v o(2) by auto
  then have u': "1 \<le> u" "u \<le> N" by auto
  note f = find_okD [OF ok u']
  have nz: "int u \<noteq> 0" using u' by simp
  have p: "pos_ok (hdepth ms) (hpos H ms (bbid kw (int u) (s + 1) c))" if "int32 c" for c
    by (rule hpos_bbid(2) [OF f(1,5,4) that f(2)])
  show ?thesis
    using u(2) p [OF f(8)] p [OF f(10)] f nz text_ok_to_string text_ok_mark by (auto simp: next_boxes_def write_ok_def split: if_splits)
qed

lemma next_boxes_length: "length (concat (map (next_boxes kw s D) order)) \<le> 2 * length order"
proof (induction order)
  case (Cons u order)
  have "length (next_boxes kw s D u) \<le> 2" by (simp add: next_boxes_def)
  then show ?case using Cons by simp
qed simp

definition search_box :: "string \<Rightarrow> kwst \<Rightarrow> nat list \<Rightarrow> (bid \<Rightarrow> string option) \<Rightarrow> (bid \<Rightarrow> string option)" where
  "search_box kw K order T = T ++ map_of (concat (map (next_boxes kw (w_srch K + 1) (w_slot K)) order))"

lemma kw_search_wf:
  assumes wf: "kw_wf b K" "b < 9990"
  shows "kw_wf (Suc b) (kw_search K)"
proof -
  note w = kw_wfD [OF wf(1)]
  have 1: "hslot_ok (w_access K) (new_slot (sl_acc (w_slot K u)) (sl_ind (w_slot K u)))" if "1 \<le> u" "u \<le> length (w_ids K)" for u
    using w(11,12,13) [of u] that w(4,5,10) wf(2) by (intro new_slot_ok) (auto simp: int32_def)
  have 2: "int32 (w_ids K ! (u - 1))" if "1 \<le> u" "u \<le> length (w_ids K)" for u
    using w(13,15) [of u] that w(4,5) by simp
  show ?thesis unfolding kw_wf_def kw_search_def using w 1 2 by auto
qed

lemma kw_search_reps:
  assumes wf: "kw_wf b K" "b < 9990" and kw: "hkw kw" and d: "hdepth ms \<noteq> 0"
    and r: "slot_rep kw K Mu" "ind_rep kw K Mu" "box_rep kw K T" and o: "distinct order" "set order = {1..length (w_ids K)}"
  shows "slot_rep kw (kw_search K) Mu" "ind_rep kw (kw_search K) Mu" "box_rep kw (kw_search K) (search_box kw K order T)"
proof -
  note w = kw_wfD [OF wf(1)]
  show "slot_rep kw (kw_search K) Mu" using r(1) by (auto simp: slot_rep_def kw_search_def)
  show "ind_rep kw (kw_search K) Mu" using r(2) by (auto simp: ind_rep_def kw_search_def)
  have ok: "find_ok ms kw (w_srch K) (w_access K) (w_slot K) (length (w_ids K))" by (rule search_find_ok [OF wf kw d])
  show "box_rep kw (kw_search K) (search_box kw K order T)"
    unfolding box_rep_def
  proof (intro allI impI)
    fix v s c :: int
    assume a: "int32 v \<and> int32 s \<and> int32 c \<and> 1 \<le> v \<and> 1 \<le> c \<and> w_srch (kw_search K) \<le> s"
    then have v: "int32 v" "1 \<le> v" "int32 c" "int32 s" "w_srch K + 1 \<le> s" by (simp_all add: kw_search_def)
    have old: "T (bbid kw v s c) = None" using r(3) a v(5) unfolding box_rep_def by auto
    show "search_box kw K order T (bbid kw v s c) = (if s = w_srch (kw_search K) \<and> v \<le> int (w_latest (kw_search K))
        then opt_text (answer (w_slot (kw_search K) (nat v)) c) else None)"
    proof (cases "s = w_srch K + 1")
      case True
      have "search_box kw K order T (bbid kw v s c) = map_of (concat (map (next_boxes kw (w_srch K + 1) (w_slot K)) order)) (bbid kw v (w_srch K + 1) c)"
        using old True by (simp add: search_box_def map_add_def split: option.split)
      also have "\<dots> = (if v \<le> int (length (w_ids K))
          then opt_text (answer (new_slot (sl_acc (w_slot K (nat v))) (sl_ind (w_slot K (nat v)))) c) else None)"
        by (rule map_of_next_boxes [OF ok o v(1,2,3)])
      finally show ?thesis using True v(2) by (auto simp: kw_search_def)
    next
      case False
      then have "map_of (concat (map (next_boxes kw (w_srch K + 1) (w_slot K)) order)) (bbid kw v s c) = None"
        using next_boxes_foreign [OF ok o(2) kw v(1,4,3)] by blast
      then show ?thesis using old False by (simp add: search_box_def map_add_def kw_search_def)
    qed
  qed
qed

lemma search_box_frame:
  assumes wf: "kw_wf b K" "b < 9990" and kw: "hkw kw" and d: "hdepth ms \<noteq> 0" and o: "set order = {1..length (w_ids K)}"
    and k: "hkw kw'" "kw' \<noteq> kw" and sm: "same_kw kw' Mu Mc T Mu' Mc' T'"
  shows "same_kw kw' Mu Mc T Mu' Mc' (search_box kw K order T')"
proof -
  have ok: "find_ok ms kw (w_srch K) (w_access K) (w_slot K) (length (w_ids K))" by (rule search_find_ok [OF wf kw d])
  show ?thesis using sm next_boxes_foreign [OF ok o k(1)] k(2) by (simp add: same_kw_def search_box_def map_add_def)
qed

lemma Horus_search_ready:
  assumes hm: "hmaps H ms Mu Mc T n st" and H: "henv_ok H" "18 < h_rounds H" and kw: "hkw kw" and K: "kw_state b kw K Mu Mc T" and b: "b < 9990"
    and d: "hdepth ms \<noteq> 0" and free: "\<forall>p. T (Bid_int 24 p) = None" and n: "2 * length (w_ids K) \<le> n"
    and W: "finite W" "kw \<in> W" "dom Mc \<subseteq> ckeys W" "hroom (h_E H) ms (5 * card W)"
  obtains res st' Mc' n' order where "Horus_search H kw st = Inr (res, st')" "mset res = mset (w_ids K)"
    "hmaps H ms Mu Mc' (search_box kw K order T) n' st'" "n - 2 * length (w_ids K) \<le> n'"
    "kw_state (Suc b) kw (kw_search K) Mu Mc' (search_box kw K order T)" "dom Mc' \<subseteq> ckeys W" "\<forall>p. search_box kw K order T (Bid_int 24 p) = None"
    "\<And>kw'. hkw kw' \<Longrightarrow> kw' \<noteq> kw \<Longrightarrow> same_kw kw' Mu Mc T Mu Mc' (search_box kw K order T)"
proof -
  let ?n = "length (w_ids K)"
  have k: "kw_wf b K" "cnt_rep kw K (int ?n) Mc" "slot_rep kw K Mu" "ind_rep kw K Mu" "box_rep kw K T" using K by (simp_all add: kw_state_def)
  have b': "b < 10000" using b by simp
  note w = kw_wfD [OF k(1)] and sc = small_counts [OF k(1) b']
  have ok: "find_ok ms kw (w_srch K) (w_access K) (w_slot K) ?n" by (rule search_find_ok [OF k(1) b kw d])
  have g: "shown (Mc (cbid kw 1)) = to_string (int ?n)" "shown (Mc (cbid kw 3)) = to_string (w_access K)"
    "Mc (cbid kw 2) = Some (to_string (w_srch K))" using k(2) by (simp_all add: cnt_rep_def)
  obtain st1 where s1: "cnt_find H kw ''UpdtCnt'' st = Inr (to_string (int ?n), st1)" "hmaps H ms Mu Mc T n st1"
    using cnt_find_step [OF hm H(1) kw tags(1)] unfolding g by metis
  obtain st2 where s2: "cnt_find H kw ''Access'' st1 = Inr (to_string (w_access K), st2)" "hmaps H ms Mu Mc T n st2"
    using cnt_find_step [OF s1(2) H(1) kw tags(3)] unfolding g by metis
  let ?M1 = "Mc(cbid kw 2 \<mapsto> to_string (w_srch K + 1))"
  obtain m where m: "horus_OMAP_incrementSrcCnt (h_E H) (h_fuel H) (cbid kw 2) (hs_CNTs st2) = Inr (padded (to_string (w_srch K)), m)"
    "hmaps H ms Mu ?M1 T n (st2\<lparr>hs_CNTs := m\<rparr>)"
    using cnt_bump_step [OF s2(2) H(1) kw g(3) sc(3,4)] unfolding horus_bumps by metis
  let ?st = "st2\<lparr>hs_CNTs := m\<rparr>"
  have rel: "prf_rel (h_E H) (hdepth ms) (hpos H ms) T n (hs_ORAM_srch ?st)" "hs_maxSize ?st = ms" using m(2) by (simp_all add: hmaps_def)
  have hold: "boxes_hold kw (w_srch K) (w_access K) (w_slot K) ?n T"
    unfolding boxes_hold_def
  proof (intro allI impI)
    fix u :: nat and c :: int assume u: "1 \<le> u \<and> u \<le> ?n \<and> 1 \<le> c \<and> c \<le> w_access K"
    then have "int32 c" "int32 (int u)" using sc(1,5) by (auto simp: int32_def)
    then have "T (bbid kw (int u) (w_srch K) c) = opt_text (answer (w_slot K u) c)"
      using k(5) u sc(3) w(4) by (simp add: box_rep_def)
    then show "shown (T (bbid kw (int u) (w_srch K) c)) = answer (w_slot K u) c" by simp
  qed
  have "ceillog2 (nat (w_access K - 1)) \<le> 14"
  proof (cases "w_access K = 1")
    case False
    have "nat (w_access K - 1) \<le> 2 ^ 14" using w(10) b by simp
    then show ?thesis using False w(9) by (simp add: ceillog2_le_iff)
  qed simp
  then have fuel: "ceillog2 (nat (w_access K - 1)) + 4 < h_rounds H" using H(2) by simp
  obtain order oram' where r: "search_rounds H (h_rounds H) ms kw (w_srch K) True (replicate ?n (fresh_item (w_access K)))
      \<lparr>so_result = [], so_poses = [], so_ids = []\<rparr> (hs_ORAM_srch ?st) = Inr (out_of H ms kw (w_srch K + 1) (w_slot K) order, oram')"
    "prf_rel (h_E H) (hdepth ms) (hpos H ms) T n oram'" "distinct order" "set order = {1..?n}"
    by (rule search_rounds_all [OF ok hold free rel(1) w(9) fuel])
  note res = sorted_result [OF k(1) r(3,4)]
  let ?vs = "concat (map (next_boxes kw (w_srch K + 1) (w_slot K)) order)" and ?q = "out_of H ms kw (w_srch K + 1) (w_slot K) order"
  let ?T = "search_box kw K order T"
  have q: "so_ids ?q = ?vs" "so_poses ?q = map (\<lambda>(b, t). (b, hpos H ms b)) ?vs" "so_result ?q = map (\<lambda>u. sl_ind (w_slot K u)) order"
    by (simp_all add: out_of_def Let_def)
  have len: "length ?vs \<le> 2 * ?n" using next_boxes_length [of kw "w_srch K + 1" "w_slot K" order] res(2) by simp
  have dist: "distinct (map fst ?vs)" by (rule next_boxes_distinct [OF ok r(3)]) (simp add: r(4))
  have vs: "\<forall>v\<in>set ?vs. write_ok (hdepth ms) (hpos H ms) v" using search_boxes_write [OF ok r(3,4)] by blast
  have keys: "\<exists>u c. fst v = bbid kw (int u) (w_srch K + 1) c" if "v \<in> set ?vs" for v
  proof -
    obtain u where "v \<in> set (next_boxes kw (w_srch K + 1) (w_slot K) u)" using \<open>v \<in> set ?vs\<close> by auto
    then have "fst v \<in> fst ` set (next_boxes kw (w_srch K + 1) (w_slot K) u)" by simp
    then show ?thesis using next_boxes_key by blast
  qed
  have fr1: "\<forall>v\<in>set ?vs. \<forall>x\<in>set ?vs. fst x \<noteq> Bid_int 24 (hpos H ms (fst v))" using keys bbid_not_position [OF kw] by metis
  have fr2: "\<forall>v\<in>set ?vs. pos_unused T (hpos H ms (fst v))" using free by (simp add: pos_unused_def)
  have ln: "length ?vs \<le> n" using len n by simp
  obtain o2 where o2: "PRFORAM_batchWrite (h_E H) ?vs (map (\<lambda>(b, t). (b, hpos H ms b)) ?vs) oram' = Inr o2"
    "prf_rel (h_E H) (hdepth ms) (hpos H ms) (puts ?vs T) (n - length ?vs) o2"
    by (rule batchWrite_rel [OF r(2) vs dist refl fr1 fr2 ln])
  have T: "puts ?vs T = ?T" by (simp add: puts_map_of [OF dist] search_box_def)
  have hm3: "hmaps H ms Mu ?M1 ?T (n - length ?vs) (?st\<lparr>hs_ORAM_srch := o2\<rparr>)" using m(2) o2(2) by (simp add: hmaps_def T)
  have W1: "dom ?M1 \<subseteq> ckeys W" using W(3) ckeys_in [OF W(2), of 2] by simp
  let ?M2 = "?M1(cbid kw 5 \<mapsto> to_string (int ?n))"
  obtain st4 where s4: "cnt_insert H kw ''latestUpdatedCounter'' (to_string (int ?n)) (?st\<lparr>hs_ORAM_srch := o2\<rparr>) = Inr st4"
    "hmaps H ms Mu ?M2 ?T (n - length ?vs) st4" "dom ?M2 \<subseteq> ckeys W"
    by (rule cnt_insert_room [OF hm3 H(1) kw tags(5) text_ok_to_string [OF sc(1)] W(1,2) W1 W(4)])
  have A: "Horus_search H kw st = Inr (map (\<lambda>u. sl_ind (w_slot K u)) order, st4)"
    using s1(1) s2(1) m(1) r(1) o2(1) s4(1) sc(1,3,5) rel(2) res(2) q
    by (simp add: Horus_search_def horus_getBid_eq [OF kw tags(2)] Let_def stoi_padded fresh_item_def)
  have cr: "cnt_rep kw (kw_search K) (int ?n) ?M2"
    using k(2) cbid_neq [OF kw] int32_1 by (simp add: cnt_rep_def kw_search_def)
  have ids: "w_ids (kw_search K) = w_ids K" by (simp add: kw_search_def)
  have B: "kw_state (Suc b) kw (kw_search K) Mu ?M2 ?T"
    using kw_search_wf [OF k(1) b] kw_search_reps [OF k(1) b kw d k(3-5) r(3,4)] cr ids by (simp add: kw_state_def)
  have C: "\<forall>p. ?T (Bid_int 24 p) = None"
  proof
    fix p
    have "Bid_int 24 p \<notin> fst ` set ?vs" using keys bbid_not_position [OF kw] by (metis imageE)
    then have "map_of ?vs (Bid_int 24 p) = None" by (simp only: map_of_eq_None_iff not_False_eq_True)
    then show "?T (Bid_int 24 p) = None" using free by (simp add: search_box_def map_add_def)
  qed
  have D: "same_kw kw' Mu Mc T Mu ?M2 ?T" if k': "hkw kw'" "kw' \<noteq> kw" for kw'
    by (intro search_box_frame [OF k(1) b kw d r(4) k'] same_kw_cnt [OF _ k'(1) kw k'(2) int32_1(6)] same_kw_cnt [OF _ k'(1) kw k'(2) int32_1(3)] same_kw_refl)
  have E: "n - 2 * ?n \<le> n - length ?vs" using len by simp
  show ?thesis by (rule that [OF A res(1) s4(2) E B s4(3) C D])
qed

end
