(* ===== verification/Horus_Correct.thy ===== *)
theory Horus_Correct
  imports Horus_Search Sse_Spec
begin

text \<open>
  Horus refines a database of identifiers per keyword. Insertions of an identifier that is present
  change nothing; a search answers the identifiers in the order in which its bisection settles
  the slots, so answers are compared sorted.
\<close>

section \<open>The database\<close>

text \<open>\<open>hd_log\<close> are the insertions so far, \<open>hd_left\<close> a number of boxes that can still be written.\<close>

record hdb =
  hd_live :: "string \<Rightarrow> int list"
  hd_log :: "(string \<times> int) list"
  hd_left :: nat
  hd_ops :: nat

definition hdb_new :: "nat \<Rightarrow> hdb" where
  "hdb_new n = \<lparr>hd_live = (\<lambda>_. []), hd_log = [], hd_left = n, hd_ops = 0\<rparr>"

fun hdb_step :: "sse_op \<Rightarrow> hdb \<Rightarrow> int list \<times> hdb" where
  "hdb_step (Ins w x) a =
     ([], a\<lparr>hd_live := (hd_live a)(w := (if x \<in> set (hd_live a w) then hd_live a w else hd_live a w @ [x])),
            hd_log := hd_log a @ [(w, x)], hd_left := hd_left a - 2, hd_ops := Suc (hd_ops a)\<rparr>)"
| "hdb_step (Del w x) a =
     ([], a\<lparr>hd_live := (hd_live a)(w := filter (\<lambda>y. y \<noteq> x) (hd_live a w)), hd_left := hd_left a - 1, hd_ops := Suc (hd_ops a)\<rparr>)"
| "hdb_step (Srch w) a =
     (sort (hd_live a w), a\<lparr>hd_left := hd_left a - 2 * length (hd_live a w), hd_ops := Suc (hd_ops a)\<rparr>)"

definition known :: "hdb \<Rightarrow> string set" where
  "known a = fst ` set (hd_log a)"

text \<open>
  Admissible operations: keywords of at most twelve characters; removals of identifiers and
  searches of keywords that were inserted at some time, for the program throws on others; room in
  the maps and in the ORAM; fewer than 9990 operations, so that texts fit 16 bytes.
\<close>

fun hdb_ok :: "henv \<Rightarrow> nat \<Rightarrow> sse_op \<Rightarrow> hdb \<Rightarrow> bool" where
  "hdb_ok H ms (Ins w x) a \<longleftrightarrow> hkw w \<and> int32 x \<and> 2 \<le> hd_left a \<and> hd_ops a < 9990 \<and>
     hroom (h_E H) (ms * INC_FACTOR) (2 * Suc (length (hd_log a))) \<and> hroom (h_E H) ms (5 * card (insert w (known a)))"
| "hdb_ok H ms (Del w x) a \<longleftrightarrow> hkw w \<and> (w, x) \<in> set (hd_log a) \<and> 1 \<le> hd_left a \<and> hd_ops a < 9990"
| "hdb_ok H ms (Srch w) a \<longleftrightarrow> hkw w \<and> w \<in> known a \<and> 2 * length (hd_live a w) \<le> hd_left a \<and> hd_ops a < 9990"

fun horus_cstep :: "henv \<Rightarrow> sse_op \<Rightarrow> horus \<Rightarrow> (int list \<times> horus) res" where
  "horus_cstep H (Ins w x) st = ebind (Horus_insert H w x st) (\<lambda>st. Inr ([], st))"
| "horus_cstep H (Del w x) st = ebind (Horus_remove H w x st) (\<lambda>st. Inr ([], st))"
| "horus_cstep H (Srch w) st = ebind (Horus_search H w st) (\<lambda>(r, st). Inr (sort r, st))"

section \<open>The relation\<close>

definition kw_rep_of :: "hdb \<Rightarrow> string \<Rightarrow> (bid \<Rightarrow> string option) \<Rightarrow> (bid \<Rightarrow> string option) \<Rightarrow> (bid \<Rightarrow> string option) \<Rightarrow> bool" where
  "kw_rep_of a kw Mu Mc T \<longleftrightarrow>
     (if kw \<in> known a
      then \<exists>K. kw_state (hd_ops a) kw K Mu Mc T \<and> w_seen K = {x. (kw, x) \<in> set (hd_log a)} \<and>
        set (w_ids K) = set (hd_live a kw) \<and> distinct (hd_live a kw)
      else kw_unknown kw Mu Mc T \<and> hd_live a kw = [])"

definition hmaps_ok :: "henv \<Rightarrow> nat \<Rightarrow> hdb \<Rightarrow> (bid \<Rightarrow> string option) \<Rightarrow> (bid \<Rightarrow> string option) \<Rightarrow> (bid \<Rightarrow> string option) \<Rightarrow> bool" where
  "hmaps_ok H ms a Mu Mc T \<longleftrightarrow> finite (dom Mu) \<and> card (dom Mu) \<le> 2 * length (hd_log a) \<and>
     hroom (h_E H) (ms * INC_FACTOR) (2 * length (hd_log a)) \<and> dom Mc \<subseteq> ckeys (known a) \<and> hroom (h_E H) ms (5 * card (known a)) \<and>
     (\<forall>p. T (Bid_int 24 p) = None) \<and> (\<forall>kw. hkw kw \<longrightarrow> kw_rep_of a kw Mu Mc T)"

definition hrel :: "henv \<Rightarrow> nat \<Rightarrow> hdb \<Rightarrow> horus \<Rightarrow> bool" where
  "hrel H ms a st \<longleftrightarrow> henv_ok H \<and> 18 < h_rounds H \<and> hdepth ms \<noteq> 0 \<and>
     (\<exists>Mu Mc T n. hmaps H ms Mu Mc T n st \<and> hd_left a \<le> n \<and> hmaps_ok H ms a Mu Mc T)"

lemma kw_state_mono: "kw_state b kw K Mu Mc T \<Longrightarrow> b \<le> b' \<Longrightarrow> kw_state b' kw K Mu Mc T"
  using kw_wf_mono by (simp add: kw_state_def) blast

lemma finite_known [simp]: "finite (known a)"
  by (simp add: known_def)

lemma ckeys_mono: "V \<subseteq> W \<Longrightarrow> ckeys V \<subseteq> ckeys W"
  by (auto simp: ckeys_def)

text \<open>A step on one keyword leaves the others as they are.\<close>

lemma other_keywords:
  assumes rep: "\<forall>kw. hkw kw \<longrightarrow> kw_rep_of a kw Mu Mc T" and b: "hd_ops a < 9990" and w: "hkw w"
    and K: "kw_state (Suc (hd_ops a)) w K Mu' Mc' T'" "w \<in> known a'" "w_seen K = {x. (w, x) \<in> set (hd_log a')}"
      "set (w_ids K) = set (hd_live a' w)" "distinct (hd_live a' w)"
    and a': "hd_ops a' = Suc (hd_ops a)" "\<And>kw. kw \<noteq> w \<Longrightarrow> hd_live a' kw = hd_live a kw"
      "\<And>kw x. kw \<noteq> w \<Longrightarrow> (kw, x) \<in> set (hd_log a') \<longleftrightarrow> (kw, x) \<in> set (hd_log a)"
    and fr: "\<And>kw. hkw kw \<Longrightarrow> kw \<noteq> w \<Longrightarrow> same_kw kw Mu Mc T Mu' Mc' T'"
  shows "\<forall>kw. hkw kw \<longrightarrow> kw_rep_of a' kw Mu' Mc' T'"
proof (intro allI impI)
  fix kw assume kw: "hkw kw"
  show "kw_rep_of a' kw Mu' Mc' T'"
  proof (cases "kw = w")
    case True
    then show ?thesis using K a'(1) by (auto simp: kw_rep_of_def)
  next
    case False
    have r: "kw_rep_of a kw Mu Mc T" and s: "same_kw kw Mu Mc T Mu' Mc' T'" using rep kw fr False by simp_all
    have l: "hd_live a' kw = hd_live a kw" "{x. (kw, x) \<in> set (hd_log a')} = {x. (kw, x) \<in> set (hd_log a)}"
      using a'(2,3) [OF False] by simp_all
    have kn: "kw \<in> known a' \<longleftrightarrow> kw \<in> known a" using a'(3) [OF False] by (force simp: known_def)
    show ?thesis
    proof (cases "kw \<in> known a")
      case known: True
      then obtain K0 where K0: "kw_state (hd_ops a) kw K0 Mu Mc T" "w_seen K0 = {x. (kw, x) \<in> set (hd_log a)}"
        "set (w_ids K0) = set (hd_live a kw)" "distinct (hd_live a kw)" using r by (auto simp: kw_rep_of_def)
      have "kw_state (hd_ops a) kw K0 Mu' Mc' T'" using same_kw_state [OF s K0(1)] b by simp
      then have "kw_state (Suc (hd_ops a)) kw K0 Mu' Mc' T'" by (rule kw_state_mono) simp
      then show ?thesis using K0(2-4) known kn l a'(1) by (auto simp: kw_rep_of_def)
    next
      case unknown: False
      then show ?thesis using r kn l(1) same_kw_unknown [OF s] by (simp add: kw_rep_of_def)
    qed
  qed
qed

section \<open>One operation\<close>

lemma step_insert:
  assumes rel: "hrel H ms a st" and ok: "hdb_ok H ms (Ins w x) a"
  shows "\<exists>t. Horus_insert H w x st = Inr t \<and> hrel H ms (snd (hdb_step (Ins w x) a)) t"
proof -
  let ?a = "snd (hdb_step (Ins w x) a)"
  obtain Mu Mc T n where H: "henv_ok H" "18 < h_rounds H" "hdepth ms \<noteq> 0" and hm: "hmaps H ms Mu Mc T n st"
    and n: "hd_left a \<le> n" and m: "hmaps_ok H ms a Mu Mc T" using rel by (auto simp: hrel_def)
  have w: "hkw w" "int32 x" "2 \<le> n" "hd_ops a < 9990" "hd_ops a < 10000" and
    room: "hroom (h_E H) (ms * INC_FACTOR) (2 * Suc (length (hd_log a)))" "hroom (h_E H) ms (5 * card (insert w (known a)))"
    using ok n by simp_all
  have reps: "\<forall>kw. hkw kw \<longrightarrow> kw_rep_of a kw Mu Mc T" and mm: "finite (dom Mu)" "card (dom Mu) \<le> 2 * length (hd_log a)"
    "dom Mc \<subseteq> ckeys (known a)" "\<forall>p. T (Bid_int 24 p) = None" using m by (simp_all add: hmaps_ok_def)
  have kn: "known ?a = insert w (known a)" by (auto simp: known_def)
  have rep: "kw_rep_of a w Mu Mc T" using reps w(1) by blast
  have W: "finite (insert w (known a))" "w \<in> insert w (known a)" "dom Mc \<subseteq> ckeys (insert w (known a))"
    using mm(3) ckeys_mono [of "known a" "insert w (known a)"] by auto
  have log: "{y. (w, y) \<in> set (hd_log ?a)} = insert x {y. (w, y) \<in> set (hd_log a)}" by auto
  have sel: "hd_live ?a w = (if x \<in> set (hd_live a w) then hd_live a w else hd_live a w @ [x])" "length (hd_log ?a) = Suc (length (hd_log a))"
    "hd_left ?a = hd_left a - 2" "hd_ops ?a = Suc (hd_ops a)" by simp_all
  show ?thesis
  proof (cases "x \<in> set (hd_live a w)")
    case True
    then have k: "w \<in> known a" using rep by (auto simp: kw_rep_of_def split: if_splits)
    then obtain K where K: "kw_state (hd_ops a) w K Mu Mc T" "w_seen K = {y. (w, y) \<in> set (hd_log a)}"
      "set (w_ids K) = set (hd_live a w)" "distinct (hd_live a w)" using rep by (auto simp: kw_rep_of_def)
    have xs: "x \<in> set (w_ids K)" using True K(3) by simp
    obtain t where t: "Horus_insert H w x st = Inr t" "hmaps H ms Mu Mc T n t"
      by (rule Horus_insert_present [OF hm H(1) w(1) K(1) w(5) xs])
    have K': "kw_state (Suc (hd_ops a)) w K Mu Mc T" by (rule kw_state_mono [OF K(1)]) simp
    have wf: "kw_wf (hd_ops a) K" using K(1) by (simp add: kw_state_def)
    then have xl: "x \<in> {y. (w, y) \<in> set (hd_log a)}" using K(2) xs kw_wfD(2) [OF wf] by auto
    have seen: "w_seen K = {y. (w, y) \<in> set (hd_log ?a)}" unfolding log using K(2) xl by auto
    have "\<forall>kw. hkw kw \<longrightarrow> kw_rep_of ?a kw Mu Mc T"
      by (rule other_keywords [OF reps w(4,1) K' _ seen]) (use kn True K(3,4) in \<open>simp_all add: same_kw_refl\<close>)
    then have "hmaps_ok H ms ?a Mu Mc T" using mm room W(3) kn sel(2) by (simp add: hmaps_ok_def)
    then show ?thesis using t H n sel(3) unfolding hrel_def by (intro exI [of _ t]) (auto intro!: exI)
  next
    case False
    obtain K where K: "kw_wf (hd_ops a) K" "cnt_rep w K (int (length (w_ids K))) Mc \<or> K = no_ids \<and> (\<forall>k\<in>{1..5}. Mc (cbid w k) = None)"
      "slot_rep w K Mu" "ind_rep w K Mu" "box_rep w K T" "w_seen K = {y. (w, y) \<in> set (hd_log a)}" "set (w_ids K) = set (hd_live a w)"
      "distinct (hd_live a w)"
    proof (cases "w \<in> known a")
      case True
      then show ?thesis using rep that by (auto simp: kw_rep_of_def kw_state_def)
    next
      case unk: False
      then have "{y. (w, y) \<in> set (hd_log a)} = {}" by (force simp: known_def)
      moreover have "kw_unknown w Mu Mc T" "hd_live a w = []" using rep unk by (simp_all add: kw_rep_of_def)
      ultimately show ?thesis
        by (intro that [of no_ids]) (simp_all add: kw_unknown_def no_ids_wf, simp_all add: no_ids_def)
    qed
    have xs: "x \<notin> set (w_ids K)" using False K(7) by simp
    obtain n0 where n0: "n = Suc (Suc n0)" using w(3) by (metis Suc_le_D numeral_2_eq_2 Suc_le_mono)
    have cu: "card (dom Mu) + 2 \<le> 2 * Suc (length (hd_log a))" using mm(2) by simp
    obtain t Mc' n' where t: "Horus_insert H w x st = Inr t" "hmaps H ms (ins_updt w x K Mu) Mc' (ins_box w x K T) n' t" "n0 \<le> n'"
      "cnt_rep w (kw_insert x K) (int (length (w_ids K)) + 1) Mc'" "dom Mc' \<subseteq> ckeys (insert w (known a))"
      "\<And>kw. hkw kw \<Longrightarrow> kw \<noteq> w \<Longrightarrow> same_kw kw Mu Mc T (ins_updt w x K Mu) Mc' (ins_box w x K T)"
      by (rule Horus_insert_absent [OF hm [unfolded n0] H(1) w(1) K(1) w(4) K(2,3,4) w(2) xs H(3) W room(2) mm(1) hroom_mono [OF room(1) cu]]) blast
    let ?Mu = "ins_updt w x K Mu" and ?T = "ins_box w x K T"
    have K': "kw_state (Suc (hd_ops a)) w (kw_insert x K) ?Mu Mc' ?T"
      using kw_insert_wf [OF K(1) w(5,2) xs] t(4) ins_slot_rep [OF K(1) w(5,1,2) K(3)] ins_ind_rep [OF K(1) w(5,1,2) xs K(4)]
        ins_box_rep [OF K(1) w(5,1) K(5)] by (simp add: kw_state_def add.commute)
    have seen: "w_seen (kw_insert x K) = {y. (w, y) \<in> set (hd_log ?a)}" unfolding log using K(6) by simp
    have "\<forall>kw. hkw kw \<longrightarrow> kw_rep_of ?a kw ?Mu Mc' ?T"
      by (rule other_keywords [OF reps w(4,1) K' _ seen]) (use kn False K(7,8) t(6) in \<open>simp_all\<close>)
    moreover have "finite (dom ?Mu)" "card (dom ?Mu) \<le> card (dom Mu) + 2"
      using mm(1) by (simp_all add: ins_updt_def Let_def card_insert_if)
    moreover have nb: "Bid_int 24 p \<noteq> bbid w u s c" for p u s c
      using bbid_not_position [OF w(1)] by metis
    have "\<forall>p. ?T (Bid_int 24 p) = None"
      using mm(4) nb by (simp add: ins_box_def Let_def)
    ultimately have "hmaps_ok H ms ?a ?Mu Mc' ?T" using mm(2) room t(5) kn sel(2) by (simp add: hmaps_ok_def)
    moreover have "hd_left ?a \<le> n'" using t(3) n n0 sel(3) by simp
    ultimately show ?thesis using t(1,2) H unfolding hrel_def by (intro exI [of _ t]) blast
  qed
qed

lemma step_remove:
  assumes rel: "hrel H ms a st" and ok: "hdb_ok H ms (Del w x) a"
  shows "\<exists>t. Horus_remove H w x st = Inr t \<and> hrel H ms (snd (hdb_step (Del w x) a)) t"
proof -
  let ?a = "snd (hdb_step (Del w x) a)"
  obtain Mu Mc T n where H: "henv_ok H" "18 < h_rounds H" "hdepth ms \<noteq> 0" and hm: "hmaps H ms Mu Mc T n st"
    and n: "hd_left a \<le> n" and m: "hmaps_ok H ms a Mu Mc T" using rel by (auto simp: hrel_def)
  have w: "hkw w" "(w, x) \<in> set (hd_log a)" "1 \<le> n" "hd_ops a < 9990" using ok n by simp_all
  have reps: "\<forall>kw. hkw kw \<longrightarrow> kw_rep_of a kw Mu Mc T" and mm: "finite (dom Mu)" "card (dom Mu) \<le> 2 * length (hd_log a)"
    "hroom (h_E H) (ms * INC_FACTOR) (2 * length (hd_log a))" "dom Mc \<subseteq> ckeys (known a)" "hroom (h_E H) ms (5 * card (known a))"
    "\<forall>p. T (Bid_int 24 p) = None" using m by (simp_all add: hmaps_ok_def)
  have kn: "w \<in> known a" "known ?a = known a" using w(2) by (force simp: known_def)+
  have W: "finite (known a)" by simp
  have sel: "hd_live ?a w = filter (\<lambda>y. y \<noteq> x) (hd_live a w)" "hd_log ?a = hd_log a" "hd_left ?a = hd_left a - 1" "hd_ops ?a = Suc (hd_ops a)"
    by simp_all
  have rep: "kw_rep_of a w Mu Mc T" using reps w(1) by blast
  obtain K where K: "kw_state (hd_ops a) w K Mu Mc T" "w_seen K = {y. (w, y) \<in> set (hd_log a)}"
    "set (w_ids K) = set (hd_live a w)" "distinct (hd_live a w)" using rep kn(1) by (auto simp: kw_rep_of_def)
  have k: "kw_wf (hd_ops a) K" "ind_rep w K Mu" using K(1) by (simp_all add: kw_state_def)
  show ?thesis
  proof (cases "x \<in> set (w_ids K)")
    case False
    then have "x \<in> w_seen K - set (w_ids K)" using K(2) w(2) by simp
    then obtain t where t: "Horus_remove H w x st = Inr t" "hmaps H ms Mu Mc T n t"
      by (rule Horus_remove_again [OF hm H(1) w(1) k(2)])
    have K': "kw_state (Suc (hd_ops a)) w K Mu Mc T" by (rule kw_state_mono [OF K(1)]) simp
    have "\<forall>kw. hkw kw \<longrightarrow> kw_rep_of ?a kw Mu Mc T"
      by (rule other_keywords [OF reps w(4,1) K']) (use kn False K(2-4) in \<open>auto simp: same_kw_refl\<close>)
    then have "hmaps_ok H ms ?a Mu Mc T" using mm kn sel(2) by (simp add: hmaps_ok_def)
    then show ?thesis using t H n sel(3) unfolding hrel_def by (intro exI [of _ t]) (auto intro!: exI)
  next
    case True
    then obtain i where i: "i < length (w_ids K)" "w_ids K ! i = x" by (meson in_set_conv_nth)
    have p: "slot_of K (Suc i)" "w_ids K ! (Suc i - 1) = x" using i by (simp_all add: slot_of_def)
    obtain n0 where n0: "n = Suc n0" using w(3) by (cases n) auto
    have U: "hroom (h_E H) (ms * INC_FACTOR) (card (dom Mu))" by (rule hroom_mono [OF mm(3,2)])
    obtain t Mc' n' where t: "Horus_remove H w (w_ids K ! (Suc i - 1)) st = Inr t"
      "hmaps H ms (rem_updt w (Suc i) K Mu) Mc' (rem_box w (Suc i) K T) n' t" "n0 \<le> n'"
      "kw_state (Suc (hd_ops a)) w (kw_remove (Suc i) K) (rem_updt w (Suc i) K Mu) Mc' (rem_box w (Suc i) K T)"
      "dom Mc' \<subseteq> ckeys (known a)"
      "\<And>kw. hkw kw \<Longrightarrow> kw \<noteq> w \<Longrightarrow> same_kw kw Mu Mc T (rem_updt w (Suc i) K Mu) Mc' (rem_box w (Suc i) K T)"
      by (rule Horus_remove_present [OF hm [unfolded n0] H(1) w(1) K(1) w(4) p(1) H(3) W kn(1) mm(4,5) U]) blast
    let ?Mu = "rem_updt w (Suc i) K Mu" and ?T = "rem_box w (Suc i) K T"
    have ids: "set (w_ids (kw_remove (Suc i) K)) = set (hd_live ?a w)" using kw_remove_ids(1) [OF k(1) p(1)] p(2) K(3) sel(1) by auto
    have "\<forall>kw. hkw kw \<longrightarrow> kw_rep_of ?a kw ?Mu Mc' ?T"
      by (rule other_keywords [OF reps w(4,1) t(4) _ _ ids]) (use kn K(2,4) t(6) in auto)
    moreover have "dom ?Mu = dom Mu"
      using rem_updt_dom(4) [OF _ k(2,1) _ p(1)] K(1) w(4) by (simp add: kw_state_def)
    moreover have nb: "Bid_int 24 p \<noteq> bbid w u s c" for p u s c
      using bbid_not_position [OF w(1)] by metis
    have "\<forall>p. ?T (Bid_int 24 p) = None"
      using mm(6) nb by (simp add: rem_box_def)
    ultimately have "hmaps_ok H ms ?a ?Mu Mc' ?T" using mm t(5) kn sel(2) by (simp add: hmaps_ok_def)
    moreover have "hd_left ?a \<le> n'" using t(3) n n0 sel(3) by simp
    ultimately show ?thesis using t(1,2) H p(2) unfolding hrel_def by (intro exI [of _ t]) auto
  qed
qed

lemma step_search:
  assumes rel: "hrel H ms a st" and ok: "hdb_ok H ms (Srch w) a"
  shows "\<exists>r t. Horus_search H w st = Inr (r, t) \<and> sort r = sort (hd_live a w) \<and> hrel H ms (snd (hdb_step (Srch w) a)) t"
proof -
  let ?a = "snd (hdb_step (Srch w) a)"
  obtain Mu Mc T n where H: "henv_ok H" "18 < h_rounds H" "hdepth ms \<noteq> 0" and hm: "hmaps H ms Mu Mc T n st"
    and n: "hd_left a \<le> n" and m: "hmaps_ok H ms a Mu Mc T" using rel by (auto simp: hrel_def)
  have w: "hkw w" "w \<in> known a" "2 * length (hd_live a w) \<le> n" "hd_ops a < 9990" using ok n by simp_all
  have reps: "\<forall>kw. hkw kw \<longrightarrow> kw_rep_of a kw Mu Mc T" and mm: "finite (dom Mu)" "card (dom Mu) \<le> 2 * length (hd_log a)"
    "hroom (h_E H) (ms * INC_FACTOR) (2 * length (hd_log a))" "dom Mc \<subseteq> ckeys (known a)" "hroom (h_E H) ms (5 * card (known a))"
    "\<forall>p. T (Bid_int 24 p) = None" using m by (simp_all add: hmaps_ok_def)
  have kn: "known ?a = known a" by (simp add: known_def)
  have sel: "hd_live ?a = hd_live a" "hd_log ?a = hd_log a" "hd_left ?a = hd_left a - 2 * length (hd_live a w)" "hd_ops ?a = Suc (hd_ops a)"
    by simp_all
  have rep: "kw_rep_of a w Mu Mc T" using reps w(1) by blast
  obtain K where K: "kw_state (hd_ops a) w K Mu Mc T" "w_seen K = {y. (w, y) \<in> set (hd_log a)}"
    "set (w_ids K) = set (hd_live a w)" "distinct (hd_live a w)" using rep w(2) by (auto simp: kw_rep_of_def)
  have "distinct (w_ids K)" using K(1) kw_wfD(1) by (auto simp: kw_state_def)
  then have ms: "mset (w_ids K) = mset (hd_live a w)" using K(3,4) set_eq_iff_mset_eq_distinct by blast
  then have len: "length (w_ids K) = length (hd_live a w)" by (rule mset_eq_length)
  have ln: "2 * length (w_ids K) \<le> n" using w(3) len by simp
  obtain r t Mc' n' order where t: "Horus_search H w st = Inr (r, t)" "mset r = mset (w_ids K)"
    "hmaps H ms Mu Mc' (search_box w K order T) n' t" "n - 2 * length (w_ids K) \<le> n'"
    "kw_state (Suc (hd_ops a)) w (kw_search K) Mu Mc' (search_box w K order T)" "dom Mc' \<subseteq> ckeys (known a)"
    "\<forall>p. search_box w K order T (Bid_int 24 p) = None"
    "\<And>kw. hkw kw \<Longrightarrow> kw \<noteq> w \<Longrightarrow> same_kw kw Mu Mc T Mu Mc' (search_box w K order T)"
    by (rule Horus_search_ready [OF hm H(1,2) w(1) K(1) w(4) H(3) mm(6) ln finite_known w(2) mm(4,5)]) blast
  have "sort r = sort (hd_live a w)" using t(2) ms by (intro properties_for_sort) simp_all
  moreover have ks: "w_seen (kw_search K) = w_seen K" "w_ids (kw_search K) = w_ids K" by (simp_all add: kw_search_def)
  have "\<forall>kw. hkw kw \<longrightarrow> kw_rep_of ?a kw Mu Mc' (search_box w K order T)"
    by (rule other_keywords [OF reps w(4,1) t(5)]) (use kn w(2) K(2-4) ks t(8) in auto)
  then have "hmaps_ok H ms ?a Mu Mc' (search_box w K order T)" using mm t(6,7) kn sel(2) by (simp add: hmaps_ok_def)
  moreover have "hd_left ?a \<le> n'" using t(4) n len sel(3) by simp
  ultimately show ?thesis using t(1,3) H unfolding hrel_def by (intro exI [of _ r] exI [of _ t]) auto
qed

interpretation horus: simulation "hrel H ms" "hdb_ok H ms" hdb_step "horus_cstep H" for H ms
proof
  fix a st p assume rel: "hrel H ms a st" and ok: "hdb_ok H ms p a"
  show "\<exists>t. horus_cstep H p st = Inr (fst (hdb_step p a), t) \<and> hrel H ms (snd (hdb_step p a)) t"
  proof (cases p)
    case (Ins w x)
    then show ?thesis using step_insert [OF rel, of w x] ok by auto
  next
    case (Del w x)
    then show ?thesis using step_remove [OF rel, of w x] ok by auto
  next
    case (Srch w)
    then show ?thesis using step_search [OF rel, of w] ok by fastforce
  qed
qed

lemma hrel_new:
  assumes "henv_ok H" "18 < h_rounds H" "hsize_ok H ms"
  obtains st where "Horus_new H ms = Inr st" "hrel H ms (hdb_new (omap_cap (ms * INC_FACTOR))) st"
proof -
  obtain st where st: "Horus_new H ms = Inr st" "hmaps H ms (\<lambda>_. None) (\<lambda>_. None) (\<lambda>_. None) (omap_cap (ms * INC_FACTOR)) st"
    by (rule Horus_new_maps [OF assms(1,3)])
  have r: "hroom (h_E H) k 0" for k using min_size_pos [of "omap_top (h_E H) k"] by (simp add: hroom_def)
  have "hmaps_ok H ms (hdb_new (omap_cap (ms * INC_FACTOR))) (\<lambda>_. None) (\<lambda>_. None) (\<lambda>_. None)"
    using r kw_unknown_empty by (simp add: hmaps_ok_def hdb_new_def known_def kw_rep_of_def)
  moreover have "hdepth ms \<noteq> 0" using assms(3) hdepth_pos by (simp add: hsize_ok_def)
  ultimately have "hrel H ms (hdb_new (omap_cap (ms * INC_FACTOR))) st"
    using assms(1,2) st(2) unfolding hrel_def by (intro conjI exI) (auto simp: hdb_new_def)
  then show ?thesis using that st(1) by blast
qed

section \<open>Properties\<close>


definition toy_henv :: henv where
  "toy_henv = \<lparr>h_E = toy_env Horus, h_fuel = 20, h_prg = (\<lambda>k. sum_list (map unat k)), h_split = split_on (CHR ''#''),
     h_sort = (\<lambda>bs. bs), h_rounds = 19\<rparr>"

lemma henv_ok_toy: "henv_ok toy_henv"
proof -
  have "e_scheme (toy_env Horus) = Horus" by (simp add: toy_env_def)
  then show ?thesis using env_ok_toy [of Horus] by (simp add: henv_ok_def toy_henv_def split_on_delim split_on_no_delim)
qed

lemma arun_fst: "fst (arun f [] a) = []" "fst (arun f (p # ps) a) = fst (f p a) # fst (arun f ps (snd (f p a)))"
  by (simp_all add: split_beta)

lemma toy_sizes: "h_E toy_henv = toy_env Horus" "omap_top (toy_env Horus) 64 = 6" "omap_cap 64 = 124"
  "omap_top (toy_env Horus) 16 = 4" "omap_cap 16 = 28" "min_size 5 = 12" "min_size 7 = 33" "(16::nat) * INC_FACTOR = 64"
proof -
  show "h_E toy_henv = toy_env Horus" by (simp add: toy_henv_def)
qed code_simp+

lemma toy_size_ok: "18 < h_rounds toy_henv" "hsize_ok toy_henv 16"
proof -
  have "hdepth 16 < 31" by code_simp
  moreover have E: "h_fuel toy_henv = 20" "h_rounds toy_henv = 19" by (simp_all add: toy_henv_def)
  ultimately show "18 < h_rounds toy_henv" "hsize_ok toy_henv 16"
    unfolding hsize_ok_def toy_sizes(1,2,4,8) E by simp_all
qed


end
