(* ===== verification/Horus_Limits.thy ===== *)
theory Horus_Limits
  imports Horus_Correct
begin

text \<open>What Horus answers on keywords and identifiers that were never inserted.\<close>

lemma stoi_empty: "stoi [] = Inl InvalidArgument"
  by (simp add: stoi_def)

lemma search_unknown_throws:
  assumes rel: "hrel H ms a st" and w: "hkw w" "w \<notin> known a"
  shows "Horus_search H w st = Inl InvalidArgument"
proof -
  obtain Mu Mc T n where H: "henv_ok H" and hm: "hmaps H ms Mu Mc T n st" and m: "hmaps_ok H ms a Mu Mc T"
    using rel by (auto simp: hrel_def)
  have "kw_rep_of a w Mu Mc T" using m w(1) by (simp add: hmaps_ok_def)
  then have none: "Mc (cbid w 1) = None" using w(2) by (simp add: kw_rep_of_def kw_unknown_def)
  obtain st' where "cnt_find H w ''UpdtCnt'' st = Inr (shown (Mc (cbid w 1)), st')" "hmaps H ms Mu Mc T n st'"
    by (rule cnt_find_step [OF hm H w(1) tags(1)]) blast
  then show ?thesis by (simp add: Horus_search_def none shown_def stoi_empty)
qed

lemma remove_unknown_throws:
  assumes rel: "hrel H ms a st" and w: "hkw w" "int32 x" "(w, x) \<notin> set (hd_log a)"
  shows "Horus_remove H w x st = Inl InvalidArgument"
proof -
  obtain Mu Mc T n where H: "henv_ok H" and hm: "hmaps H ms Mu Mc T n st" and m: "hmaps_ok H ms a Mu Mc T"
    using rel by (auto simp: hrel_def)
  have "kw_rep_of a w Mu Mc T" using m w(1) by (simp add: hmaps_ok_def)
  then obtain K where "ind_rep w K Mu" "x \<notin> w_seen K"
    using w(3) by (auto simp: kw_rep_of_def kw_unknown_def kw_state_def no_ids_def split: if_splits)
  then have none: "Mu (ubid 0 w x) = None" using w(2) by (simp add: ind_rep_def)
  obtain st' where "updt_find H (ubid 0 w x) st = Inr (shown (Mu (ubid 0 w x)), st')" "hmaps H ms Mu Mc T n st'"
    by (rule updt_find_step [OF hm H, of "ubid 0 w x"]) (use w(1) in simp_all)
  then show ?thesis
    using createBid_prefix_eq [OF w(1)] H by (simp add: Horus_remove_def none shown_def stoi_empty henv_ok_def)
qed



end
