(* ===== verification/Prf_Limits.thy ===== *)
theory Prf_Limits
  imports Prf_Correct
begin

text \<open>The number of writes that \<open>PRFORAM\<close> accepts.\<close>

lemma WriteBox_full:
  assumes rel: "prf_rel E h P T 0 st" and b: "\<not> bid_eq_int b 0" "pos_ok h (P b)" and s: "text_ok s"
  shows "WriteBox E b s (P b) st = Inl (RuntimeError ''There is no more space in PRFORAM'')"
proof -
  obtain V M where E: "env_ok E" and h: "p_depth st = h" "rs_empty (p_store st) = 0" and rep: "prf_rep E st {} V M"
    using rel by (auto simp: prf_rel_def)
  have l: "bleaf st (P b)" using b(2) h by (simp add: bleaf_pos)
  have "if False then ({} :: int set) = set (p_viewmap st) else ({} :: int set) = {}" by simp
  then obtain st1 where 1: "box_FetchPath E (P b) False st = Inr st1" "rs_empty (p_store st1) = rs_empty (p_store st)"
    by (rule box_FetchPath_rep [OF E rep l]) blast
  have "make_box b s (P b) = Inr \<lparr>x_key = b, x_value = value_of s, x_pos = P b\<rparr>"
    using s by (intro make_box_eq) (simp add: text_ok_def)
  then show ?thesis
    using b(1) 1 h(2) by (simp add: WriteBox_def box_Access_write_def box_WriteData_def GetEmptySize_def)
qed

lemma writes_left: "snd (snd (arun prf_step (map (\<lambda>(b, s). WriteOp b s) vs) (T, n))) = n - length vs"
  by (induction vs arbitrary: T n) (auto simp: split_beta)

lemma writes_ok:
  "\<forall>v\<in>set vs. write_ok h P v \<Longrightarrow> length vs \<le> n \<Longrightarrow> all_ok (prf_ok h P) prf_step (map (\<lambda>(b, s). WriteOp b s) vs) (T, n)"
  by (induction vs arbitrary: T n) auto



end
