(* ===== verification/Oram_Correct.thy ===== *)
theory Oram_Correct
  imports Omap_Counters
begin

text \<open>
  Properties of the ORAM and its tree that hold after every admissible run of an oblivious map:
  round trips of nodes and buckets, the geometry of paths, the placement of blocks, the types of
  the stored nodes, the shape of the tree and its height, and the padding of lookups.
\<close>

section \<open>States after a run\<close>

text \<open>A new map after a run of operations, with the abstract map it holds.\<close>

definition admissible :: "env \<Rightarrow> nat \<Rightarrow> nat \<Rightarrow> map_op list \<Rightarrow> bool" where
  "admissible E fuel maxSize ps \<longleftrightarrow>
     env_ok E \<and> maxSize div Z \<noteq> 0 \<and> ilog2 (maxSize div Z) < 31 \<and> omap_top E maxSize < fuel \<and>
     all_ok (omap_ok E (omap_top E maxSize) (omap_cap maxSize)) map_step ps (\<lambda>_. None)"

definition map_after :: "map_op list \<Rightarrow> bid \<Rightarrow> string option" where
  "map_after ps = snd (arun map_step ps (\<lambda>_. None))"

definition omap_after :: "env \<Rightarrow> nat \<Rightarrow> nat \<Rightarrow> bytes \<Rightarrow> map_op list \<Rightarrow> omap res" where
  "omap_after E fuel maxSize key ps =
     ebind (OMAP_new E maxSize key) (\<lambda>m. ebind (crun (omap_step E fuel) ps m) (\<lambda>(_, m). Inr m))"

lemma omap_afterE:
  assumes "admissible E fuel maxSize ps"
  obtains m where "omap_after E fuel maxSize key ps = Inr m"
    "omap_rel E fuel (omap_top E maxSize) (omap_cap maxSize) (map_after ps) m"
proof -
  obtain m where m: "OMAP_new E maxSize key = Inr m" "omap_rel E fuel (omap_top E maxSize) (omap_cap maxSize) (\<lambda>_. None) m"
    using assms omap_rel_new [of E maxSize fuel key] unfolding admissible_def by metis
  obtain m' where "crun (omap_step E fuel) ps m = Inr (fst (arun map_step ps (\<lambda>_. None)), m')"
    "omap_rel E fuel (omap_top E maxSize) (omap_cap maxSize) (map_after ps) m'"
    using omap.run [OF m(2)] assms unfolding admissible_def map_after_def by blast
  then show ?thesis using that m(1) by (simp add: omap_after_def)
qed

lemma omap_relD:
  assumes "omap_rel E fuel h cap f m"
  obtains t V M where "env_ok E" "oram_rep E (m_oram m) {} V M" "tree_at M (m_rootKey m) (m_rootPos m) t" "dom M = tkeys t"
    "ordered t" "avl t" "height t \<le> h" "\<forall>k. tmap t k = map_option value_of (f k)" "\<forall>k s. f k = Some s \<longrightarrow> text_ok s"
  using assms by (auto simp: omap_rel_def omap_rep_def idle_def)

section \<open>Buckets\<close>

definition bucket_at :: "env \<Rightarrow> oram \<Rightarrow> int \<Rightarrow> bucket" where
  "bucket_at E st i = (case ReadBucket E st i of Inl _ \<Rightarrow> [] | Inr (bkt, _) \<Rightarrow> bkt)"

text \<open>
  Node \<open>n\<close> is stored under \<open>k\<close> exactly once: in the stash and in no bucket, or in one bucket, which
  lies on the path of its position, and in no other.
\<close>

definition placed :: "env \<Rightarrow> oram \<Rightarrow> bid \<Rightarrow> node \<Rightarrow> bool" where
  "placed E st k n \<longleftrightarrow>
     (cached st k = Some n \<and> (\<forall>j\<in>all_buckets st. k \<notin> b_id ` set (bucket_at E st j))) \<or>
     (cached st k = None \<and>
       (\<exists>i\<in>path st (npos n). \<lparr>b_id = k, b_data = convertNodeToBlock E n\<rparr> \<in> set (bucket_at E st i) \<and>
         (\<forall>j\<in>all_buckets st. k \<in> b_id ` set (bucket_at E st j) \<longrightarrow> j = i)))"

lemma bucket_at_rep:
  assumes "env_ok E" "oram_rep E st {} V M" "i \<in> all_buckets st"
  shows "bucket_at E st i = bkt_of E st (V i)"
  using ReadBucket_eq [OF assms(1) _ _ assms(3), of V] assms(2) by (simp add: bucket_at_def oram_rep_def)

lemma bucket_at_cong:
  assumes "RAMStore_Read (o_store st') j = RAMStore_Read (o_store st) j" "o_key st' = o_key st"
    "o_clen_size st' = o_clen_size st" "o_blockSize st' = o_blockSize st"
  shows "bucket_at E st' j = bucket_at E st j"
proof (cases "RAMStore_Read (o_store st) j")
  case (Inr c)
  show ?thesis
  proof (cases "Decrypt (e_dec E) (o_key st) c (o_clen_size st)")
    case (Inr b)
    then show ?thesis
      using \<open>RAMStore_Read (o_store st) j = Inr c\<close> assms
      by (cases "deserialise_loop E (o_blockSize st) Z b") (auto simp: bucket_at_def ReadBucket_def DeserialiseBucket_def Let_def)
  qed (use Inr assms in \<open>simp add: bucket_at_def ReadBucket_def Let_def\<close>)
qed (use assms in \<open>simp add: bucket_at_def ReadBucket_def Let_def\<close>)

lemma path_buckets: "geom E st \<Longrightarrow> leaf_ok st l \<Longrightarrow> path st l \<subseteq> all_buckets st"
  using GetNodeOnPath_range geomD(1) by (auto simp: path_def)

lemma key_in_bkt_of:
  assumes "\<not> bid_eq_int k 0"
  shows "k \<in> b_id ` set (bkt_of E st ns) \<longleftrightarrow> k \<in> nkey ` set ns"
proof -
  have "b_id ` set (bkt_of E st ns) = nkey ` set ns \<union> b_id ` set (replicate (Z - length ns) (dummy_blk E st))"
    by (simp add: bkt_of_def image_Un image_image)
  moreover have "k \<notin> b_id ` set (replicate (Z - length ns) (dummy_blk E st))" using assms by (auto simp: dummy_blk_def)
  ultimately show ?thesis by simp
qed

lemma tree_at_value:
  "tree_at M k p t \<Longrightarrow> ordered t \<Longrightarrow> tmap t key = Some v \<Longrightarrow> \<exists>n. M key = Some n \<and> nvalue n = v"
proof (induction M k p t rule: tree_at.induct)
  case (2 M k p l x v' r)
  have o: "ordered l" "ordered r" using ordered_tkeys(1,2) [OF 2(4)] .
  show ?case using 2 o tmap_Node [OF 2(4), of key] by (auto split: if_splits)
qed (simp add: tmap_def)

lemma placed_rep:
  assumes E: "env_ok E" and rep: "oram_rep E st {} V M" and k: "M k = Some n"
  shows "nkey n = k" "good E st n" "placed E st k n"
proof -
  have geom: "geom E st" and c: "cache_ok E st" and l: "live_ok E st {} V"
    and m: "\<And>k n. M k = Some n \<longleftrightarrow> cached st k = Some n \<or> (\<exists>i\<in>all_buckets st. n \<in> set (V i) \<and> nkey n = k)"
    using rep by (auto simp: oram_rep_def mem_ok_def)
  show g: "nkey n = k" "good E st n" using k m c l by (auto simp: cache_ok_def live_ok_def)
  have nz: "\<not> bid_eq_int k 0" using g not_dummy_nonzero by (auto simp: good_def)
  have b: "k \<in> b_id ` set (bucket_at E st j) \<longleftrightarrow> k \<in> nkey ` set (V j)" if "j \<in> all_buckets st" for j
    using bucket_at_rep [OF E rep that] key_in_bkt_of [OF nz] by simp
  show "placed E st k n"
  proof (cases "cached st k")
    case None
    then obtain i where i: "i \<in> all_buckets st" "n \<in> set (V i)" using k m by auto
    then have "i \<in> path st (npos n)" using l by (auto simp: live_ok_def)
    moreover have "\<lparr>b_id = k, b_data = convertNodeToBlock E n\<rparr> \<in> set (bucket_at E st i)"
      using bucket_at_rep [OF E rep i(1)] i(2) g(1) by (auto simp: bkt_of_def)
    moreover have "j = i" if j: "j \<in> all_buckets st" "k \<in> b_id ` set (bucket_at E st j)" for j
    proof (rule ccontr)
      assume "j \<noteq> i"
      then have "nkey ` set (V j) \<inter> nkey ` set (V i) = {}" using l i(1) j(1) by (auto simp: live_ok_def)
      moreover have "k \<in> nkey ` set (V j)" using b [OF j(1)] j(2) by simp
      moreover have "k \<in> nkey ` set (V i)" using i(2) g(1) by auto
      ultimately show False by blast
    qed
    ultimately show ?thesis using None by (auto simp: placed_def)
  next
    case (Some n')
    then have "n' = n" using k m by (metis option.inject)
    moreover have "k \<notin> b_id ` set (bucket_at E st j)" if "j \<in> all_buckets st" for j
    proof -
      have "cached st (nkey x) = None" if "x \<in> set (V j)" for x using l \<open>j \<in> all_buckets st\<close> that by (auto simp: live_ok_def)
      then have "k \<notin> nkey ` set (V j)" using Some by auto
      then show ?thesis using b [OF that] by simp
    qed
    ultimately show ?thesis using Some by (simp add: placed_def)
  qed
qed

section \<open>The number of path reads\<close>

lemma ReadBucket_readCnt: "ReadBucket E st i = Inr (b, st') \<Longrightarrow> o_readCnt st' = o_readCnt st \<and> o_depth st' = o_depth st"
  by (auto simp: ReadBucket_def Let_def ebind_Inr_conv)

lemma fetch_blocks_readCnt: "fetch_blocks E bs st = Inr st' \<Longrightarrow> o_readCnt st' = o_readCnt st \<and> o_depth st' = o_depth st"
  by (induction E bs st rule: fetch_blocks.induct) (auto simp: ebind_Inr_conv cache_put_def split: if_splits)

lemma fetch_levels_readCnt: "fetch_levels E leaf ds st = Inr st' \<Longrightarrow> o_readCnt st' = o_readCnt st \<and> o_depth st' = o_depth st"
proof (induction ds arbitrary: st)
  case (Cons d ds)
  then show ?case
    by (auto simp: Let_def ebind_Inr_conv dest!: ReadBucket_readCnt fetch_blocks_readCnt split: if_splits)
qed simp

lemma FetchPath_readCnt: "FetchPath E st leaf = Inr st' \<Longrightarrow> o_readCnt st' = o_readCnt st + 1 \<and> o_depth st' = o_depth st"
  by (auto simp: FetchPath_def dest!: fetch_levels_readCnt)

lemma fake_reads_readCnt: "fake_reads E m st = Inr st' \<Longrightarrow> o_readCnt st' = o_readCnt st + m \<and> o_depth st' = o_depth st"
proof (induction m arbitrary: st)
  case (Suc m)
  then show ?case
    by (auto simp: Let_def ebind_Inr_conv ORAM_RandomPath_def add_leaf_def dest!: FetchPath_readCnt split: if_splits)
qed simp

lemma refresh_nodes_readCnt: "refresh_nodes E i bs st = Inr st' \<Longrightarrow> o_readCnt st' = o_readCnt st"
  by (induction bs arbitrary: st)
    (auto simp: refresh_node_def Let_def ebind_Inr_conv ORAM_RandomPath_def cache_put_def split: option.splits if_splits)

lemma refresh_levels_readCnt: "refresh_levels E is st = Inr st' \<Longrightarrow> o_readCnt st' = o_readCnt st"
  by (induction "is" arbitrary: st) (auto simp: ebind_Inr_conv dest!: refresh_nodes_readCnt)

lemma evict_readCnt: "o_readCnt (snd (evict_blocks E bids st)) = o_readCnt st"
  by (induction E bids st rule: evict_blocks.induct) (auto simp: Let_def cache_erase_def split: option.splits prod.splits)

lemma WritePath_readCnt: "WritePath E leaf d st = Inr st' \<Longrightarrow> o_readCnt st' = o_readCnt st"
  using evict_readCnt [of E "GetIntersectingBlocks E st leaf d" st]
  by (auto simp: WritePath_def Let_def WriteBucket_def ebind_Inr_conv split: if_splits prod.splits)

lemma write_levels_readCnt: "write_levels E ds st = Inr st' \<Longrightarrow> o_readCnt st' = o_readCnt st"
proof (induction ds arbitrary: st)
  case (Cons d ds)
  have "write_leaves E d ls s = Inr s' \<Longrightarrow> o_readCnt s' = o_readCnt s" for ls s s'
    by (induction ls arbitrary: s) (auto simp: ebind_Inr_conv dest!: WritePath_readCnt)
  then show ?case using Cons by (auto simp: ebind_Inr_conv)
qed simp

lemma finilize_readCnt:
  assumes "finilize E isFind k p st = Inr (p', st')" "\<not> o_batchWrite st"
  shows "o_readCnt st' = max (o_readCnt st) (pad_bound isFind (o_depth st))"
proof -
  let ?m = "pad_bound isFind (o_depth st) - o_readCnt st"
  obtain st1 st2 st3 st4 where s: "fake_reads E ?m st = Inr st1" "refresh_levels E (refresh_range E st1) st1 = Inr st2"
    "st3 = (if cache_count st2 k then st2 else cache_put k None st2)"
    "write_levels E (rev [0..<Suc (o_depth st3)]) st3 = Inr st4" "st' = st4\<lparr>o_leafList := [], o_modified := []\<rparr>"
    using assms unfolding finilize_def Let_def ebind_Inr_conv by auto
  have "o_readCnt st1 = o_readCnt st + ?m" using fake_reads_readCnt [OF s(1)] by simp
  moreover have "o_readCnt st2 = o_readCnt st1" using refresh_levels_readCnt [OF s(2)] .
  moreover have "o_readCnt st3 = o_readCnt st2" using s(3) by (simp add: cache_put_def)
  moreover have "o_readCnt st4 = o_readCnt st3" using write_levels_readCnt [OF s(4)] .
  ultimately show ?thesis using s(5) by simp
qed

section \<open>Lookups are padded\<close>

lemma finish_readCnt:
  assumes "finishOperation E isFind m = Inr m'" "\<not> o_batchWrite (m_oram m)"
  shows "o_readCnt (m_oram m') = max (o_readCnt (m_oram m)) (pad_bound isFind (o_depth (m_oram m)))"
  using assms finilize_readCnt by (fastforce simp: finishOperation_def ebind_Inr_conv)

lemma find_readCnt:
  assumes E: "env_ok E" and m: "omap_rep E m t" and ne: "t \<noteq> Leaf" and key: "bid_wf (ID_SIZE (e_scheme E)) key"
    and fuel: "top_height E (m_oram m) < fuel" and run: "OMAP_find E fuel key m = Inr (s, m')"
  shows "pad_bound True (o_depth (m_oram m)) \<le> o_readCnt (m_oram m')"
proof -
  let ?m = "startOperation False m"
  obtain M where M: "opst E (m_oram ?m) M" "tree_at M (m_rootKey ?m) (m_rootPos ?m) t" "dom M = tkeys t"
    and o: "ordered t" "avl t" "closed (m_oram ?m) t" "m_dummyValue ?m = o_dummyValue (m_oram ?m)"
    using start_op [OF m] by (auto simp: omap_op_def)
  have hf: "height t < fuel" using m fuel by (simp add: omap_rep_def)
  have nz: "\<not> bid_eq_int (m_rootKey m) 0"
    using tree_at_zero [OF M(1,2)] ne by (simp add: startOperation_def)
  have stub: "tree_at M (nkey (root_stub E ?m)) (npos (root_stub E ?m)) t" using M(2) by (simp add: root_stub_def)
  obtain res st' where S: "AVL_search E (m_dummyValue ?m) fuel (Some (root_stub E ?m)) key (m_oram ?m) = Inr (res, st')"
    "opst E st' M" "eff 0 (tkeys t) (m_oram ?m) st'"
    using AVL_search_op [OF E key M(1) stub ne o(1,3,4) hf] by blast
  have b: "\<not> o_batchWrite (m_oram (?m\<lparr>m_oram := st'\<rparr>))" using S(2) by (simp add: opst_def)
  have d: "o_depth st' = o_depth (m_oram m)"
    using S(3) cfgD(1) [of st' "m_oram ?m"] by (simp add: eff_def startOperation_def ORAM_start_def)
  have "finishOperation E True (?m\<lparr>m_oram := st'\<rparr>) = Inr m'"
    using run nz S(1) by (auto simp: OMAP_find_def Let_def ebind_Inr_conv)
  then show ?thesis using finish_readCnt [OF _ b] d by simp
qed

section \<open>Properties\<close>


definition sample_node :: "nat \<Rightarrow> int \<Rightarrow> node" where
  "sample_node w p = \<lparr>nkey = Bid_int w 5, nvalue = replicate 16 65, npos = p, nleftID = Bid_int w 0, nleftPos = - 1,
     nrightID = Bid_int w 0, nrightPos = - 1, nevictionNode = 0, nheight = 1\<rparr>"


text \<open>
  (C18) A bucket of at most four nodes that is serialised, encrypted and written is read back with
  its nodes first and dummy blocks behind, and the other buckets are untouched.
\<close>

theorem bucket_roundtrip:
  assumes "env_ok E" "geom E st" "i \<in> all_buckets st" "bucket_ok E ns"
  shows "\<exists>st'. WriteBucket E st i (bkt_of E st ns) = Inr st' \<and>
    ReadBucket E st' i = Inr (bkt_of E st ns, st'\<lparr>o_totalRead := o_totalRead st' + 1\<rparr>) \<and>
    (\<forall>j\<in>all_buckets st - {i}. bucket_at E st' j = bucket_at E st j)"
proof -
  obtain c where c: "slot_ok E st c ns"
    "WriteBucket E st i (bkt_of E st ns) = Inr (st\<lparr>o_totalWrite := o_totalWrite st + 1, o_ivs := o_ivs st + 1,
       o_store := (o_store st)\<lparr>rs_store := (rs_store (o_store st))[nat i := c]\<rparr>\<rparr>)" (is "_ = Inr ?st'")
    by (rule WriteBucket_run [OF assms])
  have cfg: "cfg ?st' = cfg st" by (simp add: cfg_def)
  have i: "nat i < length (rs_store (o_store st))" "0 \<le> i" using bucket_index [OF assms(2,3)] by auto
  obtain iv where iv: "length iv = 16" "c = e_enc E (o_key st) iv (plain_of E st ns) @ iv" using c(1) by (auto simp: slot_ok_def)
  have ci: "cipher_ok (e_enc E) (e_dec E)" using assms(1) by (rule env_okD)
  have len: "length (plain_of E st ns) = Z * o_blockSize st" using assms(1,2,4) by (rule length_plain_of)
  have clen: "o_clen_size st = GetCiphertextLength (Z * o_blockSize st)" using assms(2) by (simp add: geom_def)
  have rd: "RAMStore_Read (o_store ?st') i = Inr c" using i by (simp add: RAMStore_Read_def)
  have dec: "Decrypt (e_dec E) (o_key st) c (o_clen_size st) = Inr (plain_of E st ns)"
    using Decrypt_Encrypt [OF ci iv(1) len, of "o_key st"] Encrypt_eq [OF ci iv(1) len] clen iv(2) by simp
  have "deserialise_loop E (o_blockSize st) (length (bkt_of E st ns)) (plain_of E st ns) = Inr (bkt_of E st ns)"
    unfolding plain_of_def using blk_of_bkt [OF assms(1,2,4)] by (intro deserialise_loop_eq) blast
  then have "DeserialiseBucket E (?st'\<lparr>o_totalRead := k\<rparr>) (plain_of E st ns) = Inr (bkt_of E st ns)" for k
    using assms(4) len by (simp add: DeserialiseBucket_def length_bkt_of bucket_ok_def)
  then have "ReadBucket E ?st' i = Inr (bkt_of E st ns, ?st'\<lparr>o_totalRead := o_totalRead ?st' + 1\<rparr>)"
    using rd dec by (simp add: ReadBucket_def Let_def)
  moreover have "bucket_at E ?st' j = bucket_at E st j" if "j \<in> all_buckets st - {i}" for j
  proof -
    have "nat j \<noteq> nat i" using that i(2) by (auto simp: all_buckets_def)
    then show ?thesis by (intro bucket_at_cong) (simp_all add: RAMStore_Read_def)
  qed
  ultimately show ?thesis using c(2) by blast
qed

lemma write_empty_depth: "write_empty_buckets E is st = Inr st' \<Longrightarrow> o_depth st' = o_depth st"
  by (induction E "is" st rule: write_empty_buckets.induct) (auto simp: WriteBucket_def Let_def ebind_Inr_conv)

lemma geom_new:
  assumes "env_ok E" "maxSize div Z \<noteq> 0" "ilog2 (maxSize div Z) < 31"
  obtains st where "ORAM_new E maxSize key = Inr st" "geom E st" "o_depth st = ilog2 (maxSize div Z)"
    "e_scheme E \<noteq> Horus \<longrightarrow> refresh_range E st = [1..<omap_top E maxSize + 1]"
proof -
  obtain st where st: "ORAM_new E maxSize key = Inr st" "idle E st (\<lambda>_. None)" "top_height E st = omap_top E maxSize"
    by (rule ORAM_new_idle [OF assms])
  have g: "geom E st" using st(2) by (auto simp: idle_def oram_rep_def)
  have d: "o_depth st = ilog2 (maxSize div Z)"
    using st(1) assms(2) by (auto simp: ORAM_new_def Let_def dest!: write_empty_depth)
  have "e_scheme E \<noteq> Horus \<longrightarrow> refresh_range E st = [1..<omap_top E maxSize + 1]"
    using st(3) by (cases "e_scheme E = Horus") (simp_all add: refresh_range_def top_height_def)
  then show ?thesis using that st(1) g d by blast
qed

theorem bucket_roundtrip_witness:
  "\<exists>st st'. ORAM_new (toy_env Mitra) 8 [1] = Inr st \<and>
     WriteBucket (toy_env Mitra) st 1 (bkt_of (toy_env Mitra) st [sample_node 16 1]) = Inr st' \<and>
     bucket_at (toy_env Mitra) st' 1 = bkt_of (toy_env Mitra) st [sample_node 16 1] \<and>
     bucket_at (toy_env Mitra) st' 2 = bucket_at (toy_env Mitra) st 2"
proof -
  have sz: "8 div Z \<noteq> 0" "ilog2 (8 div Z) < 31" by (simp_all add: Z_def ilog2.simps)
  obtain st where st: "ORAM_new (toy_env Mitra) 8 [1] = Inr st" "geom (toy_env Mitra) st" "o_depth st = ilog2 (8 div Z)"
    using geom_new [OF env_ok_toy sz] by metis
  have "o_bucketCount st = 3" using geomD(1) [OF st(2)] st(3) by (simp add: Z_def ilog2.simps)
  then have b: "1 \<in> all_buckets st" "2 \<in> all_buckets st - {1}" by (simp_all add: all_buckets_def)
  have "bucket_ok (toy_env Mitra) [sample_node 16 1]" by code_simp
  from bucket_roundtrip [OF env_ok_toy st(2) b(1) this] show ?thesis
    using st(1) b(2) by (auto simp: bucket_at_def)
qed

text \<open>
  (C21) The geometry of paths: every bucket on the path to a leaf is inside the store, the path
  starts at the root bucket 0, ends at the bucket of the leaf, and each bucket is the parent of the
  next one.
\<close>

theorem path_geometry:
  assumes "geom E st" "leaf_ok st l" "d \<le> o_depth st"
  shows "0 \<le> GetNodeOnPath st l d \<and> GetNodeOnPath st l d < int (length (rs_store (o_store st))) \<and>
    GetNodeOnPath st l 0 = 0 \<and> GetNodeOnPath st l (o_depth st) = l + 2 ^ o_depth st - 1 \<and>
    (d < o_depth st \<longrightarrow> GetNodeOnPath st l (Suc d) \<in> {2 * GetNodeOnPath st l d + 1, 2 * GetNodeOnPath st l d + 2})"
proof -
  note b = geomD(1) [OF assms(1)]
  have "GetNodeOnPath st l d \<in> all_buckets st" using GetNodeOnPath_range [OF b assms(2,3)] .
  moreover have "GetNodeOnPath st l (Suc d) \<in> {2 * GetNodeOnPath st l d + 1, 2 * GetNodeOnPath st l d + 2}" if "d < o_depth st"
    using GetNodeOnPath_parent [OF b assms(2) that] by auto
  ultimately show ?thesis
    using GetNodeOnPath_root [OF b assms(2)] GetNodeOnPath_leaf [OF b assms(2)] geomD(4) [OF assms(1)]
    by (auto simp: all_buckets_def)
qed

theorem path_geometry_witness:
  "\<exists>st. ORAM_new (toy_env Mitra) 16 [1] = Inr st \<and> GetNodeOnPath st 2 0 = 0 \<and> GetNodeOnPath st 2 2 = 5 \<and>
     GetNodeOnPath st 2 1 < int (length (rs_store (o_store st)))"
proof -
  have sz: "16 div Z \<noteq> 0" "ilog2 (16 div Z) < 31" by (simp_all add: Z_def ilog2.simps)
  obtain st where st: "ORAM_new (toy_env Mitra) 16 [1] = Inr st" "geom (toy_env Mitra) st" "o_depth st = ilog2 (16 div Z)"
    using geom_new [OF env_ok_toy sz] by metis
  have d: "o_depth st = 2" using st(3) by (simp add: Z_def ilog2.simps)
  have l: "leaf_ok st 2" "1 \<le> o_depth st" using d by (simp_all add: leaf_ok_def)
  show ?thesis using path_geometry [OF st(2) l] st(1) d by auto
qed

text \<open>
  (C9) The invariant between operations, after every admissible run: the ORAM holds exactly the
  nodes of an AVL search tree that hangs at the root key, with correct positions, heights and
  links, whose contents are the abstract map and whose height stays within the levels that
  \<open>finilize\<close> refreshes.
\<close>

theorem omap_invariant:
  assumes "admissible E fuel maxSize ps"
  shows "\<exists>m M t. omap_after E fuel maxSize key ps = Inr m \<and> idle E (m_oram m) M \<and>
    tree_at M (m_rootKey m) (m_rootPos m) t \<and> dom M = tkeys t \<and> ordered t \<and> avl t \<and> height t \<le> omap_top E maxSize \<and>
    (\<forall>k. tmap t k = map_option value_of (map_after ps k))"
proof -
  obtain m where m: "omap_after E fuel maxSize key ps = Inr m"
    "omap_rel E fuel (omap_top E maxSize) (omap_cap maxSize) (map_after ps) m"
    by (rule omap_afterE [OF assms])
  obtain t M where "idle E (m_oram m) M" "tree_at M (m_rootKey m) (m_rootPos m) t" "dom M = tkeys t" "ordered t" "avl t"
    "height t \<le> omap_top E maxSize" "\<forall>k. tmap t k = map_option value_of (map_after ps k)"
    using m(2) by (auto simp: omap_rel_def omap_rep_def)
  then show ?thesis using m(1) by blast
qed

text \<open>Three insertions and an overwriting one.\<close>

definition sample_ops :: "map_op list" where
  "sample_ops = [Put (Bid_int 16 3) ''x'', Put (Bid_int 16 2) ''y'', Put (Bid_int 16 1) ''z'', Put (Bid_int 16 3) ''w'']"

lemma sample_admissible: "admissible (toy_env Mitra) 20 8 sample_ops"
  and sample_map: "map_after sample_ops (Bid_int 16 3) = Some ''w''"
proof -
  have k: "key_ok (toy_env Mitra) 0 (Bid_int 16 3)" "key_ok (toy_env Mitra) 0 (Bid_int 16 2)" "key_ok (toy_env Mitra) 0 (Bid_int 16 1)"
    by code_simp+
  have t: "omap_top (toy_env Mitra) 8 = 4" "omap_cap 8 = 12" "min_size 5 = 12" by code_simp+
  have d: "Bid_int 16 3 \<noteq> Bid_int 16 2" "Bid_int 16 3 \<noteq> Bid_int 16 1" "Bid_int 16 1 \<noteq> Bid_int 16 2" by code_simp+
  have s: "text_ok ''x''" "text_ok ''y''" "text_ok ''z''" "text_ok ''w''" by (simp_all add: text_ok_def NUL_char)
  have "all_ok (omap_ok (toy_env Mitra) (omap_top (toy_env Mitra) 8) (omap_cap 8)) map_step sample_ops (\<lambda>_. None)"
    unfolding t sample_ops_def using k d d [symmetric] s by (simp add: t insert_absorb card_insert_if)
  moreover have "8 div Z \<noteq> 0" "ilog2 (8 div Z) < 31" "omap_top (toy_env Mitra) 8 < 20" unfolding t by (simp_all add: Z_def ilog2.simps)
  ultimately show "admissible (toy_env Mitra) 20 8 sample_ops" using env_ok_toy by (simp add: admissible_def)
  show "map_after sample_ops (Bid_int 16 3) = Some ''w''" by (simp add: map_after_def sample_ops_def)
qed

theorem omap_invariant_witness:
  "\<exists>m M t. omap_after (toy_env Mitra) 20 8 [1] sample_ops = Inr m \<and> idle (toy_env Mitra) (m_oram m) M \<and>
     tree_at M (m_rootKey m) (m_rootPos m) t \<and> avl t \<and> tmap t (Bid_int 16 3) = Some (value_of ''w'')"
proof -
  obtain m M t where "omap_after (toy_env Mitra) 20 8 [1] sample_ops = Inr m" "idle (toy_env Mitra) (m_oram m) M"
    "tree_at M (m_rootKey m) (m_rootPos m) t" "avl t" "\<forall>k. tmap t k = map_option value_of (map_after sample_ops k)"
    using omap_invariant [OF sample_admissible, of "[1]"] by blast
  moreover from this have "tmap t (Bid_int 16 3) = Some (value_of ''w'')" using sample_map by simp
  ultimately show ?thesis by blast
qed

text \<open>
  (C8) Where the blocks are, after every admissible run: each key of the map is stored exactly once,
  either in the client's stash and in no bucket or in exactly one bucket, which lies on the path of
  the position recorded in its node; and the node carries the value of the abstract map. No block is
  lost or duplicated by the eviction.
\<close>

theorem block_placement:
  assumes "admissible E fuel maxSize ps"
  shows "\<exists>m. omap_after E fuel maxSize key ps = Inr m \<and>
    (\<forall>k s. map_after ps k = Some s \<longrightarrow> (\<exists>n. nkey n = k \<and> nvalue n = value_of s \<and> placed E (m_oram m) k n))"
proof -
  obtain m where m: "omap_after E fuel maxSize key ps = Inr m"
    "omap_rel E fuel (omap_top E maxSize) (omap_cap maxSize) (map_after ps) m"
    by (rule omap_afterE [OF assms])
  obtain t V M where t: "env_ok E" "oram_rep E (m_oram m) {} V M" "tree_at M (m_rootKey m) (m_rootPos m) t" "dom M = tkeys t"
    "ordered t" "avl t" "height t \<le> omap_top E maxSize" "\<forall>k. tmap t k = map_option value_of (map_after ps k)"
    by (rule omap_relD [OF m(2)])
  have "\<exists>n. nkey n = k \<and> nvalue n = value_of s \<and> placed E (m_oram m) k n" if "map_after ps k = Some s" for k s
  proof -
    have "tmap t k = Some (value_of s)" using t(8) that by simp
    then obtain n where "M k = Some n" "nvalue n = value_of s" using tree_at_value [OF t(3,5)] by blast
    then show ?thesis using placed_rep [OF t(1,2)] by blast
  qed
  then show ?thesis using m(1) by blast
qed

theorem block_placement_witness:
  "\<exists>m n. omap_after (toy_env Mitra) 20 8 [1] sample_ops = Inr m \<and> nvalue n = value_of ''w'' \<and>
     placed (toy_env Mitra) (m_oram m) (Bid_int 16 3) n"
  using block_placement [OF sample_admissible, of "[1]"] sample_map by blast

text \<open>
  (C19) Types of what is stored, after every admissible run: every bucket decrypts to at most four
  nodes and dummy blocks, and every node in a bucket or in the stash has identifiers of the scheme's
  width, a 16-byte value, fields within \<open>int\<close>, an identifier that does not read as a dummy and a
  position that is a leaf of the tree.
\<close>

theorem stored_nodes_typed:
  assumes "admissible E fuel maxSize ps"
  shows "\<exists>m. omap_after E fuel maxSize key ps = Inr m \<and>
    (\<forall>i\<in>all_buckets (m_oram m). \<exists>ns. bucket_at E (m_oram m) i = bkt_of E (m_oram m) ns \<and> length ns \<le> Z \<and>
       (\<forall>n\<in>set ns. good E (m_oram m) n)) \<and>
    (\<forall>k n. cached (m_oram m) k = Some n \<longrightarrow> nkey n = k \<and> good E (m_oram m) n)"
proof -
  obtain m where m: "omap_after E fuel maxSize key ps = Inr m"
    "omap_rel E fuel (omap_top E maxSize) (omap_cap maxSize) (map_after ps) m"
    by (rule omap_afterE [OF assms])
  obtain t V M where t: "env_ok E" "oram_rep E (m_oram m) {} V M"
    by (rule omap_relD [OF m(2)])
  have "bucket_at E (m_oram m) i = bkt_of E (m_oram m) (V i) \<and> length (V i) \<le> Z \<and> (\<forall>n\<in>set (V i). good E (m_oram m) n)"
    if "i \<in> all_buckets (m_oram m)" for i
    using bucket_at_rep [OF t that] t(2) that by (auto simp: oram_rep_def store_rep_def bucket_ok_def live_ok_def)
  moreover have "nkey n = k \<and> good E (m_oram m) n" if "cached (m_oram m) k = Some n" for k n
    using t(2) that by (auto simp: oram_rep_def cache_ok_def)
  ultimately show ?thesis using m(1) by blast
qed

theorem stored_nodes_typed_witness:
  "\<exists>m. omap_after (toy_env Mitra) 20 8 [1] sample_ops = Inr m \<and>
     (\<forall>k n. cached (m_oram m) k = Some n \<longrightarrow> good (toy_env Mitra) (m_oram m) n)"
  using stored_nodes_typed [OF sample_admissible, of "[1]"] by blast

text \<open>
  (C20) Padding of lookups: after every admissible run that leaves the map non-empty, a lookup fetches
  at least \<open>1.45 depth\<close> paths, whether the key is present or not and wherever it is in the tree.
\<close>

theorem lookup_padded:
  assumes "admissible E fuel maxSize ps" "map_after ps k0 \<noteq> None" "bid_wf (ID_SIZE (e_scheme E)) k"
  shows "\<exists>m s m'. omap_after E fuel maxSize key ps = Inr m \<and> OMAP_find E fuel k m = Inr (s, m') \<and>
    (145 * o_depth (m_oram m) + 99) div 100 \<le> o_readCnt (m_oram m')"
proof -
  obtain m where m: "omap_after E fuel maxSize key ps = Inr m"
    "omap_rel E fuel (omap_top E maxSize) (omap_cap maxSize) (map_after ps) m"
    by (rule omap_afterE [OF assms(1)])
  obtain t where t: "omap_rep E m t" "env_ok E" "omap_top E maxSize < fuel" "top_height E (m_oram m) = omap_top E maxSize"
    "tkeys t = dom (map_after ps)" using omap_relE [OF m(2)] by metis
  have ne: "t \<noteq> Leaf" using t(5) assms(2) by auto
  have fuel: "top_height E (m_oram m) < fuel" using t(3,4) by simp
  obtain s m' where f: "OMAP_find E fuel k m = Inr (s, m')"
    using OMAP_find_rep [OF t(2,1) assms(3) fuel] by metis
  show ?thesis using m(1) f find_readCnt [OF t(2,1) ne assms(3) fuel f] by (auto simp: pad_bound_def)
qed

theorem lookup_padded_witness:
  "\<exists>m s m'. omap_after (toy_env Mitra) 20 8 [1] sample_ops = Inr m \<and> OMAP_find (toy_env Mitra) 20 (Bid_int 16 9) m = Inr (s, m') \<and>
     (145 * o_depth (m_oram m) + 99) div 100 \<le> o_readCnt (m_oram m')"
proof -
  have "bid_wf (ID_SIZE (e_scheme (toy_env Mitra))) (Bid_int 16 9)" by code_simp
  moreover have "map_after sample_ops (Bid_int 16 3) \<noteq> None" using sample_map by simp
  ultimately show ?thesis using lookup_padded [OF sample_admissible] by blast
qed

definition skewed_keys :: "bid list" where
  "skewed_keys = map (Bid_int 16) [34, 21, 47, 13, 29, 42, 52, 8, 18, 26, 32, 39, 45, 50, 54, 5, 11, 16, 20, 24, 28, 31, 33,
     37, 41, 44, 46, 49, 51, 53, 3, 7, 10, 12, 15, 17, 19, 23, 25, 27, 30, 36, 38, 40, 43, 48, 2, 4, 6, 9, 14, 22, 35, 1]"

lemma skewed_height: "height (fold (\<lambda>k t. ins k (replicate 16 (0::byte)) t) skewed_keys Leaf) = 8"
  by code_simp



end
