(* ===== verification/Rocks_Store.thy ===== *)
theory Rocks_Store
  imports Sse_Spec
begin

text \<open>
  The disk storage of \<open>utils/rocksdb_wrapper.hpp\<close> and \<open>rocksdb_wrapper.cpp\<close>: the classes
  \<open>RockDBWrapper\<close>, \<open>RocksDBCounter\<close> and \<open>RockDBListStore\<close> over the RocksDB library. The library is
  a parameter; \<open>rocks_ok\<close> states the documented behaviour of \<open>Put\<close> and \<open>Delete\<close>. An object is its
  member \<open>db_\<close>, \<open>None\<close> being the null pointer that a failed \<open>DB::Open\<close> leaves behind.
\<close>

section \<open>The library\<close>

text \<open>
  The options the constructors set. \<open>ro_table_factory\<close> and \<open>ro_delayed_write_rate\<close> are \<open>None\<close> where
  the library's default stays; the cuckoo table has \<open>identity_as_first_hash\<close> and
  \<open>hash_table_ratio\<close> as numerator and denominator.
\<close>

datatype compression = kNoCompression | kDisableCompressionOption
datatype compaction = kCompactionStyleLevel
datatype log_level = ERROR_LEVEL

record cuckoo_options =
  identity_as_first_hash :: bool
  hash_table_ratio :: "nat \<times> nat"

record rocks_options =
  ro_create_if_missing :: bool
  ro_table_cache_numshardbits :: int
  ro_max_open_files :: int
  ro_table_factory :: "cuckoo_options option"
  ro_compression :: compression
  ro_bottommost_compression :: compression
  ro_compaction_style :: compaction
  ro_info_log_level :: log_level
  ro_delayed_write_rate :: "int option"
  ro_max_background_compactions :: int
  ro_allow_mmap_reads :: bool
  ro_new_table_reader_for_compaction_inputs :: bool
  ro_allow_concurrent_memtable_write :: bool
  ro_max_bytes_for_level_base :: int
  ro_arena_block_size :: int
  ro_level0_file_num_compaction_trigger :: int
  ro_level0_slowdown_writes_trigger :: int
  ro_hard_pending_compaction_bytes_limit :: int
  ro_target_file_size_base :: int
  ro_write_buffer_size :: int

text \<open>
  \<open>k_get\<close> takes \<open>ReadOptions::verify_checksums\<close> and is \<open>None\<close> when the status is not ok; the
  writing operations return whether the status is ok.
\<close>

record 'd rocks =
  k_open :: "rocks_options \<Rightarrow> string \<Rightarrow> 'd option"
  k_get :: "bool \<Rightarrow> 'd \<Rightarrow> bytes \<Rightarrow> bytes option"
  k_put :: "'d \<Rightarrow> bytes \<Rightarrow> bytes \<Rightarrow> bool \<times> 'd"
  k_delete :: "'d \<Rightarrow> bytes \<Rightarrow> bool \<times> 'd"
  k_flush :: "bool \<Rightarrow> 'd \<Rightarrow> bool \<times> 'd"
  k_numKeys :: "'d \<Rightarrow> 64 word option"
  k_concurrent :: bool

definition rocks_ok :: "'d rocks \<Rightarrow> bool" where
  "rocks_ok K \<longleftrightarrow>
     (\<forall>d k v d'. k_put K d k v = (True, d') \<longrightarrow>
        (\<forall>c k'. k_get K c d' k' = (if k' = k then Some v else k_get K c d k'))) \<and>
     (\<forall>d k d'. k_delete K d k = (True, d') \<longrightarrow>
        (\<forall>c k'. k_get K c d' k' = (if k' = k then None else k_get K c d k')))"

text \<open>No write fails: the disk is neither full nor faulty.\<close>

definition rocks_healthy :: "'d rocks \<Rightarrow> bool" where
  "rocks_healthy K \<longleftrightarrow> (\<forall>d k v. fst (k_put K d k v)) \<and> (\<forall>d k. fst (k_delete K d k))"

lemma rocks_put: "rocks_ok K \<Longrightarrow> k_put K d k v = (True, d') \<Longrightarrow> k_get K c d' k' = (if k' = k then Some v else k_get K c d k')"
  unfolding rocks_ok_def by blast

lemma rocks_delete: "rocks_ok K \<Longrightarrow> k_delete K d k = (True, d') \<Longrightarrow> k_get K c d' k' = (if k' = k then None else k_get K c d k')"
  unfolding rocks_ok_def by blast

lemma healthy_put: "rocks_healthy K \<Longrightarrow> \<exists>d'. k_put K d k v = (True, d')"
  unfolding rocks_healthy_def by (metis prod.collapse)

lemma healthy_delete: "rocks_healthy K \<Longrightarrow> \<exists>d'. k_delete K d k = (True, d')"
  unfolding rocks_healthy_def by (metis prod.collapse)

text \<open>Every member dereferences \<open>db_\<close>.\<close>

definition with_db :: "'d option \<Rightarrow> ('d \<Rightarrow> 'b res) \<Rightarrow> 'b res" where
  "with_db db f = (case db of None \<Rightarrow> Inl NullDeref | Some d \<Rightarrow> f d)"

lemma with_db_simps [simp]: "with_db None f = Inl NullDeref" "with_db (Some d) f = f d"
  by (simp_all add: with_db_def)

text \<open>\<open>memcpy(&val, data.data(), n)\<close> of a string, whose \<open>data()\<close> ends in a NUL.\<close>

definition mem_read :: "nat \<Rightarrow> bytes \<Rightarrow> bytes res" where
  "mem_read n data = (if length data + 1 < n then Inl BadIndex else Inr (take n (data @ [0])))"

lemma mem_read_exact [simp]: "length data = n \<Longrightarrow> mem_read n data = Inr data"
  by (simp add: mem_read_def)

section \<open>Opening a database\<close>

definition common_options :: "'d rocks \<Rightarrow> rocks_options" where
  "common_options K =
     \<lparr>ro_create_if_missing = True, ro_table_cache_numshardbits = 4, ro_max_open_files = - 1, ro_table_factory = None,
      ro_compression = kNoCompression, ro_bottommost_compression = kDisableCompressionOption,
      ro_compaction_style = kCompactionStyleLevel, ro_info_log_level = ERROR_LEVEL,
      ro_delayed_write_rate = Some 8388608, ro_max_background_compactions = 20,
      ro_allow_mmap_reads = True, ro_new_table_reader_for_compaction_inputs = True,
      ro_allow_concurrent_memtable_write = k_concurrent K, ro_max_bytes_for_level_base = 4294967296,
      ro_arena_block_size = 134217728, ro_level0_file_num_compaction_trigger = 10,
      ro_level0_slowdown_writes_trigger = 16, ro_hard_pending_compaction_bytes_limit = 137438953472,
      ro_target_file_size_base = 201327616, ro_write_buffer_size = 1073741824\<rparr>"

definition wrapper_options :: "'d rocks \<Rightarrow> rocks_options" where
  "wrapper_options K =
     (let level_base = 3 * 1024 * 1024; buffer = level_base div 10 in
      (common_options K)
        \<lparr>ro_table_factory := Some \<lparr>identity_as_first_hash = False, hash_table_ratio = (9, 10)\<rparr>,
         ro_delayed_write_rate := None, ro_max_bytes_for_level_base := level_base,
         ro_write_buffer_size := buffer, ro_arena_block_size := buffer div 8,
         ro_target_file_size_base := level_base div 10\<rparr>)"

definition RocksDBCounter_new :: "'d rocks \<Rightarrow> string \<Rightarrow> 'd option" where
  "RocksDBCounter_new K path = k_open K (common_options K) path"

definition RockDBWrapper_new :: "'d rocks \<Rightarrow> string \<Rightarrow> 'd option" where
  "RockDBWrapper_new K path = k_open K (wrapper_options K) path"

definition RockDBListStore_new :: "'d rocks \<Rightarrow> string \<Rightarrow> 'd option" where
  "RockDBListStore_new K path = k_open K (common_options K) path"

section \<open>Counters\<close>

definition u32_bytes :: "32 word \<Rightarrow> bytes" where
  "u32_bytes w = le32 (uint w)"

definition bytes_u32 :: "bytes \<Rightarrow> 32 word" where
  "bytes_u32 bs = word_of_int (rd32 bs)"

lemma length_u32_bytes [simp]: "length (u32_bytes w) = 4"
  by (simp add: u32_bytes_def)

lemma bytes_u32_bytes [simp]: "bytes_u32 (u32_bytes w) = w"
proof -
  have "(word_of_int (signed_take_bit 31 (uint w)) :: 32 word) = word_of_int (uint w)"
    unfolding word_of_int_eq_iff by (simp add: take_bit_signed_take_bit)
  then show ?thesis by (simp add: bytes_u32_def u32_bytes_def rd32_le32_mod)
qed

text \<open>The result is the status and the output parameter \<open>val\<close>.\<close>

definition counter_get :: "'d rocks \<Rightarrow> string \<Rightarrow> 32 word \<Rightarrow> 'd option \<Rightarrow> (bool \<times> 32 word) res" where
  "counter_get K key val db =
     with_db db (\<lambda>d. case k_get K True d (string_bytes key) of
       None \<Rightarrow> Inr (False, val)
     | Some data \<Rightarrow> ebind (mem_read 4 data) (\<lambda>bs. Inr (True, bytes_u32 bs)))"

text \<open>Reading the counter for an increment: the value to store, \<open>dflt\<close> when there is none.\<close>

definition counter_next :: "'d rocks \<Rightarrow> string \<Rightarrow> 32 word \<Rightarrow> 'd \<Rightarrow> 32 word res" where
  "counter_next K key dflt d =
     (case k_get K True d (string_bytes key) of
        None \<Rightarrow> Inr dflt
      | Some data \<Rightarrow> ebind (mem_read 4 data) (\<lambda>bs. Inr (bytes_u32 bs + 1)))"

definition counter_get_and_increment :: "'d rocks \<Rightarrow> string \<Rightarrow> 'd option \<Rightarrow> ((bool \<times> 32 word) \<times> 'd option) res" where
  "counter_get_and_increment K key db =
     with_db db (\<lambda>d. ebind (counter_next K key 0 d) (\<lambda>val.
       let (ok, d') = k_put K d (string_bytes key) (u32_bytes val) in Inr ((ok, val), Some d')))"

definition counter_increment :: "'d rocks \<Rightarrow> string \<Rightarrow> 32 word \<Rightarrow> 'd option \<Rightarrow> (bool \<times> 'd option) res" where
  "counter_increment K key default_value db =
     with_db db (\<lambda>d. ebind (counter_next K key default_value d) (\<lambda>val.
       let (ok, d') = k_put K d (string_bytes key) (u32_bytes val) in Inr (ok, Some d')))"

definition counter_set :: "'d rocks \<Rightarrow> string \<Rightarrow> 32 word \<Rightarrow> 'd option \<Rightarrow> (bool \<times> 'd option) res" where
  "counter_set K key val db =
     with_db db (\<lambda>d. let (ok, d') = k_put K d (string_bytes key) (u32_bytes val) in Inr (ok, Some d'))"

definition counter_remove_key :: "'d rocks \<Rightarrow> string \<Rightarrow> 'd option \<Rightarrow> (bool \<times> 'd option) res" where
  "counter_remove_key K key db =
     with_db db (\<lambda>d. let (ok, d') = k_delete K d (string_bytes key) in Inr (ok, Some d'))"

definition counter_flush :: "'d rocks \<Rightarrow> bool \<Rightarrow> 'd option \<Rightarrow> 'd option res" where
  "counter_flush K blocking db = with_db db (\<lambda>d. Inr (Some (snd (k_flush K blocking d))))"

definition approximate_size :: "'d rocks \<Rightarrow> 'd option \<Rightarrow> 64 word res" where
  "approximate_size K db =
     with_db db (\<lambda>d. case k_numKeys K d of None \<Rightarrow> Inl AssertFailed | Some v \<Rightarrow> Inr v)"

section \<open>Plain pairs\<close>

definition wrapper_get :: "'d rocks \<Rightarrow> string \<Rightarrow> string \<Rightarrow> 'd option \<Rightarrow> (bool \<times> string) res" where
  "wrapper_get K key data db =
     with_db db (\<lambda>d. case k_get K True d (string_bytes key) of
       None \<Rightarrow> Inr (False, data)
     | Some v \<Rightarrow> Inr (True, bytes_string v))"

definition wrapper_put :: "'d rocks \<Rightarrow> string \<Rightarrow> string \<Rightarrow> 'd option \<Rightarrow> (bool \<times> 'd option) res" where
  "wrapper_put K key data db =
     with_db db (\<lambda>d. let (ok, d') = k_put K d (string_bytes key) (string_bytes data) in Inr (ok, Some d'))"

text \<open>A \<open>Slice\<close> made from a \<open>const char*\<close> ends at the first NUL.\<close>

definition wrapper_put_cstr :: "'d rocks \<Rightarrow> string \<Rightarrow> string \<Rightarrow> 'd option \<Rightarrow> (bool \<times> 'd option) res" where
  "wrapper_put_cstr K key data db =
     with_db db (\<lambda>d. let (ok, d') = k_put K d (string_bytes (c_str key)) (string_bytes (c_str data)) in Inr (ok, Some d'))"

definition wrapper_remove :: "'d rocks \<Rightarrow> string \<Rightarrow> 'd option \<Rightarrow> (bool \<times> 'd option) res" where
  "wrapper_remove K key db =
     with_db db (\<lambda>d. let (ok, d') = k_delete K d (string_bytes key) in Inr (ok, Some d'))"

text \<open>
  The templates over \<open>std::array<uint8_t, N>\<close> and a trivially copyable \<open>V\<close> of \<open>n\<close> bytes; \<open>data\<close>
  holds the bytes of the output parameter.
\<close>

definition wrapper_get_array :: "'d rocks \<Rightarrow> nat \<Rightarrow> bytes \<Rightarrow> bytes \<Rightarrow> 'd option \<Rightarrow> (bool \<times> bytes) res" where
  "wrapper_get_array K n key data db =
     with_db db (\<lambda>d. case k_get K False d key of
       None \<Rightarrow> Inr (False, data)
     | Some v \<Rightarrow> ebind (mem_read n v) (\<lambda>bs. Inr (True, bs)))"

definition wrapper_get_ptr :: "'d rocks \<Rightarrow> nat \<Rightarrow> bytes \<Rightarrow> byte \<Rightarrow> bytes \<Rightarrow> 'd option \<Rightarrow> (bool \<times> bytes) res" where
  "wrapper_get_ptr K n key key_length data db =
     (if length key < unat key_length then Inl BadIndex
      else wrapper_get_array K n (take (unat key_length) key) data db)"

definition wrapper_put_array :: "'d rocks \<Rightarrow> bytes \<Rightarrow> bytes \<Rightarrow> 'd option \<Rightarrow> (bool \<times> 'd option) res" where
  "wrapper_put_array K key data db =
     with_db db (\<lambda>d. let (ok, d') = k_put K d key data in Inr (ok, Some d'))"

definition wrapper_remove_array :: "'d rocks \<Rightarrow> bytes \<Rightarrow> 'd option \<Rightarrow> (bool \<times> 'd option) res" where
  "wrapper_remove_array K key db =
     with_db db (\<lambda>d. let (ok, d') = k_delete K d key in Inr (ok, Some d'))"

definition wrapper_remove_ptr :: "'d rocks \<Rightarrow> bytes \<Rightarrow> byte \<Rightarrow> 'd option \<Rightarrow> (bool \<times> 'd option) res" where
  "wrapper_remove_ptr K key key_length db =
     (if length key < unat key_length then Inl BadIndex
      else wrapper_remove_array K (take (unat key_length) key) db)"

section \<open>Lists\<close>

text \<open>
  The serializer is a template parameter whose members are declared only: \<open>sr_ser\<close> gives the bytes
  of an element, \<open>sr_deser\<close> the element at the front of the remaining bytes and what is left, \<open>None\<close>
  for \<open>false\<close>.
\<close>

record 't serializer =
  sr_ser :: "'t \<Rightarrow> bytes"
  sr_deser :: "bytes \<Rightarrow> ('t \<times> bytes) option"

definition serializer_ok :: "'t serializer \<Rightarrow> bool" where
  "serializer_ok S \<longleftrightarrow> (\<forall>x rest. sr_deser S (sr_ser S x @ rest) = Some (x, rest)) \<and> sr_deser S [] = None"

text \<open>\<open>while (deser.deserialize(it, end, elt)) data.push_back(elt)\<close>; \<open>None\<close> is a loop that never ends.\<close>

partial_function (option) deserialize_loop :: "'t serializer \<Rightarrow> bytes \<Rightarrow> 't list \<Rightarrow> 't list option" where
  "deserialize_loop S raw data =
     (case sr_deser S raw of
        None \<Rightarrow> Some data
      | Some (elt, rest) \<Rightarrow> deserialize_loop S rest (data @ [elt]))"

declare deserialize_loop.simps [code]

definition list_get_key :: "'d rocks \<Rightarrow> 't serializer \<Rightarrow> bool \<Rightarrow> bytes \<Rightarrow> 't list \<Rightarrow> 'd option \<Rightarrow> (bool \<times> 't list) res" where
  "list_get_key K S verify key data db =
     with_db db (\<lambda>d. case k_get K verify d key of
       None \<Rightarrow> Inr (False, data)
     | Some raw \<Rightarrow> (case deserialize_loop S raw data of
         None \<Rightarrow> Inl OutOfFuel
       | Some xs \<Rightarrow> Inr (True, xs)))"

definition list_get :: "'d rocks \<Rightarrow> 't serializer \<Rightarrow> string \<Rightarrow> 't list \<Rightarrow> 'd option \<Rightarrow> (bool \<times> 't list) res" where
  "list_get K S key data db = list_get_key K S True (string_bytes key) data db"

definition list_get_ptr :: "'d rocks \<Rightarrow> 't serializer \<Rightarrow> bytes \<Rightarrow> byte \<Rightarrow> 't list \<Rightarrow> 'd option \<Rightarrow> (bool \<times> 't list) res" where
  "list_get_ptr K S key key_length data db =
     (if length key < unat key_length then Inl BadIndex
      else list_get_key K S False (take (unat key_length) key) data db)"

text \<open>The array overload passes its size \<open>N\<close> as an \<open>uint8_t\<close>.\<close>

definition list_get_array :: "'d rocks \<Rightarrow> 't serializer \<Rightarrow> bytes \<Rightarrow> 't list \<Rightarrow> 'd option \<Rightarrow> (bool \<times> 't list) res" where
  "list_get_array K S key data db = list_get_ptr K S key (of_nat (length key)) data db"

definition list_put :: "'d rocks \<Rightarrow> 't serializer \<Rightarrow> bytes \<Rightarrow> 't list \<Rightarrow> 'd option \<Rightarrow> (bool \<times> 'd option) res" where
  "list_put K S key data db =
     with_db db (\<lambda>d. let (ok, d') = k_put K d key (concat (map (sr_ser S) data)) in Inr (ok, Some d'))"

lemma deserialize_loop_concat:
  assumes "serializer_ok S"
  shows "deserialize_loop S (concat (map (sr_ser S) xs)) acc = Some (acc @ xs)"
proof (induction xs arbitrary: acc)
  case Nil
  then show ?case using assms by (subst deserialize_loop.simps) (simp add: serializer_ok_def)
next
  case (Cons x xs)
  then show ?case using assms by (subst deserialize_loop.simps) (simp add: serializer_ok_def)
qed

section \<open>Counters refine a map\<close>

datatype counter_op =
    CGet string "32 word"
  | CGetIncrement string
  | CIncrement string "32 word"
  | CSet string "32 word"
  | CRemove string

fun counter_spec :: "counter_op \<Rightarrow> (string \<rightharpoonup> 32 word) \<Rightarrow> (bool \<times> 32 word option) \<times> (string \<rightharpoonup> 32 word)" where
  "counter_spec (CGet k val) m = (case m k of None \<Rightarrow> (False, Some val) | Some c \<Rightarrow> (True, Some c), m)"
| "counter_spec (CGetIncrement k) m =
     (let c = (case m k of None \<Rightarrow> 0 | Some c \<Rightarrow> c + 1) in ((True, Some c), m(k \<mapsto> c)))"
| "counter_spec (CIncrement k dflt) m =
     (let c = (case m k of None \<Rightarrow> dflt | Some c \<Rightarrow> c + 1) in ((True, None), m(k \<mapsto> c)))"
| "counter_spec (CSet k val) m = ((True, None), m(k \<mapsto> val))"
| "counter_spec (CRemove k) m = ((True, None), m(k := None))"

fun counter_step :: "'d rocks \<Rightarrow> counter_op \<Rightarrow> 'd option \<Rightarrow> ((bool \<times> 32 word option) \<times> 'd option) res" where
  "counter_step K (CGet k val) db = ebind (counter_get K k val db) (\<lambda>(ok, v). Inr ((ok, Some v), db))"
| "counter_step K (CGetIncrement k) db = ebind (counter_get_and_increment K k db) (\<lambda>((ok, v), db). Inr ((ok, Some v), db))"
| "counter_step K (CIncrement k dflt) db = ebind (counter_increment K k dflt db) (\<lambda>(ok, db). Inr ((ok, None), db))"
| "counter_step K (CSet k val) db = ebind (counter_set K k val db) (\<lambda>(ok, db). Inr ((ok, None), db))"
| "counter_step K (CRemove k) db = ebind (counter_remove_key K k db) (\<lambda>(ok, db). Inr ((ok, None), db))"

definition counter_rel :: "'d rocks \<Rightarrow> (string \<rightharpoonup> 32 word) \<Rightarrow> 'd option \<Rightarrow> bool" where
  "counter_rel K m db \<longleftrightarrow> rocks_ok K \<and> rocks_healthy K \<and>
     (\<exists>d. db = Some d \<and> (\<forall>k. k_get K True d (string_bytes k) = map_option u32_bytes (m k)))"

lemma string_bytes_inj [simp]: "string_bytes a = string_bytes b \<longleftrightarrow> a = b"
  by (metis string_bytes_inverse)

lemma counter_rel_put:
  assumes "rocks_ok K" "rocks_healthy K" "\<forall>k. k_get K True d (string_bytes k) = map_option u32_bytes (m k)"
  obtains d' where "k_put K d (string_bytes k) (u32_bytes w) = (True, d')" "counter_rel K (m(k \<mapsto> w)) (Some d')"
proof -
  obtain d' where p: "k_put K d (string_bytes k) (u32_bytes w) = (True, d')" using healthy_put [OF assms(2)] by blast
  then have "counter_rel K (m(k \<mapsto> w)) (Some d')"
    using assms rocks_put [OF assms(1) p] by (simp add: counter_rel_def)
  then show ?thesis using p that by blast
qed

lemma counter_next_eq:
  "k_get K True d (string_bytes k) = map_option u32_bytes (m k) \<Longrightarrow>
     counter_next K k dflt d = Inr (case m k of None \<Rightarrow> dflt | Some c \<Rightarrow> c + 1)"
  by (cases "m k") (simp_all add: counter_next_def)

interpretation counter: simulation "counter_rel K" "\<lambda>_ _. True" counter_spec "counter_step K" for K
proof
  fix m db p
  assume "counter_rel K m db"
  then obtain d where d: "db = Some d" "\<forall>k. k_get K True d (string_bytes k) = map_option u32_bytes (m k)"
    and ok: "rocks_ok K" "rocks_healthy K" by (auto simp: counter_rel_def)
  note nxt = counter_next_eq [where m = m and K = K and d = d, OF d(2) [rule_format]]
  show "\<exists>t. counter_step K p db = Inr (fst (counter_spec p m), t) \<and> counter_rel K (snd (counter_spec p m)) t"
  proof (cases p)
    case (CGet k v)
    then show ?thesis using d ok by (cases "m k") (auto simp: counter_get_def counter_rel_def)
  next
    case (CGetIncrement k)
    obtain d' where "k_put K d (string_bytes k) (u32_bytes (case m k of None \<Rightarrow> 0 | Some c \<Rightarrow> c + 1)) = (True, d')"
      "counter_rel K (m(k \<mapsto> (case m k of None \<Rightarrow> 0 | Some c \<Rightarrow> c + 1))) (Some d')"
      using counter_rel_put [OF ok d(2)] by metis
    then show ?thesis using CGetIncrement d nxt by (simp add: counter_get_and_increment_def Let_def)
  next
    case (CIncrement k v)
    obtain d' where "k_put K d (string_bytes k) (u32_bytes (case m k of None \<Rightarrow> v | Some c \<Rightarrow> c + 1)) = (True, d')"
      "counter_rel K (m(k \<mapsto> (case m k of None \<Rightarrow> v | Some c \<Rightarrow> c + 1))) (Some d')"
      using counter_rel_put [OF ok d(2)] by metis
    then show ?thesis using CIncrement d nxt by (simp add: counter_increment_def Let_def)
  next
    case (CSet k v)
    obtain d' where "k_put K d (string_bytes k) (u32_bytes v) = (True, d')" "counter_rel K (m(k \<mapsto> v)) (Some d')"
      using counter_rel_put [OF ok d(2)] by metis
    then show ?thesis using CSet d by (simp add: counter_set_def)
  next
    case (CRemove k)
    obtain d' where p: "k_delete K d (string_bytes k) = (True, d')" using healthy_delete [OF ok(2)] by blast
    then have "counter_rel K (m(k := None)) (Some d')"
      using ok d rocks_delete [OF ok(1) p] by (simp add: counter_rel_def)
    then show ?thesis using CRemove d p by (simp add: counter_remove_key_def)
  qed
qed

text \<open>A store in memory that satisfies the laws.\<close>

definition toy_rocks :: "(bytes \<rightharpoonup> bytes) rocks" where
  "toy_rocks =
     \<lparr>k_open = (\<lambda>_ _. Some Map.empty), k_get = (\<lambda>_ d k. d k), k_put = (\<lambda>d k v. (True, d(k \<mapsto> v))),
      k_delete = (\<lambda>d k. (True, d(k := None))), k_flush = (\<lambda>_ d. (True, d)), k_numKeys = (\<lambda>_. Some 0),
      k_concurrent = True\<rparr>"

lemma toy_rocks_ok: "rocks_ok toy_rocks" "rocks_healthy toy_rocks"
  by (auto simp: rocks_ok_def rocks_healthy_def toy_rocks_def)

section \<open>Properties\<close>

text \<open>
  (C17) A counter store on a database that holds no keys answers every sequence of operations
  like a map of 32-bit words: \<open>get_and_increment\<close> starts a missing counter at 0 and \<open>increment\<close> at its
  default, counters wrap around at \<open>2^32\<close>, and no read runs past the stored bytes.
\<close>

theorem rocks_counters_refine_map:
  assumes "rocks_ok K" "rocks_healthy K" "RocksDBCounter_new K path = Some d" "\<forall>k. k_get K True d k = None"
  shows "\<exists>t. crun (counter_step K) ops (RocksDBCounter_new K path) = Inr (fst (arun counter_spec ops Map.empty), t)"
proof -
  have "counter_rel K Map.empty (RocksDBCounter_new K path)"
    using assms by (simp add: counter_rel_def)
  moreover have "all_ok (\<lambda>_ _. True) counter_spec ops Map.empty"
  proof -
    have "all_ok (\<lambda>_ _. True) counter_spec ps m" for ps m by (induction ps arbitrary: m) auto
    then show ?thesis .
  qed
  ultimately show ?thesis by (rule counter.run_outputs)
qed

theorem rocks_counters_refine_map_witness:
  "\<exists>t. crun (counter_step toy_rocks) [CSet ''k'' (- 1), CGetIncrement ''k'', CIncrement ''j'' 7, CGet ''j'' 0]
       (RocksDBCounter_new toy_rocks ''db'') =
     Inr ([(True, None), (True, Some 0), (True, None), (True, Some 7)], t)"
proof -
  have "RocksDBCounter_new toy_rocks ''db'' = Some Map.empty" "\<forall>k. k_get toy_rocks True Map.empty k = None"
    by (simp_all add: RocksDBCounter_new_def toy_rocks_def)
  from rocks_counters_refine_map [OF toy_rocks_ok this,
      of "[CSet ''k'' (- 1), CGetIncrement ''k'', CIncrement ''j'' 7, CGet ''j'' 0]"]
  show ?thesis by simp
qed

text \<open>
  (C28) A list that \<open>RockDBListStore\<close> has stored under an array of fewer than 256 bytes is read back
  in order, appended to the caller's list; the reading loop ends.
\<close>

theorem list_store_roundtrip:
  assumes "rocks_ok K" "serializer_ok S" "length key < 256" "list_put K S key xs (Some d) = Inr (True, db)"
  shows "list_get_array K S key data db = Inr (True, data @ xs)"
proof -
  obtain d' where d': "k_put K d key (concat (map (sr_ser S) xs)) = (True, d')" "db = Some d'"
    using assms(4) by (auto simp: list_put_def split: prod.splits)
  have "unat (of_nat (length key) :: byte) = length key" using assms(3) by (simp add: unat_of_nat)
  then show ?thesis
    using d' rocks_put [OF assms(1) d'(1)] deserialize_loop_concat [OF assms(2)]
    by (simp add: list_get_array_def list_get_ptr_def list_get_key_def)
qed

theorem list_store_roundtrip_witness:
  "\<exists>db. list_put toy_rocks \<lparr>sr_ser = (\<lambda>b. [b]), sr_deser = (\<lambda>bs. case bs of [] \<Rightarrow> None | b # r \<Rightarrow> Some (b, r))\<rparr> [1, 2] [5, 6]
         (Some Map.empty) = Inr (True, db) \<and>
       list_get_array toy_rocks \<lparr>sr_ser = (\<lambda>b. [b]), sr_deser = (\<lambda>bs. case bs of [] \<Rightarrow> None | b # r \<Rightarrow> Some (b, r))\<rparr> [1, 2] [4] db =
         Inr (True, [4, 5, 6])"
proof -
  let ?S = "\<lparr>sr_ser = (\<lambda>b. [b]), sr_deser = (\<lambda>bs :: bytes. case bs of [] \<Rightarrow> None | b # r \<Rightarrow> Some (b, r))\<rparr>"
  have ok: "serializer_ok ?S" by (simp add: serializer_ok_def)
  obtain db where db: "list_put toy_rocks ?S [1, 2] [5, 6] (Some Map.empty) = Inr (True, db)"
    by (simp add: list_put_def toy_rocks_def)
  show ?thesis using list_store_roundtrip [OF toy_rocks_ok(1) ok _ db, of "[4]"] db by auto
qed

text \<open>
  The array overload of \<open>get\<close> truncates the size of longer keys to one byte, \<open>put\<close> does not: a list
  stored under 256 bytes is looked up under the empty key.
\<close>

lemma list_get_array_truncates:
  "length key = 256 \<Longrightarrow> list_get_array K S key data db = list_get_key K S False [] data db"
  by (simp add: list_get_array_def list_get_ptr_def)

end
