(* ===== verification/Keyword_Map.thy ===== *)
theory Keyword_Map
  imports Utilities Static_Bas
begin

text \<open>
  The remaining helpers of \<open>utils/utils.cpp\<close> and \<open>utils.hpp\<close>: hexadecimal numbers and the text
  form of a keyword map, one line per keyword with seven blanks before the hexadecimal index,
  which \<open>parse_keyword_map\<close> reads back.
\<close>

section \<open>Hexadecimal numbers\<close>

text \<open>\<open>out << std::hex << n\<close>, and with \<open>setw(w)\<close> and \<open>setfill('0')\<close>.\<close>

fun show_hex :: "nat \<Rightarrow> string" where
  "show_hex n = (if n < 16 then [hex_digit n] else show_hex (n div 16) @ [hex_digit (n mod 16)])"

declare show_hex.simps [simp del]

definition fill_hex :: "nat \<Rightarrow> nat \<Rightarrow> string" where
  "fill_hex w n = replicate (w - length (show_hex n)) (CHR ''0'') @ show_hex n"

definition hex_string64 :: "64 word \<Rightarrow> string" where
  "hex_string64 a = fill_hex 16 (unat a)"

definition hex_string32 :: "32 word \<Rightarrow> string" where
  "hex_string32 a = fill_hex 8 (unat a)"

definition print_hex :: "string \<Rightarrow> bytes \<Rightarrow> string" where
  "print_hex out s = out @ hex_string s"

text \<open>\<open>std::stoul(s, NULL, 16)\<close>; a minus sign negates the value modulo \<open>2^64\<close>.\<close>

definition hex_val :: "char \<Rightarrow> nat option" where
  "hex_val c = (let n = of_char c :: nat in
     if 48 \<le> n \<and> n \<le> 57 then Some (n - 48)
     else if 97 \<le> n \<and> n \<le> 102 then Some (n - 87)
     else if 65 \<le> n \<and> n \<le> 70 then Some (n - 55) else None)"

definition hex_digits :: "string \<Rightarrow> string" where
  "hex_digits s = takeWhile (\<lambda>c. hex_val c \<noteq> None) s"

definition hex_num :: "string \<Rightarrow> nat" where
  "hex_num s = foldl (\<lambda>a c. 16 * a + the (hex_val c)) 0 s"

definition skip_0x :: "string \<Rightarrow> string" where
  "skip_0x s = (case s of z # x # r \<Rightarrow>
       if z = CHR ''0'' \<and> (x = CHR ''x'' \<or> x = CHR ''X'') \<and> hex_digits r \<noteq> [] then r else s
     | _ \<Rightarrow> s)"

definition stoul16 :: "string \<Rightarrow> nat res" where
  "stoul16 s =
     (let t = dropWhile is_space s;
          neg = (t \<noteq> [] \<and> hd t = CHR ''-'');
          u = (if t \<noteq> [] \<and> (hd t = CHR ''-'' \<or> hd t = CHR ''+'') then tl t else t);
          ds = hex_digits (skip_0x u)
      in if ds = [] then Inl InvalidArgument
         else if 2 ^ 64 \<le> hex_num ds then Inl OutOfRange
         else Inr (if neg then (2 ^ 64 - hex_num ds) mod 2 ^ 64 else hex_num ds))"

section \<open>Keyword maps\<close>

definition newline :: char where "newline = CHR 0x0A"

text \<open>The text written so far is the first argument; the map is given in its iteration order.\<close>

definition append_keyword_map :: "string \<Rightarrow> string \<Rightarrow> 32 word \<Rightarrow> string" where
  "append_keyword_map out kw index = out @ kw @ ''       '' @ show_hex (unat index) @ [newline]"

fun write_keyword_map :: "string \<Rightarrow> (string \<times> 32 word) list \<Rightarrow> string" where
  "write_keyword_map out [] = out"
| "write_keyword_map out ((kw, index) # ps) =
     write_keyword_map (out @ kw @ ''       '' @ show_hex (unat index) @ [newline]) ps"

text \<open>\<open>std::getline\<close>: \<open>None\<close> when nothing is left; otherwise the field and the rest.\<close>

definition getline :: "char \<Rightarrow> string \<Rightarrow> (string \<times> string) option" where
  "getline c s = (if s = [] then None
     else Some (takeWhile (\<lambda>x. x \<noteq> c) s, drop 1 (dropWhile (\<lambda>x. x \<noteq> c) s)))"

lemma getline_shorter: "getline c s = Some (l, r) \<Longrightarrow> length r < length s"
proof -
  assume a: "getline c s = Some (l, r)"
  then have "s \<noteq> []" "r = drop 1 (dropWhile (\<lambda>x. x \<noteq> c) s)" by (auto simp: getline_def split: if_splits)
  moreover have "length (dropWhile (\<lambda>x. x \<noteq> c) s) \<le> length s" by (rule length_dropWhile_le)
  ultimately show ?thesis by (cases s) auto
qed

text \<open>
  One round of the loop per line; the second component is the map, whose \<open>insert\<close> keeps an
  existing entry, and the first whether all lines could be read.
\<close>

function parse_keyword_map :: "string \<Rightarrow> (string \<times> 32 word) list \<Rightarrow> (bool \<times> (string \<times> 32 word) list) res" where
  "parse_keyword_map input kw_map =
     (case getline newline input of
        None \<Rightarrow> Inr (True, kw_map)
      | Some (line, input') \<Rightarrow>
         (case getline (CHR '' '') line of
            None \<Rightarrow> Inr (False, kw_map)
          | Some (kw, line') \<Rightarrow>
             (case getline newline line' of
                None \<Rightarrow> Inr (False, kw_map)
              | Some (index_string, _) \<Rightarrow>
                  ebind (stoul16 index_string) (\<lambda>n.
                  parse_keyword_map input' (um_insert (kw, of_nat n) kw_map)))))"
  by pat_completeness auto

termination
  by (relation "measure (\<lambda>(s, m). length s)") (auto dest: getline_shorter)

declare parse_keyword_map.simps [simp del]

lemma parse_nil: "parse_keyword_map [] m = Inr (True, m)"
  by (subst parse_keyword_map.simps) (simp add: getline_def)

lemma parse_step:
  assumes "getline newline input = Some (line, input')" "getline (CHR '' '') line = Some (kw, line')"
    "getline newline line' = Some (ix, r)" "stoul16 ix = Inr n"
  shows "parse_keyword_map input m = parse_keyword_map input' (um_insert (kw, of_nat n) m)"
  by (subst parse_keyword_map.simps) (simp add: assms)

section \<open>Reading a written map\<close>

lemma hex_val_digit_all: "\<forall>d\<in>set [0..<16]. hex_val (hex_digit d) = Some d \<and> hex_digit d \<noteq> newline \<and> \<not> is_space (hex_digit d) \<and>
    hex_digit d \<noteq> CHR ''-'' \<and> hex_digit d \<noteq> CHR ''+'' \<and> hex_digit d \<noteq> CHR ''x'' \<and> hex_digit d \<noteq> CHR ''X''"
  by code_simp

lemma hex_digit_facts:
  assumes "d < 16"
  shows "hex_val (hex_digit d) = Some d" "hex_digit d \<noteq> newline" "\<not> is_space (hex_digit d)"
    "hex_digit d \<noteq> CHR ''-''" "hex_digit d \<noteq> CHR ''+''" "hex_digit d \<noteq> CHR ''x''" "hex_digit d \<noteq> CHR ''X''"
  using hex_val_digit_all assms by auto

lemma show_hex_digits: "c \<in> set (show_hex n) \<Longrightarrow> \<exists>d<16. c = hex_digit d"
proof (induction n rule: show_hex.induct)
  case (1 n)
  then show ?case
    by (subst (asm) show_hex.simps) (auto split: if_splits intro: exI [of _ "n mod 16"])
qed

lemma show_hex_nonempty [simp]: "show_hex n \<noteq> []"
  by (subst show_hex.simps) simp

lemma hex_num_show: "hex_num (show_hex n) = n"
proof (induction n rule: show_hex.induct)
  case (1 n)
  show ?case
  proof (cases "n < 16")
    case True
    then show ?thesis by (subst show_hex.simps) (simp add: hex_num_def hex_digit_facts)
  next
    case False
    then have "hex_num (show_hex (n div 16)) = n div 16" by (rule "1.IH")
    with False show ?thesis by (subst show_hex.simps) (simp add: hex_num_def hex_digit_facts)
  qed
qed

lemma skip_0x_show: "skip_0x (show_hex n) = show_hex n"
proof -
  have "\<forall>c\<in>set (show_hex n). c \<noteq> CHR ''x'' \<and> c \<noteq> CHR ''X''"
    using show_hex_digits hex_digit_facts(6,7) by metis
  then show ?thesis by (auto simp: skip_0x_def split: list.splits)
qed

lemma stoul16_show:
  assumes "n < 2 ^ 64"
  shows "stoul16 (replicate k (CHR '' '') @ show_hex n) = Inr n"
proof -
  have digit: "\<forall>c\<in>set (show_hex n). hex_val c \<noteq> None \<and> \<not> is_space c \<and> c \<noteq> CHR ''-'' \<and> c \<noteq> CHR ''+''"
    using show_hex_digits hex_digit_facts by (metis option.distinct(1))
  obtain c cs where c: "show_hex n = c # cs" by (cases "show_hex n") auto
  have "dropWhile is_space (replicate k (CHR '' '') @ show_hex n) = dropWhile is_space (show_hex n)"
    by (induction k) (simp_all add: is_space_def)
  also have "\<dots> = show_hex n" using digit c by simp
  finally have sp: "dropWhile is_space (replicate k (CHR '' '') @ show_hex n) = show_hex n" .
  have hd: "hd (show_hex n) \<noteq> CHR ''-''" "hd (show_hex n) \<noteq> CHR ''+''" using digit c by simp_all
  have "hex_digits (show_hex n) = show_hex n" using digit by (simp add: hex_digits_def takeWhile_eq_all_conv)
  then show ?thesis using sp hd assms by (simp add: stoul16_def Let_def skip_0x_show hex_num_show)
qed

lemma getline_field: "c \<notin> set a \<Longrightarrow> getline c (a @ c # b) = Some (a, b)"
  by (simp add: getline_def takeWhile_append dropWhile_append takeWhile_eq_all_conv)

lemma getline_all: "c \<notin> set a \<Longrightarrow> a \<noteq> [] \<Longrightarrow> getline c a = Some (a, [])"
proof -
  assume a: "c \<notin> set a" "a \<noteq> []"
  then have "\<forall>x\<in>set a. x \<noteq> c" by metis
  then have "takeWhile (\<lambda>x. x \<noteq> c) a = a" "dropWhile (\<lambda>x. x \<noteq> c) a = []"
    by (simp_all only: takeWhile_eq_all_conv dropWhile_eq_Nil_conv)
  then show ?thesis unfolding getline_def by (simp only: a if_False drop_Nil)
qed

definition kw_line_ok :: "string \<Rightarrow> bool" where
  "kw_line_ok kw \<longleftrightarrow> CHR '' '' \<notin> set kw \<and> newline \<notin> set kw"

lemma write_keyword_map_append: "write_keyword_map out ps = out @ write_keyword_map [] ps"
proof (induction ps arbitrary: out)
  case (Cons p ps)
  obtain kw index where p: "p = (kw, index)" by (cases p)
  show ?case unfolding p write_keyword_map.simps by (subst (1 2) Cons.IH) simp
qed simp

lemma parse_line:
  assumes "kw_line_ok kw"
  shows "parse_keyword_map (kw @ ''       '' @ show_hex (unat w) @ newline # rest) m =
    parse_keyword_map rest (um_insert (kw, w) m)"
proof -
  have nl: "newline \<notin> set (show_hex n)" for n using show_hex_digits hex_digit_facts(2) by metis
  have sp: "newline \<noteq> CHR '' ''" by (simp add: newline_def)
  let ?line = "kw @ ''       '' @ show_hex (unat w)"
  have "newline \<notin> set ?line" using assms nl sp by (auto simp: kw_line_ok_def)
  then have 1: "getline newline (kw @ ''       '' @ show_hex (unat w) @ newline # rest) = Some (?line, rest)"
    using getline_field [of newline ?line rest] by simp
  have 2: "getline (CHR '' '') ?line = Some (kw, ''      '' @ show_hex (unat w))"
    using getline_field [of "CHR '' ''" kw "''      '' @ show_hex (unat w)"] assms by (simp add: kw_line_ok_def)
  have 3: "getline newline (''      '' @ show_hex (unat w)) = Some (''      '' @ show_hex (unat w), [])"
    using nl sp by (intro getline_all) auto
  have six_blanks: "replicate 6 (CHR '' '') = ''      ''" by (simp add: numeral_eq_Suc)
  have "unat w < 2 ^ 32" using unsigned_less [of w] by simp
  then have "unat w < 2 ^ 64" by simp
  then have "stoul16 (''      '' @ show_hex (unat w)) = Inr (unat w)"
    using stoul16_show [of "unat w" 6] unfolding six_blanks by blast
  then show ?thesis using parse_step [OF 1 2 3, of "unat w" m] by simp
qed

lemma parse_written:
  assumes "\<forall>kw\<in>fst ` set ps. kw_line_ok kw"
  shows "parse_keyword_map (write_keyword_map [] ps) m = Inr (True, um_insert_range ps m)"
  using assms
proof (induction ps arbitrary: m)
  case Nil
  then show ?case by (simp add: parse_nil um_insert_range_def)
next
  case (Cons p ps)
  obtain kw w where p: "p = (kw, w)" by (cases p)
  have "parse_keyword_map (write_keyword_map [] (p # ps)) m =
      parse_keyword_map (kw @ ''       '' @ show_hex (unat w) @ newline # write_keyword_map [] ps) m"
    unfolding p write_keyword_map.simps by (subst write_keyword_map_append) simp
  also have "\<dots> = parse_keyword_map (write_keyword_map [] ps) (um_insert (kw, w) m)"
    using Cons.prems p by (intro parse_line) simp
  also have "\<dots> = Inr (True, um_insert_range ps (um_insert (kw, w) m))" using Cons by simp
  finally show ?case by (simp add: p um_insert_range_def)
qed

section \<open>Properties\<close>

text \<open>
  (C29) \<open>parse_keyword_map\<close> reads back what \<open>write_keyword_map\<close> wrote, and a line added with
  \<open>append_keyword_map\<close>: every keyword without blanks and line feeds gets its 32-bit index again.
\<close>

theorem keyword_map_roundtrip:
  assumes "distinct (map fst ps)" "\<forall>kw\<in>fst ` set ps. kw_line_ok kw" "kw_line_ok kw" "kw \<notin> fst ` set ps"
  shows "parse_keyword_map (append_keyword_map (write_keyword_map [] ps) kw w) [] = Inr (True, ps @ [(kw, w)])"
proof -
  have "append_keyword_map (write_keyword_map [] ps) kw w = write_keyword_map [] (ps @ [(kw, w)])"
  proof -
    have "write_keyword_map out (ps @ [(kw, w)]) = append_keyword_map (write_keyword_map out ps) kw w" for out
      by (induction ps arbitrary: out) (auto simp: append_keyword_map_def)
    then show ?thesis by simp
  qed
  moreover have "um_insert_range (ps @ [(kw, w)]) [] = ps @ [(kw, w)]"
    using um_insert_range_fresh [of "ps @ [(kw, w)]" "[]"] assms by simp
  ultimately show ?thesis using parse_written [of "ps @ [(kw, w)]" "[]"] assms by auto
qed

theorem keyword_map_roundtrip_witness:
  "parse_keyword_map (append_keyword_map (write_keyword_map [] [(''alpha'', 0), (''beta'', 48879)]) ''gamma'' 4294967295) [] =
     Inr (True, [(''alpha'', 0), (''beta'', 48879), (''gamma'', 4294967295)])"
proof -
  have "kw_line_ok ''gamma''" "\<forall>kw\<in>fst ` set [(''alpha'', 0 :: 32 word), (''beta'', 48879)]. kw_line_ok kw"
    by (simp_all add: kw_line_ok_def newline_def)
  from keyword_map_roundtrip [OF _ this(2,1), of 4294967295] show ?thesis by simp
qed


end
