(* ===== verification/Spec2Isabelle.thy ===== *)
theory Spec2Isabelle
  imports Amortized_Correct De_Amortized_Correct Mitra_Bulk Qos_Correct Horus_Limits Prf_Limits Oram_Correct Rocks_Store Keyword_Map
begin

text \<open>
  Verification of the searchable-encryption library: the schemes SDA and SDD (\<open>static/\<close>), Mitra
  (\<open>mitra/\<close>), QOS (\<open>qos/\<close>) and Horus (\<open>horus/\<close>), all under \<open>src/\<close>, and what they are built on.

  \<^bold>\<open>The program and the theories.\<close> A client keeps small state and stores encrypted records with a
  server. The lower layers, from the bottom:

  \<^item> \<open>Prelude\<close>: bytes, 32-bit integers in byte arrays, the results \<open>error + 'a\<close> (every exception,
    failed assertion, out-of-range access or overflow of a fixed buffer is a value \<open>Inl e\<close>).
    \<open>Cpp_Strings\<close>: \<open>to_string\<close>, \<open>stoi\<close>, C strings. \<open>Utilities\<close>: \<open>utils/Utilities.cpp\<close> and the masks and
    hexadecimal output of \<open>utils/utils.cpp\<close>, \<open>utils.hpp\<close>; \<open>Keyword_Map\<close>: the text format of a keyword map in
    \<open>utils/utils.hpp\<close> with its parser.
  \<^item> \<open>Block_Id\<close>: the class \<open>Bid\<close>. \<open>Aes\<close>: the class \<open>AES\<close> and the block store \<open>RAMStore\<close>.
  \<^item> \<open>Oram\<close>: the Path ORAM \<open>ORAM.cpp\<close>, one definition per method; the record \<open>oram\<close> has the members of
    the class, the stash is the association list \<open>o_cache\<close>. \<open>Avl_Tree\<close>: \<open>AVLTree.cpp\<close>, whose nodes live in
    the ORAM. \<open>Omap\<close>: \<open>OMAP.cpp\<close>. The four copies of these classes (\<open>static\<close>, \<open>mitra\<close>, \<open>qos\<close>, \<open>horus\<close>) differ
    in the size of identifiers and a few tests, which the field \<open>e_scheme\<close> selects, and in their
    counter operations, which are separate definitions.
  \<^item> \<open>Static_Bas\<close>: the encrypted dictionaries of the static schemes. \<open>Amortized\<close>, \<open>De_Amortized\<close>: SDA and
    SDD. \<open>Sse_Common\<close>, \<open>Mitra\<close>, \<open>Qos\<close>: the clients and servers of Mitra and QOS. \<open>Prf_Oram\<close>, \<open>Horus\<close>: the
    ORAM with chosen positions and the Horus client. \<open>Rocks_Store\<close>: \<open>utils/rocksdb_wrapper\<close>.

  Unspecified choices of the program are parameters in records of functions: \<open>env\<close> (cipher,
  initialisation vectors, random numbers, iteration order of hash maps, sorting, padding bytes of
  structures, uninitialised members), \<open>senv\<close>, \<open>denv\<close>, \<open>menv\<close>, \<open>qenv\<close>, \<open>henv\<close>. What is assumed of
  them is stated by \<open>env_ok\<close>, \<open>senv_ok\<close> and the like: decryption inverts encryption, the generator
  yields a block, an iteration visits every element once. Each such predicate holds of a concrete
  instance (\<open>toy_env\<close>, \<open>toy_senv\<close>, \<dots>), on which the witnesses run.

  \<^bold>\<open>What is proved.\<close>

  \<^item> \<open>Oram_Inv\<close>, \<open>Oram_Ops\<close>, \<open>Oram_Write\<close>, \<open>Oram_Refresh\<close>: the ORAM is a memory of nodes. The relation
    \<open>oram_rep\<close> says which nodes it holds, where and with which positions; each method is described by
    its effect on this memory, and the relation is kept through fetching, writing back and the
    choice of new positions.
  \<^item> \<open>Avl_Rep\<close>, \<open>Avl_Spec\<close>, \<open>Avl_Insert\<close>, \<open>Avl_Search\<close>: the tree in the memory is a functional tree, and
    insertion, lookup and the counter operations implement functions on it that keep it ordered
    and balanced.
  \<^item> \<open>Omap_Correct\<close>, \<open>Omap_Counters\<close>: the oblivious map refines a map, and its counters numbers;
    \<open>Oram_Correct\<close> states the invariants that hold after every run. The recursion of the tree is
    given fuel, and \<open>omap_top\<close>, the height the program itself assumes of its trees, is
    enough.
  \<^item> \<open>Bulk_Tree\<close>, \<open>Bulk_Pack\<close>, \<open>Omap_Bulk\<close>: bulk loading. \<open>sortedArrayToBST\<close> builds the balanced tree of the
    sorted pairs, packing loses no node and keeps each on the path of its position, and the loaded map
    is one on which all operations work. \<open>Mitra_Bulk\<close>: Mitra with its setup, end to end.
  \<^item> \<open>Sse_Spec\<close> holds the abstract database and the locale \<open>simulation\<close>, the interface between a
    scheme and the database: one operation of a scheme is simulated, hence every run. It is
    interpreted for the oblivious map, its counters, the disk counters, \<open>PRFORAM\<close>, Horus, QOS and, through the locale
    \<open>mitra_counters\<close> for the two ways of keeping counters (it extends \<open>mitra_updates\<close>, which the
    counters of the setup satisfy too), for Mitra (\<open>Mitra_Correct\<close>,
    \<open>Qos_Correct\<close>; \<open>Qos_Tree\<close> has the covering sets of the server).
  \<^item> \<open>Placement\<close>, \<open>Prf_Rep\<close>, \<open>Prf_Correct\<close>: \<open>PRFORAM\<close> refines a map, for single and batched operations.
    \<open>Placement\<close> is the argument about buckets and stash without the format of the blocks.
    \<open>Prf_Limits\<close>: how many writes it accepts.
  \<^item> Horus: \<open>Horus_Keys\<close>, identifiers and positions are injective in what they encode. \<open>Horus_Bisect\<close>,
    \<open>Horus_Find\<close>: the bisection of a search, for one slot with a bound on the rounds, and for all slots
    with the answers taken from the ORAM. \<open>Horus_Steps\<close>: the update map, the counters and the boxes as
    three maps (\<open>hmaps\<close>). \<open>Horus_Rep\<close>: what the maps hold for one keyword (\<open>kw_state\<close>): the identifiers in
    their slots, the access count of each slot, and the boxes written since the last search.
    \<open>Horus_Insert\<close>, \<open>Horus_Remove\<close>, \<open>Horus_Search\<close>: the three operations on it. \<open>Horus_Correct\<close>: the
    end-to-end theorem; \<open>Horus_Limits\<close>: the operations that throw.
  \<^item> \<open>Amortized_Correct\<close>: the invariant of the levels of SDA and its end-to-end theorem.
    \<open>De_Amortized_Correct\<close>: the schedule of SDD as a function of the number of updates, which gives the
    bound on the instances of a level, and from it the end-to-end theorem for structures whose
    levels are all kept by the client.
  \<^item> The theorems named in error claims state where the code departs from its purpose, on
    concrete or general inputs.

  \<^bold>\<open>Bounds.\<close> Keywords are short enough to leave the counters written behind them in a 16-byte array
  intact and hold no NUL; identifiers are 32-bit integers; counters of the oblivious maps stay
  within the text that fits 16 bytes; a map is filled up to \<open>omap_cap\<close> keys, for which its trees keep the
  height that \<open>finilize\<close> serves. For Horus: keywords of at most twelve characters, fewer than 9990 operations (so
  that texts fit 16 bytes and the interval of the bisection is below \<open>2 ^ 14\<close>), as many writes as
  the ORAM has blocks; \<open>h_rounds\<close> is the fuel of the search loop, and nineteen rounds are enough. Loops without a structural bound (\<open>pack_all\<close>, \<open>splitData\<close>) have a termination
  proof; searching loops over a dictionary are \<open>partial_function (option)\<close> and their
  theorems say that they return.

  \<^bold>\<open>Not modelled.\<close> Logging, printing and timing; statistics of communication sizes; the file-system
  helpers; the remote-procedure-call definition \<open>protos/mitra.proto\<close>, for which no code is generated; the
  third-party directory; the test programs; \<open>static/Server.cpp\<close>, a copy of Mitra's server that nothing
  uses. RocksDB, OpenSSL, the generator \<open>Prg\<close> and the sorting and hashing of the standard library are parameters.
  Modelled without an end-to-end theorem: the levels of SDD beyond \<open>localSize\<close>, the setup of QOS, Horus
  and SDD above the bulk load of their maps, and the bulk load of \<open>PRFORAM\<close>.
\<close>

end
